(* ===== verification/Prelude.thy ===== *)
theory Prelude
  imports Main "HOL-Library.Word" "HOL-Library.Monad_Syntax"
begin

text \<open>
  Shared vocabulary of the development: the machine types of the code, the option monad in
  which an operation whose assertion fails yields \<open>None\<close>, loops over a list of items as
  \<open>foldM\<close>, and the generic list lemmas the components use.
\<close>

unbundle bit_operations_syntax

declare push_bit_of_1 [simp del]

type_synonym u16 = "16 word"
type_synonym u32 = "32 word"
type_synonym u64 = "64 word"

lemma unat_of_nat_u32: "n < 2 ^ 32 \<Longrightarrow> unat (of_nat n :: u32) = n"
  by (simp add: unsigned_of_nat take_bit_eq_mod)

named_theorems kv_simps \<open>unfolding of the cell operations\<close>
named_theorems inv_intros \<open>preservation of the component invariants\<close>

section \<open>Assertions and loops in the option monad\<close>

definition assertion :: "bool \<Rightarrow> unit option" where
  "assertion b = (if b then Some () else None)"

lemma assertion_True [simp]: "b \<Longrightarrow> assertion b = Some ()"
  by (simp add: assertion_def)

lemma assertion_False [simp]: "\<not> b \<Longrightarrow> assertion b = None"
  by (simp add: assertion_def)

lemma bind_assertion_iff [simp]:
  "Option.bind (assertion b) f = Some y \<longleftrightarrow> b \<and> f () = Some y"
  by (cases b) auto

lemma bind_Some_iff:
  "Option.bind m f = Some y \<longleftrightarrow> (\<exists>x. m = Some x \<and> f x = Some y)"
  by (cases m) auto

fun foldM :: "('a \<Rightarrow> 's \<Rightarrow> 's option) \<Rightarrow> 'a list \<Rightarrow> 's \<Rightarrow> 's option" where
  "foldM f [] s = Some s"
| "foldM f (x # xs) s = Option.bind (f x s) (foldM f xs)"

lemma foldM_append:
  "foldM f (xs @ ys) s = Option.bind (foldM f xs s) (foldM f ys)"
  by (induction xs arbitrary: s) (auto split: bind_splits)

lemma foldM_cong [fundef_cong]:
  "xs = ys \<Longrightarrow> s = t \<Longrightarrow> (\<And>x u. x \<in> set ys \<Longrightarrow> f x u = g x u) \<Longrightarrow> foldM f xs s = foldM g ys t"
  by (induction ys arbitrary: xs s t) (auto intro!: Option.bind_cong)

text \<open>An invariant that every iteration keeps, when every iteration succeeds under it.\<close>

lemma foldM_invariant:
  assumes "I [] s"
    and "\<And>ys x t. \<lbrakk> I ys t; x \<in> set xs; \<exists>zs. xs = ys @ x # zs \<rbrakk> \<Longrightarrow> \<exists>t'. f x t = Some t' \<and> I (ys @ [x]) t'"
  shows "\<exists>t. foldM f xs s = Some t \<and> I xs t"
  using assms
proof (induction xs arbitrary: s rule: rev_induct)
  case Nil
  then show ?case by simp
next
  case (snoc x xs)
  have "\<exists>t. foldM f xs s = Some t \<and> I xs t"
  proof (rule snoc.IH)
    show "I [] s" by (rule snoc.prems(1))
    show "\<exists>t'. f y t = Some t' \<and> I (ys @ [y]) t'"
      if y: "I ys t" "y \<in> set xs" and ex: "\<exists>zs. xs = ys @ y # zs" for ys y t
    proof (rule snoc.prems(2) [OF y(1)])
      show "y \<in> set (xs @ [x])" using y(2) by simp
      from ex obtain zs where "xs = ys @ y # zs" by blast
      then show "\<exists>zs. xs @ [x] = ys @ y # zs" by (intro exI [of _ "zs @ [x]"]) simp
    qed
  qed
  then obtain t where t: "foldM f xs s = Some t" "I xs t" by blast
  obtain t' where "f x t = Some t'" "I (xs @ [x]) t'"
    using snoc.prems(2) [OF t(2), of x] by auto
  with t(1) show ?case by (intro exI [of _ t']) (simp add: foldM_append)
qed

lemma foldM_Some_invariant:
  assumes "foldM f xs s = Some t" and "I s"
    and "\<And>x u v. x \<in> set xs \<Longrightarrow> I u \<Longrightarrow> f x u = Some v \<Longrightarrow> I v"
  shows "I t"
  using assms
proof (induction xs arbitrary: s)
  case (Cons x xs)
  from Cons.prems(1) obtain u where u: "f x s = Some u" "foldM f xs u = Some t"
    by (auto simp: bind_Some_iff)
  have "I u" using Cons.prems(2,3) u(1) by auto
  with u(2) show ?case using Cons.prems(3) by (intro Cons.IH) auto
qed simp

text \<open>
  A loop whose round for \<open>i\<close> changes one entry of a view of the state, at \<open>key i\<close>, and keeps an
  invariant: the whole loop is the pointwise change.
\<close>

lemma foldM_pointwise:
  assumes "J s" and "distinct xs" and "inj_on key (set xs)"
    and "\<And>i. i \<in> set xs \<Longrightarrow> P i (view s (key i))"
    and "\<And>i t. i \<in> set xs \<Longrightarrow> J t \<Longrightarrow> P i (view t (key i)) \<Longrightarrow>
      \<exists>t'. f i t = Some t' \<and> J t' \<and> view t' = (view t)(key i := g i (view t (key i)))"
  shows "\<exists>t. foldM f xs s = Some t \<and> J t \<and> (\<forall>i \<in> set xs. view t (key i) = g i (view s (key i))) \<and>
    (\<forall>k. k \<notin> key ` set xs \<longrightarrow> view t k = view s k)"
  using assms
proof (induction xs arbitrary: s)
  case (Cons i xs)
  have "\<exists>t. f i s = Some t \<and> J t \<and> view t = (view s)(key i := g i (view s (key i)))"
    by (rule Cons.prems(5)) (use Cons.prems(1,4) in simp_all)
  then obtain t where t: "f i s = Some t" "J t" "view t = (view s)(key i := g i (view s (key i)))"
    by blast
  have other: "key j \<noteq> key i" if "j \<in> set xs" for j
    using that Cons.prems(2,3) by (auto simp: inj_on_def)
  have "\<exists>t'. foldM f xs t = Some t' \<and> J t' \<and> (\<forall>j \<in> set xs. view t' (key j) = g j (view t (key j))) \<and>
    (\<forall>k. k \<notin> key ` set xs \<longrightarrow> view t' k = view t k)"
  proof (rule Cons.IH)
    show "P j (view t (key j))" if "j \<in> set xs" for j
      using that other Cons.prems(4) by (simp add: t(3))
  qed (use Cons.prems(2,3,5) t(2) in auto)
  then obtain t' where t': "foldM f xs t = Some t'" "J t'"
      "\<forall>j \<in> set xs. view t' (key j) = g j (view t (key j))" "\<forall>k. k \<notin> key ` set xs \<longrightarrow> view t' k = view t k"
    by blast
  have "view t' (key i) = g i (view s (key i))"
  proof -
    have "key i \<notin> key ` set xs" using other by (metis imageE)
    then show ?thesis using t'(4) by (simp add: t(3))
  qed
  moreover have "view t' k = view s k" if "k \<notin> key ` set (i # xs)" for k
    using t'(4) that by (auto simp: t(3))
  ultimately show ?case
    using t(1) t'(1,2,3) other by (intro exI [of _ t']) (auto simp: t(3))
qed simp

section \<open>Lists and sets\<close>

lemma sorted_list_of_set_eq:
  "sorted xs \<Longrightarrow> distinct xs \<Longrightarrow> set xs = A \<Longrightarrow> xs = sorted_list_of_set (A :: 'a::linorder set)"
  by (metis sorted_list_of_set.idem_if_sorted_distinct)

lemma nth_list_update_if:
  "i < length xs \<Longrightarrow> xs[i := x] ! j = (if i = j then x else xs ! j)"
  by auto

text \<open>Prefixes and suffixes of a sorted list cut at a key.\<close>

lemma sorted_takeWhile_filter:
  assumes "sorted xs" and "\<And>x y. x \<le> y \<Longrightarrow> P y \<Longrightarrow> P x"
  shows "takeWhile P xs = filter P xs \<and> dropWhile P xs = filter (\<lambda>x. \<not> P x) xs"
  using assms(1)
proof (induction xs)
  case (Cons x xs)
  show ?case
  proof (cases "P x")
    case False
    then have "\<forall>y \<in> set xs. \<not> P y" using Cons.prems assms(2) by auto
    with False show ?thesis by (simp add: filter_empty_conv filter_id_conv)
  qed (use Cons in simp)
qed simp

lemma sorted_dropWhile_less:
  "sorted xs \<Longrightarrow> dropWhile (\<lambda>e. e < (k::'a::linorder)) xs = filter (\<lambda>e. k \<le> e) xs"
  using sorted_takeWhile_filter [of xs "\<lambda>e. e < k"] by (auto simp: not_less)

lemma sorted_takeWhile_less:
  "sorted xs \<Longrightarrow> takeWhile (\<lambda>e. e < (k::'a::linorder)) xs = filter (\<lambda>e. e < k) xs"
  using sorted_takeWhile_filter [of xs "\<lambda>e. e < k"] by auto

lemma sorted_takeWhile_le:
  "sorted xs \<Longrightarrow> takeWhile (\<lambda>e. e \<le> (k::'a::linorder)) xs = filter (\<lambda>e. e \<le> k) xs"
  using sorted_takeWhile_filter [of xs "\<lambda>e. e \<le> k"] by auto

lemma sorted_list_of_set_filter:
  assumes "finite A"
  shows "filter P (sorted_list_of_set A) = sorted_list_of_set {x \<in> A. P x}"
proof (rule sorted_list_of_set_eq)
  show "sorted (filter P (sorted_list_of_set A))"
    using sorted_filter [of id "sorted_list_of_set A"] by simp
qed (use assms in auto)

end
