(* ===== verification/Bit_Words.thy ===== *)
theory Bit_Words
  imports Prelude
begin

text \<open>
  Bit scans over machine words: the lowest and highest set bit, clearing the lowest set bit
  (\<open>m &= m - 1\<close>), isolating it (\<open>i & (~i + 1)\<close>), and the loop that visits the set bits of a word
  in ascending order, as the cache index sets and the ownership masks use them. The last section
  is the population count of \<^verbatim>\<open>src/src/llama-bit-ops.h\<close> and the trailing-zero count built on it.
\<close>

section \<open>Lowest and highest set bit\<close>

definition set_bits_of :: "'a::len word \<Rightarrow> nat set" where
  "set_bits_of w = {i. bit w i}"

definition lowest_bit :: "'a::len word \<Rightarrow> nat" where
  "lowest_bit w = length (takeWhile (\<lambda>i. \<not> bit w i) [0..<LENGTH('a)])"

definition highest_bit :: "'a::len word \<Rightarrow> nat" where
  "highest_bit w = LENGTH('a) - 1 - length (takeWhile (\<lambda>i. \<not> bit w i) (rev [0..<LENGTH('a)]))"

lemma set_bits_of_bound: "i \<in> set_bits_of (w :: 'a::len word) \<Longrightarrow> i < LENGTH('a)"
  using bit_imp_le_length by (auto simp: set_bits_of_def)

lemma finite_set_bits_of [simp]: "finite (set_bits_of (w :: 'a::len word))"
  by (rule finite_subset [of _ "{..<LENGTH('a)}"]) (auto dest: set_bits_of_bound)

lemma set_bits_of_empty_iff [simp]: "set_bits_of w = {} \<longleftrightarrow> w = (0 :: 'a::len word)"
  using bit_imp_le_length by (fastforce simp: set_bits_of_def bit_eq_iff)

lemma takeWhile_upt_Least:
  assumes "P n" and "n < m"
  shows "length (takeWhile (\<lambda>i. \<not> P i) [0..<m]) = (LEAST i. P i)"
proof (rule sym, rule Least_equality)
  let ?k = "length (takeWhile (\<lambda>i. \<not> P i) [0..<m])"
  have "?k < length [0..<m]"
  proof (rule ccontr)
    assume "\<not> ?k < length [0..<m]"
    then have "takeWhile (\<lambda>i. \<not> P i) [0..<m] = [0..<m]"
      by (metis length_takeWhile_le nat_less_le takeWhile_eq_take take_all_iff)
    then have "\<forall>i \<in> set [0..<m]. \<not> P i" by (metis takeWhile_eq_all_conv)
    with assms show False by auto
  qed
  then show "P ?k" using nth_length_takeWhile by fastforce
  show "?k \<le> y" if "P y" for y
  proof (rule ccontr)
    assume *: "\<not> ?k \<le> y"
    then have "takeWhile (\<lambda>i. \<not> P i) [0..<m] ! y = y"
      using \<open>?k < length [0..<m]\<close> by (simp add: takeWhile_nth)
    with * have "y \<in> set (takeWhile (\<lambda>i. \<not> P i) [0..<m])" by (metis not_le nth_mem)
    with that show False by (auto dest: set_takeWhileD)
  qed
qed

lemma lowest_bit_Min:
  assumes "w \<noteq> 0"
  shows "lowest_bit w = Min (set_bits_of w)"
proof -
  obtain n where n: "bit w n" using assms by (auto simp: bit_eq_iff)
  have "lowest_bit w = (LEAST i. bit w i)"
    unfolding lowest_bit_def
    by (rule takeWhile_upt_Least [where P = "bit w", OF n]) (rule bit_imp_le_length [OF n])
  also have "\<dots> = Min {i. bit w i}"
    using n Least_Min [of "\<lambda>i. bit w i"] finite_set_bits_of [of w] by (auto simp: set_bits_of_def)
  finally show ?thesis by (simp add: set_bits_of_def)
qed

lemma bit_lowest_bit: "w \<noteq> 0 \<Longrightarrow> bit w (lowest_bit w)"
  using Min_in [of "set_bits_of w"] by (simp add: lowest_bit_Min [symmetric])
    (simp add: set_bits_of_def)

lemma not_bit_below_lowest: "n < lowest_bit w \<Longrightarrow> \<not> bit w n"
proof (cases "w = 0")
  case False
  assume "n < lowest_bit w"
  with False show ?thesis using Min_le [of "set_bits_of w" n]
    by (auto simp: lowest_bit_Min set_bits_of_def not_le [symmetric])
qed simp

lemma lowest_bit_less: "w \<noteq> 0 \<Longrightarrow> lowest_bit (w :: 'a::len word) < LENGTH('a)"
  using bit_lowest_bit bit_imp_le_length by blast


lemma highest_bit_Max:
  assumes "w \<noteq> 0"
  shows "highest_bit (w :: 'a::len word) = Max (set_bits_of w)"
proof -
  let ?L = "LENGTH('a)"
  let ?Q = "\<lambda>j. bit w (?L - 1 - j)"
  have "rev [0..<?L] = map (\<lambda>j. ?L - 1 - j) [0..<?L]"
    by (rule nth_equalityI) (auto simp: rev_nth)
  then have tw: "length (takeWhile (\<lambda>i. \<not> bit w i) (rev [0..<?L]))
      = length (takeWhile (\<lambda>j. \<not> ?Q j) [0..<?L])"
    by (simp add: takeWhile_map comp_def)
  have fin: "finite (set_bits_of w)" and ne: "set_bits_of w \<noteq> {}"
    using assms by simp_all
  define m where "m = Max (set_bits_of w)"
  have m: "bit w m" "m < ?L"
    using Max_in [OF fin ne] set_bits_of_bound [of m w] by (auto simp: m_def set_bits_of_def)
  have "(LEAST j. ?Q j) = ?L - 1 - m"
  proof (rule Least_equality)
    show "?Q (?L - 1 - m)" using m by simp
    show "?L - 1 - m \<le> j" if "?Q j" for j
    proof -
      have "?L - 1 - j \<le> m"
        unfolding m_def by (rule Max_ge [OF fin]) (use that in \<open>simp add: set_bits_of_def\<close>)
      then show ?thesis by simp
    qed
  qed
  moreover have "length (takeWhile (\<lambda>j. \<not> ?Q j) [0..<?L]) = (LEAST j. ?Q j)"
    by (rule takeWhile_upt_Least [where P = ?Q and n = "?L - 1 - m"]) (use m in auto)
  ultimately show ?thesis using m by (simp add: highest_bit_def tw m_def [symmetric])
qed

section \<open>Clearing and isolating the lowest set bit\<close>

lemma bit_minus_one_iff:
  fixes w :: "'a::len word"
  assumes "w \<noteq> 0"
  shows "bit (w - 1) n \<longleftrightarrow> (if n < lowest_bit w then n < LENGTH('a) else bit w n \<and> n \<noteq> lowest_bit w)"
proof -
  let ?k = "lowest_bit w"
  define hi where "hi = w AND NOT (mask (Suc ?k))"
  have k: "bit w ?k" "?k < LENGTH('a)" using assms bit_lowest_bit lowest_bit_less by blast+
  have hi_bit: "bit hi i \<longleftrightarrow> bit w i \<and> ?k < i" for i
    using bit_imp_le_length [of w i] by (auto simp: hi_def bit_simps)
  have "hi AND push_bit ?k 1 = 0"
    by (rule bit_eqI) (auto simp: bit_simps hi_bit)
  moreover have "hi OR push_bit ?k 1 = w"
  proof (rule bit_eqI)
    fix i show "bit (hi OR push_bit ?k 1) i = bit w i"
      using not_bit_below_lowest [of i w] k
      by (cases i "lowest_bit w" rule: linorder_cases) (auto simp: bit_simps hi_bit)
  qed
  ultimately have w: "w = hi + push_bit ?k 1" by (simp add: disjunctive_add_eq_or)
  have "hi AND mask ?k = 0"
    by (rule bit_eqI) (auto simp: bit_simps hi_bit)
  then have "hi + mask ?k = hi OR mask ?k" by (simp add: disjunctive_add_eq_or)
  moreover have "w - 1 = hi + mask ?k"
    by (subst w) (simp add: mask_eq_exp_minus_1 push_bit_of_1)
  ultimately show ?thesis by (auto simp: bit_simps hi_bit)
qed

lemma bit_clear_lowest:
  "w \<noteq> 0 \<Longrightarrow> bit (w AND (w - 1)) n \<longleftrightarrow> bit w n \<and> n \<noteq> lowest_bit (w :: 'a::len word)"
  using not_bit_below_lowest [of n w] by (auto simp: bit_simps bit_minus_one_iff)

lemma set_bits_clear_lowest:
  "w \<noteq> 0 \<Longrightarrow> set_bits_of (w AND (w - 1)) = set_bits_of w - {lowest_bit (w :: 'a::len word)}"
  by (auto simp: set_bits_of_def bit_clear_lowest)

lemma card_clear_lowest:
  assumes "w \<noteq> 0"
  shows "card (set_bits_of (w AND (w - 1))) < card (set_bits_of (w :: 'a::len word))"
proof -
  have "lowest_bit w \<in> set_bits_of w"
    using assms bit_lowest_bit by (simp add: set_bits_of_def)
  then show ?thesis
    by (intro psubset_card_mono) (auto simp: set_bits_clear_lowest [OF assms])
qed

definition low_bit :: "'a::len word \<Rightarrow> 'a word" where
  "low_bit i = i AND (NOT i + 1)"

lemma low_bit_eq:
  assumes i: "i \<noteq> 0"
  shows "low_bit i = push_bit (lowest_bit i) (1 :: 'a::len word)"
proof (rule bit_word_eqI)
  fix n assume "n < LENGTH('a)"
  have "NOT i + 1 = - i" by (simp add: not_eq_complement)
  then have "low_bit i = i AND NOT (i - 1)" by (simp add: low_bit_def minus_eq_not_minus_1)
  then show "bit (low_bit i) n = bit (push_bit (lowest_bit i) (1 :: 'a word)) n"
    using i \<open>n < LENGTH('a)\<close> bit_lowest_bit [OF i] not_bit_below_lowest [of n i]
    by (auto simp: bit_simps bit_minus_one_iff)
qed

section \<open>Visiting the set bits in ascending order\<close>

text \<open>\<open>while (m) { f(ctz(m)); m &= m - 1; }\<close>\<close>

function bits_loop :: "u64 \<Rightarrow> nat list" where
  "bits_loop m = (if m = 0 then [] else lowest_bit m # bits_loop (m AND (m - 1)))"
  by pat_completeness auto
termination
  by (relation "measure (\<lambda>m. card (set_bits_of m))") (simp_all add: card_clear_lowest)

declare bits_loop.simps [simp del]

lemma bits_loop_0 [simp]: "bits_loop 0 = []"
  by (simp add: bits_loop.simps)

lemma bits_loop_sorted_list: "bits_loop m = sorted_list_of_set (set_bits_of m)"
proof (induction m rule: bits_loop.induct)
  case (1 m)
  show ?case
  proof (cases "m = 0")
    case True
    then show ?thesis by simp (metis set_bits_of_empty_iff sorted_list_of_set_empty)
  next
    case False
    with "1.IH" show ?thesis
      by (simp add: bits_loop.simps [of m] set_bits_clear_lowest lowest_bit_Min
          sorted_list_of_set_nonempty)
  qed
qed

lemma set_bits_loop [simp]: "set (bits_loop m) = set_bits_of m"
  by (simp add: bits_loop_sorted_list)

section \<open>Population count and trailing zeros\<close>

definition llama_popcount_u64 :: "u64 \<Rightarrow> u32" where
  "llama_popcount_u64 value0 =
    (let value1 = value0 - (drop_bit 1 value0 AND 0x5555555555555555);
         value2 = (value1 AND 0x3333333333333333) + (drop_bit 2 value1 AND 0x3333333333333333);
         value3 = (value2 + drop_bit 4 value2) AND 0x0f0f0f0f0f0f0f0f
     in ucast (drop_bit 56 (value3 * 0x0101010101010101)))"

definition llama_countr_zero_u64 :: "u64 \<Rightarrow> u32" where
  "llama_countr_zero_u64 v = llama_popcount_u64 ((v AND (0 - v)) - 1)"

text \<open>The static assertions of the header.\<close>

lemma popcount_zero: "llama_popcount_u64 0 = 0"
  by (simp add: llama_popcount_u64_def)

lemma popcount_full: "llama_popcount_u64 0xFFFFFFFFFFFFFFFF = 64"
  by (simp add: llama_popcount_u64_def Let_def)

text \<open>On the all-ones prefixes \<open>2 ^ k - 1\<close>, the only arguments the trailing-zero count uses.\<close>

lemma popcount_mask:
  assumes "k \<le> 64"
  shows "llama_popcount_u64 (mask k) = of_nat k"
proof -
  have "\<forall>k \<in> set [0..<65]. llama_popcount_u64 (mask k) = of_nat k"
    by code_simp
  with assms show ?thesis by simp
qed

lemma countr_zero_correct:
  "llama_countr_zero_u64 v = of_nat (if v = 0 then 64 else lowest_bit v)"
proof (cases "v = 0")
  case True
  have "(- 1 :: u64) = mask 64" by (simp add: mask_eq_exp_minus_1)
  with True show ?thesis by (simp add: llama_countr_zero_u64_def popcount_mask)
next
  case False
  have "v AND (0 - v) = push_bit (lowest_bit v) 1"
    using low_bit_eq [OF False] by (simp add: low_bit_def not_eq_complement)
  then have "(v AND (0 - v)) - 1 = mask (lowest_bit v)"
    by (simp add: mask_eq_exp_minus_1 push_bit_of_1)
  moreover have "lowest_bit v \<le> 64" using lowest_bit_less [OF False] by simp
  ultimately show ?thesis using False
    by (simp add: llama_countr_zero_u64_def popcount_mask)
qed

end
