(* ===== verification/Index_Set.thy ===== *)
theory Index_Set
  imports Bit_Words
begin

text \<open>
  \<open>llama_kv_idx_set\<close> of \<^verbatim>\<open>src/src/llama-kv-cells.h\<close>: the bitmap of the used cells, with its cached
  cardinality. The abstraction function is \<open>idx_elems\<close>, the set of the stored indices;
  the locale \<open>index_set\<close> states the contract the cell metadata relies on.
\<close>

section \<open>The contract\<close>

locale index_set =
  fixes elems :: "'s \<Rightarrow> nat set"
    and dom_size :: "'s \<Rightarrow> nat"
    and invar :: "'s \<Rightarrow> bool"
    and make :: "nat \<Rightarrow> 's"
    and ins :: "nat \<Rightarrow> 's \<Rightarrow> 's"
    and del :: "nat \<Rightarrow> 's \<Rightarrow> 's"
    and count :: "'s \<Rightarrow> nat"
    and lowest :: "'s \<Rightarrow> nat"
    and highest :: "'s \<Rightarrow> nat"
  assumes invar_make: "invar (make n)"
    and elems_make: "elems (make n) = {}"
    and dom_make: "n \<le> dom_size (make n)"
    and invar_ins: "invar s \<Longrightarrow> i < dom_size s \<Longrightarrow> invar (ins i s)"
    and elems_ins: "invar s \<Longrightarrow> i < dom_size s \<Longrightarrow> elems (ins i s) = insert i (elems s)"
    and dom_ins: "dom_size (ins i s) = dom_size s"
    and invar_del: "invar s \<Longrightarrow> i < dom_size s \<Longrightarrow> invar (del i s)"
    and elems_del: "invar s \<Longrightarrow> i < dom_size s \<Longrightarrow> elems (del i s) = elems s - {i}"
    and dom_del: "dom_size (del i s) = dom_size s"
    and finite_elems: "finite (elems s)"
    and elems_bound: "i \<in> elems s \<Longrightarrow> i < dom_size s"
    and count_elems: "invar s \<Longrightarrow> count s = card (elems s)"
    and lowest_elems: "elems s \<noteq> {} \<Longrightarrow> lowest s = Min (elems s)"
    and highest_elems: "elems s \<noteq> {} \<Longrightarrow> highest s = Max (elems s)"
begin

lemma count_zero_iff: "invar s \<Longrightarrow> count s = 0 \<longleftrightarrow> elems s = {}"
  using finite_elems by (simp add: count_elems)

lemma lowest_member: "elems s \<noteq> {} \<Longrightarrow> lowest s \<in> elems s \<and> (\<forall>i \<in> elems s. lowest s \<le> i)"
  using finite_elems by (simp add: lowest_elems)

lemma highest_member: "elems s \<noteq> {} \<Longrightarrow> highest s \<in> elems s \<and> (\<forall>i \<in> elems s. i \<le> highest s)"
  using finite_elems by (simp add: highest_elems)

lemma count_ins:
  "invar s \<Longrightarrow> i < dom_size s \<Longrightarrow> count (ins i s) = (if i \<in> elems s then count s else Suc (count s))"
  using finite_elems by (simp add: count_elems invar_ins elems_ins insert_absorb)

lemma count_del:
  "invar s \<Longrightarrow> i < dom_size s \<Longrightarrow> count (del i s) = (if i \<in> elems s then count s - 1 else count s)"
  using finite_elems by (simp add: count_elems invar_del elems_del)

text \<open>
  The set tracks the indices of a list whose entries satisfy a predicate: one entry changes and
  the matching insertion or removal restores the correspondence.
\<close>

definition tracks :: "('a \<Rightarrow> bool) \<Rightarrow> 'a list \<Rightarrow> 's \<Rightarrow> bool" where
  "tracks P xs s \<longleftrightarrow> invar s \<and> length xs \<le> dom_size s \<and> elems s = {i. i < length xs \<and> P (xs ! i)}"

lemma tracks_ins:
  assumes "tracks P xs s" and "i < length xs" and "P x"
  shows "tracks P (xs[i := x]) (ins i s)"
  using assms by (auto simp: tracks_def elems_ins invar_ins dom_ins nth_list_update_if split: if_splits)

lemma tracks_del:
  assumes "tracks P xs s" and "i < length xs" and "\<not> P x"
  shows "tracks P (xs[i := x]) (del i s)"
  using assms by (auto simp: tracks_def elems_del invar_del dom_del nth_list_update_if split: if_splits)

lemma tracks_keep:
  assumes "tracks P xs s" and "i < length xs" and "P x \<longleftrightarrow> P (xs ! i)"
  shows "tracks P (xs[i := x]) s"
  using assms by (auto simp: tracks_def nth_list_update_if split: if_splits)

lemma tracks_make: "tracks P (replicate n x) (make n) \<longleftrightarrow> n = 0 \<or> \<not> P x"
  by (auto simp: tracks_def invar_make elems_make dom_make)

end

section \<open>The bitmap\<close>

record idx_set =
  idx_bits :: "u64 list"
  n_set :: nat

definition idx_resize :: "nat \<Rightarrow> idx_set" where
  "idx_resize n = \<lparr> idx_bits = replicate ((n + 63) div 64) 0, n_set = 0 \<rparr>"

definition idx_clear :: "idx_set \<Rightarrow> idx_set" where
  "idx_clear s = \<lparr> idx_bits = replicate (length (idx_bits s)) 0, n_set = 0 \<rparr>"

definition idx_insert :: "nat \<Rightarrow> idx_set \<Rightarrow> idx_set" where
  "idx_insert i s =
    (let w = idx_bits s ! (i div 64); b = push_bit (i mod 64) 1
     in \<lparr> idx_bits = (idx_bits s)[i div 64 := w OR b],
          n_set = n_set s + (if w AND b = 0 then 1 else 0) \<rparr>)"

definition idx_erase :: "nat \<Rightarrow> idx_set \<Rightarrow> idx_set" where
  "idx_erase i s =
    (let w = idx_bits s ! (i div 64); b = push_bit (i mod 64) 1
     in \<lparr> idx_bits = (idx_bits s)[i div 64 := w AND NOT b],
          n_set = n_set s - (if w AND b \<noteq> 0 then 1 else 0) \<rparr>)"

definition idx_size :: "idx_set \<Rightarrow> nat" where
  "idx_size s = n_set s"

definition idx_empty :: "idx_set \<Rightarrow> bool" where
  "idx_empty s \<longleftrightarrow> n_set s = 0"

text \<open>The forward and backward word scans of \<open>first\<close> and \<open>last\<close>.\<close>

fun first_from :: "nat \<Rightarrow> u64 list \<Rightarrow> nat" where
  "first_from w [] = 0"
| "first_from w (x # xs) = (if x \<noteq> 0 then 64 * w + lowest_bit x else first_from (Suc w) xs)"

definition idx_first :: "idx_set \<Rightarrow> nat" where
  "idx_first s = first_from 0 (idx_bits s)"

fun last_down :: "nat \<Rightarrow> u64 list \<Rightarrow> nat" where
  "last_down 0 bits = 0"
| "last_down (Suc w) bits =
    (if bits ! w \<noteq> 0 then 64 * w + highest_bit (bits ! w) else last_down w bits)"

definition idx_last :: "idx_set \<Rightarrow> nat" where
  "idx_last s = last_down (length (idx_bits s)) (idx_bits s)"

text \<open>The order in which \<open>for_each\<close> calls its argument.\<close>

definition words_indices :: "nat \<Rightarrow> u64 list \<Rightarrow> nat list" where
  "words_indices base ws = concat (map (\<lambda>w. map (\<lambda>b. base + 64 * w + b) (bits_loop (ws ! w))) [0..<length ws])"

definition idx_for_each :: "idx_set \<Rightarrow> nat list" where
  "idx_for_each s = words_indices 0 (idx_bits s)"

section \<open>Abstraction and invariant\<close>

definition words_elems :: "u64 list \<Rightarrow> nat set" where
  "words_elems ws = {i. i div 64 < length ws \<and> bit (ws ! (i div 64)) (i mod 64)}"

definition idx_elems :: "idx_set \<Rightarrow> nat set" where
  "idx_elems s = words_elems (idx_bits s)"

definition idx_dom :: "idx_set \<Rightarrow> nat" where
  "idx_dom s = 64 * length (idx_bits s)"

definition idx_inv :: "idx_set \<Rightarrow> bool" where
  "idx_inv s \<longleftrightarrow> n_set s = card (idx_elems s)"

lemma words_elems_bound: "i \<in> words_elems ws \<Longrightarrow> i < 64 * length ws"
  by (simp add: words_elems_def less_mult_imp_div_less div_less_iff_less_mult mult.commute)

lemma finite_words_elems [simp]: "finite (words_elems ws)"
  by (rule finite_subset [of _ "{..<64 * length ws}"]) (auto dest: words_elems_bound)

lemma words_elems_replicate [simp]: "words_elems (replicate n 0) = {}"
  by (auto simp: words_elems_def)

lemma words_elems_intro: "w < length ws \<Longrightarrow> bit (ws ! w) b \<Longrightarrow> 64 * w + b \<in> words_elems ws"
  using bit_imp_le_length [of "ws ! w" b] by (simp add: words_elems_def)

lemma words_elems_iff: "i \<in> words_elems ws \<longleftrightarrow> (\<exists>w b. w < length ws \<and> bit (ws ! w) b \<and> i = 64 * w + b)"
proof
  assume "i \<in> words_elems ws"
  then show "\<exists>w b. w < length ws \<and> bit (ws ! w) b \<and> i = 64 * w + b"
    by (intro exI [of _ "i div 64"] exI [of _ "i mod 64"]) (auto simp: words_elems_def)
qed (auto intro: words_elems_intro)

lemma and_bit_zero_iff: "(w AND push_bit k 1 = 0) \<longleftrightarrow> \<not> bit w k" if "k < 64" for w :: u64
proof
  assume "w AND push_bit k 1 = 0"
  then have "\<not> bit (w AND push_bit k 1) k" by simp
  then show "\<not> bit w k" using that by (simp add: bit_simps)
next
  assume "\<not> bit w k"
  then show "w AND push_bit k 1 = 0"
    by (intro bit_word_eqI) (auto simp: bit_simps)
qed

lemma words_elems_update:
  assumes "i div 64 < length ws"
    and "\<And>b. b < 64 \<Longrightarrow> bit w b \<longleftrightarrow> (if b = i mod 64 then v else bit (ws ! (i div 64)) b)"
  shows "words_elems (ws[i div 64 := w]) = (if v then insert i (words_elems ws) else words_elems ws - {i})"
proof (rule set_eqI)
  fix j
  have "j = i \<longleftrightarrow> j div 64 = i div 64 \<and> j mod 64 = i mod 64"
    by (metis div_mult_mod_eq)
  then show "j \<in> words_elems (ws[i div 64 := w]) \<longleftrightarrow>
      j \<in> (if v then insert i (words_elems ws) else words_elems ws - {i})"
    using assms(1) assms(2) [of "j mod 64"]
    by (auto simp: words_elems_def nth_list_update_if split: if_splits)
qed

lemma words_elems_set_bit:
  "i div 64 < length ws \<Longrightarrow>
    words_elems (ws[i div 64 := ws ! (i div 64) OR push_bit (i mod 64) 1]) = insert i (words_elems ws)"
  by (subst words_elems_update [where v = True]) (auto simp: bit_simps)

lemma words_elems_clear_bit:
  "i div 64 < length ws \<Longrightarrow>
    words_elems (ws[i div 64 := ws ! (i div 64) AND NOT (push_bit (i mod 64) 1)]) = words_elems ws - {i}"
  by (subst words_elems_update [where v = False]) (auto simp: bit_simps)

lemma idx_elems_insert:
  "i < idx_dom s \<Longrightarrow> idx_elems (idx_insert i s) = insert i (idx_elems s)"
  by (simp add: idx_elems_def idx_insert_def idx_dom_def Let_def words_elems_set_bit
      less_mult_imp_div_less mult.commute)

lemma idx_elems_erase:
  "i < idx_dom s \<Longrightarrow> idx_elems (idx_erase i s) = idx_elems s - {i}"
  by (simp add: idx_elems_def idx_erase_def idx_dom_def Let_def words_elems_clear_bit
      less_mult_imp_div_less mult.commute)

lemma idx_member_word:
  "i < idx_dom s \<Longrightarrow> i \<in> idx_elems s \<longleftrightarrow> idx_bits s ! (i div 64) AND push_bit (i mod 64) 1 \<noteq> 0"
  by (simp add: idx_elems_def words_elems_def idx_dom_def and_bit_zero_iff
      less_mult_imp_div_less mult.commute)

lemma finite_idx_elems [simp]: "finite (idx_elems s)"
  by (simp add: idx_elems_def)

lemma idx_inv_insert: "idx_inv s \<Longrightarrow> i < idx_dom s \<Longrightarrow> idx_inv (idx_insert i s)"
  using idx_member_word [of i s]
  by (simp add: idx_inv_def idx_elems_insert card_insert_if) (simp add: idx_insert_def Let_def)

lemma idx_inv_erase: "idx_inv s \<Longrightarrow> i < idx_dom s \<Longrightarrow> idx_inv (idx_erase i s)"
  using idx_member_word [of i s]
  by (simp add: idx_inv_def idx_elems_erase card_Diff_singleton_if) (simp add: idx_erase_def Let_def)

lemma words_elems_empty_iff: "words_elems ws = {} \<longleftrightarrow> (\<forall>x \<in> set ws. x = 0)"
proof
  assume none: "words_elems ws = {}"
  show "\<forall>x \<in> set ws. x = 0"
  proof
    fix x assume "x \<in> set ws"
    then obtain w where w: "w < length ws" "x = ws ! w" by (auto simp: in_set_conv_nth)
    have "\<not> bit x b" for b using words_elems_intro [OF w(1), of b] none w(2) by auto
    then show "x = 0" by (simp add: bit_eq_iff)
  qed
qed (auto simp: words_elems_def dest!: nth_mem)

text \<open>The scans return the extrema, and the visiting order is ascending.\<close>

lemma first_from_Min:
  assumes "\<exists>x \<in> set ws. x \<noteq> 0"
  shows "first_from w ws = 64 * w + Min (words_elems ws)"
  using assms
proof (induction ws arbitrary: w)
  case Nil
  then show ?case by simp
next
  case (Cons x xs)
  show ?case
  proof (cases "x = 0")
    case True
    have "words_elems (x # xs) = (+) 64 ` words_elems xs"
    proof (rule set_eqI)
      fix i
      show "i \<in> words_elems (x # xs) \<longleftrightarrow> i \<in> (+) 64 ` words_elems xs"
      proof (cases "i < 64")
        case False
        then have "i div 64 = Suc ((i - 64) div 64)" "i mod 64 = (i - 64) mod 64"
          by (simp_all add: le_div_geq le_mod_geq)
        with False show ?thesis
          by (auto simp: words_elems_def image_iff intro!: bexI [of _ "i - 64"])
      qed (use True in \<open>auto simp: words_elems_def\<close>)
    qed
    moreover have "words_elems xs \<noteq> {}"
      using Cons.prems True by (auto simp: words_elems_empty_iff)
    ultimately have "Min (words_elems (x # xs)) = 64 + Min (words_elems xs)"
      by (simp add: mono_Min_commute [symmetric] monoI)
    with Cons True show ?thesis by simp
  next
    case False
    have "Min (words_elems (x # xs)) = lowest_bit x"
    proof (rule Min_eqI)
      show "lowest_bit x \<in> words_elems (x # xs)"
        using bit_lowest_bit [OF False] lowest_bit_less [OF False] by (simp add: words_elems_def)
      show "lowest_bit x \<le> i" if "i \<in> words_elems (x # xs)" for i
      proof (cases "i < 64")
        case True
        with that have "bit x i" by (simp add: words_elems_def)
        then show ?thesis using not_bit_below_lowest not_le by blast
      qed (use lowest_bit_less [OF False] in simp)
    qed simp
    with False show ?thesis by simp
  qed
qed

lemma last_down_Max:
  assumes "n \<le> length ws" and "\<exists>w < n. ws ! w \<noteq> 0"
  shows "last_down n ws = Max {i \<in> words_elems ws. i < 64 * n}"
  using assms
proof (induction n)
  case 0
  then show ?case by simp
next
  case (Suc n)
  show ?case
  proof (cases "ws ! n = 0")
    case True
    have "{i \<in> words_elems ws. i < 64 * Suc n} = {i \<in> words_elems ws. i < 64 * n}"
    proof -
      have "i < 64 * n" if "i \<in> words_elems ws" "i < 64 * Suc n" for i
      proof (rule ccontr)
        assume "\<not> i < 64 * n"
        with that(2) have "i div 64 = n" by (intro div_nat_eqI) auto
        with that(1) True show False by (simp add: words_elems_def)
      qed
      then show ?thesis by auto
    qed
    moreover have "\<exists>w < n. ws ! w \<noteq> 0" using Suc.prems(2) True less_antisym by blast
    ultimately show ?thesis using Suc True by simp
  next
    case False
    let ?h = "highest_bit (ws ! n)"
    have h: "?h \<in> set_bits_of (ws ! n)" "?h < 64"
      using Max_in [of "set_bits_of (ws ! n)"] False set_bits_of_bound [of ?h "ws ! n"]
      by (auto simp: highest_bit_Max)
    have "Max {i \<in> words_elems ws. i < 64 * Suc n} = 64 * n + ?h"
    proof (rule Max_eqI)
      show "64 * n + ?h \<in> {i \<in> words_elems ws. i < 64 * Suc n}"
        using h Suc.prems(1) words_elems_intro [of n ws ?h] by (simp add: set_bits_of_def)
      show "i \<le> 64 * n + ?h" if i: "i \<in> {i \<in> words_elems ws. i < 64 * Suc n}" for i
      proof (cases "i < 64 * n")
        case False
        with i have "i div 64 = n" by (intro div_nat_eqI) auto
        then have "i mod 64 \<in> set_bits_of (ws ! n)" using i by (auto simp: words_elems_def set_bits_of_def)
        then have "i mod 64 \<le> ?h" by (simp add: highest_bit_Max \<open>ws ! n \<noteq> 0\<close>)
        with \<open>i div 64 = n\<close> show ?thesis using div_mult_mod_eq [of i 64] by linarith
      qed simp
    qed simp
    with False show ?thesis by simp
  qed
qed

lemma words_elems_snoc:
  "words_elems (xs @ [x]) = words_elems xs \<union> (\<lambda>b. 64 * length xs + b) ` set_bits_of x"
proof (rule set_eqI)
  fix i
  have *: "i = 64 * length xs + i mod 64 \<longleftrightarrow> i div 64 = length xs"
    using div_mult_mod_eq [of i 64] by linarith
  have "i \<in> (\<lambda>b. 64 * length xs + b) ` set_bits_of x \<longleftrightarrow> i div 64 = length xs \<and> bit x (i mod 64)"
    using * set_bits_of_bound [of _ x] by (auto simp: set_bits_of_def image_iff)
  then show "i \<in> words_elems (xs @ [x]) \<longleftrightarrow>
      i \<in> words_elems xs \<union> (\<lambda>b. 64 * length xs + b) ` set_bits_of x"
    by (auto simp: words_elems_def nth_append split: if_splits)
qed

lemma words_indices_sorted:
  "sorted (words_indices base ws) \<and> distinct (words_indices base ws) \<and>
   set (words_indices base ws) = (+) base ` words_elems ws"
proof (induction ws rule: rev_induct)
  case Nil
  then show ?case by (simp add: words_indices_def words_elems_def)
next
  case (snoc x xs)
  let ?n = "length xs"
  have split: "words_indices base (xs @ [x]) =
      words_indices base xs @ map (\<lambda>b. base + 64 * ?n + b) (bits_loop x)"
    by (auto simp: words_indices_def nth_append intro!: arg_cong [of _ _ concat])
  have elems: "words_elems (xs @ [x]) = words_elems xs \<union> (\<lambda>b. 64 * ?n + b) ` set_bits_of x"
    by (rule words_elems_snoc)
  have old: "i < base + 64 * ?n" if "i \<in> set (words_indices base xs)" for i
    using snoc that words_elems_bound by auto
  have new: "sorted (map (\<lambda>b. base + 64 * ?n + b) (bits_loop x))"
    "distinct (map (\<lambda>b. base + 64 * ?n + b) (bits_loop x))"
    by (auto simp: bits_loop_sorted_list sorted_map distinct_map intro!: inj_onI sorted_wrt_mono_rel [OF _ sorted_sorted_list_of_set])
  show ?case
    using snoc old new
    by (auto simp: split sorted_append elems image_Un image_image dest: less_imp_le)
      (fastforce dest: old)+
qed

lemma idx_for_each_sorted_list: "idx_for_each s = sorted_list_of_set (idx_elems s)"
  using words_indices_sorted [of 0 "idx_bits s"]
  by (intro sorted_list_of_set_eq) (auto simp: idx_for_each_def idx_elems_def)

lemma idx_make_simps [simp]:
  "idx_elems (idx_resize n) = {}" "idx_inv (idx_resize n)" "n \<le> idx_dom (idx_resize n)"
  by (simp_all add: idx_inv_def idx_resize_def idx_elems_def idx_dom_def)

lemma idx_dom_simps [simp]:
  "idx_dom (idx_insert i s) = idx_dom s" "idx_dom (idx_erase i s) = idx_dom s"
  by (simp_all add: idx_insert_def idx_erase_def idx_dom_def Let_def)

lemma idx_elems_bound: "i \<in> idx_elems s \<Longrightarrow> i < idx_dom s"
  by (simp add: idx_elems_def idx_dom_def words_elems_bound)

lemma idx_size_inv: "idx_inv s \<Longrightarrow> idx_size s = card (idx_elems s)"
  by (simp add: idx_size_def idx_inv_def)

lemma idx_clear_simps [simp]:
  "idx_elems (idx_clear s) = {}" "idx_inv (idx_clear s)" "idx_dom (idx_clear s) = idx_dom s"
  by (simp_all add: idx_inv_def idx_clear_def idx_elems_def idx_dom_def)

interpretation ix: index_set idx_elems idx_dom idx_inv idx_resize idx_insert idx_erase idx_size idx_first idx_last
proof unfold_locales
  fix s :: idx_set
  show "idx_first s = Min (idx_elems s)" if "idx_elems s \<noteq> {}"
    using that first_from_Min [of "idx_bits s" 0]
    by (auto simp: idx_first_def idx_elems_def words_elems_empty_iff)
  show "idx_last s = Max (idx_elems s)" if "idx_elems s \<noteq> {}"
  proof -
    have "{i \<in> words_elems (idx_bits s). i < 64 * length (idx_bits s)} = words_elems (idx_bits s)"
      using words_elems_bound by blast
    moreover have "\<exists>w < length (idx_bits s). idx_bits s ! w \<noteq> 0"
      using that by (auto simp: idx_elems_def words_elems_empty_iff in_set_conv_nth)
    ultimately show ?thesis
      by (simp add: idx_last_def idx_elems_def last_down_Max)
  qed
qed (simp_all add: idx_inv_insert idx_inv_erase idx_elems_insert idx_elems_erase idx_size_inv
      idx_make_simps idx_dom_simps idx_elems_bound)

end
