(* ===== verification/Kv_Cells.thy ===== *)
theory Kv_Cells
  imports Index_Set "HOL-Library.Product_Lexorder" "HOL-Library.Signed_Division"
begin

text \<open>
  \<open>llama_kv_cells\<close> of \<^verbatim>\<open>src/src/llama-kv-cells.h\<close>: the metadata of the KV cache cells. A cell
  index is a \<open>nat\<close>, a position (\<open>llama_pos\<close>) an \<open>int\<close> (the code's signed overflow is undefined),
  a sequence id a \<open>nat\<close> below \<open>LLAMA_MAX_SEQ\<close>, the bitset of a cell the set of its sequences and the
  ordered set of (position, cell) pairs of a sequence a finite set under the lexicographic order.
  An operation whose \<open>assert\<close> fails is \<open>None\<close>. The process-wide revision counter that
  \<open>next_rev\<close> increments is the field \<open>kv_glob\<close>: the value the counter has when the operation runs.
\<close>

definition LLAMA_MAX_SEQ :: nat where "LLAMA_MAX_SEQ = 256"
definition LLAMA_TOKEN_NULL :: int where "LLAMA_TOKEN_NULL = -1"
definition N_CHANGES :: nat where "N_CHANGES = 256"

record kv_cell_ext =
  ext_x :: int
  ext_y :: int
  ext_tok :: int

definition ext_default :: kv_cell_ext where
  "ext_default = \<lparr> ext_x = 0, ext_y = 0, ext_tok = LLAMA_TOKEN_NULL \<rparr>"

definition is_2d_gt :: "kv_cell_ext \<Rightarrow> int \<Rightarrow> int \<Rightarrow> bool" where
  "is_2d_gt e ox oy \<longleftrightarrow> ext_y e > oy \<or> (ext_y e = oy \<and> ext_x e > ox)"

record kv_change =
  ch_prev :: nat
  ch_cell :: nat

record kv_cells =
  kv_glob :: nat
  kv_rev :: nat
  kv_changes :: "kv_change list"
  kv_head :: nat
  kv_n_changes :: nat
  kv_has_shift :: bool
  kv_used :: idx_set
  kv_pos :: "int list"
  kv_ext :: "kv_cell_ext list"
  kv_shift :: "int list"
  kv_seq :: "nat set list"
  kv_seq_pos :: "nat \<Rightarrow> (int \<times> nat) set"

abbreviation kv_size :: "kv_cells \<Rightarrow> nat" where
  "kv_size c \<equiv> length (kv_pos c)"

section \<open>Revisions and the change history\<close>

definition touch :: "nat \<Rightarrow> kv_cells \<Rightarrow> kv_cells" where
  "touch i c = c\<lparr> kv_glob := Suc (kv_glob c),
      kv_changes := (kv_changes c)[kv_head c := \<lparr> ch_prev = kv_rev c, ch_cell = i \<rparr>],
      kv_head := (kv_head c + 1) mod N_CHANGES,
      kv_n_changes := min (kv_n_changes c + 1) N_CHANGES,
      kv_rev := Suc (kv_glob c) \<rparr>"

definition touch_all :: "kv_cells \<Rightarrow> kv_cells" where
  "touch_all c = c\<lparr> kv_glob := Suc (kv_glob c), kv_rev := Suc (kv_glob c), kv_n_changes := 0 \<rparr>"

text \<open>
  \<open>changes_since\<close>: walk the \<open>prev\<close> links back from the current revision until \<open>since\<close> is met or
  the retained history ends; \<open>None\<close> when it ends first. At most \<open>n_changes\<close> links are followed.
\<close>

fun changes_walk :: "kv_cells \<Rightarrow> nat \<Rightarrow> nat \<Rightarrow> nat \<Rightarrow> nat \<Rightarrow> nat option" where
  "changes_walk c since cur n fuel =
    (if cur = since then Some n
     else if n = kv_n_changes c then None
     else (case fuel of 0 \<Rightarrow> None
           | Suc k \<Rightarrow> changes_walk c since
               (ch_prev (kv_changes c ! ((kv_head c + N_CHANGES - 1 - n) mod N_CHANGES))) (n + 1) k))"

declare changes_walk.simps [simp del]

definition changes_since :: "nat \<Rightarrow> kv_cells \<Rightarrow> nat list option" where
  "changes_since since c =
    (case changes_walk c since (kv_rev c) 0 (kv_n_changes c) of
       None \<Rightarrow> None
     | Some n \<Rightarrow> Some (map (\<lambda>k. ch_cell (kv_changes c ! ((kv_head c + N_CHANGES - 1 - k) mod N_CHANGES))) [0..<n]))"

section \<open>Construction, reset and resize\<close>

definition kv_fresh :: "nat \<Rightarrow> kv_cells" where
  "kv_fresh glob = \<lparr> kv_glob = Suc glob, kv_rev = Suc glob,
     kv_changes = replicate N_CHANGES \<lparr> ch_prev = 0, ch_cell = 0 \<rparr>, kv_head = 0, kv_n_changes = 0,
     kv_has_shift = False, kv_used = \<lparr> idx_bits = [], n_set = 0 \<rparr>,
     kv_pos = [], kv_ext = [], kv_shift = [], kv_seq = [], kv_seq_pos = (\<lambda>_. {}) \<rparr>"

definition kv_reset :: "kv_cells \<Rightarrow> kv_cells" where
  "kv_reset c =
    (let n = kv_size c;
         c1 = c\<lparr> kv_pos := replicate n (-1), kv_ext := replicate n ext_default,
                 kv_shift := replicate n 0, kv_seq := replicate n {} \<rparr>
     in (touch_all c1)\<lparr> kv_has_shift := False, kv_used := idx_clear (kv_used c),
                        kv_seq_pos := (\<lambda>_. {}) \<rparr>)"

definition kv_reset_shift :: "kv_cells \<Rightarrow> kv_cells" where
  "kv_reset_shift c = c\<lparr> kv_has_shift := False, kv_shift := replicate (length (kv_shift c)) 0 \<rparr>"

definition vec_resize :: "nat \<Rightarrow> 'a \<Rightarrow> 'a list \<Rightarrow> 'a list" where
  "vec_resize n x xs = take n xs @ replicate (n - length xs) x"

definition kv_resize :: "nat \<Rightarrow> kv_cells \<Rightarrow> kv_cells" where
  "kv_resize n c = kv_reset (c\<lparr> kv_pos := vec_resize n 0 (kv_pos c),
      kv_ext := vec_resize n ext_default (kv_ext c), kv_shift := vec_resize n 0 (kv_shift c),
      kv_seq := vec_resize n {} (kv_seq c), kv_used := idx_resize n \<rparr>)"

text \<open>Exchange of two cell sets; the process-wide counter is shared and stays.\<close>

definition kv_swap :: "kv_cells \<Rightarrow> kv_cells \<Rightarrow> kv_cells \<times> kv_cells" where
  "kv_swap a b = (b\<lparr> kv_glob := kv_glob a \<rparr>, a\<lparr> kv_glob := kv_glob a \<rparr>)"

section \<open>The ownership index of a sequence, one cell at a time\<close>

definition seq_pos_dec :: "nat \<Rightarrow> nat \<Rightarrow> kv_cells \<Rightarrow> kv_cells option" where
  "seq_pos_dec s i c = do {
     assertion ((kv_pos c ! i, i) \<in> kv_seq_pos c s);
     Some (c\<lparr> kv_seq_pos := (kv_seq_pos c)(s := kv_seq_pos c s - {(kv_pos c ! i, i)}) \<rparr>) }"

definition seq_pos_inc :: "nat \<Rightarrow> nat \<Rightarrow> kv_cells \<Rightarrow> kv_cells option" where
  "seq_pos_inc s i c = do {
     assertion ((kv_pos c ! i, i) \<notin> kv_seq_pos c s);
     Some (c\<lparr> kv_seq_pos := (kv_seq_pos c)(s := insert (kv_pos c ! i, i) (kv_seq_pos c s)) \<rparr>) }"

definition seq_pos_rm :: "nat \<Rightarrow> kv_cells \<Rightarrow> kv_cells option" where
  "seq_pos_rm i c =
     foldM (\<lambda>s c. if s \<in> kv_seq c ! i then seq_pos_dec s i c else Some c) [0..<LLAMA_MAX_SEQ] c"

definition seq_pos_add :: "nat \<Rightarrow> kv_cells \<Rightarrow> kv_cells option" where
  "seq_pos_add i c =
     foldM (\<lambda>s c. if s \<in> kv_seq c ! i then seq_pos_inc s i c else Some c) [0..<LLAMA_MAX_SEQ] c"

section \<open>Snapshots: \<open>cp\<close> and \<open>set\<close>\<close>

definition cp_cell :: "kv_cells \<Rightarrow> nat \<Rightarrow> nat \<Rightarrow> kv_cells \<Rightarrow> kv_cells option" where
  "cp_cell c idx j res = do {
     assertion (kv_shift c ! idx = 0);
     Some (res\<lparr> kv_pos := (kv_pos res)[j := kv_pos c ! idx],
                kv_ext := (kv_ext res)[j := kv_ext c ! idx],
                kv_seq := (kv_seq res)[j := kv_seq c ! idx] \<rparr>) }"

text \<open>Both results are returned: the snapshot and the source with the advanced counter.\<close>

definition kv_cp :: "nat \<Rightarrow> nat \<Rightarrow> kv_cells \<Rightarrow> (kv_cells \<times> kv_cells) option" where
  "kv_cp i n c = do {
     assertion (i + n \<le> kv_size c);
     let res0 = kv_resize n (kv_fresh (kv_glob c));
     res \<leftarrow> foldM (\<lambda>j. cp_cell c (i + j) j) [0..<n] res0;
     Some (res, c\<lparr> kv_glob := kv_glob res0 \<rparr>) }"

definition kv_cp_idxs :: "nat list \<Rightarrow> kv_cells \<Rightarrow> (kv_cells \<times> kv_cells) option" where
  "kv_cp_idxs idxs c = do {
     assertion (\<forall>idx \<in> set idxs. idx < kv_size c);
     let res0 = kv_resize (length idxs) (kv_fresh (kv_glob c));
     res \<leftarrow> foldM (\<lambda>j. cp_cell c (idxs ! j) j) [0..<length idxs] res0;
     Some (res, c\<lparr> kv_glob := kv_glob res0 \<rparr>) }"

definition set_cell :: "kv_cells \<Rightarrow> nat \<Rightarrow> nat \<Rightarrow> kv_cells \<Rightarrow> kv_cells option" where
  "set_cell other idx j c0 = do {
     let c1 = (if kv_pos c0 ! idx = -1 \<and> kv_pos other ! j \<noteq> -1
               then c0\<lparr> kv_used := idx_insert idx (kv_used c0) \<rparr> else c0);
     let c2 = (if kv_pos c1 ! idx \<noteq> -1 \<and> kv_pos other ! j = -1
               then c1\<lparr> kv_used := idx_erase idx (kv_used c1) \<rparr> else c1);
     c3 \<leftarrow> (if kv_pos c2 ! idx \<noteq> -1 then seq_pos_rm idx c2 else Some c2);
     let c4 = c3\<lparr> kv_pos := (kv_pos c3)[idx := kv_pos other ! j],
                  kv_ext := (kv_ext c3)[idx := kv_ext other ! j],
                  kv_seq := (kv_seq c3)[idx := kv_seq other ! j] \<rparr>;
     c5 \<leftarrow> (if kv_pos c4 ! idx \<noteq> -1 then seq_pos_add idx c4 else Some c4);
     let c6 = touch idx c5;
     assertion (kv_shift c6 ! idx = 0);
     Some c6 }"

definition kv_set :: "nat \<Rightarrow> kv_cells \<Rightarrow> kv_cells \<Rightarrow> kv_cells option" where
  "kv_set i other c = do {
     assertion (i + kv_size other \<le> kv_size c);
     foldM (\<lambda>j. set_cell other (i + j) j) [0..<kv_size other] c }"

definition kv_set_idxs :: "nat list \<Rightarrow> kv_cells \<Rightarrow> kv_cells \<Rightarrow> kv_cells option" where
  "kv_set_idxs idxs other c = do {
     assertion (length idxs = kv_size other);
     assertion (\<forall>idx \<in> set idxs. idx < kv_size c);
     foldM (\<lambda>j. set_cell other (idxs ! j) j) [0..<kv_size other] c }"

section \<open>Queries\<close>

definition is_empty :: "nat \<Rightarrow> kv_cells \<Rightarrow> bool option" where
  "is_empty i c = do {
     assertion (i < kv_size c);
     assertion ((kv_pos c ! i < 0 \<and> kv_pos c ! i = -1) \<or> 0 \<le> kv_pos c ! i);
     Some (kv_pos c ! i = -1) }"

definition get_used :: "kv_cells \<Rightarrow> nat" where
  "get_used c = idx_size (kv_used c)"

definition used_min :: "kv_cells \<Rightarrow> nat" where
  "used_min c = (if idx_empty (kv_used c) then 0 else idx_first (kv_used c))"

definition used_max_p1 :: "kv_cells \<Rightarrow> nat" where
  "used_max_p1 c = (if idx_empty (kv_used c) then 0 else idx_last (kv_used c) + 1)"

definition seq_count :: "nat \<Rightarrow> kv_cells \<Rightarrow> nat option" where
  "seq_count i c = do {
     assertion (i < kv_size c);
     assertion (kv_pos c ! i \<noteq> -1);
     Some (card (kv_seq c ! i)) }"

definition seq_get_all :: "nat \<Rightarrow> kv_cells \<Rightarrow> nat set option" where
  "seq_get_all i c = do { assertion (i < kv_size c); Some (kv_seq c ! i) }"

text \<open>The sequences \<open>seq_for_each\<close> visits, in order.\<close>

definition seq_for_each :: "nat \<Rightarrow> kv_cells \<Rightarrow> nat list option" where
  "seq_for_each i c = do {
     assertion (i < length (kv_seq c));
     Some (filter (\<lambda>s. s \<in> kv_seq c ! i) [0..<LLAMA_MAX_SEQ]) }"

definition seq_has :: "nat \<Rightarrow> nat \<Rightarrow> kv_cells \<Rightarrow> bool option" where
  "seq_has i s c = do {
     assertion (i < kv_size c);
     assertion (s < LLAMA_MAX_SEQ);
     Some (s \<in> kv_seq c ! i) }"

definition seq_pos_get :: "nat \<Rightarrow> kv_cells \<Rightarrow> (int \<times> nat) list option" where
  "seq_pos_get s c = do {
     assertion (s < LLAMA_MAX_SEQ);
     Some (sorted_list_of_set (kv_seq_pos c s)) }"

definition seq_pos_tok_le :: "nat \<Rightarrow> int \<Rightarrow> kv_cells \<Rightarrow> int option" where
  "seq_pos_tok_le s p c = do {
     assertion (s < LLAMA_MAX_SEQ);
     let before = takeWhile (\<lambda>e. e \<le> (p, 2 ^ 32 - 1)) (sorted_list_of_set (kv_seq_pos c s));
     Some (if before = [] then LLAMA_TOKEN_NULL else ext_tok (kv_ext c ! snd (last before))) }"

definition seq_get :: "nat \<Rightarrow> kv_cells \<Rightarrow> int option" where
  "seq_get i c = do {
     assertion (i < length (kv_seq c));
     assertion (card (kv_seq c ! i) = 1);
     Some (case filter (\<lambda>s. s \<in> kv_seq c ! i) [0..<LLAMA_MAX_SEQ] of [] \<Rightarrow> -1 | s # _ \<Rightarrow> int s) }"

definition seq_pos_min :: "nat \<Rightarrow> kv_cells \<Rightarrow> int option" where
  "seq_pos_min s c = do {
     assertion (s < LLAMA_MAX_SEQ);
     Some (if kv_seq_pos c s = {} then -1 else fst (Min (kv_seq_pos c s))) }"

definition seq_pos_max :: "nat \<Rightarrow> kv_cells \<Rightarrow> int option" where
  "seq_pos_max s c = do {
     assertion (s < LLAMA_MAX_SEQ);
     Some (if kv_seq_pos c s = {} then -1 else fst (Max (kv_seq_pos c s))) }"

text \<open>The loop of \<open>seq_has_range\<close> from \<open>lower_bound({p0, 0})\<close>; \<open>None\<close> is its early \<open>return false\<close>.\<close>

fun range_walk :: "int \<Rightarrow> int \<Rightarrow> (int \<times> nat) list \<Rightarrow> int option" where
  "range_walk p1 nxt [] = Some nxt"
| "range_walk p1 nxt (e # es) =
    (if fst e \<ge> p1 then Some nxt
     else if fst e \<noteq> nxt then None
     else range_walk p1 (nxt + 1) es)"

definition lower_bound :: "(int \<times> nat) \<Rightarrow> (int \<times> nat) set \<Rightarrow> (int \<times> nat) list" where
  "lower_bound k S = dropWhile (\<lambda>e. e < k) (sorted_list_of_set S)"

definition seq_has_range :: "nat \<Rightarrow> int \<Rightarrow> int \<Rightarrow> kv_cells \<Rightarrow> bool option" where
  "seq_has_range s p0 p1 c = do {
     assertion (s < LLAMA_MAX_SEQ);
     Some (case range_walk p1 p0 (lower_bound (p0, 0) (kv_seq_pos c s)) of
             None \<Rightarrow> False
           | Some nxt \<Rightarrow> p0 \<ge> 0 \<and> p1 > p0 \<and> nxt = p1) }"

definition seq_has_prefix :: "nat \<Rightarrow> int \<Rightarrow> kv_cells \<Rightarrow> bool option" where
  "seq_has_prefix s n_tokens c = seq_has_range s 0 n_tokens c"

text \<open>The lockstep loop of \<open>seq_has_prefix_rows\<close>; \<open>None\<close> is its early \<open>return false\<close>.\<close>

fun rows_walk :: "int list \<Rightarrow> (int \<times> nat) list \<Rightarrow> (int \<times> nat) list option" where
  "rows_walk [] es = Some es"
| "rows_walk (r # rows) es =
    (case es of [] \<Rightarrow> None | e # es' \<Rightarrow> if fst e \<noteq> r then None else rows_walk rows es')"

definition seq_has_prefix_rows :: "nat \<Rightarrow> int \<Rightarrow> int list \<Rightarrow> int \<Rightarrow> kv_cells \<Rightarrow> bool option" where
  "seq_has_prefix_rows s next_pos expected begin c = do {
     assertion (s < LLAMA_MAX_SEQ);
     Some (if begin < 0 \<or> begin \<ge> next_pos \<or> expected = [] \<or> hd expected \<noteq> 0 \<or>
              next_pos \<le> last expected \<or> \<not> sorted expected
           then False
           else (case rows_walk (dropWhile (\<lambda>r. r < begin) expected)
                        (lower_bound (begin, 0) (kv_seq_pos c s)) of
                   None \<Rightarrow> False
                 | Some rest \<Rightarrow> rest = [] \<or> fst (hd rest) \<ge> next_pos)) }"

definition seq_pos_count_before :: "nat \<Rightarrow> int \<Rightarrow> kv_cells \<Rightarrow> nat option" where
  "seq_pos_count_before s frontier c = do {
     assertion (s < LLAMA_MAX_SEQ);
     Some (length (takeWhile (\<lambda>e. e < (frontier, 0)) (sorted_list_of_set (kv_seq_pos c s)))) }"

definition pos_get :: "nat \<Rightarrow> kv_cells \<Rightarrow> int option" where
  "pos_get i c = do { assertion (i < kv_size c); assertion (kv_pos c ! i \<noteq> -1); Some (kv_pos c ! i) }"

definition ext_get :: "nat \<Rightarrow> kv_cells \<Rightarrow> kv_cell_ext option" where
  "ext_get i c = do { assertion (i < kv_size c); assertion (kv_pos c ! i \<noteq> -1); Some (kv_ext c ! i) }"

definition get_shift :: "nat \<Rightarrow> kv_cells \<Rightarrow> int option" where
  "get_shift i c = do { assertion (i < kv_size c); assertion (kv_pos c ! i \<noteq> -1); Some (kv_shift c ! i) }"

definition pos_in :: "nat \<Rightarrow> int \<Rightarrow> int \<Rightarrow> kv_cells \<Rightarrow> bool option" where
  "pos_in i p0 p1 c = do {
     assertion (i < kv_size c);
     Some (kv_pos c ! i \<ge> p0 \<and> kv_pos c ! i < p1) }"

section \<open>Mutations of one cell\<close>

definition kv_rm :: "nat \<Rightarrow> kv_cells \<Rightarrow> kv_cells option" where
  "kv_rm i c = do {
     assertion (i < kv_size c);
     assertion (kv_pos c ! i \<noteq> -1);
     c1 \<leftarrow> seq_pos_rm i c;
     Some (touch i (c1\<lparr> kv_seq := (kv_seq c1)[i := {}], kv_pos := (kv_pos c1)[i := -1],
        kv_ext := (kv_ext c1)[i := ext_default], kv_shift := (kv_shift c1)[i := 0],
        kv_used := idx_erase i (kv_used c1) \<rparr>)) }"

definition kv_seq_rm :: "nat \<Rightarrow> nat \<Rightarrow> kv_cells \<Rightarrow> (bool \<times> kv_cells) option" where
  "kv_seq_rm i s c = do {
     assertion (i < kv_size c);
     assertion (s \<in> kv_seq c ! i);
     assertion (kv_pos c ! i \<noteq> -1);
     c1 \<leftarrow> seq_pos_dec s i (c\<lparr> kv_seq := (kv_seq c)[i := kv_seq c ! i - {s}] \<rparr>);
     let c2 = touch i c1;
     Some (if kv_seq c2 ! i = {}
           then (True, c2\<lparr> kv_pos := (kv_pos c2)[i := -1], kv_ext := (kv_ext c2)[i := ext_default],
                   kv_shift := (kv_shift c2)[i := 0], kv_used := idx_erase i (kv_used c2) \<rparr>)
           else (False, c2)) }"

definition kv_seq_keep :: "nat \<Rightarrow> nat \<Rightarrow> kv_cells \<Rightarrow> (bool \<times> kv_cells) option" where
  "kv_seq_keep i s c = do {
     assertion (i < kv_size c);
     assertion (s < LLAMA_MAX_SEQ);
     if s \<in> kv_seq c ! i then do {
       c1 \<leftarrow> seq_pos_rm i c;
       c2 \<leftarrow> seq_pos_inc s i (c1\<lparr> kv_seq := (kv_seq c1)[i := {s}] \<rparr>);
       Some (False, touch i c2) }
     else if kv_seq c ! i \<noteq> {} then do {
       c1 \<leftarrow> seq_pos_rm i c;
       Some (True, touch i (c1\<lparr> kv_seq := (kv_seq c1)[i := {}], kv_pos := (kv_pos c1)[i := -1],
         kv_ext := (kv_ext c1)[i := ext_default], kv_shift := (kv_shift c1)[i := 0],
         kv_used := idx_erase i (kv_used c1) \<rparr>)) }
     else do { assertion (kv_pos c ! i = -1); Some (False, c) } }"

definition kv_seq_add :: "nat \<Rightarrow> nat \<Rightarrow> kv_cells \<Rightarrow> kv_cells option" where
  "kv_seq_add i s c = do {
     assertion (i < kv_size c);
     assertion (kv_pos c ! i \<noteq> -1);
     assertion (s < LLAMA_MAX_SEQ \<and> s \<notin> kv_seq c ! i);
     c1 \<leftarrow> seq_pos_inc s i c;
     Some (touch i (c1\<lparr> kv_seq := (kv_seq c1)[i := insert s (kv_seq c1 ! i)] \<rparr>)) }"

definition kv_pos_set :: "nat \<Rightarrow> int \<Rightarrow> kv_cells \<Rightarrow> kv_cells option" where
  "kv_pos_set i p c = do {
     assertion (i < kv_size c);
     assertion (kv_pos c ! i = -1);
     assertion (kv_seq c ! i = {});
     Some (touch i (c\<lparr> kv_pos := (kv_pos c)[i := p], kv_used := idx_insert i (kv_used c) \<rparr>)) }"

definition kv_ext_set :: "nat \<Rightarrow> kv_cell_ext \<Rightarrow> kv_cells \<Rightarrow> kv_cells option" where
  "kv_ext_set i e c = do {
     assertion (i < length (kv_ext c));
     Some (touch i (c\<lparr> kv_ext := (kv_ext c)[i := e] \<rparr>)) }"

definition kv_pos_add_impl :: "nat \<Rightarrow> int \<Rightarrow> bool \<Rightarrow> bool \<Rightarrow> kv_cells \<Rightarrow> (bool \<times> kv_cells) option" where
  "kv_pos_add_impl i d rotate_key broadcast_text c = do {
     assertion (i < kv_size c);
     assertion (kv_pos c ! i \<noteq> -1);
     c1 \<leftarrow> seq_pos_rm i c;
     let c2 = touch i c1;
     let e = kv_ext c2 ! i;
     let c3 = c2\<lparr> kv_pos := (kv_pos c2)[i := kv_pos c2 ! i + d],
        kv_ext := (if broadcast_text
                   then (kv_ext c2)[i := e\<lparr> ext_x := ext_x e + d, ext_y := ext_y e + d \<rparr>]
                   else kv_ext c2),
        kv_shift := (if rotate_key then (kv_shift c2)[i := kv_shift c2 ! i + d] else kv_shift c2),
        kv_has_shift := (kv_has_shift c2 \<or> rotate_key) \<rparr>;
     if kv_pos c3 ! i < 0
     then Some (True, c3\<lparr> kv_seq := (kv_seq c3)[i := {}], kv_pos := (kv_pos c3)[i := -1],
            kv_shift := (kv_shift c3)[i := 0], kv_used := idx_erase i (kv_used c3) \<rparr>)
     else do { c4 \<leftarrow> seq_pos_add i c3; Some (False, c4) } }"

definition kv_pos_add :: "nat \<Rightarrow> int \<Rightarrow> kv_cells \<Rightarrow> (bool \<times> kv_cells) option" where
  "kv_pos_add i d = kv_pos_add_impl i d True False"

definition kv_pos_add_mrope_text :: "nat \<Rightarrow> int \<Rightarrow> kv_cells \<Rightarrow> (bool \<times> kv_cells) option" where
  "kv_pos_add_mrope_text i d = kv_pos_add_impl i d True True"

definition kv_pos_add_mrope_text_raw :: "nat \<Rightarrow> int \<Rightarrow> kv_cells \<Rightarrow> (bool \<times> kv_cells) option" where
  "kv_pos_add_mrope_text_raw i d = kv_pos_add_impl i d False True"

definition kv_pos_div :: "nat \<Rightarrow> int \<Rightarrow> kv_cells \<Rightarrow> kv_cells option" where
  "kv_pos_div i d c = do {
     assertion (i < kv_size c);
     assertion (kv_pos c ! i \<noteq> -1);
     let p_old = kv_pos c ! i;
     c1 \<leftarrow> seq_pos_rm i c;
     assertion (d \<noteq> 0);
     let c2 = c1\<lparr> kv_pos := (kv_pos c1)[i := kv_pos c1 ! i sdiv d] \<rparr>;
     let c3 = c2\<lparr> kv_shift := (kv_shift c2)[i := kv_shift c2 ! i + (p_old - kv_pos c2 ! i)] \<rparr>;
     c4 \<leftarrow> seq_pos_add i c3;
     Some ((touch i c4)\<lparr> kv_has_shift := True \<rparr>) }"

end
