(* ===== verification/Kv_Invariant.thy ===== *)
theory Kv_Invariant
  imports Kv_Cells
begin

text \<open>
  The consistency invariant of the cell metadata and its preservation. A cell is described by its
  position, its sequences, its extension and its shift; \<open>kv_upd\<close> is the abstract update of one
  cell, under which the used set and the ownership index are recomputed. Each operation of the
  code is shown to be \<open>kv_upd\<close> followed by a revision, so that its asserts never fail, its
  functional behaviour is known and the invariant is kept.
\<close>

section \<open>The invariant\<close>

definition seq_pos_of :: "int list \<Rightarrow> nat set list \<Rightarrow> nat \<Rightarrow> (int \<times> nat) set" where
  "seq_pos_of pos sq s = {(pos ! i, i) | i. i < length pos \<and> s \<in> sq ! i}"

definition kv_inv :: "kv_cells \<Rightarrow> bool" where
  "kv_inv c \<longleftrightarrow>
     length (kv_ext c) = kv_size c \<and> length (kv_shift c) = kv_size c \<and> length (kv_seq c) = kv_size c \<and>
     ix.tracks (\<lambda>p. p \<noteq> -1) (kv_pos c) (kv_used c) \<and>
     (\<forall>i < kv_size c. kv_pos c ! i \<ge> -1 \<and> kv_seq c ! i \<subseteq> {..<LLAMA_MAX_SEQ} \<and>
        (kv_pos c ! i = -1 \<longrightarrow> kv_seq c ! i = {})) \<and>
     kv_seq_pos c = seq_pos_of (kv_pos c) (kv_seq c) \<and>
     length (kv_changes c) = N_CHANGES \<and> kv_head c < N_CHANGES \<and> kv_n_changes c \<le> N_CHANGES"

lemma kv_invD:
  assumes "kv_inv c"
  shows "length (kv_ext c) = kv_size c" "length (kv_shift c) = kv_size c" "length (kv_seq c) = kv_size c"
    "ix.tracks (\<lambda>p. p \<noteq> -1) (kv_pos c) (kv_used c)"
    "i < kv_size c \<Longrightarrow> kv_pos c ! i \<ge> -1"
    "i < kv_size c \<Longrightarrow> kv_seq c ! i \<subseteq> {..<LLAMA_MAX_SEQ}"
    "i < kv_size c \<Longrightarrow> kv_pos c ! i = -1 \<Longrightarrow> kv_seq c ! i = {}"
    "kv_seq_pos c = seq_pos_of (kv_pos c) (kv_seq c)"
    "length (kv_changes c) = N_CHANGES" "kv_head c < N_CHANGES" "kv_n_changes c \<le> N_CHANGES"
  using assms by (auto simp: kv_inv_def)

lemma seq_pos_of_iff: "(p, i) \<in> seq_pos_of pos sq s \<longleftrightarrow> i < length pos \<and> s \<in> sq ! i \<and> p = pos ! i"
  by (auto simp: seq_pos_of_def)

lemma finite_seq_pos_of [simp]: "finite (seq_pos_of pos sq s)"
  by (rule finite_subset [of _ "(\<lambda>i. (pos ! i, i)) ` {..<length pos}"]) (auto simp: seq_pos_of_def)

text \<open>Replacing one cell changes the index of a sequence at that cell only.\<close>

lemma seq_pos_of_update:
  assumes "i < length pos" and "length sq = length pos"
  shows "seq_pos_of (pos[i := p]) (sq[i := q]) s =
    seq_pos_of pos sq s - {(pos ! i, i)} \<union> (if s \<in> q then {(p, i)} else {})"
  using assms by (auto simp: seq_pos_of_def nth_list_update_if split: if_splits)

section \<open>The abstract update of one cell\<close>

definition kv_upd :: "nat \<Rightarrow> int \<Rightarrow> nat set \<Rightarrow> kv_cell_ext \<Rightarrow> int \<Rightarrow> kv_cells \<Rightarrow> kv_cells" where
  "kv_upd i p q e d c = c\<lparr>
     kv_pos := (kv_pos c)[i := p], kv_seq := (kv_seq c)[i := q],
     kv_ext := (kv_ext c)[i := e], kv_shift := (kv_shift c)[i := d],
     kv_used := (if p \<noteq> -1 then (if kv_pos c ! i = -1 then idx_insert i (kv_used c) else kv_used c)
                 else if kv_pos c ! i \<noteq> -1 then idx_erase i (kv_used c) else kv_used c),
     kv_seq_pos := seq_pos_of ((kv_pos c)[i := p]) ((kv_seq c)[i := q]) \<rparr>"

lemma kv_inv_upd:
  assumes inv: "kv_inv c" and i: "i < kv_size c"
    and "-1 \<le> p" and "q \<subseteq> {..<LLAMA_MAX_SEQ}" and "p = -1 \<Longrightarrow> q = {}"
  shows "kv_inv (kv_upd i p q e d c)"
proof -
  have "ix.tracks (\<lambda>p. p \<noteq> -1) ((kv_pos c)[i := p]) (kv_used (kv_upd i p q e d c))"
    using ix.tracks_ins [OF kv_invD(4) [OF inv] i, of p] ix.tracks_del [OF kv_invD(4) [OF inv] i, of p]
      ix.tracks_keep [OF kv_invD(4) [OF inv] i, of p]
    by (auto simp: kv_upd_def)
  then show ?thesis
    using assms by (auto simp: kv_inv_def kv_upd_def nth_list_update_if)
qed

lemma kv_inv_touch [inv_intros]: "kv_inv c \<Longrightarrow> kv_inv (touch i c)"
  by (simp add: kv_inv_def touch_def N_CHANGES_def)

lemma kv_inv_touch_all [inv_intros]: "kv_inv c \<Longrightarrow> kv_inv (touch_all c)"
  by (simp add: kv_inv_def touch_all_def)

lemma kv_inv_flag [inv_intros]: "kv_inv c \<Longrightarrow> kv_inv (c\<lparr> kv_has_shift := b \<rparr>)"
  by (simp add: kv_inv_def)

lemma kv_inv_glob [inv_intros]: "kv_inv c \<Longrightarrow> kv_inv (c\<lparr> kv_glob := g \<rparr>)"
  by (simp add: kv_inv_def)

lemma touch_simps [simp]:
  "kv_pos (touch i c) = kv_pos c" "kv_seq (touch i c) = kv_seq c" "kv_ext (touch i c) = kv_ext c"
  "kv_shift (touch i c) = kv_shift c" "kv_used (touch i c) = kv_used c"
  "kv_seq_pos (touch i c) = kv_seq_pos c" "kv_has_shift (touch i c) = kv_has_shift c"
  by (simp_all add: touch_def)

lemma kv_upd_simps [simp]:
  "kv_pos (kv_upd i p q e d c) = (kv_pos c)[i := p]" "kv_seq (kv_upd i p q e d c) = (kv_seq c)[i := q]"
  "kv_ext (kv_upd i p q e d c) = (kv_ext c)[i := e]" "kv_shift (kv_upd i p q e d c) = (kv_shift c)[i := d]"
  "kv_rev (kv_upd i p q e d c) = kv_rev c" "kv_glob (kv_upd i p q e d c) = kv_glob c"
  "kv_changes (kv_upd i p q e d c) = kv_changes c" "kv_head (kv_upd i p q e d c) = kv_head c"
  "kv_n_changes (kv_upd i p q e d c) = kv_n_changes c" "kv_has_shift (kv_upd i p q e d c) = kv_has_shift c"
  by (simp_all add: kv_upd_def)

section \<open>The index loops\<close>

lemma seq_pos_rm_loop:
  assumes "\<And>s. s \<in> kv_seq c ! i \<Longrightarrow> s < n \<Longrightarrow> (kv_pos c ! i, i) \<in> kv_seq_pos c s"
  shows "foldM (\<lambda>s c. if s \<in> kv_seq c ! i then seq_pos_dec s i c else Some c) [0..<n] c =
    Some (c\<lparr> kv_seq_pos := (\<lambda>s. if s < n \<and> s \<in> kv_seq c ! i
       then kv_seq_pos c s - {(kv_pos c ! i, i)} else kv_seq_pos c s) \<rparr>)"
  using assms
proof (induction n)
  case 0
  then show ?case by simp
next
  case (Suc n)
  then show ?case
    by (auto simp: foldM_append seq_pos_dec_def fun_eq_iff less_Suc_eq intro!: kv_cells.equality)
qed

lemma seq_pos_rm_general:
  assumes i: "i < kv_size c" and len: "length (kv_seq c) = kv_size c"
    and sub: "kv_seq c ! i \<subseteq> {..<LLAMA_MAX_SEQ}"
    and index: "kv_seq_pos c = seq_pos_of (kv_pos c) (kv_seq c)"
  shows "seq_pos_rm i c = Some (c\<lparr> kv_seq_pos := seq_pos_of (kv_pos c) ((kv_seq c)[i := {}]) \<rparr>)"
proof -
  have "seq_pos_rm i c = Some (c\<lparr> kv_seq_pos := (\<lambda>s. if s < LLAMA_MAX_SEQ \<and> s \<in> kv_seq c ! i
       then kv_seq_pos c s - {(kv_pos c ! i, i)} else kv_seq_pos c s) \<rparr>)"
    unfolding seq_pos_rm_def by (rule seq_pos_rm_loop) (use i in \<open>simp add: index seq_pos_of_iff\<close>)
  also have "(\<lambda>s. if s < LLAMA_MAX_SEQ \<and> s \<in> kv_seq c ! i
       then kv_seq_pos c s - {(kv_pos c ! i, i)} else kv_seq_pos c s) =
     seq_pos_of (kv_pos c) ((kv_seq c)[i := {}])"
    using seq_pos_of_update [OF i len, of "kv_pos c ! i" "{}"] sub
    by (auto simp: fun_eq_iff index seq_pos_of_iff)
  finally show ?thesis .
qed

lemma seq_pos_rm_eq:
  "kv_inv c \<Longrightarrow> i < kv_size c \<Longrightarrow>
    seq_pos_rm i c = Some (c\<lparr> kv_seq_pos := seq_pos_of (kv_pos c) ((kv_seq c)[i := {}]) \<rparr>)"
  by (rule seq_pos_rm_general) (simp_all add: kv_invD)

lemma seq_pos_add_loop:
  assumes "\<And>s. s \<in> kv_seq c ! i \<Longrightarrow> s < n \<Longrightarrow> (kv_pos c ! i, i) \<notin> kv_seq_pos c s"
  shows "foldM (\<lambda>s c. if s \<in> kv_seq c ! i then seq_pos_inc s i c else Some c) [0..<n] c =
    Some (c\<lparr> kv_seq_pos := (\<lambda>s. if s < n \<and> s \<in> kv_seq c ! i
       then insert (kv_pos c ! i, i) (kv_seq_pos c s) else kv_seq_pos c s) \<rparr>)"
  using assms
proof (induction n)
  case 0
  then show ?case by simp
next
  case (Suc n)
  then show ?case
    by (auto simp: foldM_append seq_pos_inc_def fun_eq_iff less_Suc_eq intro!: kv_cells.equality)
qed

text \<open>Adding a cell whose entries are absent: the index of the cell list with that cell.\<close>

lemma seq_pos_add_eq:
  assumes i: "i < kv_size c" and len: "length (kv_seq c) = kv_size c"
    and q: "kv_seq c ! i \<subseteq> {..<LLAMA_MAX_SEQ}"
    and absent: "kv_seq_pos c = seq_pos_of (kv_pos c) ((kv_seq c)[i := {}])"
  shows "seq_pos_add i c = Some (c\<lparr> kv_seq_pos := seq_pos_of (kv_pos c) (kv_seq c) \<rparr>)"
proof -
  have "seq_pos_add i c = Some (c\<lparr> kv_seq_pos := (\<lambda>s. if s < LLAMA_MAX_SEQ \<and> s \<in> kv_seq c ! i
       then insert (kv_pos c ! i, i) (kv_seq_pos c s) else kv_seq_pos c s) \<rparr>)"
    unfolding seq_pos_add_def
    by (rule seq_pos_add_loop) (use i len in \<open>simp add: absent seq_pos_of_iff\<close>)
  also have "(\<lambda>s. if s < LLAMA_MAX_SEQ \<and> s \<in> kv_seq c ! i
       then insert (kv_pos c ! i, i) (kv_seq_pos c s) else kv_seq_pos c s) =
     seq_pos_of (kv_pos c) (kv_seq c)"
  proof
    fix s
    have "seq_pos_of (kv_pos c) (kv_seq c) s =
       kv_seq_pos c s \<union> (if s \<in> kv_seq c ! i then {(kv_pos c ! i, i)} else {})"
      using i len by (auto simp: absent seq_pos_of_def nth_list_update_if split: if_splits)
    then show "(if s < LLAMA_MAX_SEQ \<and> s \<in> kv_seq c ! i
       then insert (kv_pos c ! i, i) (kv_seq_pos c s) else kv_seq_pos c s) =
     seq_pos_of (kv_pos c) (kv_seq c) s" using q by auto
  qed
  finally show ?thesis .
qed

section \<open>The operations as updates of one cell\<close>

lemma seq_pos_of_empty_cell:
  "i < length pos \<Longrightarrow> length sq = length pos \<Longrightarrow>
    seq_pos_of (pos[i := p]) (sq[i := {}]) = seq_pos_of pos (sq[i := {}])"
  by (auto simp: seq_pos_of_def fun_eq_iff nth_list_update_if split: if_splits)

lemma kv_rm_eq [kv_simps]:
  assumes inv: "kv_inv c" and i: "i < kv_size c" and p: "kv_pos c ! i \<noteq> -1"
  shows "kv_rm i c = Some (touch i (kv_upd i (-1) {} ext_default 0 c))"
  using p i by (simp add: kv_rm_def seq_pos_rm_eq [OF inv i] kv_upd_def touch_def
      seq_pos_of_empty_cell [OF i kv_invD(3) [OF inv]])

lemma kv_seq_rm_eq [kv_simps]:
  assumes inv: "kv_inv c" and i: "i < kv_size c" and s: "s \<in> kv_seq c ! i"
  shows "kv_seq_rm i s c =
    (if kv_seq c ! i = {s} then Some (True, touch i (kv_upd i (-1) {} ext_default 0 c))
     else Some (False, touch i (kv_upd i (kv_pos c ! i) (kv_seq c ! i - {s}) (kv_ext c ! i) (kv_shift c ! i) c)))"
proof -
  have p: "kv_pos c ! i \<noteq> -1" using kv_invD(7) [OF inv i] s by blast
  let ?q = "kv_seq c ! i - {s}"
  have upd: "(kv_seq_pos c)(s := kv_seq_pos c s - {(kv_pos c ! i, i)}) =
      seq_pos_of (kv_pos c) ((kv_seq c)[i := ?q])"
    using i seq_pos_of_update [OF i kv_invD(3) [OF inv], of "kv_pos c ! i" ?q]
    by (auto simp: fun_eq_iff kv_invD(8) [OF inv] seq_pos_of_iff)
  have "(kv_pos c ! i, i) \<in> kv_seq_pos c s"
    using i s by (simp add: kv_invD(8) [OF inv] seq_pos_of_iff)
  moreover have "?q = {} \<longleftrightarrow> kv_seq c ! i = {s}" using s by auto
  ultimately show ?thesis
    using i p s kv_invD(3) [OF inv] upd
    by (auto simp: kv_seq_rm_def seq_pos_dec_def kv_upd_def touch_def Let_def
        seq_pos_of_empty_cell [OF i kv_invD(3) [OF inv]])
qed

lemma kv_seq_keep_eq [kv_simps]:
  assumes inv: "kv_inv c" and i: "i < kv_size c" and s: "s < LLAMA_MAX_SEQ"
    and own: "kv_seq c ! i = {} \<Longrightarrow> kv_pos c ! i = -1"
  shows "kv_seq_keep i s c =
    (if s \<in> kv_seq c ! i then Some (False, touch i (kv_upd i (kv_pos c ! i) {s} (kv_ext c ! i) (kv_shift c ! i) c))
     else if kv_seq c ! i \<noteq> {} then Some (True, touch i (kv_upd i (-1) {} ext_default 0 c))
     else Some (False, c))"
proof -
  have p: "kv_pos c ! i \<noteq> -1" if "kv_seq c ! i \<noteq> {}" using kv_invD(7) [OF inv i] that by blast
  have len: "length (kv_seq c) = kv_size c" using inv by (rule kv_invD)
  have absent: "(kv_pos c ! i, i) \<notin> seq_pos_of (kv_pos c) ((kv_seq c)[i := {}]) s"
    using i len by (simp add: seq_pos_of_iff)
  have "(seq_pos_of (kv_pos c) ((kv_seq c)[i := {}]))
      (s := insert (kv_pos c ! i, i) (seq_pos_of (kv_pos c) ((kv_seq c)[i := {}]) s)) =
      seq_pos_of (kv_pos c) ((kv_seq c)[i := {s}])"
    using i len by (auto simp: seq_pos_of_def fun_eq_iff nth_list_update_if split: if_splits)
  then show ?thesis
    using i s p absent own
    by (auto simp: kv_seq_keep_def seq_pos_rm_eq [OF inv i] seq_pos_inc_def kv_upd_def touch_def
        seq_pos_of_empty_cell [OF i len])
qed

lemma kv_seq_add_eq [kv_simps]:
  assumes inv: "kv_inv c" and i: "i < kv_size c" and p: "kv_pos c ! i \<noteq> -1"
    and s: "s < LLAMA_MAX_SEQ" "s \<notin> kv_seq c ! i"
  shows "kv_seq_add i s c =
    Some (touch i (kv_upd i (kv_pos c ! i) (insert s (kv_seq c ! i)) (kv_ext c ! i) (kv_shift c ! i) c))"
proof -
  have len: "length (kv_seq c) = kv_size c" using inv by (rule kv_invD)
  have "(kv_seq_pos c)(s := insert (kv_pos c ! i, i) (kv_seq_pos c s)) =
      seq_pos_of (kv_pos c) ((kv_seq c)[i := insert s (kv_seq c ! i)])"
    using i len
    by (auto simp: kv_invD(8) [OF inv] seq_pos_of_def fun_eq_iff nth_list_update_if split: if_splits)
  moreover have "(kv_pos c ! i, i) \<notin> kv_seq_pos c s"
    using s by (simp add: kv_invD(8) [OF inv] seq_pos_of_iff)
  ultimately show ?thesis
    using i p s by (simp add: kv_seq_add_def seq_pos_inc_def kv_upd_def touch_def)
qed

lemma kv_pos_set_eq [kv_simps]:
  assumes inv: "kv_inv c" and i: "i < kv_size c" and p: "kv_pos c ! i = -1" "p \<noteq> -1"
  shows "kv_pos_set i p c = Some (touch i (kv_upd i p {} (kv_ext c ! i) (kv_shift c ! i) c))"
proof -
  have len: "length (kv_seq c) = kv_size c" and q: "kv_seq c ! i = {}"
    using kv_invD(3) [OF inv] kv_invD(7) [OF inv i p(1)] by auto
  have "kv_seq_pos c = seq_pos_of ((kv_pos c)[i := p]) ((kv_seq c)[i := {}])"
    using seq_pos_of_empty_cell [OF i len, of p] list_update_id [of "kv_seq c" i]
    by (simp add: kv_invD(8) [OF inv] q)
  with i p q show ?thesis
    using list_update_id [of "kv_seq c" i] by (simp add: kv_pos_set_def kv_upd_def touch_def)
qed

lemma kv_ext_set_eq [kv_simps]:
  assumes inv: "kv_inv c" and i: "i < kv_size c"
  shows "kv_ext_set i e c = Some (touch i (kv_upd i (kv_pos c ! i) (kv_seq c ! i) e (kv_shift c ! i) c))"
  using i kv_invD(1,8) [OF inv] by (simp add: kv_ext_set_def kv_upd_def touch_def)

text \<open>Moving a cell: remove its entries, change the position, add them at the new one.\<close>

lemma seq_pos_add_moved:
  assumes inv: "kv_inv c" and i: "i < kv_size c" and p: "p \<noteq> -1"
    and c': "kv_pos c' = (kv_pos c)[i := p]" "kv_seq c' = (kv_seq c)[i := q]"
      "kv_seq_pos c' = seq_pos_of (kv_pos c) ((kv_seq c)[i := {}])" "q \<subseteq> {..<LLAMA_MAX_SEQ}"
  shows "seq_pos_add i c' =
    Some (c'\<lparr> kv_seq_pos := seq_pos_of ((kv_pos c)[i := p]) ((kv_seq c)[i := q]) \<rparr>)"
proof -
  have len: "length (kv_seq c) = kv_size c" using inv by (rule kv_invD)
  show ?thesis
    using i len c' seq_pos_of_empty_cell [OF i len, of p]
    by (subst seq_pos_add_eq) simp_all
qed

definition shifted_ext :: "bool \<Rightarrow> int \<Rightarrow> kv_cell_ext \<Rightarrow> kv_cell_ext" where
  "shifted_ext b d e = (if b then e\<lparr> ext_x := ext_x e + d, ext_y := ext_y e + d \<rparr> else e)"

lemma kv_pos_add_impl_eq [kv_simps]:
  assumes inv: "kv_inv c" and i: "i < kv_size c" and p: "kv_pos c ! i \<noteq> -1"
  shows "kv_pos_add_impl i d rot txt c =
    (let e = shifted_ext txt d (kv_ext c ! i); f = kv_has_shift c \<or> rot
     in if kv_pos c ! i + d < 0
        then Some (True, (touch i (kv_upd i (-1) {} e 0 c))\<lparr> kv_has_shift := f \<rparr>)
        else Some (False, (touch i (kv_upd i (kv_pos c ! i + d) (kv_seq c ! i) e
               (if rot then kv_shift c ! i + d else kv_shift c ! i) c))\<lparr> kv_has_shift := f \<rparr>))"
proof -
  have len: "length (kv_seq c) = kv_size c" "length (kv_ext c) = kv_size c"
      "length (kv_shift c) = kv_size c" and q: "kv_seq c ! i \<subseteq> {..<LLAMA_MAX_SEQ}"
    using inv i by (simp_all add: kv_invD)
  show ?thesis
  proof (cases "kv_pos c ! i + d < 0")
    case True
    with i p len show ?thesis
      by (simp add: kv_pos_add_impl_def seq_pos_rm_eq [OF inv i] kv_upd_def touch_def
          shifted_ext_def Let_def seq_pos_of_empty_cell [OF i len(1)])
  next
    case False
    with i p len q show ?thesis
      by (simp add: kv_pos_add_impl_def seq_pos_rm_eq [OF inv i] Let_def shifted_ext_def
          seq_pos_add_moved [OF inv i, where q = "kv_seq c ! i" and p = "kv_pos c ! i + d"])
        (simp add: kv_upd_def touch_def)
  qed
qed

lemma sdiv_nonneg: "0 \<le> (a::int) \<Longrightarrow> 0 < b \<Longrightarrow> a sdiv b = a div b"
  by (simp add: signed_divide_int_def sgn_if)

lemma kv_pos_div_eq [kv_simps]:
  assumes inv: "kv_inv c" and i: "i < kv_size c" and p: "kv_pos c ! i \<noteq> -1" and d: "0 < d"
  shows "kv_pos_div i d c =
    (let q = kv_pos c ! i div d
     in Some ((touch i (kv_upd i q (kv_seq c ! i) (kv_ext c ! i)
          (kv_shift c ! i + (kv_pos c ! i - q)) c))\<lparr> kv_has_shift := True \<rparr>))"
proof -
  have len: "length (kv_seq c) = kv_size c" "length (kv_shift c) = kv_size c"
    and q: "kv_seq c ! i \<subseteq> {..<LLAMA_MAX_SEQ}"
    using inv i by (simp_all add: kv_invD)
  have nonneg: "0 \<le> kv_pos c ! i" using kv_invD(5) [OF inv i] p by simp
  then have dv: "kv_pos c ! i sdiv d = kv_pos c ! i div d" "0 \<le> kv_pos c ! i div d"
    using d by (simp_all add: sdiv_nonneg pos_imp_zdiv_nonneg_iff)
  with i p len q d show ?thesis
    by (simp add: kv_pos_div_def seq_pos_rm_eq [OF inv i] Let_def
        seq_pos_add_moved [OF inv i, where q = "kv_seq c ! i" and p = "kv_pos c ! i div d"])
      (simp add: kv_upd_def touch_def)
qed

section \<open>Restoring a snapshot\<close>

text \<open>What \<open>set\<close> reads of a snapshot: its positions, extensions and sequence sets.\<close>

definition snap_ok :: "kv_cells \<Rightarrow> bool" where
  "snap_ok sn \<longleftrightarrow> length (kv_ext sn) = kv_size sn \<and> length (kv_seq sn) = kv_size sn \<and>
     (\<forall>j < kv_size sn. kv_pos sn ! j \<ge> -1 \<and> kv_seq sn ! j \<subseteq> {..<LLAMA_MAX_SEQ} \<and>
        (kv_pos sn ! j = -1 \<longrightarrow> kv_seq sn ! j = {}))"

lemma set_cell_eq:
  assumes inv: "kv_inv c" and i: "i < kv_size c" and sn: "snap_ok sn" "j < kv_size sn"
  shows "set_cell sn i j c = (if kv_shift c ! i = 0
    then Some (touch i (kv_upd i (kv_pos sn ! j) (kv_seq sn ! j) (kv_ext sn ! j) (kv_shift c ! i) c))
    else None)"
proof -
  have len: "length (kv_seq c) = kv_size c" using inv by (rule kv_invD)
  have q: "kv_seq sn ! j \<subseteq> {..<LLAMA_MAX_SEQ}" and e: "kv_pos sn ! j = -1 \<Longrightarrow> kv_seq sn ! j = {}"
    using sn by (auto simp: snap_ok_def)
  have gone: "kv_seq_pos c = seq_pos_of (kv_pos c) ((kv_seq c)[i := {}])" if "kv_pos c ! i = -1"
    using kv_invD(7) [OF inv i that] list_update_id [of "kv_seq c" i] by (simp add: kv_invD(8) [OF inv])
  have rm: "seq_pos_rm i (c\<lparr> kv_used := u \<rparr>) =
      Some (c\<lparr> kv_used := u, kv_seq_pos := seq_pos_of (kv_pos c) ((kv_seq c)[i := {}]) \<rparr>)" for u
    using seq_pos_rm_general [of i "c\<lparr> kv_used := u \<rparr>"] i len kv_invD(6,8) [OF inv] by simp
  have "set_cell sn i j c = Option.bind (assertion (kv_shift c ! i = 0))
     (\<lambda>_. Some (touch i (kv_upd i (kv_pos sn ! j) (kv_seq sn ! j) (kv_ext sn ! j) (kv_shift c ! i) c)))"
    using i q e gone
    by (cases "kv_pos c ! i = -1"; cases "kv_pos sn ! j = -1"; cases "assertion (kv_shift c ! i = 0)")
      (simp_all add: set_cell_def Let_def rm seq_pos_rm_eq [OF inv i] kv_upd_def touch_def
        seq_pos_of_empty_cell [OF i len]
        seq_pos_add_moved [OF inv i, where q = "kv_seq sn ! j" and p = "kv_pos sn ! j"])
  then show ?thesis by (simp add: assertion_def)
qed

end
