(* ===== verification/Kv_Steps.thy ===== *)
theory Kv_Steps
  imports Kv_Invariant
begin

text \<open>
  The cell metadata as a state machine. \<open>kv_step\<close> has one rule per mutating operation of
  \<open>llama_kv_cells\<close>, with the preconditions the code documents, and one for the revisions other cell
  sets of the process draw from the shared counter. \<open>kv_atom\<close> are the atomic changes a step is
  made of; every step from a consistent state is a sequence of them.
\<close>

section \<open>Steps and atoms\<close>

inductive kv_step :: "kv_cells \<Rightarrow> kv_cells \<Rightarrow> bool" where
  rm: "kv_rm i c = Some c' \<Longrightarrow> kv_step c c'"
| seq_rm: "kv_seq_rm i s c = Some (b, c') \<Longrightarrow> kv_step c c'"
| seq_keep: "kv_seq_keep i s c = Some (b, c') \<Longrightarrow> kv_step c c'"
| seq_add: "kv_seq_add i s c = Some c' \<Longrightarrow> kv_step c c'"
| pos_set: "0 \<le> p \<Longrightarrow> kv_pos_set i p c = Some c' \<Longrightarrow> kv_step c c'"
| ext_set: "kv_ext_set i e c = Some c' \<Longrightarrow> kv_step c c'"
| pos_add: "kv_pos_add_impl i d rot txt c = Some (b, c') \<Longrightarrow> kv_step c c'"
| pos_div: "0 < d \<Longrightarrow> kv_pos_div i d c = Some c' \<Longrightarrow> kv_step c c'"
| set_range: "snap_ok sn \<Longrightarrow> kv_set i sn c = Some c' \<Longrightarrow> kv_step c c'"
| set_idxs: "snap_ok sn \<Longrightarrow> kv_set_idxs idxs sn c = Some c' \<Longrightarrow> kv_step c c'"
| cp: "kv_cp i n c = Some (sn, c') \<Longrightarrow> kv_step c c'"
| cp_idxs: "kv_cp_idxs idxs c = Some (sn, c') \<Longrightarrow> kv_step c c'"
| reset: "kv_step c (kv_reset c)"
| resize: "kv_step c (kv_resize n c)"
| reset_shift: "kv_step c (kv_reset_shift c)"
| other_set: "kv_step c (c\<lparr> kv_glob := kv_glob c + n \<rparr>)"

inductive kv_atom :: "kv_cells \<Rightarrow> kv_cells \<Rightarrow> bool" where
  upd: "\<lbrakk> i < kv_size c; -1 \<le> p; q \<subseteq> {..<LLAMA_MAX_SEQ}; p = -1 \<longrightarrow> q = {} \<rbrakk> \<Longrightarrow>
    kv_atom c (touch i (kv_upd i p q e d c))"
| flag: "kv_atom c (c\<lparr> kv_has_shift := b \<rparr>)"
| shifts: "length ds = length (kv_shift c) \<Longrightarrow> kv_atom c (c\<lparr> kv_has_shift := b, kv_shift := ds \<rparr>)"
| glob: "kv_glob c \<le> g \<Longrightarrow> kv_atom c (c\<lparr> kv_glob := g \<rparr>)"
| bulk: "c' = c\<lparr> kv_pos := replicate n (-1), kv_ext := replicate n ext_default,
       kv_shift := replicate n 0, kv_seq := replicate n {}, kv_seq_pos := (\<lambda>_. {}),
       kv_used := u, kv_has_shift := False \<rparr> \<Longrightarrow>
    idx_elems u = {} \<Longrightarrow> idx_inv u \<Longrightarrow> n \<le> idx_dom u \<Longrightarrow>
    kv_atom c (touch_all c')"

abbreviation kv_atoms :: "kv_cells \<Rightarrow> kv_cells \<Rightarrow> bool" where
  "kv_atoms \<equiv> rtranclp kv_atom"

lemma kv_atom_inv: "kv_atom c c' \<Longrightarrow> kv_inv c \<Longrightarrow> kv_inv c'"
proof (induction rule: kv_atom.induct)
  case (bulk c' c n u)
  then show ?case
    by (auto simp: kv_inv_def touch_all_def ix.tracks_def seq_pos_of_def fun_eq_iff)
qed (auto intro: inv_intros kv_inv_upd simp: kv_inv_def [of "_\<lparr> kv_has_shift := _, kv_shift := _ \<rparr>"] dest: kv_invD)

lemma kv_atoms_inv: "kv_atoms c c' \<Longrightarrow> kv_inv c \<Longrightarrow> kv_inv c'"
  by (induction rule: rtranclp_induct) (auto intro: kv_atom_inv)

lemma kv_atoms_step: "kv_atoms a b \<Longrightarrow> kv_atom b c \<Longrightarrow> kv_atoms a c"
  by (rule rtranclp.rtrancl_into_rtrancl)

lemma kv_atom_upd_flag:
  assumes "i < kv_size c" "-1 \<le> p" "q \<subseteq> {..<LLAMA_MAX_SEQ}" "p = -1 \<longrightarrow> q = {}"
  shows "kv_atoms c ((touch i (kv_upd i p q e d c))\<lparr> kv_has_shift := b \<rparr>)"
proof -
  have "kv_atoms c (touch i (kv_upd i p q e d c))"
    by (rule r_into_rtranclp) (rule kv_atom.upd [OF assms])
  then show ?thesis by (rule kv_atoms_step) (rule kv_atom.flag)
qed

section \<open>Every step is a sequence of atoms\<close>

lemma cell_valid:
  assumes "kv_inv c" and "i < kv_size c"
  shows "-1 \<le> kv_pos c ! i" "kv_seq c ! i \<subseteq> {..<LLAMA_MAX_SEQ}" "kv_pos c ! i = -1 \<longrightarrow> kv_seq c ! i = {}"
  using assms kv_invD by auto

lemma upd_empty: "i < kv_size c \<Longrightarrow> kv_atoms c (touch i (kv_upd i (-1) {} e d c))"
  by (rule r_into_rtranclp) (auto intro: kv_atom.upd)

lemma upd_same_pos:
  "\<lbrakk> kv_inv c; i < kv_size c; q \<subseteq> {..<LLAMA_MAX_SEQ}; kv_pos c ! i = -1 \<longrightarrow> q = {} \<rbrakk> \<Longrightarrow>
    kv_atoms c (touch i (kv_upd i (kv_pos c ! i) q e d c))"
  by (rule r_into_rtranclp) (auto intro!: kv_atom.upd simp: cell_valid)

lemma set_cell_atoms:
  assumes "kv_inv c" "i < kv_size c" "snap_ok sn" "j < kv_size sn" "set_cell sn i j c = Some c'"
  shows "kv_atoms c c'"
proof -
  have "c' = touch i (kv_upd i (kv_pos sn ! j) (kv_seq sn ! j) (kv_ext sn ! j) (kv_shift c ! i) c)"
    using assms(5) by (simp add: set_cell_eq [OF assms(1-4)] split: if_splits)
  moreover have "-1 \<le> kv_pos sn ! j" "kv_seq sn ! j \<subseteq> {..<LLAMA_MAX_SEQ}"
      "kv_pos sn ! j = -1 \<longrightarrow> kv_seq sn ! j = {}"
    using assms(3,4) by (auto simp: snap_ok_def)
  ultimately show ?thesis
    using assms(2) by (auto intro!: r_into_rtranclp kv_atom.upd)
qed

text \<open>A loop of cell writes: the invariant and the size are kept along the loop.\<close>

lemma set_loop_atoms:
  assumes sn: "snap_ok sn" and inv: "kv_inv c"
    and range: "\<And>j. j \<in> set js \<Longrightarrow> f j < kv_size c \<and> j < kv_size sn"
    and run: "foldM (\<lambda>j. set_cell sn (f j) j) js c = Some c'"
  shows "kv_atoms c c'"
proof -
  have "kv_atoms c c' \<and> kv_inv c' \<and> kv_size c' = kv_size c"
  proof (rule foldM_Some_invariant [OF run])
    fix j u v
    assume j: "j \<in> set js" and I: "kv_atoms c u \<and> kv_inv u \<and> kv_size u = kv_size c"
      and step: "set_cell sn (f j) j u = Some v"
    then have uv: "kv_atoms u v" using range [OF j] sn by (intro set_cell_atoms) auto
    moreover have "kv_size v = kv_size u"
      using step I range [OF j] sn by (simp add: set_cell_eq split: if_splits) auto
    ultimately show "kv_atoms c v \<and> kv_inv v \<and> kv_size v = kv_size c"
      using I by (auto intro: rtranclp_trans kv_atoms_inv)
  qed (use inv in simp)
  then show ?thesis by simp
qed

lemma kv_reset_atom: "kv_atom c (kv_reset c)" if "kv_inv c"
proof -
  have "kv_size c \<le> idx_dom (idx_clear (kv_used c))"
    using kv_invD(4) [OF that] by (simp add: ix.tracks_def)
  then show ?thesis
    by (auto simp: kv_reset_def Let_def touch_all_def
        intro!: kv_atom.bulk [where n = "kv_size c" and u = "idx_clear (kv_used c)", THEN back_subst [of "kv_atom c"]])
qed

lemma vec_resize_length [simp]: "length (vec_resize n x xs) = n"
  by (simp add: vec_resize_def)

lemma kv_resize_atom: "kv_atom c (kv_resize n c)"
proof -
  have "n \<le> idx_dom (idx_clear (idx_resize n))" by simp
  then show ?thesis
    by (auto simp: kv_resize_def kv_reset_def Let_def touch_all_def
        intro!: kv_atom.bulk [where n = n and u = "idx_clear (idx_resize n)", THEN back_subst [of "kv_atom c"]])
qed

lemma kv_reset_shift_atom: "kv_atom c (kv_reset_shift c)"
  by (auto simp: kv_reset_shift_def intro!: kv_atom.shifts)

lemma kv_glob_atoms: "kv_glob c \<le> g \<Longrightarrow> kv_atoms c (c\<lparr> kv_glob := g \<rparr>)"
  by (intro r_into_rtranclp kv_atom.glob)

lemma glob_fresh: "kv_glob (kv_resize n (kv_fresh g)) = g + 2"
  by (simp add: kv_resize_def kv_reset_def kv_fresh_def touch_all_def Let_def)

theorem kv_step_atoms:
  assumes "kv_step c c'" and inv: "kv_inv c"
  shows "kv_atoms c c'"
  using assms(1)
proof cases
  case (rm i)
  then have "i < kv_size c" "kv_pos c ! i \<noteq> -1" by (simp_all add: kv_rm_def)
  with rm inv show ?thesis by (auto simp: kv_rm_eq intro: upd_empty)
next
  case (seq_rm i s b)
  then have "i < kv_size c" "s \<in> kv_seq c ! i" by (simp_all add: kv_seq_rm_def)
  with seq_rm inv show ?thesis
    using cell_valid [OF inv, of i]
    by (auto simp: kv_seq_rm_eq split: if_splits intro!: upd_empty upd_same_pos)
next
  case (seq_keep i s b)
  then have i: "i < kv_size c" "s < LLAMA_MAX_SEQ" by (simp_all add: kv_seq_keep_def)
  have own: "kv_pos c ! i = -1" if "kv_seq c ! i = {}"
    using seq_keep that by (auto simp: kv_seq_keep_def)
  show ?thesis
    using seq_keep kv_seq_keep_eq [OF inv i own] i cell_valid [OF inv i(1)]
    by (auto split: if_splits intro!: upd_empty upd_same_pos inv)
next
  case (seq_add i s)
  then have "i < kv_size c" "kv_pos c ! i \<noteq> -1" "s < LLAMA_MAX_SEQ" "s \<notin> kv_seq c ! i"
    by (simp_all add: kv_seq_add_def)
  with seq_add inv show ?thesis
    using cell_valid [OF inv, of i] by (auto simp: kv_seq_add_eq intro!: upd_same_pos)
next
  case (pos_set p i)
  then have "i < kv_size c" "kv_pos c ! i = -1" "p \<noteq> -1" by (simp_all add: kv_pos_set_def)
  with pos_set inv show ?thesis
    by (auto simp: kv_pos_set_eq intro!: r_into_rtranclp kv_atom.upd)
next
  case (ext_set i e)
  then have "i < kv_size c" using inv by (simp add: kv_ext_set_def kv_invD)
  with ext_set inv show ?thesis
    using cell_valid [OF inv, of i] by (auto simp: kv_ext_set_eq intro!: upd_same_pos)
next
  case (pos_add i d rot bc b)
  then have "i < kv_size c" "kv_pos c ! i \<noteq> -1" by (simp_all add: kv_pos_add_impl_def)
  with pos_add inv show ?thesis
    using cell_valid [OF inv, of i]
    by (auto simp: kv_pos_add_impl_eq Let_def split: if_splits intro!: kv_atom_upd_flag)
next
  case (pos_div d i)
  then have i: "i < kv_size c" "kv_pos c ! i \<noteq> -1" by (simp_all add: kv_pos_div_def)
  have "0 \<le> kv_pos c ! i div d"
    using pos_div(1) cell_valid(1) [OF inv i(1)] i(2) by (simp add: pos_imp_zdiv_nonneg_iff)
  with pos_div inv i show ?thesis
    using cell_valid [OF inv i(1)]
    by (auto simp: kv_pos_div_eq Let_def intro!: kv_atom_upd_flag)
next
  case (set_range sn i)
  then show ?thesis
    using set_loop_atoms [of sn c "[0..<kv_size sn]" "\<lambda>j. i + j" c'] inv
    by (auto simp: kv_set_def)
next
  case (set_idxs sn idxs)
  then show ?thesis
    using set_loop_atoms [of sn c "[0..<kv_size sn]" "\<lambda>j. idxs ! j" c'] inv
    by (auto simp: kv_set_idxs_def)
next
  case (cp i n sn)
  then have "c' = c\<lparr> kv_glob := kv_glob c + 2 \<rparr>"
    by (auto simp: kv_cp_def bind_Some_iff glob_fresh)
  then show ?thesis by (simp add: kv_glob_atoms)
next
  case (cp_idxs idxs sn)
  then have "c' = c\<lparr> kv_glob := kv_glob c + 2 \<rparr>"
    by (auto simp: kv_cp_idxs_def bind_Some_iff glob_fresh)
  then show ?thesis by (simp add: kv_glob_atoms)
next
  case reset
  then show ?thesis using kv_reset_atom [OF inv] by auto
next
  case (resize n)
  then show ?thesis using kv_resize_atom by auto
next
  case reset_shift
  then show ?thesis using kv_reset_shift_atom by auto
next
  case (other_set n)
  then show ?thesis by (auto intro: kv_glob_atoms)
qed

section \<open>Reachable metadata\<close>

inductive kv_reachable :: "kv_cells \<Rightarrow> bool" where
  start: "kv_reachable (kv_resize n (kv_fresh g))"
| step: "kv_reachable c \<Longrightarrow> kv_step c c' \<Longrightarrow> kv_reachable c'"

lemma kv_inv_start: "kv_inv (kv_resize n (kv_fresh g))"
  by (simp add: kv_inv_def kv_resize_def kv_reset_def kv_fresh_def touch_all_def Let_def
      ix.tracks_def seq_pos_of_def fun_eq_iff N_CHANGES_def)

lemma kv_reachable_inv: "kv_reachable c \<Longrightarrow> kv_inv c"
proof (induction rule: kv_reachable.induct)
  case (step c c')
  then show ?case by (blast intro: kv_atoms_inv kv_step_atoms)
qed (rule kv_inv_start)

end
