(* ===== verification/Kv_History.thy ===== *)
theory Kv_History
  imports Kv_Steps
begin

text \<open>
  The revision history. \<open>history\<close> reads the ring of changes newest first; the revisions met by the
  walk of \<open>changes_since\<close> are \<open>rev_at\<close>. The main lemma \<open>changes_since_sound\<close>: whatever operations
  ran since a revision, the cells reported for it include every cell whose position, sequences or
  extension differ, or the history is reported as lost.
\<close>

section \<open>The ring as a list\<close>

definition ring_slot :: "kv_cells \<Rightarrow> nat \<Rightarrow> kv_change" where
  "ring_slot c k = kv_changes c ! ((kv_head c + N_CHANGES - 1 - k) mod N_CHANGES)"

definition history :: "kv_cells \<Rightarrow> kv_change list" where
  "history c = map (ring_slot c) [0..<kv_n_changes c]"

definition rev_at :: "kv_cells \<Rightarrow> nat \<Rightarrow> nat" where
  "rev_at c k = (case k of 0 \<Rightarrow> kv_rev c | Suc j \<Rightarrow> ch_prev (history c ! j))"

lemma length_history [simp]: "length (history c) = kv_n_changes c"
  by (simp add: history_def)

lemma ring_slot_touch:
  assumes "length (kv_changes c) = N_CHANGES" and "kv_head c < N_CHANGES" and "k < N_CHANGES"
  shows "ring_slot (touch i c) k =
    (case k of 0 \<Rightarrow> \<lparr> ch_prev = kv_rev c, ch_cell = i \<rparr> | Suc j \<Rightarrow> ring_slot c j)"
proof -
  let ?N = N_CHANGES
  have N: "?N = 256" by (simp add: N_CHANGES_def)
  show ?thesis
  proof (cases k)
    case 0
    have "((kv_head c + 1) mod ?N + ?N - 1) mod ?N = kv_head c"
      using assms(2) N by (cases "kv_head c = 255") auto
    then show ?thesis using 0 assms by (simp add: ring_slot_def touch_def)
  next
    case (Suc j)
    have eq: "(Suc (kv_head c) mod ?N + ?N - Suc (Suc j)) mod ?N = (kv_head c + ?N - Suc j) mod ?N"
      using assms(2,3) Suc N by (cases "kv_head c = 255") (auto simp: mod_if split: if_splits)
    have ne: "(kv_head c + ?N - Suc j) mod ?N \<noteq> kv_head c"
      using assms(2,3) Suc N by (auto simp: mod_if split: if_splits)
    show ?thesis using assms Suc ne by (simp add: ring_slot_def touch_def eq)
  qed
qed

lemma history_touch:
  assumes "kv_inv c"
  shows "history (touch i c) = take N_CHANGES (\<lparr> ch_prev = kv_rev c, ch_cell = i \<rparr> # history c)"
proof (rule nth_equalityI)
  have n: "kv_n_changes c \<le> N_CHANGES" using assms by (rule kv_invD)
  then show "length (history (touch i c)) = length (take N_CHANGES (\<lparr> ch_prev = kv_rev c, ch_cell = i \<rparr> # history c))"
    by (simp add: touch_def)
  fix k assume "k < length (history (touch i c))"
  then have k: "k < N_CHANGES" "k \<le> kv_n_changes c"
    by (auto simp: touch_def)
  have "history (touch i c) ! k = ring_slot (touch i c) k"
    using k by (simp add: history_def touch_def)
  also have "\<dots> = take N_CHANGES (\<lparr> ch_prev = kv_rev c, ch_cell = i \<rparr> # history c) ! k"
    using k ring_slot_touch [OF kv_invD(9,10) [OF assms] k(1)]
    by (cases k) (simp_all add: history_def)
  finally show "history (touch i c) ! k = take N_CHANGES (\<lparr> ch_prev = kv_rev c, ch_cell = i \<rparr> # history c) ! k" .
qed

lemma rev_at_touch:
  assumes "kv_inv c" and "k < kv_n_changes (touch i c)"
  shows "rev_at (touch i c) (Suc k) = rev_at c k"
  using assms history_touch [OF assms(1), of i] by (cases k) (auto simp: rev_at_def touch_def)

lemma history_same:
  assumes "kv_changes c' = kv_changes c" "kv_head c' = kv_head c" "kv_n_changes c' = kv_n_changes c"
  shows "history c' = history c"
  using assms by (simp add: history_def ring_slot_def)

section \<open>The walk\<close>

lemma changes_walk_spec:
  assumes "n \<le> kv_n_changes c" and "fuel = kv_n_changes c - n" and "cur = rev_at c n"
    and "\<And>k. k < n \<Longrightarrow> rev_at c k \<noteq> since"
  shows "changes_walk c since cur n fuel =
    (if \<exists>k \<le> kv_n_changes c. rev_at c k = since then Some (LEAST k. rev_at c k = since) else None)"
  using assms
proof (induction fuel arbitrary: n cur)
  case 0
  show ?case
  proof (cases "cur = since")
    case True
    have "(LEAST k. rev_at c k = since) = n"
      using 0 True by (intro Least_equality) (auto simp: not_less [symmetric])
    with 0 True show ?thesis by (auto simp: changes_walk.simps)
  next
    case False
    then have "\<not> (\<exists>k \<le> kv_n_changes c. rev_at c k = since)"
      using 0 by (metis diff_is_0_eq le_neq_implies_less le_antisym)
    with 0 False show ?thesis by (auto simp: changes_walk.simps)
  qed
next
  case (Suc fuel)
  show ?case
  proof (cases "cur = since")
    case True
    have "(LEAST k. rev_at c k = since) = n"
      using Suc.prems True by (intro Least_equality) (auto simp: not_less [symmetric])
    with Suc.prems True show ?thesis by (auto simp: changes_walk.simps)
  next
    case False
    have n: "n < kv_n_changes c" using Suc.prems by simp
    have prev: "ch_prev (kv_changes c ! ((kv_head c + N_CHANGES - Suc n) mod N_CHANGES)) = rev_at c (Suc n)"
      using n by (simp add: rev_at_def history_def ring_slot_def)
    have "changes_walk c since cur n (Suc fuel) = changes_walk c since (rev_at c (Suc n)) (Suc n) fuel"
      using False n by (subst changes_walk.simps) (simp add: prev)
    also have "\<dots> = (if \<exists>k \<le> kv_n_changes c. rev_at c k = since then Some (LEAST k. rev_at c k = since) else None)"
      by (rule Suc.IH) (use Suc.prems False n in \<open>auto simp: less_Suc_eq\<close>)
    finally show ?thesis .
  qed
qed

lemma changes_since_eq:
  "changes_since since c =
    (if \<exists>k \<le> kv_n_changes c. rev_at c k = since
     then Some (map ch_cell (take (LEAST k. rev_at c k = since) (history c))) else None)"
proof -
  have le: "(LEAST k. rev_at c k = since) \<le> kv_n_changes c" if "k \<le> kv_n_changes c" "rev_at c k = since" for k
    using Least_le [of "\<lambda>k. rev_at c k = since" k] that by simp
  have "map (\<lambda>k. ch_cell (kv_changes c ! ((kv_head c + N_CHANGES - 1 - k) mod N_CHANGES))) [0..<n] =
      map ch_cell (take n (history c))" if "n \<le> kv_n_changes c" for n
    using that by (simp add: history_def ring_slot_def take_map)
  with le show ?thesis
    using changes_walk_spec [of 0 c "kv_n_changes c" "kv_rev c" since]
    by (auto simp: changes_since_def rev_at_def [of c 0])
qed

section \<open>Revisions decrease along the history\<close>

definition rev_inv :: "kv_cells \<Rightarrow> bool" where
  "rev_inv c \<longleftrightarrow> kv_rev c \<le> kv_glob c \<and> (\<forall>k < kv_n_changes c. rev_at c (Suc k) < rev_at c k)"

lemma rev_at_same:
  assumes "kv_changes c' = kv_changes c" "kv_head c' = kv_head c" "kv_n_changes c' = kv_n_changes c"
    and "kv_rev c' = kv_rev c"
  shows "rev_at c' k = rev_at c k"
  using history_same [OF assms(1-3)] assms(4) by (cases k) (simp_all add: rev_at_def)

lemma rev_at_upd [simp]: "rev_at (kv_upd i p q e d c) k = rev_at c k"
  by (rule rev_at_same) simp_all

lemma touch_counters [simp]:
  "kv_rev (touch i c) = Suc (kv_glob c)" "kv_glob (touch i c) = Suc (kv_glob c)"
  "kv_n_changes (touch i c) = min (Suc (kv_n_changes c)) N_CHANGES"
  by (simp_all add: touch_def)

lemma rev_at_mono:
  assumes "rev_inv c" and "j \<le> k" and "k \<le> kv_n_changes c"
  shows "rev_at c k \<le> rev_at c j"
  using assms(2,3)
proof (induction k rule: dec_induct)
  case (step k)
  then have "rev_at c (Suc k) < rev_at c k" using assms(1) by (simp add: rev_inv_def)
  with step show ?case by simp
qed simp

lemma rev_at_strict:
  assumes "rev_inv c" and "j < k" and "k \<le> kv_n_changes c"
  shows "rev_at c k < rev_at c j"
proof -
  have "rev_at c k \<le> rev_at c (Suc j)" using assms by (intro rev_at_mono) auto
  moreover have "rev_at c (Suc j) < rev_at c j" using assms by (simp add: rev_inv_def)
  ultimately show ?thesis by simp
qed

lemma rev_inv_touch:
  assumes "kv_inv c" and "rev_inv c"
  shows "rev_inv (touch i c)"
proof -
  have "rev_at (touch i c) (Suc k) < rev_at (touch i c) k" if "k < kv_n_changes (touch i c)" for k
  proof (cases k)
    case 0
    then show ?thesis using assms(2) rev_at_touch [OF assms(1) that]
      by (simp add: rev_at_def [of _ 0] rev_inv_def)
  next
    case (Suc j)
    then have "rev_at (touch i c) k = rev_at c j"
      using rev_at_touch [OF assms(1), of j i] that by simp
    with Suc show ?thesis
      using assms(2) rev_at_touch [OF assms(1) that] that by (simp add: rev_inv_def)
  qed
  then show ?thesis by (simp add: rev_inv_def)
qed

lemma rev_inv_frame:
  assumes "rev_inv c" "kv_changes c' = kv_changes c" "kv_head c' = kv_head c"
    "kv_n_changes c' = kv_n_changes c" "kv_rev c' = kv_rev c" "kv_glob c \<le> kv_glob c'"
  shows "rev_inv c'"
  using assms(1,4,5,6) rev_at_same [OF assms(2-5)] by (auto simp: rev_inv_def)

lemma kv_atom_rev_inv: "kv_atom c c' \<Longrightarrow> kv_inv c \<Longrightarrow> rev_inv c \<Longrightarrow> rev_inv c'"
proof (induction rule: kv_atom.induct)
  case (upd i c p q e d)
  have "rev_inv (kv_upd i p q e d c)" by (rule rev_inv_frame [OF upd.prems(2)]) simp_all
  moreover have "kv_inv (kv_upd i p q e d c)" using upd by (intro kv_inv_upd) auto
  ultimately show ?case by (intro rev_inv_touch)
next
  case (bulk c' u n c)
  then show ?case by (simp add: rev_inv_def touch_all_def)
qed (erule rev_inv_frame; simp)+

section \<open>What the reported cells guarantee\<close>

definition cell_meta :: "kv_cells \<Rightarrow> nat \<Rightarrow> int \<times> nat set \<times> kv_cell_ext" where
  "cell_meta c i = (kv_pos c ! i, kv_seq c ! i, kv_ext c ! i)"

definition since_inv :: "kv_cells \<Rightarrow> kv_cells \<Rightarrow> bool" where
  "since_inv c0 c \<longleftrightarrow>
     (\<forall>k \<le> kv_n_changes c. kv_rev c0 < rev_at c k) \<or>
     (\<exists>n \<le> kv_n_changes c. rev_at c n = kv_rev c0 \<and> kv_size c = kv_size c0 \<and>
        (\<forall>i < kv_size c0. i \<notin> ch_cell ` set (take n (history c)) \<longrightarrow> cell_meta c i = cell_meta c0 i))"

lemma since_inv_refl: "since_inv c c"
  by (auto simp: since_inv_def rev_at_def intro!: exI [of _ 0])

lemma since_inv_bound: "since_inv c0 c \<Longrightarrow> rev_inv c \<Longrightarrow> kv_rev c0 \<le> kv_rev c"
  using rev_at_mono [of c 0] by (fastforce simp: since_inv_def rev_at_def [of c 0])

lemma since_inv_frame:
  assumes "since_inv c0 c" "kv_changes c' = kv_changes c" "kv_head c' = kv_head c"
    "kv_n_changes c' = kv_n_changes c" "kv_rev c' = kv_rev c"
    "kv_pos c' = kv_pos c" "kv_seq c' = kv_seq c" "kv_ext c' = kv_ext c"
  shows "since_inv c0 c'"
  using assms(1) rev_at_same [OF assms(2-5)] history_same [OF assms(2-4)] assms(4,6-8)
  by (simp add: since_inv_def cell_meta_def)

lemma since_inv_touch:
  assumes inv: "kv_inv c" and rev: "rev_inv c" and since: "since_inv c0 c"
    and i: "i < kv_size c" "-1 \<le> p" "q \<subseteq> {..<LLAMA_MAX_SEQ}" "p = -1 \<longrightarrow> q = {}"
  shows "since_inv c0 (touch i (kv_upd i p q e d c))"
proof -
  let ?u = "kv_upd i p q e d c" and ?t = "touch i (kv_upd i p q e d c)"
  have inv': "kv_inv ?u" using inv i by (intro kv_inv_upd) auto
  have hist: "history ?t = take N_CHANGES (\<lparr> ch_prev = kv_rev c, ch_cell = i \<rparr> # history c)"
    using history_touch [OF inv', of i] history_same [of ?u c] by simp
  have step: "rev_at ?t (Suc k) = rev_at c k" if "k < kv_n_changes ?t" for k
    using rev_at_touch [OF inv', of k i] that by simp
  have top: "kv_rev c0 < rev_at ?t 0"
    using since_inv_bound [OF since rev] rev by (simp add: rev_at_def rev_inv_def)
  have newer: "\<forall>k \<le> kv_n_changes ?t. kv_rev c0 < rev_at ?t k"
    if "\<And>k. k < kv_n_changes ?t \<Longrightarrow> kv_rev c0 < rev_at c k"
  proof (intro allI impI)
    show "kv_rev c0 < rev_at ?t k" if k: "k \<le> kv_n_changes ?t" for k
      using top k step \<open>\<And>k. k < kv_n_changes ?t \<Longrightarrow> kv_rev c0 < rev_at c k\<close> by (cases k) auto
  qed
  from since consider
    (lost) "\<forall>k \<le> kv_n_changes c. kv_rev c0 < rev_at c k"
  | (kept) n where "n \<le> kv_n_changes c" "rev_at c n = kv_rev c0" "kv_size c = kv_size c0"
      "\<forall>i < kv_size c0. i \<notin> ch_cell ` set (take n (history c)) \<longrightarrow> cell_meta c i = cell_meta c0 i"
    unfolding since_inv_def by blast
  then show ?thesis
  proof cases
    case lost
    then show ?thesis unfolding since_inv_def by (intro disjI1 newer) simp
  next
    case (kept n)
    show ?thesis
    proof (cases "Suc n \<le> N_CHANGES")
      case True
      have "ch_cell ` set (take (Suc n) (history ?t)) = insert i (ch_cell ` set (take n (history c)))"
        using True by (simp add: hist)
      moreover have "rev_at ?t (Suc n) = kv_rev c0" using step [of n] kept True by simp
      moreover have "Suc n \<le> kv_n_changes ?t" using kept True by simp
      ultimately show ?thesis
        unfolding since_inv_def using kept(3,4)
        by (intro disjI2 exI [of _ "Suc n"]) (auto simp: cell_meta_def nth_list_update_if)
    next
      case False
      have "kv_rev c0 < rev_at c k" if "k < kv_n_changes ?t" for k
        using rev_at_strict [OF rev, of k n] kept False that kv_invD(11) [OF inv] by simp
      then show ?thesis unfolding since_inv_def by (intro disjI1 newer)
    qed
  qed
qed

lemma kv_atom_since_inv:
  "kv_atom c c' \<Longrightarrow> kv_inv c \<Longrightarrow> rev_inv c \<Longrightarrow> since_inv c0 c \<Longrightarrow> since_inv c0 c'"
proof (induction rule: kv_atom.induct)
  case (upd i c p q e d)
  then show ?case by (intro since_inv_touch)
next
  case (bulk c' u n c)
  have "kv_rev c0 < Suc (kv_glob c)"
    using since_inv_bound [OF bulk.prems(3,2)] bulk.prems(2) by (simp add: rev_inv_def)
  then show ?case using bulk.hyps(1) by (simp add: since_inv_def touch_all_def rev_at_def)
qed (erule since_inv_frame; simp)+

lemma kv_atoms_since_inv:
  "kv_atoms c0 c \<Longrightarrow> kv_inv c0 \<Longrightarrow> rev_inv c0 \<Longrightarrow> kv_inv c \<and> rev_inv c \<and> since_inv c0 c"
  by (induction rule: rtranclp_induct)
    (auto intro: since_inv_refl kv_atom_inv kv_atom_rev_inv kv_atom_since_inv)

lemma kv_steps_atoms: "rtranclp kv_step c0 c \<Longrightarrow> kv_inv c0 \<Longrightarrow> kv_atoms c0 c \<and> kv_inv c"
  by (induction rule: rtranclp_induct) (auto intro: rtranclp_trans kv_step_atoms kv_atoms_inv)

lemma kv_reachable_rev_inv: "kv_reachable c \<Longrightarrow> rev_inv c"
proof (induction rule: kv_reachable.induct)
  case (start n g)
  then show ?case
    by (simp add: rev_inv_def kv_resize_def kv_reset_def kv_fresh_def touch_all_def Let_def)
next
  case (step c c')
  then show ?case
    using kv_atoms_since_inv kv_step_atoms kv_reachable_inv by blast
qed

lemma changes_since_sound:
  assumes "kv_inv c" "rev_inv c" "since_inv c0 c" "changes_since (kv_rev c0) c = Some cells"
    and "i < kv_size c0" "i \<notin> set cells"
  shows "kv_size c = kv_size c0 \<and> cell_meta c i = cell_meta c0 i"
proof -
  from assms(4) obtain k where k: "k \<le> kv_n_changes c" "rev_at c k = kv_rev c0"
    and cells: "cells = map ch_cell (take (LEAST k. rev_at c k = kv_rev c0) (history c))"
    by (auto simp: changes_since_eq split: if_splits)
  then have "\<not> (\<forall>k \<le> kv_n_changes c. kv_rev c0 < rev_at c k)" by auto
  then obtain n where n: "n \<le> kv_n_changes c" "rev_at c n = kv_rev c0" "kv_size c = kv_size c0"
      "\<forall>i < kv_size c0. i \<notin> ch_cell ` set (take n (history c)) \<longrightarrow> cell_meta c i = cell_meta c0 i"
    using assms(3) unfolding since_inv_def by blast
  have "(LEAST k. rev_at c k = kv_rev c0) = n"
  proof (rule Least_equality)
    show "n \<le> y" if "rev_at c y = kv_rev c0" for y
      using rev_at_strict [OF assms(2), of y n] n(1,2) that by (cases "y < n") auto
  qed (rule n(2))
  with n cells assms(5,6) show ?thesis by auto
qed

end
