(* ===== verification/Kv_Queries.thy ===== *)
theory Kv_Queries
  imports Kv_Invariant
begin

text \<open>
  What the queries of consistent metadata return, stated on the cells: the bounds of the used
  cells, the extreme positions of a sequence, the predecessor token, prefix coverage and the
  count of positions before a frontier.
\<close>

lemma seq_pos_cells:
  assumes "kv_inv c"
  shows "kv_seq_pos c s = {(kv_pos c ! i, i) | i. i < kv_size c \<and> s \<in> kv_seq c ! i}"
  using kv_invD(8) [OF assms] by (simp add: seq_pos_of_def)

lemma finite_kv_seq_pos: "kv_inv c \<Longrightarrow> finite (kv_seq_pos c s)"
  by (simp add: kv_invD)

section \<open>Used cells\<close>

lemma used_elems: "kv_inv c \<Longrightarrow> idx_elems (kv_used c) = {i. i < kv_size c \<and> kv_pos c ! i \<noteq> -1}"
  using kv_invD(4) by (simp add: ix.tracks_def)

lemma used_bitmap_inv: "kv_inv c \<Longrightarrow> idx_inv (kv_used c)"
  using kv_invD(4) by (simp add: ix.tracks_def)

lemma used_empty_iff: "kv_inv c \<Longrightarrow> idx_empty (kv_used c) \<longleftrightarrow> idx_elems (kv_used c) = {}"
  using ix.count_zero_iff [OF used_bitmap_inv] by (simp add: idx_empty_def idx_size_def)

lemma get_used_card: "kv_inv c \<Longrightarrow> get_used c = card {i. i < kv_size c \<and> kv_pos c ! i \<noteq> -1}"
  by (simp add: get_used_def ix.count_elems used_bitmap_inv used_elems)

lemma used_bounds:
  assumes "kv_inv c" and "U = {i. i < kv_size c \<and> kv_pos c ! i \<noteq> -1}"
  shows "used_min c = (if U = {} then 0 else Min U) \<and> used_max_p1 c = (if U = {} then 0 else Max U + 1)"
proof -
  have "U = idx_elems (kv_used c)" using used_elems [OF assms(1)] assms(2) by simp
  then show ?thesis
    using used_empty_iff [OF assms(1)]
    by (simp add: used_min_def used_max_p1_def ix.lowest_elems ix.highest_elems)
qed

section \<open>Extreme positions of a sequence\<close>

lemma seq_pos_min_least:
  assumes "kv_inv c" and "s < LLAMA_MAX_SEQ" and "i < kv_size c" and "s \<in> kv_seq c ! i"
  shows "\<exists>p. seq_pos_min s c = Some p \<and> p \<le> kv_pos c ! i \<and> (\<exists>j < kv_size c. s \<in> kv_seq c ! j \<and> kv_pos c ! j = p)"
proof -
  let ?S = "kv_seq_pos c s"
  have mem: "(kv_pos c ! i, i) \<in> ?S" using assms by (auto simp: seq_pos_cells)
  have "Min ?S \<in> ?S" and "Min ?S \<le> (kv_pos c ! i, i)"
    using mem finite_kv_seq_pos [OF assms(1)] by (auto intro: Min_in Min_le)
  then show ?thesis using assms mem
    by (auto simp: seq_pos_min_def seq_pos_cells less_eq_prod_def)
qed

lemma seq_pos_max_greatest:
  assumes "kv_inv c" and "s < LLAMA_MAX_SEQ" and "i < kv_size c" and "s \<in> kv_seq c ! i"
  shows "\<exists>p. seq_pos_max s c = Some p \<and> kv_pos c ! i \<le> p \<and> (\<exists>j < kv_size c. s \<in> kv_seq c ! j \<and> kv_pos c ! j = p)"
proof -
  let ?S = "kv_seq_pos c s"
  have mem: "(kv_pos c ! i, i) \<in> ?S" using assms by (auto simp: seq_pos_cells)
  have "Max ?S \<in> ?S" and "(kv_pos c ! i, i) \<le> Max ?S"
    using mem finite_kv_seq_pos [OF assms(1)] by (auto intro: Max_in Max_ge)
  then show ?thesis using assms mem
    by (auto simp: seq_pos_max_def seq_pos_cells less_eq_prod_def)
qed

lemma seq_pos_absent:
  assumes "kv_inv c" and "s < LLAMA_MAX_SEQ" and "\<And>i. i < kv_size c \<Longrightarrow> s \<notin> kv_seq c ! i"
  shows "seq_pos_min s c = Some (-1) \<and> seq_pos_max s c = Some (-1)"
proof -
  have "kv_seq_pos c s = {}" using assms(1,3) by (auto simp: seq_pos_cells)
  with assms(2) show ?thesis by (simp add: seq_pos_min_def seq_pos_max_def)
qed

section \<open>Prefix coverage\<close>

lemma range_walk_iff:
  assumes "sorted (map fst es)" and "nxt \<le> p1"
  shows "range_walk p1 nxt es = Some p1 \<longleftrightarrow> map fst (filter (\<lambda>e. fst e < p1) es) = [nxt..p1 - 1]"
  using assms
proof (induction es arbitrary: nxt)
  case Nil
  then show ?case by auto
next
  case (Cons e es)
  consider "p1 \<le> fst e" | "fst e < p1" "fst e \<noteq> nxt" | "fst e < p1" "fst e = nxt" by linarith
  then show ?case
  proof cases
    case 1
    then have "filter (\<lambda>e. fst e < p1) (e # es) = []"
      using Cons.prems(1) by (force simp: filter_empty_conv)
    then show ?thesis using 1 Cons.prems(2) by auto
  next
    case 2
    then show ?thesis by (auto simp: upto.simps [of nxt])
  next
    case 3
    then show ?thesis using Cons by (simp add: upto.simps [of nxt])
  qed
qed

lemma lower_bound_pos:
  assumes "finite S"
  shows "lower_bound (p, 0) S = sorted_list_of_set {e \<in> S. p \<le> fst e}"
proof -
  have "lower_bound (p, 0) S = filter (\<lambda>e. (p, 0) \<le> e) (sorted_list_of_set S)"
    by (simp add: lower_bound_def sorted_dropWhile_less)
  also have "\<dots> = sorted_list_of_set {e \<in> S. (p, 0) \<le> e}"
    using assms by (rule sorted_list_of_set_filter)
  also have "{e \<in> S. (p, 0) \<le> e} = {e \<in> S. p \<le> fst e}"
    by (auto simp: less_eq_prod_def)
  finally show ?thesis .
qed

lemma sorted_map_fst: "sorted (es :: (int \<times> nat) list) \<Longrightarrow> sorted (map fst es)"
  by (induction es) (auto simp: less_eq_prod_def)

lemma distinct_fst_unique:
  fixes S :: "(int \<times> nat) set"
  assumes "finite S"
  shows "map fst (sorted_list_of_set S) = [a..b] \<longleftrightarrow>
    (\<forall>e \<in> S. a \<le> fst e \<and> fst e \<le> b) \<and> (\<forall>p. a \<le> p \<and> p \<le> b \<longrightarrow> (\<exists>!i. (p, i) \<in> S))"
    (is "?L \<longleftrightarrow> ?R")
proof
  let ?xs = "sorted_list_of_set S"
  have set: "set ?xs = S" using assms by simp
  assume L: ?L
  then have range: "fst ` S = {a..b}" using set by (metis list.set_map set_upto)
  have "inj_on fst S" using L set by (metis distinct_map distinct_upto)
  then have unique: "i = j" if "(p, i) \<in> S" "(p, j) \<in> S" for p i j
    using inj_onD [OF \<open>inj_on fst S\<close>, of "(p, i)" "(p, j)"] that by simp
  show ?R
  proof (intro conjI allI impI ballI)
    show "a \<le> fst e" "fst e \<le> b" if "e \<in> S" for e using range that by force+
    show "\<exists>!i. (p, i) \<in> S" if "a \<le> p \<and> p \<le> b" for p
    proof -
      from that have "p \<in> fst ` S" by (simp add: range)
      then obtain i where "(p, i) \<in> S" by auto
      then show ?thesis by (auto dest: unique)
    qed
  qed
next
  let ?xs = "sorted_list_of_set S"
  have set: "set ?xs = S" using assms by simp
  assume R: ?R
  then have "inj_on fst S" by (fastforce simp: inj_on_def)
  moreover have "fst ` S = {a..b}" using R by force
  ultimately show ?L
    using assms by (intro sorted_distinct_set_unique) (auto simp: distinct_map sorted_map_fst)
qed

lemma seq_has_range_exact:
  assumes "kv_inv c" and "s < LLAMA_MAX_SEQ"
  shows "seq_has_range s p0 p1 c = Some (0 \<le> p0 \<and> p0 < p1 \<and>
    (\<forall>p. p0 \<le> p \<and> p < p1 \<longrightarrow> (\<exists>!i. i < kv_size c \<and> s \<in> kv_seq c ! i \<and> kv_pos c ! i = p)))"
proof (cases "0 \<le> p0 \<and> p0 < p1")
  case False
  then show ?thesis using assms(2) by (auto simp: seq_has_range_def split: option.splits)
next
  case True
  let ?S = "kv_seq_pos c s" and ?es = "lower_bound (p0, 0) (kv_seq_pos c s)"
  have fin: "finite ?S" by (rule finite_kv_seq_pos [OF assms(1)])
  have es: "?es = sorted_list_of_set {e \<in> ?S. p0 \<le> fst e}" by (rule lower_bound_pos [OF fin])
  have "filter (\<lambda>e. fst e < p1) ?es = sorted_list_of_set {e \<in> ?S. p0 \<le> fst e \<and> fst e < p1}"
    using fin by (simp add: es sorted_list_of_set_filter conj_assoc)
  then have "range_walk p1 p0 ?es = Some p1 \<longleftrightarrow>
      map fst (sorted_list_of_set {e \<in> ?S. p0 \<le> fst e \<and> fst e < p1}) = [p0..p1 - 1]"
    using True es by (subst range_walk_iff) (auto simp: sorted_map_fst)
  also have "\<dots> \<longleftrightarrow> (\<forall>p. p0 \<le> p \<and> p \<le> p1 - 1 \<longrightarrow> (\<exists>!i. (p, i) \<in> {e \<in> ?S. p0 \<le> fst e \<and> fst e < p1}))"
    using fin by (subst distinct_fst_unique) auto
  also have "\<dots> \<longleftrightarrow> (\<forall>p. p0 \<le> p \<and> p < p1 \<longrightarrow>
      (\<exists>!i. i < kv_size c \<and> s \<in> kv_seq c ! i \<and> kv_pos c ! i = p))"
    by (auto simp: seq_pos_cells [OF assms(1)])
  finally have iff: "range_walk p1 p0 ?es = Some p1 \<longleftrightarrow> \<dots>" .
  show ?thesis
    using assms(2) True iff by (auto simp: seq_has_range_def split: option.splits)
qed

section \<open>Counting and predecessors\<close>

lemma last_sorted_list_of_set:
  assumes "finite (A :: 'a::linorder set)" and "A \<noteq> {}"
  shows "last (sorted_list_of_set A) = Max A"
proof (rule sym, rule Max_eqI)
  let ?xs = "sorted_list_of_set A"
  have ne: "?xs \<noteq> []" using assms by simp
  then show "last ?xs \<in> A" using assms last_in_set [of ?xs] by simp
  show "y \<le> last ?xs" if "y \<in> A" for y
  proof -
    have "y \<in> set ?xs" using that assms by simp
    then obtain k where k: "k < length ?xs" "?xs ! k = y" by (auto simp only: in_set_conv_nth)
    then have "?xs ! k \<le> ?xs ! (length ?xs - 1)"
      by (intro sorted_nth_mono sorted_sorted_list_of_set) linarith+
    with k(2) show ?thesis by (simp only: last_conv_nth [OF ne])
  qed
qed (rule assms)

lemma seq_pos_count_before_card:
  assumes "kv_inv c" and "s < LLAMA_MAX_SEQ"
  shows "seq_pos_count_before s f c = Some (card {i. i < kv_size c \<and> s \<in> kv_seq c ! i \<and> kv_pos c ! i < f})"
proof -
  let ?S = "kv_seq_pos c s" and ?I = "{i. i < kv_size c \<and> s \<in> kv_seq c ! i \<and> kv_pos c ! i < f}"
  have "takeWhile (\<lambda>e. e < (f, 0)) (sorted_list_of_set ?S) = sorted_list_of_set {e \<in> ?S. e < (f, 0)}"
    using finite_kv_seq_pos [OF assms(1)] by (simp add: sorted_takeWhile_less sorted_list_of_set_filter)
  also have "{e \<in> ?S. e < (f, 0)} = (\<lambda>i. (kv_pos c ! i, i)) ` ?I"
    by (auto simp: seq_pos_cells [OF assms(1)] less_prod_def)
  finally have "length (takeWhile (\<lambda>e. e < (f, 0)) (sorted_list_of_set ?S)) = card ((\<lambda>i. (kv_pos c ! i, i)) ` ?I)"
    by simp
  also have "\<dots> = card ?I" by (intro card_image inj_onI) auto
  finally show ?thesis using assms(2) by (simp add: seq_pos_count_before_def)
qed

lemma seq_pos_tok_le_none:
  assumes "kv_inv c" and "s < LLAMA_MAX_SEQ"
    and "\<And>i. i < kv_size c \<Longrightarrow> s \<in> kv_seq c ! i \<Longrightarrow> p < kv_pos c ! i"
  shows "seq_pos_tok_le s p c = Some LLAMA_TOKEN_NULL"
proof -
  let ?k = "(p, 2 ^ 32 - 1 :: nat)" and ?S = "kv_seq_pos c s"
  have "takeWhile (\<lambda>e. e \<le> ?k) (sorted_list_of_set ?S) = sorted_list_of_set {e \<in> ?S. e \<le> ?k}"
    by (simp only: sorted_takeWhile_le [OF sorted_sorted_list_of_set]
        sorted_list_of_set_filter [OF finite_kv_seq_pos [OF assms(1)]])
  moreover have "\<not> e \<le> ?k" if "e \<in> ?S" for e
    using that assms(3) by (fastforce simp: seq_pos_cells [OF assms(1)] less_eq_prod_def)
  then have none: "{e \<in> ?S. e \<le> ?k} = {}" by blast
  ultimately have "takeWhile (\<lambda>e. e \<le> ?k) (sorted_list_of_set ?S) = []"
    by (simp only: none sorted_list_of_set.sorted_key_list_of_set_empty)
  with assms(2) show ?thesis by (simp add: seq_pos_tok_le_def)
qed

lemma seq_pos_tok_le_pred:
  assumes inv: "kv_inv c" and s: "s < LLAMA_MAX_SEQ" and size: "kv_size c \<le> 2 ^ 32"
    and j: "j < kv_size c" "s \<in> kv_seq c ! j" "kv_pos c ! j \<le> p"
    and best: "\<And>i. i < kv_size c \<Longrightarrow> s \<in> kv_seq c ! i \<Longrightarrow> kv_pos c ! i \<le> p \<Longrightarrow>
      kv_pos c ! i < kv_pos c ! j \<or> kv_pos c ! i = kv_pos c ! j \<and> i \<le> j"
  shows "seq_pos_tok_le s p c = Some (ext_tok (kv_ext c ! j))"
proof -
  let ?S = "kv_seq_pos c s" and ?k = "(p, 2 ^ 32 - 1 :: nat)"
  define B where "B = {e \<in> ?S. e \<le> ?k}"
  have fin: "finite ?S" by (rule finite_kv_seq_pos [OF inv])
  then have before: "takeWhile (\<lambda>e. e \<le> ?k) (sorted_list_of_set ?S) = sorted_list_of_set B"
    by (simp add: sorted_takeWhile_le sorted_list_of_set_filter B_def)
  have mem: "(kv_pos c ! j, j) \<in> B"
    using j size by (auto simp: B_def seq_pos_cells [OF inv] less_eq_prod_def)
  have "Max B = (kv_pos c ! j, j)"
  proof (rule Max_eqI)
    show "e \<le> (kv_pos c ! j, j)" if "e \<in> B" for e
    proof -
      from that obtain i where i: "e = (kv_pos c ! i, i)" "i < kv_size c" "s \<in> kv_seq c ! i"
        and "e \<le> ?k" by (auto simp: B_def seq_pos_cells [OF inv])
      then have "kv_pos c ! i \<le> p" by (auto simp: less_eq_prod_def)
      from best [OF i(2,3) this] show ?thesis by (auto simp: i(1) less_eq_prod_def)
    qed
  qed (use fin mem in \<open>auto simp: B_def\<close>)
  moreover have "finite B" "B \<noteq> {}" using fin mem by (auto simp: B_def)
  ultimately show ?thesis
    unfolding seq_pos_tok_le_def before Let_def using s by (simp add: last_sorted_list_of_set)
qed

end
