(* ===== verification/Kv_Properties.thy ===== *)
theory Kv_Properties
  imports Kv_History Kv_Queries "HOL-Library.Multiset"
begin

text \<open>
  The properties of the cell metadata of \<^verbatim>\<open>src/src/llama-kv-cells.h\<close>: what holds of every reachable
  cell set, what each operation does to it, what save and restore give back, and what the change
  history and the queries report. Each property is followed by a witness on a small cache.
\<close>

section \<open>Save and restore\<close>

lemma fresh_cells:
  "kv_pos (kv_resize n (kv_fresh g)) = replicate n (-1)"
  "kv_ext (kv_resize n (kv_fresh g)) = replicate n ext_default"
  "kv_shift (kv_resize n (kv_fresh g)) = replicate n 0"
  "kv_seq (kv_resize n (kv_fresh g)) = replicate n {}"
  by (simp_all add: kv_resize_def kv_reset_def touch_all_def Let_def)

lemma cp_loop:
  assumes "\<And>j. j < m \<Longrightarrow> kv_shift c ! f j = 0"
    and "kv_size res = n" "length (kv_ext res) = n" "length (kv_seq res) = n" and "m \<le> n"
  shows "foldM (\<lambda>j. cp_cell c (f j) j) [0..<m] res = Some (res\<lparr>
      kv_pos := map (\<lambda>j. kv_pos c ! f j) [0..<m] @ drop m (kv_pos res),
      kv_ext := map (\<lambda>j. kv_ext c ! f j) [0..<m] @ drop m (kv_ext res),
      kv_seq := map (\<lambda>j. kv_seq c ! f j) [0..<m] @ drop m (kv_seq res) \<rparr>)"
  using assms(1,5)
proof (induction m)
  case (Suc m)
  have upd: "(map g [0..<m] @ drop m xs)[m := g m] = map g [0..<m] @ g m # drop (Suc m) xs"
    if "m < length xs" for g and xs :: "'a list"
    using that by (simp add: list_update_append Cons_nth_drop_Suc [symmetric])
  from Suc show ?case
    using assms(2-4) by (simp add: foldM_append cp_cell_def upd [unfolded list_update_append])
      (simp add: list_update_append Cons_nth_drop_Suc [symmetric])
qed simp

lemma kv_cp_eq:
  assumes "i + n \<le> kv_size c" and "\<And>j. i \<le> j \<Longrightarrow> j < i + n \<Longrightarrow> kv_shift c ! j = 0"
  shows "\<exists>sn. kv_cp i n c = Some (sn, c\<lparr> kv_glob := kv_glob c + 2 \<rparr>) \<and>
    kv_pos sn = map (\<lambda>j. kv_pos c ! (i + j)) [0..<n] \<and>
    kv_ext sn = map (\<lambda>j. kv_ext c ! (i + j)) [0..<n] \<and>
    kv_seq sn = map (\<lambda>j. kv_seq c ! (i + j)) [0..<n]"
  using assms
  by (simp add: kv_cp_def Let_def fresh_cells glob_fresh
      cp_loop [where f = "\<lambda>j. i + j" and n = n and m = n])

lemma snap_ok_cp:
  assumes "kv_inv c" and "i + n \<le> kv_size c"
    and "kv_pos sn = map (\<lambda>j. kv_pos c ! (i + j)) [0..<n]"
    and "kv_ext sn = map (\<lambda>j. kv_ext c ! (i + j)) [0..<n]"
    and "kv_seq sn = map (\<lambda>j. kv_seq c ! (i + j)) [0..<n]"
  shows "snap_ok sn"
  using assms kv_invD(5,6,7) [OF assms(1)] by (auto simp: snap_ok_def)

lemma set_loop_eq:
  assumes inv: "kv_inv d" and sn: "snap_ok sn" and m: "m \<le> kv_size sn" "i + kv_size sn \<le> kv_size d"
    and shift: "\<And>j. i \<le> j \<Longrightarrow> j < i + kv_size sn \<Longrightarrow> kv_shift d ! j = 0"
  shows "\<exists>d'. foldM (\<lambda>j. set_cell sn (i + j) j) [0..<m] d = Some d' \<and> kv_inv d' \<and>
    kv_size d' = kv_size d \<and> kv_shift d' = kv_shift d \<and>
    (\<forall>j. cell_meta d' j = (if i \<le> j \<and> j < i + m then cell_meta sn (j - i) else cell_meta d j))"
  using m(1)
proof (induction m)
  case 0
  then show ?case using inv by auto
next
  case (Suc m)
  then obtain d1 where d1: "foldM (\<lambda>j. set_cell sn (i + j) j) [0..<m] d = Some d1" "kv_inv d1"
      "kv_size d1 = kv_size d" "kv_shift d1 = kv_shift d"
      "\<And>j. cell_meta d1 j = (if i \<le> j \<and> j < i + m then cell_meta sn (j - i) else cell_meta d j)"
    by auto
  let ?d2 = "touch (i + m) (kv_upd (i + m) (kv_pos sn ! m) (kv_seq sn ! m) (kv_ext sn ! m)
    (kv_shift d1 ! (i + m)) d1)"
  have range: "i + m < kv_size d1" "m < kv_size sn" using Suc.prems m(2) d1(3) by auto
  then have "set_cell sn (i + m) m d1 = Some ?d2"
    using shift [of "i + m"] by (simp add: set_cell_eq [OF d1(2) range(1) sn range(2)] d1(4))
  moreover have "kv_inv ?d2"
    using sn range d1(2) by (auto intro!: kv_inv_touch kv_inv_upd simp: snap_ok_def)
  moreover have "cell_meta ?d2 j = (if i \<le> j \<and> j < i + Suc m then cell_meta sn (j - i) else cell_meta d j)" for j
    using d1(5) [of j] range kv_invD(1,3) [OF d1(2)]
    by (cases "j = i + m") (auto simp: cell_meta_def nth_list_update_if)
  ultimately show ?case
    using d1(1,3,4) list_update_id [of "kv_shift d1" "i + m"] by (simp add: foldM_append)
qed


section \<open>A cache of two cells\<close>

definition example_cells :: "kv_cells option" where
  "example_cells = do {
     c1 \<leftarrow> kv_pos_set 0 0 (kv_resize 2 (kv_fresh 0));
     c2 \<leftarrow> kv_seq_add 0 3 c1;
     c3 \<leftarrow> kv_pos_set 1 1 c2;
     kv_seq_add 1 3 c3 }"

lemma replicate_2: "replicate 2 x = [x, x]" by (simp add: numeral_2_eq_2)

lemma example_cells_run:
  obtains c where "example_cells = Some c" "kv_reachable c" "kv_pos c = [0, 1]" "kv_seq c = [{3}, {3}]"
    "kv_ext c = [ext_default, ext_default]" "kv_shift c = [0, 0]"
proof -
  let ?c0 = "kv_resize 2 (kv_fresh 0)"
  have r0: "kv_reachable ?c0" by (rule kv_reachable.start)
  obtain c1 where c1: "kv_pos_set 0 0 ?c0 = Some c1" "kv_pos c1 = [0, -1]" "kv_seq c1 = [{}, {}]"
      "kv_ext c1 = [ext_default, ext_default]" "kv_shift c1 = [0, 0]"
    by (simp add: kv_pos_set_eq [OF kv_reachable_inv [OF r0]] fresh_cells replicate_2)
  have r1: "kv_reachable c1" using c1(1) by (intro kv_reachable.step [OF r0] kv_step.pos_set) auto
  obtain c2 where c2: "kv_seq_add 0 3 c1 = Some c2" "kv_pos c2 = [0, -1]" "kv_seq c2 = [{3}, {}]"
      "kv_ext c2 = [ext_default, ext_default]" "kv_shift c2 = [0, 0]"
    using c1 by (simp add: kv_seq_add_eq [OF kv_reachable_inv [OF r1]] LLAMA_MAX_SEQ_def)
  have r2: "kv_reachable c2" using c2(1) by (intro kv_reachable.step [OF r1] kv_step.seq_add)
  obtain c3 where c3: "kv_pos_set 1 1 c2 = Some c3" "kv_pos c3 = [0, 1]" "kv_seq c3 = [{3}, {}]"
      "kv_ext c3 = [ext_default, ext_default]" "kv_shift c3 = [0, 0]"
    using c2 by (simp add: kv_pos_set_eq [OF kv_reachable_inv [OF r2]])
  have r3: "kv_reachable c3" using c3(1) by (intro kv_reachable.step [OF r2] kv_step.pos_set) auto
  obtain c4 where c4: "kv_seq_add 1 3 c3 = Some c4" "kv_pos c4 = [0, 1]" "kv_seq c4 = [{3}, {3}]"
      "kv_ext c4 = [ext_default, ext_default]" "kv_shift c4 = [0, 0]"
    using c3 by (simp add: kv_seq_add_eq [OF kv_reachable_inv [OF r3]] LLAMA_MAX_SEQ_def)
  have "kv_reachable c4" using c4(1) by (intro kv_reachable.step [OF r3] kv_step.seq_add)
  with c1(1) c2(1) c3(1) c4 show thesis by (intro that) (auto simp: example_cells_def)
qed

lemma less_2_iff: "i < Suc (Suc 0) \<longleftrightarrow> i = 0 \<or> i = 1" by auto

section \<open>Properties of reachable cell sets\<close>

text \<open>C1: every cell set that the operations can produce is consistent: the four per-cell arrays have
  one length, the used bitmap counts and holds exactly the cells with a position and bounds them,
  an empty cell has no sequence, and the ownership index of every sequence is exactly the (position, cell) pairs of
  the cells that carry it.\<close>

theorem kv_reachable_consistent:
  assumes "kv_reachable c"
  shows "length (kv_ext c) = kv_size c \<and> length (kv_shift c) = kv_size c \<and> length (kv_seq c) = kv_size c \<and>
    get_used c = card {i. i < kv_size c \<and> kv_pos c ! i \<noteq> -1} \<and>
    idx_for_each (kv_used c) = sorted_list_of_set {i. i < kv_size c \<and> kv_pos c ! i \<noteq> -1} \<and>
    (\<forall>i < kv_size c. kv_pos c ! i \<noteq> -1 \<longrightarrow> used_min c \<le> i \<and> i < used_max_p1 c) \<and>
    (\<forall>i < kv_size c. kv_pos c ! i \<ge> -1 \<and> (kv_pos c ! i = -1 \<longrightarrow> kv_seq c ! i = {})) \<and>
    (\<forall>s. seq_pos_get s c = (if s < LLAMA_MAX_SEQ
       then Some (sorted_list_of_set {(kv_pos c ! i, i) | i. i < kv_size c \<and> s \<in> kv_seq c ! i}) else None))"
proof -
  have inv: "kv_inv c" by (rule kv_reachable_inv [OF assms])
  have "idx_for_each (kv_used c) = sorted_list_of_set (idx_elems (kv_used c))"
    by (rule idx_for_each_sorted_list)
  moreover have "used_min c \<le> i \<and> i < used_max_p1 c" if "i < kv_size c" "kv_pos c ! i \<noteq> -1" for i
    using used_bounds [OF inv refl] that Min_le [of "{i. i < kv_size c \<and> kv_pos c ! i \<noteq> -1}" i]
      Max_ge [of "{i. i < kv_size c \<and> kv_pos c ! i \<noteq> -1}" i] by (fastforce simp: less_Suc_eq_le)
  ultimately show ?thesis
    using kv_invD(1-3,5,7) [OF inv] get_used_card [OF inv]
    by (simp add: used_elems [OF inv] seq_pos_get_def seq_pos_cells [OF inv, symmetric])
qed

theorem kv_reachable_consistent_witness:
  "\<exists>c. example_cells = Some c \<and> get_used c = 2"
proof -
  obtain c where c: "example_cells = Some c" "kv_reachable c" "kv_pos c = [0, 1]"
    by (rule example_cells_run)
  have "{i. i < kv_size c \<and> kv_pos c ! i \<noteq> -1} = {0, 1}" by (auto simp: c(3) less_2_iff)
  then have "get_used c = 2" using kv_reachable_consistent [OF c(2)] by simp
  with c(1) show ?thesis by blast
qed

text \<open>C2: the change history is sound. Whatever operations run after a cell set's revision was read,
  if \<open>changes_since\<close> still knows the history, then every cell it does not report has the position,
  the sequences and the extension it had, and the size is unchanged; it never reports a history
  that lost a change (the ring of 256 entries wraps, bulk changes forget it).\<close>

theorem kv_changes_since_sound:
  assumes "kv_reachable c0" and "rtranclp kv_step c0 c"
    and "changes_since (kv_rev c0) c = Some cells" and "i < kv_size c0" and "i \<notin> set cells"
  shows "kv_size c = kv_size c0 \<and> kv_pos c ! i = kv_pos c0 ! i \<and> kv_seq c ! i = kv_seq c0 ! i \<and>
    kv_ext c ! i = kv_ext c0 ! i"
proof -
  have "kv_inv c0" "rev_inv c0" by (simp_all add: assms(1) kv_reachable_inv kv_reachable_rev_inv)
  moreover from this have "kv_atoms c0 c" using kv_steps_atoms [OF assms(2)] by simp
  ultimately have "kv_inv c" "rev_inv c" "since_inv c0 c" using kv_atoms_since_inv by auto
  from changes_since_sound [OF this assms(3-5)] show ?thesis by (simp add: cell_meta_def)
qed

theorem kv_changes_since_sound_witness:
  "\<exists>c c'. example_cells = Some c \<and> kv_rm 0 c = Some c' \<and> changes_since (kv_rev c) c' = Some [0] \<and>
     kv_seq c' ! 1 = {3}"
proof -
  obtain c where c: "example_cells = Some c" "kv_reachable c" "kv_pos c = [0, 1]" "kv_seq c = [{3}, {3}]"
    by (rule example_cells_run)
  have inv: "kv_inv c" and rev: "rev_inv c" by (simp_all add: c(2) kv_reachable_inv kv_reachable_rev_inv)
  let ?c' = "touch 0 (kv_upd 0 (-1) {} ext_default 0 c)"
  have rm: "kv_rm 0 c = Some ?c'" using c(3) by (simp add: kv_rm_eq [OF inv])
  have "kv_inv (kv_upd 0 (-1) {} ext_default 0 c)" using inv c(3) by (intro kv_inv_upd) auto
  then have "rev_at ?c' (Suc 0) = kv_rev c" and
      "history ?c' = take N_CHANGES (\<lparr> ch_prev = kv_rev c, ch_cell = 0 \<rparr> # history c)"
    using history_touch [of "kv_upd 0 (-1) {} ext_default 0 c" 0]
      history_same [of "kv_upd 0 (-1) {} ext_default 0 c" c]
    by (simp_all add: rev_at_def N_CHANGES_def)
  moreover have "rev_at ?c' 0 \<noteq> kv_rev c" using rev by (simp add: rev_at_def rev_inv_def)
  ultimately have "(LEAST k. rev_at ?c' k = kv_rev c) = Suc 0" and "Suc 0 \<le> kv_n_changes ?c'"
    by (auto intro!: Least_equality simp: N_CHANGES_def) (metis Suc_leI gr0I)
  then have since: "changes_since (kv_rev c) ?c' = Some [0]"
    using \<open>rev_at ?c' (Suc 0) = kv_rev c\<close> \<open>history ?c' = _\<close>
    by (auto simp: changes_since_eq N_CHANGES_def intro!: exI [of _ "Suc 0"])
  have "rtranclp kv_step c ?c'" using rm by (intro r_into_rtranclp kv_step.rm)
  from kv_changes_since_sound [OF c(2) this since, of 1] have "kv_seq ?c' ! 1 = {3}"
    using c(3,4) by simp
  with c(1) rm since show ?thesis by blast
qed


text \<open>C3: the mutating operations never fail an assertion under the preconditions the code documents,
  and each touches one cell only: \<open>rm\<close> empties it, \<open>seq_rm\<close> drops one sequence and empties the cell
  exactly when it was the last, \<open>seq_keep\<close> leaves the kept sequence or empties the cell, \<open>seq_add\<close>
  and \<open>pos_set\<close> add to it; every other cell keeps its contents.\<close>

theorem kv_cell_ops:
  assumes "kv_reachable c" and "i < kv_size c"
  shows "(kv_pos c ! i \<noteq> -1 \<longrightarrow> (\<exists>c'. kv_rm i c = Some c' \<and>
      (\<forall>j. cell_meta c' j = (if j = i then (-1, {}, ext_default) else cell_meta c j)))) \<and>
    (s \<in> kv_seq c ! i \<longrightarrow> (\<exists>c'. kv_seq_rm i s c = Some (kv_seq c ! i = {s}, c') \<and>
      (\<forall>j. cell_meta c' j = (if j \<noteq> i then cell_meta c j
         else if kv_seq c ! i = {s} then (-1, {}, ext_default)
         else (kv_pos c ! i, kv_seq c ! i - {s}, kv_ext c ! i))))) \<and>
    (s < LLAMA_MAX_SEQ \<and> (kv_seq c ! i \<noteq> {} \<or> kv_pos c ! i = -1) \<longrightarrow>
      (\<exists>c'. kv_seq_keep i s c = Some (kv_seq c ! i \<noteq> {} \<and> s \<notin> kv_seq c ! i, c') \<and>
      (\<forall>j. cell_meta c' j = (if j \<noteq> i \<or> kv_seq c ! i = {} then cell_meta c j
         else if s \<in> kv_seq c ! i then (kv_pos c ! i, {s}, kv_ext c ! i)
         else (-1, {}, ext_default))))) \<and>
    (s < LLAMA_MAX_SEQ \<and> s \<notin> kv_seq c ! i \<and> kv_pos c ! i \<noteq> -1 \<longrightarrow>
      (\<exists>c'. kv_seq_add i s c = Some c' \<and>
      (\<forall>j. cell_meta c' j = (if j = i then (kv_pos c ! i, insert s (kv_seq c ! i), kv_ext c ! i)
         else cell_meta c j)))) \<and>
    (kv_pos c ! i = -1 \<and> 0 \<le> p \<longrightarrow> (\<exists>c'. kv_pos_set i p c = Some c' \<and>
      (\<forall>j. cell_meta c' j = (if j = i then (p, {}, kv_ext c ! i) else cell_meta c j))))"
proof -
  have inv: "kv_inv c" by (rule kv_reachable_inv [OF assms(1)])
  note facts = assms(2) kv_invD(1-3) [OF inv]
  note meta = cell_meta_def nth_list_update_if
  show ?thesis
  proof (intro conjI impI; (elim conjE)?)
    assume "kv_pos c ! i = -1" "0 \<le> p"
    then show "\<exists>c'. kv_pos_set i p c = Some c' \<and>
        (\<forall>j. cell_meta c' j = (if j = i then (p, {}, kv_ext c ! i) else cell_meta c j))"
      using facts kv_invD(7) [OF inv assms(2)] by (simp add: kv_pos_set_eq [OF inv] meta)
  qed (use facts in \<open>simp add: kv_rm_eq [OF inv] kv_seq_rm_eq [OF inv] kv_seq_keep_eq [OF inv]
        kv_seq_add_eq [OF inv] meta; fail\<close>)+
qed

theorem kv_cell_ops_witness:
  "\<exists>c c'. example_cells = Some c \<and> kv_seq_rm 1 3 c = Some (True, c') \<and> kv_pos c' ! 1 = -1"
proof -
  obtain c where c: "example_cells = Some c" "kv_reachable c" "kv_pos c = [0, 1]" "kv_seq c = [{3}, {3}]"
    by (rule example_cells_run)
  with kv_cell_ops [OF c(2), of 1 3 0] obtain c' where
    "kv_seq_rm 1 3 c = Some (True, c')" "cell_meta c' 1 = (-1, {}, ext_default)" by auto
  with c(1) show ?thesis by (auto simp: cell_meta_def)
qed

text \<open>C4: shifting a cell. \<open>pos_add\<close> and its M-RoPE variants move the position by \<open>d\<close>; a cell
  pushed below zero is emptied (position, sequences, shift) and reported, any other keeps its
  sequences, adds \<open>d\<close> to its queued shift exactly when the key is to be rotated, and broadcasts \<open>d\<close> to
  the 2D extension exactly for text M-RoPE. The extension of an emptied cell is not reset.
  \<open>pos_div\<close> divides the position and adds old minus new to the queued shift: the sign opposite
  to the one \<open>pos_add\<close> queues for the same move, and to the documentation of \<open>shift\<close>, which is to
  accumulate the applied shifts; undoing a queued shift by subtracting it restores the position
  after \<open>pos_add\<close> and not after a \<open>pos_div\<close> that moved it. Neither changes another cell.\<close>

theorem kv_shift_ops:
  assumes "kv_reachable c" and "i < kv_size c" and "kv_pos c ! i \<noteq> -1"
  shows "(\<exists>c'. kv_pos_add_impl i d rot bc c = Some (kv_pos c ! i + d < 0, c') \<and>
      kv_has_shift c' = (kv_has_shift c \<or> rot) \<and>
      cell_meta c' i = (let e = (if bc then (kv_ext c ! i)\<lparr> ext_x := ext_x (kv_ext c ! i) + d,
             ext_y := ext_y (kv_ext c ! i) + d \<rparr> else kv_ext c ! i)
         in if kv_pos c ! i + d < 0 then (-1, {}, e) else (kv_pos c ! i + d, kv_seq c ! i, e)) \<and>
      kv_shift c' ! i = (if kv_pos c ! i + d < 0 then 0
         else if rot then kv_shift c ! i + d else kv_shift c ! i) \<and>
      (\<forall>j. j \<noteq> i \<longrightarrow> cell_meta c' j = cell_meta c j \<and> kv_shift c' ! j = kv_shift c ! j)) \<and>
    (0 < k \<longrightarrow> (\<exists>c'. kv_pos_div i k c = Some c' \<and> kv_has_shift c' \<and>
      cell_meta c' i = (kv_pos c ! i div k, kv_seq c ! i, kv_ext c ! i) \<and>
      kv_shift c' ! i = kv_shift c ! i + (kv_pos c ! i - kv_pos c ! i div k) \<and>
      (kv_pos c' ! i - (kv_shift c' ! i - kv_shift c ! i) = kv_pos c ! i \<longleftrightarrow> kv_pos c' ! i = kv_pos c ! i) \<and>
      (\<forall>j. j \<noteq> i \<longrightarrow> cell_meta c' j = cell_meta c j \<and> kv_shift c' ! j = kv_shift c ! j)))"
proof -
  have inv: "kv_inv c" by (rule kv_reachable_inv [OF assms(1)])
  note facts = assms(2,3) kv_invD(1-3) [OF inv]
  note meta = cell_meta_def nth_list_update_if Let_def shifted_ext_def
  show ?thesis
  proof (intro conjI impI)
    show "\<exists>c'. kv_pos_div i k c = Some c' \<and> kv_has_shift c' \<and>
      cell_meta c' i = (kv_pos c ! i div k, kv_seq c ! i, kv_ext c ! i) \<and>
      kv_shift c' ! i = kv_shift c ! i + (kv_pos c ! i - kv_pos c ! i div k) \<and>
      (kv_pos c' ! i - (kv_shift c' ! i - kv_shift c ! i) = kv_pos c ! i \<longleftrightarrow> kv_pos c' ! i = kv_pos c ! i) \<and>
      (\<forall>j. j \<noteq> i \<longrightarrow> cell_meta c' j = cell_meta c j \<and> kv_shift c' ! j = kv_shift c ! j)" if "0 < k"
      using facts that by (auto simp: kv_pos_div_eq [OF inv] meta)
  qed (use facts in \<open>auto simp: kv_pos_add_impl_eq [OF inv] meta\<close>)
qed

theorem kv_shift_ops_witness:
  "\<exists>c c'. example_cells = Some c \<and> kv_pos_add_impl 0 (-1) True False c = Some (True, c') \<and>
     kv_pos c' ! 0 = -1 \<and> kv_pos c' ! 1 = 1"
proof -
  obtain c where c: "example_cells = Some c" "kv_reachable c" "kv_pos c = [0, 1]"
    by (rule example_cells_run)
  with kv_shift_ops [OF c(2), of 0 "-1" True False 1] obtain c' where
    "kv_pos_add_impl 0 (-1) True False c = Some (True, c')" "fst (cell_meta c' 0) = -1"
    "\<forall>j. j \<noteq> 0 \<longrightarrow> cell_meta c' j = cell_meta c j" by (auto simp: Let_def)
  with c(1,3) show ?thesis by (auto simp: cell_meta_def)
qed


text \<open>C5: save and restore. Copying the cells of a range with no queued shift succeeds, and setting
  the same range of any later consistent cell set from the copy succeeds too, after which exactly
  that range has the positions, sequences and extensions it had when it was saved and every other
  cell is untouched; the result is consistent.\<close>

theorem kv_cp_set_roundtrip:
  assumes "kv_reachable c" and "i + n \<le> kv_size c" and "\<forall>j. i \<le> j \<and> j < i + n \<longrightarrow> kv_shift c ! j = 0"
    and "kv_reachable d" and "i + n \<le> kv_size d" and "\<forall>j. i \<le> j \<and> j < i + n \<longrightarrow> kv_shift d ! j = 0"
  shows "\<exists>sn c' d'. kv_cp i n c = Some (sn, c') \<and> kv_set i sn d = Some d' \<and> kv_reachable d' \<and>
    kv_size d' = kv_size d \<and>
    (\<forall>j. cell_meta d' j = (if i \<le> j \<and> j < i + n then cell_meta c j else cell_meta d j))"
proof -
  have inv: "kv_inv c" "kv_inv d" by (simp_all add: assms(1,4) kv_reachable_inv)
  obtain sn c' where cp: "kv_cp i n c = Some (sn, c')"
      and sn: "kv_pos sn = map (\<lambda>j. kv_pos c ! (i + j)) [0..<n]"
        "kv_ext sn = map (\<lambda>j. kv_ext c ! (i + j)) [0..<n]"
        "kv_seq sn = map (\<lambda>j. kv_seq c ! (i + j)) [0..<n]"
    using kv_cp_eq [OF assms(2)] assms(3) by blast
  have ok: "snap_ok sn" by (rule snap_ok_cp [OF inv(1) assms(2) sn])
  have len: "kv_size sn = n" by (simp add: sn)
  obtain d' where set: "kv_set i sn d = Some d'" and d': "kv_size d' = kv_size d"
      "\<forall>j. cell_meta d' j = (if i \<le> j \<and> j < i + n then cell_meta sn (j - i) else cell_meta d j)"
    using set_loop_eq [OF inv(2) ok order_refl] assms(5,6) len by (fastforce simp: kv_set_def)
  have "kv_reachable d'" using set ok by (intro kv_reachable.step [OF assms(4)] kv_step.set_range)
  moreover have "cell_meta sn (j - i) = cell_meta c j" if "i \<le> j \<and> j < i + n" for j
  proof -
    have "j - i < n" "i + (j - i) = j" using that by linarith+
    then show ?thesis by (simp add: cell_meta_def sn)
  qed
  ultimately show ?thesis using cp set d' by auto
qed

theorem kv_cp_set_roundtrip_witness:
  "\<exists>c d sn c' d'. example_cells = Some c \<and> kv_rm 0 c = Some d \<and> kv_cp 0 2 c = Some (sn, c') \<and>
     kv_set 0 sn d = Some d' \<and> kv_pos d ! 0 = -1 \<and> kv_pos d' ! 0 = 0"
proof -
  obtain c where c: "example_cells = Some c" "kv_reachable c" "kv_pos c = [0, 1]" "kv_shift c = [0, 0]"
    by (rule example_cells_run)
  obtain d where d: "kv_rm 0 c = Some d" "kv_pos d = [-1, 1]" "kv_shift d = [0, 0]"
    using c(3,4) by (simp add: kv_rm_eq [OF kv_reachable_inv [OF c(2)]])
  have "kv_reachable d" using d(1) by (intro kv_reachable.step [OF c(2)] kv_step.rm)
  from kv_cp_set_roundtrip [OF c(2) _ _ this, of 0 2] c d
  obtain sn c' d' where "kv_cp 0 2 c = Some (sn, c')" "kv_set 0 sn d = Some d'" "cell_meta d' 0 = cell_meta c 0"
    by (auto simp: less_Suc_eq numeral_2_eq_2)
  with c d show ?thesis by (auto simp: cell_meta_def)
qed

section \<open>Properties of the queries\<close>

text \<open>C6: \<open>seq_has_range\<close> (and \<open>seq_has_prefix\<close>) answers exactly whether every position of the range
  is held by exactly one cell of the sequence: holes and duplicate positions are both seen.\<close>

theorem kv_seq_has_range_exact:
  assumes "kv_reachable c" and "s < LLAMA_MAX_SEQ"
  shows "seq_has_range s p0 p1 c = Some (0 \<le> p0 \<and> p0 < p1 \<and>
      (\<forall>p. p0 \<le> p \<and> p < p1 \<longrightarrow> (\<exists>!i. i < kv_size c \<and> s \<in> kv_seq c ! i \<and> kv_pos c ! i = p))) \<and>
    seq_has_prefix s p1 c = seq_has_range s 0 p1 c"
  using seq_has_range_exact [OF kv_reachable_inv] assms by (simp add: seq_has_prefix_def)

theorem kv_seq_has_range_exact_witness:
  "\<exists>c. example_cells = Some c \<and> seq_has_prefix 3 2 c = Some True \<and> seq_has_prefix 3 3 c = Some False"
proof -
  obtain c where c: "example_cells = Some c" "kv_reachable c" "kv_pos c = [0, 1]" "kv_seq c = [{3}, {3}]"
    by (rule example_cells_run)
  have three: "3 < LLAMA_MAX_SEQ" by (simp add: LLAMA_MAX_SEQ_def)
  let ?one = "\<lambda>p. \<exists>!i. i < kv_size c \<and> 3 \<in> kv_seq c ! i \<and> kv_pos c ! i = p"
  have ex: "(\<forall>p. 0 \<le> p \<and> p < 2 \<longrightarrow> ?one p) = True"
  proof (simp only: simp_thms, intro allI impI)
    fix p :: int assume "0 \<le> p \<and> p < 2"
    then have "p = 0 \<or> p = 1" by auto
    then show "?one p" by (auto simp: c(3,4) less_2_iff)
  qed
  have "\<not> ?one 2" by (auto simp: c(3,4) less_2_iff)
  moreover have "?one 2" if "\<forall>p. 0 \<le> p \<and> p < 3 \<longrightarrow> ?one p"
    by (rule that [THEN spec, THEN mp]) simp
  ultimately have no: "(\<forall>p. 0 \<le> p \<and> p < 3 \<longrightarrow> ?one p) = False" by argo
  have "seq_has_prefix 3 2 c = Some True"
    using kv_seq_has_range_exact [OF c(2) three, of 0 2] unfolding ex by simp
  moreover have "seq_has_prefix 3 3 c = Some False"
    using kv_seq_has_range_exact [OF c(2) three, of 0 3] unfolding no by simp
  ultimately have "seq_has_prefix 3 2 c = Some True \<and> seq_has_prefix 3 3 c = Some False" ..
  with c(1) show ?thesis by blast
qed

lemma seq_pos_tok_le_cells:
  assumes "kv_inv c" and "s < LLAMA_MAX_SEQ" and "kv_size c \<le> 2 ^ 32"
    and before_def: "before = {i. i < kv_size c \<and> s \<in> kv_seq c ! i \<and> kv_pos c ! i \<le> p}"
  shows "seq_pos_tok_le s p c = Some (if before = {} then LLAMA_TOKEN_NULL
    else ext_tok (kv_ext c ! Max {i \<in> before. kv_pos c ! i = Max ((!) (kv_pos c) ` before)}))"
proof (cases "before = {}")
  case True
  then show ?thesis
    using assms(1,2) seq_pos_tok_le_none [of c s p] by (force simp: before_def not_le)
next
  case False
  let ?m = "Max ((!) (kv_pos c) ` before)"
  let ?B = "{i \<in> before. kv_pos c ! i = ?m}"
  have fin: "finite before" by (simp add: before_def)
  then have "?m \<in> (!) (kv_pos c) ` before" using False by (intro Max_in) auto
  then have ne: "?B \<noteq> {}" by auto
  then have j: "Max ?B \<in> before" "kv_pos c ! Max ?B = ?m"
    using Max_in [of ?B] fin by auto
  have "kv_pos c ! i < kv_pos c ! Max ?B \<or> kv_pos c ! i = kv_pos c ! Max ?B \<and> i \<le> Max ?B"
    if "i \<in> before" for i
  proof -
    have "kv_pos c ! i \<le> ?m" using that fin by simp
    moreover have "i \<le> Max ?B" if "kv_pos c ! i = ?m"
      using that \<open>i \<in> before\<close> fin by (intro Max_ge) auto
    ultimately show ?thesis unfolding j(2) by linarith
  qed
  then show ?thesis
    using seq_pos_tok_le_pred [OF assms(1) assms(2,3), of "Max ?B" p] j(1) False
    by (auto simp: before_def)
qed

text \<open>The predecessor token. \<open>seq_pos_tok_le\<close> returns the token of the cell of the sequence at
  the greatest position not above \<open>p\<close>, the highest cell among those sharing it, and
  \<open>LLAMA_TOKEN_NULL\<close> when no cell of the sequence is at or before \<open>p\<close>.\<close>

theorem kv_seq_pos_tok_le:
  assumes "kv_reachable c" and "s < LLAMA_MAX_SEQ" and "kv_size c \<le> 2 ^ 32"
  shows "seq_pos_tok_le s p c =
    (let before = {i. i < kv_size c \<and> s \<in> kv_seq c ! i \<and> kv_pos c ! i \<le> p};
         last_pos = Max ((!) (kv_pos c) ` before)
     in Some (if before = {} then LLAMA_TOKEN_NULL
              else ext_tok (kv_ext c ! Max {i \<in> before. kv_pos c ! i = last_pos})))"
  using seq_pos_tok_le_cells [OF kv_reachable_inv [OF assms(1)] assms(2,3) refl, of p]
  by (simp only: Let_def)

theorem kv_seq_pos_tok_le_witness:
  "\<exists>c. example_cells = Some c \<and> seq_pos_tok_le 3 (-1) c = Some LLAMA_TOKEN_NULL"
proof -
  obtain c where c: "example_cells = Some c" "kv_reachable c" "kv_pos c = [0, 1]" "kv_seq c = [{3}, {3}]"
    by (rule example_cells_run)
  have "\<not> kv_pos c ! i \<le> -1" if "i < kv_size c" for i
  proof -
    have "i = 0 \<or> i = 1" using that by (simp add: c(3) less_2_iff)
    then show ?thesis by (auto simp: c(3))
  qed
  then have "{i. i < kv_size c \<and> 3 \<in> kv_seq c ! i \<and> kv_pos c ! i \<le> -1} = {}" by blast
  then have "seq_pos_tok_le 3 (-1) c = Some LLAMA_TOKEN_NULL"
    using kv_seq_pos_tok_le [OF c(2), of 3 "-1"] c(3) by (simp add: LLAMA_MAX_SEQ_def)
  with c(1) show ?thesis by blast
qed


lemma Min_image_cells:
  fixes f :: "nat \<Rightarrow> int"
  assumes "finite A" and "j \<in> A" and "\<And>i. i \<in> A \<Longrightarrow> f j \<le> f i"
  shows "Min (f ` A) = f j"
  using assms by (intro Min_eqI) auto

lemma Max_image_cells:
  fixes f :: "nat \<Rightarrow> int"
  assumes "finite A" and "j \<in> A" and "\<And>i. i \<in> A \<Longrightarrow> f i \<le> f j"
  shows "Max (f ` A) = f j"
  using assms by (intro Max_eqI) auto

lemma seq_pos_min_cells:
  assumes "kv_inv c" and "s < LLAMA_MAX_SEQ" and "I = {i. i < kv_size c \<and> s \<in> kv_seq c ! i}" and "I \<noteq> {}"
  shows "seq_pos_min s c = Some (Min ((!) (kv_pos c) ` I)) \<and> seq_pos_max s c = Some (Max ((!) (kv_pos c) ` I))"
proof -
  from assms(3,4) obtain i where i: "i < kv_size c" "s \<in> kv_seq c ! i" by auto
  obtain j where j: "j \<in> I" "seq_pos_min s c = Some (kv_pos c ! j)"
    using seq_pos_min_least [OF assms(1,2) i] assms(3) by auto
  obtain k where k: "k \<in> I" "seq_pos_max s c = Some (kv_pos c ! k)"
    using seq_pos_max_greatest [OF assms(1,2) i] assms(3) by auto
  have "kv_pos c ! j \<le> kv_pos c ! m \<and> kv_pos c ! m \<le> kv_pos c ! k" if "m \<in> I" for m
    using seq_pos_min_least [OF assms(1,2), of m] seq_pos_max_greatest [OF assms(1,2), of m]
      that j k assms(3) by auto
  moreover have "finite I" by (simp add: assms(3))
  ultimately show ?thesis
    using j k by (simp add: Min_image_cells [of I j] Max_image_cells [of I k])
qed

text \<open>The summaries of a sequence. \<open>seq_pos_min\<close> and \<open>seq_pos_max\<close> are the least and greatest
  positions of the cells that carry the sequence, -1 when there are none, and
  \<open>seq_pos_count_before\<close> is the number of those cells before the frontier.\<close>

theorem kv_seq_summaries:
  assumes "kv_reachable c" and "s < LLAMA_MAX_SEQ"
  shows "(let cells = {i. i < kv_size c \<and> s \<in> kv_seq c ! i} in
    seq_pos_min s c = Some (if cells = {} then -1 else Min ((!) (kv_pos c) ` cells)) \<and>
    seq_pos_max s c = Some (if cells = {} then -1 else Max ((!) (kv_pos c) ` cells)) \<and>
    seq_pos_count_before s f c = Some (card {i \<in> cells. kv_pos c ! i < f}))"
proof -
  let ?I = "{i. i < kv_size c \<and> s \<in> kv_seq c ! i}"
  have inv: "kv_inv c" by (rule kv_reachable_inv [OF assms(1)])
  have "{i \<in> ?I. kv_pos c ! i < f} = {i. i < kv_size c \<and> s \<in> kv_seq c ! i \<and> kv_pos c ! i < f}" by auto
  moreover have "seq_pos_min s c = Some (-1) \<and> seq_pos_max s c = Some (-1)" if "?I = {}"
    using that by (intro seq_pos_absent [OF inv assms(2)]) blast
  moreover note seq_pos_min_cells [OF inv assms(2) refl]
  ultimately show ?thesis
    unfolding Let_def using seq_pos_count_before_card [OF inv assms(2), of f] by presburger
qed

theorem kv_seq_summaries_witness:
  "\<exists>c. example_cells = Some c \<and> seq_pos_min 3 c = Some 0 \<and> seq_pos_max 3 c = Some 1 \<and> seq_pos_max 4 c = Some (-1)"
proof -
  obtain c where c: "example_cells = Some c" "kv_reachable c" "kv_pos c = [0, 1]" "kv_seq c = [{3}, {3}]"
    by (rule example_cells_run)
  have "{i. i < kv_size c \<and> 3 \<in> kv_seq c ! i} = {0, 1}" by (auto simp: c(3,4) less_2_iff)
  moreover have "{i. i < kv_size c \<and> 4 \<in> kv_seq c ! i} = {}"
    using less_2_iff by (fastforce simp: c(3,4))
  ultimately have "seq_pos_min 3 c = Some 0 \<and> seq_pos_max 3 c = Some 1 \<and> seq_pos_max 4 c = Some (-1)"
    using kv_seq_summaries [OF c(2), of 3] kv_seq_summaries [OF c(2), of 4]
    by (simp add: LLAMA_MAX_SEQ_def c(3))
  with c(1) show ?thesis by blast
qed

lemma rows_walk_iff:
  "rows_walk rows es = Some rest \<longleftrightarrow> es = take (length rows) es @ rest \<and> map fst (take (length rows) es) = rows"
  by (induction rows es rule: rows_walk.induct) (auto split: list.splits)

lemma rows_walk_filter:
  assumes "sorted (map fst es)" and "\<And>r. r \<in> set rows \<Longrightarrow> r < nxt"
  shows "(case rows_walk rows es of None \<Rightarrow> False | Some rest \<Rightarrow> rest = [] \<or> nxt \<le> fst (hd rest)) \<longleftrightarrow>
    map fst (filter (\<lambda>e. fst e < nxt) es) = rows"
  using assms
proof (induction rows es rule: rows_walk.induct)
  case (1 es)
  have "filter (\<lambda>e. fst e < nxt) es = [] \<longleftrightarrow> es = [] \<or> nxt \<le> fst (hd es)"
    using 1(1) by (cases es) (force simp: filter_empty_conv)+
  then show ?case by simp
next
  case (2 r rows es)
  show ?case
  proof (cases es)
    case (Cons e es')
    have "r < nxt" using 2(3) by simp
    moreover have "filter (\<lambda>e. fst e < nxt) es' = []" if "\<not> fst e < nxt"
      using that 2(2) Cons by (force simp: filter_empty_conv)
    ultimately show ?thesis
      using 2(1) [OF Cons] 2(2,3) Cons by (cases "fst e < nxt") auto
  qed simp
qed

lemma mset_sorted_list_of_set: "mset (sorted_list_of_set A) = mset_set A"
  by (cases "finite A") (simp_all add: mset_set_set [symmetric, of "sorted_list_of_set A"])

lemma sorted_eq_mset_iff: "sorted xs \<Longrightarrow> sorted ys \<Longrightarrow> xs = ys \<longleftrightarrow> mset xs = mset ys"
  by (metis properties_for_sort)

lemma mset_map_fst_cells:
  "finite I \<Longrightarrow> mset (map fst (sorted_list_of_set ((\<lambda>i. (g i, i)) ` I))) = image_mset (g :: nat \<Rightarrow> int) (mset_set I)"
  by (simp add: mset_sorted_list_of_set image_mset_mset_set [symmetric] inj_on_def multiset.map_comp comp_def)


lemma le_last_of_sorted: "sorted xs \<Longrightarrow> (x :: int) \<in> set xs \<Longrightarrow> x \<le> last xs"
  by (induction xs) (auto split: if_splits)

lemma prefix_rows_loop:
  assumes inv: "kv_inv c" and rows: "sorted expected" "expected \<noteq> []" "last expected < nxt"
  shows "(case rows_walk (dropWhile (\<lambda>r. r < b) expected) (lower_bound (b, 0) (kv_seq_pos c s)) of
      None \<Rightarrow> False | Some rest \<Rightarrow> rest = [] \<or> nxt \<le> fst (hd rest)) \<longleftrightarrow>
    image_mset ((!) (kv_pos c)) (mset_set {i. i < kv_size c \<and> s \<in> kv_seq c ! i \<and> b \<le> kv_pos c ! i \<and>
      kv_pos c ! i < nxt}) = mset (filter (\<lambda>r. b \<le> r) expected)"
proof -
  let ?S = "kv_seq_pos c s" and ?rows = "dropWhile (\<lambda>r. r < b) expected"
    and ?I = "{i. i < kv_size c \<and> s \<in> kv_seq c ! i \<and> b \<le> kv_pos c ! i \<and> kv_pos c ! i < nxt}"
  let ?es = "lower_bound (b, 0) ?S" and ?in = "sorted_list_of_set ((\<lambda>i. (kv_pos c ! i, i)) ` ?I)"
  have fin: "finite ?S" by (rule finite_kv_seq_pos [OF inv])
  have es: "?es = sorted_list_of_set {e \<in> ?S. b \<le> fst e}" by (rule lower_bound_pos [OF fin])
  have "{e \<in> ?S. b \<le> fst e \<and> fst e < nxt} = (\<lambda>i. (kv_pos c ! i, i)) ` ?I"
    by (auto simp: seq_pos_cells [OF inv])
  then have inside: "filter (\<lambda>e. fst e < nxt) ?es = ?in"
    using fin by (simp add: es sorted_list_of_set_filter conj_assoc)
  have drop: "?rows = filter (\<lambda>r. b \<le> r) expected" using rows(1) by (rule sorted_dropWhile_less)
  have "r < nxt" if "r \<in> set expected" for r
    using that rows le_last_of_sorted [of expected r] by linarith
  then have "(case rows_walk ?rows ?es of None \<Rightarrow> False | Some rest \<Rightarrow> rest = [] \<or> nxt \<le> fst (hd rest)) \<longleftrightarrow>
      map fst ?in = ?rows"
    using rows_walk_filter [of ?es ?rows nxt] inside by (simp add: es drop sorted_map_fst)
  also have "\<dots> \<longleftrightarrow> mset (map fst ?in) = mset ?rows"
    using rows(1) by (intro sorted_eq_mset_iff) (simp_all add: sorted_map_fst drop sorted_filter [of id, simplified])
  also have "mset (map fst ?in) = image_mset ((!) (kv_pos c)) (mset_set ?I)"
    by (rule mset_map_fst_cells) simp
  finally show ?thesis by (simp only: drop)
qed

text \<open>\<open>seq_has_prefix_rows\<close> accepts a row layout exactly when the layout is well formed (it starts
  at 0, is sorted and ends before \<open>next_pos\<close>) and the positions of the sequence's cells in
  \<open>[begin, next_pos)\<close>, with their multiplicities, are the expected rows from \<open>begin\<close> on.\<close>

theorem kv_prefix_rows_exact:
  assumes "kv_reachable c" and "s < LLAMA_MAX_SEQ"
  shows "seq_has_prefix_rows s next_pos expected begin c = Some (0 \<le> begin \<and> begin < next_pos \<and>
    expected \<noteq> [] \<and> hd expected = 0 \<and> last expected < next_pos \<and> sorted expected \<and>
    image_mset ((!) (kv_pos c)) (mset_set {i. i < kv_size c \<and> s \<in> kv_seq c ! i \<and>
      begin \<le> kv_pos c ! i \<and> kv_pos c ! i < next_pos}) = mset (filter (\<lambda>r. begin \<le> r) expected))"
proof (cases "0 \<le> begin \<and> begin < next_pos \<and> expected \<noteq> [] \<and> hd expected = 0 \<and>
    last expected < next_pos \<and> sorted expected")
  case True
  then show ?thesis
    using assms(2) prefix_rows_loop [OF kv_reachable_inv [OF assms(1)], of expected next_pos "begin" s]
    by (simp add: seq_has_prefix_rows_def)
next
  case False
  then show ?thesis using assms(2) by (auto simp: seq_has_prefix_rows_def)
qed

theorem kv_prefix_rows_exact_witness:
  "\<exists>c. example_cells = Some c \<and> seq_has_prefix_rows 3 2 [0, 1] 0 c = Some True"
proof -
  obtain c where c: "example_cells = Some c" "kv_reachable c" "kv_pos c = [0, 1]" "kv_seq c = [{3}, {3}]"
    by (rule example_cells_run)
  have "{i. i < kv_size c \<and> 3 \<in> kv_seq c ! i \<and> 0 \<le> kv_pos c ! i \<and> kv_pos c ! i < 2} = {0, 1}"
    by (auto simp: c(3,4) less_2_iff)
  then have "seq_has_prefix_rows 3 2 [0, 1] 0 c = Some True"
    using kv_prefix_rows_exact [OF c(2), of 3 2 "[0, 1]" 0] by (simp add: LLAMA_MAX_SEQ_def c(3))
  with c(1) show ?thesis by blast
qed

end
