(* ===== verification/Fenwick.thy ===== *)
theory Fenwick
  imports Bit_Words
begin

text \<open>
  The Fenwick (binary indexed) tree of \<^verbatim>\<open>src/src/llama-vbr-extent.cpp\<close>: \<open>fenwick_update\<close> and
  \<open>fenwick_prefix\<close> on a vector of \<open>n + 1\<close> counters, with the 32-bit loop variable of the code.
  \<open>counts tree f\<close> says that the tree holds the frequencies \<open>f\<close> of the positions; an update changes
  one frequency, a prefix query sums the frequencies below a position.
\<close>

section \<open>The loops of the code\<close>

text \<open>The update loop may run for ever when \<open>i\<close> wraps, so it is a partial function.\<close>

partial_function (option) fenwick_loop :: "int \<Rightarrow> u32 \<Rightarrow> u32 list \<Rightarrow> u32 list option" where
  "fenwick_loop delta i tree =
    (if unat i < length tree
     then fenwick_loop delta (i + low_bit i)
            (tree[unat i := word_of_int (uint (tree ! unat i) + delta)])
     else Some tree)"

declare fenwick_loop.simps [code]

definition fenwick_update :: "u32 list \<Rightarrow> u32 \<Rightarrow> int \<Rightarrow> u32 list option" where
  "fenwick_update tree pos delta = fenwick_loop delta (pos + 1) tree"

lemma low_bit_le: "low_bit i \<le> (i :: 'a::len word)"
  by (simp add: low_bit_def and.commute word_and_le1 word_and_le2)

lemma low_bit_zero_iff [simp]: "low_bit i = 0 \<longleftrightarrow> i = (0 :: 'a::len word)"
proof (cases "i = 0")
  case False
  then have "bit (low_bit i) (lowest_bit i)"
    by (simp add: low_bit_eq bit_simps lowest_bit_less)
  with False show ?thesis by auto
qed (simp add: low_bit_def)

lemma unat_minus_low_bit: "unat (i - low_bit i) = unat i - unat (low_bit (i :: 'a::len word))"
  by (rule unat_sub) (rule low_bit_le)

lemma low_bit_pos: "i \<noteq> 0 \<Longrightarrow> 0 < unat (low_bit (i :: 'a::len word))"
  by (simp add: unat_gt_0)

function fenwick_sum :: "u32 list \<Rightarrow> u32 \<Rightarrow> u32 \<Rightarrow> u32 option" where
  "fenwick_sum tree i acc =
    (if i > 0
     then (if unat i < length tree then fenwick_sum tree (i - low_bit i) (acc + tree ! unat i) else None)
     else Some acc)"
  by pat_completeness auto
termination
proof (relation "measure (\<lambda>(tree, i, acc). unat i)")
  show "((tree, i - low_bit i, acc + tree ! unat i), (tree, i, acc)) \<in> measure (\<lambda>(tree, i, acc). unat i)"
    if "i > 0" for tree :: "u32 list" and i acc
    using that low_bit_pos [of i] by (auto simp: unat_minus_low_bit word_gt_0 unat_gt_0)
qed simp

declare fenwick_sum.simps [simp del]

definition fenwick_prefix :: "u32 list \<Rightarrow> u32 \<Rightarrow> u32 option" where
  "fenwick_prefix tree count = fenwick_sum tree count 0"

section \<open>The lowest power of two of an index\<close>

definition low :: "nat \<Rightarrow> nat" where
  "low i = 2 ^ (LEAST k. bit i k)"

lemma low_odd_part:
  assumes "0 < i"
  obtains k m where "i = 2 ^ k * (2 * m + 1)" "low i = 2 ^ k"
proof -
  obtain n where "bit i n" using assms by (metis bit_eq_iff bit_0_eq bot_apply neq0_conv bot_bool_def)
  define k where "k = (LEAST k. bit i k)"
  have k: "bit i k" unfolding k_def using \<open>bit i n\<close> by (rule LeastI)
  have below: "\<not> bit i j" if "j < k" for j using that not_less_Least unfolding k_def by blast
  have "take_bit k i = 0"
    by (rule bit_eqI) (auto simp: bit_take_bit_iff below)
  then have "i = 2 ^ k * (i div 2 ^ k)"
    by (simp add: take_bit_eq_mod mod_eq_0_iff_dvd dvd_mult_div_cancel)
  moreover have "odd (i div 2 ^ k)" using k by (simp add: bit_iff_odd)
  ultimately show thesis
    by (intro that [of k "i div 2 ^ k div 2"]) (auto simp: low_def k_def elim: oddE)
qed

lemma low_pos: "0 < i \<Longrightarrow> 0 < low i" by (simp add: low_def)

lemma low_le: "0 < i \<Longrightarrow> low i \<le> i"
  by (erule low_odd_part) simp

lemma unat_low_bit:
  assumes "i \<noteq> (0 :: u32)"
  shows "unat (low_bit i) = low (unat i)"
proof -
  have "bit (unat i) k \<longleftrightarrow> bit i k" for k by (simp add: bit_unsigned_iff)
  moreover have "lowest_bit i = (LEAST k. bit i k)"
    using assms bit_lowest_bit [OF assms] not_bit_below_lowest [of _ i]
    by (intro Least_equality [symmetric]) (auto simp: not_less [symmetric])
  moreover have "unat (push_bit n 1 :: u32) = 2 ^ n" if "n < 32" for n
  proof -
    have "(2 :: nat) ^ n < 2 ^ 32" using that by (intro power_strict_increasing) auto
    then have "unat (of_nat (2 ^ n) :: u32) = 2 ^ n" by (rule unat_of_nat_u32)
    then show ?thesis by (simp add: push_bit_of_1)
  qed
  ultimately show ?thesis
    using lowest_bit_less [OF assms] by (simp add: low_bit_eq [OF assms] low_def)
qed


text \<open>The indices after \<open>i\<close> and before \<open>i + low i\<close> cover only positions from \<open>i\<close> on; the next index of
  the update covers all that \<open>i\<close> covers.\<close>

lemma low_between:
  assumes "0 < i" and "i < j" and "j < i + low i"
  shows "i \<le> j - low j"
proof -
  obtain k m where i: "i = 2 ^ k * (2 * m + 1)" "low i = 2 ^ k" by (rule low_odd_part [OF assms(1)])
  have "0 < j" using assms by simp
  then obtain l q where j: "j = 2 ^ l * (2 * q + 1)" "low j = 2 ^ l" by (rule low_odd_part)
  have "l < k"
  proof (rule ccontr)
    assume "\<not> l < k"
    then have "2 ^ k dvd j" using j(1) by (simp add: le_imp_power_dvd)
    then obtain a where a: "j = 2 ^ k * a" by blast
    have "2 ^ k * (2 * m + 1) < 2 ^ k * a" "2 ^ k * a < 2 ^ k * (2 * m + 2)"
      using assms(2,3) i a by (simp_all add: algebra_simps)
    then have "2 * m + 1 < a" "a < 2 * m + 2" by (metis mult_less_cancel1)+
    then show False by simp
  qed
  then obtain d where "k = l + Suc d" using less_imp_Suc_add by fastforce
  then have i': "i = 2 ^ l * (2 * (2 ^ d * (2 * m + 1)))" using i(1) by (simp add: power_add algebra_simps)
  with assms(2) j(1) have "2 * (2 ^ d * (2 * m + 1)) < 2 * q + 1" by (metis mult_less_cancel1)
  then have "2 ^ d * (2 * m + 1) \<le> q" by simp
  then have "2 ^ l * (2 * (2 ^ d * (2 * m + 1))) \<le> 2 ^ l * (2 * q)" by simp
  with i' j show ?thesis by (simp add: algebra_simps)
qed

lemma low_next:
  assumes "0 < i"
  shows "i + low i - low (i + low i) \<le> i - low i"
proof -
  obtain k m where i: "i = 2 ^ k * (2 * m + 1)" "low i = 2 ^ k" by (rule low_odd_part [OF assms])
  let ?j = "i + low i"
  have "0 < ?j" using assms by simp
  then obtain l q where j: "?j = 2 ^ l * (2 * q + 1)" "low ?j = 2 ^ l" by (rule low_odd_part)
  have two: "?j = 2 ^ Suc k * (m + 1)" using i by simp
  have "k < l"
  proof (rule ccontr)
    assume "\<not> k < l"
    then obtain d where "k = l + d" using le_Suc_ex by (auto simp: not_less)
    then have "?j = 2 ^ l * (2 * (2 ^ d * (m + 1)))" using two by (simp add: power_add algebra_simps)
    then have "2 ^ l * (2 * q + 1) = 2 ^ l * (2 * (2 ^ d * (m + 1)))" using j(1) by argo
    then have "2 * q + 1 = 2 * (2 ^ d * (m + 1))" by (simp only: mult_cancel1) simp
    then have "even (2 * q + 1)" by simp
    then show False by simp
  qed
  then have "(2::nat) ^ Suc k \<le> 2 ^ l" by (intro power_increasing) auto
  then have "?j - low ?j \<le> ?j - 2 ^ Suc k" using j(2) by simp
  also have "\<dots> = i - low i" using i by simp
  finally show ?thesis .
qed

section \<open>Frequencies\<close>

definition counts :: "u32 list \<Rightarrow> (nat \<Rightarrow> int) \<Rightarrow> bool" where
  "counts tree f \<longleftrightarrow>
     (\<forall>i. 0 < i \<and> i < length tree \<longrightarrow> tree ! i = word_of_int (\<Sum>p \<in> {i - low i..<i}. f p))"

lemma counts_empty: "counts (replicate n 0) (\<lambda>_. 0)"
  by (simp add: counts_def)

text \<open>The indices below \<open>j\<close> know the new frequency of \<open>p\<close>, the others the old one.\<close>

definition counts_upto :: "nat \<Rightarrow> u32 list \<Rightarrow> (nat \<Rightarrow> int) \<Rightarrow> nat \<Rightarrow> int \<Rightarrow> bool" where
  "counts_upto j tree f p delta \<longleftrightarrow>
     (\<forall>i. 0 < i \<and> i < length tree \<longrightarrow> tree ! i =
        word_of_int ((\<Sum>q \<in> {i - low i..<i}. f q) + (if i < j \<and> i - low i \<le> p \<and> p < i then delta else 0)))"

lemma counts_upto_step:
  assumes "counts_upto i tree f p delta" and "0 < i" and "i < length tree" and "i - low i \<le> p" and "p < i"
  shows "counts_upto (i + low i) (tree[i := word_of_int (uint (tree ! i) + delta)]) f p delta"
  unfolding counts_upto_def
proof (intro allI impI)
  fix j assume j: "0 < j \<and> j < length (tree[i := word_of_int (uint (tree ! i) + delta)])"
  let ?sum = "\<lambda>i. \<Sum>q \<in> {i - low i..<i}. f q"
  have old: "tree ! j = word_of_int (?sum j + (if j < i \<and> j - low j \<le> p \<and> p < j then delta else 0))"
    using assms(1) j by (simp add: counts_upto_def)
  have "\<not> j - low j \<le> p" if "i < j" "j < i + low i"
    using low_between [OF assms(2) that] assms(5) by simp
  moreover have "i < i + low i" using assms(2) by (simp add: low_pos)
  moreover have "word_of_int (uint (tree ! i) + delta) = (word_of_int (?sum i + delta) :: u32)"
    using assms by (simp add: counts_upto_def wi_hom_add [symmetric])
  ultimately show "tree[i := word_of_int (uint (tree ! i) + delta)] ! j =
      word_of_int (?sum j + (if j < i + low i \<and> j - low j \<le> p \<and> p < j then delta else 0))"
    using old j assms(4,5) by (cases i j rule: linorder_cases) (auto simp: nth_list_update)
qed

lemma counts_upto_start: "counts tree f \<Longrightarrow> counts_upto (Suc p) tree f p delta"
  by (auto simp: counts_def counts_upto_def)

lemma counts_upto_end:
  assumes "counts_upto j tree f p delta" and "length tree \<le> j"
  shows "counts tree (f(p := f p + delta))"
  unfolding counts_def
proof (intro allI impI)
  fix i assume i: "0 < i \<and> i < length tree"
  let ?I = "{i - low i..<i}"
  have "(\<Sum>q \<in> ?I. (f(p := f p + delta)) q) = (\<Sum>q \<in> ?I. f q + (if q = p then delta else 0))"
    by (intro sum.cong) auto
  also have "\<dots> = (\<Sum>q \<in> ?I. f q) + (if i - low i \<le> p \<and> p < i then delta else 0)"
    by (simp add: sum.distrib)
  finally show "tree ! i = word_of_int (\<Sum>q \<in> ?I. (f(p := f p + delta)) q)"
    using assms i by (simp add: counts_upto_def)
qed


lemma low_le_word:
  assumes "unat i < 2 ^ 31" and "i \<noteq> (0 :: u32)"
  shows "unat (i + low_bit i) = unat i + low (unat i)"
proof -
  have "low (unat i) \<le> unat i" using assms(2) by (intro low_le) (simp add: unat_gt_0)
  then have "unat i + unat (low_bit i) < 2 ^ 32" using assms by (simp add: unat_low_bit)
  then have "unat (i + low_bit i) = unat i + unat (low_bit i)" by (simp add: unat_word_ariths)
  then show ?thesis using assms(2) by (simp add: unat_low_bit)
qed

text \<open>On a vector of at most \<open>2 ^ 31\<close> counters the loop variable does not wrap, so the loop ends.\<close>

lemma fenwick_loop_total:
  assumes "length tree \<le> 2 ^ 31" and "0 < unat i"
  shows "\<exists>tree'. fenwick_loop delta i tree = Some tree' \<and> length tree' = length tree"
  using assms
proof (induction "length tree - unat i" arbitrary: i tree rule: less_induct)
  case less
  show ?case
  proof (cases "unat i < length tree")
    case True
    let ?j = "i + low_bit i" and ?t = "tree[unat i := word_of_int (uint (tree ! unat i) + delta)]"
    have i: "unat i < 2 ^ 31" "i \<noteq> 0" using True less.prems by (auto simp: unat_gt_0)
    have "unat i < unat ?j" using low_le_word [OF i] low_pos [OF less.prems(2)] by simp
    then have "\<exists>tree'. fenwick_loop delta ?j ?t = Some tree' \<and> length tree' = length ?t"
      using True less.prems(1) by (intro less.hyps) auto
    then show ?thesis using True by (subst fenwick_loop.simps) simp
  qed (simp add: fenwick_loop.simps)
qed

lemma fenwick_update_total:
  assumes "length tree \<le> 2 ^ 31" and "Suc p < length tree"
  shows "\<exists>tree'. fenwick_update tree (of_nat p) delta = Some tree' \<and> length tree' = length tree"
  unfolding fenwick_update_def
  using assms unat_of_nat_u32 [of "Suc p"] by (intro fenwick_loop_total) (simp_all add: add.commute)

lemma fenwick_loop_counts:
  assumes "length tree \<le> 2 ^ 31" and "counts_upto (unat i) tree f p delta" and "0 < unat i"
    and "unat i - low (unat i) \<le> p" and "p < unat i"
  shows "\<exists>tree'. fenwick_loop delta i tree = Some tree' \<and> length tree' = length tree \<and>
    counts tree' (f(p := f p + delta))"
  using assms
proof (induction "length tree - unat i" arbitrary: i tree rule: less_induct)
  case less
  show ?case
  proof (cases "unat i < length tree")
    case False
    with less.prems show ?thesis
      by (subst fenwick_loop.simps) (auto intro: counts_upto_end)
  next
    case True
    let ?j = "i + low_bit i" and ?t = "tree[unat i := word_of_int (uint (tree ! unat i) + delta)]"
    have i: "unat i < 2 ^ 31" "i \<noteq> 0" using True less.prems(1,3) by (auto simp: unat_gt_0)
    have j: "unat ?j = unat i + low (unat i)" by (rule low_le_word [OF i])
    have pos: "0 < low (unat i)" by (intro low_pos less.prems)
    have "\<exists>tree'. fenwick_loop delta ?j ?t = Some tree' \<and> length tree' = length ?t \<and>
        counts tree' (f(p := f p + delta))"
    proof (rule less.hyps)
      show "length ?t - unat ?j < length tree - unat i" using True pos by (simp add: j)
      show "counts_upto (unat ?j) ?t f p delta"
        unfolding j by (rule counts_upto_step) (use less.prems True in auto)
      show "unat ?j - low (unat ?j) \<le> p"
        using low_next [OF less.prems(3)] less.prems(4) by (simp add: j)
    qed (use less.prems j in auto)
    then show ?thesis using True by (subst fenwick_loop.simps) simp
  qed
qed

theorem fenwick_update_counts:
  assumes "length tree \<le> 2 ^ 31" and "counts tree f" and "Suc p < length tree"
  shows "\<exists>tree'. fenwick_update tree (of_nat p) delta = Some tree' \<and> length tree' = length tree \<and>
    counts tree' (f(p := f p + delta))"
proof -
  have p: "unat (of_nat p + 1 :: u32) = Suc p"
    using assms(1,3) unat_of_nat_u32 [of "Suc p"] by (simp add: add.commute)
  show ?thesis
    unfolding fenwick_update_def
    by (rule fenwick_loop_counts) (use assms counts_upto_start low_pos [of "Suc p"] in \<open>auto simp: p\<close>)
qed

lemma fenwick_sum_counts:
  assumes "counts tree f" and "unat i < length tree"
  shows "fenwick_sum tree i acc = Some (acc + word_of_int (\<Sum>p < unat i. f p))"
  using assms(2)
proof (induction "unat i" arbitrary: i acc rule: less_induct)
  case less
  show ?case
  proof (cases "i = 0")
    case True
    then show ?thesis by (simp add: fenwick_sum.simps)
  next
    case False
    have pos: "0 < unat i" using False by (simp add: unat_gt_0)
    let ?l = "low (unat i)"
    have j: "unat (i - low_bit i) = unat i - ?l" by (simp add: unat_minus_low_bit unat_low_bit [OF False])
    have le: "?l \<le> unat i" "0 < ?l" using pos low_le low_pos by auto
    have "(\<Sum>p < unat i. f p) = (\<Sum>p < unat i - ?l. f p) + (\<Sum>p \<in> {unat i - ?l..<unat i}. f p)"
      using sum.atLeastLessThan_concat [of 0 "unat i - ?l" "unat i" f]
      by (simp add: lessThan_atLeast0)
    moreover have "fenwick_sum tree (i - low_bit i) (acc + tree ! unat i) =
        Some (acc + tree ! unat i + word_of_int (\<Sum>p < unat (i - low_bit i). f p))"
      by (rule less.hyps) (use le less.prems in \<open>simp_all add: j\<close>)
    ultimately show ?thesis
      using False less.prems assms(1) pos
      by (simp add: fenwick_sum.simps [of tree i] word_gt_0 j counts_def wi_hom_add [symmetric])
  qed
qed

theorem fenwick_prefix_counts:
  assumes "counts tree f" and "m < length tree" and "length tree \<le> 2 ^ 31"
  shows "fenwick_prefix tree (of_nat m) = Some (word_of_int (\<Sum>p < m. f p))"
  using fenwick_sum_counts [OF assms(1), of "of_nat m" 0] assms(2,3)
  by (simp add: fenwick_prefix_def unat_of_nat_u32)

end
