(* ===== verification/Ownership_Index.thy ===== *)
theory Ownership_Index
  imports Fenwick Index_Set
begin

text \<open>
  \<open>vbr_ownership_index\<close> of \<^verbatim>\<open>src/src/llama-vbr-extent.cpp\<close>: for every (stream, sequence) a physical
  mask of the owned cells and a Fenwick tree over their logical positions. A view that is consistent
  represents a finite map from cells to positions (\<open>view_rep\<close>); the operations are shown to update
  that map, and the two queries to read it: the rank below a frontier and the owned cells in order.
  An access outside a vector and the exception of \<open>at\<close> are \<open>None\<close>.
\<close>

section \<open>Prefix counters\<close>

text \<open>What the index relies on of its counter: point updates and prefix sums.\<close>

locale prefix_counter =
  fixes freq :: "'t \<Rightarrow> (nat \<Rightarrow> int) \<Rightarrow> bool"
    and domain :: "'t \<Rightarrow> nat \<Rightarrow> bool"
    and update :: "'t \<Rightarrow> u32 \<Rightarrow> int \<Rightarrow> 't option"
    and prefix :: "'t \<Rightarrow> u32 \<Rightarrow> u32 option"
  assumes update_freq: "freq t f \<Longrightarrow> domain t n \<Longrightarrow> p < n \<Longrightarrow>
      \<exists>t'. update t (of_nat p) d = Some t' \<and> domain t' n \<and> freq t' (f(p := f p + d))"
    and prefix_freq: "freq t f \<Longrightarrow> domain t n \<Longrightarrow> m \<le> n \<Longrightarrow>
      prefix t (of_nat m) = Some (word_of_int (\<Sum>p < m. f p))"
begin

text \<open>The frequencies of the positions of a finite map from cells to positions.\<close>

definition positions :: "(nat \<Rightarrow> nat option) \<Rightarrow> nat \<Rightarrow> int" where
  "positions m p = int (card {c. m c = Some p})"

lemma finite_position: "finite (dom m) \<Longrightarrow> finite {c. m c = Some p}"
  by (rule finite_subset [of _ "dom m"]) auto

lemma positions_insert:
  assumes "finite (dom m)" and "m c = None"
  shows "positions (m(c \<mapsto> p)) = (positions m)(p := positions m p + 1)"
proof (rule ext)
  fix q
  have "{c'. (m(c \<mapsto> p)) c' = Some q} = (if q = p then insert c {c'. m c' = Some p} else {c'. m c' = Some q})"
    using assms(2) by auto
  then show "positions (m(c \<mapsto> p)) q = ((positions m)(p := positions m p + 1)) q"
    using assms finite_position [OF assms(1), of p] by (simp add: positions_def)
qed

lemma positions_delete:
  assumes "finite (dom m)" and "m c = Some p"
  shows "positions (m(c := None)) = (positions m)(p := positions m p - 1)"
proof (rule ext)
  fix q
  have "{c'. (m(c := None)) c' = Some q} = (if q = p then {c'. m c' = Some p} - {c} else {c'. m c' = Some q})"
    using assms(2) by auto
  moreover have "0 < card {c'. m c' = Some p}"
    using assms finite_position [OF assms(1), of p] by (auto simp: card_gt_0_iff)
  ultimately show "positions (m(c := None)) q = ((positions m)(p := positions m p - 1)) q"
    using assms finite_position [OF assms(1), of p] by (simp add: positions_def of_nat_diff)
qed

lemma insert_cell:
  assumes "freq t (positions m)" and "domain t n" and "p < n" and "finite (dom m)" and "m c = None"
  shows "\<exists>t'. update t (of_nat p) 1 = Some t' \<and> domain t' n \<and> freq t' (positions (m(c \<mapsto> p)))"
  using update_freq [OF assms(1-3), of 1] by (simp add: positions_insert [OF assms(4,5)])

lemma delete_cell:
  assumes "freq t (positions m)" and "domain t n" and "p < n" and "finite (dom m)" and "m c = Some p"
  shows "\<exists>t'. update t (of_nat p) (-1) = Some t' \<and> domain t' n \<and> freq t' (positions (m(c := None)))"
  using update_freq [OF assms(1-3), of "-1"] by (simp add: positions_delete [OF assms(4,5)])

lemma rank_cells:
  assumes "freq t (positions m)" and "domain t n" and "k \<le> n" and "finite (dom m)"
  shows "prefix t (of_nat k) = Some (of_nat (card {c. \<exists>p. m c = Some p \<and> p < k}))"
proof -
  have "{c. \<exists>p. m c = Some p \<and> p < k} = (\<Union>p \<in> {..<k}. {c. m c = Some p})" by auto
  moreover have "card (\<Union>p \<in> {..<k}. {c. m c = Some p}) = (\<Sum>p < k. card {c. m c = Some p})"
    by (rule card_UN_disjoint) (auto intro: finite_position [OF assms(4)])
  ultimately have "card {c. \<exists>p. m c = Some p \<and> p < k} = (\<Sum>p < k. card {c. m c = Some p})" by simp
  then have "(\<Sum>p < k. positions m p) = int (card {c. \<exists>p. m c = Some p \<and> p < k})"
    by (simp add: positions_def)
  then show ?thesis using prefix_freq [OF assms(1-3)] by simp
qed

end

definition fenwick_domain :: "u32 list \<Rightarrow> nat \<Rightarrow> bool" where
  "fenwick_domain t n \<longleftrightarrow> length t = Suc n \<and> length t \<le> 2 ^ 31"

interpretation fw: prefix_counter counts fenwick_domain fenwick_update fenwick_prefix
proof unfold_locales
  show "\<exists>t'. fenwick_update t (of_nat p) d = Some t' \<and> fenwick_domain t' n \<and> counts t' (f(p := f p + d))"
    if "counts t f" "fenwick_domain t n" "p < n" for t f n p d
    using fenwick_update_counts [of t f p d] that by (auto simp: fenwick_domain_def)
  show "fenwick_prefix t (of_nat m) = Some (word_of_int (\<Sum>p < m. f p))"
    if "counts t f" "fenwick_domain t n" "m \<le> n" for t f n m
    using fenwick_prefix_counts [of t f m] that by (simp add: fenwick_domain_def)
qed


section \<open>The index\<close>

definition VBR_GENERATION_PAGE_CELLS :: nat where "VBR_GENERATION_PAGE_CELLS = 256"
definition MASK_WORDS_PER_PAGE :: nat where "MASK_WORDS_PER_PAGE = 4"

record seq_view =
  in_use :: bool
  unavailable :: bool
  owned :: nat
  page_masks :: "u64 list"
  fenwick_tree :: "u32 list"

definition seq_view_default :: seq_view where
  "seq_view_default = \<lparr> in_use = False, unavailable = False, owned = 0, page_masks = [], fenwick_tree = [] \<rparr>"

record ownership_index =
  n_stream :: nat
  n_seq_max :: nat
  n_cells :: nat
  n_positions :: nat
  n_pages :: nat
  views :: "seq_view list"

definition mask_locate :: "nat \<Rightarrow> nat \<times> u64" where
  "mask_locate cell =
    ((cell div VBR_GENERATION_PAGE_CELLS) * MASK_WORDS_PER_PAGE + (cell mod VBR_GENERATION_PAGE_CELLS) div 64,
     push_bit (cell mod 64) 1)"

definition new_ownership_index :: "nat \<Rightarrow> nat \<Rightarrow> nat \<Rightarrow> nat \<Rightarrow> ownership_index" where
  "new_ownership_index streams seqs cells positions =
    \<lparr> n_stream = streams, n_seq_max = seqs, n_cells = cells,
      n_positions = (if positions \<noteq> 0 then positions else cells),
      n_pages = (cells + VBR_GENERATION_PAGE_CELLS - 1) div VBR_GENERATION_PAGE_CELLS,
      views = replicate (streams * seqs) seq_view_default \<rparr>"

definition clone :: "ownership_index \<Rightarrow> ownership_index" where
  "clone x = (new_ownership_index (n_stream x) (n_seq_max x) (n_cells x) (n_positions x))\<lparr> views := views x \<rparr>"

definition find_view :: "nat \<Rightarrow> int \<Rightarrow> ownership_index \<Rightarrow> nat option" where
  "find_view stream seq_id x =
    (if stream \<ge> n_stream x \<or> seq_id < 0 \<or> nat seq_id \<ge> n_seq_max x then None
     else let slot = stream * n_seq_max x + nat seq_id
          in if in_use (views x ! slot) then Some slot else None)"

text \<open>
  \<open>obtain_view\<close> with the outcome of its two allocations: the slot with whether it is usable; \<open>None\<close>
  is the \<open>out_of_range\<close> of \<open>views_.at\<close>. A vector whose allocation throws keeps its contents.
\<close>

definition obtain_view :: "bool \<Rightarrow> bool \<Rightarrow> nat \<Rightarrow> int \<Rightarrow> ownership_index \<Rightarrow> (bool \<times> nat \<times> ownership_index) option" where
  "obtain_view masks_fit fenwick_fits stream seq_id x =
    (let slot = stream * n_seq_max x + nat (seq_id mod 2 ^ 32); v = views x ! slot in
     if slot \<ge> length (views x) then None
     else if in_use v then Some (True, slot, x)
     else let v1 = v\<lparr> in_use := True, unavailable := False, owned := 0 \<rparr>;
              v2 = v1\<lparr> page_masks := replicate (n_pages x * MASK_WORDS_PER_PAGE) 0 \<rparr>;
              v3 = v2\<lparr> fenwick_tree := replicate (n_positions x + 1) 0 \<rparr>
          in Some (masks_fit \<and> fenwick_fits, slot,
               x\<lparr> views := (views x)[slot := if \<not> masks_fit then v1 else if \<not> fenwick_fits then v2 else v3] \<rparr>))"

definition set_view :: "nat \<Rightarrow> seq_view \<Rightarrow> ownership_index \<Rightarrow> ownership_index" where
  "set_view slot v x = x\<lparr> views := (views x)[slot := v] \<rparr>"

definition view_add :: "nat \<Rightarrow> nat \<Rightarrow> int \<Rightarrow> seq_view \<Rightarrow> (bool \<times> seq_view) option" where
  "view_add positions cell pos v =
    (if pos < 0 \<or> nat pos \<ge> positions then Some (False, v\<lparr> unavailable := True \<rparr>)
     else let (word, b) = mask_locate cell in
       if word \<ge> length (page_masks v) then None
       else if page_masks v ! word AND b \<noteq> 0 then Some (True, v)
       else do {
         f \<leftarrow> fenwick_update (fenwick_tree v) (of_nat (nat pos)) 1;
         Some (True, v\<lparr> page_masks := (page_masks v)[word := page_masks v ! word OR b],
                         fenwick_tree := f, owned := owned v + 1 \<rparr>) })"

definition add_cell :: "bool \<Rightarrow> bool \<Rightarrow> nat \<Rightarrow> int \<Rightarrow> nat \<Rightarrow> int \<Rightarrow> ownership_index \<Rightarrow> (bool \<times> ownership_index) option" where
  "add_cell masks_fit fenwick_fits stream seq_id cell pos x =
    (if stream \<ge> n_stream x \<or> cell \<ge> n_cells x then Some (False, x)
     else do {
       (ok, slot, x1) \<leftarrow> obtain_view masks_fit fenwick_fits stream seq_id x;
       if \<not> ok
       then Some (False, case find_view stream seq_id x1 of None \<Rightarrow> x1
              | Some k \<Rightarrow> set_view k ((views x1 ! k)\<lparr> unavailable := True \<rparr>) x1)
       else do {
         (r, v) \<leftarrow> view_add (n_positions x1) cell pos (views x1 ! slot);
         Some (r, set_view slot v x1) } })"

definition view_remove :: "nat \<Rightarrow> nat \<Rightarrow> int \<Rightarrow> seq_view \<Rightarrow> (bool \<times> seq_view) option" where
  "view_remove positions cell pos v =
    (let (word, b) = mask_locate cell in
     if word \<ge> length (page_masks v) then None
     else if page_masks v ! word AND b = 0 then Some (True, v)
     else let v1 = v\<lparr> page_masks := (page_masks v)[word := page_masks v ! word AND NOT b] \<rparr> in do {
       v2 \<leftarrow> (if 0 \<le> pos \<and> nat pos < positions
              then map_option (\<lambda>f. v1\<lparr> fenwick_tree := f \<rparr>) (fenwick_update (fenwick_tree v1) (of_nat (nat pos)) (-1))
              else Some (v1\<lparr> unavailable := True \<rparr>));
       Some (True, if owned v2 > 0 then v2\<lparr> owned := owned v2 - 1 \<rparr> else v2) })"

definition remove_cell :: "nat \<Rightarrow> int \<Rightarrow> nat \<Rightarrow> int \<Rightarrow> ownership_index \<Rightarrow> (bool \<times> ownership_index) option" where
  "remove_cell stream seq_id cell pos x =
    (case find_view stream seq_id x of
       None \<Rightarrow> Some (False, x)
     | Some slot \<Rightarrow> if cell \<ge> n_cells x then Some (True, x)
         else do {
           (r, v) \<leftarrow> view_remove (n_positions x) cell pos (views x ! slot);
           Some (r, set_view slot v x) })"

definition view_move :: "nat \<Rightarrow> nat \<Rightarrow> int \<Rightarrow> int \<Rightarrow> seq_view \<Rightarrow> (bool \<times> seq_view) option" where
  "view_move positions cell old_pos new_pos v =
    (let (word, b) = mask_locate cell in
     if word \<ge> length (page_masks v) then None
     else if page_masks v ! word AND b = 0 then Some (True, v)
     else do {
       f1 \<leftarrow> (if 0 \<le> old_pos \<and> nat old_pos < positions
              then fenwick_update (fenwick_tree v) (of_nat (nat old_pos)) (-1) else Some (fenwick_tree v));
       if 0 \<le> new_pos \<and> nat new_pos < positions
       then do {
         f2 \<leftarrow> fenwick_update f1 (of_nat (nat new_pos)) 1;
         Some (True, v\<lparr> fenwick_tree := f2 \<rparr>) }
       else Some (False, v\<lparr> fenwick_tree := f1, unavailable := True \<rparr>) })"

definition move_cell :: "nat \<Rightarrow> int \<Rightarrow> nat \<Rightarrow> int \<Rightarrow> int \<Rightarrow> ownership_index \<Rightarrow> (bool \<times> ownership_index) option" where
  "move_cell stream seq_id cell old_pos new_pos x =
    (case find_view stream seq_id x of
       None \<Rightarrow> Some (False, x)
     | Some slot \<Rightarrow> if cell \<ge> n_cells x then Some (True, x)
         else do {
           (r, v) \<leftarrow> view_move (n_positions x) cell old_pos new_pos (views x ! slot);
           Some (r, set_view slot v x) })"

definition cleared :: "seq_view \<Rightarrow> seq_view" where
  "cleared v = v\<lparr> in_use := False, unavailable := False, owned := 0 \<rparr>"

definition clear_seq :: "nat \<Rightarrow> int \<Rightarrow> ownership_index \<Rightarrow> ownership_index" where
  "clear_seq stream seq_id x =
    (case find_view stream seq_id x of None \<Rightarrow> x | Some slot \<Rightarrow> set_view slot (cleared (views x ! slot)) x)"

definition clear_all :: "ownership_index \<Rightarrow> ownership_index" where
  "clear_all x = x\<lparr> views := map cleared (views x) \<rparr>"

definition available :: "nat \<Rightarrow> int \<Rightarrow> ownership_index \<Rightarrow> bool" where
  "available stream seq_id x =
    (case find_view stream seq_id x of None \<Rightarrow> False | Some slot \<Rightarrow> \<not> unavailable (views x ! slot))"

definition initialized :: "nat \<Rightarrow> int \<Rightarrow> ownership_index \<Rightarrow> bool" where
  "initialized stream seq_id x \<longleftrightarrow> find_view stream seq_id x \<noteq> None"

text \<open>The outer \<open>None\<close> is a fault, the inner one the result \<open>false\<close>.\<close>

definition rank_below :: "nat \<Rightarrow> int \<Rightarrow> int \<Rightarrow> ownership_index \<Rightarrow> u32 option option" where
  "rank_below stream seq_id frontier x =
    (case find_view stream seq_id x of
       None \<Rightarrow> Some None
     | Some slot \<Rightarrow> let v = views x ! slot in
         if unavailable v \<or> frontier < 0 then Some None
         else map_option Some (fenwick_prefix (fenwick_tree v) (of_nat (min (nat frontier) (n_positions x)))))"

function word_bits :: "u64 \<Rightarrow> nat list" where
  "word_bits word = (if word \<noteq> 0 then unat (llama_countr_zero_u64 word) # word_bits (word AND (word - 1)) else [])"
  by pat_completeness auto
termination
  by (relation "measure (\<lambda>m. card (set_bits_of m))") (simp_all add: card_clear_lowest)

definition enumerate_owned :: "nat \<Rightarrow> int \<Rightarrow> ownership_index \<Rightarrow> nat list option option" where
  "enumerate_owned stream seq_id x =
    (case find_view stream seq_id x of
       None \<Rightarrow> Some None
     | Some slot \<Rightarrow> let v = views x ! slot in
         if unavailable v then Some None
         else if n_pages x * MASK_WORDS_PER_PAGE > length (page_masks v) then None
         else Some (Some (concat (map (\<lambda>page. concat (map (\<lambda>w.
                map (\<lambda>b. page * VBR_GENERATION_PAGE_CELLS + w * 64 + b)
                  (word_bits (page_masks v ! (page * MASK_WORDS_PER_PAGE + w))))
                [0..<MASK_WORDS_PER_PAGE])) [0..<n_pages x]))))"

declare word_bits.simps [simp del]


section \<open>Views as maps from cells to positions\<close>

lemma mask_locate_eq: "mask_locate cell = (cell div 64, push_bit (cell mod 64) 1)"
proof -
  have "cell div 256 = cell div 64 div 4" by (simp add: div_mult2_eq [symmetric])
  moreover have "cell mod 256 div 64 = cell div 64 mod 4"
    using mod_mult2_eq [of cell 64 4] by simp
  ultimately have "cell div 256 * 4 + cell mod 256 div 64 = cell div 64" by simp
  then show ?thesis by (simp add: mask_locate_def VBR_GENERATION_PAGE_CELLS_def MASK_WORDS_PER_PAGE_def)
qed

definition view_ok :: "nat \<Rightarrow> nat \<Rightarrow> seq_view \<Rightarrow> bool" where
  "view_ok pages n v \<longleftrightarrow> in_use v \<and> length (page_masks v) = pages * MASK_WORDS_PER_PAGE \<and>
     fenwick_domain (fenwick_tree v) n"

definition view_rep :: "nat \<Rightarrow> seq_view \<Rightarrow> (nat \<Rightarrow> nat option) \<Rightarrow> bool" where
  "view_rep n v m \<longleftrightarrow> \<not> unavailable v \<and> words_elems (page_masks v) = dom m \<and> ran m \<subseteq> {..<n} \<and>
     counts (fenwick_tree v) (fw.positions m) \<and> owned v = card (dom m)"

lemma view_rep_finite: "view_rep n v m \<Longrightarrow> finite (dom m)"
  by (metis finite_words_elems view_rep_def)

lemma mask_member: "w div 64 < length ws \<Longrightarrow> (ws ! (w div 64) AND push_bit (w mod 64) 1 \<noteq> 0) \<longleftrightarrow> w \<in> words_elems ws"
  by (simp add: and_bit_zero_iff words_elems_def)

lemma fenwick_domain_update:
  assumes "fenwick_domain t n" and "p < n"
  obtains t' where "fenwick_update t (of_nat p) d = Some t'" "fenwick_domain t' n"
  using fenwick_update_total [of t p d] assms by (auto simp: fenwick_domain_def)

lemma page_word: "c < pages * 256 \<Longrightarrow> c div 64 < pages * MASK_WORDS_PER_PAGE"
  by (simp add: MASK_WORDS_PER_PAGE_def)

text \<open>On a view whose vectors have their sizes no operation faults, and the sizes stay.\<close>

lemma view_add_ok:
  assumes "view_ok pages n v" and "c < pages * 256"
  shows "\<exists>r v'. view_add n c pos v = Some (r, v') \<and> view_ok pages n v' \<and>
    (unavailable v \<or> pos < 0 \<or> n \<le> nat pos \<longrightarrow> unavailable v') \<and> (r \<longleftrightarrow> 0 \<le> pos \<and> nat pos < n)"
proof (cases "0 \<le> pos \<and> nat pos < n")
  case True
  then obtain p where p: "pos = int p" "p < n" using zero_le_imp_eq_int [of pos] by auto
  obtain f where "fenwick_update (fenwick_tree v) (of_nat p) 1 = Some f" "fenwick_domain f n"
    using assms(1) p by (auto simp: view_ok_def elim: fenwick_domain_update)
  with p assms page_word [OF assms(2)] show ?thesis
    by (auto simp: view_add_def mask_locate_eq view_ok_def Let_def)
qed (use assms in \<open>auto simp: view_add_def view_ok_def\<close>)

lemma view_add_rep:
  assumes "view_ok pages n v" and "view_rep n v m" and "c < pages * 256" and "p < n"
  shows "\<exists>v'. view_add n c (int p) v = Some (True, v') \<and> view_ok pages n v' \<and>
    view_rep n v' (if c \<in> dom m then m else m(c \<mapsto> p))"
proof -
  have c: "c div 64 < length (page_masks v)" using assms(1,3) page_word by (simp add: view_ok_def)
  have elems: "words_elems (page_masks v) = dom m" using assms(2) by (simp add: view_rep_def)
  show ?thesis
  proof (cases "c \<in> dom m")
    case True
    then have "page_masks v ! (c div 64) AND push_bit (c mod 64) 1 \<noteq> 0"
      using mask_member [OF c] elems by simp
    with assms True c show ?thesis by (simp add: view_add_def mask_locate_eq)
  next
    case False
    then have bit: "page_masks v ! (c div 64) AND push_bit (c mod 64) 1 = 0"
      using mask_member [OF c] elems by simp
    obtain f where f: "fenwick_update (fenwick_tree v) (of_nat p) 1 = Some f" "fenwick_domain f n"
        "counts f (fw.positions (m(c \<mapsto> p)))"
      using fw.insert_cell [of "fenwick_tree v" m n p c] assms(1,2,4) False view_rep_finite [OF assms(2)]
      by (auto simp: view_ok_def view_rep_def)
    have "ran (m(c \<mapsto> p)) \<subseteq> {..<n}" using assms(2,4) False by (auto simp: view_rep_def)
    then show ?thesis
      using f bit c False assms view_rep_finite [OF assms(2)]
      by (simp add: view_add_def mask_locate_eq view_ok_def view_rep_def words_elems_set_bit)
  qed
qed


lemma view_remove_ok:
  assumes "view_ok pages n v" and "c < pages * 256"
  shows "\<exists>v'. view_remove n c pos v = Some (True, v') \<and> view_ok pages n v' \<and>
    (unavailable v \<longrightarrow> unavailable v')"
proof (cases "0 \<le> pos \<and> nat pos < n")
  case True
  then obtain p where p: "pos = int p" "p < n" using zero_le_imp_eq_int [of pos] by auto
  obtain f where "fenwick_update (fenwick_tree v) (of_nat p) (-1) = Some f" "fenwick_domain f n"
    using assms(1) p by (auto simp: view_ok_def elim: fenwick_domain_update)
  with p assms page_word [OF assms(2)] show ?thesis
    by (auto simp: view_remove_def mask_locate_eq view_ok_def Let_def)
qed (use assms page_word [OF assms(2)] in \<open>auto simp: view_remove_def mask_locate_eq view_ok_def Let_def\<close>)

lemma view_remove_rep:
  assumes "view_ok pages n v" and "view_rep n v m" and "c < pages * 256" and "c \<in> dom m \<longrightarrow> m c = Some p"
  shows "\<exists>v'. view_remove n c (int p) v = Some (True, v') \<and> view_ok pages n v' \<and> view_rep n v' (m(c := None))"
proof -
  have c: "c div 64 < length (page_masks v)" using assms(1,3) page_word by (simp add: view_ok_def)
  have elems: "words_elems (page_masks v) = dom m" using assms(2) by (simp add: view_rep_def)
  show ?thesis
  proof (cases "c \<in> dom m")
    case False
    then have "page_masks v ! (c div 64) AND push_bit (c mod 64) 1 = 0" "m(c := None) = m"
      using mask_member [OF c] elems by auto
    with assms c show ?thesis by (simp add: view_remove_def mask_locate_eq)
  next
    case True
    then have mc: "m c = Some p" and bit: "page_masks v ! (c div 64) AND push_bit (c mod 64) 1 \<noteq> 0"
      using mask_member [OF c] elems assms(4) by auto
    have pn: "p < n" using mc assms(2) by (auto simp: view_rep_def ran_def)
    obtain f where f: "fenwick_update (fenwick_tree v) (of_nat p) (-1) = Some f" "fenwick_domain f n"
        "counts f (fw.positions (m(c := None)))"
      using fw.delete_cell [of "fenwick_tree v" m n p c] assms(1,2) pn mc view_rep_finite [OF assms(2)]
      by (auto simp: view_ok_def view_rep_def)
    have "ran (m(c := None)) \<subseteq> {..<n}" using assms(2) by (auto simp: view_rep_def ran_def)
    moreover have "0 < card (dom m)" using True view_rep_finite [OF assms(2)] by (auto simp: card_gt_0_iff)
    ultimately show ?thesis
      using f bit c True pn assms view_rep_finite [OF assms(2)]
      by (simp add: view_remove_def mask_locate_eq view_ok_def view_rep_def words_elems_clear_bit Let_def)
  qed
qed

lemma view_move_ok:
  assumes "view_ok pages n v" and "c < pages * 256"
  shows "\<exists>r v'. view_move n c old_pos new_pos v = Some (r, v') \<and> view_ok pages n v' \<and>
    (unavailable v \<longrightarrow> unavailable v')"
proof -
  have c: "c div 64 < length (page_masks v)" using assms page_word by (simp add: view_ok_def)
  have upd: "\<exists>f'. (if 0 \<le> q \<and> nat q < n then fenwick_update f (of_nat (nat q)) d else Some f) = Some f' \<and>
      fenwick_domain f' n" if "fenwick_domain f n" for f q d
    using that fenwick_domain_update [of f n "nat q" d] by fastforce
  obtain f1 where f1: "(if 0 \<le> old_pos \<and> nat old_pos < n
        then fenwick_update (fenwick_tree v) (of_nat (nat old_pos)) (-1) else Some (fenwick_tree v)) = Some f1"
      "fenwick_domain f1 n"
    using upd assms(1) unfolding view_ok_def by blast
  obtain f2 where f2: "(if 0 \<le> new_pos \<and> nat new_pos < n
        then fenwick_update f1 (of_nat (nat new_pos)) 1 else Some f1) = Some f2" "fenwick_domain f2 n"
    using upd f1(2) by blast
  have "view_move n c old_pos new_pos v =
      (if page_masks v ! (c div 64) AND push_bit (c mod 64) 1 = 0 then Some (True, v)
       else if 0 \<le> new_pos \<and> nat new_pos < n then Some (True, v\<lparr> fenwick_tree := f2 \<rparr>)
       else Some (False, v\<lparr> fenwick_tree := f1, unavailable := True \<rparr>))"
    unfolding view_move_def mask_locate_eq Let_def prod.case f1(1) using c f2(1) by (auto split: if_splits)
  then show ?thesis using assms(1) f1(2) f2(2) by (auto simp: view_ok_def)
qed

lemma view_move_rep:
  assumes "view_ok pages n v" and "view_rep n v m" and "c < pages * 256" and "m c = Some p"
  shows "\<exists>v'. view_move n c (int p) q v = Some (0 \<le> q \<and> nat q < n, v') \<and> view_ok pages n v' \<and>
    (if 0 \<le> q \<and> nat q < n then view_rep n v' (m(c \<mapsto> nat q)) else unavailable v')"
proof -
  have c: "c div 64 < length (page_masks v)" using assms(1,3) page_word by (simp add: view_ok_def)
  have elems: "words_elems (page_masks v) = dom m" using assms(2) by (simp add: view_rep_def)
  have bit: "page_masks v ! (c div 64) AND push_bit (c mod 64) 1 \<noteq> 0"
    using mask_member [OF c] elems assms(4) by auto
  have pn: "p < n" using assms(2,4) by (auto simp: view_rep_def ran_def)
  have fin: "finite (dom m)" by (rule view_rep_finite [OF assms(2)])
  obtain f where f: "fenwick_update (fenwick_tree v) (of_nat p) (-1) = Some f" "fenwick_domain f n"
      "counts f (fw.positions (m(c := None)))"
    using fw.delete_cell [of "fenwick_tree v" m n p c] assms(1,2,4) pn fin
    by (auto simp: view_ok_def view_rep_def)
  show ?thesis
  proof (cases "0 \<le> q \<and> nat q < n")
    case False
    with assms(1) c bit pn f show ?thesis
      by (auto simp: view_move_def mask_locate_eq view_ok_def)
  next
    case True
    then obtain r where r: "q = int r" "r < n" using zero_le_imp_eq_int [of q] by auto
    obtain g where g: "fenwick_update f (of_nat r) 1 = Some g" "fenwick_domain g n"
        "counts g (fw.positions (m(c \<mapsto> r)))"
      using fw.insert_cell [of f "m(c := None)" n r c] f(2,3) r(2) fin by auto
    have "ran (m(c \<mapsto> r)) \<subseteq> {..<n}" using assms(2) r(2) by (auto simp: view_rep_def ran_def)
    moreover have "insert c (dom m) = dom m" using assms(4) by auto
    ultimately show ?thesis
      using assms c bit pn f g r
      by (simp add: view_move_def mask_locate_eq view_ok_def view_rep_def)
  qed
qed


section \<open>The abstract index\<close>

text \<open>
  Per (stream, sequence): the map from the owned cells to their positions, or \<open>None\<close> when the view
  left the position domain. The caller passes a cell's recorded position, as the header requires.
\<close>

type_synonym owners = "nat \<Rightarrow> int \<Rightarrow> (nat \<Rightarrow> nat option) option"

datatype own_op =
    Add_Cell nat int nat int
  | Remove_Cell nat int nat int
  | Move_Cell nat int nat int int
  | Clear_Seq nat int
  | Clear_All

fun own_exec :: "own_op \<Rightarrow> ownership_index \<Rightarrow> ownership_index option" where
  "own_exec (Add_Cell st sq c p) x = map_option snd (add_cell True True st sq c p x)"
| "own_exec (Remove_Cell st sq c p) x = map_option snd (remove_cell st sq c p x)"
| "own_exec (Move_Cell st sq c p q) x = map_option snd (move_cell st sq c p q x)"
| "own_exec (Clear_Seq st sq) x = Some (clear_seq st sq x)"
| "own_exec Clear_All x = Some (clear_all x)"

definition set_owners :: "nat \<Rightarrow> int \<Rightarrow> (nat \<Rightarrow> nat option) option \<Rightarrow> owners \<Rightarrow> owners" where
  "set_owners st sq m M = M(st := (M st)(sq := m))"

fun own_spec :: "nat \<Rightarrow> own_op \<Rightarrow> owners \<Rightarrow> owners" where
  "own_spec n (Add_Cell st sq c p) M = set_owners st sq (case M st sq of None \<Rightarrow> None
     | Some m \<Rightarrow> if p < 0 \<or> n \<le> nat p then None
         else Some (if c \<in> dom m then m else m(c \<mapsto> nat p))) M"
| "own_spec n (Remove_Cell st sq c p) M = set_owners st sq (map_option (\<lambda>m. m(c := None)) (M st sq)) M"
| "own_spec n (Move_Cell st sq c p q) M = set_owners st sq (case M st sq of None \<Rightarrow> None
     | Some m \<Rightarrow> if c \<notin> dom m then Some m
         else if q < 0 \<or> n \<le> nat q then None else Some (m(c \<mapsto> nat q))) M"
| "own_spec n (Clear_Seq st sq) M = set_owners st sq (Some Map.empty) M"
| "own_spec n Clear_All M = (\<lambda>_ _. Some Map.empty)"

fun own_ok :: "ownership_index \<Rightarrow> owners \<Rightarrow> own_op \<Rightarrow> bool" where
  "own_ok x M (Add_Cell st sq c p) \<longleftrightarrow>
     st < n_stream x \<and> 0 \<le> sq \<and> nat sq < n_seq_max x \<and> c < n_cells x"
| "own_ok x M (Remove_Cell st sq c p) \<longleftrightarrow>
     st < n_stream x \<and> 0 \<le> sq \<and> nat sq < n_seq_max x \<and> c < n_cells x \<and>
     (\<forall>m. M st sq = Some m \<and> c \<in> dom m \<longrightarrow> 0 \<le> p \<and> m c = Some (nat p))"
| "own_ok x M (Move_Cell st sq c p q) \<longleftrightarrow>
     st < n_stream x \<and> 0 \<le> sq \<and> nat sq < n_seq_max x \<and> c < n_cells x \<and>
     (\<forall>m. M st sq = Some m \<and> c \<in> dom m \<longrightarrow> 0 \<le> p \<and> m c = Some (nat p))"
| "own_ok x M (Clear_Seq st sq) \<longleftrightarrow> st < n_stream x \<and> 0 \<le> sq \<and> nat sq < n_seq_max x"
| "own_ok x M Clear_All \<longleftrightarrow> True"

definition slot_rep :: "nat \<Rightarrow> nat \<Rightarrow> seq_view \<Rightarrow> (nat \<Rightarrow> nat option) option \<Rightarrow> bool" where
  "slot_rep pages n v M = (if in_use v
     then view_ok pages n v \<and> (case M of None \<Rightarrow> unavailable v | Some m \<Rightarrow> view_rep n v m)
     else M = Some Map.empty)"

definition index_rep :: "ownership_index \<Rightarrow> owners \<Rightarrow> bool" where
  "index_rep x M \<longleftrightarrow>
     length (views x) = n_stream x * n_seq_max x \<and> n_cells x \<le> n_pages x * VBR_GENERATION_PAGE_CELLS \<and>
     n_positions x + 1 \<le> 2 ^ 31 \<and> n_seq_max x \<le> 2 ^ 32 \<and>
     (\<forall>st < n_stream x. \<forall>sq < n_seq_max x.
        slot_rep (n_pages x) (n_positions x) (views x ! (st * n_seq_max x + sq)) (M st (int sq)))"

lemma slot_less: "st < a \<Longrightarrow> sq < b \<Longrightarrow> st * b + sq < a * (b :: nat)"
proof -
  assume "st < a" "sq < b"
  then have "st * b + sq < Suc st * b" by simp
  also have "\<dots> \<le> a * b" using \<open>st < a\<close> by (intro mult_le_mono1) simp
  finally show ?thesis .
qed

lemma slot_inj:
  assumes "st * b + sq = st' * b + sq'" and "sq < b" and "sq' < (b :: nat)"
  shows "st = st' \<and> sq = sq'"
proof -
  have "(st * b + sq) div b = st" "(st' * b + sq') div b = st'" using assms(2,3) by simp_all
  with assms(1) show ?thesis by simp
qed

lemma index_rep_set_view:
  assumes "index_rep x M" and "st < n_stream x" and "sq < n_seq_max x"
    and "slot_rep (n_pages x) (n_positions x) v m"
  shows "index_rep (set_view (st * n_seq_max x + sq) v x) (set_owners st (int sq) m M)"
  using assms slot_less [of st "n_stream x" sq "n_seq_max x"]
  by (auto simp: index_rep_def set_view_def set_owners_def nth_list_update_if dest: slot_inj)

lemma find_view_eq:
  assumes "st < n_stream x" and "sq < n_seq_max x"
  shows "find_view st (int sq) x = (if in_use (views x ! (st * n_seq_max x + sq)) then Some (st * n_seq_max x + sq) else None)"
  using assms by (simp add: find_view_def Let_def)

lemma slot_repD: "index_rep x M \<Longrightarrow> st < n_stream x \<Longrightarrow> sq < n_seq_max x \<Longrightarrow>
    slot_rep (n_pages x) (n_positions x) (views x ! (st * n_seq_max x + sq)) (M st (int sq))"
  by (simp add: index_rep_def)

lemma index_repD:
  assumes "index_rep x M"
  shows "length (views x) = n_stream x * n_seq_max x" "n_cells x \<le> n_pages x * 256"
    "n_positions x + 1 \<le> 2 ^ 31" "n_seq_max x \<le> 2 ^ 32"
  using assms by (simp_all add: index_rep_def VBR_GENERATION_PAGE_CELLS_def)

lemma set_owners_id: "M st sq = m \<Longrightarrow> set_owners st sq m M = M"
  by (auto simp: set_owners_def)


section \<open>The operations refine the abstract ones\<close>

lemma words_elems_zeros: "words_elems (replicate k 0) = {}" by simp

lemma fresh_view:
  assumes "n + 1 \<le> 2 ^ 31"
  shows "slot_rep pages n (v\<lparr> in_use := True, unavailable := False, owned := 0,
    page_masks := replicate (pages * MASK_WORDS_PER_PAGE) 0, fenwick_tree := replicate (n + 1) 0 \<rparr>) (Some Map.empty)"
proof -
  have "fw.positions (\<lambda>_. None) = (\<lambda>_. 0)" by (simp add: fw.positions_def fun_eq_iff)
  with assms counts_empty [of "n + 1"] show ?thesis
    by (simp add: slot_rep_def view_ok_def view_rep_def fenwick_domain_def)
qed

lemma list_view_id: "set_view k (views x ! k) x = x"
  by (simp add: set_view_def)

lemma obtain_view_rep:
  assumes rep: "index_rep x M" and "st < n_stream x" "sq < n_seq_max x"
  shows "\<exists>v. obtain_view True True st (int sq) x =
      Some (True, st * n_seq_max x + sq, set_view (st * n_seq_max x + sq) v x) \<and>
    in_use v \<and> slot_rep (n_pages x) (n_positions x) v (M st (int sq))"
proof -
  let ?k = "st * n_seq_max x + sq"
  have k: "?k < length (views x)"
    using assms index_repD [OF rep] slot_less by simp
  have "int sq < 2 ^ 32" using assms(3) index_repD(4) [OF rep] by simp
  then have idx: "nat (int sq mod 2 ^ 32) = sq" by (simp add: mod_pos_pos_trivial)
  note rep_k = slot_repD [OF assms]
  show ?thesis
  proof (cases "in_use (views x ! ?k)")
    case True
    with rep_k k idx show ?thesis
      by (intro exI [of _ "views x ! ?k"]) (simp add: obtain_view_def Let_def list_view_id)
  next
    case False
    then have "M st (int sq) = Some Map.empty" using rep_k by (simp add: slot_rep_def)
    with False k idx fresh_view [OF index_repD(3) [OF rep], of "n_pages x" "views x ! ?k"] show ?thesis
      by (auto simp: obtain_view_def Let_def set_view_def)
  qed
qed

lemma set_view_simps [simp]:
  "n_stream (set_view k v x) = n_stream x" "n_seq_max (set_view k v x) = n_seq_max x"
  "n_cells (set_view k v x) = n_cells x" "n_positions (set_view k v x) = n_positions x"
  "n_pages (set_view k v x) = n_pages x" "length (views (set_view k v x)) = length (views x)"
  "set_view k w (set_view k v x) = set_view k w x"
  "k < length (views x) \<Longrightarrow> views (set_view k v x) ! k = v"
  by (simp_all add: set_view_def)

abbreviation same_dims :: "ownership_index \<Rightarrow> ownership_index \<Rightarrow> bool" where
  "same_dims x y \<equiv> n_stream y = n_stream x \<and> n_seq_max y = n_seq_max x \<and> n_cells y = n_cells x \<and>
     n_positions y = n_positions x \<and> n_pages y = n_pages x"

text \<open>Writing back a view that represents the new map of its sequence.\<close>

lemma put_view:
  assumes "index_rep x M" and "st < n_stream x" and "sq < n_seq_max x"
    and "in_use v" and "view_ok (n_pages x) (n_positions x) v"
    and "case m of None \<Rightarrow> unavailable v | Some m \<Rightarrow> view_rep (n_positions x) v m"
  shows "index_rep (set_view (st * n_seq_max x + sq) v x) (set_owners st (int sq) m M)"
  using assms by (intro index_rep_set_view) (auto simp: slot_rep_def)

lemma add_cell_rep:
  assumes rep: "index_rep x M" and "st < n_stream x" "sq < n_seq_max x" "c < n_cells x"
  shows "\<exists>x'. add_cell True True st (int sq) c p x = Some (0 \<le> p \<and> nat p < n_positions x, x') \<and> same_dims x x' \<and>
    index_rep x' (own_spec (n_positions x) (Add_Cell st (int sq) c p) M)"
proof -
  let ?k = "st * n_seq_max x + sq" and ?n = "n_positions x" and ?m = "M st (int sq)"
  have k: "?k < length (views x)" using assms index_repD [OF rep] slot_less by simp
  obtain v where v: "obtain_view True True st (int sq) x = Some (True, ?k, set_view ?k v x)"
      "in_use v" "slot_rep (n_pages x) ?n v ?m"
    using obtain_view_rep [OF assms(1-3)] by blast
  have ok: "view_ok (n_pages x) ?n v" using v by (simp add: slot_rep_def)
  have c: "c < n_pages x * 256" using assms(4) index_repD(2) [OF rep] by simp
  have run: "add_cell True True st (int sq) c p x =
      Option.bind (view_add ?n c p v) (\<lambda>(r, v'). Some (r, set_view ?k v' x))"
    using assms v(1) k by (simp add: add_cell_def)
  obtain r v' where v': "view_add ?n c p v = Some (r, v')" "view_ok (n_pages x) ?n v'"
      "unavailable v \<or> p < 0 \<or> ?n \<le> nat p \<longrightarrow> unavailable v'" "r \<longleftrightarrow> 0 \<le> p \<and> nat p < ?n"
    using view_add_ok [OF ok c] by blast
  have "case (case ?m of None \<Rightarrow> None | Some m \<Rightarrow> if p < 0 \<or> ?n \<le> nat p then None
      else Some (if c \<in> dom m then m else m(c \<mapsto> nat p))) of
      None \<Rightarrow> unavailable v' | Some m \<Rightarrow> view_rep ?n v' m"
  proof (cases ?m)
    case None
    then show ?thesis using v v'(3) by (simp add: slot_rep_def)
  next
    case (Some m)
    then have "view_rep ?n v m" using v by (simp add: slot_rep_def)
    then show ?thesis
      using view_add_rep [OF ok _ c, of m "nat p"] v'(1,3) Some by (auto split: if_splits)
  qed
  then have "index_rep (set_view ?k v' x) (own_spec ?n (Add_Cell st (int sq) c p) M)"
    unfolding own_spec.simps using assms v'(2) by (intro put_view) (simp_all add: view_ok_def)
  with v' show ?thesis by (simp add: run)
qed

text \<open>The common part of removal and move: nothing to do on a view not in use, else one view changes.\<close>

lemma step_view:
  assumes rep: "index_rep x M" and "st < n_stream x" "sq < n_seq_max x"
    and f: "\<And>v. view_ok (n_pages x) (n_positions x) v \<Longrightarrow>
      slot_rep (n_pages x) (n_positions x) v (M st (int sq)) \<Longrightarrow>
      \<exists>r v'. f v = Some (r, v') \<and> view_ok (n_pages x) (n_positions x) v' \<and>
        (case m of None \<Rightarrow> unavailable v' | Some m \<Rightarrow> view_rep (n_positions x) v' m)"
    and idle: "M st (int sq) = Some Map.empty \<Longrightarrow> m = Some Map.empty"
  shows "\<exists>x'. map_option snd (case find_view st (int sq) x of None \<Rightarrow> Some (False, x)
      | Some slot \<Rightarrow> Option.bind (f (views x ! slot)) (\<lambda>(r, v). Some (r, set_view slot v x))) = Some x' \<and>
    same_dims x x' \<and> index_rep x' (set_owners st (int sq) m M)"
proof -
  let ?k = "st * n_seq_max x + sq"
  note rep_k = slot_repD [OF assms(1-3)]
  show ?thesis
  proof (cases "in_use (views x ! ?k)")
    case False
    then have "M st (int sq) = Some Map.empty" using rep_k by (simp add: slot_rep_def)
    with False assms idle show ?thesis by (simp add: find_view_eq set_owners_id)
  next
    case True
    then have "view_ok (n_pages x) (n_positions x) (views x ! ?k)" using rep_k by (simp add: slot_rep_def)
    then obtain r v' where v': "f (views x ! ?k) = Some (r, v')" "view_ok (n_pages x) (n_positions x) v'"
        "case m of None \<Rightarrow> unavailable v' | Some m \<Rightarrow> view_rep (n_positions x) v' m"
      using f rep_k by blast
    then have "index_rep (set_view ?k v' x) (set_owners st (int sq) m M)"
      using assms by (intro put_view) (simp_all add: view_ok_def)
    with True assms v'(1) show ?thesis by (simp add: find_view_eq)
  qed
qed


lemma not_owned:
  assumes "view_ok pages n v" and "view_rep n v m" and "c < pages * 256" and "c \<notin> dom m"
  shows "view_remove n c p v = Some (True, v) \<and> view_move n c p q v = Some (True, v)"
proof -
  have "c div 64 < length (page_masks v)" using assms(1,3) page_word by (simp add: view_ok_def)
  with mask_member [OF this] assms(2,4) show ?thesis
    by (simp add: view_remove_def view_move_def mask_locate_eq view_rep_def)
qed

lemma view_remove_slot:
  assumes v: "view_ok pages n v" "slot_rep pages n v M" and c: "c < pages * 256"
    and pos: "\<And>m. M = Some m \<Longrightarrow> c \<in> dom m \<Longrightarrow> 0 \<le> p \<and> m c = Some (nat p)"
  shows "\<exists>r v'. view_remove n c p v = Some (r, v') \<and> view_ok pages n v' \<and>
    (case map_option (\<lambda>m. m(c := None)) M of None \<Rightarrow> unavailable v' | Some m \<Rightarrow> view_rep n v' m)"
proof (cases M)
  case None
  then have "unavailable v" using v by (simp add: slot_rep_def view_ok_def)
  with view_remove_ok [OF v(1) c, of p] None show ?thesis by auto
next
  case (Some m)
  then have m: "view_rep n v m" using v by (simp add: slot_rep_def view_ok_def)
  show ?thesis
  proof (cases "c \<in> dom m")
    case True
    then show ?thesis using view_remove_rep [OF v(1) m c, of "nat p"] pos [OF Some True] Some by auto
  next
    case False
    then have "m(c := None) = m" by auto
    with not_owned [OF v(1) m c False] v(1) m Some show ?thesis by auto
  qed
qed

definition moved :: "nat \<Rightarrow> nat \<Rightarrow> int \<Rightarrow> (nat \<Rightarrow> nat option) option \<Rightarrow> (nat \<Rightarrow> nat option) option" where
  "moved n c q M = (case M of None \<Rightarrow> None
     | Some m \<Rightarrow> if c \<notin> dom m then Some m
         else if q < 0 \<or> n \<le> nat q then None else Some (m(c \<mapsto> nat q)))"

lemma view_move_slot:
  assumes v: "view_ok pages n v" "slot_rep pages n v M" and c: "c < pages * 256"
    and pos: "\<And>m. M = Some m \<Longrightarrow> c \<in> dom m \<Longrightarrow> 0 \<le> p \<and> m c = Some (nat p)"
  shows "\<exists>r v'. view_move n c p q v = Some (r, v') \<and> view_ok pages n v' \<and>
    (case moved n c q M of None \<Rightarrow> unavailable v' | Some m \<Rightarrow> view_rep n v' m)"
proof (cases M)
  case None
  then have "unavailable v" using v by (simp add: slot_rep_def view_ok_def)
  with view_move_ok [OF v(1) c, of p q] None show ?thesis by (auto simp: moved_def)
next
  case (Some m)
  then have m: "view_rep n v m" using v by (simp add: slot_rep_def view_ok_def)
  show ?thesis
  proof (cases "c \<in> dom m")
    case True
    then have "0 \<le> p" "m c = Some (nat p)" using pos [OF Some] by auto
    then show ?thesis
      using view_move_rep [OF v(1) m c, of "nat p" q] Some True by (auto simp: moved_def split: if_splits)
  next
    case False
    with not_owned [OF v(1) m c False] v(1) m Some show ?thesis by (auto simp: moved_def)
  qed
qed

lemma clear_seq_rep:
  assumes "index_rep x M" and "st < n_stream x" "sq < n_seq_max x"
  shows "same_dims x (clear_seq st (int sq) x) \<and>
    index_rep (clear_seq st (int sq) x) (set_owners st (int sq) (Some Map.empty) M)"
proof (cases "in_use (views x ! (st * n_seq_max x + sq))")
  case True
  have "index_rep (set_view (st * n_seq_max x + sq) (cleared (views x ! (st * n_seq_max x + sq))) x)
      (set_owners st (int sq) (Some Map.empty) M)"
    using assms by (intro index_rep_set_view) (simp_all add: slot_rep_def cleared_def)
  with True assms show ?thesis by (simp add: clear_seq_def find_view_eq)
next
  case False
  then have "M st (int sq) = Some Map.empty" using slot_repD [OF assms] by (simp add: slot_rep_def)
  with False assms show ?thesis by (simp add: clear_seq_def find_view_eq set_owners_id)
qed

lemma clear_all_rep: "index_rep x M \<Longrightarrow> index_rep (clear_all x) (\<lambda>_ _. Some Map.empty)"
  using slot_less by (auto simp: index_rep_def clear_all_def slot_rep_def cleared_def)

lemma own_exec_rep:
  assumes rep: "index_rep x M" and ok: "own_ok x M op"
  shows "\<exists>x'. own_exec op x = Some x' \<and> same_dims x x' \<and> index_rep x' (own_spec (n_positions x) op M)"
proof (cases op)
  case (Add_Cell st sq c p)
  with ok obtain s where "sq = int s" "s < n_seq_max x" "st < n_stream x" "c < n_cells x"
    using zero_le_imp_eq_int [of sq] by auto
  then show ?thesis using add_cell_rep [OF rep, of st s c p] Add_Cell by auto
next
  case (Remove_Cell st sq c p)
  with ok obtain s where s: "sq = int s" "s < n_seq_max x" "st < n_stream x" "c < n_cells x"
    and pos: "\<And>m. M st (int s) = Some m \<Longrightarrow> c \<in> dom m \<Longrightarrow> 0 \<le> p \<and> m c = Some (nat p)"
    using zero_le_imp_eq_int [of sq] by auto
  have c: "c < n_pages x * 256" using s(4) index_repD(2) [OF rep] by simp
  from step_view [OF rep s(3,2) view_remove_slot [where M = "M st (int s)" and c = c and p = p, OF _ _ c]]
    pos s Remove_Cell show ?thesis
    by (simp add: remove_cell_def not_le cong: option.case_cong)
next
  case (Move_Cell st sq c p q)
  with ok obtain s where s: "sq = int s" "s < n_seq_max x" "st < n_stream x" "c < n_cells x"
    and pos: "\<And>m. M st (int s) = Some m \<Longrightarrow> c \<in> dom m \<Longrightarrow> 0 \<le> p \<and> m c = Some (nat p)"
    using zero_le_imp_eq_int [of sq] by auto
  have c: "c < n_pages x * 256" using s(4) index_repD(2) [OF rep] by simp
  from step_view [OF rep s(3,2) view_move_slot [where M = "M st (int s)" and c = c and p = p and q = q, OF _ _ c]]
    pos s Move_Cell show ?thesis
    by (simp add: move_cell_def moved_def not_le cong: option.case_cong)
next
  case (Clear_Seq st sq)
  with ok obtain s where "sq = int s" "s < n_seq_max x" "st < n_stream x"
    using zero_le_imp_eq_int [of sq] by auto
  then show ?thesis using clear_seq_rep [OF rep] Clear_Seq by auto
next
  case Clear_All
  then show ?thesis using clear_all_rep [OF rep] by (simp add: clear_all_def)
qed


section \<open>The queries\<close>

lemma word_bits_loop: "word_bits m = bits_loop m"
proof (induction m rule: word_bits.induct)
  case (1 m)
  show ?case
  proof (cases "m = 0")
    case False
    have "unat (of_nat (lowest_bit m) :: u32) = lowest_bit m"
      using lowest_bit_less [OF False] by (intro unat_of_nat_u32) simp
    with 1 False show ?thesis
      by (simp add: word_bits.simps [of m] bits_loop.simps [of m] countr_zero_correct)
  qed (simp add: word_bits.simps)
qed

lemma upt_blocks: "concat (map (\<lambda>a. map (\<lambda>b. a * 4 + b) [0..<4]) [0..<n]) = [0..<n * 4 :: nat]"
proof (induction n)
  case (Suc n)
  have "[0..<Suc n * 4] = [0..<n * 4] @ [n * 4..<n * 4 + 4]"
    by (metis add.commute mult_Suc upt_add_eq_append zero_le)
  moreover have "map (\<lambda>b. n * 4 + b) [0..<4] = [n * 4..<n * 4 + 4]"
    by (simp add: upt_rec)
  ultimately show ?case using Suc by simp
qed simp

lemma concat_map_nested:
  "concat (map (\<lambda>a. concat (map (\<lambda>b. g (h a b)) ys)) xs) = concat (map g (concat (map (\<lambda>a. map (\<lambda>b. h a b) ys) xs)))"
  by (induction xs) (simp_all add: comp_def)

lemma enumerate_words:
  assumes "length ws = pages * MASK_WORDS_PER_PAGE"
  shows "concat (map (\<lambda>page. concat (map (\<lambda>w.
      map (\<lambda>b. page * VBR_GENERATION_PAGE_CELLS + w * 64 + b) (word_bits (ws ! (page * MASK_WORDS_PER_PAGE + w))))
      [0..<MASK_WORDS_PER_PAGE])) [0..<pages]) = sorted_list_of_set (words_elems ws)"
proof -
  let ?g = "\<lambda>k. map (\<lambda>b. 64 * k + b) (bits_loop (ws ! k))"
  have "page * VBR_GENERATION_PAGE_CELLS + w * 64 + b = 64 * (page * 4 + w) + b" for page w b
    by (simp add: VBR_GENERATION_PAGE_CELLS_def)
  then have "concat (map (\<lambda>page. concat (map (\<lambda>w.
      map (\<lambda>b. page * VBR_GENERATION_PAGE_CELLS + w * 64 + b) (word_bits (ws ! (page * MASK_WORDS_PER_PAGE + w))))
      [0..<MASK_WORDS_PER_PAGE])) [0..<pages]) = concat (map (\<lambda>a. concat (map (\<lambda>b. ?g (a * 4 + b)) [0..<4])) [0..<pages])"
    by (simp only: word_bits_loop MASK_WORDS_PER_PAGE_def)
  also have "\<dots> = concat (map ?g (concat (map (\<lambda>a. map (\<lambda>b. a * 4 + b) [0..<4]) [0..<pages])))"
    by (rule concat_map_nested)
  also have "\<dots> = words_indices 0 ws"
    unfolding upt_blocks words_indices_def using assms by (simp add: MASK_WORDS_PER_PAGE_def)
  also have "\<dots> = sorted_list_of_set (words_elems ws)"
    using words_indices_sorted [of 0 ws] by (intro sorted_list_of_set_eq) auto
  finally show ?thesis .
qed

lemma queries_rep:
  assumes rep: "index_rep x M" and "st < n_stream x" "sq < n_seq_max x"
  shows "if available st (int sq) x
    then \<exists>m. M st (int sq) = Some m \<and>
      enumerate_owned st (int sq) x = Some (Some (sorted_list_of_set (dom m))) \<and>
      (\<forall>f. rank_below st (int sq) f x = Some (if f < 0 then None
         else Some (of_nat (card {c. \<exists>p. m c = Some p \<and> int p < f}))))
    else enumerate_owned st (int sq) x = Some None \<and> (\<forall>f. rank_below st (int sq) f x = Some None) \<and>
      (M st (int sq) = None \<or> M st (int sq) = Some Map.empty)"
proof -
  let ?v = "views x ! (st * n_seq_max x + sq)" and ?n = "n_positions x"
  note rep_k = slot_repD [OF assms]
  show ?thesis
  proof (cases "in_use ?v \<and> \<not> unavailable ?v")
    case False
    then show ?thesis
      using rep_k assms(2,3)
      by (auto simp: available_def find_view_eq enumerate_owned_def rank_below_def slot_rep_def view_rep_def split: option.splits)
  next
    case True
    then obtain m where m: "M st (int sq) = Some m" "view_rep ?n ?v m" "view_ok (n_pages x) ?n ?v"
      using rep_k by (auto simp: slot_rep_def split: option.splits)
    have "rank_below st (int sq) f x = Some (Some (of_nat (card {c. \<exists>p. m c = Some p \<and> int p < f})))"
      if "0 \<le> f" for f
    proof -
      have "fenwick_prefix (fenwick_tree ?v) (of_nat (min (nat f) ?n)) =
          Some (of_nat (card {c. \<exists>p. m c = Some p \<and> p < min (nat f) ?n}))"
        using m(2,3) view_rep_finite [OF m(2)]
        by (intro fw.rank_cells [where n = ?n]) (auto simp: view_rep_def view_ok_def)
      moreover have "{c. \<exists>p. m c = Some p \<and> p < min (nat f) ?n} = {c. \<exists>p. m c = Some p \<and> int p < f}"
        using m(2) that by (auto simp: view_rep_def ran_def)
      ultimately show ?thesis
        using True that assms(2,3) by (simp add: rank_below_def find_view_eq Let_def)
    qed
    moreover have "rank_below st (int sq) f x = Some None" if "f < 0" for f
      using True that assms(2,3) by (simp add: rank_below_def find_view_eq)
    moreover have "enumerate_owned st (int sq) x = Some (Some (sorted_list_of_set (dom m)))"
      using True assms(2,3) m enumerate_words [of "page_masks ?v" "n_pages x"]
      by (simp add: enumerate_owned_def find_view_eq Let_def view_ok_def view_rep_def)
    ultimately have q: "enumerate_owned st (int sq) x = Some (Some (sorted_list_of_set (dom m)))"
      "rank_below st (int sq) f x = Some (if f < 0 then None
         else Some (of_nat (card {c. \<exists>p. m c = Some p \<and> int p < f})))" for f
      by (cases "f < 0"; simp del: not_less)+
    have "available st (int sq) x"
      using True assms(2,3) by (simp add: available_def find_view_eq)
    then show ?thesis
      by (simp only: if_True) (intro exI [of _ m] conjI allI m(1) q)
  qed
qed

section \<open>Runs\<close>

fun owners_ok :: "ownership_index \<Rightarrow> own_op list \<Rightarrow> owners \<Rightarrow> bool" where
  "owners_ok x [] M \<longleftrightarrow> True"
| "owners_ok x (op # ops) M \<longleftrightarrow> own_ok x M op \<and> owners_ok x ops (own_spec (n_positions x) op M)"

lemma own_ok_dims: "same_dims x y \<Longrightarrow> own_ok y M op = own_ok x M op"
  by (cases op) auto

lemma owners_ok_dims:
  assumes "same_dims x y"
  shows "owners_ok y ops M = owners_ok x ops M"
proof (induction ops arbitrary: M)
  case (Cons op ops)
  have "n_positions y = n_positions x" using assms by simp
  then show ?case unfolding owners_ok.simps own_ok_dims [OF assms] Cons by (rule arg_cong)
qed simp

lemma own_run_rep:
  assumes "index_rep x M" and "owners_ok x ops M"
  shows "\<exists>x'. foldM own_exec ops x = Some x' \<and> same_dims x x' \<and>
    index_rep x' (fold (own_spec (n_positions x)) ops M)"
  using assms
proof (induction ops arbitrary: x M)
  case (Cons op ops)
  obtain y where y: "own_exec op x = Some y" "same_dims x y" "index_rep y (own_spec (n_positions x) op M)"
    using own_exec_rep [of x M op] Cons.prems by auto
  have "owners_ok y ops (own_spec (n_positions x) op M)"
    using Cons.prems(2) owners_ok_dims [OF y(2)] by simp
  from Cons.IH [OF y(3) this] y(1,2) show ?case by auto
qed simp

lemma new_index_rep:
  assumes "seqs \<le> 2 ^ 32" and "(if positions \<noteq> 0 then positions else cells) + 1 \<le> 2 ^ 31"
  shows "index_rep (new_ownership_index streams seqs cells positions) (\<lambda>_ _. Some Map.empty)"
proof -
  have "cells \<le> (cells + 255) div 256 * 256" by linarith
  then show ?thesis
    using assms slot_less
    by (simp add: index_rep_def new_ownership_index_def slot_rep_def seq_view_default_def VBR_GENERATION_PAGE_CELLS_def)
qed

end
