(* ===== verification/Ownership_Properties.thy ===== *)
theory Ownership_Properties
  imports Ownership_Index
begin

text \<open>
  The properties of the Fenwick tree and of the ownership index of
  \<^verbatim>\<open>src/src/llama-vbr-extent.cpp\<close>, and of the bit counts they use.
\<close>

text \<open>The trailing-zero count of \<^verbatim>\<open>llama-bit-ops.h\<close>, computed with a population count by
  parallel additions, is the index of the lowest set bit, and 64 for zero.\<close>

theorem llama_countr_zero_exact:
  "llama_countr_zero_u64 v = of_nat (if v = 0 then 64 else LEAST i. bit v i)"
proof (cases "v = 0")
  case False
  have "lowest_bit v = (LEAST i. bit v i)"
    using bit_lowest_bit [OF False] not_bit_below_lowest [of _ v]
    by (intro Least_equality [symmetric]) (auto simp: not_less [symmetric])
  with False show ?thesis by (simp add: countr_zero_correct)
qed (simp add: countr_zero_correct)

text \<open>C11: the Fenwick tree computes exact prefix sums. After any sequence of updates of a zeroed tree
  of up to \<open>2 ^ 31\<close> counters, none of which faults or loops, the prefix query below \<open>m\<close> is the sum
  of the deltas of the positions below \<open>m\<close>, in 32-bit arithmetic.\<close>

definition delta_sum :: "(nat \<times> int) list \<Rightarrow> nat \<Rightarrow> int" where
  "delta_sum us p = (\<Sum>(q, d) \<leftarrow> us. if q = p then d else 0)"

lemma delta_sum_snoc: "delta_sum (us @ [(q, d)]) = (delta_sum us)(q := delta_sum us q + d)"
  by (auto simp: delta_sum_def fun_eq_iff)

lemma fenwick_run:
  assumes "n + 1 \<le> 2 ^ 31" and "\<And>p d. (p, d) \<in> set us \<Longrightarrow> p < n"
  shows "\<exists>tree. foldM (\<lambda>(p, d) t. fenwick_update t (of_nat p) d) us (replicate (n + 1) 0) = Some tree \<and>
    fenwick_domain tree n \<and> counts tree (delta_sum us)"
  using assms(2)
proof (induction us rule: rev_induct)
  case Nil
  have "delta_sum [] = (\<lambda>_. 0)" by (simp add: delta_sum_def fun_eq_iff)
  then show ?case using assms(1) counts_empty [of "n + 1"] by (simp add: fenwick_domain_def)
next
  case (snoc u us)
  obtain p d where u: "u = (p, d)" by (cases u)
  obtain tree where tree: "foldM (\<lambda>(p, d) t. fenwick_update t (of_nat p) d) us (replicate (n + 1) 0) = Some tree"
      "fenwick_domain tree n" "counts tree (delta_sum us)"
    using snoc by auto
  have "p < n" using snoc.prems [of p d] u by simp
  from fw.update_freq [OF tree(3,2) this, of d] tree(1) show ?case
    by (auto simp: foldM_append u delta_sum_snoc fun_upd_def)
qed

theorem fenwick_prefix_sums:
  assumes "n + 1 \<le> 2 ^ 31" and "\<forall>(p, d) \<in> set us. p < n" and "m \<le> n"
  shows "\<exists>tree. foldM (\<lambda>(p, d) t. fenwick_update t (of_nat p) d) us (replicate (n + 1) 0) = Some tree \<and>
    fenwick_prefix tree (of_nat m) = Some (word_of_int (\<Sum>(p, d) \<leftarrow> us. if p < m then d else 0))"
proof -
  obtain tree where tree: "foldM (\<lambda>(p, d) t. fenwick_update t (of_nat p) d) us (replicate (n + 1) 0) = Some tree"
      "fenwick_domain tree n" "counts tree (delta_sum us)"
    using fenwick_run [of n us] assms(1,2) by auto
  have "(\<Sum>q < m. delta_sum us q) = (\<Sum>(p, d) \<leftarrow> us. if p < m then d else 0)"
  proof (induction us)
    case (Cons u us)
    have "(\<Sum>q < m. delta_sum (u # us) q) = (\<Sum>q < m. (if fst u = q then snd u else 0)) + (\<Sum>q < m. delta_sum us q)"
      by (simp add: delta_sum_def sum.distrib case_prod_beta)
    with Cons show ?case by (simp add: case_prod_beta)
  qed (simp add: delta_sum_def)
  with fw.prefix_freq [OF tree(3,2) assms(3)] tree(1) show ?thesis by auto
qed

theorem fenwick_prefix_sums_witness:
  "\<exists>tree. foldM (\<lambda>(p, d) t. fenwick_update t (of_nat p) d) [(2, 1), (0, 1), (2, 1), (2, -1)] (replicate 6 0) = Some tree \<and>
    fenwick_prefix tree (of_nat 3) = Some 2"
  using fenwick_prefix_sums [of 5 "[(2, 1), (0, 1), (2, 1), (2, -1)]" 3] by simp

text \<open>C12: the ownership index refines a map from cells to positions per (stream, sequence). From an
  empty index, any sequence of operations whose callers pass the recorded position of an owned cell
  runs without a fault; afterwards an available view enumerates exactly the owned cells, each once
  and in physical order, and ranks a frontier with the number of owned cells below it; a view that
  left the position domain, or was never populated, answers nothing.\<close>

theorem ownership_refines:
  assumes "seqs \<le> 2 ^ 32" and "(if positions \<noteq> 0 then positions else cells) + 1 \<le> 2 ^ 31"
    and "x = new_ownership_index streams seqs cells positions"
    and "owners_ok x ops (\<lambda>_ _. Some Map.empty)"
    and "st < streams" and "sq < seqs"
  shows "\<exists>x'. foldM own_exec ops x = Some x' \<and>
    (let owners = fold (own_spec (n_positions x)) ops (\<lambda>_ _. Some Map.empty) st (int sq) in
     if available st (int sq) x'
     then \<exists>m. owners = Some m \<and>
       enumerate_owned st (int sq) x' = Some (Some (sorted_list_of_set (dom m))) \<and>
       (\<forall>f. rank_below st (int sq) f x' = Some (if f < 0 then None
          else Some (of_nat (card {c. \<exists>p. m c = Some p \<and> int p < f}))))
     else enumerate_owned st (int sq) x' = Some None \<and> (\<forall>f. rank_below st (int sq) f x' = Some None) \<and>
       (owners = None \<or> owners = Some Map.empty))"
proof -
  have "index_rep x (\<lambda>_ _. Some Map.empty)"
    unfolding assms(3) using assms(1,2) by (rule new_index_rep)
  then obtain x' where x': "foldM own_exec ops x = Some x'" "same_dims x x'"
      "index_rep x' (fold (own_spec (n_positions x)) ops (\<lambda>_ _. Some Map.empty))"
    using own_run_rep assms(4) by blast
  moreover have "st < n_stream x'" "sq < n_seq_max x'"
    using x'(2) assms(3,5,6) by (simp_all add: new_ownership_index_def)
  ultimately show ?thesis unfolding Let_def using queries_rep [OF x'(3)] by blast
qed

definition example_ops :: "own_op list" where
  "example_ops = [Add_Cell 0 1 7 3, Add_Cell 0 1 2 5, Move_Cell 0 1 7 3 9, Add_Cell 0 1 9 0, Remove_Cell 0 1 9 0]"

lemma example_ops_available:
  "case foldM own_exec example_ops (new_ownership_index 1 2 10 0) of None \<Rightarrow> False | Some x \<Rightarrow> available 0 1 x"
  by code_simp

theorem ownership_refines_witness:
  "\<exists>x'. foldM own_exec example_ops (new_ownership_index 1 2 10 0) = Some x' \<and>
     enumerate_owned 0 1 x' = Some (Some [2, 7])"
proof -
  let ?x = "new_ownership_index 1 2 10 0"
  let ?o = "fold (own_spec (n_positions ?x)) example_ops (\<lambda>_ _. Some Map.empty) 0 1"
  have spec: "?o = Some (Map.empty(7 \<mapsto> 9, 2 \<mapsto> 5))"
    by (auto simp: example_ops_def new_ownership_index_def set_owners_def)
  have dom: "dom (Map.empty(7 \<mapsto> 9, 2 \<mapsto> (5 :: nat))) = {2, 7 :: nat}" by auto
  have ok: "owners_ok ?x example_ops (\<lambda>_ _. Some Map.empty)"
    by (simp add: example_ops_def new_ownership_index_def set_owners_def)
  obtain x' where x': "foldM own_exec example_ops ?x = Some x'"
      "available 0 1 x' \<Longrightarrow> \<exists>m. ?o = Some m \<and> enumerate_owned 0 1 x' = Some (Some (sorted_list_of_set (dom m)))"
    using ownership_refines [of 2 0 10 ?x 1 example_ops 0 1, OF _ _ refl ok] by (fastforce simp: Let_def)
  have "available 0 1 x'" using example_ops_available unfolding x'(1) option.case .
  with x'(2) spec have "enumerate_owned 0 1 x' = Some (Some (sorted_list_of_set {2, 7}))"
    using dom by auto
  with x'(1) show ?thesis by simp
qed


text \<open>What a failed allocation leaves. When the mask vector of a fresh view cannot be allocated,
  \<open>add_cell\<close> answers \<open>false\<close> and the view answers no query any more; but it stays in use without
  its masks, so that the next removal or addition of a cell accesses the mask vector out of its
  bounds.\<close>

theorem ownership_alloc_failure:
  assumes "seqs \<le> 2 ^ 32" and "st < streams" and "sq < seqs" and "c < cells"
    and "x = new_ownership_index streams seqs cells positions"
  shows "\<exists>x'. add_cell False fits st (int sq) c p x = Some (False, x') \<and>
    enumerate_owned st (int sq) x' = Some None \<and> rank_below st (int sq) f x' = Some None \<and>
    remove_cell st (int sq) c p x' = None \<and>
    (0 \<le> p \<and> nat p < n_positions x \<longrightarrow> add_cell True True st (int sq) c p x' = None)"
proof -
  let ?k = "st * seqs + sq"
  have k: "?k < streams * seqs" using assms(2,3) by (rule slot_less)
  have "int sq < 2 ^ 32" using assms(1,3) by simp
  then have idx: "nat (int sq mod 2 ^ 32) = sq" by (simp add: mod_pos_pos_trivial)
  let ?v = "seq_view_default\<lparr> in_use := True, unavailable := True \<rparr>"
  have "add_cell False fits st (int sq) c p x = Some (False, set_view ?k ?v x)"
    using assms k idx
    by (simp add: add_cell_def obtain_view_def new_ownership_index_def find_view_def Let_def set_view_def
        seq_view_default_def)
  moreover have "find_view st (int sq) (set_view ?k ?v x) = Some ?k" "views (set_view ?k ?v x) ! ?k = ?v"
    using assms k by (simp_all add: find_view_def new_ownership_index_def Let_def set_view_def)
  moreover have "page_masks ?v = []" by (simp add: seq_view_default_def)
  moreover have "obtain_view True True st (int sq) (set_view ?k ?v x) = Some (True, ?k, set_view ?k ?v x)"
    using assms k idx by (simp add: obtain_view_def new_ownership_index_def Let_def set_view_def)
  moreover have "n_cells x = cells" "n_stream x = streams" using assms(5) by (simp_all add: new_ownership_index_def)
  ultimately show ?thesis
    using assms(2,4) by (simp add: enumerate_owned_def rank_below_def remove_cell_def view_remove_def
        add_cell_def view_add_def mask_locate_eq Let_def not_le)
qed

theorem ownership_alloc_failure_witness:
  "\<exists>x'. add_cell False True 0 (int 1) 3 0 (new_ownership_index 1 2 10 0) = Some (False, x') \<and>
     remove_cell 0 (int 1) 3 0 x' = None"
  using ownership_alloc_failure [of 2 0 1 1 3 10 _ 0 True 0 0, OF _ _ _ _ refl] by fastforce

end
