(* ===== verification/Vbr_Operation.thy ===== *)
theory Vbr_Operation
  imports Prelude
begin

text \<open>
  The closed vocabulary of operations of \<^verbatim>\<open>src/src/llama-vbr-operation.h\<close>: the enums, each with its
  underlying value, the mutation inventory, the registrants a kind may authorize, the target
  tuple with its matching predicates, and the search for a target that covers a mutation.
\<close>

section \<open>Enums\<close>

datatype mutation_family =
    Fam_append | Fam_occupied_reuse | Fam_trim | Fam_seq_share | Fam_seq_keep | Fam_shift
    | Fam_import | Fam_restore | Fam_clear | Fam_reset | Fam_degrade | Fam_promote | Fam_shed
    | Fam_recovery | Fam_count

fun family_index :: "mutation_family \<Rightarrow> nat" where
  "family_index Fam_append = 0"
| "family_index Fam_occupied_reuse = 1"
| "family_index Fam_trim = 2"
| "family_index Fam_seq_share = 3"
| "family_index Fam_seq_keep = 4"
| "family_index Fam_shift = 5"
| "family_index Fam_import = 6"
| "family_index Fam_restore = 7"
| "family_index Fam_clear = 8"
| "family_index Fam_reset = 9"
| "family_index Fam_degrade = 10"
| "family_index Fam_promote = 11"
| "family_index Fam_shed = 12"
| "family_index Fam_recovery = 13"
| "family_index Fam_count = 14"

datatype operation_class =
    Cls_ordinary_decode | Cls_checkpoint_restore | Cls_restore_one_behind_trim | Cls_swa_wrap
    | Cls_explicit_destructive_trim | Cls_dependency_seq_remove | Cls_speculative_backup
    | Cls_prompt_share | Cls_sibling_owner_remove | Cls_host_import | Cls_state_api
    | Cls_controller | Cls_count

fun class_index :: "operation_class \<Rightarrow> nat" where
  "class_index Cls_ordinary_decode = 0"
| "class_index Cls_checkpoint_restore = 1"
| "class_index Cls_restore_one_behind_trim = 2"
| "class_index Cls_swa_wrap = 3"
| "class_index Cls_explicit_destructive_trim = 4"
| "class_index Cls_dependency_seq_remove = 5"
| "class_index Cls_speculative_backup = 6"
| "class_index Cls_prompt_share = 7"
| "class_index Cls_sibling_owner_remove = 8"
| "class_index Cls_host_import = 9"
| "class_index Cls_state_api = 10"
| "class_index Cls_controller = 11"
| "class_index Cls_count = 12"

datatype operation_kind =
    Kind_retier_freeze | Kind_decode | Kind_sequence_edit | Kind_checkpoint_restore
    | Kind_state_import | Kind_state_export | Kind_controller_retier | Kind_recovery
    | Kind_window_restore | Kind_count

fun kind_index :: "operation_kind \<Rightarrow> nat" where
  "kind_index Kind_retier_freeze = 0"
| "kind_index Kind_decode = 1"
| "kind_index Kind_sequence_edit = 2"
| "kind_index Kind_checkpoint_restore = 3"
| "kind_index Kind_state_import = 4"
| "kind_index Kind_state_export = 5"
| "kind_index Kind_controller_retier = 6"
| "kind_index Kind_recovery = 7"
| "kind_index Kind_window_restore = 8"
| "kind_index Kind_count = 9"

datatype operation_phase =
    Ph_root | Ph_prepare | Ph_mutate | Ph_publish | Ph_cleanup | Ph_recovery | Ph_count

fun phase_index :: "operation_phase \<Rightarrow> nat" where
  "phase_index Ph_root = 0"
| "phase_index Ph_prepare = 1"
| "phase_index Ph_mutate = 2"
| "phase_index Ph_publish = 3"
| "phase_index Ph_cleanup = 4"
| "phase_index Ph_recovery = 5"
| "phase_index Ph_count = 6"

datatype mutation_registrant =
    Reg_apply_ubatch_append | Reg_apply_ubatch_occupied_reuse | Reg_seq_rm | Reg_seq_cp
    | Reg_seq_keep | Reg_seq_add | Reg_seq_div | Reg_state_read_meta | Reg_state_read_data
    | Reg_state_read_install | Reg_state_read_cleanup | Reg_whole_import
    | Reg_explicit_restore_adopt | Reg_clear | Reg_full_reset | Reg_degrade_next
    | Reg_promote_next | Reg_execute_shed | Reg_authenticated_recovery | Reg_window_install
    | Reg_count

fun registrant_index :: "mutation_registrant \<Rightarrow> nat" where
  "registrant_index Reg_apply_ubatch_append = 0"
| "registrant_index Reg_apply_ubatch_occupied_reuse = 1"
| "registrant_index Reg_seq_rm = 2"
| "registrant_index Reg_seq_cp = 3"
| "registrant_index Reg_seq_keep = 4"
| "registrant_index Reg_seq_add = 5"
| "registrant_index Reg_seq_div = 6"
| "registrant_index Reg_state_read_meta = 7"
| "registrant_index Reg_state_read_data = 8"
| "registrant_index Reg_state_read_install = 9"
| "registrant_index Reg_state_read_cleanup = 10"
| "registrant_index Reg_whole_import = 11"
| "registrant_index Reg_explicit_restore_adopt = 12"
| "registrant_index Reg_clear = 13"
| "registrant_index Reg_full_reset = 14"
| "registrant_index Reg_degrade_next = 15"
| "registrant_index Reg_promote_next = 16"
| "registrant_index Reg_execute_shed = 17"
| "registrant_index Reg_authenticated_recovery = 18"
| "registrant_index Reg_window_install = 19"
| "registrant_index Reg_count = 20"

section \<open>The mutation inventory\<close>

definition vbr_operation_class_bit :: "operation_class \<Rightarrow> u16" where
  "vbr_operation_class_bit c = push_bit (class_index c) 1"

definition VBR_MUTATION_REGISTRY :: "(mutation_registrant \<times> mutation_family \<times> operation_phase \<times> u16) list" where
  "VBR_MUTATION_REGISTRY = [
     (Reg_apply_ubatch_append, Fam_append, Ph_mutate,
       vbr_operation_class_bit Cls_ordinary_decode OR vbr_operation_class_bit Cls_swa_wrap),
     (Reg_apply_ubatch_occupied_reuse, Fam_occupied_reuse, Ph_mutate,
       vbr_operation_class_bit Cls_ordinary_decode OR vbr_operation_class_bit Cls_swa_wrap),
     (Reg_seq_rm, Fam_trim, Ph_mutate,
       vbr_operation_class_bit Cls_checkpoint_restore OR vbr_operation_class_bit Cls_restore_one_behind_trim
       OR vbr_operation_class_bit Cls_swa_wrap OR vbr_operation_class_bit Cls_explicit_destructive_trim
       OR vbr_operation_class_bit Cls_dependency_seq_remove OR vbr_operation_class_bit Cls_speculative_backup
       OR vbr_operation_class_bit Cls_sibling_owner_remove OR vbr_operation_class_bit Cls_state_api),
     (Reg_seq_cp, Fam_seq_share, Ph_mutate,
       vbr_operation_class_bit Cls_speculative_backup OR vbr_operation_class_bit Cls_prompt_share
       OR vbr_operation_class_bit Cls_state_api),
     (Reg_seq_keep, Fam_seq_keep, Ph_mutate,
       vbr_operation_class_bit Cls_state_api OR vbr_operation_class_bit Cls_controller),
     (Reg_seq_add, Fam_shift, Ph_mutate,
       vbr_operation_class_bit Cls_state_api OR vbr_operation_class_bit Cls_controller),
     (Reg_seq_div, Fam_shift, Ph_mutate,
       vbr_operation_class_bit Cls_state_api OR vbr_operation_class_bit Cls_controller),
     (Reg_state_read_meta, Fam_import, Ph_prepare,
       vbr_operation_class_bit Cls_checkpoint_restore OR vbr_operation_class_bit Cls_host_import
       OR vbr_operation_class_bit Cls_state_api),
     (Reg_state_read_data, Fam_import, Ph_mutate,
       vbr_operation_class_bit Cls_checkpoint_restore OR vbr_operation_class_bit Cls_host_import
       OR vbr_operation_class_bit Cls_state_api),
     (Reg_state_read_install, Fam_import, Ph_publish,
       vbr_operation_class_bit Cls_checkpoint_restore OR vbr_operation_class_bit Cls_host_import
       OR vbr_operation_class_bit Cls_state_api),
     (Reg_state_read_cleanup, Fam_import, Ph_cleanup,
       vbr_operation_class_bit Cls_checkpoint_restore OR vbr_operation_class_bit Cls_host_import
       OR vbr_operation_class_bit Cls_state_api),
     (Reg_whole_import, Fam_import, Ph_publish,
       vbr_operation_class_bit Cls_host_import OR vbr_operation_class_bit Cls_state_api),
     (Reg_explicit_restore_adopt, Fam_restore, Ph_publish,
       vbr_operation_class_bit Cls_checkpoint_restore),
     (Reg_clear, Fam_clear, Ph_cleanup,
       vbr_operation_class_bit Cls_state_api OR vbr_operation_class_bit Cls_controller),
     (Reg_full_reset, Fam_reset, Ph_cleanup,
       vbr_operation_class_bit Cls_controller),
     (Reg_degrade_next, Fam_degrade, Ph_mutate,
       vbr_operation_class_bit Cls_controller),
     (Reg_promote_next, Fam_promote, Ph_mutate,
       vbr_operation_class_bit Cls_controller),
     (Reg_execute_shed, Fam_shed, Ph_mutate,
       vbr_operation_class_bit Cls_controller),
     (Reg_authenticated_recovery, Fam_recovery, Ph_recovery,
       vbr_operation_class_bit Cls_controller),
     (Reg_window_install, Fam_import, Ph_mutate,
       vbr_operation_class_bit Cls_checkpoint_restore)]"

definition marked :: "nat \<Rightarrow> nat list \<Rightarrow> bool list" where
  "marked n is = fold (\<lambda>i bs. bs[i := True]) is (replicate n False)"

definition vbr_mutation_registry_is_exhaustive :: bool where
  "vbr_mutation_registry_is_exhaustive =
    (let rows = VBR_MUTATION_REGISTRY;
         registrants = marked (registrant_index Reg_count) (map (\<lambda>(r, f, p, c). registrant_index r) rows);
         families = marked (family_index Fam_count) (map (\<lambda>(r, f, p, c). family_index f) rows);
         phases = marked (phase_index Ph_count) (map (\<lambda>(r, f, p, c). phase_index p) rows);
         classes = marked (class_index Cls_count) (concat (map (\<lambda>(r, f, p, c).
           filter (\<lambda>i. c AND push_bit i 1 \<noteq> 0) [0..<class_index Cls_count]) rows))
     in list_all id registrants \<and> list_all id families \<and> list_all id classes \<and> list_all id (drop 1 phases))"

datatype stable_read_registrant = Read_checkpoint_capture | Read_state_export | Read_oracle_read | Read_count

fun stable_read_index :: "stable_read_registrant \<Rightarrow> nat" where
  "stable_read_index Read_checkpoint_capture = 0"
| "stable_read_index Read_state_export = 1"
| "stable_read_index Read_oracle_read = 2"
| "stable_read_index Read_count = 3"

definition VBR_STABLE_READ_REGISTRY :: "stable_read_registrant list" where
  "VBR_STABLE_READ_REGISTRY = [Read_checkpoint_capture, Read_state_export, Read_oracle_read]"

definition vbr_stable_read_registry_is_exhaustive :: bool where
  "vbr_stable_read_registry_is_exhaustive =
    list_all id (marked (stable_read_index Read_count) (map stable_read_index VBR_STABLE_READ_REGISTRY))"

section \<open>Families, registrants and ranges of a kind\<close>

definition vbr_operation_kind_family :: "operation_kind \<Rightarrow> operation_class \<Rightarrow> mutation_family" where
  "vbr_operation_kind_family kind cls =
    (if cls = Cls_swa_wrap then Fam_occupied_reuse
     else if kind = Kind_decode then Fam_append
     else if kind = Kind_sequence_edit then Fam_trim
     else if kind = Kind_checkpoint_restore then Fam_restore
     else if kind = Kind_state_import then Fam_import
     else if kind = Kind_window_restore then Fam_import
     else if kind = Kind_controller_retier then Fam_degrade
     else if kind = Kind_recovery then Fam_recovery
     else Fam_clear)"

definition vbr_registrant_bit :: "mutation_registrant \<Rightarrow> u32" where
  "vbr_registrant_bit r = push_bit (registrant_index r) 1"

definition registrants_mask :: "mutation_registrant list \<Rightarrow> u32" where
  "registrants_mask rs = foldr (\<lambda>r m. vbr_registrant_bit r OR m) rs 0"

definition vbr_operation_kind_registrants :: "operation_kind \<Rightarrow> u32" where
  "vbr_operation_kind_registrants kind =
    (if kind = Kind_window_restore
     then registrants_mask [Reg_window_install, Reg_seq_cp, Reg_seq_rm]
     else if kind = Kind_decode
     then registrants_mask [Reg_apply_ubatch_append, Reg_apply_ubatch_occupied_reuse, Reg_seq_rm]
     else if kind = Kind_sequence_edit
     then registrants_mask [Reg_seq_rm, Reg_seq_cp, Reg_seq_keep, Reg_seq_add, Reg_seq_div, Reg_clear, Reg_full_reset]
     else if kind = Kind_checkpoint_restore
     then registrants_mask [Reg_seq_rm, Reg_state_read_meta, Reg_state_read_data, Reg_state_read_install,
       Reg_state_read_cleanup, Reg_explicit_restore_adopt]
     else if kind = Kind_state_import
     then registrants_mask [Reg_seq_rm, Reg_state_read_meta, Reg_state_read_data, Reg_state_read_install,
       Reg_state_read_cleanup, Reg_whole_import, Reg_clear, Reg_full_reset]
     else if kind = Kind_controller_retier
     then registrants_mask [Reg_degrade_next, Reg_promote_next, Reg_execute_shed]
     else if kind = Kind_recovery then NOT 0
     else 0)"

definition LLAMA_POS_MAX :: int where "LLAMA_POS_MAX = 2 ^ 31 - 1"

definition vbr_normalize_edit_range :: "int \<times> int \<Rightarrow> int \<times> int" where
  "vbr_normalize_edit_range r =
    (if fst r < 0 then 0 else fst r, if snd r < 0 then LLAMA_POS_MAX else snd r)"

definition vbr_target_range_valid :: "operation_kind \<Rightarrow> int \<times> int \<Rightarrow> bool" where
  "vbr_target_range_valid kind r =
    (if fst r < 0 \<or> snd r < 0
     then fst r = -1 \<and> snd r = -1 \<and> (kind = Kind_recovery \<or> kind = Kind_controller_retier)
     else if fst r = snd r then kind = Kind_sequence_edit
     else fst r < snd r)"


section \<open>Controllers, targets and bindings\<close>

type_synonym instance_id = "u64 \<times> u64"

definition vbr_controller_instance_id_is_set :: "instance_id \<Rightarrow> bool" where
  "vbr_controller_instance_id_is_set i \<longleftrightarrow> fst i \<noteq> 0 \<and> snd i \<noteq> 0"

definition VBR_STREAM_ANY :: u16 where "VBR_STREAM_ANY = 0xFFFF"
definition MAX_TARGETS :: nat where "MAX_TARGETS = 16"

record operation_target =
  t_instance :: instance_id
  t_class :: operation_class
  t_registrants :: u32
  t_phase :: operation_phase
  t_stream :: u16
  t_seq :: int
  t_range :: "int \<times> int"

definition instance_matches :: "operation_target \<Rightarrow> instance_id \<Rightarrow> bool" where
  "instance_matches t i \<longleftrightarrow> \<not> vbr_controller_instance_id_is_set (t_instance t) \<or> t_instance t = i"

definition stream_matches :: "operation_target \<Rightarrow> u16 \<Rightarrow> bool" where
  "stream_matches t s \<longleftrightarrow> t_stream t = VBR_STREAM_ANY \<or> t_stream t = s"

definition target_matches :: "operation_target \<Rightarrow> instance_id \<Rightarrow> u16 \<Rightarrow> operation_class \<Rightarrow> u32 \<Rightarrow> bool" where
  "target_matches t i s cls rbit \<longleftrightarrow> instance_matches t i \<and> stream_matches t s \<and> t_class t = cls \<and>
     t_registrants t AND rbit \<noteq> 0 \<and> t_phase t = Ph_mutate"

definition seq_covers :: "operation_target \<Rightarrow> int \<Rightarrow> bool" where
  "seq_covers t sq \<longleftrightarrow> t_seq t = -1 \<or> (sq \<ge> 0 \<and> sq = t_seq t)"

definition pos_covers :: "operation_target \<Rightarrow> int \<Rightarrow> bool" where
  "pos_covers t p \<longleftrightarrow>
     (if fst (t_range t) < 0 then True
      else if p < 0 then fst (t_range t) = 0 \<and> snd (t_range t) = LLAMA_POS_MAX
      else fst (t_range t) \<le> p \<and> p < snd (t_range t))"

text \<open>The array of targets with its count is the list of the first \<open>n_targets\<close>.\<close>

record operation_binding =
  b_id :: u64
  b_kind :: operation_kind
  b_phase :: operation_phase
  b_targets :: "operation_target list"

definition empty_binding :: operation_binding where
  "empty_binding = \<lparr> b_id = 0, b_kind = Kind_retier_freeze, b_phase = Ph_root, b_targets = [] \<rparr>"

definition binding_seq_id :: "operation_binding \<Rightarrow> int" where
  "binding_seq_id b = (case b_targets b of [] \<Rightarrow> -1 | t # _ \<Rightarrow> t_seq t)"

definition binding_range :: "operation_binding \<Rightarrow> int \<times> int" where
  "binding_range b = (case b_targets b of [] \<Rightarrow> (-1, -1) | t # _ \<Rightarrow> t_range t)"

fun find_target :: "(operation_target \<Rightarrow> bool) \<Rightarrow> nat \<Rightarrow> operation_target list \<Rightarrow> (nat \<times> operation_target) option" where
  "find_target P k [] = None"
| "find_target P k (t # ts) = (if P t then Some (k, t) else find_target P (Suc k) ts)"

definition find_covering_target ::
  "operation_binding \<Rightarrow> instance_id \<Rightarrow> u16 \<Rightarrow> operation_class \<Rightarrow> u32 \<Rightarrow> operation_target option" where
  "find_covering_target b i s cls rbit = map_option snd (find_target (\<lambda>t. target_matches t i s cls rbit) 0 (b_targets b))"

definition find_covering_target_at ::
  "operation_binding \<Rightarrow> instance_id \<Rightarrow> u16 \<Rightarrow> operation_class \<Rightarrow> u32 \<Rightarrow> int \<Rightarrow> int \<Rightarrow> (nat \<times> operation_target) option" where
  "find_covering_target_at b i s cls rbit sq p =
    find_target (\<lambda>t. target_matches t i s cls rbit \<and> seq_covers t sq \<and> pos_covers t p) 0 (b_targets b)"

definition vbr_make_target ::
  "operation_kind \<Rightarrow> operation_class \<Rightarrow> instance_id \<Rightarrow> u16 \<Rightarrow> int \<Rightarrow> int \<Rightarrow> int \<Rightarrow> operation_target" where
  "vbr_make_target kind cls i s sq p0 p1 =
    \<lparr> t_instance = i, t_class = cls, t_registrants = vbr_operation_kind_registrants kind,
      t_phase = Ph_mutate, t_stream = s, t_seq = sq, t_range = (p0, p1) \<rparr>"

definition vbr_binding_add_instance_target ::
  "operation_binding \<Rightarrow> operation_kind \<Rightarrow> operation_class \<Rightarrow> instance_id \<Rightarrow> u16 \<Rightarrow> int \<Rightarrow> int \<Rightarrow> int \<Rightarrow> bool \<times> operation_binding" where
  "vbr_binding_add_instance_target b kind cls i s sq p0 p1 =
    (if \<not> vbr_controller_instance_id_is_set i \<or> length (b_targets b) \<ge> MAX_TARGETS then (False, b)
     else (True, b\<lparr> b_targets := b_targets b @ [vbr_make_target kind cls i s sq p0 p1] \<rparr>))"

definition vbr_mutation_binding ::
  "operation_kind \<Rightarrow> int \<Rightarrow> int \<Rightarrow> int \<Rightarrow> operation_class \<Rightarrow> instance_id \<Rightarrow> u16 \<Rightarrow> operation_binding" where
  "vbr_mutation_binding kind sq p0 p1 cls i s =
    \<lparr> b_id = 0, b_kind = kind, b_phase = Ph_mutate, b_targets = [vbr_make_target kind cls i s sq p0 p1] \<rparr>"

section \<open>Lemmas\<close>

lemma find_target_iff:
  "find_target P k ts = Some (n, t) \<longleftrightarrow>
    k \<le> n \<and> n - k < length ts \<and> t = ts ! (n - k) \<and> P t \<and> (\<forall>j < n - k. \<not> P (ts ! j))"
proof (induction ts arbitrary: k)
  case (Cons x ts)
  show ?case
  proof (cases "P x")
    case True
    then show ?thesis by (auto simp: nth_Cons' split: if_splits)
  next
    case False
    have "(k \<le> n \<and> n - k < length (x # ts) \<and> t = (x # ts) ! (n - k) \<and> P t \<and> (\<forall>j < n - k. \<not> P ((x # ts) ! j))) \<longleftrightarrow>
        (Suc k \<le> n \<and> n - Suc k < length ts \<and> t = ts ! (n - Suc k) \<and> P t \<and> (\<forall>j < n - Suc k. \<not> P (ts ! j)))"
    proof (cases "n - k")
      case 0
      then show ?thesis using False by auto
    next
      case (Suc d)
      then have "n - Suc k = d" "k \<le> n" "Suc k \<le> n" by auto
      with Suc False show ?thesis by (auto simp: All_less_Suc2)
    qed
    with Cons.IH [of "Suc k"] False show ?thesis by simp
  qed
qed simp

lemma find_target_None: "find_target P k ts = None \<longleftrightarrow> (\<forall>t \<in> set ts. \<not> P t)"
  by (induction ts arbitrary: k) auto

lemma bit_vbr_registrant_bit: "bit (vbr_registrant_bit r) i \<longleftrightarrow> i = registrant_index r"
  by (cases r) (auto simp: vbr_registrant_bit_def bit_simps)

lemma registrant_index_inj: "registrant_index r = registrant_index r' \<longleftrightarrow> r = r'"
  by (cases r; cases r') simp_all

lemma registrants_mask_bit: "bit (registrants_mask rs) i \<longleftrightarrow> (\<exists>r \<in> set rs. i = registrant_index r)"
  by (induction rs) (auto simp: registrants_mask_def bit_or_iff bit_vbr_registrant_bit)

end
