(* ===== verification/Extent_Store.thy ===== *)
theory Extent_Store
  imports Vbr_Operation
begin

text \<open>
  \<open>vbr_extent_store\<close> of \<^verbatim>\<open>src/src/llama-vbr-extent.cpp\<close>: a slab of extent entries with a
  32-bit generation per slot (odd while the slot is live), reference counts and a free list.
  Handles and references are (index, generation) pairs; generation 0 is the empty one.
\<close>

section \<open>Entries\<close>

datatype extent_state = free_slot | prepared | submitted | committed | failed

record extent_entry =
  e_family :: mutation_family
  e_class :: operation_class
  e_state :: extent_state
  e_stream :: u16
  e_seq_id :: int
  e_p0 :: int
  e_p1 :: int
  e_gen :: u32

definition extent_entry_default :: extent_entry where
  "extent_entry_default = \<lparr> e_family = Fam_append, e_class = Cls_ordinary_decode, e_state = free_slot, e_stream = 0,
     e_seq_id = -1, e_p0 = -1, e_p1 = -1, e_gen = 0 \<rparr>"

type_synonym extent_ref = "nat \<times> u32"

record extent_store =
  es_entries :: "extent_entry list"
  es_refs :: "u32 list"
  es_free :: "nat list"
  es_exhausted :: bool

definition CAPACITY :: nat where "CAPACITY = 8192"

abbreviation gen_of :: "extent_store \<Rightarrow> nat \<Rightarrow> u32" where "gen_of x i \<equiv> e_gen (es_entries x ! i)"
abbreviation state_of :: "extent_store \<Rightarrow> nat \<Rightarrow> extent_state" where "state_of x i \<equiv> e_state (es_entries x ! i)"

section \<open>Operations\<close>

definition slot_matches :: "nat \<Rightarrow> u32 \<Rightarrow> extent_store \<Rightarrow> bool" where
  "slot_matches i g x \<longleftrightarrow> g \<noteq> 0 \<and> i < CAPACITY \<and> gen_of x i = g"

definition handle_valid :: "extent_ref \<Rightarrow> extent_store \<Rightarrow> bool" where
  "handle_valid h x \<longleftrightarrow> slot_matches (fst h) (snd h) x \<and> state_of x (fst h) \<noteq> free_slot"

definition set_entry :: "nat \<Rightarrow> extent_entry \<Rightarrow> extent_store \<Rightarrow> extent_store" where
  "set_entry i e x = x\<lparr> es_entries := (es_entries x)[i := e] \<rparr>"

text \<open>The free list is a stack: the head of the list is its back.\<close>

definition maybe_reclaim :: "nat \<Rightarrow> extent_store \<Rightarrow> extent_store" where
  "maybe_reclaim i x =
    (let e = es_entries x ! i in
     if es_refs x ! i \<noteq> 0 \<or> (e_state e \<noteq> committed \<and> e_state e \<noteq> failed) then x
     else (set_entry i (e\<lparr> e_state := free_slot, e_gen := e_gen e + 1 \<rparr>) x)\<lparr> es_free := i # es_free x \<rparr>)"

definition reset_all :: "extent_store \<Rightarrow> extent_store" where
  "reset_all x = x\<lparr>
     es_entries := map (\<lambda>e. e\<lparr> e_gen := (e_gen e OR 1) + 1, e_state := free_slot \<rparr>) (es_entries x),
     es_refs := replicate CAPACITY 0,
     es_free := [0..<CAPACITY],
     es_exhausted := False \<rparr>"

definition new_extent_store :: extent_store where
  "new_extent_store = reset_all \<lparr> es_entries = replicate CAPACITY extent_entry_default,
     es_refs = replicate CAPACITY 0, es_free = [], es_exhausted = False \<rparr>"

definition reserve :: "mutation_family \<Rightarrow> operation_class \<Rightarrow> u16 \<Rightarrow> int \<Rightarrow> int \<Rightarrow> int \<Rightarrow> bool \<Rightarrow> extent_store \<Rightarrow> extent_ref \<times> extent_store" where
  "reserve fam cls stream seq_id p0 p1 latch x =
    (case es_free x of
       [] \<Rightarrow> ((0, 0), x\<lparr> es_exhausted := es_exhausted x \<or> latch \<rparr>)
     | i # rest \<Rightarrow>
        let e = es_entries x ! i in
        if e_gen e \<ge> 0xFFFFFFFF - 2 then ((0, 0), x\<lparr> es_exhausted := es_exhausted x \<or> latch \<rparr>)
        else let e' = \<lparr> e_family = fam, e_class = cls, e_state = prepared, e_stream = stream,
                        e_seq_id = seq_id, e_p0 = p0, e_p1 = p1, e_gen = e_gen e + 1 \<rparr>
             in ((i, e_gen e'), (set_entry i e' x)\<lparr> es_free := rest, es_refs := (es_refs x)[i := 0] \<rparr>))"

definition set_state :: "nat \<Rightarrow> extent_state \<Rightarrow> extent_store \<Rightarrow> extent_store" where
  "set_state i s x = set_entry i ((es_entries x ! i)\<lparr> e_state := s \<rparr>) x"

definition submit :: "extent_ref \<Rightarrow> extent_store \<Rightarrow> bool \<times> extent_store" where
  "submit h x =
    (if \<not> handle_valid h x \<or> state_of x (fst h) \<noteq> prepared then (False, x)
     else (True, set_state (fst h) submitted x))"

definition commit :: "extent_ref \<Rightarrow> extent_store \<Rightarrow> bool \<times> extent_store" where
  "commit h x =
    (if \<not> handle_valid h x then (False, x)
     else if state_of x (fst h) \<noteq> prepared \<and> state_of x (fst h) \<noteq> submitted then (False, x)
     else (True, maybe_reclaim (fst h) (set_state (fst h) committed x)))"

definition fail :: "extent_ref \<Rightarrow> extent_store \<Rightarrow> bool \<times> extent_store" where
  "fail h x =
    (if \<not> handle_valid h x then (False, x)
     else (True, maybe_reclaim (fst h) (set_state (fst h) failed x)))"

definition add_ref :: "extent_ref \<Rightarrow> extent_store \<Rightarrow> extent_ref \<times> extent_store" where
  "add_ref h x =
    (if \<not> handle_valid h x then ((0, 0), x)
     else (h, x\<lparr> es_refs := (es_refs x)[fst h := es_refs x ! fst h + 1] \<rparr>))"

definition release_ref :: "extent_ref \<Rightarrow> extent_store \<Rightarrow> extent_store" where
  "release_ref r x =
    (if \<not> slot_matches (fst r) (snd r) x then x
     else if es_refs x ! fst r = 0 then x
     else let n = es_refs x ! fst r - 1; x1 = x\<lparr> es_refs := (es_refs x)[fst r := n] \<rparr>
          in if n = 0 then maybe_reclaim (fst r) x1 else x1)"

definition lookup_committed :: "extent_ref \<Rightarrow> extent_store \<Rightarrow> extent_entry option" where
  "lookup_committed r x =
    (if \<not> slot_matches (fst r) (snd r) x \<or> state_of x (fst r) \<noteq> committed then None
     else Some (es_entries x ! fst r))"

definition live_entries :: "extent_store \<Rightarrow> nat" where
  "live_entries x = CAPACITY - length (es_free x)"

end
