(* ===== verification/Extent_Properties.thy ===== *)
theory Extent_Properties
  imports Extent_Store
begin

text \<open>
  The properties of the extent store: one step relation for what an operation does to an entry, the
  invariant of the reachable stores (free list, parity of the generations, reference counts), the
  safety of stale references within the no-wrap bound, and what happens past it.
\<close>

section \<open>Runs\<close>

datatype ext_op =
    Reserve_Extent mutation_family operation_class u16 int int int bool
  | Submit extent_ref
  | Commit extent_ref
  | Fail extent_ref
  | Add_Ref extent_ref
  | Release_Ref extent_ref
  | Reset_All

fun ext_exec :: "ext_op \<Rightarrow> extent_store \<Rightarrow> extent_store" where
  "ext_exec (Reserve_Extent fam cls s sq p0 p1 latch) x = snd (reserve fam cls s sq p0 p1 latch x)"
| "ext_exec (Submit h) x = snd (submit h x)"
| "ext_exec (Commit h) x = snd (commit h x)"
| "ext_exec (Fail h) x = snd (fail h x)"
| "ext_exec (Add_Ref h) x = snd (add_ref h x)"
| "ext_exec (Release_Ref r) x = release_ref r x"
| "ext_exec Reset_All x = reset_all x"

abbreviation freed :: "extent_entry \<Rightarrow> extent_entry" where
  "freed e \<equiv> e\<lparr> e_state := free_slot, e_gen := e_gen e + 1 \<rparr>"

text \<open>What an operation may do to the entry of a slot.\<close>

inductive entry_step :: "ext_op \<Rightarrow> nat \<Rightarrow> extent_entry \<Rightarrow> extent_entry \<Rightarrow> bool" where
  same: "entry_step op i e e"
| reserved: "e_state e = free_slot \<Longrightarrow> e_gen e < 0xFFFFFFFD \<Longrightarrow>
    entry_step (Reserve_Extent fam cls s sq p0 p1 latch) i e
      \<lparr> e_family = fam, e_class = cls, e_state = prepared, e_stream = s, e_seq_id = sq, e_p0 = p0, e_p1 = p1,
        e_gen = e_gen e + 1 \<rparr>"
| submitted: "e_state e = prepared \<Longrightarrow> entry_step (Submit (i, e_gen e)) i e (e\<lparr> e_state := submitted \<rparr>)"
| committed: "e_state e = prepared \<or> e_state e = submitted \<Longrightarrow> e' = e\<lparr> e_state := committed \<rparr> \<or> e' = freed e \<Longrightarrow>
    entry_step (Commit (i, e_gen e)) i e e'"
| failed: "e_state e \<noteq> free_slot \<Longrightarrow> e' = e\<lparr> e_state := failed \<rparr> \<or> e' = freed e \<Longrightarrow>
    entry_step (Fail (i, e_gen e)) i e e'"
| released: "e_state e = committed \<or> e_state e = failed \<Longrightarrow> entry_step (Release_Ref (i, e_gen e)) i e (freed e)"
| reset: "entry_step Reset_All i e (e\<lparr> e_gen := (e_gen e OR 1) + 1, e_state := free_slot \<rparr>)"

inductive_cases entry_stepE: "entry_step op i e e'"

section \<open>The invariant\<close>

definition slot_ok :: "nat \<Rightarrow> extent_entry \<Rightarrow> u32 \<Rightarrow> bool" where
  "slot_ok n e r \<longleftrightarrow> (even (unat (e_gen e)) \<longleftrightarrow> e_state e = free_slot) \<and>
     2 \<le> unat (e_gen e) \<and> unat (e_gen e) \<le> 2 * n + 2 \<and> unat r \<le> n \<and>
     (e_state e = free_slot \<longrightarrow> r = 0) \<and> (e_state e = committed \<or> e_state e = failed \<longrightarrow> r \<noteq> 0)"

definition ext_inv :: "nat \<Rightarrow> extent_store \<Rightarrow> bool" where
  "ext_inv n x \<longleftrightarrow> length (es_entries x) = CAPACITY \<and> length (es_refs x) = CAPACITY \<and> distinct (es_free x) \<and>
     set (es_free x) = {i. i < CAPACITY \<and> state_of x i = free_slot} \<and>
     (\<forall>i < CAPACITY. slot_ok n (es_entries x ! i) (es_refs x ! i))"

lemma ext_invD:
  assumes "ext_inv n x"
  shows "length (es_entries x) = CAPACITY" "length (es_refs x) = CAPACITY" "distinct (es_free x)"
    "i \<in> set (es_free x) \<longleftrightarrow> i < CAPACITY \<and> state_of x i = free_slot"
    "i < CAPACITY \<Longrightarrow> slot_ok n (es_entries x ! i) (es_refs x ! i)"
  using assms by (auto simp: ext_inv_def)

lemma slot_ok_mono: "slot_ok n e r \<Longrightarrow> n \<le> m \<Longrightarrow> slot_ok m e r"
  by (auto simp: slot_ok_def)

lemma ext_inv_mono: "ext_inv n x \<Longrightarrow> n \<le> m \<Longrightarrow> ext_inv m x"
  by (auto simp: ext_inv_def intro: slot_ok_mono)

text \<open>Every operation but the reset writes one slot.\<close>

definition put_slot :: "nat \<Rightarrow> extent_entry \<Rightarrow> u32 \<Rightarrow> nat list \<Rightarrow> extent_store \<Rightarrow> extent_store" where
  "put_slot i e r fs x = x\<lparr> es_entries := (es_entries x)[i := e], es_refs := (es_refs x)[i := r], es_free := fs \<rparr>"

lemma ext_inv_update:
  assumes inv: "ext_inv n x" and i: "i < CAPACITY" and ok: "slot_ok m e r" and le: "n \<le> m"
    and free: "distinct fs" "set fs = (if e_state e = free_slot then insert i (set (es_free x)) else set (es_free x) - {i})"
  shows "ext_inv m (put_slot i e r fs x)"
proof -
  have len: "i < length (es_entries x)" "i < length (es_refs x)" using inv i by (simp_all add: ext_invD)
  have "set fs = {j. j < CAPACITY \<and> e_state ((es_entries x)[i := e] ! j) = free_slot}"
    using i ext_invD(4) [OF inv] by (auto simp: free(2) nth_list_update_if [OF len(1)])
  moreover have "slot_ok m ((es_entries x)[i := e] ! j) ((es_refs x)[i := r] ! j)" if "j < CAPACITY" for j
    using ok slot_ok_mono [OF ext_invD(5) [OF inv that] le]
    by (simp add: nth_list_update_if [OF len(1)] nth_list_update_if [OF len(2)])
  ultimately show ?thesis using free(1) ext_invD(1,2) [OF inv] by (simp add: ext_inv_def put_slot_def)
qed

lemma unat_inc: "unat g < 2 ^ 32 - 1 \<Longrightarrow> unat (g + 1 :: u32) = unat g + 1"
  by (simp add: unat_word_ariths)

lemma even_unat: "even (unat (g :: u32)) \<longleftrightarrow> even g"
  by transfer (simp add: even_nat_iff)

lemma reset_gen:
  assumes "unat (g :: u32) < 2 ^ 32 - 2"
  shows "unat ((g OR 1) + 1) = (if even (unat g) then unat g + 2 else unat g + 1)"
proof (cases "even g")
  case True
  then have "(g OR 1) + 1 = g + 1 + 1" by (simp add: or_one_eq)
  moreover have "unat (g + 1) = unat g + 1" using assms by (intro unat_inc) simp
  moreover have "unat (g + 1 + 1) = unat (g + 1) + 1" using assms calculation(2) by (intro unat_inc) simp
  ultimately show ?thesis using True by (simp add: even_unat)
next
  case False
  then show ?thesis using assms unat_inc [of g] by (simp add: even_unat or_one_eq)
qed

section \<open>Every operation keeps it\<close>

lemma resolve_eq:
  assumes "i < length (es_entries x)" and "s = committed \<or> s = failed"
  shows "maybe_reclaim i (set_state i s x) =
    (if es_refs x ! i = 0 then put_slot i (freed (es_entries x ! i)) 0 (i # es_free x) x
     else put_slot i ((es_entries x ! i)\<lparr> e_state := s \<rparr>) (es_refs x ! i) (es_free x) x)"
proof -
  have "(es_refs x)[i := 0] = es_refs x" if "es_refs x ! i = 0" using that by (metis list_update_id)
  then show ?thesis using assms by (auto simp: maybe_reclaim_def set_state_def set_entry_def put_slot_def Let_def)
qed

lemma reserve_eq:
  "reserve fam cls s sq p0 p1 latch x =
    (if es_free x = [] \<or> gen_of x (hd (es_free x)) \<ge> 0xFFFFFFFD then ((0, 0), x\<lparr> es_exhausted := es_exhausted x \<or> latch \<rparr>)
     else let i = hd (es_free x) in ((i, gen_of x i + 1),
       put_slot i \<lparr> e_family = fam, e_class = cls, e_state = prepared, e_stream = s, e_seq_id = sq, e_p0 = p0, e_p1 = p1,
         e_gen = gen_of x i + 1 \<rparr> 0 (tl (es_free x)) x))"
  by (cases "es_free x") (auto simp: reserve_def set_entry_def put_slot_def Let_def)

lemma release_eq:
  assumes "fst r < length (es_entries x)" and "fst r < length (es_refs x)"
    and "slot_matches (fst r) (snd r) x" and "es_refs x ! fst r \<noteq> 0"
  shows "release_ref r x =
    (if es_refs x ! fst r = 1 \<and> (state_of x (fst r) = committed \<or> state_of x (fst r) = failed)
     then put_slot (fst r) (freed (es_entries x ! fst r)) 0 (fst r # es_free x) x
     else put_slot (fst r) (es_entries x ! fst r) (es_refs x ! fst r - 1) (es_free x) x)"
  using assms by (auto simp: release_ref_def maybe_reclaim_def set_entry_def put_slot_def Let_def)

lemma submit_eq:
  "submit h x = (if handle_valid h x \<and> state_of x (fst h) = prepared
     then (True, put_slot (fst h) ((es_entries x ! fst h)\<lparr> e_state := submitted \<rparr>) (es_refs x ! fst h) (es_free x) x)
     else (False, x))"
  by (simp add: submit_def set_state_def set_entry_def put_slot_def)

lemma add_ref_eq:
  "add_ref h x = (if handle_valid h x
     then (h, put_slot (fst h) (es_entries x ! fst h) (es_refs x ! fst h + 1) (es_free x) x) else ((0, 0), x))"
  by (simp add: add_ref_def put_slot_def)

lemma slot_live:
  assumes "ext_inv n x" and "handle_valid h x"
  shows "fst h < CAPACITY \<and> gen_of x (fst h) = snd h \<and> state_of x (fst h) \<noteq> free_slot \<and> fst h \<notin> set (es_free x)"
  using assms ext_invD(4) [OF assms(1)] by (simp add: handle_valid_def slot_matches_def)

lemma freed_ok:
  assumes "slot_ok n e r" and "e_state e \<noteq> free_slot" and "n < 2 ^ 31 - 1"
  shows "slot_ok (n + 1) (freed e) 0"
  using assms unat_inc [of "e_gen e"] by (simp add: slot_ok_def)

lemma freed_inv:
  assumes inv: "ext_inv n x" and n: "n < 2 ^ 31 - 1" and i: "i < CAPACITY" "state_of x i \<noteq> free_slot"
  shows "ext_inv (n + 1) (put_slot i (freed (es_entries x ! i)) 0 (i # es_free x) x)"
  using i ext_invD(3,4) [OF inv] freed_ok [OF ext_invD(5) [OF inv i(1)] i(2) n]
  by (intro ext_inv_update [OF inv i(1)]) auto

lemma kept_inv:
  assumes inv: "ext_inv n x" and i: "i < CAPACITY" "state_of x i \<noteq> free_slot" and "e_state e \<noteq> free_slot"
    and "slot_ok (n + 1) e r"
  shows "ext_inv (n + 1) (put_slot i e r (es_free x) x)"
  using assms ext_invD(3,4) [OF inv] by (intro ext_inv_update [OF inv i(1)]) auto

lemma reset_inv:
  assumes inv: "ext_inv n x" and n: "n < 2 ^ 31 - 2"
  shows "ext_inv (n + 1) (reset_all x)"
proof -
  have "slot_ok (n + 1) (es_entries (reset_all x) ! i) 0" if "i < CAPACITY" for i
    using ext_invD(1) [OF inv] ext_invD(5) [OF inv that] that reset_gen [of "gen_of x i"] n
    by (auto simp: slot_ok_def reset_all_def)
  then show ?thesis using ext_invD(1) [OF inv] by (auto simp: ext_inv_def reset_all_def)
qed

lemma reserve_inv:
  assumes inv: "ext_inv n x" and n: "n < 2 ^ 31 - 2"
  shows "ext_inv (n + 1) (snd (reserve fam cls s sq p0 p1 latch x))"
proof (cases "es_free x = [] \<or> gen_of x (hd (es_free x)) \<ge> 0xFFFFFFFD")
  case True
  have "ext_inv n (x\<lparr> es_exhausted := b \<rparr>)" for b using inv by (simp add: ext_inv_def)
  with True show ?thesis using ext_inv_mono [of n] by (auto simp: reserve_eq)
next
  case False
  then obtain i rest where fs: "es_free x = i # rest" by (cases "es_free x") auto
  then have i: "i < CAPACITY" "state_of x i = free_slot" using ext_invD(4) [OF inv, of i] by auto
  have ok: "slot_ok n (es_entries x ! i) (es_refs x ! i)" by (rule ext_invD(5) [OF inv i(1)])
  then have "unat (gen_of x i) < 2 ^ 32 - 1" using n by (simp add: slot_ok_def)
  from unat_inc [OF this] ok i(2) have "slot_ok (n + 1) \<lparr> e_family = fam, e_class = cls, e_state = prepared, e_stream = s,
      e_seq_id = sq, e_p0 = p0, e_p1 = p1, e_gen = gen_of x i + 1 \<rparr> 0"
    by (auto simp: slot_ok_def)
  with ext_inv_update [OF inv i(1) this] ext_invD(3) [OF inv] False show ?thesis
    by (auto simp: reserve_eq fs Let_def)
qed

lemma ext_exec_inv:
  assumes inv: "ext_inv n x" and n: "n < 2 ^ 31 - 2"
  shows "ext_inv (n + 1) (ext_exec op x)"
proof -
  have idle: "ext_inv (n + 1) x" using ext_inv_mono [OF inv] by simp
  have resolve: "ext_inv (n + 1) (maybe_reclaim (fst h) (set_state (fst h) s x))"
    if "handle_valid h x" "s = committed \<or> s = failed" for h s
  proof -
    note live = slot_live [OF inv that(1)]
    have "slot_ok n (es_entries x ! fst h) (es_refs x ! fst h)" using ext_invD(5) [OF inv] live by blast
    then have "es_refs x ! fst h \<noteq> 0 \<Longrightarrow> slot_ok (n + 1) ((es_entries x ! fst h)\<lparr> e_state := s \<rparr>) (es_refs x ! fst h)"
      using live that(2) by (auto simp: slot_ok_def)
    then show ?thesis
      using live that(2) freed_inv [OF inv _, of "fst h"] kept_inv [OF inv, of "fst h"] n ext_invD(1) [OF inv]
      by (auto simp: resolve_eq)
  qed
  show ?thesis
  proof (cases op)
    case (Reserve_Extent fam cls s sq p0 p1 latch)
    then show ?thesis using reserve_inv [OF assms] by simp
  next
    case (Submit h)
    have "slot_ok (n + 1) ((es_entries x ! fst h)\<lparr> e_state := submitted \<rparr>) (es_refs x ! fst h)"
      if "handle_valid h x"
      using slot_live [OF inv that] slot_ok_mono [OF ext_invD(5) [OF inv], of "fst h" "n + 1"] by (auto simp: slot_ok_def)
    then show ?thesis
      using Submit idle slot_live [OF inv] kept_inv [OF inv, of "fst h"] by (auto simp: submit_eq)
  next
    case (Commit h)
    then show ?thesis using idle resolve by (auto simp: commit_def)
  next
    case (Fail h)
    then show ?thesis using idle resolve by (auto simp: fail_def)
  next
    case (Add_Ref h)
    have "slot_ok (n + 1) (es_entries x ! fst h) (es_refs x ! fst h + 1)" if "handle_valid h x"
      using slot_live [OF inv that] ext_invD(5) [OF inv, of "fst h"] n unat_inc [of "es_refs x ! fst h"] by (auto simp: slot_ok_def)
    then show ?thesis
      using Add_Ref idle slot_live [OF inv] kept_inv [OF inv, of "fst h"] by (auto simp: add_ref_eq)
  next
    case (Release_Ref r)
    show ?thesis
    proof (cases "slot_matches (fst r) (snd r) x \<and> es_refs x ! fst r \<noteq> 0")
      case True
      then have i: "fst r < CAPACITY" by (simp add: slot_matches_def)
      then have ok: "slot_ok n (es_entries x ! fst r) (es_refs x ! fst r)" by (rule ext_invD(5) [OF inv])
      then have live: "state_of x (fst r) \<noteq> free_slot" using True by (auto simp: slot_ok_def)
      have "unat (es_refs x ! fst r - 1) = unat (es_refs x ! fst r) - 1"
        using True by (simp add: unat_minus_one)
      then have "\<not> (es_refs x ! fst r = 1 \<and> (state_of x (fst r) = committed \<or> state_of x (fst r) = failed)) \<Longrightarrow>
          slot_ok (n + 1) (es_entries x ! fst r) (es_refs x ! fst r - 1)"
        using ok live by (auto simp: slot_ok_def)
      then show ?thesis
        using Release_Ref True i live freed_inv [OF inv _ i live] kept_inv [OF inv i live live] n
          release_eq [of r x] ext_invD(1,2) [OF inv] by auto
    qed (use Release_Ref idle in \<open>auto simp: release_ref_def\<close>)
  next
    case Reset_All
    then show ?thesis using reset_inv [OF assms] by simp
  qed
qed

lemma new_store_inv: "ext_inv 0 new_extent_store"
  by (auto simp: ext_inv_def slot_ok_def new_extent_store_def reset_all_def extent_entry_default_def or_one_eq)

lemma ext_run_from: "ext_inv n x \<Longrightarrow> n + length ops \<le> 2 ^ 31 - 2 \<Longrightarrow> ext_inv (n + length ops) (fold ext_exec ops x)"
proof (induction ops arbitrary: n x)
  case (Cons op ops)
  have "ext_inv (n + 1) (ext_exec op x)" using Cons.prems by (intro ext_exec_inv) auto
  from Cons.IH [OF this] Cons.prems(2) show ?case by simp
qed simp

lemma ext_run: "length ops \<le> 2 ^ 31 - 2 \<Longrightarrow> ext_inv (length ops) (fold ext_exec ops new_extent_store)"
  using ext_run_from [OF new_store_inv, of ops] by simp

section \<open>What an operation does to an entry\<close>

lemma put_slot_at:
  "i < length (es_entries x) \<Longrightarrow> es_entries (put_slot i e r fs x) ! j = (if i = j then e else es_entries x ! j)"
  "i < length (es_refs x) \<Longrightarrow> es_refs (put_slot i e r fs x) ! j = (if i = j then r else es_refs x ! j)"
  by (auto simp: put_slot_def)

lemma entry_step_freed:
  "e_state e = prepared \<or> e_state e = submitted \<Longrightarrow> entry_step (Commit (i, e_gen e)) i e (freed e)"
  "e_state e = prepared \<or> e_state e = submitted \<Longrightarrow> entry_step (Commit (i, e_gen e)) i e (e\<lparr> e_state := committed \<rparr>)"
  "e_state e \<noteq> free_slot \<Longrightarrow> entry_step (Fail (i, e_gen e)) i e (freed e)"
  "e_state e \<noteq> free_slot \<Longrightarrow> entry_step (Fail (i, e_gen e)) i e (e\<lparr> e_state := failed \<rparr>)"
  by (blast intro: entry_step.intros)+

lemma ext_exec_entry:
  assumes inv: "ext_inv n x" and i: "i < CAPACITY"
  shows "entry_step op i (es_entries x ! i) (es_entries (ext_exec op x) ! i)"
proof -
  note len = ext_invD(1,2) [OF inv]
  show ?thesis
  proof (cases op)
    case (Reserve_Extent fam cls s sq p0 p1 latch)
    have "hd (es_free x) < CAPACITY \<and> state_of x (hd (es_free x)) = free_slot" if "es_free x \<noteq> []"
      using ext_invD(4) [OF inv, of "hd (es_free x)"] that by simp
    then show ?thesis using Reserve_Extent len
      by (auto simp: reserve_eq Let_def put_slot_at not_le intro: entry_step.intros)
  next
    case (Submit h)
    have "snd h = gen_of x (fst h) \<and> fst h < CAPACITY" if "handle_valid h x" using slot_live [OF inv that] by simp
    then show ?thesis using Submit len submitted [of "es_entries x ! fst h" "fst h"]
      by (cases h) (auto simp: submit_eq put_slot_at intro: same)
  next
    case (Commit h)
    have "snd h = gen_of x (fst h) \<and> fst h < CAPACITY" if "handle_valid h x" using slot_live [OF inv that] by simp
    then show ?thesis using Commit len
      by (cases h) (auto simp: commit_def resolve_eq put_slot_at intro: same entry_step_freed)
  next
    case (Fail h)
    have "snd h = gen_of x (fst h) \<and> fst h < CAPACITY \<and> state_of x (fst h) \<noteq> free_slot" if "handle_valid h x"
      using slot_live [OF inv that] by simp
    then show ?thesis using Fail len
      by (cases h) (auto simp: fail_def resolve_eq put_slot_at intro: same entry_step_freed)
  next
    case (Add_Ref h)
    then show ?thesis using len slot_live [OF inv, of h] by (auto simp: add_ref_eq put_slot_at intro: same)
  next
    case (Release_Ref r)
    show ?thesis
    proof (cases "slot_matches (fst r) (snd r) x \<and> es_refs x ! fst r \<noteq> 0")
      case True
      then have "fst r < CAPACITY" "snd r = gen_of x (fst r)" by (simp_all add: slot_matches_def)
      then show ?thesis using True Release_Ref len release_eq [of r x]
        by (cases r) (auto simp: put_slot_at intro: same released)
    qed (use Release_Ref in \<open>auto simp: release_ref_def intro: same\<close>)
  next
    case Reset_All
    then show ?thesis using i len by (auto simp: reset_all_def intro: reset)
  qed
qed

lemma entry_step_gen:
  assumes "entry_step op i e e'" and "slot_ok n e r" and "n < 2 ^ 31 - 2"
  shows "e_gen e < e_gen e' \<or> e_gen e = e_gen e' \<and> (e_state e' = free_slot \<longleftrightarrow> e_state e = free_slot)"
proof -
  have "unat (e_gen e + 1) = unat (e_gen e) + 1" using assms(2,3) by (intro unat_inc) (simp add: slot_ok_def)
  then have "e_gen e < e_gen e + 1" by (simp add: word_less_nat_alt)
  moreover have "e_gen e < (e_gen e OR 1) + 1"
    using assms(2,3) reset_gen [of "e_gen e"] by (simp add: word_less_nat_alt slot_ok_def)
  ultimately show ?thesis using assms(1) by (auto elim!: entry_stepE)
qed

section \<open>Stale references never match\<close>

definition holds_extent :: "mutation_family \<Rightarrow> operation_class \<Rightarrow> u16 \<Rightarrow> int \<Rightarrow> int \<Rightarrow> int \<Rightarrow> extent_entry \<Rightarrow> bool" where
  "holds_extent fam cls s sq p0 p1 e \<longleftrightarrow> e_family e = fam \<and> e_class e = cls \<and> e_stream e = s \<and> e_seq_id e = sq \<and>
     e_p0 e = p0 \<and> e_p1 e = p1"

text \<open>The entry of a reservation: still it, or replaced at a later generation.\<close>

definition tracks :: "mutation_family \<Rightarrow> operation_class \<Rightarrow> u16 \<Rightarrow> int \<Rightarrow> int \<Rightarrow> int \<Rightarrow> extent_ref \<Rightarrow> ext_op set \<Rightarrow> extent_entry \<Rightarrow> bool" where
  "tracks fam cls s sq p0 p1 h past e \<longleftrightarrow> snd h < e_gen e \<or> e_gen e = snd h \<and> e_state e \<noteq> free_slot \<and>
     holds_extent fam cls s sq p0 p1 e \<and> (e_state e = committed \<longrightarrow> Commit h \<in> past)"

lemma tracks_step:
  assumes "tracks fam cls s sq p0 p1 h past e" and "entry_step op (fst h) e e'" and "slot_ok n e r" and "n < 2 ^ 31 - 2"
  shows "tracks fam cls s sq p0 p1 h (insert op past) e'"
proof (cases "snd h < e_gen e \<or> e_gen e < e_gen e'")
  case True
  with entry_step_gen [OF assms(2-4)] assms(1) show ?thesis by (auto simp: tracks_def)
next
  case False
  with entry_step_gen [OF assms(2-4)] assms(1) have e: "e_gen e = snd h" "e_gen e' = snd h" "e_state e' \<noteq> free_slot"
      "e_state e \<noteq> free_slot" "holds_extent fam cls s sq p0 p1 e" "e_state e = committed \<longrightarrow> Commit h \<in> past"
    by (auto simp: tracks_def)
  have "holds_extent fam cls s sq p0 p1 e' \<and> (e_state e' = committed \<longrightarrow> Commit h \<in> insert op past)"
    using assms(2)
  proof cases
    case committed
    moreover have "(fst h, e_gen e) = h" by (simp add: e(1))
    ultimately show ?thesis using e by (auto simp: holds_extent_def)
  qed (use e in \<open>auto simp: holds_extent_def\<close>)
  with e show ?thesis by (auto simp: tracks_def)
qed

lemma tracks_run:
  assumes "ext_inv n y" and "n + length later \<le> 2 ^ 31 - 2" and "fst h < CAPACITY"
    and "tracks fam cls s sq p0 p1 h {} (es_entries y ! fst h)"
  shows "tracks fam cls s sq p0 p1 h (set later) (es_entries (fold ext_exec later y) ! fst h)"
  using assms(2)
proof (induction later rule: rev_induct)
  case (snoc op later)
  let ?z = "fold ext_exec later y"
  have inv: "ext_inv (n + length later) ?z" using ext_run_from [OF assms(1)] snoc.prems by simp
  have "tracks fam cls s sq p0 p1 h (set later) (es_entries ?z ! fst h)" using snoc by simp
  from tracks_step [OF this ext_exec_entry [OF inv assms(3)] ext_invD(5) [OF inv assms(3)]] snoc.prems
  show ?case by simp
qed (use assms(4) in simp)

lemma reserve_Some:
  assumes inv: "ext_inv n x" and n: "n < 2 ^ 31 - 2" and res: "reserve fam cls s sq p0 p1 latch x = (h, y)" "snd h \<noteq> 0"
  shows "fst h < CAPACITY \<and> es_entries y ! fst h = \<lparr> e_family = fam, e_class = cls, e_state = prepared, e_stream = s,
    e_seq_id = sq, e_p0 = p0, e_p1 = p1, e_gen = snd h \<rparr>"
proof -
  have "hd (es_free x) < CAPACITY" if "es_free x \<noteq> []" using ext_invD(4) [OF inv, of "hd (es_free x)"] that by simp
  then show ?thesis using res ext_invD(1) [OF inv] by (auto simp: reserve_eq Let_def put_slot_at split: if_splits)
qed

text \<open>C25: references are ABA-safe within the no-wrap bound. Whatever operations follow a reservation,
  while fewer than \<open>2 ^ 31\<close> have run the handle either still names that very reservation, with its
  extent unchanged and readable as evidence only if this handle was committed, or is stale for every
  operation, even though its slot may have been reused.\<close>

theorem extent_references_aba_safe:
  assumes "length ops + length later < 2 ^ 31 - 2" and "x = fold ext_exec ops new_extent_store"
    and "reserve fam cls s sq p0 p1 latch x = (h, y)" and "snd h \<noteq> 0" and "z = fold ext_exec later y"
  shows "(handle_valid h z \<and> holds_extent fam cls s sq p0 p1 (es_entries z ! fst h) \<and>
      (lookup_committed h z \<noteq> None \<longrightarrow> lookup_committed h z = Some (es_entries z ! fst h) \<and> Commit h \<in> set later)) \<or>
    (\<not> handle_valid h z \<and> lookup_committed h z = None \<and> submit h z = (False, z) \<and> commit h z = (False, z) \<and>
      fail h z = (False, z) \<and> add_ref h z = ((0, 0), z) \<and> release_ref h z = z)"
proof -
  have inv: "ext_inv (length ops) x" unfolding assms(2) using assms(1) by (intro ext_run) simp
  have n: "length ops < 2 ^ 31 - 2" using assms(1) by simp
  have "ext_inv (length ops + 1) y" using reserve_inv [OF inv n, of fam cls s sq p0 p1 latch] assms(3) by simp
  moreover note e = reserve_Some [OF inv n assms(3,4)]
  moreover have "tracks fam cls s sq p0 p1 h {} (es_entries y ! fst h)" using e by (simp add: tracks_def holds_extent_def)
  ultimately have "tracks fam cls s sq p0 p1 h (set later) (es_entries z ! fst h)"
    unfolding assms(5) using assms(1) by (intro tracks_run) auto
  then show ?thesis using e assms(4)
    by (auto simp: tracks_def lookup_committed_def handle_valid_def slot_matches_def submit_def commit_def fail_def
        add_ref_def release_ref_def)
qed

abbreviation example_reserve :: "extent_store \<Rightarrow> extent_ref \<times> extent_store" where
  "example_reserve \<equiv> reserve Fam_append Cls_ordinary_decode 0 0 0 1 True"

abbreviation example_entry :: extent_entry where
  "example_entry \<equiv> \<lparr> e_family = Fam_append, e_class = Cls_ordinary_decode, e_state = prepared, e_stream = 0, e_seq_id = 0,
     e_p0 = 0, e_p1 = 1, e_gen = 3 \<rparr>"

lemma put_slot_simps [simp]:
  "length (es_entries (put_slot i e r fs x)) = length (es_entries x)" "length (es_refs (put_slot i e r fs x)) = length (es_refs x)"
  "es_free (put_slot i e r fs x) = fs" "es_exhausted (put_slot i e r fs x) = es_exhausted x"
  by (simp_all add: put_slot_def)

lemma CAPACITY_pos: "0 < CAPACITY" by (simp add: CAPACITY_def)

lemma new_store_simps:
  "length (es_entries new_extent_store) = CAPACITY" "length (es_refs new_extent_store) = CAPACITY"
  "es_free new_extent_store = 0 # [1..<CAPACITY]" "es_entries new_extent_store ! 0 = extent_entry_default\<lparr> e_gen := 2 \<rparr>"
  "0 < CAPACITY" "es_refs new_extent_store ! 0 = 0"
  using CAPACITY_pos upt_conv_Cons [OF CAPACITY_pos]
  by (simp_all add: new_extent_store_def reset_all_def extent_entry_default_def or_one_eq)

lemma example_reserve_first: "example_reserve new_extent_store = ((0, 3), put_slot 0 example_entry 0 [1..<CAPACITY] new_extent_store)"
  by (simp add: reserve_eq new_store_simps extent_entry_default_def)

lemma example_fail: "\<not> handle_valid (0, 3) (ext_exec (Fail (0, 3)) (snd (example_reserve new_extent_store)))"
  by (simp add: example_reserve_first fail_def resolve_eq handle_valid_def slot_matches_def put_slot_at new_store_simps)

theorem extent_references_aba_safe_witness:
  "let z = ext_exec (Fail (0, 3)) (snd (example_reserve new_extent_store))
   in fail (0, 3) z = (False, z) \<and> release_ref (0, 3) z = z"
proof -
  have res: "example_reserve new_extent_store = ((0, 3), snd (example_reserve new_extent_store))"
    by (simp add: example_reserve_first)
  have n: "length ([] :: ext_op list) + length [Fail (0, 3)] < 2 ^ 31 - 2" by simp
  from extent_references_aba_safe [OF n, of new_extent_store, OF _ res] example_fail show ?thesis
    unfolding Let_def by simp
qed

section \<open>Accounting\<close>

lemma live_entries_card:
  assumes "ext_inv n x"
  shows "live_entries x = card {i. i < CAPACITY \<and> state_of x i \<noteq> free_slot}"
proof -
  have "{i. i < CAPACITY \<and> state_of x i \<noteq> free_slot} = {..<CAPACITY} - set (es_free x)"
    using ext_invD(4) [OF assms] by auto
  moreover have "set (es_free x) \<subseteq> {..<CAPACITY}" using ext_invD(4) [OF assms] by auto
  ultimately show ?thesis
    using ext_invD(3) [OF assms] by (simp add: live_entries_def card_Diff_subset distinct_card)
qed

text \<open>C26: the store never leaks. In every state reached by fewer than \<open>2 ^ 31 - 2\<close> operations the live
  count is the number of slots not free, a resolved slot is kept exactly as long as it is cited, a free
  slot has no citations and an even generation, and reserving succeeds if and only if a slot is free:
  the only refusal is exhaustion, which is latched when asked and cleared by the reset, after which
  every slot is free.\<close>

theorem extent_store_accounting:
  assumes "length ops < 2 ^ 31 - 2" and "x = fold ext_exec ops new_extent_store"
  shows "live_entries x = card {i. i < CAPACITY \<and> state_of x i \<noteq> free_slot} \<and>
    (\<forall>i < CAPACITY. (state_of x i = free_slot \<longleftrightarrow> even (unat (gen_of x i))) \<and>
       (state_of x i = free_slot \<longrightarrow> es_refs x ! i = 0) \<and>
       (state_of x i = committed \<or> state_of x i = failed \<longrightarrow> es_refs x ! i \<noteq> 0)) \<and>
    (snd (fst (reserve fam cls s sq p0 p1 latch x)) \<noteq> 0 \<longleftrightarrow> live_entries x < CAPACITY) \<and>
    es_exhausted (snd (reserve fam cls s sq p0 p1 latch x)) = (es_exhausted x \<or> live_entries x = CAPACITY \<and> latch) \<and>
    live_entries (reset_all x) = 0 \<and> \<not> es_exhausted (reset_all x)"
proof -
  have inv: "ext_inv (length ops) x" unfolding assms(2) using assms(1) by (intro ext_run) simp
  have full: "live_entries x < CAPACITY \<longleftrightarrow> es_free x \<noteq> []" and le: "live_entries x \<le> CAPACITY"
    using CAPACITY_def by (auto simp: live_entries_def)
  have hd: "gen_of x (hd (es_free x)) < 0xFFFFFFFD \<and> gen_of x (hd (es_free x)) + 1 \<noteq> 0" if "es_free x \<noteq> []"
  proof -
    have i: "hd (es_free x) < CAPACITY" "state_of x (hd (es_free x)) = free_slot"
      using ext_invD(4) [OF inv, of "hd (es_free x)"] that by auto
    with ext_invD(5) [OF inv i(1)] assms(1) have g: "unat (gen_of x (hd (es_free x))) < 0xFFFFFFFD"
      by (simp add: slot_ok_def)
    then show ?thesis using unat_inc [of "gen_of x (hd (es_free x))"] by (auto simp: word_less_nat_alt)
  qed
  have "\<forall>i < CAPACITY. (state_of x i = free_slot \<longleftrightarrow> even (unat (gen_of x i))) \<and>
       (state_of x i = free_slot \<longrightarrow> es_refs x ! i = 0) \<and>
       (state_of x i = committed \<or> state_of x i = failed \<longrightarrow> es_refs x ! i \<noteq> 0)"
    using ext_invD(5) [OF inv] by (simp add: slot_ok_def)
  moreover have "snd (fst (reserve fam cls s sq p0 p1 latch x)) \<noteq> 0 \<longleftrightarrow> live_entries x < CAPACITY"
    using hd full by (auto simp: reserve_eq Let_def not_le)
  moreover have "es_exhausted (snd (reserve fam cls s sq p0 p1 latch x)) = (es_exhausted x \<or> live_entries x = CAPACITY \<and> latch)"
    using hd full le by (auto simp: reserve_eq Let_def put_slot_def not_le)
  moreover have "live_entries (reset_all x) = 0 \<and> \<not> es_exhausted (reset_all x)"
    by (simp add: live_entries_def reset_all_def)
  ultimately show ?thesis using live_entries_card [OF inv] by blast
qed

theorem extent_store_accounting_witness:
  "live_entries (reset_all (fold ext_exec [Reserve_Extent Fam_append Cls_ordinary_decode 0 0 0 1 True] new_extent_store)) = 0"
proof -
  have "length [Reserve_Extent Fam_append Cls_ordinary_decode 0 0 0 1 True] < 2 ^ 31 - 2" by simp
  from extent_store_accounting [OF this refl] show ?thesis by blast
qed

section \<open>Cited evidence stays\<close>

lemma cited_step:
  assumes inv: "ext_inv n x" and n: "n < 2 ^ 31 - 2" and h: "lookup_committed h x = Some e"
    and op: "op \<noteq> Reset_All" "op \<noteq> Fail h" and cited: "op = Release_Ref h \<longrightarrow> 1 < unat (es_refs x ! fst h)"
  shows "lookup_committed h (ext_exec op x) = Some e \<and>
    unat (es_refs x ! fst h) \<le> unat (es_refs (ext_exec op x) ! fst h) + (if op = Release_Ref h then 1 else 0)"
proof -
  have i: "fst h < CAPACITY" "gen_of x (fst h) = snd h" "snd h \<noteq> 0" "state_of x (fst h) = committed" "es_entries x ! fst h = e"
    using h by (auto simp: lookup_committed_def slot_matches_def split: if_splits)
  note len = ext_invD(1,2) [OF inv]
  have ok: "slot_ok n (es_entries x ! fst h) (es_refs x ! fst h)" by (rule ext_invD(5) [OF inv i(1)])
  have eh: "(fst h, snd h) = h" by simp
  have r: "lookup_committed h x' = Some e" if "es_entries x' ! fst h = e" for x'
    using that i by (simp add: lookup_committed_def slot_matches_def)
  show ?thesis
  proof (cases "op = Release_Ref h")
    case True
    have "es_refs x ! fst h \<noteq> 1 \<and> es_refs x ! fst h \<noteq> 0" using cited True by auto
    moreover from this have "unat (es_refs x ! fst h - 1) = unat (es_refs x ! fst h) - 1" by (simp add: unat_minus_one)
    ultimately show ?thesis using True i len release_eq [of h x] cited r [of "release_ref h x"]
      by (auto simp: put_slot_at slot_matches_def)
  next
    case False
    have refs: "unat (es_refs x ! fst h + 1) = unat (es_refs x ! fst h) + 1"
      using ok n by (intro unat_inc) (simp add: slot_ok_def)
    have "es_entries (ext_exec op x) ! fst h = e"
      using ext_exec_entry [OF inv i(1), of op] i op False by (cases rule: entry_step.cases) auto
    moreover have "unat (es_refs x ! fst h) \<le> unat (es_refs (ext_exec op x) ! fst h)"
    proof (cases op)
      case (Reserve_Extent fam cls s sq p0 p1 latch)
      have "hd (es_free x) \<noteq> fst h \<and> hd (es_free x) < CAPACITY" if "es_free x \<noteq> []"
        using ext_invD(4) [OF inv, of "hd (es_free x)"] that i(4) by auto
      then show ?thesis using Reserve_Extent len by (auto simp: reserve_eq Let_def put_slot_at)
    next
      case (Submit g)
      then show ?thesis using len slot_live [OF inv, of g] by (auto simp: submit_eq put_slot_at)
    next
      case (Commit g)
      then show ?thesis using len slot_live [OF inv, of g] by (auto simp: commit_def resolve_eq put_slot_at)
    next
      case (Fail g)
      then show ?thesis using len slot_live [OF inv, of g] by (auto simp: fail_def resolve_eq put_slot_at)
    next
      case (Add_Ref g)
      then show ?thesis using len slot_live [OF inv, of g] refs by (auto simp: add_ref_eq put_slot_at)
    next
      case (Release_Ref g)
      show ?thesis
      proof (cases "slot_matches (fst g) (snd g) x \<and> es_refs x ! fst g \<noteq> 0")
        case True
        then have "fst g < CAPACITY" "snd g = gen_of x (fst g)" by (simp_all add: slot_matches_def)
        moreover have "fst g \<noteq> fst h" using calculation(2) i(2) False Release_Ref by (metis prod.collapse)
        ultimately show ?thesis using True Release_Ref len release_eq [of g x] by (auto simp: put_slot_at)
      qed (use Release_Ref in \<open>auto simp: release_ref_def\<close>)
    qed (use op in simp)
    ultimately show ?thesis using False r by simp
  qed
qed

text \<open>C27: cited evidence stays readable. While a committed extent has more citations than the releases
  that follow, no operation but failing that very handle or the global reset can take it away: whatever
  other reservations, commits, releases and failures run, looking it up returns the same entry.\<close>

theorem extent_cited_stays:
  assumes "length ops + length later < 2 ^ 31 - 2" and "x = fold ext_exec ops new_extent_store"
    and "lookup_committed h x = Some e" and "Reset_All \<notin> set later" and "Fail h \<notin> set later"
    and "count_list later (Release_Ref h) < unat (es_refs x ! fst h)"
  shows "lookup_committed h (fold ext_exec later x) = Some e"
proof -
  have "ext_inv (length ops) x" unfolding assms(2) using assms(1) by (intro ext_run) simp
  then show ?thesis using assms(1,3-6)
  proof (induction later arbitrary: ops x rule: list.induct)
    case (Cons op later)
    have "op = Release_Ref h \<longrightarrow> 1 < unat (es_refs x ! fst h)" using Cons.prems(6) by auto
    from cited_step [OF Cons.prems(1) _ Cons.prems(3) _ _ this] Cons.prems
    have step: "lookup_committed h (ext_exec op x) = Some e"
        "unat (es_refs x ! fst h) \<le> unat (es_refs (ext_exec op x) ! fst h) + (if op = Release_Ref h then 1 else 0)"
      by auto
    have "ext_inv (length (op # ops)) (ext_exec op x)" using ext_exec_inv [OF Cons.prems(1), of op] Cons.prems(2) by simp
    from Cons.IH [OF this] step Cons.prems show ?case by (auto split: if_splits)
  qed simp
qed

definition example_cited :: "ext_op list" where
  "example_cited = [Reserve_Extent Fam_append Cls_ordinary_decode 0 0 0 1 True, Add_Ref (0, 3), Add_Ref (0, 3), Commit (0, 3)]"

theorem extent_cited_stays_witness:
  "lookup_committed (0, 3) (fold ext_exec [Release_Ref (0, 3), Commit (0, 3)] (fold ext_exec example_cited new_extent_store)) \<noteq> None"
proof -
  let ?x = "fold ext_exec example_cited new_extent_store"
  have x: "lookup_committed (0, 3) ?x \<noteq> None" "unat (es_refs ?x ! 0) = 2"
    by (simp_all add: example_cited_def example_reserve_first add_ref_eq commit_def resolve_eq lookup_committed_def
        handle_valid_def slot_matches_def put_slot_at new_store_simps)
  then obtain e where e: "lookup_committed (0, 3) ?x = Some e" by blast
  have n: "length example_cited + length [Release_Ref (0, 3), Commit (0, 3)] < 2 ^ 31 - 2" by (simp add: example_cited_def)
  from extent_cited_stays [OF n refl e] x(2) show ?thesis by simp
qed

section \<open>Past the bound\<close>

text \<open>Reserving the slot on top of the free list and failing it at once puts it back on top.\<close>

definition extent_cycle :: "extent_store \<Rightarrow> extent_store" where
  "extent_cycle x = (let (h, y) = example_reserve x in snd (fail h y))"

definition on_top :: "nat \<Rightarrow> extent_store \<Rightarrow> bool" where
  "on_top g x \<longleftrightarrow> length (es_entries x) = CAPACITY \<and> length (es_refs x) = CAPACITY \<and> es_free x = 0 # [1..<CAPACITY] \<and>
     gen_of x 0 = of_nat g"

lemma extent_cycle_top:
  assumes "on_top (2 * k) x" and "k < 2 ^ 31 - 1"
  shows "on_top (2 * (k + 1)) (extent_cycle x) \<and> fst (example_reserve x) = (0, of_nat (2 * k + 1))"
proof -
  have u: "unat (of_nat (2 * k) :: u32) = 2 * k" using assms(2) by (intro unat_of_nat_u32) simp
  have g: "\<not> 0xFFFFFFFD \<le> gen_of x 0" using assms u by (simp add: on_top_def word_le_nat_alt)
  have "unat (of_nat (2 * k + 1) :: u32) = 2 * k + 1" using assms(2) by (intro unat_of_nat_u32) simp
  then have nz: "(of_nat (2 * k + 1) :: u32) \<noteq> 0" by (metis add_is_0 unat_0 zero_neq_one)
  show ?thesis using assms g nz CAPACITY_pos
    by (simp add: on_top_def extent_cycle_def reserve_eq fail_def resolve_eq handle_valid_def slot_matches_def put_slot_at add.commute)
qed

lemma extent_cycles: "k \<le> 2 ^ 31 - 2 \<Longrightarrow> on_top (2 * (k + 1)) ((extent_cycle ^^ k) new_extent_store)"
proof (induction k)
  case 0
  then show ?case by (simp add: on_top_def new_store_simps)
next
  case (Suc k)
  then show ?case using extent_cycle_top [of "k + 1" "(extent_cycle ^^ k) new_extent_store"] by simp
qed

text \<open>The generations do wrap. Failing each reservation of one slot at once uses its generations up in
  \<open>2 ^ 31 - 2\<close> rounds, and no further reservation is admitted; the slab reset then rebases the slot to
  generation zero instead of past every outstanding reference, so the second reservation after the
  reset is given the very reference of the first reservation ever made.\<close>

theorem extent_generation_wraps:
  "let x = (extent_cycle ^^ (2 ^ 31 - 2)) new_extent_store
   in gen_of x 0 = 0xFFFFFFFE \<and> fst (example_reserve x) = (0, 0) \<and> gen_of (reset_all x) 0 = 0 \<and>
      fst (example_reserve (extent_cycle (reset_all x))) = fst (example_reserve new_extent_store)"
proof -
  let ?x = "(extent_cycle ^^ (2 ^ 31 - 2)) new_extent_store"
  have top: "on_top (2 * (2 ^ 31 - 2 + 1)) ?x" by (rule extent_cycles) (rule order_refl)
  then have g: "gen_of ?x 0 = 0xFFFFFFFE" by (simp add: on_top_def)
  have "fst (example_reserve ?x) = (0, 0)" using top g by (simp add: on_top_def reserve_eq)
  moreover have zero: "gen_of (reset_all ?x) 0 = 0" using top g CAPACITY_pos by (simp add: on_top_def reset_all_def)
  moreover have "on_top (2 * 0) (reset_all ?x)"
    using top zero upt_conv_Cons [OF CAPACITY_pos] by (simp add: on_top_def reset_all_def)
  from extent_cycle_top [OF this] have "on_top (2 * 1) (extent_cycle (reset_all ?x))" by simp
  from extent_cycle_top [OF this] have "fst (example_reserve (extent_cycle (reset_all ?x))) = (0, 3)" by simp
  ultimately show ?thesis using g by (simp add: example_reserve_first Let_def)
qed

end
