(* ===== verification/Vbr_Registry.thy ===== *)
theory Vbr_Registry
  imports Vbr_Operation Kv_Cells
begin

text \<open>
  The live-operation registry of \<^verbatim>\<open>src/src/llama-vbr-operation.cpp\<close>: identities from a counter that
  is never reused, a fixed table of live identities probed from a hash slot, and the binding kept
  for every live operation. The compare-and-exchange loops run under the registry mutex or on one
  atomic counter, so an operation is one step here. The locale \<open>keyed_store\<close> states the contract
  the registry gives its clients: what is found under an identity after each operation.
\<close>

definition VBR_OPERATION_REGISTRY_CAPACITY :: nat where "VBR_OPERATION_REGISTRY_CAPACITY = 4096"

definition U64_MAX :: u64 where "U64_MAX = - 1"

record registry =
  r_next :: u64
  r_exhausted :: bool
  r_live :: "u64 list"
  r_bindings :: "operation_binding list"

definition new_registry :: registry where
  "new_registry = \<lparr> r_next = 1, r_exhausted = False,
     r_live = replicate VBR_OPERATION_REGISTRY_CAPACITY 0,
     r_bindings = replicate VBR_OPERATION_REGISTRY_CAPACITY empty_binding \<rparr>"

definition vbr_operation_allocate :: "registry \<Rightarrow> u64 option \<times> registry" where
  "vbr_operation_allocate g =
    (if r_exhausted g then (None, g)
     else if r_next g = 0 then (None, g\<lparr> r_exhausted := True \<rparr>)
     else if r_next g = U64_MAX then (None, g\<lparr> r_exhausted := True \<rparr>)
     else (Some (r_next g), g\<lparr> r_next := r_next g + 1 \<rparr>))"

definition vbr_operation_slot :: "u64 \<Rightarrow> nat" where
  "vbr_operation_slot i = unat (i mod of_nat VBR_OPERATION_REGISTRY_CAPACITY)"

text \<open>The probe loop all operations share: the first slot after the hash slot, cyclically.\<close>

fun probe :: "(u64 \<Rightarrow> bool) \<Rightarrow> u64 list \<Rightarrow> nat \<Rightarrow> nat \<Rightarrow> nat option" where
  "probe P live first 0 = None"
| "probe P live first (Suc n) =
    (let i = VBR_OPERATION_REGISTRY_CAPACITY - Suc n;
         slot = (first + i) mod VBR_OPERATION_REGISTRY_CAPACITY
     in if P (live ! slot) then Some slot else probe P live first n)"

definition probe_live :: "(u64 \<Rightarrow> bool) \<Rightarrow> u64 \<Rightarrow> registry \<Rightarrow> nat option" where
  "probe_live P i g = probe P (r_live g) (vbr_operation_slot i) VBR_OPERATION_REGISTRY_CAPACITY"

definition target_valid :: "operation_kind \<Rightarrow> operation_target \<Rightarrow> bool" where
  "target_valid kind t \<longleftrightarrow> \<not> (
     class_index (t_class t) \<ge> class_index Cls_count \<or>
     t_phase t \<noteq> Ph_mutate \<or>
     t_registrants t = 0 \<or>
     t_registrants t AND NOT (vbr_operation_kind_registrants kind) \<noteq> 0 \<or>
     (kind \<noteq> Kind_recovery \<and> \<not> vbr_controller_instance_id_is_set (t_instance t)) \<or>
     t_seq t < -1 \<or> t_seq t \<ge> int LLAMA_MAX_SEQ \<or>
     \<not> vbr_target_range_valid kind (t_range t))"

definition binding_valid :: "operation_binding \<Rightarrow> bool" where
  "binding_valid b \<longleftrightarrow>
     \<not> (kind_index (b_kind b) \<ge> kind_index Kind_count \<or>
        phase_index (b_phase b) \<ge> phase_index Ph_count \<or>
        length (b_targets b) > MAX_TARGETS \<or>
        (b_phase b = Ph_mutate \<and> length (b_targets b) = 0)) \<and>
     list_all (target_valid (b_kind b)) (b_targets b)"

text \<open>The result is the new identity, 0 when refused; the caller's binding gets it too.\<close>

definition vbr_operation_registry_begin :: "operation_binding \<Rightarrow> registry \<Rightarrow> u64 \<times> operation_binding \<times> registry" where
  "vbr_operation_registry_begin b g =
    (if b_id b \<noteq> 0 then (0, b, g)
     else if \<not> binding_valid b then (0, b, g)
     else (case vbr_operation_allocate g of
         (None, g1) \<Rightarrow> (0, b, g1)
       | (Some i, g1) \<Rightarrow>
          (case probe_live (\<lambda>x. x = 0) i g1 of
             None \<Rightarrow> (0, b, g1)
           | Some slot \<Rightarrow> (i, b\<lparr> b_id := i \<rparr>,
               g1\<lparr> r_bindings := (r_bindings g1)[slot := b\<lparr> b_id := i \<rparr>], r_live := (r_live g1)[slot := i] \<rparr>))))"

definition vbr_operation_registry_end :: "u64 \<Rightarrow> registry \<Rightarrow> bool \<times> registry" where
  "vbr_operation_registry_end i g =
    (if i = 0 then (False, g)
     else (case probe_live (\<lambda>x. x = i) i g of
             None \<Rightarrow> (False, g)
           | Some slot \<Rightarrow> (True, g\<lparr> r_live := (r_live g)[slot := 0] \<rparr>)))"

definition vbr_operation_registry_is_live :: "u64 \<Rightarrow> registry \<Rightarrow> bool" where
  "vbr_operation_registry_is_live i g \<longleftrightarrow> i \<noteq> 0 \<and> probe_live (\<lambda>x. x = i) i g \<noteq> None"

definition vbr_operation_registry_has_capacity :: "registry \<Rightarrow> bool" where
  "vbr_operation_registry_has_capacity g \<longleftrightarrow> list_ex (\<lambda>x. x = 0) (r_live g)"

definition vbr_operation_registry_binding :: "u64 \<Rightarrow> registry \<Rightarrow> operation_binding option" where
  "vbr_operation_registry_binding i g =
    (if i = 0 then None
     else map_option (\<lambda>slot. r_bindings g ! slot) (probe_live (\<lambda>x. x = i) i g))"

text \<open>The quiescence scan; \<open>None\<close> is its failed assertion.\<close>

fun quiescent_scan :: "instance_id list \<Rightarrow> u64 \<Rightarrow> (u64 \<times> operation_binding) list \<Rightarrow> bool option" where
  "quiescent_scan instances allowed [] = Some True"
| "quiescent_scan instances allowed ((live, b) # rest) =
    (if live = 0 \<or> live = U64_MAX then quiescent_scan instances allowed rest
     else do {
       assertion (b_id b = live);
       if allowed \<noteq> 0 \<and> b_id b = allowed then quiescent_scan instances allowed rest
       else if list_ex (\<lambda>t. list_ex (\<lambda>i. \<not> vbr_controller_instance_id_is_set (t_instance t) \<or> t_instance t = i) instances)
                 (b_targets b)
            then Some False
       else quiescent_scan instances allowed rest })"

definition vbr_operation_registry_quiescent_for_except :: "instance_id list \<Rightarrow> u64 \<Rightarrow> registry \<Rightarrow> bool option" where
  "vbr_operation_registry_quiescent_for_except instances allowed g =
    (if instances = [] then Some False
     else quiescent_scan instances allowed (zip (r_live g) (r_bindings g)))"

definition vbr_operation_registry_quiescent_for :: "instance_id list \<Rightarrow> registry \<Rightarrow> bool option" where
  "vbr_operation_registry_quiescent_for instances g = vbr_operation_registry_quiescent_for_except instances 0 g"

section \<open>The probe\<close>

abbreviation CAP :: nat where "CAP \<equiv> VBR_OPERATION_REGISTRY_CAPACITY"

lemma CAP_pos: "0 < CAP" by (simp add: VBR_OPERATION_REGISTRY_CAPACITY_def)

lemma probe_Some: "probe P live first n = Some slot \<Longrightarrow> slot < CAP \<and> P (live ! slot)"
  by (induction n) (auto simp: Let_def CAP_pos split: if_splits)

lemma probe_None: "probe P live first n = None \<longleftrightarrow> (\<forall>k < n. \<not> P (live ! ((first + (CAP - Suc k)) mod CAP)))"
  by (induction n) (auto simp: Let_def less_Suc_eq)

lemma cyclic_cover:
  assumes "slot < CAP"
  shows "\<exists>k < CAP. (first + (CAP - Suc k)) mod CAP = slot"
proof -
  let ?i = "(slot + CAP - first mod CAP) mod CAP"
  have i: "?i < CAP" using CAP_pos by simp
  have "(first + ?i) mod CAP = (first mod CAP + (slot + CAP - first mod CAP)) mod CAP"
    by (simp add: mod_simps)
  also have "first mod CAP + (slot + CAP - first mod CAP) = slot + CAP"
    using mod_less_divisor [OF CAP_pos, of first] by linarith
  finally have "(first + ?i) mod CAP = slot" using assms by simp
  moreover have "CAP - Suc (CAP - Suc ?i) = ?i" "CAP - Suc ?i < CAP" using i by auto
  ultimately show ?thesis by (intro exI [of _ "CAP - Suc ?i"]) simp
qed

lemma probe_live_None: "probe_live P i g = None \<longleftrightarrow> (\<forall>slot < CAP. \<not> P (r_live g ! slot))"
  unfolding probe_live_def probe_None using cyclic_cover CAP_pos by (metis mod_less_divisor)

lemma probe_live_Some: "probe_live P i g = Some slot \<Longrightarrow> slot < CAP \<and> P (r_live g ! slot)"
  unfolding probe_live_def by (rule probe_Some)


section \<open>The contract: a store with fresh keys\<close>

locale keyed_store =
  fixes lookup :: "'k \<Rightarrow> 's \<Rightarrow> 'v option"
    and invar :: "'s \<Rightarrow> bool"
    and issued :: "'s \<Rightarrow> 'k \<Rightarrow> bool"
    and tag :: "'k \<Rightarrow> 'v \<Rightarrow> 'v"
    and put :: "'v \<Rightarrow> 's \<Rightarrow> 'k option \<times> 's"
    and remove :: "'k \<Rightarrow> 's \<Rightarrow> 's"
  assumes put_Some: "invar s \<Longrightarrow> put v s = (Some k, s') \<Longrightarrow> invar s' \<and> \<not> issued s k \<and>
      lookup k s' = Some (tag k v) \<and> (\<forall>k'. k' \<noteq> k \<longrightarrow> lookup k' s' = lookup k' s) \<and>
      issued s' k \<and> (\<forall>k'. issued s k' \<longrightarrow> issued s' k')"
    and put_None: "invar s \<Longrightarrow> put v s = (None, s') \<Longrightarrow> invar s' \<and>
      (\<forall>k'. lookup k' s' = lookup k' s) \<and> (\<forall>k'. issued s k' \<longrightarrow> issued s' k')"
    and remove_ok: "invar s \<Longrightarrow> invar (remove k s) \<and> lookup k (remove k s) = None \<and>
      (\<forall>k'. k' \<noteq> k \<longrightarrow> lookup k' (remove k s) = lookup k' s) \<and>
      (\<forall>k'. issued s k' \<longrightarrow> issued (remove k s) k')"
    and lookup_issued: "invar s \<Longrightarrow> lookup k s = Some v \<Longrightarrow> issued s k"
begin

definition step :: "'v + 'k \<Rightarrow> 's \<Rightarrow> 's" where
  "step op s = (case op of Inl v \<Rightarrow> snd (put v s) | Inr k \<Rightarrow> remove k s)"

lemma step_keeps:
  assumes "invar s"
  shows "invar (step op s) \<and> (\<forall>k. issued s k \<longrightarrow> issued (step op s) k)"
proof (cases op)
  case (Inl v)
  obtain r s' where "put v s = (r, s')" by (cases "put v s")
  then show ?thesis using put_Some [OF assms] put_None [OF assms] Inl by (cases r) (auto simp: step_def)
qed (use remove_ok [OF assms] in \<open>simp add: step_def\<close>)

lemma step_lookup:
  assumes "invar s" and "issued s k" and "op \<noteq> Inr k"
  shows "lookup k (step op s) = lookup k s"
proof (cases op)
  case (Inl v)
  obtain r s' where r: "put v s = (r, s')" by (cases "put v s")
  show ?thesis
  proof (cases r)
    case None
    with put_None [OF assms(1), of v] r Inl show ?thesis by (simp add: step_def)
  next
    case (Some k')
    with put_Some [OF assms(1), of v] r assms(2) have "k \<noteq> k'" by blast
    with put_Some [OF assms(1), of v] r Some Inl show ?thesis by (simp add: step_def)
  qed
next
  case (Inr k')
  then show ?thesis using remove_ok [OF assms(1), of k'] assms(3) by (auto simp: step_def)
qed

lemma run_keeps: "invar s \<Longrightarrow> invar (fold step ops s) \<and> (\<forall>k. issued s k \<longrightarrow> issued (fold step ops s) k)"
proof (induction ops arbitrary: s)
  case (Cons op ops)
  have st: "invar (step op s)" "\<And>k. issued s k \<Longrightarrow> issued (step op s) k"
    using step_keeps [OF Cons.prems] by auto
  with Cons.IH [OF st(1)] show ?case by simp
qed simp

lemma run_lookup:
  "invar s \<Longrightarrow> issued s k \<Longrightarrow> Inr k \<notin> set ops \<Longrightarrow> lookup k (fold step ops s) = lookup k s"
proof (induction ops arbitrary: s)
  case (Cons op ops)
  then have "op \<noteq> Inr k" by auto
  then show ?case using Cons step_keeps [OF Cons.prems(1), of op] step_lookup [OF Cons.prems(1,2)] by simp
qed simp

lemma gone_stays_gone: "invar s \<Longrightarrow> issued s k \<Longrightarrow> lookup k s = None \<Longrightarrow> lookup k (fold step ops s) = None"
proof (induction ops arbitrary: s)
  case (Cons op ops)
  have "lookup k (step op s) = None"
    using step_lookup [OF Cons.prems(1,2), of op] remove_ok [OF Cons.prems(1), of k] Cons.prems(3)
    by (cases "op = Inr k") (auto simp: step_def)
  then show ?case using Cons step_keeps [OF Cons.prems(1), of op] by simp
qed simp

lemma put_fresh:
  assumes "invar s" and "issued s k" and "put v (fold step ops s) = (Some k', s')"
  shows "k' \<noteq> k"
  using run_keeps [OF assms(1), of ops] put_Some [OF _ assms(3)] assms(2) by blast

end

section \<open>The registry meets it\<close>

definition reg_inv :: "registry \<Rightarrow> bool" where
  "reg_inv g \<longleftrightarrow> length (r_live g) = CAP \<and> length (r_bindings g) = CAP \<and> r_next g \<noteq> 0 \<and>
     (\<forall>s < CAP. r_live g ! s \<noteq> 0 \<longrightarrow> r_live g ! s < r_next g \<and> b_id (r_bindings g ! s) = r_live g ! s \<and>
        binding_valid (r_bindings g ! s)) \<and>
     (\<forall>s < CAP. \<forall>t < CAP. r_live g ! s = r_live g ! t \<and> r_live g ! s \<noteq> 0 \<longrightarrow> s = t)"

definition id_issued :: "registry \<Rightarrow> u64 \<Rightarrow> bool" where
  "id_issued g i \<longleftrightarrow> i \<noteq> 0 \<and> i < r_next g"

definition reg_put :: "operation_binding \<Rightarrow> registry \<Rightarrow> u64 option \<times> registry" where
  "reg_put b g = (case vbr_operation_registry_begin b g of (i, _, g') \<Rightarrow> (if i = 0 then None else Some i, g'))"

abbreviation reg_remove :: "u64 \<Rightarrow> registry \<Rightarrow> registry" where
  "reg_remove i g \<equiv> snd (vbr_operation_registry_end i g)"

lemma reg_inv_new: "reg_inv new_registry"
  by (simp add: reg_inv_def new_registry_def)

lemma binding_valid_id [simp]: "binding_valid (b\<lparr> b_id := i \<rparr>) = binding_valid b"
  by (simp add: binding_valid_def)

lemma reg_invD:
  assumes "reg_inv g" and "s < CAP" and "r_live g ! s \<noteq> 0"
  shows "r_live g ! s < r_next g" "b_id (r_bindings g ! s) = r_live g ! s" "binding_valid (r_bindings g ! s)"
    "t < CAP \<Longrightarrow> r_live g ! t = r_live g ! s \<Longrightarrow> t = s"
  using assms by (auto simp: reg_inv_def)

lemma probe_live_id:
  assumes "reg_inv g" and "i \<noteq> 0" and "s < CAP" and "r_live g ! s = i"
  shows "probe_live (\<lambda>x. x = i) i g = Some s"
proof (cases "probe_live (\<lambda>x. x = i) i g")
  case None
  then show ?thesis using assms by (auto simp: probe_live_None)
next
  case (Some t)
  with probe_live_Some [OF this] reg_invD(4) [OF assms(1,3), of t] assms(2,4) show ?thesis by simp
qed

text \<open>What is found under an identity: the binding of the one slot that holds it.\<close>

lemma lookup_iff:
  assumes "reg_inv g"
  shows "vbr_operation_registry_binding i g = Some b \<longleftrightarrow>
    i \<noteq> 0 \<and> (\<exists>s < CAP. r_live g ! s = i \<and> r_bindings g ! s = b)"
proof
  assume "vbr_operation_registry_binding i g = Some b"
  then show "i \<noteq> 0 \<and> (\<exists>s < CAP. r_live g ! s = i \<and> r_bindings g ! s = b)"
    by (auto simp: vbr_operation_registry_binding_def split: if_splits dest!: probe_live_Some)
next
  assume "i \<noteq> 0 \<and> (\<exists>s < CAP. r_live g ! s = i \<and> r_bindings g ! s = b)"
  then show "vbr_operation_registry_binding i g = Some b"
    using probe_live_id [OF assms] by (auto simp: vbr_operation_registry_binding_def)
qed

lemma lookup_eqI:
  assumes "reg_inv g" "reg_inv h"
    and "\<And>b. i \<noteq> 0 \<Longrightarrow> (\<exists>s < CAP. r_live g ! s = i \<and> r_bindings g ! s = b) \<longleftrightarrow> (\<exists>s < CAP. r_live h ! s = i \<and> r_bindings h ! s = b)"
  shows "vbr_operation_registry_binding i g = vbr_operation_registry_binding i h"
  using assms by (intro option.expand; cases "vbr_operation_registry_binding i g"; cases "vbr_operation_registry_binding i h")
    (auto simp: lookup_iff, (metis lookup_iff option.distinct(1) option.inject)+)


lemma inc_less: "i \<noteq> U64_MAX \<Longrightarrow> (i < i + 1 \<and> i + 1 \<noteq> 0)" for i :: u64
proof -
  assume "i \<noteq> U64_MAX"
  then have "unat i \<noteq> unat (- 1 :: u64)" by (simp add: U64_MAX_def word_unat_eq_iff)
  then have "unat i \<noteq> 2 ^ 64 - 1" by (simp add: unsigned_minus_1_eq_mask mask_eq_exp_minus_1)
  moreover have "unat i < 2 ^ 64" using unsigned_less [of i] by simp
  ultimately have "unat (i + 1) = unat i + 1" by (simp add: unat_word_ariths)
  then show ?thesis by (metis add.commute less_add_one unat_0 word_less_nat_alt add_is_0 one_neq_zero)
qed

lemma allocate_cases:
  assumes "reg_inv g"
  obtains (none) g1 where "vbr_operation_allocate g = (None, g1)" "g1 = g \<or> g1 = g\<lparr> r_exhausted := True \<rparr>"
    "r_exhausted g \<or> r_next g = U64_MAX"
  | (some) "vbr_operation_allocate g = (Some (r_next g), g\<lparr> r_next := r_next g + 1 \<rparr>)" "\<not> r_exhausted g"
    "r_next g \<noteq> U64_MAX" "r_next g < r_next g + 1" "r_next g + 1 \<noteq> 0" "r_next g \<noteq> 0"
  using assms inc_less [of "r_next g"] that unfolding vbr_operation_allocate_def reg_inv_def
  by (smt (verit))

lemma begin_cases:
  assumes "reg_inv g"
  obtains (refused) g1 where "vbr_operation_registry_begin b g = (0, b, g1)" "r_live g1 = r_live g"
    "r_bindings g1 = r_bindings g" "g1 = g \<or> r_next g1 = r_next g \<or> r_next g < r_next g1 \<and> r_next g1 \<noteq> 0"
    "b_id b \<noteq> 0 \<or> \<not> binding_valid b \<or> r_exhausted g \<or> r_next g = U64_MAX \<or> (\<forall>s < CAP. r_live g ! s \<noteq> 0)"
  | (begun) slot where "vbr_operation_registry_begin b g = (r_next g, b\<lparr> b_id := r_next g \<rparr>,
      g\<lparr> r_next := r_next g + 1, r_bindings := (r_bindings g)[slot := b\<lparr> b_id := r_next g \<rparr>],
         r_live := (r_live g)[slot := r_next g] \<rparr>)"
    "b_id b = 0" "binding_valid b" "slot < CAP" "r_live g ! slot = 0" "\<not> r_exhausted g" "r_next g \<noteq> U64_MAX"
    "r_next g < r_next g + 1" "r_next g + 1 \<noteq> 0" "r_next g \<noteq> 0"
proof (cases "b_id b = 0 \<and> binding_valid b")
  case False
  then show thesis by (intro refused [of g]) (auto simp: vbr_operation_registry_begin_def)
next
  case True
  show thesis
  proof (cases rule: allocate_cases [OF assms, case_names none some])
    case (none g1)
    then show thesis using True by (intro refused [of g1]) (auto simp: vbr_operation_registry_begin_def)
  next
    case some
    let ?g1 = "g\<lparr> r_next := r_next g + 1 \<rparr>"
    show thesis
    proof (cases "probe_live (\<lambda>x. x = 0) (r_next g) ?g1")
      case None
      then have "\<forall>s < CAP. r_live g ! s \<noteq> 0" by (simp add: probe_live_None)
      with True some None show thesis
        by (intro refused [of ?g1]) (simp_all add: vbr_operation_registry_begin_def)
    next
      case (Some slot)
      from probe_live_Some [OF this] True some Some show thesis
        by (intro begun [of slot]) (simp_all add: vbr_operation_registry_begin_def)
    qed
  qed
qed


lemma reg_inv_begun:
  assumes inv: "reg_inv g" and "binding_valid b" "slot < CAP" "r_live g ! slot = 0"
    "r_next g < r_next g + 1" "r_next g + 1 \<noteq> 0"
  shows "reg_inv (g\<lparr> r_next := r_next g + 1, r_bindings := (r_bindings g)[slot := b\<lparr> b_id := r_next g \<rparr>],
     r_live := (r_live g)[slot := r_next g] \<rparr>)"
proof -
  have "r_live g ! s < r_next g + 1 \<and> r_live g ! s \<noteq> r_next g" if "s < CAP" "r_live g ! s \<noteq> 0" for s
    using reg_invD(1) [OF inv that] assms(5) by auto
  then show ?thesis
    using assms by (auto simp: reg_inv_def nth_list_update_if)
qed

lemma reg_inv_ended: "reg_inv g \<Longrightarrow> reg_inv (g\<lparr> r_live := (r_live g)[slot := 0] \<rparr>)"
  by (cases "slot < CAP") (auto simp: reg_inv_def nth_list_update_if split: if_splits)

lemma reg_inv_same:
  assumes "reg_inv g" and "r_live h = r_live g" and "r_bindings h = r_bindings g"
    and next_up: "r_next h = r_next g \<or> r_next g < r_next h \<and> r_next h \<noteq> 0"
  shows "reg_inv h"
proof -
  have "x < r_next h" if "x < r_next g" for x using that next_up by auto
  with assms show ?thesis by (auto simp: reg_inv_def)
qed

lemma lookup_issued_id: "reg_inv g \<Longrightarrow> vbr_operation_registry_binding i g = Some b \<Longrightarrow> id_issued g i"
  using reg_invD(1) by (fastforce simp: lookup_iff id_issued_def)

lemma reg_put_Some:
  assumes inv: "reg_inv g" and "reg_put b g = (Some i, g')"
  shows "reg_inv g' \<and> \<not> id_issued g i \<and> vbr_operation_registry_binding i g' = Some (b\<lparr> b_id := i \<rparr>) \<and>
    (\<forall>j. j \<noteq> i \<longrightarrow> vbr_operation_registry_binding j g' = vbr_operation_registry_binding j g) \<and>
    id_issued g' i \<and> (\<forall>j. id_issued g j \<longrightarrow> id_issued g' j)"
proof (cases rule: begin_cases [OF inv, of b, case_names refused begun])
  case (begun slot)
  then have g': "g' = g\<lparr> r_next := r_next g + 1, r_bindings := (r_bindings g)[slot := b\<lparr> b_id := r_next g \<rparr>],
       r_live := (r_live g)[slot := r_next g] \<rparr>" and i: "i = r_next g"
    using assms(2) by (auto simp: reg_put_def)
  have inv': "reg_inv g'" unfolding g' by (rule reg_inv_begun [OF inv]) (use begun in auto)
  have len: "slot < length (r_live g)" "slot < length (r_bindings g)"
    using inv begun by (simp_all add: reg_inv_def)
  have "vbr_operation_registry_binding i g' = Some (b\<lparr> b_id := i \<rparr>)"
    using begun len by (simp add: lookup_iff [OF inv'] i) (auto simp: g' intro!: exI [of _ slot])
  moreover have "vbr_operation_registry_binding j g' = vbr_operation_registry_binding j g" if "j \<noteq> i" for j
  proof (rule lookup_eqI [OF inv' inv])
    show "(\<exists>s < CAP. r_live g' ! s = j \<and> r_bindings g' ! s = c) \<longleftrightarrow> (\<exists>s < CAP. r_live g ! s = j \<and> r_bindings g ! s = c)"
      if "j \<noteq> 0" for c
      using \<open>j \<noteq> i\<close> that begun len i by (auto simp: g' nth_list_update_if)
  qed
  ultimately show ?thesis using inv' begun by (auto simp: id_issued_def i g')
qed (use assms in \<open>auto simp: reg_put_def\<close>)

lemma reg_put_None:
  assumes inv: "reg_inv g" and "reg_put b g = (None, g')"
  shows "reg_inv g' \<and> (\<forall>j. vbr_operation_registry_binding j g' = vbr_operation_registry_binding j g) \<and>
    (\<forall>j. id_issued g j \<longrightarrow> id_issued g' j)"
proof (cases rule: begin_cases [OF inv, of b, case_names refused begun])
  case (refused g1)
  then have g1: "g' = g1" using assms(2) by (simp add: reg_put_def)
  have inv': "reg_inv g'" unfolding g1 using refused inv by (intro reg_inv_same [OF inv]) auto
  have "vbr_operation_registry_binding j g' = vbr_operation_registry_binding j g" for j
    by (rule lookup_eqI [OF inv' inv]) (simp add: g1 refused)
  then show ?thesis using inv' refused by (auto simp: g1 id_issued_def)
qed (use assms in \<open>auto simp: reg_put_def\<close>)

lemma reg_remove_ok:
  assumes inv: "reg_inv g"
  shows "reg_inv (reg_remove i g) \<and> vbr_operation_registry_binding i (reg_remove i g) = None \<and>
    (\<forall>j. j \<noteq> i \<longrightarrow> vbr_operation_registry_binding j (reg_remove i g) = vbr_operation_registry_binding j g) \<and>
    (\<forall>j. id_issued g j \<longrightarrow> id_issued (reg_remove i g) j)"
proof (cases "vbr_operation_registry_binding i g")
  case None
  then have "reg_remove i g = g"
    by (auto simp: vbr_operation_registry_binding_def vbr_operation_registry_end_def split: if_splits)
  with None inv show ?thesis by simp
next
  case (Some b)
  then obtain s where s: "i \<noteq> 0" "s < CAP" "r_live g ! s = i" by (auto simp: lookup_iff [OF inv])
  then have h: "reg_remove i g = g\<lparr> r_live := (r_live g)[s := 0] \<rparr>"
    using probe_live_id [OF inv s] by (simp add: vbr_operation_registry_end_def)
  have inv': "reg_inv (reg_remove i g)" unfolding h by (rule reg_inv_ended [OF inv])
  have len: "s < length (r_live g)" using inv s by (simp add: reg_inv_def)
  have "vbr_operation_registry_binding i (reg_remove i g) \<noteq> Some c" for c
  proof
    assume "vbr_operation_registry_binding i (reg_remove i g) = Some c"
    then have "\<exists>t < CAP. r_live (reg_remove i g) ! t = i" unfolding lookup_iff [OF inv'] by blast
    then obtain t where t: "t < CAP" "(r_live g)[s := 0] ! t = i" unfolding h by auto
    have "t \<noteq> s" using t(2) s(1) len by auto
    then have "r_live g ! t = r_live g ! s" using t(2) s(3) by simp
    from reg_invD(4) [OF inv s(2) _ t(1) this] s \<open>t \<noteq> s\<close> show False by simp
  qed
  moreover have "vbr_operation_registry_binding j (reg_remove i g) = vbr_operation_registry_binding j g" if "j \<noteq> i" for j
  proof (rule lookup_eqI [OF inv' inv])
    show "(\<exists>t < CAP. r_live (reg_remove i g) ! t = j \<and> r_bindings (reg_remove i g) ! t = c) \<longleftrightarrow>
        (\<exists>t < CAP. r_live g ! t = j \<and> r_bindings g ! t = c)" if "j \<noteq> 0" for c
      using \<open>j \<noteq> i\<close> that s len by (auto simp: h nth_list_update_if)
  qed
  ultimately show ?thesis using inv' by (auto simp: h id_issued_def)
qed

interpretation reg: keyed_store vbr_operation_registry_binding reg_inv id_issued "\<lambda>i b. b\<lparr> b_id := i \<rparr>" reg_put reg_remove
proof (unfold_locales, goal_cases)
  case (1 g b i g')
  show ?case by (rule reg_put_Some [OF 1])
next
  case (2 g b g')
  show ?case by (rule reg_put_None [OF 2])
next
  case (3 g i)
  show ?case by (rule reg_remove_ok [OF 3])
next
  case (4 g i b)
  show ?case by (rule lookup_issued_id [OF 4])
qed

end
