(* ===== verification/Vbr_Recovery.thy ===== *)
theory Vbr_Recovery
  imports Vbr_Registry
begin

text \<open>
  The failed-operation ring of \<^verbatim>\<open>src/src/llama-vbr-operation.cpp\<close>: records reserved when an operation
  begins, recorded when it fails, resolved through a single-use capability or quarantined until the
  owner acknowledges with a token. Every function holds the registry mutex, so each is one step. A
  capability is the index of its record, negative when empty; its destructor is an operation.
\<close>

datatype recovery_state = Rs_free_slot | Rs_reserved | Rs_recorded | Rs_capability_minted | Rs_awaiting_ack

datatype failure_site = Site_none | Site_metadata_mutation | Site_deferred_byte_copy | Site_publication
  | Site_exception_unwind

datatype operation_outcome = Out_committed | Out_aborted | Out_failed

record failed_record =
  f_binding :: operation_binding
  f_phase :: operation_phase
  f_site :: failure_site
  f_observable :: bool
  f_state :: recovery_state
  f_owner :: instance_id
  f_taken :: bool
  f_taker :: instance_id
  f_src_stream :: u16
  f_dst_stream :: u16
  f_src_range :: "int \<times> int"
  f_src_gens :: "u32 list"

definition empty_record :: failed_record where
  "empty_record = \<lparr> f_binding = empty_binding, f_phase = Ph_root, f_site = Site_none, f_observable = False,
     f_state = Rs_free_slot, f_owner = (0, 0), f_taken = False, f_taker = (0, 0), f_src_stream = 0,
     f_dst_stream = 0, f_src_range = (-1, -1), f_src_gens = [] \<rparr>"

definition RING :: nat where "RING = 64"

record recovery =
  q_ring :: "failed_record list"
  q_nonces :: "u64 list"
  q_nonce_next :: u64
  q_pending :: u32

definition new_recovery :: recovery where
  "new_recovery = \<lparr> q_ring = replicate RING empty_record, q_nonces = replicate RING 0, q_nonce_next = 1, q_pending = 0 \<rparr>"

abbreviation state_at :: "recovery \<Rightarrow> nat \<Rightarrow> recovery_state" where
  "state_at q i \<equiv> f_state (q_ring q ! i)"

definition recovery_slot :: "int \<Rightarrow> nat option" where
  "recovery_slot k = (if k < 0 \<or> k \<ge> int RING then None else Some (nat k))"

definition reserved_record :: "int \<Rightarrow> u64 \<Rightarrow> recovery \<Rightarrow> nat option" where
  "reserved_record k op q =
    (case recovery_slot k of None \<Rightarrow> None
     | Some i \<Rightarrow> if state_at q i = Rs_reserved \<and> b_id (f_binding (q_ring q ! i)) = op then Some i else None)"

definition minted_record :: "int \<Rightarrow> recovery \<Rightarrow> nat option" where
  "minted_record k q =
    (case recovery_slot k of None \<Rightarrow> None
     | Some i \<Rightarrow> if state_at q i = Rs_capability_minted then Some i else None)"

definition set_record :: "nat \<Rightarrow> failed_record \<Rightarrow> recovery \<Rightarrow> recovery" where
  "set_record i r q = q\<lparr> q_ring := (q_ring q)[i := r] \<rparr>"

section \<open>Reservation and failure\<close>

definition autorecorded :: "u64 \<Rightarrow> failed_record \<Rightarrow> failed_record" where
  "autorecorded op r =
    (if f_state r = Rs_reserved \<and> b_id (f_binding r) = op
     then r\<lparr> f_state := Rs_recorded, f_site := Site_exception_unwind, f_phase := b_phase (f_binding r) \<rparr>
     else r)"

definition vbr_recovery_autorecord_on_close :: "u64 \<Rightarrow> recovery \<Rightarrow> recovery" where
  "vbr_recovery_autorecord_on_close op q = q\<lparr> q_ring := map (autorecorded op) (q_ring q) \<rparr>"

text \<open>The lowest slot satisfying a predicate: the loops over the ring.\<close>

fun first_slot :: "(failed_record \<Rightarrow> bool) \<Rightarrow> nat \<Rightarrow> failed_record list \<Rightarrow> nat option" where
  "first_slot P i [] = None"
| "first_slot P i (r # rs) = (if P r then Some i else first_slot P (Suc i) rs)"

definition vbr_recovery_reserve_locked :: "operation_binding \<Rightarrow> instance_id \<Rightarrow> recovery \<Rightarrow> int \<times> recovery" where
  "vbr_recovery_reserve_locked b owner q =
    (if b_id b = 0 then (-1, q)
     else (case first_slot (\<lambda>r. f_state r = Rs_free_slot) 0 (q_ring q) of
         None \<Rightarrow> (-1, q)
       | Some i \<Rightarrow> (int i, set_record i (empty_record\<lparr> f_binding := b, f_owner := owner, f_state := Rs_reserved \<rparr>) q)))"

definition vbr_recovery_reserve :: "u64 \<Rightarrow> instance_id \<Rightarrow> registry \<Rightarrow> recovery \<Rightarrow> int \<times> recovery" where
  "vbr_recovery_reserve op owner g q =
    (case vbr_operation_registry_binding op g of None \<Rightarrow> (-1, q) | Some b \<Rightarrow> vbr_recovery_reserve_locked b owner q)"

definition vbr_recovery_release_unused :: "int \<Rightarrow> u64 \<Rightarrow> recovery \<Rightarrow> bool \<times> recovery" where
  "vbr_recovery_release_unused k op q =
    (case reserved_record k op q of None \<Rightarrow> (False, q) | Some i \<Rightarrow> (True, set_record i empty_record q))"

definition vbr_recovery_record_failure ::
  "int \<Rightarrow> u64 \<Rightarrow> operation_phase \<Rightarrow> failure_site \<Rightarrow> bool \<Rightarrow> recovery \<Rightarrow> bool \<times> recovery" where
  "vbr_recovery_record_failure k op ph site obs q =
    (case reserved_record k op q of None \<Rightarrow> (False, q)
     | Some i \<Rightarrow> (True, set_record i ((q_ring q ! i)\<lparr> f_state := Rs_recorded, f_phase := ph, f_site := site,
           f_observable := obs \<rparr>) q))"

definition vbr_recovery_set_source_token ::
  "int \<Rightarrow> u64 \<Rightarrow> u16 \<Rightarrow> u16 \<Rightarrow> int \<times> int \<Rightarrow> u32 list \<Rightarrow> recovery \<Rightarrow> bool \<times> recovery" where
  "vbr_recovery_set_source_token k op src dst rng gens q =
    (case reserved_record k op q of None \<Rightarrow> (False, q)
     | Some i \<Rightarrow> (True, set_record i ((q_ring q ! i)\<lparr> f_src_stream := src, f_dst_stream := dst,
           f_src_range := rng, f_src_gens := gens \<rparr>) q))"

definition vbr_recovery_get_record :: "int \<Rightarrow> recovery \<Rightarrow> failed_record option" where
  "vbr_recovery_get_record k q =
    (case recovery_slot k of None \<Rightarrow> None
     | Some i \<Rightarrow> if state_at q i = Rs_free_slot then None else Some (q_ring q ! i))"

definition vbr_operation_registry_close ::
  "u64 \<Rightarrow> operation_outcome \<Rightarrow> registry \<times> recovery \<Rightarrow> bool \<times> registry \<times> recovery" where
  "vbr_operation_registry_close op outcome s =
    (let q' = (if outcome \<noteq> Out_committed then vbr_recovery_autorecord_on_close op (snd s) else snd s);
         (ok, g') = vbr_operation_registry_end op (fst s)
     in (ok, g', q'))"

section \<open>Capabilities\<close>

definition vbr_recovery_mint :: "int \<Rightarrow> recovery \<Rightarrow> int \<times> recovery" where
  "vbr_recovery_mint k q =
    (case recovery_slot k of None \<Rightarrow> (-1, q)
     | Some i \<Rightarrow> if state_at q i \<noteq> Rs_recorded then (-1, q)
         else (k, set_record i ((q_ring q ! i)\<lparr> f_state := Rs_capability_minted \<rparr>) q))"

text \<open>Awaiting acknowledgement: a fresh nonce and one more pending record.\<close>

definition quarantine :: "nat \<Rightarrow> recovery \<Rightarrow> recovery" where
  "quarantine i q = (set_record i ((q_ring q ! i)\<lparr> f_state := Rs_awaiting_ack \<rparr>) q)\<lparr>
     q_nonces := (q_nonces q)[i := q_nonce_next q], q_nonce_next := q_nonce_next q + 1,
     q_pending := q_pending q + 1 \<rparr>"

definition capability_destroy :: "int \<Rightarrow> recovery \<Rightarrow> recovery" where
  "capability_destroy k q =
    (if k < 0 then q else (case minted_record k q of None \<Rightarrow> q | Some i \<Rightarrow> quarantine i q))"

definition target_allowed :: "int \<Rightarrow> u16 \<Rightarrow> int \<Rightarrow> int \<Rightarrow> int \<Rightarrow> recovery \<Rightarrow> bool" where
  "target_allowed k s sq p0 p1 q =
    (case minted_record k q of None \<Rightarrow> False
     | Some i \<Rightarrow> list_ex (\<lambda>t. stream_matches t s \<and> (t_seq t < 0 \<or> sq = t_seq t) \<and>
           (fst (t_range t) < 0 \<or> (p0 \<ge> fst (t_range t) \<and> p1 \<le> snd (t_range t))))
         (b_targets (f_binding (q_ring q ! i))))"

text \<open>The capability's index after the call is the second component.\<close>

definition resolve_completed :: "int \<Rightarrow> recovery \<Rightarrow> bool \<times> int \<times> recovery" where
  "resolve_completed k q =
    (case minted_record k q of None \<Rightarrow> (False, k, q) | Some i \<Rightarrow> (True, -1, set_record i empty_record q))"

definition resolve_quarantined :: "int \<Rightarrow> recovery \<Rightarrow> bool \<times> int \<times> recovery" where
  "resolve_quarantined k q =
    (case minted_record k q of None \<Rightarrow> (False, k, q) | Some i \<Rightarrow> (True, -1, quarantine i q))"

section \<open>Quarantine\<close>

type_synonym quarantine_token = "int \<times> u64"

definition token_set :: "quarantine_token \<Rightarrow> bool" where
  "token_set t \<longleftrightarrow> fst t \<ge> 0 \<and> snd t \<noteq> 0"

definition owner_serves :: "instance_id \<Rightarrow> failed_record \<Rightarrow> bool" where
  "owner_serves inst r \<longleftrightarrow> \<not> vbr_controller_instance_id_is_set (f_owner r) \<or> f_owner r = inst"

definition vbr_recovery_take_quarantine ::
  "instance_id \<Rightarrow> recovery \<Rightarrow> (quarantine_token \<times> operation_binding) option \<times> recovery" where
  "vbr_recovery_take_quarantine inst q =
    (if q_pending q = 0 then (None, q)
     else (case first_slot (\<lambda>r. \<not> (f_state r \<noteq> Rs_awaiting_ack \<or> f_taken r) \<and> owner_serves inst r) 0 (q_ring q) of
         None \<Rightarrow> (None, q)
       | Some i \<Rightarrow> (Some ((int i, q_nonces q ! i), f_binding (q_ring q ! i)),
           set_record i ((q_ring q ! i)\<lparr> f_taken := True, f_taker := inst \<rparr>) q)))"

definition token_serves :: "quarantine_token \<Rightarrow> instance_id \<Rightarrow> recovery \<Rightarrow> bool" where
  "token_serves t inst q \<longleftrightarrow> token_set t \<and> fst t < int RING \<and>
     state_at q (nat (fst t)) = Rs_awaiting_ack \<and> f_taken (q_ring q ! nat (fst t)) \<and>
     f_taker (q_ring q ! nat (fst t)) = inst \<and> q_nonces q ! nat (fst t) = snd t"

definition vbr_recovery_untake_quarantine :: "quarantine_token \<Rightarrow> instance_id \<Rightarrow> recovery \<Rightarrow> bool \<times> recovery" where
  "vbr_recovery_untake_quarantine t inst q =
    (if \<not> token_serves t inst q then (False, q)
     else (True, set_record (nat (fst t)) ((q_ring q ! nat (fst t))\<lparr> f_taken := False, f_taker := (0, 0) \<rparr>) q))"

definition vbr_recovery_ack_quarantine :: "quarantine_token \<Rightarrow> instance_id \<Rightarrow> recovery \<Rightarrow> bool \<times> recovery" where
  "vbr_recovery_ack_quarantine t inst q =
    (if \<not> token_serves t inst q then (False, q)
     else (True, (set_record (nat (fst t)) empty_record q)\<lparr> q_nonces := (q_nonces q)[nat (fst t) := 0],
             q_pending := q_pending q - 1 \<rparr>))"

definition advance_one :: "instance_id \<Rightarrow> nat \<Rightarrow> nat \<times> recovery \<Rightarrow> nat \<times> recovery" where
  "advance_one inst i s =
    (if state_at (snd s) i \<noteq> Rs_recorded then s
     else if \<not> owner_serves inst (q_ring (snd s) ! i) then s
     else (fst s + 1, quarantine i (snd s)))"

definition vbr_recovery_advance_recorded :: "instance_id \<Rightarrow> recovery \<Rightarrow> nat \<times> recovery" where
  "vbr_recovery_advance_recorded inst q = fold (advance_one inst) [0..<RING] (0, q)"

section \<open>Pending work\<close>

definition ring_has_nonfree :: "instance_id \<Rightarrow> bool \<Rightarrow> u64 \<Rightarrow> recovery \<Rightarrow> bool" where
  "ring_has_nonfree inst count_wildcard allowed q \<longleftrightarrow>
     list_ex (\<lambda>r. \<not> (allowed \<noteq> 0 \<and> f_state r = Rs_reserved \<and> b_id (f_binding r) = allowed) \<and>
       f_state r \<noteq> Rs_free_slot \<and>
       (f_owner r = inst \<or> (count_wildcard \<and> \<not> vbr_controller_instance_id_is_set (f_owner r)))) (q_ring q)"

definition vbr_recovery_pending_for :: "instance_id \<Rightarrow> recovery \<Rightarrow> bool" where
  "vbr_recovery_pending_for inst q = ring_has_nonfree inst True 0 q"

definition vbr_recovery_pending_for_except :: "instance_id \<Rightarrow> u64 \<Rightarrow> recovery \<Rightarrow> bool" where
  "vbr_recovery_pending_for_except inst allowed q = (if allowed = 0 then True else ring_has_nonfree inst True allowed q)"

definition vbr_recovery_owned_by :: "instance_id \<Rightarrow> recovery \<Rightarrow> bool" where
  "vbr_recovery_owned_by inst q =
    (if \<not> vbr_controller_instance_id_is_set inst then False else ring_has_nonfree inst False 0 q)"

section \<open>Owned operations\<close>

text \<open>\<open>vbr_scoped_operation\<close>: the binding it owns; closing, destroying and releasing forget its identity.\<close>

definition scoped_operation :: "operation_binding \<Rightarrow> registry \<Rightarrow> operation_binding \<times> registry" where
  "scoped_operation b g = snd (vbr_operation_registry_begin (b\<lparr> b_id := 0 \<rparr>) g)"

definition scoped_close ::
  "operation_outcome \<Rightarrow> operation_binding \<Rightarrow> registry \<times> recovery \<Rightarrow> bool \<times> operation_binding \<times> registry \<times> recovery" where
  "scoped_close outcome b s =
    (if b_id b = 0 then (False, b, s)
     else let (ok, s') = vbr_operation_registry_close (b_id b) outcome s in (ok, b\<lparr> b_id := 0 \<rparr>, s'))"

definition scoped_destroy :: "operation_binding \<Rightarrow> registry \<times> recovery \<Rightarrow> registry \<times> recovery" where
  "scoped_destroy b s =
    (if b_id b \<noteq> 0 then snd (vbr_operation_registry_close (b_id b) Out_failed s) else s)"

definition scoped_release :: "operation_binding \<Rightarrow> u64 \<times> operation_binding" where
  "scoped_release b = (b_id b, b\<lparr> b_id := 0 \<rparr>)"

end
