(* ===== verification/Vbr_Registry_Properties.thy ===== *)
theory Vbr_Registry_Properties
  imports Vbr_Registry
begin

text \<open>
  The properties of the operation vocabulary and of the live-operation registry of
  \<^verbatim>\<open>src/src/llama-vbr-operation.h\<close> and \<^verbatim>\<open>.cpp\<close>: identities are never reused, a binding is found exactly
  while its operation is live, and what a covering target authorizes.
\<close>

text \<open>A run of the registry: begins of bindings and ends of identities.\<close>

fun reg_exec :: "operation_binding + u64 \<Rightarrow> registry \<Rightarrow> registry" where
  "reg_exec (Inl b) g = snd (snd (vbr_operation_registry_begin b g))"
| "reg_exec (Inr i) g = snd (vbr_operation_registry_end i g)"

fun reg_ids :: "(operation_binding + u64) list \<Rightarrow> registry \<Rightarrow> u64 list" where
  "reg_ids [] g = []"
| "reg_ids (Inl b # ops) g = (let i = fst (vbr_operation_registry_begin b g) in
     (if i \<noteq> 0 then [i] else []) @ reg_ids ops (reg_exec (Inl b) g))"
| "reg_ids (Inr i # ops) g = reg_ids ops (reg_exec (Inr i) g)"

lemma reg_exec_step: "reg_exec = reg.step"
proof (intro ext)
  show "reg_exec op g = reg.step op g" for op g
    by (cases op) (simp_all add: reg.step_def reg_put_def split: prod.splits)
qed

lemma run_step: "fold reg_exec ops g = fold reg.step ops g"
  by (simp only: reg_exec_step)

lemma run_inv: "reg_inv (fold reg_exec ops new_registry)"
  using reg.run_keeps [OF reg_inv_new] by (simp add: run_step)

lemma begin_put: "vbr_operation_registry_begin b g = (i, b', g') \<Longrightarrow> i \<noteq> 0 \<Longrightarrow> reg_put b g = (Some i, g')"
  by (simp add: reg_put_def)

section \<open>The vocabulary\<close>

text \<open>The mutation inventory is closed: one row per registrant, in the order of the enum, every
  family, class and phase after the root occurs in some row, and every row's class mask stays
  inside the closed class enum; the stable readers are listed exactly once.\<close>

theorem vbr_inventory_closed:
  "vbr_mutation_registry_is_exhaustive \<and> vbr_stable_read_registry_is_exhaustive \<and>
   map (\<lambda>(r, f, p, c). registrant_index r) VBR_MUTATION_REGISTRY = [0..<registrant_index Reg_count] \<and>
   list_all (\<lambda>(r, f, p, c). c \<noteq> 0 \<and> c AND NOT (push_bit (class_index Cls_count) 1 - 1) = 0) VBR_MUTATION_REGISTRY \<and>
   map stable_read_index VBR_STABLE_READ_REGISTRY = [0..<stable_read_index Read_count]"
  by code_simp

section \<open>Identities\<close>

lemma reg_ids_above:
  assumes "reg_inv g"
  shows "sorted_wrt (<) (reg_ids ops g) \<and> (\<forall>i \<in> set (reg_ids ops g). r_next g \<le> i)"
  using assms
proof (induction ops g rule: reg_ids.induct)
  case (2 b ops g)
  let ?g' = "reg_exec (Inl b) g"
  show ?case
  proof (cases rule: begin_cases [OF "2.prems", of b, case_names refused begun])
    case (refused g1)
    then have g': "?g' = g1" and "r_next g \<le> r_next g1" by auto
    have "reg_inv ?g'" unfolding g' using refused by (intro reg_inv_same [OF "2.prems"]) auto
    from "2.IH" [OF refl this] refused \<open>r_next g \<le> r_next g1\<close> show ?thesis
      by (auto simp: g' dest: order_trans)
  next
    case (begun slot)
    then have inv: "reg_inv ?g'" using reg_inv_begun [OF "2.prems"] by simp
    have up: "r_next ?g' = r_next g + 1" using begun by simp
    have "r_next g < i" if "i \<in> set (reg_ids ops ?g')" for i
      using "2.IH" [OF refl inv] that begun(8) unfolding up by fastforce
    then show ?thesis using "2.IH" [OF refl inv] begun(1,10) by (auto simp: less_imp_le Let_def)
  qed
next
  case (3 i ops g)
  have "reg_inv (reg_exec (Inr i) g)" using reg_remove_ok [OF "3.prems", of i] by simp
  moreover have "r_next (reg_exec (Inr i) g) = r_next g"
    by (simp add: vbr_operation_registry_end_def split: option.splits)
  ultimately show ?case using "3.IH" by simp
qed simp

text \<open>Operation identities are never reused: whatever operations begin and end, in any order and
  however often the table is full, the identities handed out are pairwise distinct, never 0 (refused)
  and strictly increasing.\<close>

theorem vbr_ids_never_reused:
  "distinct (reg_ids ops new_registry) \<and> sorted_wrt (<) (reg_ids ops new_registry) \<and> 0 \<notin> set (reg_ids ops new_registry)"
proof -
  have "r_next new_registry = 1" by (simp add: new_registry_def)
  then have "sorted_wrt (<) (reg_ids ops new_registry)" "\<forall>i \<in> set (reg_ids ops new_registry). 1 \<le> i"
    using reg_ids_above [OF reg_inv_new, of ops] by auto
  then show ?thesis by (auto simp: strict_sorted_iff)
qed

text \<open>C16: a binding lives exactly as long as its operation. When \<open>begin\<close> hands out an identity, the
  registry returns the binding, with that identity and unchanged, after any other operations; once
  the operation has ended, nothing that follows makes the identity live or resolvable again.\<close>

theorem vbr_binding_lifetime:
  assumes "g = fold reg_exec before new_registry"
    and "vbr_operation_registry_begin b g = (i, b', g')" and "i \<noteq> 0" and "Inr i \<notin> set during"
  shows "b' = b\<lparr> b_id := i \<rparr> \<and>
    vbr_operation_registry_binding i (fold reg_exec during g') = Some b' \<and>
    vbr_operation_registry_is_live i (fold reg_exec during g') \<and>
    \<not> vbr_operation_registry_is_live i (fold reg_exec (during @ Inr i # after) g') \<and>
    vbr_operation_registry_binding i (fold reg_exec (during @ Inr i # after) g') = None"
proof -
  have inv: "reg_inv g" unfolding assms(1) by (rule run_inv)
  have put: "reg_put b g = (Some i, g')" by (rule begin_put [OF assms(2,3)])
  have b': "b' = b\<lparr> b_id := i \<rparr>"
    using assms(2,3) by (cases rule: begin_cases [OF inv, of b, case_names refused begun]) auto
  from reg_put_Some [OF inv put] have inv': "reg_inv g'" and iss: "id_issued g' i"
    and found: "vbr_operation_registry_binding i g' = Some b'" by (simp_all add: b')
  let ?d = "fold reg_exec during g'"
  have d: "reg_inv ?d" "id_issued ?d i" "vbr_operation_registry_binding i ?d = Some b'"
    using reg.run_keeps [OF inv', of during] reg.run_lookup [OF inv' iss assms(4)] iss found
    by (simp_all add: run_step)
  let ?e = "reg_remove i ?d"
  have "reg_inv ?e" "id_issued ?e i" "vbr_operation_registry_binding i ?e = None"
    using reg_remove_ok [OF d(1), of i] d(2) by auto
  then have gone: "vbr_operation_registry_binding i (fold reg_exec after ?e) = None"
    using reg.gone_stays_gone by (simp add: run_step)
  have live: "vbr_operation_registry_is_live i h \<longleftrightarrow> vbr_operation_registry_binding i h \<noteq> None" for h
    by (simp add: vbr_operation_registry_is_live_def vbr_operation_registry_binding_def)
  show ?thesis using b' d(3) gone by (simp add: live)
qed

definition example_binding :: operation_binding where
  "example_binding = vbr_mutation_binding Kind_decode 0 0 8 Cls_ordinary_decode (1, 7) 0"

lemma example_binding_valid: "binding_valid example_binding" "b_id example_binding = 0"
  by code_simp+

lemma example_begin:
  "\<exists>g'. vbr_operation_registry_begin example_binding new_registry = (1, example_binding\<lparr> b_id := 1 \<rparr>, g')"
proof (cases rule: begin_cases [OF reg_inv_new, of example_binding, case_names refused begun])
  case (refused g1)
  then show ?thesis
    using example_binding_valid CAP_pos
    by (auto simp: new_registry_def U64_MAX_def)
next
  case (begun slot)
  then show ?thesis by (simp add: new_registry_def)
qed

theorem vbr_binding_lifetime_witness:
  "\<exists>g'. vbr_operation_registry_begin example_binding new_registry = (1, example_binding\<lparr> b_id := 1 \<rparr>, g') \<and>
     vbr_operation_registry_is_live 1 g' \<and> \<not> vbr_operation_registry_is_live 1 (reg_exec (Inr 1) g')"
proof -
  obtain g' where g': "vbr_operation_registry_begin example_binding new_registry = (1, example_binding\<lparr> b_id := 1 \<rparr>, g')"
    using example_begin by blast
  from vbr_binding_lifetime [of new_registry "[]", OF _ g', of "[]" "[]"] g' show ?thesis by simp
qed


section \<open>Admission and capacity\<close>

lemma live_length: "reg_inv g \<Longrightarrow> vbr_operation_registry_has_capacity g \<longleftrightarrow> (\<exists>s < CAP. r_live g ! s = 0)"
  by (auto simp: vbr_operation_registry_has_capacity_def list_ex_length reg_inv_def)

lemma begin_next:
  assumes "reg_inv g"
  shows "r_next (snd (snd (vbr_operation_registry_begin b g))) =
    (if b_id b = 0 \<and> binding_valid b \<and> \<not> r_exhausted g \<and> r_next g \<noteq> U64_MAX then r_next g + 1 else r_next g)"
  using assms by (auto simp: vbr_operation_registry_begin_def vbr_operation_allocate_def reg_inv_def split: option.split)

text \<open>C17: \<open>begin\<close> admits an operation exactly when its binding has no identity yet and is valid, the
  identities are not exhausted and the table has a free slot. Then the identity is the next one, which
  resolved to nothing before; the caller's binding gets it, the registry resolves it to exactly that
  binding, and every other identity as before. A refused binding is left as it is, and so are the
  table and what every identity resolves to. The counter advances with every identity allocated: when
  only the slot is missing the identity is burned, so it is never handed out later.\<close>

theorem vbr_begin_admits:
  assumes "g = fold reg_exec ops new_registry" and "vbr_operation_registry_begin b g = (i, b', g')"
  shows "(i \<noteq> 0 \<longleftrightarrow>
      b_id b = 0 \<and> binding_valid b \<and> \<not> r_exhausted g \<and> r_next g \<noteq> U64_MAX \<and> vbr_operation_registry_has_capacity g) \<and>
    (i \<noteq> 0 \<longrightarrow> i = r_next g \<and> b' = b\<lparr> b_id := i \<rparr> \<and> vbr_operation_registry_binding i g = None \<and>
      vbr_operation_registry_binding i g' = Some b' \<and>
      (\<forall>j. j \<noteq> i \<longrightarrow> vbr_operation_registry_binding j g' = vbr_operation_registry_binding j g)) \<and>
    (i = 0 \<longrightarrow> b' = b \<and> r_live g' = r_live g \<and> r_bindings g' = r_bindings g \<and>
      (\<forall>j. vbr_operation_registry_binding j g' = vbr_operation_registry_binding j g)) \<and>
    r_next g' = (if b_id b = 0 \<and> binding_valid b \<and> \<not> r_exhausted g \<and> r_next g \<noteq> U64_MAX then r_next g + 1 else r_next g)"
proof -
  have inv: "reg_inv g" unfolding assms(1) by (rule run_inv)
  have next_up: "r_next g' = (if b_id b = 0 \<and> binding_valid b \<and> \<not> r_exhausted g \<and> r_next g \<noteq> U64_MAX then r_next g + 1 else r_next g)"
    using begin_next [OF inv, of b] assms(2) by simp
  show ?thesis
  proof (cases rule: begin_cases [OF inv, of b, case_names refused begun])
    case (refused g1)
    then have "reg_put b g = (None, g')" using assms(2) by (simp add: reg_put_def)
    from reg_put_None [OF inv this] refused assms(2) show ?thesis unfolding live_length [OF inv] next_up by auto
  next
    case (begun slot)
    then have i: "i = r_next g" "b' = b\<lparr> b_id := i \<rparr>" using assms(2) by simp_all
    have "reg_put b g = (Some i, g')" using begun assms(2) by (simp add: reg_put_def)
    note put = reg_put_Some [OF inv this]
    have "vbr_operation_registry_binding i g = None" using put lookup_issued_id [OF inv, of i] by (meson not_None_eq)
    with put i begun assms(2) show ?thesis unfolding live_length [OF inv] next_up by auto
  qed
qed

theorem vbr_begin_admits_witness:
  "\<exists>g'. vbr_operation_registry_begin example_binding new_registry = (1, example_binding\<lparr> b_id := 1 \<rparr>, g') \<and>
    vbr_operation_registry_binding 1 g' = Some (example_binding\<lparr> b_id := 1 \<rparr>) \<and> vbr_operation_registry_binding 2 g' = None"
proof -
  obtain g' where g': "vbr_operation_registry_begin example_binding new_registry = (1, example_binding\<lparr> b_id := 1 \<rparr>, g')"
    using example_begin by blast
  have "vbr_operation_registry_binding 2 new_registry = None"
    by (simp add: vbr_operation_registry_binding_def probe_live_None) (simp add: new_registry_def)
  with vbr_begin_admits [of new_registry "[]", OF _ g'] g' show ?thesis by simp
qed

section \<open>Authorization\<close>

lemma mask_bit: "m AND vbr_registrant_bit r \<noteq> 0 \<longleftrightarrow> bit m (registrant_index r)"
proof
  assume "bit m (registrant_index r)"
  then have "bit (m AND vbr_registrant_bit r) (registrant_index r)"
    by (simp add: bit_and_iff bit_vbr_registrant_bit)
  then show "m AND vbr_registrant_bit r \<noteq> 0" by auto
next
  assume "m AND vbr_registrant_bit r \<noteq> 0"
  then obtain n where "bit (m AND vbr_registrant_bit r) n" by (metis bit_eq_iff bit_0_eq bot_apply bot_bool_def)
  then show "bit m (registrant_index r)" by (auto simp: bit_and_iff bit_vbr_registrant_bit)
qed

lemma bit_and_not_zero: "m AND NOT k = 0 \<Longrightarrow> bit m n \<Longrightarrow> n < 32 \<Longrightarrow> bit k n" for m k :: u32
proof (rule ccontr)
  assume "m AND NOT k = 0" "bit m n" "n < 32" "\<not> bit k n"
  from \<open>bit m n\<close> \<open>n < 32\<close> \<open>\<not> bit k n\<close> have "bit (m AND NOT k) n" by (simp add: bit_simps)
  then have "bit (0 :: u32) n" unfolding \<open>m AND NOT k = 0\<close> .
  then show False by simp
qed

text \<open>What a live binding can authorize. If the search for a target that covers a mutation at a
  stream, sequence and position succeeds on the binding of a live operation, then the registrant
  belongs to the closed set of the operation's kind, the class and the mutate phase are the target's,
  the stream, sequence and position lie in the target's declared scope, no earlier target covers it,
  and outside recovery the target names exactly the mutating controller.\<close>

theorem vbr_covering_authorizes:
  assumes "g = fold reg_exec ops new_registry"
    and "vbr_operation_registry_binding i g = Some b"
    and "find_covering_target_at b inst s cls (vbr_registrant_bit r) sq p = Some (k, t)"
  shows "b_id b = i \<and> k < length (b_targets b) \<and> t = b_targets b ! k \<and>
    bit (vbr_operation_kind_registrants (b_kind b)) (registrant_index r) \<and>
    t_class t = cls \<and> t_phase t = Ph_mutate \<and> (t_stream t = VBR_STREAM_ANY \<or> t_stream t = s) \<and>
    (t_seq t = -1 \<or> t_seq t = sq) \<and>
    (0 \<le> p \<and> 0 \<le> fst (t_range t) \<longrightarrow> fst (t_range t) \<le> p \<and> p < snd (t_range t)) \<and>
    (b_kind b \<noteq> Kind_recovery \<longrightarrow> t_instance t = inst) \<and>
    (b_kind b \<noteq> Kind_recovery \<and> b_kind b \<noteq> Kind_controller_retier \<longrightarrow> 0 \<le> fst (t_range t)) \<and>
    (\<forall>j < k. \<not> (target_matches (b_targets b ! j) inst s cls (vbr_registrant_bit r) \<and>
       seq_covers (b_targets b ! j) sq \<and> pos_covers (b_targets b ! j) p))"
proof -
  have inv: "reg_inv g" unfolding assms(1) by (rule run_inv)
  obtain slot where "slot < CAP" "i \<noteq> 0" "r_live g ! slot = i" "r_bindings g ! slot = b"
    using assms(2) by (auto simp: lookup_iff [OF inv])
  then have b: "b_id b = i" "binding_valid b" using reg_invD(2,3) [OF inv, of slot] by auto
  have t: "k < length (b_targets b)" "t = b_targets b ! k" "target_matches t inst s cls (vbr_registrant_bit r)"
      "seq_covers t sq" "pos_covers t p"
      "\<forall>j < k. \<not> (target_matches (b_targets b ! j) inst s cls (vbr_registrant_bit r) \<and>
         seq_covers (b_targets b ! j) sq \<and> pos_covers (b_targets b ! j) p)"
    using assms(3) by (auto simp: find_covering_target_at_def find_target_iff)
  have valid: "target_valid (b_kind b) t"
    using b(2) t(1,2) by (auto simp: binding_valid_def list_all_length)
  then have "t_registrants t AND NOT (vbr_operation_kind_registrants (b_kind b)) = 0"
    by (simp add: target_valid_def)
  moreover have "bit (t_registrants t) (registrant_index r)"
    using t(3) by (simp add: target_matches_def mask_bit)
  moreover have "registrant_index r < 32" by (cases r) simp_all
  ultimately have "bit (vbr_operation_kind_registrants (b_kind b)) (registrant_index r)"
    using bit_and_not_zero by blast
  with b(1) t valid show ?thesis
    by (auto simp: target_matches_def instance_matches_def stream_matches_def seq_covers_def pos_covers_def
        target_valid_def vbr_target_range_valid_def split: if_splits)
qed

theorem vbr_covering_authorizes_witness:
  "\<exists>g' k t. vbr_operation_registry_begin example_binding new_registry = (1, example_binding\<lparr> b_id := 1 \<rparr>, g') \<and>
     find_covering_target_at (example_binding\<lparr> b_id := 1 \<rparr>) (1, 7) 0 Cls_ordinary_decode
       (vbr_registrant_bit Reg_seq_rm) 0 3 = Some (k, t) \<and> t_instance t = (1, 7)"
proof -
  obtain g' where g': "vbr_operation_registry_begin example_binding new_registry = (1, example_binding\<lparr> b_id := 1 \<rparr>, g')"
    using example_begin by blast
  have run: "fold reg_exec [Inl example_binding] new_registry = g'" using g' by simp
  have "reg_put example_binding new_registry = (Some 1, g')" by (rule begin_put [OF g']) simp
  then have found: "vbr_operation_registry_binding 1 g' = Some (example_binding\<lparr> b_id := 1 \<rparr>)"
    using reg_put_Some [OF reg_inv_new] by blast
  obtain k t where t: "find_covering_target_at (example_binding\<lparr> b_id := 1 \<rparr>) (1, 7) 0 Cls_ordinary_decode
       (vbr_registrant_bit Reg_seq_rm) 0 3 = Some (k, t)"
    by (simp add: find_covering_target_at_def example_binding_def vbr_mutation_binding_def vbr_make_target_def
        target_matches_def instance_matches_def stream_matches_def seq_covers_def pos_covers_def
        vbr_operation_kind_registrants_def mask_bit registrants_mask_bit)
  have "b_kind (example_binding\<lparr> b_id := 1 \<rparr>) \<noteq> Kind_recovery"
    by (simp add: example_binding_def vbr_mutation_binding_def)
  with vbr_covering_authorizes [OF run [symmetric] found t] g' t show ?thesis by blast
qed


section \<open>Quiescence\<close>

definition clear_of :: "instance_id list \<Rightarrow> operation_binding \<Rightarrow> bool" where
  "clear_of instances b \<longleftrightarrow> (\<forall>t \<in> set (b_targets b). \<forall>j \<in> set instances.
     vbr_controller_instance_id_is_set (t_instance t) \<and> t_instance t \<noteq> j)"

lemma quiescent_scan_eq:
  assumes "\<And>i b. (i, b) \<in> set xs \<Longrightarrow> i \<noteq> 0 \<Longrightarrow> i \<noteq> U64_MAX \<Longrightarrow> b_id b = i"
  shows "quiescent_scan instances allowed xs = Some (\<forall>(i, b) \<in> set xs.
    i \<noteq> 0 \<and> i \<noteq> U64_MAX \<and> i \<noteq> allowed \<longrightarrow> clear_of instances b)"
  using assms
proof (induction xs)
  case (Cons x xs)
  obtain i b where x: "x = (i, b)" by (cases x)
  have IH: "quiescent_scan instances allowed xs = Some (\<forall>(i, b) \<in> set xs.
      i \<noteq> 0 \<and> i \<noteq> U64_MAX \<and> i \<noteq> allowed \<longrightarrow> clear_of instances b)"
    using Cons.prems by (intro Cons.IH) auto
  have "b_id b = i" if "i \<noteq> 0" "i \<noteq> U64_MAX" using Cons.prems [of i b] that x by simp
  moreover have "list_ex (\<lambda>t. list_ex (\<lambda>j. \<not> vbr_controller_instance_id_is_set (t_instance t) \<or> t_instance t = j) instances)
      (b_targets b) \<longleftrightarrow> \<not> clear_of instances b"
    by (auto simp: clear_of_def list_ex_iff)
  ultimately show ?case
    by (cases "i = 0 \<or> i = U64_MAX"; cases "i = allowed"; cases "clear_of instances b") (auto simp: x IH)
qed simp

text \<open>The quiescence probe is exact and never fails its assertion: for a nonempty list of
  controllers it holds if and only if no live operation other than the allowed one has a target that
  names one of them or names no controller at all; for an empty list it refuses.\<close>

theorem vbr_quiescent_exact:
  assumes "g = fold reg_exec ops new_registry"
  shows "vbr_operation_registry_quiescent_for_except instances allowed g = Some (instances \<noteq> [] \<and>
    (\<forall>i b. vbr_operation_registry_binding i g = Some b \<and> i \<noteq> allowed \<longrightarrow>
      (\<forall>t \<in> set (b_targets b). \<forall>j \<in> set instances.
        vbr_controller_instance_id_is_set (t_instance t) \<and> t_instance t \<noteq> j)))"
proof -
  have inv: "reg_inv g" unfolding assms by (rule run_inv)
  let ?xs = "zip (r_live g) (r_bindings g)"
  have mem: "(i, b) \<in> set ?xs \<longleftrightarrow> (\<exists>s < CAP. r_live g ! s = i \<and> r_bindings g ! s = b)" for i b
    using inv by (auto simp: set_zip reg_inv_def)
  have below: "i \<noteq> U64_MAX" if "(i, b) \<in> set ?xs" "i \<noteq> 0" for i b
  proof -
    from that obtain s where "s < CAP" "r_live g ! s = i" by (auto simp: mem)
    then have "i < r_next g" using reg_invD(1) [OF inv] that(2) by blast
    then show ?thesis using word_n1_ge [of "r_next g"] by (auto simp: U64_MAX_def not_less [symmetric])
  qed
  have found: "vbr_operation_registry_binding i g = Some b \<longleftrightarrow> i \<noteq> 0 \<and> (i, b) \<in> set ?xs" for i b
    unfolding mem lookup_iff [OF inv] ..
  have "(\<forall>(i, b) \<in> set ?xs. i \<noteq> 0 \<and> i \<noteq> U64_MAX \<and> i \<noteq> allowed \<longrightarrow> clear_of instances b) \<longleftrightarrow>
      (\<forall>i b. vbr_operation_registry_binding i g = Some b \<and> i \<noteq> allowed \<longrightarrow> clear_of instances b)"
    unfolding found using below by blast
  moreover have "b_id b = i" if "(i, b) \<in> set ?xs" "i \<noteq> 0" for i b
    using that reg_invD(2) [OF inv] by (auto simp: mem)
  ultimately show ?thesis
    using quiescent_scan_eq [of ?xs instances allowed]
    by (auto simp: vbr_operation_registry_quiescent_for_except_def clear_of_def)
qed

theorem vbr_quiescent_exact_witness:
  "vbr_operation_registry_quiescent_for_except [(1, 7)] 0 new_registry = Some True \<and>
   (\<exists>g'. vbr_operation_registry_begin example_binding new_registry = (1, example_binding\<lparr> b_id := 1 \<rparr>, g') \<and>
      vbr_operation_registry_quiescent_for_except [(1, 7)] 0 g' = Some False)"
proof -
  obtain g' where g': "vbr_operation_registry_begin example_binding new_registry = (1, example_binding\<lparr> b_id := 1 \<rparr>, g')"
    using example_begin by blast
  have run: "g' = fold reg_exec [Inl example_binding] new_registry" using g' by simp
  have "reg_put example_binding new_registry = (Some 1, g')" by (rule begin_put [OF g']) simp
  then have found: "vbr_operation_registry_binding 1 g' = Some (example_binding\<lparr> b_id := 1 \<rparr>)"
    using reg_put_Some [OF reg_inv_new] by blast
  have "\<exists>t \<in> set (b_targets (example_binding\<lparr> b_id := 1 \<rparr>)). t_instance t = (1, 7)"
    by (simp add: example_binding_def vbr_mutation_binding_def vbr_make_target_def)
  then have "vbr_operation_registry_quiescent_for_except [(1, 7)] 0 g' = Some False"
    using vbr_quiescent_exact [OF run, of "[(1, 7)]" 0] found by fastforce
  moreover have "vbr_operation_registry_binding i new_registry = None" for i
    using lookup_iff [OF reg_inv_new, of i] by (cases "vbr_operation_registry_binding i new_registry") (auto simp: new_registry_def)
  then have "vbr_operation_registry_quiescent_for_except [(1, 7)] 0 new_registry = Some True"
    using vbr_quiescent_exact [of new_registry "[]" "[(1, 7)]" 0] by simp
  ultimately show ?thesis using g' by blast
qed

end
