(* ===== verification/Vbr_Recovery_Properties.thy ===== *)
theory Vbr_Recovery_Properties
  imports Vbr_Recovery Vbr_Registry_Properties
begin

text \<open>
  The properties of the failed-operation ring: its invariant (the pending counter, the nonces, the
  taken marks), the transitions a record can make, the single use of a quarantine token, and what
  closing an operation leaves behind. \<open>rec_op\<close> has one constructor per operation of the ring; the
  callers may present any index, identity, instance or token.
\<close>

section \<open>Runs of the ring\<close>

datatype rec_op =
    Reserve operation_binding instance_id
  | Release int u64
  | Record_Failure int u64 operation_phase failure_site bool
  | Set_Source int u64 u16 u16 "int \<times> int" "u32 list"
  | Autorecord u64
  | Mint int
  | Destroy int
  | Complete int
  | Quarantine int
  | Take instance_id
  | Untake quarantine_token instance_id
  | Ack quarantine_token instance_id
  | Advance instance_id

fun rec_exec :: "rec_op \<Rightarrow> recovery \<Rightarrow> recovery" where
  "rec_exec (Reserve b owner) q = snd (vbr_recovery_reserve_locked b owner q)"
| "rec_exec (Release k op) q = snd (vbr_recovery_release_unused k op q)"
| "rec_exec (Record_Failure k op ph site obs) q = snd (vbr_recovery_record_failure k op ph site obs q)"
| "rec_exec (Set_Source k op src dst rng gens) q = snd (vbr_recovery_set_source_token k op src dst rng gens q)"
| "rec_exec (Autorecord op) q = vbr_recovery_autorecord_on_close op q"
| "rec_exec (Mint k) q = snd (vbr_recovery_mint k q)"
| "rec_exec (Destroy k) q = capability_destroy k q"
| "rec_exec (Complete k) q = snd (snd (resolve_completed k q))"
| "rec_exec (Quarantine k) q = snd (snd (resolve_quarantined k q))"
| "rec_exec (Take inst) q = snd (vbr_recovery_take_quarantine inst q)"
| "rec_exec (Untake t inst) q = snd (vbr_recovery_untake_quarantine t inst q)"
| "rec_exec (Ack t inst) q = snd (vbr_recovery_ack_quarantine t inst q)"
| "rec_exec (Advance inst) q = snd (vbr_recovery_advance_recorded inst q)"

section \<open>The invariant\<close>

definition awaiting :: "recovery \<Rightarrow> nat set" where
  "awaiting q = {i. i < RING \<and> state_at q i = Rs_awaiting_ack}"

definition rec_inv :: "recovery \<Rightarrow> bool" where
  "rec_inv q \<longleftrightarrow> length (q_ring q) = RING \<and> length (q_nonces q) = RING \<and>
     q_pending q = of_nat (card (awaiting q)) \<and>
     (\<forall>i < RING. f_taken (q_ring q ! i) \<longrightarrow> state_at q i = Rs_awaiting_ack) \<and>
     (\<forall>i < RING. state_at q i = Rs_awaiting_ack \<longrightarrow> q_nonces q ! i \<noteq> 0) \<and>
     (\<forall>i < RING. q_nonces q ! i < q_nonce_next q) \<and>
     (\<forall>i < RING. \<forall>j < RING. q_nonces q ! i = q_nonces q ! j \<and> q_nonces q ! i \<noteq> 0 \<longrightarrow> i = j)"

lemma finite_awaiting [simp]: "finite (awaiting q)"
  by (simp add: awaiting_def)

lemma card_awaiting: "card (awaiting q) \<le> RING"
  using card_mono [of "{..<RING}" "awaiting q"] by (auto simp: awaiting_def)

lemma rec_invD:
  assumes "rec_inv q"
  shows "length (q_ring q) = RING" "length (q_nonces q) = RING" "q_pending q = of_nat (card (awaiting q))"
    "i < RING \<Longrightarrow> f_taken (q_ring q ! i) \<Longrightarrow> state_at q i = Rs_awaiting_ack"
    "i < RING \<Longrightarrow> state_at q i = Rs_awaiting_ack \<Longrightarrow> q_nonces q ! i \<noteq> 0"
    "i < RING \<Longrightarrow> q_nonces q ! i < q_nonce_next q"
    "i < RING \<Longrightarrow> j < RING \<Longrightarrow> q_nonces q ! i = q_nonces q ! j \<Longrightarrow> q_nonces q ! i \<noteq> 0 \<Longrightarrow> i = j"
  using assms by (auto simp: rec_inv_def)

lemma rec_inv_new: "rec_inv new_recovery"
proof -
  have "awaiting new_recovery = {}" by (auto simp: awaiting_def new_recovery_def empty_record_def)
  then show ?thesis by (simp add: rec_inv_def) (simp add: new_recovery_def empty_record_def)
qed

lemma set_record_simps [simp]:
  "q_ring (set_record i r q) = (q_ring q)[i := r]" "q_nonces (set_record i r q) = q_nonces q"
  "q_nonce_next (set_record i r q) = q_nonce_next q" "q_pending (set_record i r q) = q_pending q"
  by (simp_all add: set_record_def)

lemma set_record_inv:
  assumes inv: "rec_inv q" and i: "i < RING"
    and same: "f_state r = Rs_awaiting_ack \<longleftrightarrow> state_at q i = Rs_awaiting_ack"
    and taken: "f_taken r \<longrightarrow> f_state r = Rs_awaiting_ack"
  shows "rec_inv (set_record i r q)"
proof -
  have len: "i < length (q_ring q)" using inv i by (simp add: rec_inv_def)
  have "awaiting (set_record i r q) = awaiting q"
    using len same by (auto simp: awaiting_def nth_list_update_if split: if_splits)
  then show ?thesis
    using inv len same taken by (auto simp: rec_inv_def nth_list_update_if)
qed

lemma quarantine_inv:
  assumes inv: "rec_inv q" and i: "i < RING" and old: "state_at q i \<noteq> Rs_awaiting_ack" and "q_nonce_next q \<noteq> U64_MAX"
  shows "rec_inv (quarantine i q)"
proof -
  let ?n = "q_nonce_next q"
  have len: "i < length (q_ring q)" "i < length (q_nonces q)" using inv i by (simp_all add: rec_inv_def)
  have up: "?n < ?n + 1" using inc_less [OF assms(4)] by simp
  have "awaiting (quarantine i q) = insert i (awaiting q)" "i \<notin> awaiting q"
    using len i old by (auto simp: awaiting_def quarantine_def nth_list_update_if split: if_splits)
  then have pend: "of_nat (card (awaiting (quarantine i q))) = q_pending q + 1"
    by (simp add: rec_invD(3) [OF inv])
  have below: "q_nonces q ! j < ?n + 1 \<and> q_nonces q ! j \<noteq> ?n" if "j < RING" for j
    using rec_invD(6) [OF inv that] up by auto
  have n0: "?n \<noteq> 0" using rec_invD(6) [OF inv i] by auto
  have ring: "q_ring (quarantine i q) ! j = (if j = i then (q_ring q ! i)\<lparr> f_state := Rs_awaiting_ack \<rparr> else q_ring q ! j)"
    and nonce: "q_nonces (quarantine i q) ! j = (if j = i then ?n else q_nonces q ! j)" for j
    using len by (auto simp: quarantine_def nth_list_update_if)
  have rest: "length (q_ring (quarantine i q)) = RING" "length (q_nonces (quarantine i q)) = RING"
      "q_pending (quarantine i q) = q_pending q + 1" "q_nonce_next (quarantine i q) = ?n + 1"
    using rec_invD(1,2) [OF inv] by (simp_all add: quarantine_def)
  show ?thesis
    unfolding rec_inv_def rest pend ring nonce
    using rec_invD(4-7) [OF inv] below n0 up by (simp add: all_conj_distrib) metis
qed

lemma ack_inv:
  assumes inv: "rec_inv q" and i: "i < RING" and old: "state_at q i = Rs_awaiting_ack"
  shows "rec_inv ((set_record i empty_record q)\<lparr> q_nonces := (q_nonces q)[i := 0], q_pending := q_pending q - 1 \<rparr>)"
    (is "rec_inv ?q")
proof -
  have len: "i < length (q_ring q)" "i < length (q_nonces q)" using inv i by (simp_all add: rec_inv_def)
  have "awaiting ?q = awaiting q - {i}" "i \<in> awaiting q"
    using len i old by (auto simp: awaiting_def empty_record_def nth_list_update_if split: if_splits)
  then have "card (awaiting q) = Suc (card (awaiting ?q))"
    using card.remove [of "awaiting q" i] by simp
  then have pend: "of_nat (card (awaiting ?q)) = of_nat (card (awaiting q)) - (1 :: u32)" by simp
  have "q_nonces q ! i < q_nonce_next q" using inv i by (simp add: rec_inv_def)
  then have "0 < q_nonce_next q" using le_less_trans word_zero_le by blast
  with inv len pend show ?thesis
    unfolding rec_inv_def by (auto simp: empty_record_def nth_list_update_if)
qed


section \<open>The invariant along a run\<close>

text \<open>A bound on the nonces handed out; an operation hands out at most one per slot of the ring.\<close>

definition nonces_below :: "recovery \<Rightarrow> nat \<Rightarrow> bool" where
  "nonces_below q m \<longleftrightarrow> rec_inv q \<and> unat (q_nonce_next q) \<le> m"

lemma nonces_below_up: "nonces_below q m \<Longrightarrow> m \<le> n \<Longrightarrow> nonces_below q n"
  by (simp add: nonces_below_def)

lemma nonces_below_set:
  assumes "nonces_below q m" and "i < RING" and "f_state r = Rs_awaiting_ack \<longleftrightarrow> state_at q i = Rs_awaiting_ack"
    and "f_taken r \<longrightarrow> f_state r = Rs_awaiting_ack"
  shows "nonces_below (set_record i r q) m"
  using assms set_record_inv by (simp add: nonces_below_def)

lemma quarantine_next:
  assumes "unat (q_nonce_next q) < 2 ^ 64 - 1"
  shows "q_nonce_next q \<noteq> U64_MAX \<and> unat (q_nonce_next (quarantine i q)) = unat (q_nonce_next q) + 1"
proof -
  have "unat U64_MAX = 2 ^ 64 - 1" by (simp add: U64_MAX_def unsigned_minus_1_eq_mask mask_eq_exp_minus_1)
  with assms show ?thesis by (auto simp: quarantine_def unat_word_ariths)
qed

lemma nonces_below_quarantine:
  assumes "nonces_below q m" and "m < 2 ^ 64 - 1" and "i < RING" and "state_at q i \<noteq> Rs_awaiting_ack"
  shows "nonces_below (quarantine i q) (m + 1)"
  using assms quarantine_next [of q i] quarantine_inv [of q i] by (simp add: nonces_below_def)

lemma nonces_below_advance:
  assumes "nonces_below q m" and "n \<le> RING" and "m + n < 2 ^ 64"
  shows "nonces_below (snd (fold (advance_one inst) [0..<n] (0, q))) (m + n)"
  using assms(2,3)
proof (induction n)
  case (Suc n)
  let ?s = "fold (advance_one inst) [0..<n] (0, q)"
  have IH: "nonces_below (snd ?s) (m + n)" using Suc by simp
  show ?case
  proof (cases "state_at (snd ?s) n = Rs_recorded \<and> owner_serves inst (q_ring (snd ?s) ! n)")
    case True
    then have "nonces_below (quarantine n (snd ?s)) (m + n + 1)"
      using Suc.prems by (intro nonces_below_quarantine [OF IH]) auto
    with True show ?thesis by (simp add: advance_one_def [of inst n ?s])
  next
    case False
    then show ?thesis using nonces_below_up [OF IH] by (auto simp: advance_one_def [of inst n ?s])
  qed
qed (use assms(1) in simp)

lemma recovery_slot_Some: "recovery_slot k = Some i \<longleftrightarrow> 0 \<le> k \<and> k < int RING \<and> i = nat k"
  by (auto simp: recovery_slot_def)

lemma reserved_record_Some:
  "reserved_record k op q = Some i \<longleftrightarrow> recovery_slot k = Some i \<and> state_at q i = Rs_reserved \<and> b_id (f_binding (q_ring q ! i)) = op"
  by (auto simp: reserved_record_def split: option.splits)

lemma minted_record_Some:
  "minted_record k q = Some i \<longleftrightarrow> recovery_slot k = Some i \<and> state_at q i = Rs_capability_minted"
  by (auto simp: minted_record_def split: option.splits)

lemma record_at_slot:
  "recovery_slot k = Some i \<Longrightarrow> reserved_record k op q =
    (if state_at q i = Rs_reserved \<and> b_id (f_binding (q_ring q ! i)) = op then Some i else None)"
  "recovery_slot k = Some i \<Longrightarrow> minted_record k q = (if state_at q i = Rs_capability_minted then Some i else None)"
  by (simp_all add: reserved_record_def minted_record_def)

lemma recovery_slot_less: "recovery_slot k = Some i \<Longrightarrow> i < RING"
  by (auto simp: recovery_slot_Some)

lemma first_slot_Some:
  "first_slot P k rs = Some i \<Longrightarrow> k \<le> i \<and> i - k < length rs \<and> P (rs ! (i - k))"
  by (induction rs arbitrary: k) (force split: if_splits simp: nth_Cons')+

lemma first_slot_None: "first_slot P k rs = None \<longleftrightarrow> (\<forall>r \<in> set rs. \<not> P r)"
  by (induction rs arbitrary: k) auto

lemma ring_slot:
  assumes "rec_inv q" and "first_slot P 0 (q_ring q) = Some i"
  shows "i < RING \<and> P (q_ring q ! i)"
  using first_slot_Some [OF assms(2)] rec_invD(1) [OF assms(1)] by simp

lemma autorecord_inv:
  assumes "rec_inv q"
  shows "rec_inv (vbr_recovery_autorecord_on_close op q)"
proof -
  let ?q = "vbr_recovery_autorecord_on_close op q"
  have ring: "q_ring ?q ! i = autorecorded op (q_ring q ! i)" if "i < RING" for i
    using that rec_invD(1) [OF assms] by (simp add: vbr_recovery_autorecord_on_close_def)
  have state: "f_state (autorecorded op r) = Rs_awaiting_ack \<longleftrightarrow> f_state r = Rs_awaiting_ack"
      "f_taken (autorecorded op r) = f_taken r" for r by (auto simp: autorecorded_def)
  then have "awaiting ?q = awaiting q" by (auto simp: awaiting_def ring)
  moreover have "length (q_ring ?q) = length (q_ring q)" "q_nonces ?q = q_nonces q"
      "q_nonce_next ?q = q_nonce_next q" "q_pending ?q = q_pending q"
    by (simp_all add: vbr_recovery_autorecord_on_close_def)
  ultimately show ?thesis
    using assms unfolding rec_inv_def by (auto simp: ring state)
qed

lemma rec_exec_nonces:
  assumes nb: "nonces_below q m" and m: "m + RING < 2 ^ 64"
  shows "nonces_below (rec_exec op q) (m + RING)"
proof -
  have inv: "rec_inv q" using nb by (simp add: nonces_below_def)
  note up = nonces_below_up [OF nb, of "m + RING"]
  note set = nonces_below_up [OF nonces_below_set [OF nb], of _ _ "m + RING"]
  have not_taken: "\<not> f_taken (q_ring q ! i)" if "i < RING" "state_at q i \<noteq> Rs_awaiting_ack" for i
    using rec_invD(4) [OF inv] that by blast
  have one: "m < 2 ^ 64 - 1" "m + 1 \<le> m + RING" using m by (simp_all add: RING_def)
  note quar = nonces_below_up [OF nonces_below_quarantine [OF nb one(1)] one(2)]
  show ?thesis
  proof (cases op)
    case (Reserve b owner)
    then show ?thesis
      using up by (auto simp: vbr_recovery_reserve_locked_def empty_record_def split: option.split
          dest!: ring_slot [OF inv] intro!: set)
  next
    case (Autorecord x)
    have "q_nonce_next (vbr_recovery_autorecord_on_close x q) = q_nonce_next q"
      by (simp add: vbr_recovery_autorecord_on_close_def)
    then show ?thesis using Autorecord up autorecord_inv [OF inv] by (simp add: nonces_below_def)
  next
    case (Take inst)
    then show ?thesis
      using up by (auto simp: vbr_recovery_take_quarantine_def split: option.split dest!: ring_slot [OF inv] intro!: set)
  next
    case (Untake t inst)
    then show ?thesis
      using up by (auto simp: vbr_recovery_untake_quarantine_def token_serves_def token_set_def intro!: set)
  next
    case (Ack t inst)
    have "nat (fst t) < RING" "state_at q (nat (fst t)) = Rs_awaiting_ack" if "token_serves t inst q"
      using that by (auto simp: token_serves_def token_set_def)
    then show ?thesis
      using Ack up ack_inv [OF inv] by (auto simp: vbr_recovery_ack_quarantine_def nonces_below_def)
  next
    case (Advance inst)
    then show ?thesis
      using nonces_below_advance [OF nb order_refl m] by (simp add: vbr_recovery_advance_recorded_def)
  qed (use up not_taken in \<open>auto simp: vbr_recovery_release_unused_def vbr_recovery_record_failure_def
        vbr_recovery_set_source_token_def vbr_recovery_mint_def capability_destroy_def resolve_completed_def
        resolve_quarantined_def reserved_record_Some minted_record_Some empty_record_def recovery_slot_less
        split: option.split intro!: set quar\<close>)
qed

lemma rec_run_nonces:
  "64 * length ops + 1 < 2 ^ 64 \<Longrightarrow> nonces_below (fold rec_exec ops new_recovery) (64 * length ops + 1)"
proof (induction ops rule: rev_induct)
  case Nil
  then show ?case using rec_inv_new by (simp add: nonces_below_def new_recovery_def)
next
  case (snoc op ops)
  then show ?case using rec_exec_nonces [of _ "64 * length ops + 1" op] by (simp add: RING_def)
qed

lemma rec_run_inv: "length ops < 2 ^ 57 \<Longrightarrow> rec_inv (fold rec_exec ops new_recovery)"
  using rec_run_nonces [of ops] by (simp add: nonces_below_def)


section \<open>Properties\<close>

lemma pending_zero:
  assumes "rec_inv q"
  shows "unat (q_pending q) = card (awaiting q)"
proof -
  have "card (awaiting q) < 2 ^ 32" using card_awaiting [of q] by (simp add: RING_def)
  then show ?thesis using rec_invD(3) [OF assms] by (simp add: unat_of_nat_u32)
qed

lemma first_slot_least:
  "first_slot P k rs = Some i \<Longrightarrow> k \<le> j \<Longrightarrow> j < i \<Longrightarrow> \<not> P (rs ! (j - k))"
proof (induction rs arbitrary: k)
  case (Cons r rs)
  show ?case
  proof (cases "j = k")
    case True
    then show ?thesis using Cons.prems by (auto split: if_splits)
  next
    case False
    then have "j - k = Suc (j - Suc k)" using Cons.prems(2) by simp
    then show ?thesis using Cons False by (auto split: if_splits)
  qed
qed simp

text \<open>C20: quarantined work is never hidden. After any run, the pending counter of the lock-free fast
  path is exactly the number of records awaiting acknowledgement, and \<open>take\<close> returns the lowest
  record that awaits it, is not taken and is served by the instance, with its current token, or
  nothing if and only if there is no such record.\<close>

theorem vbr_take_complete:
  assumes "length ops < 2 ^ 57" and "q = fold rec_exec ops new_recovery"
  shows "unat (q_pending q) = card {i. i < RING \<and> state_at q i = Rs_awaiting_ack} \<and>
    (case fst (vbr_recovery_take_quarantine inst q) of
       None \<Rightarrow> \<forall>i < RING. \<not> (state_at q i = Rs_awaiting_ack \<and> \<not> f_taken (q_ring q ! i) \<and> owner_serves inst (q_ring q ! i))
     | Some ((k, n), b) \<Rightarrow> \<exists>i < RING. k = int i \<and> n = q_nonces q ! i \<and> n \<noteq> 0 \<and> b = f_binding (q_ring q ! i) \<and>
         state_at q i = Rs_awaiting_ack \<and> \<not> f_taken (q_ring q ! i) \<and> owner_serves inst (q_ring q ! i) \<and>
         (\<forall>j < i. \<not> (state_at q j = Rs_awaiting_ack \<and> \<not> f_taken (q_ring q ! j) \<and> owner_serves inst (q_ring q ! j))))"
proof -
  have inv: "rec_inv q" unfolding assms(2) by (rule rec_run_inv [OF assms(1)])
  let ?P = "\<lambda>r. \<not> (f_state r \<noteq> Rs_awaiting_ack \<or> f_taken r) \<and> owner_serves inst r"
  have len: "length (q_ring q) = RING" by (rule rec_invD(1) [OF inv])
  have pend: "unat (q_pending q) = card (awaiting q)" by (rule pending_zero [OF inv])
  show ?thesis
  proof (cases "q_pending q = 0")
    case True
    then have "awaiting q = {}" using pend by simp
    then show ?thesis using True by (auto simp: vbr_recovery_take_quarantine_def awaiting_def)
  next
    case False
    show ?thesis
    proof (cases "first_slot ?P 0 (q_ring q)")
      case None
      then have "\<forall>i < RING. \<not> ?P (q_ring q ! i)" using len by (auto simp: first_slot_None)
      with False None pend show ?thesis by (simp add: vbr_recovery_take_quarantine_def awaiting_def)
    next
      case (Some i)
      have i: "i < RING" "?P (q_ring q ! i)" using ring_slot [OF inv Some] by auto
      have "\<not> ?P (q_ring q ! j)" if "j < i" for j using first_slot_least [OF Some _ that] by simp
      with False Some i pend rec_invD(5) [OF inv i(1)] show ?thesis
        by (auto simp: vbr_recovery_take_quarantine_def awaiting_def)
    qed
  qed
qed

definition example_failure :: "rec_op list" where
  "example_failure = [Reserve (example_binding\<lparr> b_id := 1 \<rparr>) (1, 7), Autorecord 1, Advance (1, 7)]"

lemma example_failure_run:
  "q_ring (fold rec_exec example_failure new_recovery) ! 0 = empty_record\<lparr> f_binding := example_binding\<lparr> b_id := 1 \<rparr>,
     f_owner := (1, 7), f_state := Rs_awaiting_ack, f_site := Site_exception_unwind, f_phase := Ph_mutate \<rparr> \<and>
   q_nonces (fold rec_exec example_failure new_recovery) ! 0 = 1"
  by code_simp

theorem vbr_take_complete_witness:
  "fst (vbr_recovery_take_quarantine (1, 7) (fold rec_exec example_failure new_recovery)) \<noteq> None"
proof -
  let ?q = "fold rec_exec example_failure new_recovery"
  have "state_at ?q 0 = Rs_awaiting_ack \<and> \<not> f_taken (q_ring ?q ! 0) \<and> owner_serves (1, 7) (q_ring ?q ! 0)"
    using example_failure_run by (simp add: empty_record_def owner_serves_def)
  moreover have "0 < RING" by (simp add: RING_def)
  moreover have "length example_failure < 2 ^ 57" by (simp add: example_failure_def)
  ultimately show ?thesis using vbr_take_complete [OF _ refl, of example_failure "(1, 7)"]
    by (auto split: option.splits)
qed

text \<open>The one transition an operation can make on a record.\<close>

fun rec_edge :: "rec_op \<Rightarrow> (recovery_state \<times> recovery_state) option" where
  "rec_edge (Reserve b owner) = Some (Rs_free_slot, Rs_reserved)"
| "rec_edge (Release k op) = Some (Rs_reserved, Rs_free_slot)"
| "rec_edge (Record_Failure k op ph site obs) = Some (Rs_reserved, Rs_recorded)"
| "rec_edge (Autorecord op) = Some (Rs_reserved, Rs_recorded)"
| "rec_edge (Mint k) = Some (Rs_recorded, Rs_capability_minted)"
| "rec_edge (Destroy k) = Some (Rs_capability_minted, Rs_awaiting_ack)"
| "rec_edge (Complete k) = Some (Rs_capability_minted, Rs_free_slot)"
| "rec_edge (Quarantine k) = Some (Rs_capability_minted, Rs_awaiting_ack)"
| "rec_edge (Ack t inst) = Some (Rs_awaiting_ack, Rs_free_slot)"
| "rec_edge (Advance inst) = Some (Rs_recorded, Rs_awaiting_ack)"
| "rec_edge _ = None"

lemma quarantine_state:
  "i < RING \<Longrightarrow> length (q_ring q) = RING \<Longrightarrow>
    state_at (quarantine i q) j = (if j = i then Rs_awaiting_ack else state_at q j)"
  by (simp add: quarantine_def nth_list_update_if)

lemma advance_states:
  assumes "length (q_ring q) = RING" and "n \<le> RING"
  shows "length (q_ring (snd (fold (advance_one inst) [0..<n] (c, q)))) = RING \<and>
    (\<forall>j. f_owner (q_ring (snd (fold (advance_one inst) [0..<n] (c, q))) ! j) = f_owner (q_ring q ! j) \<and>
      state_at (snd (fold (advance_one inst) [0..<n] (c, q))) j =
       (if j < n \<and> state_at q j = Rs_recorded \<and> owner_serves inst (q_ring q ! j) then Rs_awaiting_ack else state_at q j))"
  using assms(2)
proof (induction n)
  case (Suc n)
  let ?s = "fold (advance_one inst) [0..<n] (c, q)"
  have IH: "length (q_ring (snd ?s)) = RING"
      "\<And>j. f_owner (q_ring (snd ?s) ! j) = f_owner (q_ring q ! j)"
      "\<And>j. state_at (snd ?s) j =
       (if j < n \<and> state_at q j = Rs_recorded \<and> owner_serves inst (q_ring q ! j) then Rs_awaiting_ack else state_at q j)"
    using Suc by auto
  have "owner_serves inst (q_ring (snd ?s) ! n) = owner_serves inst (q_ring q ! n)"
    by (simp add: owner_serves_def IH(2))
  moreover have "length (q_ring (quarantine n (snd ?s))) = RING" "n < RING"
      "\<And>j. f_owner (q_ring (quarantine n (snd ?s)) ! j) = f_owner (q_ring (snd ?s) ! j)"
    using IH(1) Suc.prems by (simp_all add: quarantine_def nth_list_update_if)
  ultimately show ?case
    using IH quarantine_state [of n "snd ?s"] by (auto simp: advance_one_def [of inst n ?s] less_Suc_eq)
qed (use assms(1) in simp)

lemma list_update_cases: "xs[i := v] ! j = v \<or> xs[i := v] ! j = xs ! j"
  by (cases "i < length xs") (auto simp: nth_list_update_if list_update_beyond)

lemma advance_taken:
  "f_taken (q_ring (snd (fold (advance_one inst) [0..<n] (c, q))) ! j) = f_taken (q_ring q ! j)"
proof (induction n)
  case (Suc n)
  let ?s = "fold (advance_one inst) [0..<n] (c, q)"
  show ?case using Suc list_update_cases [of "q_ring (snd ?s)" n _ j]
    by (cases "n < length (q_ring (snd ?s))"; cases "j = n")
      (simp_all add: advance_one_def [of inst n ?s] quarantine_def nth_list_update_if list_update_beyond)
qed simp

text \<open>The records follow one monotone state machine. Whatever index, identity, instance or token a
  caller presents, an operation changes the state of a record only along its one edge: a slot is
  reserved only when free, a failure recorded only when reserved, a capability minted only from a
  recorded failure, and freed only by an unused release, a completed capability or an
  acknowledgement.\<close>

theorem vbr_recovery_transitions:
  assumes "length ops < 2 ^ 57" and "q = fold rec_exec ops new_recovery" and "i < RING"
    and "state_at (rec_exec op q) i \<noteq> state_at q i"
  shows "rec_edge op = Some (state_at q i, state_at (rec_exec op q) i)"
proof -
  have inv: "rec_inv q" unfolding assms(2) by (rule rec_run_inv [OF assms(1)])
  have len: "length (q_ring q) = RING" by (rule rec_invD(1) [OF inv])
  note upd = nth_list_update_if quarantine_state [OF _ len]
  show ?thesis
  proof (cases op)
    case (Reserve b owner)
    then show ?thesis using assms(4) len
      by (auto simp: vbr_recovery_reserve_locked_def upd split: option.splits if_splits dest!: ring_slot [OF inv])
  next
    case (Autorecord x)
    then show ?thesis using assms(3,4) len
      by (auto simp: vbr_recovery_autorecord_on_close_def autorecorded_def split: if_splits)
  next
    case (Take inst)
    then show ?thesis using assms(4) len
      by (auto simp: vbr_recovery_take_quarantine_def upd split: option.splits if_splits dest!: ring_slot [OF inv])
  next
    case (Untake t inst)
    then show ?thesis using assms(4) len
      by (auto simp: vbr_recovery_untake_quarantine_def token_serves_def token_set_def upd split: if_splits)
  next
    case (Ack t inst)
    then show ?thesis using assms(4) len
      by (auto simp: vbr_recovery_ack_quarantine_def token_serves_def token_set_def empty_record_def upd split: if_splits)
  next
    case (Advance inst)
    then show ?thesis using assms(4) advance_states [OF len order_refl, of inst 0]
      by (auto simp: vbr_recovery_advance_recorded_def split: if_splits)
  qed (use assms(4) len in \<open>auto simp: vbr_recovery_release_unused_def vbr_recovery_record_failure_def
        vbr_recovery_set_source_token_def vbr_recovery_mint_def capability_destroy_def resolve_completed_def
        resolve_quarantined_def reserved_record_Some minted_record_Some record_at_slot empty_record_def recovery_slot_less upd
        dest: recovery_slot_less split: option.splits if_splits\<close>)
qed

theorem vbr_recovery_transitions_witness:
  "rec_edge (Autorecord 1) = Some (Rs_reserved, Rs_recorded) \<and>
   state_at (rec_exec (Autorecord 1) (fold rec_exec [Reserve (example_binding\<lparr> b_id := 1 \<rparr>) (1, 7)] new_recovery)) 0 = Rs_recorded"
proof -
  let ?ops = "[Reserve (example_binding\<lparr> b_id := 1 \<rparr>) (1, 7)]"
  have run: "state_at (fold rec_exec ?ops new_recovery) 0 = Rs_reserved"
      "state_at (rec_exec (Autorecord 1) (fold rec_exec ?ops new_recovery)) 0 = Rs_recorded"
    by code_simp+
  have "rec_edge (Autorecord 1) = Some (Rs_reserved, Rs_recorded)"
    using vbr_recovery_transitions [of ?ops _ 0 "Autorecord 1", OF _ refl] unfolding run by (simp add: RING_def)
  with run(2) show ?thesis by blast
qed

section \<open>Quarantine tokens are single use\<close>

text \<open>A nonce is kept, dropped to zero or handed out anew, above everything handed out before.\<close>

definition nonce_step :: "recovery \<Rightarrow> recovery \<Rightarrow> bool" where
  "nonce_step q q' \<longleftrightarrow> q_nonce_next q \<le> q_nonce_next q' \<and>
     (\<forall>j. q_nonces q' ! j = q_nonces q ! j \<or> q_nonces q' ! j = 0 \<or> q_nonce_next q \<le> q_nonces q' ! j)"

lemma nonce_step_refl [simp]: "nonce_step q q" "nonce_step q (set_record i r q)" "nonce_step q (q\<lparr> q_ring := rs \<rparr>)"
  by (simp_all add: nonce_step_def)

lemma nonce_step_trans:
  assumes "nonce_step p q" and "nonce_step q r"
  shows "nonce_step p r"
proof -
  have "q_nonces r ! j = q_nonces p ! j \<or> q_nonces r ! j = 0 \<or> q_nonce_next p \<le> q_nonces r ! j" for j
    using assms [unfolded nonce_step_def] order_trans [of "q_nonce_next p" "q_nonce_next q" "q_nonces r ! j"]
    by (cases "q_nonces r ! j = q_nonces q ! j") auto
  then show ?thesis using assms order_trans by (auto simp: nonce_step_def)
qed

lemma nonce_step_quarantine:
  assumes "nonces_below q m" and "m < 2 ^ 64 - 1"
  shows "nonce_step q (quarantine i q)"
proof -
  have "unat (q_nonce_next q) < 2 ^ 64 - 1" using assms by (simp add: nonces_below_def)
  then have "q_nonce_next q < q_nonce_next q + 1" using quarantine_next [of q i] inc_less [of "q_nonce_next q"] by simp
  moreover have "q_nonces (quarantine i q) ! j = q_nonces q ! j \<or> q_nonce_next q \<le> q_nonces (quarantine i q) ! j" for j
    using list_update_cases [of "q_nonces q" i "q_nonce_next q" j] by (auto simp: quarantine_def)
  ultimately show ?thesis by (auto simp: nonce_step_def quarantine_def)
qed

lemma nonce_step_advance:
  assumes "nonces_below q m" and "n \<le> RING" and "m + n < 2 ^ 64"
  shows "nonce_step q (snd (fold (advance_one inst) [0..<n] (0, q)))"
  using assms(2,3)
proof (induction n)
  case (Suc n)
  let ?s = "fold (advance_one inst) [0..<n] (0, q)"
  have "nonces_below (snd ?s) (m + n)" using nonces_below_advance [OF assms(1)] Suc.prems by simp
  then have "nonce_step (snd ?s) (quarantine n (snd ?s))" using Suc.prems by (intro nonce_step_quarantine) auto
  then have "nonce_step (snd ?s) (snd (advance_one inst n ?s))" by (simp add: advance_one_def [of inst n ?s])
  with Suc show ?case using nonce_step_trans by simp
qed simp

lemma rec_exec_nonce_step:
  assumes nb: "nonces_below q m" and m: "m + RING < 2 ^ 64"
  shows "nonce_step q (rec_exec op q)"
proof -
  have quar: "nonce_step q (quarantine i q)" for i using nonce_step_quarantine [OF nb, of i] m by (simp add: RING_def)
  show ?thesis
  proof (cases op)
    case (Advance inst)
    then show ?thesis using nonce_step_advance [OF nb order_refl m] by (simp add: vbr_recovery_advance_recorded_def)
  next
    case (Ack t inst)
    then show ?thesis using list_update_cases [of "q_nonces q" _ 0]
      by (auto simp: vbr_recovery_ack_quarantine_def nonce_step_def)
  qed (auto simp: quar vbr_recovery_reserve_locked_def vbr_recovery_release_unused_def vbr_recovery_record_failure_def
      vbr_recovery_set_source_token_def vbr_recovery_autorecord_on_close_def vbr_recovery_mint_def capability_destroy_def
      resolve_completed_def resolve_quarantined_def vbr_recovery_take_quarantine_def vbr_recovery_untake_quarantine_def
      split: option.splits)
qed

lemma rec_run_from:
  assumes "nonces_below q m" and "m + 64 * length ops < 2 ^ 64"
  shows "nonce_step q (fold rec_exec ops q) \<and> nonces_below (fold rec_exec ops q) (m + 64 * length ops)"
  using assms
proof (induction ops arbitrary: q m)
  case (Cons op ops)
  have "m + RING < 2 ^ 64" using Cons.prems(2) by (simp add: RING_def)
  from rec_exec_nonce_step [OF Cons.prems(1) this, of op] rec_exec_nonces [OF Cons.prems(1) this, of op]
  have step: "nonce_step q (rec_exec op q)" "nonces_below (rec_exec op q) (m + 64)" by (simp_all add: RING_def)
  have "m + 64 + 64 * length ops < 2 ^ 64" using Cons.prems(2) by simp
  from Cons.IH [OF step(2) this] step(1) show ?case by (auto simp: add.assoc intro: nonce_step_trans)
qed simp

lemma ack_retires:
  assumes "rec_inv q" and "token_serves t inst q" and "nonce_step (snd (vbr_recovery_ack_quarantine t inst q)) p"
  shows "\<not> token_serves t inst' p"
proof
  assume p: "token_serves t inst' p"
  let ?i = "nat (fst t)"
  let ?q = "snd (vbr_recovery_ack_quarantine t inst q)"
  from assms(2) have i: "?i < RING" and t: "q_nonces q ! ?i = snd t" "snd t \<noteq> 0"
    by (auto simp: token_serves_def token_set_def)
  from rec_invD(2,6) [OF assms(1)] i have "snd t < q_nonce_next q" and len: "?i < length (q_nonces q)" by (auto simp flip: t(1))
  moreover have "q_nonce_next ?q = q_nonce_next q" "q_nonces ?q ! ?i = 0"
    using assms(2) len by (simp_all add: vbr_recovery_ack_quarantine_def)
  moreover have "q_nonces p ! ?i = snd t" using p by (simp add: token_serves_def)
  ultimately show False using assms(3) t(2) unfolding nonce_step_def by (metis not_less)
qed

text \<open>C22: a quarantine token is single use. Acknowledging succeeds exactly when the token names a
  record that awaits acknowledgement, was taken by this very instance, and carries its current nonce;
  it frees the record, and in every later state of the ring no instance can acknowledge or give back
  the same token again, even after the slot has been reused.\<close>

theorem vbr_token_single_use:
  assumes "length ops + length later < 2 ^ 57" and "q = fold rec_exec ops new_recovery"
    and "fst (vbr_recovery_ack_quarantine t inst q)"
    and "q' = fold rec_exec later (snd (vbr_recovery_ack_quarantine t inst q))"
  shows "state_at q (nat (fst t)) = Rs_awaiting_ack \<and> f_taker (q_ring q ! nat (fst t)) = inst \<and>
    q_nonces q ! nat (fst t) = snd t \<and> state_at (snd (vbr_recovery_ack_quarantine t inst q)) (nat (fst t)) = Rs_free_slot \<and>
    vbr_recovery_ack_quarantine t inst' q' = (False, q') \<and> vbr_recovery_untake_quarantine t inst' q' = (False, q')"
proof -
  have serves: "token_serves t inst q" using assms(3) by (auto simp: vbr_recovery_ack_quarantine_def split: if_splits)
  have inv: "rec_inv q" unfolding assms(2) using assms(1) by (intro rec_run_inv) simp
  have "nonces_below q (64 * length ops + 1)" unfolding assms(2) using assms(1) by (intro rec_run_nonces) simp
  from rec_exec_nonces [OF this, of "Ack t inst"] assms(1)
  have "nonces_below (snd (vbr_recovery_ack_quarantine t inst q)) (64 * length ops + 65)" by (simp add: RING_def add.commute)
  from rec_run_from [OF this, of later] assms(1,4)
  have "nonce_step (snd (vbr_recovery_ack_quarantine t inst q)) q'" by simp
  then have "\<not> token_serves t inst' q'" using ack_retires [OF inv serves] by blast
  moreover have "nat (fst t) < length (q_ring q)"
    using serves rec_invD(1) [OF inv] by (auto simp: token_serves_def token_set_def)
  ultimately show ?thesis using serves
    by (simp add: vbr_recovery_ack_quarantine_def vbr_recovery_untake_quarantine_def token_serves_def empty_record_def)
qed

theorem vbr_token_single_use_witness:
  "let q = fold rec_exec (example_failure @ [Take (1, 7)]) new_recovery;
       q' = snd (vbr_recovery_ack_quarantine (0, 1) (1, 7) q)
   in vbr_recovery_ack_quarantine (0, 1) (1, 7) (fold rec_exec (example_failure @ [Take (1, 7)]) q') =
     (False, fold rec_exec (example_failure @ [Take (1, 7)]) q')"
proof -
  let ?ops = "example_failure @ [Take (1, 7)]"
  have ok: "fst (vbr_recovery_ack_quarantine (0, 1) (1, 7) (fold rec_exec ?ops new_recovery))" by code_simp
  have len: "length ?ops + length ?ops < 2 ^ 57" by (simp add: example_failure_def)
  from vbr_token_single_use [OF len refl ok refl, of "(1, 7)"] show ?thesis unfolding Let_def by blast
qed

section \<open>A failure is never lost\<close>

lemma take_some:
  assumes inv: "rec_inv q" and i: "i < RING" "state_at q i = Rs_awaiting_ack" "\<not> f_taken (q_ring q ! i)" "owner_serves inst (q_ring q ! i)"
  shows "fst (vbr_recovery_take_quarantine inst q) \<noteq> None"
proof -
  let ?P = "\<lambda>r. \<not> (f_state r \<noteq> Rs_awaiting_ack \<or> f_taken r) \<and> owner_serves inst r"
  have "i \<in> awaiting q" using i by (simp add: awaiting_def)
  then have "card (awaiting q) \<noteq> 0" by auto
  then have "q_pending q \<noteq> 0" using pending_zero [OF inv] by auto
  moreover have "first_slot ?P 0 (q_ring q) \<noteq> None"
    using i rec_invD(1) [OF inv] nth_mem [of i "q_ring q"] by (auto simp: first_slot_None)
  ultimately show ?thesis by (auto simp: vbr_recovery_take_quarantine_def)
qed

lemma autorecord_at:
  "i < length (q_ring q) \<Longrightarrow> q_ring (vbr_recovery_autorecord_on_close op q) ! i = autorecorded op (q_ring q ! i)"
  by (simp add: vbr_recovery_autorecord_on_close_def)

text \<open>C23: an operation that ends without committing cannot drop its failure. Closing it ends its
  identity in the registry, records every reserved record of it as an exception unwind at the phase of
  its binding and leaves every other record alone; and once the owner advances the recorded failures,
  each such record awaits acknowledgement and the owner's next \<open>take\<close> returns one.\<close>

theorem vbr_failure_never_lost:
  assumes "length ops < 2 ^ 56" and "q = fold rec_exec ops new_recovery" and "g = fold reg_exec begins new_registry"
    and "outcome \<noteq> Out_committed" and "vbr_operation_registry_close op outcome (g, q) = (ok, g1, q1)"
    and "i < RING" and "state_at q i = Rs_reserved" and "b_id (f_binding (q_ring q ! i)) = op"
    and "owner_serves inst (q_ring q ! i)" and "vbr_recovery_advance_recorded inst q1 = (n, q2)"
  shows "vbr_operation_registry_binding op g1 = None \<and>
    q_ring q1 ! i = (q_ring q ! i)\<lparr> f_state := Rs_recorded, f_site := Site_exception_unwind,
      f_phase := b_phase (f_binding (q_ring q ! i)) \<rparr> \<and>
    (\<forall>j < RING. b_id (f_binding (q_ring q ! j)) \<noteq> op \<longrightarrow> q_ring q1 ! j = q_ring q ! j) \<and>
    state_at q2 i = Rs_awaiting_ack \<and> fst (vbr_recovery_take_quarantine inst q2) \<noteq> None"
proof -
  have inv: "rec_inv q" unfolding assms(2) using assms(1) by (intro rec_run_inv) simp
  have len: "length (q_ring q) = RING" by (rule rec_invD(1) [OF inv])
  have q1: "q1 = vbr_recovery_autorecord_on_close op q" and g1: "g1 = reg_remove op g"
    using assms(4,5) by (auto simp: vbr_operation_registry_close_def Let_def split: prod.splits)
  have at: "q_ring q1 ! j = autorecorded op (q_ring q ! j)" if "j < RING" for j
    unfolding q1 using that len by (intro autorecord_at) simp
  have "vbr_operation_registry_binding op g1 = None"
    unfolding g1 using reg.remove_ok [OF run_inv] assms(3) by simp
  moreover have i: "q_ring q1 ! i = (q_ring q ! i)\<lparr> f_state := Rs_recorded, f_site := Site_exception_unwind,
      f_phase := b_phase (f_binding (q_ring q ! i)) \<rparr>"
    using at [OF assms(6)] assms(7,8) by (simp add: autorecorded_def)
  moreover have "\<forall>j < RING. b_id (f_binding (q_ring q ! j)) \<noteq> op \<longrightarrow> q_ring q1 ! j = q_ring q ! j"
    using at by (simp add: autorecorded_def)
  moreover have len1: "length (q_ring q1) = RING" using len by (simp add: q1 vbr_recovery_autorecord_on_close_def)
  have q2: "q2 = snd (fold (advance_one inst) [0..<RING] (0, q1))"
    using assms(10) by (simp add: vbr_recovery_advance_recorded_def)
  have serves: "owner_serves inst (q_ring q1 ! i)" using assms(9) i by (simp add: owner_serves_def)
  have st: "state_at q2 i = Rs_awaiting_ack" and own: "owner_serves inst (q_ring q2 ! i)"
    using advance_states [OF len1 order_refl, of inst 0] serves assms(6) i by (simp_all add: q2 owner_serves_def)
  have ops2: "q2 = fold rec_exec (ops @ [Autorecord op, Advance inst]) new_recovery"
    using assms(2,10) by (simp add: q1)
  have inv2: "rec_inv q2" unfolding ops2 using assms(1) by (intro rec_run_inv) simp
  have "\<not> f_taken (q_ring q ! i)" using rec_invD(4) [OF inv assms(6)] assms(7) by auto
  then have "\<not> f_taken (q_ring q2 ! i)"
    using advance_taken [of inst RING 0 q1] i by (simp add: q2)
  with take_some [OF inv2 assms(6) st _ own] have "fst (vbr_recovery_take_quarantine inst q2) \<noteq> None" by blast
  ultimately show ?thesis using st by blast
qed

theorem vbr_failure_never_lost_witness:
  "let ops = [Reserve (example_binding\<lparr> b_id := 1 \<rparr>) (1, 7)];
       q1 = snd (snd (vbr_operation_registry_close 1 Out_failed (new_registry, fold rec_exec ops new_recovery)))
   in fst (vbr_recovery_take_quarantine (1, 7) (snd (vbr_recovery_advance_recorded (1, 7) q1))) \<noteq> None"
proof -
  let ?ops = "[Reserve (example_binding\<lparr> b_id := 1 \<rparr>) (1, 7)]"
  let ?q = "fold rec_exec ?ops new_recovery"
  have run: "state_at ?q 0 = Rs_reserved \<and> b_id (f_binding (q_ring ?q ! 0)) = 1 \<and> owner_serves (1, 7) (q_ring ?q ! 0)"
    by code_simp
  have g: "new_registry = fold reg_exec [] new_registry" by simp
  have "(0 :: nat) < RING" "length ?ops < 2 ^ 56" "Out_failed \<noteq> Out_committed" by (simp_all add: RING_def)
  from vbr_failure_never_lost [OF this(2) refl g this(3) _ this(1)] run
  show ?thesis unfolding Let_def by (metis prod.collapse)
qed

lemma minted_gone:
  assumes "length (q_ring q) = RING"
  shows "minted_record k (snd (snd (resolve_completed k q))) = None"
    "minted_record k (snd (snd (resolve_quarantined k q))) = None"
    "0 \<le> k \<Longrightarrow> minted_record k (capability_destroy k q) = None"
    "minted_record k q = Some i \<Longrightarrow> 0 \<le> k \<and> k < int RING \<and> i = nat k"
proof -
  have "recovery_slot k = None \<or> nat k < length (q_ring q)" using assms by (auto simp: recovery_slot_def)
  then show "minted_record k (snd (snd (resolve_completed k q))) = None"
      "minted_record k (snd (snd (resolve_quarantined k q))) = None"
      "0 \<le> k \<Longrightarrow> minted_record k (capability_destroy k q) = None"
    by (elim disjE; simp add: resolve_completed_def resolve_quarantined_def capability_destroy_def minted_record_def
      recovery_slot_def quarantine_def empty_record_def)+
qed (auto simp: minted_record_def recovery_slot_def split: if_splits)

text \<open>A recovery capability authorizes exactly its own footprint: a non-empty interval of
  positions may be mutated if and only if the capability still names a minted record and one declared
  target of the failed operation contains the stream, the sequence and all the positions (a target
  declared without a sequence or a range does not restrict them). Once completed, quarantined or
  destroyed, the capability authorizes nothing and is empty.\<close>

theorem vbr_capability_footprint:
  assumes "length ops < 2 ^ 57" and "q = fold rec_exec ops new_recovery" and "p0 < p1"
  shows "(target_allowed k s sq p0 p1 q \<longleftrightarrow>
     0 \<le> k \<and> k < int RING \<and> state_at q (nat k) = Rs_capability_minted \<and>
     (\<exists>t \<in> set (b_targets (f_binding (q_ring q ! nat k))).
        stream_matches t s \<and> (t_seq t \<ge> 0 \<longrightarrow> sq = t_seq t) \<and>
        (fst (t_range t) \<ge> 0 \<longrightarrow> {p0..<p1} \<subseteq> {fst (t_range t)..<snd (t_range t)}))) \<and>
     \<not> target_allowed k s sq p0 p1 (snd (snd (resolve_completed k q))) \<and>
     \<not> target_allowed k s sq p0 p1 (snd (snd (resolve_quarantined k q))) \<and>
     \<not> target_allowed k s sq p0 p1 (capability_destroy k q) \<and>
     (target_allowed k s sq p0 p1 q \<longrightarrow>
        fst (snd (resolve_completed k q)) < 0 \<and> fst (snd (resolve_quarantined k q)) < 0)"
proof (intro conjI)
  have "rec_inv q" unfolding assms(2) by (rule rec_run_inv [OF assms(1)])
  note gone = minted_gone [OF rec_invD(1) [OF this], of k]
  have sub: "{p0..<p1} \<subseteq> {a..<b} \<longleftrightarrow> a \<le> p0 \<and> p1 \<le> b" for a b
    using assms(3) by (simp add: ivl_subset)
  show "target_allowed k s sq p0 p1 q \<longleftrightarrow>
     0 \<le> k \<and> k < int RING \<and> state_at q (nat k) = Rs_capability_minted \<and>
     (\<exists>t \<in> set (b_targets (f_binding (q_ring q ! nat k))).
        stream_matches t s \<and> (t_seq t \<ge> 0 \<longrightarrow> sq = t_seq t) \<and>
        (fst (t_range t) \<ge> 0 \<longrightarrow> {p0..<p1} \<subseteq> {fst (t_range t)..<snd (t_range t)}))"
    unfolding sub
    by (auto simp: target_allowed_def minted_record_def recovery_slot_def list_ex_iff not_le not_less split: option.splits if_splits)
  show "\<not> target_allowed k s sq p0 p1 (snd (snd (resolve_completed k q)))"
      "\<not> target_allowed k s sq p0 p1 (snd (snd (resolve_quarantined k q)))"
    by (simp_all add: target_allowed_def gone(1,2))
  show "\<not> target_allowed k s sq p0 p1 (capability_destroy k q)"
    using gone(3) by (cases "0 \<le> k") (auto simp: target_allowed_def minted_record_def recovery_slot_def)
  show "target_allowed k s sq p0 p1 q \<longrightarrow>
      fst (snd (resolve_completed k q)) < 0 \<and> fst (snd (resolve_quarantined k q)) < 0"
    by (auto simp: target_allowed_def resolve_completed_def resolve_quarantined_def split: option.splits)
qed

definition example_capability :: "rec_op list" where
  "example_capability = [Reserve (example_binding\<lparr> b_id := 1 \<rparr>) (1, 7), Autorecord 1, Mint 0]"

theorem vbr_capability_footprint_witness:
  "\<not> target_allowed 0 0 0 0 4 (snd (snd (resolve_completed 0 (fold rec_exec example_capability new_recovery)))) \<and>
   fst (snd (resolve_completed 0 (fold rec_exec example_capability new_recovery))) < 0"
proof -
  have len: "length example_capability < 2 ^ 57" by (simp add: example_capability_def)
  have allowed: "target_allowed 0 0 0 0 4 (fold rec_exec example_capability new_recovery)" by code_simp
  from vbr_capability_footprint [OF len refl, of 0 4 0 0 0] allowed show ?thesis by simp
qed

end
