(* ===== verification/Ladder_Policy.thy ===== *)
theory Ladder_Policy
  imports Prelude
begin

text \<open>
  The ordering policy of the tree-shed transaction, \<^verbatim>\<open>src/src/llama-vbr-policy.h\<close>: checked sums, the
  logical size of a ladder endpoint, the overflow-free comparison of fractions, and the stream that
  yields the ladder steps of all children by least proportional progress. The heap of the stream is
  a list of child indices; \<open>std::pop_heap\<close> takes the element no other one precedes in the comparator's
  order. A division by zero is the value \<open>None\<close>.
\<close>

definition I64_MAX :: int where "I64_MAX = 2 ^ 63 - 1"
definition I64_MIN :: int where "I64_MIN = - (2 ^ 63)"
definition U64_LIMIT :: nat where "U64_LIMIT = 2 ^ 64 - 1"

section \<open>Arithmetic\<close>

definition checked_add :: "int \<Rightarrow> int \<Rightarrow> int option" where
  "checked_add a b = (if (b > 0 \<and> a > I64_MAX - b) \<or> (b < 0 \<and> a < I64_MIN - b) then None else Some (a + b))"

text \<open>The unsigned operations wrap; \<open>None\<close> is the result false.\<close>

definition logical_endpoint_bytes :: "nat \<Rightarrow> nat \<Rightarrow> nat \<Rightarrow> nat \<Rightarrow> nat option" where
  "logical_endpoint_bytes row_bytes watermark slot_span granularity =
    (if granularity = 0 \<or> slot_span = 0 then None
     else if watermark \<noteq> 0 \<and> row_bytes > U64_LIMIT div watermark then None
     else let raw = (row_bytes * watermark) mod 2 ^ 64 in
       if raw \<ge> slot_span then Some slot_span
       else if raw > U64_LIMIT - (granularity - 1) then None
       else let padded = ((((raw + granularity) mod 2 ^ 64 + 2 ^ 64 - 1) mod 2 ^ 64) div granularity * granularity) mod 2 ^ 64
            in Some (if padded < slot_span then padded else slot_span))"

function fraction_loop :: "bool \<Rightarrow> nat \<Rightarrow> nat \<Rightarrow> nat \<Rightarrow> nat \<Rightarrow> bool option" where
  "fraction_loop reverse a b c d =
    (if b = 0 \<or> d = 0 then None
     else let qa = a div b; qc = c div d in
       if qa \<noteq> qc then Some (if reverse then qa > qc else qa < qc)
       else let ra = a mod b; rc = c mod d in
         if ra = 0 \<or> rc = 0 then
           (if ra = 0 \<and> rc = 0 then Some False
            else let less = (ra = 0) in Some (if reverse then \<not> less else less))
         else fraction_loop (\<not> reverse) b ra d rc)"
  by pat_completeness auto
termination by (relation "measure (\<lambda>(_, _, b, _, _). b)") auto

declare fraction_loop.simps [simp del]

definition fraction_less :: "nat \<Rightarrow> nat \<Rightarrow> nat \<Rightarrow> nat \<Rightarrow> bool option" where
  "fraction_less a b c d = fraction_loop False a b c d"

section \<open>The stream\<close>

record policy_step =
  order_index :: nat
  slot :: nat
  type_a :: int
  type_b :: int
  logical_gain :: int

record policy_child =
  initial_progress :: int
  terminal_progress :: int
  steps :: "policy_step list"
  blocked_order_indices :: "nat list"
  capture_blocked_order_indices :: "nat list"

record selection =
  child_index :: nat
  child_step_index :: nat
  sel_value :: policy_step

datatype policy_result = selected | exhausted | invalid | overflow

text \<open>A child's cursor: the next step and the signed progress.\<close>

type_synonym cursor = "nat \<times> int"

record prefix_stream =
  p_children :: "policy_child list"
  p_states :: "cursor list"
  p_selected :: "selection list"
  p_heap :: "nat list"
  p_valid :: bool
  p_retain_history :: bool

definition eligible :: "policy_child list \<Rightarrow> cursor list \<Rightarrow> nat \<Rightarrow> bool" where
  "eligible cs st i \<longleftrightarrow> i < length cs \<and> terminal_progress (cs ! i) > 0 \<and> fst (st ! i) < length (steps (cs ! i))"

text \<open>The unsigned progress used for ranking.\<close>

definition clamped :: "int \<Rightarrow> nat" where
  "clamped p = (if p > 0 then nat p else 0)"

definition better :: "policy_child list \<Rightarrow> cursor list \<Rightarrow> nat \<Rightarrow> nat \<Rightarrow> bool option" where
  "better cs st l r =
    (let ln = clamped (snd (st ! l)); rn = clamped (snd (st ! r));
         ld = nat (terminal_progress (cs ! l)); rd = nat (terminal_progress (cs ! r))
     in do {
       lt \<leftarrow> fraction_less ln ld rn rd;
       if lt then Some True
       else do {
         gt \<leftarrow> fraction_less rn rd ln ld;
         if gt then Some False else Some (l < r) } })"

text \<open>\<open>std::pop_heap\<close>: the element that precedes all the others.\<close>

fun pop_best :: "(nat \<Rightarrow> nat \<Rightarrow> bool option) \<Rightarrow> nat \<Rightarrow> nat list \<Rightarrow> nat option" where
  "pop_best prec p [] = Some p"
| "pop_best prec p (i # js) = do { x \<leftarrow> prec i p; pop_best prec (if x then i else p) js }"

definition stream_valid :: "policy_child list \<Rightarrow> bool" where
  "stream_valid cs = list_all (\<lambda>c. terminal_progress c > 0 \<longrightarrow> list_all (\<lambda>st. \<not> logical_gain st < 0) (steps c)) cs"

definition new_stream :: "policy_child list \<Rightarrow> bool \<Rightarrow> prefix_stream" where
  "new_stream cs retain =
    (let st = map (\<lambda>c. (0, initial_progress c)) cs in
     \<lparr> p_children = cs, p_states = st, p_selected = [], p_heap = filter (eligible cs st) [0..<length cs],
       p_valid = stream_valid cs, p_retain_history = retain \<rparr>)"

definition stream_next :: "prefix_stream \<Rightarrow> (policy_result \<times> selection option \<times> prefix_stream) option" where
  "stream_next s =
    (if \<not> p_valid s then Some (invalid, None, s)
     else case p_heap s of [] \<Rightarrow> Some (exhausted, None, s)
     | h # hs \<Rightarrow> do {
         pick \<leftarrow> pop_best (better (p_children s) (p_states s)) h hs;
         let heap = remove1 pick (p_heap s);
             (k, progress) = p_states s ! pick;
             st = steps (p_children s ! pick) ! k
         in case checked_add progress (logical_gain st) of
              None \<Rightarrow> Some (overflow, None, s\<lparr> p_heap := heap \<rparr>)
            | Some progress' \<Rightarrow>
                let states = (p_states s)[pick := (k + 1, progress')];
                    out = \<lparr> child_index = pick, child_step_index = k, sel_value = st \<rparr>
                in Some (selected, Some out, s\<lparr> p_states := states,
                     p_heap := (if eligible (p_children s) states pick then heap @ [pick] else heap),
                     p_selected := (if p_retain_history s then p_selected s @ [out] else p_selected s) \<rparr>) })"

partial_function (option) prefix_loop ::
  "(selection list \<Rightarrow> bool) \<Rightarrow> selection list \<Rightarrow> prefix_stream \<Rightarrow> (policy_result \<times> selection list \<times> prefix_stream) option" where
  "prefix_loop accept out s = do {
     (r, chosen, s') \<leftarrow> stream_next s;
     case chosen of None \<Rightarrow> Some (r, out, s')
     | Some c \<Rightarrow> if accept (out @ [c]) then Some (selected, out @ [c], s') else prefix_loop accept (out @ [c]) s' }"

declare prefix_loop.simps [code]

definition shortest_prefix ::
  "(selection list \<Rightarrow> bool) \<Rightarrow> prefix_stream \<Rightarrow> (policy_result \<times> selection list \<times> prefix_stream) option" where
  "shortest_prefix accept s = prefix_loop accept [] s"

section \<open>The comparison is exact\<close>

lemma quotient_less:
  fixes x y :: nat
  assumes "x = p * b + r" "y = p' * d + r'" "r < b" "p < p'" "0 < d"
  shows "x * d < y * b"
proof -
  have "x < (p + 1) * b" using assms(1,3) by simp
  also have "\<dots> \<le> p' * b" using assms(4) by (intro mult_right_mono) auto
  finally have "x * d < p' * b * d" using assms(5) by (rule mult_strict_right_mono)
  also have "\<dots> \<le> y * b" by (simp add: assms(2) algebra_simps)
  finally show ?thesis .
qed

lemma fraction_loop_exact:
  "0 < b \<Longrightarrow> 0 < d \<Longrightarrow> fraction_loop reverse a b c d = Some (if reverse then c * b < a * d else a * d < c * b)"
proof (induction reverse a b c d rule: fraction_loop.induct)
  case (1 reverse a b c d)
  define qa qc ra rc where q: "qa = a div b" "qc = c div d" "ra = a mod b" "rc = c mod d"
  have a: "a = qa * b + ra" "ra < b" and c: "c = qc * d + rc" "rc < d" using 1 by (simp_all add: q)
  show ?case
  proof (cases "qa = qc")
    case False
    from False consider "qa < qc" | "qc < qa" by linarith
    then show ?thesis
    proof cases
      case 1: 1
      then show ?thesis using quotient_less [OF a(1) c(1) a(2) 1] \<open>0 < b\<close> \<open>0 < d\<close>
        by (subst fraction_loop.simps) (simp add: q Let_def)
    next
      case 2: 2
      then show ?thesis using quotient_less [OF c(1) a(1) c(2) 2] \<open>0 < b\<close> \<open>0 < d\<close>
        by (subst fraction_loop.simps) (simp add: q Let_def)
    qed
  next
    case True
    have ad: "a * d < c * b \<longleftrightarrow> ra * d < rc * b" "c * b < a * d \<longleftrightarrow> rc * b < ra * d"
      using a c True by (simp_all add: algebra_simps)
    show ?thesis
    proof (cases "ra = 0 \<or> rc = 0")
      case zero: True
      then show ?thesis using True 1(2,3) ad
        by (subst fraction_loop.simps) (auto simp: q [symmetric] Let_def)
    next
      case False
      have "fraction_loop (\<not> reverse) b ra d rc = Some (if \<not> reverse then d * ra < b * rc else b * rc < d * ra)"
        using 1(1) [of qa qc ra rc] 1(2,3) True False by (simp add: q)
      then show ?thesis using True False 1(2,3) ad
        by (subst fraction_loop.simps) (auto simp: q [symmetric] Let_def mult.commute)
    qed
  qed
qed

lemma fraction_less_exact: "0 < b \<Longrightarrow> 0 < d \<Longrightarrow> fraction_less a b c d = Some (a * d < c * b)"
  by (simp add: fraction_less_def fraction_loop_exact)

end
