(* ===== verification/Ladder_Properties.thy ===== *)
theory Ladder_Properties
  imports Ladder_Policy Complex_Main
begin

text \<open>
  The properties of the shed ordering: the stream yields exactly the order of the selector it
  replaced, which scans all children for the least proportional progress and mutates the one it
  picks, and \<open>shortest_prefix\<close> stops at the first accepted prefix of that order.
\<close>

section \<open>The reference selector\<close>

definition ref_scan :: "policy_child list \<Rightarrow> cursor list \<Rightarrow> nat \<Rightarrow> nat option \<Rightarrow> nat option" where
  "ref_scan cs st i pick =
    (if \<not> eligible cs st i then pick
     else case pick of None \<Rightarrow> Some i
     | Some p \<Rightarrow> if int (clamped (snd (st ! i))) * terminal_progress (cs ! p) <
                    int (clamped (snd (st ! p))) * terminal_progress (cs ! i) then Some i else Some p)"

definition ref_pick :: "policy_child list \<Rightarrow> cursor list \<Rightarrow> nat option" where
  "ref_pick cs st = fold (ref_scan cs st) [0..<length cs] None"

definition ref_next :: "policy_child list \<Rightarrow> cursor list \<Rightarrow> policy_result \<times> selection option \<times> cursor list" where
  "ref_next cs st =
    (case ref_pick cs st of None \<Rightarrow> (exhausted, None, st)
     | Some i \<Rightarrow>
        let (k, progress) = st ! i; sp = steps (cs ! i) ! k
        in case checked_add progress (logical_gain sp) of None \<Rightarrow> (overflow, None, st)
           | Some progress' \<Rightarrow> (selected, Some \<lparr> child_index = i, child_step_index = k, sel_value = sp \<rparr>,
               st[i := (k + 1, progress')]))"

fun ref_order :: "nat \<Rightarrow> policy_child list \<Rightarrow> cursor list \<Rightarrow> selection list" where
  "ref_order 0 cs st = []"
| "ref_order (Suc n) cs st =
    (case ref_next cs st of (r, None, st') \<Rightarrow> [] | (r, Some c, st') \<Rightarrow> c # ref_order n cs st')"

text \<open>Where the order ends: with no step left, or with a progress that overflows.\<close>

fun ref_end :: "nat \<Rightarrow> policy_child list \<Rightarrow> cursor list \<Rightarrow> policy_result" where
  "ref_end 0 cs st = exhausted"
| "ref_end (Suc n) cs st = (case ref_next cs st of (r, None, st') \<Rightarrow> r | (r, Some c, st') \<Rightarrow> ref_end n cs st')"

definition initial_cursors :: "policy_child list \<Rightarrow> cursor list" where
  "initial_cursors cs = map (\<lambda>c. (0, initial_progress c)) cs"

definition remaining :: "policy_child list \<Rightarrow> cursor list \<Rightarrow> nat" where
  "remaining cs st = (\<Sum>i < length cs. if terminal_progress (cs ! i) > 0 then length (steps (cs ! i)) - fst (st ! i) else 0)"

section \<open>Both pick the least\<close>

definition ratio :: "policy_child list \<Rightarrow> cursor list \<Rightarrow> nat \<Rightarrow> rat" where
  "ratio cs st i = of_nat (clamped (snd (st ! i))) / of_int (terminal_progress (cs ! i))"

definition precedes :: "policy_child list \<Rightarrow> cursor list \<Rightarrow> nat \<Rightarrow> nat \<Rightarrow> bool" where
  "precedes cs st i j \<longleftrightarrow> ratio cs st i < ratio cs st j \<or> ratio cs st i = ratio cs st j \<and> i < j"

definition leads :: "policy_child list \<Rightarrow> cursor list \<Rightarrow> nat set \<Rightarrow> nat \<Rightarrow> bool" where
  "leads cs st S i \<longleftrightarrow> i \<in> S \<and> (\<forall>j \<in> S. j \<noteq> i \<longrightarrow> precedes cs st i j)"

lemma leads_unique:
  assumes "leads cs st S i" and "leads cs st S j"
  shows "i = j"
proof (rule ccontr)
  assume "i \<noteq> j"
  then have "precedes cs st i j" "precedes cs st j i" using assms by (auto simp: leads_def)
  then show False by (auto simp: precedes_def)
qed

lemma ratio_less:
  assumes "eligible cs st i" "eligible cs st j"
  shows "int (clamped (snd (st ! i))) * terminal_progress (cs ! j) < int (clamped (snd (st ! j))) * terminal_progress (cs ! i)
    \<longleftrightarrow> ratio cs st i < ratio cs st j"
proof -
  have pos: "(0 :: rat) < of_int (terminal_progress (cs ! i))" "(0 :: rat) < of_int (terminal_progress (cs ! j))"
    using assms by (simp_all add: eligible_def)
  have "ratio cs st i < ratio cs st j \<longleftrightarrow>
      (of_int (int (clamped (snd (st ! i))) * terminal_progress (cs ! j)) :: rat) <
      of_int (int (clamped (snd (st ! j))) * terminal_progress (cs ! i))"
    using pos by (simp add: ratio_def divide_less_eq less_divide_eq field_simps)
  then show ?thesis by (simp only: of_int_less_iff)
qed

lemma better_precedes:
  assumes "eligible cs st i" "eligible cs st j"
  shows "better cs st i j = Some (precedes cs st i j)"
proof -
  have pos: "0 < nat (terminal_progress (cs ! i))" "0 < nat (terminal_progress (cs ! j))"
    using assms by (simp_all add: eligible_def)
  have mult: "clamped (snd (st ! x)) * nat (terminal_progress (cs ! y)) < clamped (snd (st ! y)) * nat (terminal_progress (cs ! x))
      \<longleftrightarrow> ratio cs st x < ratio cs st y" if "eligible cs st x" "eligible cs st y" for x y
  proof -
    have "int (clamped (snd (st ! x)) * nat (terminal_progress (cs ! y))) = int (clamped (snd (st ! x))) * terminal_progress (cs ! y)"
        "int (clamped (snd (st ! y)) * nat (terminal_progress (cs ! x))) = int (clamped (snd (st ! y))) * terminal_progress (cs ! x)"
      using that by (simp_all add: eligible_def)
    then show ?thesis using ratio_less [OF that] by linarith
  qed
  show ?thesis
    unfolding better_def Let_def fraction_less_exact [OF pos] fraction_less_exact [OF pos(2,1)] mult [OF assms] mult [OF assms(2,1)]
    by (auto simp: precedes_def)
qed

lemma pop_best_leads:
  assumes "\<forall>i \<in> insert p (set js). eligible cs st i"
  shows "\<exists>m. pop_best (better cs st) p js = Some m \<and> leads cs st (insert p (set js)) m"
  using assms
proof (induction js arbitrary: p)
  case (Cons i js)
  let ?q = "if precedes cs st i p then i else p"
  obtain m where m: "pop_best (better cs st) ?q js = Some m" "leads cs st (insert ?q (set js)) m"
    using Cons.IH [of ?q] Cons.prems by auto
  have "pop_best (better cs st) p (i # js) = Some m"
    using m(1) Cons.prems by (simp add: better_precedes)
  moreover have "leads cs st (insert p (set (i # js))) m"
  proof (cases "i = p")
    case False
    then have "precedes cs st i p \<or> precedes cs st p i" by (auto simp: precedes_def)
    with m(2) show ?thesis by (auto simp: leads_def precedes_def split: if_splits)
  qed (use m(2) in \<open>simp split: if_splits\<close>)
  ultimately show ?case by blast
qed (simp add: leads_def)

lemma ref_pick_leads:
  "case ref_pick cs st of None \<Rightarrow> \<forall>i. \<not> eligible cs st i | Some m \<Rightarrow> leads cs st {i. eligible cs st i} m"
proof -
  have "case fold (ref_scan cs st) [0..<n] None of None \<Rightarrow> \<forall>i < n. \<not> eligible cs st i
      | Some m \<Rightarrow> leads cs st {i. i < n \<and> eligible cs st i} m" for n
  proof (induction n)
    case (Suc n)
    let ?f = "fold (ref_scan cs st) [0..<n] None"
    have split: "{i. i < Suc n \<and> eligible cs st i} = {i. i < n \<and> eligible cs st i} \<union> (if eligible cs st n then {n} else {})"
      by (auto simp: less_Suc_eq)
    have step: "fold (ref_scan cs st) [0..<Suc n] None = ref_scan cs st n ?f" by simp
    show ?case
    proof (cases ?f)
      case None
      then have "\<forall>i < n. \<not> eligible cs st i" using Suc by simp
      then show ?thesis unfolding step None by (auto simp: ref_scan_def less_Suc_eq leads_def)
    next
      case (Some p)
      then have p: "leads cs st {i. i < n \<and> eligible cs st i} p" using Suc by simp
      then have ep: "eligible cs st p" "p < n" by (auto simp: leads_def)
      show ?thesis
      proof (cases "eligible cs st n")
        case True
        then show ?thesis
          using p ep ratio_less [OF True ep(1)] unfolding split step Some
          by (auto simp: ref_scan_def leads_def precedes_def)
      next
        case False
        then show ?thesis using p unfolding split step Some by (simp add: ref_scan_def)
      qed
    qed
  qed simp
  note this [of "length cs"]
  moreover have "{i. i < length cs \<and> eligible cs st i} = {i. eligible cs st i}" by (auto simp: eligible_def)
  moreover have "(\<forall>i < length cs. \<not> eligible cs st i) \<longleftrightarrow> (\<forall>i. \<not> eligible cs st i)" by (auto simp: eligible_def)
  ultimately show ?thesis by (auto simp: ref_pick_def split: option.splits)
qed

section \<open>The heap follows it\<close>

definition in_step :: "policy_child list \<Rightarrow> prefix_stream \<Rightarrow> bool" where
  "in_step cs s \<longleftrightarrow> p_valid s \<and> p_children s = cs \<and> length (p_states s) = length cs \<and> distinct (p_heap s) \<and>
     set (p_heap s) = {i. eligible cs (p_states s) i}"

lemma eligible_update:
  "length st = length cs \<Longrightarrow> i < length cs \<Longrightarrow> j \<noteq> i \<Longrightarrow> eligible cs (st[i := c]) j = eligible cs st j"
  by (simp add: eligible_def)

lemma eligible_set_update:
  assumes "length st = length cs" and "i < length cs"
  shows "{j. eligible cs (st[i := c]) j} = {j. eligible cs st j} - {i} \<union> (if eligible cs (st[i := c]) i then {i} else {})"
proof (rule set_eqI)
  show "j \<in> {j. eligible cs (st[i := c]) j} \<longleftrightarrow> j \<in> {j. eligible cs st j} - {i} \<union> (if eligible cs (st[i := c]) i then {i} else {})" for j
    using eligible_update [OF assms, of j c] by (cases "j = i") simp_all
qed

lemma stream_next_ref:
  assumes "in_step cs s"
  shows "\<exists>r sel st s'. ref_next cs (p_states s) = (r, sel, st) \<and> stream_next s = Some (r, sel, s') \<and> p_states s' = st \<and>
    (r = selected \<longleftrightarrow> sel \<noteq> None) \<and> (r = selected \<longrightarrow> in_step cs s') \<and> r \<noteq> invalid"
proof (cases "p_heap s")
  case Nil
  then have "\<forall>i. \<not> eligible cs (p_states s) i" using assms by (auto simp: in_step_def)
  then have "ref_pick cs (p_states s) = None"
    using ref_pick_leads [of cs "p_states s"] by (auto simp: leads_def split: option.splits)
  then show ?thesis using assms Nil by (simp add: stream_next_def ref_next_def in_step_def)
next
  case (Cons h hs)
  let ?st = "p_states s"
  have set: "insert h (set hs) = {i. eligible cs ?st i}" and len: "length ?st = length cs" and dist: "distinct (p_heap s)"
      and ch: "p_children s = cs" "p_valid s"
    using assms Cons by (simp_all add: in_step_def)
  have "\<forall>i \<in> insert h (set hs). eligible cs ?st i" unfolding set by simp
  from pop_best_leads [OF this] obtain m where m: "pop_best (better cs ?st) h hs = Some m" "leads cs ?st {i. eligible cs ?st i} m"
    unfolding set by blast
  then have em: "eligible cs ?st m" by (simp add: leads_def)
  have "ref_pick cs ?st = Some m"
    using ref_pick_leads [of cs ?st] em leads_unique [OF m(2)] by (auto split: option.splits)
  note pick = this
  obtain k progress where kp: "?st ! m = (k, progress)" by (cases "?st ! m")
  let ?g = "logical_gain (steps (cs ! m) ! k)"
  have mlt: "m < length cs" using em by (simp add: eligible_def)
  have heap: "distinct (remove1 m (p_heap s))" "set (remove1 m (p_heap s)) = {i. eligible cs ?st i} - {m}"
    using dist set_remove1_eq [OF dist] assms by (simp_all add: in_step_def)
  show ?thesis
  proof (cases "checked_add progress ?g")
    case None
    then show ?thesis using m(1) ch Cons kp pick by (simp add: stream_next_def ref_next_def Let_def)
  next
    case (Some p')
    let ?st' = "?st[m := (k + 1, p')]"
    have "set (if eligible cs ?st' m then remove1 m (p_heap s) @ [m] else remove1 m (p_heap s)) = {i. eligible cs ?st' i}"
      unfolding eligible_set_update [OF len mlt] using heap(2) by simp
    moreover have "distinct (if eligible cs ?st' m then remove1 m (p_heap s) @ [m] else remove1 m (p_heap s))"
      using heap by simp
    moreover define s' where "s' = s\<lparr> p_states := ?st',
        p_heap := (if eligible cs ?st' m then remove1 m (p_heap s) @ [m] else remove1 m (p_heap s)),
        p_selected := (if p_retain_history s then p_selected s @ [\<lparr> child_index = m, child_step_index = k, sel_value = steps (cs ! m) ! k \<rparr>]
          else p_selected s) \<rparr>"
    ultimately have "in_step cs s' \<and> p_states s' = ?st'" using ch len unfolding in_step_def by simp
    moreover have "stream_next s = Some (selected, Some \<lparr> child_index = m, child_step_index = k, sel_value = steps (cs ! m) ! k \<rparr>, s')"
      using m(1) ch kp Some unfolding stream_next_def s'_def by (simp add: Cons Let_def)
    ultimately show ?thesis using kp pick Some by (simp add: ref_next_def Let_def)
  qed
qed

lemma new_stream_in_step:
  "stream_valid cs \<Longrightarrow> in_step cs (new_stream cs retain) \<and> p_states (new_stream cs retain) = initial_cursors cs"
  by (auto simp: in_step_def new_stream_def initial_cursors_def eligible_def Let_def)

lemma ref_next_remaining:
  assumes "ref_next cs st = (r, Some c, st')" and "length st = length cs"
  shows "remaining cs st = Suc (remaining cs st') \<and> length st' = length cs"
proof -
  obtain i k p p' where i: "ref_pick cs st = Some i" "st ! i = (k, p)" "st' = st[i := (k + 1, p')]"
    using assms(1) by (auto simp: ref_next_def Let_def split: option.splits prod.splits)
  have e: "eligible cs st i" using ref_pick_leads [of cs st] i(1) by (simp add: leads_def)
  then have lt: "i < length cs" "k < length (steps (cs ! i))" "terminal_progress (cs ! i) > 0"
    using i(2) by (simp_all add: eligible_def)
  let ?f = "\<lambda>st i. if terminal_progress (cs ! i) > 0 then length (steps (cs ! i)) - fst (st ! i) else 0"
  have "(\<Sum>j \<in> {..<length cs} - {i}. ?f st j) = (\<Sum>j \<in> {..<length cs} - {i}. ?f st' j)"
    using i(3) by (intro sum.cong) auto
  moreover have "?f st i = Suc (?f st' i)" using i lt assms(2) by simp
  ultimately have "remaining cs st = Suc (remaining cs st')"
    unfolding remaining_def using lt(1) by (simp add: sum.remove [of "{..<length cs}" i])
  then show ?thesis using i(3) assms(2) by simp
qed

lemma prefix_loop_ref:
  assumes "in_step cs s" and "remaining cs (p_states s) < n"
  shows "\<exists>r ext s'. prefix_loop accept out s = Some (r, out @ ext, s') \<and>
    ext = take (length ext) (ref_order n cs (p_states s)) \<and> r \<noteq> invalid \<and>
    (r = selected \<longrightarrow> ext \<noteq> [] \<and> accept (out @ ext) \<and> (\<forall>k < length ext. 0 < k \<longrightarrow> \<not> accept (out @ take k ext))) \<and>
    (r \<noteq> selected \<longrightarrow> ext = ref_order n cs (p_states s) \<and> r = ref_end n cs (p_states s) \<and>
       (\<forall>k \<le> length ext. 0 < k \<longrightarrow> \<not> accept (out @ take k ext)))"
  using assms
proof (induction n arbitrary: s out)
  case (Suc n)
  obtain r sel st s' where ref: "ref_next cs (p_states s) = (r, sel, st)" "stream_next s = Some (r, sel, s')" "p_states s' = st"
      "r = selected \<longleftrightarrow> sel \<noteq> None" "r = selected \<longrightarrow> in_step cs s'" "r \<noteq> invalid"
    using stream_next_ref [OF Suc.prems(1)] by blast
  show ?case
  proof (cases sel)
    case None
    then have "prefix_loop accept out s = Some (r, out @ [], s')" using ref(2) by (subst prefix_loop.simps) simp
    then show ?thesis using ref None by (intro exI [of _ r] exI [of _ "[]"] exI [of _ s']) simp
  next
    case (Some c)
    have r: "r = selected" and in': "in_step cs s'" using ref Some by auto
    have ord: "ref_order (Suc n) cs (p_states s) = c # ref_order n cs (p_states s')"
        "ref_end (Suc n) cs (p_states s) = ref_end n cs (p_states s')" using ref Some by simp_all
    show ?thesis
    proof (cases "accept (out @ [c])")
      case True
      then have "prefix_loop accept out s = Some (selected, out @ [c], s')"
        using ref(2) Some by (subst prefix_loop.simps) simp
      then show ?thesis using True ord by (intro exI [of _ selected] exI [of _ "[c]"] exI [of _ s']) simp
    next
      case False
      have "remaining cs (p_states s') < n"
        using ref_next_remaining [of cs "p_states s" r c st] ref Some Suc.prems by (simp add: in_step_def)
      from Suc.IH [OF in' this, of "out @ [c]"] obtain r' ext s2 where
        rec: "prefix_loop accept (out @ [c]) s' = Some (r', (out @ [c]) @ ext, s2)"
          "ext = take (length ext) (ref_order n cs (p_states s'))" "r' \<noteq> invalid"
          "r' = selected \<longrightarrow> ext \<noteq> [] \<and> accept ((out @ [c]) @ ext) \<and> (\<forall>k < length ext. 0 < k \<longrightarrow> \<not> accept ((out @ [c]) @ take k ext))"
          "r' \<noteq> selected \<longrightarrow> ext = ref_order n cs (p_states s') \<and> r' = ref_end n cs (p_states s') \<and>
             (\<forall>k \<le> length ext. 0 < k \<longrightarrow> \<not> accept ((out @ [c]) @ take k ext))"
        by blast
      have "prefix_loop accept out s = Some (r', out @ (c # ext), s2)"
        using rec(1) ref(2) Some False by (subst prefix_loop.simps) simp
      moreover have "\<not> accept (out @ take k (c # ext))" if "0 < k" "k < length (c # ext) \<or> r' \<noteq> selected \<and> k \<le> length (c # ext)" for k
      proof (cases "k - 1")
        case 0
        then have "k = 1" using that(1) by simp
        then show ?thesis using False by simp
      next
        case (Suc j)
        then have "take k (c # ext) = c # take (k - 1) ext" using that(1) by (cases k) simp_all
        then show ?thesis using rec(4,5) that Suc by (cases "r' = selected") auto
      qed
      ultimately show ?thesis
        using rec(2-5) unfolding ord by (intro exI [of _ r'] exI [of _ "c # ext"] exI [of _ s2]) auto
    qed
  qed
qed simp

section \<open>Properties\<close>

text \<open>The comparison of two fractions of 64-bit operands, which never forms a cross product, is
  exact and always ends.\<close>

theorem policy_fraction_exact:
  assumes "0 < b" and "0 < d"
  shows "fraction_less a b c d = Some ((of_nat a / of_nat b :: rat) < of_nat c / of_nat d)"
proof -
  have "(of_nat a / of_nat b :: rat) < of_nat c / of_nat d \<longleftrightarrow> (of_nat (a * d) :: rat) < of_nat (c * b)"
    using assms by (simp add: divide_less_eq less_divide_eq field_simps)
  then show ?thesis by (simp only: fraction_less_exact [OF assms] of_nat_less_iff)
qed

theorem policy_fraction_exact_witness:
  "fraction_less (2 ^ 64 - 2) (2 ^ 64 - 1) (2 ^ 64 - 3) (2 ^ 64 - 2) = Some False"
  using policy_fraction_exact [of "2 ^ 64 - 1" "2 ^ 64 - 2" "2 ^ 64 - 2" "2 ^ 64 - 3"] by simp

text \<open>C30: \<open>shortest_prefix\<close> over the heap stops at the first accepted prefix of the order of the reference
  selector, which rescans all children for the least proportional progress, the lowest index among
  equals, before every step. It always returns; when nothing is accepted it has yielded the whole order
  and reports why the order ends; children with a negative gain are refused before any step.\<close>

theorem policy_shortest_prefix:
  "let order = ref_order (Suc (remaining cs (initial_cursors cs))) cs (initial_cursors cs) in
   if stream_valid cs then
     \<exists>r out s'. shortest_prefix accept (new_stream cs retain) = Some (r, out, s') \<and> out = take (length out) order \<and>
       (r = selected \<longrightarrow> out \<noteq> [] \<and> accept out \<and> (\<forall>k < length out. 0 < k \<longrightarrow> \<not> accept (take k out))) \<and>
       (r \<noteq> selected \<longrightarrow> out = order \<and> r = ref_end (Suc (remaining cs (initial_cursors cs))) cs (initial_cursors cs) \<and>
          (\<forall>k \<le> length out. 0 < k \<longrightarrow> \<not> accept (take k out)))
   else shortest_prefix accept (new_stream cs retain) = Some (invalid, [], new_stream cs retain)"
proof (cases "stream_valid cs")
  case True
  note new = new_stream_in_step [OF True, of retain]
  have "in_step cs (new_stream cs retain)" "remaining cs (p_states (new_stream cs retain)) < Suc (remaining cs (initial_cursors cs))"
    using new by simp_all
  from prefix_loop_ref [OF this, of accept "[]"] new True show ?thesis
    unfolding shortest_prefix_def Let_def by auto
next
  case False
  then have "stream_next (new_stream cs retain) = Some (invalid, None, new_stream cs retain)"
    by (simp add: stream_next_def) (simp add: new_stream_def Let_def)
  then show ?thesis using False by (simp add: shortest_prefix_def prefix_loop.simps)
qed

abbreviation gain :: "int \<Rightarrow> nat \<Rightarrow> policy_step" where
  "gain bytes k \<equiv> \<lparr> order_index = k, slot = k, type_a = 1, type_b = 2, logical_gain = bytes \<rparr>"

definition example_children :: "policy_child list" where
  "example_children =
    [\<lparr> initial_progress = 0, terminal_progress = 100, steps = [gain 25 0, gain 25 1, gain 50 2],
       blocked_order_indices = [], capture_blocked_order_indices = [] \<rparr>,
     \<lparr> initial_progress = 0, terminal_progress = 200, steps = [gain 50 0, gain 50 1, gain 100 2],
       blocked_order_indices = [], capture_blocked_order_indices = [] \<rparr>]"

lemma example_order:
  "stream_valid example_children \<and> map child_index (ref_order (Suc (remaining example_children (initial_cursors example_children)))
     example_children (initial_cursors example_children)) = [0, 1, 0, 1, 0, 1]"
  by code_simp

theorem policy_shortest_prefix_witness:
  "\<exists>r out s'. shortest_prefix (\<lambda>p. False) (new_stream example_children True) = Some (r, out, s') \<and>
     map child_index out = [0, 1, 0, 1, 0, 1]"
proof -
  from policy_shortest_prefix [of example_children "\<lambda>p. False" True] example_order
  obtain r out s' where "shortest_prefix (\<lambda>p. False) (new_stream example_children True) = Some (r, out, s')"
      "r \<noteq> selected" "r \<noteq> selected \<longrightarrow> out = ref_order (Suc (remaining example_children (initial_cursors example_children)))
     example_children (initial_cursors example_children)"
    unfolding Let_def by (auto split: if_splits)
  then show ?thesis using example_order by auto
qed

end
