(* ===== verification/Ladder_Precision.thy ===== *)
theory Ladder_Precision
  imports Prelude
begin

text \<open>
  The precision ladder of \<^verbatim>\<open>src/src/llama-vbr-precision.h\<close> (ranks, the merge of provenances and the
  admission of a host restore) and the per-device accounting of a shed transaction of
  \<^verbatim>\<open>src/src/llama-vbr-transaction.h\<close>. Tensor types are their numbers; unsigned 64-bit sums are guarded,
  so they are naturals with the guards written out.
\<close>

section \<open>Ranks and provenance\<close>

definition GGML_TYPE_F16 :: int where "GGML_TYPE_F16 = 1"
definition GGML_TYPE_Q4_0 :: int where "GGML_TYPE_Q4_0 = 2"
definition GGML_TYPE_Q8_0 :: int where "GGML_TYPE_Q8_0 = 8"
definition GGML_TYPE_TURBO4_0 :: int where "GGML_TYPE_TURBO4_0 = 44"
definition GGML_TYPE_TURBO3_TCQ :: int where "GGML_TYPE_TURBO3_TCQ = 46"
definition GGML_TYPE_TURBO2_TCQ :: int where "GGML_TYPE_TURBO2_TCQ = 47"
definition GGML_TYPE_TURBO8_0 :: int where "GGML_TYPE_TURBO8_0 = 48"
definition GGML_TYPE_TURBO1_TCQ :: int where "GGML_TYPE_TURBO1_TCQ = 52"
definition GGML_TYPE_COUNT :: int where "GGML_TYPE_COUNT = 92"

definition VBR_TURBO_PRECISION_LADDER :: "int list" where
  "VBR_TURBO_PRECISION_LADDER = [GGML_TYPE_F16, GGML_TYPE_TURBO8_0, GGML_TYPE_TURBO4_0,
     GGML_TYPE_TURBO3_TCQ, GGML_TYPE_TURBO2_TCQ, GGML_TYPE_TURBO1_TCQ]"

fun ladder_find :: "int \<Rightarrow> int \<Rightarrow> int list \<Rightarrow> int" where
  "ladder_find t i [] = -1"
| "ladder_find t i (x # xs) = (if t = x then i else ladder_find t (i + 1) xs)"

definition vbr_precision_rank :: "int \<Rightarrow> bool \<Rightarrow> int" where
  "vbr_precision_rank t classic =
    (if t = GGML_TYPE_F16 then 0
     else if classic then (if t = GGML_TYPE_Q8_0 then 1 else if t = GGML_TYPE_Q4_0 then 2 else -1)
     else ladder_find t 0 VBR_TURBO_PRECISION_LADDER)"

definition classic_pair :: "int \<Rightarrow> int \<Rightarrow> bool" where
  "classic_pair a b \<longleftrightarrow> a = GGML_TYPE_Q8_0 \<or> a = GGML_TYPE_Q4_0 \<or> b = GGML_TYPE_Q8_0 \<or> b = GGML_TYPE_Q4_0"

definition vbr_precision_merge :: "int \<Rightarrow> int \<Rightarrow> int" where
  "vbr_precision_merge prior encoded =
    (if prior = encoded then prior
     else let classic = classic_pair prior encoded;
              a = vbr_precision_rank prior classic; b = vbr_precision_rank encoded classic
          in if a < 0 \<or> b < 0 then -1 else if a \<ge> b then prior else encoded)"

section \<open>Admission\<close>

record precision_admission =
  a_weight :: nat
  a_deficit :: nat
  a_worst_steps :: nat
  a_known :: bool

definition new_admission :: precision_admission where
  "new_admission = \<lparr> a_weight = 0, a_deficit = 0, a_worst_steps = 0, a_known = True \<rparr>"

definition U64_TOP :: nat where "U64_TOP = 2 ^ 64 - 1"

definition item_known :: "int \<Rightarrow> int \<Rightarrow> nat \<Rightarrow> bool" where
  "item_known effective desired columns =
    (let classic = classic_pair effective desired;
         a = vbr_precision_rank effective classic; b = vbr_precision_rank desired classic
     in \<not> (columns = 0 \<or> effective < 0 \<or> desired < 0 \<or> effective \<ge> GGML_TYPE_COUNT \<or> desired \<ge> GGML_TYPE_COUNT \<or>
          (effective \<noteq> desired \<and> (a < 0 \<or> b < 0))))"

definition item_steps :: "int \<Rightarrow> int \<Rightarrow> nat" where
  "item_steps effective desired =
    (let classic = classic_pair effective desired;
         a = vbr_precision_rank effective classic; b = vbr_precision_rank desired classic
     in if a > b then nat (a - b) else 0)"

definition admission_add :: "int \<times> int \<times> nat \<Rightarrow> precision_admission \<Rightarrow> precision_admission" where
  "admission_add item p = (case item of (effective, desired, columns) \<Rightarrow>
    (if \<not> item_known effective desired columns then p\<lparr> a_known := False \<rparr>
     else let steps = item_steps effective desired;
              p' = p\<lparr> a_worst_steps := (if steps > a_worst_steps p then steps else a_worst_steps p) \<rparr>
          in if columns > U64_TOP - a_weight p \<or> (steps \<noteq> 0 \<and> columns > (U64_TOP - a_deficit p) div steps)
             then p'\<lparr> a_known := False \<rparr>
             else p'\<lparr> a_weight := a_weight p + columns, a_deficit := a_deficit p + columns * steps \<rparr>))"

definition admission_allowed :: "precision_admission \<Rightarrow> bool" where
  "admission_allowed p \<longleftrightarrow> a_known p \<and> a_weight p \<noteq> 0 \<and> a_worst_steps p \<le> 1 \<and> a_deficit p \<le> a_weight p div 4"

section \<open>Transaction costs\<close>

definition INT64_TOP :: nat where "INT64_TOP = 2 ^ 63 - 1"

record device_cost =
  c_release :: nat
  c_kv_growth :: nat
  c_scratch_growth :: nat
  c_workspace_growth :: nat
  c_stash_growth :: nat
  c_capacity_signed :: int

definition add_u64 :: "nat \<Rightarrow> nat \<Rightarrow> nat option" where
  "add_u64 dst v = (if v > U64_TOP - dst then None else Some (dst + v))"

definition finalize :: "device_cost \<Rightarrow> device_cost option" where
  "finalize c = do {
     g \<leftarrow> add_u64 0 (c_kv_growth c);
     g \<leftarrow> add_u64 g (c_scratch_growth c);
     g \<leftarrow> add_u64 g (c_workspace_growth c);
     g \<leftarrow> add_u64 g (c_stash_growth c);
     if c_release c > INT64_TOP \<or> g > INT64_TOP then None
     else Some (c\<lparr> c_capacity_signed := int (c_release c) - int g \<rparr>) }"

text \<open>The costs are a map from devices, listed in ascending order.\<close>

definition prefix_feasible :: "(int \<times> device_cost) list \<Rightarrow> int \<Rightarrow> nat \<Rightarrow> bool" where
  "prefix_feasible costs demanded target =
    (case map_of costs demanded of None \<Rightarrow> False
     | Some c \<Rightarrow> \<not> (target > INT64_TOP \<or> c_capacity_signed c < int target) \<and>
         list_all (\<lambda>(device, cost). \<not> (device \<noteq> demanded \<and> c_capacity_signed cost < 0)) costs)"

record workspace_request =
  w_n_cells :: int
  w_ne0 :: int
  w_stash_rows :: int
  w_mean_addback :: bool

record endpoint_scan =
  s_now :: nat
  s_reserved :: nat
  s_have :: bool
  s_endpoint :: "workspace_request option"

text \<open>The projection is the caller's: the bytes mapped now and if the request were reserved.\<close>

definition scan_request :: "(workspace_request \<Rightarrow> (nat \<times> nat) option) \<Rightarrow> workspace_request \<Rightarrow> endpoint_scan \<Rightarrow> endpoint_scan option" where
  "scan_request project r s =
    (case project r of None \<Rightarrow> None
     | Some (now, projected) \<Rightarrow>
        if projected < now then None
        else if s_have s \<and> s_now s \<noteq> now then None
        else Some (s\<lparr> s_now := (if s_have s then s_now s else now), s_have := True,
               s_endpoint := (if s_endpoint s = None \<or> s_reserved s < projected then Some r else s_endpoint s),
               s_reserved := max (s_reserved s) projected \<rparr>))"

definition workspace_endpoint :: "(workspace_request \<Rightarrow> (nat \<times> nat) option) \<Rightarrow> workspace_request list \<Rightarrow> endpoint_scan option" where
  "workspace_endpoint project rs = foldM (scan_request project) rs \<lparr> s_now = 0, s_reserved = 0, s_have = False, s_endpoint = None \<rparr>"

definition grant_threshold :: "nat \<Rightarrow> nat \<Rightarrow> nat option" where
  "grant_threshold bytes_now prior_credit = add_u64 bytes_now prior_credit"

definition grant_row_remaining :: "nat \<Rightarrow> nat \<Rightarrow> nat \<Rightarrow> nat" where
  "grant_row_remaining bytes threshold bytes_now =
    (let landed = (if bytes_now > threshold then bytes_now - threshold else 0)
     in if landed < bytes then bytes - landed else 0)"

section \<open>The merge is a join\<close>

definition known_types :: "int list" where
  "known_types = -1 # GGML_TYPE_Q8_0 # GGML_TYPE_Q4_0 # VBR_TURBO_PRECISION_LADDER"

lemma ladder_find_absent: "t \<notin> set xs \<Longrightarrow> ladder_find t i xs = -1"
  by (induction xs arbitrary: i) auto

lemma merge_same [simp]: "vbr_precision_merge a a = a"
  by (simp add: vbr_precision_merge_def)

lemma rank_absent: "t \<notin> set known_types \<Longrightarrow> vbr_precision_rank t c = -1"
  by (auto simp: vbr_precision_rank_def known_types_def VBR_TURBO_PRECISION_LADDER_def ladder_find_absent)

lemma merge_absent:
  assumes "a \<notin> set known_types" and "a \<noteq> b"
  shows "vbr_precision_merge a b = -1" "vbr_precision_merge b a = -1"
  using assms by (simp_all add: vbr_precision_merge_def Let_def rank_absent)

lemma merge_known:
  "list_all (\<lambda>a. list_all (\<lambda>b. vbr_precision_merge a b = vbr_precision_merge b a \<and> vbr_precision_merge a b \<in> set known_types \<and>
     vbr_precision_merge (-1) a = -1 \<and>
     list_all (\<lambda>c. vbr_precision_merge (vbr_precision_merge a b) c = vbr_precision_merge a (vbr_precision_merge b c)) known_types)
     known_types) known_types"
  by code_simp

lemma merge_knownD:
  assumes "a \<in> set known_types" "b \<in> set known_types"
  shows "vbr_precision_merge a b = vbr_precision_merge b a" "vbr_precision_merge a b \<in> set known_types"
    "c \<in> set known_types \<Longrightarrow> vbr_precision_merge (vbr_precision_merge a b) c = vbr_precision_merge a (vbr_precision_merge b c)"
  using merge_known assms unfolding list_all_iff by blast+

lemma merge_unknown: "vbr_precision_merge (-1) a = -1 \<and> vbr_precision_merge a (-1) = -1"
proof (cases "a \<in> set known_types")
  case True
  moreover have "-1 \<in> set known_types" by (simp add: known_types_def)
  ultimately show ?thesis using merge_known merge_knownD(1) [of a "-1"] unfolding list_all_iff by metis
next
  case False
  then show ?thesis using merge_absent [of a "-1"] by (cases "a = -1") auto
qed

lemma merge_into_known: "b \<noteq> c \<Longrightarrow> vbr_precision_merge b c \<in> set known_types"
proof (cases "b \<in> set known_types \<and> c \<in> set known_types")
  case False
  moreover assume "b \<noteq> c"
  ultimately have "vbr_precision_merge b c = -1" using merge_absent [of b c] merge_absent [of c b] by auto
  then show ?thesis by (simp add: known_types_def)
qed (use merge_knownD(2) in blast)

lemma merge_commute: "vbr_precision_merge a b = vbr_precision_merge b a"
proof (cases "a \<in> set known_types \<and> b \<in> set known_types")
  case False
  then show ?thesis using merge_absent [of a b] merge_absent [of b a] by (cases "a = b") auto
qed (use merge_knownD(1) in blast)

lemma merge_assoc: "vbr_precision_merge (vbr_precision_merge a b) c = vbr_precision_merge a (vbr_precision_merge b c)"
proof -
  consider "a \<in> set known_types" "b \<in> set known_types" "c \<in> set known_types" | "a = b" | "b = c"
    | "a \<noteq> b" "b \<noteq> c" "a \<notin> set known_types" | "a \<noteq> b" "b \<noteq> c" "b \<notin> set known_types" | "a \<noteq> b" "b \<noteq> c" "c \<notin> set known_types"
    by blast
  then show ?thesis
  proof cases
    case 2
    show ?thesis
    proof (cases "a \<in> set known_types \<and> c \<in> set known_types")
      case False
      then show ?thesis using 2 merge_absent [of a c] merge_absent [of c a] merge_unknown
        by (cases "a = c") auto
    qed (use 2 merge_knownD(3) in blast)
  next
    case 3
    show ?thesis
    proof (cases "a \<in> set known_types \<and> c \<in> set known_types")
      case False
      then show ?thesis using 3 merge_absent [of a c] merge_absent [of c a] merge_unknown
        by (cases "a = c") auto
    qed (use 3 merge_knownD(3) in blast)
  next
    case 4
    then show ?thesis using merge_absent [of a b] merge_absent [of a "vbr_precision_merge b c"] merge_unknown [of c] merge_into_known [of b c] by (cases "a = vbr_precision_merge b c") auto
  next
    case 5
    then show ?thesis using merge_absent [of b a] merge_absent [of b c] merge_unknown by simp
  next
    case 6
    then show ?thesis using merge_absent [of c b] merge_absent [of c "vbr_precision_merge a b"] merge_unknown [of a] merge_into_known [of a b] by (cases "c = vbr_precision_merge a b") auto
  qed (use merge_knownD(3) in blast)
qed

section \<open>Properties\<close>

lemma classic_pair_commute: "classic_pair a b = classic_pair b a"
  by (auto simp: classic_pair_def)

text \<open>Merging precision provenances is a join: the order in which the encodings of a history are
  merged is irrelevant, a later promotion never erases an earlier loss, unknown absorbs everything, and
  of two comparable types the one further down the ladder is kept.\<close>

theorem precision_merge_join:
  "vbr_precision_merge a b = vbr_precision_merge b a \<and>
   vbr_precision_merge (vbr_precision_merge a b) c = vbr_precision_merge a (vbr_precision_merge b c) \<and>
   vbr_precision_merge a a = a \<and>
   vbr_precision_merge (vbr_precision_merge a b) a = vbr_precision_merge a b \<and>
   vbr_precision_merge (-1) a = -1 \<and>
   (vbr_precision_rank a (classic_pair a b) \<ge> 0 \<longrightarrow> vbr_precision_rank b (classic_pair a b) \<ge> 0 \<longrightarrow>
      vbr_precision_rank (vbr_precision_merge a b) (classic_pair a b) =
        max (vbr_precision_rank a (classic_pair a b)) (vbr_precision_rank b (classic_pair a b)))"
proof -
  have "vbr_precision_merge (vbr_precision_merge a b) a = vbr_precision_merge a b"
    by (metis merge_assoc merge_commute merge_same)
  moreover have "vbr_precision_rank a (classic_pair a b) \<ge> 0 \<longrightarrow> vbr_precision_rank b (classic_pair a b) \<ge> 0 \<longrightarrow>
      vbr_precision_rank (vbr_precision_merge a b) (classic_pair a b) =
        max (vbr_precision_rank a (classic_pair a b)) (vbr_precision_rank b (classic_pair a b))"
    by (cases "a = b") (simp_all add: vbr_precision_merge_def Let_def max_def)
  ultimately show ?thesis
    using merge_commute [of a b] merge_assoc [of a b c] merge_unknown [of a] merge_same by blast
qed

theorem precision_merge_join_witness:
  "vbr_precision_rank (vbr_precision_merge GGML_TYPE_TURBO3_TCQ GGML_TYPE_TURBO8_0) False = 3"
proof -
  have r: "vbr_precision_rank GGML_TYPE_TURBO3_TCQ False = 3" "vbr_precision_rank GGML_TYPE_TURBO8_0 False = 1"
      "classic_pair GGML_TYPE_TURBO3_TCQ GGML_TYPE_TURBO8_0 = False"
    by code_simp+
  from precision_merge_join [of GGML_TYPE_TURBO3_TCQ GGML_TYPE_TURBO8_0 0, THEN conjunct2, THEN conjunct2, THEN conjunct2,
      THEN conjunct2, THEN conjunct2]
  show ?thesis unfolding r by simp
qed

abbreviation columns_of :: "int \<times> int \<times> nat \<Rightarrow> nat" where "columns_of item \<equiv> snd (snd item)"
abbreviation steps_of :: "int \<times> int \<times> nat \<Rightarrow> nat" where "steps_of item \<equiv> item_steps (fst item) (fst (snd item))"
abbreviation known_item :: "int \<times> int \<times> nat \<Rightarrow> bool" where "known_item item \<equiv> item_known (fst item) (fst (snd item)) (snd (snd item))"
abbreviation admitted :: "(int \<times> int \<times> nat) list \<Rightarrow> precision_admission" where "admitted items \<equiv> fold admission_add items new_admission"

lemma admission_add_eq:
  "admission_add item p =
    (if \<not> known_item item then p\<lparr> a_known := False \<rparr>
     else if columns_of item > U64_TOP - a_weight p \<or>
        (steps_of item \<noteq> 0 \<and> columns_of item > (U64_TOP - a_deficit p) div steps_of item)
     then p\<lparr> a_worst_steps := max (steps_of item) (a_worst_steps p), a_known := False \<rparr>
     else p\<lparr> a_worst_steps := max (steps_of item) (a_worst_steps p),
         a_weight := a_weight p + columns_of item, a_deficit := a_deficit p + columns_of item * steps_of item \<rparr>)"
proof -
  have "(if x > y then x else y) = max x y" for x y :: nat by simp
  then show ?thesis by (cases item) (simp only: admission_add_def prod.case Let_def fst_conv snd_conv)
qed

lemma admission_add_cases:
  obtains (bad) "\<not> known_item item" "admission_add item p = p\<lparr> a_known := False \<rparr>"
  | (over) "known_item item" "columns_of item > U64_TOP - a_weight p \<or>
        (steps_of item \<noteq> 0 \<and> columns_of item > (U64_TOP - a_deficit p) div steps_of item)"
      "admission_add item p = p\<lparr> a_worst_steps := max (steps_of item) (a_worst_steps p), a_known := False \<rparr>"
  | (good) "known_item item" "columns_of item \<le> U64_TOP - a_weight p"
      "steps_of item \<noteq> 0 \<longrightarrow> columns_of item \<le> (U64_TOP - a_deficit p) div steps_of item"
      "admission_add item p = p\<lparr> a_worst_steps := max (steps_of item) (a_worst_steps p),
         a_weight := a_weight p + columns_of item, a_deficit := a_deficit p + columns_of item * steps_of item \<rparr>"
proof (cases "known_item item")
  case False
  then show thesis using bad by (simp add: admission_add_eq)
next
  case True
  show thesis
  proof (cases "columns_of item > U64_TOP - a_weight p \<or>
        (steps_of item \<noteq> 0 \<and> columns_of item > (U64_TOP - a_deficit p) div steps_of item)")
    case overflow: True
    then show thesis using over True by (simp only: admission_add_eq if_True if_False simp_thms)
  next
    case False
    then show thesis using good True by (simp only: admission_add_eq if_True if_False simp_thms not_less de_Morgan_disj de_Morgan_conj) auto
  qed
qed

lemma admitted_exact:
  assumes "a_known (admitted items)"
  shows "(\<forall>item \<in> set items. known_item item \<and> steps_of item \<le> a_worst_steps (admitted items)) \<and>
    a_weight (admitted items) = (\<Sum>item \<leftarrow> items. columns_of item) \<and> a_weight (admitted items) \<le> U64_TOP \<and>
    a_deficit (admitted items) = (\<Sum>item \<leftarrow> items. columns_of item * steps_of item)"
  using assms
proof (induction items rule: rev_induct)
  case (snoc item items)
  show ?case
  proof (cases rule: admission_add_cases [of item "admitted items", case_names bad over good])
    case good
    then show ?thesis using snoc by (auto simp: le_max_iff_disj)
  qed (use snoc.prems in simp_all)
qed (simp add: new_admission_def)

lemma admitted_worst: "\<forall>item \<in> set items. steps_of item \<le> m \<Longrightarrow> a_worst_steps (admitted items) \<le> m"
proof (induction items rule: rev_induct)
  case (snoc item items)
  then show ?case
    by (cases rule: admission_add_cases [of item "admitted items", case_names bad over good]) simp_all
qed (simp add: new_admission_def)

lemma admitted_known:
  assumes "\<forall>item \<in> set items. known_item item \<and> steps_of item \<le> 1" and "(\<Sum>item \<leftarrow> items. columns_of item) \<le> U64_TOP"
  shows "a_known (admitted items)"
  using assms
proof (induction items rule: rev_induct)
  case (snoc item items)
  have known: "a_known (admitted items)" using snoc by simp
  note exact = admitted_exact [OF known]
  have "(\<Sum>i \<leftarrow> items. columns_of i * steps_of i) \<le> (\<Sum>i \<leftarrow> items. columns_of i)"
    using snoc.prems(1) by (intro sum_list_mono) auto
  moreover have "steps_of item = 0 \<or> steps_of item = 1" using snoc.prems(1) by auto
  ultimately have "columns_of item \<le> U64_TOP - a_weight (admitted items)"
      "steps_of item \<noteq> 0 \<longrightarrow> columns_of item \<le> (U64_TOP - a_deficit (admitted items)) div steps_of item"
    using exact snoc.prems(2) by auto
  then show ?case using known snoc.prems(1)
    by (cases rule: admission_add_cases [of item "admitted items", case_names bad over good]) auto
qed (simp add: new_admission_def)

text \<open>C32: a host restore is admitted exactly when every unit's types are known and comparable, no unit is
  more than one rung below what is wanted, the columns sum to a non-zero 64-bit number, and the columns
  one rung below are at most a quarter of all; no sum can wrap into an admission.\<close>

theorem precision_admission_exact:
  "admission_allowed (fold admission_add items new_admission) \<longleftrightarrow>
    items \<noteq> [] \<and> (\<forall>(e, d, c) \<in> set items. item_known e d c \<and> item_steps e d \<le> 1) \<and>
    (\<Sum>(e, d, c) \<leftarrow> items. c) \<le> U64_TOP \<and>
    4 * (\<Sum>(e, d, c) \<leftarrow> filter (\<lambda>(e, d, c). item_steps e d = 1) items. c) \<le> (\<Sum>(e, d, c) \<leftarrow> items. c)"
proof -
  have cols: "(\<Sum>(e, d, c) \<leftarrow> xs. c) = (\<Sum>item \<leftarrow> xs. columns_of item)" for xs :: "(int \<times> int \<times> nat) list"
    by (induction xs) auto
  have def: "(\<Sum>item \<leftarrow> items. columns_of item * steps_of item) = (\<Sum>(e, d, c) \<leftarrow> filter (\<lambda>(e, d, c). item_steps e d = 1) items. c)"
    if "\<forall>item \<in> set items. steps_of item \<le> 1" for items :: "(int \<times> int \<times> nat) list"
    using that
  proof (induction items)
    case (Cons item items)
    then have "steps_of item = 0 \<or> steps_of item = 1" by auto
    then show ?case using Cons by (auto simp: case_prod_beta)
  qed simp
  define W where "W = (\<Sum>(e, d, c) \<leftarrow> items. c)"
  define D where "D = (\<Sum>(e, d, c) \<leftarrow> filter (\<lambda>(e, d, c). item_steps e d = 1) items. c)"
  have all: "(\<forall>(e, d, c) \<in> set items. item_known e d c \<and> item_steps e d \<le> 1) \<longleftrightarrow>
      (\<forall>item \<in> set items. known_item item \<and> steps_of item \<le> 1)" by (auto simp: case_prod_beta)
  have pos: "items \<noteq> [] \<Longrightarrow> \<forall>item \<in> set items. known_item item \<Longrightarrow> W \<noteq> 0"
    unfolding W_def cols by (cases items) (auto simp: item_known_def Let_def)
  have exact: "(\<forall>item \<in> set items. known_item item \<and> steps_of item \<le> a_worst_steps (admitted items)) \<and>
      a_weight (admitted items) = W \<and> W \<le> U64_TOP" if "a_known (admitted items)"
    using admitted_exact [OF that] unfolding W_def cols by simp
  have deficit: "a_deficit (admitted items) = D" if "a_known (admitted items)" "\<forall>item \<in> set items. steps_of item \<le> 1"
    using admitted_exact [OF that(1)] def [OF that(2)] unfolding D_def by simp
  have known: "a_known (admitted items)" if "\<forall>item \<in> set items. known_item item \<and> steps_of item \<le> 1" "W \<le> U64_TOP"
    using that unfolding W_def cols by (rule admitted_known)
  have steps: "\<forall>item \<in> set items. steps_of item \<le> 1" if "a_known (admitted items)" "a_worst_steps (admitted items) \<le> 1"
    using exact [OF that(1)] that(2) by force
  have ne: "W \<noteq> 0 \<Longrightarrow> items \<noteq> []" by (auto simp: W_def)
  have worst: "a_worst_steps (admitted items) \<le> 1" if "\<forall>item \<in> set items. known_item item \<and> steps_of item \<le> 1"
    using that by (intro admitted_worst) blast
  show ?thesis
    unfolding all W_def [symmetric] D_def [symmetric]
  proof
    assume "admission_allowed (admitted items)"
    then have ok: "a_known (admitted items)" "a_weight (admitted items) \<noteq> 0" "a_worst_steps (admitted items) \<le> 1"
        "4 * a_deficit (admitted items) \<le> a_weight (admitted items)" by (auto simp: admission_allowed_def)
    with exact [OF ok(1)] steps [OF ok(1,3)] deficit [OF ok(1)] ne
    show "items \<noteq> [] \<and> (\<forall>item \<in> set items. known_item item \<and> steps_of item \<le> 1) \<and> W \<le> U64_TOP \<and> 4 * D \<le> W" by simp
  next
    assume r: "items \<noteq> [] \<and> (\<forall>item \<in> set items. known_item item \<and> steps_of item \<le> 1) \<and> W \<le> U64_TOP \<and> 4 * D \<le> W"
    then have k: "a_known (admitted items)" by (intro known) blast+
    from r have "D \<le> W div 4" "W \<noteq> 0" using pos by auto
    with k exact [OF k] deficit [OF k] worst r show "admission_allowed (admitted items)" by (simp add: admission_allowed_def)
  qed
qed

theorem precision_admission_exact_witness:
  "admission_allowed (fold admission_add [(GGML_TYPE_TURBO8_0, GGML_TYPE_F16, 1024), (GGML_TYPE_F16, GGML_TYPE_F16, 3072)] new_admission)"
proof -
  have "4 * (\<Sum>(e, d, c) \<leftarrow> filter (\<lambda>(e, d, c). item_steps e d = 1)
      [(GGML_TYPE_TURBO8_0, GGML_TYPE_F16, 1024 :: nat), (GGML_TYPE_F16, GGML_TYPE_F16, 3072)]. c) = 4096"
      "list_all (\<lambda>(e, d, c). item_known e d c \<and> item_steps e d \<le> 1)
      [(GGML_TYPE_TURBO8_0, GGML_TYPE_F16, 1024), (GGML_TYPE_F16, GGML_TYPE_F16, 3072)]"
    by code_simp+
  then show ?thesis unfolding precision_admission_exact by (simp add: U64_TOP_def)
qed

section \<open>The transaction\<close>

abbreviation growth :: "device_cost \<Rightarrow> nat" where
  "growth c \<equiv> c_kv_growth c + c_scratch_growth c + c_workspace_growth c + c_stash_growth c"

lemma finalize_eq:
  "finalize c = (if c_release c \<le> INT64_TOP \<and> growth c \<le> INT64_TOP
     then Some (c\<lparr> c_capacity_signed := int (c_release c) - int (growth c) \<rparr>) else None)"
proof -
  have "INT64_TOP \<le> U64_TOP" by (simp add: INT64_TOP_def U64_TOP_def)
  then show ?thesis by (auto simp: finalize_def add_u64_def)
qed

lemma scan_prefix:
  assumes "foldM (scan_request project) rs \<lparr> s_now = 0, s_reserved = 0, s_have = False, s_endpoint = None \<rparr> = Some s"
  shows "(\<forall>r \<in> set rs. \<exists>now projected. project r = Some (now, projected) \<and> now = s_now s \<and> now \<le> projected \<and> projected \<le> s_reserved s) \<and>
    (rs = [] \<longrightarrow> \<not> s_have s \<and> s_endpoint s = None \<and> s_reserved s = 0) \<and>
    (rs \<noteq> [] \<longrightarrow> s_have s \<and> (\<exists>e \<in> set rs. s_endpoint s = Some e \<and> project e = Some (s_now s, s_reserved s)))"
  using assms
proof (induction rs arbitrary: s rule: rev_induct)
  case (snoc r rs)
  from snoc.prems obtain t where t: "foldM (scan_request project) rs \<lparr> s_now = 0, s_reserved = 0, s_have = False, s_endpoint = None \<rparr> = Some t"
      "scan_request project r t = Some s" by (auto simp: foldM_append bind_Some_iff)
  note IH = snoc.IH [OF t(1)]
  from t(2) obtain now projected where p: "project r = Some (now, projected)" "now \<le> projected" "s_have t \<longrightarrow> s_now t = now"
      "s = t\<lparr> s_now := (if s_have t then s_now t else now), s_have := True,
               s_endpoint := (if s_endpoint t = None \<or> s_reserved t < projected then Some r else s_endpoint t),
               s_reserved := max (s_reserved t) projected \<rparr>"
    by (auto simp: scan_request_def split: option.splits if_splits)
  show ?case
  proof (cases "rs = []")
    case True
    then show ?thesis using p IH by auto
  next
    case False
    then have have_t: "s_have t" "s_now t = now" using IH p(3) by auto
    show ?thesis using IH p have_t False by (auto simp: le_max_iff_disj max_def)
  qed
qed simp

text \<open>C33: a shed prefix is feasible exactly when the net release of the demanded device, its releases less all
  its growth, covers the target and no other device is left worse off; and the workspace of the
  transaction is priced by a tuple that really executes: the endpoint is one of the requests, no
  request needs more, and all were priced against the same mapping.\<close>

theorem transaction_priced_exactly:
  assumes "list_all2 (\<lambda>raw (d, c). fst raw = d \<and> finalize (snd raw) = Some c) raws costs"
    and "workspace_endpoint project requests = Some s" and "requests \<noteq> []"
  shows "(prefix_feasible costs demanded target \<longleftrightarrow>
      target \<le> INT64_TOP \<and>
      (\<exists>c. map_of raws demanded = Some c \<and> int target \<le> int (c_release c) - int (growth c)) \<and>
      (\<forall>(d, c) \<in> set raws. d \<noteq> demanded \<longrightarrow> growth c \<le> c_release c)) \<and>
    (\<exists>e \<in> set requests. s_endpoint s = Some e \<and> project e = Some (s_now s, s_reserved s)) \<and>
    (\<forall>r \<in> set requests. \<exists>projected. project r = Some (s_now s, projected) \<and> projected \<le> s_reserved s)"
proof (intro conjI)
  have lookup: "map_of costs d = map_option (\<lambda>c. c\<lparr> c_capacity_signed := int (c_release c) - int (growth c) \<rparr>) (map_of raws d)" for d
    using assms(1) by (induction rule: list_all2_induct) (auto simp: finalize_eq split: if_splits)
  have others: "list_all (\<lambda>(d, c). \<not> (d \<noteq> demanded \<and> c_capacity_signed c < 0)) costs \<longleftrightarrow>
      (\<forall>(d, c) \<in> set raws. d \<noteq> demanded \<longrightarrow> growth c \<le> c_release c)"
    using assms(1) by (induction rule: list_all2_induct) (auto simp: finalize_eq split: if_splits)
  show "prefix_feasible costs demanded target \<longleftrightarrow>
      target \<le> INT64_TOP \<and>
      (\<exists>c. map_of raws demanded = Some c \<and> int target \<le> int (c_release c) - int (growth c)) \<and>
      (\<forall>(d, c) \<in> set raws. d \<noteq> demanded \<longrightarrow> growth c \<le> c_release c)"
    unfolding prefix_feasible_def lookup others by (auto split: option.splits)
  show "\<exists>e \<in> set requests. s_endpoint s = Some e \<and> project e = Some (s_now s, s_reserved s)"
    using scan_prefix [of project requests s] assms(2,3) by (auto simp: workspace_endpoint_def)
  show "\<forall>r \<in> set requests. \<exists>projected. project r = Some (s_now s, projected) \<and> projected \<le> s_reserved s"
    using scan_prefix [of project requests s] assms(2,3) by (force simp: workspace_endpoint_def)
qed

definition example_cost :: "nat \<Rightarrow> nat \<Rightarrow> device_cost" where
  "example_cost r g = \<lparr> c_release = r, c_kv_growth = g, c_scratch_growth = 0, c_workspace_growth = 0, c_stash_growth = 0,
     c_capacity_signed = 0 \<rparr>"

definition example_request :: "int \<Rightarrow> workspace_request" where
  "example_request n = \<lparr> w_n_cells = n, w_ne0 = 128, w_stash_rows = 0, w_mean_addback = False \<rparr>"

theorem transaction_priced_exactly_witness:
  "prefix_feasible [(0, (example_cost 5 2)\<lparr> c_capacity_signed := 3 \<rparr>), (1, (example_cost 1 1)\<lparr> c_capacity_signed := 0 \<rparr>)] 0 3"
proof -
  have costs: "list_all2 (\<lambda>raw (d, c). fst raw = d \<and> finalize (snd raw) = Some c) [(0, example_cost 5 2), (1, example_cost 1 1)]
      [(0 :: int, (example_cost 5 2)\<lparr> c_capacity_signed := 3 \<rparr>), (1, (example_cost 1 1)\<lparr> c_capacity_signed := 0 \<rparr>)]"
    by (simp add: finalize_eq example_cost_def INT64_TOP_def)
  have ws: "workspace_endpoint (\<lambda>r. Some (0, nat (w_n_cells r))) [example_request 1, example_request 2] \<noteq> None" by code_simp
  then obtain s where "workspace_endpoint (\<lambda>r. Some (0, nat (w_n_cells r))) [example_request 1, example_request 2] = Some s" by blast
  from transaction_priced_exactly [OF costs this, of 0 3] show ?thesis by (simp add: example_cost_def INT64_TOP_def)
qed

end
