(* ===== verification/Cache_Budget.thy ===== *)
theory Cache_Budget
  imports Prelude
begin

text \<open>
  The budget coordinator of \<^verbatim>\<open>src/src/llama-cache-budget.cpp\<close>: whether a plan of reservations and
  releases fits the devices and the host, given a snapshot of the cache accounting ledger
  (\<^verbatim>\<open>src/src/llama-cache-accounting.h\<close>). Every 64-bit sum is checked, so byte counts are naturals with
  the checks written out. A pointer into a vector of rows is an index, a backend device its address
  with 0 for null.
\<close>

section \<open>The accounting vocabulary\<close>

datatype acct_category =
    Cat_live_attention_state | Cat_live_recurrent_state | Cat_recurrent_rollback_planes
  | Cat_full_snapshot_payload | Cat_checkpoint_state_payload | Cat_typed_accelerator_payload
  | Cat_checkpoint_generation_page_metadata | Cat_checkpoint_generation_unit_metadata
  | Cat_live_generation_metadata | Cat_ownership_index_metadata | Cat_unit_version_payload
  | Cat_clean_stash_payload | Cat_artifact_descriptor_metadata | Cat_artifact_reference_metadata
  | Cat_transfer_staging | Cat_codec_workspace | Cat_pinned_preimage_ring | Cat_rolling_window_tape
  | Cat_container_overhead | Cat_count

datatype acct_residency = Res_device | Res_pinned_host | Res_pageable_host | Res_disk | Res_remote
  | Res_not_applicable | Res_count

datatype acct_domain_kind = Dom_not_applicable | Dom_device_topology | Dom_count

datatype acct_known = Known | Unknown | Unavailable | Known_count

record acct_domain =
  d_residency :: acct_residency
  d_kind :: acct_domain_kind
  d_device_ordinal :: u16
  d_topology :: u32

text \<open>The default ordinal \<open>UINT16_MAX\<close> and topology 0 are the unset ones.\<close>

definition no_domain :: acct_domain where
  "no_domain = \<lparr> d_residency = Res_not_applicable, d_kind = Dom_not_applicable, d_device_ordinal = 0xFFFF, d_topology = 0 \<rparr>"

definition llama_cache_acct_resource_domain_valid :: "acct_domain \<Rightarrow> bool" where
  "llama_cache_acct_resource_domain_valid d =
    (if d_residency d = Res_count \<or> d_kind d = Dom_count then False
     else if d_kind d = Dom_not_applicable
     then d_residency d \<noteq> Res_device \<and> \<not> d_device_ordinal d \<noteq> 0xFFFF \<and> \<not> d_topology d \<noteq> 0
     else d_residency d = Res_device \<and> d_device_ordinal d \<noteq> 0xFFFF \<and> d_topology d \<noteq> 0)"

type_synonym acct_value = "nat \<times> acct_known"

abbreviation measured :: "nat \<Rightarrow> acct_value" where "measured v \<equiv> (v, Known)"

definition unavailable_value :: acct_value where "unavailable_value = (0, Unavailable)"

text \<open>Of the four measures of a cell the budget reads two.\<close>

record acct_cell_row =
  cr_category :: acct_category
  cr_domain :: acct_domain
  cr_certification :: acct_known
  cr_resident_allocated :: acct_value
  cr_reserved :: acct_value

record acct_snapshot =
  sn_schema_version :: nat
  sn_serial :: nat
  sn_completeness_manifest :: acct_known
  sn_cells :: "acct_cell_row list"
  sn_completeness :: "(acct_domain \<times> acct_known) list"

definition LLAMA_CACHE_ACCT_SCHEMA_VERSION :: nat where "LLAMA_CACHE_ACCT_SCHEMA_VERSION = 2"

section \<open>The budget vocabulary\<close>

datatype capacity_state = Cap_known | Cap_unbounded | Cap_unavailable | Cap_count
datatype reserve_provenance = Prov_configured | Prov_measured | Prov_count
datatype fit_state = Fit_fits | Fit_exceeds | Fit_unavailable | Fit_count
datatype participation = Part_excluded | Part_participating | Part_count
datatype accounting_mode = Mode_direct_gauge | Mode_transactional | Mode_count
datatype residency_scope = Scope_none | Scope_device | Scope_host | Scope_by_domain | Scope_count

fun llama_cache_budget_classify :: "acct_category \<Rightarrow> participation \<times> accounting_mode \<times> residency_scope" where
  "llama_cache_budget_classify Cat_live_attention_state = (Part_participating, Mode_direct_gauge, Scope_device)"
| "llama_cache_budget_classify Cat_live_recurrent_state = (Part_participating, Mode_direct_gauge, Scope_device)"
| "llama_cache_budget_classify Cat_recurrent_rollback_planes = (Part_participating, Mode_direct_gauge, Scope_device)"
| "llama_cache_budget_classify Cat_full_snapshot_payload = (Part_participating, Mode_transactional, Scope_host)"
| "llama_cache_budget_classify Cat_checkpoint_state_payload = (Part_participating, Mode_transactional, Scope_host)"
| "llama_cache_budget_classify Cat_typed_accelerator_payload = (Part_participating, Mode_transactional, Scope_host)"
| "llama_cache_budget_classify Cat_checkpoint_generation_page_metadata = (Part_excluded, Mode_direct_gauge, Scope_none)"
| "llama_cache_budget_classify Cat_checkpoint_generation_unit_metadata = (Part_excluded, Mode_direct_gauge, Scope_none)"
| "llama_cache_budget_classify Cat_live_generation_metadata = (Part_excluded, Mode_direct_gauge, Scope_none)"
| "llama_cache_budget_classify Cat_ownership_index_metadata = (Part_excluded, Mode_direct_gauge, Scope_none)"
| "llama_cache_budget_classify Cat_unit_version_payload = (Part_participating, Mode_transactional, Scope_by_domain)"
| "llama_cache_budget_classify Cat_clean_stash_payload = (Part_participating, Mode_transactional, Scope_by_domain)"
| "llama_cache_budget_classify Cat_artifact_descriptor_metadata = (Part_participating, Mode_transactional, Scope_by_domain)"
| "llama_cache_budget_classify Cat_artifact_reference_metadata = (Part_participating, Mode_transactional, Scope_by_domain)"
| "llama_cache_budget_classify Cat_transfer_staging = (Part_participating, Mode_transactional, Scope_by_domain)"
| "llama_cache_budget_classify Cat_codec_workspace = (Part_participating, Mode_transactional, Scope_by_domain)"
| "llama_cache_budget_classify Cat_pinned_preimage_ring = (Part_participating, Mode_direct_gauge, Scope_by_domain)"
| "llama_cache_budget_classify Cat_rolling_window_tape = (Part_participating, Mode_direct_gauge, Scope_device)"
| "llama_cache_budget_classify Cat_container_overhead = (Part_excluded, Mode_direct_gauge, Scope_none)"
| "llama_cache_budget_classify Cat_count = (Part_count, Mode_count, Scope_count)"

record device_input =
  di_backend_device :: nat
  di_domain :: acct_domain
  di_physical_total :: nat
  di_physical_free :: nat
  di_phys_state :: capacity_state
  di_current_compute_allocated :: nat
  di_configured_compute_reserve :: nat
  di_reserve_provenance :: reserve_provenance
  di_compute_state :: capacity_state
  di_configured_cache_cap :: nat
  di_cache_cap_state :: capacity_state

record host_input =
  h_pageable_cap :: nat
  h_pageable_state :: capacity_state
  h_pinned_cap :: nat
  h_pinned_state :: capacity_state
  h_total_cap :: nat
  h_total_state :: capacity_state

record budget_config =
  bc_devices :: "device_input list"
  bc_host :: host_input
  bc_administrative_global_cap :: nat
  bc_global_cap_state :: capacity_state

record plan_entry =
  pe_domain :: acct_domain
  pe_reserve_bytes :: nat
  pe_release_bytes :: nat

record budget_plan =
  bp_accounting_serial :: nat
  bp_entries :: "plan_entry list"

datatype resource_kind = Rk_accounting_domain | Rk_physical_device | Rk_host_residency | Rk_host_total
  | Rk_administrative_global | Rk_count

record resource_key =
  rk_kind :: resource_kind
  rk_domain :: acct_domain
  rk_backend_device :: nat
  rk_residency :: acct_residency

record budget_row =
  br_resource :: resource_key
  br_ceiling_state :: capacity_state
  br_ceiling :: acct_value
  br_current_resident :: acct_value
  br_before :: acct_value
  br_released :: acct_value
  br_reserved :: acct_value
  br_after :: acct_value
  br_headroom_state :: capacity_state
  br_headroom_after :: acct_value
  br_state :: fit_state

record budget_result =
  res_accounting_serial :: nat
  res_domains :: "budget_row list"
  res_groups :: "budget_row list"
  res_state :: fit_state

section \<open>Rows\<close>

definition U64_MAXIMUM :: nat where "U64_MAXIMUM = 2 ^ 64 - 1"

definition add_checked :: "nat \<Rightarrow> nat \<Rightarrow> nat option" where
  "add_checked a b = (if b > U64_MAXIMUM - a then None else Some (a + b))"

definition sub_checked :: "nat \<Rightarrow> nat \<Rightarrow> nat option" where
  "sub_checked a b = (if b > a then None else Some (a - b))"

definition valid_capacity_state :: "capacity_state \<Rightarrow> bool" where
  "valid_capacity_state s \<longleftrightarrow> s \<noteq> Cap_count"

definition valid_domain_for_budget :: "acct_domain \<Rightarrow> bool" where
  "valid_domain_for_budget d =
    (if \<not> llama_cache_acct_resource_domain_valid d then False
     else d_residency d = Res_device \<or> d_residency d = Res_pinned_host \<or> d_residency d = Res_pageable_host)"

definition combine_state :: "fit_state \<Rightarrow> fit_state \<Rightarrow> fit_state" where
  "combine_state a b =
    (if a = Fit_unavailable \<or> b = Fit_unavailable then Fit_unavailable
     else if a = Fit_exceeds \<or> b = Fit_exceeds then Fit_exceeds else Fit_fits)"

definition empty_row :: "resource_key \<Rightarrow> budget_row" where
  "empty_row key = \<lparr> br_resource = key, br_ceiling_state = Cap_unavailable, br_ceiling = (0, Unknown),
     br_current_resident = (0, Unknown), br_before = (0, Unknown), br_released = (0, Unknown), br_reserved = (0, Unknown),
     br_after = (0, Unknown), br_headroom_state = Cap_unavailable, br_headroom_after = (0, Unknown), br_state = Fit_unavailable \<rparr>"

definition set_ceiling :: "capacity_state \<Rightarrow> nat \<Rightarrow> budget_row \<Rightarrow> budget_row" where
  "set_ceiling st v row = row\<lparr> br_ceiling_state := st, br_ceiling := (if st = Cap_known then measured v else unavailable_value) \<rparr>"

definition populate_values :: "bool \<Rightarrow> nat \<Rightarrow> nat \<Rightarrow> nat \<Rightarrow> nat \<Rightarrow> budget_row \<Rightarrow> budget_row" where
  "populate_values inputs_available current before released reserved row =
    (if \<not> inputs_available
     then row\<lparr> br_current_resident := unavailable_value, br_before := unavailable_value, br_released := unavailable_value,
       br_reserved := unavailable_value, br_after := unavailable_value, br_headroom_after := unavailable_value,
       br_headroom_state := Cap_unavailable, br_state := Fit_unavailable \<rparr>
     else let row' = row\<lparr> br_current_resident := measured current, br_before := measured before,
            br_released := measured released, br_reserved := measured reserved \<rparr>
       in case do { r \<leftarrow> sub_checked before released; add_checked r reserved } of
            None \<Rightarrow> row'\<lparr> br_after := unavailable_value, br_headroom_after := unavailable_value,
              br_headroom_state := Cap_unavailable, br_state := Fit_unavailable \<rparr>
          | Some after \<Rightarrow> row'\<lparr> br_after := measured after \<rparr>)"

definition apply_ceiling :: "budget_row \<Rightarrow> budget_row" where
  "apply_ceiling row =
    (if snd (br_after row) \<noteq> Known
     then row\<lparr> br_headroom_after := unavailable_value, br_headroom_state := Cap_unavailable, br_state := Fit_unavailable \<rparr>
     else case br_ceiling_state row of
       Cap_known \<Rightarrow> if fst (br_after row) > fst (br_ceiling row)
         then row\<lparr> br_headroom_after := unavailable_value, br_headroom_state := Cap_unavailable, br_state := Fit_exceeds \<rparr>
         else row\<lparr> br_headroom_after := measured (fst (br_ceiling row) - fst (br_after row)), br_headroom_state := Cap_known,
                br_state := Fit_fits \<rparr>
     | Cap_unbounded \<Rightarrow> row\<lparr> br_headroom_after := unavailable_value, br_headroom_state := Cap_unbounded, br_state := Fit_fits \<rparr>
     | _ \<Rightarrow> row\<lparr> br_headroom_after := unavailable_value, br_headroom_state := Cap_unavailable, br_state := Fit_unavailable \<rparr>)"

section \<open>Roll-ups\<close>

record rollup_values =
  ru_current_resident :: nat
  ru_before :: nat
  ru_released :: nat
  ru_reserved :: nat
  ru_available :: bool

definition rollup_add :: "budget_row \<Rightarrow> rollup_values \<Rightarrow> rollup_values" where
  "rollup_add row s =
    (if snd (br_current_resident row) \<noteq> Known \<or> snd (br_before row) \<noteq> Known \<or> snd (br_released row) \<noteq> Known \<or>
        snd (br_reserved row) \<noteq> Known
     then s\<lparr> ru_available := False \<rparr>
     else case add_checked (ru_current_resident s) (fst (br_current_resident row)) of None \<Rightarrow> s\<lparr> ru_available := False \<rparr>
     | Some c \<Rightarrow> let s = s\<lparr> ru_current_resident := c \<rparr> in
       case add_checked (ru_before s) (fst (br_before row)) of None \<Rightarrow> s\<lparr> ru_available := False \<rparr>
     | Some b \<Rightarrow> let s = s\<lparr> ru_before := b \<rparr> in
       case add_checked (ru_released s) (fst (br_released row)) of None \<Rightarrow> s\<lparr> ru_available := False \<rparr>
     | Some l \<Rightarrow> let s = s\<lparr> ru_released := l \<rparr> in
       case add_checked (ru_reserved s) (fst (br_reserved row)) of None \<Rightarrow> s\<lparr> ru_available := False \<rparr>
     | Some r \<Rightarrow> s\<lparr> ru_reserved := r \<rparr>)"

definition sum_row_values :: "budget_row list \<Rightarrow> bool \<Rightarrow> rollup_values" where
  "sum_row_values rows additional_available = fold rollup_add rows
     \<lparr> ru_current_resident = 0, ru_before = 0, ru_released = 0, ru_reserved = 0, ru_available = additional_available \<rparr>"

definition rollup_group :: "resource_key \<Rightarrow> rollup_values \<Rightarrow> capacity_state \<Rightarrow> nat \<Rightarrow> budget_row" where
  "rollup_group key v ceiling_state ceiling =
    apply_ceiling (populate_values (ru_available v) (ru_current_resident v) (ru_before v) (ru_released v) (ru_reserved v)
      (set_ceiling ceiling_state ceiling (empty_row key)))"

section \<open>Accounting domains\<close>

record domain_calc =
  dc_domain :: acct_domain
  dc_backend_device :: nat
  dc_resident :: nat
  dc_outstanding_reserved :: nat
  dc_plan_reserved :: nat
  dc_plan_released :: nat
  dc_available :: bool
  dc_saw_cell :: bool
  dc_completeness_known :: bool

definition new_calc :: "acct_domain \<Rightarrow> nat \<Rightarrow> domain_calc" where
  "new_calc d dev = \<lparr> dc_domain = d, dc_backend_device = dev, dc_resident = 0, dc_outstanding_reserved = 0,
     dc_plan_reserved = 0, dc_plan_released = 0, dc_available = True, dc_saw_cell = False, dc_completeness_known = False \<rparr>"

text \<open>The index of the first element with a key, as \<open>std::find_if\<close>.\<close>

fun first_key :: "('a \<Rightarrow> 'k) \<Rightarrow> 'k \<Rightarrow> 'a list \<Rightarrow> nat option" where
  "first_key f k [] = None"
| "first_key f k (x # xs) = (if f x = k then Some 0 else map_option Suc (first_key f k xs))"

abbreviation find_domain :: "acct_domain \<Rightarrow> domain_calc list \<Rightarrow> nat option" where
  "find_domain d ds \<equiv> first_key dc_domain d ds"

definition register_device :: "device_input \<Rightarrow> domain_calc list \<Rightarrow> domain_calc list option" where
  "register_device input ds =
    (if di_backend_device input = 0 \<or> \<not> valid_domain_for_budget (di_domain input) \<or>
        d_residency (di_domain input) \<noteq> Res_device \<or> \<not> valid_capacity_state (di_phys_state input) \<or>
        \<not> valid_capacity_state (di_compute_state input) \<or> \<not> valid_capacity_state (di_cache_cap_state input) then None
     else if find_domain (di_domain input) ds \<noteq> None then None
     else Some (ds @ [new_calc (di_domain input) (di_backend_device input)]))"

definition in_scope :: "acct_cell_row \<Rightarrow> bool" where
  "in_scope cell =
    (let (part, mode, scope) = llama_cache_budget_classify (cr_category cell);
         by_domain = (scope = Scope_by_domain); res = d_residency (cr_domain cell);
         device_scope = (scope = Scope_device \<or> by_domain) \<and> res = Res_device;
         host_scope = (scope = Scope_host \<or> by_domain) \<and> (res = Res_pinned_host \<or> res = Res_pageable_host)
     in device_scope \<or> host_scope)"

text \<open>A row of an artifact category whose producer has observed nothing yet.\<close>

definition dormant :: "acct_cell_row \<Rightarrow> bool" where
  "dormant cell =
    (let (part, mode, scope) = llama_cache_budget_classify (cr_category cell)
     in scope = Scope_by_domain \<and> snd (cr_resident_allocated cell) = Unknown \<and>
        (mode \<noteq> Mode_transactional \<or> snd (cr_reserved cell) = Unknown))"

definition count_measures :: "acct_cell_row \<Rightarrow> domain_calc \<Rightarrow> domain_calc" where
  "count_measures cell dc =
    (let dc = dc\<lparr> dc_saw_cell := True \<rparr> in
     if cr_certification cell \<noteq> Known then dc\<lparr> dc_available := False \<rparr>
     else let dc = (if snd (cr_resident_allocated cell) \<noteq> Known then dc\<lparr> dc_available := False \<rparr>
            else case add_checked (dc_resident dc) (fst (cr_resident_allocated cell)) of None \<Rightarrow> dc\<lparr> dc_available := False \<rparr>
              | Some r \<Rightarrow> dc\<lparr> dc_resident := r \<rparr>)
       in if fst (snd (llama_cache_budget_classify (cr_category cell))) \<noteq> Mode_transactional then dc
          else if snd (cr_reserved cell) \<noteq> Known then dc\<lparr> dc_available := False \<rparr>
          else case add_checked (dc_outstanding_reserved dc) (fst (cr_reserved cell)) of None \<Rightarrow> dc\<lparr> dc_available := False \<rparr>
            | Some r \<Rightarrow> dc\<lparr> dc_outstanding_reserved := r \<rparr>)"

definition count_cell :: "acct_cell_row \<Rightarrow> domain_calc list \<Rightarrow> domain_calc list option" where
  "count_cell cell ds =
    (if \<not> valid_domain_for_budget (cr_domain cell) then Some ds
     else let ds = (if find_domain (cr_domain cell) ds = None then ds @ [new_calc (cr_domain cell) 0] else ds);
              part = fst (llama_cache_budget_classify (cr_category cell))
       in if part = Part_count then None
          else if part \<noteq> Part_participating \<or> \<not> in_scope cell \<or> dormant cell then Some ds
          else case find_domain (cr_domain cell) ds of None \<Rightarrow> None
            | Some i \<Rightarrow> Some (ds[i := count_measures cell (ds ! i)]))"

definition certify :: "(acct_domain \<times> acct_known) list \<Rightarrow> domain_calc \<Rightarrow> domain_calc" where
  "certify rows dc =
    (let mine = filter (\<lambda>(d, k). d = dc_domain dc) rows;
         known = (mine \<noteq> [] \<and> list_all (\<lambda>(d, k). k = Known) mine)
     in dc\<lparr> dc_completeness_known := known, dc_available := dc_available dc \<and> dc_saw_cell dc \<and> known \<rparr>)"

definition plan_domain :: "plan_entry \<Rightarrow> domain_calc list \<Rightarrow> domain_calc list option" where
  "plan_domain entry ds =
    (if \<not> valid_domain_for_budget (pe_domain entry) then None
     else case find_domain (pe_domain entry) ds of None \<Rightarrow> None
       | Some i \<Rightarrow> if dc_plan_reserved (ds ! i) \<noteq> 0 \<or> dc_plan_released (ds ! i) \<noteq> 0 then None
           else Some (ds[i := (ds ! i)\<lparr> dc_plan_reserved := pe_reserve_bytes entry, dc_plan_released := pe_release_bytes entry \<rparr>]))"

definition domain_row :: "domain_calc \<Rightarrow> budget_row" where
  "domain_row dc =
    (let key = \<lparr> rk_kind = Rk_accounting_domain, rk_domain = dc_domain dc, rk_backend_device = dc_backend_device dc,
           rk_residency = d_residency (dc_domain dc) \<rparr>;
         sum = (if dc_available dc then add_checked (dc_resident dc) (dc_outstanding_reserved dc) else None);
         before = (case sum of None \<Rightarrow> 0 | Some b \<Rightarrow> b);
         row = empty_row key;
         row = (if d_residency (dc_domain dc) \<noteq> Res_device then set_ceiling Cap_unbounded 0 row else row);
         row = populate_values (sum \<noteq> None) (dc_resident dc) before (dc_plan_released dc) (dc_plan_reserved dc) row
     in if d_residency (dc_domain dc) \<noteq> Res_device then apply_ceiling row else row)"

section \<open>The groups\<close>

definition same_device_numbers :: "device_input \<Rightarrow> device_input \<Rightarrow> bool" where
  "same_device_numbers a b \<longleftrightarrow> di_physical_total a = di_physical_total b \<and> di_physical_free a = di_physical_free b \<and>
     di_phys_state a = di_phys_state b \<and> di_current_compute_allocated a = di_current_compute_allocated b \<and>
     di_configured_compute_reserve a = di_configured_compute_reserve b \<and> di_reserve_provenance a = di_reserve_provenance b \<and>
     di_compute_state a = di_compute_state b \<and> di_configured_cache_cap a = di_configured_cache_cap b \<and>
     di_cache_cap_state a = di_cache_cap_state b"

definition device_ceiling :: "rollup_values \<Rightarrow> device_input \<Rightarrow> capacity_state \<times> nat" where
  "device_ceiling v input =
    (if ru_available v \<and> di_phys_state input = Cap_known \<and> di_compute_state input = Cap_known \<and>
        di_reserve_provenance input = Prov_configured \<and> di_physical_free input \<le> di_physical_total input \<and>
        di_configured_compute_reserve input \<ge> di_current_compute_allocated input
     then case do {
         used \<leftarrow> sub_checked (di_physical_total input) (di_physical_free input);
         cache_and_compute \<leftarrow> add_checked (ru_current_resident v) (di_current_compute_allocated input);
         other_noncache \<leftarrow> sub_checked used cache_and_compute;
         before_reserve \<leftarrow> sub_checked (di_physical_total input) other_noncache;
         sub_checked before_reserve (di_configured_compute_reserve input) } of
       None \<Rightarrow> (Cap_unavailable, 0)
     | Some derived \<Rightarrow>
         if di_cache_cap_state input = Cap_known then (Cap_known, min derived (di_configured_cache_cap input))
         else if di_cache_cap_state input = Cap_unavailable then (Cap_unavailable, derived)
         else (Cap_known, derived)
     else (Cap_unavailable, 0))"

abbreviation row_domain :: "budget_row \<Rightarrow> acct_domain" where "row_domain row \<equiv> rk_domain (br_resource row)"

definition device_group :: "device_input list \<Rightarrow> nat \<Rightarrow> budget_row list \<times> budget_row list \<Rightarrow> budget_row list \<times> budget_row list" where
  "device_group devices i s =
    (let (rows, groups) = s; input = devices ! i in
     if list_ex (\<lambda>d. di_backend_device d = di_backend_device input) (take i devices) then s
     else let candidates = filter (\<lambda>d. di_backend_device d = di_backend_device input) (drop i devices);
              found = map (\<lambda>d. first_key row_domain (di_domain d) rows) candidates;
              consistent = list_all (same_device_numbers input) candidates \<and> list_all (\<lambda>f. f \<noteq> None) found;
              members = map the (filter (\<lambda>f. f \<noteq> None) found);
              values = sum_row_values (map (\<lambda>m. rows ! m) members) consistent;
              (st, ceiling) = device_ceiling values input;
              rows' = fold (\<lambda>m rows. rows[m := apply_ceiling (set_ceiling st ceiling (rows ! m))]) members rows
       in (rows', groups @ [rollup_group \<lparr> rk_kind = Rk_physical_device, rk_domain = di_domain input,
             rk_backend_device = di_backend_device input, rk_residency = Res_device \<rparr> values st ceiling]))"

definition host_group :: "acct_residency \<Rightarrow> capacity_state \<Rightarrow> nat \<Rightarrow> budget_row list \<Rightarrow> budget_row" where
  "host_group residency st cap rows =
    rollup_group \<lparr> rk_kind = Rk_host_residency, rk_domain = no_domain, rk_backend_device = 0, rk_residency = residency \<rparr>
      (sum_row_values (filter (\<lambda>row. rk_residency (br_resource row) = residency) rows) True) st cap"

definition total_group :: "resource_kind \<Rightarrow> capacity_state \<Rightarrow> nat \<Rightarrow> budget_row list \<Rightarrow> budget_row list" where
  "total_group kind st cap rows =
    (if st = Cap_unbounded then []
     else [rollup_group \<lparr> rk_kind = kind, rk_domain = no_domain, rk_backend_device = 0, rk_residency = Res_not_applicable \<rparr>
       (sum_row_values rows True) st cap])"

section \<open>The coordinator\<close>

record coordinator =
  co_snapshot :: acct_snapshot
  co_config :: budget_config
  co_configured :: bool

definition coordinator_reset :: "acct_snapshot \<Rightarrow> budget_config \<Rightarrow> coordinator" where
  "coordinator_reset snapshot config = \<lparr> co_snapshot = snapshot, co_config = config, co_configured = True \<rparr>"

definition collect_domains :: "acct_snapshot \<Rightarrow> budget_config \<Rightarrow> budget_plan \<Rightarrow> domain_calc list option" where
  "collect_domains snapshot config plan = do {
     ds \<leftarrow> foldM register_device (bc_devices config) [];
     ds \<leftarrow> foldM count_cell (sn_cells snapshot) ds;
     ds \<leftarrow> foldM plan_domain (bp_entries plan) (map (certify (sn_completeness snapshot)) ds);
     if \<not> distinct (map pe_domain (bp_entries plan)) then None else Some ds }"

definition budget_groups :: "budget_config \<Rightarrow> budget_row list \<Rightarrow> budget_row list \<times> budget_row list" where
  "budget_groups config rows =
    (let (rows, groups) = fold (device_group (bc_devices config)) [0..<length (bc_devices config)] (rows, []);
         host = bc_host config;
         hosts = [host_group Res_pinned_host (h_pinned_state host) (h_pinned_cap host) rows,
                  host_group Res_pageable_host (h_pageable_state host) (h_pageable_cap host) rows];
         groups = groups @ hosts @ total_group Rk_host_total (h_total_state host) (h_total_cap host) hosts;
         top = filter (\<lambda>row. rk_kind (br_resource row) = Rk_physical_device \<or> rk_kind (br_resource row) = Rk_host_residency) groups
     in (rows, groups @ total_group Rk_administrative_global (bc_global_cap_state config) (bc_administrative_global_cap config) top))"

definition coordinator_fits :: "budget_plan \<Rightarrow> coordinator \<Rightarrow> budget_result" where
  "coordinator_fits plan co =
    (let snapshot = co_snapshot co;
         refused = \<lparr> res_accounting_serial = sn_serial snapshot, res_domains = [], res_groups = [], res_state = Fit_unavailable \<rparr>
     in if \<not> co_configured co \<or> sn_schema_version snapshot \<noteq> LLAMA_CACHE_ACCT_SCHEMA_VERSION \<or>
           bp_accounting_serial plan \<noteq> sn_serial snapshot \<or> sn_completeness_manifest snapshot \<noteq> Known then refused
        else case collect_domains snapshot (co_config co) plan of None \<Rightarrow> refused
        | Some ds \<Rightarrow>
            let (rows, groups) = budget_groups (co_config co) (map domain_row ds)
            in \<lparr> res_accounting_serial = sn_serial snapshot, res_domains = rows, res_groups = groups,
                 res_state = fold (\<lambda>row st. combine_state st (br_state row)) groups
                   (fold (\<lambda>row st. combine_state st (br_state row)) rows Fit_fits) \<rparr>)"

end
