(* ===== verification/Budget_Properties.thy ===== *)
theory Budget_Properties
  imports Cache_Budget
begin

text \<open>
  The soundness of the budget verdict: when the coordinator answers that a plan fits, the bytes that
  the snapshot's cells and the plan really name fit every device and the host, each counted
  cell was certified and known, and no sum has wrapped.
\<close>

section \<open>What a snapshot and a plan name\<close>

definition counted :: "acct_domain \<Rightarrow> acct_cell_row \<Rightarrow> bool" where
  "counted d cell \<longleftrightarrow> cr_domain cell = d \<and> fst (llama_cache_budget_classify (cr_category cell)) = Part_participating \<and>
     in_scope cell \<and> \<not> dormant cell"

abbreviation transactional :: "acct_cell_row \<Rightarrow> bool" where
  "transactional cell \<equiv> fst (snd (llama_cache_budget_classify (cr_category cell))) = Mode_transactional"

definition resident_bytes :: "acct_cell_row list \<Rightarrow> acct_domain \<Rightarrow> nat" where
  "resident_bytes cells d = (\<Sum>cell \<leftarrow> filter (counted d) cells. fst (cr_resident_allocated cell))"

definition outstanding_bytes :: "acct_cell_row list \<Rightarrow> acct_domain \<Rightarrow> nat" where
  "outstanding_bytes cells d = (\<Sum>cell \<leftarrow> filter (\<lambda>cell. counted d cell \<and> transactional cell) cells. fst (cr_reserved cell))"

definition cell_known :: "acct_cell_row \<Rightarrow> bool" where
  "cell_known cell \<longleftrightarrow> cr_certification cell = Known \<and> snd (cr_resident_allocated cell) = Known \<and>
     (transactional cell \<longrightarrow> snd (cr_reserved cell) = Known)"

definition reserve_of :: "plan_entry list \<Rightarrow> acct_domain \<Rightarrow> nat" where
  "reserve_of es d = (\<Sum>e \<leftarrow> filter (\<lambda>e. pe_domain e = d) es. pe_reserve_bytes e)"

definition release_of :: "plan_entry list \<Rightarrow> acct_domain \<Rightarrow> nat" where
  "release_of es d = (\<Sum>e \<leftarrow> filter (\<lambda>e. pe_domain e = d) es. pe_release_bytes e)"

section \<open>Lookups\<close>

lemma first_key_Some: "first_key f k xs = Some i \<Longrightarrow> i < length xs \<and> f (xs ! i) = k"
  by (induction xs arbitrary: i) (auto split: if_splits)

lemma first_key_None: "first_key f k xs = None \<longleftrightarrow> k \<notin> set (map f xs)"
  by (induction xs) auto

lemma first_key_cong: "map f xs = map f ys \<Longrightarrow> first_key f k xs = first_key f k ys"
proof (induction xs arbitrary: ys)
  case (Cons x xs)
  then obtain y ys' where "ys = y # ys'" "f x = f y" "map f xs = map f ys'" by (cases ys) auto
  with Cons.IH show ?case by simp
qed simp

section \<open>Collecting the domains\<close>

definition calc_ok :: "acct_cell_row list \<Rightarrow> domain_calc \<Rightarrow> bool" where
  "calc_ok cells dc \<longleftrightarrow> (dc_available dc \<longrightarrow>
     (\<forall>cell \<in> set cells. counted (dc_domain dc) cell \<longrightarrow> cell_known cell) \<and>
     dc_resident dc = resident_bytes cells (dc_domain dc) \<and>
     dc_outstanding_reserved dc = outstanding_bytes cells (dc_domain dc))"

definition calcs_ok :: "acct_cell_row list \<Rightarrow> domain_calc list \<Rightarrow> bool" where
  "calcs_ok cells ds \<longleftrightarrow> distinct (map dc_domain ds) \<and>
     (\<forall>cell \<in> set cells. valid_domain_for_budget (cr_domain cell) \<longrightarrow> cr_domain cell \<in> dc_domain ` set ds) \<and>
     (\<forall>dc \<in> set ds. calc_ok cells dc \<and> dc_plan_reserved dc = 0 \<and> dc_plan_released dc = 0 \<and>
        valid_domain_for_budget (dc_domain dc))"

lemma calc_ok_skip: "calc_ok cells dc \<Longrightarrow> \<not> counted (dc_domain dc) cell \<Longrightarrow> calc_ok (cells @ [cell]) dc"
  by (auto simp: calc_ok_def resident_bytes_def outstanding_bytes_def)

lemma calc_ok_new:
  "\<forall>cell \<in> set cells. cr_domain cell \<noteq> d \<Longrightarrow> calc_ok cells (new_calc d dev)"
proof -
  assume "\<forall>cell \<in> set cells. cr_domain cell \<noteq> d"
  then have "\<forall>cell \<in> set cells. \<not> counted d cell" by (auto simp: counted_def)
  then have "filter (counted d) cells = []" "filter (\<lambda>cell. counted d cell \<and> transactional cell) cells = []"
    by (auto simp: filter_empty_conv)
  then show ?thesis using \<open>\<forall>cell \<in> set cells. \<not> counted d cell\<close>
    by (simp add: calc_ok_def new_calc_def resident_bytes_def outstanding_bytes_def)
qed

lemma count_measures_same:
  "dc_domain (count_measures cell dc) = dc_domain dc" "dc_plan_reserved (count_measures cell dc) = dc_plan_reserved dc"
  "dc_plan_released (count_measures cell dc) = dc_plan_released dc"
  by (simp_all add: count_measures_def Let_def split: option.split)

lemma count_measures_ok:
  assumes "calc_ok cells dc" and "counted (dc_domain dc) cell"
  shows "calc_ok (cells @ [cell]) (count_measures cell dc)"
proof -
  have avail: "dc_available (count_measures cell dc) \<Longrightarrow> dc_available dc \<and> cell_known cell \<and>
      dc_resident (count_measures cell dc) = dc_resident dc + fst (cr_resident_allocated cell) \<and>
      dc_outstanding_reserved (count_measures cell dc) =
        dc_outstanding_reserved dc + (if transactional cell then fst (cr_reserved cell) else 0)"
    by (auto simp: count_measures_def Let_def add_checked_def cell_known_def split: option.splits if_splits)
  show ?thesis
    using assms avail by (auto simp: calc_ok_def count_measures_same resident_bytes_def outstanding_bytes_def)
qed

lemma register_device_ok:
  assumes "foldM register_device devices [] = Some ds"
  shows "calcs_ok [] ds \<and> (\<forall>dev \<in> set devices. di_domain dev \<in> dc_domain ` set ds)"
  using assms
proof (induction devices arbitrary: ds rule: rev_induct)
  case (snoc dev devices)
  then obtain es where es: "foldM register_device devices [] = Some es" "register_device dev es = Some ds"
    by (auto simp: foldM_append bind_Some_iff)
  then have ds: "ds = es @ [new_calc (di_domain dev) (di_backend_device dev)]" "di_domain dev \<notin> dc_domain ` set es"
      "valid_domain_for_budget (di_domain dev)"
    by (auto simp: register_device_def first_key_None split: if_splits)
  with snoc.IH [OF es(1)] calc_ok_new [of "[]"] show ?case by (auto simp: calcs_ok_def new_calc_def)
qed (simp add: calcs_ok_def)

lemma count_cell_ok:
  assumes ok: "calcs_ok cells ds" and step: "count_cell cell ds = Some ds'"
  shows "calcs_ok (cells @ [cell]) ds' \<and> dc_domain ` set ds \<subseteq> dc_domain ` set ds'"
proof (cases "valid_domain_for_budget (cr_domain cell)")
  case False
  then have ds': "ds' = ds" using step by (simp add: count_cell_def)
  have "calc_ok (cells @ [cell]) dc" if "dc \<in> set ds" for dc
    using ok that False by (intro calc_ok_skip) (auto simp: calcs_ok_def counted_def)
  then show ?thesis using ok False unfolding ds' by (auto simp: calcs_ok_def)
next
  case True
  define es where "es = (if find_domain (cr_domain cell) ds = None then ds @ [new_calc (cr_domain cell) 0] else ds)"
  have es: "calcs_ok cells es" "cr_domain cell \<in> dc_domain ` set es" "dc_domain ` set ds \<subseteq> dc_domain ` set es"
  proof -
    have "\<forall>c \<in> set cells. valid_domain_for_budget (cr_domain c) \<longrightarrow> cr_domain c \<in> dc_domain ` set ds"
      using ok by (simp add: calcs_ok_def)
    then have "cr_domain cell \<notin> dc_domain ` set ds \<Longrightarrow> \<forall>c \<in> set cells. cr_domain c \<noteq> cr_domain cell"
      using True by metis
    then have "cr_domain cell \<notin> dc_domain ` set ds \<Longrightarrow> calc_ok cells (new_calc (cr_domain cell) 0)"
      by (intro calc_ok_new) simp
    then show "calcs_ok cells es" "cr_domain cell \<in> dc_domain ` set es" "dc_domain ` set ds \<subseteq> dc_domain ` set es"
      using ok True first_key_None [of dc_domain "cr_domain cell" ds] unfolding es_def
      by (auto simp: calcs_ok_def new_calc_def)
  qed
  let ?take = "fst (llama_cache_budget_classify (cr_category cell)) = Part_participating \<and> in_scope cell \<and> \<not> dormant cell"
  have skip: "calc_ok (cells @ [cell]) dc" if "dc \<in> set es" "\<not> (?take \<and> dc_domain dc = cr_domain cell)" for dc
    using es(1) that by (intro calc_ok_skip) (auto simp: calcs_ok_def counted_def)
  show ?thesis
  proof (cases ?take)
    case False
    then have "ds' = es" using step True unfolding es_def by (auto simp: count_cell_def Let_def split: if_splits)
    then show ?thesis using es skip False by (auto simp: calcs_ok_def)
  next
    case take: True
    obtain i where i: "find_domain (cr_domain cell) es = Some i" "i < length es" "dc_domain (es ! i) = cr_domain cell"
      using es(2) first_key_None [of dc_domain "cr_domain cell" es] first_key_Some [of dc_domain "cr_domain cell" es]
      by (cases "find_domain (cr_domain cell) es") auto
    have ds': "ds' = es[i := count_measures cell (es ! i)]"
      using step True take i(1) unfolding es_def [symmetric] count_cell_def by (simp add: Let_def es_def [symmetric])
    have doms: "map dc_domain ds' = map dc_domain es"
      using i(2) by (simp add: ds' map_update count_measures_same list_update_same_conv)
    have other: "dc_domain (es ! j) \<noteq> cr_domain cell" if "j < length es" "j \<noteq> i" for j
      using nth_eq_iff_index_eq [of "map dc_domain es" j i] es(1) that i by (simp add: calcs_ok_def)
    have "calc_ok (cells @ [cell]) (ds' ! j) \<and> dc_plan_reserved (ds' ! j) = 0 \<and> dc_plan_released (ds' ! j) = 0 \<and>
        valid_domain_for_budget (dc_domain (ds' ! j))" if "j < length es" for j
    proof (cases "j = i")
      case True
      have "es ! i \<in> set es" using i(2) by simp
      moreover have "counted (dc_domain (es ! i)) cell" using take i(3) by (simp add: counted_def)
      ultimately show ?thesis using es(1) True i(2) count_measures_ok [of cells "es ! i" cell]
        by (simp add: ds' calcs_ok_def count_measures_same)
    next
      case False
      then have "ds' ! j = es ! j" "es ! j \<in> set es" using that by (simp_all add: ds')
      then show ?thesis using es(1) skip [of "es ! j"] other [OF that False] by (simp add: calcs_ok_def)
    qed
    moreover have "length ds' = length es" by (simp add: ds')
    ultimately have "\<forall>dc \<in> set ds'. calc_ok (cells @ [cell]) dc \<and> dc_plan_reserved dc = 0 \<and> dc_plan_released dc = 0 \<and>
        valid_domain_for_budget (dc_domain dc)" by (auto simp: in_set_conv_nth)
    moreover have "dc_domain ` set ds' = dc_domain ` set es" using doms by (metis set_map)
    ultimately show ?thesis using es doms by (auto simp: calcs_ok_def)
  qed
qed

lemma count_cells_ok:
  assumes "calcs_ok [] ds" and "foldM count_cell cells ds = Some es"
  shows "calcs_ok cells es \<and> dc_domain ` set ds \<subseteq> dc_domain ` set es"
  using assms(2)
proof (induction cells arbitrary: es rule: rev_induct)
  case (snoc cell cells)
  then obtain fs where "foldM count_cell cells ds = Some fs" "count_cell cell fs = Some es"
    by (auto simp: foldM_append bind_Some_iff)
  with snoc.IH count_cell_ok show ?case by blast
qed (use assms(1) in simp)

text \<open>A domain as the rows are built from it.\<close>

definition collected :: "acct_snapshot \<Rightarrow> plan_entry list \<Rightarrow> domain_calc \<Rightarrow> bool" where
  "collected snapshot es dc \<longleftrightarrow> calc_ok (sn_cells snapshot) dc \<and>
     (dc_available dc \<longrightarrow> dc_saw_cell dc \<and> (\<exists>k. (dc_domain dc, k) \<in> set (sn_completeness snapshot)) \<and>
        (\<forall>(d, k) \<in> set (sn_completeness snapshot). d = dc_domain dc \<longrightarrow> k = Known)) \<and>
     dc_plan_reserved dc = reserve_of es (dc_domain dc) \<and> dc_plan_released dc = release_of es (dc_domain dc)"

lemma certify_collected:
  assumes "calc_ok (sn_cells snapshot) dc" "dc_plan_reserved dc = 0" "dc_plan_released dc = 0"
  shows "collected snapshot [] (certify (sn_completeness snapshot) dc) \<and>
    dc_domain (certify (sn_completeness snapshot) dc) = dc_domain dc"
  using assms
  by (auto simp: collected_def calc_ok_def certify_def Let_def list_all_iff filter_empty_conv reserve_of_def release_of_def)

lemma plan_domains_collected:
  assumes "distinct (map dc_domain ds)" and "\<forall>dc \<in> set ds. collected snapshot [] dc"
    and "foldM plan_domain es ds = Some fs" and "distinct (map pe_domain es)"
  shows "map dc_domain fs = map dc_domain ds \<and> (\<forall>dc \<in> set fs. collected snapshot es dc)"
  using assms(3,4)
proof (induction es arbitrary: fs rule: rev_induct)
  case (snoc e es)
  then obtain gs where gs: "foldM plan_domain es ds = Some gs" "plan_domain e gs = Some fs"
    by (auto simp: foldM_append bind_Some_iff)
  from snoc.IH [OF gs(1)] snoc.prems(2) have IH: "map dc_domain gs = map dc_domain ds" "\<forall>dc \<in> set gs. collected snapshot es dc" by auto
  from gs(2) obtain i where i: "find_domain (pe_domain e) gs = Some i"
      "fs = gs[i := (gs ! i)\<lparr> dc_plan_reserved := pe_reserve_bytes e, dc_plan_released := pe_release_bytes e \<rparr>]"
    by (auto simp: plan_domain_def split: option.splits if_splits)
  have il: "i < length gs" "dc_domain (gs ! i) = pe_domain e" using first_key_Some [OF i(1)] by auto
  have "pe_domain e \<notin> set (map pe_domain es)" using snoc.prems(2) by simp
  then have none: "filter (\<lambda>x. pe_domain x = pe_domain e) es = []"
    by (auto simp: filter_empty_conv) (metis imageI)
  have "collected snapshot (es @ [e]) (fs ! j)" if "j < length gs" for j
  proof (cases "j = i")
    case True
    have "collected snapshot es (gs ! i)" using IH(2) il(1) by simp
    then show ?thesis using True il none by (simp add: i(2) collected_def calc_ok_def reserve_of_def release_of_def)
  next
    case False
    moreover have "distinct (map dc_domain gs)" using assms(1) IH(1) by simp
    ultimately have "dc_domain (gs ! j) \<noteq> pe_domain e"
      using nth_eq_iff_index_eq [of "map dc_domain gs" j i] that il by simp
    then show ?thesis using IH(2) that \<open>j \<noteq> i\<close> by (simp add: i(2) collected_def reserve_of_def release_of_def)
  qed
  moreover have "length fs = length gs" by (simp add: i(2))
  moreover have "map dc_domain fs = map dc_domain gs" using il(1) by (simp add: i(2) map_update list_update_same_conv)
  ultimately show ?case using IH(1) by (auto simp: in_set_conv_nth)
qed (use assms(2) in simp)

lemma plan_domains_named:
  "foldM plan_domain es ds = Some fs \<Longrightarrow> pe_domain ` set es \<subseteq> dc_domain ` set ds \<and> map dc_domain fs = map dc_domain ds"
proof (induction es arbitrary: fs rule: rev_induct)
  case (snoc e es)
  then obtain gs where gs: "foldM plan_domain es ds = Some gs" "plan_domain e gs = Some fs"
    by (auto simp: foldM_append bind_Some_iff)
  from gs(2) obtain i where i: "find_domain (pe_domain e) gs = Some i"
      "fs = gs[i := (gs ! i)\<lparr> dc_plan_reserved := pe_reserve_bytes e, dc_plan_released := pe_release_bytes e \<rparr>]"
    by (auto simp: plan_domain_def split: option.splits if_splits)
  have "i < length gs" "dc_domain (gs ! i) = pe_domain e" using first_key_Some [OF i(1)] by auto
  then have "map dc_domain fs = map dc_domain gs" "pe_domain e \<in> set (map dc_domain gs)"
    using nth_mem [of i "map dc_domain gs"] by (simp_all add: i(2) map_update list_update_same_conv)
  then show ?case using snoc.IH [OF gs(1)] by auto
qed simp

lemma collect_domains_valid:
  assumes "collect_domains snapshot config plan = Some ds"
  shows "(\<forall>dc \<in> set ds. valid_domain_for_budget (dc_domain dc)) \<and> pe_domain ` set (bp_entries plan) \<subseteq> dc_domain ` set ds"
proof -
  obtain d1 d2 where d: "foldM register_device (bc_devices config) [] = Some d1" "foldM count_cell (sn_cells snapshot) d1 = Some d2"
      "foldM plan_domain (bp_entries plan) (map (certify (sn_completeness snapshot)) d2) = Some ds"
    using assms by (auto simp: collect_domains_def bind_Some_iff split: if_splits)
  have "calcs_ok (sn_cells snapshot) d2" using register_device_ok [OF d(1)] count_cells_ok [OF _ d(2)] by blast
  moreover have names: "map dc_domain (map (certify (sn_completeness snapshot)) d2) = map dc_domain d2" by (simp add: certify_def Let_def)
  then have "map dc_domain ds = map dc_domain d2" using plan_domains_named [OF d(3)] by simp
  then have "dc_domain ` set ds = dc_domain ` set d2" by (metis set_map)
  ultimately have "\<forall>n \<in> dc_domain ` set ds. valid_domain_for_budget n" by (auto simp: calcs_ok_def)
  moreover have "pe_domain ` set (bp_entries plan) \<subseteq> dc_domain ` set ds"
    using plan_domains_named [OF d(3)] by (metis set_map)
  ultimately show ?thesis by blast
qed

lemma collect_domains_ok:
  assumes "collect_domains snapshot config plan = Some ds"
  shows "distinct (map dc_domain ds) \<and> (\<forall>dev \<in> set (bc_devices config). di_domain dev \<in> dc_domain ` set ds) \<and>
    (\<forall>cell \<in> set (sn_cells snapshot). valid_domain_for_budget (cr_domain cell) \<longrightarrow> cr_domain cell \<in> dc_domain ` set ds) \<and>
    (\<forall>dc \<in> set ds. collected snapshot (bp_entries plan) dc)"
proof -
  obtain d1 d2 where d: "foldM register_device (bc_devices config) [] = Some d1" "foldM count_cell (sn_cells snapshot) d1 = Some d2"
      "foldM plan_domain (bp_entries plan) (map (certify (sn_completeness snapshot)) d2) = Some ds"
      "distinct (map pe_domain (bp_entries plan))"
    using assms by (auto simp: collect_domains_def bind_Some_iff split: if_splits)
  let ?d3 = "map (certify (sn_completeness snapshot)) d2"
  have reg: "calcs_ok [] d1" "\<forall>dev \<in> set (bc_devices config). di_domain dev \<in> dc_domain ` set d1"
    using register_device_ok [OF d(1)] by auto
  have d2: "calcs_ok (sn_cells snapshot) d2" "dc_domain ` set d1 \<subseteq> dc_domain ` set d2"
    using count_cells_ok [OF reg(1) d(2)] by auto
  have cert: "collected snapshot [] (certify (sn_completeness snapshot) dc)"
      "dc_domain (certify (sn_completeness snapshot) dc) = dc_domain dc" if "dc \<in> set d2" for dc
    using certify_collected [of snapshot dc] d2(1) that by (auto simp: calcs_ok_def)
  have names: "map dc_domain ?d3 = map dc_domain d2" using cert(2) by simp
  have "distinct (map dc_domain ?d3)" using d2(1) unfolding names by (simp add: calcs_ok_def)
  moreover have "\<forall>dc \<in> set ?d3. collected snapshot [] dc" using cert(1) by simp
  ultimately have fin: "map dc_domain ds = map dc_domain ?d3" "\<forall>dc \<in> set ds. collected snapshot (bp_entries plan) dc"
    using plan_domains_collected [OF _ _ d(3,4)] by blast+
  have "dc_domain ` set ds = dc_domain ` set d2" using fin(1) names by (metis set_map)
  moreover have "distinct (map dc_domain ds)" using d2(1) unfolding fin(1) names by (simp add: calcs_ok_def)
  ultimately show ?thesis using fin(2) reg(2) d2 by (auto simp: calcs_ok_def)
qed

section \<open>Rows and roll-ups\<close>

lemma rollup_add_available:
  assumes "ru_available (rollup_add row s)"
  shows "ru_available s \<and> snd (br_current_resident row) = Known \<and> snd (br_before row) = Known \<and>
    snd (br_released row) = Known \<and> snd (br_reserved row) = Known \<and>
    ru_current_resident (rollup_add row s) = ru_current_resident s + fst (br_current_resident row) \<and>
    ru_before (rollup_add row s) = ru_before s + fst (br_before row) \<and>
    ru_released (rollup_add row s) = ru_released s + fst (br_released row) \<and>
    ru_reserved (rollup_add row s) = ru_reserved s + fst (br_reserved row)"
  using assms by (auto simp: rollup_add_def add_checked_def Let_def split: if_splits option.splits)

lemma sum_row_values_available:
  assumes "ru_available (sum_row_values rows extra)"
  shows "extra \<and> (\<forall>row \<in> set rows. snd (br_current_resident row) = Known \<and> snd (br_before row) = Known \<and>
      snd (br_released row) = Known \<and> snd (br_reserved row) = Known) \<and>
    ru_current_resident (sum_row_values rows extra) = (\<Sum>row \<leftarrow> rows. fst (br_current_resident row)) \<and>
    ru_before (sum_row_values rows extra) = (\<Sum>row \<leftarrow> rows. fst (br_before row)) \<and>
    ru_released (sum_row_values rows extra) = (\<Sum>row \<leftarrow> rows. fst (br_released row)) \<and>
    ru_reserved (sum_row_values rows extra) = (\<Sum>row \<leftarrow> rows. fst (br_reserved row))"
  using assms
proof (induction rows rule: rev_induct)
  case (snoc row rows)
  have step: "sum_row_values (rows @ [row]) extra = rollup_add row (sum_row_values rows extra)"
    by (simp add: sum_row_values_def)
  from rollup_add_available [OF snoc.prems [unfolded step]] snoc.IH show ?case unfolding step by auto
qed (simp add: sum_row_values_def)

abbreviation fine :: "budget_row \<Rightarrow> bool" where
  "fine row \<equiv> br_state row \<noteq> Fit_exceeds \<and> br_state row \<noteq> Fit_unavailable"

lemma rollup_group_fine:
  assumes "fine (rollup_group key v st ceiling)"
  shows "ru_available v \<and> ru_released v \<le> ru_before v \<and>
    (st = Cap_known \<and> ru_before v - ru_released v + ru_reserved v \<le> ceiling \<or> st = Cap_unbounded)"
  using assms
  by (auto simp: rollup_group_def apply_ceiling_def populate_values_def set_ceiling_def unavailable_value_def
      sub_checked_def add_checked_def Let_def empty_row_def split: if_splits option.splits capacity_state.splits)

lemma combine_fine:
  "combine_state a b \<noteq> Fit_exceeds \<Longrightarrow> combine_state a b \<noteq> Fit_unavailable \<Longrightarrow>
    a \<noteq> Fit_exceeds \<and> a \<noteq> Fit_unavailable \<and> b \<noteq> Fit_exceeds \<and> b \<noteq> Fit_unavailable"
  by (cases a; cases b) (simp_all add: combine_state_def)

lemma fold_combine_fine:
  assumes "fold (\<lambda>row st. combine_state st (br_state row)) rows st = Fit_fits"
  shows "st \<noteq> Fit_exceeds \<and> st \<noteq> Fit_unavailable \<and> (\<forall>row \<in> set rows. fine row)"
  using assms
proof (induction rows arbitrary: st)
  case (Cons row rows)
  from Cons.IH [of "combine_state st (br_state row)"] Cons.prems combine_fine [of st "br_state row"] show ?case
    by simp
qed simp

text \<open>The values of a row that the groups sum; setting a ceiling leaves them alone.\<close>

definition vals :: "budget_row \<Rightarrow> resource_key \<times> acct_value \<times> acct_value \<times> acct_value \<times> acct_value" where
  "vals row = (br_resource row, br_current_resident row, br_before row, br_released row, br_reserved row)"

lemma vals_ceiling [simp]: "vals (apply_ceiling row) = vals row" "vals (set_ceiling st c row) = vals row"
  by (auto simp: vals_def apply_ceiling_def set_ceiling_def split: capacity_state.split)

lemma rollup_add_vals:
  assumes "vals row = vals row'"
  shows "rollup_add row s = rollup_add row' s"
proof -
  have "br_current_resident row = br_current_resident row'" "br_before row = br_before row'"
      "br_released row = br_released row'" "br_reserved row = br_reserved row'" using assms by (simp_all add: vals_def)
  then show ?thesis unfolding rollup_add_def by (simp only:)
qed

lemma sum_row_values_vals:
  assumes "map vals rows = map vals rows'"
  shows "sum_row_values rows extra = sum_row_values rows' extra"
proof -
  have "fold rollup_add rows s = fold rollup_add rows' s" for s
    using assms
  proof (induction rows arbitrary: rows' s)
    case (Cons row rows)
    then obtain r rs where "rows' = r # rs" "vals row = vals r" "map vals rows = map vals rs" by (cases rows') auto
    with Cons.IH [of rs] rollup_add_vals [of row r] show ?case by simp
  qed simp
  then show ?thesis by (simp add: sum_row_values_def)
qed

definition same_device :: "device_input \<Rightarrow> device_input list \<Rightarrow> device_input list" where
  "same_device input devices = filter (\<lambda>d. di_backend_device d = di_backend_device input) devices"

definition lookups :: "budget_row list \<Rightarrow> device_input list \<Rightarrow> nat option list" where
  "lookups rows candidates = map (\<lambda>d. first_key row_domain (di_domain d) rows) candidates"

definition group_values :: "budget_row list \<Rightarrow> device_input \<Rightarrow> device_input list \<Rightarrow> rollup_values" where
  "group_values rows input candidates =
    sum_row_values (map (\<lambda>m. rows ! m) (map the (filter (\<lambda>f. f \<noteq> None) (lookups rows candidates))))
      (list_all (same_device_numbers input) candidates \<and> list_all (\<lambda>f. f \<noteq> None) (lookups rows candidates))"

definition group_row :: "budget_row list \<Rightarrow> device_input \<Rightarrow> device_input list \<Rightarrow> budget_row" where
  "group_row rows input candidates =
    (let v = group_values rows input candidates; (st, ceiling) = device_ceiling v input
     in rollup_group \<lparr> rk_kind = Rk_physical_device, rk_domain = di_domain input,
             rk_backend_device = di_backend_device input, rk_residency = Res_device \<rparr> v st ceiling)"

lemma lookups_vals:
  assumes "map vals rows = map vals rows'"
  shows "lookups rows cs = lookups rows' cs"
proof -
  have "map (rk_domain \<circ> fst) (map vals rows) = map (rk_domain \<circ> fst) (map vals rows')" using assms by simp
  then have "map row_domain rows = map row_domain rows'" by (simp add: vals_def comp_def)
  from first_key_cong [OF this] show ?thesis by (simp add: lookups_def)
qed

lemma lookup_bound: "m \<in> set (map the (filter (\<lambda>f. f \<noteq> None) (lookups rows cs))) \<Longrightarrow> m < length rows"
  by (auto simp: lookups_def dest: first_key_Some)

lemma group_values_vals:
  assumes "map vals rows = map vals rows'"
  shows "group_values rows input cs = group_values rows' input cs"
proof -
  have len: "length rows = length rows'" using assms by (metis length_map)
  have "vals (rows ! m) = vals (rows' ! m)" if "m < length rows" for m
    using assms that len by (metis nth_map)
  then have "map vals (map (\<lambda>m. rows ! m) (map the (filter (\<lambda>f. f \<noteq> None) (lookups rows cs)))) =
      map vals (map (\<lambda>m. rows' ! m) (map the (filter (\<lambda>f. f \<noteq> None) (lookups rows cs))))"
    using lookup_bound [of _ rows cs] by auto
  then show ?thesis unfolding group_values_def lookups_vals [OF assms] by (rule sum_row_values_vals)
qed

lemma fold_update_vals:
  "\<forall>m \<in> set ms. m < length rows \<Longrightarrow>
    map vals (fold (\<lambda>m rows. rows[m := apply_ceiling (set_ceiling st c (rows ! m))]) ms rows) = map vals rows"
proof (induction ms arbitrary: rows)
  case (Cons m ms)
  then show ?case by (simp add: map_update list_update_same_conv)
qed simp

lemma device_group_eq:
  "device_group devices i (rows, groups) =
    (let input = devices ! i; cs = same_device input (drop i devices);
         (st, c) = device_ceiling (group_values rows input cs) input
     in if same_device input (take i devices) \<noteq> [] then (rows, groups)
        else (fold (\<lambda>m rows. rows[m := apply_ceiling (set_ceiling st c (rows ! m))])
                (map the (filter (\<lambda>f. f \<noteq> None) (lookups rows cs))) rows,
              groups @ [group_row rows input cs]))"
  by (auto simp: device_group_def same_device_def group_row_def group_values_def lookups_def Let_def list_ex_iff
      filter_empty_conv split: prod.split)

lemma device_groups:
  assumes "n \<le> length devices" and "fold (device_group devices) [0..<n] (rows, []) = (rows', groups)"
  shows "map vals rows' = map vals rows \<and>
    groups = map (\<lambda>i. group_row rows (devices ! i) (same_device (devices ! i) devices))
      (filter (\<lambda>i. same_device (devices ! i) (take i devices) = []) [0..<n])"
  using assms
proof (induction n arbitrary: rows' groups)
  case (Suc n)
  obtain r g where f: "fold (device_group devices) [0..<n] (rows, []) = (r, g)" by fastforce
  have IH: "map vals r = map vals rows" "g = map (\<lambda>i. group_row rows (devices ! i) (same_device (devices ! i) devices))
      (filter (\<lambda>i. same_device (devices ! i) (take i devices) = []) [0..<n])"
    using Suc.IH [OF _ f] Suc.prems(1) by auto
  have step: "device_group devices n (r, g) = (rows', groups)" using Suc.prems(2) f by simp
  show ?case
  proof (cases "same_device (devices ! n) (take n devices) = []")
    case False
    then have "rows' = r \<and> groups = g" using step by (simp add: device_group_eq Let_def split: prod.splits)
    then show ?thesis using IH False by simp
  next
    case True
    let ?in = "devices ! n"
    have cs: "same_device ?in (drop n devices) = same_device ?in devices"
      using True append_take_drop_id [of n devices] by (metis append_Nil filter_append same_device_def)
    obtain st c where sc: "device_ceiling (group_values r ?in (same_device ?in devices)) ?in = (st, c)" by fastforce
    have rows': "rows' = fold (\<lambda>m rows. rows[m := apply_ceiling (set_ceiling st c (rows ! m))])
                (map the (filter (\<lambda>f. f \<noteq> None) (lookups r (same_device ?in devices)))) r"
        "groups = g @ [group_row r ?in (same_device ?in devices)]"
      using step True sc by (simp_all add: device_group_eq cs Let_def)
    have "map vals rows' = map vals r" unfolding rows'(1) using lookup_bound by (intro fold_update_vals) blast
    moreover have "group_row r ?in (same_device ?in devices) = group_row rows ?in (same_device ?in devices)"
      by (simp add: group_row_def group_values_vals [OF IH(1)])
    ultimately show ?thesis using IH True rows'(2) by simp
  qed
qed simp

section \<open>The verdict\<close>

lemma domain_row_values:
  assumes "snd (br_before (domain_row dc)) = Known"
  shows "dc_available dc \<and> fst (br_current_resident (domain_row dc)) = dc_resident dc \<and>
    fst (br_before (domain_row dc)) = dc_resident dc + dc_outstanding_reserved dc \<and>
    fst (br_released (domain_row dc)) = dc_plan_released dc \<and> fst (br_reserved (domain_row dc)) = dc_plan_reserved dc"
proof -
  have ap: "br_before (apply_ceiling r) = br_before r" "br_current_resident (apply_ceiling r) = br_current_resident r"
      "br_released (apply_ceiling r) = br_released r" "br_reserved (apply_ceiling r) = br_reserved r" for r
    using vals_ceiling(1) [of r] by (simp_all add: vals_def)
  have pop: "br_current_resident (populate_values a c b l v r) = (if a then measured c else unavailable_value)"
      "br_before (populate_values a c b l v r) = (if a then measured b else unavailable_value)"
      "br_released (populate_values a c b l v r) = (if a then measured l else unavailable_value)"
      "br_reserved (populate_values a c b l v r) = (if a then measured v else unavailable_value)" for a c b l v r
    by (simp_all add: populate_values_def Let_def split: option.split)
  have "fst (br_before (domain_row dc)) = dc_resident dc + dc_outstanding_reserved dc \<and> dc_available dc"
    using assms by (cases "dc_available dc"; cases "add_checked (dc_resident dc) (dc_outstanding_reserved dc)")
      (auto simp: domain_row_def Let_def ap pop unavailable_value_def add_checked_def split: if_splits)
  moreover have "fst (br_current_resident (domain_row dc)) = dc_resident dc \<and>
      fst (br_released (domain_row dc)) = dc_plan_released dc \<and> fst (br_reserved (domain_row dc)) = dc_plan_reserved dc"
    using assms by (cases "dc_available dc"; cases "add_checked (dc_resident dc) (dc_outstanding_reserved dc)")
      (auto simp: domain_row_def Let_def ap pop unavailable_value_def)
  ultimately show ?thesis by simp
qed

lemma domain_row_domain: "row_domain (domain_row dc) = dc_domain dc" "rk_residency (br_resource (domain_row dc)) = d_residency (dc_domain dc)"
proof -
  have ap: "br_resource (apply_ceiling r) = br_resource r" "br_resource (set_ceiling st c r) = br_resource r" for r st c
    using vals_ceiling(1) [of r] vals_ceiling(2) [of st c r] by (simp_all add: vals_def)
  have "br_resource (populate_values a c b l v r) = br_resource r" for a c b l v r
    by (simp add: populate_values_def Let_def split: option.split)
  then have "br_resource (domain_row dc) = \<lparr> rk_kind = Rk_accounting_domain, rk_domain = dc_domain dc, rk_backend_device = dc_backend_device dc,
           rk_residency = d_residency (dc_domain dc) \<rparr>"
    by (simp add: domain_row_def Let_def ap empty_row_def)
  then show "row_domain (domain_row dc) = dc_domain dc" "rk_residency (br_resource (domain_row dc)) = d_residency (dc_domain dc)" by simp_all
qed

text \<open>A row whose values are known names the bytes of the snapshot and the plan.\<close>

lemma collected_row:
  assumes "collected snapshot es dc" and "snd (br_before (domain_row dc)) = Known"
  shows "fst (br_current_resident (domain_row dc)) = resident_bytes (sn_cells snapshot) (dc_domain dc) \<and>
    fst (br_before (domain_row dc)) = resident_bytes (sn_cells snapshot) (dc_domain dc) + outstanding_bytes (sn_cells snapshot) (dc_domain dc) \<and>
    fst (br_released (domain_row dc)) = release_of es (dc_domain dc) \<and> fst (br_reserved (domain_row dc)) = reserve_of es (dc_domain dc) \<and>
    (\<forall>cell \<in> set (sn_cells snapshot). counted (dc_domain dc) cell \<longrightarrow> cell_known cell)"
  using domain_row_values [OF assms(2)] assms(1) by (simp add: collected_def calc_ok_def)

lemma group_values_exact:
  assumes "\<forall>dc \<in> set ds. collected snapshot es dc" and "ru_available (group_values (map domain_row ds) input cs)"
  shows "list_all (same_device_numbers input) cs"
    and "\<forall>d \<in> set cs. \<forall>cell \<in> set (sn_cells snapshot). counted (di_domain d) cell \<longrightarrow> cell_known cell"
    and "ru_current_resident (group_values (map domain_row ds) input cs) = (\<Sum>d \<leftarrow> cs. resident_bytes (sn_cells snapshot) (di_domain d))"
    and "ru_before (group_values (map domain_row ds) input cs) =
      (\<Sum>d \<leftarrow> cs. resident_bytes (sn_cells snapshot) (di_domain d) + outstanding_bytes (sn_cells snapshot) (di_domain d))"
    and "ru_released (group_values (map domain_row ds) input cs) = (\<Sum>d \<leftarrow> cs. release_of es (di_domain d))"
    and "ru_reserved (group_values (map domain_row ds) input cs) = (\<Sum>d \<leftarrow> cs. reserve_of es (di_domain d))"
proof -
  let ?rows = "map domain_row ds"
  note av = sum_row_values_available [OF assms(2) [unfolded group_values_def]]
  show "list_all (same_device_numbers input) cs" using av by blast
  have found: "\<forall>d \<in> set cs. first_key row_domain (di_domain d) ?rows \<noteq> None" using av by (simp add: lookups_def list_all_iff)
  define row where "row d = ?rows ! the (first_key row_domain (di_domain d) ?rows)" for d :: device_input
  have members: "map (\<lambda>m. ?rows ! m) (map the (filter (\<lambda>f. f \<noteq> None) (lookups ?rows cs))) = map row cs"
    using found by (auto simp: lookups_def row_def filter_map comp_def intro!: map_cong filter_True)
  have row: "fst (br_current_resident (row d)) = resident_bytes (sn_cells snapshot) (di_domain d) \<and>
      fst (br_before (row d)) = resident_bytes (sn_cells snapshot) (di_domain d) + outstanding_bytes (sn_cells snapshot) (di_domain d) \<and>
      fst (br_released (row d)) = release_of es (di_domain d) \<and> fst (br_reserved (row d)) = reserve_of es (di_domain d) \<and>
      (\<forall>cell \<in> set (sn_cells snapshot). counted (di_domain d) cell \<longrightarrow> cell_known cell)" if "d \<in> set cs" for d
  proof -
    from bspec [OF found that] obtain m where m0: "first_key row_domain (di_domain d) ?rows = Some m" by (elim not_None_eq [THEN iffD1, elim_format] exE)
    have bound: "m < length ds" "row_domain (?rows ! m) = di_domain d" using first_key_Some [OF m0] by (auto simp only: length_map)
    have m: "row d = domain_row (ds ! m)" using m0 bound(1) by (simp add: row_def)
    have dom: "dc_domain (ds ! m) = di_domain d" using bound by (simp add: domain_row_domain)
    have "row d \<in> set (map row cs)" using that by simp
    then have "snd (br_before (row d)) = Known" using av unfolding members by blast
    then show ?thesis using collected_row [of snapshot es "ds ! m"] assms(1) m dom bound(1) by simp
  qed
  show "\<forall>d \<in> set cs. \<forall>cell \<in> set (sn_cells snapshot). counted (di_domain d) cell \<longrightarrow> cell_known cell" using row by blast
  have eq: "(\<Sum>x \<leftarrow> map row cs. f x) = (\<Sum>d \<leftarrow> cs. f (row d))" for f :: "budget_row \<Rightarrow> nat" by (simp add: comp_def)
  have cong: "(\<And>d. d \<in> set cs \<Longrightarrow> f d = g d) \<Longrightarrow> (\<Sum>d \<leftarrow> cs. f d) = (\<Sum>d \<leftarrow> cs. g d)" for f g :: "device_input \<Rightarrow> nat"
    by (intro arg_cong [where f = sum_list] map_cong) auto
  show "ru_current_resident (group_values ?rows input cs) = (\<Sum>d \<leftarrow> cs. resident_bytes (sn_cells snapshot) (di_domain d))"
      "ru_before (group_values ?rows input cs) =
      (\<Sum>d \<leftarrow> cs. resident_bytes (sn_cells snapshot) (di_domain d) + outstanding_bytes (sn_cells snapshot) (di_domain d))"
      "ru_released (group_values ?rows input cs) = (\<Sum>d \<leftarrow> cs. release_of es (di_domain d))"
      "ru_reserved (group_values ?rows input cs) = (\<Sum>d \<leftarrow> cs. reserve_of es (di_domain d))"
    using av row unfolding group_values_def members eq by (auto intro!: cong)
qed

lemma device_ceiling_known:
  assumes "device_ceiling v input = (st, c)"
  shows "st \<noteq> Cap_unbounded \<and> (st = Cap_known \<longrightarrow>
    c + di_configured_compute_reserve input \<le> di_physical_free input + ru_current_resident v + di_current_compute_allocated input \<and>
    (di_cache_cap_state input = Cap_known \<longrightarrow> c \<le> di_configured_cache_cap input))"
  using assms
  by (auto simp: device_ceiling_def sub_checked_def add_checked_def bind_Some_iff split: if_splits option.splits)

lemma fits_groups:
  assumes "res_state (coordinator_fits plan (coordinator_reset snapshot config)) = Fit_fits"
  obtains ds rows groups where "collect_domains snapshot config plan = Some ds"
    "budget_groups config (map domain_row ds) = (rows, groups)" "\<forall>row \<in> set rows. fine row" "\<forall>row \<in> set groups. fine row"
proof -
  obtain ds where ds: "collect_domains snapshot config plan = Some ds"
    using assms by (auto simp: coordinator_fits_def coordinator_reset_def Let_def split: if_splits option.splits)
  obtain rows groups where g: "budget_groups config (map domain_row ds) = (rows, groups)" by fastforce
  have "fold (\<lambda>row st. combine_state st (br_state row)) groups
       (fold (\<lambda>row st. combine_state st (br_state row)) rows Fit_fits) = Fit_fits"
    using assms ds g by (auto simp: coordinator_fits_def coordinator_reset_def Let_def split: if_splits)
  from fold_combine_fine [OF this] have "\<forall>row \<in> set groups. fine row"
      "fold (\<lambda>row st. combine_state st (br_state row)) rows Fit_fits \<noteq> Fit_exceeds"
      "fold (\<lambda>row st. combine_state st (br_state row)) rows Fit_fits \<noteq> Fit_unavailable" by auto
  moreover have "st \<noteq> Fit_exceeds \<Longrightarrow> st \<noteq> Fit_unavailable \<Longrightarrow> \<forall>row \<in> set rows. fine row"
    if "st = fold (\<lambda>row st. combine_state st (br_state row)) rows s" for st s rows
    using that
  proof (induction rows arbitrary: st rule: rev_induct)
    case (snoc row rows)
    then show ?case using combine_fine [of "fold (\<lambda>row st. combine_state st (br_state row)) rows s" "br_state row"] by auto
  qed simp
  ultimately show thesis using that [OF ds g] by blast
qed

text \<open>The first input of a backend device stands for its group.\<close>

lemma first_of_device:
  assumes "dev \<in> set devices"
  obtains i where "i < length devices" "di_backend_device (devices ! i) = di_backend_device dev"
    "same_device (devices ! i) (take i devices) = []" "same_device (devices ! i) devices = same_device dev devices"
proof -
  let ?P = "\<lambda>i. i < length devices \<and> di_backend_device (devices ! i) = di_backend_device dev"
  have "\<exists>i. ?P i" using assms by (metis in_set_conv_nth)
  then obtain i where i: "?P i" and least: "\<And>j. j < i \<Longrightarrow> \<not> ?P j" using exists_least_iff [of ?P] by blast
  have "di_backend_device d \<noteq> di_backend_device (devices ! i)" if d: "d \<in> set (take i devices)" for d
  proof -
    obtain j where "j < i" "j < length devices" "d = devices ! j" using d by (auto simp: in_set_conv_nth)
    with least i show ?thesis by auto
  qed
  then have "same_device (devices ! i) (take i devices) = []" by (auto simp: same_device_def filter_empty_conv)
  moreover have "same_device (devices ! i) devices = same_device dev devices" using i by (simp add: same_device_def)
  ultimately show thesis using that i by blast
qed

definition on_device :: "budget_config \<Rightarrow> device_input \<Rightarrow> (acct_domain \<Rightarrow> nat) \<Rightarrow> nat" where
  "on_device config dev f = (\<Sum>d \<leftarrow> same_device dev (bc_devices config). f (di_domain d))"

text \<open>C34: a verdict that a plan fits is sound for every device. Summing the certified cells of all the
  domains bound to the device, the plan releases no more than is held, and what is held after the
  plan together with the configured compute reserve fits into what is free now plus what the cache
  and compute already occupy; it also respects the configured cache cap. No 64-bit sum has wrapped, and
  every counted cell was certified with known measures.\<close>

theorem budget_fits_devices:
  assumes "res_state (coordinator_fits plan (coordinator_reset snapshot config)) = Fit_fits" and "dev \<in> set (bc_devices config)"
    and "R = on_device config dev (resident_bytes (sn_cells snapshot))"
    and "H = R + on_device config dev (outstanding_bytes (sn_cells snapshot))"
    and "L = on_device config dev (release_of (bp_entries plan))" and "V = on_device config dev (reserve_of (bp_entries plan))"
  shows "L \<le> H \<and>
    H - L + V + di_configured_compute_reserve dev \<le> di_physical_free dev + R + di_current_compute_allocated dev \<and>
    (di_cache_cap_state dev = Cap_known \<longrightarrow> H - L + V \<le> di_configured_cache_cap dev) \<and>
    (\<forall>cell \<in> set (sn_cells snapshot). counted (di_domain dev) cell \<longrightarrow> cell_known cell)"
proof -
  let ?devs = "bc_devices config"
  obtain ds rows groups where c: "collect_domains snapshot config plan = Some ds"
      "budget_groups config (map domain_row ds) = (rows, groups)" "\<forall>row \<in> set groups. fine row"
    using fits_groups [OF assms(1)] by metis
  have ok: "\<forall>dc \<in> set ds. collected snapshot (bp_entries plan) dc" using collect_domains_ok [OF c(1)] by blast
  obtain i where i: "i < length ?devs" "same_device (?devs ! i) (take i ?devs) = []" "same_device (?devs ! i) ?devs = same_device dev ?devs"
    using first_of_device [OF assms(2)] by metis
  obtain r g where fold: "fold (device_group ?devs) [0..<length ?devs] (map domain_row ds, []) = (r, g)" by fastforce
  let ?in = "?devs ! i" and ?cs = "same_device dev ?devs"
  have "group_row (map domain_row ds) ?in (same_device ?in ?devs) \<in> set g"
    using device_groups [OF order_refl fold] i(1,2) by auto
  then have "group_row (map domain_row ds) ?in ?cs \<in> set g" unfolding i(3) .
  moreover have "set g \<subseteq> set groups" using c(2) fold by (auto simp: budget_groups_def Let_def)
  ultimately have fine: "fine (group_row (map domain_row ds) ?in ?cs)" using c(3) by blast
  define v where "v = group_values (map domain_row ds) ?in ?cs"
  obtain st cl where sc: "device_ceiling v ?in = (st, cl)" by fastforce
  have row: "ru_available v" "ru_released v \<le> ru_before v" "st = Cap_known \<and> ru_before v - ru_released v + ru_reserved v \<le> cl \<or> st = Cap_unbounded"
    using rollup_group_fine fine sc unfolding group_row_def v_def by (fastforce simp: Let_def)+
  note exact = group_values_exact [OF ok row(1) [unfolded v_def], folded v_def]
  have same: "same_device_numbers ?in dev" using exact(1) assms(2) by (simp add: list_all_iff same_device_def)
  have sums: "ru_current_resident v = R" "ru_before v = H" "ru_released v = L" "ru_reserved v = V"
    using exact(3-6) assms(3-6) by (simp_all add: on_device_def sum_list_addf)
  have "di_physical_free ?in = di_physical_free dev" "di_current_compute_allocated ?in = di_current_compute_allocated dev"
      "di_configured_compute_reserve ?in = di_configured_compute_reserve dev" "di_cache_cap_state ?in = di_cache_cap_state dev"
      "di_configured_cache_cap ?in = di_configured_cache_cap dev"
    using same by (simp_all add: same_device_numbers_def)
  moreover have "\<forall>cell \<in> set (sn_cells snapshot). counted (di_domain dev) cell \<longrightarrow> cell_known cell"
    using exact(2) assms(2) by (simp add: same_device_def)
  ultimately show ?thesis using device_ceiling_known [OF sc] row(2,3) unfolding sums by auto
qed

definition example_domain :: acct_domain where
  "example_domain = \<lparr> d_residency = Res_device, d_kind = Dom_device_topology, d_device_ordinal = 0, d_topology = 1 \<rparr>"

definition example_device :: device_input where
  "example_device = \<lparr> di_backend_device = 1, di_domain = example_domain, di_physical_total = 1000, di_physical_free = 800,
     di_phys_state = Cap_known, di_current_compute_allocated = 20, di_configured_compute_reserve = 30,
     di_reserve_provenance = Prov_configured, di_compute_state = Cap_known, di_configured_cache_cap = 150, di_cache_cap_state = Cap_known \<rparr>"

definition host_domain :: "acct_residency \<Rightarrow> acct_domain" where
  "host_domain r = no_domain\<lparr> d_residency := r \<rparr>"

definition example_config :: budget_config where
  "example_config = \<lparr> bc_devices = [example_device], bc_host = \<lparr> h_pageable_cap = 64, h_pageable_state = Cap_known,
     h_pinned_cap = 0, h_pinned_state = Cap_known, h_total_cap = 64, h_total_state = Cap_known \<rparr>,
     bc_administrative_global_cap = 0, bc_global_cap_state = Cap_unbounded \<rparr>"

definition example_snapshot :: acct_snapshot where
  "example_snapshot = \<lparr> sn_schema_version = 2, sn_serial = 5, sn_completeness_manifest = Known,
     sn_cells = [\<lparr> cr_category = Cat_live_attention_state, cr_domain = example_domain, cr_certification = Known,
       cr_resident_allocated = measured 100, cr_reserved = (0, Unknown) \<rparr>,
       \<lparr> cr_category = Cat_full_snapshot_payload, cr_domain = host_domain Res_pageable_host, cr_certification = Known,
       cr_resident_allocated = measured 40, cr_reserved = measured 8 \<rparr>],
     sn_completeness = [(example_domain, Known), (host_domain Res_pageable_host, Known)] \<rparr>"

definition example_plan :: budget_plan where
  "example_plan = \<lparr> bp_accounting_serial = 5, bp_entries =
     [\<lparr> pe_domain = example_domain, pe_reserve_bytes = 50, pe_release_bytes = 10 \<rparr>,
      \<lparr> pe_domain = host_domain Res_pageable_host, pe_reserve_bytes = 16, pe_release_bytes = 0 \<rparr>] \<rparr>"

text \<open>For evaluation: the bound as an integer.\<close>

lemma add_checked_int [code]: "add_checked a b = (if b \<noteq> 0 \<and> int a + int b > 2 ^ 64 - 1 then None else Some (a + b))"
proof -
  have "U64_MAXIMUM - a < b \<longleftrightarrow> 2 ^ 64 - 1 < int a + int b" if "a \<le> U64_MAXIMUM"
    using that by (simp add: U64_MAXIMUM_def) linarith
  then show ?thesis by (cases "a \<le> U64_MAXIMUM") (auto simp: add_checked_def U64_MAXIMUM_def)
qed

lemma example_fits: "res_state (coordinator_fits example_plan (coordinator_reset example_snapshot example_config)) = Fit_fits"
  by code_simp

theorem budget_fits_devices_witness:
  "on_device example_config example_device (release_of (bp_entries example_plan)) \<le>
   on_device example_config example_device (resident_bytes (sn_cells example_snapshot)) +
   on_device example_config example_device (outstanding_bytes (sn_cells example_snapshot))"
proof -
  have "example_device \<in> set (bc_devices example_config)" by (simp add: example_config_def)
  from budget_fits_devices [OF example_fits this refl refl refl refl] show ?thesis by (rule conjunct1)
qed

section \<open>The host\<close>

text \<open>A valid domain of a host residency is that residency's only one.\<close>

lemma host_domain_unique:
  "valid_domain_for_budget d \<Longrightarrow> d_residency d = r \<Longrightarrow> r \<noteq> Res_device \<Longrightarrow> d = host_domain r"
  by (cases d) (auto simp: valid_domain_for_budget_def llama_cache_acct_resource_domain_valid_def host_domain_def no_domain_def split: if_splits)

lemma valid_host_domain: "r = Res_pinned_host \<or> r = Res_pageable_host \<Longrightarrow> valid_domain_for_budget (host_domain r)"
  by (auto simp: valid_domain_for_budget_def llama_cache_acct_resource_domain_valid_def host_domain_def no_domain_def)

lemma filter_vals:
  "map vals rows = map vals rows' \<Longrightarrow> map vals (filter (\<lambda>row. rk_residency (br_resource row) = r) rows) =
    map vals (filter (\<lambda>row. rk_residency (br_resource row) = r) rows')"
proof (induction rows arbitrary: rows')
  case (Cons row rows)
  then obtain y ys where y: "rows' = y # ys" "vals row = vals y" "map vals rows = map vals ys" by (cases rows') auto
  then have "br_resource row = br_resource y" by (simp add: vals_def)
  then show ?case using Cons.IH [OF y(3)] y by simp
qed simp

lemma host_rows:
  assumes "distinct (map dc_domain ds)" and "\<forall>dc \<in> set ds. valid_domain_for_budget (dc_domain dc)" and "r \<noteq> Res_device"
  shows "filter (\<lambda>dc. d_residency (dc_domain dc) = r) ds = [] \<and> host_domain r \<notin> dc_domain ` set ds \<or>
    (\<exists>dc \<in> set ds. filter (\<lambda>dc. d_residency (dc_domain dc) = r) ds = [dc] \<and> dc_domain dc = host_domain r)"
proof -
  let ?fs = "filter (\<lambda>dc. d_residency (dc_domain dc) = r) ds"
  have names: "\<forall>dc \<in> set ?fs. dc_domain dc = host_domain r" using assms(2,3) host_domain_unique by auto
  have dist: "distinct (map dc_domain ?fs)" using assms(1) by (rule distinct_map_filter)
  show ?thesis
  proof (cases ?fs)
    case Nil
    have "d_residency (host_domain r) = r" by (simp add: host_domain_def)
    then have "host_domain r \<notin> dc_domain ` set ds" using Nil by (auto simp: filter_empty_conv)
    with Nil show ?thesis by blast
  next
    case (Cons dc rest)
    have n: "\<forall>x \<in> set (dc # rest). dc_domain x = host_domain r" and d: "distinct (map dc_domain (dc # rest))"
      using names dist unfolding Cons by blast+
    have "rest = []" using n d by (cases rest) simp_all
    with Cons have fs: "?fs = [dc]" by (simp only:)
    then have "dc \<in> set ?fs" by simp
    then have "dc \<in> set ds" by simp
    with fs n show ?thesis by (metis list.set_intros(1))
  qed
qed

text \<open>What the host group of a residency sums.\<close>

lemma host_values:
  assumes "collect_domains snapshot config plan = Some ds" and "map vals rows = map vals (map domain_row ds)"
    and "r = Res_pinned_host \<or> r = Res_pageable_host"
    and "v = sum_row_values (filter (\<lambda>row. rk_residency (br_resource row) = r) rows) True" and "ru_available v"
  shows "ru_before v = resident_bytes (sn_cells snapshot) (host_domain r) + outstanding_bytes (sn_cells snapshot) (host_domain r) \<and>
    ru_released v = release_of (bp_entries plan) (host_domain r) \<and> ru_reserved v = reserve_of (bp_entries plan) (host_domain r) \<and>
    (\<forall>cell \<in> set (sn_cells snapshot). counted (host_domain r) cell \<longrightarrow> cell_known cell)"
proof -
  note ok = collect_domains_ok [OF assms(1)] and valid = collect_domains_valid [OF assms(1)]
  have rd: "r \<noteq> Res_device" using assms(3) by auto
  have v: "v = sum_row_values (map domain_row (filter (\<lambda>dc. d_residency (dc_domain dc) = r) ds)) True"
    using sum_row_values_vals [OF filter_vals [OF assms(2)]] assms(4)
    by (simp add: filter_map comp_def domain_row_domain)
  from host_rows [of ds r] ok valid rd consider
      (none) "filter (\<lambda>dc. d_residency (dc_domain dc) = r) ds = []" "host_domain r \<notin> dc_domain ` set ds"
    | (one) dc where "dc \<in> set ds" "filter (\<lambda>dc. d_residency (dc_domain dc) = r) ds = [dc]" "dc_domain dc = host_domain r"
    by blast
  then show ?thesis
  proof cases
    case none
    have "cr_domain cell \<noteq> host_domain r" if "cell \<in> set (sn_cells snapshot)" for cell
      using ok that none(2) valid_host_domain [OF assms(3)] by metis
    then have "\<forall>cell \<in> set (sn_cells snapshot). \<not> counted (host_domain r) cell" by (auto simp: counted_def)
    moreover have "\<forall>e \<in> set (bp_entries plan). pe_domain e \<noteq> host_domain r" using valid none(2) by (metis imageI subsetD)
    ultimately have "resident_bytes (sn_cells snapshot) (host_domain r) = 0" "outstanding_bytes (sn_cells snapshot) (host_domain r) = 0"
        "release_of (bp_entries plan) (host_domain r) = 0" "reserve_of (bp_entries plan) (host_domain r) = 0"
      by (simp_all add: resident_bytes_def outstanding_bytes_def release_of_def reserve_of_def filter_empty_conv [THEN iffD2])
    then show ?thesis using none \<open>\<forall>cell \<in> set (sn_cells snapshot). \<not> counted (host_domain r) cell\<close>
      by (simp add: v sum_row_values_def)
  next
    case one
    have av: "ru_available (sum_row_values [domain_row dc] True)" using assms(5) one(2) by (simp add: v)
    from sum_row_values_available [OF av] have "snd (br_before (domain_row dc)) = Known" by simp
    from collected_row [OF _ this, of snapshot "bp_entries plan"] ok one(1,3) sum_row_values_available [OF av] show ?thesis
      by (simp add: v one(2))
  qed
qed

definition held :: "acct_snapshot \<Rightarrow> acct_domain \<Rightarrow> nat" where
  "held snapshot d = resident_bytes (sn_cells snapshot) d + outstanding_bytes (sn_cells snapshot) d"

lemma rollup_group_vals:
  assumes "fine (rollup_group key v st ceiling)"
  shows "vals (rollup_group key v st ceiling) =
    (key, measured (ru_current_resident v), measured (ru_before v), measured (ru_released v), measured (ru_reserved v))"
proof -
  have "ru_available v" using rollup_group_fine [OF assms] by blast
  then show ?thesis
    by (simp add: rollup_group_def) (simp add: vals_def populate_values_def set_ceiling_def empty_row_def Let_def split: option.split)
qed

text \<open>The verdict is sound for the host as well. For pinned and for pageable memory, the certified cells
  of that residency less what the plan releases plus what it reserves stay within its cap, no more
  is released than is held, and a shared host ceiling bounds the two together.\<close>

theorem budget_fits_host:
  assumes "res_state (coordinator_fits plan (coordinator_reset snapshot config)) = Fit_fits"
    and "pin = host_domain Res_pinned_host" and "page = host_domain Res_pageable_host" and "host = bc_host config"
  shows "release_of (bp_entries plan) pin \<le> held snapshot pin \<and> release_of (bp_entries plan) page \<le> held snapshot page \<and>
    (h_pinned_state host = Cap_known \<longrightarrow>
      held snapshot pin - release_of (bp_entries plan) pin + reserve_of (bp_entries plan) pin \<le> h_pinned_cap host) \<and>
    (h_pageable_state host = Cap_known \<longrightarrow>
      held snapshot page - release_of (bp_entries plan) page + reserve_of (bp_entries plan) page \<le> h_pageable_cap host) \<and>
    (h_total_state host = Cap_known \<longrightarrow>
      held snapshot pin - release_of (bp_entries plan) pin + reserve_of (bp_entries plan) pin +
      (held snapshot page - release_of (bp_entries plan) page + reserve_of (bp_entries plan) page) \<le> h_total_cap host) \<and>
    (\<forall>cell \<in> set (sn_cells snapshot). counted pin cell \<or> counted page cell \<longrightarrow> cell_known cell)"
proof -
  let ?devs = "bc_devices config"
  obtain ds rows groups where c: "collect_domains snapshot config plan = Some ds"
      "budget_groups config (map domain_row ds) = (rows, groups)" "\<forall>row \<in> set groups. fine row"
    using fits_groups [OF assms(1)] by metis
  obtain r g where fold: "fold (device_group ?devs) [0..<length ?devs] (map domain_row ds, []) = (r, g)" by fastforce
  have vals_r: "map vals r = map vals (map domain_row ds)" using device_groups [OF order_refl fold] by blast
  define v where "v q = sum_row_values (filter (\<lambda>row. rk_residency (br_resource row) = q) r) True" for q
  define gp where "gp = host_group Res_pinned_host (h_pinned_state host) (h_pinned_cap host) r"
  define gq where "gq = host_group Res_pageable_host (h_pageable_state host) (h_pageable_cap host) r"
  have groups: "gp \<in> set groups" "gq \<in> set groups" "set (total_group Rk_host_total (h_total_state host) (h_total_cap host) [gp, gq]) \<subseteq> set groups"
    using c(2) fold unfolding gp_def gq_def by (auto simp: budget_groups_def Let_def assms(4))
  have fine: "fine gp" "fine gq" using groups(1,2) c(3) by blast+
  have rows: "ru_available (v Res_pinned_host)" "ru_released (v Res_pinned_host) \<le> ru_before (v Res_pinned_host)"
      "h_pinned_state host = Cap_known \<longrightarrow> ru_before (v Res_pinned_host) - ru_released (v Res_pinned_host) + ru_reserved (v Res_pinned_host) \<le> h_pinned_cap host"
      "ru_available (v Res_pageable_host)" "ru_released (v Res_pageable_host) \<le> ru_before (v Res_pageable_host)"
      "h_pageable_state host = Cap_known \<longrightarrow> ru_before (v Res_pageable_host) - ru_released (v Res_pageable_host) + ru_reserved (v Res_pageable_host) \<le> h_pageable_cap host"
    using rollup_group_fine [OF fine(1) [unfolded gp_def host_group_def], folded v_def]
      rollup_group_fine [OF fine(2) [unfolded gq_def host_group_def], folded v_def] by auto
  have vals: "fst (br_before gp) = ru_before (v Res_pinned_host) \<and> fst (br_released gp) = ru_released (v Res_pinned_host) \<and>
      fst (br_reserved gp) = ru_reserved (v Res_pinned_host)"
      "fst (br_before gq) = ru_before (v Res_pageable_host) \<and> fst (br_released gq) = ru_released (v Res_pageable_host) \<and>
      fst (br_reserved gq) = ru_reserved (v Res_pageable_host)"
    using rollup_group_vals [OF fine(1) [unfolded gp_def host_group_def], folded v_def]
      rollup_group_vals [OF fine(2) [unfolded gq_def host_group_def], folded v_def]
    by (simp_all add: gp_def gq_def host_group_def v_def vals_def)
  note pin = host_values [OF c(1) vals_r _ refl, of Res_pinned_host, folded v_def, OF _ rows(1), folded held_def assms(2)]
  note page = host_values [OF c(1) vals_r _ refl, of Res_pageable_host, folded v_def, OF _ rows(4), folded held_def assms(3)]
  have total: "h_total_state host = Cap_known \<longrightarrow>
      ru_before (v Res_pinned_host) + ru_before (v Res_pageable_host) - (ru_released (v Res_pinned_host) + ru_released (v Res_pageable_host)) +
      (ru_reserved (v Res_pinned_host) + ru_reserved (v Res_pageable_host)) \<le> h_total_cap host"
  proof
    assume known: "h_total_state host = Cap_known"
    then obtain key where key: "rollup_group key (sum_row_values [gp, gq] True) Cap_known (h_total_cap host) \<in> set groups"
      using groups(3) by (auto simp: total_group_def)
    from rollup_group_fine [of key "sum_row_values [gp, gq] True" Cap_known "h_total_cap host"] c(3) key
    have a: "ru_available (sum_row_values [gp, gq] True)"
        "ru_before (sum_row_values [gp, gq] True) - ru_released (sum_row_values [gp, gq] True) + ru_reserved (sum_row_values [gp, gq] True) \<le> h_total_cap host"
      by auto
    from sum_row_values_available [OF a(1)] a(2) vals show "ru_before (v Res_pinned_host) + ru_before (v Res_pageable_host) -
      (ru_released (v Res_pinned_host) + ru_released (v Res_pageable_host)) +
      (ru_reserved (v Res_pinned_host) + ru_reserved (v Res_pageable_host)) \<le> h_total_cap host" by simp
  qed
  from pin page rows(2,3,5,6) total show ?thesis by auto
qed

theorem budget_fits_host_witness:
  "held example_snapshot (host_domain Res_pageable_host) - release_of (bp_entries example_plan) (host_domain Res_pageable_host) +
   reserve_of (bp_entries example_plan) (host_domain Res_pageable_host) \<le> 64"
proof -
  have host: "h_pageable_state (bc_host example_config) = Cap_known" "h_pageable_cap (bc_host example_config) = 64"
    by (simp_all add: example_config_def)
  from budget_fits_host [OF example_fits refl refl refl] host(1) show ?thesis unfolding host(2) by blast
qed

end
