(* ===== verification/Kv_Cache.thy ===== *)
theory Kv_Cache
  imports Kv_Cells Ownership_Index Vbr_Operation
begin

text \<open>
  The cell bookkeeping of \<open>llama_kv_cache\<close> (\<^verbatim>\<open>src/src/llama-kv-cache.cpp\<close>): the sequence edits
  \<open>clear\<close>, \<open>seq_rm\<close>, \<open>seq_cp\<close>, \<open>seq_keep\<close>, \<open>seq_add\<close> and \<open>seq_div\<close>, over the cell sets of its streams,
  the search heads and the ownership index. The calls it makes to the generation tracker are kept in
  order in \<open>kc_calls\<close>; the cache goes on in the same way whatever the tracker answers, and what the tracker makes of
  the calls (events that are empty because the scope was refused or the tracker latched, stamps that are skipped or
  refused) is \<^theory_text>\<open>Tracker_Replay\<close>. The mutation scopes, the device memory and the tensors are outside this state.
  \<open>None\<close> is a failed assertion or an access outside a vector.
\<close>

section \<open>Configuration and state\<close>

datatype swa_type = SWA_NONE | SWA_STANDARD | SWA_CHUNKED | SWA_SYMMETRIC

record cache_config =
  cc_n_seq_max :: nat
  cc_n_stream :: nat
  cc_n_swa :: nat
  cc_swa_type :: swa_type
  cc_other :: bool
  cc_armed :: bool
  cc_vmm_budget :: bool
  cc_text_mrope :: bool
  cc_n_pos_per_embd :: nat
  cc_stash_rows :: nat
  cc_ple_n_heads :: nat
  cc_ple_embd_token :: int

datatype stamp_kind = Stamp_dependency | Stamp_membership

datatype tracker_call =
    Gen_Begin mutation_registrant operation_class nat stamp_kind bool
  | Gen_Stamp mutation_registrant nat nat "int list" int
  | Gen_Global mutation_registrant operation_class

record kv_cache =
  kc_glob :: nat
  kc_cells :: "kv_cells list"
  kc_heads :: "nat list"
  kc_seq_to_stream :: "nat list"
  kc_stash_dirty :: bool
  kc_ownership :: "ownership_index option"
  kc_repr_epoch :: nat
  kc_ckpt_epoch :: nat
  kc_seq_epochs :: "nat list"
  kc_receipt :: bool
  kc_copies :: "(nat \<times> nat) list"
  kc_calls :: "tracker_call list"

definition LLAMA_POS_MAX :: int where "LLAMA_POS_MAX = 2 ^ 31 - 1"
definition EPOCH_MAX :: nat where "EPOCH_MAX = 2 ^ 64 - 1"

text \<open>
  Construction: every stream gets a cell set of \<open>kv_size\<close> cells; each resize draws two revisions.
  With one stream all sequences map to it, with several each sequence has its own.
\<close>

definition new_cache :: "cache_config \<Rightarrow> nat \<Rightarrow> kv_cache" where
  "new_cache K sz =
    (let n = cc_n_stream K; nseq = (if n > 1 then n else LLAMA_MAX_SEQ) in
     \<lparr> kc_glob = 2 * n, kc_cells = map (\<lambda>s. kv_resize sz (kv_fresh (2 * s))) [0..<n],
       kc_heads = replicate n 0,
       kc_seq_to_stream = (if n > 1 then [0..<n] else replicate LLAMA_MAX_SEQ 0),
       kc_stash_dirty = False,
       kc_ownership = (if cc_armed K then Some (new_ownership_index n nseq sz 0) else None),
       kc_repr_epoch = 0, kc_ckpt_epoch = 0, kc_seq_epochs = replicate LLAMA_MAX_SEQ 0,
       kc_receipt = False, kc_copies = [], kc_calls = [] \<rparr>)"

section \<open>Access to a stream, the index and the tracker\<close>

text \<open>The revision counter is one per process: a stream draws from the counter of the cache.\<close>

definition stream_cells :: "nat \<Rightarrow> kv_cache \<Rightarrow> kv_cells" where
  "stream_cells s x = (kc_cells x ! s)\<lparr> kv_glob := kc_glob x \<rparr>"

definition put_cells :: "nat \<Rightarrow> kv_cells \<Rightarrow> kv_cache \<Rightarrow> kv_cache" where
  "put_cells s c x = x\<lparr> kc_cells := (kc_cells x)[s := c], kc_glob := kv_glob c \<rparr>"

definition on_cells :: "nat \<Rightarrow> (kv_cells \<Rightarrow> kv_cells option) \<Rightarrow> kv_cache \<Rightarrow> kv_cache option" where
  "on_cells s f x = do {
     assertion (s < length (kc_cells x));
     c \<leftarrow> f (stream_cells s x);
     Some (put_cells s c x) }"

definition on_cells_flag :: "nat \<Rightarrow> (kv_cells \<Rightarrow> (bool \<times> kv_cells) option) \<Rightarrow> kv_cache \<Rightarrow> (bool \<times> kv_cache) option" where
  "on_cells_flag s f x = do {
     assertion (s < length (kc_cells x));
     (b, c) \<leftarrow> f (stream_cells s x);
     Some (b, put_cells s c x) }"

definition index_op :: "own_op \<Rightarrow> kv_cache \<Rightarrow> kv_cache option" where
  "index_op op x = (case kc_ownership x of None \<Rightarrow> Some x
     | Some ix \<Rightarrow> map_option (\<lambda>ix'. x\<lparr> kc_ownership := Some ix' \<rparr>) (own_exec op ix))"

text \<open>The record of a call. With an empty event the code does not call the tracker at all; \<open>replay\<close> skips that stamp.\<close>

definition tracker :: "cache_config \<Rightarrow> tracker_call \<Rightarrow> kv_cache \<Rightarrow> kv_cache" where
  "tracker K t x = (if cc_armed K then x\<lparr> kc_calls := kc_calls x @ [t] \<rparr> else x)"

definition tracker_if :: "bool \<Rightarrow> cache_config \<Rightarrow> tracker_call \<Rightarrow> kv_cache \<Rightarrow> kv_cache" where
  "tracker_if b K t x = (if b then tracker K t x else x)"

definition stash_touch :: "cache_config \<Rightarrow> nat \<Rightarrow> kv_cache \<Rightarrow> kv_cache" where
  "stash_touch K i x = (if i < cc_stash_rows K then x\<lparr> kc_stash_dirty := True \<rparr> else x)"

definition seq_stream :: "kv_cache \<Rightarrow> int \<Rightarrow> nat option" where
  "seq_stream x sq =
    (if 0 \<le> sq \<and> nat sq < length (kc_seq_to_stream x) then Some (kc_seq_to_stream x ! nat sq) else None)"

definition set_head :: "nat \<Rightarrow> nat \<Rightarrow> kv_cache \<Rightarrow> kv_cache" where
  "set_head s h x = x\<lparr> kc_heads := (kc_heads x)[s := h] \<rparr>"

text \<open>Move the head of a stream back to the first cell an edit freed, if it freed one.\<close>

definition lower_head :: "nat \<Rightarrow> nat \<Rightarrow> nat \<Rightarrow> kv_cache \<Rightarrow> kv_cache" where
  "lower_head s sz new_head x =
    (if new_head \<noteq> sz \<and> new_head < kc_heads x ! s then set_head s new_head x else x)"

text \<open>\<open>vbr_attention_content_changed\<close> for a set of sequences.\<close>

definition content_changed :: "cache_config \<Rightarrow> nat set \<Rightarrow> kv_cache \<Rightarrow> kv_cache option" where
  "content_changed K affected x =
    (if \<not> cc_vmm_budget K then Some x
     else do {
       assertion (kc_repr_epoch x \<noteq> EPOCH_MAX);
       assertion (kc_ckpt_epoch x \<noteq> EPOCH_MAX);
       let e = kc_ckpt_epoch x + 1;
       Some (x\<lparr> kc_repr_epoch := kc_repr_epoch x + 1, kc_ckpt_epoch := e,
         kc_seq_epochs := map (\<lambda>(q, v). if q \<in> affected then e else v)
           (zip [0..<length (kc_seq_epochs x)] (kc_seq_epochs x)) \<rparr>) })"

definition content_changed_all :: "cache_config \<Rightarrow> kv_cache \<Rightarrow> kv_cache option" where
  "content_changed_all K x = content_changed K {..<LLAMA_MAX_SEQ} x"

definition content_changed_seq :: "cache_config \<Rightarrow> int \<Rightarrow> kv_cache \<Rightarrow> kv_cache option" where
  "content_changed_seq K sq x = do {
     assertion (0 \<le> sq \<and> sq < int LLAMA_MAX_SEQ);
     content_changed K {nat sq} x }"

definition receipts_release :: "kv_cache \<Rightarrow> kv_cache" where
  "receipts_release x = x\<lparr> kc_receipt := False \<rparr>"

definition receipts_release_if_empty :: "kv_cache \<Rightarrow> kv_cache" where
  "receipts_release_if_empty x =
    (if kc_receipt x \<and> list_all (\<lambda>c. get_used c = 0) (kc_cells x) then receipts_release x else x)"

definition normalize_edit_range :: "int \<Rightarrow> int \<Rightarrow> int \<times> int" where
  "normalize_edit_range p0 p1 = (if p0 < 0 then 0 else p0, if p1 < 0 then LLAMA_POS_MAX else p1)"

text \<open>\<open>vbr_ownership_update_all_seqs\<close> with \<open>add = false\<close>; \<open>exclude\<close> is \<open>-1\<close> for none.\<close>

definition unindex_all_seqs :: "nat \<Rightarrow> nat \<Rightarrow> int \<Rightarrow> int \<Rightarrow> kv_cache \<Rightarrow> kv_cache option" where
  "unindex_all_seqs s i p exclude x =
    (if kc_ownership x = None then Some x
     else do {
       assertion (s < length (kc_cells x));
       seqs \<leftarrow> seq_for_each i (stream_cells s x);
       foldM (\<lambda>q. if int q = exclude then Some else index_op (Remove_Cell s (int q) i p)) seqs x })"

section \<open>\<open>clear\<close>\<close>

definition clear_stream :: "nat \<Rightarrow> kv_cache \<Rightarrow> kv_cache option" where
  "clear_stream s x = do {
     x1 \<leftarrow> on_cells s (\<lambda>c. Some (kv_reset c)) x;
     Some (set_head s 0 x1) }"

definition cache_clear :: "cache_config \<Rightarrow> kv_cache \<Rightarrow> kv_cache option" where
  "cache_clear K x = do {
     x1 \<leftarrow> foldM clear_stream [0..<cc_n_stream K] x;
     x2 \<leftarrow> content_changed_all K x1;
     x3 \<leftarrow> index_op Clear_All (tracker K (Gen_Global Reg_clear Cls_state_api) x2);
     Some (receipts_release x3) }"

section \<open>\<open>seq_rm\<close>\<close>

datatype seq_rm_mode = Public_Commit | Nested_Commit | Dry_Run

text \<open>One round of the loop over the cells; the state carries \<open>new_head\<close> and \<open>changed\<close>.\<close>

definition seq_rm_cell :: "cache_config \<Rightarrow> bool \<Rightarrow> nat \<Rightarrow> nat \<Rightarrow> int \<Rightarrow> int \<Rightarrow> nat \<Rightarrow>
    kv_cache \<times> nat \<times> bool \<Rightarrow> (kv_cache \<times> nat \<times> bool) option" where
  "seq_rm_cell K commit s q p0 p1 i = (\<lambda>(x, new_head, changed). do {
     inside \<leftarrow> pos_in i p0 p1 (stream_cells s x);
     member \<leftarrow> (if inside then seq_has i q (stream_cells s x) else Some False);
     if \<not> member then Some (x, new_head, changed)
     else do {
       rm_pos \<leftarrow> pos_get i (stream_cells s x);
       (became_empty, x1) \<leftarrow> on_cells_flag s (kv_seq_rm i q) x;
       x2 \<leftarrow> (if commit then index_op (Remove_Cell s (int q) i rm_pos) x1 else Some x1);
       let x3 = tracker_if commit K (Gen_Stamp Reg_seq_rm s i [int q] rm_pos) x2;
       if \<not> became_empty then Some (x3, new_head, True)
       else Some (stash_touch K i x3, if new_head = kv_size (stream_cells s x) then i else new_head, True) } })"

definition seq_rm_one :: "cache_config \<Rightarrow> bool \<Rightarrow> int \<Rightarrow> int \<Rightarrow> int \<Rightarrow> kv_cache \<Rightarrow> (bool \<times> kv_cache) option" where
  "seq_rm_one K commit sq p0 p1 x = do {
     s \<leftarrow> seq_stream x sq;
     assertion (s < length (kc_cells x) \<and> s < length (kc_heads x));
     let sz = kv_size (kc_cells x ! s);
     let x0 = tracker_if commit K (Gen_Begin Reg_seq_rm Cls_state_api s Stamp_membership False) x;
     (x1, new_head, changed) \<leftarrow> foldM (seq_rm_cell K commit s (nat sq) p0 p1) [0..<sz] (x0, sz, False);
     let x2 = lower_head s sz new_head x1;
     x3 \<leftarrow> (if commit \<and> kc_ownership x2 \<noteq> None then do {
         least \<leftarrow> seq_pos_min (nat sq) (stream_cells s x2);
         if least < 0 then index_op (Clear_Seq s sq) x2 else Some x2 }
       else Some x2);
     Some (changed, x3) }"

definition rm_any_cell :: "cache_config \<Rightarrow> bool \<Rightarrow> nat \<Rightarrow> int \<Rightarrow> int \<Rightarrow> nat \<Rightarrow>
    kv_cache \<times> nat \<times> bool \<Rightarrow> (kv_cache \<times> nat \<times> bool) option" where
  "rm_any_cell K commit s p0 p1 i = (\<lambda>(x, new_head, changed). do {
     inside \<leftarrow> pos_in i p0 p1 (stream_cells s x);
     if \<not> inside then Some (x, new_head, changed)
     else do {
       empty \<leftarrow> is_empty i (stream_cells s x);
       rm_pos \<leftarrow> (if empty then Some (-1) else pos_get i (stream_cells s x));
       x1 \<leftarrow> (if \<not> empty \<and> commit then unindex_all_seqs s i rm_pos (-1) x else Some x);
       x2 \<leftarrow> on_cells s (kv_rm i) x1;
       let x3 = tracker_if (commit \<and> \<not> empty) K (Gen_Stamp Reg_seq_rm s i [-1] rm_pos) x2;
       Some (stash_touch K i x3, if new_head = kv_size (stream_cells s x) then i else new_head,
         changed \<or> \<not> empty) } })"

definition rm_any_stream :: "cache_config \<Rightarrow> bool \<Rightarrow> int \<Rightarrow> int \<Rightarrow> nat \<Rightarrow> bool \<times> kv_cache \<Rightarrow> (bool \<times> kv_cache) option" where
  "rm_any_stream K commit p0 p1 s = (\<lambda>(changed, x). do {
     assertion (s < length (kc_cells x) \<and> s < length (kc_heads x));
     let sz = kv_size (kc_cells x ! s);
     let x0 = tracker_if commit K (Gen_Begin Reg_seq_rm Cls_state_api s Stamp_membership False) x;
     (x1, new_head, changed') \<leftarrow> foldM (rm_any_cell K commit s p0 p1) [0..<sz] (x0, sz, changed);
     Some (changed', lower_head s sz new_head x1) })"

definition seq_rm_impl :: "cache_config \<Rightarrow> int \<Rightarrow> int \<Rightarrow> int \<Rightarrow> seq_rm_mode \<Rightarrow> kv_cache \<Rightarrow> (bool \<times> kv_cache) option" where
  "seq_rm_impl K sq p0 p1 mode x =
    (if cc_other K then Some (True, x)
     else do {
       assertion (sq = -1 \<or> (sq \<ge> 0 \<and> nat sq < length (kc_seq_to_stream x)));
       let (p0, p1) = normalize_edit_range p0 p1;
       let commit = (mode \<noteq> Dry_Run);
       (changed, x1) \<leftarrow> (if sq \<ge> 0 then seq_rm_one K commit sq p0 p1 x
          else foldM (rm_any_stream K commit p0 p1) [0..<cc_n_stream K] (False, x));
       x2 \<leftarrow> (if mode = Public_Commit \<and> changed
          then (if sq \<ge> 0 then content_changed_seq K sq x1 else content_changed_all K x1)
          else Some x1);
       Some (True, if commit then receipts_release_if_empty x2 else x2) })"

definition seq_rm :: "cache_config \<Rightarrow> int \<Rightarrow> int \<Rightarrow> int \<Rightarrow> kv_cache \<Rightarrow> (bool \<times> kv_cache) option" where
  "seq_rm K sq p0 p1 x = seq_rm_impl K sq p0 p1 Public_Commit x"

definition seq_rm_transient :: "cache_config \<Rightarrow> int \<Rightarrow> int \<Rightarrow> int \<Rightarrow> kv_cache \<Rightarrow> (bool \<times> kv_cache) option" where
  "seq_rm_transient K sq p0 p1 x = seq_rm_impl K sq p0 p1 Nested_Commit x"

section \<open>\<open>seq_cp\<close>\<close>

definition seq_cp_cell :: "cache_config \<Rightarrow> nat \<Rightarrow> nat \<Rightarrow> nat \<Rightarrow> int \<Rightarrow> int \<Rightarrow> nat \<Rightarrow>
    kv_cache \<times> bool \<Rightarrow> (kv_cache \<times> bool) option" where
  "seq_cp_cell K s src dst p0 p1 i = (\<lambda>(x, changed). do {
     inside \<leftarrow> pos_in i p0 p1 (stream_cells s x);
     has_src \<leftarrow> (if inside then seq_has i src (stream_cells s x) else Some False);
     has_dst \<leftarrow> (if has_src then seq_has i dst (stream_cells s x) else Some False);
     if \<not> (has_src \<and> \<not> has_dst) then Some (x, changed)
     else do {
       x1 \<leftarrow> on_cells s (kv_seq_add i dst) x;
       cp_pos \<leftarrow> pos_get i (stream_cells s x1);
       x2 \<leftarrow> index_op (Add_Cell s (int dst) i cp_pos) x1;
       Some (tracker K (Gen_Stamp Reg_seq_cp s i [int dst] cp_pos) x2, True) } })"

definition stamp_occupied :: "cache_config \<Rightarrow> nat \<Rightarrow> nat \<Rightarrow> kv_cache \<times> bool \<Rightarrow> (kv_cache \<times> bool) option" where
  "stamp_occupied K s i = (\<lambda>(x, changed). do {
     empty \<leftarrow> is_empty i (stream_cells s x);
     Some (if empty then (x, changed) else (tracker K (Gen_Stamp Reg_seq_cp s i [-1] (-1)) x, True)) })"

text \<open>One cell of a copy between streams: the position before the pending shift, then the shift.\<close>

definition copy_cell :: "cache_config \<Rightarrow> nat \<Rightarrow> nat \<Rightarrow> nat \<Rightarrow> nat \<Rightarrow> nat \<Rightarrow>
    kv_cache \<times> bool \<Rightarrow> (kv_cache \<times> bool) option" where
  "copy_cell K s0 s1 src dst i = (\<lambda>(x, changed). do {
     has \<leftarrow> seq_has i src (stream_cells s0 x);
     if \<not> has then Some (x, changed)
     else do {
       pos \<leftarrow> pos_get i (stream_cells s0 x);
       shift \<leftarrow> get_shift i (stream_cells s0 x);
       ext \<leftarrow> ext_get i (stream_cells s0 x);
       pos' \<leftarrow> (if shift \<noteq> 0 then do { assertion (pos - shift \<ge> 0); Some (pos - shift) } else Some pos);
       x1 \<leftarrow> on_cells s1 (kv_pos_set i pos') x;
       x2 \<leftarrow> on_cells s1 (kv_seq_add i dst) x1;
       x3 \<leftarrow> (if shift \<noteq> 0 then map_option snd (on_cells_flag s1 (kv_pos_add i shift) x2) else Some x2);
       x4 \<leftarrow> on_cells s1 (kv_ext_set i ext) x3;
       Some (tracker K (Gen_Stamp Reg_seq_cp s1 i [int dst] (-1)) x4, True) } })"

definition get_size :: "kv_cache \<Rightarrow> nat" where
  "get_size x = kv_size (kc_cells x ! (kc_seq_to_stream x ! 0))"

definition seq_cp_streams :: "cache_config \<Rightarrow> nat \<Rightarrow> nat \<Rightarrow> int \<Rightarrow> int \<Rightarrow> int \<Rightarrow> int \<Rightarrow> kv_cache \<Rightarrow> (bool \<times> kv_cache) option" where
  "seq_cp_streams K s0 s1 src dst p0 p1 x = do {
     assertion (\<not> cc_armed K);
     assertion (\<not> (p0 > 0 \<and> p0 < int (get_size x) - 1));
     assertion (\<not> (p1 > 0 \<and> p1 < int (get_size x) - 1));
     let x0 = tracker K (Gen_Begin Reg_seq_cp Cls_state_api s1 Stamp_membership False)
                (x\<lparr> kc_copies := kc_copies x @ [(s0, s1)] \<rparr>);
     assertion (s0 < length (kc_cells x) \<and> s1 < length (kc_cells x) \<and> s0 < length (kc_heads x) \<and> s1 < length (kc_heads x));
     (x1, changed1) \<leftarrow> foldM (stamp_occupied K s1) [0..<kv_size (kc_cells x ! s1)] (x0, False);
     x2 \<leftarrow> on_cells s1 (\<lambda>c. Some (kv_reset c)) x1;
     let x3 = tracker K (Gen_Begin Reg_seq_cp Cls_state_api s1 Stamp_dependency True) x2;
     (x4, changed2) \<leftarrow> foldM (copy_cell K s0 s1 (nat src) (nat dst)) [0..<kv_size (kc_cells x ! s0)] (x3, changed1);
     Some (changed2, set_head s1 (kc_heads x4 ! s0) x4) }"

definition seq_cp_impl :: "cache_config \<Rightarrow> int \<Rightarrow> int \<Rightarrow> int \<Rightarrow> int \<Rightarrow> bool \<Rightarrow> kv_cache \<Rightarrow> kv_cache option" where
  "seq_cp_impl K src dst p0 p1 publish x =
    (if cc_other K then Some x
     else do {
       s0 \<leftarrow> seq_stream x src;
       s1 \<leftarrow> seq_stream x dst;
       let (p0, p1) = normalize_edit_range p0 p1;
       if s0 = s1 then do {
         assertion (s0 < length (kc_cells x));
         let x0 = tracker K (Gen_Begin Reg_seq_cp Cls_state_api s0 Stamp_membership False) x;
         if src = dst then Some x0
         else do {
           (x1, changed) \<leftarrow> foldM (seq_cp_cell K s0 (nat src) (nat dst) p0 p1) [0..<kv_size (kc_cells x ! s0)] (x0, False);
           if publish \<and> changed then content_changed_seq K dst x1 else Some x1 } }
       else do {
         (changed, x1) \<leftarrow> seq_cp_streams K s0 s1 src dst p0 p1 x;
         if publish \<and> changed then content_changed_seq K dst x1 else Some x1 } })"

definition seq_cp :: "cache_config \<Rightarrow> int \<Rightarrow> int \<Rightarrow> int \<Rightarrow> int \<Rightarrow> kv_cache \<Rightarrow> kv_cache option" where
  "seq_cp K src dst p0 p1 x = seq_cp_impl K src dst p0 p1 True x"

definition try_seq_cp_transient :: "cache_config \<Rightarrow> int \<Rightarrow> int \<Rightarrow> int \<Rightarrow> int \<Rightarrow> kv_cache \<Rightarrow> (bool \<times> kv_cache) option" where
  "try_seq_cp_transient K src dst p0 p1 x = map_option (Pair True) (seq_cp_impl K src dst p0 p1 False x)"

section \<open>\<open>seq_keep\<close>\<close>

definition seq_keep_cell :: "cache_config \<Rightarrow> nat \<Rightarrow> nat \<Rightarrow> nat \<Rightarrow>
    kv_cache \<times> nat \<times> bool \<times> nat set \<Rightarrow> (kv_cache \<times> nat \<times> bool \<times> nat set) option" where
  "seq_keep_cell K s q i = (\<lambda>(x, new_head, changed_any, affected). do {
     empty \<leftarrow> is_empty i (stream_cells s x);
     has \<leftarrow> (if empty then Some False else seq_has i q (stream_cells s x));
     many \<leftarrow> (if has then map_option (\<lambda>n. n > 1) (seq_count i (stream_cells s x)) else Some False);
     let changed = (\<not> empty \<and> (\<not> has \<or> many));
     removed \<leftarrow> (if changed then map_option (\<lambda>qs. set qs - {q}) (seq_for_each i (stream_cells s x)) else Some {});
     x1 \<leftarrow> (if changed then do {
         p \<leftarrow> pos_get i (stream_cells s x);
         unindex_all_seqs s i p (int q) x } else Some x);
     (freed, x2) \<leftarrow> on_cells_flag s (kv_seq_keep i q) x1;
     let x3 = (if freed then stash_touch K i x2 else x2);
     let new_head' = (if freed \<and> new_head = kv_size (stream_cells s x) then i else new_head);
     empty' \<leftarrow> is_empty i (stream_cells s x3);
     p' \<leftarrow> (if changed \<and> \<not> empty' then pos_get i (stream_cells s x3) else Some (-1));
     let x4 = tracker_if changed K (Gen_Stamp Reg_seq_keep s i [if empty' then -1 else int q] p') x3;
     Some (x4, new_head', changed_any \<or> changed, affected \<union> removed) })"

definition seq_keep :: "cache_config \<Rightarrow> int \<Rightarrow> kv_cache \<Rightarrow> kv_cache option" where
  "seq_keep K sq x =
    (if cc_other K then Some x
     else do {
       s \<leftarrow> seq_stream x sq;
       assertion (s < length (kc_cells x) \<and> s < length (kc_heads x));
       let sz = kv_size (kc_cells x ! s);
       let x0 = tracker K (Gen_Begin Reg_seq_keep Cls_state_api s Stamp_membership False) x;
       (x1, new_head, changed_any, affected) \<leftarrow> foldM (seq_keep_cell K s (nat sq)) [0..<sz] (x0, sz, False, {});
       let x2 = lower_head s sz new_head x1;
       if changed_any then content_changed K affected x2 else Some x2 })"

section \<open>\<open>seq_add\<close> and \<open>seq_div\<close>\<close>

definition can_shift_qwen4_text_range :: "cache_config \<Rightarrow> int \<Rightarrow> int \<Rightarrow> int \<Rightarrow> kv_cache \<Rightarrow> bool" where
  "can_shift_qwen4_text_range K sq p0 p1 x \<longleftrightarrow>
     cc_text_mrope K \<and>
     (case seq_stream x sq of None \<Rightarrow> False
      | Some s \<Rightarrow>
         let (p0, p1) = normalize_edit_range p0 p1; c = stream_cells s x in
         list_all (\<lambda>i. kv_pos c ! i \<ge> p0 \<and> kv_pos c ! i < p1 \<and> nat sq \<in> kv_seq c ! i \<longrightarrow>
            ext_x (kv_ext c ! i) = kv_pos c ! i \<and> ext_y (kv_ext c ! i) = kv_pos c ! i) [0..<kv_size c])"

definition seq_add_cell :: "cache_config \<Rightarrow> bool \<Rightarrow> nat \<Rightarrow> nat \<Rightarrow> int \<Rightarrow> int \<Rightarrow> int \<Rightarrow> nat \<Rightarrow>
    kv_cache \<times> nat \<times> bool \<Rightarrow> (kv_cache \<times> nat \<times> bool) option" where
  "seq_add_cell K raw_keys s q p0 p1 d i = (\<lambda>(x, new_head, changed). do {
     inside \<leftarrow> pos_in i p0 p1 (stream_cells s x);
     member \<leftarrow> (if inside then seq_has i q (stream_cells s x) else Some False);
     if \<not> member then Some (x, new_head, changed)
     else do {
       old_pos \<leftarrow> pos_get i (stream_cells s x);
       (removed, x1) \<leftarrow> on_cells_flag s
          (if cc_text_mrope K then (if raw_keys then kv_pos_add_mrope_text_raw i d else kv_pos_add_mrope_text i d)
           else kv_pos_add i d) x;
       x2 \<leftarrow> index_op (if removed then Remove_Cell s (int q) i old_pos
                       else Move_Cell s (int q) i old_pos (old_pos + d)) x1;
       let new_head' = (if removed \<and> new_head = kv_size (stream_cells s x) then i else new_head);
       Some (tracker K (Gen_Stamp Reg_seq_add s i [int q] old_pos) x2, new_head', True) } })"

definition seq_add_impl :: "cache_config \<Rightarrow> int \<Rightarrow> int \<Rightarrow> int \<Rightarrow> int \<Rightarrow> bool \<Rightarrow> kv_cache \<Rightarrow> kv_cache option" where
  "seq_add_impl K sq p0 p1 d raw_keys x =
    (if cc_other K then Some x
     else do {
       s \<leftarrow> seq_stream x sq;
       assertion (cc_n_pos_per_embd K = 1 \<or> cc_text_mrope K);
       assertion (\<not> raw_keys \<or> cc_text_mrope K);
       assertion (\<not> cc_text_mrope K \<or> can_shift_qwen4_text_range K sq p0 p1 x);
       assertion (s < length (kc_cells x) \<and> s < length (kc_heads x));
       let (p0, p1) = normalize_edit_range p0 p1;
       let x0 = tracker K (Gen_Begin Reg_seq_add Cls_state_api s Stamp_dependency True) x;
       if d = 0 \<or> p0 = p1 then Some x0
       else do {
         let sz = kv_size (kc_cells x ! s);
         (x1, new_head, changed) \<leftarrow> foldM (seq_add_cell K raw_keys s (nat sq) p0 p1 d) [0..<sz] (x0, sz, False);
         let x2 = set_head s (if new_head \<noteq> sz then new_head else 0) x1;
         if changed then content_changed_seq K sq x2 else Some x2 } })"

definition seq_add :: "cache_config \<Rightarrow> int \<Rightarrow> int \<Rightarrow> int \<Rightarrow> int \<Rightarrow> kv_cache \<Rightarrow> kv_cache option" where
  "seq_add K sq p0 p1 d x = seq_add_impl K sq p0 p1 d False x"

definition seq_add_raw_mrope :: "cache_config \<Rightarrow> int \<Rightarrow> int \<Rightarrow> int \<Rightarrow> int \<Rightarrow> kv_cache \<Rightarrow> kv_cache option" where
  "seq_add_raw_mrope K sq p0 p1 d x = do {
     assertion (cc_text_mrope K);
     seq_add_impl K sq p0 p1 d True x }"

definition seq_div_cell :: "cache_config \<Rightarrow> nat \<Rightarrow> nat \<Rightarrow> int \<Rightarrow> int \<Rightarrow> int \<Rightarrow> nat \<Rightarrow>
    kv_cache \<times> bool \<Rightarrow> (kv_cache \<times> bool) option" where
  "seq_div_cell K s q p0 p1 d i = (\<lambda>(x, changed). do {
     inside \<leftarrow> pos_in i p0 p1 (stream_cells s x);
     member \<leftarrow> (if inside then seq_has i q (stream_cells s x) else Some False);
     if \<not> member then Some (x, changed)
     else do {
       old_pos \<leftarrow> pos_get i (stream_cells s x);
       x1 \<leftarrow> on_cells s (kv_pos_div i d) x;
       new_pos \<leftarrow> pos_get i (stream_cells s x1);
       x2 \<leftarrow> index_op (Move_Cell s (int q) i old_pos new_pos) x1;
       Some (tracker K (Gen_Stamp Reg_seq_div s i [int q] old_pos) x2, changed \<or> new_pos \<noteq> old_pos) } })"

definition seq_div :: "cache_config \<Rightarrow> int \<Rightarrow> int \<Rightarrow> int \<Rightarrow> int \<Rightarrow> kv_cache \<Rightarrow> kv_cache option" where
  "seq_div K sq p0 p1 d x =
    (if cc_other K then Some x
     else do {
       s \<leftarrow> seq_stream x sq;
       assertion (cc_n_pos_per_embd K = 1);
       assertion (s < length (kc_cells x));
       let (p0, p1) = normalize_edit_range p0 p1;
       let x0 = tracker K (Gen_Begin Reg_seq_div Cls_state_api s Stamp_dependency True) x;
       if d = 1 \<or> p0 = p1 then Some x0
       else do {
         (x1, changed) \<leftarrow> foldM (seq_div_cell K s (nat sq) p0 p1 d) [0..<kv_size (kc_cells x ! s)] (x0, False);
         if changed then content_changed_seq K sq x1 else Some x1 } })"

section \<open>Queries and prefix sharing\<close>

text \<open>A cache that shares the cells of another one asks that one (\<open>other\<close>).\<close>

definition cache_pos_min :: "(int \<Rightarrow> int option) option \<Rightarrow> int \<Rightarrow> kv_cache \<Rightarrow> int option" where
  "cache_pos_min other sq x = (case other of Some f \<Rightarrow> f sq
     | None \<Rightarrow> do { s \<leftarrow> seq_stream x sq; seq_pos_min (nat sq) (stream_cells s x) })"

definition cache_pos_max :: "(int \<Rightarrow> int option) option \<Rightarrow> int \<Rightarrow> kv_cache \<Rightarrow> int option" where
  "cache_pos_max other sq x = (case other of Some f \<Rightarrow> f sq
     | None \<Rightarrow> do { s \<leftarrow> seq_stream x sq; seq_pos_max (nat sq) (stream_cells s x) })"

definition get_has_shift :: "cache_config \<Rightarrow> kv_cache \<Rightarrow> bool" where
  "get_has_shift K x \<longleftrightarrow> list_ex (\<lambda>s. kv_has_shift (kc_cells x ! s)) [0..<cc_n_stream K]"

definition can_share_destination :: "cache_config \<Rightarrow> int \<Rightarrow> int \<Rightarrow> kv_cache \<Rightarrow> bool option" where
  "can_share_destination K src dst x =
    (if cc_other K \<or> cc_n_stream K \<noteq> 1 \<or> src = dst \<or> src < 0 \<or> dst < 0 \<or>
        nat src \<ge> cc_n_seq_max K \<or> nat dst \<ge> cc_n_seq_max K \<or>
        nat src \<ge> length (kc_seq_to_stream x) \<or> nat dst \<ge> length (kc_seq_to_stream x)
     then Some False
     else if kv_has_shift (kc_cells x ! 0) then Some False
     else map_option (\<lambda>p. p = -1) (seq_pos_min (nat dst) (stream_cells 0 x)))"

definition can_share_range :: "cache_config \<Rightarrow> int \<Rightarrow> int \<Rightarrow> int \<Rightarrow> int \<Rightarrow> kv_cache \<Rightarrow> bool option" where
  "can_share_range K src dst p0 p1 x =
    (if \<not> (p0 \<ge> 0 \<and> p1 > p0) then Some False
     else do {
       ok \<leftarrow> can_share_destination K src dst x;
       if ok then seq_has_range (nat src) p0 p1 (stream_cells 0 x) else Some False })"

definition can_share_attn_prefix :: "cache_config \<Rightarrow> int \<Rightarrow> int \<Rightarrow> int \<Rightarrow> kv_cache \<Rightarrow> bool option" where
  "can_share_attn_prefix K src dst n x =
    (if cc_n_swa K = 0 \<and> cc_swa_type K = SWA_NONE then can_share_range K src dst 0 n x else Some False)"

definition can_share_attn_prefix_rows :: "cache_config \<Rightarrow> int \<Rightarrow> int \<Rightarrow> int \<Rightarrow> int list \<Rightarrow> kv_cache \<Rightarrow> bool option" where
  "can_share_attn_prefix_rows K src dst next_pos rows x =
    (if \<not> (cc_n_swa K = 0 \<and> cc_swa_type K = SWA_NONE) then Some False
     else do {
       ok \<leftarrow> can_share_destination K src dst x;
       if ok then seq_has_prefix_rows (nat src) next_pos rows 0 (stream_cells 0 x) else Some False })"

definition live_prefix_begin :: "cache_config \<Rightarrow> int \<Rightarrow> int" where
  "live_prefix_begin K n =
    (if n \<le> 0 then -1
     else case cc_swa_type K of
       SWA_NONE \<Rightarrow> 0
     | SWA_STANDARD \<Rightarrow> (if cc_n_swa K \<noteq> 0 then max 0 (n - int (cc_n_swa K)) else -1)
     | SWA_CHUNKED \<Rightarrow> (if cc_n_swa K \<noteq> 0 then ((n - 1) div int (cc_n_swa K)) * int (cc_n_swa K) else -1)
     | SWA_SYMMETRIC \<Rightarrow> -1)"

definition can_share_live_prefix :: "cache_config \<Rightarrow> int \<Rightarrow> int \<Rightarrow> int \<Rightarrow> kv_cache \<Rightarrow> bool option" where
  "can_share_live_prefix K src dst n x = can_share_range K src dst (live_prefix_begin K n) n x"

definition can_share_live_prefix_rows :: "cache_config \<Rightarrow> int \<Rightarrow> int \<Rightarrow> int \<Rightarrow> int list \<Rightarrow> kv_cache \<Rightarrow> bool option" where
  "can_share_live_prefix_rows K src dst next_pos rows x = do {
     ok \<leftarrow> can_share_destination K src dst x;
     if ok then seq_has_prefix_rows (nat src) next_pos rows (live_prefix_begin K next_pos) (stream_cells 0 x)
     else Some False }"

text \<open>Sharing itself is \<open>seq_cp\<close>; its allocations succeed in the model.\<close>

definition share_checked_range :: "cache_config \<Rightarrow> int \<Rightarrow> int \<Rightarrow> int \<Rightarrow> int \<Rightarrow> kv_cache \<Rightarrow> (bool \<times> kv_cache) option" where
  "share_checked_range K src dst p0 p1 x = map_option (Pair True) (seq_cp K src dst p0 p1 x)"

definition try_share :: "cache_config \<Rightarrow> bool option \<Rightarrow> int \<Rightarrow> int \<Rightarrow> int \<Rightarrow> kv_cache \<Rightarrow> (bool \<times> kv_cache) option" where
  "try_share K can src dst n x = do {
     ok \<leftarrow> can;
     if ok then share_checked_range K src dst 0 n x else Some (False, x) }"

definition try_share_attn_prefix :: "cache_config \<Rightarrow> int \<Rightarrow> int \<Rightarrow> int \<Rightarrow> kv_cache \<Rightarrow> (bool \<times> kv_cache) option" where
  "try_share_attn_prefix K src dst n x = try_share K (can_share_attn_prefix K src dst n x) src dst n x"

definition try_share_attn_prefix_rows :: "cache_config \<Rightarrow> int \<Rightarrow> int \<Rightarrow> int \<Rightarrow> int list \<Rightarrow> kv_cache \<Rightarrow> (bool \<times> kv_cache) option" where
  "try_share_attn_prefix_rows K src dst next_pos rows x =
     try_share K (can_share_attn_prefix_rows K src dst next_pos rows x) src dst next_pos x"

definition try_share_live_prefix :: "cache_config \<Rightarrow> int \<Rightarrow> int \<Rightarrow> int \<Rightarrow> kv_cache \<Rightarrow> (bool \<times> kv_cache) option" where
  "try_share_live_prefix K src dst n x = try_share K (can_share_live_prefix K src dst n x) src dst n x"

definition try_share_live_prefix_rows :: "cache_config \<Rightarrow> int \<Rightarrow> int \<Rightarrow> int \<Rightarrow> int list \<Rightarrow> kv_cache \<Rightarrow> (bool \<times> kv_cache) option" where
  "try_share_live_prefix_rows K src dst next_pos rows x =
     try_share K (can_share_live_prefix_rows K src dst next_pos rows x) src dst next_pos x"

end
