(* ===== verification/Kv_Batch.thy ===== *)
theory Kv_Batch
  imports Kv_Cache
begin

text \<open>
  Placing a micro-batch in the cache (\<^verbatim>\<open>src/src/llama-kv-cache.cpp\<close>): the search for free or
  reusable cells (\<open>find_slot\<close>, \<open>can_reuse_cell\<close>), the metadata a placed batch writes
  (\<open>apply_ubatch\<close>), and the planning of a sequence of batches, which applies each of them on a
  journal and restores the cells afterwards (\<open>plan_slots\<close>). The 32-bit counters of the search are
  naturals reduced modulo \<open>2 ^ 32\<close>; an endless search is \<open>None\<close>, like a failed assertion.
\<close>

section \<open>Micro-batches and slots\<close>

record ubatch =
  ub_n_tokens :: nat
  ub_n_pos :: nat
  ub_token :: "int list option"
  ub_type :: "bool list option"
  ub_pos :: "int list"
  ub_seq_id :: "nat list list"
  ub_seq_id_unq :: "nat list"

record slot_info =
  si_s0 :: nat
  si_s1 :: nat
  si_strm :: "nat list"
  si_idxs :: "nat list list"

definition no_slot :: slot_info where
  "no_slot = \<lparr> si_s0 = 0, si_s1 = 0, si_strm = [], si_idxs = [] \<rparr>"

definition slot_empty :: "slot_info \<Rightarrow> bool" where
  "slot_empty si \<longleftrightarrow> si_idxs si = []"

abbreviation u32_nat :: "nat \<Rightarrow> nat" where "u32_nat n \<equiv> n mod 2 ^ 32"

definition i32_of_u32 :: "nat \<Rightarrow> int" where
  "i32_of_u32 n = (if n < 2 ^ 31 then int n else int n - 2 ^ 32)"

definition is_masked_swa :: "nat \<Rightarrow> swa_type \<Rightarrow> int \<Rightarrow> int \<Rightarrow> bool option" where
  "is_masked_swa n_swa ty p0 p1 = do {
     assertion (p0 \<ge> 0 \<and> p1 \<ge> 0);
     case ty of
       SWA_NONE \<Rightarrow> Some False
     | SWA_STANDARD \<Rightarrow> Some (p1 - p0 \<ge> i32_of_u32 n_swa)
     | SWA_CHUNKED \<Rightarrow> do { assertion (n_swa \<noteq> 0); Some (p0 < (p1 div int n_swa) * int n_swa) }
     | SWA_SYMMETRIC \<Rightarrow>
         (let half = i32_of_u32 n_swa sdiv 2 in Some (p1 - p0 < - half \<or> p1 - p0 > half)) }"

definition can_reuse_cell :: "cache_config \<Rightarrow> nat \<Rightarrow> nat \<Rightarrow> kv_cache \<Rightarrow> bool option" where
  "can_reuse_cell K s i x = do {
     let c = stream_cells s x;
     empty \<leftarrow> is_empty i c;
     if empty then Some True
     else if cc_n_swa K = 0 then Some False
     else do {
       seqs \<leftarrow> seq_for_each i c;
       foldM (\<lambda>q reusable.
          if \<not> reusable then Some False
          else do {
            p \<leftarrow> pos_get i c;
            m \<leftarrow> seq_pos_max q c;
            is_masked_swa (cc_n_swa K) (cc_swa_type K) p (m + 1) }) seqs True } }"

section \<open>The search\<close>

text \<open>The inner loop: test up to \<open>k\<close> cells from \<open>head\<close> on; a contiguous search stops at the first unusable one.\<close>

fun test_cells :: "(nat \<Rightarrow> bool option) \<Rightarrow> bool \<Rightarrow> nat \<Rightarrow> nat \<times> nat \<times> nat list \<Rightarrow> (nat \<times> nat \<times> nat list) option" where
  "test_cells ok cont 0 st = Some st"
| "test_cells ok cont (Suc k) (head, tested, idxs) = do {
     usable \<leftarrow> ok head;
     let head' = u32_nat (head + 1);
     let tested' = u32_nat (tested + 1);
     if usable then test_cells ok cont k (head', tested', idxs @ [head])
     else if cont then Some (head', tested', idxs)
     else test_cells ok cont k (head', tested', idxs) }"

partial_function (option) slot_search ::
  "(nat \<Rightarrow> bool option) \<Rightarrow> bool \<Rightarrow> nat \<Rightarrow> nat \<Rightarrow> nat \<Rightarrow> nat \<Rightarrow> nat \<Rightarrow> nat list \<Rightarrow> nat list option option" where
  "slot_search ok cont width n n_test head tested idxs =
    (if u32_nat (head + n_test) > width
     then slot_search ok cont width n n_test 0 (u32_nat (tested + (2 ^ 32 + width - head))) idxs
     else do {
       (head', tested', idxs') \<leftarrow> test_cells ok cont n_test (head, tested, idxs);
       if length idxs' = n then Some (Some idxs')
       else if tested' \<ge> width then Some None
       else slot_search ok cont width n n_test head' tested' (if cont then [] else idxs') })"

declare slot_search.simps [code]

definition stream_search :: "cache_config \<Rightarrow> bool \<Rightarrow> nat \<Rightarrow> nat \<Rightarrow> kv_cache \<Rightarrow> nat list option option" where
  "stream_search K cont n s x = do {
     assertion (s < length (kc_cells x) \<and> s < length (kc_heads x));
     let c = stream_cells s x;
     let head = (if kc_heads x ! s > u32_nat (get_used c + u32_nat (2 * n)) then 0 else kc_heads x ! s);
     if n > kv_size c then Some None
     else do {
       r \<leftarrow> slot_search (\<lambda>i. can_reuse_cell K s i x) cont (kv_size c) n (if cont then n else 1) head 0 [];
       case r of None \<Rightarrow> Some None
       | Some idxs \<Rightarrow> if length idxs < n then Some None else Some (Some idxs) } }"

text \<open>The loop over the sequences of the batch; the last argument counts the ones done.\<close>

fun find_streams :: "cache_config \<Rightarrow> ubatch \<Rightarrow> bool \<Rightarrow> nat \<Rightarrow> kv_cache \<Rightarrow> nat list \<Rightarrow> nat \<Rightarrow> slot_info \<Rightarrow> slot_info option" where
  "find_streams K ub cont n x [] k res = Some res"
| "find_streams K ub cont n x (q # qs) k res = do {
     assertion (cc_n_stream K > 1 \<longrightarrow> k * n < length (ub_seq_id ub) \<and> ub_seq_id ub ! (k * n) = [q]);
     s \<leftarrow> seq_stream x (int q);
     r \<leftarrow> stream_search K cont n s x;
     case r of
       None \<Rightarrow> Some no_slot
     | Some idxs \<Rightarrow> find_streams K ub cont n x qs (k + 1)
         (res\<lparr> si_s0 := min (si_s0 res) s, si_s1 := max (si_s1 res) s,
               si_strm := si_strm res @ [s], si_idxs := si_idxs res @ [idxs] \<rparr>) }"

definition find_slot :: "cache_config \<Rightarrow> ubatch \<Rightarrow> bool \<Rightarrow> kv_cache \<Rightarrow> slot_info option" where
  "find_slot K ub cont x = do {
     let multi = (cc_n_stream K > 1);
     let n_unq = length (ub_seq_id_unq ub);
     assertion (multi \<longrightarrow> n_unq \<noteq> 0 \<and> ub_n_tokens ub mod n_unq = 0);
     let n_seqs = (if multi then n_unq else 1);
     let n = (if multi then ub_n_tokens ub div n_seqs else ub_n_tokens ub);
     assertion (n_seqs \<le> n_unq);
     find_streams K ub cont n x (take n_seqs (ub_seq_id_unq ub)) 0
       \<lparr> si_s0 = LLAMA_MAX_SEQ, si_s1 = 0, si_strm = [], si_idxs = [] \<rparr> }"

section \<open>Placing a batch\<close>

definition is_pos_2d :: "ubatch \<Rightarrow> bool" where "is_pos_2d ub \<longleftrightarrow> ub_n_pos ub \<ge> 3"

text \<open>The extended metadata of token \<open>i\<close>, when it has any.\<close>

definition token_ext :: "cache_config \<Rightarrow> ubatch \<Rightarrow> nat \<Rightarrow> kv_cell_ext option" where
  "token_ext K ub i =
    (if is_pos_2d ub \<or> ub_token ub \<noteq> None \<or> cc_ple_n_heads K > 0
     then let n = ub_n_tokens ub;
          e1 = (if is_pos_2d ub then ext_default\<lparr> ext_x := ub_pos ub ! (i + 2 * n), ext_y := ub_pos ub ! (i + n) \<rparr>
                else ext_default);
          is_embd = (case ub_token ub of None \<Rightarrow> True
                     | Some _ \<Rightarrow> (case ub_type ub of None \<Rightarrow> False | Some ts \<Rightarrow> ts ! i))
       in Some (if \<not> is_embd then e1\<lparr> ext_tok := the (ub_token ub) ! i \<rparr>
                else if cc_ple_n_heads K > 0 then e1\<lparr> ext_tok := cc_ple_embd_token K \<rparr>
                else e1)
     else None)"

text \<open>
  What the loop over the tokens carries beside the cache: for every sequence the greatest position
  it overwrites, the sequences of reused cells, and whether the reuse event of the stream is open.
\<close>

record placing =
  pl_cache :: kv_cache
  pl_max_rm :: "nat \<Rightarrow> int"
  pl_reused :: bool
  pl_affected :: "nat set"
  pl_event :: bool

definition evict_cell :: "cache_config \<Rightarrow> bool \<Rightarrow> nat \<Rightarrow> nat \<Rightarrow> placing \<Rightarrow> (int \<times> placing) option" where
  "evict_cell K armed s i st = do {
     let x = pl_cache st;
     let x0 = tracker_if (armed \<and> \<not> pl_event st) K
       (Gen_Begin Reg_apply_ubatch_occupied_reuse
          (if armed \<and> cc_n_swa K \<noteq> 0 then Cls_swa_wrap else Cls_ordinary_decode) s Stamp_dependency True) x;
     p \<leftarrow> pos_get i (stream_cells s x0);
     seqs \<leftarrow> seq_for_each i (stream_cells s x0);
     x1 \<leftarrow> (if armed then foldM (\<lambda>q. index_op (Remove_Cell s (int q) i p)) seqs x0 else Some x0);
     x2 \<leftarrow> on_cells s (kv_rm i) (stash_touch K i x1);
     Some (p, st\<lparr> pl_cache := x2,
       pl_max_rm := (\<lambda>q. if q \<in> set seqs then max (pl_max_rm st q) p else pl_max_rm st q),
       pl_reused := True, pl_affected := pl_affected st \<union> set seqs, pl_event := pl_event st \<or> armed \<rparr>) }"

definition fill_cell :: "cache_config \<Rightarrow> bool \<Rightarrow> ubatch \<Rightarrow> nat \<Rightarrow> nat \<Rightarrow> nat \<Rightarrow> kv_cache \<Rightarrow> kv_cache option" where
  "fill_cell K armed ub s i idx x = do {
     x1 \<leftarrow> on_cells s (kv_pos_set idx (ub_pos ub ! i)) x;
     x2 \<leftarrow> (case token_ext K ub i of None \<Rightarrow> Some x1 | Some e \<Rightarrow> on_cells s (kv_ext_set idx e) x1);
     x3 \<leftarrow> foldM (\<lambda>q. on_cells s (kv_seq_add idx q)) (ub_seq_id ub ! i) x2;
     if armed then foldM (\<lambda>q. index_op (Add_Cell s (int q) idx (ub_pos ub ! i))) (ub_seq_id ub ! i) x3
     else Some x3 }"

definition place_token :: "cache_config \<Rightarrow> bool \<Rightarrow> ubatch \<Rightarrow> nat \<Rightarrow> nat \<Rightarrow> nat \<Rightarrow> placing \<Rightarrow> placing option" where
  "place_token K armed ub s i idx st = do {
     empty \<leftarrow> is_empty idx (stream_cells s (pl_cache st));
     (prior, st1) \<leftarrow> (if empty then Some (-1, st) else evict_cell K armed s idx st);
     assertion (i < length (ub_pos ub) \<and> i < length (ub_seq_id ub));
     x2 \<leftarrow> fill_cell K armed ub s i idx (pl_cache st1);
     let x3 = tracker_if armed K
       (Gen_Stamp (if empty then Reg_apply_ubatch_append else Reg_apply_ubatch_occupied_reuse) s idx
          (map int (ub_seq_id ub ! i)) (if empty then ub_pos ub ! i else prior)) x2;
     Some (st1\<lparr> pl_cache := x3,
       pl_affected := pl_affected st1 \<union> (if empty then {} else set (ub_seq_id ub ! i)) \<rparr>) }"

definition place_stream :: "cache_config \<Rightarrow> bool \<Rightarrow> ubatch \<Rightarrow> slot_info \<Rightarrow> nat \<Rightarrow> placing \<Rightarrow> placing option" where
  "place_stream K armed ub si k st = do {
     let s = si_strm si ! k;
     let n = length (si_idxs si ! 0);
     assertion (s < length (kc_cells (pl_cache st)) \<and> n \<le> length (si_idxs si ! k));
     let st0 = st\<lparr> pl_event := False, pl_cache := tracker_if armed K
        (Gen_Begin Reg_apply_ubatch_append Cls_ordinary_decode s Stamp_dependency False) (pl_cache st) \<rparr>;
     foldM (\<lambda>j. place_token K armed ub s (k * n + j) (si_idxs si ! k ! j)) [0..<n] st0 }"

text \<open>Purge what lies below the positions the batch overwrote, one sequence.\<close>

definition purge_seq :: "cache_config \<Rightarrow> bool \<Rightarrow> (nat \<Rightarrow> int) \<Rightarrow> nat \<Rightarrow> kv_cache \<Rightarrow> kv_cache option" where
  "purge_seq K commit max_rm q x =
    (if max_rm q = -1 then Some x
     else do {
       s \<leftarrow> seq_stream x (int q);
       assertion (s < length (kc_cells x));
       least \<leftarrow> seq_pos_min q (stream_cells s x);
       if least \<le> max_rm q
       then map_option snd (seq_rm_impl K (int q) least (max_rm q + 1) (if commit then Nested_Commit else Dry_Run) x)
       else Some x })"

definition advance_head :: "slot_info \<Rightarrow> nat \<Rightarrow> kv_cache \<Rightarrow> kv_cache option" where
  "advance_head si k x = do {
     assertion (si_idxs si ! k \<noteq> [] \<and> si_strm si ! k < length (kc_heads x));
     Some (set_head (si_strm si ! k) (last (si_idxs si ! k) + 1) x) }"

definition apply_ubatch :: "cache_config \<Rightarrow> slot_info \<Rightarrow> ubatch \<Rightarrow> bool \<Rightarrow> kv_cache \<Rightarrow> kv_cache option" where
  "apply_ubatch K si ub commit x =
    (if cc_other K then Some x
     else do {
       assertion (si_idxs si \<noteq> [] \<and> length (si_idxs si) = length (si_strm si));
       assertion (ub_n_tokens ub = length (si_strm si) * length (si_idxs si ! 0));
       let armed = (commit \<and> cc_armed K);
       st \<leftarrow> foldM (place_stream K armed ub si) [0..<length (si_strm si)]
         \<lparr> pl_cache = x, pl_max_rm = (\<lambda>_. -1), pl_reused = False, pl_affected = {}, pl_event = False \<rparr>;
       x1 \<leftarrow> (if commit \<and> pl_reused st then content_changed K (pl_affected st) (pl_cache st)
             else Some (pl_cache st));
       x2 \<leftarrow> foldM (purge_seq K commit (pl_max_rm st)) [0..<LLAMA_MAX_SEQ] x1;
       foldM (advance_head si) [0..<length (si_strm si)] x2 })"

section \<open>Planning a sequence of batches\<close>

text \<open>What a placed batch can touch: per stream the chosen cells, and the cells below an overwritten position.\<close>

definition slot_max_rm :: "kv_cache \<Rightarrow> slot_info \<Rightarrow> nat \<Rightarrow> int" where
  "slot_max_rm x si q =
    foldr max (concat (map (\<lambda>(s, idxs). map (\<lambda>i. kv_pos (kc_cells x ! s) ! i)
        (filter (\<lambda>i. kv_pos (kc_cells x ! s) ! i \<noteq> -1 \<and> q \<in> kv_seq (kc_cells x ! s) ! i) idxs))
      (zip (si_strm si) (si_idxs si)))) (-1)"

definition purged_cells :: "kv_cache \<Rightarrow> slot_info \<Rightarrow> nat \<Rightarrow> nat list" where
  "purged_cells x si s = concat (map (\<lambda>q.
      if slot_max_rm x si q < 0 \<or> kc_seq_to_stream x ! q \<noteq> s then []
      else filter (\<lambda>i. 0 \<le> kv_pos (kc_cells x ! s) ! i \<and> kv_pos (kc_cells x ! s) ! i < slot_max_rm x si q + 1 \<and>
             q \<in> kv_seq (kc_cells x ! s) ! i) [0..<kv_size (kc_cells x ! s)]) [0..<LLAMA_MAX_SEQ])"

definition touched_cells :: "kv_cache \<Rightarrow> slot_info \<Rightarrow> nat \<Rightarrow> nat list" where
  "touched_cells x si s = sorted_list_of_set (set
     (concat (map snd (filter (\<lambda>(s', idxs). s' = s) (zip (si_strm si) (si_idxs si)))) @ purged_cells x si s))"

definition touched_streams :: "kv_cache \<Rightarrow> slot_info \<Rightarrow> nat list" where
  "touched_streams x si = sorted_list_of_set (set (si_strm si) \<union>
     (\<lambda>q. kc_seq_to_stream x ! q) ` set (filter (\<lambda>q. slot_max_rm x si q \<ge> 0) [0..<LLAMA_MAX_SEQ]))"

record journal =
  jr_heads :: "nat list"
  jr_saved :: "(nat \<times> nat list \<times> kv_cells) list"

definition save_stream :: "nat \<Rightarrow> nat list \<Rightarrow> (nat \<times> nat list \<times> kv_cells) list \<times> kv_cache \<Rightarrow>
    ((nat \<times> nat list \<times> kv_cells) list \<times> kv_cache) option" where
  "save_stream s idxs = (\<lambda>(saved, x). do {
     assertion (s < length (kc_cells x));
     (sn, c) \<leftarrow> kv_cp_idxs idxs (stream_cells s x);
     Some (saved @ [(s, idxs, sn)], put_cells s c x) })"

definition save_touched :: "slot_info \<Rightarrow> kv_cache \<Rightarrow> (journal \<times> kv_cache) option" where
  "save_touched si x = do {
     assertion (list_all (\<lambda>q. slot_max_rm x si q \<ge> 0 \<longrightarrow> q < length (kc_seq_to_stream x)) [0..<LLAMA_MAX_SEQ]);
     (saved, x1) \<leftarrow> foldM (\<lambda>s. save_stream s (touched_cells x si s)) (touched_streams x si) ([], x);
     Some (\<lparr> jr_heads = kc_heads x, jr_saved = saved \<rparr>, x1) }"

definition restore_stream :: "nat \<times> nat list \<times> kv_cells \<Rightarrow> kv_cache \<Rightarrow> kv_cache option" where
  "restore_stream = (\<lambda>(s, idxs, sn). on_cells s (kv_set_idxs idxs sn))"

definition restore_journal :: "journal \<Rightarrow> kv_cache \<Rightarrow> kv_cache option" where
  "restore_journal j x = do {
     x1 \<leftarrow> foldM restore_stream (jr_saved j) x;
     Some (x1\<lparr> kc_heads := jr_heads j \<rparr>) }"

text \<open>The forward loop yields the slots found, the journals newest first, and whether all batches fit.\<close>

fun plan_loop :: "cache_config \<Rightarrow> ubatch list \<Rightarrow> slot_info list \<Rightarrow> journal list \<Rightarrow> kv_cache \<Rightarrow>
    (bool \<times> slot_info list \<times> journal list \<times> kv_cache) option" where
  "plan_loop K [] res js x = Some (True, res, js, x)"
| "plan_loop K (ub # ubs) res js x = do {
     si \<leftarrow> find_slot K ub False x;
     if slot_empty si then Some (False, res, js, x)
     else do {
       (j, x1) \<leftarrow> save_touched si x;
       x2 \<leftarrow> apply_ubatch K si ub False x1;
       plan_loop K ubs (res @ [si]) (j # js) x2 } }"

definition plan_slots :: "cache_config \<Rightarrow> ubatch list \<Rightarrow> kv_cache \<Rightarrow> (slot_info list \<times> kv_cache) option" where
  "plan_slots K ubs x = do {
     (success, res, js, x1) \<leftarrow> plan_loop K ubs [] [] x;
     assertion (js \<noteq> [] \<or> \<not> success);
     x2 \<leftarrow> foldM restore_journal js x1;
     Some (if success then res else [], x2\<lparr> kc_stash_dirty := kc_stash_dirty x \<rparr>) }"

end
