(* ===== verification/Slot_Search.thy ===== *)
theory Slot_Search
  imports Kv_Batch
begin

text \<open>
  The search of \<open>find_slot\<close> is total and exact: it ends for every state of the cells, the cells it
  returns are distinct, usable and in range, and it gives up only when there are not enough usable
  cells (or, for a contiguous slot, no usable window).
\<close>

section \<open>Testing single cells\<close>

text \<open>The cells in the order the search visits them, from \<open>h\<close> to the end and then from the start.\<close>

definition visit_order :: "nat \<Rightarrow> nat \<Rightarrow> nat list" where
  "visit_order h m = [h..<m] @ [0..<h]"

lemma visit_order_facts:
  assumes "h \<le> m"
  shows "length (visit_order h m) = m" "distinct (visit_order h m)" "set (visit_order h m) = {..<m}"
    "t < m \<Longrightarrow> visit_order h m ! t = (if h + t < m then h + t else t - (m - h))"
  using assms by (auto simp: visit_order_def nth_append)

text \<open>Where the search stands after \<open>t\<close> tests.\<close>

definition visiting :: "nat \<Rightarrow> nat \<Rightarrow> nat \<Rightarrow> nat \<Rightarrow> bool" where
  "visiting h m t head \<longleftrightarrow> head \<le> m \<and> (head = h + t \<or> m - h \<le> t \<and> head = t - (m - h))"

lemma length_filter_take_Suc:
  "t < length xs \<Longrightarrow> filter u (take (Suc t) xs) = filter u (take t xs) @ (if u (xs ! t) then [xs ! t] else [])"
  by (simp add: take_Suc_conv_app_nth)

lemma card_usable: "distinct xs \<Longrightarrow> length (filter u xs) = card {i \<in> set xs. u i}"
  using distinct_card [of "filter u xs"] by (simp add: Collect_conj_eq Int_commute)

lemma scattered_search:
  assumes "\<And>i. i < m \<Longrightarrow> ok i = Some (u i)" and "h \<le> m" and "m < 2 ^ 31"
    and "visiting h m t head" and "t < m" and "idxs = filter u (take t (visit_order h m))" and "length idxs < n"
  shows "\<exists>r. slot_search ok False m n 1 head t idxs = Some r \<and>
    (case r of Some xs \<Rightarrow> length xs = n \<and> (\<exists>k \<le> m. xs = filter u (take k (visit_order h m)))
     | None \<Rightarrow> card {i. i < m \<and> u i} < n)"
  using assms(4-)
proof (induction "2 * (m - t) + (if head < m then 0 else 1)" arbitrary: t head idxs rule: less_induct)
  case less
  note vo = visit_order_facts [OF assms(2)]
  have bounds: "head \<le> m" "m < 2 ^ 31" using less.prems(1) assms(3) by (simp_all add: visiting_def)
  show ?case
  proof (cases "head < m")
    case False
    then have t: "head = m" "t = m - h"
      using less.prems(1,2) assms(2) by (auto simp: visiting_def)
    have "slot_search ok False m n 1 head t idxs = slot_search ok False m n 1 0 t idxs"
      using t bounds less.prems(2) by (subst slot_search.simps) simp
    moreover have "\<exists>r. slot_search ok False m n 1 0 t idxs = Some r \<and>
      (case r of Some xs \<Rightarrow> length xs = n \<and> (\<exists>k \<le> m. xs = filter u (take k (visit_order h m)))
       | None \<Rightarrow> card {i. i < m \<and> u i} < n)"
      by (rule less.hyps) (use less.prems t assms(2) in \<open>auto simp: visiting_def\<close>)
    ultimately show ?thesis by simp
  next
    case True
    have head: "visit_order h m ! t = head"
      using less.prems(1,2) True assms(2) vo(4) [of t] by (auto simp: visiting_def)
    define idxs' where "idxs' = (if u head then idxs @ [head] else idxs)"
    have idxs': "idxs' = filter u (take (Suc t) (visit_order h m))"
      using less.prems(2,3) vo(1) head by (simp add: idxs'_def length_filter_take_Suc)
    have test: "test_cells ok False 1 (head, t, idxs) = Some (head + 1, t + 1, idxs')"
      using assms(1) [OF True] bounds less.prems(2) True by (simp add: idxs'_def One_nat_def)
    have unfold: "slot_search ok False m n 1 head t idxs =
        (if length idxs' = n then Some (Some idxs') else if t + 1 \<ge> m then Some None
         else slot_search ok False m n 1 (head + 1) (t + 1) idxs')"
      using True bounds unfolding slot_search.simps [of ok False m n 1 head t idxs] test by simp
    consider (found) "length idxs' = n" | (full) "length idxs' \<noteq> n" "t + 1 = m" | (more) "length idxs' \<noteq> n" "t + 1 < m"
      using less.prems(2) by linarith
    then show ?thesis
    proof cases
      case found
      then show ?thesis using unfold idxs' less.prems(2) by (auto intro!: exI [of _ "Suc t"])
    next
      case full
      have "card {i. i < m \<and> u i} = length idxs'"
        using full(2) vo(1-3) card_usable [OF vo(2), of u] by (simp add: idxs')
      moreover have "length idxs' \<le> n" using less.prems(4) by (simp add: idxs'_def)
      ultimately show ?thesis using unfold full by simp
    next
      case more
      have "\<exists>r. slot_search ok False m n 1 (head + 1) (t + 1) idxs' = Some r \<and>
        (case r of Some xs \<Rightarrow> length xs = n \<and> (\<exists>k \<le> m. xs = filter u (take k (visit_order h m)))
         | None \<Rightarrow> card {i. i < m \<and> u i} < n)"
      proof (rule less.hyps)
        show "2 * (m - (t + 1)) + (if head + 1 < m then 0 else 1) < 2 * (m - t) + (if head < m then 0 else (1 :: nat))"
          using less.prems(2) True by (cases "head + 1 < m"; simp; linarith)
        show "visiting h m (t + 1) (head + 1)" using less.prems(1,2) True by (auto simp: visiting_def Suc_diff_le)
        show "length idxs' < n" using more(1) less.prems(4) by (simp add: idxs'_def split: if_splits)
      qed (use more idxs' in simp_all)
      with unfold more show ?thesis by simp
    qed
  qed
qed

section \<open>Testing windows\<close>

definition window :: "(nat \<Rightarrow> bool) \<Rightarrow> nat \<Rightarrow> nat \<Rightarrow> nat \<Rightarrow> bool" where
  "window u m n p \<longleftrightarrow> p + n \<le> m \<and> (\<forall>i \<in> {p..<p + n}. u i)"

lemma test_window:
  assumes "\<And>i. i < m \<Longrightarrow> ok i = Some (u i)" and "head + k \<le> m" and "m < 2 ^ 31" and "t + k < 2 ^ 32"
  shows "(\<forall>i \<in> {head..<head + k}. u i) \<and>
      test_cells ok True k (head, t, idxs) = Some (head + k, t + k, idxs @ [head..<head + k]) \<or>
    (\<exists>j < k. \<not> u (head + j) \<and>
      test_cells ok True k (head, t, idxs) = Some (head + j + 1, t + j + 1, idxs @ [head..<head + j]))"
  using assms(2,4)
proof (induction k arbitrary: head t idxs)
  case (Suc k)
  have next': "head + 1 < 2 ^ 32" "t + 1 < 2 ^ 32" using Suc.prems assms(3) by simp_all
  show ?case
  proof (cases "u head")
    case False
    then have "test_cells ok True (Suc k) (head, t, idxs) = Some (head + 1, t + 1, idxs)"
      using assms(1) [of head] Suc.prems(1) next' by simp
    with False show ?thesis by (intro disjI2 exI [of _ 0]) simp
  next
    case True
    have step: "test_cells ok True (Suc k) (head, t, idxs) = test_cells ok True k (head + 1, t + 1, idxs @ [head])"
      using True assms(1) [of head] Suc.prems(1) next' by simp
    have upt: "[head..<head + Suc j] = head # [head + 1..<head + 1 + j]" for j by (simp add: upt_rec)
    have range: "{head..<head + Suc k} = insert head {head + 1..<head + 1 + k}" by auto
    from Suc.IH [of "head + 1" "t + 1" "idxs @ [head]"] Suc.prems
    consider (all) "\<forall>i \<in> {head + 1..<head + 1 + k}. u i"
        "test_cells ok True k (head + 1, t + 1, idxs @ [head]) = Some (head + 1 + k, t + 1 + k, (idxs @ [head]) @ [head + 1..<head + 1 + k])"
      | (stop) j where "j < k" "\<not> u (head + 1 + j)"
        "test_cells ok True k (head + 1, t + 1, idxs @ [head]) = Some (head + 1 + j + 1, t + 1 + j + 1, (idxs @ [head]) @ [head + 1..<head + 1 + j])"
      by fastforce
    then show ?thesis
    proof cases
      case all
      then show ?thesis using step True unfolding range upt by simp
    next
      case stop
      then show ?thesis using step upt [of j] by (intro disjI2 exI [of _ "Suc j"]) simp
    qed
  qed
qed simp

text \<open>No window starts among the cells that have been passed.\<close>

definition passed :: "(nat \<Rightarrow> bool) \<Rightarrow> nat \<Rightarrow> nat \<Rightarrow> nat \<Rightarrow> nat \<Rightarrow> nat \<Rightarrow> bool" where
  "passed u m n h t head \<longleftrightarrow> head \<le> m \<and>
     (head = h + t \<and> (\<forall>p \<in> {h..<head}. \<not> window u m n p) \<or>
      m - h \<le> t \<and> head = t - (m - h) \<and> (\<forall>p. h \<le> p \<or> p < head \<longrightarrow> \<not> window u m n p))"

lemma passed_stop:
  assumes "passed u m n h t head" and "j < n" and "\<not> u (head + j)" and "head + n \<le> m" and "h \<le> m"
  shows "passed u m n h (t + j + 1) (head + j + 1)"
proof -
  have "\<not> window u m n p" if "head \<le> p" "p \<le> head + j" for p
    using that assms(2,3) by (auto simp: window_def intro!: bexI [of _ "head + j"])
  then have rest: "\<not> window u m n p" if "p < head + j + 1" "head \<le> p" for p
    using that by simp
  show ?thesis
    using assms(1)
    unfolding passed_def
  proof (elim conjE disjE, goal_cases)
    case 1
    then have "\<forall>p \<in> {h..<head + j + 1}. \<not> window u m n p"
      using rest by (metis atLeastLessThan_iff not_le)
    with 1 assms(2,4) show ?case by simp
  next
    case 2
    then have "\<forall>p. h \<le> p \<or> p < head + j + 1 \<longrightarrow> \<not> window u m n p"
      using rest by (metis not_le)
    with 2 assms(2,4) show ?case by (intro conjI disjI2) simp_all
  qed
qed

lemma passed_all:
  assumes "passed u m n h t head" and "m \<le> t" and "h \<le> m" and "0 < n"
  shows "\<forall>p. \<not> window u m n p"
proof
  fix p
  have "\<not> window u m n p" if "m \<le> p" using that assms(4) by (simp add: window_def)
  moreover have "\<not> window u m n p" if "p < m"
    using assms(1) unfolding passed_def
  proof (elim conjE disjE, goal_cases)
    case 1
    then have "h = 0" "head = m" using assms(2) by simp_all
    with 1 that show ?case by simp
  next
    case 2
    then have "h \<le> head" using assms(2,3) by simp
    with 2 show ?case by (cases "h \<le> p") auto
  qed
  ultimately show "\<not> window u m n p" by (cases "p < m") auto
qed

text \<open>One round of a contiguous search whose window lies inside the cells.\<close>

lemma contiguous_round:
  assumes "\<And>i. i < m \<Longrightarrow> ok i = Some (u i)" and "head + n \<le> m" and "m < 2 ^ 30" and "t + n < 2 ^ 32" and "0 < n"
  obtains (found) "window u m n head" "slot_search ok True m n n head t [] = Some (Some [head..<head + n])"
  | (stop) j where "j < n" "\<not> u (head + j)"
      "slot_search ok True m n n head t [] =
        (if m \<le> t + j + 1 then Some None else slot_search ok True m n n (head + j + 1) (t + j + 1) [])"
proof -
  have inside: "\<not> u32_nat (head + n) > m" using assms(2,3) by simp
  have "m < 2 ^ 31" using assms(3) by simp
  from test_window [where idxs = "[]", OF assms(1) assms(2) this assms(4)]
  consider (all) "\<forall>i \<in> {head..<head + n}. u i"
      "test_cells ok True n (head, t, []) = Some (head + n, t + n, [head..<head + n])"
    | (some) j where "j < n" "\<not> u (head + j)"
      "test_cells ok True n (head, t, []) = Some (head + j + 1, t + j + 1, [head..<head + j])"
    by fastforce
  then show ?thesis
  proof cases
    case all
    then have "slot_search ok True m n n head t [] = Some (Some [head..<head + n])"
      using inside by (subst slot_search.simps) simp
    with all(1) assms(2) show ?thesis by (intro found) (simp_all add: window_def)
  next
    case some
    then have "slot_search ok True m n n head t [] =
        (if m \<le> t + j + 1 then Some None else slot_search ok True m n n (head + j + 1) (t + j + 1) [])"
      using inside by (subst slot_search.simps) simp
    with some(1,2) show ?thesis by (rule stop)
  qed
qed

lemma contiguous_hopeless:
  assumes "\<And>i. i < m \<Longrightarrow> ok i = Some (u i)" and "n \<le> m" and "m < 2 ^ 30" and "0 < n"
    and "m \<le> t" and "t \<le> 2 * m" and "\<forall>p. \<not> window u m n p"
  shows "slot_search ok True m n n 0 t [] = Some None"
proof -
  have bounds: "0 + n \<le> m" "t + n < 2 ^ 32" using assms(2,3,6) by simp_all
  from contiguous_round [OF assms(1) bounds(1) assms(3) bounds(2) assms(4)] show ?thesis
    by cases (use assms(5,7) in auto)
qed

lemma contiguous_search:
  assumes "\<And>i. i < m \<Longrightarrow> ok i = Some (u i)" and "h \<le> m" and "m < 2 ^ 30" and "0 < n" and "n \<le> m"
    and "passed u m n h t head" and "t < m"
  shows "\<exists>r. slot_search ok True m n n head t [] = Some r \<and>
    (case r of Some xs \<Rightarrow> (\<exists>p. window u m n p \<and> xs = [p..<p + n]) | None \<Rightarrow> (\<forall>p. \<not> window u m n p))"
  using assms(6-)
proof (induction "2 * (m - t) + (if head + n \<le> m then 0 else 1)" arbitrary: t head rule: less_induct)
  case less
  have bounds: "head \<le> m" "head + n < 2 ^ 32" "t + n < 2 ^ 32"
    using less.prems assms(3,5) by (simp_all add: passed_def)
  show ?case
  proof (cases "head + n \<le> m")
    case False
    have none: "\<not> window u m n p" if "head \<le> p" for p using False that by (simp add: window_def)
    have "t + (2 ^ 32 + m - head) = t + (m - head) + 2 ^ 32" using bounds(1) by simp
    then have "u32_nat (t + (2 ^ 32 + m - head)) = u32_nat (t + (m - head) + 2 ^ 32)" by (simp only:)
    also have "\<dots> = t + (m - head)" using less.prems(2) assms(3) by simp
    finally have unfold: "slot_search ok True m n n head t [] = slot_search ok True m n n 0 (t + (m - head)) []"
      using False bounds(2) by (subst slot_search.simps) simp
    consider (again) "head = h + t" "0 < h" | (hopeless) "\<forall>p. \<not> window u m n p" "m \<le> t + (m - head)"
    proof (cases "head = h + t")
      case first: True
      then have "\<not> window u m n p" if "h = 0" for p
        using less.prems(1) none [of p] that unfolding passed_def by (cases "head \<le> p") auto
      with first bounds(1) show ?thesis by (cases "h = 0") (auto intro: that)
    next
      case second: False
      then have "m - h \<le> t" "head = t - (m - h)" "\<forall>p. \<not> window u m n p"
        using less.prems(1) none unfolding passed_def by (meson not_le)+
      with assms(2) bounds(1) show ?thesis by (intro that(2)) simp_all
    qed
    then show ?thesis
    proof cases
      case again
      have "\<not> window u m n p" if "h \<le> p" for p
        using less.prems(1) none [of p] again that unfolding passed_def by (cases "head \<le> p") auto
      then have "passed u m n h (t + (m - head)) 0"
        using again bounds(1) assms(2) by (simp add: passed_def)
      with less.hyps [of "t + (m - head)" 0] less.prems(2) again bounds(1) False assms(5) unfold
      show ?thesis by simp
    next
      case hopeless
      with contiguous_hopeless [OF assms(1,5,3,4) hopeless(2)] less.prems(2) unfold show ?thesis by simp
    qed
  next
    case True
    show ?thesis
    proof (cases rule: contiguous_round [of m ok u head n t, OF assms(1) True assms(3) bounds(3) assms(4), case_names _ found stop])
      case found
      then show ?thesis by auto
    next
      case (stop j)
      have next': "passed u m n h (t + j + 1) (head + j + 1)"
        by (rule passed_stop [OF less.prems(1) stop(1,2) True assms(2)])
      show ?thesis
      proof (cases "m \<le> t + j + 1")
        case more: True
        have "\<forall>p. \<not> window u m n p"
          by (rule passed_all [OF next' more assms(2,4)])
        with stop(3) more show ?thesis by simp
      next
        case False
        have "2 * (m - (t + j + 1)) + (if head + j + 1 + n \<le> m then 0 else 1) < 2 * (m - t) + (if head + n \<le> m then 0 else (1 :: nat))"
          using less.prems(2) True by (cases "head + j + 1 + n \<le> m"; simp; linarith)
        from less.hyps [OF this next'] False stop(3) show ?thesis by simp
      qed
    qed
  qed
qed

end
