(* ===== verification/Cache_Invariant.thy ===== *)
theory Cache_Invariant
  imports Kv_Cache Kv_Queries
begin

text \<open>
  The invariant of the cache and the reading of its operations through it: every stream holds a
  consistent cell set, every occupied cell is owned by sequences of its stream, and, where the cache
  has an ownership index, the index represents for every sequence the map from its cells to their
  positions. One cell is changed at a time; a loop over the cells is the pointwise map of its rounds.
\<close>

section \<open>Cells of a cache\<close>

abbreviation cpos :: "kv_cache \<Rightarrow> nat \<Rightarrow> nat \<Rightarrow> int" where "cpos x s i \<equiv> kv_pos (kc_cells x ! s) ! i"
abbreviation cseq :: "kv_cache \<Rightarrow> nat \<Rightarrow> nat \<Rightarrow> nat set" where "cseq x s i \<equiv> kv_seq (kc_cells x ! s) ! i"
abbreviation cext :: "kv_cache \<Rightarrow> nat \<Rightarrow> nat \<Rightarrow> kv_cell_ext" where "cext x s i \<equiv> kv_ext (kc_cells x ! s) ! i"
abbreviation cshift :: "kv_cache \<Rightarrow> nat \<Rightarrow> nat \<Rightarrow> int" where "cshift x s i \<equiv> kv_shift (kc_cells x ! s) ! i"
abbreviation cflag :: "kv_cache \<Rightarrow> nat \<Rightarrow> bool" where "cflag x s \<equiv> kv_has_shift (kc_cells x ! s)"

type_synonym cell_state = "int \<times> nat set \<times> kv_cell_ext \<times> int"

definition cell_of :: "kv_cache \<Rightarrow> nat \<times> nat \<Rightarrow> cell_state" where
  "cell_of x k = (cpos x (fst k) (snd k), cseq x (fst k) (snd k), cext x (fst k) (snd k), cshift x (fst k) (snd k))"

definition cache_base :: "cache_config \<Rightarrow> nat \<Rightarrow> kv_cache \<Rightarrow> bool" where
  "cache_base K N x \<longleftrightarrow>
     0 < cc_n_stream K \<and> length (kc_cells x) = cc_n_stream K \<and> length (kc_heads x) = cc_n_stream K \<and>
     0 < length (kc_seq_to_stream x) \<and> length (kc_seq_to_stream x) \<le> LLAMA_MAX_SEQ \<and>
     (\<forall>q < length (kc_seq_to_stream x). kc_seq_to_stream x ! q < cc_n_stream K) \<and>
     (\<forall>s < cc_n_stream K. kv_inv (kc_cells x ! s) \<and> kv_size (kc_cells x ! s) = N \<and> kc_heads x ! s \<le> N \<and>
        (\<forall>i < N. \<forall>q \<in> cseq x s i. q < length (kc_seq_to_stream x) \<and> kc_seq_to_stream x ! q = s))"

definition cache_inv :: "cache_config \<Rightarrow> nat \<Rightarrow> kv_cache \<Rightarrow> bool" where
  "cache_inv K N x \<longleftrightarrow> cache_base K N x \<and>
     (\<forall>s < cc_n_stream K. \<forall>i < N. cpos x s i \<noteq> -1 \<longrightarrow> cseq x s i \<noteq> {})"

lemma cache_baseD:
  assumes "cache_base K N x"
  shows "length (kc_cells x) = cc_n_stream K" "length (kc_heads x) = cc_n_stream K" "0 < cc_n_stream K"
    "0 < length (kc_seq_to_stream x)" "length (kc_seq_to_stream x) \<le> LLAMA_MAX_SEQ"
    "q < length (kc_seq_to_stream x) \<Longrightarrow> kc_seq_to_stream x ! q < cc_n_stream K"
    "s < cc_n_stream K \<Longrightarrow> kv_inv (kc_cells x ! s)" "s < cc_n_stream K \<Longrightarrow> kv_size (kc_cells x ! s) = N"
    "s < cc_n_stream K \<Longrightarrow> kc_heads x ! s \<le> N"
    "s < cc_n_stream K \<Longrightarrow> i < N \<Longrightarrow> q \<in> cseq x s i \<Longrightarrow> q < length (kc_seq_to_stream x) \<and> kc_seq_to_stream x ! q = s"
    "s < cc_n_stream K \<Longrightarrow> i < N \<Longrightarrow> cpos x s i \<ge> -1"
    "s < cc_n_stream K \<Longrightarrow> i < N \<Longrightarrow> cpos x s i = -1 \<Longrightarrow> cseq x s i = {}"
  using assms kv_invD(5,7) [of "kc_cells x ! s" i] by (auto simp: cache_base_def)

lemma cache_invD:
  assumes "cache_inv K N x"
  shows "cache_base K N x"
    "s < cc_n_stream K \<Longrightarrow> i < N \<Longrightarrow> cpos x s i = -1 \<longleftrightarrow> cseq x s i = {}"
  using assms cache_baseD(12) by (auto simp: cache_inv_def)

lemma stream_cells_simps [simp]:
  "kv_pos (stream_cells s x) = kv_pos (kc_cells x ! s)" "kv_seq (stream_cells s x) = kv_seq (kc_cells x ! s)"
  "kv_ext (stream_cells s x) = kv_ext (kc_cells x ! s)" "kv_shift (stream_cells s x) = kv_shift (kc_cells x ! s)"
  "kv_has_shift (stream_cells s x) = kv_has_shift (kc_cells x ! s)" "kv_used (stream_cells s x) = kv_used (kc_cells x ! s)"
  "kv_seq_pos (stream_cells s x) = kv_seq_pos (kc_cells x ! s)"
  by (simp_all add: stream_cells_def)

lemma stream_cells_inv: "cache_base K N x \<Longrightarrow> s < cc_n_stream K \<Longrightarrow> kv_inv (stream_cells s x)"
  by (simp add: stream_cells_def cache_baseD kv_inv_glob)

lemma cell_queries:
  assumes "cache_base K N x" and "s < cc_n_stream K" and "i < N"
  shows "pos_in i p0 p1 (stream_cells s x) = Some (p0 \<le> cpos x s i \<and> cpos x s i < p1)"
    "q < LLAMA_MAX_SEQ \<Longrightarrow> seq_has i q (stream_cells s x) = Some (q \<in> cseq x s i)"
    "cpos x s i \<noteq> -1 \<Longrightarrow> pos_get i (stream_cells s x) = Some (cpos x s i)"
    "cpos x s i \<noteq> -1 \<Longrightarrow> ext_get i (stream_cells s x) = Some (cext x s i)"
    "cpos x s i \<noteq> -1 \<Longrightarrow> get_shift i (stream_cells s x) = Some (cshift x s i)"
    "cpos x s i \<noteq> -1 \<Longrightarrow> seq_count i (stream_cells s x) = Some (card (cseq x s i))"
    "is_empty i (stream_cells s x) = Some (cpos x s i = -1)"
    "seq_for_each i (stream_cells s x) = Some (filter (\<lambda>q. q \<in> cseq x s i) [0..<LLAMA_MAX_SEQ])"
proof -
  have len: "kv_size (kc_cells x ! s) = N" "length (kv_seq (kc_cells x ! s)) = N"
    using assms(1,2) kv_invD(3) by (simp_all add: cache_baseD)
  have low: "-1 \<le> cpos x s i" by (rule cache_baseD(11) [OF assms])
  show "pos_in i p0 p1 (stream_cells s x) = Some (p0 \<le> cpos x s i \<and> cpos x s i < p1)"
    "q < LLAMA_MAX_SEQ \<Longrightarrow> seq_has i q (stream_cells s x) = Some (q \<in> cseq x s i)"
    "cpos x s i \<noteq> -1 \<Longrightarrow> pos_get i (stream_cells s x) = Some (cpos x s i)"
    "cpos x s i \<noteq> -1 \<Longrightarrow> ext_get i (stream_cells s x) = Some (cext x s i)"
    "cpos x s i \<noteq> -1 \<Longrightarrow> get_shift i (stream_cells s x) = Some (cshift x s i)"
    "cpos x s i \<noteq> -1 \<Longrightarrow> seq_count i (stream_cells s x) = Some (card (cseq x s i))"
    "seq_for_each i (stream_cells s x) = Some (filter (\<lambda>q. q \<in> cseq x s i) [0..<LLAMA_MAX_SEQ])"
    using assms(3) len
    by (simp_all add: pos_in_def seq_has_def pos_get_def ext_get_def get_shift_def seq_count_def seq_for_each_def)
  show "is_empty i (stream_cells s x) = Some (cpos x s i = -1)"
    using assms(3) len low by (auto simp: is_empty_def)
qed

section \<open>Changing one cell\<close>

definition upd_cell :: "nat \<Rightarrow> nat \<Rightarrow> cell_state \<Rightarrow> bool \<Rightarrow> kv_cache \<Rightarrow> kv_cache" where
  "upd_cell s i v f x = (case v of (p, q, e, d) \<Rightarrow>
     put_cells s ((touch i (kv_upd i p q e d (stream_cells s x)))\<lparr> kv_has_shift := f \<rparr>) x)"

lemma upd_flag_same [simp]:
  "(touch i (kv_upd i p q e d (stream_cells s x)))\<lparr> kv_has_shift := kv_has_shift (kc_cells x ! s) \<rparr> =
    touch i (kv_upd i p q e d (stream_cells s x))"
  by (simp add: touch_def kv_upd_def)

lemma upd_cell_frame [simp]:
  "kc_heads (upd_cell s i v f x) = kc_heads x" "kc_seq_to_stream (upd_cell s i v f x) = kc_seq_to_stream x"
  "kc_stash_dirty (upd_cell s i v f x) = kc_stash_dirty x" "kc_ownership (upd_cell s i v f x) = kc_ownership x"
  "kc_repr_epoch (upd_cell s i v f x) = kc_repr_epoch x" "kc_ckpt_epoch (upd_cell s i v f x) = kc_ckpt_epoch x"
  "kc_seq_epochs (upd_cell s i v f x) = kc_seq_epochs x" "kc_receipt (upd_cell s i v f x) = kc_receipt x"
  "kc_copies (upd_cell s i v f x) = kc_copies x" "kc_calls (upd_cell s i v f x) = kc_calls x"
  "length (kc_cells (upd_cell s i v f x)) = length (kc_cells x)"
  by (simp_all add: upd_cell_def put_cells_def split: prod.split)

lemma upd_cell_cells:
  assumes "cache_base K N x" and "s < cc_n_stream K" and "i < N"
  shows "cell_of (upd_cell s i v f x) = (cell_of x)((s, i) := v)"
    and "s' < cc_n_stream K \<Longrightarrow> cflag (upd_cell s i v f x) s' = (if s' = s then f else cflag x s')"
proof -
  have "length (kv_seq (kc_cells x ! s)) = N" "length (kv_ext (kc_cells x ! s)) = N"
      "length (kv_shift (kc_cells x ! s)) = N" "kv_size (kc_cells x ! s) = N" "length (kc_cells x) = cc_n_stream K"
    using assms cache_baseD [OF assms(1)] kv_invD(1-3) [of "kc_cells x ! s"] by simp_all
  then show "cell_of (upd_cell s i v f x) = (cell_of x)((s, i) := v)"
    "s' < cc_n_stream K \<Longrightarrow> cflag (upd_cell s i v f x) s' = (if s' = s then f else cflag x s')"
    using assms(2,3)
    by (auto simp: cell_of_def upd_cell_def put_cells_def kv_upd_def nth_list_update fun_eq_iff split: prod.splits)
qed

lemma cell_of_fields:
  "cell_of x = cell_of y \<Longrightarrow> cpos x s i = cpos y s i" "cell_of x = cell_of y \<Longrightarrow> cseq x s i = cseq y s i"
  by (simp_all add: cell_of_def fun_eq_iff)

lemma upd_cell_fields:
  assumes "cache_base K N x" and "s < cc_n_stream K" and "i < N"
  shows "cpos (upd_cell s i (p, q, e, d) f x) s' i' = (if (s', i') = (s, i) then p else cpos x s' i')"
    "cseq (upd_cell s i (p, q, e, d) f x) s' i' = (if (s', i') = (s, i) then q else cseq x s' i')"
    "cext (upd_cell s i (p, q, e, d) f x) s' i' = (if (s', i') = (s, i) then e else cext x s' i')"
    "cshift (upd_cell s i (p, q, e, d) f x) s' i' = (if (s', i') = (s, i) then d else cshift x s' i')"
  using upd_cell_cells(1) [OF assms, of "(p, q, e, d)" f] by (auto simp: cell_of_def fun_eq_iff split: if_splits)

text \<open>A state a cell of stream \<open>s\<close> may have.\<close>

definition cell_fits :: "kv_cache \<Rightarrow> nat \<Rightarrow> cell_state \<Rightarrow> bool" where
  "cell_fits x s v \<longleftrightarrow> (case v of (p, q, e, d) \<Rightarrow> -1 \<le> p \<and> (p = -1 \<longrightarrow> q = {}) \<and>
     (\<forall>r \<in> q. r < length (kc_seq_to_stream x) \<and> kc_seq_to_stream x ! r = s))"

lemma upd_cell_base:
  assumes base: "cache_base K N x" and s: "s < cc_n_stream K" and i: "i < N" and v: "cell_fits x s v"
  shows "cache_base K N (upd_cell s i v f x)"
proof -
  obtain p q e d where v': "v = (p, q, e, d)" by (metis prod_cases4)
  have q: "q \<subseteq> {..<LLAMA_MAX_SEQ}" using v cache_baseD(5) [OF base] by (auto simp: v' cell_fits_def)
  have cells: "kc_cells (upd_cell s i v f x) ! s' = (if s' = s
      then (touch i (kv_upd i p q e d (stream_cells s x)))\<lparr> kv_has_shift := f \<rparr> else kc_cells x ! s')"
    if "s' < cc_n_stream K" for s'
    using that cache_baseD(1) [OF base] by (simp add: upd_cell_def put_cells_def v')
  have "kv_inv ((touch i (kv_upd i p q e d (stream_cells s x)))\<lparr> kv_has_shift := f \<rparr>)"
    using v q i cache_baseD(8) [OF base s]
    by (intro kv_inv_flag kv_inv_touch kv_inv_upd stream_cells_inv [OF base s]) (auto simp: v' cell_fits_def)
  moreover have "kv_size ((touch i (kv_upd i p q e d (stream_cells s x)))\<lparr> kv_has_shift := f \<rparr>) = N"
    using cache_baseD(8) [OF base s] by (simp add: kv_upd_def)
  ultimately have cells_ok: "kv_inv (kc_cells (upd_cell s i v f x) ! s') \<and> kv_size (kc_cells (upd_cell s i v f x) ! s') = N"
    if "s' < cc_n_stream K" for s'
    using cells [OF that] cache_baseD(7,8) [OF base that] by simp
  have "q' < length (kc_seq_to_stream x) \<and> kc_seq_to_stream x ! q' = s'"
    if "s' < cc_n_stream K" "i' < N" "q' \<in> cseq (upd_cell s i v f x) s' i'" for s' i' q'
    using that v cache_baseD(10) [OF base that(1,2), of q'] upd_cell_fields(2) [OF base s i, of p q e d f s' i']
    by (simp only: v' cell_fits_def prod.case split: if_splits) auto
  with cells_ok cache_baseD(9) [OF base] have "kv_inv (kc_cells (upd_cell s i v f x) ! s') \<and>
      kv_size (kc_cells (upd_cell s i v f x) ! s') = N \<and>
      kc_heads x ! s' \<le> N \<and> (\<forall>i' < N. \<forall>q' \<in> cseq (upd_cell s i v f x) s' i'.
        q' < length (kc_seq_to_stream x) \<and> kc_seq_to_stream x ! q' = s')" if "s' < cc_n_stream K" for s'
    using that by blast
  then show ?thesis using base unfolding cache_base_def by simp
qed

lemma upd_cell_inv:
  assumes inv: "cache_inv K N x" and s: "s < cc_n_stream K" and i: "i < N" and v: "cell_fits x s v"
    and owned: "fst v \<noteq> -1 \<Longrightarrow> fst (snd v) \<noteq> {}"
  shows "cache_inv K N (upd_cell s i v f x)"
proof -
  obtain p q e d where v': "v = (p, q, e, d)" by (metis prod_cases4)
  have base: "cache_base K N x" using inv by (rule cache_invD)
  show ?thesis
    using inv owned upd_cell_base [OF base s i v, of f] upd_cell_fields [OF base s i]
    by (simp add: cache_inv_def v')
qed

section \<open>The cell operations on a cache\<close>

lemma on_cellsI: "cache_base K N x \<Longrightarrow> s < cc_n_stream K \<Longrightarrow>
    on_cells s g x = map_option (\<lambda>c. put_cells s c x) (g (stream_cells s x))"
  by (cases "g (stream_cells s x)") (simp_all add: on_cells_def cache_baseD)

lemma on_cells_flagI: "cache_base K N x \<Longrightarrow> s < cc_n_stream K \<Longrightarrow>
    on_cells_flag s g x = map_option (\<lambda>(b, c). (b, put_cells s c x)) (g (stream_cells s x))"
  by (cases "g (stream_cells s x)") (simp_all add: on_cells_flag_def cache_baseD split: prod.split)

lemma cache_cell_ops:
  assumes base: "cache_base K N x" and s: "s < cc_n_stream K" and i: "i < N"
  shows "cpos x s i \<noteq> -1 \<Longrightarrow> on_cells s (kv_rm i) x = Some (upd_cell s i (-1, {}, ext_default, 0) (cflag x s) x)"
    "q \<in> cseq x s i \<Longrightarrow> on_cells_flag s (kv_seq_rm i q) x =
      (if cseq x s i = {q} then Some (True, upd_cell s i (-1, {}, ext_default, 0) (cflag x s) x)
       else Some (False, upd_cell s i (cpos x s i, cseq x s i - {q}, cext x s i, cshift x s i) (cflag x s) x))"
    "q < LLAMA_MAX_SEQ \<Longrightarrow> q \<notin> cseq x s i \<Longrightarrow> cpos x s i \<noteq> -1 \<Longrightarrow> on_cells s (kv_seq_add i q) x =
      Some (upd_cell s i (cpos x s i, insert q (cseq x s i), cext x s i, cshift x s i) (cflag x s) x)"
    "cpos x s i = -1 \<Longrightarrow> p \<noteq> -1 \<Longrightarrow> on_cells s (kv_pos_set i p) x =
      Some (upd_cell s i (p, {}, cext x s i, cshift x s i) (cflag x s) x)"
    "on_cells s (kv_ext_set i e) x = Some (upd_cell s i (cpos x s i, cseq x s i, e, cshift x s i) (cflag x s) x)"
    "cpos x s i \<noteq> -1 \<Longrightarrow> on_cells_flag s (kv_pos_add_impl i d rot txt) x =
      (if cpos x s i + d < 0
       then Some (True, upd_cell s i (-1, {}, shifted_ext txt d (cext x s i), 0) (cflag x s \<or> rot) x)
       else Some (False, upd_cell s i (cpos x s i + d, cseq x s i, shifted_ext txt d (cext x s i),
              if rot then cshift x s i + d else cshift x s i) (cflag x s \<or> rot) x))"
    "cpos x s i \<noteq> -1 \<Longrightarrow> 0 < d \<Longrightarrow> on_cells s (kv_pos_div i d) x =
      Some (upd_cell s i (cpos x s i div d, cseq x s i, cext x s i,
              cshift x s i + (cpos x s i - cpos x s i div d)) True x)"
proof -
  note inv = stream_cells_inv [OF base s] and I = on_cellsI [OF base s] on_cells_flagI [OF base s]
  have i': "i < kv_size (stream_cells s x)" using i s by (simp add: cache_baseD [OF base])
  note eqs = kv_simps [OF inv i', simplified]
  show "cpos x s i \<noteq> -1 \<Longrightarrow> on_cells s (kv_rm i) x = Some (upd_cell s i (-1, {}, ext_default, 0) (cflag x s) x)"
    by (simp add: I kv_rm_eq [OF inv i'] upd_cell_def)
  show "q \<in> cseq x s i \<Longrightarrow> on_cells_flag s (kv_seq_rm i q) x =
      (if cseq x s i = {q} then Some (True, upd_cell s i (-1, {}, ext_default, 0) (cflag x s) x)
       else Some (False, upd_cell s i (cpos x s i, cseq x s i - {q}, cext x s i, cshift x s i) (cflag x s) x))"
    by (simp add: I kv_seq_rm_eq [OF inv i'] upd_cell_def)
  show "q < LLAMA_MAX_SEQ \<Longrightarrow> q \<notin> cseq x s i \<Longrightarrow> cpos x s i \<noteq> -1 \<Longrightarrow> on_cells s (kv_seq_add i q) x =
      Some (upd_cell s i (cpos x s i, insert q (cseq x s i), cext x s i, cshift x s i) (cflag x s) x)"
    by (simp add: I kv_seq_add_eq [OF inv i'] upd_cell_def)
  show "cpos x s i = -1 \<Longrightarrow> p \<noteq> -1 \<Longrightarrow> on_cells s (kv_pos_set i p) x =
      Some (upd_cell s i (p, {}, cext x s i, cshift x s i) (cflag x s) x)"
    by (simp add: I kv_pos_set_eq [OF inv i'] upd_cell_def)
  show "on_cells s (kv_ext_set i e) x = Some (upd_cell s i (cpos x s i, cseq x s i, e, cshift x s i) (cflag x s) x)"
    by (simp add: I kv_ext_set_eq [OF inv i'] upd_cell_def)
  show "cpos x s i \<noteq> -1 \<Longrightarrow> on_cells_flag s (kv_pos_add_impl i d rot txt) x =
      (if cpos x s i + d < 0
       then Some (True, upd_cell s i (-1, {}, shifted_ext txt d (cext x s i), 0) (cflag x s \<or> rot) x)
       else Some (False, upd_cell s i (cpos x s i + d, cseq x s i, shifted_ext txt d (cext x s i),
              if rot then cshift x s i + d else cshift x s i) (cflag x s \<or> rot) x))"
    by (simp add: I kv_pos_add_impl_eq [OF inv i'] upd_cell_def Let_def)
  show "cpos x s i \<noteq> -1 \<Longrightarrow> 0 < d \<Longrightarrow> on_cells s (kv_pos_div i d) x =
      Some (upd_cell s i (cpos x s i div d, cseq x s i, cext x s i,
              cshift x s i + (cpos x s i - cpos x s i div d)) True x)"
    by (simp add: I kv_pos_div_eq [OF inv i'] upd_cell_def Let_def)
qed

end
