(* ===== verification/Cache_Index.thy ===== *)
theory Cache_Index
  imports Cache_Invariant
begin

text \<open>
  The ownership index of a cache and the cells it mirrors: \<open>idx_ok\<close> says that every available view of
  the index is the given map from cells to positions. One index operation of the cache changes one
  of these maps; an unavailable view answers no query and stays out of the relation.
\<close>

type_synonym owner_maps = "nat \<Rightarrow> nat \<Rightarrow> nat \<Rightarrow> nat option"

definition owner_maps :: "nat \<Rightarrow> kv_cache \<Rightarrow> owner_maps" where
  "owner_maps N x s q i = (if i < N \<and> q \<in> cseq x s i then Some (nat (cpos x s i)) else None)"

definition views_agree :: "nat \<Rightarrow> nat \<Rightarrow> owners \<Rightarrow> owner_maps \<Rightarrow> bool" where
  "views_agree S Q M F \<longleftrightarrow> (\<forall>s < S. \<forall>q < Q. M s (int q) = None \<or> M s (int q) = Some (F s q))"

definition index_tracks :: "nat \<Rightarrow> nat \<Rightarrow> nat \<Rightarrow> owner_maps \<Rightarrow> ownership_index \<Rightarrow> bool" where
  "index_tracks S Q N F ix \<longleftrightarrow> n_stream ix = S \<and> n_seq_max ix = Q \<and> n_cells ix = N \<and>
     (\<exists>M. index_rep ix M \<and> views_agree S Q M F)"

definition idx_ok :: "cache_config \<Rightarrow> nat \<Rightarrow> owner_maps \<Rightarrow> kv_cache \<Rightarrow> bool" where
  "idx_ok K N F x \<longleftrightarrow> (case kc_ownership x of None \<Rightarrow> True
     | Some ix \<Rightarrow> index_tracks (cc_n_stream K) (length (kc_seq_to_stream x)) N F ix)"

abbreviation in_sync :: "cache_config \<Rightarrow> nat \<Rightarrow> kv_cache \<Rightarrow> bool" where
  "in_sync K N x \<equiv> idx_ok K N (owner_maps N x) x"

definition put_map :: "nat \<Rightarrow> nat \<Rightarrow> nat \<Rightarrow> nat option \<Rightarrow> owner_maps \<Rightarrow> owner_maps" where
  "put_map s q i v F = F(s := (F s)(q := (F s q)(i := v)))"

lemma put_map_at: "put_map s q i v F s' q' i' = (if s' = s \<and> q' = q \<and> i' = i then v else F s' q' i')"
  by (simp add: put_map_def)

lemma index_op_idx:
  assumes ok: "idx_ok K N F x"
    and step: "\<And>ix M. \<lbrakk> kc_ownership x = Some ix; n_stream ix = cc_n_stream K;
        n_seq_max ix = length (kc_seq_to_stream x); n_cells ix = N;
        views_agree (cc_n_stream K) (length (kc_seq_to_stream x)) M F \<rbrakk> \<Longrightarrow>
      own_ok ix M op \<and>
      views_agree (cc_n_stream K) (length (kc_seq_to_stream x)) (own_spec (n_positions ix) op M) F'"
  shows "\<exists>ow. index_op op x = Some (x\<lparr> kc_ownership := ow \<rparr>) \<and> (ow = None \<longleftrightarrow> kc_ownership x = None) \<and>
    idx_ok K N F' (x\<lparr> kc_ownership := ow \<rparr>)"
proof (cases "kc_ownership x")
  case None
  then have "index_op op x = Some (x\<lparr> kc_ownership := None \<rparr>)" by (simp add: index_op_def)
  then show ?thesis using None by (intro exI [of _ None]) (simp add: idx_ok_def)
next
  case (Some ix)
  then obtain M where M: "index_rep ix M" "views_agree (cc_n_stream K) (length (kc_seq_to_stream x)) M F"
    and dims: "n_stream ix = cc_n_stream K" "n_seq_max ix = length (kc_seq_to_stream x)" "n_cells ix = N"
    using ok by (auto simp: idx_ok_def index_tracks_def)
  obtain ix' where "own_exec op ix = Some ix'" "same_dims ix ix'" "index_rep ix' (own_spec (n_positions ix) op M)"
    using own_exec_rep [OF M(1)] step [OF Some dims M(2)] by blast
  then show ?thesis
    using Some dims step [OF Some dims M(2)]
    by (intro exI [of _ "Some ix'"]) (auto simp: index_op_def idx_ok_def index_tracks_def)
qed

text \<open>The operations the cache uses.\<close>

lemma index_remove:
  assumes "idx_ok K N F x" and "s < cc_n_stream K" and "q < length (kc_seq_to_stream x)" and "i < N"
    and "F s q i \<noteq> None \<longrightarrow> 0 \<le> p \<and> F s q i = Some (nat p)"
  shows "\<exists>ow. index_op (Remove_Cell s (int q) i p) x = Some (x\<lparr> kc_ownership := ow \<rparr>) \<and>
    (ow = None \<longleftrightarrow> kc_ownership x = None) \<and> idx_ok K N (put_map s q i None F) (x\<lparr> kc_ownership := ow \<rparr>)"
  using assms(1)
proof (rule index_op_idx, goal_cases)
  case (1 ix M)
  then have "M s (int q) = None \<or> M s (int q) = Some (F s q)" using assms(2,3) by (simp add: views_agree_def)
  with 1 assms show ?case
    by (cases "M s (int q)") (auto simp: views_agree_def set_owners_def put_map_def dom_def)
qed

lemma index_add:
  assumes "idx_ok K N F x" and "s < cc_n_stream K" and "q < length (kc_seq_to_stream x)" and "i < N"
    and "F s q i = None"
  shows "\<exists>ow. index_op (Add_Cell s (int q) i p) x = Some (x\<lparr> kc_ownership := ow \<rparr>) \<and>
    (ow = None \<longleftrightarrow> kc_ownership x = None) \<and> idx_ok K N (put_map s q i (Some (nat p)) F) (x\<lparr> kc_ownership := ow \<rparr>)"
  using assms(1)
proof (rule index_op_idx, goal_cases)
  case (1 ix M)
  then have "M s (int q) = None \<or> M s (int q) = Some (F s q)" using assms(2,3) by (simp add: views_agree_def)
  with 1 assms show ?case
    by (cases "M s (int q)") (auto simp: views_agree_def set_owners_def put_map_def dom_def)
qed

lemma index_move:
  assumes "idx_ok K N F x" and "s < cc_n_stream K" and "q < length (kc_seq_to_stream x)" and "i < N"
    and "0 \<le> p" and "F s q i = Some (nat p)"
  shows "\<exists>ow. index_op (Move_Cell s (int q) i p p') x = Some (x\<lparr> kc_ownership := ow \<rparr>) \<and>
    (ow = None \<longleftrightarrow> kc_ownership x = None) \<and> idx_ok K N (put_map s q i (Some (nat p')) F) (x\<lparr> kc_ownership := ow \<rparr>)"
  using assms(1)
proof (rule index_op_idx, goal_cases)
  case (1 ix M)
  then have "M s (int q) = None \<or> M s (int q) = Some (F s q)" using assms(2,3) by (simp add: views_agree_def)
  with 1 assms show ?case
    by (cases "M s (int q)") (auto simp: views_agree_def set_owners_def put_map_def dom_def)
qed

lemma index_clear_seq:
  assumes "idx_ok K N F x" and "s < cc_n_stream K" and "q < length (kc_seq_to_stream x)"
    and "F s q = Map.empty"
  shows "\<exists>ow. index_op (Clear_Seq s (int q)) x = Some (x\<lparr> kc_ownership := ow \<rparr>) \<and>
    (ow = None \<longleftrightarrow> kc_ownership x = None) \<and> idx_ok K N F (x\<lparr> kc_ownership := ow \<rparr>)"
  using assms(1)
proof (rule index_op_idx, goal_cases)
  case (1 ix M)
  with assms show ?case by (auto simp: views_agree_def set_owners_def)
qed

lemma index_clear_all:
  assumes "idx_ok K N F x"
  shows "\<exists>ow. index_op Clear_All x = Some (x\<lparr> kc_ownership := ow \<rparr>) \<and>
    (ow = None \<longleftrightarrow> kc_ownership x = None) \<and> idx_ok K N (\<lambda>_ _. Map.empty) (x\<lparr> kc_ownership := ow \<rparr>)"
  using assms by (rule index_op_idx) (simp add: views_agree_def)

text \<open>Removing a cell from the views of several sequences.\<close>

definition drop_maps :: "nat \<Rightarrow> nat set \<Rightarrow> nat \<Rightarrow> owner_maps \<Rightarrow> owner_maps" where
  "drop_maps s A i F = (\<lambda>s' q. if s' = s \<and> q \<in> A then (F s q)(i := None) else F s' q)"

lemma index_remove_seqs:
  assumes "idx_ok K N F x" and "s < cc_n_stream K" and "i < N"
    and "\<And>q. q \<in> set qs \<Longrightarrow> \<not> skip q \<Longrightarrow> q < length (kc_seq_to_stream x) \<and> (F s q i \<noteq> None \<longrightarrow> 0 \<le> p \<and> F s q i = Some (nat p))"
  shows "\<exists>ow. foldM (\<lambda>q. if skip q then Some else index_op (Remove_Cell s (int q) i p)) qs x = Some (x\<lparr> kc_ownership := ow \<rparr>) \<and>
    (ow = None \<longleftrightarrow> kc_ownership x = None) \<and>
    idx_ok K N (drop_maps s {q \<in> set qs. \<not> skip q} i F) (x\<lparr> kc_ownership := ow \<rparr>)"
  using assms(1,4)
proof (induction qs arbitrary: x F)
  case Nil
  then show ?case by (intro exI [of _ "kc_ownership x"]) (simp add: drop_maps_def)
next
  case (Cons q qs)
  show ?case
  proof (cases "skip q")
    case True
    then have "{r \<in> set (q # qs). \<not> skip r} = {r \<in> set qs. \<not> skip r}" by auto
    moreover have "\<exists>ow. foldM (\<lambda>q. if skip q then Some else index_op (Remove_Cell s (int q) i p)) qs x = Some (x\<lparr> kc_ownership := ow \<rparr>) \<and>
        (ow = None \<longleftrightarrow> kc_ownership x = None) \<and>
        idx_ok K N (drop_maps s {q \<in> set qs. \<not> skip q} i F) (x\<lparr> kc_ownership := ow \<rparr>)"
      by (rule Cons.IH [OF Cons.prems(1)]) (use Cons.prems(2) in auto)
    ultimately show ?thesis using True by simp
  next
    case False
    have q: "q < length (kc_seq_to_stream x)" "F s q i \<noteq> None \<longrightarrow> 0 \<le> p \<and> F s q i = Some (nat p)"
      using Cons.prems(2) [of q] False by auto
    obtain ow where ow: "index_op (Remove_Cell s (int q) i p) x = Some (x\<lparr> kc_ownership := ow \<rparr>)"
        "ow = None \<longleftrightarrow> kc_ownership x = None" "idx_ok K N (put_map s q i None F) (x\<lparr> kc_ownership := ow \<rparr>)"
      using index_remove [OF Cons.prems(1) assms(2) q(1) assms(3) q(2)]
      by (elim exE conjE) (rule that)
    have "\<exists>ow'. foldM (\<lambda>q. if skip q then Some else index_op (Remove_Cell s (int q) i p)) qs (x\<lparr> kc_ownership := ow \<rparr>) =
        Some (x\<lparr> kc_ownership := ow \<rparr>\<lparr> kc_ownership := ow' \<rparr>) \<and> (ow' = None \<longleftrightarrow> kc_ownership (x\<lparr> kc_ownership := ow \<rparr>) = None) \<and>
        idx_ok K N (drop_maps s {r \<in> set qs. \<not> skip r} i (put_map s q i None F)) (x\<lparr> kc_ownership := ow \<rparr>\<lparr> kc_ownership := ow' \<rparr>)"
      by (rule Cons.IH [OF ow(3)]) (use Cons.prems(2) in \<open>auto simp: put_map_at\<close>)
    moreover have "drop_maps s {r \<in> set qs. \<not> skip r} i (put_map s q i None F) = drop_maps s {r \<in> set (q # qs). \<not> skip r} i F"
      using False by (auto simp: drop_maps_def put_map_def fun_eq_iff)
    ultimately show ?thesis using ow(1,2) False by auto
  qed
qed

section \<open>Owners of an updated cell\<close>

lemma owner_maps_upd:
  assumes "cache_base K N x" and "s < cc_n_stream K" and "i < N"
  shows "owner_maps N (upd_cell s i v f x) s' r i' =
    (if s' = s \<and> i' = i then (if r \<in> fst (snd v) then Some (nat (fst v)) else None) else owner_maps N x s' r i')"
proof -
  obtain p q e d where v: "v = (p, q, e, d)" by (metis prod_cases4)
  show ?thesis
    using assms(3) upd_cell_fields(1,2) [OF assms, of p q e d f s' i'] by (auto simp: v owner_maps_def)
qed

lemma owner_maps_cells: "cell_of x = cell_of y \<Longrightarrow> owner_maps N x = owner_maps N y"
  by (simp add: owner_maps_def fun_eq_iff cell_of_fields [of x y])

lemma idx_ok_cong:
  assumes "idx_ok K N F x" and "kc_ownership y = kc_ownership x" and "kc_seq_to_stream y = kc_seq_to_stream x"
    and "\<And>s q. s < cc_n_stream K \<Longrightarrow> q < length (kc_seq_to_stream x) \<Longrightarrow> F' s q = F s q"
  shows "idx_ok K N F' y"
  using assms by (auto simp: idx_ok_def index_tracks_def views_agree_def split: option.splits)

lemma owner_maps_pos:
  assumes "cache_base K N x" and "s < cc_n_stream K"
  shows "owner_maps N x s q i \<noteq> None \<longrightarrow> 0 \<le> cpos x s i \<and> owner_maps N x s q i = Some (nat (cpos x s i))"
proof
  assume "owner_maps N x s q i \<noteq> None"
  then have "i < N" "q \<in> cseq x s i" by (auto simp: owner_maps_def split: if_splits)
  then show "0 \<le> cpos x s i \<and> owner_maps N x s q i = Some (nat (cpos x s i))"
    using cache_baseD(11,12) [OF assms, of i] by (cases "cpos x s i = -1") (auto simp: owner_maps_def)
qed

end
