(* ===== verification/Cache_Edits.thy ===== *)
theory Cache_Edits
  imports Cache_Index
begin

text \<open>
  The sequence edits of the cache. A loop over the cells of a stream keeps \<open>edit_inv\<close>: the cache
  invariant, the agreement of the ownership index with the cells, everything the loop leaves alone,
  and a stamp at the generation tracker for every cell whose metadata changed. The effect of each
  edit is a function of the cell.
\<close>

section \<open>What the loops keep\<close>

definition edit_frame :: "kv_cache \<Rightarrow> kv_cache \<Rightarrow> bool" where
  "edit_frame x y \<longleftrightarrow> kc_seq_to_stream y = kc_seq_to_stream x \<and>
     kc_repr_epoch y = kc_repr_epoch x \<and> kc_ckpt_epoch y = kc_ckpt_epoch x \<and>
     kc_seq_epochs y = kc_seq_epochs x \<and> kc_copies y = kc_copies x \<and>
     (kc_ownership y = None \<longleftrightarrow> kc_ownership x = None)"

text \<open>What the cache passes to the tracker: events of placed tokens are dependency events, and a stamp names
  at least one sequence in the tracker's range, exactly one unless it is a token's.\<close>

definition token_event :: "mutation_registrant \<Rightarrow> bool" where
  "token_event r \<longleftrightarrow> r = Reg_apply_ubatch_append \<or> r = Reg_apply_ubatch_occupied_reuse"

fun call_ok :: "tracker_call \<Rightarrow> bool" where
  "call_ok (Gen_Begin r c s k d) \<longleftrightarrow> (k = Stamp_membership \<longrightarrow> \<not> token_event r)"
| "call_ok (Gen_Stamp r s i qs p) \<longleftrightarrow> qs \<noteq> [] \<and> (length qs = 1 \<or> token_event r) \<and> (\<forall>q \<in> set qs. -1 \<le> q \<and> q \<le> 32767)"
| "call_ok (Gen_Global r c) \<longleftrightarrow> True"

definition stamped :: "cache_config \<Rightarrow> kv_cache \<Rightarrow> kv_cache \<Rightarrow> bool" where
  "stamped K x y \<longleftrightarrow> (\<exists>calls. kc_calls y = kc_calls x @ calls \<and> (\<forall>t \<in> set calls. call_ok t) \<and>
     (cc_armed K \<longrightarrow> (\<forall>s i. cell_of y (s, i) \<noteq> cell_of x (s, i) \<longrightarrow>
        (\<exists>r qs p. Gen_Stamp r s i qs p \<in> set calls))))"

definition edit_inv :: "cache_config \<Rightarrow> nat \<Rightarrow> bool \<Rightarrow> kv_cache \<Rightarrow> kv_cache \<Rightarrow> bool" where
  "edit_inv K N commit x0 x \<longleftrightarrow> cache_inv K N x \<and> edit_frame x0 x \<and>
     (if commit then in_sync K N x \<and> stamped K x0 x
      else kc_ownership x = kc_ownership x0 \<and> kc_calls x = kc_calls x0)"

lemma edit_frame_refl [simp]: "edit_frame x x"
  by (simp add: edit_frame_def)

lemma stamped_refl: "kc_calls y = kc_calls x @ calls \<Longrightarrow> \<forall>t \<in> set calls. call_ok t \<Longrightarrow> cell_of y = cell_of x \<Longrightarrow> stamped K x y"
  by (simp add: stamped_def)

lemma stamped_step:
  assumes "stamped K x y" and "cell_of z = (cell_of y)((s, i) := v)"
    and "cc_armed K \<Longrightarrow> kc_calls z = kc_calls y @ [Gen_Stamp r s i qs p]"
    and "\<not> cc_armed K \<Longrightarrow> kc_calls z = kc_calls y" and ok: "call_ok (Gen_Stamp r s i qs p)"
  shows "stamped K x z"
proof (cases "cc_armed K")
  case True
  from assms(1) obtain calls where calls: "kc_calls y = kc_calls x @ calls" "\<forall>t \<in> set calls. call_ok t"
      "\<And>s i. cell_of y (s, i) \<noteq> cell_of x (s, i) \<Longrightarrow> \<exists>r qs p. Gen_Stamp r s i qs p \<in> set calls"
    using True by (auto simp: stamped_def)
  show ?thesis
    unfolding stamped_def
  proof (intro exI [of _ "calls @ [Gen_Stamp r s i qs p]"] conjI impI allI)
    show "kc_calls z = kc_calls x @ (calls @ [Gen_Stamp r s i qs p])"
      using True calls(1) assms(3) by simp
    show "\<forall>t \<in> set (calls @ [Gen_Stamp r s i qs p]). call_ok t" using calls(2) ok by simp
    fix s' i' assume changed: "cell_of z (s', i') \<noteq> cell_of x (s', i')"
    show "\<exists>r' qs' p'. Gen_Stamp r' s' i' qs' p' \<in> set (calls @ [Gen_Stamp r s i qs p])"
    proof (cases "(s', i') = (s, i)")
      case False
      then have "cell_of z (s', i') = cell_of y (s', i')" using assms(2) by auto
      with changed calls(3) [of s' i'] show ?thesis by auto
    qed auto
  qed
qed (use assms in \<open>auto simp: stamped_def\<close>)

lemma edit_invD:
  assumes "edit_inv K N commit x0 x"
  shows "cache_inv K N x" "cache_base K N x" "edit_frame x0 x" "commit \<Longrightarrow> in_sync K N x"
    "kc_seq_to_stream x = kc_seq_to_stream x0"
  using assms by (auto simp: edit_inv_def edit_frame_def dest: cache_invD(1))

text \<open>Record fields the invariant does not look at.\<close>

lemma cache_inv_cong:
  assumes "cache_inv K N x" and "kc_cells y = kc_cells x" and "kc_heads y = kc_heads x"
    and "kc_seq_to_stream y = kc_seq_to_stream x"
  shows "cache_inv K N y"
  using assms by (simp add: cache_inv_def cache_base_def)

lemma tracker_fields [simp]:
  "kc_cells (tracker_if b K t x) = kc_cells x" "kc_heads (tracker_if b K t x) = kc_heads x"
  "kc_seq_to_stream (tracker_if b K t x) = kc_seq_to_stream x" "kc_ownership (tracker_if b K t x) = kc_ownership x"
  "kc_repr_epoch (tracker_if b K t x) = kc_repr_epoch x" "kc_ckpt_epoch (tracker_if b K t x) = kc_ckpt_epoch x"
  "kc_seq_epochs (tracker_if b K t x) = kc_seq_epochs x" "kc_receipt (tracker_if b K t x) = kc_receipt x"
  "kc_copies (tracker_if b K t x) = kc_copies x" "kc_stash_dirty (tracker_if b K t x) = kc_stash_dirty x"
  "kc_glob (tracker_if b K t x) = kc_glob x"
  "kc_calls (tracker_if b K t x) = (if b \<and> cc_armed K then kc_calls x @ [t] else kc_calls x)"
  by (simp_all add: tracker_if_def tracker_def)

lemma tracker_always: "tracker K t x = tracker_if True K t x"
  by (simp add: tracker_if_def)

lemma stash_fields [simp]:
  "kc_cells (stash_touch K i x) = kc_cells x" "kc_heads (stash_touch K i x) = kc_heads x"
  "kc_seq_to_stream (stash_touch K i x) = kc_seq_to_stream x" "kc_ownership (stash_touch K i x) = kc_ownership x"
  "kc_repr_epoch (stash_touch K i x) = kc_repr_epoch x" "kc_ckpt_epoch (stash_touch K i x) = kc_ckpt_epoch x"
  "kc_seq_epochs (stash_touch K i x) = kc_seq_epochs x" "kc_receipt (stash_touch K i x) = kc_receipt x"
  "kc_copies (stash_touch K i x) = kc_copies x" "kc_calls (stash_touch K i x) = kc_calls x"
  "kc_glob (stash_touch K i x) = kc_glob x"
  by (simp_all add: stash_touch_def)

lemma cell_of_cells: "kc_cells y = kc_cells x \<Longrightarrow> cell_of y = cell_of x"
  by (simp add: cell_of_def fun_eq_iff)

lemma edit_round:
  assumes J: "edit_inv K N commit x0 x" and s: "s < cc_n_stream K" and i: "i < N" and v: "cell_fits x s v"
    and owned: "fst v \<noteq> -1 \<Longrightarrow> fst (snd v) \<noteq> {}"
    and y: "kc_cells y = kc_cells (upd_cell s i v f x)" "kc_heads y = kc_heads x \<and> edit_frame x y"
      "kc_calls y = (if commit \<and> cc_armed K then kc_calls x @ [Gen_Stamp r s i qs p] else kc_calls x)"
    and committed: "commit \<Longrightarrow> idx_ok K N (owner_maps N (upd_cell s i v f x)) y"
    and dry: "\<not> commit \<Longrightarrow> kc_ownership y = kc_ownership x" and ok: "call_ok (Gen_Stamp r s i qs p)"
  shows "edit_inv K N commit x0 y \<and> cell_of y = (cell_of x)((s, i) := v)"
proof -
  have base: "cache_base K N x" and inv: "cache_inv K N x" using J by (auto dest: edit_invD)
  note cells = cell_of_cells [OF y(1)]
  then have cell: "cell_of y = (cell_of x)((s, i) := v)" by (simp add: upd_cell_cells [OF base s i])
  have "cache_inv K N y"
    by (rule cache_inv_cong [OF upd_cell_inv [OF inv s i v owned, of f]]) (use y in \<open>simp_all add: edit_frame_def\<close>)
  moreover have "edit_frame x0 y"
    using J y(2) by (simp add: edit_inv_def edit_frame_def)
  moreover have "in_sync K N y \<and> stamped K x0 y" if commit
  proof
    show "in_sync K N y" unfolding owner_maps_cells [OF cells] by (rule committed [OF that])
    show "stamped K x0 y"
      by (rule stamped_step [OF _ cell, where r = r and qs = qs and p = p])
        (use J that y(3) ok in \<open>auto simp: edit_inv_def\<close>)
  qed
  moreover have "kc_ownership y = kc_ownership x0 \<and> kc_calls y = kc_calls x0" if "\<not> commit"
    using dry [OF that] J that y(3) by (simp add: edit_inv_def)
  ultimately show ?thesis using cell by (simp add: edit_inv_def)
qed

lemma cell_fits_current:
  assumes "cache_base K N x" and "s < cc_n_stream K" and "i < N" and "q \<subseteq> cseq x s i" and "-1 \<le> p"
    and "p = -1 \<Longrightarrow> q = {}"
  shows "cell_fits x s (p, q, e, d)"
  using assms cache_baseD(10) [OF assms(1-3)] by (auto simp: cell_fits_def)

text \<open>A loop over the cells of one stream.\<close>

definition stream_map :: "nat \<Rightarrow> nat \<Rightarrow> (cell_state \<Rightarrow> cell_state) \<Rightarrow> (nat \<times> nat \<Rightarrow> cell_state) \<Rightarrow> nat \<times> nat \<Rightarrow> cell_state" where
  "stream_map s N g c k = (if fst k = s \<and> snd k < N then g (c k) else c k)"

lemma stream_loop:
  assumes "J t0" and "\<And>i. i < N \<Longrightarrow> P (view t0 (s, i))"
    and "\<And>i t. i < N \<Longrightarrow> J t \<Longrightarrow> P (view t (s, i)) \<Longrightarrow>
      \<exists>t'. f i t = Some t' \<and> J t' \<and> view t' = (view t)((s, i) := g (view t (s, i)))"
  shows "\<exists>t. foldM f [0..<N] t0 = Some t \<and> J t \<and> view t = stream_map s N g (view t0)"
proof -
  obtain t where t: "foldM f [0..<N] t0 = Some t" "J t" "\<forall>i \<in> set [0..<N]. view t (s, i) = g (view t0 (s, i))"
      "\<forall>k. k \<notin> Pair s ` set [0..<N] \<longrightarrow> view t k = view t0 k"
    using foldM_pointwise [of J t0 "[0..<N]" "Pair s" "\<lambda>_. P" view f "\<lambda>_. g"] assms
    by (auto simp: inj_on_def)
  have "view t k = stream_map s N g (view t0) k" for k
    using t(3,4) by (cases k) (auto simp: stream_map_def image_iff)
  with t(1,2) show ?thesis by blast
qed

lemma edit_inv_head:
  assumes "edit_inv K N commit x0 x" and "h \<le> N"
  shows "edit_inv K N commit x0 (set_head s h x) \<and> cell_of (set_head s h x) = cell_of x"
proof -
  have cells: "cell_of (set_head s h x) = cell_of x" by (simp add: set_head_def cell_of_def fun_eq_iff)
  have "(kc_heads x)[s := h] ! s' \<le> N" if "s' < cc_n_stream K" for s'
    using cache_baseD(2,9) [OF edit_invD(2) [OF assms(1)]] that assms(2)
    by (cases "s = s'") simp_all
  then have "cache_inv K N (set_head s h x)"
    using assms(1) by (simp add: edit_inv_def cache_inv_def cache_base_def set_head_def)
  moreover have "in_sync K N (set_head s h x)" if "in_sync K N x"
    unfolding owner_maps_cells [OF cells] by (rule idx_ok_cong [OF that]) (simp_all add: set_head_def)
  moreover have "stamped K x0 (set_head s h x)" if "stamped K x0 x"
    using that cells by (simp add: stamped_def set_head_def)
  ultimately show ?thesis
    using assms(1) cells by (auto simp: edit_inv_def edit_frame_def set_head_def)
qed

lemma edit_inv_lower_head:
  assumes "edit_inv K N commit x0 x" and "h \<le> N"
  shows "edit_inv K N commit x0 (lower_head s n h x) \<and> cell_of (lower_head s n h x) = cell_of x"
  using edit_inv_head [OF assms] assms(1) by (simp add: lower_head_def)

lemma edit_inv_start:
  assumes "cache_inv K N x" and "commit \<Longrightarrow> in_sync K N x" and ok: "call_ok t"
  shows "edit_inv K N commit x (tracker_if commit K t x) \<and> cell_of (tracker_if commit K t x) = cell_of x"
proof -
  have cells: "cell_of (tracker_if commit K t x) = cell_of x" by (rule cell_of_cells) simp
  have "in_sync K N (tracker_if commit K t x)" if commit
    unfolding owner_maps_cells [OF cells] by (rule idx_ok_cong [OF assms(2) [OF that]]) simp_all
  moreover have "stamped K x (tracker_if commit K t x)"
    by (rule stamped_refl [of _ _ "if commit \<and> cc_armed K then [t] else []"]) (use ok in \<open>simp_all add: cells\<close>)
  ultimately show ?thesis
    using assms(1) cells by (auto simp: edit_inv_def edit_frame_def intro: cache_inv_cong)
qed

section \<open>\<open>seq_rm\<close>\<close>

text \<open>A removed cell, and the effect of \<open>seq_rm\<close> for one sequence.\<close>

abbreviation no_cell :: cell_state where "no_cell \<equiv> (-1, {}, ext_default, 0)"

definition cell_rm :: "nat \<Rightarrow> int \<Rightarrow> int \<Rightarrow> cell_state \<Rightarrow> cell_state" where
  "cell_rm q p0 p1 v = (case v of (p, qs, e, d) \<Rightarrow>
     if p0 \<le> p \<and> p < p1 \<and> q \<in> qs then (if qs = {q} then no_cell else (p, qs - {q}, e, d)) else v)"

text \<open>The loop invariant with \<open>new_head\<close> in range and every change noticed.\<close>

fun loop_inv :: "cache_config \<Rightarrow> nat \<Rightarrow> bool \<Rightarrow> kv_cache \<Rightarrow> kv_cache \<times> nat \<times> bool \<Rightarrow> bool" where
  "loop_inv K N commit x0 (x, new_head, changed) \<longleftrightarrow>
     edit_inv K N commit x0 x \<and> new_head \<le> N \<and> (cell_of x \<noteq> cell_of x0 \<longrightarrow> changed)"

lemma seq_rm_round:
  assumes loop: "loop_inv K N commit x0 t" and s: "s < cc_n_stream K" and i: "i < N"
    and q: "q < length (kc_seq_to_stream x0)"
  shows "\<exists>t'. seq_rm_cell K commit s q p0 p1 i t = Some t' \<and> loop_inv K N commit x0 t' \<and>
    cell_of (fst t') = (cell_of (fst t))((s, i) := cell_rm q p0 p1 (cell_of (fst t) (s, i)))"
proof -
  obtain x nh ch where t: "t = (x, nh, ch)" by (metis prod_cases3)
  then have J: "edit_inv K N commit x0 x" and nh: "nh \<le> N" and ch: "cell_of x \<noteq> cell_of x0 \<longrightarrow> ch"
    using loop by simp_all
  have base: "cache_base K N x" and s2s: "kc_seq_to_stream x = kc_seq_to_stream x0" and inv: "cache_inv K N x"
    using J by (auto dest: edit_invD)
  have qmax: "q < LLAMA_MAX_SEQ" using q cache_baseD(5) [OF base] s2s by simp
  note ask = cell_queries [OF base s i]
  show ?thesis
  proof (cases "p0 \<le> cpos x s i \<and> cpos x s i < p1 \<and> q \<in> cseq x s i")
    case False
    then have "seq_rm_cell K commit s q p0 p1 i (x, nh, ch) = Some (x, nh, ch)"
      by (auto simp: seq_rm_cell_def ask qmax)
    moreover have "cell_rm q p0 p1 (cell_of x (s, i)) = cell_of x (s, i)"
      using False by (auto simp: cell_rm_def cell_of_def)
    ultimately show ?thesis using loop by (simp add: t)
  next
    case True
    then have p: "cpos x s i \<noteq> -1" using cache_invD(2) [OF inv s i] by auto
    define v where "v = (if cseq x s i = {q} then no_cell else (cpos x s i, cseq x s i - {q}, cext x s i, cshift x s i))"
    define x1 where "x1 = upd_cell s i v (cflag x s) x"
    have v: "v = cell_rm q p0 p1 (cell_of x (s, i))" using True by (simp add: v_def cell_rm_def cell_of_def)
    have rm: "on_cells_flag s (kv_seq_rm i q) x = Some (cseq x s i = {q}, x1)"
      using True by (simp add: cache_cell_ops(2) [OF base s i] v_def x1_def)
    obtain ow where ow: "(if commit then index_op (Remove_Cell s (int q) i (cpos x s i)) x1 else Some x1) = Some (x1\<lparr> kc_ownership := ow \<rparr>)"
        "ow = None \<longleftrightarrow> kc_ownership x = None" "commit \<Longrightarrow> idx_ok K N (owner_maps N x1) (x1\<lparr> kc_ownership := ow \<rparr>)"
        "\<not> commit \<Longrightarrow> ow = kc_ownership x"
    proof (cases commit)
      case True
      have idx: "idx_ok K N (owner_maps N x) x1"
        by (rule idx_ok_cong [OF edit_invD(4) [OF J True]]) (simp_all add: x1_def)
      have x1: "q < length (kc_seq_to_stream x1)" "kc_ownership x1 = kc_ownership x"
        using q s2s by (simp_all add: x1_def)
      from index_remove [OF idx s x1(1) i owner_maps_pos [OF base s]] x1(2)
      obtain ow where ow: "index_op (Remove_Cell s (int q) i (cpos x s i)) x1 = Some (x1\<lparr> kc_ownership := ow \<rparr>)"
          "ow = None \<longleftrightarrow> kc_ownership x = None" "idx_ok K N (put_map s q i None (owner_maps N x)) (x1\<lparr> kc_ownership := ow \<rparr>)"
        by (elim exE conjE) simp
      moreover have "put_map s q i None (owner_maps N x) = owner_maps N x1"
        using i by (intro ext) (auto simp: x1_def owner_maps_upd [OF base s i] put_map_at v_def owner_maps_def [of N x])
      ultimately show ?thesis using True by (intro that [of ow]) simp_all
    qed (auto intro: that [of "kc_ownership x"] simp: x1_def)
    define y where "y = (let x3 = tracker_if commit K (Gen_Stamp Reg_seq_rm s i [int q] (cpos x s i)) (x1\<lparr> kc_ownership := ow \<rparr>)
      in if cseq x s i = {q} then stash_touch K i x3 else x3)"
    have run: "seq_rm_cell K commit s q p0 p1 i (x, nh, ch) =
        Some (y, if cseq x s i = {q} \<and> nh = N then i else nh, True)"
      using True p cache_baseD(8) [OF base s] by (simp add: seq_rm_cell_def ask qmax rm ow(1) y_def Let_def)
    have "edit_inv K N commit x0 y \<and> cell_of y = (cell_of x)((s, i) := v)"
    proof (rule edit_round [OF J s i, where f = "cflag x s" and r = Reg_seq_rm and qs = "[int q]" and p = "cpos x s i"])
      show "cell_fits x s v"
        using cell_fits_current [OF base s i] p cache_baseD(11) [OF base s i] by (auto simp: v_def)
      show "fst v \<noteq> -1 \<Longrightarrow> fst (snd v) \<noteq> {}" using True by (auto simp: v_def split: if_splits)
      show "idx_ok K N (owner_maps N (upd_cell s i v (cflag x s) x)) y" if commit
        by (rule idx_ok_cong [OF ow(3) [OF that]]) (simp_all add: y_def Let_def x1_def)
      show "call_ok (Gen_Stamp Reg_seq_rm s i [int q] (cpos x s i))" using qmax by (simp add: LLAMA_MAX_SEQ_def)
    qed (use ow in \<open>auto simp: y_def Let_def x1_def edit_frame_def\<close>)
    then show ?thesis using run nh i unfolding v by (simp add: t)
  qed
qed

text \<open>A sequence without cells has no least position, and its map in the index is empty.\<close>

lemma seq_absent:
  assumes "cache_base K N x" and "s < cc_n_stream K" and "q < LLAMA_MAX_SEQ"
    and "seq_pos_min q (stream_cells s x) = Some least" and "least < 0"
  shows "owner_maps N x s q = Map.empty"
proof -
  have "q \<notin> cseq x s i" if i: "i < N" for i
  proof
    assume q: "q \<in> cseq x s i"
    have "i < kv_size (stream_cells s x)" using i cache_baseD(8) [OF assms(1,2)] by simp
    from seq_pos_min_least [OF stream_cells_inv [OF assms(1,2)] assms(3) this] q assms(4)
    obtain j where j: "j < N" "q \<in> cseq x s j" "cpos x s j = least"
      using cache_baseD(8) [OF assms(1,2)] by auto
    then show False
      using assms(5) cache_baseD(11,12) [OF assms(1,2) j(1)] by force
  qed
  then show ?thesis by (auto simp: owner_maps_def fun_eq_iff)
qed

lemma seq_pos_min_total:
  assumes "cache_base K N x" and "s < cc_n_stream K" and "q < LLAMA_MAX_SEQ"
  shows "\<exists>p. seq_pos_min q (stream_cells s x) = Some p"
  using assms(3) by (simp add: seq_pos_min_def)

lemma seq_rm_one_cells:
  assumes inv: "cache_inv K N x" and sync: "commit \<Longrightarrow> in_sync K N x"
    and sq: "0 \<le> sq" "nat sq < length (kc_seq_to_stream x)"
  shows "\<exists>ch y. seq_rm_one K commit sq p0 p1 x = Some (ch, y) \<and> edit_inv K N commit x y \<and>
    (cell_of y \<noteq> cell_of x \<longrightarrow> ch) \<and>
    cell_of y = stream_map (kc_seq_to_stream x ! nat sq) N (cell_rm (nat sq) p0 p1) (cell_of x)"
proof -
  let ?s = "kc_seq_to_stream x ! nat sq"
  define x0 where "x0 = tracker_if commit K (Gen_Begin Reg_seq_rm Cls_state_api ?s Stamp_membership False) x"
  have base: "cache_base K N x" using inv by (rule cache_invD)
  have s: "?s < cc_n_stream K" using cache_baseD(6) [OF base sq(2)] .
  have start: "edit_inv K N commit x x0" "cell_of x0 = cell_of x"
    unfolding x0_def using edit_inv_start [OF inv sync, where t = "Gen_Begin Reg_seq_rm Cls_state_api ?s Stamp_membership False"]
    by (auto simp: token_event_def)
  have "\<exists>t. foldM (seq_rm_cell K commit ?s (nat sq) p0 p1) [0..<N] (x0, N, False) = Some t \<and>
    loop_inv K N commit x t \<and>
    cell_of (fst t) = stream_map ?s N (cell_rm (nat sq) p0 p1) (cell_of (fst (x0, N, False)))"
    by (rule stream_loop [where P = "\<lambda>_. True"]) (use start seq_rm_round [OF _ s _ sq(2)] in simp_all)
  then obtain x1 nh ch where loop: "foldM (seq_rm_cell K commit ?s (nat sq) p0 p1) [0..<N] (x0, N, False) = Some (x1, nh, ch)"
      "edit_inv K N commit x x1" "nh \<le> N" "cell_of x1 \<noteq> cell_of x \<longrightarrow> ch"
      "cell_of x1 = stream_map ?s N (cell_rm (nat sq) p0 p1) (cell_of x)"
    using start(2) by (elim exE conjE, case_tac t) simp
  define x2 where "x2 = lower_head ?s N nh x1"
  have x2: "edit_inv K N commit x x2" "cell_of x2 = cell_of x1"
    unfolding x2_def using edit_inv_lower_head [OF loop(2,3)] by auto
  have base2: "cache_base K N x2" using x2(1) by (rule edit_invD)
  have qmax: "nat sq < LLAMA_MAX_SEQ" using sq(2) cache_baseD(5) [OF base] by simp
  obtain least where least: "seq_pos_min (nat sq) (stream_cells ?s x2) = Some least"
    using seq_pos_min_total [OF base2 s qmax] by blast
  have "\<exists>x3. (if commit \<and> kc_ownership x2 \<noteq> None then
      (if least < 0 then index_op (Clear_Seq ?s sq) x2 else Some x2) else Some x2) = Some x3 \<and>
      edit_inv K N commit x x3 \<and> cell_of x3 = cell_of x2"
  proof (cases "commit \<and> kc_ownership x2 \<noteq> None \<and> least < 0")
    case True
    have none: "owner_maps N x2 ?s (nat sq) = Map.empty"
      using seq_absent [OF base2 s qmax least] True by simp
    have q2: "nat sq < length (kc_seq_to_stream x2)" "int (nat sq) = sq" and commit
      using sq edit_invD(5) [OF x2(1)] True by simp_all
    from index_clear_seq [OF edit_invD(4) [OF x2(1) \<open>commit\<close>] s q2(1) none]
    obtain ow where ow: "index_op (Clear_Seq ?s sq) x2 = Some (x2\<lparr> kc_ownership := ow \<rparr>)"
        "ow = None \<longleftrightarrow> kc_ownership x2 = None" "idx_ok K N (owner_maps N x2) (x2\<lparr> kc_ownership := ow \<rparr>)"
      unfolding q2(2) by (elim exE conjE) (rule that)
    have cells: "cell_of (x2\<lparr> kc_ownership := ow \<rparr>) = cell_of x2" by (rule cell_of_cells) simp
    have "edit_inv K N commit x (x2\<lparr> kc_ownership := ow \<rparr>)"
      using x2(1) ow(2,3) True cells owner_maps_cells [OF cells, of N]
      by (auto simp: edit_inv_def edit_frame_def stamped_def intro: cache_inv_cong)
    with True ow(1) cells show ?thesis by auto
  qed (use x2(1) in auto)
  then obtain x3 where x3: "(if commit \<and> kc_ownership x2 \<noteq> None then
      (if least < 0 then index_op (Clear_Seq ?s sq) x2 else Some x2) else Some x2) = Some x3"
      "edit_inv K N commit x x3" "cell_of x3 = cell_of x2" by blast
  have stream: "seq_stream x sq = Some ?s" using sq by (simp add: seq_stream_def)
  have size: "kv_size (kc_cells x ! ?s) = N" "assertion (?s < length (kc_cells x) \<and> ?s < length (kc_heads x)) = Some ()"
    using s cache_baseD(1,2,8) [OF base] by simp_all
  have "seq_rm_one K commit sq p0 p1 x = Some (ch, x3)"
    unfolding seq_rm_one_def stream Option.bind.bind_lunit size Let_def x0_def [symmetric] loop(1) prod.case
      x2_def [symmetric] least x3(1) ..
  then show ?thesis using x3(2,3) loop(4,5) x2(2) by simp
qed

section \<open>\<open>seq_cp\<close> within a stream\<close>

text \<open>The loop invariant of the edits without \<open>new_head\<close>.\<close>

fun pair_inv :: "cache_config \<Rightarrow> nat \<Rightarrow> kv_cache \<Rightarrow> kv_cache \<times> bool \<Rightarrow> bool" where
  "pair_inv K N x0 (x, changed) \<longleftrightarrow> edit_inv K N True x0 x \<and> (cell_of x \<noteq> cell_of x0 \<longrightarrow> changed)"

definition cell_cp :: "nat \<Rightarrow> nat \<Rightarrow> int \<Rightarrow> int \<Rightarrow> cell_state \<Rightarrow> cell_state" where
  "cell_cp src dst p0 p1 v = (case v of (p, qs, e, d) \<Rightarrow>
     if p0 \<le> p \<and> p < p1 \<and> src \<in> qs then (p, insert dst qs, e, d) else v)"

lemma seq_cp_round:
  assumes loop: "pair_inv K N x0 t" and s: "s < cc_n_stream K" and i: "i < N"
    and dst: "dst < length (kc_seq_to_stream x0)" "kc_seq_to_stream x0 ! dst = s"
    and src: "src < length (kc_seq_to_stream x0)"
  shows "\<exists>t'. seq_cp_cell K s src dst p0 p1 i t = Some t' \<and> pair_inv K N x0 t' \<and>
    cell_of (fst t') = (cell_of (fst t))((s, i) := cell_cp src dst p0 p1 (cell_of (fst t) (s, i)))"
proof -
  obtain x ch where t: "t = (x, ch)" by (metis prod.exhaust)
  then have J: "edit_inv K N True x0 x" and ch: "cell_of x \<noteq> cell_of x0 \<longrightarrow> ch" using loop by simp_all
  have base: "cache_base K N x" and s2s: "kc_seq_to_stream x = kc_seq_to_stream x0" and inv: "cache_inv K N x"
    using J by (auto dest: edit_invD)
  have qmax: "src < LLAMA_MAX_SEQ" "dst < LLAMA_MAX_SEQ" using src dst(1) cache_baseD(5) [OF base] s2s by simp_all
  note ask = cell_queries [OF base s i]
  show ?thesis
  proof (cases "p0 \<le> cpos x s i \<and> cpos x s i < p1 \<and> src \<in> cseq x s i \<and> dst \<notin> cseq x s i")
    case False
    then have "seq_cp_cell K s src dst p0 p1 i (x, ch) = Some (x, ch)"
      by (auto simp: seq_cp_cell_def ask qmax)
    moreover have "cell_cp src dst p0 p1 (cell_of x (s, i)) = cell_of x (s, i)"
      using False by (auto simp: cell_cp_def cell_of_def)
    ultimately show ?thesis using loop by (simp add: t)
  next
    case True
    then have p: "cpos x s i \<noteq> -1" using cache_invD(2) [OF inv s i] by auto
    define v where "v = (cpos x s i, insert dst (cseq x s i), cext x s i, cshift x s i)"
    define x1 where "x1 = upd_cell s i v (cflag x s) x"
    have v: "v = cell_cp src dst p0 p1 (cell_of x (s, i))" using True by (simp add: v_def cell_cp_def cell_of_def)
    have add: "on_cells s (kv_seq_add i dst) x = Some x1"
      using True p qmax by (simp add: cache_cell_ops(3) [OF base s i] v_def x1_def)
    have fits: "cell_fits x s v"
      using cell_fits_current [OF base s i, of "cseq x s i" "cpos x s i"] p cache_baseD(11) [OF base s i] dst s2s
      by (auto simp: v_def cell_fits_def)
    have "cache_base K N x1" unfolding x1_def by (rule upd_cell_base [OF base s i fits])
    then have pos: "pos_get i (stream_cells s x1) = Some (cpos x s i)"
      using cell_queries(3) [of K N x1 s i] s i p by (simp add: x1_def v_def upd_cell_fields [OF base s i])
    have idx: "idx_ok K N (owner_maps N x) x1"
      by (rule idx_ok_cong [OF edit_invD(4) [OF J]]) (simp_all add: x1_def)
    have x1: "dst < length (kc_seq_to_stream x1)" "kc_ownership x1 = kc_ownership x" "owner_maps N x s dst i = None"
      using dst s2s True by (simp_all add: x1_def owner_maps_def)
    from index_add [OF idx s x1(1) i x1(3), of "cpos x s i"]
    obtain ow where ow: "index_op (Add_Cell s (int dst) i (cpos x s i)) x1 = Some (x1\<lparr> kc_ownership := ow \<rparr>)"
        "ow = None \<longleftrightarrow> kc_ownership x = None"
        "idx_ok K N (put_map s dst i (Some (nat (cpos x s i))) (owner_maps N x)) (x1\<lparr> kc_ownership := ow \<rparr>)"
      unfolding x1(2) by (elim exE conjE) (rule that)
    have maps: "put_map s dst i (Some (nat (cpos x s i))) (owner_maps N x) = owner_maps N x1"
      using i by (intro ext) (auto simp: x1_def owner_maps_upd [OF base s i] put_map_at v_def owner_maps_def [of N x])
    define y where "y = tracker K (Gen_Stamp Reg_seq_cp s i [int dst] (cpos x s i)) (x1\<lparr> kc_ownership := ow \<rparr>)"
    have run: "seq_cp_cell K s src dst p0 p1 i (x, ch) = Some (y, True)"
      using True by (simp add: seq_cp_cell_def ask qmax add pos ow(1) y_def)
    have "edit_inv K N True x0 y \<and> cell_of y = (cell_of x)((s, i) := v)"
    proof (rule edit_round [OF J s i fits, where f = "cflag x s" and r = Reg_seq_cp and qs = "[int dst]" and p = "cpos x s i"])
      show "idx_ok K N (owner_maps N (upd_cell s i v (cflag x s) x)) y"
        by (rule idx_ok_cong [OF ow(3)]) (simp_all add: maps y_def x1_def tracker_always)
      show "call_ok (Gen_Stamp Reg_seq_cp s i [int dst] (cpos x s i))" using qmax by (simp add: LLAMA_MAX_SEQ_def)
    qed (use ow(2) in \<open>auto simp: v_def y_def x1_def edit_frame_def tracker_always\<close>)
    then show ?thesis using run unfolding v by (simp add: t)
  qed
qed

section \<open>\<open>seq_add\<close> and \<open>seq_div\<close>\<close>

definition cell_add :: "nat \<Rightarrow> int \<Rightarrow> int \<Rightarrow> int \<Rightarrow> bool \<Rightarrow> bool \<Rightarrow> cell_state \<Rightarrow> cell_state" where
  "cell_add q p0 p1 m rot txt v = (case v of (p, qs, e, d) \<Rightarrow>
     if p0 \<le> p \<and> p < p1 \<and> q \<in> qs
     then (if p + m < 0 then (-1, {}, shifted_ext txt m e, 0)
           else (p + m, qs, shifted_ext txt m e, if rot then d + m else d))
     else v)"

text \<open>A cell that the shift of a sequence moves belongs to no other sequence, when there is an index.\<close>

definition unshared :: "kv_cache \<Rightarrow> nat \<Rightarrow> int \<Rightarrow> int \<Rightarrow> cell_state \<Rightarrow> bool" where
  "unshared x0 q p0 p1 v \<longleftrightarrow> kc_ownership x0 = None \<or>
     (case v of (p, qs, e, d) \<Rightarrow> p0 \<le> p \<and> p < p1 \<and> q \<in> qs \<longrightarrow> qs = {q})"

text \<open>The index operation of a shift, on a cell of one owner.\<close>

lemma index_shift:
  assumes J: "edit_inv K N True x0 x" and s: "s < cc_n_stream K" and i: "i < N"
    and q: "q < length (kc_seq_to_stream x0)" "q \<in> cseq x s i"
    and alone: "kc_ownership x \<noteq> None \<longrightarrow> cseq x s i = {q}"
    and x1: "x1 = upd_cell s i v f x" and v: "fst (snd v) = (if gone then {} else cseq x s i)"
  shows "\<exists>ow. index_op (if gone then Remove_Cell s (int q) i (cpos x s i)
        else Move_Cell s (int q) i (cpos x s i) (fst v)) x1 = Some (x1\<lparr> kc_ownership := ow \<rparr>) \<and>
    (ow = None \<longleftrightarrow> kc_ownership x = None) \<and> idx_ok K N (owner_maps N x1) (x1\<lparr> kc_ownership := ow \<rparr>)"
proof (cases "kc_ownership x = None")
  case True
  then have "index_op op x1 = Some (x1\<lparr> kc_ownership := None \<rparr>)" for op by (simp add: index_op_def x1)
  then show ?thesis using True by (intro exI [of _ None]) (simp add: idx_ok_def)
next
  case False
  have base: "cache_base K N x" and inv: "cache_inv K N x" and s2s: "kc_seq_to_stream x = kc_seq_to_stream x0"
    using J by (auto dest: edit_invD)
  have p: "0 \<le> cpos x s i" "owner_maps N x s q i = Some (nat (cpos x s i))"
    using owner_maps_pos [OF base s, of q i] i q by (auto simp: owner_maps_def)
  have idx: "idx_ok K N (owner_maps N x) x1"
    by (rule idx_ok_cong [OF edit_invD(4) [OF J]]) (simp_all add: x1)
  have q1: "q < length (kc_seq_to_stream x1)" and own: "kc_ownership x1 = kc_ownership x"
    using q s2s by (simp_all add: x1)
  have "put_map s q i (if gone then None else Some (nat (fst v))) (owner_maps N x) = owner_maps N x1"
    using i q False alone v by (intro ext) (auto simp: x1 owner_maps_upd [OF base s i] put_map_at owner_maps_def [of N x])
  then show ?thesis
    using index_remove [OF idx s q1 i owner_maps_pos [OF base s]] index_move [OF idx s q1 i p, of "fst v"]
    unfolding own by (cases gone) simp_all
qed

lemma seq_add_round:
  assumes loop: "loop_inv K N True x0 t" and s: "s < cc_n_stream K" and i: "i < N"
    and q: "q < length (kc_seq_to_stream x0)" and alone: "unshared x0 q p0 p1 (cell_of (fst t) (s, i))"
  shows "\<exists>t'. seq_add_cell K raw s q p0 p1 m i t = Some t' \<and> loop_inv K N True x0 t' \<and>
    cell_of (fst t') = (cell_of (fst t))((s, i) :=
      cell_add q p0 p1 m (\<not> (cc_text_mrope K \<and> raw)) (cc_text_mrope K) (cell_of (fst t) (s, i)))"
proof -
  obtain x nh ch where t: "t = (x, nh, ch)" by (metis prod_cases3)
  then have J: "edit_inv K N True x0 x" and nh: "nh \<le> N" using loop by simp_all
  have base: "cache_base K N x" and s2s: "kc_seq_to_stream x = kc_seq_to_stream x0" and inv: "cache_inv K N x"
    using J by (auto dest: edit_invD)
  have qmax: "q < LLAMA_MAX_SEQ" using q cache_baseD(5) [OF base] s2s by simp
  note ask = cell_queries [OF base s i]
  let ?rot = "\<not> (cc_text_mrope K \<and> raw)" and ?txt = "cc_text_mrope K"
  show ?thesis
  proof (cases "p0 \<le> cpos x s i \<and> cpos x s i < p1 \<and> q \<in> cseq x s i")
    case False
    then have "seq_add_cell K raw s q p0 p1 m i (x, nh, ch) = Some (x, nh, ch)"
      by (auto simp: seq_add_cell_def ask qmax)
    moreover have "cell_add q p0 p1 m ?rot ?txt (cell_of x (s, i)) = cell_of x (s, i)"
      using False by (auto simp: cell_add_def cell_of_def)
    ultimately show ?thesis using loop by (simp add: t)
  next
    case True
    then have p: "cpos x s i \<noteq> -1" using cache_invD(2) [OF inv s i] by auto
    define gone where "gone = (cpos x s i + m < 0)"
    define v where "v = (if gone then (-1, {}, shifted_ext ?txt m (cext x s i), 0)
      else (cpos x s i + m, cseq x s i, shifted_ext ?txt m (cext x s i), if ?rot then cshift x s i + m else cshift x s i))"
    define x1 where "x1 = upd_cell s i v (cflag x s \<or> ?rot) x"
    have v: "v = cell_add q p0 p1 m ?rot ?txt (cell_of x (s, i))"
      using True by (simp add: v_def gone_def cell_add_def cell_of_def)
    have shift: "on_cells_flag s (if ?txt then (if raw then kv_pos_add_mrope_text_raw i m else kv_pos_add_mrope_text i m)
        else kv_pos_add i m) x = Some (gone, x1)"
      using p by (simp add: kv_pos_add_mrope_text_raw_def kv_pos_add_mrope_text_def kv_pos_add_def
          cache_cell_ops(6) [OF base s i] v_def x1_def gone_def)
    have owner: "kc_ownership x \<noteq> None \<longrightarrow> cseq x s i = {q}"
      using alone True edit_invD(3) [OF J] by (auto simp: t unshared_def cell_of_def edit_frame_def)
    have "fst (snd v) = (if gone then {} else cseq x s i)" by (simp add: v_def)
    from index_shift [OF J s i q _ owner x1_def this] True
    obtain ow where ow: "index_op (if gone then Remove_Cell s (int q) i (cpos x s i)
          else Move_Cell s (int q) i (cpos x s i) (fst v)) x1 = Some (x1\<lparr> kc_ownership := ow \<rparr>)"
        "ow = None \<longleftrightarrow> kc_ownership x = None" "idx_ok K N (owner_maps N x1) (x1\<lparr> kc_ownership := ow \<rparr>)"
      by (elim meta_impE exE conjE) simp_all
    define y where "y = tracker K (Gen_Stamp Reg_seq_add s i [int q] (cpos x s i)) (x1\<lparr> kc_ownership := ow \<rparr>)"
    have run: "seq_add_cell K raw s q p0 p1 m i (x, nh, ch) = Some (y, if gone \<and> nh = N then i else nh, True)"
      using True p ow(1) cache_baseD(8) [OF base s]
      by (cases gone) (simp_all add: seq_add_cell_def ask qmax shift y_def v_def cong: if_cong)
    have "edit_inv K N True x0 y \<and> cell_of y = (cell_of x)((s, i) := v)"
    proof (rule edit_round [OF J s i, where f = "cflag x s \<or> ?rot" and r = Reg_seq_add and qs = "[int q]" and p = "cpos x s i"])
      show "cell_fits x s v"
        using cell_fits_current [OF base s i] p cache_baseD(11) [OF base s i] by (auto simp: v_def gone_def)
      show "fst v \<noteq> -1 \<Longrightarrow> fst (snd v) \<noteq> {}" using True by (auto simp: v_def split: if_splits)
      show "idx_ok K N (owner_maps N (upd_cell s i v (cflag x s \<or> ?rot) x)) y"
        by (rule idx_ok_cong [OF ow(3)]) (simp_all add: y_def x1_def tracker_always)
      show "call_ok (Gen_Stamp Reg_seq_add s i [int q] (cpos x s i))" using qmax by (simp add: LLAMA_MAX_SEQ_def)
    qed (use ow(2) in \<open>auto simp: y_def x1_def edit_frame_def tracker_always\<close>)
    then show ?thesis using run nh i unfolding v by (simp add: t)
  qed
qed

end
