(* ===== verification/Cache_Sequence_Ops.thy ===== *)
theory Cache_Sequence_Ops
  imports Cache_Edits
begin

text \<open>
  The remaining rounds of the edits (\<open>seq_div\<close>, the removal for all sequences, \<open>seq_keep\<close>) and the
  edits as a whole: each of them returns, keeps the invariant and the index, and changes the cells
  as the given function of the cell.
\<close>

section \<open>Rounds that leave the cell as it is\<close>

lemma edit_same:
  assumes "edit_inv K N commit x0 x" and "cache_inv K N y" and "cell_of y = cell_of x"
    and "edit_frame x y" and "kc_calls y = kc_calls x" and "kc_ownership y = kc_ownership x"
  shows "edit_inv K N commit x0 y"
proof -
  have "in_sync K N y" if "in_sync K N x"
    unfolding owner_maps_cells [OF assms(3)]
    by (rule idx_ok_cong [OF that]) (use assms(4,6) in \<open>simp_all add: edit_frame_def\<close>)
  then show ?thesis using assms by (auto simp: edit_inv_def edit_frame_def stamped_def)
qed

lemma reput_cells:
  assumes "cache_inv K N x" and "s < cc_n_stream K"
  shows "cache_inv K N (put_cells s (stream_cells s x) x) \<and> cell_of (put_cells s (stream_cells s x) x) = cell_of x"
proof -
  have base: "cache_base K N x" using assms(1) by (rule cache_invD)
  have fields: "kv_pos (kc_cells (put_cells s (stream_cells s x) x) ! s') = kv_pos (kc_cells x ! s')"
      "kv_seq (kc_cells (put_cells s (stream_cells s x) x) ! s') = kv_seq (kc_cells x ! s')"
      "kv_ext (kc_cells (put_cells s (stream_cells s x) x) ! s') = kv_ext (kc_cells x ! s')"
      "kv_shift (kc_cells (put_cells s (stream_cells s x) x) ! s') = kv_shift (kc_cells x ! s')" for s'
    using assms(2) cache_baseD(1) [OF base] by (cases "s' = s"; simp add: put_cells_def)+
  have "kv_inv (kc_cells (put_cells s (stream_cells s x) x) ! s')" if "s' < cc_n_stream K" for s'
    using that stream_cells_inv [OF base assms(2)] cache_baseD(1,7) [OF base]
    by (cases "s' = s") (simp_all add: put_cells_def)
  then have "cache_inv K N (put_cells s (stream_cells s x) x)"
    using assms(1) fields unfolding cache_inv_def cache_base_def by (simp add: put_cells_def)
  then show ?thesis using fields by (simp add: cell_of_def fun_eq_iff)
qed

lemma upd_cell_cong:
  "kc_cells y = kc_cells x \<Longrightarrow> kc_glob y = kc_glob x \<Longrightarrow> kc_cells (upd_cell s i v f y) = kc_cells (upd_cell s i v f x)"
  by (simp add: upd_cell_def put_cells_def stream_cells_def split: prod.split)

lemma cache_base_cong:
  assumes "cache_base K N x" and "kc_cells y = kc_cells x" and "kc_heads y = kc_heads x"
    and "kc_seq_to_stream y = kc_seq_to_stream x"
  shows "cache_base K N y"
  using assms by (simp add: cache_base_def)

section \<open>\<open>seq_div\<close>\<close>

definition cell_div :: "nat \<Rightarrow> int \<Rightarrow> int \<Rightarrow> int \<Rightarrow> cell_state \<Rightarrow> cell_state" where
  "cell_div q p0 p1 m v = (case v of (p, qs, e, d) \<Rightarrow>
     if p0 \<le> p \<and> p < p1 \<and> q \<in> qs then (p div m, qs, e, d + (p - p div m)) else v)"

lemma seq_div_round:
  assumes loop: "pair_inv K N x0 t" and s: "s < cc_n_stream K" and i: "i < N"
    and q: "q < length (kc_seq_to_stream x0)" and alone: "unshared x0 q p0 p1 (cell_of (fst t) (s, i))" and m: "0 < m"
  shows "\<exists>t'. seq_div_cell K s q p0 p1 m i t = Some t' \<and> pair_inv K N x0 t' \<and>
    cell_of (fst t') = (cell_of (fst t))((s, i) := cell_div q p0 p1 m (cell_of (fst t) (s, i)))"
proof -
  obtain x ch where t: "t = (x, ch)" by (metis prod.exhaust)
  then have J: "edit_inv K N True x0 x" and ch: "cell_of x \<noteq> cell_of x0 \<longrightarrow> ch" using loop by simp_all
  have base: "cache_base K N x" and s2s: "kc_seq_to_stream x = kc_seq_to_stream x0" and inv: "cache_inv K N x"
    using J by (auto dest: edit_invD)
  have qmax: "q < LLAMA_MAX_SEQ" using q cache_baseD(5) [OF base] s2s by simp
  note ask = cell_queries [OF base s i]
  show ?thesis
  proof (cases "p0 \<le> cpos x s i \<and> cpos x s i < p1 \<and> q \<in> cseq x s i")
    case False
    then have "seq_div_cell K s q p0 p1 m i (x, ch) = Some (x, ch)"
      by (auto simp: seq_div_cell_def ask qmax)
    moreover have "cell_div q p0 p1 m (cell_of x (s, i)) = cell_of x (s, i)"
      using False by (auto simp: cell_div_def cell_of_def)
    ultimately show ?thesis using loop by (simp add: t)
  next
    case True
    then have p: "cpos x s i \<noteq> -1" using cache_invD(2) [OF inv s i] by auto
    then have nonneg: "0 \<le> cpos x s i div m" using m cache_baseD(11) [OF base s i] by (simp add: pos_imp_zdiv_nonneg_iff)
    define v where "v = (cpos x s i div m, cseq x s i, cext x s i, cshift x s i + (cpos x s i - cpos x s i div m))"
    define x1 where "x1 = upd_cell s i v True x"
    have v: "v = cell_div q p0 p1 m (cell_of x (s, i))" using True by (simp add: v_def cell_div_def cell_of_def)
    have divide: "on_cells s (kv_pos_div i m) x = Some x1"
      using p m by (simp add: cache_cell_ops(7) [OF base s i] v_def x1_def)
    have fits: "cell_fits x s v"
      using cell_fits_current [OF base s i] nonneg by (auto simp: v_def)
    have "cache_base K N x1" unfolding x1_def by (rule upd_cell_base [OF base s i fits])
    then have pos: "pos_get i (stream_cells s x1) = Some (cpos x s i div m)"
      using cell_queries(3) [of K N x1 s i] s i nonneg by (simp add: x1_def v_def upd_cell_fields [OF base s i])
    have owner: "kc_ownership x \<noteq> None \<longrightarrow> cseq x s i = {q}"
      using alone True edit_invD(3) [OF J] by (auto simp: t unshared_def cell_of_def edit_frame_def)
    have "fst (snd v) = (if False then {} else cseq x s i)" by (simp add: v_def)
    from index_shift [OF J s i q _ owner x1_def this] True
    obtain ow where ow: "index_op (Move_Cell s (int q) i (cpos x s i) (fst v)) x1 = Some (x1\<lparr> kc_ownership := ow \<rparr>)"
        "ow = None \<longleftrightarrow> kc_ownership x = None" "idx_ok K N (owner_maps N x1) (x1\<lparr> kc_ownership := ow \<rparr>)"
      by (elim meta_impE exE conjE) simp_all
    define y where "y = tracker K (Gen_Stamp Reg_seq_div s i [int q] (cpos x s i)) (x1\<lparr> kc_ownership := ow \<rparr>)"
    have run: "seq_div_cell K s q p0 p1 m i (x, ch) = Some (y, ch \<or> cpos x s i div m \<noteq> cpos x s i)"
      using True p ow(1) by (simp add: seq_div_cell_def ask qmax divide pos y_def v_def)
    have "edit_inv K N True x0 y \<and> cell_of y = (cell_of x)((s, i) := v)"
    proof (rule edit_round [OF J s i fits, where f = True and r = Reg_seq_div and qs = "[int q]" and p = "cpos x s i"])
      show "fst v \<noteq> -1 \<Longrightarrow> fst (snd v) \<noteq> {}" using True by (auto simp: v_def)
      show "idx_ok K N (owner_maps N (upd_cell s i v True x)) y"
        by (rule idx_ok_cong [OF ow(3)]) (simp_all add: y_def x1_def tracker_always)
      show "call_ok (Gen_Stamp Reg_seq_div s i [int q] (cpos x s i))" using qmax by (simp add: LLAMA_MAX_SEQ_def)
    qed (use ow(2) in \<open>auto simp: y_def x1_def edit_frame_def tracker_always\<close>)
    moreover have "v = cell_of x (s, i)" if "cpos x s i div m = cpos x s i"
      using that by (simp add: v_def cell_of_def)
    ultimately show ?thesis
      using run ch unfolding v by (cases "cpos x s i div m = cpos x s i") (simp_all add: t)
  qed
qed

section \<open>Removal for all sequences\<close>

lemma unindex_all:
  assumes sync: "in_sync K N x" and inv: "cache_inv K N x" and s: "s < cc_n_stream K" and i: "i < N"
  shows "\<exists>ow. unindex_all_seqs s i (cpos x s i) ex x = Some (x\<lparr> kc_ownership := ow \<rparr>) \<and>
    (ow = None \<longleftrightarrow> kc_ownership x = None) \<and>
    idx_ok K N (drop_maps s {q \<in> cseq x s i. int q \<noteq> ex} i (owner_maps N x)) (x\<lparr> kc_ownership := ow \<rparr>)"
proof (cases "kc_ownership x = None")
  case True
  then show ?thesis by (intro exI [of _ None]) (simp add: unindex_all_seqs_def idx_ok_def)
next
  case False
  have base: "cache_base K N x" using inv by (rule cache_invD)
  let ?qs = "filter (\<lambda>q. q \<in> cseq x s i) [0..<LLAMA_MAX_SEQ]"
  have members: "q < LLAMA_MAX_SEQ" "q < length (kc_seq_to_stream x)" if "q \<in> cseq x s i" for q
    using cache_baseD(5,10) [OF base] s i that by (meson less_le_trans)+
  have set: "{q \<in> set ?qs. \<not> int q = ex} = {q \<in> cseq x s i. int q \<noteq> ex}" using members(1) by auto
  have "q < length (kc_seq_to_stream x) \<and> (owner_maps N x s q i \<noteq> None \<longrightarrow>
      0 \<le> cpos x s i \<and> owner_maps N x s q i = Some (nat (cpos x s i)))" if "q \<in> set ?qs" for q
    using that members(2) owner_maps_pos [OF base s] by simp
  with index_remove_seqs [OF sync s i, of ?qs "\<lambda>q. int q = ex" "cpos x s i"]
  show ?thesis
    using False s cache_baseD(1) [OF base] cell_queries(8) [OF base s i] set
    by (simp add: unindex_all_seqs_def del: set_filter not_None_eq)
qed

definition cell_drop :: "int \<Rightarrow> int \<Rightarrow> cell_state \<Rightarrow> cell_state" where
  "cell_drop p0 p1 v = (if p0 \<le> fst v \<and> fst v < p1 then no_cell else v)"

lemma drop_maps_all:
  assumes "cache_base K N x" and "s < cc_n_stream K" and "i < N"
  shows "drop_maps s {q \<in> cseq x s i. int q \<noteq> -1} i (owner_maps N x) = owner_maps N (upd_cell s i no_cell f x)"
  by (intro ext) (auto simp: drop_maps_def owner_maps_upd [OF assms] owner_maps_def [of N x])

lemma rm_any_round:
  assumes loop: "loop_inv K N commit x0 t" and s: "s < cc_n_stream K" and i: "i < N" and p0: "0 \<le> p0"
  shows "\<exists>t'. rm_any_cell K commit s p0 p1 i t = Some t' \<and> loop_inv K N commit x0 t' \<and>
    cell_of (fst t') = (cell_of (fst t))((s, i) := cell_drop p0 p1 (cell_of (fst t) (s, i)))"
proof -
  obtain x nh ch where t: "t = (x, nh, ch)" by (metis prod_cases3)
  then have J: "edit_inv K N commit x0 x" and nh: "nh \<le> N" using loop by simp_all
  have base: "cache_base K N x" and inv: "cache_inv K N x" using J by (auto dest: edit_invD)
  note ask = cell_queries [OF base s i]
  show ?thesis
  proof (cases "p0 \<le> cpos x s i \<and> cpos x s i < p1")
    case False
    then have "rm_any_cell K commit s p0 p1 i (x, nh, ch) = Some (x, nh, ch)"
      by (auto simp: rm_any_cell_def ask)
    moreover have "cell_drop p0 p1 (cell_of x (s, i)) = cell_of x (s, i)"
      using False by (auto simp: cell_drop_def cell_of_def)
    ultimately show ?thesis using loop by (simp add: t)
  next
    case True
    then have p: "cpos x s i \<noteq> -1" using p0 by auto
    obtain ow where ow: "(if commit then unindex_all_seqs s i (cpos x s i) (-1) x else Some x) = Some (x\<lparr> kc_ownership := ow \<rparr>)"
        "ow = None \<longleftrightarrow> kc_ownership x = None" "\<not> commit \<Longrightarrow> ow = kc_ownership x"
        "commit \<Longrightarrow> idx_ok K N (owner_maps N (upd_cell s i no_cell (cflag x s) x)) (x\<lparr> kc_ownership := ow \<rparr>)"
    proof (cases commit)
      case True
      from unindex_all [OF edit_invD(4) [OF J True] inv s i, of "-1"] True show ?thesis
        unfolding drop_maps_all [OF base s i, of "cflag x s"] by (elim exE conjE) (rule that; simp)
    qed (auto intro: that [of "kc_ownership x"])
    define x1 where "x1 = x\<lparr> kc_ownership := ow \<rparr>"
    define x2 where "x2 = upd_cell s i no_cell (cflag x s) x1"
    have base1: "cache_base K N x1" by (rule cache_base_cong [OF base]) (simp_all add: x1_def)
    have rm: "on_cells s (kv_rm i) x1 = Some x2"
      using p cache_cell_ops(1) [OF base1 s i] by (simp add: x1_def x2_def)
    define y where "y = stash_touch K i (tracker_if commit K (Gen_Stamp Reg_seq_rm s i [-1] (cpos x s i)) x2)"
    have run: "rm_any_cell K commit s p0 p1 i (x, nh, ch) = Some (y, if nh = N then i else nh, True)"
      using True p ow(1) cache_baseD(8) [OF base s] by (simp add: rm_any_cell_def ask rm x1_def [symmetric] y_def)
    have "edit_inv K N commit x0 y \<and> cell_of y = (cell_of x)((s, i) := no_cell)"
    proof (rule edit_round [OF J s i, where f = "cflag x s" and r = Reg_seq_rm and qs = "[-1]" and p = "cpos x s i"])
      show "kc_cells y = kc_cells (upd_cell s i no_cell (cflag x s) x)"
        using upd_cell_cong [of x1 x] by (simp add: y_def x2_def x1_def)
      show "idx_ok K N (owner_maps N (upd_cell s i no_cell (cflag x s) x)) y" if commit
        by (rule idx_ok_cong [OF ow(4) [OF that]]) (simp_all add: y_def x2_def x1_def)
      show "call_ok (Gen_Stamp Reg_seq_rm s i [-1] (cpos x s i))" by simp
    qed (use ow in \<open>auto simp: y_def x2_def x1_def edit_frame_def cell_fits_def\<close>)
    moreover have "cell_drop p0 p1 (cell_of x (s, i)) = no_cell" using True by (simp add: cell_drop_def cell_of_def)
    ultimately show ?thesis using run nh i by (simp add: t)
  qed
qed

section \<open>\<open>seq_keep\<close>\<close>

definition cell_keep :: "nat \<Rightarrow> cell_state \<Rightarrow> cell_state" where
  "cell_keep q v = (case v of (p, qs, e, d) \<Rightarrow>
     if p = -1 then v else if q \<in> qs then (p, {q}, e, d) else no_cell)"

text \<open>The loop also collects the sequences that lose a cell.\<close>

fun keep_inv :: "cache_config \<Rightarrow> nat \<Rightarrow> kv_cache \<Rightarrow> kv_cache \<times> nat \<times> bool \<times> nat set \<Rightarrow> bool" where
  "keep_inv K N x0 (x, new_head, changed, affected) \<longleftrightarrow>
     edit_inv K N True x0 x \<and> new_head \<le> N \<and> (cell_of x \<noteq> cell_of x0 \<longrightarrow> changed) \<and>
     (\<forall>s i. cseq x0 s i - cseq x s i \<subseteq> affected)"

lemma kv_seq_keep_cell:
  assumes inv: "cache_inv K N x" and s: "s < cc_n_stream K" and i: "i < N" and q: "q < LLAMA_MAX_SEQ"
    and y: "kc_cells y = kc_cells x" "kc_heads y = kc_heads x" "kc_seq_to_stream y = kc_seq_to_stream x"
  shows "on_cells_flag s (kv_seq_keep i q) y = Some (cpos x s i \<noteq> -1 \<and> q \<notin> cseq x s i,
    if cpos x s i = -1 then put_cells s (stream_cells s y) y
    else upd_cell s i (cell_keep q (cell_of x (s, i))) (cflag x s) y)"
proof -
  have base: "cache_base K N y" by (rule cache_base_cong [OF cache_invD(1) [OF inv]]) (simp_all add: y)
  have size: "i < kv_size (stream_cells s y)" using i s by (simp add: cache_baseD [OF base])
  have own: "cseq x s i = {} \<longleftrightarrow> cpos x s i = -1" using cache_invD(2) [OF inv s i] by simp
  show ?thesis
    using own upd_flag_same [where s = s and x = y and i = i, unfolded y]
      kv_seq_keep_eq [OF stream_cells_inv [OF base s] size q, unfolded stream_cells_simps y]
    by (auto simp: on_cells_flagI [OF base s] upd_cell_def cell_keep_def cell_of_def)
qed

lemma drop_maps_keep:
  assumes "cache_base K N x" and "s < cc_n_stream K" and "i < N"
    and "fst (snd v) = (if q \<in> cseq x s i then {q} else {})" and "q \<in> cseq x s i \<longrightarrow> fst v = cpos x s i"
  shows "drop_maps s {r \<in> cseq x s i. int r \<noteq> int q} i (owner_maps N x) = owner_maps N (upd_cell s i v f x)"
proof (intro ext)
  fix s' r i'
  show "drop_maps s {r \<in> cseq x s i. int r \<noteq> int q} i (owner_maps N x) s' r i' = owner_maps N (upd_cell s i v f x) s' r i'"
    unfolding drop_maps_def owner_maps_upd [OF assms(1-3)]
    using assms(3-5) by (cases "s' = s \<and> i' = i"; cases "r = q"; cases "r \<in> cseq x s i") (simp_all add: owner_maps_def)
qed

lemma cseq_alone:
  assumes "cache_base K N x" and "s < cc_n_stream K" and "i < N" and "q \<in> cseq x s i"
  shows "1 < card (cseq x s i) \<longleftrightarrow> cseq x s i \<noteq> {q}"
proof -
  have fin: "finite (cseq x s i)"
    by (rule finite_subset [OF _ finite_lessThan [of "length (kc_seq_to_stream x)"]])
      (use cache_baseD(10) [OF assms(1-3)] in auto)
  have "card (cseq x s i) = Suc (card (cseq x s i - {q}))"
    using card.remove [OF fin assms(4)] .
  moreover have "card (cseq x s i - {q}) = 0 \<longleftrightarrow> cseq x s i = {q}"
    using fin assms(4) by (subst card_0_eq) auto
  ultimately show ?thesis by (simp only: One_nat_def Suc_less_eq) (simp only: neq0_conv [symmetric])
qed

lemma keep_inv_same:
  assumes "keep_inv K N x0 (x, nh, ch, aff)" and "edit_inv K N True x0 y" and "cell_of y = cell_of x"
  shows "keep_inv K N x0 (y, nh, ch, aff)"
  using assms cell_of_fields(2) [OF assms(3)] by simp

lemma seq_keep_round:
  assumes loop: "keep_inv K N x0 t" and s: "s < cc_n_stream K" and i: "i < N"
    and q: "q < length (kc_seq_to_stream x0)"
  shows "\<exists>t'. seq_keep_cell K s q i t = Some t' \<and> keep_inv K N x0 t' \<and>
    cell_of (fst t') = (cell_of (fst t))((s, i) := cell_keep q (cell_of (fst t) (s, i)))"
proof -
  obtain x nh ch aff where t: "t = (x, nh, ch, aff)" by (metis prod_cases4)
  then have J: "edit_inv K N True x0 x" and nh: "nh \<le> N" using loop by simp_all
  have base: "cache_base K N x" and s2s: "kc_seq_to_stream x = kc_seq_to_stream x0" and inv: "cache_inv K N x"
    using J by (auto dest: edit_invD)
  have qmax: "q < LLAMA_MAX_SEQ" using q cache_baseD(5) [OF base] s2s by simp
  have sz: "kv_size (kc_cells x ! s) = N" by (rule cache_baseD(8) [OF base s])
  note ask = cell_queries [OF base s i] and alone = cseq_alone [OF base s i]
  let ?v = "cell_keep q (cell_of x (s, i))"
  have fits: "cell_fits x s ?v"
    using cell_fits_current [OF base s i] cache_baseD(11,12) [OF base s i]
    by (auto simp: cell_keep_def cell_of_def)
  show ?thesis
  proof (cases "cpos x s i = -1 \<or> cseq x s i = {q}")
    case True
    define y where "y = (if cpos x s i = -1 then put_cells s (stream_cells s x) x else upd_cell s i ?v (cflag x s) x)"
    have same: "?v = cell_of x (s, i)" using True by (auto simp: cell_keep_def cell_of_def)
    have y: "cell_of y = cell_of x" "cache_inv K N y"
      using reput_cells [OF inv s] upd_cell_cells(1) [OF base s i, of ?v] True
        upd_cell_inv [OF inv s i fits, of "cflag x s"]
      by (auto simp: y_def same cell_keep_def cell_of_def)
    have "edit_inv K N True x0 y"
      by (rule edit_same [OF J y(2,1)]) (simp_all add: y_def edit_frame_def put_cells_def)
    then have "keep_inv K N x0 (y, nh, ch, aff)"
      using keep_inv_same loop y(1) by (simp add: t)
    moreover have "seq_keep_cell K s q i (x, nh, ch, aff) = Some (y, nh, ch, aff)"
    proof -
      have keep: "on_cells_flag s (kv_seq_keep i q) x = Some (False, y)"
        using kv_seq_keep_cell [OF inv s i qmax refl refl refl] True by (auto simp: y_def)
      have "is_empty i (stream_cells s y) = Some (cpos x s i = -1)"
        using cell_queries(7) [OF cache_invD(1) [OF y(2)] s i] cell_of_fields(1) [OF y(1)] by simp
      then show ?thesis
        using True alone cache_invD(2) [OF inv s i]
        by (cases "cpos x s i = -1") (simp_all add: seq_keep_cell_def ask qmax keep tracker_if_def)
    qed
    ultimately show ?thesis using y(1) by (simp add: t same)
  next
    case False
    obtain ow where ow: "unindex_all_seqs s i (cpos x s i) (int q) x = Some (x\<lparr> kc_ownership := ow \<rparr>)"
        "ow = None \<longleftrightarrow> kc_ownership x = None"
        "idx_ok K N (drop_maps s {r \<in> cseq x s i. int r \<noteq> int q} i (owner_maps N x)) (x\<lparr> kc_ownership := ow \<rparr>)"
      using unindex_all [OF edit_invD(4) [OF J] inv s i, of "int q"] by (elim meta_impE exE conjE) (simp, rule that)
    define x1 where "x1 = x\<lparr> kc_ownership := ow \<rparr>"
    define x2 where "x2 = upd_cell s i ?v (cflag x s) x1"
    define freed where "freed = (q \<notin> cseq x s i)"
    have keep: "on_cells_flag s (kv_seq_keep i q) x1 = Some (freed, x2)"
      using kv_seq_keep_cell [OF inv s i qmax, of x1] False by (simp add: x1_def x2_def freed_def)
    have base2: "cache_base K N x2"
      unfolding x2_def
      by (rule upd_cell_base) (use base fits s i in \<open>auto simp: x1_def cell_fits_def intro: cache_base_cong\<close>)
    define x3 where "x3 = (if freed then stash_touch K i x2 else x2)"
    have cells3: "kc_cells x3 = kc_cells (upd_cell s i ?v (cflag x s) x)"
      using upd_cell_cong [of x1 x] by (simp add: x3_def x2_def x1_def)
    have base3: "cache_base K N x3" by (rule cache_base_cong [OF base2]) (simp_all add: x3_def)
    have pos3: "cpos x3 s i = (if freed then -1 else cpos x s i)"
      using fun_cong [OF upd_cell_cells(1) [OF base s i, of ?v "cflag x s"], of "(s, i)"] False cells3
      by (auto simp: cell_of_def cell_keep_def freed_def)
    note ask3 = cell_queries(3,7) [OF base3 s i]
    define y where "y = tracker K (Gen_Stamp Reg_seq_keep s i [if freed then -1 else int q] (if freed then -1 else cpos x s i)) x3"
    define removed where "removed = set (filter (\<lambda>r. r \<in> cseq x s i) [0..<LLAMA_MAX_SEQ]) - {q}"
    have run: "seq_keep_cell K s q i (x, nh, ch, aff) =
        Some (y, if freed \<and> nh = N then i else nh, True, aff \<union> removed)"
    proof (cases freed)
      case True
      then have "q \<notin> cseq x s i" "stash_touch K i x2 = x3" by (simp_all add: freed_def x3_def)
      then show ?thesis
        using False sz ow(1) keep pos3 True
        by (simp add: seq_keep_cell_def ask qmax ask3 x1_def [symmetric] y_def tracker_if_def removed_def del: set_filter)
    next
      case kept: False
      then have "q \<in> cseq x s i" "x2 = x3" by (simp_all add: freed_def x3_def)
      then show ?thesis
        using False sz alone ow(1) keep pos3 kept
        by (simp add: seq_keep_cell_def ask qmax ask3 x1_def [symmetric] y_def tracker_if_def removed_def del: set_filter)
    qed
    have fields: "kc_heads x3 = kc_heads x \<and> edit_frame x x3 \<and> kc_calls x3 = kc_calls x \<and> kc_ownership x3 = ow"
      using ow(2) by (cases freed) (simp_all add: x3_def x2_def x1_def edit_frame_def)
    have keepers: "fst (snd ?v) = (if q \<in> cseq x s i then {q} else {})" "q \<in> cseq x s i \<longrightarrow> fst ?v = cpos x s i"
      using False by (simp_all add: cell_keep_def cell_of_def)
    have J': "edit_inv K N True x0 y \<and> cell_of y = (cell_of x)((s, i) := ?v)"
    proof (rule edit_round [OF J s i fits, where f = "cflag x s" and r = Reg_seq_keep
          and qs = "[if freed then -1 else int q]" and p = "if freed then -1 else cpos x s i"])
      have "drop_maps s {r \<in> cseq x s i. int r \<noteq> int q} i (owner_maps N x) = owner_maps N (upd_cell s i ?v (cflag x s) x)"
        using drop_maps_keep [OF base s i keepers] by simp
      then show "idx_ok K N (owner_maps N (upd_cell s i ?v (cflag x s) x)) y"
        using fields by (intro idx_ok_cong [OF ow(3)]) (simp_all add: y_def edit_frame_def tracker_always)
      show "fst ?v \<noteq> -1 \<Longrightarrow> fst (snd ?v) \<noteq> {}"
        using False by (simp add: cell_keep_def cell_of_def split: if_splits)
      show "kc_cells y = kc_cells (upd_cell s i ?v (cflag x s) x)" using cells3 by (simp add: y_def tracker_always)
      show "call_ok (Gen_Stamp Reg_seq_keep s i [if freed then -1 else int q] (if freed then -1 else cpos x s i))"
        using qmax by (simp add: LLAMA_MAX_SEQ_def)
    qed (use fields ow(2) in \<open>simp_all add: y_def edit_frame_def tracker_always\<close>)
    have "cseq x0 s' i' - cseq y s' i' \<subseteq> aff \<union> removed" for s' i'
    proof (cases "(s', i') = (s, i)")
      case True
      have "cseq y s i = (if q \<in> cseq x s i then {q} else {})"
        using fun_cong [OF conjunct2 [OF J'], of "(s, i)"] keepers(1) by (simp add: cell_of_def [of y] prod_eq_iff)
      moreover have "cseq x0 s i - cseq x s i \<subseteq> aff" using loop by (simp add: t)
      moreover have "\<forall>r \<in> cseq x s i. r < LLAMA_MAX_SEQ"
        using cache_baseD(10) [OF base s i] cache_baseD(5) [OF base] by (meson less_le_trans)
      ultimately show ?thesis using True by (auto simp: removed_def split: if_splits)
    next
      case False
      then have "cell_of y (s', i') = cell_of x (s', i')" using J' by auto
      then have "cseq y s' i' = cseq x s' i'" by (simp add: cell_of_def)
      then show ?thesis using loop by (auto simp: t)
    qed
    then show ?thesis using run J' nh i by (simp add: t)
  qed
qed

end
