(* ===== verification/Cache_Operations.thy ===== *)
theory Cache_Operations
  imports Cache_Sequence_Ops Kv_Steps
begin

text \<open>
  The edits as whole operations. A finished edit keeps the invariant of the cache and the ownership
  index in step with the cells, tells the generation tracker about every cell it changed, and gives
  every sequence whose rows changed a content epoch above all earlier ones (\<open>edit_done\<close>). Its
  effect on the cells is a function of the cells before.
\<close>

section \<open>Rows of a sequence and content epochs\<close>

definition cell_row :: "nat \<Rightarrow> cell_state \<Rightarrow> (int \<times> kv_cell_ext) option" where
  "cell_row q v = (case v of (p, qs, e, d) \<Rightarrow> if q \<in> qs then Some (p, e) else None)"

definition rows_kept :: "cache_config \<Rightarrow> nat \<Rightarrow> nat set \<Rightarrow> kv_cache \<Rightarrow> kv_cache \<Rightarrow> bool" where
  "rows_kept K N A x y \<longleftrightarrow> (\<forall>s < cc_n_stream K. \<forall>i < N. \<forall>q. q \<notin> A \<longrightarrow>
     cell_row q (cell_of y (s, i)) = cell_row q (cell_of x (s, i)))"

definition epochs_left :: "cache_config \<Rightarrow> kv_cache \<Rightarrow> bool" where
  "epochs_left K x \<longleftrightarrow> (cc_vmm_budget K \<longrightarrow> kc_repr_epoch x < EPOCH_MAX \<and> kc_ckpt_epoch x < EPOCH_MAX)"

definition bump :: "cache_config \<Rightarrow> nat set \<Rightarrow> kv_cache \<Rightarrow> kv_cache" where
  "bump K A x = (if \<not> cc_vmm_budget K then x
     else x\<lparr> kc_repr_epoch := kc_repr_epoch x + 1, kc_ckpt_epoch := kc_ckpt_epoch x + 1,
       kc_seq_epochs := map (\<lambda>(q, v). if q \<in> A then kc_ckpt_epoch x + 1 else v)
         (zip [0..<length (kc_seq_epochs x)] (kc_seq_epochs x)) \<rparr>)"

lemma content_changed_bump: "epochs_left K x \<Longrightarrow> content_changed K A x = Some (bump K A x)"
  by (auto simp: content_changed_def bump_def epochs_left_def Let_def)

lemma bump_fields [simp]:
  "kc_cells (bump K A x) = kc_cells x" "kc_heads (bump K A x) = kc_heads x"
  "kc_seq_to_stream (bump K A x) = kc_seq_to_stream x" "kc_ownership (bump K A x) = kc_ownership x"
  "kc_receipt (bump K A x) = kc_receipt x" "kc_copies (bump K A x) = kc_copies x"
  "kc_calls (bump K A x) = kc_calls x" "length (kc_seq_epochs (bump K A x)) = length (kc_seq_epochs x)"
  by (simp_all add: bump_def)

definition same_epochs :: "kv_cache \<Rightarrow> kv_cache \<Rightarrow> bool" where
  "same_epochs x y \<longleftrightarrow> kc_repr_epoch y = kc_repr_epoch x \<and> kc_ckpt_epoch y = kc_ckpt_epoch x \<and>
     kc_seq_epochs y = kc_seq_epochs x"

definition raised :: "cache_config \<Rightarrow> nat set \<Rightarrow> kv_cache \<Rightarrow> kv_cache \<Rightarrow> bool" where
  "raised K A x y \<longleftrightarrow> same_epochs (bump K A x) y"

lemma bump_raised: "same_epochs x y \<Longrightarrow> raised K A x (bump K A y)"
  by (simp add: raised_def same_epochs_def bump_def)

section \<open>Finished edits\<close>

text \<open>Every changed cell is stamped, or the whole cache is.\<close>

definition logged :: "cache_config \<Rightarrow> nat \<Rightarrow> kv_cache \<Rightarrow> kv_cache \<Rightarrow> bool" where
  "logged K N x y \<longleftrightarrow> (\<exists>calls. kc_calls y = kc_calls x @ calls \<and> (\<forall>t \<in> set calls. call_ok t) \<and>
     (cc_armed K \<longrightarrow> (\<exists>r c. Gen_Global r c \<in> set calls) \<or>
        (\<forall>s < cc_n_stream K. \<forall>i < N. cell_of y (s, i) \<noteq> cell_of x (s, i) \<longrightarrow>
           (\<exists>r qs p. Gen_Stamp r s i qs p \<in> set calls))))"

definition edit_done :: "cache_config \<Rightarrow> nat \<Rightarrow> kv_cache \<Rightarrow> kv_cache \<Rightarrow> bool" where
  "edit_done K N x y \<longleftrightarrow> cache_inv K N y \<and> in_sync K N y \<and> kc_seq_to_stream y = kc_seq_to_stream x \<and>
     (kc_ownership y = None \<longleftrightarrow> kc_ownership x = None) \<and> logged K N x y \<and>
     (same_epochs x y \<and> rows_kept K N {} x y \<or> (\<exists>A. raised K A x y \<and> rows_kept K N A x y))"

lemma edit_done_cong:
  assumes "edit_done K N x y" and "kc_cells z = kc_cells y" and "kc_heads z = kc_heads y"
    and "kc_seq_to_stream z = kc_seq_to_stream y" and "kc_ownership z = kc_ownership y"
    and "kc_calls z = kc_calls y" and "same_epochs y z"
  shows "edit_done K N x z"
proof -
  note cells = cell_of_cells [OF assms(2)]
  have "in_sync K N z" if "in_sync K N y"
    unfolding owner_maps_cells [OF cells] by (rule idx_ok_cong [OF that]) (simp_all add: assms)
  then show ?thesis
    using assms(1) cache_inv_cong [OF _ assms(2-4)] assms(4-7)
    by (auto simp: edit_done_def logged_def same_epochs_def raised_def rows_kept_def cells)
qed

lemma edit_finish:
  assumes inv: "cache_inv K N x1" and sync: "in_sync K N x1"
    and frame: "kc_seq_to_stream x1 = kc_seq_to_stream x" "kc_ownership x1 = None \<longleftrightarrow> kc_ownership x = None"
    and log: "logged K N x x1" and same: "same_epochs x x1" and left: "epochs_left K x"
    and kept: "rows_kept K N A x x1" and quiet: "\<not> ch \<Longrightarrow> rows_kept K N {} x x1"
  shows "\<exists>y. (if ch then content_changed K A x1 else Some x1) = Some y \<and> edit_done K N x y \<and> cell_of y = cell_of x1"
proof (cases ch)
  case True
  define y where "y = bump K A x1"
  have "epochs_left K x1" using left same by (simp add: epochs_left_def same_epochs_def)
  then have run: "content_changed K A x1 = Some y" by (simp add: content_changed_bump y_def)
  have cells: "cell_of y = cell_of x1" by (rule cell_of_cells) (simp add: y_def)
  have "cache_inv K N y" by (rule cache_inv_cong [OF inv]) (simp_all add: y_def)
  moreover have "in_sync K N y"
    unfolding owner_maps_cells [OF cells] by (rule idx_ok_cong [OF sync]) (simp_all add: y_def)
  moreover have "raised K A x y" unfolding y_def by (rule bump_raised [OF same])
  moreover have "rows_kept K N A x y" using kept by (simp add: rows_kept_def cells)
  moreover have "kc_calls y = kc_calls x1" by (simp add: y_def)
  then have "logged K N x y" using log by (simp add: logged_def cells)
  moreover have "kc_seq_to_stream y = kc_seq_to_stream x" "kc_ownership y = None \<longleftrightarrow> kc_ownership x = None"
    using frame by (simp_all add: y_def)
  ultimately have "edit_done K N x y" unfolding edit_done_def by blast
  with run cells True show ?thesis by auto
qed (use assms in \<open>auto simp: edit_done_def\<close>)

lemma edit_inv_finish:
  assumes J: "edit_inv K N True x x1" and left: "epochs_left K x" and kept: "rows_kept K N A x x1"
    and quiet: "cell_of x1 \<noteq> cell_of x \<longrightarrow> ch"
  shows "\<exists>y. (if ch then content_changed K A x1 else Some x1) = Some y \<and> edit_done K N x y \<and> cell_of y = cell_of x1"
proof (rule edit_finish [OF _ _ _ _ _ _ left kept])
  show "logged K N x x1" using J by (auto simp: edit_inv_def stamped_def logged_def)
  show "\<not> ch \<Longrightarrow> rows_kept K N {} x x1" using quiet by (auto simp: rows_kept_def)
qed (use J in \<open>auto simp: edit_inv_def edit_frame_def same_epochs_def\<close>)

lemma rows_kept_stream:
  assumes "cell_of y = stream_map s N g (cell_of x)" and "\<And>q v. q \<notin> A \<Longrightarrow> cell_row q (g v) = cell_row q v"
  shows "rows_kept K N A x y"
  using assms by (simp add: rows_kept_def stream_map_def)

section \<open>Removal\<close>

abbreviation range_from :: "int \<Rightarrow> int \<Rightarrow> int" where "range_from p0 p1 \<equiv> fst (normalize_edit_range p0 p1)"
abbreviation range_to :: "int \<Rightarrow> int \<Rightarrow> int" where "range_to p0 p1 \<equiv> snd (normalize_edit_range p0 p1)"

lemma range_from_nonneg: "0 \<le> range_from p0 p1"
  by (simp add: normalize_edit_range_def)

lemma receipts_fields [simp]:
  "kc_cells (receipts_release_if_empty x) = kc_cells x" "kc_heads (receipts_release_if_empty x) = kc_heads x"
  "kc_seq_to_stream (receipts_release_if_empty x) = kc_seq_to_stream x"
  "kc_ownership (receipts_release_if_empty x) = kc_ownership x" "kc_calls (receipts_release_if_empty x) = kc_calls x"
  "same_epochs x (receipts_release_if_empty x)"
  by (simp_all add: receipts_release_if_empty_def receipts_release_def same_epochs_def)

lemma edit_done_receipts:
  assumes "edit_done K N x y \<and> cell_of y = c"
  shows "edit_done K N x (receipts_release_if_empty y) \<and> cell_of (receipts_release_if_empty y) = c"
  using assms edit_done_cong [of K N x y "receipts_release_if_empty y"] cell_of_cells [of "receipts_release_if_empty y" y]
  by simp

lemma content_changed_seq_eq:
  "0 \<le> sq \<Longrightarrow> nat sq < LLAMA_MAX_SEQ \<Longrightarrow> content_changed_seq K sq x = content_changed K {nat sq} x"
  by (simp add: content_changed_seq_def)

lemma cell_rm_row: "r \<noteq> q \<Longrightarrow> cell_row r (cell_rm q p0 p1 v) = cell_row r v"
  by (auto simp: cell_row_def cell_rm_def split: prod.splits)

lemma seq_rm_done:
  assumes inv: "cache_inv K N x" and sync: "in_sync K N x" and left: "epochs_left K x" and own: "\<not> cc_other K"
    and sq: "0 \<le> sq" "nat sq < length (kc_seq_to_stream x)"
  shows "\<exists>y. seq_rm K sq p0 p1 x = Some (True, y) \<and> edit_done K N x y \<and>
    cell_of y = stream_map (kc_seq_to_stream x ! nat sq) N (cell_rm (nat sq) (range_from p0 p1) (range_to p0 p1)) (cell_of x)"
proof -
  have base: "cache_base K N x" using inv by (rule cache_invD)
  have qmax: "nat sq < LLAMA_MAX_SEQ" using sq(2) cache_baseD(5) [OF base] by simp
  obtain ch y1 where one: "seq_rm_one K True sq (range_from p0 p1) (range_to p0 p1) x = Some (ch, y1)"
      "edit_inv K N True x y1" "cell_of y1 \<noteq> cell_of x \<longrightarrow> ch"
      "cell_of y1 = stream_map (kc_seq_to_stream x ! nat sq) N (cell_rm (nat sq) (range_from p0 p1) (range_to p0 p1)) (cell_of x)"
    using seq_rm_one_cells [OF inv sync sq, of True] by blast
  have kept: "rows_kept K N {nat sq} x y1"
    by (rule rows_kept_stream [OF one(4)]) (simp add: cell_rm_row)
  obtain y where y: "(if ch then content_changed K {nat sq} y1 else Some y1) = Some y"
      "edit_done K N x y \<and> cell_of y = cell_of y1"
    using edit_inv_finish [OF one(2) left kept one(3)] by blast
  have "seq_rm K sq p0 p1 x = Some (True, receipts_release_if_empty y)"
    using own sq one(1) y(1) qmax
    by (cases "normalize_edit_range p0 p1"; cases ch) (simp_all add: seq_rm_def seq_rm_impl_def content_changed_seq_eq)
  then show ?thesis using edit_done_receipts [OF y(2)] one(4) by auto
qed

section \<open>Copy within a stream\<close>

lemma cell_cp_row: "r \<noteq> dst \<Longrightarrow> cell_row r (cell_cp src dst p0 p1 v) = cell_row r v"
  by (auto simp: cell_row_def cell_cp_def split: prod.splits)

lemma seq_cp_done:
  assumes inv: "cache_inv K N x" and sync: "in_sync K N x" and left: "epochs_left K x" and own: "\<not> cc_other K"
    and src: "0 \<le> src" "nat src < length (kc_seq_to_stream x)" and dst: "0 \<le> dst" "nat dst < length (kc_seq_to_stream x)"
    and same: "kc_seq_to_stream x ! nat src = kc_seq_to_stream x ! nat dst"
  shows "\<exists>y. seq_cp K src dst p0 p1 x = Some y \<and> edit_done K N x y \<and>
    cell_of y = stream_map (kc_seq_to_stream x ! nat dst) N
      (cell_cp (nat src) (nat dst) (range_from p0 p1) (range_to p0 p1)) (cell_of x)"
proof -
  let ?s = "kc_seq_to_stream x ! nat dst" and ?a = "range_from p0 p1" and ?b = "range_to p0 p1"
  have base: "cache_base K N x" using inv by (rule cache_invD)
  have qmax: "nat dst < LLAMA_MAX_SEQ" using dst(2) cache_baseD(5) [OF base] by simp
  have s: "?s < cc_n_stream K" using cache_baseD(6) [OF base dst(2)] .
  have streams: "seq_stream x src = Some ?s" "seq_stream x dst = Some ?s" using src dst same by (simp_all add: seq_stream_def)
  have size: "kv_size (kc_cells x ! ?s) = N" "?s < length (kc_cells x)"
    using s cache_baseD(1,8) [OF base] by simp_all
  define x0 where "x0 = tracker K (Gen_Begin Reg_seq_cp Cls_state_api ?s Stamp_membership False) x"
  have start: "edit_inv K N True x x0" "cell_of x0 = cell_of x"
    using edit_inv_start [OF inv, of True] sync by (simp_all add: x0_def tracker_always token_event_def)
  show ?thesis
  proof (cases "src = dst")
    case True
    have "seq_cp K src dst p0 p1 x = Some x0"
      using own True streams size by (simp add: seq_cp_def seq_cp_impl_def x0_def normalize_edit_range_def)
    moreover have "cell_of x0 = stream_map ?s N (cell_cp (nat src) (nat dst) ?a ?b) (cell_of x)"
      by (auto simp: start(2) True stream_map_def cell_cp_def fun_eq_iff insert_absorb split: prod.splits)
    ultimately show ?thesis
      using edit_inv_finish [OF start(1) left, of "{}" False] start(2) by (auto simp: rows_kept_def)
  next
    case False
    have "\<exists>t. foldM (seq_cp_cell K ?s (nat src) (nat dst) ?a ?b) [0..<N] (x0, False) = Some t \<and> pair_inv K N x t \<and>
        cell_of (fst t) = stream_map ?s N (cell_cp (nat src) (nat dst) ?a ?b) (cell_of (fst (x0, False)))"
      by (rule stream_loop [where P = "\<lambda>_. True"])
        (use start seq_cp_round [OF _ s _ dst(2) refl src(2)] in simp_all)
    then obtain x1 ch where loop: "foldM (seq_cp_cell K ?s (nat src) (nat dst) ?a ?b) [0..<N] (x0, False) = Some (x1, ch)"
        "edit_inv K N True x x1" "cell_of x1 \<noteq> cell_of x \<longrightarrow> ch"
        "cell_of x1 = stream_map ?s N (cell_cp (nat src) (nat dst) ?a ?b) (cell_of x)"
      using start(2) by (elim exE conjE, case_tac t) simp
    have kept: "rows_kept K N {nat dst} x x1"
      by (rule rows_kept_stream [OF loop(4)]) (simp add: cell_cp_row)
    obtain y where y: "(if ch then content_changed K {nat dst} x1 else Some x1) = Some y"
        "edit_done K N x y" "cell_of y = cell_of x1"
      using edit_inv_finish [OF loop(2) left kept loop(3)] by blast
    have "seq_cp K src dst p0 p1 x = Some y"
      using own False streams size loop(1) y(1) dst(1) qmax
      by (cases "normalize_edit_range p0 p1"; cases ch)
        (simp_all add: seq_cp_def seq_cp_impl_def x0_def content_changed_seq_eq)
    then show ?thesis using y(2,3) loop(4) by simp
  qed
qed

section \<open>Keeping one sequence\<close>

lemma seq_keep_done:
  assumes inv: "cache_inv K N x" and sync: "in_sync K N x" and left: "epochs_left K x" and own: "\<not> cc_other K"
    and sq: "0 \<le> sq" "nat sq < length (kc_seq_to_stream x)"
  shows "\<exists>y. seq_keep K sq x = Some y \<and> edit_done K N x y \<and>
    cell_of y = stream_map (kc_seq_to_stream x ! nat sq) N (cell_keep (nat sq)) (cell_of x)"
proof -
  let ?s = "kc_seq_to_stream x ! nat sq"
  have base: "cache_base K N x" using inv by (rule cache_invD)
  have s: "?s < cc_n_stream K" using cache_baseD(6) [OF base sq(2)] .
  have stream: "seq_stream x sq = Some ?s" using sq by (simp add: seq_stream_def)
  have size: "kv_size (kc_cells x ! ?s) = N" "?s < length (kc_cells x)" "?s < length (kc_heads x)"
    using s cache_baseD(1,2,8) [OF base] by simp_all
  define x0 where "x0 = tracker K (Gen_Begin Reg_seq_keep Cls_state_api ?s Stamp_membership False) x"
  have start: "edit_inv K N True x x0" "cell_of x0 = cell_of x"
    using edit_inv_start [OF inv, of True] sync by (simp_all add: x0_def tracker_always token_event_def)
  have seqs0: "cseq x0 s' i = cseq x s' i" for s' i using cell_of_fields(2) [OF start(2)] .
  have "\<exists>t. foldM (seq_keep_cell K ?s (nat sq)) [0..<N] (x0, N, False, {}) = Some t \<and> keep_inv K N x t \<and>
      cell_of (fst t) = stream_map ?s N (cell_keep (nat sq)) (cell_of (fst (x0, N, False, {} :: nat set)))"
    by (rule stream_loop [where P = "\<lambda>_. True"])
      (use start seqs0 seq_keep_round [OF _ s _ sq(2)] in simp_all)
  then obtain x1 nh ch A where loop: "foldM (seq_keep_cell K ?s (nat sq)) [0..<N] (x0, N, False, {}) = Some (x1, nh, ch, A)"
      "keep_inv K N x (x1, nh, ch, A)" "cell_of x1 = stream_map ?s N (cell_keep (nat sq)) (cell_of x)"
    using start(2) by (elim exE conjE, case_tac t) simp
  define x2 where "x2 = lower_head ?s N nh x1"
  have x2: "edit_inv K N True x x2" "cell_of x2 = cell_of x1"
    unfolding x2_def using edit_inv_lower_head [of K N True x x1 nh ?s N] loop(2) by auto
  have kept: "rows_kept K N A x x2"
    unfolding rows_kept_def
  proof (intro allI impI)
    fix s' i r assume *: "s' < cc_n_stream K" "i < N" "r \<notin> A"
    have "cseq x s' i - cseq x1 s' i \<subseteq> A" using loop(2) by simp
    then have "r \<in> cseq x s' i \<longrightarrow> r \<in> cseq x1 s' i" using *(3) by blast
    then show "cell_row r (cell_of x2 (s', i)) = cell_row r (cell_of x (s', i))"
      using fun_cong [OF loop(3), of "(s', i)"] unfolding x2(2)
      by (auto simp: cell_row_def cell_of_def stream_map_def cell_keep_def split: if_splits)
  qed
  obtain y where y: "(if ch then content_changed K A x2 else Some x2) = Some y" "edit_done K N x y" "cell_of y = cell_of x2"
    using edit_inv_finish [OF x2(1) left kept, of ch] loop(2) x2(2) by auto
  have "seq_keep K sq x = Some y"
    using own stream size loop(1) y(1) by (cases ch) (simp_all add: seq_keep_def x0_def x2_def)
  then show ?thesis using y(2,3) x2(2) loop(3) by simp
qed

section \<open>Shifting and dividing positions\<close>

definition owned_alone :: "nat \<Rightarrow> int \<Rightarrow> int \<Rightarrow> cell_state \<Rightarrow> bool" where
  "owned_alone q p0 p1 v \<longleftrightarrow> (case v of (p, qs, e, d) \<Rightarrow> p0 \<le> p \<and> p < p1 \<and> q \<in> qs \<longrightarrow> qs = {q})"

lemma owned_alone_unshared: "owned_alone q p0 p1 v \<Longrightarrow> unshared x q p0 p1 v"
  by (simp add: owned_alone_def unshared_def)

lemma cell_add_row:
  "owned_alone q p0 p1 v \<Longrightarrow> r \<noteq> q \<Longrightarrow> cell_row r (cell_add q p0 p1 m rot txt v) = cell_row r v"
  by (auto simp: owned_alone_def cell_row_def cell_add_def split: prod.splits)

lemma cell_div_row:
  "owned_alone q p0 p1 v \<Longrightarrow> r \<noteq> q \<Longrightarrow> cell_row r (cell_div q p0 p1 m v) = cell_row r v"
  by (auto simp: owned_alone_def cell_row_def cell_div_def split: prod.splits)

lemma cell_add_none: "cell_add q p0 p1 0 rot txt v = v" if "0 \<le> fst v \<or> fst v < p0"
  using that by (auto simp: cell_add_def shifted_ext_def split: prod.splits)

lemma rows_kept_alone:
  assumes "cell_of y = stream_map s N g (cell_of x)" and "\<And>i. i < N \<Longrightarrow> owned_alone q p0 p1 (cell_of x (s, i))"
    and "\<And>r v. owned_alone q p0 p1 v \<Longrightarrow> r \<noteq> q \<Longrightarrow> cell_row r (g v) = cell_row r v"
  shows "rows_kept K N {q} x y"
  using assms by (simp add: rows_kept_def stream_map_def)

lemma seq_add_done:
  assumes inv: "cache_inv K N x" and sync: "in_sync K N x" and left: "epochs_left K x" and own: "\<not> cc_other K"
    and sq: "0 \<le> sq" "nat sq < length (kc_seq_to_stream x)"
    and kind: "if cc_text_mrope K then can_shift_qwen4_text_range K sq p0 p1 x else cc_n_pos_per_embd K = 1 \<and> \<not> raw"
    and alone: "\<And>i. i < N \<Longrightarrow> owned_alone (nat sq) (range_from p0 p1) (range_to p0 p1)
      (cell_of x (kc_seq_to_stream x ! nat sq, i))"
  shows "\<exists>y. seq_add_impl K sq p0 p1 m raw x = Some y \<and> edit_done K N x y \<and>
    cell_of y = stream_map (kc_seq_to_stream x ! nat sq) N (cell_add (nat sq) (range_from p0 p1) (range_to p0 p1) m
      (\<not> (cc_text_mrope K \<and> raw)) (cc_text_mrope K)) (cell_of x)"
proof -
  let ?s = "kc_seq_to_stream x ! nat sq" and ?a = "range_from p0 p1" and ?b = "range_to p0 p1"
  let ?g = "cell_add (nat sq) ?a ?b m (\<not> (cc_text_mrope K \<and> raw)) (cc_text_mrope K)"
  have base: "cache_base K N x" using inv by (rule cache_invD)
  have qmax: "nat sq < LLAMA_MAX_SEQ" using sq(2) cache_baseD(5) [OF base] by simp
  have s: "?s < cc_n_stream K" using cache_baseD(6) [OF base sq(2)] .
  have stream: "seq_stream x sq = Some ?s" using sq by (simp add: seq_stream_def)
  have size: "kv_size (kc_cells x ! ?s) = N" "?s < length (kc_cells x)" "?s < length (kc_heads x)"
    using s cache_baseD(1,2,8) [OF base] by simp_all
  have kind': "cc_n_pos_per_embd K = 1 \<or> cc_text_mrope K" "\<not> raw \<or> cc_text_mrope K"
      "\<not> cc_text_mrope K \<or> can_shift_qwen4_text_range K sq p0 p1 x"
    using kind by (simp_all split: if_splits)
  define x0 where "x0 = tracker K (Gen_Begin Reg_seq_add Cls_state_api ?s Stamp_dependency True) x"
  have start: "edit_inv K N True x x0" "cell_of x0 = cell_of x"
    using edit_inv_start [OF inv, of True] sync by (simp_all add: x0_def tracker_always token_event_def)
  show ?thesis
  proof (cases "m = 0 \<or> ?a = ?b")
    case True
    then have "seq_add_impl K sq p0 p1 m raw x = Some x0"
      using own stream size kind' by (cases "normalize_edit_range p0 p1") (simp add: seq_add_impl_def x0_def)
    moreover have "?g v = v" for v
      using True range_from_nonneg [of p0 p1] cell_add_none [of v ?a "nat sq" ?b]
      by (auto simp: cell_add_def split: prod.splits)
    then have "cell_of x0 = stream_map ?s N ?g (cell_of x)" by (simp add: start(2) stream_map_def fun_eq_iff)
    ultimately show ?thesis
      using edit_inv_finish [OF start(1) left, of "{}" False] start(2) by (auto simp: rows_kept_def)
  next
    case False
    have "\<exists>t. foldM (seq_add_cell K raw ?s (nat sq) ?a ?b m) [0..<N] (x0, N, False) = Some t \<and> loop_inv K N True x t \<and>
        cell_of (fst t) = stream_map ?s N ?g (cell_of (fst (x0, N, False)))"
      by (rule stream_loop [where P = "unshared x (nat sq) ?a ?b"])
        (use start seq_add_round [OF _ s _ sq(2)] alone in \<open>simp_all add: owned_alone_unshared\<close>)
    then obtain x1 nh ch where loop: "foldM (seq_add_cell K raw ?s (nat sq) ?a ?b m) [0..<N] (x0, N, False) = Some (x1, nh, ch)"
        "edit_inv K N True x x1" "nh \<le> N" "cell_of x1 \<noteq> cell_of x \<longrightarrow> ch"
        "cell_of x1 = stream_map ?s N ?g (cell_of x)"
      using start(2) by (elim exE conjE, case_tac t) simp
    define x2 where "x2 = set_head ?s (if nh \<noteq> N then nh else 0) x1"
    have x2: "edit_inv K N True x x2" "cell_of x2 = cell_of x1"
      unfolding x2_def using edit_inv_head [OF loop(2), of "if nh \<noteq> N then nh else 0"] loop(3) by simp_all
    have "cell_of x2 = stream_map ?s N ?g (cell_of x)" using x2(2) loop(5) by simp
    from rows_kept_alone [OF this alone cell_add_row] have kept: "rows_kept K N {nat sq} x x2" by blast
    obtain y where y: "(if ch then content_changed K {nat sq} x2 else Some x2) = Some y"
        "edit_done K N x y" "cell_of y = cell_of x2"
      using edit_inv_finish [OF x2(1) left kept, of ch] loop(4) x2(2) by auto
    have "seq_add_impl K sq p0 p1 m raw x = Some y"
      using own False stream size kind' loop(1) y(1) sq(1) qmax
      by (cases "normalize_edit_range p0 p1"; cases ch)
        (simp_all add: seq_add_impl_def x0_def x2_def content_changed_seq_eq)
    then show ?thesis using y(2,3) x2(2) loop(5) by simp
  qed
qed

lemma cell_div_none: "cell_div q p0 p1 1 v = v"
  by (auto simp: cell_div_def split: prod.splits)

lemma seq_div_done:
  assumes inv: "cache_inv K N x" and sync: "in_sync K N x" and left: "epochs_left K x" and own: "\<not> cc_other K"
    and sq: "0 \<le> sq" "nat sq < length (kc_seq_to_stream x)" and kind: "cc_n_pos_per_embd K = 1" and m: "0 < m"
    and alone: "\<And>i. i < N \<Longrightarrow> owned_alone (nat sq) (range_from p0 p1) (range_to p0 p1)
      (cell_of x (kc_seq_to_stream x ! nat sq, i))"
  shows "\<exists>y. seq_div K sq p0 p1 m x = Some y \<and> edit_done K N x y \<and>
    cell_of y = stream_map (kc_seq_to_stream x ! nat sq) N
      (cell_div (nat sq) (range_from p0 p1) (range_to p0 p1) m) (cell_of x)"
proof -
  let ?s = "kc_seq_to_stream x ! nat sq" and ?a = "range_from p0 p1" and ?b = "range_to p0 p1"
  let ?g = "cell_div (nat sq) ?a ?b m"
  have base: "cache_base K N x" using inv by (rule cache_invD)
  have qmax: "nat sq < LLAMA_MAX_SEQ" using sq(2) cache_baseD(5) [OF base] by simp
  have s: "?s < cc_n_stream K" using cache_baseD(6) [OF base sq(2)] .
  have stream: "seq_stream x sq = Some ?s" using sq by (simp add: seq_stream_def)
  have size: "kv_size (kc_cells x ! ?s) = N" "?s < length (kc_cells x)" using s cache_baseD(1,8) [OF base] by simp_all
  define x0 where "x0 = tracker K (Gen_Begin Reg_seq_div Cls_state_api ?s Stamp_dependency True) x"
  have start: "edit_inv K N True x x0" "cell_of x0 = cell_of x"
    using edit_inv_start [OF inv, of True] sync by (simp_all add: x0_def tracker_always token_event_def)
  show ?thesis
  proof (cases "m = 1 \<or> ?a = ?b")
    case True
    then have "seq_div K sq p0 p1 m x = Some x0"
      using own stream size kind by (cases "normalize_edit_range p0 p1") (simp add: seq_div_def x0_def)
    moreover have "?g v = v" for v
      using True cell_div_none by (auto simp: cell_div_def split: prod.splits)
    then have "cell_of x0 = stream_map ?s N ?g (cell_of x)" by (simp add: start(2) stream_map_def fun_eq_iff)
    ultimately show ?thesis
      using edit_inv_finish [OF start(1) left, of "{}" False] start(2) by (auto simp: rows_kept_def)
  next
    case False
    have "\<exists>t. foldM (seq_div_cell K ?s (nat sq) ?a ?b m) [0..<N] (x0, False) = Some t \<and> pair_inv K N x t \<and>
        cell_of (fst t) = stream_map ?s N ?g (cell_of (fst (x0, False)))"
      by (rule stream_loop [where P = "unshared x (nat sq) ?a ?b"])
        (use start seq_div_round [OF _ s _ sq(2)] alone m in \<open>simp_all add: owned_alone_unshared\<close>)
    then obtain x1 ch where loop: "foldM (seq_div_cell K ?s (nat sq) ?a ?b m) [0..<N] (x0, False) = Some (x1, ch)"
        "edit_inv K N True x x1" "cell_of x1 \<noteq> cell_of x \<longrightarrow> ch" "cell_of x1 = stream_map ?s N ?g (cell_of x)"
      using start(2) by (elim exE conjE, case_tac t) simp
    from rows_kept_alone [OF loop(4) alone cell_div_row] have kept: "rows_kept K N {nat sq} x x1" by blast
    obtain y where y: "(if ch then content_changed K {nat sq} x1 else Some x1) = Some y"
        "edit_done K N x y" "cell_of y = cell_of x1"
      using edit_inv_finish [OF loop(2) left kept loop(3)] by blast
    have "seq_div K sq p0 p1 m x = Some y"
      using own False stream size kind loop(1) y(1) sq(1) qmax
      by (cases "normalize_edit_range p0 p1"; cases ch) (simp_all add: seq_div_def x0_def content_changed_seq_eq)
    then show ?thesis using y(2,3) loop(4) by simp
  qed
qed

section \<open>Removal for all sequences\<close>

lemma edit_inv_tracker:
  assumes "edit_inv K N commit x0 x" and "b \<longrightarrow> commit" and ok: "call_ok t"
  shows "edit_inv K N commit x0 (tracker_if b K t x)"
proof -
  have cells: "cell_of (tracker_if b K t x) = cell_of x" by (rule cell_of_cells) simp
  have "in_sync K N (tracker_if b K t x)" if "in_sync K N x"
    unfolding owner_maps_cells [OF cells] by (rule idx_ok_cong [OF that]) simp_all
  moreover have "stamped K x0 (tracker_if b K t x)" if st: "stamped K x0 x"
  proof -
    obtain calls where "kc_calls x = kc_calls x0 @ calls" "\<forall>t \<in> set calls. call_ok t" "cc_armed K \<longrightarrow> (\<forall>s i. cell_of x (s, i) \<noteq> cell_of x0 (s, i) \<longrightarrow>
        (\<exists>r qs p. Gen_Stamp r s i qs p \<in> set calls))"
      using st unfolding stamped_def by (elim exE conjE) (rule that)
    then show ?thesis
      using cells ok unfolding stamped_def
      by (intro exI [of _ "calls @ (if b \<and> cc_armed K then [t] else [])"]) (simp, blast)
  qed
  moreover have "cache_inv K N (tracker_if b K t x)"
    by (rule cache_inv_cong [OF edit_invD(1) [OF assms(1)]]) simp_all
  ultimately show ?thesis using assms by (auto simp: edit_inv_def edit_frame_def)
qed

text \<open>One stream.\<close>

lemma rm_any_stream_round:
  assumes J: "edit_inv K N commit x0 x" and ch: "cell_of x \<noteq> cell_of x0 \<longrightarrow> ch"
    and s: "s < cc_n_stream K" and p0: "0 \<le> p0"
  shows "\<exists>ch' y. rm_any_stream K commit p0 p1 s (ch, x) = Some (ch', y) \<and> edit_inv K N commit x0 y \<and>
    (cell_of y \<noteq> cell_of x0 \<longrightarrow> ch') \<and> cell_of y = stream_map s N (cell_drop p0 p1) (cell_of x)"
proof -
  define x1 where "x1 = tracker_if commit K (Gen_Begin Reg_seq_rm Cls_state_api s Stamp_membership False) x"
  have base: "cache_base K N x" using J by (rule edit_invD)
  have size: "kv_size (kc_cells x ! s) = N" "s < length (kc_cells x)" "s < length (kc_heads x)"
    using s cache_baseD(1,2,8) [OF base] by simp_all
  have cells1: "cell_of x1 = cell_of x" by (rule cell_of_cells) (simp add: x1_def)
  have start: "loop_inv K N commit x0 (x1, N, ch)"
    using edit_inv_tracker [OF J, of commit] ch by (simp add: token_event_def x1_def cell_of_cells [of "tracker_if _ _ _ x" x])
  have "\<exists>t. foldM (rm_any_cell K commit s p0 p1) [0..<N] (x1, N, ch) = Some t \<and> loop_inv K N commit x0 t \<and>
      cell_of (fst t) = stream_map s N (cell_drop p0 p1) (cell_of (fst (x1, N, ch)))"
    by (rule stream_loop [where P = "\<lambda>_. True"]) (use start rm_any_round [OF _ s _ p0] in simp_all)
  then obtain y nh ch' where loop: "foldM (rm_any_cell K commit s p0 p1) [0..<N] (x1, N, ch) = Some (y, nh, ch')"
      "edit_inv K N commit x0 y" "nh \<le> N" "cell_of y \<noteq> cell_of x0 \<longrightarrow> ch'"
      "cell_of y = stream_map s N (cell_drop p0 p1) (cell_of x)"
    using cells1 by (elim exE conjE, case_tac t) simp
  have "rm_any_stream K commit p0 p1 s (ch, x) = Some (ch', lower_head s N nh y)"
    using size loop(1) by (simp add: rm_any_stream_def x1_def)
  then show ?thesis using edit_inv_lower_head [OF loop(2,3), of s N] loop(4,5) by auto
qed

definition streams_map :: "nat set \<Rightarrow> nat \<Rightarrow> (cell_state \<Rightarrow> cell_state) \<Rightarrow> (nat \<times> nat \<Rightarrow> cell_state) \<Rightarrow> nat \<times> nat \<Rightarrow> cell_state" where
  "streams_map S N g c k = (if fst k \<in> S \<and> snd k < N then g (c k) else c k)"

lemma rm_any_streams:
  assumes "edit_inv K N commit x0 x" and "cell_of x \<noteq> cell_of x0 \<longrightarrow> ch"
    and "set ss \<subseteq> {..<cc_n_stream K}" and "0 \<le> p0" and "distinct ss"
  shows "\<exists>ch' y. foldM (rm_any_stream K commit p0 p1) ss (ch, x) = Some (ch', y) \<and> edit_inv K N commit x0 y \<and>
    (cell_of y \<noteq> cell_of x0 \<longrightarrow> ch') \<and> cell_of y = streams_map (set ss) N (cell_drop p0 p1) (cell_of x)"
  using assms
proof (induction ss arbitrary: x ch)
  case Nil
  then show ?case by (simp add: streams_map_def fun_eq_iff)
next
  case (Cons s ss)
  then have s: "s < cc_n_stream K" by simp
  obtain ch1 x1 where x1: "rm_any_stream K commit p0 p1 s (ch, x) = Some (ch1, x1)" "edit_inv K N commit x0 x1"
      "cell_of x1 \<noteq> cell_of x0 \<longrightarrow> ch1" "cell_of x1 = stream_map s N (cell_drop p0 p1) (cell_of x)"
    using rm_any_stream_round [OF Cons.prems(1,2) s Cons.prems(4)] by blast
  have "streams_map (set ss) N (cell_drop p0 p1) (cell_of x1) = streams_map (set (s # ss)) N (cell_drop p0 p1) (cell_of x)"
    using Cons.prems(5) by (auto simp: x1(4) streams_map_def stream_map_def fun_eq_iff)
  then show ?case using Cons.IH [OF x1(2,3)] Cons.prems(3-5) x1(1) by simp
qed

lemma cell_row_absent: "cache_base K N x \<Longrightarrow> s < cc_n_stream K \<Longrightarrow> i < N \<Longrightarrow> LLAMA_MAX_SEQ \<le> q \<Longrightarrow>
    cell_row q (cell_of x (s, i)) = None"
  using cache_baseD(5) [of K N x] cache_baseD(10) [of K N x s i q] by (auto simp: cell_row_def cell_of_def)

lemma rows_kept_all:
  "cache_base K N x \<Longrightarrow> cache_base K N y \<Longrightarrow> rows_kept K N {..<LLAMA_MAX_SEQ} x y"
  by (simp add: rows_kept_def cell_row_absent)

lemma seq_rm_all_done:
  assumes inv: "cache_inv K N x" and sync: "in_sync K N x" and left: "epochs_left K x" and own: "\<not> cc_other K"
  shows "\<exists>y. seq_rm K (-1) p0 p1 x = Some (True, y) \<and> edit_done K N x y \<and>
    cell_of y = streams_map {..<cc_n_stream K} N (cell_drop (range_from p0 p1) (range_to p0 p1)) (cell_of x)"
proof -
  have start: "edit_inv K N True x x" using inv sync by (simp add: edit_inv_def stamped_refl)
  have streams: "set [0..<cc_n_stream K] = {..<cc_n_stream K}" by auto
  obtain ch y1 where loop: "foldM (rm_any_stream K True (range_from p0 p1) (range_to p0 p1)) [0..<cc_n_stream K] (False, x) = Some (ch, y1)"
      "edit_inv K N True x y1" "cell_of y1 \<noteq> cell_of x \<longrightarrow> ch"
      "cell_of y1 = streams_map {..<cc_n_stream K} N (cell_drop (range_from p0 p1) (range_to p0 p1)) (cell_of x)"
    using rm_any_streams [OF start _ _ range_from_nonneg [of p0 p1], of False "[0..<cc_n_stream K]" "range_to p0 p1"] unfolding streams by (elim meta_impE exE conjE) (simp, simp, simp, rule that)
  obtain y where y: "(if ch then content_changed K {..<LLAMA_MAX_SEQ} y1 else Some y1) = Some y"
      "edit_done K N x y \<and> cell_of y = cell_of y1"
    using edit_inv_finish [OF loop(2) left rows_kept_all loop(3)] cache_invD(1) [OF inv] edit_invD(2) [OF loop(2)] by blast
  have "seq_rm K (-1) p0 p1 x = Some (True, receipts_release_if_empty y)"
    using own loop(1) y(1)
    by (cases "normalize_edit_range p0 p1"; cases ch) (simp_all add: seq_rm_def seq_rm_impl_def content_changed_all_def)
  then show ?thesis using edit_done_receipts [OF y(2)] loop(4) by auto
qed

section \<open>Clearing\<close>

lemma kv_reset_fields [simp]:
  "kv_pos (kv_reset c) = replicate (kv_size c) (-1)" "kv_seq (kv_reset c) = replicate (kv_size c) {}"
  "kv_ext (kv_reset c) = replicate (kv_size c) ext_default" "kv_shift (kv_reset c) = replicate (kv_size c) 0"
  by (simp_all add: kv_reset_def touch_all_def Let_def)

lemma kv_inv_reset: "kv_inv c \<Longrightarrow> kv_inv (kv_reset c)"
  using kv_reset_atom [of c] kv_atom_inv by blast

text \<open>The fields a stream edit leaves alone.\<close>

definition stream_frame :: "kv_cache \<Rightarrow> kv_cache \<Rightarrow> bool" where
  "stream_frame x y \<longleftrightarrow> kc_seq_to_stream y = kc_seq_to_stream x \<and> same_epochs x y \<and>
     kc_ownership y = kc_ownership x \<and> kc_calls y = kc_calls x"

lemma reset_stream:
  assumes inv: "cache_inv K N x" and s: "s < cc_n_stream K"
  shows "\<exists>y. on_cells s (\<lambda>c. Some (kv_reset c)) x = Some y \<and> cache_inv K N y \<and> stream_frame x y \<and>
    kc_heads y = kc_heads x \<and>
    (\<forall>s' < cc_n_stream K. \<forall>i < N. cell_of y (s', i) = (if s' = s then no_cell else cell_of x (s', i)))"
proof -
  define y where "y = put_cells s (kv_reset (stream_cells s x)) x"
  have base: "cache_base K N x" using inv by (rule cache_invD)
  have cells: "kc_cells y ! s' = (if s' = s then kv_reset (stream_cells s x) else kc_cells x ! s')" if "s' < cc_n_stream K" for s'
    using that cache_baseD(1) [OF base] by (simp add: y_def put_cells_def)
  have size: "kv_size (kc_cells x ! s) = N" by (rule cache_baseD(8) [OF base s])
  have fields: "kc_heads y = kc_heads x" "kc_seq_to_stream y = kc_seq_to_stream x" "length (kc_cells y) = length (kc_cells x)"
    by (simp_all add: y_def put_cells_def)
  have stream: "kv_inv (kc_cells y ! s') \<and> kv_size (kc_cells y ! s') = N \<and>
      (\<forall>i < N. \<forall>q \<in> cseq y s' i. q < length (kc_seq_to_stream x) \<and> kc_seq_to_stream x ! q = s') \<and>
      (\<forall>i < N. cpos y s' i \<noteq> -1 \<longrightarrow> cseq y s' i \<noteq> {})" if s': "s' < cc_n_stream K" for s'
  proof (cases "s' = s")
    case True
    then show ?thesis
      using cells [OF s'] size kv_inv_reset [OF stream_cells_inv [OF base s]] by simp
  next
    case False
    then have same: "kc_cells y ! s' = kc_cells x ! s'" using cells [OF s'] by simp
    show ?thesis
      unfolding same using inv s' by (simp add: cache_inv_def cache_base_def)
  qed
  have "cache_inv K N y"
    using inv stream cache_baseD(9) [OF base] by (simp add: cache_inv_def cache_base_def fields)
  moreover have "cell_of y (s', i) = (if s' = s then no_cell else cell_of x (s', i))"
    if "s' < cc_n_stream K" "i < N" for s' i
    using cells [OF that(1)] size that(2) by (simp add: cell_of_def)
  moreover have "on_cells s (\<lambda>c. Some (kv_reset c)) x = Some y"
    using s cache_baseD(1) [OF base] by (simp add: on_cells_def y_def)
  ultimately show ?thesis
    by (intro exI [of _ y]) (simp add: stream_frame_def same_epochs_def y_def put_cells_def)
qed

lemma set_head_inv:
  assumes "cache_inv K N x" and "h \<le> N"
  shows "cache_inv K N (set_head s h x)"
proof -
  have "(kc_heads x)[s := h] ! s' \<le> N" if "s' < cc_n_stream K" for s'
    using cache_baseD(2,9) [OF cache_invD(1) [OF assms(1)]] that assms(2) by (cases "s = s'") simp_all
  then show ?thesis using assms(1) by (simp add: cache_inv_def cache_base_def set_head_def)
qed

lemma set_head_frame [simp]: "stream_frame x (set_head s h x)" "cell_of (set_head s h x) = cell_of x"
  by (simp_all add: stream_frame_def same_epochs_def set_head_def cell_of_def fun_eq_iff)

lemma stream_frame_trans: "stream_frame x y \<Longrightarrow> stream_frame y z \<Longrightarrow> stream_frame x z"
  by (simp add: stream_frame_def same_epochs_def)

lemma clear_streams:
  assumes "cache_inv K N x" and "set ss \<subseteq> {..<cc_n_stream K}"
  shows "\<exists>y. foldM clear_stream ss x = Some y \<and> cache_inv K N y \<and> stream_frame x y \<and>
    (\<forall>s < cc_n_stream K. \<forall>i < N. cell_of y (s, i) = (if s \<in> set ss then no_cell else cell_of x (s, i)))"
  using assms
proof (induction ss arbitrary: x)
  case Nil
  then show ?case by (simp add: stream_frame_def same_epochs_def)
next
  case (Cons s ss)
  then have s: "s < cc_n_stream K" by simp
  obtain x1 where x1: "on_cells s (\<lambda>c. Some (kv_reset c)) x = Some x1" "cache_inv K N x1" "stream_frame x x1"
      "\<forall>s' < cc_n_stream K. \<forall>i < N. cell_of x1 (s', i) = (if s' = s then no_cell else cell_of x (s', i))"
    using reset_stream [OF Cons.prems(1) s] by blast
  obtain y where y: "foldM clear_stream ss (set_head s 0 x1) = Some y" "cache_inv K N y" "stream_frame (set_head s 0 x1) y"
      "\<forall>s' < cc_n_stream K. \<forall>i < N. cell_of y (s', i) = (if s' \<in> set ss then no_cell else cell_of (set_head s 0 x1) (s', i))"
    using Cons.IH [OF set_head_inv [OF x1(2), of 0 s]] Cons.prems(2) by auto
  have "stream_frame x y"
    using stream_frame_trans [OF stream_frame_trans [OF x1(3) set_head_frame(1)] y(3)] .
  moreover have "clear_stream s x = Some (set_head s 0 x1)" using x1(1) by (simp add: clear_stream_def)
  ultimately show ?case using y x1(4) by (intro exI [of _ y]) simp
qed

lemma clear_done:
  assumes inv: "cache_inv K N x" and sync: "in_sync K N x" and left: "epochs_left K x"
  shows "\<exists>y. cache_clear K x = Some y \<and> edit_done K N x y \<and>
    (\<forall>s < cc_n_stream K. \<forall>i < N. cell_of y (s, i) = no_cell)"
proof -
  obtain x1 where x1: "foldM clear_stream [0..<cc_n_stream K] x = Some x1" "cache_inv K N x1" "stream_frame x x1"
      "\<forall>s < cc_n_stream K. \<forall>i < N. cell_of x1 (s, i) = no_cell"
    using clear_streams [OF inv, of "[0..<cc_n_stream K]"] by (auto simp: lessThan_atLeast0)
  define x2 where "x2 = tracker K (Gen_Global Reg_clear Cls_state_api) (bump K {..<LLAMA_MAX_SEQ} x1)"
  have "epochs_left K x1" using left x1(3) by (simp add: epochs_left_def stream_frame_def same_epochs_def)
  then have changed: "content_changed_all K x1 = Some (bump K {..<LLAMA_MAX_SEQ} x1)"
    by (simp add: content_changed_all_def content_changed_bump)
  have own2: "kc_ownership x2 = kc_ownership x" "kc_seq_to_stream x2 = kc_seq_to_stream x"
    using x1(3) by (simp_all add: x2_def tracker_always stream_frame_def)
  have idx: "idx_ok K N (owner_maps N x) x2"
    by (rule idx_ok_cong [OF sync]) (simp_all add: own2)
  obtain ow where ow: "index_op Clear_All x2 = Some (x2\<lparr> kc_ownership := ow \<rparr>)" "ow = None \<longleftrightarrow> kc_ownership x = None"
      "idx_ok K N (\<lambda>_ _. Map.empty) (x2\<lparr> kc_ownership := ow \<rparr>)"
    using index_clear_all [OF idx] unfolding own2 by (elim exE conjE) (rule that)
  define y where "y = receipts_release (x2\<lparr> kc_ownership := ow \<rparr>)"
  have run: "cache_clear K x = Some y"
    using x1(1) changed ow(1) by (simp add: cache_clear_def x2_def y_def)
  have cells: "kc_cells y = kc_cells x1" by (simp add: y_def x2_def receipts_release_def tracker_always)
  have empty: "cell_of y (s, i) = no_cell" if "s < cc_n_stream K" "i < N" for s i
    using x1(4) that cell_of_cells [OF cells] by simp
  have "owner_maps N y s q = Map.empty" if "s < cc_n_stream K" for s q
    using empty [OF that] by (auto simp: owner_maps_def cell_of_def fun_eq_iff)
  then have "in_sync K N y"
    by (intro idx_ok_cong [OF ow(3)]) (simp_all add: y_def receipts_release_def)
  moreover have "cache_inv K N y"
    by (rule cache_inv_cong [OF x1(2) cells]) (simp_all add: y_def x2_def receipts_release_def tracker_always)
  moreover have "raised K {..<LLAMA_MAX_SEQ} x y"
    using x1(3) by (simp add: raised_def same_epochs_def stream_frame_def y_def x2_def receipts_release_def tracker_always bump_def)
  moreover have "logged K N x y"
    using x1(3) by (auto simp: logged_def stream_frame_def y_def x2_def receipts_release_def tracker_always)
  moreover have "kc_seq_to_stream y = kc_seq_to_stream x" "kc_ownership y = None \<longleftrightarrow> kc_ownership x = None"
    using own2 ow(2) by (simp_all add: y_def receipts_release_def)
  moreover have "rows_kept K N {..<LLAMA_MAX_SEQ} x y"
    by (rule rows_kept_all) (use inv calculation(2) cache_invD(1) in blast)+
  ultimately have "edit_done K N x y" unfolding edit_done_def by blast
  then show ?thesis using run empty by (intro exI [of _ y]) simp
qed

end
