(* ===== verification/Cache_Stream_Copy.thy ===== *)
theory Cache_Stream_Copy
  imports Cache_Operations
begin

text \<open>
  \<open>seq_cp\<close> between two streams, on a cache without generation tracking: the destination stream is
  reset and receives, at the same indices, the cells of the source sequence, each with its position,
  extension and pending shift.
\<close>

definition cell_copy :: "nat \<Rightarrow> nat \<Rightarrow> cell_state \<Rightarrow> cell_state" where
  "cell_copy src dst v = (case v of (p, qs, e, d) \<Rightarrow> if src \<in> qs then (p, {dst}, e, d) else no_cell)"

text \<open>A pending shift is what a position was moved by, so the position before it was not negative.\<close>

definition shift_ok :: "cell_state \<Rightarrow> bool" where
  "shift_ok v \<longleftrightarrow> (case v of (p, qs, e, d) \<Rightarrow> d \<noteq> 0 \<longrightarrow> d \<le> p)"

text \<open>The chain of cell operations of one copied cell.\<close>

lemma copy_into_cell:
  assumes inv: "cache_inv K N x" and s1: "s1 < cc_n_stream K" and i: "i < N" and free: "cell_of x (s1, i) = no_cell"
    and dst: "dst < length (kc_seq_to_stream x)" "kc_seq_to_stream x ! dst = s1"
    and p: "0 \<le> p" and d: "d \<noteq> 0 \<longrightarrow> d \<le> p"
  shows "\<exists>y. do {
       x1 \<leftarrow> on_cells s1 (kv_pos_set i (p - d)) x;
       x2 \<leftarrow> on_cells s1 (kv_seq_add i dst) x1;
       x3 \<leftarrow> (if d \<noteq> 0 then map_option snd (on_cells_flag s1 (kv_pos_add i d) x2) else Some x2);
       on_cells s1 (kv_ext_set i e) x3 } = Some y \<and>
     cache_inv K N y \<and> stream_frame x y \<and> kc_heads y = kc_heads x \<and> cell_of y = (cell_of x)((s1, i) := (p, {dst}, e, d))"
proof -
  have base: "cache_base K N x" using inv by (rule cache_invD)
  have max: "dst < LLAMA_MAX_SEQ" using dst(1) cache_baseD(5) [OF base] by simp
  have at: "cpos x s1 i = -1" "cext x s1 i = ext_default" "cshift x s1 i = 0" using free by (simp_all add: cell_of_def)
  have old: "0 \<le> p - d" using p d by (cases "d = 0") simp_all
  define x1 where "x1 = upd_cell s1 i (p - d, {}, ext_default, 0) (cflag x s1) x"
  have r1: "on_cells s1 (kv_pos_set i (p - d)) x = Some x1"
    using old at by (simp add: cache_cell_ops(4) [OF base s1 i] x1_def)
  have b1: "cache_base K N x1" and c1: "cell_of x1 = (cell_of x)((s1, i) := (p - d, {}, ext_default, 0))"
    unfolding x1_def using old by (auto intro!: upd_cell_base [OF base s1 i] upd_cell_cells(1) [OF base s1 i] simp: cell_fits_def)
  define x2 where "x2 = upd_cell s1 i (p - d, {dst}, ext_default, 0) (cflag x1 s1) x1"
  have at1: "cpos x1 s1 i = p - d" "cseq x1 s1 i = {}" "cext x1 s1 i = ext_default" "cshift x1 s1 i = 0"
    using fun_cong [OF c1, of "(s1, i)"] by (simp_all add: cell_of_def)
  have r2: "on_cells s1 (kv_seq_add i dst) x1 = Some x2"
    using old at1 max by (simp add: cache_cell_ops(3) [OF b1 s1 i] x2_def)
  have fits: "cell_fits z s1 (q, {dst}, e', d')" if "0 \<le> q" "kc_seq_to_stream z = kc_seq_to_stream x" for z q e' d'
    using that dst by (simp add: cell_fits_def)
  have b2: "cache_base K N x2"
    unfolding x2_def by (rule upd_cell_base [OF b1 s1 i fits]) (use old in \<open>simp_all add: x1_def\<close>)
  have c2: "cell_of x2 = (cell_of x)((s1, i) := (p - d, {dst}, ext_default, 0))"
    unfolding x2_def by (simp add: upd_cell_cells(1) [OF b1 s1 i] c1)
  have at2: "cpos x2 s1 i = p - d" "cseq x2 s1 i = {dst}" "cext x2 s1 i = ext_default" "cshift x2 s1 i = 0"
    using fun_cong [OF c2, of "(s1, i)"] by (simp_all add: cell_of_def)
  define x3 where "x3 = (if d = 0 then x2 else upd_cell s1 i (p, {dst}, ext_default, d) True x2)"
  have r3: "(if d \<noteq> 0 then map_option snd (on_cells_flag s1 (kv_pos_add i d) x2) else Some x2) = Some x3"
    using at2 p old by (simp add: kv_pos_add_def cache_cell_ops(6) [OF b2 s1 i] x3_def shifted_ext_def)
  have "cache_base K N (upd_cell s1 i (p, {dst}, ext_default, d) True x2)"
    by (rule upd_cell_base [OF b2 s1 i fits]) (use p in \<open>simp_all add: x1_def x2_def\<close>)
  then have b3: "cache_base K N x3" using b2 by (simp add: x3_def)
  have c3: "cell_of x3 = (cell_of x)((s1, i) := (p, {dst}, ext_default, d))"
    unfolding x3_def by (simp add: upd_cell_cells(1) [OF b2 s1 i] c2)
  have at3: "cpos x3 s1 i = p" "cseq x3 s1 i = {dst}" "cshift x3 s1 i = d"
    using fun_cong [OF c3, of "(s1, i)"] by (simp_all add: cell_of_def)
  define y where "y = upd_cell s1 i (p, {dst}, e, d) (cflag x3 s1) x3"
  have r4: "on_cells s1 (kv_ext_set i e) x3 = Some y"
    by (simp add: cache_cell_ops(5) [OF b3 s1 i] y_def at3)
  have frame: "kc_seq_to_stream x3 = kc_seq_to_stream x" "stream_frame x y" "kc_heads y = kc_heads x"
    by (simp_all add: x1_def x2_def x3_def y_def stream_frame_def same_epochs_def)
  have b4: "cache_base K N y"
    unfolding y_def by (rule upd_cell_base [OF b3 s1 i fits]) (use p frame(1) in simp_all)
  have c4: "cell_of y = (cell_of x)((s1, i) := (p, {dst}, e, d))"
    unfolding y_def by (simp add: upd_cell_cells(1) [OF b3 s1 i] c3)
  have "cseq y s' i' \<noteq> {}" if "s' < cc_n_stream K" "i' < N" "cpos y s' i' \<noteq> -1" for s' i'
    using that cache_invD(2) [OF inv that(1,2)] fun_cong [OF c4, of "(s', i')"]
    by (auto simp: cell_of_def split: if_splits)
  with b4 have "cache_inv K N y" by (simp add: cache_inv_def)
  then show ?thesis using r1 r2 r3 r4 frame c4 by simp
qed

section \<open>The loop\<close>

fun copy_inv :: "cache_config \<Rightarrow> nat \<Rightarrow> nat \<Rightarrow> kv_cache \<Rightarrow> bool \<Rightarrow> kv_cache \<times> bool \<Rightarrow> bool" where
  "copy_inv K N s1 x0 ch0 (x, ch) \<longleftrightarrow> cache_inv K N x \<and> stream_frame x0 x \<and> kc_heads x = kc_heads x0 \<and>
     (\<forall>s i. s \<noteq> s1 \<longrightarrow> cell_of x (s, i) = cell_of x0 (s, i)) \<and> (ch0 \<longrightarrow> ch) \<and>
     (\<not> ch \<longrightarrow> (\<forall>i < N. cell_of x (s1, i) = no_cell))"

lemma copy_round:
  assumes J: "copy_inv K N s1 x0 ch0 t" and s: "s0 < cc_n_stream K" "s1 < cc_n_stream K" "s0 \<noteq> s1" and i: "i < N"
    and unarmed: "\<not> cc_armed K" and src: "src < LLAMA_MAX_SEQ"
    and dst: "dst < length (kc_seq_to_stream x0)" "kc_seq_to_stream x0 ! dst = s1"
    and shift: "src \<in> cseq x0 s0 i \<longrightarrow> shift_ok (cell_of x0 (s0, i))" and free: "cell_of (fst t) (s1, i) = no_cell"
  shows "\<exists>t'. copy_cell K s0 s1 src dst i t = Some t' \<and> copy_inv K N s1 x0 ch0 t' \<and>
    (\<lambda>j. cell_of (fst t') (s1, j)) = (\<lambda>j. cell_of (fst t) (s1, j))(i := cell_copy src dst (cell_of x0 (s0, i)))"
proof -
  obtain x ch where t: "t = (x, ch)" by (metis prod.exhaust)
  have inv: "cache_inv K N x" and frame: "stream_frame x0 x" "kc_heads x = kc_heads x0"
    using J by (auto simp: t)
  have other: "cell_of x (s, j) = cell_of x0 (s, j)" if "s \<noteq> s1" for s j
    using J that by (auto simp: t)
  have base: "cache_base K N x" by (rule cache_invD(1) [OF inv])
  note ask = cell_queries [OF base s(1) i]
  have source: "cell_of x (s0, i) = cell_of x0 (s0, i)" using other [of s0 i] s(3) by simp
  obtain p qs e d where v: "cell_of x (s0, i) = (p, qs, e, d)" by (metis prod_cases4)
  have cell: "cpos x s0 i = p" "cseq x s0 i = qs" "cext x s0 i = e" "cshift x s0 i = d"
    using v by (simp_all add: cell_of_def)
  have copy: "cell_copy src dst (cell_of x0 (s0, i)) = (if src \<in> qs then (p, {dst}, e, d) else no_cell)"
    using v source by (simp add: cell_copy_def)
  show ?thesis
  proof (cases "src \<in> qs")
    case False
    then have "copy_cell K s0 s1 src dst i (x, ch) = Some (x, ch)" by (simp add: copy_cell_def ask src cell)
    then show ?thesis using J copy False free by (auto simp: t fun_eq_iff)
  next
    case True
    then have p: "p \<noteq> -1" "0 \<le> p" using cache_baseD(11,12) [OF base s(1) i] cell by force+
    have d: "d \<noteq> 0 \<longrightarrow> d \<le> p" using shift True source v cell by (auto simp: shift_ok_def cell_of_def)
    have dst': "dst < length (kc_seq_to_stream x)" "kc_seq_to_stream x ! dst = s1"
      using dst frame(1) by (simp_all add: stream_frame_def)
    obtain y where y: "do {
         x1 \<leftarrow> on_cells s1 (kv_pos_set i (p - d)) x;
         x2 \<leftarrow> on_cells s1 (kv_seq_add i dst) x1;
         x3 \<leftarrow> (if d \<noteq> 0 then map_option snd (on_cells_flag s1 (kv_pos_add i d) x2) else Some x2);
         on_cells s1 (kv_ext_set i e) x3 } = Some y"
       "cache_inv K N y" "stream_frame x y" "kc_heads y = kc_heads x" "cell_of y = (cell_of x)((s1, i) := (p, {dst}, e, d))"
      using copy_into_cell [OF inv s(2) i _ dst' p(2) d, of e] free by (elim meta_impE exE conjE) (simp add: t, rule that)
    obtain x1 x2 x3 where steps: "on_cells s1 (kv_pos_set i (p - d)) x = Some x1" "on_cells s1 (kv_seq_add i dst) x1 = Some x2"
        "(if d \<noteq> 0 then map_option snd (on_cells_flag s1 (kv_pos_add i d) x2) else Some x2) = Some x3"
        "on_cells s1 (kv_ext_set i e) x3 = Some y"
      using y(1) unfolding Option.bind_eq_Some_conv by (elim exE conjE) (rule that)
    have "copy_cell K s0 s1 src dst i (x, ch) = Some (y, True)"
      using True p d steps unarmed
      by (cases "d = 0") (auto simp: copy_cell_def ask src cell tracker_def)
    moreover have "copy_inv K N s1 x0 ch0 (y, True)"
      using y(2-5) frame other s(3) stream_frame_trans [of x0 x y] by simp
    ultimately show ?thesis using y(5) copy True by (auto simp: t fun_eq_iff)
  qed
qed

lemma stamp_occupied_loop:
  assumes "cache_base K N x" and "s < cc_n_stream K" and "\<not> cc_armed K" and "set js \<subseteq> {..<N}"
  shows "foldM (stamp_occupied K s) js (x, b) = Some (x, b \<or> (\<exists>j \<in> set js. cpos x s j \<noteq> -1))"
  using assms(4)
proof (induction js arbitrary: b)
  case (Cons j js)
  then show ?case
    using cell_queries(7) [OF assms(1,2), of j] assms(3) by (auto simp: stamp_occupied_def tracker_def)
qed simp

lemma copy_loop:
  assumes J: "copy_inv K N s1 x1 ch0 (x1, ch0)" and s: "s0 < cc_n_stream K" "s1 < cc_n_stream K" "s0 \<noteq> s1"
    and unarmed: "\<not> cc_armed K" and src: "src < LLAMA_MAX_SEQ"
    and dst: "dst < length (kc_seq_to_stream x1)" "kc_seq_to_stream x1 ! dst = s1"
    and free: "\<And>i. i < N \<Longrightarrow> cell_of x1 (s1, i) = no_cell"
    and shift: "\<And>i. i < N \<Longrightarrow> src \<in> cseq x1 s0 i \<Longrightarrow> shift_ok (cell_of x1 (s0, i))"
  shows "\<exists>x2 ch. foldM (copy_cell K s0 s1 src dst) [0..<N] (x1, ch0) = Some (x2, ch) \<and>
    copy_inv K N s1 x1 ch0 (x2, ch) \<and> (\<forall>i < N. cell_of x2 (s1, i) = cell_copy src dst (cell_of x1 (s0, i)))"
proof -
  have "\<exists>t. foldM (copy_cell K s0 s1 src dst) [0..<N] (x1, ch0) = Some t \<and> copy_inv K N s1 x1 ch0 t \<and>
      (\<forall>i \<in> set [0..<N]. (\<lambda>j. cell_of (fst t) (s1, j)) (id i) =
         cell_copy src dst (cell_of x1 (s0, i))) \<and>
      (\<forall>k. k \<notin> id ` set [0..<N] \<longrightarrow> (\<lambda>j. cell_of (fst t) (s1, j)) k = (\<lambda>j. cell_of (fst (x1, ch0)) (s1, j)) k)"
  proof (rule foldM_pointwise [where view = "\<lambda>t j. cell_of (fst t) (s1, j)" and P = "\<lambda>_ v. v = no_cell"
        and g = "\<lambda>i _. cell_copy src dst (cell_of x1 (s0, i))" and J = "copy_inv K N s1 x1 ch0"])
    show "\<exists>t'. copy_cell K s0 s1 src dst i t = Some t' \<and> copy_inv K N s1 x1 ch0 t' \<and>
        (\<lambda>j. cell_of (fst t') (s1, j)) = (\<lambda>j. cell_of (fst t) (s1, j))(id i := cell_copy src dst (cell_of x1 (s0, i)))"
      if "i \<in> set [0..<N]" "copy_inv K N s1 x1 ch0 t" "cell_of (fst t) (s1, id i) = no_cell" for i t
      using copy_round [OF that(2) s _ unarmed src dst] that(1,3) shift by simp
  qed (use J free in simp_all)
  then show ?thesis by (elim exE conjE, case_tac t) simp
qed

section \<open>The whole copy\<close>

lemma seq_cp_streams_done:
  assumes inv: "cache_inv K N x" and untracked: "kc_ownership x = None" "\<not> cc_armed K" and left: "epochs_left K x"
    and own: "\<not> cc_other K" and src: "0 \<le> src" "nat src < length (kc_seq_to_stream x)"
    and dst: "0 \<le> dst" "nat dst < length (kc_seq_to_stream x)"
    and apart: "kc_seq_to_stream x ! nat src \<noteq> kc_seq_to_stream x ! nat dst"
    and only: "\<forall>q < length (kc_seq_to_stream x). kc_seq_to_stream x ! q = kc_seq_to_stream x ! nat dst \<longrightarrow> q = nat dst"
    and full: "\<not> (0 < range_from p0 p1 \<and> range_from p0 p1 < int N - 1)" "\<not> (0 < range_to p0 p1 \<and> range_to p0 p1 < int N - 1)"
    and shifts: "\<And>i. i < N \<Longrightarrow> nat src \<in> cseq x (kc_seq_to_stream x ! nat src) i \<Longrightarrow>
      shift_ok (cell_of x (kc_seq_to_stream x ! nat src, i))"
  shows "\<exists>y. seq_cp K src dst p0 p1 x = Some y \<and> edit_done K N x y \<and>
    (\<forall>s < cc_n_stream K. \<forall>i < N. cell_of y (s, i) = (if s = kc_seq_to_stream x ! nat dst
       then cell_copy (nat src) (nat dst) (cell_of x (kc_seq_to_stream x ! nat src, i)) else cell_of x (s, i)))"
proof -
  let ?s0 = "kc_seq_to_stream x ! nat src" and ?s1 = "kc_seq_to_stream x ! nat dst"
  define x0 where "x0 = x\<lparr> kc_copies := kc_copies x @ [(?s0, ?s1)] \<rparr>"
  have base: "cache_base K N x" using inv by (rule cache_invD)
  have max: "nat src < LLAMA_MAX_SEQ" "nat dst < LLAMA_MAX_SEQ" using src dst cache_baseD(5) [OF base] by simp_all
  have s: "?s0 < cc_n_stream K" "?s1 < cc_n_stream K" using cache_baseD(6) [OF base] src dst by simp_all
  have streams: "seq_stream x src = Some ?s0" "seq_stream x dst = Some ?s1" using src dst by (simp_all add: seq_stream_def)
  have inv0: "cache_inv K N x0" by (rule cache_inv_cong [OF inv]) (simp_all add: x0_def)
  have base0: "cache_base K N x0" using inv0 by (rule cache_invD)
  define ch0 where "ch0 = (\<exists>j \<in> {0..<N}. cpos x ?s1 j \<noteq> -1)"
  have stamps: "foldM (stamp_occupied K ?s1) [0..<N] (x0, False) = Some (x0, ch0)"
    using stamp_occupied_loop [OF base0 s(2) untracked(2), of "[0..<N]" False]
    by (simp add: lessThan_atLeast0 ch0_def x0_def)
  obtain x1 where x1: "on_cells ?s1 (\<lambda>c. Some (kv_reset c)) x0 = Some x1" "cache_inv K N x1" "stream_frame x0 x1"
      "kc_heads x1 = kc_heads x0"
      "\<forall>s' < cc_n_stream K. \<forall>i < N. cell_of x1 (s', i) = (if s' = ?s1 then no_cell else cell_of x0 (s', i))"
    using reset_stream [OF inv0 s(2)] by blast
  have src1: "cell_of x1 (?s0, i) = cell_of x (?s0, i)" if "i < N" for i
    using x1(5) s(1) apart that by (simp add: x0_def cell_of_def)
  have dst1: "nat dst < length (kc_seq_to_stream x1)" "kc_seq_to_stream x1 ! nat dst = ?s1"
    using x1(3) dst by (simp_all add: stream_frame_def x0_def)
  have start: "copy_inv K N ?s1 x1 ch0 (x1, ch0)"
    using x1(2,5) s(2) by (simp add: stream_frame_def same_epochs_def)
  obtain x2 ch where loop: "foldM (copy_cell K ?s0 ?s1 (nat src) (nat dst)) [0..<N] (x1, ch0) = Some (x2, ch)"
      "copy_inv K N ?s1 x1 ch0 (x2, ch)"
      "\<forall>i < N. cell_of x2 (?s1, i) = cell_copy (nat src) (nat dst) (cell_of x (?s0, i))"
  proof -
    have free: "cell_of x1 (?s1, i) = no_cell" if "i < N" for i using x1(5) s(2) that by simp
    have shift1: "shift_ok (cell_of x1 (?s0, i))" if "i < N" "nat src \<in> cseq x1 ?s0 i" for i
      using shifts [OF that(1)] src1 [OF that(1)] that(2) by (simp add: cell_of_def)
    show thesis
      using copy_loop [OF start s apart untracked(2) max(1) dst1 free shift1] src1 that by auto
  qed
  define x3 where "x3 = set_head ?s1 (kc_heads x2 ! ?s0) x2"
  have inv2: "cache_inv K N x2" and frame2: "stream_frame x1 x2" using loop(2) by simp_all
  have frame: "stream_frame x x3"
  proof -
    have "stream_frame x x0" by (simp add: x0_def stream_frame_def same_epochs_def)
    then show ?thesis
      using x1(3) frame2 stream_frame_trans set_head_frame(1) unfolding x3_def by blast
  qed
  have inv3: "cache_inv K N x3"
    unfolding x3_def by (rule set_head_inv [OF inv2 cache_baseD(9) [OF cache_invD(1) [OF inv2] s(1)]])
  have cells: "cell_of x3 (s', i) = (if s' = ?s1 then cell_copy (nat src) (nat dst) (cell_of x (?s0, i)) else cell_of x (s', i))"
    if "s' < cc_n_stream K" "i < N" for s' i
    using loop(2,3) x1(5) that by (simp add: x3_def) (simp add: x0_def cell_of_def)
  have mine: "cseq x ?s1 i \<subseteq> {nat dst}" if "i < N" for i
    using cache_baseD(10) [OF base s(2) that] only by blast
  have kept: "rows_kept K N {nat dst} x x3"
    unfolding rows_kept_def
  proof (intro allI impI)
    fix s' i r assume *: "s' < cc_n_stream K" "i < N" "r \<notin> {nat dst}"
    then show "cell_row r (cell_of x3 (s', i)) = cell_row r (cell_of x (s', i))"
      using cells [OF *(1,2)] mine [OF *(2)]
      by (auto simp: cell_row_def cell_copy_def cell_of_def [of x] split: prod.splits)
  qed
  have quiet: "rows_kept K N {} x x3" if "\<not> ch"
    unfolding rows_kept_def
  proof (intro allI impI)
    fix s' i and r :: nat assume *: "s' < cc_n_stream K" "i < N"
    have "cseq x ?s1 i = {}" "cell_of x2 (?s1, i) = no_cell"
      using loop(2) that *(2) cache_baseD(12) [OF base s(2) *(2)] by (auto simp: ch0_def)
    then have "cell_row r (cell_of x (?s1, i)) = None" "cell_of x3 (?s1, i) = no_cell"
      by (simp_all add: x3_def cell_row_def cell_of_def [of x])
    then have "cell_row r (cell_of x3 (?s1, i)) = cell_row r (cell_of x (?s1, i))"
      by (simp add: cell_row_def [of r no_cell])
    then show "cell_row r (cell_of x3 (s', i)) = cell_row r (cell_of x (s', i))"
      using cells [OF *] by (cases "s' = ?s1") simp_all
  qed
  have facts: "in_sync K N x3" "kc_ownership x3 = None \<longleftrightarrow> kc_ownership x = None"
      "kc_seq_to_stream x3 = kc_seq_to_stream x" "same_epochs x x3" "logged K N x x3"
    using frame untracked by (simp_all add: stream_frame_def idx_ok_def logged_def)
  obtain y where y: "(if ch then content_changed K {nat dst} x3 else Some x3) = Some y"
      "edit_done K N x y" "cell_of y = cell_of x3"
    using edit_finish [OF inv3 facts(1,3,2,5,4) left kept quiet, where ch = ch] by (elim meta_impE exE conjE) (assumption, rule that)
  have size: "kv_size (kc_cells x ! ?s0) = N" "kv_size (kc_cells x ! ?s1) = N" "get_size x = N"
      "kv_size (kc_cells x1 ! ?s0) = N" "length (kc_cells x) = cc_n_stream K" "length (kc_heads x) = cc_n_stream K"
    using s cache_baseD(1,2,4,6,8) [OF base] cache_baseD(8) [OF cache_invD(1) [OF x1(2)]]
    by (simp_all add: get_size_def)
  have "seq_cp_streams K ?s0 ?s1 src dst (range_from p0 p1) (range_to p0 p1) x = Some (ch, x3)"
    using untracked(2) full size s stamps x1(1) loop(1)
    by (simp add: seq_cp_streams_def tracker_def x0_def [symmetric] x3_def)
  then have "seq_cp K src dst p0 p1 x = Some y"
    using own streams apart y(1) dst(1) max(2)
    by (cases "normalize_edit_range p0 p1"; cases ch)
      (simp_all add: seq_cp_def seq_cp_impl_def content_changed_seq_eq)
  then show ?thesis using y(2,3) cells by (intro exI [of _ y]) simp
qed

end
