(* ===== verification/Cache_Placement.thy ===== *)
theory Cache_Placement
  imports Cache_Operations Kv_Batch
begin

text \<open>
  Placing a micro-batch: every token of the batch takes its cell, whatever the cell held before, and
  afterwards no sequence that lost a cell keeps one at or below the greatest position it lost.
\<close>

section \<open>One token\<close>

definition token_ok :: "kv_cache \<Rightarrow> ubatch \<Rightarrow> nat \<Rightarrow> nat \<Rightarrow> bool" where
  "token_ok x ub s i \<longleftrightarrow> i < length (ub_pos ub) \<and> i < length (ub_seq_id ub) \<and> 0 \<le> ub_pos ub ! i \<and>
     ub_seq_id ub ! i \<noteq> [] \<and> distinct (ub_seq_id ub ! i) \<and>
     (\<forall>q \<in> set (ub_seq_id ub ! i). q < length (kc_seq_to_stream x) \<and> kc_seq_to_stream x ! q = s)"

definition token_cell :: "cache_config \<Rightarrow> ubatch \<Rightarrow> nat \<Rightarrow> cell_state \<Rightarrow> cell_state" where
  "token_cell K ub i v = (case v of (p, qs, e, d) \<Rightarrow>
     (ub_pos ub ! i, set (ub_seq_id ub ! i),
      (case token_ext K ub i of Some e' \<Rightarrow> e' | None \<Rightarrow> if p = -1 then e else ext_default),
      if p = -1 then d else 0))"

text \<open>The fields the cell operations leave alone.\<close>

definition cells_only :: "kv_cache \<Rightarrow> kv_cache \<Rightarrow> bool" where
  "cells_only x y \<longleftrightarrow> kc_heads y = kc_heads x \<and> edit_frame x y \<and> kc_calls y = kc_calls x"

lemma cells_only_trans: "cells_only x y \<Longrightarrow> cells_only y z \<Longrightarrow> cells_only x z"
  by (simp add: cells_only_def edit_frame_def)

lemma cells_only_upd [simp]: "cells_only x (upd_cell s i v f x)"
  by (simp add: cells_only_def edit_frame_def)

lemma add_sequences:
  assumes "cache_base K N x" and s: "s < cc_n_stream K" and i: "i < N"
    and "cell_of x (s, i) = (p, A, e, d)" and "p \<noteq> -1"
    and "\<forall>q \<in> set qs. q < length (kc_seq_to_stream x) \<and> kc_seq_to_stream x ! q = s" and "distinct qs" and "A \<inter> set qs = {}"
  shows "\<exists>y. foldM (\<lambda>q. on_cells s (kv_seq_add i q)) qs x = Some y \<and> cache_base K N y \<and> cells_only x y \<and>
    kc_ownership y = kc_ownership x \<and> cell_of y = (cell_of x)((s, i) := (p, A \<union> set qs, e, d))"
  using assms(1,4-)
proof (induction qs arbitrary: x A)
  case Nil
  then show ?case by (simp add: cells_only_def fun_upd_idem)
next
  case (Cons q qs)
  have at: "cpos x s i = p" "cseq x s i = A" "cext x s i = e" "cshift x s i = d"
    using Cons.prems(2) by (simp_all add: cell_of_def)
  define x1 where "x1 = upd_cell s i (p, insert q A, e, d) (cflag x s) x"
  have max: "q < LLAMA_MAX_SEQ" using Cons.prems(4) cache_baseD(5) [OF Cons.prems(1)] by auto
  have run: "on_cells s (kv_seq_add i q) x = Some x1"
    using Cons.prems(3,6) max at by (simp add: cache_cell_ops(3) [OF Cons.prems(1) s i] x1_def)
  have "cell_fits x s (p, insert q A, e, d)"
    using Cons.prems(3,4) at cache_baseD(10,11) [OF Cons.prems(1) s i] by (auto simp: cell_fits_def)
  then have base: "cache_base K N x1" unfolding x1_def by (rule upd_cell_base [OF Cons.prems(1) s i])
  have cells: "cell_of x1 = (cell_of x)((s, i) := (p, insert q A, e, d))"
    unfolding x1_def by (rule upd_cell_cells(1) [OF Cons.prems(1) s i])
  have "\<exists>y. foldM (\<lambda>q. on_cells s (kv_seq_add i q)) qs x1 = Some y \<and> cache_base K N y \<and> cells_only x1 y \<and>
      kc_ownership y = kc_ownership x1 \<and> cell_of y = (cell_of x1)((s, i) := (p, insert q A \<union> set qs, e, d))"
    by (rule Cons.IH [OF base]) (use Cons.prems cells in \<open>auto simp: x1_def\<close>)
  then obtain y where y: "foldM (\<lambda>q. on_cells s (kv_seq_add i q)) qs x1 = Some y" "cache_base K N y" "cells_only x1 y"
      "kc_ownership y = kc_ownership x1" "cell_of y = (cell_of x1)((s, i) := (p, insert q A \<union> set qs, e, d))"
    by blast
  have "cells_only x x1" by (simp add: x1_def)
  from cells_only_trans [OF this y(3)] show ?case
    using run y cells by (simp add: x1_def fun_eq_iff)
qed

lemma index_add_seqs:
  assumes "idx_ok K N F x" and "s < cc_n_stream K" and "i < N" and "distinct qs"
    and "\<forall>q \<in> set qs. q < length (kc_seq_to_stream x) \<and> F s q i = None"
  shows "\<exists>ow. foldM (\<lambda>q. index_op (Add_Cell s (int q) i p)) qs x = Some (x\<lparr> kc_ownership := ow \<rparr>) \<and>
    (ow = None \<longleftrightarrow> kc_ownership x = None) \<and>
    idx_ok K N (\<lambda>s' q. if s' = s \<and> q \<in> set qs then (F s q)(i \<mapsto> nat p) else F s' q) (x\<lparr> kc_ownership := ow \<rparr>)"
  using assms(1,4,5)
proof (induction qs arbitrary: x F)
  case Nil
  then show ?case by (intro exI [of _ "kc_ownership x"]) simp
next
  case (Cons q qs)
  let ?F = "put_map s q i (Some (nat p)) F"
  obtain ow where ow: "index_op (Add_Cell s (int q) i p) x = Some (x\<lparr> kc_ownership := ow \<rparr>)"
      "ow = None \<longleftrightarrow> kc_ownership x = None" "idx_ok K N ?F (x\<lparr> kc_ownership := ow \<rparr>)"
    using index_add [OF Cons.prems(1) assms(2) _ assms(3), of q p] Cons.prems(3)
    by (elim meta_impE exE conjE) (simp, simp, rule that)
  have "\<exists>ow'. foldM (\<lambda>q. index_op (Add_Cell s (int q) i p)) qs (x\<lparr> kc_ownership := ow \<rparr>) =
        Some (x\<lparr> kc_ownership := ow \<rparr>\<lparr> kc_ownership := ow' \<rparr>) \<and> (ow' = None \<longleftrightarrow> kc_ownership (x\<lparr> kc_ownership := ow \<rparr>) = None) \<and>
      idx_ok K N (\<lambda>s' r. if s' = s \<and> r \<in> set qs then (?F s r)(i \<mapsto> nat p) else ?F s' r)
        (x\<lparr> kc_ownership := ow \<rparr>\<lparr> kc_ownership := ow' \<rparr>)"
    by (rule Cons.IH [OF ow(3)]) (use Cons.prems in \<open>auto simp: put_map_at\<close>)
  moreover have "(\<lambda>s' r. if s' = s \<and> r \<in> set qs then (?F s r)(i \<mapsto> nat p) else ?F s' r) =
      (\<lambda>s' r. if s' = s \<and> r \<in> set (q # qs) then (F s r)(i \<mapsto> nat p) else F s' r)"
    by (auto simp: put_map_def fun_eq_iff)
  ultimately show ?case using ow(1,2) by auto
qed

lemma owner_maps_point:
  assumes "cell_of y = (cell_of x)((s, i) := v)" and "i < N"
  shows "owner_maps N y s' q j = (if s' = s \<and> j = i then (if q \<in> fst (snd v) then Some (nat (fst v)) else None)
    else owner_maps N x s' q j)"
  using fun_cong [OF assms(1), of "(s', j)"] assms(2)
  by (cases "s' = s \<and> j = i") (auto simp: owner_maps_def cell_of_def split: if_splits)

text \<open>A free cell takes the token.\<close>

lemma fill_cell_done:
  assumes base: "cache_base K N x" and s: "s < cc_n_stream K" and i: "i < N" and ok: "token_ok x ub s t"
    and free: "cpos x s i = -1" and sync: "armed \<longrightarrow> in_sync K N x"
  shows "\<exists>y. fill_cell K armed ub s t i x = Some y \<and> cache_base K N y \<and> cells_only x y \<and>
    (armed \<longrightarrow> in_sync K N y) \<and> (\<not> armed \<longrightarrow> kc_ownership y = kc_ownership x) \<and>
    cell_of y = (cell_of x)((s, i) := token_cell K ub t (cell_of x (s, i)))"
proof -
  let ?p = "ub_pos ub ! t" and ?qs = "ub_seq_id ub ! t"
  define e where "e = (case token_ext K ub t of None \<Rightarrow> cext x s i | Some e' \<Rightarrow> e')"
  have seqs: "\<forall>q \<in> set ?qs. q < length (kc_seq_to_stream x) \<and> kc_seq_to_stream x ! q = s" "distinct ?qs" and p: "0 \<le> ?p"
    using ok by (simp_all add: token_ok_def)
  have none: "cseq x s i = {}" using cache_baseD(12) [OF base s i free] .
  define x1 where "x1 = upd_cell s i (?p, {}, cext x s i, cshift x s i) (cflag x s) x"
  have r1: "on_cells s (kv_pos_set i ?p) x = Some x1"
    using p free by (simp add: cache_cell_ops(4) [OF base s i] x1_def)
  have b1: "cache_base K N x1"
    unfolding x1_def using p by (intro upd_cell_base [OF base s i]) (simp add: cell_fits_def)
  have c1: "cell_of x1 = (cell_of x)((s, i) := (?p, {}, cext x s i, cshift x s i))"
    unfolding x1_def by (rule upd_cell_cells(1) [OF base s i])
  have "cells_only x x1" by (simp add: x1_def)
  have "\<exists>x2. (case token_ext K ub t of None \<Rightarrow> Some x1 | Some e \<Rightarrow> on_cells s (kv_ext_set i e) x1) = Some x2 \<and>
      cache_base K N x2 \<and> cells_only x x2 \<and> kc_ownership x2 = kc_ownership x \<and>
      cell_of x2 = (cell_of x)((s, i) := (?p, {}, e, cshift x s i))"
  proof (cases "token_ext K ub t")
    case None
    then show ?thesis using b1 c1 by (simp add: e_def x1_def)
  next
    case (Some e')
    have at: "cpos x1 s i = ?p" "cseq x1 s i = {}" "cshift x1 s i = cshift x s i"
      using fun_cong [OF c1, of "(s, i)"] by (simp_all add: cell_of_def)
    define x2 where "x2 = upd_cell s i (?p, {}, e', cshift x s i) (cflag x1 s) x1"
    have "on_cells s (kv_ext_set i e') x1 = Some x2" by (simp add: cache_cell_ops(5) [OF b1 s i] at x2_def)
    moreover have "cache_base K N x2"
      unfolding x2_def using p by (intro upd_cell_base [OF b1 s i]) (simp add: cell_fits_def)
    moreover have "cells_only x x2"
      using cells_only_trans [of x x1 x2] by (simp add: x1_def x2_def)
    moreover have "cell_of x2 = (cell_of x)((s, i) := (?p, {}, e', cshift x s i))"
      unfolding x2_def by (simp add: upd_cell_cells(1) [OF b1 s i] c1)
    ultimately show ?thesis by (intro exI [of _ x2]) (simp add: Some e_def x1_def x2_def)
  qed
  then obtain x2 where x2: "(case token_ext K ub t of None \<Rightarrow> Some x1 | Some e \<Rightarrow> on_cells s (kv_ext_set i e) x1) = Some x2"
      "cache_base K N x2" "cells_only x x2" "kc_ownership x2 = kc_ownership x"
      "cell_of x2 = (cell_of x)((s, i) := (?p, {}, e, cshift x s i))" by blast
  have s2s: "kc_seq_to_stream x2 = kc_seq_to_stream x" using x2(3) by (simp add: cells_only_def edit_frame_def)
  obtain x3 where x3: "foldM (\<lambda>q. on_cells s (kv_seq_add i q)) ?qs x2 = Some x3" "cache_base K N x3" "cells_only x2 x3"
      "kc_ownership x3 = kc_ownership x2" "cell_of x3 = (cell_of x2)((s, i) := (?p, {} \<union> set ?qs, e, cshift x s i))"
    using add_sequences [OF x2(2) s i _ _ _ seqs(2), of ?p "{}" e "cshift x s i"] x2(5) p seqs(1) s2s by auto
  have c3: "cell_of x3 = (cell_of x)((s, i) := token_cell K ub t (cell_of x (s, i)))"
    using x3(5) x2(5) free none
    by (auto simp: token_cell_def cell_of_def [of x] e_def fun_eq_iff split: option.split)
  have f3: "cells_only x x3" by (rule cells_only_trans [OF x2(3) x3(3)])
  show ?thesis
  proof (cases armed)
    case False
    then show ?thesis
      using r1 x2(1,4) x3(1,2,4) f3 c3 by (intro exI [of _ x3]) (simp add: fill_cell_def)
  next
    case True
    have "idx_ok K N (owner_maps N x) x3"
      by (rule idx_ok_cong [OF mp [OF sync True]]) (use x2(4) x3(4) f3 in \<open>simp_all add: cells_only_def edit_frame_def\<close>)
    from index_add_seqs [OF this s i seqs(2), of ?p]
    obtain ow where ow: "foldM (\<lambda>q. index_op (Add_Cell s (int q) i ?p)) ?qs x3 = Some (x3\<lparr> kc_ownership := ow \<rparr>)"
        "ow = None \<longleftrightarrow> kc_ownership x3 = None"
        "idx_ok K N (\<lambda>s' q. if s' = s \<and> q \<in> set ?qs then (owner_maps N x s q)(i \<mapsto> nat ?p) else owner_maps N x s' q)
          (x3\<lparr> kc_ownership := ow \<rparr>)"
      using seqs(1) none f3 by (elim meta_impE exE conjE) (simp add: owner_maps_def cells_only_def edit_frame_def, rule that)
    define y where "y = x3\<lparr> kc_ownership := ow \<rparr>"
    have cells: "cell_of y = cell_of x3" by (rule cell_of_cells) (simp add: y_def)
    have "(\<lambda>s' q. if s' = s \<and> q \<in> set ?qs then (owner_maps N x s q)(i \<mapsto> nat ?p) else owner_maps N x s' q) = owner_maps N y"
      using none i unfolding owner_maps_cells [OF cells]
      by (intro ext) (auto simp: owner_maps_point [OF c3 i] token_cell_def cell_of_def owner_maps_def [of N x s _ i] split: if_splits)
    then have "in_sync K N y" using ow(3) by (simp add: y_def)
    moreover have "cache_base K N y" by (rule cache_base_cong [OF x3(2)]) (simp_all add: y_def)
    moreover have "cells_only x y" using f3 ow(2) by (simp add: y_def cells_only_def edit_frame_def)
    ultimately show ?thesis
      using True r1 x2(1) x3(1) ow(1) c3 cells by (intro exI [of _ y]) (simp add: fill_cell_def y_def)
  qed
qed

text \<open>An occupied cell is emptied first.\<close>

lemma evict_cell_done:
  assumes J: "edit_inv K N commit x0 (pl_cache st)" and armed: "armed = (commit \<and> cc_armed K)"
    and s: "s < cc_n_stream K" and i: "i < N" and occupied: "cpos (pl_cache st) s i \<noteq> -1"
  shows "\<exists>x1 y. evict_cell K armed s i st = Some (cpos (pl_cache st) s i,
      st\<lparr> pl_cache := y, pl_max_rm := (\<lambda>q. if q \<in> cseq (pl_cache st) s i then max (pl_max_rm st q) (cpos (pl_cache st) s i)
            else pl_max_rm st q),
          pl_reused := True, pl_affected := pl_affected st \<union> cseq (pl_cache st) s i, pl_event := pl_event st \<or> armed \<rparr>) \<and>
    edit_inv K N commit x0 x1 \<and> cell_of x1 = cell_of (pl_cache st) \<and> cells_only x1 y \<and> cache_base K N y \<and>
    (armed \<longrightarrow> in_sync K N y) \<and> (\<not> armed \<longrightarrow> kc_ownership y = kc_ownership x1) \<and>
    cell_of y = (cell_of (pl_cache st))((s, i) := no_cell)"
proof -
  let ?p = "cpos (pl_cache st) s i"
  define x1 where "x1 = tracker_if (armed \<and> \<not> pl_event st) K
       (Gen_Begin Reg_apply_ubatch_occupied_reuse
          (if armed \<and> cc_n_swa K \<noteq> 0 then Cls_swa_wrap else Cls_ordinary_decode) s Stamp_dependency True) (pl_cache st)"
  have J1: "edit_inv K N commit x0 x1" unfolding x1_def by (rule edit_inv_tracker [OF J]) (simp_all add: armed)
  have same: "cell_of x1 = cell_of (pl_cache st)" by (rule cell_of_cells) (simp add: x1_def)
  have base: "cache_base K N x1" and inv: "cache_inv K N x1" using J1 by (auto dest: edit_invD)
  have at: "cpos x1 s i = ?p" "cseq x1 s i = cseq (pl_cache st) s i" using cell_of_fields [OF same] by simp_all
  note ask = cell_queries [OF base s i]
  let ?qs = "filter (\<lambda>q. q \<in> cseq x1 s i) [0..<LLAMA_MAX_SEQ]"
  have members: "q < LLAMA_MAX_SEQ" "q < length (kc_seq_to_stream x1)" if "q \<in> cseq x1 s i" for q
    using cache_baseD(5,10) [OF base] s i that by (meson less_le_trans)+
  then have set_qs: "set ?qs = cseq x1 s i" by auto
  have "\<exists>ow. (if armed then foldM (\<lambda>q. index_op (Remove_Cell s (int q) i ?p)) ?qs x1 else Some x1) = Some (x1\<lparr> kc_ownership := ow \<rparr>) \<and>
      (ow = None \<longleftrightarrow> kc_ownership x1 = None) \<and> (\<not> armed \<longrightarrow> ow = kc_ownership x1) \<and>
      (armed \<longrightarrow> idx_ok K N (owner_maps N (upd_cell s i no_cell (cflag x1 s) x1)) (x1\<lparr> kc_ownership := ow \<rparr>))"
  proof (cases armed)
    case True
    then have sync: "in_sync K N x1" using edit_invD(4) [OF J1] armed by simp
    have "q < length (kc_seq_to_stream x1) \<and> (owner_maps N x1 s q i \<noteq> None \<longrightarrow>
        0 \<le> ?p \<and> owner_maps N x1 s q i = Some (nat ?p))" if "q \<in> set ?qs" for q
      using that members(2) owner_maps_pos [OF base s, of q i] unfolding set_qs at(1) by blast
    with index_remove_seqs [OF sync s i, of ?qs "\<lambda>_. False" ?p]
    obtain ow where ow: "foldM (\<lambda>q. index_op (Remove_Cell s (int q) i ?p)) ?qs x1 = Some (x1\<lparr> kc_ownership := ow \<rparr>)"
        "ow = None \<longleftrightarrow> kc_ownership x1 = None" "idx_ok K N (drop_maps s (set ?qs) i (owner_maps N x1)) (x1\<lparr> kc_ownership := ow \<rparr>)"
      by (elim meta_impE exE conjE) (simp, simp del: set_filter)
    have "drop_maps s (set ?qs) i (owner_maps N x1) = owner_maps N (upd_cell s i no_cell (cflag x1 s) x1)"
      unfolding set_qs using drop_maps_all [OF base s i] by simp
    then show ?thesis using True ow by auto
  qed (auto intro: exI [of _ "kc_ownership x1"])
  then obtain ow where ow: "(if armed then foldM (\<lambda>q. index_op (Remove_Cell s (int q) i ?p)) ?qs x1 else Some x1) = Some (x1\<lparr> kc_ownership := ow \<rparr>)"
      "ow = None \<longleftrightarrow> kc_ownership x1 = None" "\<not> armed \<Longrightarrow> ow = kc_ownership x1"
      "armed \<Longrightarrow> idx_ok K N (owner_maps N (upd_cell s i no_cell (cflag x1 s) x1)) (x1\<lparr> kc_ownership := ow \<rparr>)"
    by (elim exE conjE) (rule that; simp)
  define x2 where "x2 = stash_touch K i (x1\<lparr> kc_ownership := ow \<rparr>)"
  define y where "y = upd_cell s i no_cell (cflag x1 s) x2"
  have base2: "cache_base K N x2" by (rule cache_base_cong [OF base]) (simp_all add: x2_def)
  have run: "on_cells s (kv_rm i) x2 = Some y"
    using occupied at(1) cache_cell_ops(1) [OF base2 s i] by (simp add: x2_def y_def)
  have cells2: "cell_of x2 = cell_of x1" by (rule cell_of_cells) (simp add: x2_def)
  have cells: "cell_of y = (cell_of x1)((s, i) := no_cell)"
    unfolding y_def by (simp add: upd_cell_cells(1) [OF base2 s i] cells2)
  have base3: "cache_base K N y" unfolding y_def by (rule upd_cell_base [OF base2 s i]) (simp add: cell_fits_def)
  have sync: "in_sync K N y" if armed
  proof -
    have "cell_of y = cell_of (upd_cell s i no_cell (cflag x1 s) x1)" by (simp add: cells upd_cell_cells(1) [OF base s i])
    from owner_maps_cells [OF this] show ?thesis
      by (intro idx_ok_cong [OF ow(4) [OF that]]) (simp_all add: y_def x2_def)
  qed
  have run_all: "evict_cell K armed s i st = Some (?p, st\<lparr> pl_cache := y,
      pl_max_rm := (\<lambda>q. if q \<in> set ?qs then max (pl_max_rm st q) ?p else pl_max_rm st q),
      pl_reused := True, pl_affected := pl_affected st \<union> set ?qs, pl_event := pl_event st \<or> armed \<rparr>)"
    using occupied at(1)
    unfolding evict_cell_def Let_def x1_def [symmetric] ask(8) x2_def [symmetric]
    by (simp add: ask(3) ow(1) run x2_def [symmetric] del: set_filter)
  have "cells_only x1 y" "\<not> armed \<longrightarrow> kc_ownership y = kc_ownership x1"
    using ow(2,3) by (simp_all add: y_def x2_def cells_only_def edit_frame_def)
  then show ?thesis
    using run_all [unfolded set_qs, unfolded at(2)] J1 same base3 sync cells
    by - (rule exI [of _ x1], rule exI [of _ y], simp)
qed

text \<open>A change of one cell, whatever steps led to it.\<close>

lemma edit_step:
  assumes J: "edit_inv K N commit x0 x" and inv: "cache_inv K N y" and cell: "cell_of y = (cell_of x)((s, i) := v)"
    and frame: "edit_frame x y"
    and calls: "kc_calls y = (if commit \<and> cc_armed K then kc_calls x @ [Gen_Stamp r s i qs p] else kc_calls x)"
    and sync: "commit \<Longrightarrow> in_sync K N y" and dry: "\<not> commit \<Longrightarrow> kc_ownership y = kc_ownership x"
    and ok: "call_ok (Gen_Stamp r s i qs p)"
  shows "edit_inv K N commit x0 y"
proof -
  have "stamped K x0 y" if commit
    by (rule stamped_step [OF _ cell, where r = r and qs = qs and p = p]) (use J that calls ok in \<open>auto simp: edit_inv_def\<close>)
  then show ?thesis
    using assms by (cases commit) (auto simp: edit_inv_def edit_frame_def)
qed

lemma place_token_done:
  assumes J: "edit_inv K N commit x0 (pl_cache st)" and armed: "armed = (commit \<and> cc_armed K)"
    and tracked: "kc_ownership x0 = None \<or> cc_armed K"
    and s: "s < cc_n_stream K" and i: "i < N" and ok: "token_ok x0 ub s t"
  shows "\<exists>st'. place_token K armed ub s t i st = Some st' \<and> edit_inv K N commit x0 (pl_cache st') \<and>
    cell_of (pl_cache st') = (cell_of (pl_cache st))((s, i) := token_cell K ub t (cell_of (pl_cache st) (s, i))) \<and>
    pl_max_rm st' = (\<lambda>q. if q \<in> cseq (pl_cache st) s i then max (pl_max_rm st q) (cpos (pl_cache st) s i) else pl_max_rm st q) \<and>
    (pl_reused st' \<longleftrightarrow> pl_reused st \<or> cpos (pl_cache st) s i \<noteq> -1) \<and>
    pl_affected st \<union> cseq (pl_cache st) s i \<subseteq> pl_affected st'"
proof -
  let ?x = "pl_cache st" and ?p = "cpos (pl_cache st) s i" and ?qs = "cseq (pl_cache st) s i"
  have base: "cache_base K N ?x" and s2s: "kc_seq_to_stream ?x = kc_seq_to_stream x0" using J by (auto dest: edit_invD)
  have empty: "is_empty i (stream_cells s ?x) = Some (?p = -1)" by (rule cell_queries(7) [OF base s i])
  have none: "?qs = {}" if "?p = -1" using cache_baseD(12) [OF base s i that] .
  obtain st1 x1 where st1: "(if ?p = -1 then Some (-1, st) else evict_cell K armed s i st) = Some (?p, st1)"
      "pl_max_rm st1 = (\<lambda>q. if q \<in> ?qs then max (pl_max_rm st q) ?p else pl_max_rm st q)"
      "pl_reused st1 \<longleftrightarrow> pl_reused st \<or> ?p \<noteq> -1" "pl_affected st1 = pl_affected st \<union> ?qs"
      "edit_inv K N commit x0 x1" "cell_of x1 = cell_of ?x" "cells_only x1 (pl_cache st1)" "cache_base K N (pl_cache st1)"
      "armed \<longrightarrow> in_sync K N (pl_cache st1)" "\<not> armed \<Longrightarrow> kc_ownership (pl_cache st1) = kc_ownership x1"
      "cell_of (pl_cache st1) = (cell_of ?x)((s, i) := if ?p = -1 then cell_of ?x (s, i) else no_cell)"
  proof (cases "?p = -1")
    case True
    show thesis
      by (rule that [of st ?x]) (use True none J base armed in \<open>auto simp: cells_only_def dest: edit_invD\<close>)
  next
    case False
    from evict_cell_done [OF J armed s i False] obtain x1 y where e: "evict_cell K armed s i st = Some (?p,
        st\<lparr> pl_cache := y, pl_max_rm := (\<lambda>q. if q \<in> ?qs then max (pl_max_rm st q) ?p else pl_max_rm st q),
          pl_reused := True, pl_affected := pl_affected st \<union> ?qs, pl_event := pl_event st \<or> armed \<rparr>)"
      "edit_inv K N commit x0 x1" "cell_of x1 = cell_of ?x" "cells_only x1 y" "cache_base K N y"
      "armed \<longrightarrow> in_sync K N y" "\<not> armed \<longrightarrow> kc_ownership y = kc_ownership x1"
      "cell_of y = (cell_of ?x)((s, i) := no_cell)"
      by (elim exE conjE) (rule that)
    show thesis
      by (rule that [OF _ _ _ _ e(2,3), of "st\<lparr> pl_cache := y,
            pl_max_rm := (\<lambda>q. if q \<in> ?qs then max (pl_max_rm st q) ?p else pl_max_rm st q),
            pl_reused := True, pl_affected := pl_affected st \<union> ?qs, pl_event := pl_event st \<or> armed \<rparr>"])
        (simp_all add: False e)
  qed
  have s2s1: "kc_seq_to_stream (pl_cache st1) = kc_seq_to_stream x0"
    using edit_invD(5) [OF st1(5)] st1(7) by (simp add: cells_only_def edit_frame_def)
  have free: "cpos (pl_cache st1) s i = -1"
    using fun_cong [OF st1(11), of "(s, i)"] by (auto simp: cell_of_def split: if_splits)
  have ok1: "token_ok (pl_cache st1) ub s t" using ok by (simp add: token_ok_def s2s1)
  obtain x2 where x2: "fill_cell K armed ub s t i (pl_cache st1) = Some x2" "cache_base K N x2" "cells_only (pl_cache st1) x2"
      "armed \<Longrightarrow> in_sync K N x2" "\<not> armed \<Longrightarrow> kc_ownership x2 = kc_ownership (pl_cache st1)"
      "cell_of x2 = (cell_of (pl_cache st1))((s, i) := token_cell K ub t (cell_of (pl_cache st1) (s, i)))"
    using fill_cell_done [OF st1(8) s i ok1 free st1(9)] by (elim exE conjE) (rule that; simp)
  define x3 where "x3 = tracker_if armed K
       (Gen_Stamp (if ?p = -1 then Reg_apply_ubatch_append else Reg_apply_ubatch_occupied_reuse) s i
          (map int (ub_seq_id ub ! t)) (if ?p = -1 then ub_pos ub ! t else ?p)) x2"
  define st' where "st' = st1\<lparr> pl_cache := x3, pl_affected := pl_affected st1 \<union> (if ?p = -1 then {} else set (ub_seq_id ub ! t)) \<rparr>"
  have run: "place_token K armed ub s t i st = Some st'"
    using ok by (simp add: place_token_def empty st1(1) x2(1) x3_def st'_def token_ok_def cong: if_cong)
  have cells3: "cell_of x3 = cell_of x2" by (rule cell_of_cells) (simp add: x3_def)
  have "token_cell K ub t (cell_of (pl_cache st1) (s, i)) = token_cell K ub t (cell_of ?x (s, i))"
    using st1(11) by (cases "?p = -1") (auto simp: token_cell_def cell_of_def [of ?x] split: option.split)
  then have cell: "cell_of x3 = (cell_of x1)((s, i) := token_cell K ub t (cell_of ?x (s, i)))"
    using x2(6) st1(6,11) by (simp add: cells3 fun_eq_iff)
  have "cache_base K N x3" by (rule cache_base_cong [OF x2(2)]) (simp_all add: x3_def)
  moreover have "cseq x3 s' i' \<noteq> {}" if "s' < cc_n_stream K" "i' < N" "cpos x3 s' i' \<noteq> -1" for s' i'
    using that cache_invD(2) [OF edit_invD(1) [OF st1(5)] that(1,2)] fun_cong [OF cell, of "(s', i')"] ok
    by (auto simp: cell_of_def token_cell_def token_ok_def split: if_splits)
  ultimately have inv: "cache_inv K N x3" by (simp add: cache_inv_def)
  have frame: "edit_frame x1 x3" "kc_calls x2 = kc_calls x1"
    using st1(7) x2(3) by (simp_all add: x3_def cells_only_def edit_frame_def)
  have own3: "kc_ownership x3 = None \<longleftrightarrow> kc_ownership x0 = None"
    using frame(1) edit_invD(3) [OF st1(5)] by (simp add: edit_frame_def)
  have sync: "in_sync K N x3" if commit
  proof (cases armed)
    case True
    then show ?thesis
      unfolding owner_maps_cells [OF cells3] by (intro idx_ok_cong [OF x2(4)]) (simp_all add: x3_def)
  next
    case False
    then have "kc_ownership x3 = None" using that armed tracked own3 by simp
    then show ?thesis by (simp add: idx_ok_def)
  qed
  have small: "\<forall>q \<in> set (ub_seq_id ub ! t). q < LLAMA_MAX_SEQ"
    using ok cache_baseD(5) [OF edit_invD(2) [OF st1(5)]] edit_invD(5) [OF st1(5)]
    by (auto simp: token_ok_def intro: less_le_trans)
  have "edit_inv K N commit x0 x3"
    by (rule edit_step [OF st1(5) inv cell frame(1) _ sync,
          where r = "if ?p = -1 then Reg_apply_ubatch_append else Reg_apply_ubatch_occupied_reuse"
          and qs = "map int (ub_seq_id ub ! t)" and p = "if ?p = -1 then ub_pos ub ! t else ?p"])
      (use x2(5) st1(10) frame(2) armed ok small in \<open>auto simp: x3_def token_ok_def token_event_def LLAMA_MAX_SEQ_def\<close>)
  then show ?thesis
    using run cell st1(2,3,4,6) by (intro exI [of _ st']) (auto simp: st'_def)
qed

section \<open>All tokens of a batch\<close>

text \<open>The cells of a slot, by stream and token, and the positions a sequence loses there.\<close>

definition slot_key :: "slot_info \<Rightarrow> nat \<times> nat \<Rightarrow> nat \<times> nat" where
  "slot_key si d = (si_strm si ! fst d, si_idxs si ! fst d ! snd d)"

definition lost :: "(nat \<times> nat \<Rightarrow> cell_state) \<Rightarrow> (nat \<times> nat) set \<Rightarrow> nat \<Rightarrow> int set" where
  "lost c S q = {fst (c k) | k. k \<in> S \<and> q \<in> fst (snd (c k))}"

lemma lost_alt: "lost c S q = (\<lambda>k. fst (c k)) ` {k \<in> S. q \<in> fst (snd (c k))}"
  by (auto simp: lost_def)

lemma finite_lost: "finite S \<Longrightarrow> finite (lost c S q)"
  by (simp add: lost_alt)

lemma lost_Un: "lost c (S \<union> T) q = lost c S q \<union> lost c T q"
  by (auto simp: lost_def)

lemma lost_cong: "(\<And>k. k \<in> S \<Longrightarrow> c' k = c k) \<Longrightarrow> lost c' S q = lost c S q"
  unfolding lost_alt by (intro image_cong Collect_cong) (simp_all cong: conj_cong)

definition placed :: "cache_config \<Rightarrow> nat \<Rightarrow> bool \<Rightarrow> ubatch \<Rightarrow> slot_info \<Rightarrow> nat \<Rightarrow> kv_cache \<Rightarrow> (nat \<times> nat) set \<Rightarrow>
    placing \<Rightarrow> placing \<Rightarrow> bool" where
  "placed K N commit ub si n x0 D st st' \<longleftrightarrow> edit_inv K N commit x0 (pl_cache st') \<and>
     (\<forall>k. k \<notin> slot_key si ` D \<longrightarrow> cell_of (pl_cache st') k = cell_of (pl_cache st) k) \<and>
     (\<forall>d \<in> D. cell_of (pl_cache st') (slot_key si d) =
        token_cell K ub (fst d * n + snd d) (cell_of (pl_cache st) (slot_key si d))) \<and>
     (\<forall>q. pl_max_rm st' q = Max (insert (pl_max_rm st q) (lost (cell_of (pl_cache st)) (slot_key si ` D) q))) \<and>
     (pl_reused st' \<longleftrightarrow> pl_reused st \<or> (\<exists>d \<in> D. fst (cell_of (pl_cache st) (slot_key si d)) \<noteq> -1)) \<and>
     pl_affected st \<subseteq> pl_affected st' \<and>
     (\<forall>d \<in> D. fst (snd (cell_of (pl_cache st) (slot_key si d))) \<subseteq> pl_affected st')"

lemma placedD:
  assumes "placed K N commit ub si n x0 D st st'"
  shows "edit_inv K N commit x0 (pl_cache st')"
    "k \<notin> slot_key si ` D \<Longrightarrow> cell_of (pl_cache st') k = cell_of (pl_cache st) k"
    "d \<in> D \<Longrightarrow> cell_of (pl_cache st') (slot_key si d) =
        token_cell K ub (fst d * n + snd d) (cell_of (pl_cache st) (slot_key si d))"
    "pl_max_rm st' q = Max (insert (pl_max_rm st q) (lost (cell_of (pl_cache st)) (slot_key si ` D) q))"
    "pl_reused st' \<longleftrightarrow> pl_reused st \<or> (\<exists>d \<in> D. fst (cell_of (pl_cache st) (slot_key si d)) \<noteq> -1)"
    "pl_affected st \<subseteq> pl_affected st'"
    "d \<in> D \<Longrightarrow> fst (snd (cell_of (pl_cache st) (slot_key si d))) \<subseteq> pl_affected st'"
  using assms unfolding placed_def by blast+

lemma Max_insert_Max:
  assumes "finite A" and "finite B"
  shows "Max (insert (Max (insert m A)) B) = Max (insert (m :: 'a::linorder) (A \<union> B))"
  using assms by (cases "A = {}"; cases "B = {}") (simp_all add: Max.union max.assoc)

lemma placed_none: "edit_inv K N commit x0 (pl_cache st) \<Longrightarrow> placed K N commit ub si n x0 {} st st"
  by (simp add: placed_def lost_def)

lemma placed_compose:
  assumes first: "placed K N commit ub si n x0 D st st1" and second: "placed K N commit ub si n x0 E st1 st2"
    and inj: "inj_on (slot_key si) (D \<union> E)" and apart: "D \<inter> E = {}" and fin: "finite D" "finite E"
  shows "placed K N commit ub si n x0 (D \<union> E) st st2"
proof -
  let ?c = "cell_of (pl_cache st)" and ?c1 = "cell_of (pl_cache st1)" and ?k = "slot_key si"
  have disjoint: "?k ` D \<inter> ?k ` E = {}" using inj_on_image_Int [OF inj, of D E] apart by simp
  have E: "?c1 k = ?c k" if "k \<in> ?k ` E" for k
  proof -
    have "k \<notin> ?k ` D" using disjoint that by blast
    then show ?thesis by (rule placedD(2) [OF first])
  qed
  have "lost ?c1 (?k ` E) q = lost ?c (?k ` E) q" for q by (rule lost_cong) (rule E)
  then have max: "pl_max_rm st2 q = Max (insert (pl_max_rm st q) (lost ?c (?k ` (D \<union> E)) q))" for q
    using placedD(4) [OF first, of q] placedD(4) [OF second, of q] fin
      Max_insert_Max [of "lost ?c (?k ` D) q" "lost ?c (?k ` E) q" "pl_max_rm st q"]
    by (simp add: image_Un lost_Un finite_lost)
  have cells: "cell_of (pl_cache st2) k = ?c k" if "k \<notin> ?k ` (D \<union> E)" for k
    using placedD(2) [OF first, of k] placedD(2) [OF second, of k] that by (simp add: image_Un)
  have at: "cell_of (pl_cache st2) (?k d) = token_cell K ub (fst d * n + snd d) (?c (?k d))" if d: "d \<in> D \<union> E" for d
  proof (cases "d \<in> D")
    case True
    then have "?k d \<notin> ?k ` E" using disjoint by blast
    then show ?thesis using placedD(3) [OF first True] placedD(2) [OF second, of "?k d"] by simp
  next
    case False
    then have "d \<in> E" using d by simp
    then show ?thesis using placedD(3) [OF second, of d] E [of "?k d"] by simp
  qed
  have "(\<exists>d \<in> E. fst (?c1 (?k d)) \<noteq> -1) \<longleftrightarrow> (\<exists>d \<in> E. fst (?c (?k d)) \<noteq> -1)"
    by (rule bex_cong [OF refl]) (simp add: E)
  then have used: "pl_reused st2 \<longleftrightarrow> pl_reused st \<or> (\<exists>d \<in> D \<union> E. fst (?c (?k d)) \<noteq> -1)"
    using placedD(5) [OF first] placedD(5) [OF second] by blast
  have "fst (snd (?c (?k d))) \<subseteq> pl_affected st2" if "d \<in> D \<union> E" for d
    using that placedD(7) [OF first, of d] placedD(6) [OF second] placedD(7) [OF second, of d] E [of "?k d"] by auto
  moreover have "pl_affected st \<subseteq> pl_affected st2" using placedD(6) [OF first] placedD(6) [OF second] by blast
  ultimately show ?thesis
    using placedD(1) [OF second] max cells at used unfolding placed_def by blast
qed

lemma place_one:
  assumes J: "edit_inv K N commit x0 (pl_cache st)" and tracked: "kc_ownership x0 = None \<or> cc_armed K"
    and d: "fst (slot_key si d) < cc_n_stream K" "snd (slot_key si d) < N"
    and ok: "token_ok x0 ub (fst (slot_key si d)) (fst d * n + snd d)"
  shows "\<exists>st'. place_token K (commit \<and> cc_armed K) ub (fst (slot_key si d)) (fst d * n + snd d) (snd (slot_key si d)) st = Some st' \<and>
    placed K N commit ub si n x0 {d} st st'"
proof -
  let ?s = "fst (slot_key si d)" and ?i = "snd (slot_key si d)"
  obtain st' where st': "place_token K (commit \<and> cc_armed K) ub ?s (fst d * n + snd d) ?i st = Some st'"
      "edit_inv K N commit x0 (pl_cache st')"
      "cell_of (pl_cache st') = (cell_of (pl_cache st))((?s, ?i) := token_cell K ub (fst d * n + snd d) (cell_of (pl_cache st) (?s, ?i)))"
      "pl_max_rm st' = (\<lambda>q. if q \<in> cseq (pl_cache st) ?s ?i then max (pl_max_rm st q) (cpos (pl_cache st) ?s ?i) else pl_max_rm st q)"
      "pl_reused st' \<longleftrightarrow> pl_reused st \<or> cpos (pl_cache st) ?s ?i \<noteq> -1"
      "pl_affected st \<union> cseq (pl_cache st) ?s ?i \<subseteq> pl_affected st'"
    using place_token_done [OF J refl tracked d ok] by (elim exE conjE) (rule that)
  have "lost (cell_of (pl_cache st)) {slot_key si d} q = (if q \<in> cseq (pl_cache st) ?s ?i then {cpos (pl_cache st) ?s ?i} else {})" for q
    by (cases "slot_key si d") (auto simp: lost_def cell_of_def)
  then have "placed K N commit ub si n x0 {d} st st'"
    using st'(2-6) by (simp add: placed_def cell_of_def [of _ "slot_key si d"] max.commute)
  with st'(1) show ?thesis by blast
qed

definition slot_fits :: "cache_config \<Rightarrow> nat \<Rightarrow> kv_cache \<Rightarrow> slot_info \<Rightarrow> ubatch \<Rightarrow> nat \<Rightarrow> bool" where
  "slot_fits K N x si ub n \<longleftrightarrow> si_idxs si \<noteq> [] \<and> length (si_strm si) = length (si_idxs si) \<and>
     n = length (si_idxs si ! 0) \<and> 0 < n \<and> ub_n_tokens ub = length (si_strm si) * n \<and>
     inj_on (slot_key si) ({..<length (si_strm si)} \<times> {..<n}) \<and>
     (\<forall>a < length (si_strm si). length (si_idxs si ! a) = n \<and> si_strm si ! a < cc_n_stream K \<and>
        (\<forall>b < n. si_idxs si ! a ! b < N \<and> token_ok x ub (si_strm si ! a) (a * n + b)))"

lemma slot_fitsD:
  assumes "slot_fits K N x si ub n"
  shows "si_idxs si \<noteq> []" "length (si_strm si) = length (si_idxs si)" "length (si_idxs si ! 0) = n" "0 < n"
    "ub_n_tokens ub = length (si_strm si) * n" "inj_on (slot_key si) ({..<length (si_strm si)} \<times> {..<n})"
    "a < length (si_strm si) \<Longrightarrow> length (si_idxs si ! a) = n" "a < length (si_strm si) \<Longrightarrow> si_strm si ! a < cc_n_stream K"
    "a < length (si_strm si) \<Longrightarrow> b < n \<Longrightarrow> si_idxs si ! a ! b < N \<and> token_ok x ub (si_strm si ! a) (a * n + b)"
  using assms unfolding slot_fits_def by blast+

lemma place_tokens:
  assumes fits: "slot_fits K N x0 si ub n" and tracked: "kc_ownership x0 = None \<or> cc_armed K" and a: "a < length (si_strm si)"
    and "edit_inv K N commit x0 (pl_cache st)" and "set js \<subseteq> {..<n}" and "distinct js"
  shows "\<exists>st'. foldM (\<lambda>j. place_token K (commit \<and> cc_armed K) ub (si_strm si ! a) (a * n + j) (si_idxs si ! a ! j)) js st = Some st' \<and>
    placed K N commit ub si n x0 ({a} \<times> set js) st st'"
  using assms(4-)
proof (induction js arbitrary: st)
  case Nil
  then show ?case by (simp add: placed_none)
next
  case (Cons j js)
  have at: "fst (slot_key si (a, j)) < cc_n_stream K" "snd (slot_key si (a, j)) < N"
      "token_ok x0 ub (fst (slot_key si (a, j))) (fst (a, j) * n + snd (a, j))"
    using slot_fitsD(8) [OF fits a] slot_fitsD(9) [OF fits a, of j] Cons.prems(2) by (simp_all add: slot_key_def)
  obtain st1 where st1: "place_token K (commit \<and> cc_armed K) ub (si_strm si ! a) (a * n + j) (si_idxs si ! a ! j) st = Some st1"
      "placed K N commit ub si n x0 {(a, j)} st st1"
    using place_one [OF Cons.prems(1) tracked at] by (auto simp: slot_key_def)
  have rest: "set js \<subseteq> {..<n}" "distinct js" using Cons.prems(2,3) by simp_all
  obtain st2 where st2: "foldM (\<lambda>j. place_token K (commit \<and> cc_armed K) ub (si_strm si ! a) (a * n + j) (si_idxs si ! a ! j)) js st1 = Some st2"
      "placed K N commit ub si n x0 ({a} \<times> set js) st1 st2"
    using Cons.IH [OF placedD(1) [OF st1(2)] rest] by (elim exE conjE) (rule that)
  have "placed K N commit ub si n x0 ({(a, j)} \<union> {a} \<times> set js) st st2"
  proof (rule placed_compose [OF st1(2) st2(2)])
    show "inj_on (slot_key si) ({(a, j)} \<union> {a} \<times> set js)"
      by (rule inj_on_subset [where A = "{..<length (si_strm si)} \<times> {..<n}"])
        (use slot_fitsD(6) [OF fits] a Cons.prems(2) in auto)
  qed (use Cons.prems(3) in auto)
  moreover have "{(a, j)} \<union> {a} \<times> set js = {a} \<times> set (j # js)" by auto
  ultimately show ?case using st1(1) st2(1) by (intro exI [of _ st2]) simp
qed

lemma place_stream_done:
  assumes fits: "slot_fits K N x0 si ub n" and tracked: "kc_ownership x0 = None \<or> cc_armed K" and a: "a < length (si_strm si)"
    and J: "edit_inv K N commit x0 (pl_cache st)"
  shows "\<exists>st'. place_stream K (commit \<and> cc_armed K) ub si a st = Some st' \<and>
    placed K N commit ub si n x0 ({a} \<times> {..<n}) st st'"
proof -
  define st0 where "st0 = st\<lparr> pl_event := False, pl_cache := tracker_if (commit \<and> cc_armed K) K
        (Gen_Begin Reg_apply_ubatch_append Cls_ordinary_decode (si_strm si ! a) Stamp_dependency False) (pl_cache st) \<rparr>"
  have J0: "edit_inv K N commit x0 (pl_cache st0)" by (simp add: st0_def edit_inv_tracker [OF J])
  have same: "cell_of (pl_cache st0) = cell_of (pl_cache st)" by (rule cell_of_cells) (simp add: st0_def)
  obtain st' where st': "foldM (\<lambda>j. place_token K (commit \<and> cc_armed K) ub (si_strm si ! a) (a * n + j) (si_idxs si ! a ! j)) [0..<n] st0 = Some st'"
      "placed K N commit ub si n x0 ({a} \<times> {..<n}) st0 st'"
    using place_tokens [OF fits tracked a J0, of "[0..<n]"] by (auto simp: lessThan_atLeast0)
  have "placed K N commit ub si n x0 ({a} \<times> {..<n}) st st'"
    using st'(2) unfolding placed_def same by (simp add: st0_def)
  moreover have "place_stream K (commit \<and> cc_armed K) ub si a st = Some st'"
    using st'(1) slot_fitsD(3) [OF fits] slot_fitsD(7,8) [OF fits a] cache_baseD(1) [OF edit_invD(2) [OF J]]
    by (simp add: place_stream_def Let_def st0_def)
  ultimately show ?thesis by blast
qed

lemma place_streams:
  assumes fits: "slot_fits K N x0 si ub n" and tracked: "kc_ownership x0 = None \<or> cc_armed K"
    and "edit_inv K N commit x0 (pl_cache st)" and "set as \<subseteq> {..<length (si_strm si)}" and "distinct as"
  shows "\<exists>st'. foldM (place_stream K (commit \<and> cc_armed K) ub si) as st = Some st' \<and>
    placed K N commit ub si n x0 (set as \<times> {..<n}) st st'"
  using assms(3-)
proof (induction as arbitrary: st)
  case Nil
  then show ?case by (simp add: placed_none)
next
  case (Cons a as)
  obtain st1 where st1: "place_stream K (commit \<and> cc_armed K) ub si a st = Some st1"
      "placed K N commit ub si n x0 ({a} \<times> {..<n}) st st1"
    using place_stream_done [OF fits tracked _ Cons.prems(1), of a] Cons.prems(2) by auto
  have rest: "set as \<subseteq> {..<length (si_strm si)}" "distinct as" using Cons.prems(2,3) by simp_all
  obtain st2 where st2: "foldM (place_stream K (commit \<and> cc_armed K) ub si) as st1 = Some st2"
      "placed K N commit ub si n x0 (set as \<times> {..<n}) st1 st2"
    using Cons.IH [OF placedD(1) [OF st1(2)] rest] by (elim exE conjE) (rule that)
  have "placed K N commit ub si n x0 ({a} \<times> {..<n} \<union> set as \<times> {..<n}) st st2"
  proof (rule placed_compose [OF st1(2) st2(2)])
    show "inj_on (slot_key si) ({a} \<times> {..<n} \<union> set as \<times> {..<n})"
      by (rule inj_on_subset [where A = "{..<length (si_strm si)} \<times> {..<n}"])
        (use slot_fitsD(6) [OF fits] Cons.prems(2) in auto)
  qed (use Cons.prems(3) in auto)
  moreover have "{a} \<times> {..<n} \<union> set as \<times> {..<n} = set (a # as) \<times> {..<n}" by auto
  ultimately show ?case using st1(1) st2(1) by (intro exI [of _ st2]) simp
qed

end
