(* ===== verification/Cache_Batches.thy ===== *)
theory Cache_Batches
  imports Cache_Placement
begin

text \<open>
  \<open>apply_ubatch\<close> as a whole: the tokens take their cells, the sequences that lost a cell lose every
  cell at or below the greatest position they lost, the content epochs of these sequences rise when
  the batch is committed, and the heads move behind the last cell taken.
\<close>

section \<open>Purging\<close>

lemma stamped_trans:
  assumes "stamped K x y" and "stamped K y z"
  shows "stamped K x z"
proof -
  obtain cs where cs: "kc_calls y = kc_calls x @ cs" "\<forall>t \<in> set cs. call_ok t" "cc_armed K \<longrightarrow> (\<forall>s i. cell_of y (s, i) \<noteq> cell_of x (s, i) \<longrightarrow>
      (\<exists>r qs p. Gen_Stamp r s i qs p \<in> set cs))"
    using assms(1) unfolding stamped_def by (elim exE conjE) (rule that)
  obtain ds where ds: "kc_calls z = kc_calls y @ ds" "\<forall>t \<in> set ds. call_ok t" "cc_armed K \<longrightarrow> (\<forall>s i. cell_of z (s, i) \<noteq> cell_of y (s, i) \<longrightarrow>
      (\<exists>r qs p. Gen_Stamp r s i qs p \<in> set ds))"
    using assms(2) unfolding stamped_def by (elim exE conjE) (rule that)
  have "\<exists>r qs p. Gen_Stamp r s i qs p \<in> set (cs @ ds)" if "cc_armed K" "cell_of z (s, i) \<noteq> cell_of x (s, i)" for s i
    using cs(3) ds(3) that by (cases "cell_of z (s, i) = cell_of y (s, i)") fastforce+
  then show ?thesis unfolding stamped_def by (intro exI [of _ "cs @ ds"]) (use cs ds in auto)
qed

lemma edit_inv_trans: "edit_inv K N commit x y \<Longrightarrow> edit_inv K N commit y z \<Longrightarrow> edit_inv K N commit x z"
  using stamped_trans [of K x y z] by (cases commit) (simp_all add: edit_inv_def edit_frame_def)

lemma edit_inv_receipts: "edit_inv K N commit x0 x \<Longrightarrow> edit_inv K N commit x0 (receipts_release_if_empty x)"
proof -
  assume J: "edit_inv K N commit x0 x"
  let ?y = "receipts_release_if_empty x"
  have cells: "cell_of ?y = cell_of x" by (rule cell_of_cells) simp
  have "in_sync K N ?y" if "in_sync K N x"
    unfolding owner_maps_cells [OF cells] by (rule idx_ok_cong [OF that]) simp_all
  moreover have "cache_inv K N ?y" by (rule cache_inv_cong [OF edit_invD(1) [OF J]]) simp_all
  moreover have "kc_copies ?y = kc_copies x" by (simp add: receipts_release_if_empty_def receipts_release_def)
  moreover have "same_epochs x ?y" by simp
  ultimately show ?thesis
    using J by (simp add: edit_inv_def edit_frame_def same_epochs_def stamped_def cells split: if_splits)
qed

lemma purge_seq_done:
  assumes J: "edit_inv K N commit x0 x" and own: "\<not> cc_other K"
    and q: "m q \<noteq> -1 \<longrightarrow> q < length (kc_seq_to_stream x0) \<and> 0 \<le> m q"
  shows "\<exists>y. purge_seq K commit m q x = Some y \<and> edit_inv K N commit x0 y \<and>
    (\<forall>s < cc_n_stream K. \<forall>i < N. cell_of y (s, i) = cell_rm q 0 (m q + 1) (cell_of x (s, i)))"
proof (cases "m q = -1")
  case True
  have "cell_rm q 0 (m q + 1) v = v" for v using True by (auto simp: cell_rm_def split: prod.split)
  then show ?thesis using J True by (simp add: purge_seq_def)
next
  case False
  have base: "cache_base K N x" and inv: "cache_inv K N x" and s2s: "kc_seq_to_stream x = kc_seq_to_stream x0"
    using J by (auto dest: edit_invD)
  have q': "q < length (kc_seq_to_stream x)" "0 \<le> m q" using q False s2s by simp_all
  let ?s = "kc_seq_to_stream x ! q"
  have s: "?s < cc_n_stream K" using cache_baseD(6) [OF base q'(1)] .
  have max: "q < LLAMA_MAX_SEQ" using q'(1) cache_baseD(5) [OF base] by simp
  have stream: "seq_stream x (int q) = Some ?s" using q'(1) by (simp add: seq_stream_def)
  have bound: "?s < length (kc_cells x)" using s cache_baseD(1) [OF base] by simp
  obtain least where least: "seq_pos_min q (stream_cells ?s x) = Some least"
    using seq_pos_min_total [OF base s max] by blast
  have lower: "least \<le> cpos x ?s i" if "i < N" "q \<in> cseq x ?s i" for i
    using seq_pos_min_least [OF stream_cells_inv [OF base s] max, of i] that least cache_baseD(8) [OF base s] by auto
  have elsewhere: "q \<notin> cseq x s i" if "s < cc_n_stream K" "i < N" "s \<noteq> ?s" for s i
    using cache_baseD(10) [OF base that(1,2), of q] that(3) by blast
  show ?thesis
  proof (cases "least \<le> m q")
    case False
    have "cell_rm q 0 (m q + 1) (cell_of x (s, i)) = cell_of x (s, i)" if "s < cc_n_stream K" "i < N" for s i
      using elsewhere [OF that] lower [OF that(2)] False by (cases "s = ?s") (auto simp: cell_rm_def cell_of_def)
    then show ?thesis
      using J False \<open>m q \<noteq> -1\<close> stream bound least by (intro exI [of _ x]) (simp add: purge_seq_def)
  next
    case True
    let ?lo = "range_from least (m q + 1)"
    have hi: "range_to least (m q + 1) = m q + 1" using q'(2) by (simp add: normalize_edit_range_def)
    have lo: "?lo = max 0 least" by (simp add: normalize_edit_range_def)
    obtain ch y where y: "seq_rm_one K commit (int q) ?lo (m q + 1) x = Some (ch, y)" "edit_inv K N commit x y"
        "cell_of y = stream_map ?s N (cell_rm q ?lo (m q + 1)) (cell_of x)"
    proof -
      have sq: "0 \<le> int q" "nat (int q) < length (kc_seq_to_stream x)" using q'(1) by simp_all
      show thesis
        using seq_rm_one_cells [OF inv edit_invD(4) [OF J] sq] that
        unfolding nat_int by blast
    qed
    define z where "z = (if commit then receipts_release_if_empty y else y)"
    have z: "edit_inv K N commit x0 z" "cell_of z = cell_of y"
      using edit_inv_trans [OF J y(2)] edit_inv_receipts [of K N commit x0 y] cell_of_cells [of "receipts_release_if_empty y" y]
      by (cases commit; simp add: z_def)+
    have "purge_seq K commit m q x = Some z"
      using \<open>m q \<noteq> -1\<close> stream bound least True own q'(1) y(1) hi
      by (cases "normalize_edit_range least (m q + 1)"; cases commit) (simp_all add: purge_seq_def seq_rm_impl_def z_def)
    moreover have "cell_of z (s, i) = cell_rm q 0 (m q + 1) (cell_of x (s, i))" if "s < cc_n_stream K" "i < N" for s i
      using elsewhere [OF that] lower [OF that(2)] that(2) cache_baseD(11) [OF base that]
      by (cases "s = ?s") (auto simp: z(2) y(3) stream_map_def cell_rm_def cell_of_def lo)
    ultimately show ?thesis using z(1) by blast
  qed
qed

text \<open>What is left of a cell once every sequence has been purged up to its bound.\<close>

definition cell_purge :: "nat set \<Rightarrow> (nat \<Rightarrow> int) \<Rightarrow> cell_state \<Rightarrow> cell_state" where
  "cell_purge Q m v = (case v of (p, qs, e, d) \<Rightarrow>
     let r = {q \<in> qs. \<not> (q \<in> Q \<and> 0 \<le> p \<and> p \<le> m q)} in if qs \<noteq> {} \<and> r = {} then no_cell else (p, r, e, d))"

lemma cell_purge_none: "cell_purge {} m v = v"
  by (auto simp: cell_purge_def Let_def split: prod.split)

lemma cell_purge_insert: "cell_rm q 0 (m q + 1) (cell_purge Q m v) = cell_purge (insert q Q) m v"
proof -
  obtain p qs e d where v: "v = (p, qs, e, d)" by (metis prod_cases4)
  let ?r = "\<lambda>Q. {r \<in> qs. \<not> (r \<in> Q \<and> 0 \<le> p \<and> p \<le> m r)}"
  have step: "?r (insert q Q) = (if 0 \<le> p \<and> p \<le> m q then ?r Q - {q} else ?r Q)" by auto
  show ?thesis
  proof (cases "qs \<noteq> {} \<and> ?r Q = {}")
    case True
    then have "cell_purge Q m v = no_cell" "cell_purge (insert q Q) m v = no_cell"
      unfolding v cell_purge_def prod.case Let_def step by simp_all
    then show ?thesis by (simp add: cell_rm_def)
  next
    case False
    then have "cell_purge Q m v = (p, ?r Q, e, d)"
      unfolding v cell_purge_def prod.case Let_def by (rule if_not_P)
    moreover have "cell_purge (insert q Q) m v = (if qs \<noteq> {} \<and> ?r (insert q Q) = {} then no_cell else (p, ?r (insert q Q), e, d))"
      unfolding v cell_purge_def prod.case Let_def by simp
    ultimately show ?thesis
      using False unfolding step by (cases "q \<in> ?r Q"; cases "0 \<le> p \<and> p \<le> m q") (simp_all add: cell_rm_def del: mem_Collect_eq, blast+)
  qed
qed

lemma purge_all:
  assumes "edit_inv K N commit x0 x" and "\<not> cc_other K"
    and "\<And>q. m q \<noteq> -1 \<longrightarrow> q < length (kc_seq_to_stream x0) \<and> 0 \<le> m q"
    and "\<forall>s < cc_n_stream K. \<forall>i < N. cell_of x (s, i) = cell_purge Q m (c (s, i))"
  shows "\<exists>y. foldM (purge_seq K commit m) qs x = Some y \<and> edit_inv K N commit x0 y \<and>
    (\<forall>s < cc_n_stream K. \<forall>i < N. cell_of y (s, i) = cell_purge (Q \<union> set qs) m (c (s, i)))"
  using assms(1,4)
proof (induction qs arbitrary: x Q)
  case (Cons q qs)
  obtain y where y: "purge_seq K commit m q x = Some y" "edit_inv K N commit x0 y"
      "\<forall>s < cc_n_stream K. \<forall>i < N. cell_of y (s, i) = cell_rm q 0 (m q + 1) (cell_of x (s, i))"
    using purge_seq_done [OF Cons.prems(1) assms(2), of m q] assms(3) [of q] by blast
  have "\<forall>s < cc_n_stream K. \<forall>i < N. cell_of y (s, i) = cell_purge (insert q Q) m (c (s, i))"
    using y(3) Cons.prems(2) by (simp add: cell_purge_insert)
  from Cons.IH [OF y(2) this] y(1) show ?case by simp
qed simp

section \<open>The heads\<close>

lemma advance_head_done:
  assumes J: "edit_inv K N commit x0 x" and fits: "slot_fits K N x0 si ub n" and a: "a < length (si_strm si)"
  shows "\<exists>y. advance_head si a x = Some y \<and> edit_inv K N commit x0 y \<and> cell_of y = cell_of x"
proof -
  have len: "length (si_idxs si ! a) = n" "0 < n" using slot_fitsD(7) [OF fits a] slot_fitsD(4) [OF fits] by simp_all
  then have "last (si_idxs si ! a) = si_idxs si ! a ! (n - 1)" by (metis last_conv_nth length_greater_0_conv)
  then have "last (si_idxs si ! a) + 1 \<le> N" using slot_fitsD(9) [OF fits a, of "n - 1"] len(2) by simp
  moreover have "si_strm si ! a < length (kc_heads x)"
    using slot_fitsD(8) [OF fits a] cache_baseD(2) [OF edit_invD(2) [OF J]] by simp
  ultimately show ?thesis
    using edit_inv_head [OF J, of "last (si_idxs si ! a) + 1" "si_strm si ! a"] len by (auto simp: advance_head_def)
qed

lemma advance_heads:
  assumes "edit_inv K N commit x0 x" and fits: "slot_fits K N x0 si ub n" and "set as \<subseteq> {..<length (si_strm si)}"
  shows "\<exists>y. foldM (advance_head si) as x = Some y \<and> edit_inv K N commit x0 y \<and> cell_of y = cell_of x"
  using assms(1,3)
proof (induction as arbitrary: x)
  case (Cons a as)
  obtain y where y: "advance_head si a x = Some y" "edit_inv K N commit x0 y" "cell_of y = cell_of x"
    using advance_head_done [OF Cons.prems(1) fits, of a] Cons.prems(2) by auto
  with Cons.IH [OF y(2)] Cons.prems(2) show ?case by auto
qed simp

section \<open>The whole batch\<close>

text \<open>The cells after the tokens took theirs, and the bound below which each sequence is purged.\<close>

definition tokens_placed :: "cache_config \<Rightarrow> ubatch \<Rightarrow> slot_info \<Rightarrow> nat \<Rightarrow> (nat \<times> nat \<Rightarrow> cell_state) \<Rightarrow> (nat \<times> nat \<Rightarrow> cell_state) \<Rightarrow> bool" where
  "tokens_placed K ub si n c c' \<longleftrightarrow>
     (\<forall>k. k \<notin> slot_key si ` ({..<length (si_strm si)} \<times> {..<n}) \<longrightarrow> c' k = c k) \<and>
     (\<forall>a < length (si_strm si). \<forall>b < n. c' (slot_key si (a, b)) = token_cell K ub (a * n + b) (c (slot_key si (a, b))))"

definition purge_bound :: "slot_info \<Rightarrow> nat \<Rightarrow> (nat \<times> nat \<Rightarrow> cell_state) \<Rightarrow> nat \<Rightarrow> int" where
  "purge_bound si n c q = Max (insert (-1) (lost c (slot_key si ` ({..<length (si_strm si)} \<times> {..<n})) q))"

definition rows_stay :: "cache_config \<Rightarrow> nat \<Rightarrow> nat set \<Rightarrow> kv_cache \<Rightarrow> kv_cache \<Rightarrow> bool" where
  "rows_stay K N A x y \<longleftrightarrow> (\<forall>s < cc_n_stream K. \<forall>i < N. \<forall>q. q \<notin> A \<and> cell_row q (cell_of x (s, i)) \<noteq> None \<longrightarrow>
     cell_row q (cell_of y (s, i)) = cell_row q (cell_of x (s, i)))"

lemma rows_kept_stay: "rows_kept K N A x y \<Longrightarrow> rows_stay K N A x y"
  by (simp add: rows_kept_def rows_stay_def)

lemma slot_keys_in_range:
  "slot_fits K N x si ub n \<Longrightarrow> k \<in> slot_key si ` ({..<length (si_strm si)} \<times> {..<n}) \<Longrightarrow> fst k < cc_n_stream K \<and> snd k < N"
  using slot_fitsD(8,9) by (fastforce simp: slot_key_def)

lemma purge_bound_cases:
  assumes "purge_bound si n c q \<noteq> -1"
  obtains k where "k \<in> slot_key si ` ({..<length (si_strm si)} \<times> {..<n})" "q \<in> fst (snd (c k))" "purge_bound si n c q = fst (c k)"
proof -
  let ?S = "slot_key si ` ({..<length (si_strm si)} \<times> {..<n})"
  have "purge_bound si n c q \<in> insert (-1) (lost c ?S q)"
    unfolding purge_bound_def by (rule Max_in) (simp_all add: finite_lost)
  then show thesis using assms that by (auto simp: lost_def)
qed

lemma purge_bound_upper:
  assumes "k \<in> slot_key si ` ({..<length (si_strm si)} \<times> {..<n})" and "q \<in> fst (snd (c k))"
  shows "fst (c k) \<le> purge_bound si n c q"
proof -
  have "fst (c k) \<in> lost c (slot_key si ` ({..<length (si_strm si)} \<times> {..<n})) q"
    unfolding lost_def using assms by blast
  then show ?thesis unfolding purge_bound_def by (intro Max_ge) (simp_all add: finite_lost)
qed

lemma purge_bound_ok:
  assumes "cache_inv K N x" and "slot_fits K N x si ub n" and "purge_bound si n (cell_of x) q \<noteq> -1"
  shows "q < length (kc_seq_to_stream x) \<and> 0 \<le> purge_bound si n (cell_of x) q"
proof -
  obtain k where k: "k \<in> slot_key si ` ({..<length (si_strm si)} \<times> {..<n})" "q \<in> fst (snd (cell_of x k))"
      "purge_bound si n (cell_of x) q = fst (cell_of x k)"
    using purge_bound_cases [OF assms(3)] by blast
  have range: "fst k < cc_n_stream K" "snd k < N" using slot_keys_in_range [OF assms(2) k(1)] by simp_all
  have "q \<in> cseq x (fst k) (snd k)" "fst (cell_of x k) = cpos x (fst k) (snd k)" using k(2) by (simp_all add: cell_of_def)
  then show ?thesis
    using cache_baseD(10,11) [OF cache_invD(1) [OF assms(1)] range] cache_invD(2) [OF assms(1) range] k(3) assms(3) by force
qed

lemma place_all_tokens:
  assumes inv: "cache_inv K N x" and sync: "commit \<longrightarrow> in_sync K N x" and tracked: "kc_ownership x = None \<or> cc_armed K"
    and fits: "slot_fits K N x si ub n"
  shows "\<exists>st. foldM (place_stream K (commit \<and> cc_armed K) ub si) [0..<length (si_strm si)]
      \<lparr> pl_cache = x, pl_max_rm = (\<lambda>_. -1), pl_reused = False, pl_affected = {}, pl_event = False \<rparr> = Some st \<and>
    edit_inv K N commit x (pl_cache st) \<and> tokens_placed K ub si n (cell_of x) (cell_of (pl_cache st)) \<and>
    pl_max_rm st = purge_bound si n (cell_of x) \<and> rows_stay K N (pl_affected st) x (pl_cache st) \<and>
    (\<not> pl_reused st \<longrightarrow> rows_stay K N {} x (pl_cache st) \<and> purge_bound si n (cell_of x) = (\<lambda>_. -1)) \<and>
    (\<forall>q. purge_bound si n (cell_of x) q \<noteq> -1 \<longrightarrow> q \<in> pl_affected st)"
proof -
  define st0 where "st0 = \<lparr> pl_cache = x, pl_max_rm = (\<lambda>_. -1), pl_reused = False, pl_affected = {}, pl_event = False \<rparr>"
  let ?D = "{..<length (si_strm si)} \<times> {..<n}"
  have base: "cache_base K N x" using inv by (rule cache_invD)
  have "edit_inv K N commit x (pl_cache st0)" using inv sync by (auto simp: edit_inv_def st0_def stamped_refl)
  from place_streams [OF fits tracked this, of "[0..<length (si_strm si)]"]
  obtain st where st: "foldM (place_stream K (commit \<and> cc_armed K) ub si) [0..<length (si_strm si)] st0 = Some st"
      "placed K N commit ub si n x ?D st0 st"
    by (auto simp: lessThan_atLeast0)
  let ?c = "cell_of x" and ?c' = "cell_of (pl_cache st)"
  have c0: "cell_of (pl_cache st0) = ?c" "pl_max_rm st0 q = -1" "\<not> pl_reused st0" for q by (simp_all add: st0_def)
  have elsewhere: "?c' k = ?c k" if "k \<notin> slot_key si ` ?D" for k
    using placedD(2) [OF st(2) that] unfolding c0 .
  have affected: "fst (snd (?c k)) \<subseteq> pl_affected st" if "k \<in> slot_key si ` ?D" for k
    using placedD(7) [OF st(2)] that unfolding c0 by blast
  have placed: "tokens_placed K ub si n ?c ?c'"
    unfolding tokens_placed_def using elsewhere placedD(3) [OF st(2)] unfolding c0 by auto
  have bound: "pl_max_rm st = purge_bound si n ?c"
    using placedD(4) [OF st(2)] unfolding c0 purge_bound_def by blast
  have stay: "cell_row q (?c' k) = cell_row q (?c k)" if "q \<notin> pl_affected st" "cell_row q (?c k) \<noteq> None" for q k
    using affected [of k] elsewhere [of k] that
    by (cases "k \<in> slot_key si ` ?D") (auto simp: cell_row_def split: prod.splits if_splits)
  have quiet: "fst (snd (?c k)) = {}" if "\<not> pl_reused st" "k \<in> slot_key si ` ?D" for k
  proof -
    have "fst (?c k) = -1" using placedD(5) [OF st(2)] that unfolding c0 by auto
    then show ?thesis
      using cache_baseD(12) [OF base, of "fst k" "snd k"] slot_keys_in_range [OF fits that(2)] by (simp add: cell_of_def)
  qed
  have silent: "cell_row q (?c' k) = cell_row q (?c k)" if "\<not> pl_reused st" "cell_row q (?c k) \<noteq> None" for q k
    using quiet [OF that(1), of k] elsewhere [of k] that(2)
    by (cases "k \<in> slot_key si ` ?D") (auto simp: cell_row_def split: prod.splits if_splits)
  have "purge_bound si n ?c q = -1" if "\<not> pl_reused st" for q
    using purge_bound_cases [of si n ?c q] quiet [OF that] by blast
  moreover have "q \<in> pl_affected st" if "purge_bound si n ?c q \<noteq> -1" for q
    using purge_bound_cases [OF that] affected by blast
  ultimately show ?thesis
    using st(1) placedD(1) [OF st(2)] placed bound stay silent
    unfolding st0_def rows_stay_def by (intro exI [of _ st]) (simp add: fun_eq_iff)
qed

lemma cell_purge_row: "m q = -1 \<Longrightarrow> cell_row q (cell_purge Q m v) = cell_row q v"
  by (auto simp: cell_purge_def cell_row_def Let_def split: prod.splits)

lemma slot_fits_cong:
  assumes "slot_fits K N x si ub n" and same: "kc_seq_to_stream y = kc_seq_to_stream x"
  shows "slot_fits K N y si ub n"
  using assms(1) unfolding slot_fits_def token_ok_def same .

definition step_done :: "cache_config \<Rightarrow> nat \<Rightarrow> kv_cache \<Rightarrow> kv_cache \<Rightarrow> bool" where
  "step_done K N x y \<longleftrightarrow> cache_inv K N y \<and> in_sync K N y \<and> kc_seq_to_stream y = kc_seq_to_stream x \<and>
     (kc_ownership y = None \<longleftrightarrow> kc_ownership x = None) \<and> logged K N x y \<and>
     (same_epochs x y \<and> rows_stay K N {} x y \<or> (\<exists>A. raised K A x y \<and> rows_stay K N A x y))"

lemma edit_step_done: "edit_done K N x y \<Longrightarrow> step_done K N x y"
  by (auto simp: edit_done_def step_done_def intro: rows_kept_stay)

text \<open>The stages after the tokens: the cells, the epochs and the heads.\<close>

lemma finish_batch:
  assumes J: "edit_inv K N commit xb xb" and own: "\<not> cc_other K" and fits: "slot_fits K N xb si ub n"
    and m: "\<And>q. m q \<noteq> -1 \<longrightarrow> q < length (kc_seq_to_stream xb) \<and> 0 \<le> m q"
  shows "\<exists>x2 y. foldM (purge_seq K commit m) [0..<LLAMA_MAX_SEQ] xb = Some x2 \<and>
    foldM (advance_head si) [0..<length (si_strm si)] x2 = Some y \<and> edit_inv K N commit xb y \<and>
    (\<forall>s < cc_n_stream K. \<forall>i < N. cell_of y (s, i) = cell_purge {..<LLAMA_MAX_SEQ} m (cell_of xb (s, i)))"
proof -
  have none: "\<forall>s < cc_n_stream K. \<forall>i < N. cell_of xb (s, i) = cell_purge {} m (cell_of xb (s, i))"
    by (simp add: cell_purge_none)
  have all: "{} \<union> set [0..<LLAMA_MAX_SEQ] = {..<LLAMA_MAX_SEQ}" by auto
  obtain x2 where x2: "foldM (purge_seq K commit m) [0..<LLAMA_MAX_SEQ] xb = Some x2" "edit_inv K N commit xb x2"
      "\<forall>s < cc_n_stream K. \<forall>i < N. cell_of x2 (s, i) = cell_purge {..<LLAMA_MAX_SEQ} m (cell_of xb (s, i))"
    using purge_all [OF J own m none, of "[0..<LLAMA_MAX_SEQ]"] unfolding all by blast
  obtain y where "foldM (advance_head si) [0..<length (si_strm si)] x2 = Some y" "edit_inv K N commit xb y" "cell_of y = cell_of x2"
    using advance_heads [OF x2(2) fits, of "[0..<length (si_strm si)]"] by (auto simp: lessThan_atLeast0)
  with x2 show ?thesis by auto
qed

definition batch_cells :: "cache_config \<Rightarrow> nat \<Rightarrow> ubatch \<Rightarrow> slot_info \<Rightarrow> nat \<Rightarrow> kv_cache \<Rightarrow> kv_cache \<Rightarrow> bool" where
  "batch_cells K N ub si n x y \<longleftrightarrow> (\<exists>c'. tokens_placed K ub si n (cell_of x) c' \<and>
     (\<forall>s < cc_n_stream K. \<forall>i < N. cell_of y (s, i) =
        cell_purge {..<LLAMA_MAX_SEQ} (purge_bound si n (cell_of x)) (c' (s, i))))"

lemma apply_ubatch_start:
  assumes "\<not> cc_other K" and "slot_fits K N x si ub n"
  shows "apply_ubatch K si ub commit x = do {
       st \<leftarrow> foldM (place_stream K (commit \<and> cc_armed K) ub si) [0..<length (si_strm si)]
         \<lparr> pl_cache = x, pl_max_rm = (\<lambda>_. -1), pl_reused = False, pl_affected = {}, pl_event = False \<rparr>;
       x1 \<leftarrow> (if commit \<and> pl_reused st then content_changed K (pl_affected st) (pl_cache st)
             else Some (pl_cache st));
       x2 \<leftarrow> foldM (purge_seq K commit (pl_max_rm st)) [0..<LLAMA_MAX_SEQ] x1;
       foldM (advance_head si) [0..<length (si_strm si)] x2 }"
  using assms slot_fitsD(1,2,3,5) [OF assms(2)] by (simp add: apply_ubatch_def Let_def)

lemma apply_ubatch_dry:
  assumes inv: "cache_inv K N x" and tracked: "kc_ownership x = None \<or> cc_armed K" and own: "\<not> cc_other K"
    and fits: "slot_fits K N x si ub n"
  shows "\<exists>y. apply_ubatch K si ub False x = Some y \<and> edit_inv K N False x y \<and> batch_cells K N ub si n x y"
proof -
  obtain st where st: "foldM (place_stream K (False \<and> cc_armed K) ub si) [0..<length (si_strm si)]
      \<lparr> pl_cache = x, pl_max_rm = (\<lambda>_. -1), pl_reused = False, pl_affected = {}, pl_event = False \<rparr> = Some st"
      "edit_inv K N False x (pl_cache st)" "tokens_placed K ub si n (cell_of x) (cell_of (pl_cache st))"
      "pl_max_rm st = purge_bound si n (cell_of x)"
    using place_all_tokens [OF inv _ tracked fits, of False] by blast
  have s2s: "kc_seq_to_stream (pl_cache st) = kc_seq_to_stream x" by (rule edit_invD(5) [OF st(2)])
  have J: "edit_inv K N False (pl_cache st) (pl_cache st)" using edit_invD(1) [OF st(2)] by (simp add: edit_inv_def)
  have m: "pl_max_rm st q \<noteq> -1 \<longrightarrow> q < length (kc_seq_to_stream (pl_cache st)) \<and> 0 \<le> pl_max_rm st q" for q
    using purge_bound_ok [OF inv fits] by (simp add: st(4) s2s)
  obtain x2 y where y: "foldM (purge_seq K False (pl_max_rm st)) [0..<LLAMA_MAX_SEQ] (pl_cache st) = Some x2"
      "foldM (advance_head si) [0..<length (si_strm si)] x2 = Some y" "edit_inv K N False (pl_cache st) y"
      "\<forall>s < cc_n_stream K. \<forall>i < N. cell_of y (s, i) =
        cell_purge {..<LLAMA_MAX_SEQ} (pl_max_rm st) (cell_of (pl_cache st) (s, i))"
    using finish_batch [OF J own slot_fits_cong [OF fits s2s] m] by blast
  have "apply_ubatch K si ub False x = Some y"
    unfolding apply_ubatch_start [OF own fits] st(1) Option.bind_lunit using y(1,2) by simp
  then show ?thesis
    using edit_inv_trans [OF st(2) y(3)] st(3,4) y(4) unfolding batch_cells_def by auto
qed

lemma apply_ubatch_done:
  assumes inv: "cache_inv K N x" and sync: "in_sync K N x" and left: "epochs_left K x"
    and tracked: "kc_ownership x = None \<or> cc_armed K" and own: "\<not> cc_other K" and fits: "slot_fits K N x si ub n"
  shows "\<exists>y. apply_ubatch K si ub True x = Some y \<and> step_done K N x y \<and> batch_cells K N ub si n x y"
proof -
  let ?m = "purge_bound si n (cell_of x)"
  obtain st where st: "foldM (place_stream K (True \<and> cc_armed K) ub si) [0..<length (si_strm si)]
      \<lparr> pl_cache = x, pl_max_rm = (\<lambda>_. -1), pl_reused = False, pl_affected = {}, pl_event = False \<rparr> = Some st"
      "edit_inv K N True x (pl_cache st)" "tokens_placed K ub si n (cell_of x) (cell_of (pl_cache st))"
      "pl_max_rm st = ?m" "rows_stay K N (pl_affected st) x (pl_cache st)"
      "\<not> pl_reused st \<longrightarrow> rows_stay K N {} x (pl_cache st) \<and> ?m = (\<lambda>_. -1)"
      "\<forall>q. ?m q \<noteq> -1 \<longrightarrow> q \<in> pl_affected st"
    using place_all_tokens [OF inv _ tracked fits, of True] sync by blast
  define xb where "xb = (if pl_reused st then bump K (pl_affected st) (pl_cache st) else pl_cache st)"
  have fields: "kc_cells xb = kc_cells (pl_cache st)" "kc_heads xb = kc_heads (pl_cache st)"
      "kc_seq_to_stream xb = kc_seq_to_stream (pl_cache st)" "kc_ownership xb = kc_ownership (pl_cache st)"
      "kc_calls xb = kc_calls (pl_cache st)" by (simp_all add: xb_def)
  have cells: "cell_of xb = cell_of (pl_cache st)" by (rule cell_of_cells [OF fields(1)])
  have changed: "(if True \<and> pl_reused st then content_changed K (pl_affected st) (pl_cache st) else Some (pl_cache st)) = Some xb"
  proof -
    have "epochs_left K (pl_cache st)" using left edit_invD(3) [OF st(2)] by (simp add: epochs_left_def edit_frame_def)
    then show ?thesis by (simp add: xb_def content_changed_bump)
  qed
  have invb: "cache_inv K N xb" by (rule cache_inv_cong [OF edit_invD(1) [OF st(2)] fields(1,2,3)])
  have syncb: "in_sync K N xb"
    unfolding owner_maps_cells [OF cells] by (rule idx_ok_cong [OF edit_invD(4) [OF st(2) TrueI]]) (simp_all add: fields)
  have s2s: "kc_seq_to_stream xb = kc_seq_to_stream x" using edit_invD(5) [OF st(2)] fields(3) by simp
  have J: "edit_inv K N True xb xb" using invb syncb by (simp add: edit_inv_def stamped_refl)
  have m: "?m q \<noteq> -1 \<longrightarrow> q < length (kc_seq_to_stream xb) \<and> 0 \<le> ?m q" for q
    using purge_bound_ok [OF inv fits] by (simp add: s2s)
  obtain x2 y where y: "foldM (purge_seq K True ?m) [0..<LLAMA_MAX_SEQ] xb = Some x2"
      "foldM (advance_head si) [0..<length (si_strm si)] x2 = Some y" "edit_inv K N True xb y"
      "\<forall>s < cc_n_stream K. \<forall>i < N. cell_of y (s, i) = cell_purge {..<LLAMA_MAX_SEQ} ?m (cell_of xb (s, i))"
    using finish_batch [OF J own slot_fits_cong [OF fits s2s] m] by blast
  have run: "apply_ubatch K si ub True x = Some y"
    unfolding apply_ubatch_start [OF own fits] st(1) Option.bind_lunit changed st(4) y(1) by (rule y(2))
  have stay: "rows_stay K N A x y" if "rows_stay K N A x (pl_cache st)" "\<forall>q. ?m q \<noteq> -1 \<longrightarrow> q \<in> A" for A
    unfolding rows_stay_def
  proof (intro allI impI)
    fix s i q assume *: "s < cc_n_stream K" "i < N" "q \<notin> A \<and> cell_row q (cell_of x (s, i)) \<noteq> None"
    then have "?m q = -1" using that(2) by blast
    then show "cell_row q (cell_of y (s, i)) = cell_row q (cell_of x (s, i))"
      using y(4) * that(1) by (simp add: cells rows_stay_def cell_purge_row)
  qed
  have rows: "pl_reused st \<and> rows_stay K N (pl_affected st) x y \<or> \<not> pl_reused st \<and> rows_stay K N {} x y"
    using st(5,6,7) stay by auto
  have epochs: "same_epochs xb y" "same_epochs x (pl_cache st)"
    using edit_invD(3) [OF y(3)] edit_invD(3) [OF st(2)] by (simp_all add: edit_frame_def same_epochs_def)
  have "if pl_reused st then raised K (pl_affected st) x y else same_epochs x y"
    using epochs bump_raised [OF epochs(2), of K "pl_affected st"] by (auto simp: xb_def raised_def same_epochs_def)
  moreover have "logged K N x y"
  proof -
    have "stamped K x xb" using st(2) by (simp add: edit_inv_def stamped_def fields cells)
    then have "stamped K x y" using y(3) stamped_trans [of K x xb y] by (simp add: edit_inv_def)
    then show ?thesis by (auto simp: stamped_def logged_def)
  qed
  moreover have "kc_ownership y = None \<longleftrightarrow> kc_ownership x = None" "kc_seq_to_stream y = kc_seq_to_stream x"
    using edit_invD(3) [OF y(3)] edit_invD(3) [OF st(2)] fields by (simp_all add: edit_frame_def)
  ultimately have "step_done K N x y"
    using rows edit_invD(1,4) [OF y(3)] unfolding step_done_def by (cases "pl_reused st") auto
  then show ?thesis
    using run st(3) y(4) unfolding batch_cells_def cells by blast
qed

text \<open>Nothing of a purged sequence is left at or below its bound.\<close>

lemma cell_purge_above:
  "cell_purge Q m v = (p, qs, e, d) \<Longrightarrow> q \<in> qs \<Longrightarrow> q \<in> Q \<Longrightarrow> 0 \<le> p \<Longrightarrow> m q < p"
  by (auto simp: cell_purge_def Let_def split: prod.splits if_splits)

lemma purged_above:
  assumes "cache_inv K N y" and "batch_cells K N ub si n x y" and "s < cc_n_stream K" and "i < N" and "q \<in> cseq y s i"
  shows "purge_bound si n (cell_of x) q < cpos y s i"
proof -
  have base: "cache_base K N y" using assms(1) by (rule cache_invD)
  have q: "q < LLAMA_MAX_SEQ" using cache_baseD(5,10) [OF base] assms(3-5) by (meson less_le_trans)
  have "cpos y s i \<noteq> -1" using cache_invD(2) [OF assms(1,3,4)] assms(5) by auto
  then have p: "0 \<le> cpos y s i" using cache_baseD(11) [OF base assms(3,4)] by simp
  obtain c' where "cell_of y (s, i) = cell_purge {..<LLAMA_MAX_SEQ} (purge_bound si n (cell_of x)) (c' (s, i))"
    using assms(2-4) unfolding batch_cells_def by blast
  then show ?thesis
    using cell_purge_above [of _ _ _ "cpos y s i" "cseq y s i" _ _ q] assms(5) q p by (metis cell_of_def fst_conv snd_conv lessThan_iff)
qed

end
