(* ===== verification/Cache_Runs.thy ===== *)
theory Cache_Runs
  imports Cache_Stream_Copy Cache_Batches
begin

text \<open>
  The cache as a state machine: an edit or a committed batch is a step, with the preconditions the
  code asserts or its callers keep. Every run from the constructor keeps the invariant of the cells
  and the agreement of the ownership index with them. The contract of the content epochs is stated
  as an interface of its own and holds for the steps.
\<close>

section \<open>Edits\<close>

datatype cache_edit =
    Edit_Clear
  | Edit_Rm int int int
  | Edit_Cp int int int int
  | Edit_Keep int
  | Edit_Add int int int int bool
  | Edit_Div int int int int

fun run_edit :: "cache_config \<Rightarrow> cache_edit \<Rightarrow> kv_cache \<Rightarrow> kv_cache option" where
  "run_edit K Edit_Clear x = cache_clear K x"
| "run_edit K (Edit_Rm sq p0 p1) x = map_option snd (seq_rm K sq p0 p1 x)"
| "run_edit K (Edit_Cp src dst p0 p1) x = seq_cp K src dst p0 p1 x"
| "run_edit K (Edit_Keep sq) x = seq_keep K sq x"
| "run_edit K (Edit_Add sq p0 p1 m raw) x = seq_add_impl K sq p0 p1 m raw x"
| "run_edit K (Edit_Div sq p0 p1 m) x = seq_div K sq p0 p1 m x"

definition known_seq :: "kv_cache \<Rightarrow> int \<Rightarrow> bool" where
  "known_seq x sq \<longleftrightarrow> 0 \<le> sq \<and> nat sq < length (kc_seq_to_stream x)"

abbreviation stream_of :: "kv_cache \<Rightarrow> int \<Rightarrow> nat" where
  "stream_of x sq \<equiv> kc_seq_to_stream x ! nat sq"

definition range_owned :: "nat \<Rightarrow> kv_cache \<Rightarrow> int \<Rightarrow> int \<Rightarrow> int \<Rightarrow> bool" where
  "range_owned N x sq p0 p1 \<longleftrightarrow>
     (\<forall>i < N. owned_alone (nat sq) (range_from p0 p1) (range_to p0 p1) (cell_of x (stream_of x sq, i)))"

text \<open>Between streams: no generation tracking, the full range, a destination stream of its own, plausible shifts.\<close>

definition full_copy_ok :: "cache_config \<Rightarrow> nat \<Rightarrow> int \<Rightarrow> int \<Rightarrow> int \<Rightarrow> int \<Rightarrow> kv_cache \<Rightarrow> bool" where
  "full_copy_ok K N src dst p0 p1 x \<longleftrightarrow> \<not> cc_armed K \<and>
     (\<forall>q < length (kc_seq_to_stream x). kc_seq_to_stream x ! q = stream_of x dst \<longrightarrow> q = nat dst) \<and>
     \<not> (0 < range_from p0 p1 \<and> range_from p0 p1 < int N - 1) \<and> \<not> (0 < range_to p0 p1 \<and> range_to p0 p1 < int N - 1) \<and>
     (\<forall>i < N. nat src \<in> cseq x (stream_of x src) i \<longrightarrow> shift_ok (cell_of x (stream_of x src, i)))"

fun edit_ok :: "cache_config \<Rightarrow> nat \<Rightarrow> cache_edit \<Rightarrow> kv_cache \<Rightarrow> bool" where
  "edit_ok K N Edit_Clear x \<longleftrightarrow> True"
| "edit_ok K N (Edit_Rm sq p0 p1) x \<longleftrightarrow> sq = -1 \<or> known_seq x sq"
| "edit_ok K N (Edit_Cp src dst p0 p1) x \<longleftrightarrow> known_seq x src \<and> known_seq x dst \<and>
     (stream_of x src = stream_of x dst \<or> full_copy_ok K N src dst p0 p1 x)"
| "edit_ok K N (Edit_Keep sq) x \<longleftrightarrow> known_seq x sq"
| "edit_ok K N (Edit_Add sq p0 p1 m raw) x \<longleftrightarrow> known_seq x sq \<and> range_owned N x sq p0 p1 \<and>
     (if cc_text_mrope K then can_shift_qwen4_text_range K sq p0 p1 x else cc_n_pos_per_embd K = 1 \<and> \<not> raw)"
| "edit_ok K N (Edit_Div sq p0 p1 m) x \<longleftrightarrow> known_seq x sq \<and> range_owned N x sq p0 p1 \<and>
     cc_n_pos_per_embd K = 1 \<and> 0 < m"

text \<open>What an edit does to the cell \<open>i\<close> of stream \<open>s\<close>.\<close>

fun edit_cells :: "cache_config \<Rightarrow> cache_edit \<Rightarrow> kv_cache \<Rightarrow> nat \<Rightarrow> nat \<Rightarrow> cell_state" where
  "edit_cells K Edit_Clear x s i = no_cell"
| "edit_cells K (Edit_Rm sq p0 p1) x s i =
     (if sq < 0 then cell_drop (range_from p0 p1) (range_to p0 p1) (cell_of x (s, i))
      else if s = stream_of x sq then cell_rm (nat sq) (range_from p0 p1) (range_to p0 p1) (cell_of x (s, i))
      else cell_of x (s, i))"
| "edit_cells K (Edit_Cp src dst p0 p1) x s i =
     (if s \<noteq> stream_of x dst then cell_of x (s, i)
      else if stream_of x src = s then cell_cp (nat src) (nat dst) (range_from p0 p1) (range_to p0 p1) (cell_of x (s, i))
      else cell_copy (nat src) (nat dst) (cell_of x (stream_of x src, i)))"
| "edit_cells K (Edit_Keep sq) x s i =
     (if s = stream_of x sq then cell_keep (nat sq) (cell_of x (s, i)) else cell_of x (s, i))"
| "edit_cells K (Edit_Add sq p0 p1 m raw) x s i =
     (if s = stream_of x sq then cell_add (nat sq) (range_from p0 p1) (range_to p0 p1) m
         (\<not> (cc_text_mrope K \<and> raw)) (cc_text_mrope K) (cell_of x (s, i))
      else cell_of x (s, i))"
| "edit_cells K (Edit_Div sq p0 p1 m) x s i =
     (if s = stream_of x sq then cell_div (nat sq) (range_from p0 p1) (range_to p0 p1) m (cell_of x (s, i))
      else cell_of x (s, i))"

lemma edit_step_exact:
  assumes inv: "cache_inv K N x" and sync: "in_sync K N x" and left: "epochs_left K x" and own: "\<not> cc_other K"
    and tracking: "kc_ownership x = None \<or> cc_armed K" and ok: "edit_ok K N e x"
  shows "\<exists>y. run_edit K e x = Some y \<and> edit_done K N x y \<and>
    (\<forall>s < cc_n_stream K. \<forall>i < N. cell_of y (s, i) = edit_cells K e x s i)"
proof (cases e)
  case Edit_Clear
  then show ?thesis using clear_done [OF inv sync left] by simp
next
  case (Edit_Rm sq p0 p1)
  show ?thesis
  proof (cases "sq = -1")
    case True
    then show ?thesis
      using seq_rm_all_done [OF inv sync left own, of p0 p1] by (auto simp: Edit_Rm streams_map_def)
  next
    case False
    then have "0 \<le> sq" "nat sq < length (kc_seq_to_stream x)" using ok by (simp_all add: Edit_Rm known_seq_def)
    from seq_rm_done [OF inv sync left own this, of p0 p1] this(1) show ?thesis
      by (auto simp: Edit_Rm stream_map_def)
  qed
next
  case (Edit_Cp src dst p0 p1)
  then have seqs: "0 \<le> src" "nat src < length (kc_seq_to_stream x)" "0 \<le> dst" "nat dst < length (kc_seq_to_stream x)"
    using ok by (simp_all add: known_seq_def)
  show ?thesis
  proof (cases "stream_of x src = stream_of x dst")
    case True
    from seq_cp_done [OF inv sync left own seqs this, of p0 p1] True show ?thesis
      by (auto simp: Edit_Cp stream_map_def)
  next
    case False
    then have full: "full_copy_ok K N src dst p0 p1 x" using ok by (simp add: Edit_Cp)
    then have "kc_ownership x = None" "\<not> cc_armed K" using tracking by (simp_all add: full_copy_ok_def)
    from seq_cp_streams_done [OF inv this left own seqs False, of p0 p1] full False show ?thesis
      by (auto simp: Edit_Cp full_copy_ok_def)
  qed
next
  case (Edit_Keep sq)
  then show ?thesis
    using seq_keep_done [OF inv sync left own, of sq] ok by (auto simp: known_seq_def stream_map_def)
next
  case (Edit_Add sq p0 p1 m raw)
  then have add: "0 \<le> sq" "nat sq < length (kc_seq_to_stream x)"
      "if cc_text_mrope K then can_shift_qwen4_text_range K sq p0 p1 x else cc_n_pos_per_embd K = 1 \<and> \<not> raw"
      "\<And>i. i < N \<Longrightarrow> owned_alone (nat sq) (range_from p0 p1) (range_to p0 p1) (cell_of x (stream_of x sq, i))"
    using ok unfolding Edit_Add edit_ok.simps known_seq_def range_owned_def by blast+
  from seq_add_done [OF inv sync left own add, of m] show ?thesis
    by (auto simp: Edit_Add stream_map_def)
next
  case (Edit_Div sq p0 p1 m)
  then show ?thesis
    using seq_div_done [OF inv sync left own, of sq m p0 p1] ok
    by (auto simp: known_seq_def range_owned_def stream_map_def)
qed

section \<open>Runs\<close>

inductive cache_step :: "cache_config \<Rightarrow> nat \<Rightarrow> kv_cache \<Rightarrow> kv_cache \<Rightarrow> bool" for K N where
  edit: "epochs_left K x \<Longrightarrow> edit_ok K N e x \<Longrightarrow> run_edit K e x = Some y \<Longrightarrow> cache_step K N x y"
| batch: "epochs_left K x \<Longrightarrow> slot_fits K N x si ub n \<Longrightarrow> apply_ubatch K si ub True x = Some y \<Longrightarrow> cache_step K N x y"

definition cache_ok :: "cache_config \<Rightarrow> nat \<Rightarrow> kv_cache \<Rightarrow> bool" where
  "cache_ok K N x \<longleftrightarrow> cache_inv K N x \<and> in_sync K N x \<and> \<not> cc_other K \<and> (kc_ownership x = None \<or> cc_armed K) \<and>
     length (kc_seq_epochs x) = LLAMA_MAX_SEQ \<and> (\<forall>e \<in> set (kc_seq_epochs x). e \<le> kc_ckpt_epoch x)"

lemma cache_step_done:
  assumes "cache_step K N x y" and ok: "cache_ok K N x"
  shows "step_done K N x y"
  using assms(1)
proof cases
  case (edit e)
  then show ?thesis
    using edit_step_exact [of K N x e] ok edit_step_done by (fastforce simp: cache_ok_def)
next
  case (batch si ub n)
  then show ?thesis
    using apply_ubatch_done [of K N x si ub n] ok by (auto simp: cache_ok_def)
qed

lemma epochs_after:
  assumes "same_epochs x y \<or> raised K A x y" and "length (kc_seq_epochs x) = LLAMA_MAX_SEQ"
    and "\<forall>e \<in> set (kc_seq_epochs x). e \<le> kc_ckpt_epoch x"
  shows "length (kc_seq_epochs y) = LLAMA_MAX_SEQ" "\<forall>e \<in> set (kc_seq_epochs y). e \<le> kc_ckpt_epoch y"
    "q < LLAMA_MAX_SEQ \<Longrightarrow> kc_seq_epochs x ! q \<le> kc_seq_epochs y ! q"
  using assms by (auto simp: same_epochs_def raised_def bump_def in_set_zip le_SucI split: if_splits)

lemma cache_step_ok:
  assumes "cache_step K N x y" and ok: "cache_ok K N x"
  shows "cache_ok K N y"
proof -
  have "step_done K N x y" by (rule cache_step_done [OF assms])
  then obtain A where "same_epochs x y \<or> raised K A x y" by (auto simp: step_done_def)
  from epochs_after(1,2) [OF this] \<open>step_done K N x y\<close> ok show ?thesis
    by (auto simp: cache_ok_def step_done_def)
qed

inductive cache_run :: "cache_config \<Rightarrow> nat \<Rightarrow> kv_cache \<Rightarrow> kv_cache \<Rightarrow> bool" for K N x where
  none: "cache_run K N x x"
| step: "cache_run K N x y \<Longrightarrow> cache_step K N y z \<Longrightarrow> cache_run K N x z"

section \<open>The contract of content epochs\<close>

text \<open>
  A client remembers the epoch of a sequence and later compares: equal epochs must mean that the rows
  it saw are still there. What the provider promises for one step holds for every run.
\<close>

locale content_epochs =
  fixes valid :: "'s \<Rightarrow> bool" and step :: "'s \<Rightarrow> 's \<Rightarrow> bool" and epoch :: "'s \<Rightarrow> nat \<Rightarrow> nat"
    and row :: "'s \<Rightarrow> nat \<Rightarrow> 'k \<Rightarrow> 'r option"
  assumes step_valid: "valid x \<Longrightarrow> step x y \<Longrightarrow> valid y"
    and step_grows: "valid x \<Longrightarrow> step x y \<Longrightarrow> epoch x q \<le> epoch y q"
    and step_sound: "valid x \<Longrightarrow> step x y \<Longrightarrow> epoch y q = epoch x q \<Longrightarrow> row x q k = Some v \<Longrightarrow> row y q k = Some v"
begin

lemma run_valid: "step\<^sup>*\<^sup>* x y \<Longrightarrow> valid x \<Longrightarrow> valid y"
  by (induction rule: rtranclp_induct) (auto intro: step_valid)

lemma run_grows: "step\<^sup>*\<^sup>* x y \<Longrightarrow> valid x \<Longrightarrow> epoch x q \<le> epoch y q"
  by (induction rule: rtranclp_induct) (auto intro: order_trans [OF _ step_grows] run_valid)

lemma run_sound: "step\<^sup>*\<^sup>* x y \<Longrightarrow> valid x \<Longrightarrow> epoch y q = epoch x q \<Longrightarrow> row x q k = Some v \<Longrightarrow> row y q k = Some v"
proof (induction rule: rtranclp_induct)
  case (step y z)
  have "valid y" by (rule run_valid [OF step.hyps(1) step.prems(1)])
  moreover have "epoch y q = epoch x q"
    using run_grows [OF step.hyps(1) step.prems(1), of q] step_grows [OF \<open>valid y\<close> step.hyps(2), of q] step.prems(2) by simp
  ultimately show ?case using step step_sound by simp
qed simp

end

definition seq_epoch :: "kv_cache \<Rightarrow> nat \<Rightarrow> nat" where
  "seq_epoch x q = (if q < LLAMA_MAX_SEQ then kc_seq_epochs x ! q else 0)"

definition seq_row :: "cache_config \<Rightarrow> nat \<Rightarrow> kv_cache \<Rightarrow> nat \<Rightarrow> nat \<times> nat \<Rightarrow> (int \<times> kv_cell_ext) option" where
  "seq_row K N x q k = (if fst k < cc_n_stream K \<and> snd k < N then cell_row q (cell_of x k) else None)"

lemma raised_epoch:
  assumes "raised K A x y" and "cc_vmm_budget K" and "length (kc_seq_epochs x) = LLAMA_MAX_SEQ" and "q \<in> A" and "q < LLAMA_MAX_SEQ"
  shows "kc_seq_epochs y ! q = kc_ckpt_epoch x + 1"
  using assms by (simp add: raised_def same_epochs_def bump_def)

lemma step_rows_sound:
  assumes ok: "cache_ok K N x" and budget: "cc_vmm_budget K" and step: "cache_step K N x y"
    and same: "seq_epoch y q = seq_epoch x q" and row: "seq_row K N x q k = Some v"
  shows "seq_row K N y q k = Some v"
proof -
  have range: "fst k < cc_n_stream K" "snd k < N" and v: "cell_row q (cell_of x k) = Some v"
    using row by (simp_all add: seq_row_def split: if_splits)
  have base: "cache_base K N x" using ok cache_invD(1) by (simp add: cache_ok_def)
  have q: "q < LLAMA_MAX_SEQ"
    using cell_row_absent [OF base range, of q] v by (cases "q < LLAMA_MAX_SEQ") simp_all
  have len: "length (kc_seq_epochs x) = LLAMA_MAX_SEQ" and old: "kc_seq_epochs x ! q \<le> kc_ckpt_epoch x"
    using ok q by (auto simp: cache_ok_def)
  have "step_done K N x y" by (rule cache_step_done [OF step ok])
  then obtain A where A: "rows_stay K N A x y" "same_epochs x y \<and> A = {} \<or> raised K A x y"
    by (auto simp: step_done_def)
  have "q \<notin> A"
  proof
    assume "q \<in> A"
    then have "kc_seq_epochs y ! q = kc_ckpt_epoch x + 1" using A(2) raised_epoch [OF _ budget len _ q] by blast
    with old same q show False by (simp add: seq_epoch_def)
  qed
  then show ?thesis
    using A(1) range v unfolding rows_stay_def seq_row_def by (cases k) auto
qed

interpretation cache_epochs: content_epochs "\<lambda>x. cache_ok K N x \<and> cc_vmm_budget K" "cache_step K N" seq_epoch "seq_row K N"
  for K N
proof
  fix x y q assume "cache_ok K N x \<and> cc_vmm_budget K" "cache_step K N x y"
  then show "seq_epoch x q \<le> seq_epoch y q"
    using cache_step_done epochs_after(3) [of x y K _ q] by (fastforce simp: step_done_def cache_ok_def seq_epoch_def)
qed (auto intro: cache_step_ok step_rows_sound)

lemma cache_run_rtranclp: "cache_run K N x y \<Longrightarrow> (cache_step K N)\<^sup>*\<^sup>* x y"
  by (induction rule: cache_run.induct) auto

end
