(* ===== verification/Slot_Properties.thy ===== *)
theory Slot_Properties
  imports Slot_Search Cache_Runs
begin

text \<open>
  The search for a slot on a cache: which cells it may take, that it always ends, that it fails only
  when there is no room, and that what it finds is a slot the batch can be placed in.
\<close>

section \<open>Reusable cells\<close>

definition masked :: "nat \<Rightarrow> swa_type \<Rightarrow> int \<Rightarrow> int \<Rightarrow> bool" where
  "masked n ty p0 p1 \<longleftrightarrow> (case ty of SWA_NONE \<Rightarrow> False
     | SWA_STANDARD \<Rightarrow> i32_of_u32 n \<le> p1 - p0
     | SWA_CHUNKED \<Rightarrow> p0 < (p1 div int n) * int n
     | SWA_SYMMETRIC \<Rightarrow> p1 - p0 < - (i32_of_u32 n sdiv 2) \<or> i32_of_u32 n sdiv 2 < p1 - p0)"

lemma is_masked_swa_eq: "0 \<le> p0 \<Longrightarrow> 0 \<le> p1 \<Longrightarrow> n \<noteq> 0 \<Longrightarrow> is_masked_swa n ty p0 p1 = Some (masked n ty p0 p1)"
  by (cases ty) (simp_all add: is_masked_swa_def masked_def Let_def)

definition latest :: "nat \<Rightarrow> kv_cache \<Rightarrow> nat \<Rightarrow> nat \<Rightarrow> int" where
  "latest N x s q = Max ((\<lambda>j. cpos x s j) ` {j. j < N \<and> q \<in> cseq x s j})"

definition reusable :: "cache_config \<Rightarrow> nat \<Rightarrow> kv_cache \<Rightarrow> nat \<Rightarrow> nat \<Rightarrow> bool" where
  "reusable K N x s i \<longleftrightarrow> cpos x s i = -1 \<or>
     cc_n_swa K \<noteq> 0 \<and> (\<forall>q \<in> cseq x s i. masked (cc_n_swa K) (cc_swa_type K) (cpos x s i) (latest N x s q + 1))"

lemma latest_eq:
  assumes "cache_base K N x" and "s < cc_n_stream K" and "i < N" and "q \<in> cseq x s i"
  shows "seq_pos_max q (stream_cells s x) = Some (latest N x s q)" "cpos x s i \<le> latest N x s q"
proof -
  let ?P = "(\<lambda>j. cpos x s j) ` {j. j < N \<and> q \<in> cseq x s j}"
  have fin: "finite ?P" by simp
  have max: "q < LLAMA_MAX_SEQ" using cache_baseD(5,10) [OF assms(1)] assms(2-4) by (meson less_le_trans)
  have size: "kv_size (stream_cells s x) = N" using cache_baseD(8) [OF assms(1,2)] by simp
  have found: "\<exists>p. seq_pos_max q (stream_cells s x) = Some p \<and> cpos x s j \<le> p \<and> p \<in> ?P"
    if "j < N" "q \<in> cseq x s j" for j
    using seq_pos_max_greatest [OF stream_cells_inv [OF assms(1,2)] max, of j] that size by auto
  then obtain p where p: "seq_pos_max q (stream_cells s x) = Some p" "p \<in> ?P" using assms(3,4) by blast
  have "Max ?P = p" by (rule Max_eqI [OF fin _ p(2)]) (use found p(1) in auto)
  then show "seq_pos_max q (stream_cells s x) = Some (latest N x s q)" using p(1) by (simp add: latest_def)
  show "cpos x s i \<le> latest N x s q" unfolding latest_def by (rule Max_ge [OF fin]) (use assms(3,4) in auto)
qed

lemma foldM_all:
  assumes "\<And>q. q \<in> set qs \<Longrightarrow> g q = Some (P q)"
  shows "foldM (\<lambda>q b. if \<not> b then Some False else g q) qs b = Some (b \<and> (\<forall>q \<in> set qs. P q))"
  using assms by (induction qs arbitrary: b) auto

lemma can_reuse_cell_eq:
  assumes base: "cache_base K N x" and s: "s < cc_n_stream K" and i: "i < N"
  shows "can_reuse_cell K s i x = Some (reusable K N x s i)"
proof (cases "cpos x s i = -1 \<or> cc_n_swa K = 0")
  case True
  then show ?thesis by (auto simp: can_reuse_cell_def cell_queries(7) [OF base s i] reusable_def Let_def)
next
  case False
  note ask = cell_queries [OF base s i]
  let ?qs = "filter (\<lambda>q. q \<in> cseq x s i) [0..<LLAMA_MAX_SEQ]"
  let ?P = "\<lambda>q. masked (cc_n_swa K) (cc_swa_type K) (cpos x s i) (latest N x s q + 1)"
  have p: "0 \<le> cpos x s i" using False cache_baseD(11) [OF base s i] by simp
  have one: "do { p \<leftarrow> pos_get i (stream_cells s x); m \<leftarrow> seq_pos_max q (stream_cells s x);
      is_masked_swa (cc_n_swa K) (cc_swa_type K) p (m + 1) } = Some (?P q)" if "q \<in> set ?qs" for q
  proof -
    have q: "q \<in> cseq x s i" using that by simp
    show ?thesis using False p ask(3) latest_eq [OF base s i q] by (simp add: is_masked_swa_eq)
  qed
  have "(\<forall>q \<in> set ?qs. ?P q) \<longleftrightarrow> (\<forall>q \<in> cseq x s i. ?P q)"
    using cache_baseD(10) [OF base s i] cache_baseD(5) [OF base] by (auto dest: less_le_trans)
  then show ?thesis
    using False foldM_all [of ?qs _ ?P True, OF one]
    by (simp add: can_reuse_cell_def Let_def ask(7,8) reusable_def del: set_filter)
qed

section \<open>The search in one stream\<close>

definition room :: "cache_config \<Rightarrow> nat \<Rightarrow> bool \<Rightarrow> nat \<Rightarrow> kv_cache \<Rightarrow> nat \<Rightarrow> bool" where
  "room K N cont n x s \<longleftrightarrow> (if cont then \<exists>p. window (reusable K N x s) N n p
     else n \<le> card {i. i < N \<and> reusable K N x s i})"

definition good_cells :: "cache_config \<Rightarrow> nat \<Rightarrow> bool \<Rightarrow> nat \<Rightarrow> kv_cache \<Rightarrow> nat \<Rightarrow> nat list \<Rightarrow> bool" where
  "good_cells K N cont n x s idxs \<longleftrightarrow> length idxs = n \<and> distinct idxs \<and>
     (\<forall>i \<in> set idxs. i < N \<and> reusable K N x s i) \<and> (cont \<longrightarrow> (\<exists>p. idxs = [p..<p + n]))"

lemma stream_search_exact:
  assumes base: "cache_base K N x" and s: "s < cc_n_stream K" and n: "0 < n" and N: "N < 2 ^ 30"
  shows "\<exists>r. stream_search K cont n s x = Some r \<and>
    (case r of Some idxs \<Rightarrow> good_cells K N cont n x s idxs | None \<Rightarrow> \<not> room K N cont n x s)"
proof -
  let ?u = "reusable K N x s" and ?ok = "\<lambda>i. can_reuse_cell K s i x"
  define h where "h = (if kc_heads x ! s > u32_nat (get_used (stream_cells s x) + u32_nat (2 * n)) then 0 else kc_heads x ! s)"
  have h: "h \<le> N" using cache_baseD(9) [OF base s] by (simp add: h_def)
  have ok: "?ok i = Some (?u i)" if "i < N" for i using can_reuse_cell_eq [OF base s that] .
  have size: "kv_size (stream_cells s x) = N" "s < length (kc_cells x)" "s < length (kc_heads x)"
    using s cache_baseD(1,2,8) [OF base] by simp_all
  have none: "\<not> room K N cont n x s" if "N < n"
  proof -
    have "card {i. i < N \<and> ?u i} \<le> card {..<N}" by (rule card_mono) auto
    then show ?thesis using that by (auto simp: room_def window_def)
  qed
  have run: "stream_search K cont n s x = (if N < n then Some None else do {
      r \<leftarrow> slot_search ?ok cont N n (if cont then n else 1) h 0 [];
      case r of None \<Rightarrow> Some None | Some idxs \<Rightarrow> if length idxs < n then Some None else Some (Some idxs) })"
    unfolding stream_search_def size(1) h_def [symmetric] Let_def using size(2,3) by simp
  show ?thesis
  proof (cases "N < n")
    case True
    then show ?thesis using run none by simp
  next
    case False
    show ?thesis
    proof (cases cont)
      case True
      have "passed ?u N n h 0 h" using h by (simp add: passed_def)
      from contiguous_search [where ok = ?ok and u = ?u, OF ok h N n _ this] False n
      obtain r where r: "slot_search ?ok True N n n h 0 [] = Some r"
          "case r of Some xs \<Rightarrow> (\<exists>p. window ?u N n p \<and> xs = [p..<p + n]) | None \<Rightarrow> (\<forall>p. \<not> window ?u N n p)"
        by auto
      then show ?thesis
        using True False run
        by (cases r) (auto simp: good_cells_def room_def window_def)
    next
      case scattered: False
      have "visiting h N 0 h" using h by (simp add: visiting_def)
      from scattered_search [where ok = ?ok and u = ?u and idxs = "[]" and n = n, OF ok h _ this] False n N
      obtain r where r: "slot_search ?ok False N n 1 h 0 [] = Some r"
          "case r of Some xs \<Rightarrow> length xs = n \<and> (\<exists>k \<le> N. xs = filter ?u (take k (visit_order h N)))
           | None \<Rightarrow> card {i. i < N \<and> ?u i} < n"
        by auto
      show ?thesis
      proof (cases r)
        case None
        then show ?thesis using scattered False run r by (simp add: room_def)
      next
        case (Some idxs)
        then obtain k where k: "length idxs = n" "idxs = filter ?u (take k (visit_order h N))" using r(2) by auto
        have "distinct idxs" "\<forall>i \<in> set idxs. i < N \<and> ?u i"
          using visit_order_facts(2,3) [OF h] set_take_subset [of k "visit_order h N"] by (auto simp: k(2))
        then show ?thesis using scattered False run r(1) Some k(1) by (simp add: good_cells_def)
      qed
    qed
  qed
qed

section \<open>The slot of a batch\<close>

definition slot_seqs :: "cache_config \<Rightarrow> ubatch \<Rightarrow> nat list" where
  "slot_seqs K ub = take (if cc_n_stream K > 1 then length (ub_seq_id_unq ub) else 1) (ub_seq_id_unq ub)"

text \<open>A batch as the splitter makes it: equally many tokens per sequence, each sequence in a stream of its own.\<close>

definition batch_ok :: "cache_config \<Rightarrow> kv_cache \<Rightarrow> ubatch \<Rightarrow> nat \<Rightarrow> bool" where
  "batch_ok K x ub n \<longleftrightarrow> 0 < n \<and> ub_seq_id_unq ub \<noteq> [] \<and> ub_n_tokens ub = length (slot_seqs K ub) * n \<and>
     distinct (map (\<lambda>q. kc_seq_to_stream x ! q) (slot_seqs K ub)) \<and>
     (\<forall>a < length (slot_seqs K ub). slot_seqs K ub ! a < length (kc_seq_to_stream x) \<and>
        (cc_n_stream K > 1 \<longrightarrow> a * n < length (ub_seq_id ub) \<and> ub_seq_id ub ! (a * n) = [slot_seqs K ub ! a]) \<and>
        (\<forall>b < n. token_ok x ub (kc_seq_to_stream x ! (slot_seqs K ub ! a)) (a * n + b)))"

definition slot_found :: "cache_config \<Rightarrow> nat \<Rightarrow> bool \<Rightarrow> nat \<Rightarrow> kv_cache \<Rightarrow> nat list \<Rightarrow> slot_info \<Rightarrow> bool" where
  "slot_found K N cont n x qs si \<longleftrightarrow> si_strm si = map (\<lambda>q. kc_seq_to_stream x ! q) qs \<and>
     length (si_idxs si) = length qs \<and>
     (\<forall>a < length qs. good_cells K N cont n x (kc_seq_to_stream x ! (qs ! a)) (si_idxs si ! a))"

lemma slot_found_snoc:
  assumes "slot_found K N cont n x qs si" and "good_cells K N cont n x (kc_seq_to_stream x ! q) idxs"
  shows "slot_found K N cont n x (qs @ [q])
    (si\<lparr> si_s0 := a, si_s1 := b, si_strm := si_strm si @ [kc_seq_to_stream x ! q], si_idxs := si_idxs si @ [idxs] \<rparr>)"
  using assms by (auto simp: slot_found_def nth_append less_Suc_eq)

lemma find_streams_exact:
  assumes base: "cache_base K N x" and n: "0 < n" and N: "N < 2 ^ 30"
    and "slot_found K N cont n x done si" and "length done = k"
    and "\<forall>a < length qs. qs ! a < length (kc_seq_to_stream x) \<and>
      (cc_n_stream K > 1 \<longrightarrow> (k + a) * n < length (ub_seq_id ub) \<and> ub_seq_id ub ! ((k + a) * n) = [qs ! a])"
  shows "\<exists>r. find_streams K ub cont n x qs k si = Some r \<and>
    (slot_found K N cont n x (done @ qs) r \<or>
     r = no_slot \<and> (\<exists>q \<in> set qs. \<not> room K N cont n x (kc_seq_to_stream x ! q)))"
  using assms(4-)
proof (induction qs arbitrary: "done" k si)
  case (Cons q qs)
  let ?s = "kc_seq_to_stream x ! q"
  have q: "q < length (kc_seq_to_stream x)" "cc_n_stream K > 1 \<longrightarrow> k * n < length (ub_seq_id ub) \<and> ub_seq_id ub ! (k * n) = [q]"
    using Cons.prems(3) [rule_format, of 0] by simp_all
  have s: "?s < cc_n_stream K" using cache_baseD(6) [OF base q(1)] .
  have stream: "seq_stream x (int q) = Some ?s" using q(1) by (simp add: seq_stream_def)
  obtain r where r: "stream_search K cont n ?s x = Some r"
      "case r of Some idxs \<Rightarrow> good_cells K N cont n x ?s idxs | None \<Rightarrow> \<not> room K N cont n x ?s"
    using stream_search_exact [OF base s n N] by blast
  show ?case
  proof (cases r)
    case None
    then show ?thesis using q(2) stream r by auto
  next
    case (Some idxs)
    define si' where "si' = si\<lparr> si_s0 := min (si_s0 si) ?s, si_s1 := max (si_s1 si) ?s,
        si_strm := si_strm si @ [?s], si_idxs := si_idxs si @ [idxs] \<rparr>"
    have found: "slot_found K N cont n x (done @ [q]) si'"
      unfolding si'_def using slot_found_snoc [OF Cons.prems(1)] r(2) Some by simp
    have rest: "\<forall>a < length qs. qs ! a < length (kc_seq_to_stream x) \<and>
        (cc_n_stream K > 1 \<longrightarrow> (k + 1 + a) * n < length (ub_seq_id ub) \<and> ub_seq_id ub ! ((k + 1 + a) * n) = [qs ! a])"
      using Cons.prems(3) by (metis Suc_less_eq add.assoc length_Cons nth_Cons_Suc plus_1_eq_Suc)
    have "find_streams K ub cont n x (q # qs) k si = find_streams K ub cont n x qs (k + 1) si'"
      using q(2) stream r(1) Some by (auto simp: si'_def)
    with Cons.IH [OF found _ rest] Cons.prems(2) show ?thesis by auto
  qed
qed simp

lemma slot_found_fits:
  assumes base: "cache_base K N x" and batch: "batch_ok K x ub n" and found: "slot_found K N cont n x (slot_seqs K ub) si"
  shows "slot_fits K N x si ub n"
proof -
  let ?qs = "slot_seqs K ub"
  have qs: "?qs \<noteq> []" using batch by (auto simp: batch_ok_def slot_seqs_def)
  have len: "length (si_strm si) = length ?qs" "length (si_idxs si) = length ?qs"
    using found by (simp_all add: slot_found_def)
  have strm: "si_strm si ! a = kc_seq_to_stream x ! (?qs ! a)" if "a < length ?qs" for a
    using found that by (simp add: slot_found_def)
  have good: "length (si_idxs si ! a) = n" "distinct (si_idxs si ! a)" "\<forall>i \<in> set (si_idxs si ! a). i < N" if "a < length ?qs" for a
    using found that by (auto simp: slot_found_def good_cells_def)
  have inj: "inj_on (slot_key si) ({..<length (si_strm si)} \<times> {..<n})"
  proof (rule inj_onI)
    fix e f assume ef: "e \<in> {..<length (si_strm si)} \<times> {..<n}" "f \<in> {..<length (si_strm si)} \<times> {..<n}"
      "slot_key si e = slot_key si f"
    obtain a b c d where "e = (a, b)" "f = (c, d)" by (metis prod.exhaust)
    with ef have *: "a < length (si_strm si)" "c < length (si_strm si)" "b < n" "d < n"
      "slot_key si (a, b) = slot_key si (c, d)" by auto
    have "distinct (si_strm si)" using batch found by (simp add: batch_ok_def slot_found_def)
    then have "a = c" using * nth_eq_iff_index_eq by (fastforce simp: slot_key_def)
    moreover from this have "b = d" using * good [of a] nth_eq_iff_index_eq len by (fastforce simp: slot_key_def)
    ultimately show "e = f" using \<open>e = (a, b)\<close> \<open>f = (c, d)\<close> by simp
  qed
  have "si_strm si ! a < cc_n_stream K" if "a < length ?qs" for a
    using strm [OF that] batch that cache_baseD(6) [OF base] by (simp add: batch_ok_def)
  then show ?thesis
    using qs len good strm inj batch unfolding slot_fits_def batch_ok_def by auto
qed

lemma find_slot_run:
  assumes "batch_ok K x ub n"
  shows "find_slot K ub cont x = find_streams K ub cont n x (slot_seqs K ub) 0
    \<lparr> si_s0 = LLAMA_MAX_SEQ, si_s1 = 0, si_strm = [], si_idxs = [] \<rparr>"
  using assms by (auto simp: find_slot_def batch_ok_def slot_seqs_def Let_def Suc_le_eq)

lemma find_slot_outcome:
  assumes "cache_base K N x" and "N < 2 ^ 30" and "batch_ok K x ub n"
  shows "\<exists>si. find_slot K ub cont x = Some si \<and>
    (if slot_empty si then \<exists>q \<in> set (slot_seqs K ub). \<not> room K N cont n x (kc_seq_to_stream x ! q)
     else slot_found K N cont n x (slot_seqs K ub) si \<and> slot_fits K N x si ub n)"
proof -
  let ?qs = "slot_seqs K ub" and ?si = "\<lparr> si_s0 = LLAMA_MAX_SEQ, si_s1 = 0, si_strm = [], si_idxs = [] \<rparr>"
  have n: "0 < n" and qs: "?qs \<noteq> []" using assms(3) by (auto simp: batch_ok_def slot_seqs_def)
  have start: "slot_found K N cont n x [] ?si" by (simp add: slot_found_def)
  have "\<forall>a < length ?qs. ?qs ! a < length (kc_seq_to_stream x) \<and>
      (cc_n_stream K > 1 \<longrightarrow> (0 + a) * n < length (ub_seq_id ub) \<and> ub_seq_id ub ! ((0 + a) * n) = [?qs ! a])"
    using assms(3) by (simp add: batch_ok_def)
  from find_streams_exact [OF assms(1) n assms(2) start _ this] obtain r where
      r: "find_slot K ub cont x = Some r" "slot_found K N cont n x ?qs r \<or>
        r = no_slot \<and> (\<exists>q \<in> set ?qs. \<not> room K N cont n x (kc_seq_to_stream x ! q))"
    by (auto simp: find_slot_run [OF assms(3)])
  have "\<not> slot_empty r" if "slot_found K N cont n x ?qs r"
    using that qs by (auto simp: slot_empty_def slot_found_def)
  moreover have "slot_empty no_slot" by (simp add: slot_empty_def no_slot_def)
  ultimately show ?thesis using r slot_found_fits [OF assms(1) assms(3)] by metis
qed

end
