(* ===== verification/Cache_Sharing.thy ===== *)
theory Cache_Sharing
  imports Cache_Runs
begin

text \<open>
  Sharing the rows of a prefix with an empty sequence: when the checks allow it, and what the two
  sequences hold afterwards.
\<close>

section \<open>The checks\<close>

definition sharable :: "cache_config \<Rightarrow> nat \<Rightarrow> int \<Rightarrow> int \<Rightarrow> kv_cache \<Rightarrow> bool" where
  "sharable K N src dst x \<longleftrightarrow> cc_n_stream K = 1 \<and> src \<noteq> dst \<and> known_seq x src \<and> known_seq x dst \<and>
     nat src < cc_n_seq_max K \<and> nat dst < cc_n_seq_max K \<and> \<not> kv_has_shift (kc_cells x ! 0) \<and>
     (\<forall>k. seq_row K N x (nat dst) k = None)"

text \<open>Every position of the range is held by exactly one cell of the sequence.\<close>

definition range_held :: "cache_config \<Rightarrow> nat \<Rightarrow> kv_cache \<Rightarrow> nat \<Rightarrow> int \<Rightarrow> int \<Rightarrow> bool" where
  "range_held K N x q p0 p1 \<longleftrightarrow> (\<forall>p. p0 \<le> p \<and> p < p1 \<longrightarrow> (\<exists>!k. map_option fst (seq_row K N x q k) = Some p))"

lemma cell_row_some: "cell_row q (p, qs, e, d) = (if q \<in> qs then Some (p, e) else None)"
  by (simp add: cell_row_def)

lemma seq_row_cell: "fst k < cc_n_stream K \<Longrightarrow> snd k < N \<Longrightarrow>
    seq_row K N x q k = (if q \<in> cseq x (fst k) (snd k) then Some (cpos x (fst k) (snd k), cext x (fst k) (snd k)) else None)"
  by (cases k) (simp add: seq_row_def cell_of_def cell_row_some)

lemma seq_pos_min_absent:
  assumes "cache_base K N x" and "0 < cc_n_stream K" and "q < LLAMA_MAX_SEQ"
  shows "\<exists>p. seq_pos_min q (stream_cells 0 x) = Some p \<and> (p = -1 \<longleftrightarrow> (\<forall>i < N. q \<notin> cseq x 0 i))"
proof (cases "\<exists>i < N. q \<in> cseq x 0 i")
  case True
  then obtain i where i: "i < N" "q \<in> cseq x 0 i" by blast
  have size: "kv_size (stream_cells 0 x) = N" using cache_baseD(8) [OF assms(1,2)] by simp
  obtain p j where p: "seq_pos_min q (stream_cells 0 x) = Some p" "j < N" "q \<in> cseq x 0 j" "cpos x 0 j = p"
    using seq_pos_min_least [OF stream_cells_inv [OF assms(1,2)] assms(3), of i] i size by auto
  have "cpos x 0 j \<noteq> -1" using cache_baseD(12) [OF assms(1,2) p(2)] p(3) by auto
  with p(1,4) i show ?thesis by auto
next
  case False
  then have "kv_seq_pos (stream_cells 0 x) q = {}"
    using seq_pos_cells [OF stream_cells_inv [OF assms(1,2)]] cache_baseD(8) [OF assms(1,2)] by auto
  then show ?thesis using False assms(3) by (simp add: seq_pos_min_def)
qed

lemma can_share_destination_exact:
  assumes "cache_base K N x" and "\<not> cc_other K"
  shows "can_share_destination K src dst x = Some (sharable K N src dst x)"
proof (cases "cc_n_stream K = 1 \<and> src \<noteq> dst \<and> known_seq x src \<and> known_seq x dst \<and> nat src < cc_n_seq_max K \<and> nat dst < cc_n_seq_max K")
  case True
  have dst: "nat dst < LLAMA_MAX_SEQ" using True cache_baseD(5) [OF assms(1)] by (simp add: known_seq_def)
  obtain p where p: "seq_pos_min (nat dst) (stream_cells 0 x) = Some p" "p = -1 \<longleftrightarrow> (\<forall>i < N. nat dst \<notin> cseq x 0 i)"
    using seq_pos_min_absent [OF assms(1) _ dst] True by auto
  have "(\<forall>i < N. nat dst \<notin> cseq x 0 i) \<longleftrightarrow> (\<forall>k. seq_row K N x (nat dst) k = None)"
  proof
    assume none: "\<forall>k. seq_row K N x (nat dst) k = None"
    show "\<forall>i < N. nat dst \<notin> cseq x 0 i"
    proof (intro allI impI)
      fix i assume "i < N"
      then show "nat dst \<notin> cseq x 0 i"
        using none [THEN spec, of "(0, i)"] True seq_row_cell [of "(0, i)" K N x "nat dst"] by (auto split: if_splits)
    qed
  qed (auto simp: seq_row_def cell_row_def cell_of_def True)
  with True p assms(2) show ?thesis
    by (simp add: can_share_destination_def sharable_def known_seq_def)
next
  case False
  then have "cc_n_stream K \<noteq> 1 \<or> src = dst \<or> src < 0 \<or> dst < 0 \<or> nat src \<ge> cc_n_seq_max K \<or> nat dst \<ge> cc_n_seq_max K \<or>
      nat src \<ge> length (kc_seq_to_stream x) \<or> nat dst \<ge> length (kc_seq_to_stream x)"
    unfolding known_seq_def by linarith
  moreover have "\<not> sharable K N src dst x" using False by (auto simp: sharable_def)
  ultimately show ?thesis by (simp only: can_share_destination_def simp_thms if_True)
qed

lemma range_held_cells:
  assumes "cc_n_stream K = 1"
  shows "range_held K N x q p0 p1 \<longleftrightarrow>
    (\<forall>p. p0 \<le> p \<and> p < p1 \<longrightarrow> (\<exists>!i. i < N \<and> q \<in> cseq x 0 i \<and> cpos x 0 i = p))"
proof -
  have row: "map_option fst (seq_row K N x q k) = Some p \<longleftrightarrow>
      fst k = 0 \<and> snd k < N \<and> q \<in> cseq x 0 (snd k) \<and> cpos x 0 (snd k) = p" for k p
    using assms seq_row_cell [of k K N x q] by (cases "snd k < N"; cases "fst k = 0") (auto simp: seq_row_def)
  have "(\<exists>!k :: nat \<times> nat. fst k = 0 \<and> P (snd k)) \<longleftrightarrow> (\<exists>!i. P i)" for P :: "nat \<Rightarrow> bool"
    by (metis prod.collapse prod.sel)
  from this [of "\<lambda>i. i < N \<and> q \<in> cseq x 0 i \<and> cpos x 0 i = p" for p] show ?thesis
    by (simp only: range_held_def row)
qed

lemma can_share_range_exact:
  assumes "cache_base K N x" and "\<not> cc_other K"
  shows "can_share_range K src dst p0 p1 x =
    Some (0 \<le> p0 \<and> p0 < p1 \<and> sharable K N src dst x \<and> range_held K N x (nat src) p0 p1)"
proof (cases "0 \<le> p0 \<and> p0 < p1 \<and> sharable K N src dst x")
  case True
  then have K: "cc_n_stream K = 1" "nat src < LLAMA_MAX_SEQ" "0 < cc_n_stream K"
    using cache_baseD(5) [OF assms(1)] by (simp_all add: sharable_def known_seq_def)
  show ?thesis
    using True seq_has_range_exact [OF stream_cells_inv [OF assms(1) K(3)] K(2), of p0 p1] cache_baseD(8) [OF assms(1) K(3)]
    by (simp add: can_share_range_def can_share_destination_exact [OF assms] range_held_cells [OF K(1)])
next
  case False
  then show ?thesis by (auto simp: can_share_range_def can_share_destination_exact [OF assms])
qed

section \<open>The copy\<close>

definition trimmed :: "int \<Rightarrow> (int \<times> kv_cell_ext) option \<Rightarrow> (int \<times> kv_cell_ext) option" where
  "trimmed n r = (case r of Some (p, e) \<Rightarrow> if p < n then Some (p, e) else None | None \<Rightarrow> None)"

lemma cell_cp_dst:
  "0 \<le> fst v \<or> fst (snd v) = {} \<Longrightarrow> dst \<notin> fst (snd v) \<Longrightarrow> src \<noteq> dst \<Longrightarrow>
    cell_row dst (cell_cp src dst 0 n v) = trimmed n (cell_row src v)"
  by (auto simp: cell_cp_def cell_row_def trimmed_def split: prod.splits)

lemma share_copied:
  assumes ok: "cache_ok K N x" and left: "epochs_left K x" and share: "sharable K N src dst x" and n: "0 \<le> n"
  shows "\<exists>y. share_checked_range K src dst 0 n x = Some (True, y) \<and> cache_ok K N y \<and>
    (\<forall>q k. seq_row K N y q k = (if q = nat dst then trimmed n (seq_row K N x (nat src) k) else seq_row K N x q k))"
proof -
  have inv: "cache_inv K N x" "in_sync K N x" "\<not> cc_other K" using ok by (simp_all add: cache_ok_def)
  note base = cache_invD(1) [OF inv(1)]
  have seqs: "0 \<le> src" "nat src < length (kc_seq_to_stream x)" "0 \<le> dst" "nat dst < length (kc_seq_to_stream x)"
    and ne: "nat src \<noteq> nat dst" and K: "cc_n_stream K = 1"
    using share by (auto simp: sharable_def known_seq_def)
  have zero: "kc_seq_to_stream x ! q = 0" if "q < length (kc_seq_to_stream x)" for q
    using cache_baseD(6) [OF base that] K by simp
  have eq: "kc_seq_to_stream x ! nat src = kc_seq_to_stream x ! nat dst" using zero seqs by simp
  have range: "range_from 0 n = 0" "range_to 0 n = n" using n by (simp_all add: normalize_edit_range_def)
  obtain y where y: "seq_cp K src dst 0 n x = Some y"
      "cell_of y = stream_map 0 N (cell_cp (nat src) (nat dst) 0 n) (cell_of x)"
    using seq_cp_done [OF inv(1,2) left inv(3) seqs eq, of 0 n] zero [OF seqs(4)] by (auto simp: range)
  have "edit_ok K N (Edit_Cp src dst 0 n) x" using seqs eq by (simp add: known_seq_def)
  then have step: "cache_step K N x y" using y(1) by (intro cache_step.edit [OF left, of _ "Edit_Cp src dst 0 n"]) simp_all
  have row: "seq_row K N y q k = (if q = nat dst then trimmed n (seq_row K N x (nat src) k) else seq_row K N x q k)" for q k
  proof (cases "fst k < cc_n_stream K \<and> snd k < N")
    case True
    then have k: "k = (0, snd k)" "snd k < N" using K by (cases k; simp)+
    have v: "cell_of y (0, snd k) = cell_cp (nat src) (nat dst) 0 n (cell_of x (0, snd k))"
      using k(2) by (simp add: y(2) stream_map_def)
    have "0 \<le> cpos x 0 (snd k) \<or> cseq x 0 (snd k) = {}"
      using cache_baseD(11) [OF base _ k(2), of 0] cache_invD(2) [OF inv(1) _ k(2), of 0] K by force
    moreover have "nat dst \<notin> cseq x 0 (snd k)"
    proof -
      have "seq_row K N x (nat dst) (0, snd k) = None" using share by (simp add: sharable_def)
      then show ?thesis using seq_row_cell [of "(0, snd k)" K N x "nat dst"] K k(2) by (auto split: if_splits)
    qed
    ultimately have "cell_row (nat dst) (cell_of y (0, snd k)) = trimmed n (cell_row (nat src) (cell_of x (0, snd k)))"
      unfolding v using ne by (intro cell_cp_dst) (simp_all add: cell_of_def)
    moreover have "q \<noteq> nat dst \<Longrightarrow> cell_row q (cell_of y (0, snd k)) = cell_row q (cell_of x (0, snd k))"
      unfolding v by (rule cell_cp_row)
    ultimately show ?thesis using k K by (subst (1 2 3) k(1)) (auto simp: seq_row_def trimmed_def)
  next
    case False
    then show ?thesis by (auto simp: seq_row_def trimmed_def)
  qed
  have "share_checked_range K src dst 0 n x = Some (True, y)" by (simp add: share_checked_range_def y(1))
  with row cache_step_ok [OF step ok] show ?thesis by blast
qed

lemma try_share_exact:
  assumes ok: "cache_ok K N x" and left: "epochs_left K x"
    and can: "can = Some (allowed \<and> sharable K N src dst x)" and n: "allowed \<longrightarrow> 0 \<le> n"
  shows "\<exists>b y. try_share K can src dst n x = Some (b, y) \<and> cache_ok K N y \<and> (b \<longleftrightarrow> allowed \<and> sharable K N src dst x) \<and>
    (\<forall>q k. seq_row K N y q k = (if b \<and> q = nat dst then trimmed n (seq_row K N x (nat src) k) else seq_row K N x q k))"
proof (cases "allowed \<and> sharable K N src dst x")
  case True
  then show ?thesis using share_copied [OF ok left, of src dst n] n by (auto simp: try_share_def can)
next
  case False
  then have "try_share K can src dst n x = Some (False, x)" by (simp only: try_share_def can) simp
  with ok False show ?thesis by auto
qed

end
