(* ===== verification/Cache_Planning.thy ===== *)
theory Cache_Planning
  imports Slot_Properties Kv_Properties
begin

text \<open>
  Planning a sequence of batches: each batch is placed for real, so that the search for the next one
  sees it, and the journal of the cells it can touch brings every cell and head back afterwards.
\<close>

section \<open>Saving and restoring listed cells\<close>

lemma cp_idxs_eq:
  assumes inv: "kv_inv c" and idxs: "\<forall>i \<in> set idxs. i < kv_size c \<and> kv_shift c ! i = 0"
  shows "\<exists>sn. kv_cp_idxs idxs c = Some (sn, c\<lparr> kv_glob := kv_glob c + 2 \<rparr>) \<and> snap_ok sn \<and> kv_size sn = length idxs \<and>
    (\<forall>k < length idxs. cell_meta sn k = cell_meta c (idxs ! k))"
proof -
  define sn where "sn = (kv_resize (length idxs) (kv_fresh (kv_glob c)))\<lparr>
      kv_pos := map (\<lambda>j. kv_pos c ! (idxs ! j)) [0..<length idxs],
      kv_ext := map (\<lambda>j. kv_ext c ! (idxs ! j)) [0..<length idxs],
      kv_seq := map (\<lambda>j. kv_seq c ! (idxs ! j)) [0..<length idxs] \<rparr>"
  have "kv_cp_idxs idxs c = Some (sn, c\<lparr> kv_glob := kv_glob c + 2 \<rparr>)"
    using idxs
    by (simp add: kv_cp_idxs_def Let_def fresh_cells glob_fresh sn_def
        cp_loop [where f = "\<lambda>j. idxs ! j" and n = "length idxs" and m = "length idxs"])
  moreover have "snap_ok sn"
    using kv_invD(5,6,7) [OF inv] idxs nth_mem by (simp add: snap_ok_def sn_def)
  ultimately show ?thesis by (auto simp: sn_def cell_meta_def)
qed

lemma set_idxs_loop:
  assumes inv: "kv_inv d" and sn: "snap_ok sn" and len: "length idxs = kv_size sn" and dist: "distinct idxs"
    and idxs: "\<forall>i \<in> set idxs. i < kv_size d \<and> kv_shift d ! i = 0" and m: "m \<le> length idxs"
  shows "\<exists>d'. foldM (\<lambda>j. set_cell sn (idxs ! j) j) [0..<m] d = Some d' \<and> kv_inv d' \<and>
    kv_size d' = kv_size d \<and> kv_shift d' = kv_shift d \<and>
    (\<forall>k < m. cell_meta d' (idxs ! k) = cell_meta sn k) \<and> (\<forall>i. i \<notin> set (take m idxs) \<longrightarrow> cell_meta d' i = cell_meta d i)"
  using m
proof (induction m)
  case 0
  then show ?case using inv by auto
next
  case (Suc m)
  let ?i = "idxs ! m"
  from Suc obtain d1 where d1: "foldM (\<lambda>j. set_cell sn (idxs ! j) j) [0..<m] d = Some d1" "kv_inv d1"
      "kv_size d1 = kv_size d" "kv_shift d1 = kv_shift d" "\<And>k. k < m \<Longrightarrow> cell_meta d1 (idxs ! k) = cell_meta sn k"
      "\<And>i. i \<notin> set (take m idxs) \<Longrightarrow> cell_meta d1 i = cell_meta d i"
    by auto
  let ?d2 = "touch ?i (kv_upd ?i (kv_pos sn ! m) (kv_seq sn ! m) (kv_ext sn ! m) (kv_shift d1 ! ?i) d1)"
  have range: "?i < kv_size d1" "m < kv_size sn" "kv_shift d ! ?i = 0" using Suc.prems idxs len d1(3) by auto
  then have "set_cell sn ?i m d1 = Some ?d2"
    by (simp add: set_cell_eq [OF d1(2) range(1) sn range(2)] d1(4))
  moreover have "kv_inv ?d2"
    using sn range d1(2) by (auto intro!: kv_inv_touch kv_inv_upd simp: snap_ok_def)
  moreover have meta: "cell_meta ?d2 i = (if i = ?i then cell_meta sn m else cell_meta d1 i)" for i
    using range kv_invD(1,3) [OF d1(2)] by (auto simp: cell_meta_def nth_list_update_if)
  moreover have "idxs ! k \<noteq> ?i" if "k < m" for k
    using dist that Suc.prems by (simp add: nth_eq_iff_index_eq)
  moreover have "set (take (Suc m) idxs) = insert ?i (set (take m idxs))"
    using Suc.prems by (simp add: take_Suc_conv_app_nth)
  ultimately show ?case
    using d1 list_update_id [of "kv_shift d1" ?i] by (auto simp: foldM_append less_Suc_eq)
qed

section \<open>Journals\<close>

definition unshifted :: "cache_config \<Rightarrow> nat \<Rightarrow> kv_cache \<Rightarrow> bool" where
  "unshifted K N x \<longleftrightarrow> (\<forall>s < cc_n_stream K. \<forall>i < N. cshift x s i = 0)"

definition plan_inv :: "cache_config \<Rightarrow> nat \<Rightarrow> kv_cache \<Rightarrow> bool" where
  "plan_inv K N x \<longleftrightarrow> cache_base K N x \<and> unshifted K N x"

definition plan_frame :: "kv_cache \<Rightarrow> kv_cache \<Rightarrow> bool" where
  "plan_frame x y \<longleftrightarrow> edit_frame x y \<and> kc_ownership y = kc_ownership x \<and> kc_calls y = kc_calls x"

definition saved_ok :: "cache_config \<Rightarrow> nat \<Rightarrow> kv_cache \<Rightarrow> nat \<times> nat list \<times> kv_cells \<Rightarrow> bool" where
  "saved_ok K N x = (\<lambda>(s, idxs, sn). s < cc_n_stream K \<and> distinct idxs \<and> (\<forall>i \<in> set idxs. i < N) \<and> snap_ok sn \<and>
     kv_size sn = length idxs \<and> (\<forall>k < length idxs. cell_meta sn k = cell_meta (kc_cells x ! s) (idxs ! k)))"

definition saved_keys :: "(nat \<times> nat list \<times> kv_cells) list \<Rightarrow> (nat \<times> nat) set" where
  "saved_keys js = {(s, i). \<exists>idxs sn. (s, idxs, sn) \<in> set js \<and> i \<in> set idxs}"

lemma saved_keys_Cons: "saved_keys ((s, idxs, sn) # js) = {s} \<times> set idxs \<union> saved_keys js"
  by (auto simp: saved_keys_def)

lemma plan_frame_refl [simp]: "plan_frame x x"
  by (simp add: plan_frame_def)

lemma plan_frame_trans: "plan_frame x y \<Longrightarrow> plan_frame y z \<Longrightarrow> plan_frame x z"
  by (simp add: plan_frame_def edit_frame_def)

lemma cell_of_meta: "cell_of x (s, i) = (case cell_meta (kc_cells x ! s) i of (p, q, e) \<Rightarrow> (p, q, e, cshift x s i))"
  by (simp add: cell_of_def cell_meta_def)

text \<open>Replacing the cell set of one stream.\<close>

lemma put_cells_fields [simp]:
  "kc_heads (put_cells s c x) = kc_heads x" "plan_frame x (put_cells s c x)"
  "s < length (kc_cells x) \<Longrightarrow> kc_cells (put_cells s c x) ! t = (if t = s then c else kc_cells x ! t)"
  "length (kc_cells (put_cells s c x)) = length (kc_cells x)" "kc_seq_to_stream (put_cells s c x) = kc_seq_to_stream x"
  by (simp_all add: put_cells_def plan_frame_def edit_frame_def)

lemma put_cells_base:
  assumes "cache_base K N x" and "s < cc_n_stream K" and "kv_inv c" and "kv_size c = N"
    and "\<And>i q. i < N \<Longrightarrow> q \<in> kv_seq c ! i \<Longrightarrow> q < length (kc_seq_to_stream x) \<and> kc_seq_to_stream x ! q = s"
  shows "cache_base K N (put_cells s c x)"
  using assms by (auto simp: cache_base_def)

lemma restore_stream_eq:
  assumes y: "plan_inv K N y" and x: "plan_inv K N x" "kc_seq_to_stream y = kc_seq_to_stream x"
    and saved: "saved_ok K N x (s, idxs, sn)"
  shows "\<exists>z. restore_stream (s, idxs, sn) y = Some z \<and> plan_inv K N z \<and> plan_frame y z \<and> kc_heads z = kc_heads y \<and>
    (\<forall>t < cc_n_stream K. \<forall>i < N. cell_of z (t, i) = (if t = s \<and> i \<in> set idxs then cell_of x (t, i) else cell_of y (t, i)))"
proof -
  have base: "cache_base K N y" "cache_base K N x" using y x by (simp_all add: plan_inv_def)
  have s: "s < cc_n_stream K" "distinct idxs" "\<forall>i \<in> set idxs. i < N" "snap_ok sn" "length idxs = kv_size sn"
    and meta: "\<And>k. k < length idxs \<Longrightarrow> cell_meta sn k = cell_meta (kc_cells x ! s) (idxs ! k)"
    using saved by (simp_all add: saved_ok_def)
  let ?d = "stream_cells s y"
  have size: "kv_size ?d = N" "s < length (kc_cells y)" using cache_baseD(1,8) [OF base(1)] s(1) by simp_all
  have ok: "\<forall>i \<in> set idxs. i < kv_size ?d \<and> kv_shift ?d ! i = 0"
    using y s(1,3) size by (simp add: plan_inv_def unshifted_def)
  obtain d where d: "foldM (\<lambda>j. set_cell sn (idxs ! j) j) [0..<length idxs] ?d = Some d" "kv_inv d" "kv_size d = N"
      "kv_shift d = kv_shift ?d" "\<And>k. k < length idxs \<Longrightarrow> cell_meta d (idxs ! k) = cell_meta sn k"
      "\<And>i. i \<notin> set idxs \<Longrightarrow> cell_meta d i = cell_meta ?d i"
    using set_idxs_loop [OF stream_cells_inv [OF base(1) s(1)] s(4,5,2) ok order_refl] size by auto
  have run: "restore_stream (s, idxs, sn) y = Some (put_cells s d y)"
    using d(1) s(5) ok size by (simp add: restore_stream_def on_cells_def kv_set_idxs_def)
  have cell: "cell_meta d i = (if i \<in> set idxs then cell_meta (kc_cells x ! s) i else cell_meta (kc_cells y ! s) i)" for i
    using d(5,6) meta by (auto simp: cell_meta_def in_set_conv_nth)
  have owners: "q < length (kc_seq_to_stream y) \<and> kc_seq_to_stream y ! q = s" if "i < N" "q \<in> kv_seq d ! i" for i q
    using cell [of i] that cache_baseD(10) [OF base(1) s(1) that(1), of q] cache_baseD(10) [OF base(2) s(1) that(1), of q] x(2)
    by (auto simp: cell_meta_def split: if_splits)
  have "plan_inv K N (put_cells s d y)"
    using put_cells_base [OF base(1) s(1) d(2,3) owners] y size s(1) d(4) by (auto simp: plan_inv_def unshifted_def)
  moreover have "cell_of (put_cells s d y) (t, i) = (if t = s \<and> i \<in> set idxs then cell_of x (t, i) else cell_of y (t, i))"
    if "t < cc_n_stream K" "i < N" for t i
    using that x(1) y size(2) cell [of i] d(4) by (auto simp: cell_of_meta plan_inv_def unshifted_def)
  ultimately show ?thesis using run by (intro exI [of _ "put_cells s d y"]) simp
qed

lemma restore_streams:
  assumes "plan_inv K N y" and "plan_inv K N x" and "kc_seq_to_stream y = kc_seq_to_stream x" and "\<forall>e \<in> set js. saved_ok K N x e"
  shows "\<exists>z. foldM restore_stream js y = Some z \<and> plan_inv K N z \<and> plan_frame y z \<and> kc_heads z = kc_heads y \<and>
    (\<forall>t < cc_n_stream K. \<forall>i < N. cell_of z (t, i) = (if (t, i) \<in> saved_keys js then cell_of x (t, i) else cell_of y (t, i)))"
  using assms
proof (induction js arbitrary: y)
  case Nil
  then show ?case by (simp add: saved_keys_def)
next
  case (Cons e js)
  obtain s idxs sn where e: "e = (s, idxs, sn)" by (metis prod_cases3)
  then have "saved_ok K N x (s, idxs, sn)" using Cons.prems(4) by simp
  from restore_stream_eq [OF Cons.prems(1-3) this] obtain y1 where
      y1: "restore_stream e y = Some y1" "plan_inv K N y1" "plan_frame y y1" "kc_heads y1 = kc_heads y"
        "\<And>t i. t < cc_n_stream K \<Longrightarrow> i < N \<Longrightarrow>
          cell_of y1 (t, i) = (if t = s \<and> i \<in> set idxs then cell_of x (t, i) else cell_of y (t, i))"
    unfolding e by blast
  have "kc_seq_to_stream y1 = kc_seq_to_stream x" using y1(3) Cons.prems(3) by (simp add: plan_frame_def edit_frame_def)
  from Cons.IH [OF y1(2) Cons.prems(2) this] Cons.prems(4) obtain z where
      z: "foldM restore_stream js y1 = Some z" "plan_inv K N z" "plan_frame y1 z" "kc_heads z = kc_heads y1"
        "\<And>t i. t < cc_n_stream K \<Longrightarrow> i < N \<Longrightarrow>
          cell_of z (t, i) = (if (t, i) \<in> saved_keys js then cell_of x (t, i) else cell_of y1 (t, i))"
    by auto
  have keys: "(t, i) \<in> saved_keys (e # js) \<longleftrightarrow> t = s \<and> i \<in> set idxs \<or> (t, i) \<in> saved_keys js" for t i
    by (auto simp: saved_keys_def e)
  show ?case
    using y1 z plan_frame_trans [OF y1(3) z(3)] by (intro exI [of _ z]) (simp add: keys)
qed

lemma save_streams:
  assumes x: "plan_inv K N x" and y: "plan_inv K N y" "plan_frame x y" "kc_heads y = kc_heads x"
    and same: "cell_of y = cell_of x"
    and idxs: "\<forall>s \<in> set ss. s < cc_n_stream K \<and> distinct (f s) \<and> (\<forall>i \<in> set (f s). i < N)"
  shows "\<exists>js z. foldM (\<lambda>s. save_stream s (f s)) ss (saved, y) = Some (saved @ js, z) \<and> plan_inv K N z \<and> plan_frame x z \<and>
    kc_heads z = kc_heads x \<and> cell_of z = cell_of x \<and>
    (\<forall>e \<in> set js. saved_ok K N x e) \<and> saved_keys js = {(s, i). s \<in> set ss \<and> i \<in> set (f s)}"
  using y same idxs
proof (induction ss arbitrary: saved y)
  case Nil
  then show ?case by (auto simp: saved_keys_def)
next
  case (Cons s ss)
  have base: "cache_base K N y" using Cons.prems(1) by (simp add: plan_inv_def)
  have s: "s < cc_n_stream K" "distinct (f s)" "\<forall>i \<in> set (f s). i < N" using Cons.prems(5) by simp_all
  let ?c = "stream_cells s y"
  have size: "kv_size ?c = N" "s < length (kc_cells y)" using cache_baseD(1,8) [OF base] s(1) by simp_all
  have "\<forall>i \<in> set (f s). i < kv_size ?c \<and> kv_shift ?c ! i = 0"
    using Cons.prems(1) s(1,3) size by (simp add: plan_inv_def unshifted_def)
  from cp_idxs_eq [OF stream_cells_inv [OF base s(1)] this] obtain sn where
      sn: "kv_cp_idxs (f s) ?c = Some (sn, ?c\<lparr> kv_glob := kv_glob ?c + 2 \<rparr>)" "snap_ok sn" "kv_size sn = length (f s)"
        "\<And>k. k < length (f s) \<Longrightarrow> cell_meta sn k = cell_meta ?c (f s ! k)"
    by blast
  let ?y1 = "put_cells s (?c\<lparr> kv_glob := kv_glob ?c + 2 \<rparr>) y"
  have run: "save_stream s (f s) (saved, y) = Some (saved @ [(s, f s, sn)], ?y1)"
    using size(2) sn(1) by (simp add: save_stream_def)
  have meta: "cell_meta (kc_cells ?y1 ! t) i = cell_meta (kc_cells y ! t) i" "cshift ?y1 t i = cshift y t i" for t i
    using size(2) by (simp_all add: cell_meta_def)
  have cells: "cell_of ?y1 = cell_of y" by (rule ext) (metis cell_of_meta meta prod.collapse)
  have "cache_base K N ?y1"
    using cache_baseD(10) [OF base s(1)] size stream_cells_inv [OF base s(1)]
    by (intro put_cells_base [OF base s(1)]) (simp_all add: kv_inv_glob)
  then have inv: "plan_inv K N ?y1" using Cons.prems(1) meta(2) by (simp add: plan_inv_def unshifted_def)
  have "plan_frame x ?y1" by (rule plan_frame_trans [OF Cons.prems(2)]) simp
  from Cons.IH [OF inv this, of "saved @ [(s, f s, sn)]"] Cons.prems cells obtain js z where
      z: "foldM (\<lambda>s. save_stream s (f s)) ss (saved @ [(s, f s, sn)], ?y1) = Some (saved @ (s, f s, sn) # js, z)"
        "plan_inv K N z" "plan_frame x z" "kc_heads z = kc_heads x"
        "cell_of z = cell_of x" "\<forall>e \<in> set js. saved_ok K N x e"
        "saved_keys js = {(s, i). s \<in> set ss \<and> i \<in> set (f s)}"
    by auto
  have "cell_meta sn k = cell_meta (kc_cells x ! s) (f s ! k)" if "k < length (f s)" for k
    using sn(4) [OF that] fun_cong [OF Cons.prems(4), of "(s, f s ! k)"] by (simp add: cell_of_def cell_meta_def)
  then have "saved_ok K N x (s, f s, sn)" using s sn(2,3) by (simp add: saved_ok_def)
  moreover have "saved_keys ((s, f s, sn) # js) = {(t, i). t \<in> set (s # ss) \<and> i \<in> set (f t)}"
    by (auto simp: saved_keys_Cons z(7))
  ultimately show ?case
    using run z by (intro exI [of _ "(s, f s, sn) # js"] exI [of _ z]) simp
qed

section \<open>The cells a batch can touch\<close>

lemma foldr_max: "foldr max xs (m :: int) = Max (insert m (set xs))"
proof (induction xs)
  case (Cons a xs)
  have "max a (Max (insert m (set xs))) = Max (insert a (insert m (set xs)))" by (rule Max_insert [symmetric]) simp_all
  with Cons show ?case by (simp add: insert_commute [of a m] del: Max_insert)
qed simp

lemma slot_max_rm_eq:
  assumes inv: "cache_inv K N x" and fits: "slot_fits K N x si ub n"
  shows "slot_max_rm x si q = purge_bound si n (cell_of x) q"
proof -
  note D = slot_fitsD [OF fits]
  have row: "set (si_idxs si ! a) = (\<lambda>b. si_idxs si ! a ! b) ` {..<n}" if "a < length (si_strm si)" for a
    using D(7) [OF that] by (auto simp: in_set_conv_nth)
  have occupied: "kv_pos (kc_cells x ! (si_strm si ! a)) ! (si_idxs si ! a ! b) \<noteq> -1"
    if "a < length (si_strm si)" "b < n" "q \<in> cseq x (si_strm si ! a) (si_idxs si ! a ! b)" for a b
    using cache_invD(2) [OF inv D(8) [OF that(1)], of "si_idxs si ! a ! b"] D(9) [OF that(1,2)] that(3) by auto
  have pairs: "set (zip (si_strm si) (si_idxs si)) = (\<lambda>a. (si_strm si ! a, si_idxs si ! a)) ` {..<length (si_strm si)}"
    using D(2) by (auto simp: set_zip)
  have "set (concat (map (\<lambda>(s, idxs). map (\<lambda>i. cpos x s i) (filter (\<lambda>i. cpos x s i \<noteq> -1 \<and> q \<in> cseq x s i) idxs))
      (zip (si_strm si) (si_idxs si)))) = lost (cell_of x) (slot_key si ` ({..<length (si_strm si)} \<times> {..<n})) q"
    (is "?L = ?R")
  proof
    show "?L \<subseteq> ?R"
    proof
      fix p assume "p \<in> ?L"
      then obtain a b where ab: "a < length (si_strm si)" "b < n" "q \<in> cseq x (si_strm si ! a) (si_idxs si ! a ! b)"
          "p = cpos x (si_strm si ! a) (si_idxs si ! a ! b)"
        using row by (auto simp: pairs)
      then have "slot_key si (a, b) \<in> slot_key si ` ({..<length (si_strm si)} \<times> {..<n})" by simp
      with ab(3,4) show "p \<in> ?R"
        unfolding lost_def by (intro CollectI exI [of _ "slot_key si (a, b)"]) (simp add: slot_key_def cell_of_def)
    qed
    show "?R \<subseteq> ?L"
    proof
      fix p assume "p \<in> ?R"
      then obtain a b where ab: "a < length (si_strm si)" "b < n" "q \<in> cseq x (si_strm si ! a) (si_idxs si ! a ! b)"
          "p = cpos x (si_strm si ! a) (si_idxs si ! a ! b)"
        by (auto simp: lost_alt slot_key_def cell_of_def)
      then show "p \<in> ?L" using occupied [OF ab(1-3)] row [OF ab(1)] by (fastforce simp: pairs)
    qed
  qed
  then show ?thesis by (simp only: slot_max_rm_def foldr_max purge_bound_def)
qed

lemma touched_keys:
  assumes inv: "cache_inv K N x" and fits: "slot_fits K N x si ub n"
  shows "set (touched_streams x si) \<subseteq> {..<cc_n_stream K}" "distinct (touched_cells x si s)"
    "s < cc_n_stream K \<Longrightarrow> set (touched_cells x si s) \<subseteq> {..<N}"
    "k \<in> slot_key si ` ({..<length (si_strm si)} \<times> {..<n}) \<Longrightarrow>
      fst k \<in> set (touched_streams x si) \<and> snd k \<in> set (touched_cells x si (fst k))"
    "s < cc_n_stream K \<Longrightarrow> i < N \<Longrightarrow> q \<in> cseq x s i \<Longrightarrow> cpos x s i \<le> purge_bound si n (cell_of x) q \<Longrightarrow>
      s \<in> set (touched_streams x si) \<and> i \<in> set (touched_cells x si s)"
proof -
  note D = slot_fitsD [OF fits]
  note base = cache_invD(1) [OF inv]
  note bound = slot_max_rm_eq [OF inv fits]
  have pairs: "set (zip (si_strm si) (si_idxs si)) = (\<lambda>a. (si_strm si ! a, si_idxs si ! a)) ` {..<length (si_strm si)}"
    using D(2) by (auto simp: set_zip)
  have cells: "set (touched_cells x si s) =
      {i. \<exists>a < length (si_strm si). si_strm si ! a = s \<and> i \<in> set (si_idxs si ! a)} \<union> set (purged_cells x si s)" for s
    by (auto simp: touched_cells_def pairs)
  have strms: "si_strm si ! a < cc_n_stream K" if "a < length (si_strm si)" for a using D(8) [OF that] .
  have owned: "q < length (kc_seq_to_stream x)" if "slot_max_rm x si q \<ge> 0" for q
    using purge_bound_ok [OF inv fits] that by (force simp: bound)
  show "set (touched_streams x si) \<subseteq> {..<cc_n_stream K}"
    using strms owned cache_baseD(6) [OF base] by (auto simp: touched_streams_def in_set_conv_nth)
  show "distinct (touched_cells x si s)" by (simp add: touched_cells_def)
  show "s < cc_n_stream K \<Longrightarrow> set (touched_cells x si s) \<subseteq> {..<N}"
    using D(7,9) cache_baseD(8) [OF base] by (auto simp: cells purged_cells_def in_set_conv_nth split: if_splits)
  show "fst k \<in> set (touched_streams x si) \<and> snd k \<in> set (touched_cells x si (fst k))"
    if "k \<in> slot_key si ` ({..<length (si_strm si)} \<times> {..<n})"
    using that D(7) by (auto simp: touched_streams_def cells slot_key_def)
  assume s: "s < cc_n_stream K" "i < N" and q: "q \<in> cseq x s i" "cpos x s i \<le> purge_bound si n (cell_of x) q"
  have p: "0 \<le> cpos x s i"
    using cache_invD(2) [OF inv s] cache_baseD(11) [OF base s] q(1) by (cases "cpos x s i = -1") auto
  have own: "q < length (kc_seq_to_stream x)" "kc_seq_to_stream x ! q = s" using cache_baseD(10) [OF base s q(1)] by simp_all
  then have "q < LLAMA_MAX_SEQ" using cache_baseD(5) [OF base] by simp
  then have "i \<in> set (purged_cells x si s)" "s \<in> set (touched_streams x si)"
    using p q s own cache_baseD(8) [OF base s(1)] by (auto simp: purged_cells_def touched_streams_def bound intro!: bexI [of _ q])
  then show "s \<in> set (touched_streams x si) \<and> i \<in> set (touched_cells x si s)" by (simp add: cells)
qed

text \<open>Whatever the batch leaves of a cell outside the journal is the cell as it was, and no shift is made.\<close>

lemma batch_outside:
  assumes inv: "cache_inv K N x" and fits: "slot_fits K N x si ub n" and batch: "batch_cells K N ub si n x y"
    and s: "s < cc_n_stream K" "i < N" and out: "\<not> (s \<in> set (touched_streams x si) \<and> i \<in> set (touched_cells x si s))"
  shows "cell_of y (s, i) = cell_of x (s, i)"
proof -
  let ?m = "purge_bound si n (cell_of x)"
  obtain c' where c: "tokens_placed K ub si n (cell_of x) c'" "cell_of y (s, i) = cell_purge {..<LLAMA_MAX_SEQ} ?m (c' (s, i))"
    using batch s unfolding batch_cells_def by blast
  have "(s, i) \<notin> slot_key si ` ({..<length (si_strm si)} \<times> {..<n})"
    using touched_keys(4) [OF inv fits, of "(s, i)"] out by auto
  then have same: "c' (s, i) = cell_of x (s, i)" using c(1) by (simp add: tokens_placed_def)
  have "\<not> cpos x s i \<le> ?m q" if "q \<in> cseq x s i" for q
    using touched_keys(5) [OF inv fits s that] out by blast
  then have "cell_purge {..<LLAMA_MAX_SEQ} ?m (cell_of x (s, i)) = cell_of x (s, i)"
    by (auto simp: cell_purge_def cell_of_def Let_def)
  then show ?thesis by (simp only: c(2) same)
qed

lemma batch_unshifted:
  assumes x: "unshifted K N x" and fits: "slot_fits K N x si ub n" and batch: "batch_cells K N ub si n x y"
  shows "unshifted K N y"
  unfolding unshifted_def
proof (intro allI impI)
  fix s i assume s: "s < cc_n_stream K" "i < N"
  let ?m = "purge_bound si n (cell_of x)"
  obtain c' where c: "tokens_placed K ub si n (cell_of x) c'" "cell_of y (s, i) = cell_purge {..<LLAMA_MAX_SEQ} ?m (c' (s, i))"
    using batch s unfolding batch_cells_def by blast
  have zero: "snd (snd (snd (cell_of x (s, i)))) = 0" using x s by (simp add: unshifted_def cell_of_def)
  have "snd (snd (snd (c' (s, i)))) = 0"
  proof (cases "(s, i) \<in> slot_key si ` ({..<length (si_strm si)} \<times> {..<n})")
    case True
    then obtain a b where "a < length (si_strm si)" "b < n" "(s, i) = slot_key si (a, b)" by auto
    then show ?thesis using c(1) zero by (auto simp: tokens_placed_def token_cell_def split: prod.splits)
  next
    case False
    then show ?thesis using c(1) zero by (simp add: tokens_placed_def)
  qed
  then have "snd (snd (snd (cell_of y (s, i)))) = 0"
    unfolding c(2) by (auto simp: cell_purge_def Let_def split: prod.splits)
  then show "cshift y s i = 0" by (simp add: cell_of_def)
qed

section \<open>The plan\<close>

definition same_cells :: "cache_config \<Rightarrow> nat \<Rightarrow> kv_cache \<Rightarrow> kv_cache \<Rightarrow> bool" where
  "same_cells K N x y \<longleftrightarrow> (\<forall>s < cc_n_stream K. \<forall>i < N. cell_of y (s, i) = cell_of x (s, i))"

text \<open>The journals bring every cell and head of \<open>x0\<close> back from whatever has the cells and heads of \<open>x\<close>.\<close>

definition undoes :: "cache_config \<Rightarrow> nat \<Rightarrow> kv_cache \<Rightarrow> journal list \<Rightarrow> kv_cache \<Rightarrow> bool" where
  "undoes K N x0 js x \<longleftrightarrow> (\<forall>y. plan_inv K N y \<and> plan_frame x0 y \<and> kc_heads y = kc_heads x \<and> same_cells K N x y \<longrightarrow>
     (\<exists>z. foldM restore_journal js y = Some z \<and> plan_inv K N z \<and> plan_frame x0 z \<and> kc_heads z = kc_heads x0 \<and> same_cells K N x0 z))"

definition planning :: "cache_config \<Rightarrow> nat \<Rightarrow> kv_cache \<Rightarrow> journal list \<Rightarrow> kv_cache \<Rightarrow> bool" where
  "planning K N x0 js x \<longleftrightarrow> cache_inv K N x \<and> unshifted K N x \<and> plan_frame x0 x \<and> undoes K N x0 js x"

lemma same_cells_refl [simp]: "same_cells K N x x"
  by (simp add: same_cells_def)

lemma same_cells_inv:
  assumes "cache_inv K N x" and "cache_base K N y" and "same_cells K N x y"
  shows "cache_inv K N y"
  using assms by (auto simp: cache_inv_def same_cells_def cell_of_def)

lemma batch_ok_cong: "batch_ok K x ub n \<Longrightarrow> kc_seq_to_stream y = kc_seq_to_stream x \<Longrightarrow> batch_ok K y ub n"
  by (simp add: batch_ok_def token_ok_def)

lemma plan_frame_edit: "edit_inv K N False x y \<Longrightarrow> plan_frame x y"
  by (simp add: plan_frame_def edit_inv_def)

lemma restore_heads:
  assumes "plan_inv K N y" and "cache_base K N x"
  shows "plan_inv K N (y\<lparr> kc_heads := kc_heads x \<rparr>)" "plan_frame y (y\<lparr> kc_heads := kc_heads x \<rparr>)"
    "cell_of (y\<lparr> kc_heads := kc_heads x \<rparr>) = cell_of y"
  using assms cache_baseD(2,9) [OF assms(2)]
  by (auto simp: plan_inv_def cache_base_def unshifted_def plan_frame_def edit_frame_def cell_of_def)

lemma plan_step:
  assumes P: "planning K N x0 js x" and fits: "slot_fits K N x si ub n"
    and own: "\<not> cc_other K" and tracked: "kc_ownership x0 = None \<or> cc_armed K"
  shows "\<exists>j x1 x2. save_touched si x = Some (j, x1) \<and> apply_ubatch K si ub False x1 = Some x2 \<and> planning K N x0 (j # js) x2"
proof -
  have inv: "cache_inv K N x" and plain: "unshifted K N x" and frame: "plan_frame x0 x" and undo: "undoes K N x0 js x"
    using P by (simp_all add: planning_def)
  have base: "cache_base K N x" by (rule cache_invD(1) [OF inv])
  have px: "plan_inv K N x" using base plain by (simp add: plan_inv_def)
  note T = touched_keys [OF inv fits]
  have "\<forall>s \<in> set (touched_streams x si). s < cc_n_stream K \<and> distinct (touched_cells x si s) \<and> (\<forall>i \<in> set (touched_cells x si s). i < N)"
    using T(1,2,3) by blast
  from save_streams [OF px px plan_frame_refl refl refl this, of "[]"] obtain saved x1 where
      x1: "foldM (\<lambda>s. save_stream s (touched_cells x si s)) (touched_streams x si) ([], x) = Some (saved, x1)"
        "plan_inv K N x1" "plan_frame x x1" "kc_heads x1 = kc_heads x" "cell_of x1 = cell_of x"
        "\<forall>e \<in> set saved. saved_ok K N x e"
        "saved_keys saved = {(s, i). s \<in> set (touched_streams x si) \<and> i \<in> set (touched_cells x si s)}"
    by auto
  define j where "j = \<lparr> jr_heads = kc_heads x, jr_saved = saved \<rparr>"
  have "list_all (\<lambda>q. slot_max_rm x si q \<ge> 0 \<longrightarrow> q < length (kc_seq_to_stream x)) [0..<LLAMA_MAX_SEQ]"
    using purge_bound_ok [OF inv fits] by (force simp: list_all_iff slot_max_rm_eq [OF inv fits])
  then have save: "save_touched si x = Some (j, x1)" by (simp add: save_touched_def x1(1) j_def)
  have inv1: "cache_inv K N x1"
    using same_cells_inv [OF inv] x1(2,5) by (simp add: plan_inv_def same_cells_def)
  have same: "kc_seq_to_stream x1 = kc_seq_to_stream x" "kc_ownership x1 = kc_ownership x0"
    using x1(3) frame by (simp_all add: plan_frame_def edit_frame_def)
  obtain x2 where x2: "apply_ubatch K si ub False x1 = Some x2" "edit_inv K N False x1 x2" "batch_cells K N ub si n x1 x2"
    using apply_ubatch_dry [OF inv1 _ own slot_fits_cong [OF fits same(1)]] tracked same(2) by auto
  have batch: "batch_cells K N ub si n x x2" using x2(3) by (simp add: batch_cells_def x1(5))
  have frame2: "plan_frame x0 x2"
    by (rule plan_frame_trans [OF plan_frame_trans [OF frame x1(3)] plan_frame_edit [OF x2(2)]])
  have "undoes K N x0 (j # js) x2"
    unfolding undoes_def
  proof (intro allI impI)
    fix y assume y: "plan_inv K N y \<and> plan_frame x0 y \<and> kc_heads y = kc_heads x2 \<and> same_cells K N x2 y"
    then have s2s: "kc_seq_to_stream y = kc_seq_to_stream x" using frame by (simp add: plan_frame_def edit_frame_def)
    obtain z where z: "foldM restore_stream saved y = Some z" "plan_inv K N z" "plan_frame y z"
        "\<And>t i. t < cc_n_stream K \<Longrightarrow> i < N \<Longrightarrow>
          cell_of z (t, i) = (if (t, i) \<in> saved_keys saved then cell_of x (t, i) else cell_of y (t, i))"
      using restore_streams [OF _ px s2s x1(6)] y by blast
    let ?z = "z\<lparr> kc_heads := kc_heads x \<rparr>"
    have "cell_of y (t, i) = cell_of x (t, i)" if "t < cc_n_stream K" "i < N" "(t, i) \<notin> saved_keys saved" for t i
      using batch_outside [OF inv fits batch that(1,2)] that y by (simp add: x1(7) same_cells_def)
    then have "same_cells K N x ?z" using z(4) restore_heads(3) [OF z(2) base] by (simp add: same_cells_def)
    moreover have "plan_frame x0 ?z"
      using plan_frame_trans [OF plan_frame_trans [OF conjunct1 [OF conjunct2 [OF y]] z(3)] restore_heads(2) [OF z(2) base]] .
    ultimately obtain w where "foldM restore_journal js ?z = Some w" "plan_inv K N w" "plan_frame x0 w"
        "kc_heads w = kc_heads x0" "same_cells K N x0 w"
      using undo [unfolded undoes_def, rule_format, of ?z] restore_heads(1) [OF z(2) base] by auto
    then show "\<exists>z. foldM restore_journal (j # js) y = Some z \<and> plan_inv K N z \<and> plan_frame x0 z \<and>
        kc_heads z = kc_heads x0 \<and> same_cells K N x0 z"
      using z(1) by (simp add: restore_journal_def j_def)
  qed
  moreover have "cache_inv K N x2" using edit_invD(1) [OF x2(2)] .
  ultimately have "planning K N x0 (j # js) x2"
    using batch_unshifted [OF plain fits batch] frame2 by (simp add: planning_def)
  with save x2(1) show ?thesis by blast
qed

lemma plan_loop_done:
  assumes "planning K N x0 js x" and "\<forall>ub \<in> set ubs. \<exists>n. batch_ok K x0 ub n" and N: "N < 2 ^ 30"
    and own: "\<not> cc_other K" and tracked: "kc_ownership x0 = None \<or> cc_armed K"
  shows "\<exists>b rs js' y. plan_loop K ubs res js x = Some (b, res @ rs, js', y) \<and> planning K N x0 js' y \<and>
    (b \<longrightarrow> list_all2 (\<lambda>si ub. \<exists>n. slot_fits K N x0 si ub n) rs ubs) \<and> (js \<noteq> [] \<or> b \<and> ubs \<noteq> [] \<longrightarrow> js' \<noteq> [])"
  using assms(1,2)
proof (induction ubs arbitrary: res js x)
  case Nil
  then show ?case by (intro exI [of _ True] exI [of _ "[]"] exI [of _ js] exI [of _ x]) simp
next
  case (Cons ub ubs)
  have inv: "cache_inv K N x" and frame: "plan_frame x0 x" using Cons.prems(1) by (simp_all add: planning_def)
  then have s2s: "kc_seq_to_stream x = kc_seq_to_stream x0" by (simp add: plan_frame_def edit_frame_def)
  obtain n where n: "batch_ok K x0 ub n" using Cons.prems(2) by auto
  obtain si where si: "find_slot K ub False x = Some si" "\<not> slot_empty si \<longrightarrow> slot_fits K N x si ub n"
    using find_slot_outcome [OF cache_invD(1) [OF inv] N batch_ok_cong [OF n s2s], of False] by (auto split: if_splits)
  show ?case
  proof (cases "slot_empty si")
    case True
    then have "plan_loop K (ub # ubs) res js x = Some (False, res, js, x)" by (simp add: si(1))
    with Cons.prems(1) show ?thesis by fastforce
  next
    case False
    then have fits: "slot_fits K N x si ub n" using si(2) by simp
    obtain j x1 x2 where step: "save_touched si x = Some (j, x1)" "apply_ubatch K si ub False x1 = Some x2"
        "planning K N x0 (j # js) x2"
      using plan_step [OF Cons.prems(1) fits own tracked] by blast
    from Cons.IH [OF step(3), of "res @ [si]"] Cons.prems(2) obtain b rs js' y where
        rest: "plan_loop K ubs (res @ [si]) (j # js) x2 = Some (b, res @ si # rs, js', y)" "planning K N x0 js' y"
          "b \<longrightarrow> list_all2 (\<lambda>si ub. \<exists>n. slot_fits K N x0 si ub n) rs ubs" "js' \<noteq> []"
      by auto
    have "\<exists>n. slot_fits K N x0 si ub n" using slot_fits_cong [OF fits s2s [symmetric]] by blast
    then show ?thesis
      using False si(1) step(1,2) rest by (intro exI [of _ b] exI [of _ "si # rs"] exI [of _ js'] exI [of _ y]) simp
  qed
qed

lemma plan_slots_done:
  assumes ok: "cache_ok K N x" and N: "N < 2 ^ 30" and plain: "unshifted K N x"
    and ubs: "ubs \<noteq> []" "\<forall>ub \<in> set ubs. \<exists>n. batch_ok K x ub n"
  shows "\<exists>res y. plan_slots K ubs x = Some (res, y) \<and> cache_inv K N y \<and> plan_frame x y \<and> kc_heads y = kc_heads x \<and>
    same_cells K N x y \<and> kc_stash_dirty y = kc_stash_dirty x \<and>
    (res = [] \<or> list_all2 (\<lambda>si ub. \<exists>n. slot_fits K N x si ub n) res ubs)"
proof -
  have inv: "cache_inv K N x" "\<not> cc_other K" "kc_ownership x = None \<or> cc_armed K" using ok by (simp_all add: cache_ok_def)
  have "undoes K N x [] x" by (simp add: undoes_def)
  then have start: "planning K N x [] x" using inv(1) plain by (simp add: planning_def)
  obtain b rs js y where y: "plan_loop K ubs [] [] x = Some (b, rs, js, y)" "planning K N x js y"
      "b \<longrightarrow> list_all2 (\<lambda>si ub. \<exists>n. slot_fits K N x si ub n) rs ubs" "b \<longrightarrow> js \<noteq> []"
    using plan_loop_done [OF start ubs(2) N inv(2,3), of "[]"] ubs(1) by auto
  have "plan_inv K N y" using y(2) cache_invD(1) by (auto simp: planning_def plan_inv_def)
  then obtain z where z: "foldM restore_journal js y = Some z" "plan_inv K N z" "plan_frame x z" "kc_heads z = kc_heads x"
      "same_cells K N x z"
    using y(2) undoes_def [of K N x js y] by (auto simp: planning_def)
  let ?z = "z\<lparr> kc_stash_dirty := kc_stash_dirty x \<rparr>"
  have cells: "cell_of ?z = cell_of z" by (simp add: cell_of_def fun_eq_iff)
  have "cache_inv K N z" using same_cells_inv [OF inv(1) _ z(5)] z(2) by (simp add: plan_inv_def)
  then have "cache_inv K N ?z" by (rule cache_inv_cong) simp_all
  moreover have "plan_frame x ?z" using z(3) by (simp add: plan_frame_def edit_frame_def)
  moreover have "plan_slots K ubs x = Some (if b then rs else [], ?z)"
    using y(1,4) z(1) by (auto simp: plan_slots_def)
  ultimately show ?thesis using y(3) z(4,5) cells by (auto simp: same_cells_def)
qed

end
