(* ===== verification/Tracker_Replay.thy ===== *)
theory Tracker_Replay
  imports Cache_Edits
begin

text \<open>
  What becomes of the calls the cache makes to its generation tracker: \<open>vbr_generation_begin\<close> and \<open>vbr_stamp\<close>
  of \<^verbatim>\<open>llama-kv-cache.cpp\<close> and the guards of \<open>stamp_cell\<close> and \<open>try_rearm\<close> of \<^verbatim>\<open>llama-vbr-generation.cpp\<close>. The
  cache keeps its calls in \<open>kc_calls\<close>, whatever the tracker makes of them; \<open>replay\<close> makes them. An event is empty
  when the mutation scope was refused or the tracker is latched (\<open>shadow_unavailable\<close>), and stamps through it are
  skipped; a stamp that the manifest of its event does not cover poisons the event and latches the tracker.

  The scopes, the reservation of extents, the wrap of a page counter (which invalidates everything) and the moments
  of \<open>try_rearm\<close> are not in the calls: they are the record \<open>tracker_env\<close>, by the number of the call. The 64-bit
  counters of generations and mutations are taken not to run out.
\<close>

record gen_event =
  ge_open :: bool
  ge_kind :: stamp_kind
  ge_class :: operation_class
  ge_destructive :: bool
  ge_manifest :: operation_binding
  ge_poisoned :: bool

text \<open>The latch, the event of each registrant (\<open>None\<close>: never begun), the cells that were stamped, and whether the
  whole image was invalidated.\<close>

record tracker_side =
  ts_shadow :: bool
  ts_events :: "mutation_registrant \<Rightarrow> gen_event option"
  ts_stamped :: "(nat \<times> nat) set"
  ts_invalid :: bool

text \<open>\<open>te_scope\<close> is the manifest of the innermost scope, \<open>None\<close> when its operation was refused.\<close>

record tracker_env =
  te_instance :: instance_id
  te_streams :: nat
  te_cells :: nat
  te_scope :: "nat \<Rightarrow> operation_binding option"
  te_begins :: "nat \<Rightarrow> bool"
  te_extent :: "nat \<Rightarrow> bool"
  te_wrap :: "nat \<Rightarrow> bool"
  te_rearm :: "nat \<Rightarrow> bool"

section \<open>Events\<close>

definition empty_event :: gen_event where
  "empty_event = \<lparr> ge_open = False, ge_kind = Stamp_dependency, ge_class = Cls_ordinary_decode, ge_destructive = False,
     ge_manifest = empty_binding, ge_poisoned = False \<rparr>"

definition set_event :: "mutation_registrant \<Rightarrow> gen_event \<Rightarrow> tracker_side \<Rightarrow> tracker_side" where
  "set_event r e G = G\<lparr> ts_events := (ts_events G)(r \<mapsto> e) \<rparr>"

text \<open>A refused scope has latched the tracker when it was opened (\<open>abort_to_shadow_unavailable\<close>). A begin that the
  tracker refuses otherwise fails the assertion.\<close>

definition vbr_generation_begin :: "tracker_env \<Rightarrow> nat \<Rightarrow> mutation_registrant \<Rightarrow> operation_class \<Rightarrow> nat \<Rightarrow> stamp_kind \<Rightarrow> bool \<Rightarrow>
    tracker_side \<Rightarrow> tracker_side option" where
  "vbr_generation_begin E k r c s kind destructive G =
    (case te_scope E k of None \<Rightarrow> Some (set_event r empty_event (G\<lparr> ts_shadow := True \<rparr>))
     | Some manifest \<Rightarrow>
       if ts_shadow G then Some (set_event r empty_event G)
       else do {
         assertion (te_begins E k \<and> s < te_streams E \<and>
           find_covering_target manifest (te_instance E) (of_nat s) c (vbr_registrant_bit r) \<noteq> None);
         Some (set_event r \<lparr> ge_open = True, ge_kind = kind, ge_class = c, ge_destructive = destructive,
           ge_manifest = manifest, ge_poisoned = False \<rparr> G) })"

section \<open>Stamps\<close>

datatype cover = Covered | Uncovered | Out_of_domain

fun members_covered :: "tracker_env \<Rightarrow> mutation_registrant \<Rightarrow> nat \<Rightarrow> gen_event \<Rightarrow> int \<Rightarrow> int list \<Rightarrow> cover" where
  "members_covered E r s e p [] = Covered"
| "members_covered E r s e p (q # qs) =
    (if q < -1 \<or> q > 32767 then Out_of_domain
     else if find_covering_target_at (ge_manifest e) (te_instance E) (of_nat s) (ge_class e) (vbr_registrant_bit r) q p = None
     then Uncovered else members_covered E r s e p qs)"

definition poison_event :: "mutation_registrant \<Rightarrow> gen_event \<Rightarrow> tracker_side \<Rightarrow> tracker_side" where
  "poison_event r e G = set_event r (e\<lparr> ge_poisoned := True \<rparr>) (G\<lparr> ts_shadow := True \<rparr>)"

definition stamp_cell :: "tracker_env \<Rightarrow> nat \<Rightarrow> mutation_registrant \<Rightarrow> nat \<Rightarrow> nat \<Rightarrow> int list \<Rightarrow> int \<Rightarrow> gen_event \<Rightarrow>
    tracker_side \<Rightarrow> bool \<times> tracker_side" where
  "stamp_cell E k r s i qs p e G =
    (if ge_poisoned e then (False, G)
     else if s \<ge> te_streams E \<or> i \<ge> te_cells E \<or> qs = [] \<or> (ge_kind e = Stamp_membership \<and> length qs \<noteq> 1) then (False, G)
     else if ge_destructive e \<and> length qs \<noteq> 1 then (False, poison_event r e G)
     else (case members_covered E r s e p qs of
         Out_of_domain \<Rightarrow> (False, G)
       | Uncovered \<Rightarrow> (False, poison_event r e G)
       | Covered \<Rightarrow>
           if ge_destructive e \<and> \<not> te_extent E k then (False, poison_event r e G)
           else (True, G\<lparr> ts_stamped := insert (s, i) (ts_stamped G), ts_invalid := ts_invalid G \<or> te_wrap E k \<rparr>)))"

text \<open>A refusal also poisons the operation, which then closes as failed.\<close>

definition vbr_stamp :: "tracker_env \<Rightarrow> nat \<Rightarrow> mutation_registrant \<Rightarrow> nat \<Rightarrow> nat \<Rightarrow> int list \<Rightarrow> int \<Rightarrow> tracker_side \<Rightarrow>
    tracker_side option" where
  "vbr_stamp E k r s i qs p G = do {
     e \<leftarrow> ts_events G r;
     Some (if ge_open e then snd (stamp_cell E k r s i qs p e G) else G) }"

section \<open>Replaying\<close>

text \<open>Between operations the tracker may be armed again; it does so by invalidating everything.\<close>

definition try_rearm :: "tracker_env \<Rightarrow> nat \<Rightarrow> tracker_side \<Rightarrow> tracker_side" where
  "try_rearm E k G = (if te_rearm E k \<and> ts_shadow G then G\<lparr> ts_shadow := False, ts_invalid := True \<rparr> else G)"

fun replay_call :: "tracker_env \<Rightarrow> nat \<Rightarrow> tracker_call \<Rightarrow> tracker_side \<Rightarrow> tracker_side option" where
  "replay_call E k (Gen_Begin r c s kind destructive) G = vbr_generation_begin E k r c s kind destructive G"
| "replay_call E k (Gen_Stamp r s i qs p) G = vbr_stamp E k r s i qs p G"
| "replay_call E k (Gen_Global r c) G = Some (G\<lparr> ts_invalid := True \<rparr>)"

fun replay :: "tracker_env \<Rightarrow> nat \<Rightarrow> tracker_call list \<Rightarrow> tracker_side \<Rightarrow> tracker_side option" where
  "replay E k [] G = Some G"
| "replay E k (t # ts) G = do { G' \<leftarrow> replay_call E k t (try_rearm E k G); replay E (Suc k) ts G' }"

section \<open>What the tracker keeps\<close>

definition given_up :: "tracker_side \<Rightarrow> bool" where
  "given_up G \<longleftrightarrow> ts_shadow G \<or> ts_invalid G"

text \<open>An event is empty or poisoned only when the tracker has given up, and token events are dependency events.\<close>

definition events_ok :: "tracker_side \<Rightarrow> bool" where
  "events_ok G \<longleftrightarrow> (\<forall>r e. ts_events G r = Some e \<longrightarrow>
     ((\<not> ge_open e \<or> ge_poisoned e) \<longrightarrow> given_up G) \<and> (token_event r \<longrightarrow> ge_kind e \<noteq> Stamp_membership))"

lemma stamp_cell_keeps:
  assumes "events_ok G" "ts_events G r = Some e"
  shows "events_ok (snd (stamp_cell E k r s i qs p e G))" "given_up G \<longrightarrow> given_up (snd (stamp_cell E k r s i qs p e G))"
    "ts_stamped G \<subseteq> ts_stamped (snd (stamp_cell E k r s i qs p e G))"
  using assms by (auto simp: stamp_cell_def events_ok_def given_up_def poison_event_def set_event_def split: cover.split)

lemma begin_keeps:
  assumes "vbr_generation_begin E k r c s kind d G = Some G'" "events_ok G" "call_ok (Gen_Begin r c s kind d)"
  shows "events_ok G' \<and> (given_up G \<longrightarrow> given_up G') \<and> ts_stamped G' = ts_stamped G"
  using assms by (auto simp: vbr_generation_begin_def events_ok_def given_up_def set_event_def empty_event_def
      assertion_def split: option.splits if_splits)

lemma rearm_keeps:
  "events_ok G \<Longrightarrow> events_ok (try_rearm E k G)" "given_up (try_rearm E k G) = given_up G"
  "ts_stamped (try_rearm E k G) = ts_stamped G"
  by (auto simp: try_rearm_def events_ok_def given_up_def)

lemma replay_call_keeps:
  assumes "replay_call E k t G = Some G'" "events_ok G" "call_ok t"
  shows "events_ok G' \<and> (given_up G \<longrightarrow> given_up G') \<and> ts_stamped G \<subseteq> ts_stamped G'"
proof (cases t)
  case (Gen_Begin r c s kind d)
  then show ?thesis using assms begin_keeps [of E k r c s kind d G G'] by auto
next
  case (Gen_Stamp r s i qs p)
  then obtain e where "ts_events G r = Some e" "G' = (if ge_open e then snd (stamp_cell E k r s i qs p e G) else G)"
    using assms(1) by (auto simp: vbr_stamp_def bind_eq_Some_conv)
  then show ?thesis using stamp_cell_keeps [OF assms(2)] assms(2) by auto
next
  case (Gen_Global r c)
  then show ?thesis using assms by (auto simp: events_ok_def given_up_def)
qed

lemma replay_keeps:
  "replay E k ts G = Some G' \<Longrightarrow> events_ok G \<Longrightarrow> \<forall>t \<in> set ts. call_ok t \<Longrightarrow>
    events_ok G' \<and> (given_up G \<longrightarrow> given_up G') \<and> ts_stamped G \<subseteq> ts_stamped G'"
proof (induction ts arbitrary: k G)
  case (Cons t ts)
  obtain G1 where G1: "replay_call E k t (try_rearm E k G) = Some G1" "replay E (Suc k) ts G1 = Some G'"
    using Cons(2) by (auto simp: bind_eq_Some_conv)
  then show ?case using replay_call_keeps [OF G1(1) rearm_keeps(1) [OF Cons(3)]] Cons(1) [OF G1(2)] Cons(4)
    by (auto simp: rearm_keeps)
qed simp

text \<open>A stamp of the cache either reaches the tracker or makes it give up.\<close>

lemma stamp_reaches:
  assumes "replay_call E k (Gen_Stamp r s i qs p) G = Some G'" "events_ok G" "call_ok (Gen_Stamp r s i qs p)"
    and "s < te_streams E" "i < te_cells E"
  shows "given_up G' \<or> (s, i) \<in> ts_stamped G'"
proof -
  obtain e where e: "ts_events G r = Some e" "G' = (if ge_open e then snd (stamp_cell E k r s i qs p e G) else G)"
    using assms(1) by (auto simp: vbr_stamp_def bind_eq_Some_conv)
  have open_event: "given_up G" if "\<not> ge_open e \<or> ge_poisoned e" using assms(2) e(1) that unfolding events_ok_def by blast
  have kind: "length qs = 1 \<or> ge_kind e \<noteq> Stamp_membership" using assms(2,3) e(1) unfolding events_ok_def by auto
  have "\<forall>q \<in> set qs. -1 \<le> q \<and> q \<le> 32767" using assms(3) by simp
  then have "members_covered E r s e p qs \<noteq> Out_of_domain"
    by (induction qs) (auto split: if_splits)
  then show ?thesis
    using e open_event kind assms(3-5)
    by (auto simp: stamp_cell_def given_up_def poison_event_def set_event_def split: cover.split)
qed

theorem replay_hears:
  assumes "replay E k ts G = Some G'" "events_ok G" "\<forall>t \<in> set ts. call_ok t"
    and "Gen_Stamp r s i qs p \<in> set ts" "s < te_streams E" "i < te_cells E"
  shows "given_up G' \<or> (s, i) \<in> ts_stamped G'"
  using assms(1-4)
proof (induction ts arbitrary: k G)
  case (Cons t ts)
  obtain G1 where G1: "replay_call E k t (try_rearm E k G) = Some G1" "replay E (Suc k) ts G1 = Some G'"
    using Cons(2) by (auto simp: bind_eq_Some_conv)
  have ok: "events_ok (try_rearm E k G)" using rearm_keeps(1) [OF Cons(3)] .
  then have ok1: "events_ok G1" using replay_call_keeps [OF G1(1)] Cons(4) by simp
  show ?case
  proof (cases "t = Gen_Stamp r s i qs p")
    case True
    then have "given_up G1 \<or> (s, i) \<in> ts_stamped G1" using stamp_reaches [OF _ ok] G1(1) Cons(4) assms(5,6) by auto
    then show ?thesis using replay_keeps [OF G1(2) ok1] Cons(4) by auto
  next
    case False
    then show ?thesis using Cons(1) [OF G1(2) ok1] Cons(4,5) by auto
  qed
qed simp

text \<open>A global invalidation is a way of giving up, too.\<close>

lemma replay_global:
  "replay E k ts G = Some G' \<Longrightarrow> events_ok G \<Longrightarrow> \<forall>t \<in> set ts. call_ok t \<Longrightarrow> Gen_Global r c \<in> set ts \<Longrightarrow> given_up G'"
proof (induction ts arbitrary: k G)
  case (Cons t ts)
  obtain G1 where G1: "replay_call E k t (try_rearm E k G) = Some G1" "replay E (Suc k) ts G1 = Some G'"
    using Cons(2) by (auto simp: bind_eq_Some_conv)
  have ok1: "events_ok G1" using replay_call_keeps [OF G1(1) rearm_keeps(1) [OF Cons(3)]] Cons(4) by simp
  show ?case
  proof (cases "t = Gen_Global r c")
    case True
    then have "given_up G1" using G1(1) by (auto simp: given_up_def)
    then show ?thesis using replay_keeps [OF G1(2) ok1] Cons(4) by auto
  next
    case False
    then show ?thesis using Cons(1) [OF G1(2) ok1] Cons(4,5) by auto
  qed
qed simp

end
