(* ===== verification/Cache_Properties.thy ===== *)
theory Cache_Properties
  imports Slot_Properties Cache_Sharing Cache_Planning Tracker_Replay
begin

text \<open>
  What the cache promises its callers: the exact effect of every edit and of a committed batch, the
  invariant of every run from the constructor, the soundness of content epochs and of the generation
  tracker's log, and the search for a slot.
\<close>

section \<open>The constructed cache\<close>

lemma new_cache_ok:
  assumes "0 < cc_n_stream K" and "cc_n_stream K \<le> LLAMA_MAX_SEQ" and "N < 2 ^ 31 - 1" and "0 < N" and "\<not> cc_other K"
  shows "cache_ok K N (new_cache K N)"
proof -
  let ?x = "new_cache K N"
  have cells: "kc_cells ?x ! s = kv_resize N (kv_fresh (2 * s))" if "s < cc_n_stream K" for s
    using that by (simp add: new_cache_def Let_def)
  have stream: "kv_inv (kc_cells ?x ! s)" "kv_size (kc_cells ?x ! s) = N"
      "\<And>i. i < N \<Longrightarrow> cpos ?x s i = -1" "\<And>i. i < N \<Longrightarrow> cseq ?x s i = {}" if "s < cc_n_stream K" for s
    using kv_inv_start [of N "2 * s"] by (simp_all add: cells [OF that] kv_resize_def vec_resize_length)
  have base: "cache_base K N ?x"
    unfolding cache_base_def using assms(1,2) stream
    by (auto simp: new_cache_def Let_def LLAMA_MAX_SEQ_def split: if_splits)
  have empty: "owner_maps N ?x s q = Map.empty" if "s < cc_n_stream K" for s q
    using stream(4) [OF that] by (auto simp: owner_maps_def fun_eq_iff)
  let ?ix = "new_ownership_index (cc_n_stream K) (length (kc_seq_to_stream ?x)) N 0"
  have "index_rep ?ix (\<lambda>_ _. Some Map.empty)"
    by (rule new_index_rep) (use assms(2,3) in \<open>auto simp: new_cache_def Let_def LLAMA_MAX_SEQ_def\<close>)
  then have "index_tracks (cc_n_stream K) (length (kc_seq_to_stream ?x)) N (owner_maps N ?x) ?ix"
    unfolding index_tracks_def views_agree_def by (auto simp: empty new_ownership_index_def Let_def)
  moreover have "kc_ownership ?x = (if cc_armed K then Some ?ix else None)"
    by (simp add: new_cache_def Let_def)
  ultimately have sync: "in_sync K N ?x" by (simp add: idx_ok_def)
  have "cache_inv K N ?x" using base stream(3) by (simp add: cache_inv_def)
  with sync assms(5) show ?thesis by (auto simp: cache_ok_def new_cache_def Let_def)
qed

text \<open>A small cache with two tokens of sequence 0, for the witnesses.\<close>

definition demo_config :: cache_config where
  "demo_config = \<lparr> cc_n_seq_max = 2, cc_n_stream = 1, cc_n_swa = 0, cc_swa_type = SWA_NONE, cc_other = False,
     cc_armed = True, cc_vmm_budget = True, cc_text_mrope = False, cc_n_pos_per_embd = 1, cc_stash_rows = 0,
     cc_ple_n_heads = 0, cc_ple_embd_token = 0 \<rparr>"

definition demo_batch :: ubatch where
  "demo_batch = \<lparr> ub_n_tokens = 2, ub_n_pos = 1, ub_token = Some [7, 8], ub_type = None, ub_pos = [0, 1],
     ub_seq_id = [[0], [0]], ub_seq_id_unq = [0] \<rparr>"

definition demo_slot :: slot_info where
  "demo_slot = \<lparr> si_s0 = 0, si_s1 = 0, si_strm = [0], si_idxs = [[0, 1]] \<rparr>"

definition demo_empty :: kv_cache where "demo_empty = new_cache demo_config 4"

definition demo_cache :: kv_cache where
  "demo_cache = the (apply_ubatch demo_config demo_slot demo_batch True demo_empty)"

lemma demo_empty_ok: "cache_ok demo_config 4 demo_empty"
  unfolding demo_empty_def by (rule new_cache_ok) (simp_all add: demo_config_def LLAMA_MAX_SEQ_def)

lemma demo_empty_fields:
  "kc_seq_to_stream demo_empty = replicate 256 0" "epochs_left demo_config demo_empty"
  by (simp_all add: demo_empty_def new_cache_def demo_config_def Let_def LLAMA_MAX_SEQ_def epochs_left_def EPOCH_MAX_def)

lemma demo_token_ok: "t < 2 \<Longrightarrow> token_ok demo_empty demo_batch 0 t"
  unfolding token_ok_def demo_batch_def demo_empty_fields less_2_cases_iff by (elim disjE) auto

lemma demo_fits: "slot_fits demo_config 4 demo_empty demo_slot demo_batch 2"
proof -
  have "inj_on (slot_key demo_slot) ({..<1} \<times> {..<2})"
    by (auto simp: inj_on_def slot_key_def demo_slot_def less_2_cases_iff)
  then show ?thesis
    using demo_token_ok
    by (simp add: slot_fits_def demo_slot_def demo_config_def) (auto simp: demo_batch_def less_2_cases_iff)
qed

lemma demo_cache_made:
  shows "apply_ubatch demo_config demo_slot demo_batch True demo_empty = Some demo_cache"
    and "batch_cells demo_config 4 demo_batch demo_slot 2 demo_empty demo_cache"
    and "step_done demo_config 4 demo_empty demo_cache"
proof -
  obtain y where "apply_ubatch demo_config demo_slot demo_batch True demo_empty = Some y"
      "step_done demo_config 4 demo_empty y" "batch_cells demo_config 4 demo_batch demo_slot 2 demo_empty y"
    using apply_ubatch_done [of demo_config 4 demo_empty demo_slot demo_batch 2] demo_empty_ok demo_empty_fields(2) demo_fits
    by (auto simp: cache_ok_def)
  then show "apply_ubatch demo_config demo_slot demo_batch True demo_empty = Some demo_cache"
    and "batch_cells demo_config 4 demo_batch demo_slot 2 demo_empty demo_cache"
    and "step_done demo_config 4 demo_empty demo_cache"
    by (simp_all add: demo_cache_def)
qed

lemma demo_cache_ok: "cache_ok demo_config 4 demo_cache"
  by (rule cache_step_ok [OF cache_step.batch [OF demo_empty_fields(2) demo_fits demo_cache_made(1)] demo_empty_ok])

lemma demo_cache_streams: "kc_seq_to_stream demo_cache = replicate 256 0"
  using demo_cache_made(3) by (simp add: step_done_def demo_empty_fields(1))

lemma demo_cache_epochs: "epochs_left demo_config demo_cache"
  using demo_cache_made(3)
  by (auto simp: step_done_def raised_def same_epochs_def bump_def demo_empty_def new_cache_def Let_def
      epochs_left_def EPOCH_MAX_def)

lemma demo_streams: "cc_n_stream demo_config = 1"
  by (simp add: demo_config_def)

lemma demo_empty_cells: "i < 4 \<Longrightarrow> cpos demo_empty 0 i = -1" "i < 4 \<Longrightarrow> cseq demo_empty 0 i = {}"
  by (auto simp: kv_resize_def vec_resize_def kv_fresh_def less_Suc_eq numeral_nat demo_empty_def new_cache_def demo_config_def Let_def)

lemma demo_purge: "purge_bound demo_slot 2 (cell_of demo_empty) q = -1"
proof -
  have "q \<notin> fst (snd (cell_of demo_empty (slot_key demo_slot (0, b))))" if "b < 2" for b
    using that demo_empty_cells(2) [of b] by (auto simp: slot_key_def demo_slot_def less_2_cases_iff cell_of_def)
  then have "lost (cell_of demo_empty) (slot_key demo_slot ` ({..<1} \<times> {..<2})) q = {}"
    unfolding lost_alt by auto
  moreover have "length (si_strm demo_slot) = 1" by (simp add: demo_slot_def)
  ultimately show ?thesis by (simp only: purge_bound_def) simp
qed

lemma demo_cache_cells:
  "cpos demo_cache 0 0 = 0" "cseq demo_cache 0 0 = {0}" "cpos demo_cache 0 1 = 1" "cseq demo_cache 0 1 = {0}"
proof -
  obtain c' where c: "tokens_placed demo_config demo_batch demo_slot 2 (cell_of demo_empty) c'"
      "\<And>i. i < 4 \<Longrightarrow> cell_of demo_cache (0, i) = cell_purge {..<LLAMA_MAX_SEQ} (\<lambda>_. -1) (c' (0, i))"
    using demo_cache_made(2) unfolding batch_cells_def demo_purge by (auto simp: demo_streams)
  have "c' (slot_key demo_slot (0, t)) = token_cell demo_config demo_batch t (cell_of demo_empty (slot_key demo_slot (0, t)))"
    if "t < 2" for t
    using c(1) that by (simp add: tokens_placed_def) (simp add: demo_slot_def)
  from this [of 0] this [of 1] c(2) [of 0] c(2) [of 1]
  have "fst (cell_of demo_cache (0, 0)) = 0 \<and> fst (snd (cell_of demo_cache (0, 0))) = {0}"
    and "fst (cell_of demo_cache (0, 1)) = 1 \<and> fst (snd (cell_of demo_cache (0, 1))) = {0}"
    by (auto simp: slot_key_def demo_slot_def token_cell_def demo_batch_def cell_purge_def LLAMA_MAX_SEQ_def
        split: prod.splits)
  then show "cpos demo_cache 0 0 = 0" "cseq demo_cache 0 0 = {0}" "cpos demo_cache 0 1 = 1" "cseq demo_cache 0 1 = {0}"
    by (simp_all add: cell_of_def)
qed

lemma demo_cache_free: "i < 4 \<Longrightarrow> 1 < i \<Longrightarrow> cseq demo_cache 0 i = {}"
proof -
  assume i: "i < 4" "1 < i"
  obtain c' where c: "tokens_placed demo_config demo_batch demo_slot 2 (cell_of demo_empty) c'"
      "cell_of demo_cache (0, i) = cell_purge {..<LLAMA_MAX_SEQ} (\<lambda>_. -1) (c' (0, i))"
    using demo_cache_made(2) i(1) unfolding batch_cells_def demo_purge by (auto simp: demo_streams)
  have "(0, i) \<notin> slot_key demo_slot ` ({..<length (si_strm demo_slot)} \<times> {..<2})"
    using i(2) by (auto simp: slot_key_def demo_slot_def less_2_cases_iff)
  then have "c' (0, i) = cell_of demo_empty (0, i)" using c(1) unfolding tokens_placed_def by blast
  then have "fst (snd (cell_of demo_cache (0, i))) = {}"
    using c(2) demo_empty_cells(2) [OF i(1)] by (auto simp: cell_of_def cell_purge_def Let_def)
  then show ?thesis by (simp add: cell_of_def)
qed

section \<open>Edits\<close>

text \<open>C36: Every edit that its callers' preconditions allow returns, changes the cells as the
  function of the edit says, cell by cell, and keeps the invariant and the ownership index.\<close>
theorem cache_edit_exact:
  assumes "cache_ok K N x" and "epochs_left K x" and "edit_ok K N e x"
  shows "\<exists>y. run_edit K e x = Some y \<and> cache_ok K N y \<and>
    (\<forall>s < cc_n_stream K. \<forall>i < N. cell_of y (s, i) = edit_cells K e x s i)"
proof -
  have "cache_inv K N x" "in_sync K N x" "\<not> cc_other K" "kc_ownership x = None \<or> cc_armed K"
    using assms(1) by (auto simp: cache_ok_def)
  from edit_step_exact [OF this(1,2) assms(2) this(3,4) assms(3)]
  obtain y where y: "run_edit K e x = Some y"
      "\<forall>s < cc_n_stream K. \<forall>i < N. cell_of y (s, i) = edit_cells K e x s i" by blast
  have "cache_ok K N y" by (rule cache_step_ok [OF cache_step.edit [OF assms(2,3) y(1)] assms(1)])
  with y show ?thesis by blast
qed

theorem cache_edit_exact_witness:
  "\<exists>y. run_edit demo_config (Edit_Rm 0 0 1) demo_cache = Some y \<and> 0 \<notin> cseq y 0 0 \<and> 0 \<in> cseq y 0 1"
proof -
  have "edit_ok demo_config 4 (Edit_Rm 0 0 1) demo_cache" by (simp add: known_seq_def demo_cache_streams)
  from cache_edit_exact [OF demo_cache_ok demo_cache_epochs this] obtain y where
      y: "run_edit demo_config (Edit_Rm 0 0 1) demo_cache = Some y"
        "cell_of y (0, 0) = edit_cells demo_config (Edit_Rm 0 0 1) demo_cache 0 0"
        "cell_of y (0, 1) = edit_cells demo_config (Edit_Rm 0 0 1) demo_cache 0 1"
    by (auto simp: demo_config_def)
  then have "0 \<notin> cseq y 0 0" "0 \<in> cseq y 0 1"
    using demo_cache_cells by (simp_all add: demo_cache_streams cell_of_def cell_rm_def normalize_edit_range_def Let_def split: if_splits)
  with y(1) show ?thesis by blast
qed

section \<open>Batches\<close>

text \<open>C37: Committing a batch in a slot that fits it returns: the tokens take their cells, and no
  sequence that lost a cell to the batch keeps a cell at or below the position it lost.\<close>
theorem cache_batch_exact:
  assumes "cache_ok K N x" and "epochs_left K x" and "slot_fits K N x si ub n"
  shows "\<exists>y. apply_ubatch K si ub True x = Some y \<and> cache_ok K N y \<and> batch_cells K N ub si n x y \<and>
    (\<forall>a < length (si_strm si). \<forall>b < n. \<forall>q \<in> cseq x (si_strm si ! a) (si_idxs si ! a ! b).
       \<forall>s < cc_n_stream K. \<forall>i < N. q \<in> cseq y s i \<longrightarrow> cpos x (si_strm si ! a) (si_idxs si ! a ! b) < cpos y s i)"
proof -
  have "cache_inv K N x" "in_sync K N x" "\<not> cc_other K" "kc_ownership x = None \<or> cc_armed K"
    using assms(1) by (auto simp: cache_ok_def)
  from apply_ubatch_done [OF this(1,2) assms(2) this(4,3) assms(3)]
  obtain y where y: "apply_ubatch K si ub True x = Some y" "batch_cells K N ub si n x y" by blast
  have ok: "cache_ok K N y" by (rule cache_step_ok [OF cache_step.batch [OF assms(2,3) y(1)] assms(1)])
  have "cpos x (si_strm si ! a) (si_idxs si ! a ! b) < cpos y s i"
    if "a < length (si_strm si)" "b < n" "q \<in> cseq x (si_strm si ! a) (si_idxs si ! a ! b)"
      "s < cc_n_stream K" "i < N" "q \<in> cseq y s i" for a b q s i
  proof -
    have "cpos x (si_strm si ! a) (si_idxs si ! a ! b) \<le> purge_bound si n (cell_of x) q"
      using purge_bound_upper [OF imageI [of "(a, b)"], of si n q "cell_of x"] that(1-3)
      by (simp add: slot_key_def cell_of_def)
    also have "purge_bound si n (cell_of x) q < cpos y s i"
      using purged_above [OF _ y(2) that(4-6)] ok by (simp add: cache_ok_def)
    finally show ?thesis .
  qed
  with y ok show ?thesis by blast
qed

theorem cache_batch_exact_witness:
  "\<exists>y. apply_ubatch demo_config demo_slot demo_batch True demo_empty = Some y \<and> cache_ok demo_config 4 y"
  using cache_batch_exact [OF demo_empty_ok demo_empty_fields(2) demo_fits] by blast

section \<open>Runs\<close>

lemma run_ok: "cache_run K N x y \<Longrightarrow> cache_ok K N x \<Longrightarrow> cache_ok K N y"
  by (induction rule: cache_run.induct) (auto intro: cache_step_ok)


lemma logged_refl: "logged K N x x"
  by (simp add: logged_def)

lemma logged_trans: "logged K N x y \<Longrightarrow> logged K N y z \<Longrightarrow> logged K N x z"
  unfolding logged_def by (elim exE conjE) (simp, metis Un_iff set_append)

lemma run_logged: "cache_run K N x y \<Longrightarrow> cache_ok K N x \<Longrightarrow> logged K N x y"
proof (induction rule: cache_run.induct)
  case (step y z)
  from cache_step_done [OF step(2) run_ok [OF step(1,4)]] have "logged K N y z" by (simp add: step_done_def)
  with step.IH [OF step(4)] show ?case by (rule logged_trans)
qed (rule logged_refl)

lemma demo_run: "cache_run demo_config 4 (new_cache demo_config 4) demo_cache"
  using cache_run.step [OF cache_run.none cache_step.batch [OF demo_empty_fields(2) demo_fits demo_cache_made(1)]]
  by (simp add: demo_empty_def)

text \<open>C38: From the constructor on, through every run of \<open>cache_run\<close>, the cells of every stream keep
  their invariant, occupied cells have a sequence, and the ownership index lists exactly the cells and
  positions of every sequence whose view is available. A run is made of the edits \<open>clear\<close>, \<open>seq_rm\<close>, \<open>seq_cp\<close>,
  \<open>seq_keep\<close>, \<open>seq_add\<close> and \<open>seq_div\<close> and of placed batches. Not in it are shifts and divisions of a range in which
  the sequence shares a cell (\<open>range_owned\<close>): for these the property fails, since the code moves the shared cell but
  updates the index of one owner; nor transient and nested removals, nor copies between streams that are
  partial or run with the tracker.\<close>
theorem cache_run_invariant:
  assumes "0 < cc_n_stream K" and "cc_n_stream K \<le> LLAMA_MAX_SEQ" and "0 < N" and "N < 2 ^ 31 - 1" and "\<not> cc_other K"
    and "cache_run K N (new_cache K N) y"
  shows "cache_inv K N y \<and> in_sync K N y"
  using run_ok [OF assms(6) new_cache_ok] assms(1-5) by (simp add: cache_ok_def)

theorem cache_run_invariant_witness: "cache_inv demo_config 4 demo_cache \<and> in_sync demo_config 4 demo_cache"
  using cache_run_invariant [of demo_config 4 demo_cache] demo_run by (simp add: demo_config_def LLAMA_MAX_SEQ_def)




text \<open>C14: The generation tracker hears of every changed cell, or gives up. Take the calls that any run of the cache
  made, and make them at a tracker with no open event: with the mutation scopes that were open, refused or not, and
  whatever the tracker makes of them. Unless an assertion of the tracker stops it, in the end the tracker is latched
  as unavailable (a scope was refused, or a stamp was not covered by its manifest, and what followed ran untracked), or
  its whole image was invalidated, or every cell that differs was stamped.\<close>
theorem tracker_log_complete:
  assumes "cc_armed K" and "cache_ok K N x" and "cache_run K N x y"
    and "te_streams E = cc_n_stream K" and "te_cells E = N" and "ts_events G = Map.empty"
  shows "\<exists>calls. kc_calls y = kc_calls x @ calls \<and> (case replay E 0 calls G of None \<Rightarrow> True
    | Some G' \<Rightarrow> ts_shadow G' \<or> ts_invalid G' \<or>
        {(s, i). s < cc_n_stream K \<and> i < N \<and> cell_of y (s, i) \<noteq> cell_of x (s, i)} \<subseteq> ts_stamped G')"
proof -
  obtain calls where calls: "kc_calls y = kc_calls x @ calls" "\<forall>t \<in> set calls. call_ok t" "(\<exists>r c. Gen_Global r c \<in> set calls) \<or>
      (\<forall>s < cc_n_stream K. \<forall>i < N. cell_of y (s, i) \<noteq> cell_of x (s, i) \<longrightarrow> (\<exists>r qs p. Gen_Stamp r s i qs p \<in> set calls))"
    using run_logged [OF assms(3,2)] assms(1) unfolding logged_def by blast
  have ok: "events_ok G" using assms(6) by (simp add: events_ok_def)
  have "given_up G' \<or> (s, i) \<in> ts_stamped G'"
    if "replay E 0 calls G = Some G'" "s < cc_n_stream K" "i < N" "cell_of y (s, i) \<noteq> cell_of x (s, i)" for G' s i
    using calls(3) replay_global [OF that(1) ok calls(2)] replay_hears [OF that(1) ok calls(2)] that(2-4) assms(4,5) by metis
  then show ?thesis using calls(1) by (intro exI [of _ calls]) (auto simp: given_up_def split: option.split)
qed

definition demo_tracker :: tracker_env where
  "demo_tracker = \<lparr> te_instance = (1, 7), te_streams = 1, te_cells = 4,
     te_scope = (\<lambda>_. Some (vbr_mutation_binding Kind_decode 0 0 8 Cls_ordinary_decode (1, 7) 0)),
     te_begins = (\<lambda>_. True), te_extent = (\<lambda>_. True), te_wrap = (\<lambda>_. False), te_rearm = (\<lambda>_. False) \<rparr>"

definition demo_side :: tracker_side where
  "demo_side = \<lparr> ts_shadow = False, ts_events = Map.empty, ts_stamped = {}, ts_invalid = False \<rparr>"

lemma demo_calls: "kc_calls demo_empty = []"
    "kc_calls demo_cache = [Gen_Begin Reg_apply_ubatch_append Cls_ordinary_decode 0 Stamp_dependency False,
       Gen_Stamp Reg_apply_ubatch_append 0 0 [0] 0, Gen_Stamp Reg_apply_ubatch_append 0 1 [0] 1]"
  by code_simp+

lemma demo_replay:
  "map_option (\<lambda>G. (ts_shadow G, ts_invalid G)) (replay demo_tracker 0 (kc_calls demo_cache) demo_side) = Some (False, False)"
  unfolding demo_calls(2) by code_simp

text \<open>When the scope of the same batch is refused, no stamp arrives and the tracker is latched.\<close>

lemma demo_refused:
  "map_option (\<lambda>G. (ts_shadow G, (0, 1) \<in> ts_stamped G))
     (replay (demo_tracker\<lparr> te_scope := (\<lambda>_. None) \<rparr>) 0 (kc_calls demo_cache) demo_side) = Some (True, False)"
  unfolding demo_calls(2) by code_simp

theorem tracker_log_complete_witness:
  "\<exists>calls G'. kc_calls demo_cache = kc_calls demo_empty @ calls \<and> replay demo_tracker 0 calls demo_side = Some G' \<and>
    \<not> ts_shadow G' \<and> \<not> ts_invalid G' \<and> (0, 1) \<in> ts_stamped G'"
proof -
  have "cell_of demo_cache (0, 1) \<noteq> cell_of demo_empty (0, 1)"
    using demo_cache_cells(3) demo_empty_cells(1) [of 1] by (simp add: cell_of_def)
  then have changed: "(0, 1) \<in> {(s, i). s < cc_n_stream demo_config \<and> i < 4 \<and> cell_of demo_cache (s, i) \<noteq> cell_of demo_empty (s, i)}"
    by (simp add: demo_streams)
  have env: "te_streams demo_tracker = cc_n_stream demo_config" "te_cells demo_tracker = 4" "ts_events demo_side = Map.empty"
      "cc_armed demo_config"
    by (simp_all add: demo_tracker_def demo_side_def demo_config_def)
  from tracker_log_complete [OF env(4) demo_empty_ok demo_run [folded demo_empty_def] env(1-3)]
  obtain calls where c: "kc_calls demo_cache = kc_calls demo_empty @ calls"
      "case replay demo_tracker 0 calls demo_side of None \<Rightarrow> True | Some G' \<Rightarrow> ts_shadow G' \<or> ts_invalid G' \<or>
        {(s, i). s < cc_n_stream demo_config \<and> i < 4 \<and> cell_of demo_cache (s, i) \<noteq> cell_of demo_empty (s, i)} \<subseteq> ts_stamped G'"
    by blast
  then have "kc_calls demo_cache = calls" by (simp add: demo_calls(1))
  then obtain G' where "replay demo_tracker 0 calls demo_side = Some G'" "\<not> ts_shadow G'" "\<not> ts_invalid G'"
    using demo_replay by auto
  then show ?thesis using c changed by auto
qed

section \<open>The search for a slot\<close>

text \<open>C40: The search for a slot ends on every cache; it fails only when a stream has no room for its
  tokens, and what it finds are free or reusable cells in which the batch can be placed.\<close>
theorem find_slot_exact:
  assumes "cache_ok K N x" and "N < 2 ^ 30" and "batch_ok K x ub n"
  shows "\<exists>si. find_slot K ub cont x = Some si \<and>
    (if slot_empty si then \<exists>q \<in> set (slot_seqs K ub). \<not> room K N cont n x (kc_seq_to_stream x ! q)
     else slot_found K N cont n x (slot_seqs K ub) si \<and> slot_fits K N x si ub n)"
  using find_slot_outcome [OF cache_invD(1)] assms by (simp add: cache_ok_def)

lemma demo_batch_ok: "batch_ok demo_config demo_empty demo_batch 2"
proof -
  have "slot_seqs demo_config demo_batch = [0]" by (simp add: slot_seqs_def demo_streams demo_batch_def)
  then show ?thesis
    using demo_token_ok by (simp add: batch_ok_def demo_streams demo_empty_fields(1)) (simp add: demo_batch_def)
qed

theorem find_slot_exact_witness:
  "\<exists>si. find_slot demo_config demo_batch True demo_empty = Some si \<and> \<not> slot_empty si \<and>
    slot_fits demo_config 4 demo_empty si demo_batch 2"
proof -
  have "window (reusable demo_config 4 demo_empty 0) 4 2 0"
    using demo_empty_cells(1) by (simp add: window_def reusable_def)
  then have "room demo_config 4 True 2 demo_empty (kc_seq_to_stream demo_empty ! 0)"
    by (auto simp: room_def demo_empty_fields(1))
  moreover have "slot_seqs demo_config demo_batch = [0]" by (simp add: slot_seqs_def demo_streams demo_batch_def)
  ultimately show ?thesis
    using find_slot_exact [OF demo_empty_ok _ demo_batch_ok, of True] by (auto split: if_splits)
qed

section \<open>Sharing a prefix\<close>

lemma trimmed_held:
  assumes "\<And>k. seq_row K N y q k = trimmed n (seq_row K N x r k)" and "range_held K N x r p0 n"
  shows "range_held K N y q p0 n"
proof -
  have "map_option fst (trimmed n v) = Some p \<longleftrightarrow> map_option fst v = Some p \<and> p < n" for v p
    by (auto simp: trimmed_def split: option.splits)
  then have "range_held K N y q p0 n \<longleftrightarrow> (\<forall>p. p0 \<le> p \<and> p < n \<longrightarrow> (\<exists>!k. map_option fst (seq_row K N x r k) = Some p \<and> p < n))"
    by (simp only: range_held_def assms(1))
  also have "\<dots> \<longleftrightarrow> range_held K N x r p0 n"
    unfolding range_held_def by (intro iff_allI) (rule imp_cong [OF refl], simp only: simp_thms)
  finally show ?thesis using assms(2) by (rule iffD2)
qed

text \<open>C10: Sharing the prefix of \<open>n\<close> positions succeeds exactly when it is allowed: one stream, no
  pending shift, no attention window, an empty destination, and every position held once by the source.
  Then the destination holds the source's rows of these positions, once each, every other sequence keeps
  its rows; otherwise nothing changes.\<close>
theorem prefix_share_exact:
  assumes "cache_ok K N x" and "epochs_left K x"
  shows "\<exists>b y. try_share_attn_prefix K src dst n x = Some (b, y) \<and> cache_ok K N y \<and>
    (b \<longleftrightarrow> cc_n_swa K = 0 \<and> cc_swa_type K = SWA_NONE \<and> 0 < n \<and> sharable K N src dst x \<and> range_held K N x (nat src) 0 n) \<and>
    (\<forall>q k. seq_row K N y q k = (if b \<and> q = nat dst then trimmed n (seq_row K N x (nat src) k) else seq_row K N x q k)) \<and>
    (b \<longrightarrow> range_held K N y (nat dst) 0 n)"
proof -
  define allowed where "allowed = (cc_n_swa K = 0 \<and> cc_swa_type K = SWA_NONE \<and> 0 < n \<and> range_held K N x (nat src) 0 n)"
  have base: "cache_base K N x" "\<not> cc_other K" using assms(1) cache_invD(1) by (auto simp: cache_ok_def)
  have "can_share_attn_prefix K src dst n x = Some (allowed \<and> sharable K N src dst x)"
    unfolding can_share_attn_prefix_def allowed_def can_share_range_exact [OF base] by auto
  from try_share_exact [OF assms this, of n] have "\<exists>b y. try_share_attn_prefix K src dst n x = Some (b, y) \<and> cache_ok K N y \<and>
      (b \<longleftrightarrow> allowed \<and> sharable K N src dst x) \<and>
      (\<forall>q k. seq_row K N y q k = (if b \<and> q = nat dst then trimmed n (seq_row K N x (nat src) k) else seq_row K N x q k))"
    by (simp only: try_share_attn_prefix_def allowed_def) simp
  then obtain b y where
      y: "try_share_attn_prefix K src dst n x = Some (b, y)" "cache_ok K N y" "b \<longleftrightarrow> allowed \<and> sharable K N src dst x"
        "\<forall>q k. seq_row K N y q k = (if b \<and> q = nat dst then trimmed n (seq_row K N x (nat src) k) else seq_row K N x q k)"
    by blast
  have "b \<longrightarrow> range_held K N y (nat dst) 0 n"
    using trimmed_held [of K N y "nat dst" n x "nat src" 0] y(3,4) by (simp add: allowed_def)
  with y show ?thesis unfolding allowed_def by blast
qed

lemma demo_not_held: "\<not> range_held demo_config 4 demo_cache 0 0 3"
proof
  assume "range_held demo_config 4 demo_cache 0 0 3"
  then obtain i where i: "i < 4" "0 \<in> cseq demo_cache 0 i" "cpos demo_cache 0 i = 2"
    using range_held_cells [of demo_config 4 demo_cache 0 0 3] demo_streams by (force dest: spec [of _ 2])
  then show False using demo_cache_free [of i] demo_cache_cells(1,3) by (cases "1 < i") (auto simp: less_2_cases_iff not_less le_Suc_eq)
qed

theorem prefix_share_exact_witness:
  "\<exists>y. try_share_attn_prefix demo_config 0 1 3 demo_cache = Some (False, y) \<and>
    (\<forall>q k. seq_row demo_config 4 y q k = seq_row demo_config 4 demo_cache q k)"
  using prefix_share_exact [OF demo_cache_ok demo_cache_epochs, of 0 1 3] demo_not_held by auto

section \<open>Planning\<close>

lemma plan_keeps_ok:
  assumes "cache_ok K N x" and "cache_inv K N y" and "plan_frame x y" and "same_cells K N x y"
  shows "cache_ok K N y"
proof -
  have "owner_maps N y s q = owner_maps N x s q" if "s < cc_n_stream K" for s q
    using assms(4) that by (auto simp: owner_maps_def same_cells_def cell_of_def fun_eq_iff)
  then have "in_sync K N y"
    using assms(1,3) by (auto simp: cache_ok_def idx_ok_def index_tracks_def views_agree_def plan_frame_def edit_frame_def
        split: option.splits)
  then show ?thesis using assms by (simp add: cache_ok_def plan_frame_def edit_frame_def)
qed

text \<open>C8: Planning batches, though it places every one of them, leaves no trace: it returns, every cell,
  head, epoch, the ownership index and the tracker are as before, and each slot of a complete plan is a
  slot the batch can be committed in.\<close>
theorem plan_slots_traceless:
  assumes "cache_ok K N x" and "N < 2 ^ 30" and "\<forall>s < cc_n_stream K. \<forall>i < N. cshift x s i = 0"
    and "ubs \<noteq> []" and "\<forall>ub \<in> set ubs. \<exists>n. batch_ok K x ub n"
  shows "\<exists>res y. plan_slots K ubs x = Some (res, y) \<and> cache_ok K N y \<and>
    (\<forall>s < cc_n_stream K. \<forall>i < N. cell_of y (s, i) = cell_of x (s, i)) \<and> kc_heads y = kc_heads x \<and>
    kc_seq_epochs y = kc_seq_epochs x \<and> kc_ownership y = kc_ownership x \<and> kc_calls y = kc_calls x \<and>
    kc_stash_dirty y = kc_stash_dirty x \<and>
    (res = [] \<or> list_all2 (\<lambda>si ub. \<exists>n. slot_fits K N x si ub n) res ubs)"
proof -
  obtain res y where y: "plan_slots K ubs x = Some (res, y)" "cache_inv K N y" "plan_frame x y" "kc_heads y = kc_heads x"
      "same_cells K N x y" "kc_stash_dirty y = kc_stash_dirty x"
      "res = [] \<or> list_all2 (\<lambda>si ub. \<exists>n. slot_fits K N x si ub n) res ubs"
    using plan_slots_done [OF assms(1,2) _ assms(4,5)] assms(3) unfolding unshifted_def by blast
  moreover have "cache_ok K N y" by (rule plan_keeps_ok [OF assms(1) y(2,3,5)])
  ultimately show ?thesis by (auto simp: plan_frame_def edit_frame_def same_cells_def)
qed

lemma demo_empty_shift: "i < 4 \<Longrightarrow> cshift demo_empty 0 i = 0"
  by (auto simp: kv_resize_def vec_resize_def kv_fresh_def kv_reset_def touch_all_def less_Suc_eq numeral_nat demo_empty_def
      new_cache_def demo_config_def Let_def)

theorem plan_slots_traceless_witness:
  "\<exists>res y. plan_slots demo_config [demo_batch, demo_batch] demo_empty = Some (res, y) \<and>
    (\<forall>i < 4. cell_of y (0, i) = cell_of demo_empty (0, i)) \<and> kc_heads y = kc_heads demo_empty"
proof -
  have "\<forall>s < cc_n_stream demo_config. \<forall>i < 4. cshift demo_empty s i = 0"
    using demo_empty_shift by (simp add: demo_streams)
  from plan_slots_traceless [OF demo_empty_ok _ this, of "[demo_batch, demo_batch]"] demo_batch_ok show ?thesis
    by (auto simp: demo_streams)
qed

end
