(* ===== verification/Batch_Alloc.thy ===== *)
theory Batch_Alloc
  imports Kv_Batch
begin

text \<open>
  \<open>llama_batch_allocr\<close> of \<^verbatim>\<open>src/src/llama-batch.cpp\<close>: a batch is checked, its missing fields are
  generated, and it is split into micro-batches of single tokens, of equally long sequence sets, or of
  one sequence set after the other. An array of the input is a list, absent where the pointer is null;
  a row of embeddings is a block of 32-bit words. \<open>None\<close> is an access outside an array or a failed
  assertion; a batch that is refused is an \<open>Inl\<close> with the reason the code logs.
\<close>

section \<open>Batches and the allocator\<close>

record llama_batch =
  lb_n_tokens :: int
  lb_token :: "int list option"
  lb_embd :: "u32 list option"
  lb_pos :: "int list option"
  lb_n_seq_id :: "int list option"
  lb_seq_id :: "int list option list option"
  lb_logits :: "int list option"

record batch_allocr =
  ba_n_pos_per_embd :: nat
  ba_allow_mixed :: bool
  ba_n_tokens :: nat
  ba_token :: "int list option"
  ba_embd :: "u32 list option"
  ba_pos :: "int list"
  ba_seq_id :: "nat list list"
  ba_logits :: "int list"
  ba_n_embd :: nat
  ba_n_seq_max :: nat
  ba_n_outputs :: nat
  ba_is_embd :: "bool list"
  ba_pos_expanded :: bool
  ba_decision_order :: "int list"
  ba_seq_id_unq :: "nat list"
  ba_seq_idx :: "int list"
  ba_has_cpl :: bool
  ba_seq_pos :: "nat \<Rightarrow> int set"
  ba_seq_cpl :: "nat \<Rightarrow> nat \<Rightarrow> bool"
  ba_seq_set :: "nat set list"
  ba_seq_map :: "nat set \<Rightarrow> nat list"
  ba_out_ids :: "nat list"
  ba_n_used :: nat
  ba_used :: "bool list"

datatype batch_error =
    Mixed_Rows | Empty_Batch | Too_Many_Seqs | Bad_Token nat | Bad_Seq_Set nat | Bad_Seq_Id nat nat
  | Bad_Start nat | Gap nat | Diverged nat nat | Partial_Set nat nat | Decreasing nat nat

text \<open>The bounds of a sequence in the memory the batch goes to: its least and greatest position.\<close>

type_synonym memory_bounds = "nat \<Rightarrow> int \<times> int"

section \<open>Checking the input\<close>

fun first_error :: "('a \<Rightarrow> 'e option) \<Rightarrow> 'a list \<Rightarrow> 'e option" where
  "first_error f [] = None"
| "first_error f (x # xs) = (case f x of Some e \<Rightarrow> Some e | None \<Rightarrow> first_error f xs)"

text \<open>What the interface promises of the arrays: one entry per token, and rows as long as they say.\<close>

definition batch_shape :: "llama_batch \<Rightarrow> bool" where
  "batch_shape b \<longleftrightarrow> (let n = nat (lb_n_tokens b); has = (\<lambda>f. case f of None \<Rightarrow> True | Some xs \<Rightarrow> n \<le> length xs) in
     has (lb_token b) \<and> has (lb_pos b) \<and> has (lb_n_seq_id b) \<and> has (lb_logits b) \<and>
     (case lb_seq_id b of None \<Rightarrow> True | Some rows \<Rightarrow> n \<le> length rows \<and>
        (\<forall>i < n. case rows ! i of None \<Rightarrow> True
           | Some r \<Rightarrow> nat (case lb_n_seq_id b of None \<Rightarrow> 1 | Some ns \<Rightarrow> ns ! i) \<le> length r)))"

definition extended_shape :: "nat \<Rightarrow> (bool list \<times> int list) option \<Rightarrow> bool" where
  "extended_shape n extended \<longleftrightarrow> (case extended of None \<Rightarrow> True
     | Some (ty, ord) \<Rightarrow> (ty = [] \<or> n \<le> length ty) \<and> (ord = [] \<or> n \<le> length ord))"

definition token_error :: "nat \<Rightarrow> int list \<Rightarrow> nat \<Rightarrow> batch_error option" where
  "token_error n_vocab ts i = (if ts ! i < 0 \<or> ts ! i \<ge> int n_vocab then Some (Bad_Token i) else None)"

definition row_ids :: "llama_batch \<Rightarrow> nat \<Rightarrow> int" where
  "row_ids b i = (case lb_n_seq_id b of None \<Rightarrow> 1 | Some ns \<Rightarrow> ns ! i)"

definition seq_row_error :: "llama_batch \<Rightarrow> nat \<Rightarrow> int list option list \<Rightarrow> nat \<Rightarrow> batch_error option" where
  "seq_row_error b max_seqs rows i =
    (case rows ! i of None \<Rightarrow> Some (Bad_Seq_Set i)
     | Some r \<Rightarrow> if row_ids b i \<le> 0 \<or> row_ids b i > int max_seqs then Some (Bad_Seq_Set i)
         else first_error (\<lambda>s. if r ! s < 0 \<or> r ! s \<ge> int max_seqs then Some (Bad_Seq_Id i s) else None)
           [0..<nat (row_ids b i)])"

section \<open>Generating the missing fields\<close>

definition gen_seq_ids :: "llama_batch \<Rightarrow> nat list list" where
  "gen_seq_ids b = (case lb_seq_id b of
       None \<Rightarrow> replicate (nat (lb_n_tokens b)) [0]
     | Some rows \<Rightarrow> map (\<lambda>i. map nat (take (nat (row_ids b i)) (the (rows ! i)))) [0..<nat (lb_n_tokens b)])"

definition pos_start :: "memory_bounds option \<Rightarrow> nat \<Rightarrow> int" where
  "pos_start memory s = (case memory of None \<Rightarrow> 0 | Some m \<Rightarrow> snd (m s) + 1)"

text \<open>Each token takes the next position of its first sequence, and moves all its sequences past it.\<close>

fun gen_pos :: "(nat \<Rightarrow> int) \<Rightarrow> nat list list \<Rightarrow> int list" where
  "gen_pos p0 [] = []"
| "gen_pos p0 (qs # rows) = (let p = p0 (hd qs) in p # gen_pos (\<lambda>q. if q \<in> set qs then p + 1 else p0 q) rows)"

definition gen_logits :: "llama_batch \<Rightarrow> bool \<Rightarrow> int list" where
  "gen_logits b output_all = (let n = nat (lb_n_tokens b) in
     case lb_logits b of
       None \<Rightarrow> if output_all then replicate n 1 else (replicate n 0)[n - 1 := 1]
     | Some ls \<Rightarrow> if output_all \<and> (\<exists>i \<in> {..<n}. ls ! i = 0) then replicate n 1 else take n ls)"

section \<open>Statistics\<close>

fun seq_positions :: "nat list list \<Rightarrow> int list \<Rightarrow> nat \<Rightarrow> int set" where
  "seq_positions (qs # rows) (p # ps) q =
     (if q \<in> set qs then insert p (seq_positions rows ps q) else seq_positions rows ps q)"
| "seq_positions _ _ q = {}"

definition coupled :: "nat list list \<Rightarrow> nat \<Rightarrow> nat \<Rightarrow> bool" where
  "coupled rows s1 s0 \<longleftrightarrow> list_ex (\<lambda>qs. hd qs = s0 \<and> s1 \<in> set (tl qs)) rows"

definition seq_sets :: "nat list list \<Rightarrow> nat set list" where
  "seq_sets rows = map set rows"

definition set_indices :: "nat set list \<Rightarrow> nat set \<Rightarrow> nat list" where
  "set_indices sets q = filter (\<lambda>i. sets ! i = q) [0..<length sets]"

definition unique_seqs :: "nat \<Rightarrow> nat list list \<Rightarrow> nat list" where
  "unique_seqs max_seqs rows = filter (\<lambda>s. list_ex (\<lambda>qs. s \<in> set qs) rows) [0..<max_seqs]"

text \<open>\<open>seq_idx\<close>: the place of a sequence in the list of the unique ones, \<open>-1\<close> for the others.\<close>

definition index_of_seqs :: "nat list \<Rightarrow> int list" where
  "index_of_seqs unq = map (\<lambda>s. if s \<in> set unq then int (length (takeWhile (\<lambda>u. u \<noteq> s) unq)) else -1) [0..<LLAMA_MAX_SEQ]"

definition pos_min :: "batch_allocr \<Rightarrow> nat \<Rightarrow> int" where
  "pos_min A s = (if ba_seq_pos A s = {} then -1 else Min (ba_seq_pos A s))"

definition pos_max :: "batch_allocr \<Rightarrow> nat \<Rightarrow> int" where
  "pos_max A s = (if ba_seq_pos A s = {} then -1 else Max (ba_seq_pos A s))"

section \<open>Consistency checks\<close>

text \<open>Whether the first entry of a sequence is an embedding (in a mixed batch), or all are.\<close>

definition first_embd :: "batch_allocr \<Rightarrow> nat \<Rightarrow> bool" where
  "first_embd A s =
    (let all = (ba_token A = None) in
     if ba_is_embd A = [] then all
     else case find (\<lambda>i. s \<in> set (ba_seq_id A ! i)) [0..<ba_n_tokens A] of Some i \<Rightarrow> ba_is_embd A ! i | None \<Rightarrow> all)"

definition start_error :: "memory_bounds option \<Rightarrow> batch_allocr \<Rightarrow> nat \<Rightarrow> batch_error option" where
  "start_error memory A s =
    (let p0 = (case memory of None \<Rightarrow> -1 | Some m \<Rightarrow> snd (m s)); mixed = (ba_is_embd A \<noteq> []) in
     if ba_seq_pos A s = {} then None
     else if ba_n_pos_per_embd A > 1 then
       if p0 \<ge> 0 \<and> (if mixed \<and> \<not> first_embd A s then p0 \<ge> pos_min A s else p0 > pos_min A s)
       then Some (Bad_Start s) else None
     else if p0 \<ge> 0 \<and> pos_min A s \<noteq> p0 + 1 then Some (Bad_Start s)
     else if pos_max A s - pos_min A s + 1 > int (card (ba_seq_pos A s)) then Some (Gap s)
     else None)"

definition coupling_error :: "memory_bounds option \<Rightarrow> batch_allocr \<Rightarrow> nat \<Rightarrow> batch_error option" where
  "coupling_error memory A s0 = (case memory of None \<Rightarrow> None
     | Some m \<Rightarrow> if ba_seq_pos A s0 = {} then None
         else first_error (\<lambda>s1. if ba_seq_cpl A s0 s1 \<and> m s0 \<noteq> m s1 then Some (Diverged s0 s1) else None)
           [0..<ba_n_seq_max A])"

text \<open>One entry of the last check: a sequence narrows the sets of its tokens and its positions never decrease.\<close>

type_synonym order_state = "(nat \<Rightarrow> nat set) \<times> (nat \<Rightarrow> int)"

definition order_entry :: "batch_allocr \<Rightarrow> nat \<Rightarrow> nat \<Rightarrow> order_state \<Rightarrow> batch_error + order_state" where
  "order_entry A i q = (\<lambda>(sets, last).
     if sets q \<inter> ba_seq_set A ! i = {} then Inl (Partial_Set i q)
     else if ba_pos A ! i < last q then Inl (Decreasing i q)
     else Inr (sets(q := sets q \<inter> ba_seq_set A ! i), last(q := ba_pos A ! i)))"

fun foldE :: "('a \<Rightarrow> 's \<Rightarrow> 'e + 's) \<Rightarrow> 'a list \<Rightarrow> 's \<Rightarrow> 'e + 's" where
  "foldE f [] s = Inr s"
| "foldE f (x # xs) s = (case f x s of Inl e \<Rightarrow> Inl e | Inr s' \<Rightarrow> foldE f xs s')"

definition order_error :: "batch_allocr \<Rightarrow> batch_error option" where
  "order_error A = (case foldE (\<lambda>i. foldE (order_entry A i) (ba_seq_id A ! i)) [0..<ba_n_tokens A]
       ((\<lambda>_. {..<LLAMA_MAX_SEQ}), (\<lambda>_. -1)) of
     Inl e \<Rightarrow> Some e | Inr _ \<Rightarrow> None)"

section \<open>\<open>init\<close>\<close>

definition new_allocr :: "nat \<Rightarrow> bool \<Rightarrow> batch_allocr" where
  "new_allocr n_pos mixed = \<lparr> ba_n_pos_per_embd = n_pos, ba_allow_mixed = mixed, ba_n_tokens = 0, ba_token = None,
     ba_embd = None, ba_pos = [], ba_seq_id = [], ba_logits = [], ba_n_embd = 0, ba_n_seq_max = 0, ba_n_outputs = 0,
     ba_is_embd = [], ba_pos_expanded = False, ba_decision_order = [], ba_seq_id_unq = [],
     ba_seq_idx = replicate LLAMA_MAX_SEQ (-1), ba_has_cpl = False, ba_seq_pos = (\<lambda>_. {}), ba_seq_cpl = (\<lambda>_ _. False),
     ba_seq_set = [], ba_seq_map = (\<lambda>_. []), ba_out_ids = [], ba_n_used = 0, ba_used = [] \<rparr>"

definition split_reset :: "batch_allocr \<Rightarrow> batch_allocr" where
  "split_reset A = A\<lparr> ba_out_ids := [], ba_n_used := 0, ba_used := replicate (ba_n_tokens A) False \<rparr>"

text \<open>Every field is replaced; \<open>extended\<close> carries the row types and the decision order of an extended batch.\<close>

definition fill_allocr :: "llama_batch \<Rightarrow> memory_bounds option \<Rightarrow> nat \<Rightarrow> nat \<Rightarrow> bool \<Rightarrow> (bool list \<times> int list) option \<Rightarrow>
    batch_allocr \<Rightarrow> batch_allocr" where
  "fill_allocr b memory n_embd max_seqs output_all extended A =
    (let n = nat (lb_n_tokens b); rows = gen_seq_ids b;
         pos = (case lb_pos b of Some ps \<Rightarrow> ps | None \<Rightarrow> gen_pos (pos_start memory) rows);
         logits = gen_logits b output_all; sets = seq_sets rows; unq = unique_seqs max_seqs rows in
     \<lparr> ba_n_pos_per_embd = ba_n_pos_per_embd A, ba_allow_mixed = ba_allow_mixed A, ba_n_tokens = n,
       ba_token = lb_token b, ba_embd = lb_embd b, ba_pos = pos, ba_seq_id = rows, ba_logits = logits,
       ba_n_embd = n_embd, ba_n_seq_max = max_seqs, ba_n_outputs = length (filter (\<lambda>l. l \<noteq> 0) logits),
       ba_is_embd = (case extended of None \<Rightarrow> [] | Some (ty, ord) \<Rightarrow> ty), ba_pos_expanded = (extended \<noteq> None),
       ba_decision_order = (case extended of None \<Rightarrow> [] | Some (ty, ord) \<Rightarrow> ord),
       ba_seq_id_unq = unq, ba_seq_idx = index_of_seqs unq, ba_has_cpl = list_ex (\<lambda>qs. length qs > 1) rows,
       ba_seq_pos = seq_positions rows (take n pos), ba_seq_cpl = coupled rows, ba_seq_set = sets,
       ba_seq_map = set_indices sets, ba_out_ids = ba_out_ids A, ba_n_used = ba_n_used A, ba_used = ba_used A \<rparr>)"

definition batch_init :: "llama_batch \<Rightarrow> nat \<Rightarrow> memory_bounds option \<Rightarrow> nat \<Rightarrow> nat \<Rightarrow> bool \<Rightarrow> bool \<Rightarrow>
    (bool list \<times> int list) option \<Rightarrow> batch_allocr \<Rightarrow> (batch_error + batch_allocr) option" where
  "batch_init b n_vocab memory n_embd max_seqs output_all validated extended A =
    (let n = nat (lb_n_tokens b); mixed = (case extended of None \<Rightarrow> False | Some (ty, ord) \<Rightarrow> ty \<noteq> []) in
     if mixed \<and> \<not> ba_allow_mixed A then Some (Inl Mixed_Rows)
     else if lb_n_tokens b \<le> 0 \<or> (lb_token b = None \<and> lb_embd b = None) then Some (Inl Empty_Batch)
     else if max_seqs > LLAMA_MAX_SEQ then Some (Inl Too_Many_Seqs)
     else do {
       assertion (batch_shape b \<and> extended_shape n extended);
       case (case lb_token b of Some ts \<Rightarrow> if validated then None else first_error (token_error n_vocab ts) [0..<n] | None \<Rightarrow> None) of
         Some e \<Rightarrow> Some (Inl e)
       | None \<Rightarrow>
       case (case lb_seq_id b of Some rows \<Rightarrow> first_error (seq_row_error b max_seqs rows) [0..<n] | None \<Rightarrow> None) of
         Some e \<Rightarrow> Some (Inl e)
       | None \<Rightarrow> do {
         assertion (0 < max_seqs);
         let F = fill_allocr b memory n_embd max_seqs output_all extended A;
         case first_error (start_error memory F) [0..<max_seqs] of Some e \<Rightarrow> Some (Inl e)
         | None \<Rightarrow> case first_error (coupling_error memory F) [0..<max_seqs] of Some e \<Rightarrow> Some (Inl e)
         | None \<Rightarrow> case order_error F of Some e \<Rightarrow> Some (Inl e)
         | None \<Rightarrow> Some (Inr (split_reset F)) } })"

section \<open>Micro-batches\<close>

record ubatch_data =
  ud_ubatch :: ubatch
  ud_equal_seqs :: bool
  ud_n_seq_tokens :: nat
  ud_n_seqs :: nat
  ud_embd :: "u32 list option"
  ud_seq_idx :: "int list"
  ud_output :: "int list"
  ud_decision_order :: "int list option"
  ud_batch_idxs :: "nat list"

definition no_ubatch :: ubatch_data where
  "no_ubatch = \<lparr> ud_ubatch = \<lparr> ub_n_tokens = 0, ub_n_pos = 0, ub_token = None, ub_type = None, ub_pos = [],
       ub_seq_id = [], ub_seq_id_unq = [] \<rparr>,
     ud_equal_seqs = False, ud_n_seq_tokens = 0, ud_n_seqs = 0, ud_embd = None, ud_seq_idx = [], ud_output = [],
     ud_decision_order = None, ud_batch_idxs = [] \<rparr>"

definition ubatch_pos :: "batch_allocr \<Rightarrow> nat list \<Rightarrow> int list" where
  "ubatch_pos A idxs = concat (map (\<lambda>j. map (\<lambda>i.
       if ba_pos_expanded A \<or> ba_token A = None then ba_pos A ! (j * ba_n_tokens A + i)
       else if j < 3 then ba_pos A ! i else 0) idxs) [0..<ba_n_pos_per_embd A])"

definition pos_readable :: "batch_allocr \<Rightarrow> nat list \<Rightarrow> bool" where
  "pos_readable A idxs \<longleftrightarrow> (\<forall>j \<in> {..<ba_n_pos_per_embd A}. \<forall>i \<in> set idxs.
     (if ba_pos_expanded A \<or> ba_token A = None then j * ba_n_tokens A + i else i) < length (ba_pos A))"

definition embd_readable :: "batch_allocr \<Rightarrow> nat list \<Rightarrow> bool" where
  "embd_readable A idxs \<longleftrightarrow> (case ba_embd A of None \<Rightarrow> True
     | Some e \<Rightarrow> list_all (\<lambda>i. (i + 1) * ba_n_embd A \<le> length e) idxs)"

definition ubatch_add :: "nat list \<Rightarrow> nat \<Rightarrow> bool \<Rightarrow> batch_allocr \<Rightarrow> (ubatch_data \<times> batch_allocr) option" where
  "ubatch_add idxs n_seqs equal A = do {
     let n = length idxs;
     assertion (n_seqs \<noteq> 0 \<and> n mod n_seqs = 0);
     assertion (list_all (\<lambda>i. i < ba_n_tokens A) idxs \<and> pos_readable A idxs \<and> embd_readable A idxs);
     let mixed_batch = (ba_is_embd A \<noteq> []);
     let n_embd_rows = (if mixed_batch then length (filter (\<lambda>i. ba_is_embd A ! i) idxs) else 0);
     let mixed = (mixed_batch \<and> n_embd_rows > 0 \<and> n_embd_rows < n);
     let use_token = (ba_token A \<noteq> None \<and> \<not> (mixed_batch \<and> n_embd_rows = n));
     let use_embd = (ba_embd A \<noteq> None \<and> \<not> (mixed_batch \<and> n_embd_rows = 0));
     let rows = map (\<lambda>i. ba_seq_id A ! i) idxs;
     let unq = unique_seqs (ba_n_seq_max A) rows;
     Some (\<lparr> ud_ubatch = \<lparr> ub_n_tokens = n, ub_n_pos = ba_n_pos_per_embd A,
            ub_token = (if use_token then Some (map (\<lambda>i. the (ba_token A) ! i) idxs) else None),
            ub_type = (if mixed then Some (map (\<lambda>i. ba_is_embd A ! i) idxs) else None),
            ub_pos = ubatch_pos A idxs, ub_seq_id = rows, ub_seq_id_unq = unq \<rparr>,
          ud_equal_seqs = equal, ud_n_seq_tokens = n div n_seqs, ud_n_seqs = n_seqs,
          ud_embd = (if use_embd then Some (concat (map (\<lambda>i. take (ba_n_embd A) (drop (i * ba_n_embd A) (the (ba_embd A)))) idxs)) else None),
          ud_seq_idx = index_of_seqs unq,
          ud_output = map (\<lambda>i. ba_logits A ! i) idxs,
          ud_decision_order = (if ba_decision_order A = [] then None else Some (map (\<lambda>i. ba_decision_order A ! i) idxs)),
          ud_batch_idxs = idxs \<rparr>,
        A\<lparr> ba_out_ids := ba_out_ids A @ filter (\<lambda>i. ba_logits A ! i \<noteq> 0) idxs \<rparr>) }"

section \<open>The three splits\<close>

definition first_unused :: "batch_allocr \<Rightarrow> nat" where
  "first_unused A = length (takeWhile (\<lambda>u. u) (ba_used A))"

definition use_token_at :: "nat \<Rightarrow> batch_allocr \<Rightarrow> batch_allocr" where
  "use_token_at i A = A\<lparr> ba_used := (ba_used A)[i := True], ba_n_used := ba_n_used A + 1 \<rparr>"

definition unuse_token_at :: "nat \<Rightarrow> batch_allocr \<Rightarrow> batch_allocr" where
  "unuse_token_at i A = A\<lparr> ba_used := (ba_used A)[i := False], ba_n_used := ba_n_used A - 1 \<rparr>"

function simple_loop :: "nat \<Rightarrow> nat \<Rightarrow> nat list \<Rightarrow> batch_allocr \<Rightarrow> nat list \<times> batch_allocr" where
  "simple_loop n_ubatch cur idxs A =
    (let idxs' = idxs @ [cur]; A' = use_token_at cur A in
     if cur + 1 \<ge> length (ba_used A) \<or> length idxs' \<ge> n_ubatch then (idxs', A')
     else simple_loop n_ubatch (cur + 1) idxs' A')"
  by pat_completeness auto
termination
  by (relation "measure (\<lambda>(n, cur, idxs, A). length (ba_used A) - cur)") (auto simp: use_token_at_def)

declare simple_loop.simps [simp del]

definition split_simple :: "nat \<Rightarrow> batch_allocr \<Rightarrow> (ubatch_data \<times> batch_allocr) option" where
  "split_simple n_ubatch A =
    (if first_unused A \<ge> length (ba_used A) then Some (no_ubatch, A)
     else let (idxs, A') = simple_loop n_ubatch (first_unused A) [] A in ubatch_add idxs (length idxs) False A')"

text \<open>The non-overlapping sequence sets of the unused tokens, in order of appearance.\<close>

fun equal_sets :: "batch_allocr \<Rightarrow> nat \<Rightarrow> bool \<Rightarrow> nat list \<Rightarrow> nat set list \<Rightarrow> int \<Rightarrow> nat set list" where
  "equal_sets A n_ubatch sequential [] sets prev = sets"
| "equal_sets A n_ubatch sequential (i # ks) sets prev =
    (if ba_used A ! i then equal_sets A n_ubatch sequential ks sets prev
     else if list_all (\<lambda>q. q \<inter> ba_seq_set A ! i = {}) sets \<and>
             (sequential \<longrightarrow> sets = [] \<or> int (hd (ba_seq_id A ! i)) = prev + 1)
     then (if length sets + 1 > n_ubatch then sets @ [ba_seq_set A ! i]
           else equal_sets A n_ubatch sequential ks (sets @ [ba_seq_set A ! i]) (int (hd (ba_seq_id A ! i))))
     else equal_sets A n_ubatch sequential ks sets prev)"

text \<open>The state of the loop: per set the place in its list of tokens, the tokens taken, and the allocator.\<close>

definition equal_start :: "batch_allocr \<Rightarrow> nat set \<Rightarrow> nat option" where
  "equal_start A q = (let k = length (takeWhile (\<lambda>i. ba_used A ! i) (ba_seq_map A q)) in
     if k < length (ba_seq_map A q) then Some k else None)"

definition equal_take :: "nat set list \<Rightarrow> nat \<Rightarrow> nat list \<times> nat list list \<times> batch_allocr \<Rightarrow> nat list \<times> nat list list \<times> batch_allocr" where
  "equal_take sets s = (\<lambda>(cur, per, A). let i = ba_seq_map A (sets ! s) ! (cur ! s) in
     (cur[s := cur ! s + 1], per[s := per ! s @ [i]], use_token_at i A))"

partial_function (option) equal_loop :: "nat \<Rightarrow> nat set list \<Rightarrow> nat list \<times> nat list list \<times> batch_allocr \<Rightarrow>
    (nat list \<times> nat list list \<times> batch_allocr) option" where
  "equal_loop n_ubatch sets st =
    (if list_ex (\<lambda>s. fst st ! s \<ge> length (ba_seq_map (snd (snd st)) (sets ! s))) [0..<length sets] then Some st
     else let st' = fold (equal_take sets) [0..<length sets] st in
       if (length (fst (snd st') ! 0) + 1) * length sets > n_ubatch then Some st'
       else equal_loop n_ubatch sets st')"

definition remaining :: "nat set list \<Rightarrow> nat list \<times> nat list list \<times> batch_allocr \<Rightarrow> nat \<Rightarrow> nat" where
  "remaining sets = (\<lambda>(cur, per, A) s. length (ba_seq_map A (sets ! s)) - cur ! s)"

definition drop_last_token :: "nat \<Rightarrow> nat list \<times> nat list list \<times> batch_allocr \<Rightarrow> (nat list \<times> nat list list \<times> batch_allocr) option" where
  "drop_last_token k = (\<lambda>(cur, per, A). do {
     assertion (per ! 0 \<noteq> []);
     Some (cur[0 := cur ! 0 - 1], per[0 := butlast (per ! 0)], unuse_token_at (last (per ! 0)) A) })"

definition keep_tail :: "nat \<Rightarrow> nat \<Rightarrow> nat set list \<Rightarrow> nat list \<times> nat list list \<times> batch_allocr \<Rightarrow>
    (nat \<times> nat list list \<times> batch_allocr) option" where
  "keep_tail n_ubatch tail sets st =
    (if tail = 0 then Some (length sets, snd st)
     else do {
       assertion (n_ubatch > tail);
       let n_keep = length (takeWhile (\<lambda>s. \<not> (remaining sets st s \<noteq> 0 \<and> remaining sets st s < tail)) [0..<length sets]);
       (cur, per, A) \<leftarrow> (if n_keep \<noteq> 0 then Some st
         else if length (fst (snd st) ! 0) + remaining sets st 0 \<le> n_ubatch
         then Some (((equal_take sets 0) ^^ remaining sets st 0) st)
         else foldM drop_last_token [0..<tail - remaining sets st 0] st);
       let n_keep' = (if n_keep = 0 then 1 else n_keep);
       Some (n_keep', per, fold unuse_token_at (concat (drop n_keep' per)) A) })"

definition split_equal :: "nat \<Rightarrow> bool \<Rightarrow> nat \<Rightarrow> batch_allocr \<Rightarrow> (ubatch_data \<times> batch_allocr) option" where
  "split_equal n_ubatch sequential tail A =
    (if sequential \<and> ba_has_cpl A then Some (no_ubatch, A)
     else do {
       let sets = equal_sets A n_ubatch sequential [0..<ba_n_tokens A] [] (-1);
       if sets = [] then Some (no_ubatch, A)
       else do {
         assertion (list_all (\<lambda>q. equal_start A q \<noteq> None) sets);
         let cur = map (\<lambda>q. the (equal_start A q)) sets;
         st \<leftarrow> equal_loop n_ubatch sets (cur, replicate (length sets) [], A);
         (n_seqs, per, A') \<leftarrow> keep_tail n_ubatch tail sets st;
         ubatch_add (concat (take n_seqs per)) n_seqs True A' } })"

text \<open>One sequence set: the next unused token whose set is contained in that of the last one.\<close>

definition seq_next :: "nat set \<Rightarrow> nat \<Rightarrow> batch_allocr \<Rightarrow> nat option" where
  "seq_next q cur A = find (\<lambda>i. \<not> (ba_used A ! i \<or> q \<inter> ba_seq_set A ! i \<noteq> ba_seq_set A ! i)) [cur + 1..<ba_n_tokens A]"

function seq_loop :: "nat \<Rightarrow> nat \<Rightarrow> nat set \<Rightarrow> nat list \<Rightarrow> batch_allocr \<Rightarrow> nat list \<times> batch_allocr" where
  "seq_loop n_ubatch cur q idxs A =
    (let idxs' = idxs @ [cur]; A' = use_token_at cur A in
     if length idxs' \<ge> n_ubatch then (idxs', A')
     else case seq_next q cur A' of None \<Rightarrow> (idxs', A')
       | Some i \<Rightarrow> seq_loop n_ubatch i (ba_seq_set A' ! i) idxs' A')"
  by pat_completeness auto
termination
  by (relation "measure (\<lambda>(n, cur, q, idxs, A). ba_n_tokens A - cur)")
    (auto simp: use_token_at_def seq_next_def find_Some_iff)

declare seq_loop.simps [simp del]

definition split_seq :: "nat \<Rightarrow> batch_allocr \<Rightarrow> (ubatch_data \<times> batch_allocr) option" where
  "split_seq n_ubatch A =
    (if first_unused A \<ge> length (ba_used A) then Some (no_ubatch, A)
     else let (idxs, A') = seq_loop n_ubatch (first_unused A) (ba_seq_set A ! first_unused A) [] A
       in ubatch_add idxs 1 True A')"

section \<open>Preparing a batch\<close>

text \<open>Split until nothing is left to split.\<close>

partial_function (option) split_all :: "(batch_allocr \<Rightarrow> (ubatch_data \<times> batch_allocr) option) \<Rightarrow> batch_allocr \<Rightarrow>
    ubatch_data list \<Rightarrow> (ubatch_data list \<times> batch_allocr) option" where
  "split_all split A ubs = do {
     (u, A') \<leftarrow> split A;
     if ub_n_tokens (ud_ubatch u) = 0 then Some (ubs, A') else split_all split A' (ubs @ [u]) }"

text \<open>
  \<open>init_batch\<close> up to the device admission of \<open>prepare_with_slots\<close>: the micro-batches and their slots, or
  nothing when the batch cannot be split or placed.
\<close>

definition init_batch :: "cache_config \<Rightarrow> nat \<Rightarrow> batch_allocr \<Rightarrow> kv_cache \<Rightarrow>
    ((ubatch_data list \<times> slot_info list) option \<times> batch_allocr \<times> kv_cache) option" where
  "init_batch K n_ubatch A x = do {
     (ubs, A') \<leftarrow> split_all (if cc_n_stream K = 1 then split_simple n_ubatch else split_equal n_ubatch True 0) (split_reset A) [];
     if ba_n_used A' < ba_n_tokens A' then Some (None, A', x)
     else do {
       (sinfos, x') \<leftarrow> plan_slots K (map ud_ubatch ubs) x;
       Some (if sinfos = [] then None else Some (ubs, sinfos), A', x') } }"

declare split_all.simps [code] equal_loop.simps [code]

end
