(* ===== verification/Batch_Split.thy ===== *)
theory Batch_Split
  imports Batch_Alloc "HOL-Library.Multiset"
begin

text \<open>
  What the splits do to the allocator: each takes unused tokens, marks exactly them, and gathers their
  entries; splitting until nothing is left ends and uses every token once.
\<close>

section \<open>Taking tokens\<close>

definition unused :: "batch_allocr \<Rightarrow> nat set" where
  "unused A = {i. i < ba_n_tokens A \<and> \<not> ba_used A ! i}"

text \<open>The allocator between two splits.\<close>

definition split_ok :: "batch_allocr \<Rightarrow> bool" where
  "split_ok A \<longleftrightarrow> length (ba_used A) = ba_n_tokens A \<and> length (ba_seq_id A) = ba_n_tokens A \<and> ba_seq_set A = seq_sets (ba_seq_id A) \<and>
     (\<forall>i < ba_n_tokens A. ba_seq_id A ! i \<noteq> []) \<and> ba_seq_map A = set_indices (ba_seq_set A) \<and>
     pos_readable A [0..<ba_n_tokens A] \<and> embd_readable A [0..<ba_n_tokens A]"

definition split_frame :: "batch_allocr \<Rightarrow> batch_allocr \<Rightarrow> bool" where
  "split_frame A B \<longleftrightarrow> A\<lparr> ba_used := [], ba_n_used := 0, ba_out_ids := [] \<rparr> = B\<lparr> ba_used := [], ba_n_used := 0, ba_out_ids := [] \<rparr>"

definition took :: "batch_allocr \<Rightarrow> nat set \<Rightarrow> batch_allocr \<Rightarrow> bool" where
  "took A S B \<longleftrightarrow> split_frame A B \<and> S \<subseteq> unused A \<and> length (ba_used B) = ba_n_tokens A \<and>
     (\<forall>i < ba_n_tokens A. ba_used B ! i \<longleftrightarrow> ba_used A ! i \<or> i \<in> S) \<and> ba_n_used B = ba_n_used A + card S"

lemma finite_unused [simp]: "finite (unused A)"
  by (simp add: unused_def)

lemma split_frameD:
  assumes "split_frame A B"
  shows "ba_n_pos_per_embd B = ba_n_pos_per_embd A" "ba_n_tokens B = ba_n_tokens A" "ba_token B = ba_token A"
    "ba_embd B = ba_embd A" "ba_pos B = ba_pos A" "ba_seq_id B = ba_seq_id A" "ba_logits B = ba_logits A"
    "ba_n_embd B = ba_n_embd A" "ba_n_seq_max B = ba_n_seq_max A" "ba_is_embd B = ba_is_embd A"
    "ba_pos_expanded B = ba_pos_expanded A" "ba_decision_order B = ba_decision_order A" "ba_has_cpl B = ba_has_cpl A"
    "ba_seq_set B = ba_seq_set A" "ba_seq_map B = ba_seq_map A"
  using assms by (cases A; cases B; simp add: split_frame_def)+

lemma split_frame_refl [simp]: "split_frame A A"
  by (simp add: split_frame_def)

lemma split_frame_trans: "split_frame A B \<Longrightarrow> split_frame B C \<Longrightarrow> split_frame A C"
  by (simp add: split_frame_def)

lemma split_frame_use [simp]: "split_frame A (use_token_at i A)" "split_frame A (unuse_token_at i A)"
  by (simp_all add: split_frame_def use_token_at_def unuse_token_at_def)

lemma tookD:
  assumes "took A S B"
  shows "split_frame A B" "S \<subseteq> unused A" "unused B = unused A - S" "ba_n_used B = ba_n_used A + card S"
    "length (ba_used B) = ba_n_tokens A" "finite S"
  using assms finite_subset [OF _ finite_unused] by (auto simp: took_def unused_def split_frameD(2))

lemma took_refl: "length (ba_used A) = ba_n_tokens A \<Longrightarrow> took A {} A"
  by (simp add: took_def)

lemma took_ok:
  assumes "took A S B" and "split_ok A"
  shows "split_ok B"
  using assms(2) tookD(5) [OF assms(1)] split_frameD [OF tookD(1) [OF assms(1)]]
  by (simp only: split_ok_def pos_readable_def embd_readable_def simp_thms) blast

lemma took_trans: "took A S B \<Longrightarrow> took B T C \<Longrightarrow> took A (S \<union> T) C"
proof -
  assume 1: "took A S B" and 2: "took B T C"
  have "T \<subseteq> unused A" "S \<inter> T = {}" using tookD(2,3) [OF 1] tookD(2) [OF 2] by auto
  moreover from this have "card (S \<union> T) = card S + card T"
    using tookD(6) [OF 1] tookD(6) [OF 2] by (simp add: card_Un_disjoint)
  ultimately show ?thesis
    using 1 2 split_frame_trans [of A B C] split_frameD(2) [OF tookD(1) [OF 1]] by (auto simp: took_def)
qed

lemma took_use:
  assumes "took A S B" and "i \<in> unused A" and "i \<notin> S"
  shows "took A (insert i S) (use_token_at i B)"
proof -
  have "split_frame A (use_token_at i B)" by (rule split_frame_trans [OF tookD(1) [OF assms(1)]]) simp
  then show ?thesis
    using assms tookD(6) [OF assms(1)] by (auto simp: took_def use_token_at_def unused_def nth_list_update)
qed

lemma took_unuse:
  assumes "took A S B" and "i \<in> S"
  shows "took A (S - {i}) (unuse_token_at i B)"
proof -
  have "split_frame A (unuse_token_at i B)" by (rule split_frame_trans [OF tookD(1) [OF assms(1)]]) simp
  moreover have "i \<in> unused A" "0 < card S" using assms tookD(2,6) [OF assms(1)] by (auto simp: card_gt_0_iff)
  ultimately show ?thesis
    using assms tookD(2,6) [OF assms(1)] by (auto simp: took_def unuse_token_at_def unused_def nth_list_update card_Diff_singleton)
qed

section \<open>Gathering the entries\<close>

text \<open>The micro-batch \<open>u\<close> holds the entries of the tokens \<open>idxs\<close>. The rows of a mixed batch are tokens or
  embeddings; a micro-batch has the array of a kind exactly when the batch has it and, in a mixed batch, some
  row is of that kind, and it marks the kinds of its rows exactly when there are both.\<close>

definition has_rows :: "batch_allocr \<Rightarrow> bool \<Rightarrow> nat list \<Rightarrow> bool" where
  "has_rows A embd idxs \<longleftrightarrow> ba_is_embd A = [] \<or> (\<exists>i \<in> set idxs. ba_is_embd A ! i = embd)"

text \<open>The \<open>j\<close>-th position of a row: rows of embeddings and expanded batches give all of them, text one, which the
  first three take.\<close>

definition row_pos :: "batch_allocr \<Rightarrow> nat \<Rightarrow> nat \<Rightarrow> int" where
  "row_pos A j i = (if ba_pos_expanded A \<or> ba_token A = None then ba_pos A ! (j * ba_n_tokens A + i)
     else if j < 3 then ba_pos A ! i else 0)"

definition same_rows :: "nat \<Rightarrow> 'a list \<Rightarrow> nat list \<Rightarrow> 'a list \<Rightarrow> bool" where
  "same_rows w xs idxs ys \<longleftrightarrow> length ys = length idxs * w \<and>
     (\<forall>b < length idxs. \<forall>k < w. ys ! (b * w + k) = xs ! (idxs ! b * w + k))"

definition gathers_seqs :: "batch_allocr \<Rightarrow> nat list \<Rightarrow> ubatch_data \<Rightarrow> bool" where
  "gathers_seqs A idxs u \<longleftrightarrow> (let unq = ub_seq_id_unq (ud_ubatch u) in
     ub_seq_id (ud_ubatch u) = map ((!) (ba_seq_id A)) idxs \<and> sorted unq \<and> distinct unq \<and>
     set unq = {s. s < ba_n_seq_max A \<and> (\<exists>i \<in> set idxs. s \<in> set (ba_seq_id A ! i))} \<and>
     length (ud_seq_idx u) = LLAMA_MAX_SEQ \<and>
     (\<forall>s < LLAMA_MAX_SEQ. if s \<in> set unq then \<exists>k < length unq. ud_seq_idx u ! s = int k \<and> unq ! k = s
        else ud_seq_idx u ! s = -1))"

definition gathers :: "batch_allocr \<Rightarrow> nat list \<Rightarrow> nat \<Rightarrow> bool \<Rightarrow> ubatch_data \<Rightarrow> bool" where
  "gathers A idxs n_seqs equal u \<longleftrightarrow> ud_batch_idxs u = idxs \<and> ud_n_seqs u = n_seqs \<and> ud_equal_seqs u = equal \<and>
     ud_n_seq_tokens u = length idxs div n_seqs \<and> ub_n_tokens (ud_ubatch u) = length idxs \<and>
     ub_n_pos (ud_ubatch u) = ba_n_pos_per_embd A \<and>
     length (ub_pos (ud_ubatch u)) = ba_n_pos_per_embd A * length idxs \<and>
     (\<forall>j < ba_n_pos_per_embd A. \<forall>b < length idxs.
        ub_pos (ud_ubatch u) ! (j * length idxs + b) = row_pos A j (idxs ! b)) \<and>
     gathers_seqs A idxs u \<and> ud_output u = map ((!) (ba_logits A)) idxs \<and>
     ub_token (ud_ubatch u) =
       (if ba_token A \<noteq> None \<and> has_rows A False idxs then Some (map ((!) (the (ba_token A))) idxs) else None) \<and>
     (case ud_embd u of None \<Rightarrow> \<not> (ba_embd A \<noteq> None \<and> has_rows A True idxs)
        | Some e \<Rightarrow> ba_embd A \<noteq> None \<and> has_rows A True idxs \<and> same_rows (ba_n_embd A) (the (ba_embd A)) idxs e) \<and>
     ub_type (ud_ubatch u) =
       (if ba_is_embd A \<noteq> [] \<and> has_rows A True idxs \<and> has_rows A False idxs then Some (map ((!) (ba_is_embd A)) idxs) else None) \<and>
     ud_decision_order u = (if ba_decision_order A = [] then None else Some (map ((!) (ba_decision_order A)) idxs))"

lemma nth_concat_rows:
  "\<forall>x \<in> set xs. length (f x) = n \<Longrightarrow> j < length xs \<Longrightarrow> b < n \<Longrightarrow> concat (map f xs) ! (j * n + b) = f (xs ! j) ! b"
proof (induction xs arbitrary: j)
  case (Cons x xs)
  then show ?case by (cases j) (simp_all add: nth_append add.assoc)
qed simp

lemma length_concat_rows: "\<forall>x \<in> set xs. length (f x) = n \<Longrightarrow> length (concat (map f xs)) = length xs * n"
  by (induction xs) simp_all

lemma gathered_pos:
  "length (ubatch_pos A idxs) = ba_n_pos_per_embd A * length idxs"
  "j < ba_n_pos_per_embd A \<Longrightarrow> b < length idxs \<Longrightarrow> ubatch_pos A idxs ! (j * length idxs + b) = row_pos A j (idxs ! b)"
  unfolding ubatch_pos_def row_pos_def by (simp_all add: length_concat_rows [of _ _ "length idxs"] nth_concat_rows)

lemma gathered_embd:
  assumes "list_all (\<lambda>i. (i + 1) * w \<le> length e) idxs"
  shows "same_rows w e idxs (concat (map (\<lambda>i. take w (drop (i * w) e)) idxs))"
proof -
  have len: "\<forall>i \<in> set idxs. length (take w (drop (i * w) e)) = w" using assms by (auto simp: list_all_iff)
  have "take w (drop (idxs ! b * w) e) ! k = e ! (idxs ! b * w + k)" if "b < length idxs" "k < w" for b k
  proof -
    have "(idxs ! b + 1) * w \<le> length e" using assms that(1) by (simp add: list_all_length)
    then show ?thesis using that(2) by simp
  qed
  then show ?thesis using nth_concat_rows [OF len] length_concat_rows [OF len] by (simp add: same_rows_def)
qed

lemma index_of_seqs_nth:
  assumes "s < LLAMA_MAX_SEQ"
  shows "if s \<in> set unq then \<exists>k < length unq. index_of_seqs unq ! s = int k \<and> unq ! k = s else index_of_seqs unq ! s = -1"
proof (cases "s \<in> set unq")
  case True
  let ?k = "length (takeWhile (\<lambda>u. u \<noteq> s) unq)"
  have k: "?k < length unq" using True by (induction unq) auto
  then have "unq ! ?k = s" using nth_length_takeWhile by fastforce
  then show ?thesis using True k assms by (auto simp: index_of_seqs_def)
qed (use assms in \<open>simp add: index_of_seqs_def\<close>)

lemma unique_seqs_set: "set (unique_seqs n rows) = {s. s < n \<and> (\<exists>qs \<in> set rows. s \<in> set qs)}"
  by (auto simp: unique_seqs_def list_ex_iff)

lemma unique_seqs_sorted: "sorted (unique_seqs n rows)" "distinct (unique_seqs n rows)"
  by (simp_all add: unique_seqs_def sorted_wrt_filter)

lemma gathers_unique:
  assumes "gathers A idxs n_seqs equal u"
  shows "ub_seq_id (ud_ubatch u) = map ((!) (ba_seq_id A)) idxs"
    "ub_seq_id_unq (ud_ubatch u) = unique_seqs (ba_n_seq_max A) (map ((!) (ba_seq_id A)) idxs)"
proof -
  have u: "gathers_seqs A idxs u" using assms by (simp add: gathers_def)
  then show "ub_seq_id (ud_ubatch u) = map ((!) (ba_seq_id A)) idxs" by (simp add: gathers_seqs_def Let_def)
  show "ub_seq_id_unq (ud_ubatch u) = unique_seqs (ba_n_seq_max A) (map ((!) (ba_seq_id A)) idxs)"
    using u by (intro sorted_distinct_set_unique)
      (auto simp: gathers_seqs_def Let_def unique_seqs_set unique_seqs_sorted)
qed

lemma gathers_first_pos:
  assumes "gathers A idxs n_seqs equal u" and "0 < ba_n_pos_per_embd A" and "b < length idxs"
  shows "ub_pos (ud_ubatch u) ! b = ba_pos A ! (idxs ! b)"
proof -
  have "\<forall>j < ba_n_pos_per_embd A. \<forall>b < length idxs. ub_pos (ud_ubatch u) ! (j * length idxs + b) = row_pos A j (idxs ! b)"
    using assms(1) unfolding gathers_def by blast
  then have "ub_pos (ud_ubatch u) ! (0 * length idxs + b) = row_pos A 0 (idxs ! b)" using assms(2,3) by blast
  then show ?thesis by (simp add: row_pos_def)
qed

lemma took_out: "took A S B \<Longrightarrow> took A S (B\<lparr> ba_out_ids := out \<rparr>)"
  by (auto simp: took_def split_frame_def)

lemma gathers_frame:
  assumes "split_frame A B"
  shows "gathers B idxs n e u = gathers A idxs n e u"
  unfolding gathers_def gathers_seqs_def has_rows_def row_pos_def split_frameD [OF assms] by (rule refl)

lemma row_counts:
  "length (filter P idxs) = length idxs \<longleftrightarrow> (\<forall>i \<in> set idxs. P i)"
  "length (filter P idxs) < length idxs \<longleftrightarrow> (\<exists>i \<in> set idxs. \<not> P i)"
  "0 < length (filter P idxs) \<longleftrightarrow> (\<exists>i \<in> set idxs. P i)"
  "length (filter P idxs) = 0 \<longleftrightarrow> (\<forall>i \<in> set idxs. \<not> P i)"
proof -
  have sum: "length (filter P idxs) + length (filter (\<lambda>i. \<not> P i) idxs) = length idxs" by (rule sum_length_filter_compl)
  show some: "0 < length (filter P idxs) \<longleftrightarrow> (\<exists>i \<in> set idxs. P i)" for P by (auto simp: filter_empty_conv)
  from some [of "\<lambda>i. \<not> P i"] sum show "length (filter P idxs) < length idxs \<longleftrightarrow> (\<exists>i \<in> set idxs. \<not> P i)" by linarith
  then show "length (filter P idxs) = length idxs \<longleftrightarrow> (\<forall>i \<in> set idxs. P i)" using sum by (metis le_add1 nat_less_le)
  show "length (filter P idxs) = 0 \<longleftrightarrow> (\<forall>i \<in> set idxs. \<not> P i)" by (simp add: filter_empty_conv)
qed

lemma ubatch_add_gathers:
  assumes "list_all (\<lambda>i. i < ba_n_tokens A) idxs" "pos_readable A idxs" "embd_readable A idxs"
    and n: "n_seqs \<noteq> 0" "length idxs mod n_seqs = 0"
  shows "\<exists>u. ubatch_add idxs n_seqs equal A = Some (u, A\<lparr> ba_out_ids := ba_out_ids A @ filter (\<lambda>i. ba_logits A ! i \<noteq> 0) idxs \<rparr>) \<and>
    gathers A idxs n_seqs equal u"
proof -
  obtain u where u: "ubatch_add idxs n_seqs equal A = Some (u, A\<lparr> ba_out_ids := ba_out_ids A @ filter (\<lambda>i. ba_logits A ! i \<noteq> 0) idxs \<rparr>)"
    using assms by (simp add: ubatch_add_def Let_def)
  have u_eq: "u = fst (the (ubatch_add idxs n_seqs equal A))" by (simp add: u)
  note unfold = u_eq ubatch_add_def assms Let_def
  have embd: "same_rows (ba_n_embd A) e idxs (concat (map (\<lambda>i. take (ba_n_embd A) (drop (i * ba_n_embd A) e)) idxs))"
    if "ba_embd A = Some e" for e
    using assms(3) that by (intro gathered_embd) (simp add: embd_readable_def)
  have seqs: "gathers_seqs A idxs u"
    unfolding gathers_seqs_def Let_def
    using index_of_seqs_nth [where unq = "unique_seqs (ba_n_seq_max A) (map ((!) (ba_seq_id A)) idxs)"]
    by (simp add: unfold unique_seqs_set unique_seqs_sorted) (simp add: index_of_seqs_def)
  have kinds: "ub_token (ud_ubatch u) =
       (if ba_token A \<noteq> None \<and> has_rows A False idxs then Some (map ((!) (the (ba_token A))) idxs) else None)"
     "case ud_embd u of None \<Rightarrow> \<not> (ba_embd A \<noteq> None \<and> has_rows A True idxs)
        | Some e \<Rightarrow> ba_embd A \<noteq> None \<and> has_rows A True idxs \<and> same_rows (ba_n_embd A) (the (ba_embd A)) idxs e"
     "ub_type (ud_ubatch u) =
       (if ba_is_embd A \<noteq> [] \<and> has_rows A True idxs \<and> has_rows A False idxs then Some (map ((!) (ba_is_embd A)) idxs) else None)"
    using embd by (auto simp: unfold has_rows_def row_counts simp del: not_gr0 length_greater_0_conv length_0_conv)
  have "gathers A idxs n_seqs equal u"
    unfolding gathers_def by (intro conjI seqs kinds) (simp_all add: unfold gathered_pos)
  then show ?thesis using u by blast
qed

lemma ubatch_add_ok:
  assumes ok: "split_ok A" and took: "took A (set idxs) B" and n: "n_seqs \<noteq> 0" "length idxs mod n_seqs = 0"
  shows "\<exists>u C. ubatch_add idxs n_seqs equal B = Some (u, C) \<and> gathers A idxs n_seqs equal u \<and> took A (set idxs) C \<and>
    ba_out_ids C = ba_out_ids B @ filter (\<lambda>i. ba_logits A ! i \<noteq> 0) idxs"
proof -
  have B: "split_ok B" by (rule took_ok [OF took ok])
  note F = split_frameD [OF tookD(1) [OF took]]
  have "set idxs \<subseteq> {..<ba_n_tokens B}" using tookD(2) [OF took] by (auto simp: unused_def F)
  then have "list_all (\<lambda>i. i < ba_n_tokens B) idxs \<and> pos_readable B idxs \<and> embd_readable B idxs"
    using B by (fastforce simp: split_ok_def pos_readable_def embd_readable_def list_all_iff subset_eq split: option.splits)
  from ubatch_add_gathers [OF _ _ _ n, of B] this
  obtain u where "ubatch_add idxs n_seqs equal B = Some (u, B\<lparr> ba_out_ids := ba_out_ids B @ filter (\<lambda>i. ba_logits B ! i \<noteq> 0) idxs \<rparr>)"
      "gathers B idxs n_seqs equal u" by blast
  then show ?thesis using took_out [OF took] gathers_frame [OF tookD(1) [OF took]] by (auto simp: F)
qed

section \<open>\<open>split_simple\<close>\<close>

lemma first_unused_eq:
  assumes "split_ok A"
  shows "first_unused A \<le> ba_n_tokens A" "i < first_unused A \<Longrightarrow> i \<notin> unused A"
    "first_unused A < ba_n_tokens A \<Longrightarrow> first_unused A \<in> unused A"
proof -
  have len: "length (ba_used A) = ba_n_tokens A" using assms by (simp add: split_ok_def)
  show "first_unused A \<le> ba_n_tokens A" using length_takeWhile_le [of "\<lambda>u. u" "ba_used A"] by (simp add: first_unused_def len)
  show "i < first_unused A \<Longrightarrow> i \<notin> unused A"
    using nth_mem [of i "takeWhile (\<lambda>u. u) (ba_used A)"] set_takeWhileD [of _ "\<lambda>u. u" "ba_used A"]
    by (auto simp: first_unused_def unused_def takeWhile_nth)
  show "first_unused A < ba_n_tokens A \<Longrightarrow> first_unused A \<in> unused A"
    using nth_length_takeWhile [of "\<lambda>u. u" "ba_used A"] by (simp add: first_unused_def unused_def len)
qed

lemma simple_loop_took:
  assumes "took A (set idxs) B" and "cur < ba_n_tokens A" and "\<forall>i. cur \<le> i \<and> i < ba_n_tokens A \<longrightarrow> i \<in> unused A \<and> i \<notin> set idxs"
  shows "\<exists>k C. simple_loop n_ubatch cur idxs B = (idxs @ [cur..<k], C) \<and> cur < k \<and> k \<le> ba_n_tokens A \<and>
    took A (set (idxs @ [cur..<k])) C \<and> ba_out_ids C = ba_out_ids B \<and> length (idxs @ [cur..<k]) \<le> max (length idxs + 1) n_ubatch"
  using assms
proof (induction n_ubatch cur idxs B rule: simple_loop.induct)
  case (1 n_ubatch cur idxs B)
  let ?B = "use_token_at cur B"
  have step: "took A (set (idxs @ [cur])) ?B" using took_use [OF "1.prems"(1), of cur] "1.prems"(2,3) by simp
  have len: "length (ba_used B) = ba_n_tokens A" using tookD(5) [OF "1.prems"(1)] .
  show ?case
  proof (cases "cur + 1 \<ge> ba_n_tokens A \<or> length (idxs @ [cur]) \<ge> n_ubatch")
    case True
    then have "simple_loop n_ubatch cur idxs B = (idxs @ [cur], ?B)"
      by (subst simple_loop.simps) (simp add: len)
    then show ?thesis using step "1.prems"(2) by (intro exI [of _ "cur + 1"] exI [of _ ?B]) (auto simp: use_token_at_def)
  next
    case False
    from "1.IH" [OF refl refl _ step] False "1.prems"(3) obtain k C where
        k: "simple_loop n_ubatch (cur + 1) (idxs @ [cur]) ?B = ((idxs @ [cur]) @ [cur + 1..<k], C)" "cur + 1 < k" "k \<le> ba_n_tokens A"
          "took A (set ((idxs @ [cur]) @ [cur + 1..<k])) C" "ba_out_ids C = ba_out_ids ?B"
          "length ((idxs @ [cur]) @ [cur + 1..<k]) \<le> max (length (idxs @ [cur]) + 1) n_ubatch"
      by (auto simp: len)
    have "(idxs @ [cur]) @ [cur + 1..<k] = idxs @ [cur..<k]" using k(2) by (simp add: upt_conv_Cons)
    moreover have "simple_loop n_ubatch cur idxs B = simple_loop n_ubatch (cur + 1) (idxs @ [cur]) ?B"
      using False by (subst simple_loop.simps) (simp add: len)
    ultimately show ?thesis
      using k False by (intro exI [of _ k] exI [of _ C]) (auto simp: use_token_at_def)
  qed
qed

section \<open>\<open>split_seq\<close>\<close>

lemma seq_next_some:
  assumes "seq_next q cur A = Some i"
  shows "cur < i \<and> i \<in> unused A \<and> ba_seq_set A ! i \<subseteq> q"
    "cur < j \<Longrightarrow> j < i \<Longrightarrow> j \<in> unused A \<Longrightarrow> \<not> ba_seq_set A ! j \<subseteq> q"
proof -
  let ?xs = "[cur + 1..<ba_n_tokens A]" and ?P = "\<lambda>i. \<not> (ba_used A ! i \<or> q \<inter> ba_seq_set A ! i \<noteq> ba_seq_set A ! i)"
  obtain k where k: "k < length ?xs" "?P (?xs ! k)" "i = ?xs ! k" "\<forall>l < k. \<not> ?P (?xs ! l)"
    using assms unfolding seq_next_def find_Some_iff by blast
  show "cur < i \<and> i \<in> unused A \<and> ba_seq_set A ! i \<subseteq> q" using k(1-3) by (auto simp: unused_def)
  assume j: "cur < j" "j < i" "j \<in> unused A"
  then have "\<not> ?P (?xs ! (j - cur - 1))" using k(1,3) by (intro k(4) [rule_format]) auto
  then show "\<not> ba_seq_set A ! j \<subseteq> q" using j k(1,3) by (auto simp: unused_def)
qed

text \<open>A token passed over has no set contained in that of a later taken one.\<close>

definition greedy :: "batch_allocr \<Rightarrow> nat list \<Rightarrow> bool" where
  "greedy A idxs \<longleftrightarrow> (\<forall>j \<in> unused A - set idxs. \<forall>i \<in> set idxs. j < i \<longrightarrow> \<not> ba_seq_set A ! j \<subseteq> ba_seq_set A ! i)"

definition shrinking :: "nat set list \<Rightarrow> bool" where
  "shrinking sets \<longleftrightarrow> sorted_wrt (\<lambda>p q. q \<subseteq> p) sets"

lemma shrinking_snoc: "shrinking (xs @ [q]) \<longleftrightarrow> shrinking xs \<and> (\<forall>p \<in> set xs. q \<subseteq> p)"
  by (simp add: shrinking_def sorted_wrt_append)

lemma seq_loop_took:
  assumes "took A (set idxs) B" and "cur \<in> unused A" and "\<forall>i \<in> set idxs. i < cur \<and> ba_seq_set A ! cur \<subseteq> ba_seq_set A ! i"
    and "q = ba_seq_set A ! cur" and "sorted idxs \<and> distinct idxs" and "shrinking (map ((!) (ba_seq_set A)) idxs)"
    and "greedy A (idxs @ [cur])"
  shows "\<exists>ys C. seq_loop n_ubatch cur q idxs B = (idxs @ cur # ys, C) \<and> took A (set (idxs @ cur # ys)) C \<and>
    ba_out_ids C = ba_out_ids B \<and> sorted (idxs @ cur # ys) \<and> distinct (idxs @ cur # ys) \<and>
    shrinking (map ((!) (ba_seq_set A)) (idxs @ cur # ys)) \<and> length (idxs @ cur # ys) \<le> max (length idxs + 1) n_ubatch \<and>
    greedy A (idxs @ cur # ys)"
  using assms
proof (induction n_ubatch cur q idxs B rule: seq_loop.induct)
  case (1 n_ubatch cur q idxs B)
  let ?B = "use_token_at cur B" and ?idxs = "idxs @ [cur]"
  have step: "took A (set ?idxs) ?B" using took_use [OF "1.prems"(1,2)] "1.prems"(3) by auto
  note F = split_frameD [OF tookD(1) [OF step]]
  have sorted: "sorted ?idxs \<and> distinct ?idxs" using "1.prems"(3,5) by (auto simp: sorted_append less_imp_le)
  have shrink: "shrinking (map ((!) (ba_seq_set A)) ?idxs)" using "1.prems"(3,6) by (simp add: shrinking_snoc)
  show ?case
  proof (cases "length ?idxs \<ge> n_ubatch \<or> seq_next q cur ?B = None")
    case True
    then have "seq_loop n_ubatch cur q idxs B = (?idxs, ?B)" by (subst seq_loop.simps) (auto simp: Let_def)
    then show ?thesis using step sorted shrink "1.prems"(7) by (intro exI [of _ "[]"] exI [of _ ?B]) (auto simp: use_token_at_def)
  next
    case False
    then obtain i where i: "seq_next q cur ?B = Some i" "\<not> length ?idxs \<ge> n_ubatch" by auto
    have nxt: "cur < i" "i \<in> unused A" "ba_seq_set A ! i \<subseteq> q"
      using seq_next_some(1) [OF i(1)] tookD(3) [OF step] by (auto simp: F)
    have gap: "\<not> ba_seq_set A ! j \<subseteq> q" if "cur < j" "j < i" "j \<in> unused A" "j \<notin> set ?idxs" for j
      using seq_next_some(2) [OF i(1) that(1,2)] that(3,4) tookD(3) [OF step] by (auto simp: F)
    have greedy: "greedy A (?idxs @ [i])"
      unfolding greedy_def
    proof (intro ballI impI)
      fix j t assume j: "j \<in> unused A - set (?idxs @ [i])" and t: "t \<in> set (?idxs @ [i])" "j < t"
      show "\<not> ba_seq_set A ! j \<subseteq> ba_seq_set A ! t"
      proof (cases "t = i")
        case True
        have "\<not> ba_seq_set A ! j \<subseteq> q"
        proof (cases "cur < j")
          case False
          then have "j < cur" using j by auto
          then show ?thesis using "1.prems"(4,7) j by (auto simp: greedy_def)
        qed (use gap [of j] j t True in auto)
        then show ?thesis using nxt(3) True by auto
      next
        case False
        then show ?thesis using "1.prems"(7) j t by (auto simp: greedy_def)
      qed
    qed
    have "\<forall>j \<in> set ?idxs. j < i \<and> ba_seq_set A ! i \<subseteq> ba_seq_set A ! j"
      using nxt "1.prems"(3,4) by (auto intro: less_trans)
    from "1.IH" [OF refl refl i(2,1) step nxt(2) this _ sorted shrink greedy] obtain ys C where
        y: "seq_loop n_ubatch i (ba_seq_set ?B ! i) ?idxs ?B = (?idxs @ i # ys, C)" "took A (set (?idxs @ i # ys)) C"
          "ba_out_ids C = ba_out_ids ?B" "sorted (?idxs @ i # ys)" "distinct (?idxs @ i # ys)"
          "shrinking (map ((!) (ba_seq_set A)) (?idxs @ i # ys))" "length (?idxs @ i # ys) \<le> max (length ?idxs + 1) n_ubatch"
          "greedy A (?idxs @ i # ys)"
      by (auto simp: F)
    have "seq_loop n_ubatch cur q idxs B = seq_loop n_ubatch i (ba_seq_set ?B ! i) ?idxs ?B"
      using i by (subst seq_loop.simps) (simp add: Let_def)
    then show ?thesis
      using y i(2) by (intro exI [of _ "i # ys"] exI [of _ C]) (auto simp: use_token_at_def)
  qed
qed

section \<open>One split after the other\<close>

text \<open>
  What a split promises: nothing at all when it gives the empty micro-batch, and otherwise the entries
  of unused tokens, in the order \<open>good\<close>, which are used from then on.
\<close>

definition splits :: "(batch_allocr \<Rightarrow> bool) \<Rightarrow> (batch_allocr \<Rightarrow> ubatch_data \<Rightarrow> bool) \<Rightarrow>
    (batch_allocr \<Rightarrow> (ubatch_data \<times> batch_allocr) option) \<Rightarrow> bool" where
  "splits valid good split \<longleftrightarrow> (\<forall>A. split_ok A \<and> valid A \<longrightarrow> (\<exists>u B. split A = Some (u, B) \<and>
     (if ub_n_tokens (ud_ubatch u) = 0 then B = A \<and> unused A = {}
      else valid B \<and> good A u \<and> distinct (ud_batch_idxs u) \<and> ud_batch_idxs u \<noteq> [] \<and>
        ub_n_tokens (ud_ubatch u) = length (ud_batch_idxs u) \<and> took A (set (ud_batch_idxs u)) B \<and>
        ba_out_ids B = ba_out_ids A @ filter (\<lambda>i. ba_logits A ! i \<noteq> 0) (ud_batch_idxs u))))"

text \<open>A chain of micro-batches, each taken from the allocator the one before left.\<close>

inductive split_chain :: "(batch_allocr \<Rightarrow> ubatch_data \<Rightarrow> bool) \<Rightarrow> batch_allocr \<Rightarrow> ubatch_data list \<Rightarrow> batch_allocr \<Rightarrow> bool"
  for good where
  all: "split_chain good A [] A"
| more: "good A u \<Longrightarrow> took A (set (ud_batch_idxs u)) B \<Longrightarrow> split_chain good B us C \<Longrightarrow> split_chain good A (u # us) C"

lemma split_all_done:
  assumes split: "splits valid good split" and ok: "split_ok A" and valid: "valid A"
  shows "\<exists>us B. split_all split A ubs = Some (ubs @ us, B) \<and> split_chain good A us B \<and> took A (unused A) B \<and>
    mset (concat (map ud_batch_idxs us)) = mset_set (unused A) \<and>
    ba_out_ids B = ba_out_ids A @ filter (\<lambda>i. ba_logits A ! i \<noteq> 0) (concat (map ud_batch_idxs us))"
  using ok valid
proof (induction "card (unused A)" arbitrary: A ubs rule: less_induct)
  case less
  obtain u B where u: "split A = Some (u, B)" "if ub_n_tokens (ud_ubatch u) = 0 then B = A \<and> unused A = {}
      else valid B \<and> good A u \<and> distinct (ud_batch_idxs u) \<and> ud_batch_idxs u \<noteq> [] \<and>
        ub_n_tokens (ud_ubatch u) = length (ud_batch_idxs u) \<and> took A (set (ud_batch_idxs u)) B \<and>
        ba_out_ids B = ba_out_ids A @ filter (\<lambda>i. ba_logits A ! i \<noteq> 0) (ud_batch_idxs u)"
    using split less.prems unfolding splits_def by blast
  show ?case
  proof (cases "ub_n_tokens (ud_ubatch u) = 0")
    case True
    then have "split_all split A ubs = Some (ubs, A)" "unused A = {}" using u by (auto simp: split_all.simps)
    then show ?thesis
      using less.prems(1) took_refl [of A] by (intro exI [of _ "[]"] exI [of _ A]) (simp add: split_ok_def split_chain.all mset_set.empty)
  next
    case False
    let ?S = "set (ud_batch_idxs u)"
    have took: "took A ?S B" and dist: "distinct (ud_batch_idxs u)" and good: "good A u" and vB: "valid B"
      and out: "ba_out_ids B = ba_out_ids A @ filter (\<lambda>i. ba_logits A ! i \<noteq> 0) (ud_batch_idxs u)"
      using u(2) False by (auto split: if_splits)
    have sub: "?S \<subseteq> unused A" "unused B = unused A - ?S" using tookD(2,3) [OF took] by simp_all
    have "?S \<noteq> {}" using u(2) False by (auto split: if_splits)
    then obtain i where "i \<in> ?S" by (auto simp only: ex_in_conv [symmetric])
    then have "i \<in> unused A - unused B" using sub by auto
    then have "unused B \<subset> unused A" using sub(2) by auto
    then have "card (unused B) < card (unused A)" by (intro psubset_card_mono) simp_all
    from less.hyps [OF this took_ok [OF took less.prems(1)] vB, of "ubs @ [u]"] obtain us C where
        us: "split_all split B (ubs @ [u]) = Some (ubs @ u # us, C)" "split_chain good B us C" "took B (unused B) C"
          "mset (concat (map ud_batch_idxs us)) = mset_set (unused B)"
          "ba_out_ids C = ba_out_ids B @ filter (\<lambda>i. ba_logits B ! i \<noteq> 0) (concat (map ud_batch_idxs us))"
      by auto
    have "split_all split A ubs = Some (ubs @ u # us, C)" using u(1) False us(1) by (subst split_all.simps) simp
    moreover have "took A (unused A) C"
      using took_trans [OF took us(3)] sub by (simp add: Un_Diff_cancel2 Un_absorb1)
    moreover have "mset (ud_batch_idxs u) + mset_set (unused B) = mset_set (unused A)"
      using mset_set_Union [of ?S "unused B"] sub dist by (simp add: mset_set_set Un_absorb1)
    moreover have "ba_logits B = ba_logits A" using split_frameD(7) [OF tookD(1) [OF took]] .
    ultimately show ?thesis
      using us good took out by (intro exI [of _ "u # us"] exI [of _ C]) (auto intro: split_chain.more)
  qed
qed

section \<open>The simple and the sequence-wise split\<close>

text \<open>Simple: the next tokens in order, when what is left is a tail of the batch.\<close>

definition tail_left :: "batch_allocr \<Rightarrow> bool" where
  "tail_left A \<longleftrightarrow> (\<exists>k. unused A = {k..<ba_n_tokens A})"

definition simple_good :: "nat \<Rightarrow> batch_allocr \<Rightarrow> ubatch_data \<Rightarrow> bool" where
  "simple_good n_ubatch A u \<longleftrightarrow> (\<exists>k k'. unused A = {k..<ba_n_tokens A} \<and> ud_batch_idxs u = [k..<k'] \<and> k < k' \<and> k' \<le> ba_n_tokens A \<and>
     k' - k \<le> max 1 n_ubatch \<and> gathers A [k..<k'] (k' - k) False u)"

lemma no_ubatch_tokens [simp]: "ub_n_tokens (ud_ubatch no_ubatch) = 0"
  by (simp add: no_ubatch_def)

lemma split_simple_splits: "splits tail_left (simple_good n_ubatch) (split_simple n_ubatch)"
  unfolding splits_def
proof (intro allI impI)
  fix A assume A: "split_ok A \<and> tail_left A"
  then obtain k where k: "unused A = {k..<ba_n_tokens A}" by (auto simp: tail_left_def)
  have len: "length (ba_used A) = ba_n_tokens A" using A by (simp add: split_ok_def)
  note first = first_unused_eq [OF conjunct1 [OF A]]
  show "\<exists>u B. split_simple n_ubatch A = Some (u, B) \<and> (if ub_n_tokens (ud_ubatch u) = 0 then B = A \<and> unused A = {}
      else tail_left B \<and> simple_good n_ubatch A u \<and> distinct (ud_batch_idxs u) \<and> ud_batch_idxs u \<noteq> [] \<and>
        ub_n_tokens (ud_ubatch u) = length (ud_batch_idxs u) \<and> took A (set (ud_batch_idxs u)) B \<and>
        ba_out_ids B = ba_out_ids A @ filter (\<lambda>i. ba_logits A ! i \<noteq> 0) (ud_batch_idxs u))"
  proof (cases "first_unused A < ba_n_tokens A")
    case False
    then have "unused A = {}" using first(2) by (auto simp: unused_def)
    with False show ?thesis by (simp add: split_simple_def len)
  next
    case True
    let ?c = "first_unused A"
    have "k \<le> ?c" using first(3) [OF True] k by auto
    moreover have "\<not> k < ?c" using first(2) [of k] k True by auto
    ultimately have c: "unused A = {?c..<ba_n_tokens A}" using k by simp
    have "took A (set []) A" using took_refl [OF len] by simp
    from simple_loop_took [OF this True, of n_ubatch] c obtain k' B where
        B: "simple_loop n_ubatch ?c [] A = ([?c..<k'], B)" "?c < k'" "k' \<le> ba_n_tokens A" "took A (set [?c..<k']) B"
          "ba_out_ids B = ba_out_ids A" "k' - ?c \<le> max 1 n_ubatch"
      by auto
    from ubatch_add_ok [OF conjunct1 [OF A] B(4), of "k' - ?c" False] B(2) obtain u C where
        u: "ubatch_add [?c..<k'] (k' - ?c) False B = Some (u, C)" "gathers A [?c..<k'] (k' - ?c) False u" "took A (set [?c..<k']) C"
          "ba_out_ids C = ba_out_ids A @ filter (\<lambda>i. ba_logits A ! i \<noteq> 0) [?c..<k']"
      by (auto simp: B(5))
    have "unused C = {k'..<ba_n_tokens C}" using tookD(3) [OF u(3)] split_frameD(2) [OF tookD(1) [OF u(3)]] c B(2,3) by auto
    then have "tail_left C" by (auto simp: tail_left_def)
    moreover have "ud_batch_idxs u = [?c..<k']" using u(2) by (simp add: gathers_def)
    then have "simple_good n_ubatch A u"
      unfolding simple_good_def using c B(2,3,6) u(2) by (intro exI [of _ ?c] exI [of _ k']) simp
    moreover have "split_simple n_ubatch A = Some (u, C)" using True B(1) u(1) by (simp add: split_simple_def len)
    ultimately show ?thesis using u(2-4) B(2) by (auto simp: gathers_def)
  qed
qed

text \<open>Sequence-wise: ascending tokens from the first unused one on, each with a smaller or equal set.\<close>

definition seq_good :: "nat \<Rightarrow> batch_allocr \<Rightarrow> ubatch_data \<Rightarrow> bool" where
  "seq_good n_ubatch A u \<longleftrightarrow> sorted (ud_batch_idxs u) \<and> hd (ud_batch_idxs u) = Min (unused A) \<and>
     shrinking (map ((!) (ba_seq_set A)) (ud_batch_idxs u)) \<and> length (ud_batch_idxs u) \<le> max 1 n_ubatch \<and>
     greedy A (ud_batch_idxs u) \<and> distinct (ud_batch_idxs u) \<and> set (ud_batch_idxs u) \<subseteq> unused A \<and>
     gathers A (ud_batch_idxs u) 1 True u"

lemma split_seq_splits: "splits (\<lambda>_. True) (seq_good n_ubatch) (split_seq n_ubatch)"
  unfolding splits_def
proof (intro allI impI)
  fix A :: batch_allocr assume "split_ok A \<and> True"
  then have A: "split_ok A" by simp
  then have len: "length (ba_used A) = ba_n_tokens A" by (simp add: split_ok_def)
  note first = first_unused_eq [OF A]
  show "\<exists>u B. split_seq n_ubatch A = Some (u, B) \<and> (if ub_n_tokens (ud_ubatch u) = 0 then B = A \<and> unused A = {}
      else True \<and> seq_good n_ubatch A u \<and> distinct (ud_batch_idxs u) \<and> ud_batch_idxs u \<noteq> [] \<and>
        ub_n_tokens (ud_ubatch u) = length (ud_batch_idxs u) \<and> took A (set (ud_batch_idxs u)) B \<and>
        ba_out_ids B = ba_out_ids A @ filter (\<lambda>i. ba_logits A ! i \<noteq> 0) (ud_batch_idxs u))"
  proof (cases "first_unused A < ba_n_tokens A")
    case False
    then have "unused A = {}" using first(2) by (auto simp: unused_def)
    with False show ?thesis by (simp add: split_seq_def len)
  next
    case True
    let ?c = "first_unused A"
    have c: "?c \<in> unused A" "Min (unused A) = ?c"
      using first(2,3) True by (auto intro!: Min_eqI) (metis first(2) not_le)
    have "took A (set []) A" using took_refl [OF len] by simp
    have "greedy A ([] @ [?c])" using first(2) by (auto simp: greedy_def)
    with \<open>took A (set []) A\<close> seq_loop_took [of A "[]" A ?c _ n_ubatch, OF _ c(1) _ refl] obtain ys B where
        B: "seq_loop n_ubatch ?c (ba_seq_set A ! ?c) [] A = (?c # ys, B)" "took A (set (?c # ys)) B" "ba_out_ids B = ba_out_ids A"
          "sorted (?c # ys)" "distinct (?c # ys)" "shrinking (map ((!) (ba_seq_set A)) (?c # ys))" "length (?c # ys) \<le> max 1 n_ubatch"
          "greedy A (?c # ys)"
      by (auto simp: shrinking_def)
    from ubatch_add_ok [OF A B(2), of 1 True] obtain u C where
        u: "ubatch_add (?c # ys) 1 True B = Some (u, C)" "gathers A (?c # ys) 1 True u" "took A (set (?c # ys)) C"
          "ba_out_ids C = ba_out_ids A @ filter (\<lambda>i. ba_logits A ! i \<noteq> 0) (?c # ys)"
      by (auto simp: B(3))
    then have "ud_batch_idxs u = ?c # ys" "ub_n_tokens (ud_ubatch u) = length (?c # ys)" by (simp_all add: gathers_def)
    moreover have "split_seq n_ubatch A = Some (u, C)" using True B(1) u(1) by (simp add: split_seq_def len)
    ultimately show ?thesis using u c(2) B(4-8) tookD(2) [OF B(2)] by (simp add: seq_good_def)
  qed
qed

end
