(* ===== verification/Batch_Accept.thy ===== *)
theory Batch_Accept
  imports Batch_Split
begin

text \<open>
  What \<open>batch_init\<close> accepts: the checks, read back from an accepted batch, give a well-formed allocator
  that the splits can work on.
\<close>

section \<open>Checks and folds\<close>

lemma first_error_None [simp]: "first_error f xs = None \<longleftrightarrow> (\<forall>x \<in> set xs. f x = None)"
  by (induction xs) (auto split: option.splits)

lemma foldE_append: "foldE f (xs @ ys) s = (case foldE f xs s of Inl e \<Rightarrow> Inl e | Inr s' \<Rightarrow> foldE f ys s')"
  by (induction xs arbitrary: s) (auto split: sum.splits)

text \<open>An invariant of the steps, and what every error they raise satisfies.\<close>

lemma foldE_keeps:
  assumes "P s" and "\<And>x s. x \<in> set xs \<Longrightarrow> P s \<Longrightarrow> (case f x s of Inl e \<Rightarrow> Q e | Inr s' \<Rightarrow> P s')"
  shows "case foldE f xs s of Inl e \<Rightarrow> Q e | Inr s' \<Rightarrow> P s'"
  using assms
proof (induction xs arbitrary: s)
  case (Cons x xs)
  have step: "case f x s of Inl e \<Rightarrow> Q e | Inr s' \<Rightarrow> P s'" using Cons.prems(1) by (intro Cons.prems(2)) simp_all
  show ?case
  proof (cases "f x s")
    case (Inr s')
    then have "case foldE f xs s' of Inl e \<Rightarrow> Q e | Inr s' \<Rightarrow> P s'" using step Cons.prems(2) by (intro Cons.IH) simp_all
    with Inr show ?thesis by simp
  qed (use step in simp)
qed simp

lemma seq_positions_eq:
  "length rows = length ps \<Longrightarrow> seq_positions rows ps q = {ps ! i | i. i < length rows \<and> q \<in> set (rows ! i)}"
proof (induction rows ps rule: list_induct2)
  case (Cons qs rows p ps)
  have "{(p # ps) ! i | i. i < length (qs # rows) \<and> q \<in> set ((qs # rows) ! i)} =
      (if q \<in> set qs then {p} else {}) \<union> {ps ! i | i. i < length rows \<and> q \<in> set (rows ! i)}"
    by (auto simp: less_Suc_eq_0_disj) (metis nth_Cons_0 nth_Cons_Suc)+
  then show ?case using Cons by simp
qed simp

lemma gen_pos_length [simp]: "length (gen_pos p0 rows) = length rows"
  by (induction p0 rows rule: gen_pos.induct) (simp_all add: Let_def)

section \<open>Order within a sequence\<close>

lemma order_entry_eq:
  "order_entry A i q (sets, prev) = (if sets q \<inter> ba_seq_set A ! i = {} then Inl (Partial_Set i q)
     else if ba_pos A ! i < prev q then Inl (Decreasing i q)
     else Inr (sets(q := sets q \<inter> ba_seq_set A ! i), prev(q := ba_pos A ! i)))"
  by (simp add: order_entry_def)

lemma order_token:
  assumes "foldE (order_entry A i) qs (sets, prev) = Inr (sets', prev')"
  shows "(\<forall>q \<in> set qs. prev q \<le> ba_pos A ! i) \<and> prev' = (\<lambda>q. if q \<in> set qs then ba_pos A ! i else prev q)"
  using assms
proof (induction qs arbitrary: sets prev)
  case (Cons q qs)
  have q: "prev q \<le> ba_pos A ! i"
      "foldE (order_entry A i) qs (sets(q := sets q \<inter> ba_seq_set A ! i), prev(q := ba_pos A ! i)) = Inr (sets', prev')"
    using Cons.prems by (auto simp: order_entry_eq split: if_splits)
  from Cons.IH [OF q(2)] q(1) show ?case by (auto simp: fun_eq_iff split: if_splits)
qed simp

lemma order_tokens:
  assumes "foldE (\<lambda>i. foldE (order_entry A i) (ba_seq_id A ! i)) [0..<n] (sets, \<lambda>_. -1) = Inr (sets', prev')"
  shows "(\<forall>s. -1 \<le> prev' s) \<and> (\<forall>i < n. \<forall>s \<in> set (ba_seq_id A ! i). -1 \<le> ba_pos A ! i \<and> ba_pos A ! i \<le> prev' s \<and>
    (\<forall>j < i. s \<in> set (ba_seq_id A ! j) \<longrightarrow> ba_pos A ! j \<le> ba_pos A ! i))"
  using assms
proof (induction n arbitrary: sets' prev')
  case (Suc n)
  obtain S p where s: "foldE (\<lambda>i. foldE (order_entry A i) (ba_seq_id A ! i)) [0..<n] (sets, \<lambda>_. -1) = Inr (S, p)"
      "foldE (order_entry A n) (ba_seq_id A ! n) (S, p) = Inr (sets', prev')"
    using Suc.prems by (auto simp: foldE_append split: sum.splits)
  note T = order_token [OF s(2)] and I = Suc.IH [OF s(1)]
  have "ba_pos A ! j \<le> ba_pos A ! n" if "j < n" "q \<in> set (ba_seq_id A ! j)" "q \<in> set (ba_seq_id A ! n)" for j q
    using I T that by (meson order_trans)
  moreover have "-1 \<le> ba_pos A ! n" if "q \<in> set (ba_seq_id A ! n)" for q
    using I T that by (meson order_trans)
  ultimately show ?case using I T by (auto simp: less_Suc_eq intro: order_trans)
qed simp

definition in_range :: "batch_allocr \<Rightarrow> bool" where
  "in_range A \<longleftrightarrow> length (ba_seq_id A) = ba_n_tokens A \<and> ba_seq_set A = seq_sets (ba_seq_id A) \<and> ba_n_seq_max A \<le> LLAMA_MAX_SEQ \<and>
     (\<forall>i < ba_n_tokens A. \<forall>s \<in> set (ba_seq_id A ! i). s < ba_n_seq_max A)"

text \<open>Every set of a sequence holds the sequence itself, so the check on the sets never fires.\<close>

lemma no_partial_sets:
  assumes "in_range A"
  shows "order_error A \<noteq> Some (Partial_Set i q)"
proof -
  let ?P = "\<lambda>st :: order_state. \<forall>q < LLAMA_MAX_SEQ. q \<in> fst st q" and ?Q = "\<lambda>e. e \<noteq> Partial_Set i q"
  have entry: "case order_entry A j r st of Inl e \<Rightarrow> ?Q e | Inr st' \<Rightarrow> ?P st'"
    if "r \<in> set (ba_seq_id A ! j)" "j < ba_n_tokens A" "?P st" for j r st
  proof -
    have r: "r < LLAMA_MAX_SEQ" "r \<in> ba_seq_set A ! j"
      using assms that(1,2) by (auto simp: in_range_def seq_sets_def intro: less_le_trans)
    then have "r \<in> fst st r \<inter> ba_seq_set A ! j" using that(3) by simp
    then show ?thesis using that(3) r by (cases st) (auto simp: order_entry_eq split: if_splits)
  qed
  have "case foldE (\<lambda>j. foldE (order_entry A j) (ba_seq_id A ! j)) [0..<ba_n_tokens A] ((\<lambda>_. {..<LLAMA_MAX_SEQ}), (\<lambda>_. -1))
      of Inl e \<Rightarrow> ?Q e | Inr st \<Rightarrow> ?P st"
    by (rule foldE_keeps [where P = ?P], simp, rule foldE_keeps [where P = ?P], assumption, rule entry) simp_all
  then show ?thesis by (auto simp: order_error_def split: sum.splits)
qed

section \<open>Accepted batches\<close>

text \<open>The rows of embeddings and of expanded positions are as long as the dimensions say.\<close>

definition rows_given :: "llama_batch \<Rightarrow> nat \<Rightarrow> nat \<Rightarrow> (bool list \<times> int list) option \<Rightarrow> bool" where
  "rows_given b n_pos n_embd extended \<longleftrightarrow> (let n = nat (lb_n_tokens b) in
     (case lb_embd b of None \<Rightarrow> True | Some e \<Rightarrow> n * n_embd \<le> length e) \<and>
     (extended \<noteq> None \<or> lb_token b = None \<longrightarrow> (case lb_pos b of None \<Rightarrow> n_pos \<le> 1 | Some ps \<Rightarrow> n * n_pos \<le> length ps)))"

text \<open>Positions of a sequence: a text model leaves no gap, in the batch and after the memory. With several positions
  per embedding they may jump forward, also past the memory; they do not go back before its last position, and a
  sequence of a mixed batch that starts with a text row does not repeat that position either.\<close>

definition starts_after :: "memory_bounds option \<Rightarrow> batch_allocr \<Rightarrow> bool" where
  "starts_after memory A \<longleftrightarrow> (\<forall>s < ba_n_seq_max A. ba_seq_pos A s \<noteq> {} \<longrightarrow>
     (if ba_n_pos_per_embd A \<le> 1
      then ba_seq_pos A s = {pos_min A s..pos_max A s} \<and>
        (case memory of None \<Rightarrow> True | Some m \<Rightarrow> snd (m s) \<ge> 0 \<longrightarrow> pos_min A s = snd (m s) + 1)
      else case memory of None \<Rightarrow> True | Some m \<Rightarrow> snd (m s) \<ge> 0 \<longrightarrow> snd (m s) \<le> pos_min A s \<and>
        (\<forall>i < ba_n_tokens A. ba_is_embd A \<noteq> [] \<and> \<not> ba_is_embd A ! i \<and> s \<in> set (ba_seq_id A ! i) \<and>
           (\<forall>j < i. s \<notin> set (ba_seq_id A ! j)) \<longrightarrow> snd (m s) < pos_min A s)))"

text \<open>What the allocator holds is what the batch gave, or what is generated for it: sequence 0 for tokens without
  sequences, output of the last token only unless all are asked for.\<close>

definition carries :: "llama_batch \<Rightarrow> bool \<Rightarrow> batch_allocr \<Rightarrow> bool" where
  "carries b output_all A \<longleftrightarrow> int (ba_n_tokens A) = lb_n_tokens b \<and> ba_token A = lb_token b \<and> ba_embd A = lb_embd b \<and>
     (\<forall>ps. lb_pos b = Some ps \<longrightarrow> ba_pos A = ps) \<and>
     (\<forall>i < ba_n_tokens A.
       (case lb_seq_id b of None \<Rightarrow> ba_seq_id A ! i = [0]
        | Some rows \<Rightarrow> length (ba_seq_id A ! i) = nat (row_ids b i) \<and>
            (\<forall>k < nat (row_ids b i). int (ba_seq_id A ! i ! k) = the (rows ! i) ! k)) \<and>
       (if output_all then ba_logits A ! i \<noteq> 0
        else case lb_logits b of None \<Rightarrow> ba_logits A ! i \<noteq> 0 \<longleftrightarrow> i = ba_n_tokens A - 1 | Some ls \<Rightarrow> ba_logits A ! i = ls ! i))"

definition well_formed :: "memory_bounds option \<Rightarrow> batch_allocr \<Rightarrow> bool" where
  "well_formed memory A \<longleftrightarrow> in_range A \<and> 0 < ba_n_tokens A \<and> ba_n_tokens A \<le> length (ba_pos A) \<and> length (ba_logits A) = ba_n_tokens A \<and>
     ba_seq_map A = set_indices (ba_seq_set A) \<and> (ba_has_cpl A \<longleftrightarrow> (\<exists>i < ba_n_tokens A. length (ba_seq_id A ! i) > 1)) \<and>
     (\<forall>i < ba_n_tokens A. ba_seq_id A ! i \<noteq> [] \<and> -1 \<le> ba_pos A ! i) \<and>
     (\<forall>i j. i < j \<and> j < ba_n_tokens A \<and> set (ba_seq_id A ! i) \<inter> set (ba_seq_id A ! j) \<noteq> {} \<longrightarrow> ba_pos A ! i \<le> ba_pos A ! j) \<and>
     (\<forall>s. ba_seq_pos A s = {ba_pos A ! i | i. i < ba_n_tokens A \<and> s \<in> set (ba_seq_id A ! i)}) \<and>
     starts_after memory A \<and>
     (\<forall>m i s. memory = Some m \<and> i < ba_n_tokens A \<and> s \<in> set (ba_seq_id A ! i) \<longrightarrow> m (hd (ba_seq_id A ! i)) = m s) \<and>
     unused A = {..<ba_n_tokens A} \<and> ba_n_used A = 0 \<and> ba_out_ids A = []"

lemma batch_initD:
  assumes "batch_init b n_vocab memory n_embd max_seqs output_all validated extended A = Some (Inr B)"
  defines "F \<equiv> fill_allocr b memory n_embd max_seqs output_all extended A"
  shows "B = split_reset F" "0 < lb_n_tokens b" "0 < max_seqs" "max_seqs \<le> LLAMA_MAX_SEQ" "batch_shape b"
    "extended_shape (nat (lb_n_tokens b)) extended"
    "\<forall>rows. lb_seq_id b = Some rows \<longrightarrow> (\<forall>i < nat (lb_n_tokens b). seq_row_error b max_seqs rows i = None)"
    "\<forall>s < max_seqs. start_error memory F s = None" "\<forall>s < max_seqs. coupling_error memory F s = None" "order_error F = None"
  using assms(1) unfolding batch_init_def F_def [symmetric]
  by (auto simp: Let_def assertion_def split: if_splits option.splits)

lemma gen_rows:
  assumes "batch_shape b" and "0 < lb_n_tokens b" and "0 < max_seqs"
    and "\<forall>rows. lb_seq_id b = Some rows \<longrightarrow> (\<forall>i < nat (lb_n_tokens b). seq_row_error b max_seqs rows i = None)"
  shows "length (gen_seq_ids b) = nat (lb_n_tokens b)"
    "i < nat (lb_n_tokens b) \<Longrightarrow> gen_seq_ids b ! i \<noteq> [] \<and> (\<forall>s \<in> set (gen_seq_ids b ! i). s < max_seqs)"
proof -
  show "length (gen_seq_ids b) = nat (lb_n_tokens b)" by (auto simp: gen_seq_ids_def split: option.splits)
  assume i: "i < nat (lb_n_tokens b)"
  show "gen_seq_ids b ! i \<noteq> [] \<and> (\<forall>s \<in> set (gen_seq_ids b ! i). s < max_seqs)"
  proof (cases "lb_seq_id b")
    case None
    then show ?thesis using i assms(3) by (simp add: gen_seq_ids_def)
  next
    case (Some rows)
    then have err: "seq_row_error b max_seqs rows i = None" using assms(4) i by simp
    then obtain r where r: "rows ! i = Some r" "0 < row_ids b i" "\<forall>s < nat (row_ids b i). 0 \<le> r ! s \<and> r ! s < int max_seqs"
      by (auto simp: seq_row_error_def atLeast0LessThan not_le not_less split: option.splits if_splits)
    have "nat (row_ids b i) \<le> length r"
      using assms(1) Some i r(1) by (auto simp: batch_shape_def Let_def row_ids_def split: option.splits)
    then show ?thesis
      using Some i r by (auto simp: gen_seq_ids_def in_set_conv_nth zless_nat_conj nat_less_iff)
  qed
qed

lemma gen_logits_length:
  assumes "batch_shape b" and "0 < lb_n_tokens b"
  shows "length (gen_logits b output_all) = nat (lb_n_tokens b)"
  using assms by (auto simp: gen_logits_def batch_shape_def Let_def split: option.splits)

lemma contiguous_positions:
  assumes "finite (S :: int set)" and "S \<noteq> {}" and "Max S - Min S + 1 \<le> int (card S)"
  shows "S = {Min S..Max S}"
proof -
  have "S \<subseteq> {Min S..Max S}" using assms(1) by auto
  moreover have "card {Min S..Max S} \<le> card S" using assms by (simp add: nat_le_iff) 
  ultimately show ?thesis by (intro card_seteq [symmetric, THEN sym]) simp_all
qed

lemma first_embd_text:
  assumes "ba_is_embd A \<noteq> []" "\<not> ba_is_embd A ! i" "i < ba_n_tokens A" "s \<in> set (ba_seq_id A ! i)"
    and "\<forall>j < i. s \<notin> set (ba_seq_id A ! j)"
  shows "\<not> first_embd A s"
proof -
  have "find (\<lambda>i. s \<in> set (ba_seq_id A ! i)) [0..<ba_n_tokens A] = Some i"
    using assms by (auto simp: find_Some_iff intro!: exI [of _ i])
  then show ?thesis using assms by (simp add: first_embd_def Let_def)
qed

lemma start_error_ok:
  assumes "\<forall>s < ba_n_seq_max A. start_error memory A s = None" and "\<forall>s. finite (ba_seq_pos A s)"
  shows "starts_after memory A"
  unfolding starts_after_def
proof (intro impI allI)
  fix s assume s: "s < ba_n_seq_max A" "ba_seq_pos A s \<noteq> {}"
  have e: "start_error memory A s = None" using assms(1) s(1) by simp
  show "if ba_n_pos_per_embd A \<le> 1
      then ba_seq_pos A s = {pos_min A s..pos_max A s} \<and>
        (case memory of None \<Rightarrow> True | Some m \<Rightarrow> snd (m s) \<ge> 0 \<longrightarrow> pos_min A s = snd (m s) + 1)
      else case memory of None \<Rightarrow> True | Some m \<Rightarrow> snd (m s) \<ge> 0 \<longrightarrow> snd (m s) \<le> pos_min A s \<and>
        (\<forall>i < ba_n_tokens A. ba_is_embd A \<noteq> [] \<and> \<not> ba_is_embd A ! i \<and> s \<in> set (ba_seq_id A ! i) \<and>
           (\<forall>j < i. s \<notin> set (ba_seq_id A ! j)) \<longrightarrow> snd (m s) < pos_min A s)"
  proof (cases "ba_n_pos_per_embd A \<le> 1")
    case True
    have "pos_max A s - pos_min A s + 1 \<le> int (card (ba_seq_pos A s))"
      using e s True by (auto simp: start_error_def Let_def not_less split: if_splits)
    then have "ba_seq_pos A s = {pos_min A s..pos_max A s}"
      using contiguous_positions [of "ba_seq_pos A s"] assms(2) s(2) by (simp add: pos_min_def pos_max_def)
    moreover have "case memory of None \<Rightarrow> True | Some m \<Rightarrow> snd (m s) \<ge> 0 \<longrightarrow> pos_min A s = snd (m s) + 1"
      using e s True by (auto simp: start_error_def Let_def split: if_splits option.splits)
    ultimately show ?thesis using True by simp
  next
    case False
    have "snd (m s) \<le> pos_min A s \<and> (ba_is_embd A \<noteq> [] \<and> \<not> first_embd A s \<longrightarrow> snd (m s) < pos_min A s)"
      if "memory = Some m" "snd (m s) \<ge> 0" for m
      using e s False that by (auto simp: start_error_def Let_def split: if_splits)
    then show ?thesis using False first_embd_text by (auto split: option.split)
  qed
qed

lemma fill_carries:
  assumes "batch_shape b" "0 < lb_n_tokens b"
    and "\<forall>rows. lb_seq_id b = Some rows \<longrightarrow> (\<forall>i < nat (lb_n_tokens b). seq_row_error b max_seqs rows i = None)"
  shows "carries b output_all (split_reset (fill_allocr b memory n_embd max_seqs output_all extended A))"
proof -
  let ?n = "nat (lb_n_tokens b)"
  have rows: "length (gen_seq_ids b ! i) = nat (row_ids b i) \<and>
      (\<forall>k < nat (row_ids b i). int (gen_seq_ids b ! i ! k) = the (rows ! i) ! k)"
    if r: "lb_seq_id b = Some rows" and i: "i < ?n" for rows i
  proof -
    have err: "seq_row_error b max_seqs rows i = None" using assms(3) r i by simp
    then obtain r where r': "rows ! i = Some r" "\<forall>s < nat (row_ids b i). 0 \<le> r ! s"
      by (auto simp: seq_row_error_def atLeast0LessThan not_le not_less split: option.splits if_splits)
    have "nat (row_ids b i) \<le> length r"
      using assms(1) r i r'(1) by (auto simp: batch_shape_def Let_def row_ids_def split: option.splits)
    then show ?thesis using r r' i by (simp add: gen_seq_ids_def)
  qed
  have logits: "if output_all then gen_logits b output_all ! i \<noteq> 0
      else case lb_logits b of None \<Rightarrow> gen_logits b output_all ! i \<noteq> 0 \<longleftrightarrow> i = ?n - 1 | Some ls \<Rightarrow> gen_logits b output_all ! i = ls ! i"
    if i: "i < ?n" for i
    using i assms(1) by (auto simp: gen_logits_def Let_def batch_shape_def nth_list_update split: option.splits)
  have none: "gen_seq_ids b ! i = [0]" if "lb_seq_id b = None" "i < ?n" for i using that by (simp add: gen_seq_ids_def)
  have "gen_logits b False ! (?n - Suc 0) \<noteq> 0" if "lb_logits b = None"
    using that assms(2) by (simp add: gen_logits_def Let_def)
  then show ?thesis
    using assms(2) rows none logits unfolding carries_def
    by (auto simp: fill_allocr_def split_reset_def Let_def split: option.split)
qed

lemma coupling_same:
  assumes "\<forall>s < ba_n_seq_max A. coupling_error (Some m) A s = None" and "ba_seq_cpl A = coupled (ba_seq_id A)"
    and "\<forall>s. ba_seq_pos A s = {ba_pos A ! i | i. i < ba_n_tokens A \<and> s \<in> set (ba_seq_id A ! i)}" and "in_range A"
    and i: "i < ba_n_tokens A" "s \<in> set (ba_seq_id A ! i)"
  shows "m (hd (ba_seq_id A ! i)) = m s"
proof (cases "s = hd (ba_seq_id A ! i)")
  case False
  let ?row = "ba_seq_id A ! i"
  have mem: "?row \<in> set (ba_seq_id A)" using i(1) assms(4) by (simp add: in_range_def)
  have "?row = hd ?row # tl ?row" using i(2) by (cases ?row) simp_all
  then have "s \<in> set (tl ?row)" "hd ?row \<in> set ?row" using i(2) False by (metis set_ConsD, metis list.set_intros(1))
  moreover from this have "coupled (ba_seq_id A) s (hd ?row)" using mem by (auto simp: coupled_def list_ex_iff)
  moreover have "s < ba_n_seq_max A" "hd ?row < ba_n_seq_max A" using i assms(4) \<open>hd ?row \<in> set ?row\<close> by (auto simp: in_range_def)
  moreover have "ba_seq_pos A s \<noteq> {}" using assms(3) i by auto
  moreover have "coupling_error (Some m) A s = None" using assms(1) \<open>s < ba_n_seq_max A\<close> by simp
  ultimately show ?thesis using assms(2) by (auto simp: coupling_error_def split: if_splits)
qed simp

lemma unused_reset: "unused (split_reset A) = {..<ba_n_tokens A}"
  by (auto simp: unused_def split_reset_def)

lemma fill_fields:
  "F = fill_allocr b memory n_embd max_seqs output_all extended A \<Longrightarrow>
    ba_n_tokens F = nat (lb_n_tokens b) \<and> ba_seq_id F = gen_seq_ids b \<and> ba_seq_set F = seq_sets (gen_seq_ids b) \<and>
    ba_seq_map F = set_indices (ba_seq_set F) \<and> ba_n_seq_max F = max_seqs \<and> ba_logits F = gen_logits b output_all \<and>
    ba_has_cpl F = list_ex (\<lambda>qs. length qs > 1) (gen_seq_ids b) \<and> ba_seq_cpl F = coupled (gen_seq_ids b) \<and>
    ba_seq_pos F = seq_positions (gen_seq_ids b) (take (nat (lb_n_tokens b)) (ba_pos F)) \<and>
    ba_pos F = (case lb_pos b of Some ps \<Rightarrow> ps | None \<Rightarrow> gen_pos (pos_start memory) (gen_seq_ids b)) \<and>
    ba_embd F = lb_embd b \<and> ba_token F = lb_token b \<and> ba_n_embd F = n_embd \<and> ba_n_pos_per_embd F = ba_n_pos_per_embd A \<and>
    ba_pos_expanded F = (extended \<noteq> None)"
  by (simp add: fill_allocr_def Let_def)

lemma reset_fields [simp]:
  "ba_n_tokens (split_reset A) = ba_n_tokens A" "ba_seq_id (split_reset A) = ba_seq_id A" "ba_seq_set (split_reset A) = ba_seq_set A"
  "ba_seq_map (split_reset A) = ba_seq_map A" "ba_n_seq_max (split_reset A) = ba_n_seq_max A" "ba_logits (split_reset A) = ba_logits A"
  "ba_has_cpl (split_reset A) = ba_has_cpl A" "ba_seq_pos (split_reset A) = ba_seq_pos A" "ba_pos (split_reset A) = ba_pos A"
  "ba_embd (split_reset A) = ba_embd A" "ba_token (split_reset A) = ba_token A" "ba_n_embd (split_reset A) = ba_n_embd A"
  "ba_n_pos_per_embd (split_reset A) = ba_n_pos_per_embd A" "ba_pos_expanded (split_reset A) = ba_pos_expanded A"
  "ba_is_embd (split_reset A) = ba_is_embd A" "ba_n_used (split_reset A) = 0" "ba_out_ids (split_reset A) = []" "ba_used (split_reset A) = replicate (ba_n_tokens A) False"
  by (simp_all add: split_reset_def)

lemma reset_bounds [simp]: "pos_min (split_reset A) = pos_min A" "pos_max (split_reset A) = pos_max A"
  by (simp_all add: pos_min_def pos_max_def fun_eq_iff)

lemma reset_predicates [simp]:
  "in_range (split_reset A) = in_range A" "starts_after memory (split_reset A) = starts_after memory A"
  by (simp_all add: in_range_def starts_after_def split: option.split)

lemma well_formed_reset:
  assumes "well_formed memory A"
  shows "well_formed memory (split_reset A)"
  using assms unfolding well_formed_def reset_fields reset_predicates unused_reset by simp

lemma batch_init_well_formed:
  assumes init: "batch_init b n_vocab memory n_embd max_seqs output_all validated extended A = Some (Inr B)"
  shows "well_formed memory B"
proof -
  let ?F = "fill_allocr b memory n_embd max_seqs output_all extended A" and ?n = "nat (lb_n_tokens b)"
  note D = batch_initD [OF init]
  note fields = fill_fields [OF refl [of ?F]]
  note rows = gen_rows [OF D(5,2,3,7)]
  have pos: "?n \<le> length (ba_pos ?F)"
    using D(5) fields rows(1) by (auto simp: batch_shape_def Let_def split: option.splits)
  have range: "in_range ?F" using fields rows D(4) by (simp add: in_range_def)
  have positions: "\<forall>s. ba_seq_pos ?F s = {ba_pos ?F ! i | i. i < ba_n_tokens ?F \<and> s \<in> set (ba_seq_id ?F ! i)}"
  proof
    fix s
    have "ba_seq_pos ?F s = {take ?n (ba_pos ?F) ! i | i. i < ?n \<and> s \<in> set (gen_seq_ids b ! i)}"
      using fields pos rows(1) by (simp add: seq_positions_eq)
    also have "\<dots> = {ba_pos ?F ! i | i. i < ?n \<and> s \<in> set (gen_seq_ids b ! i)}" by (auto intro: nth_take [symmetric])
    finally show "ba_seq_pos ?F s = {ba_pos ?F ! i | i. i < ba_n_tokens ?F \<and> s \<in> set (ba_seq_id ?F ! i)}" using fields by simp
  qed
  then have finite: "\<forall>s. finite (ba_seq_pos ?F s)" by simp
  have starts: "starts_after memory ?F" using start_error_ok [OF _ finite, of memory] D(8) fields by simp
  obtain S p where order: "foldE (\<lambda>i. foldE (order_entry ?F i) (ba_seq_id ?F ! i)) [0..<ba_n_tokens ?F]
      ((\<lambda>_. {..<LLAMA_MAX_SEQ}), \<lambda>_. -1) = Inr (S, p)"
    using D(10) by (auto simp: order_error_def split: sum.splits)
  note O = order_tokens [OF order]
  have "\<forall>i < ?n. ba_seq_id ?F ! i \<noteq> [] \<and> -1 \<le> ba_pos ?F ! i"
    using O rows(2) fields by (metis list.set_intros(1) neq_Nil_conv)
  moreover have "\<forall>i j. i < j \<and> j < ?n \<and> set (ba_seq_id ?F ! i) \<inter> set (ba_seq_id ?F ! j) \<noteq> {} \<longrightarrow> ba_pos ?F ! i \<le> ba_pos ?F ! j"
    using O fields by fastforce
  moreover have "\<forall>m i s. memory = Some m \<and> i < ?n \<and> s \<in> set (ba_seq_id ?F ! i) \<longrightarrow> m (hd (ba_seq_id ?F ! i)) = m s"
  proof (intro allI impI)
    fix m i s assume a: "memory = Some m \<and> i < ?n \<and> s \<in> set (ba_seq_id ?F ! i)"
    show "m (hd (ba_seq_id ?F ! i)) = m s"
      by (rule coupling_same [OF _ _ positions range]) (use a D(9) fields in auto)
  qed
  moreover have "ba_has_cpl ?F \<longleftrightarrow> (\<exists>i < ?n. length (ba_seq_id ?F ! i) > 1)"
    using fields rows(1) by (auto simp: list_ex_length)
  ultimately have "well_formed memory (split_reset ?F)"
    using range pos positions starts fields D(2) gen_logits_length [OF D(5,2)]
    unfolding well_formed_def reset_fields reset_predicates unused_reset by simp
  then show ?thesis using D(1) by simp
qed

lemma batch_init_carries:
  assumes "batch_init b n_vocab memory n_embd max_seqs output_all validated extended A = Some (Inr B)"
  shows "carries b output_all B"
  using fill_carries batch_initD [OF assms] by simp

lemma batch_init_split_ok:
  assumes init: "batch_init b n_vocab memory n_embd max_seqs output_all validated extended A = Some (Inr B)"
    and rows: "rows_given b (ba_n_pos_per_embd A) n_embd extended"
  shows "split_ok B"
proof -
  let ?F = "fill_allocr b memory n_embd max_seqs output_all extended A" and ?n = "nat (lb_n_tokens b)"
  note fields = fill_fields [OF refl [of ?F]]
  have B: "B = split_reset ?F" by (rule batch_initD(1) [OF init])
  note D = batch_initD [OF init]
  note W = batch_init_well_formed [OF init, unfolded well_formed_def in_range_def]
  have embd: "embd_readable B [0..<?n]"
  proof (cases "lb_embd b")
    case (Some e)
    have "n_embd + i * n_embd \<le> length e" if "i < ?n" for i
    proof -
      have "n_embd + i * n_embd \<le> ?n * n_embd" using mult_le_mono1 [of "Suc i" ?n n_embd] that by simp
      also have "\<dots> \<le> length e" using rows Some by (simp add: rows_given_def Let_def)
      finally show ?thesis .
    qed
    then show ?thesis using fields Some by (simp add: B embd_readable_def list_all_iff)
  qed (use fields in \<open>simp add: B embd_readable_def\<close>)
  have "pos_readable B [0..<?n]"
  proof (cases "extended \<noteq> None \<or> lb_token b = None")
    case True
    have "j * ?n + i < length (ba_pos ?F)" if "j < ba_n_pos_per_embd A" "i < ?n" for i j
    proof -
      have "(j + 1) * ?n \<le> ba_n_pos_per_embd A * ?n" using that(1) by (intro mult_le_mono1) simp
      then have "j * ?n + i < ba_n_pos_per_embd A * ?n" using that(2) by simp
      moreover have "ba_n_pos_per_embd A * ?n \<le> length (ba_pos ?F)"
        using rows True fields D(5) gen_rows(1) [OF D(5,2,3,7)]
        by (cases "lb_pos b") (auto simp: rows_given_def Let_def mult.commute le_Suc_eq)
      ultimately show ?thesis by simp
    qed
    moreover have "ba_pos_expanded ?F \<or> ba_token ?F = None" using True fields by simp
    ultimately show ?thesis using fields by (simp add: pos_readable_def B)
  next
    case False
    then show ?thesis using fields W by (auto simp: pos_readable_def B)
  qed
  with embd show ?thesis using W fields by (simp add: split_ok_def B)
qed

end
