(* ===== verification/Batch_Equal.thy ===== *)
theory Batch_Equal
  imports Batch_Split
begin

text \<open>
  \<open>split_equal\<close>: the sets it picks are disjoint, each gives the same number of its first unused tokens,
  and the tail it keeps back leaves every set either empty or with at least \<open>tail\<close> tokens.
\<close>

section \<open>The tokens of a set\<close>

text \<open>The tokens of one set are used in the order of the batch.\<close>

definition fronted :: "batch_allocr \<Rightarrow> bool" where
  "fronted A \<longleftrightarrow> (\<forall>i j. i < j \<and> j < ba_n_tokens A \<and> ba_seq_set A ! i = ba_seq_set A ! j \<and> i \<in> unused A \<longrightarrow> j \<in> unused A)"

definition fresh :: "batch_allocr \<Rightarrow> nat set \<Rightarrow> nat list" where
  "fresh A q = filter (\<lambda>i. i \<in> unused A) (set_indices (ba_seq_set A) q)"

lemma set_indices_props: "sorted (set_indices sets q)" "distinct (set_indices sets q)"
    "set (set_indices sets q) = {i. i < length sets \<and> sets ! i = q}"
  by (auto simp: set_indices_def sorted_wrt_filter)

lemma split_ok_lengths: "split_ok A \<Longrightarrow> length (ba_seq_set A) = ba_n_tokens A"
  by (simp add: split_ok_def seq_sets_def)

lemma fresh_set:
  "split_ok A \<Longrightarrow> set (fresh A q) = {i \<in> unused A. ba_seq_set A ! i = q}"
  by (auto simp: fresh_def set_indices_props(3) split_ok_lengths unused_def)

lemma fresh_distinct [simp]: "distinct (fresh A q)"
  by (simp add: fresh_def set_indices_props(2))

lemma fresh_length: "split_ok A \<Longrightarrow> length (fresh A q) \<le> length (ba_seq_map A q)"
  by (simp add: fresh_def split_ok_def)

lemma takeWhile_filter_split:
  assumes "sorted_wrt (\<lambda>i j. P i \<longrightarrow> P j) xs"
  shows "takeWhile (\<lambda>i. \<not> P i) xs @ filter P xs = xs"
  using assms by (induction xs) (auto simp: filter_id_conv)

lemma fresh_rest:
  assumes "split_ok A" and "fronted A"
  shows "takeWhile (\<lambda>i. ba_used A ! i) (ba_seq_map A q) @ fresh A q = ba_seq_map A q"
proof -
  let ?cs = "set_indices (ba_seq_set A) q"
  have in_cs: "i < ba_n_tokens A \<and> ba_seq_set A ! i = q" if "i \<in> set ?cs" for i
    using that assms(1) by (simp add: set_indices_props(3) split_ok_lengths)
  have front: "i \<in> unused A \<longrightarrow> j \<in> unused A" if "i < j" "i \<in> set ?cs" "j \<in> set ?cs" for i j
    using assms(2) [unfolded fronted_def, rule_format, of i j] that in_cs [of i] in_cs [of j] by simp
  have "sorted_wrt (<) ?cs" using set_indices_props(1,2) by (simp add: strict_sorted_iff)
  then have "sorted_wrt (\<lambda>i j. i \<in> unused A \<longrightarrow> j \<in> unused A) ?cs"
    by (rule sorted_wrt_mono_rel [rotated]) (rule front)
  from takeWhile_filter_split [OF this] have "takeWhile (\<lambda>i. i \<notin> unused A) ?cs @ fresh A q = ?cs" by (simp add: fresh_def)
  moreover have "takeWhile (\<lambda>i. i \<notin> unused A) ?cs = takeWhile (\<lambda>i. ba_used A ! i) ?cs"
    by (rule takeWhile_cong [OF refl]) (use in_cs in \<open>auto simp: unused_def\<close>)
  ultimately show ?thesis using assms(1) by (simp add: split_ok_def)
qed

section \<open>The sets\<close>

definition disjoint_sets_list :: "nat set list \<Rightarrow> bool" where
  "disjoint_sets_list sets \<longleftrightarrow> sorted_wrt (\<lambda>p q. p \<inter> q = {}) sets"

lemma disjoint_sets_snoc: "disjoint_sets_list (sets @ [q]) \<longleftrightarrow> disjoint_sets_list sets \<and> (\<forall>p \<in> set sets. p \<inter> q = {})"
  by (auto simp: disjoint_sets_list_def sorted_wrt_append)

lemma disjoint_sets_take: "disjoint_sets_list sets \<Longrightarrow> disjoint_sets_list (take n sets)"
  by (simp add: disjoint_sets_list_def sorted_wrt_take)

lemma disjoint_sets_distinct: "disjoint_sets_list sets \<Longrightarrow> {} \<notin> set sets \<Longrightarrow> distinct sets"
  by (induction sets) (auto simp: disjoint_sets_list_def)

definition picked_sets :: "batch_allocr \<Rightarrow> nat \<Rightarrow> nat set list \<Rightarrow> bool" where
  "picked_sets A n_ubatch sets \<longleftrightarrow> disjoint_sets_list sets \<and> length sets \<le> n_ubatch + 1 \<and>
     (\<forall>q \<in> set sets. q \<noteq> {} \<and> (\<exists>i \<in> unused A. ba_seq_set A ! i = q))"

lemma equal_sets_picked:
  assumes "split_ok A" and "picked_sets A n_ubatch sets" and "length sets \<le> n_ubatch" and "\<forall>i \<in> set ks. i < ba_n_tokens A"
  shows "picked_sets A n_ubatch (equal_sets A n_ubatch sequential ks sets prev)"
  using assms(2-)
proof (induction ks arbitrary: sets prev)
  case (Cons i ks)
  have "ba_seq_set A ! i \<noteq> {}" using assms(1) Cons.prems(3) by (simp add: split_ok_def seq_sets_def)
  then have "\<not> ba_used A ! i \<Longrightarrow> \<forall>q \<in> set sets. q \<inter> ba_seq_set A ! i = {} \<Longrightarrow> picked_sets A n_ubatch (sets @ [ba_seq_set A ! i])"
    using Cons.prems by (auto simp: picked_sets_def disjoint_sets_snoc unused_def)
  then show ?case using Cons by (auto simp: list_all_iff)
qed simp

lemma equal_sets_prefix: "\<exists>more. equal_sets A n_ubatch sequential ks sets prev = sets @ more"
proof (induction ks arbitrary: sets prev)
  case (Cons i ks)
  then show ?case by simp (metis append.assoc)
qed simp

lemma equal_sets_empty:
  "equal_sets A n_ubatch sequential ks [] prev = [] \<longleftrightarrow> (\<forall>i \<in> set ks. ba_used A ! i)"
proof (induction ks arbitrary: prev)
  case (Cons i ks)
  have "equal_sets A n_ubatch sequential ks [q] p \<noteq> []" for q p
    using equal_sets_prefix [of A n_ubatch sequential ks "[q]" p] by auto
  then show ?case using Cons by simp
qed simp

text \<open>Without coupling, the sequential split takes sequences with consecutive numbers.\<close>

definition uncoupled :: "batch_allocr \<Rightarrow> bool" where
  "uncoupled A \<longleftrightarrow> \<not> ba_has_cpl A \<and> (\<forall>i < ba_n_tokens A. length (ba_seq_id A ! i) = 1)"

definition consecutive :: "nat set list \<Rightarrow> bool" where
  "consecutive sets \<longleftrightarrow> (\<exists>s0. sets = map (\<lambda>a. {s0 + a}) [0..<length sets])"

lemma consecutive_take:
  assumes "consecutive sets"
  shows "consecutive (take n sets)"
proof -
  obtain s0 where s: "sets = map (\<lambda>a. {s0 + a}) [0..<length sets]" using assms by (auto simp: consecutive_def)
  have "take n sets = map (\<lambda>a. {s0 + a}) [0..<length (take n sets)]" by (subst s) (simp add: take_map take_upt min_def)
  then show ?thesis by (auto simp: consecutive_def)
qed

lemma equal_sets_consecutive:
  assumes "split_ok A" and "uncoupled A" and "\<forall>i \<in> set ks. i < ba_n_tokens A"
    and "sets = map (\<lambda>a. {s0 + a}) [0..<length sets]" and "sets \<noteq> [] \<Longrightarrow> prev = int s0 + int (length sets) - 1"
  shows "consecutive (equal_sets A n_ubatch True ks sets prev)"
  using assms(3-)
proof (induction ks arbitrary: sets prev s0)
  case (Cons i ks)
  obtain t where t: "ba_seq_id A ! i = [t]"
    using assms(2) Cons.prems(1) by (auto simp: uncoupled_def length_Suc_conv)
  then have set: "ba_seq_set A ! i = {t}" using assms(1) Cons.prems(1) by (simp add: split_ok_def seq_sets_def)
  let ?sets = "sets @ [{t}]"
  have add: "\<exists>s1. ?sets = map (\<lambda>a. {s1 + a}) [0..<length ?sets] \<and> int t = int s1 + int (length ?sets) - 1"
    if nx: "sets = [] \<or> int t = prev + 1"
  proof (cases "sets = []")
    case False
    then have "t = s0 + length sets" using nx Cons.prems(3) by simp
    then show ?thesis using Cons.prems(2) by (intro exI [of _ s0]) simp
  qed (intro exI [of _ t], simp)
  have IH: "consecutive (equal_sets A n_ubatch True ks sets prev)" using Cons by simp
  have "consecutive ?sets" "consecutive (equal_sets A n_ubatch True ks ?sets (int t))" if nx: "sets = [] \<or> int t = prev + 1"
  proof -
    obtain s1 where s1: "?sets = map (\<lambda>a. {s1 + a}) [0..<length ?sets]" "int t = int s1 + int (length ?sets) - 1"
      using add [OF nx] by blast
    then show "consecutive ?sets" unfolding consecutive_def by blast
    show "consecutive (equal_sets A n_ubatch True ks ?sets (int t))"
      by (rule Cons.IH [OF _ s1(1)]) (use Cons.prems(1) s1(2) in simp_all)
  qed
  with IH show ?case by (simp add: t set)
qed (auto simp: consecutive_def)

section \<open>The tokens taken from each set\<close>

definition taken :: "batch_allocr \<Rightarrow> nat set list \<Rightarrow> (nat \<Rightarrow> nat) \<Rightarrow> nat set" where
  "taken A sets ms = (\<Union>s < length sets. set (take (ms s) (fresh A (sets ! s))))"

text \<open>The loop's state when \<open>ms s\<close> tokens were taken from set \<open>s\<close>.\<close>

definition equal_state :: "batch_allocr \<Rightarrow> nat set list \<Rightarrow> (nat \<Rightarrow> nat) \<Rightarrow> nat list \<times> nat list list \<times> batch_allocr \<Rightarrow> bool" where
  "equal_state A sets ms = (\<lambda>(cur, per, B). length cur = length sets \<and> length per = length sets \<and>
     (\<forall>s < length sets. ms s \<le> length (fresh A (sets ! s)) \<and>
        cur ! s + length (fresh A (sets ! s)) = length (ba_seq_map A (sets ! s)) + ms s \<and>
        per ! s = take (ms s) (fresh A (sets ! s))) \<and>
     took A (taken A sets ms) B \<and> ba_out_ids B = ba_out_ids A)"

lemma taken_Suc:
  assumes "split_ok A" and "distinct sets" and "s < length sets" and "m < length (fresh A (sets ! s))"
  shows "taken A sets (ms(s := Suc m)) = insert (fresh A (sets ! s) ! m) (taken A sets (ms(s := m)))"
    and "fresh A (sets ! s) ! m \<notin> taken A sets (ms(s := m))"
    and "fresh A (sets ! s) ! m \<in> unused A"
proof -
  let ?i = "fresh A (sets ! s) ! m"
  have i: "?i \<in> unused A" "ba_seq_set A ! ?i = sets ! s"
    using nth_mem [OF assms(4)] by (auto simp: fresh_set [OF assms(1)])
  then show "?i \<in> unused A" by simp
  have other: "?i \<notin> set (take n (fresh A (sets ! t)))" if "t < length sets" "t \<noteq> s" for t n
    using i(2) that assms(2,3) by (auto dest!: in_set_takeD simp: fresh_set [OF assms(1)] nth_eq_iff_index_eq)
  have "?i \<notin> set (take m (fresh A (sets ! s)))"
    using assms(4) by (auto simp: in_set_conv_nth nth_eq_iff_index_eq)
  then show "?i \<notin> taken A sets (ms(s := m))" using other by (auto simp: taken_def)
  have "set (take (Suc m) (fresh A (sets ! s))) = insert ?i (set (take m (fresh A (sets ! s))))"
    using assms(4) by (simp add: take_Suc_conv_app_nth)
  then show "taken A sets (ms(s := Suc m)) = insert ?i (taken A sets (ms(s := m)))"
    using assms(3) by (auto simp: taken_def split: if_splits)
qed

lemma equal_stateD:
  assumes "equal_state A sets ms (cur, per, B)"
  shows "length cur = length sets" "length per = length sets" "took A (taken A sets ms) B" "ba_out_ids B = ba_out_ids A"
    "s < length sets \<Longrightarrow> ms s \<le> length (fresh A (sets ! s))"
    "s < length sets \<Longrightarrow> cur ! s + length (fresh A (sets ! s)) = length (ba_seq_map A (sets ! s)) + ms s"
    "s < length sets \<Longrightarrow> per ! s = take (ms s) (fresh A (sets ! s))"
  using assms by (auto simp: equal_state_def)

lemma next_token:
  assumes ok: "split_ok A" "fronted A" and st: "equal_state A sets ms (cur, per, B)"
    and s: "s < length sets" "ms s < length (fresh A (sets ! s))"
  shows "ba_seq_map B (sets ! s) ! (cur ! s) = fresh A (sets ! s) ! ms s"
proof -
  let ?t = "takeWhile (\<lambda>i. ba_used A ! i) (ba_seq_map A (sets ! s))"
  have rest: "?t @ fresh A (sets ! s) = ba_seq_map A (sets ! s)" by (rule fresh_rest [OF ok])
  from arg_cong [OF rest, of length] have len: "length ?t + length (fresh A (sets ! s)) = length (ba_seq_map A (sets ! s))"
    by simp
  then have cur: "cur ! s = length ?t + ms s" using equal_stateD(6) [OF st s(1)] by simp
  have "ba_seq_map B (sets ! s) ! (cur ! s) = (?t @ fresh A (sets ! s)) ! (length ?t + ms s)"
    using split_frameD(15) [OF tookD(1) [OF equal_stateD(3) [OF st]]] by (simp only: rest cur)
  then show ?thesis by (simp only: nth_append_length_plus)
qed

lemma equal_take_state:
  assumes ok: "split_ok A" "fronted A" "distinct sets" and st: "equal_state A sets ms st"
    and s: "s < length sets" "ms s < length (fresh A (sets ! s))"
  shows "equal_state A sets (ms(s := Suc (ms s))) (equal_take sets s st)"
proof -
  obtain cur per B where c: "st = (cur, per, B)" by (cases st)
  note st = st [unfolded c]
  note D = equal_stateD [OF st]
  let ?i = "fresh A (sets ! s) ! ms s"
  note T = taken_Suc(1,2) [where ms = ms, OF ok(1,3) s, unfolded fun_upd_triv] taken_Suc(3) [OF ok(1,3) s]
  have "took A (taken A sets (ms(s := Suc (ms s)))) (use_token_at ?i B)"
    unfolding T(1) by (rule took_use [OF D(3) T(3,2)])
  then show ?thesis
    using next_token [OF ok(1,2) st s] D s
    by (simp add: c equal_take_def equal_state_def use_token_at_def nth_list_update take_Suc_conv_app_nth Let_def)
qed

lemma equal_round_state:
  assumes ok: "split_ok A" "fronted A" "distinct sets" and st: "equal_state A sets ms st"
    and more: "\<forall>s < length sets. ms s < length (fresh A (sets ! s))" and j: "j \<le> length sets"
  shows "equal_state A sets (\<lambda>s. if s < j then Suc (ms s) else ms s) (fold (equal_take sets) [0..<j] st)"
  using j
proof (induction j)
  case 0
  then show ?case using st by simp
next
  case (Suc j)
  let ?ms = "\<lambda>s. if s < j then Suc (ms s) else ms s"
  have "equal_state A sets (?ms(j := Suc (?ms j))) (equal_take sets j (fold (equal_take sets) [0..<j] st))"
    by (rule equal_take_state [OF ok]) (use Suc more in auto)
  moreover have "?ms(j := Suc (?ms j)) = (\<lambda>s. if s < Suc j then Suc (ms s) else ms s)" by (auto simp: fun_eq_iff less_Suc_eq)
  ultimately show ?case by simp
qed

lemma equal_state_exhausted:
  assumes st: "equal_state A sets ms st" and s: "s < length sets"
  shows "length (ba_seq_map (snd (snd st)) (sets ! s)) - fst st ! s = length (fresh A (sets ! s)) - ms s"
    and "fst st ! s \<ge> length (ba_seq_map (snd (snd st)) (sets ! s)) \<longleftrightarrow> ms s = length (fresh A (sets ! s))"
    and "fst (snd st) ! s = take (ms s) (fresh A (sets ! s))"
proof -
  obtain cur per B where c: "st = (cur, per, B)" by (cases st)
  note D = equal_stateD [OF st [unfolded c]]
  show "length (ba_seq_map (snd (snd st)) (sets ! s)) - fst st ! s = length (fresh A (sets ! s)) - ms s"
    "fst st ! s \<ge> length (ba_seq_map (snd (snd st)) (sets ! s)) \<longleftrightarrow> ms s = length (fresh A (sets ! s))"
    "fst (snd st) ! s = take (ms s) (fresh A (sets ! s))"
    using D(5-7) [OF s] split_frameD(15) [OF tookD(1) [OF D(3)]] by (auto simp: c)
qed

lemma equal_loop_state:
  assumes ok: "split_ok A" "fronted A" "distinct sets" and ne: "sets \<noteq> []" and st: "equal_state A sets (\<lambda>_. m) st"
    and m: "Suc m * length sets \<le> max (length sets) n_ubatch"
  shows "\<exists>m' st'. equal_loop n_ubatch sets st = Some st' \<and> equal_state A sets (\<lambda>_. m') st' \<and> m \<le> m' \<and>
    ((\<forall>s < length sets. m < length (fresh A (sets ! s))) \<longrightarrow> m < m') \<and> m' * length sets \<le> max (length sets) n_ubatch"
  using st m
proof (induction "length (fresh A (sets ! 0)) - m" arbitrary: m st rule: less_induct)
  case less
  show ?case
  proof (cases "\<exists>s < length sets. m = length (fresh A (sets ! s))")
    case True
    then have "equal_loop n_ubatch sets st = Some st"
      using equal_state_exhausted(2) [OF less.prems(1)] by (subst equal_loop.simps) (auto simp: list_ex_iff)
    then show ?thesis using less.prems True by (intro exI [of _ m] exI [of _ st]) (auto intro: le_trans)
  next
    case False
    let ?st = "fold (equal_take sets) [0..<length sets] st"
    have more: "\<forall>s < length sets. m < length (fresh A (sets ! s))"
      using False less.prems(1) by (cases st) (auto simp: equal_state_def le_neq_implies_less)
    have "equal_state A sets (\<lambda>s. if s < length sets then Suc m else m) ?st"
      using equal_round_state [OF ok less.prems(1) _ order.refl] more by simp
    then have round: "equal_state A sets (\<lambda>_. Suc m) ?st"
      by (cases ?st) (auto simp: equal_state_def taken_def)
    have len: "length (fst (snd ?st) ! 0) = Suc m"
      using equal_state_exhausted(3) [OF round, of 0] more ne by (simp add: Suc_leI)
    have go: "equal_loop n_ubatch sets st = (if (Suc m + 1) * length sets > n_ubatch then Some ?st else equal_loop n_ubatch sets ?st)"
      using False equal_state_exhausted(2) [OF less.prems(1)] len by (subst equal_loop.simps) (auto simp: list_ex_iff Let_def)
    show ?thesis
    proof (cases "(Suc m + 1) * length sets > n_ubatch")
      case True
      then show ?thesis using go round less.prems(2) by (intro exI [of _ "Suc m"] exI [of _ ?st]) simp
    next
      case F: False
      have "length (fresh A (sets ! 0)) - Suc m < length (fresh A (sets ! 0)) - m" using more ne by (simp add: diff_less_mono2)
      from less.hyps [OF this round] F obtain m' st' where
          "equal_loop n_ubatch sets ?st = Some st'" "equal_state A sets (\<lambda>_. m') st'" "Suc m \<le> m'" "m' * length sets \<le> max (length sets) n_ubatch"
        by auto
      with F go show ?thesis by (intro exI [of _ m'] exI [of _ st']) simp
    qed
  qed
qed

section \<open>The tail\<close>

lemma equal_take_power:
  assumes ok: "split_ok A" "fronted A" "distinct sets" and st: "equal_state A sets ms st" and s: "s < length sets"
    and r: "ms s + r \<le> length (fresh A (sets ! s))"
  shows "equal_state A sets (ms(s := ms s + r)) ((equal_take sets s ^^ r) st)"
  using r
proof (induction r)
  case (Suc r)
  have "equal_state A sets ((ms(s := ms s + r))(s := Suc ((ms(s := ms s + r)) s))) (equal_take sets s ((equal_take sets s ^^ r) st))"
    by (rule equal_take_state [OF ok _ s], rule Suc.IH) (use Suc.prems in simp_all)
  then show ?case by (simp only: funpow.simps comp_apply add_Suc_right fun_upd_same fun_upd_upd)
qed (simp add: st)

lemma drop_last_state:
  assumes ok: "split_ok A" "distinct sets" "sets \<noteq> []" and st: "equal_state A sets (ms(0 := Suc m)) st"
  shows "\<exists>st'. drop_last_token k st = Some st' \<and> equal_state A sets (ms(0 := m)) st'"
proof -
  obtain cur per B where c: "st = (cur, per, B)" by (cases st)
  note D = equal_stateD [OF st [unfolded c]]
  have s: "0 < length sets" using ok(3) by simp
  have m: "m < length (fresh A (sets ! 0))" using D(5) [OF s] by simp
  let ?i = "fresh A (sets ! 0) ! m"
  note T = taken_Suc(1,2) [where ms = ms, OF ok(1,2) s m]
  have per: "per ! 0 = take m (fresh A (sets ! 0)) @ [?i]"
    using D(7) [OF s] m by (simp add: take_Suc_conv_app_nth)
  have "took A (taken A sets (ms(0 := m))) (unuse_token_at ?i B)"
    using took_unuse [OF D(3), of ?i] T by (simp add: T(1))
  moreover have "cur ! 0 - 1 + length (fresh A (sets ! 0)) = length (ba_seq_map A (sets ! 0)) + m"
    using D(6) [OF s] fresh_length [OF ok(1), of "sets ! 0"] by simp
  moreover have "ms t \<le> length (fresh A (sets ! t)) \<and> cur ! t + length (fresh A (sets ! t)) = length (ba_seq_map A (sets ! t)) + ms t \<and>
      per ! t = take (ms t) (fresh A (sets ! t))" if "t < length sets" "t \<noteq> 0" for t
    using D(5-7) [OF that(1)] that(2) by simp
  ultimately have "equal_state A sets (ms(0 := m)) (cur[0 := cur ! 0 - 1], per[0 := take m (fresh A (sets ! 0))], unuse_token_at ?i B)"
    using D(1,2,4) m by (auto simp: equal_state_def nth_list_update unuse_token_at_def)
  then show ?thesis using per by (simp add: c drop_last_token_def assertion_def)
qed

lemma drop_last_times:
  assumes ok: "split_ok A" "distinct sets" "sets \<noteq> []" and st: "equal_state A sets (ms(0 := length ks + m)) st"
  shows "\<exists>st'. foldM drop_last_token ks st = Some st' \<and> equal_state A sets (ms(0 := m)) st'"
  using st
proof (induction ks arbitrary: st)
  case (Cons k ks)
  from drop_last_state [OF ok, of ms "length ks + m" st k] Cons.prems obtain st1 where
      "drop_last_token k st = Some st1" "equal_state A sets (ms(0 := length ks + m)) st1" by (auto simp del: fun_upd_apply)
  with Cons.IH show ?case by (auto simp del: fun_upd_apply)
qed simp

lemma out_unuse [simp]: "ba_out_ids (unuse_token_at i B) = ba_out_ids B"
  by (simp add: unuse_token_at_def)

lemma unuse_fold:
  assumes "took A S B" and "set xs \<subseteq> S" and "distinct xs"
  shows "took A (S - set xs) (fold unuse_token_at xs B) \<and> ba_out_ids (fold unuse_token_at xs B) = ba_out_ids B"
  using assms
proof (induction xs arbitrary: S B)
  case (Cons i xs)
  have "took A (S - {i}) (unuse_token_at i B)" by (rule took_unuse [OF Cons.prems(1)]) (use Cons.prems(2) in simp)
  moreover have "set xs \<subseteq> S - {i}" "distinct xs" using Cons.prems(2,3) by auto
  ultimately have "took A (S - {i} - set xs) (fold unuse_token_at xs (unuse_token_at i B)) \<and>
      ba_out_ids (fold unuse_token_at xs (unuse_token_at i B)) = ba_out_ids (unuse_token_at i B)"
    by (rule Cons.IH)
  then show ?case by (metis Diff_insert2 fold_simps(2) list.simps(15) out_unuse)
qed (simp add: Diff_empty)

lemma distinct_concat_map:
  assumes "distinct ks" and "\<forall>k \<in> set ks. distinct (g k)" and "\<forall>k \<in> set ks. \<forall>l \<in> set ks. k \<noteq> l \<longrightarrow> set (g k) \<inter> set (g l) = {}"
  shows "distinct (concat (map g ks))"
  using assms by (induction ks) auto

lemma per_tokens:
  assumes ok: "split_ok A" "distinct sets" and st: "equal_state A sets ms (cur, per, B)"
  shows "set (concat per) = taken A sets ms" "distinct (concat per)"
proof -
  note D = equal_stateD [OF st]
  have per: "per = map (\<lambda>s. take (ms s) (fresh A (sets ! s))) [0..<length sets]"
    using D by (intro nth_equalityI) auto
  show "set (concat per) = taken A sets ms" by (auto simp: per taken_def)
  have sub: "set (per ! s) \<subseteq> {i. ba_seq_set A ! i = sets ! s}" if "s < length sets" for s
    using that D(7) [of s] by (auto dest: in_set_takeD simp: fresh_set [OF ok(1)])
  have "set (per ! s) \<inter> set (per ! t) = {}" if "s \<noteq> t" "s < length sets" "t < length sets" for s t
    using sub [OF that(2)] sub [OF that(3)] that ok(2) nth_eq_iff_index_eq [of sets s t] by auto
  then have "distinct (concat (map ((!) per) [0..<length sets]))"
    by (intro distinct_concat_map) (auto simp: D)
  then show "distinct (concat per)" using D(2) by (metis map_nth)
qed

definition kept :: "batch_allocr \<Rightarrow> nat \<Rightarrow> nat \<Rightarrow> nat set list \<Rightarrow> nat \<Rightarrow> bool" where
  "kept A n_ubatch tail sets m \<longleftrightarrow> 0 < m \<and> length sets * m \<le> n_ubatch + 1 \<and>
     (\<forall>q \<in> set sets. m \<le> length (fresh A q) \<and> (length (fresh A q) = m \<or> tail \<le> length (fresh A q) - m))"

text \<open>The sets from the one on that kept too short a tail are given back; the first one alone gets a tail of its own.\<close>

lemma remaining_state: "equal_state A sets ms st \<Longrightarrow> s < length sets \<Longrightarrow> remaining sets st s = length (fresh A (sets ! s)) - ms s"
  using equal_state_exhausted(1) [of A sets ms st s] by (cases st) (simp add: remaining_def)

lemma give_back:
  assumes ok: "split_ok A" "distinct sets" and st: "equal_state A sets ms (cur, per, B)" and n: "n \<le> length sets"
    and ms: "\<forall>s < n. ms s = m"
  shows "took A (set (concat (take n per))) (fold unuse_token_at (concat (drop n per)) B)"
    "ba_out_ids (fold unuse_token_at (concat (drop n per)) B) = ba_out_ids A"
    "concat (take n per) = concat (map (\<lambda>q. take m (fresh A q)) (take n sets))"
    "distinct (concat (take n per))"
proof -
  note D = equal_stateD [OF st]
  note P = per_tokens [OF ok st]
  have split: "concat per = concat (take n per) @ concat (drop n per)"
    by (simp only: append_take_drop_id flip: concat_append)
  have "took A (set (concat per)) B" using D(3) by (simp only: P(1))
  from unuse_fold [OF this, of "concat (drop n per)"] P(2) split
  have U: "took A (set (concat per) - set (concat (drop n per))) (fold unuse_token_at (concat (drop n per)) B)"
      "ba_out_ids (fold unuse_token_at (concat (drop n per)) B) = ba_out_ids B"
    by auto
  have dj: "distinct (concat (take n per) @ concat (drop n per))" using P(2) by (simp only: split)
  then have "set (concat per) - set (concat (drop n per)) = set (concat (take n per))"
    unfolding split set_append distinct_append by blast
  then show "took A (set (concat (take n per))) (fold unuse_token_at (concat (drop n per)) B)" using U(1) by simp
  show "ba_out_ids (fold unuse_token_at (concat (drop n per)) B) = ba_out_ids A" using U(2) D(4) by simp
  have "take n per = map (\<lambda>q. take m (fresh A q)) (take n sets)"
    using D(1,2,7) n ms by (intro nth_equalityI) auto
  then show "concat (take n per) = concat (map (\<lambda>q. take m (fresh A q)) (take n sets))" by simp
  show "distinct (concat (take n per))" using dj by (simp only: distinct_append)
qed

lemma takeWhile_upt:
  assumes "s < length (takeWhile P [0..<n])"
  shows "P s"
proof -
  have "P (takeWhile P [0..<n] ! s)" using set_takeWhileD [OF nth_mem [OF assms]] by simp
  moreover have "takeWhile P [0..<n] ! s = s"
    using assms length_takeWhile_le [of P "[0..<n]"] by (simp add: takeWhile_nth)
  ultimately show ?thesis by simp
qed

lemma keep_tail_kept:
  assumes ok: "split_ok A" "fronted A" "distinct sets" "sets \<noteq> []" "length sets \<le> n_ubatch + 1"
    and st: "equal_state A sets (\<lambda>_. m) st" and m: "0 < m" "m * length sets \<le> max (length sets) n_ubatch"
    and tail: "tail = 0 \<or> tail < n_ubatch"
  shows "\<exists>n m' per B. keep_tail n_ubatch tail sets st = Some (n, per, B) \<and> 0 < n \<and> n \<le> length sets \<and>
    kept A n_ubatch tail (take n sets) m' \<and> concat (take n per) = concat (map (\<lambda>q. take m' (fresh A q)) (take n sets)) \<and>
    distinct (concat (take n per)) \<and> took A (set (concat (take n per))) B \<and> ba_out_ids B = ba_out_ids A"
proof (cases "tail = 0")
  case True
  obtain cur per B where c: "st = (cur, per, B)" by (cases st)
  note D = equal_stateD [OF st [unfolded c]]
  note G = give_back [OF ok(1,3) st [unfolded c] order.refl, of m]
  have "\<forall>q \<in> set sets. m \<le> length (fresh A q)" using D(5) by (auto simp: in_set_conv_nth)
  then have "kept A n_ubatch tail (take (length sets) sets) m" using m ok(5) True by (auto simp: kept_def mult.commute)
  moreover have "fold unuse_token_at (concat (drop (length sets) per)) B = B" using D(2) by simp
  ultimately show ?thesis
    using True G ok(4) D(2) by (rule_tac x = "length sets" in exI, rule_tac x = m in exI, rule_tac x = per in exI, rule_tac x = B in exI) (simp add: keep_tail_def c)
next
  case False
  then have tail: "0 < tail" "tail < n_ubatch" using tail by auto
  let ?short = "\<lambda>s. remaining sets st s \<noteq> 0 \<and> remaining sets st s < tail"
  let ?n = "length (takeWhile (\<lambda>s. \<not> ?short s) [0..<length sets])"
  have n: "?n \<le> length sets" using length_takeWhile_le [of _ "[0..<length sets]"] by simp
  have pre: "\<not> ?short s" if "s < ?n" for s by (rule takeWhile_upt [OF that])
  note rem = remaining_state [OF st]
  have all: "m \<le> length (fresh A q)" if "q \<in> set sets" for q
    using that st by (cases st) (auto simp: equal_state_def in_set_conv_nth)
  have finish: ?thesis
    if mid: "equal_state A sets ms (cur, per, B)" and low: "\<forall>s < N. ms s = m'" "0 < N" "N \<le> length sets"
      and keep: "kept A n_ubatch tail (take N sets) m'"
      and eq: "keep_tail n_ubatch tail sets st = Some (N, per, fold unuse_token_at (concat (drop N per)) B)" for N ms m' cur per B
    using give_back [OF ok(1,3) mid low(3,1)] low(2,3) keep eq
    by (rule_tac x = N in exI, rule_tac x = m' in exI, rule_tac x = per in exI, rule_tac x = "fold unuse_token_at (concat (drop N per)) B" in exI) simp
  obtain cur per B where c: "st = (cur, per, B)" by (cases st)
  show ?thesis
  proof (cases "?n = 0")
    case F: False
    have "?n * m \<le> m * length sets" by (simp only: mult.commute [of ?n m] mult_le_mono2 [OF n])
    also have "\<dots> \<le> n_ubatch + 1" using m(2) ok(5) by simp
    finally have "?n * m \<le> n_ubatch + 1" .
    moreover have "length (fresh A q) = m \<or> tail \<le> length (fresh A q) - m" if q: "q \<in> set (take ?n sets)" for q
    proof -
      obtain i where i: "i < ?n" "q = sets ! i" using q n by (auto simp: in_set_conv_nth)
      then have "i < length sets" using n by simp
      from pre [OF i(1)] rem [OF this] all [of q] \<open>i < length sets\<close> show ?thesis by (auto simp: i(2))
    qed
    ultimately have "kept A n_ubatch tail (take ?n sets) m"
      using m all n by (auto simp: kept_def dest: in_set_takeD)
    moreover have "keep_tail n_ubatch tail sets st = Some (?n, per, fold unuse_token_at (concat (drop ?n per)) B)"
      using F False tail by (simp add: keep_tail_def c assertion_def Let_def)
    ultimately show ?thesis using F n by (intro finish [OF st [unfolded c], of ?n m]) simp_all
  next
    case T: True
    let ?f = "length (fresh A (sets ! 0))" and ?r = "remaining sets st 0"
    have s: "0 < length sets" using ok(4) by simp
    have short: "?short 0" using T s by (auto simp: upt_conv_Cons split: if_splits)
    have f: "?f = m + ?r" using rem [OF s] all [of "sets ! 0"] s by simp
    have one: "take 1 sets = [sets ! 0]" using s by (cases sets) simp_all
    have len: "length (fst (snd st) ! 0) = m" using equal_state_exhausted(3) [OF st s] f by simp
    show ?thesis
    proof (cases "m + ?r \<le> n_ubatch")
      case fits: True
      obtain cur' per' B' where c': "(equal_take sets 0 ^^ ?r) st = (cur', per', B')" by (cases "(equal_take sets 0 ^^ ?r) st")
      have "equal_state A sets ((\<lambda>_. m)(0 := m + ?r)) (cur', per', B')"
        using equal_take_power [OF ok(1-3) st s, of ?r] f by (simp only: c')
      moreover have "keep_tail n_ubatch tail sets st = Some (1, per', fold unuse_token_at (concat (drop 1 per')) B')"
        using T fits False tail c' len by (simp add: keep_tail_def assertion_def Let_def)
      moreover have "kept A n_ubatch tail (take 1 sets) (m + ?r)" unfolding kept_def one using fits m f by simp
      ultimately show ?thesis using s by (intro finish [of "(\<lambda>_. m)(0 := m + ?r)" cur' per' B' 1 "m + ?r"]) (simp_all add: Suc_le_eq)
    next
      case over: False
      let ?d = "tail - ?r"
      have d: "?d < m" "m = ?d + (m - ?d)" using over tail short by linarith+
      have "equal_state A sets ((\<lambda>_. m)(0 := length [0..<?d] + (m - ?d))) st" using st d by (simp add: fun_upd_idem)
      from drop_last_times [OF ok(1,3,4) this] obtain cur' per' B' where
          c': "foldM drop_last_token [0..<?d] st = Some (cur', per', B')" "equal_state A sets ((\<lambda>_. m)(0 := m - ?d)) (cur', per', B')"
        by (auto simp del: fun_upd_apply)
      moreover have "keep_tail n_ubatch tail sets st = Some (1, per', fold unuse_token_at (concat (drop 1 per')) B')"
        using T over False tail c' len by (simp add: keep_tail_def assertion_def Let_def)
      moreover have "kept A n_ubatch tail (take 1 sets) (m - ?d)"
        unfolding kept_def one using d short f m(2) ok(5) s by (cases sets) auto
      ultimately show ?thesis using s by (intro finish [of "(\<lambda>_. m)(0 := m - ?d)" cur' per' B' 1 "m - ?d"]) (simp_all add: Suc_le_eq)
    qed
  qed
qed

section \<open>One equal split\<close>

definition equal_good :: "nat \<Rightarrow> bool \<Rightarrow> nat \<Rightarrow> batch_allocr \<Rightarrow> ubatch_data \<Rightarrow> bool" where
  "equal_good n_ubatch sequential tail A u \<longleftrightarrow> (\<exists>sets m. sets \<noteq> [] \<and> (sequential \<longrightarrow> consecutive sets) \<and> disjoint_sets_list sets \<and> kept A n_ubatch tail sets m \<and>
     ud_batch_idxs u = concat (map (\<lambda>q. take m (fresh A q)) sets) \<and> gathers A (ud_batch_idxs u) (length sets) True u)"

lemma kept_nonempty:
  assumes "split_ok A" and "kept A n_ubatch tail sets m" and "q \<in> set sets"
  shows "q \<noteq> {}"
proof -
  have "fresh A q \<noteq> []" using assms(2,3) by (fastforce simp: kept_def)
  then obtain i where "i \<in> set (fresh A q)" by (auto simp only: set_empty [symmetric] ex_in_conv [symmetric])
  then have "i \<in> unused A" "ba_seq_set A ! i = q" by (auto simp: fresh_set [OF assms(1)])
  then show ?thesis using assms(1) by (auto simp: split_ok_def seq_sets_def unused_def)
qed

lemma kept_length:
  assumes "kept A n_ubatch tail sets m"
  shows "length (concat (map (\<lambda>q. take m (fresh A q)) sets)) = length sets * m"
proof -
  have "\<forall>q \<in> set sets. length (take m (fresh A q)) = m" using assms by (auto simp: kept_def)
  then show ?thesis by (induction sets) auto
qed

lemma filter_concat_sets:
  assumes "distinct sets" and "\<forall>p. set (g p) \<subseteq> {i. f i = p}"
  shows "filter (\<lambda>i. f i = q) (concat (map g sets)) = (if q \<in> set sets then g q else [])"
  using assms(1)
proof (induction sets)
  case (Cons p sets)
  have "filter (\<lambda>i. f i = q) (g p) = (if p = q then g p else [])"
    using assms(2) by (auto simp: filter_id_conv filter_empty_conv)
  then show ?case using Cons by auto
qed simp

text \<open>Of each set the micro-batch takes the first unused tokens.\<close>

definition in_order :: "batch_allocr \<Rightarrow> nat list \<Rightarrow> bool" where
  "in_order A idxs \<longleftrightarrow> (\<forall>q. \<exists>m. filter (\<lambda>i. ba_seq_set A ! i = q) idxs = take m (fresh A q))"

lemma equal_good_order:
  assumes "split_ok A" and "equal_good n_ubatch sequential tail A u"
  shows "in_order A (ud_batch_idxs u)"
  unfolding in_order_def
proof
  fix q
  obtain sets m where s: "disjoint_sets_list sets" "kept A n_ubatch tail sets m" "ud_batch_idxs u = concat (map (\<lambda>q. take m (fresh A q)) sets)"
    using assms(2) by (auto simp: equal_good_def)
  have "distinct sets" using s(1) kept_nonempty [OF assms(1) s(2)] by (auto intro: disjoint_sets_distinct)
  have "\<forall>p. set (take m (fresh A p)) \<subseteq> {i. ba_seq_set A ! i = p}"
    by (auto simp: fresh_set [OF assms(1)] dest: in_set_takeD)
  from filter_concat_sets [OF \<open>distinct sets\<close> this, of q]
  have "filter (\<lambda>i. ba_seq_set A ! i = q) (ud_batch_idxs u) = (if q \<in> set sets then take m (fresh A q) else [])"
    by (simp only: s(3))
  then show "\<exists>m. filter (\<lambda>i. ba_seq_set A ! i = q) (ud_batch_idxs u) = take m (fresh A q)"
    by (metis take0)
qed

text \<open>What is left of a set after the first ones are taken.\<close>

lemma took_fresh:
  assumes "split_ok A" and "took A (set idxs) B" and "filter (\<lambda>i. ba_seq_set A ! i = q) idxs = take m (fresh A q)"
  shows "fresh B q = drop m (fresh A q)"
proof -
  have in_idxs: "i \<in> set idxs \<longleftrightarrow> i \<in> set (take m (fresh A q))" if "i \<in> set (fresh A q)" for i
  proof -
    have "i \<in> set idxs \<longleftrightarrow> i \<in> set (filter (\<lambda>i. ba_seq_set A ! i = q) idxs)" using that by (simp add: fresh_set [OF assms(1)])
    then show ?thesis by (simp only: assms(3))
  qed
  have "fresh B q = filter (\<lambda>i. i \<notin> set idxs) (fresh A q)"
    using tookD(3) [OF assms(2)] split_frameD(14) [OF tookD(1) [OF assms(2)]] by (simp add: fresh_def conj_commute)
  also have "\<dots> = filter (\<lambda>i. i \<notin> set (take m (fresh A q))) (take m (fresh A q) @ drop m (fresh A q))"
    unfolding append_take_drop_id using in_idxs by (auto intro: filter_cong)
  also have "\<dots> = drop m (fresh A q)"
  proof -
    have "set (take m (fresh A q)) \<inter> set (drop m (fresh A q)) = {}" by (rule set_take_disj_set_drop_if_distinct) simp_all
    then show ?thesis 
      by (simp only: filter_append) (auto simp: filter_empty_conv filter_id_conv)
  qed
  finally show ?thesis .
qed

lemma took_fronted:
  assumes "split_ok A" and "fronted A" and "took A (set idxs) B" and "in_order A idxs"
  shows "fronted B"
  unfolding fronted_def
proof (intro allI impI)
  fix i j assume ij: "i < j \<and> j < ba_n_tokens B \<and> ba_seq_set B ! i = ba_seq_set B ! j \<and> i \<in> unused B"
  note F = split_frameD [OF tookD(1) [OF assms(3)]]
  let ?q = "ba_seq_set A ! i"
  obtain m where m: "filter (\<lambda>i. ba_seq_set A ! i = ?q) idxs = take m (fresh A ?q)" using assms(4) by (auto simp: in_order_def)
  note d = took_fresh [OF assms(1,3) m]
  have "i \<in> set (fresh B ?q)" using ij fresh_set [OF took_ok [OF assms(3,1)]] by (simp add: F)
  then have i: "i \<in> set (drop m (fresh A ?q))" by (simp only: d)
  have "i \<in> unused A" using ij tookD(3) [OF assms(3)] by auto
  then have "j \<in> unused A" using assms(2) [unfolded fronted_def, rule_format, of i j] ij by (simp add: F)
  then have "j \<in> set (fresh A ?q)" using ij by (simp add: fresh_set [OF assms(1)] F)
  moreover have "j \<notin> set (take m (fresh A ?q))"
  proof
    assume "j \<in> set (take m (fresh A ?q))"
    moreover have "sorted (take m (fresh A ?q) @ drop m (fresh A ?q))"
      unfolding append_take_drop_id by (simp add: fresh_def set_indices_props(1) sorted_wrt_filter)
    ultimately have "j \<le> i" using i by (auto simp only: sorted_append)
    then show False using ij by simp
  qed
  ultimately have "j \<in> set (drop m (fresh A ?q))" by (metis Un_iff append_take_drop_id set_append)
  then show "j \<in> unused B" by (simp add: fresh_set [OF took_ok [OF assms(3,1)]] flip: d)
qed

lemma split_equal_splits:
  assumes "tail = 0 \<or> tail < n_ubatch"
  shows "splits (\<lambda>A. fronted A \<and> (sequential \<longrightarrow> uncoupled A)) (equal_good n_ubatch sequential tail) (split_equal n_ubatch sequential tail)"
  unfolding splits_def
proof (intro allI impI)
  fix A assume "split_ok A \<and> fronted A \<and> (sequential \<longrightarrow> uncoupled A)"
  then have A: "split_ok A" "fronted A" "\<not> (sequential \<and> ba_has_cpl A)" "sequential \<longrightarrow> uncoupled A"
    by (auto simp: uncoupled_def)
  let ?sets = "equal_sets A n_ubatch sequential [0..<ba_n_tokens A] [] (-1)"
  have picked: "picked_sets A n_ubatch ?sets"
    by (rule equal_sets_picked [OF A(1)]) (auto simp: picked_sets_def disjoint_sets_list_def)
  show "\<exists>u B. split_equal n_ubatch sequential tail A = Some (u, B) \<and> (if ub_n_tokens (ud_ubatch u) = 0 then B = A \<and> unused A = {}
      else (fronted B \<and> (sequential \<longrightarrow> uncoupled B)) \<and> equal_good n_ubatch sequential tail A u \<and> distinct (ud_batch_idxs u) \<and> ud_batch_idxs u \<noteq> [] \<and>
        ub_n_tokens (ud_ubatch u) = length (ud_batch_idxs u) \<and> took A (set (ud_batch_idxs u)) B \<and>
        ba_out_ids B = ba_out_ids A @ filter (\<lambda>i. ba_logits A ! i \<noteq> 0) (ud_batch_idxs u))"
  proof (cases "?sets = []")
    case True
    then have "unused A = {}" by (auto simp: equal_sets_empty unused_def)
    with True A(3) show ?thesis by (simp add: split_equal_def)
  next
    case ne: False
    note P = picked [unfolded picked_sets_def]
    have dist: "distinct ?sets" using P by (auto intro: disjoint_sets_distinct)
    have nonempty: "fresh A q \<noteq> []" if "q \<in> set ?sets" for q
      using P that fresh_set [OF A(1), of q] by fastforce
    let ?k = "\<lambda>q. length (takeWhile (\<lambda>i. ba_used A ! i) (ba_seq_map A q))"
    have k: "?k q + length (fresh A q) = length (ba_seq_map A q)" for q
      using arg_cong [OF fresh_rest [OF A(1,2), of q], of length] by simp
    have start: "equal_start A q = Some (?k q)" if "q \<in> set ?sets" for q
      using k [of q] nonempty [OF that] by (simp add: equal_start_def Let_def) (metis length_greater_0_conv less_add_same_cancel1)
    let ?st = "(map (\<lambda>q. the (equal_start A q)) ?sets, replicate (length ?sets) [], A)"
    have "took A (taken A ?sets (\<lambda>_. 0)) A" using A(1) took_refl [of A] by (simp add: taken_def split_ok_def)
    then have st: "equal_state A ?sets (\<lambda>_. 0) ?st" using k start by (simp add: equal_state_def)
    from equal_loop_state [OF A(1,2) dist ne st, of n_ubatch] obtain m st' where
        loop: "equal_loop n_ubatch ?sets ?st = Some st'" "equal_state A ?sets (\<lambda>_. m) st'" "0 < m" "m * length ?sets \<le> max (length ?sets) n_ubatch"
      using nonempty by auto
    from keep_tail_kept [OF A(1,2) dist ne _ loop(2-4) assms] P obtain n m' per B where
        keep: "keep_tail n_ubatch tail ?sets st' = Some (n, per, B)" "0 < n" "n \<le> length ?sets" "kept A n_ubatch tail (take n ?sets) m'"
          "concat (take n per) = concat (map (\<lambda>q. take m' (fresh A q)) (take n ?sets))" "distinct (concat (take n per))"
          "took A (set (concat (take n per))) B" "ba_out_ids B = ba_out_ids A"
      by blast
    have len: "length (concat (take n per)) = n * m'" using kept_length [OF keep(4)] keep(3,5) by simp
    from ubatch_add_ok [OF A(1) keep(7), of n True] keep(2) len obtain u C where
        u: "ubatch_add (concat (take n per)) n True B = Some (u, C)" "gathers A (concat (take n per)) n True u" "took A (set (concat (take n per))) C"
          "ba_out_ids C = ba_out_ids A @ filter (\<lambda>i. ba_logits A ! i \<noteq> 0) (concat (take n per))"
      by (auto simp: keep(8))
    then have idxs: "ud_batch_idxs u = concat (take n per)" "ub_n_tokens (ud_ubatch u) = n * m'"
      by (simp_all add: gathers_def len)
    have split: "split_equal n_ubatch sequential tail A = Some (u, C)"
      using A(3) ne start loop(1) keep(1) u(1) by (simp add: split_equal_def Let_def assertion_def list_all_iff) blast
    have cons: "consecutive ?sets" if sequential
      using equal_sets_consecutive [OF A(1), of "[0..<ba_n_tokens A]" "[]"] A(4) that by simp
    then have cons: "sequential \<longrightarrow> consecutive (take n ?sets)" using consecutive_take by blast
    have good: "equal_good n_ubatch sequential tail A u"
      unfolding equal_good_def using cons ne keep(2-5) u(2) P disjoint_sets_take [of ?sets n]
      by (intro exI [of _ "take n ?sets"] exI [of _ m']) (simp add: idxs)
    have "fronted C"
      using took_fronted [OF A(1,2) _ equal_good_order [OF A(1) good], of C] u(3) by (simp add: idxs)
    moreover have "uncoupled C = uncoupled A" using split_frameD [OF tookD(1) [OF u(3)]] by (simp add: uncoupled_def)
    moreover have "0 < m'" using keep(4) by (simp add: kept_def)
    moreover have "concat (take n per) \<noteq> []" using len keep(2) \<open>0 < m'\<close> by (metis length_0_conv mult_eq_0_iff not_less0)
    ultimately show ?thesis using A(4) keep(2,6) u(3,4) len split good by (simp add: idxs)
  qed
qed

end
