(* ===== verification/Batch_Chains.thy ===== *)
theory Batch_Chains
  imports Batch_Accept Batch_Equal
begin

text \<open>
  A batch split to the end: every token is in one micro-batch, the tokens of one set stay in the order of
  the batch, and each micro-batch has the layout its split promises.
\<close>

section \<open>The first tokens of each set\<close>

lemma initial_segment:
  assumes "sorted xs" "distinct xs" "sorted ys" "distinct ys" and "set ys \<subseteq> set xs"
    and closed: "\<And>x y. x \<in> set xs \<Longrightarrow> y \<in> set ys \<Longrightarrow> x < (y :: nat) \<Longrightarrow> x \<in> set ys"
  shows "ys = take (length ys) xs"
proof -
  have "sorted_wrt (<) xs" using assms(1,2) by (simp add: strict_sorted_iff)
  then have "sorted_wrt (\<lambda>x y. x \<notin> set ys \<longrightarrow> y \<notin> set ys) xs"
    by (rule sorted_wrt_mono_rel [rotated]) (use closed in blast)
  from takeWhile_filter_split [OF this] have split: "takeWhile (\<lambda>x. x \<in> set ys) xs @ filter (\<lambda>x. x \<notin> set ys) xs = xs" by simp
  let ?t = "takeWhile (\<lambda>x. x \<in> set ys) xs"
  have "set ?t \<union> set (filter (\<lambda>x. x \<notin> set ys) xs) = set xs" by (metis split set_append)
  then have "set ?t = set ys" using assms(5) by (auto dest: set_takeWhileD)
  moreover have "sorted ?t" "distinct ?t" using assms(1,2) by (simp_all add: sorted_takeWhile)
  ultimately have "?t = ys" using assms(3,4) by (intro sorted_distinct_set_unique) simp_all
  then show ?thesis by (metis takeWhile_eq_take)
qed

lemma fresh_sorted: "sorted (fresh A q)"
  by (simp add: fresh_def set_indices_props(1) sorted_wrt_filter)

lemma in_order_sorted:
  assumes ok: "split_ok A" and idxs: "sorted idxs" "distinct idxs" "set idxs \<subseteq> unused A"
    and closed: "\<And>i j. j \<in> unused A \<Longrightarrow> i \<in> set idxs \<Longrightarrow> j < i \<Longrightarrow> ba_seq_set A ! j = ba_seq_set A ! i \<Longrightarrow> j \<in> set idxs"
  shows "in_order A idxs"
  unfolding in_order_def
proof
  fix q
  have "filter (\<lambda>i. ba_seq_set A ! i = q) idxs = take (length (filter (\<lambda>i. ba_seq_set A ! i = q) idxs)) (fresh A q)"
    by (rule initial_segment) (use idxs closed in \<open>auto simp: fresh_sorted sorted_wrt_filter fresh_set [OF ok]\<close>)
  then show "\<exists>m. filter (\<lambda>i. ba_seq_set A ! i = q) idxs = take m (fresh A q)" by blast
qed

lemma simple_good_order:
  assumes "split_ok A" and "simple_good n_ubatch A u"
  shows "in_order A (ud_batch_idxs u)"
proof -
  obtain k k' where k: "unused A = {k..<ba_n_tokens A}" "ud_batch_idxs u = [k..<k']" "k' \<le> ba_n_tokens A"
    using assms(2) unfolding simple_good_def by blast
  show ?thesis by (rule in_order_sorted [OF assms(1)]) (use k in auto)
qed

lemma seq_good_order:
  assumes "split_ok A" and "seq_good n_ubatch A u"
  shows "in_order A (ud_batch_idxs u)"
proof -
  have "sorted (ud_batch_idxs u)" "greedy A (ud_batch_idxs u)" "distinct (ud_batch_idxs u)" "set (ud_batch_idxs u) \<subseteq> unused A"
    using assms(2) by (simp_all add: seq_good_def)
  then show ?thesis by (intro in_order_sorted [OF assms(1)]) (auto simp: greedy_def)
qed

section \<open>Chains\<close>

lemma chain_order:
  assumes "split_chain good A us C" and "split_ok A" and order: "\<And>A u. split_ok A \<Longrightarrow> good A u \<Longrightarrow> in_order A (ud_batch_idxs u)"
  shows "filter (\<lambda>i. ba_seq_set A ! i = q) (concat (map ud_batch_idxs us)) @ fresh C q = fresh A q"
  using assms(1,2)
proof (induction rule: split_chain.induct)
  case (more A u B us C)
  have B: "split_ok B" by (rule took_ok [OF more(2) more.prems])
  obtain m where m: "filter (\<lambda>i. ba_seq_set A ! i = q) (ud_batch_idxs u) = take m (fresh A q)"
    using order [OF more.prems more(1)] by (auto simp: in_order_def)
  have "ba_seq_set B = ba_seq_set A" using split_frameD(14) [OF tookD(1) [OF more(2)]] .
  then show ?case using more.IH [OF B] m took_fresh [OF more.prems more(2) m] by simp
qed simp

lemma chain_each:
  assumes "split_chain good A us C" and "split_ok A" and "u \<in> set us"
  shows "\<exists>B. split_frame A B \<and> split_ok B \<and> unused B \<subseteq> unused A \<and> good B u"
  using assms
proof (induction rule: split_chain.induct)
  case (more A v B us C)
  show ?case
  proof (cases "u = v")
    case True
    then show ?thesis using more.hyps(1) more.prems(1) by (intro exI [of _ A]) simp
  next
    case False
    then obtain D where D: "split_frame B D" "split_ok D" "unused D \<subseteq> unused B" "good D u"
      using more.IH took_ok [OF more(2)] more.prems by auto
    have "unused D \<subseteq> unused A" using D(3) tookD(3) [OF more(2)] by auto
    then show ?thesis using D split_frame_trans [OF tookD(1) [OF more(2)] D(1)] by blast
  qed
qed simp

text \<open>The whole batch, once: the tokens, their order within a set, and the list of outputs.\<close>

definition covers :: "batch_allocr \<Rightarrow> ubatch_data list \<Rightarrow> batch_allocr \<Rightarrow> bool" where
  "covers A us B \<longleftrightarrow> (let idxs = concat (map ud_batch_idxs us) in
     mset idxs = mset [0..<ba_n_tokens A] \<and> (\<forall>q. filter (\<lambda>i. ba_seq_set A ! i = q) idxs = set_indices (ba_seq_set A) q) \<and>
     ba_out_ids B = filter (\<lambda>i. ba_logits A ! i \<noteq> 0) idxs \<and> ba_n_used B = ba_n_tokens B)"

lemma fresh_all:
  assumes "split_ok A" and "unused A = {..<ba_n_tokens A}"
  shows "fresh A q = set_indices (ba_seq_set A) q"
  using assms by (auto simp: fresh_def set_indices_props(3) split_ok_lengths filter_id_conv)

lemma split_reset_ok: "split_ok A \<Longrightarrow> split_ok (split_reset A)"
  unfolding split_ok_def pos_readable_def embd_readable_def reset_fields by simp

lemma splits_cover:
  assumes split: "splits valid good split" and ok: "split_ok A" and valid: "valid (split_reset A)"
    and order: "\<forall>A u. split_ok A \<and> good A u \<longrightarrow> in_order A (ud_batch_idxs u)"
  shows "\<exists>us B. split_all split (split_reset A) [] = Some (us, B) \<and> covers A us B \<and>
    split_chain good (split_reset A) us B \<and> unused B = {} \<and> (\<forall>u \<in> set us. \<exists>C. split_frame A C \<and> split_ok C \<and> good C u)"
proof -
  let ?A = "split_reset A"
  have reset: "split_ok ?A" by (rule split_reset_ok [OF ok])
  obtain us B where us: "split_all split ?A [] = Some (us, B)" "split_chain good ?A us B" "took ?A (unused ?A) B"
      "mset (concat (map ud_batch_idxs us)) = mset_set (unused ?A)"
      "ba_out_ids B = ba_out_ids ?A @ filter (\<lambda>i. ba_logits ?A ! i \<noteq> 0) (concat (map ud_batch_idxs us))"
    using split_all_done [OF split reset valid, of "[]"] by auto
  have all: "unused ?A = {..<ba_n_tokens ?A}" by (simp add: unused_reset)
  have "unused B = {}" using tookD(3) [OF us(3)] by simp
  then have "fresh B q = []" for q using fresh_set [OF took_ok [OF us(3) reset], of q] by (simp add: fresh_def)
  then have "filter (\<lambda>i. ba_seq_set A ! i = q) (concat (map ud_batch_idxs us)) = set_indices (ba_seq_set A) q" for q
    using chain_order [where q = q, OF us(2) reset] order fresh_all [OF reset all, of q] by simp
  moreover have "mset_set {..<ba_n_tokens A} = mset [0..<ba_n_tokens A]"
    by (simp add: lessThan_atLeast0 flip: mset_upt) 
  moreover have "ba_n_used B = ba_n_tokens B"
    using tookD(4) [OF us(3)] split_frameD(2) [OF tookD(1) [OF us(3)]] by (simp add: unused_reset)
  ultimately have "covers A us B" using us(4,5) by (simp add: covers_def Let_def unused_reset)
  moreover have "split_frame A ?A" by (simp add: split_frame_def split_reset_def)
  then have "\<exists>C. split_frame A C \<and> split_ok C \<and> good C u" if "u \<in> set us" for u
    using chain_each [OF us(2) reset that] split_frame_trans by blast
  ultimately show ?thesis using us(1,2) \<open>unused B = {}\<close> by blast
qed

section \<open>What each split promises\<close>

lemma simple_chain:
  assumes "split_chain (simple_good n_ubatch) A us C" and "unused A = {k..<ba_n_tokens A}" and "unused C = {}"
  shows "concat (map ud_batch_idxs us) = [k..<ba_n_tokens A]"
  using assms
proof (induction arbitrary: k rule: split_chain.induct)
  case (more A u B us C)
  obtain l l' where l: "unused A = {l..<ba_n_tokens A}" "ud_batch_idxs u = [l..<l']" "l < l'" "l' \<le> ba_n_tokens A"
    using more(1) unfolding simple_good_def by blast
  have n: "ba_n_tokens B = ba_n_tokens A" using split_frameD(2) [OF tookD(1) [OF more(2)]] .
  have "k = l"
  proof -
    have "l \<in> unused A" "\<forall>i \<in> unused A. l \<le> i" using l by auto
    moreover have "k \<in> unused A" "\<forall>i \<in> unused A. k \<le> i" using more.prems(1) \<open>l \<in> unused A\<close> by auto
    ultimately show ?thesis by (simp add: le_antisym)
  qed
  moreover have "unused B = {l'..<ba_n_tokens B}" using tookD(3) [OF more(2)] l n by auto
  then have "concat (map ud_batch_idxs us) = [l'..<ba_n_tokens A]" using more.IH more.prems(2) n by simp
  moreover have "[l..<ba_n_tokens A] = [l..<l'] @ [l'..<ba_n_tokens A]"
    using l(3,4) upt_add_eq_append [of l l' "ba_n_tokens A - l'"] by simp
  ultimately show ?case using l(2) by simp
qed simp

lemma concat_blocks:
  assumes "\<forall>x \<in> set xs. length (f x) = m" and "a < length xs" and "b < m"
  shows "concat (map f xs) ! (a * m + b) = f (xs ! a) ! b"
  using assms
proof (induction xs arbitrary: a)
  case (Cons x xs)
  then show ?case by (cases a) (simp_all add: nth_append add.assoc)
qed simp

definition equal_layout :: "batch_allocr \<Rightarrow> nat \<Rightarrow> bool \<Rightarrow> ubatch_data \<Rightarrow> bool" where
  "equal_layout A n_ubatch sequential u \<longleftrightarrow> (\<exists>sets m. 0 < m \<and> sets \<noteq> [] \<and> disjoint_sets_list sets \<and> (sequential \<longrightarrow> consecutive sets) \<and>
     length (ud_batch_idxs u) = length sets * m \<and> length sets * m \<le> n_ubatch + 1 \<and>
     gathers A (ud_batch_idxs u) (length sets) True u \<and>
     (\<forall>a < length sets. \<forall>b < m. ba_seq_set A ! (ud_batch_idxs u ! (a * m + b)) = sets ! a))"

lemma equal_good_layout:
  assumes "split_frame A B" and "split_ok B" and "equal_good n_ubatch sequential tail B u"
  shows "equal_layout A n_ubatch sequential u"
proof -
  obtain sets m where s: "sets \<noteq> []" "sequential \<longrightarrow> consecutive sets" "disjoint_sets_list sets" "kept B n_ubatch tail sets m"
      "ud_batch_idxs u = concat (map (\<lambda>q. take m (fresh B q)) sets)" "gathers B (ud_batch_idxs u) (length sets) True u"
    using assms(3) unfolding equal_good_def by blast
  have len: "length (take m (fresh B q)) = m" if "q \<in> set sets" for q using s(4) that by (auto simp: kept_def)
  have "ba_seq_set A ! (ud_batch_idxs u ! (a * m + b)) = sets ! a" if "a < length sets" "b < m" for a b
  proof -
    have "ud_batch_idxs u ! (a * m + b) = take m (fresh B (sets ! a)) ! b"
      unfolding s(5) by (rule concat_blocks) (use len that in auto)
    also have "\<dots> \<in> set (fresh B (sets ! a))" using len [of "sets ! a"] that by (metis in_set_takeD nth_mem)
    finally show ?thesis using split_frameD(14) [OF assms(1)] by (simp add: fresh_set [OF assms(2)])
  qed
  then show ?thesis
    unfolding equal_layout_def using s kept_length [OF s(4)] gathers_frame [OF assms(1)]
    by (intro exI [of _ sets] exI [of _ m]) (simp add: kept_def)
qed

text \<open>After each micro-batch, every set it took from is used up or has at least \<open>tail\<close> tokens left.\<close>

definition tail_respected :: "nat \<Rightarrow> batch_allocr \<Rightarrow> ubatch_data list \<Rightarrow> bool" where
  "tail_respected tail A us \<longleftrightarrow> (\<forall>k < length us. \<forall>i \<in> set (ud_batch_idxs (us ! k)).
     let left = length (filter (\<lambda>j. ba_seq_set A ! j = ba_seq_set A ! i) (concat (map ud_batch_idxs (drop (Suc k) us)))) in
     left = 0 \<or> tail \<le> left)"

lemma equal_chain_tail:
  assumes "split_chain (equal_good n_ubatch sequential tail) A us C" and "split_ok A" and "unused C = {}"
  shows "tail_respected tail A us"
  using assms
proof (induction rule: split_chain.induct)
  case (more A u B us C)
  have B: "split_ok B" by (rule took_ok [OF more(2) more.prems(1)])
  have same: "ba_seq_set B = ba_seq_set A" using split_frameD(14) [OF tookD(1) [OF more(2)]] .
  have rest: "filter (\<lambda>j. ba_seq_set A ! j = q) (concat (map ud_batch_idxs us)) = fresh B q" for q
    using chain_order [where q = q, OF more(3) B equal_good_order] more.prems(2) by (simp add: same fresh_def)
  have "length (fresh B (ba_seq_set A ! i)) = 0 \<or> tail \<le> length (fresh B (ba_seq_set A ! i))" if i: "i \<in> set (ud_batch_idxs u)" for i
  proof -
    let ?q = "ba_seq_set A ! i"
    obtain sets m where s: "disjoint_sets_list sets" "kept A n_ubatch tail sets m" "ud_batch_idxs u = concat (map (\<lambda>q. take m (fresh A q)) sets)"
      using more(1) unfolding equal_good_def by blast
    have "?q \<in> set sets" using i s(3) by (auto dest!: in_set_takeD simp: fresh_set [OF more.prems(1)])
    moreover have "distinct sets" using s(1) kept_nonempty [OF more.prems(1) s(2)] by (auto intro: disjoint_sets_distinct)
    moreover have "\<forall>p. set (take m (fresh A p)) \<subseteq> {i. ba_seq_set A ! i = p}"
      by (auto simp: fresh_set [OF more.prems(1)] dest: in_set_takeD)
    ultimately have "filter (\<lambda>i. ba_seq_set A ! i = ?q) (ud_batch_idxs u) = take m (fresh A ?q)"
      using filter_concat_sets [of sets "\<lambda>q. take m (fresh A q)" "(!) (ba_seq_set A)" ?q] by (simp add: s(3))
    from took_fresh [OF more.prems(1) more(2) this] s(2) \<open>?q \<in> set sets\<close> show ?thesis by (auto simp: kept_def)
  qed
  note first = this
  have later: "tail_respected tail B us" by (rule more.IH [OF B more.prems(2)])
  show ?case
    unfolding tail_respected_def
  proof (intro allI impI ballI)
    fix k i assume k: "k < length (u # us)" and i: "i \<in> set (ud_batch_idxs ((u # us) ! k))"
    show "let left = length (filter (\<lambda>j. ba_seq_set A ! j = ba_seq_set A ! i) (concat (map ud_batch_idxs (drop (Suc k) (u # us))))) in
        left = 0 \<or> tail \<le> left"
    proof (cases k)
      case 0
      then show ?thesis using first i by (simp add: rest Let_def)
    next
      case (Suc j)
      then show ?thesis using later [unfolded tail_respected_def, rule_format, of j i] k i by (simp add: same)
    qed
  qed
qed (simp add: tail_respected_def)

end
