(* ===== verification/Batch_Placement.thy ===== *)
theory Batch_Placement
  imports Batch_Chains Cache_Planning
begin

text \<open>
  From a batch to slots of the cache: the micro-batches of an accepted batch are what the slot search
  expects, so preparing the batch returns and leaves the cache as it was.
\<close>

section \<open>The micro-batch of a split\<close>

text \<open>What a cache asks of a batch beyond what the allocator checks.\<close>

definition suits_cache :: "cache_config \<Rightarrow> kv_cache \<Rightarrow> batch_allocr \<Rightarrow> bool" where
  "suits_cache K x A \<longleftrightarrow> 0 < ba_n_pos_per_embd A \<and>
     (\<forall>i < ba_n_tokens A. 0 \<le> ba_pos A ! i \<and> distinct (ba_seq_id A ! i) \<and>
        (\<forall>q \<in> set (ba_seq_id A ! i). q < length (kc_seq_to_stream x))) \<and>
     (cc_n_stream K > 1 \<longrightarrow> uncoupled A \<and> distinct (kc_seq_to_stream x))"

lemma gathered_token:
  assumes "gathers A idxs n_seqs equal u" and "suits_cache K x A" and "b < length idxs" and "idxs ! b < ba_n_tokens A"
    and "ba_seq_id A ! (idxs ! b) \<noteq> []" and "\<forall>q \<in> set (ba_seq_id A ! (idxs ! b)). kc_seq_to_stream x ! q = s"
  shows "token_ok x (ud_ubatch u) s b"
proof -
  have "b < length (ub_pos (ud_ubatch u))" if "0 < ba_n_pos_per_embd A"
    using assms(1,3) that by (cases "ba_n_pos_per_embd A") (simp_all add: gathers_def)
  moreover have "ub_seq_id (ud_ubatch u) = map ((!) (ba_seq_id A)) idxs" by (rule gathers_unique [OF assms(1)])
  moreover have "0 < ba_n_pos_per_embd A" "0 \<le> ba_pos A ! (idxs ! b)" "distinct (ba_seq_id A ! (idxs ! b))"
      "\<forall>q \<in> set (ba_seq_id A ! (idxs ! b)). q < length (kc_seq_to_stream x)"
    using assms(2,4) by (simp_all add: suits_cache_def)
  ultimately show ?thesis using assms(3,5,6) gathers_first_pos [OF assms(1) _ assms(3)] by (simp add: token_ok_def)
qed

lemma unique_seqs_range:
  assumes "\<forall>s. (s < n \<and> (\<exists>qs \<in> set rows. s \<in> set qs)) \<longleftrightarrow> s0 \<le> s \<and> s < s0 + k"
  shows "unique_seqs n rows = [s0..<s0 + k]"
proof (rule sorted_distinct_set_unique)
  have "set (unique_seqs n rows) = {s. s0 \<le> s \<and> s < s0 + k}" unfolding unique_seqs_set
    by (rule Collect_cong) (rule assms [THEN spec])
  then show "set (unique_seqs n rows) = set [s0..<s0 + k]" by (simp add: atLeastLessThan_def lessThan_def atLeast_def Int_def)
qed (simp_all add: unique_seqs_def sorted_wrt_filter)

lemma batch_ok_unified:
  assumes one: "cc_n_stream K = 1" and base: "cache_base K N x" and suits: "suits_cache K x A" and range: "in_range A"
    and rows: "\<forall>i < ba_n_tokens A. ba_seq_id A ! i \<noteq> []"
    and u: "gathers A idxs n_seqs equal u" "idxs \<noteq> []" "\<forall>i \<in> set idxs. i < ba_n_tokens A"
  shows "batch_ok K x (ud_ubatch u) (length idxs)"
proof -
  have strm: "kc_seq_to_stream x ! q = 0" if "q < length (kc_seq_to_stream x)" for q
    using cache_baseD(6) [OF base that] one by simp
  have tok: "token_ok x (ud_ubatch u) 0 b" if "b < length idxs" for b
  proof (rule gathered_token [OF u(1) suits that])
    show i: "idxs ! b < ba_n_tokens A" using u(3) that by simp
    show "ba_seq_id A ! (idxs ! b) \<noteq> []" using rows i by simp
    show "\<forall>q \<in> set (ba_seq_id A ! (idxs ! b)). kc_seq_to_stream x ! q = 0"
      using suits i strm by (auto simp: suits_cache_def)
  qed
  obtain i qs q where i: "i \<in> set idxs" "ba_seq_id A ! i = q # qs" using u(2,3) rows by (metis hd_in_set neq_Nil_conv)
  then have "q \<in> set (ub_seq_id_unq (ud_ubatch u))"
    using u(3) range by (auto simp: gathers_unique [OF u(1)] unique_seqs_set in_range_def intro!: bexI [of _ i])
  then obtain s ss where unq: "ub_seq_id_unq (ud_ubatch u) = s # ss" by (cases "ub_seq_id_unq (ud_ubatch u)") auto
  have "s \<in> set (ub_seq_id_unq (ud_ubatch u))" by (simp add: unq)
  moreover have "ub_n_tokens (ud_ubatch u) = length idxs" using u(1) by (simp add: gathers_def)
  ultimately have "s < length (kc_seq_to_stream x)"
    using u(3) suits by (auto simp: gathers_unique [OF u(1)] unique_seqs_set suits_cache_def)
  then show ?thesis
    using tok unq one strm u(2) \<open>ub_n_tokens (ud_ubatch u) = length idxs\<close> by (simp add: batch_ok_def slot_seqs_def)
qed

lemma batch_ok_streams:
  assumes many: "cc_n_stream K > 1" and suits: "suits_cache K x A" and range: "in_range A"
    and u: "equal_layout A n_ubatch True u" "\<forall>i \<in> set (ud_batch_idxs u). i < ba_n_tokens A"
  shows "\<exists>n. batch_ok K x (ud_ubatch u) n"
proof -
  obtain sets m where s: "0 < m" "sets \<noteq> []" "consecutive sets" "length (ud_batch_idxs u) = length sets * m"
      "gathers A (ud_batch_idxs u) (length sets) True u"
      "\<forall>a < length sets. \<forall>b < m. ba_seq_set A ! (ud_batch_idxs u ! (a * m + b)) = sets ! a"
    using u(1) unfolding equal_layout_def by blast
  let ?idxs = "ud_batch_idxs u" and ?k = "length sets"
  obtain s0 where sets: "sets = map (\<lambda>a. {s0 + a}) [0..<?k]" using s(3) unfolding consecutive_def by blast
  have s0: "sets ! a = {s0 + a}" if "a < ?k" for a using that by (subst sets) simp
  have idx: "a * m + b < ?k * m" if "a < ?k" "b < m" for a b
  proof -
    have "a * m + b < (a + 1) * m" using that(2) by simp
    also have "\<dots> \<le> ?k * m" using that(1) by (intro mult_le_mono1) simp
    finally show ?thesis .
  qed
  have row: "ba_seq_id A ! (?idxs ! (a * m + b)) = [s0 + a]" if "a < ?k" "b < m" for a b
  proof -
    let ?i = "?idxs ! (a * m + b)"
    have i: "?i < ba_n_tokens A" using u(2) idx [OF that] s(4) by simp
    have "set (ba_seq_id A ! ?i) = ba_seq_set A ! ?i" using range i by (simp add: in_range_def seq_sets_def)
    also have "\<dots> = {s0 + a}" using s(6) s0 [OF that(1)] that by simp
    finally have "set (ba_seq_id A ! ?i) = {s0 + a}" .
    moreover have "length (ba_seq_id A ! ?i) = 1" using suits many i by (simp add: suits_cache_def uncoupled_def)
    ultimately show ?thesis by (auto simp: length_Suc_conv)
  qed
  have row0: "ba_seq_id A ! (?idxs ! (a * m)) = [s0 + a]" if "a < ?k" for a using row [OF that s(1)] by simp
  have bound: "s0 + a < ba_n_seq_max A \<and> s0 + a < length (kc_seq_to_stream x)" if "a < ?k" for a
  proof -
    have i: "?idxs ! (a * m + 0) < ba_n_tokens A" using u(2) idx [OF that s(1)] s(4) by simp
    have "s0 + a \<in> set (ba_seq_id A ! (?idxs ! (a * m + 0)))" using row [OF that s(1)] by simp
    then show ?thesis using range suits i by (auto simp: in_range_def suits_cache_def)
  qed
  have unq: "ub_seq_id_unq (ud_ubatch u) = [s0..<s0 + ?k]"
  proof -
    have "(t < ba_n_seq_max A \<and> (\<exists>qs \<in> set (map ((!) (ba_seq_id A)) ?idxs). t \<in> set qs)) \<longleftrightarrow> s0 \<le> t \<and> t < s0 + ?k" for t
    proof
      assume "t < ba_n_seq_max A \<and> (\<exists>qs \<in> set (map ((!) (ba_seq_id A)) ?idxs). t \<in> set qs)"
      then obtain i where i: "i \<in> set ?idxs" "t \<in> set (ba_seq_id A ! i)" by auto
      from i(1) obtain j where "j < length ?idxs" "i = ?idxs ! j" unfolding in_set_conv_nth by blast
      then have j: "j < ?k * m" "t \<in> set (ba_seq_id A ! (?idxs ! j))" using i(2) s(4) by simp_all
      then have "j div m < ?k" "j mod m < m" using s(1) by (simp_all add: less_mult_imp_div_less)
      from row [OF this] j(2) have "t = s0 + j div m" by simp
      then show "s0 \<le> t \<and> t < s0 + ?k" using \<open>j div m < ?k\<close> by simp
    next
      assume t: "s0 \<le> t \<and> t < s0 + ?k"
      then have a: "t - s0 < ?k" by linarith
      have "?idxs ! ((t - s0) * m + 0) \<in> set ?idxs" using idx [OF a s(1)] s(4) by (intro nth_mem) simp
      moreover have "t \<in> set (ba_seq_id A ! (?idxs ! ((t - s0) * m + 0)))" using row [OF a s(1)] t by simp
      ultimately show "t < ba_n_seq_max A \<and> (\<exists>qs \<in> set (map ((!) (ba_seq_id A)) ?idxs). t \<in> set qs)"
        using bound [OF a] t by auto
    qed
    then have "unique_seqs (ba_n_seq_max A) (map ((!) (ba_seq_id A)) ?idxs) = [s0..<s0 + ?k]"
      by (intro unique_seqs_range) blast
    then show ?thesis by (simp add: gathers_unique [OF s(5)])
  qed
  have tok: "token_ok x (ud_ubatch u) (kc_seq_to_stream x ! (s0 + a)) (a * m + b)" if "a < ?k" "b < m" for a b
    by (rule gathered_token [OF s(5) suits]) (use idx [OF that] row [OF that] s(4) u(2) in auto)
  have seqs: "slot_seqs K (ud_ubatch u) = [s0..<s0 + ?k]" using many by (simp add: slot_seqs_def unq)
  have ids: "ub_seq_id (ud_ubatch u) = map ((!) (ba_seq_id A)) ?idxs" "ub_n_tokens (ud_ubatch u) = ?k * m"
    using s(4,5) gathers_unique [OF s(5)] by (simp_all add: gathers_def)
  have "batch_ok K x (ud_ubatch u) m"
    unfolding batch_ok_def seqs unq ids
  proof (intro conjI allI impI)
    show "distinct (map ((!) (kc_seq_to_stream x)) [s0..<s0 + ?k])"
      using suits many bound
      by (auto simp: suits_cache_def distinct_map intro!: inj_on_nth) (metis bound add_diff_inverse_nat nat_add_left_cancel_less not_less)
  qed (use s(1,2) bound idx row0 tok s(4) in \<open>auto simp del: upt_Suc\<close>)
  then show ?thesis by blast
qed

section \<open>Preparing a batch\<close>

lemma gathers_fields:
  assumes "gathers A idxs n_seqs equal u"
  shows "ud_batch_idxs u = idxs" "ub_n_tokens (ud_ubatch u) = length idxs"
  using assms by (simp_all add: gathers_def)

lemma covers_tokens:
  assumes "covers A us B" and "u \<in> set us" and "i \<in> set (ud_batch_idxs u)"
  shows "i < ba_n_tokens A"
proof -
  have "set (concat (map ud_batch_idxs us)) = set [0..<ba_n_tokens A]"
    using assms(1) by (intro mset_eq_setD) (simp add: covers_def Let_def)
  moreover have "i \<in> set (concat (map ud_batch_idxs us))" using assms(2,3) by auto
  ultimately show ?thesis by simp
qed

lemma tail_left_reset: "tail_left (split_reset A)"
proof -
  have "unused (split_reset A) = {0..<ba_n_tokens (split_reset A)}" by (auto simp: unused_reset)
  then show ?thesis unfolding tail_left_def by blast
qed

lemma fronted_reset: "fronted (split_reset A)"
  by (auto simp: fronted_def unused_reset)

lemma uncoupled_reset [simp]: "uncoupled (split_reset A) = uncoupled A"
  by (simp add: uncoupled_def)

lemma split_simple_cover:
  assumes "split_ok A"
  shows "\<exists>us B. split_all (split_simple n_ubatch) (split_reset A) [] = Some (us, B) \<and> covers A us B \<and>
    concat (map ud_batch_idxs us) = [0..<ba_n_tokens A] \<and>
    (\<forall>u \<in> set us. ud_batch_idxs u \<noteq> [] \<and> length (ud_batch_idxs u) \<le> max 1 n_ubatch \<and>
      gathers A (ud_batch_idxs u) (length (ud_batch_idxs u)) False u)"
proof -
  obtain us B where us: "split_all (split_simple n_ubatch) (split_reset A) [] = Some (us, B)" "covers A us B"
      "split_chain (simple_good n_ubatch) (split_reset A) us B" "unused B = {}"
      "\<forall>u \<in> set us. \<exists>C. split_frame A C \<and> split_ok C \<and> simple_good n_ubatch C u"
    using splits_cover [OF split_simple_splits assms tail_left_reset, of n_ubatch] simple_good_order by blast
  have "concat (map ud_batch_idxs us) = [0..<ba_n_tokens (split_reset A)]"
    by (rule simple_chain [OF us(3) _ us(4)]) (auto simp: unused_reset)
  moreover have "ud_batch_idxs u \<noteq> [] \<and> length (ud_batch_idxs u) \<le> max 1 n_ubatch \<and>
      gathers A (ud_batch_idxs u) (length (ud_batch_idxs u)) False u" if u: "u \<in> set us" for u
  proof -
    obtain C where C: "split_frame A C" "simple_good n_ubatch C u" using us(5) u by blast
    then obtain k k' where "ud_batch_idxs u = [k..<k']" "k < k'" "k' - k \<le> max 1 n_ubatch" "gathers C [k..<k'] (k' - k) False u"
      unfolding simple_good_def by blast
    then show ?thesis using gathers_frame [OF C(1)] by simp
  qed
  ultimately show ?thesis using us(1,2) by auto
qed

lemma split_equal_cover:
  assumes "split_ok A" and "tail = 0 \<or> tail < n_ubatch" and "sequential \<longrightarrow> uncoupled A"
  shows "\<exists>us B. split_all (split_equal n_ubatch sequential tail) (split_reset A) [] = Some (us, B) \<and> covers A us B \<and>
    tail_respected tail A us \<and> (\<forall>u \<in> set us. equal_layout A n_ubatch sequential u)"
proof -
  have valid: "fronted (split_reset A) \<and> (sequential \<longrightarrow> uncoupled (split_reset A))" using assms(3) fronted_reset by simp
  obtain us B where us: "split_all (split_equal n_ubatch sequential tail) (split_reset A) [] = Some (us, B)" "covers A us B"
      "split_chain (equal_good n_ubatch sequential tail) (split_reset A) us B" "unused B = {}"
      "\<forall>u \<in> set us. \<exists>C. split_frame A C \<and> split_ok C \<and> equal_good n_ubatch sequential tail C u"
    using splits_cover [OF split_equal_splits [OF assms(2), of sequential] assms(1) valid] equal_good_order by blast
  have "tail_respected tail (split_reset A) us" by (rule equal_chain_tail [OF us(3) split_reset_ok [OF assms(1)] us(4)])
  then have "tail_respected tail A us" by (simp add: tail_respected_def)
  moreover have "equal_layout A n_ubatch sequential u" if "u \<in> set us" for u using us(5) that equal_good_layout by blast
  ultimately show ?thesis using us(1,2) by blast
qed

text \<open>The sets of a sequence-wise micro-batch only shrink.\<close>

lemma split_seq_cover:
  assumes "split_ok A"
  shows "\<exists>us B. split_all (split_seq n_ubatch) (split_reset A) [] = Some (us, B) \<and> covers A us B \<and>
    (\<forall>u \<in> set us. sorted (ud_batch_idxs u) \<and> shrinking (map ((!) (ba_seq_set A)) (ud_batch_idxs u)) \<and>
      length (ud_batch_idxs u) \<le> max 1 n_ubatch \<and> gathers A (ud_batch_idxs u) 1 True u)"
proof -
  obtain us B where us: "split_all (split_seq n_ubatch) (split_reset A) [] = Some (us, B)" "covers A us B"
      "\<forall>u \<in> set us. \<exists>C. split_frame A C \<and> split_ok C \<and> seq_good n_ubatch C u"
    using splits_cover [OF split_seq_splits assms TrueI, of n_ubatch] seq_good_order by blast
  moreover have "sorted (ud_batch_idxs u) \<and> shrinking (map ((!) (ba_seq_set A)) (ud_batch_idxs u)) \<and>
      length (ud_batch_idxs u) \<le> max 1 n_ubatch \<and> gathers A (ud_batch_idxs u) 1 True u" if u: "u \<in> set us" for u
  proof -
    obtain C where C: "split_frame A C" "seq_good n_ubatch C u" using us(3) u by blast
    then show ?thesis using gathers_frame [OF C(1)] split_frameD(14) [OF C(1)] by (simp add: seq_good_def)
  qed
  ultimately show ?thesis by blast
qed

end
