(* ===== verification/Batch_Properties.thy ===== *)
theory Batch_Properties
  imports Batch_Placement Cache_Properties
begin

text \<open>The properties of the batch allocator and of preparing a batch, with their witnesses.\<close>

section \<open>A small batch\<close>

text \<open>Three tokens of two sequences, the sequences interleaved.\<close>

definition demo_llama_batch :: llama_batch where
  "demo_llama_batch = \<lparr> lb_n_tokens = 3, lb_token = Some [5, 6, 7], lb_embd = None, lb_pos = None,
     lb_n_seq_id = None, lb_seq_id = Some [Some [0], Some [1], Some [0]], lb_logits = None \<rparr>"

definition demo_filled :: batch_allocr where
  "demo_filled = fill_allocr demo_llama_batch None 0 2 False None (new_allocr 1 False)"

lemma demo_checks:
  "batch_shape demo_llama_batch \<and> first_error (token_error 10 [5, 6, 7]) [0..<3] = None \<and>
   first_error (seq_row_error demo_llama_batch 2 [Some [0], Some [1], Some [0]]) [0..<3] = None \<and>
   first_error (start_error None demo_filled) [0..<2] = None \<and> first_error (coupling_error None demo_filled) [0..<2] = None \<and>
   order_error demo_filled = None"
  by code_simp

lemma demo_init:
  "batch_init demo_llama_batch 10 None 0 2 False False None (new_allocr 1 False) = Some (Inr (split_reset demo_filled))"
proof -
  have fields: "lb_n_tokens demo_llama_batch = 3" "lb_token demo_llama_batch = Some [5, 6, 7]"
      "lb_seq_id demo_llama_batch = Some [Some [0], Some [1], Some [0]]"
    by (simp_all add: demo_llama_batch_def)
  have filled: "fill_allocr demo_llama_batch None 0 2 False None (new_allocr (Suc 0) False) = demo_filled"
    by (simp add: demo_filled_def)
  show ?thesis
    using demo_checks
    by (simp add: batch_init_def fields extended_shape_def assertion_def LLAMA_MAX_SEQ_def Let_def filled
        del: first_error_None)
qed

lemma demo_rows: "rows_given demo_llama_batch 1 0 None"
  by (simp add: rows_given_def demo_llama_batch_def)

lemma demo_filled_fields:
  "ba_n_tokens demo_filled = 3 \<and> ba_pos demo_filled = [0, 0, 1] \<and> ba_seq_id demo_filled = [[0], [1], [0]] \<and>
   ba_n_pos_per_embd demo_filled = 1 \<and> \<not> ba_has_cpl demo_filled"
  by code_simp

lemma demo_uncoupled: "uncoupled (split_reset demo_filled)"
  using demo_filled_fields by (simp add: uncoupled_def less_Suc_eq numeral_3_eq_3)

section \<open>What is accepted\<close>



section \<open>The splits\<close>

lemma accepted_uncoupled:
  assumes "well_formed memory A" and "\<forall>i < ba_n_tokens A. length (ba_seq_id A ! i) = 1"
  shows "uncoupled A"
  using assms by (auto simp: uncoupled_def well_formed_def)

text \<open>C18: Splitting an accepted batch into micro-batches of single tokens ends, in the order of the batch:
  the micro-batches put together are the batch, each holds at most \<open>n_ubatch\<close> tokens and exactly their
  entries (tokens, embeddings, row kinds, positions, sequences, outputs and decision order, each present exactly
  when the batch has it for one of the rows), and the output list names the tokens with logits.\<close>
theorem simple_splits_batch:
  assumes "batch_init b n_vocab memory n_embd max_seqs output_all validated extended A = Some (Inr B)"
    and "rows_given b (ba_n_pos_per_embd A) n_embd extended"
  shows "\<exists>us C. split_all (split_simple n_ubatch) (split_reset B) [] = Some (us, C) \<and> covers B us C \<and>
    concat (map ud_batch_idxs us) = [0..<ba_n_tokens B] \<and>
    (\<forall>u \<in> set us. ud_batch_idxs u \<noteq> [] \<and> length (ud_batch_idxs u) \<le> max 1 n_ubatch \<and>
      gathers B (ud_batch_idxs u) (length (ud_batch_idxs u)) False u)"
  by (rule split_simple_cover [OF batch_init_split_ok [OF assms]])

theorem simple_splits_batch_witness:
  "\<exists>us C. split_all (split_simple 2) (split_reset (split_reset demo_filled)) [] = Some (us, C) \<and>
    concat (map ud_batch_idxs us) = [0..<ba_n_tokens (split_reset demo_filled)]"
  using simple_splits_batch [OF demo_init, of 2] demo_rows by (auto simp: new_allocr_def)

text \<open>C7: Splitting an accepted batch into equal shares of disjoint sequence sets ends, with every token in
  one micro-batch and the tokens of a set in the order of the batch; the sequential split, asked for
  batches without coupling, takes sequences with consecutive numbers; no micro-batch holds more than
  \<open>n_ubatch + 1\<close> tokens; and the tail it is asked to keep is kept.\<close>
theorem equal_splits_batch:
  assumes "batch_init b n_vocab memory n_embd max_seqs output_all validated extended A = Some (Inr B)"
    and "rows_given b (ba_n_pos_per_embd A) n_embd extended" and "tail = 0 \<or> tail < n_ubatch"
    and "sequential \<longrightarrow> (\<forall>i < ba_n_tokens B. length (ba_seq_id B ! i) = 1)"
  shows "\<exists>us C. split_all (split_equal n_ubatch sequential tail) (split_reset B) [] = Some (us, C) \<and> covers B us C \<and>
    tail_respected tail B us \<and> (\<forall>u \<in> set us. equal_layout B n_ubatch sequential u)"
proof (rule split_equal_cover [OF batch_init_split_ok [OF assms(1,2)] assms(3)])
  show "sequential \<longrightarrow> uncoupled B"
    using assms(4) accepted_uncoupled [OF batch_init_well_formed [OF assms(1)]] by blast
qed

theorem equal_splits_batch_witness:
  "\<exists>us C. split_all (split_equal 2 True 1) (split_reset (split_reset demo_filled)) [] = Some (us, C) \<and>
    tail_respected 1 (split_reset demo_filled) us"
  using equal_splits_batch [OF demo_init, of 1 2 True] demo_rows demo_uncoupled by (auto simp: new_allocr_def uncoupled_def)

text \<open>C19: Splitting an accepted batch sequence by sequence ends, with every token in one micro-batch and the
  tokens of a set in the order of the batch; a micro-batch is an ascending choice of tokens whose sets only
  shrink, and holds at most \<open>n_ubatch\<close> of them.\<close>
theorem seq_splits_batch:
  assumes "batch_init b n_vocab memory n_embd max_seqs output_all validated extended A = Some (Inr B)"
    and "rows_given b (ba_n_pos_per_embd A) n_embd extended"
  shows "\<exists>us C. split_all (split_seq n_ubatch) (split_reset B) [] = Some (us, C) \<and> covers B us C \<and>
    (\<forall>u \<in> set us. sorted (ud_batch_idxs u) \<and> shrinking (map ((!) (ba_seq_set B)) (ud_batch_idxs u)) \<and>
      length (ud_batch_idxs u) \<le> max 1 n_ubatch \<and> gathers B (ud_batch_idxs u) 1 True u)"
  by (rule split_seq_cover [OF batch_init_split_ok [OF assms]])

theorem seq_splits_batch_witness:
  "\<exists>us C. split_all (split_seq 2) (split_reset (split_reset demo_filled)) [] = Some (us, C) \<and>
    covers (split_reset demo_filled) us C"
  using seq_splits_batch [OF demo_init, of 2] demo_rows by (auto simp: new_allocr_def)

section \<open>Preparing a batch\<close>

lemma init_batch_ubatches:
  assumes wf: "well_formed memory A" and ok: "split_ok A" and base: "cache_base K N x" and suits: "suits_cache K x A"
  shows "\<exists>us B. split_all (if cc_n_stream K = 1 then split_simple n_ubatch else split_equal n_ubatch True 0) (split_reset A) [] = Some (us, B) \<and>
    covers A us B \<and> us \<noteq> [] \<and> (\<forall>u \<in> set us. \<exists>n. batch_ok K x (ud_ubatch u) n)"
proof -
  have A: "in_range A" "0 < ba_n_tokens A" "\<forall>i < ba_n_tokens A. ba_seq_id A ! i \<noteq> []" using wf by (simp_all add: well_formed_def)
  have some: "us \<noteq> []" if "covers A us B" for us B
  proof
    assume "us = []"
    then have "mset [0..<ba_n_tokens A] = {#}" using that by (simp add: covers_def Let_def)
    then show False using A(2) by (simp only: mset_zero_iff) simp
  qed
  show ?thesis
  proof (cases "cc_n_stream K = 1")
    case True
    obtain us B where us: "split_all (split_simple n_ubatch) (split_reset A) [] = Some (us, B)" "covers A us B"
        "\<forall>u \<in> set us. ud_batch_idxs u \<noteq> [] \<and> gathers A (ud_batch_idxs u) (length (ud_batch_idxs u)) False u"
      using split_simple_cover [OF ok, of n_ubatch] by blast
    have "batch_ok K x (ud_ubatch u) (length (ud_batch_idxs u))" if u: "u \<in> set us" for u
      using batch_ok_unified [OF True base suits A(1,3)] us(3) u covers_tokens [OF us(2) u] by blast
    then show ?thesis using us some [OF us(2)] True by auto
  next
    case False
    then have many: "cc_n_stream K > 1" using cache_baseD(3) [OF base] by simp
    then have "uncoupled A" using suits by (simp add: suits_cache_def)
    then obtain us B where us: "split_all (split_equal n_ubatch True 0) (split_reset A) [] = Some (us, B)" "covers A us B"
        "\<forall>u \<in> set us. equal_layout A n_ubatch True u"
      using split_equal_cover [OF ok, of 0 n_ubatch True] by blast
    have "\<exists>n. batch_ok K x (ud_ubatch u) n" if u: "u \<in> set us" for u
      using batch_ok_streams [OF many suits A(1)] us(3) u covers_tokens [OF us(2) u] by blast
    then show ?thesis using us some [OF us(2)] False by auto
  qed
qed

text \<open>C35: Preparing an accepted batch that suits the cache, when no shift is pending, returns and changes nothing
  in the cache; when it succeeds, the micro-batches hold every token of the batch once and each has a slot of its own
  size in which it can be committed. A batch suits the cache when its positions are not negative, no token names a
  sequence twice, its sequences are known to the cache, and with several streams every token has one sequence; the
  allocator accepts batches without the first two (position \<open>-1\<close>, a row \<open>[0, 0]\<close>), on which placing a
  token fails an assertion of the cells. The device admission that follows the plan is not part of it.\<close>
theorem init_batch_prepares:
  assumes "batch_init b n_vocab memory n_embd max_seqs output_all validated extended A = Some (Inr B)"
    and "rows_given b (ba_n_pos_per_embd A) n_embd extended" and "suits_cache K x B"
    and "cache_ok K N x" and "N < 2 ^ 30" and "\<forall>s < cc_n_stream K. \<forall>i < N. cshift x s i = 0"
  shows "\<exists>res C y. init_batch K n_ubatch B x = Some (res, C, y) \<and> cache_ok K N y \<and>
    (\<forall>s < cc_n_stream K. \<forall>i < N. cell_of y (s, i) = cell_of x (s, i)) \<and> kc_heads y = kc_heads x \<and>
    kc_ownership y = kc_ownership x \<and> kc_calls y = kc_calls x \<and>
    (case res of None \<Rightarrow> True | Some (us, sis) \<Rightarrow> covers B us C \<and>
      list_all2 (\<lambda>si u. \<exists>n. slot_fits K N x si (ud_ubatch u) n) sis us)"
proof -
  have base: "cache_base K N x" using assms(4) cache_invD(1) by (simp add: cache_ok_def)
  obtain us C where us: "split_all (if cc_n_stream K = 1 then split_simple n_ubatch else split_equal n_ubatch True 0) (split_reset B) [] = Some (us, C)"
      "covers B us C" "us \<noteq> []" "\<forall>u \<in> set us. \<exists>n. batch_ok K x (ud_ubatch u) n"
    using init_batch_ubatches [OF batch_init_well_formed [OF assms(1)] batch_init_split_ok [OF assms(1,2)] base assms(3), of n_ubatch]
    by blast
  have "unshifted K N x" using assms(6) unfolding unshifted_def by blast
  from plan_slots_done [OF assms(4,5) this, of "map ud_ubatch us"] us(3,4) obtain sis y where
      y: "plan_slots K (map ud_ubatch us) x = Some (sis, y)" "cache_inv K N y" "plan_frame x y" "kc_heads y = kc_heads x"
        "same_cells K N x y" "sis = [] \<or> list_all2 (\<lambda>si ub. \<exists>n. slot_fits K N x si ub n) sis (map ud_ubatch us)"
    by auto
  let ?res = "if sis = [] then None else Some (us, sis)"
  have "init_batch K n_ubatch B x = Some (?res, C, y)"
    using us(1,2) y(1) by (simp add: init_batch_def covers_def Let_def split del: if_split)
  moreover have "cache_ok K N y" by (rule plan_keeps_ok [OF assms(4) y(2,3,5)])
  ultimately show ?thesis
    using y us(2) by (intro exI [of _ ?res] exI [of _ C] exI [of _ y])
      (auto simp: plan_frame_def edit_frame_def same_cells_def list_all2_map2)
qed

theorem init_batch_prepares_witness:
  "\<exists>res C y. init_batch demo_config 2 (split_reset demo_filled) demo_empty = Some (res, C, y) \<and> cache_ok demo_config 4 y"
proof -
  have "suits_cache demo_config demo_empty (split_reset demo_filled)"
    using demo_filled_fields by (simp add: suits_cache_def demo_empty_fields demo_streams less_Suc_eq numeral_3_eq_3)
  moreover have "\<forall>s < cc_n_stream demo_config. \<forall>i < 4. cshift demo_empty s i = 0"
    using demo_empty_shift by (simp add: demo_streams)
  ultimately show ?thesis
    using init_batch_prepares [OF demo_init _ _ demo_empty_ok, of 2] demo_rows by (auto simp: new_allocr_def)
qed

section \<open>At the edges\<close>

text \<open>The check against partial sequence sets is never the reason for a refusal.\<close>

lemma first_error_Some: "first_error f xs = Some e \<Longrightarrow> \<exists>x \<in> set xs. f x = Some e"
  by (induction xs) (auto split: option.splits)

lemma checks_not_partial [simp]:
  "first_error (token_error n_vocab ts) js \<noteq> Some (Partial_Set i q)"
  "first_error (seq_row_error b max_seqs rows) js \<noteq> Some (Partial_Set i q)"
  "first_error (start_error memory A) ss \<noteq> Some (Partial_Set i q)"
  "first_error (coupling_error memory A) ss \<noteq> Some (Partial_Set i q)"
  by (auto dest!: first_error_Some split: if_splits option.splits
      simp: token_error_def seq_row_error_def start_error_def coupling_error_def Let_def)

lemma sets_never_refused:
  "batch_init b n_vocab memory n_embd max_seqs output_all validated extended A \<noteq> Some (Inl (Partial_Set i q))"
proof
  let ?F = "fill_allocr b memory n_embd max_seqs output_all extended A"
  assume "batch_init b n_vocab memory n_embd max_seqs output_all validated extended A = Some (Inl (Partial_Set i q))"
  then have "0 < lb_n_tokens b \<and> max_seqs \<le> LLAMA_MAX_SEQ \<and> batch_shape b \<and> 0 < max_seqs \<and> order_error ?F = Some (Partial_Set i q) \<and>
      (\<forall>rows. lb_seq_id b = Some rows \<longrightarrow> (\<forall>i < nat (lb_n_tokens b). seq_row_error b max_seqs rows i = None))"
    using checks_not_partial
    by (auto simp: batch_init_def Let_def assertion_def split: if_splits option.splits)
  then have a: "0 < lb_n_tokens b" "max_seqs \<le> LLAMA_MAX_SEQ" "batch_shape b" "0 < max_seqs" "order_error ?F = Some (Partial_Set i q)"
      "\<forall>rows. lb_seq_id b = Some rows \<longrightarrow> (\<forall>i < nat (lb_n_tokens b). seq_row_error b max_seqs rows i = None)"
    by simp_all
  note rows = gen_rows [OF a(3,1,4,6)]
  have "in_range ?F" using fill_fields [OF refl [of ?F]] rows a(2) by (simp add: in_range_def)
  then show False using no_partial_sets a(5) by blast
qed

text \<open>A sequence alone, coupled, alone again: accepted, and the sequence-wise split takes its positions out of order.\<close>

definition partial_batch :: llama_batch where
  "partial_batch = demo_llama_batch\<lparr> lb_n_seq_id := Some [1, 2, 1], lb_seq_id := Some [Some [0], Some [0, 1], Some [0]] \<rparr>"

definition partial_filled :: batch_allocr where
  "partial_filled = fill_allocr partial_batch None 0 2 False None (new_allocr 1 False)"

lemma partial_accepted:
  "first_error (seq_row_error partial_batch 2 [Some [0], Some [0, 1], Some [0]]) [0..<3] = None \<and>
   first_error (start_error None partial_filled) [0..<2] = None \<and> order_error partial_filled = None"
  by code_simp

lemma partial_sets_reordered: "fst (seq_loop 3 0 {0} [] (split_reset partial_filled)) = [0, 2]"
  by code_simp

text \<open>Three sequences of one token: an equal split for two tokens takes all three.\<close>

definition wide_batch :: llama_batch where
  "wide_batch = demo_llama_batch\<lparr> lb_seq_id := Some [Some [0], Some [1], Some [2]] \<rparr>"

definition wide_filled :: batch_allocr where
  "wide_filled = fill_allocr wide_batch None 0 3 False None (new_allocr 1 False)"

lemma equal_exceeds_ubatch: "equal_sets (split_reset wide_filled) 2 True [0, 1, 2] [] (-1) = [{0}, {1}, {2}]"
  by code_simp

text \<open>Embeddings without positions: the generated positions are one row, the model reads four.\<close>

definition embedding_batch :: llama_batch where
  "embedding_batch = demo_llama_batch\<lparr> lb_token := None, lb_embd := Some [0, 0, 0] \<rparr>"

lemma embedding_positions_short:
  "(case batch_init embedding_batch 10 None 1 2 False False None (new_allocr 4 False) of
     Some (Inr B) \<Rightarrow> (case split_simple 3 B of None \<Rightarrow> True | Some _ \<Rightarrow> False)
   | _ \<Rightarrow> False)"
  by code_simp

end
