(* ===== verification/Utf8.thy ===== *)
theory Utf8
  imports Prelude
begin

text \<open>
  UTF-8, as \<^verbatim>\<open>src/src/unicode.cpp\<close> encodes and decodes it and as \<open>decode_utf8\<close> of
  \<^verbatim>\<open>src/src/llama-grammar.cpp\<close> decodes the pieces of tokens, which may end in the middle of a character.
  A string is a list of bytes; \<open>None\<close> is the exception \<open>invalid_argument\<close>.
\<close>

type_synonym u8 = "8 word"

section \<open>\<^verbatim>\<open>unicode.cpp\<close>\<close>

definition len_lookup :: "nat list" where
  "len_lookup = [1, 1, 1, 1, 1, 1, 1, 1, 1, 1, 1, 1, 2, 2, 3, 4]"

definition unicode_len_utf8 :: "u8 \<Rightarrow> nat" where
  "unicode_len_utf8 src = len_lookup ! unat (drop_bit 4 src)"

text \<open>A continuation byte at an offset, if there is one.\<close>

definition cont_at :: "u8 list \<Rightarrow> nat \<Rightarrow> bool" where
  "cont_at s i \<longleftrightarrow> i < length s \<and> s ! i AND 0xC0 = 0x80"

definition low_bits :: "u8 list \<Rightarrow> nat \<Rightarrow> u32" where
  "low_bits s i = ucast (s ! i AND 0x3F)"

definition unicode_cpt_from_utf8 :: "u8 list \<Rightarrow> nat \<Rightarrow> (u32 \<times> nat) option" where
  "unicode_cpt_from_utf8 s off = do {
     assertion (off < length s);
     let b = s ! off;
     if b AND 0x80 = 0 then Some (ucast b, off + 1)
     else if b AND 0x40 = 0 then None
     else if b AND 0x20 = 0 then
       (if \<not> cont_at s (off + 1) then None
        else Some (push_bit 6 (ucast (b AND 0x1F)) OR low_bits s (off + 1), off + 2))
     else if b AND 0x10 = 0 then
       (if \<not> cont_at s (off + 1) \<or> \<not> cont_at s (off + 2) then None
        else Some (push_bit 12 (ucast (b AND 0x0F)) OR push_bit 6 (low_bits s (off + 1)) OR low_bits s (off + 2), off + 3))
     else if b AND 0x08 = 0 then
       (if \<not> cont_at s (off + 1) \<or> \<not> cont_at s (off + 2) \<or> \<not> cont_at s (off + 3) then None
        else Some (push_bit 18 (ucast (b AND 0x07)) OR push_bit 12 (low_bits s (off + 1)) OR
          push_bit 6 (low_bits s (off + 2)) OR low_bits s (off + 3), off + 4))
     else None }"

definition unicode_cpt_to_utf8 :: "u32 \<Rightarrow> u8 list option" where
  "unicode_cpt_to_utf8 cpt =
    (let cont = (\<lambda>n. 0x80 OR ucast (drop_bit n cpt AND 0x3F)) in
     if cpt \<le> 0x7F then Some [ucast cpt]
     else if cpt \<le> 0x7FF then Some [0xC0 OR ucast (drop_bit 6 cpt AND 0x1F), cont 0]
     else if cpt \<le> 0xFFFF then Some [0xE0 OR ucast (drop_bit 12 cpt AND 0x0F), cont 6, cont 0]
     else if cpt \<le> 0x10FFFF then Some [0xF0 OR ucast (drop_bit 18 cpt AND 0x07), cont 12, cont 6, cont 0]
     else None)"

lemma from_utf8_advances: "unicode_cpt_from_utf8 s off = Some (c, off') \<Longrightarrow> off < off'"
  by (auto simp: unicode_cpt_from_utf8_def Let_def split: if_splits)

text \<open>An invalid byte becomes the replacement character.\<close>

function cpts_loop :: "u8 list \<Rightarrow> nat \<Rightarrow> u32 list" where
  "cpts_loop s off =
    (if off \<ge> length s then []
     else case unicode_cpt_from_utf8 s off of
       Some (c, off') \<Rightarrow> c # cpts_loop s off'
     | None \<Rightarrow> 0xFFFD # cpts_loop s (off + 1))"
  by pat_completeness auto
termination
  by (relation "measure (\<lambda>(s, off). length s - off)") (auto dest!: from_utf8_advances)

declare cpts_loop.simps [simp del]

definition unicode_cpts_from_utf8 :: "u8 list \<Rightarrow> u32 list" where
  "unicode_cpts_from_utf8 s = cpts_loop s 0"

section \<open>\<open>decode_utf8\<close>\<close>

record partial_utf8 =
  pu_value :: u32
  pu_n_remain :: int

text \<open>The bytes a C string has before its terminating zero.\<close>

definition c_str :: "u8 list \<Rightarrow> u8 list" where
  "c_str s = takeWhile (\<lambda>b. b \<noteq> 0) s"

definition first_lookup :: "int list" where
  "first_lookup = [1, 1, 1, 1, 1, 1, 1, 1, 0, 0, 0, 0, 2, 2, 3, 4]"

definition add_byte :: "u32 \<Rightarrow> u8 \<Rightarrow> u32" where
  "add_byte v b = push_bit 6 v + ucast (b AND 0x3F)"

text \<open>The character a previous piece left unfinished: its bytes are checked.\<close>

fun continue_decode :: "u32 \<Rightarrow> int \<Rightarrow> u8 list \<Rightarrow> (u32 \<times> int \<times> u8 list) option" where
  "continue_decode v n [] = Some (v, n, [])"
| "continue_decode v n (b # bs) =
    (if n > 0 then if drop_bit 6 b \<noteq> 2 then None else continue_decode (add_byte v b) (n - 1) bs
     else Some (v, n, b # bs))"

text \<open>The bytes of a character that begins in this piece: they are not.\<close>

fun take_bytes :: "u32 \<Rightarrow> int \<Rightarrow> u8 list \<Rightarrow> u32 \<times> int \<times> u8 list" where
  "take_bytes v n [] = (v, n, [])"
| "take_bytes v n (b # bs) = (if n > 0 then take_bytes (add_byte v b) (n - 1) bs else (v, n, b # bs))"

lemma take_bytes_shrinks: "(case take_bytes v n bs of (v', n', rest) \<Rightarrow> length rest) \<le> length bs"
  by (induction v n bs rule: take_bytes.induct) auto

function decode_loop :: "u32 list \<Rightarrow> u32 \<Rightarrow> int \<Rightarrow> u8 list \<Rightarrow> u32 list \<times> partial_utf8" where
  "decode_loop cps v n [] = (cps @ [0], \<lparr> pu_value = v, pu_n_remain = n \<rparr>)"
| "decode_loop cps v n (b # bs) =
    (let n0 = first_lookup ! unat (drop_bit 4 b) - 1 in
     if n0 < 0 then ([0], \<lparr> pu_value = 0, pu_n_remain = n0 \<rparr>)
     else let mask = push_bit (nat (7 - n0)) 1 - 1;
              (v', n', rest) = take_bytes (ucast (b AND mask)) n0 bs in
       decode_loop (if n' = 0 then cps @ [v'] else cps) v' n' rest)"
  by pat_completeness auto
termination
  by (relation "measure (\<lambda>(cps, v, n, bs). length bs)") (auto simp: less_Suc_eq_le take_bytes_shrinks)

definition decode_utf8 :: "u8 list \<Rightarrow> partial_utf8 \<Rightarrow> u32 list \<times> partial_utf8" where
  "decode_utf8 src start =
    (case continue_decode (pu_value start) (pu_n_remain start) (c_str src) of
       None \<Rightarrow> ([0], \<lparr> pu_value = 0, pu_n_remain = -1 \<rparr>)
     | Some (v, n, rest) \<Rightarrow> decode_loop (if pu_n_remain start > 0 \<and> n = 0 then [v] else []) v n rest)"

section \<open>Bytes of a character\<close>

definition cont_byte :: "u32 \<Rightarrow> u8" where
  "cont_byte x = 0x80 OR ucast (x AND 0x3F)"

lemma and_masks:
  "(x :: u32) AND 0x3F = take_bit 6 x" "(x :: u32) AND 0x1F = take_bit 5 x" "(x :: u32) AND 0x0F = take_bit 4 x" "(x :: u32) AND 0x07 = take_bit 3 x"
  "(b :: u8) AND 0x3F = take_bit 6 b" "b AND 0x1F = take_bit 5 b" "b AND 0x0F = take_bit 4 b" "b AND 0x07 = take_bit 3 b" "b AND 0x7F = take_bit 7 b"
  by (simp_all add: take_bit_eq_mask mask_eq_exp_minus_1)

lemma cont_byte_eq: "cont_byte x = 0x80 OR take_bit 6 (ucast x)"
  by (simp add: cont_byte_def and_masks unsigned_take_bit_eq)

lemma ucast_take_bit:
  assumes "k \<le> 8"
  shows "ucast (take_bit k (ucast (x :: u32) :: u8)) = take_bit k x"
  using assms by (intro bit_word_eqI) (auto simp: bit_simps)

text \<open>A byte with its upper bits set apart from its \<open>k\<close> lower ones.\<close>

lemma head_and: "((h :: u8) OR take_bit k y) AND push_bit k m = h AND push_bit k m"
  by (rule bit_word_eqI) (auto simp: bit_simps)

lemma head_tests:
  "((h :: u8) OR take_bit 6 y) AND 0xC0 = h AND 0xC0"
  "(h OR take_bit 5 y) AND 0x80 = h AND 0x80" "(h OR take_bit 5 y) AND 0x40 = h AND 0x40" "(h OR take_bit 5 y) AND 0x20 = h AND 0x20"
  "(h OR take_bit 4 y) AND 0x80 = h AND 0x80" "(h OR take_bit 4 y) AND 0x40 = h AND 0x40" "(h OR take_bit 4 y) AND 0x20 = h AND 0x20"
  "(h OR take_bit 4 y) AND 0x10 = h AND 0x10"
  "(h OR take_bit 3 y) AND 0x80 = h AND 0x80" "(h OR take_bit 3 y) AND 0x40 = h AND 0x40" "(h OR take_bit 3 y) AND 0x20 = h AND 0x20"
  "(h OR take_bit 3 y) AND 0x10 = h AND 0x10" "(h OR take_bit 3 y) AND 0x08 = h AND 0x08"
  using head_and [of h 6 y 3] head_and [of h 5 y 4] head_and [of h 5 y 2] head_and [of h 5 y 1]
    head_and [of h 4 y 8] head_and [of h 4 y 4] head_and [of h 4 y 2] head_and [of h 4 y 1]
    head_and [of h 3 y 16] head_and [of h 3 y 8] head_and [of h 3 y 4] head_and [of h 3 y 2] head_and [of h 3 y 1]
  by (simp_all add: push_bit_of_1)

lemma cont_byte_bits: "drop_bit 6 (cont_byte x) = 2" "cont_byte x AND 0xC0 = 0x80" "cont_byte x \<noteq> 0"
    "ucast (cont_byte x AND 0x3F) = x AND (0x3F :: u32)"
proof -
  show d: "drop_bit 6 (cont_byte x) = 2"
    by (simp add: cont_byte_eq drop_bit_or drop_bit_take_bit)
  then show "cont_byte x \<noteq> 0" by auto
  show "cont_byte x AND 0xC0 = 0x80" by (simp add: cont_byte_eq head_tests)
  show "ucast (cont_byte x AND 0x3F) = x AND (0x3F :: u32)"
    by (simp add: cont_byte_eq and_masks take_bit_or ucast_take_bit)
qed

section \<open>Encoding\<close>

text \<open>The pieces of a code point, put together again.\<close>

lemma join_bits: "push_bit n (drop_bit n (c :: u32)) + take_bit n c = c"
  by (rule bits_ident)

lemma take_small: "uint c < 2 ^ k \<Longrightarrow> take_bit k (c :: u32) = c"
  by (simp add: word_uint_eq_iff unsigned_take_bit_eq take_bit_int_eq_self)

lemma drop_small:
  assumes "uint c < 2 ^ (k + n)"
  shows "take_bit k (drop_bit n (c :: u32)) = drop_bit n c"
proof -
  have "take_bit k (drop_bit n c) = drop_bit n (take_bit (k + n) c)" by (simp add: drop_bit_take_bit)
  then show ?thesis using take_small [OF assms] by simp
qed

lemma encode_cases:
  assumes "unicode_cpt_to_utf8 c = Some bs"
  shows "(c \<le> 0x7F \<and> bs = [ucast c]) \<or>
    (0x7F < c \<and> uint c < 2 ^ 11 \<and> bs = [0xC0 OR take_bit 5 (ucast (drop_bit 6 c)), cont_byte c]) \<or>
    (0x7FF < c \<and> uint c < 2 ^ 16 \<and> bs = [0xE0 OR take_bit 4 (ucast (drop_bit 12 c)), cont_byte (drop_bit 6 c), cont_byte c]) \<or>
    (0xFFFF < c \<and> uint c < 2 ^ 21 \<and> bs = [0xF0 OR take_bit 3 (ucast (drop_bit 18 c)), cont_byte (drop_bit 12 c), cont_byte (drop_bit 6 c), cont_byte c])"
  using assms
  by (auto simp: unicode_cpt_to_utf8_def Let_def and_masks unsigned_take_bit_eq cont_byte_eq not_le word_less_def word_le_def split: if_splits)



lemma head_low:
  "take_bit 5 ((0xC0 :: u8) OR take_bit 5 y) = take_bit 5 y" "take_bit 4 ((0xE0 :: u8) OR take_bit 4 y) = take_bit 4 y"
  "take_bit 3 ((0xF0 :: u8) OR take_bit 3 y) = take_bit 3 y"
  by (simp_all add: take_bit_or)

lemma join_or:
  "push_bit 6 (drop_bit 6 c) OR take_bit 6 c = (c :: u32)"
  "push_bit 12 (drop_bit 12 c) OR push_bit 6 (take_bit 6 (drop_bit 6 c)) OR take_bit 6 c = c"
  "push_bit 18 (drop_bit 18 c) OR push_bit 12 (take_bit 6 (drop_bit 12 c)) OR push_bit 6 (take_bit 6 (drop_bit 6 c)) OR take_bit 6 c = c"
proof -
  have step: "push_bit n (drop_bit n c) OR take_bit n c = c" for n
    by (rule bit_word_eqI) (auto simp: bit_simps)
  have dbl: "push_bit n (push_bit 6 (drop_bit (n + 6) c)) OR push_bit n (take_bit 6 (drop_bit n c)) = push_bit n (drop_bit n c)" for n
  proof (rule bit_word_eqI)
    fix i assume i: "i < LENGTH(32)"
    show "bit (push_bit n (push_bit 6 (drop_bit (n + 6) c)) OR push_bit n (take_bit 6 (drop_bit n c))) i =
        bit (push_bit n (drop_bit n c)) i"
      using i by (cases "n + 6 \<le> i") (auto simp: bit_simps)
  qed
  show "push_bit 6 (drop_bit 6 c) OR take_bit 6 c = c" by (rule step)
  show two: "push_bit 12 (drop_bit 12 c) OR push_bit 6 (take_bit 6 (drop_bit 6 c)) OR take_bit 6 c = c"
    using dbl [of 6] step [of 6] by (simp flip: or.assoc)
  show "push_bit 18 (drop_bit 18 c) OR push_bit 12 (take_bit 6 (drop_bit 12 c)) OR push_bit 6 (take_bit 6 (drop_bit 6 c)) OR take_bit 6 c = c"
    using dbl [of 12] two by (simp flip: or.assoc)
qed

lemma low_bits_cont: "i < length s \<Longrightarrow> s ! i = cont_byte x \<Longrightarrow> low_bits s i = take_bit 6 x"
  using cont_byte_bits(4) [of x] by (simp add: low_bits_def and_masks(1))

lemma ascii_byte:
  assumes "c \<le> 0x7F"
  shows "ucast (ucast c :: u8) = (c :: u32)" "(ucast c :: u8) AND 0x80 = 0" "unat (drop_bit 4 (ucast c :: u8)) < 8"
    "(ucast c :: u8) AND 0x7F = ucast c"
proof -
  have u: "uint c < 2 ^ 7" using assms by (simp add: word_le_def)
  have t: "(ucast c :: u8) = take_bit 7 (ucast c)"
    using take_small [OF u] by (simp flip: unsigned_take_bit_eq)
  show "ucast (ucast c :: u8) = c"
    by (subst t) (simp add: ucast_take_bit take_small [OF u])
  show "(ucast c :: u8) AND 0x80 = 0"
    using head_and [of 0 7 "ucast c" 1] t by (simp add: push_bit_of_1)
  show "(ucast c :: u8) AND 0x7F = ucast c" using t by (simp add: and_masks)
  have "drop_bit 4 (ucast c :: u8) = take_bit 3 (drop_bit 4 (ucast c))"
    by (subst t) (simp add: drop_bit_take_bit)
  then have "uint (drop_bit 4 (ucast c :: u8)) < 2 ^ 3"
    by (metis take_bit_int_less_exp unsigned_take_bit_eq)
  then show "unat (drop_bit 4 (ucast c :: u8)) < 8" by (simp add: word_less_def unat_word_ariths nat_less_iff flip: nat_uint_eq)
qed

lemma from_utf8_encoded:
  assumes "unicode_cpt_to_utf8 c = Some bs"
  shows "unicode_cpt_from_utf8 (pre @ bs @ post) (length pre) = Some (c, length pre + length bs)"
proof -
  let ?s = "pre @ bs @ post" and ?o = "length pre"
  consider "c \<le> 0x7F" "bs = [ucast c]"
    | "uint c < 2 ^ 11" "bs = [0xC0 OR take_bit 5 (ucast (drop_bit 6 c)), cont_byte c]"
    | "uint c < 2 ^ 16" "bs = [0xE0 OR take_bit 4 (ucast (drop_bit 12 c)), cont_byte (drop_bit 6 c), cont_byte c]"
    | "uint c < 2 ^ 21" "bs = [0xF0 OR take_bit 3 (ucast (drop_bit 18 c)), cont_byte (drop_bit 12 c), cont_byte (drop_bit 6 c), cont_byte c]"
    using encode_cases [OF assms] by blast
  then show ?thesis
  proof cases
    case 1
    then show ?thesis by (simp add: unicode_cpt_from_utf8_def nth_append ascii_byte)
  next
    case 2
    have d: "take_bit 5 (drop_bit 6 c) = drop_bit 6 c" using 2(1) by (intro drop_small) simp
    show ?thesis
      using 2(2) d by (simp add: unicode_cpt_from_utf8_def nth_append head_tests cont_at_def cont_byte_bits and_masks head_low
          ucast_take_bit low_bits_cont join_or)
  next
    case 3
    have d: "take_bit 4 (drop_bit 12 c) = drop_bit 12 c" using 3(1) by (intro drop_small) simp
    show ?thesis
      using 3(2) d by (simp add: unicode_cpt_from_utf8_def nth_append head_tests cont_at_def cont_byte_bits and_masks head_low
          ucast_take_bit low_bits_cont join_or)
  next
    case 4
    have d: "take_bit 3 (drop_bit 18 c) = drop_bit 18 c" using 4(1) by (intro drop_small) simp
    show ?thesis
      using 4(2) d by (simp add: unicode_cpt_from_utf8_def nth_append head_tests cont_at_def cont_byte_bits and_masks head_low
          ucast_take_bit low_bits_cont join_or)
  qed
qed

section \<open>A string of encoded characters is read back\<close>

lemma cpts_loop_encoded:
  "list_all2 (\<lambda>c bs. unicode_cpt_to_utf8 c = Some bs) cs bss \<Longrightarrow>
    cpts_loop (pre @ concat bss) (length pre) = cs"
proof (induction cs bss arbitrary: pre rule: list_all2_induct)
  case Nil
  then show ?case by (simp add: cpts_loop.simps)
next
  case (Cons c cs bs bss)
  have ne: "bs \<noteq> []" using encode_cases [OF Cons(1)] by auto
  have "cpts_loop (pre @ bs @ concat bss) (length pre) = c # cpts_loop (pre @ bs @ concat bss) (length pre + length bs)"
    using ne by (subst cpts_loop.simps) (simp add: from_utf8_encoded [OF Cons(1)])
  also have "cpts_loop (pre @ bs @ concat bss) (length pre + length bs) = cs"
    using Cons(3) [of "pre @ bs"] by simp
  finally show ?case by simp
qed

section \<open>Reading byte by byte\<close>

text \<open>
  What a decoder that saw one byte at a time would do: the character a byte completes, and the state after it;
  \<open>None\<close> when the byte cannot come there.
\<close>

definition feed :: "u32 \<times> int \<Rightarrow> u8 \<Rightarrow> (u32 list \<times> u32 \<times> int) option" where
  "feed st b =
    (let (v, n) = st in
     if n > 0 then
       (if drop_bit 6 b \<noteq> 2 then None
        else Some (if n = 1 then [add_byte v b] else [], add_byte v b, n - 1))
     else let n0 = first_lookup ! unat (drop_bit 4 b) - 1; w = ucast (b AND (push_bit (nat (7 - n0)) 1 - 1)) in
       if n0 < 0 then None else Some (if n0 = 0 then [w] else [], w, n0))"

fun feed_all :: "u32 \<times> int \<Rightarrow> u8 list \<Rightarrow> (u32 list \<times> u32 \<times> int) option" where
  "feed_all st [] = Some ([], st)"
| "feed_all st (b # bs) =
    (case feed st b of None \<Rightarrow> None
     | Some (o1, st1) \<Rightarrow> (case feed_all st1 bs of None \<Rightarrow> None | Some (o2, st2) \<Rightarrow> Some (o1 @ o2, st2)))"

lemma feed_all_append:
  "feed_all st (as @ bs) =
    (case feed_all st as of None \<Rightarrow> None
     | Some (o1, st1) \<Rightarrow> (case feed_all st1 bs of None \<Rightarrow> None | Some (o2, st2) \<Rightarrow> Some (o1 @ o2, st2)))"
  by (induction as arbitrary: st) (auto split: option.splits)

lemma feed_nonneg: "feed (v, n) b = Some (out, v', n') \<Longrightarrow> 0 \<le> n'"
  by (auto simp: feed_def Let_def split: if_splits)

lemma feed_all_nonneg: "feed_all (v, n) bs = Some (out, v', n') \<Longrightarrow> 0 \<le> n \<Longrightarrow> 0 \<le> n'"
proof (induction bs arbitrary: v n out)
  case (Cons b bs)
  then obtain o1 v1 n1 o2 where "feed (v, n) b = Some (o1, v1, n1)" "feed_all (v1, n1) bs = Some (o2, v', n')"
    by (auto split: option.splits)
  then show ?case using Cons(1) feed_nonneg by blast
qed simp

lemma take_bytes_feed:
  assumes "feed_all (v, n) bs = Some (out, st)" "0 < n"
  shows "\<exists>v1 n1 rest out'. take_bytes v n bs = (v1, n1, rest) \<and> continue_decode v n bs = Some (v1, n1, rest) \<and>
    feed_all (v1, n1) rest = Some (out', st) \<and> out = (if n1 = 0 then [v1] else []) @ out' \<and> 0 \<le> n1 \<and> (n1 = 0 \<or> rest = []) \<and>
    set rest \<subseteq> set bs"
  using assms
proof (induction v n bs arbitrary: out rule: take_bytes.induct)
  case (1 v n)
  then show ?case by auto
next
  case (2 v n b bs)
  obtain o1 v1 n1 where f: "feed (v, n) b = Some (o1, v1, n1)"
    using 2(2) by (auto split: option.splits)
  have s: "drop_bit 6 b = 2" "v1 = add_byte v b" "n1 = n - 1" "o1 = (if n = 1 then [v1] else [])"
    using f 2(3) by (auto simp: feed_def split: if_splits)
  obtain o2 where r: "feed_all (v1, n1) bs = Some (o2, st)" "out = o1 @ o2"
    using 2(2) f by (auto split: option.splits)
  show ?case
  proof (cases "n = 1")
    case True
    then have "take_bytes v n (b # bs) = (v1, 0, bs)" "continue_decode v n (b # bs) = Some (v1, 0, bs)"
      using s by (cases bs; simp)+
    then show ?thesis using r s True by auto
  next
    case False
    with 2(3) s have "0 < n - 1" by simp
    moreover have "feed_all (add_byte v b, n - 1) bs = Some (o2, st)" using r(1) s by simp
    ultimately obtain v2 n2 rest out' where ih: "take_bytes (add_byte v b) (n - 1) bs = (v2, n2, rest)"
        "continue_decode (add_byte v b) (n - 1) bs = Some (v2, n2, rest)" "feed_all (v2, n2) rest = Some (out', st)"
        "o2 = (if n2 = 0 then [v2] else []) @ out'" "0 \<le> n2" "n2 = 0 \<or> rest = []" "set rest \<subseteq> set bs"
      using 2(1) [OF 2(3), of o2] by blast
    show ?thesis
      by (rule exI [of _ v2], rule exI [of _ n2], rule exI [of _ rest], rule exI [of _ out'])
        (use ih r s False 2(3) in auto)
  qed
qed

lemma decode_loop_feed:
  "feed_all (v, n) bs = Some (out, v', n') \<Longrightarrow> n = 0 \<or> bs = [] \<Longrightarrow>
    decode_loop cps v n bs = (cps @ out @ [0], \<lparr> pu_value = v', pu_n_remain = n' \<rparr>)"
proof (induction bs arbitrary: cps v n out rule: length_induct)
  case (1 xs)
  show ?case
  proof (cases xs)
    case Nil
    then show ?thesis using 1(2) by simp
  next
    case (Cons b bs)
    define n0 where "n0 = first_lookup ! unat (drop_bit 4 b) - 1"
    define w :: u32 where "w = ucast (b AND (push_bit (nat (7 - n0)) 1 - 1))"
    have n: "n = 0" using 1(3) Cons by simp
    obtain o2 where f: "0 \<le> n0" "feed_all (w, n0) bs = Some (o2, v', n')" "out = (if n0 = 0 then [w] else []) @ o2"
      using 1(2) n Cons by (auto simp: feed_def Let_def n0_def w_def split: option.splits if_splits)
    obtain v1 n1 rest out' where t: "take_bytes w n0 bs = (v1, n1, rest)" "feed_all (v1, n1) rest = Some (out', v', n')"
        "out = (if n1 = 0 then [v1] else []) @ out'" "n1 = 0 \<or> rest = []"
    proof (cases "n0 = 0")
      case True
      then have "take_bytes w n0 bs = (w, 0, bs)" by (cases bs) auto
      then show ?thesis using that f True by auto
    next
      case False
      then have "0 < n0" using f(1) by simp
      then show ?thesis using take_bytes_feed [OF f(2)] f(3) that by auto
    qed
    have "length rest < length xs" using take_bytes_shrinks [of w n0 bs] t(1) Cons by simp
    then have "decode_loop (if n1 = 0 then cps @ [v1] else cps) v1 n1 rest =
        ((if n1 = 0 then cps @ [v1] else cps) @ out' @ [0], \<lparr> pu_value = v', pu_n_remain = n' \<rparr>)"
      using 1(1) t(2,4) by blast
    then show ?thesis using t(1,3) f(1) Cons by (auto simp: Let_def simp flip: n0_def w_def)
  qed
qed

lemma decode_utf8_feed:
  assumes "feed_all (v, n) bs = Some (out, v', n')" "0 \<le> n" "0 \<notin> set bs"
  shows "decode_utf8 bs \<lparr> pu_value = v, pu_n_remain = n \<rparr> = (out @ [0], \<lparr> pu_value = v', pu_n_remain = n' \<rparr>)"
proof -
  have c: "c_str bs = bs" using assms(3) by (auto simp: c_str_def takeWhile_eq_all_conv)
  show ?thesis
  proof (cases "n = 0")
    case True
    then have "continue_decode v n bs = Some (v, n, bs)" by (cases bs) auto
    then show ?thesis using decode_loop_feed [OF assms(1), of "[]"] True c by (simp add: decode_utf8_def)
  next
    case False
    then obtain v1 n1 rest out' where "continue_decode v n bs = Some (v1, n1, rest)"
        "feed_all (v1, n1) rest = Some (out', v', n')" "out = (if n1 = 0 then [v1] else []) @ out'" "n1 = 0 \<or> rest = []"
      using take_bytes_feed [OF assms(1)] assms(2) by auto
    then show ?thesis using False assms(2) c by (auto simp: decode_utf8_def decode_loop_feed)
  qed
qed

lemma add_cont: "add_byte (drop_bit 6 x) (cont_byte x) = x" "add_byte (drop_bit 12 c) (cont_byte (drop_bit 6 c)) = drop_bit 6 c"
    "add_byte (drop_bit 18 c) (cont_byte (drop_bit 12 c)) = drop_bit 12 c"
proof -
  have *: "add_byte (drop_bit 6 x) (cont_byte x) = x" for x
    using join_bits [of 6 x] by (simp add: add_byte_def cont_byte_bits(4) and_masks(1))
  show "add_byte (drop_bit 6 x) (cont_byte x) = x" "add_byte (drop_bit 12 c) (cont_byte (drop_bit 6 c)) = drop_bit 6 c"
      "add_byte (drop_bit 18 c) (cont_byte (drop_bit 12 c)) = drop_bit 12 c"
    using * [of x] * [of "drop_bit 6 c"] * [of "drop_bit 12 c"] by simp_all
qed

lemma feed_cont:
  "feed (v, 1) (cont_byte x) = Some ([add_byte v (cont_byte x)], add_byte v (cont_byte x), 0)"
  "n > 1 \<Longrightarrow> feed (v, n) (cont_byte x) = Some ([], add_byte v (cont_byte x), n - 1)"
  by (simp_all add: feed_def cont_byte_bits)

lemma feed_lead:
  "feed (v, 0) (0xC0 OR take_bit 5 y) = Some ([], ucast (take_bit 5 y), 1)"
  "feed (v, 0) (0xE0 OR take_bit 4 y) = Some ([], ucast (take_bit 4 y), 2)"
  "feed (v, 0) (0xF0 OR take_bit 3 y) = Some ([], ucast (take_bit 3 y), 3)"
proof -
  have "drop_bit 4 (take_bit 5 y) = (take_bit 1 (drop_bit 4 y) :: u8)" by (simp add: drop_bit_take_bit)
  then have "drop_bit 4 (0xC0 OR take_bit 5 y) = 12 \<or> drop_bit 4 (0xC0 OR take_bit 5 y) = (13 :: u8)"
    by (cases "odd (drop_bit 4 y)") (simp_all add: drop_bit_or mod_2_eq_odd)
  moreover have "(0xC0 OR take_bit 5 y) AND 0x3F = (take_bit 5 y :: u8)" by (simp add: and_masks take_bit_or)
  ultimately show "feed (v, 0) (0xC0 OR take_bit 5 y) = Some ([], ucast (take_bit 5 y), 1)"
    by (auto simp: feed_def first_lookup_def Let_def push_bit_of_1)
next
  have "drop_bit 4 (0xE0 OR take_bit 4 y) = (14 :: u8)" by (simp add: drop_bit_or drop_bit_take_bit)
  then show "feed (v, 0) (0xE0 OR take_bit 4 y) = Some ([], ucast (take_bit 4 y), 2)"
    by (simp add: feed_def first_lookup_def Let_def push_bit_of_1 and_masks take_bit_or)
next
  have "drop_bit 4 (0xF0 OR take_bit 3 y) = (15 :: u8)" by (simp add: drop_bit_or drop_bit_take_bit)
  then show "feed (v, 0) (0xF0 OR take_bit 3 y) = Some ([], ucast (take_bit 3 y), 3)"
    by (simp add: feed_def first_lookup_def Let_def push_bit_of_1 and_masks take_bit_or)
qed

lemma lookup_ascii: "i < 8 \<Longrightarrow> first_lookup ! i = 1"
  by (auto simp: first_lookup_def less_Suc_eq numeral_eq_Suc)

lemma feed_encoded:
  assumes "unicode_cpt_to_utf8 c = Some bs"
  shows "feed_all (v, 0) bs = Some ([c], c, 0)"
proof -
  consider "c \<le> 0x7F" "bs = [ucast c]"
    | "uint c < 2 ^ 11" "bs = [0xC0 OR take_bit 5 (ucast (drop_bit 6 c)), cont_byte c]"
    | "uint c < 2 ^ 16" "bs = [0xE0 OR take_bit 4 (ucast (drop_bit 12 c)), cont_byte (drop_bit 6 c), cont_byte c]"
    | "uint c < 2 ^ 21" "bs = [0xF0 OR take_bit 3 (ucast (drop_bit 18 c)), cont_byte (drop_bit 12 c), cont_byte (drop_bit 6 c), cont_byte c]"
    using encode_cases [OF assms] by blast
  then show ?thesis
  proof cases
    case 1
    then show ?thesis by (simp add: feed_def lookup_ascii ascii_byte Let_def push_bit_of_1)
  next
    case 2
    have d: "take_bit 5 (drop_bit 6 c) = drop_bit 6 c" using 2(1) by (intro drop_small) simp
    show ?thesis using 2(2) d by (simp add: feed_lead feed_cont ucast_take_bit add_cont)
  next
    case 3
    have d: "take_bit 4 (drop_bit 12 c) = drop_bit 12 c" using 3(1) by (intro drop_small) simp
    show ?thesis using 3(2) d by (simp add: feed_lead feed_cont ucast_take_bit add_cont)
  next
    case 4
    have d: "take_bit 3 (drop_bit 18 c) = drop_bit 18 c" using 4(1) by (intro drop_small) simp
    show ?thesis using 4(2) d by (simp add: feed_lead feed_cont ucast_take_bit add_cont)
  qed
qed

lemma encoded_nonzero:
  assumes "unicode_cpt_to_utf8 c = Some bs" "c \<noteq> 0"
  shows "0 \<notin> set bs"
proof -
  have h: "(0xC0 :: u8) OR take_bit 5 y \<noteq> 0" "(0xE0 :: u8) OR take_bit 4 y \<noteq> 0" "(0xF0 :: u8) OR take_bit 3 y \<noteq> 0" for y
    using head_and [of "0xC0" 5 y 4] head_and [of "0xE0" 4 y 8] head_and [of "0xF0" 3 y 16] by (auto simp: push_bit_of_1)
  consider "c \<le> 0x7F" "bs = [ucast c]"
    | "bs = [0xC0 OR take_bit 5 (ucast (drop_bit 6 c)), cont_byte c]"
    | "bs = [0xE0 OR take_bit 4 (ucast (drop_bit 12 c)), cont_byte (drop_bit 6 c), cont_byte c]"
    | "bs = [0xF0 OR take_bit 3 (ucast (drop_bit 18 c)), cont_byte (drop_bit 12 c), cont_byte (drop_bit 6 c), cont_byte c]"
    using encode_cases [OF assms(1)] by blast
  then show ?thesis
  proof cases
    case 1
    then have "(ucast c :: u8) \<noteq> 0" using ascii_byte(1) [OF 1(1)] assms(2) by auto
    then show ?thesis using 1 by simp
  qed (use h [THEN not_sym] cont_byte_bits(3) [THEN not_sym] in simp_all)
qed

section \<open>A character stream cut into pieces\<close>

definition start_utf8 :: partial_utf8 where
  "start_utf8 = \<lparr> pu_value = 0, pu_n_remain = 0 \<rparr>"

text \<open>The pieces of successive tokens, decoded as \<open>llama_grammar_accept_str\<close> does: the last code point of each
  result is the terminating zero.\<close>

fun decode_pieces :: "u8 list list \<Rightarrow> partial_utf8 \<Rightarrow> u32 list \<times> partial_utf8" where
  "decode_pieces [] pu = ([], pu)"
| "decode_pieces (p # ps) pu =
    (let (cps, pu1) = decode_utf8 p pu; (rest, pu2) = decode_pieces ps pu1 in (butlast cps @ rest, pu2))"

lemma decode_pieces_feed:
  assumes "feed_all (v, n) (concat ps) = Some (out, v', n')" "0 \<le> n" "0 \<notin> set (concat ps)"
  shows "decode_pieces ps \<lparr> pu_value = v, pu_n_remain = n \<rparr> = (out, \<lparr> pu_value = v', pu_n_remain = n' \<rparr>)"
  using assms
proof (induction ps arbitrary: v n out)
  case Nil
  then show ?case by simp
next
  case (Cons p ps)
  obtain o1 v1 n1 o2 where f: "feed_all (v, n) p = Some (o1, v1, n1)" "feed_all (v1, n1) (concat ps) = Some (o2, v', n')" "out = o1 @ o2"
    using Cons(2) by (auto simp: feed_all_append split: option.splits)
  have "0 \<le> n1" using feed_all_nonneg [OF f(1) Cons(3)] .
  then show ?case
    using decode_utf8_feed [OF f(1) Cons(3)] Cons(1) [OF f(2)] Cons(4) f(3) by auto
qed

lemma feed_encoded_all:
  "list_all2 (\<lambda>c bs. unicode_cpt_to_utf8 c = Some bs) cs bss \<Longrightarrow>
    \<exists>w. feed_all (v, 0) (concat bss) = Some (cs, w, 0)"
proof (induction cs bss arbitrary: v rule: list_all2_induct)
  case (Cons c cs bs bss)
  obtain w where "feed_all (c, 0) (concat bss) = Some (cs, w, 0)" using Cons(3) [of c] by blast
  then show ?case by (simp add: feed_all_append feed_encoded [OF Cons(1)])
qed simp

end
