(* ===== verification/Grammar_Model.thy ===== *)
theory Grammar_Model
  imports Utf8
begin

text \<open>
  The grammar automaton of \<^verbatim>\<open>src/src/llama-grammar.cpp\<close>: rules are arrays of elements, a pushdown stack is a
  list of positions in them (its head is the \<open>back()\<close> of the vector), and a grammar keeps the set of stacks that are
  possible after the text so far. A pointer to an element is the index of its rule and its index in the rule;
  \<open>None\<close> is a read past a rule, a failed assertion, an abort, or a loop that never ends.
\<close>

section \<open>Elements, rules, stacks\<close>

datatype gretype =
    GRE_END | GRE_ALT | GRE_RULE_REF | GRE_CHAR | GRE_CHAR_NOT | GRE_CHAR_RNG_UPPER | GRE_CHAR_ALT | GRE_CHAR_ANY
  | GRE_TOKEN | GRE_TOKEN_NOT

datatype gr_element = Elem (el_type: gretype) (el_value: u32)

type_synonym gr_rule = "gr_element list"
type_synonym gr_rules = "gr_rule list"
type_synonym gr_pos = "nat \<times> nat"
type_synonym gr_stack = "gr_pos list"

abbreviation next_pos :: "gr_pos \<Rightarrow> gr_pos" where
  "next_pos p \<equiv> (fst p, snd p + 1)"

text \<open>The elements from a position on.\<close>

definition rest_at :: "gr_rules \<Rightarrow> gr_pos \<Rightarrow> gr_element list" where
  "rest_at rules p = (if fst p < length rules then drop (snd p) (rules ! fst p) else [])"

definition elem_at :: "gr_rules \<Rightarrow> gr_pos \<Rightarrow> gr_element option" where
  "elem_at rules p = (case rest_at rules p of [] \<Rightarrow> None | e # _ \<Rightarrow> Some e)"

definition is_end :: "gr_element \<Rightarrow> bool" where
  "is_end e \<longleftrightarrow> el_type e = GRE_END \<or> el_type e = GRE_ALT"

definition is_end_of_sequence :: "gr_rules \<Rightarrow> gr_pos \<Rightarrow> bool option" where
  "is_end_of_sequence rules p = map_option is_end (elem_at rules p)"

text \<open>A stack with a position on top, unless the position ends its sequence.\<close>

definition push_unless_end :: "gr_rules \<Rightarrow> gr_pos \<Rightarrow> gr_stack \<Rightarrow> gr_stack option" where
  "push_unless_end rules p st = do { b \<leftarrow> is_end_of_sequence rules p; Some (if b then st else p # st) }"

section \<open>Matching\<close>

text \<open>The loop over the ranges of a character class: whether one of them has the character, and how many elements they take.\<close>

fun match_alts :: "gr_element list \<Rightarrow> u32 \<Rightarrow> bool \<Rightarrow> nat \<Rightarrow> (bool \<times> nat) option" where
  "match_alts (e # e1 # es) chr found n =
    (if el_type e1 = GRE_CHAR_RNG_UPPER then
       (case es of [] \<Rightarrow> None
        | e2 # _ \<Rightarrow>
          (if el_type e2 = GRE_CHAR_ALT then match_alts es chr (found \<or> (el_value e \<le> chr \<and> chr \<le> el_value e1)) (n + 2)
           else Some (found \<or> (el_value e \<le> chr \<and> chr \<le> el_value e1), n + 2)))
     else
       (let found' = (el_type e = GRE_CHAR_ANY \<or> found \<or> el_value e = chr) in
        if el_type e1 = GRE_CHAR_ALT then match_alts (e1 # es) chr found' (n + 1) else Some (found', n + 1)))"
| "match_alts _ _ _ _ = None"

definition is_positive :: "gr_element \<Rightarrow> bool" where
  "is_positive e \<longleftrightarrow> el_type e = GRE_CHAR \<or> el_type e = GRE_CHAR_ANY"

definition match_char :: "gr_rules \<Rightarrow> gr_pos \<Rightarrow> u32 \<Rightarrow> (bool \<times> gr_pos) option" where
  "match_char rules p chr = do {
     e \<leftarrow> elem_at rules p;
     assertion (is_positive e \<or> el_type e = GRE_CHAR_NOT);
     (found, n) \<leftarrow> match_alts (rest_at rules p) chr False 0;
     Some (found = is_positive e, (fst p, snd p + n)) }"

text \<open>The same loop for the code points a partial sequence can become.\<close>

fun partial_alts :: "gr_element list \<Rightarrow> u32 \<Rightarrow> u32 \<Rightarrow> bool \<Rightarrow> bool option" where
  "partial_alts (e # e1 # es) low high positive =
    (if el_type e1 = GRE_CHAR_RNG_UPPER then
       (if el_value e \<le> high \<and> low \<le> el_value e1 then Some positive
        else (case es of [] \<Rightarrow> None
          | e2 # _ \<Rightarrow> if el_type e2 = GRE_CHAR_ALT then partial_alts es low high positive else Some (\<not> positive)))
     else if el_type e = GRE_CHAR_ANY then Some True
     else if low \<le> el_value e \<and> el_value e \<le> high then Some positive
     else if el_type e1 = GRE_CHAR_ALT then partial_alts (e1 # es) low high positive else Some (\<not> positive))"
| "partial_alts _ _ _ _ = None"

definition partial_high :: "partial_utf8 \<Rightarrow> u32" where
  "partial_high pu = push_bit (nat (pu_n_remain pu * 6)) (pu_value pu) OR (push_bit (nat (pu_n_remain pu * 6)) 1 - 1)"

definition partial_low :: "partial_utf8 \<Rightarrow> u32" where
  "partial_low pu =
    (let low = push_bit (nat (pu_n_remain pu * 6)) (pu_value pu) in
     if low = 0 \<and> pu_n_remain pu = 2 then push_bit 11 1
     else if low = 0 \<and> pu_n_remain pu = 3 then push_bit 16 1 else low)"

definition match_partial_char :: "gr_rules \<Rightarrow> gr_pos \<Rightarrow> partial_utf8 \<Rightarrow> bool option" where
  "match_partial_char rules p pu = do {
     e \<leftarrow> elem_at rules p;
     assertion (is_positive e \<or> el_type e = GRE_CHAR_NOT);
     if pu_n_remain pu < 0 \<or> (pu_n_remain pu = 1 \<and> pu_value pu < 2) then Some False
     else partial_alts (rest_at rules p) (partial_low pu) (partial_high pu) (is_positive e) }"

definition is_token :: "gr_element \<Rightarrow> bool" where
  "is_token e \<longleftrightarrow> el_type e = GRE_TOKEN \<or> el_type e = GRE_TOKEN_NOT"

definition match_token :: "gr_element \<Rightarrow> int \<Rightarrow> bool" where
  "match_token e token = (if el_type e = GRE_TOKEN then el_value e = word_of_int token else el_value e \<noteq> word_of_int token)"

section \<open>Advancing a stack\<close>

text \<open>The indices at which the alternates of a rule begin: \<open>s\<close> is where the current one began, \<open>i\<close> the scan.\<close>

fun alts_from :: "gr_element list \<Rightarrow> nat \<Rightarrow> nat \<Rightarrow> nat list option" where
  "alts_from [] s i = None"
| "alts_from (e # es) s i =
    (if el_type e = GRE_ALT then map_option ((#) s) (alts_from es (i + 1) (i + 1))
     else if el_type e = GRE_END then Some [s] else alts_from es s (i + 1))"

definition alternates :: "gr_rules \<Rightarrow> nat \<Rightarrow> gr_pos list option" where
  "alternates rules r =
    (if r < length rules then map_option (map (Pair r)) (alts_from (rules ! r) 0 0) else None)"

text \<open>The stacks that replace one with a reference to a rule on top.\<close>

definition expand_ref :: "gr_rules \<Rightarrow> gr_pos \<Rightarrow> gr_element \<Rightarrow> gr_stack \<Rightarrow> gr_stack list option" where
  "expand_ref rules p e st = do {
     starts \<leftarrow> alternates rules (unat (el_value e));
     foldM (\<lambda>a acc. do {
       st1 \<leftarrow> push_unless_end rules (next_pos p) st;
       st2 \<leftarrow> push_unless_end rules a st1;
       Some (acc @ [st2]) }) starts [] }"

definition add_new :: "gr_stack list \<Rightarrow> gr_stack \<Rightarrow> gr_stack list" where
  "add_new new st = (if st \<in> set new then new else new @ [st])"

text \<open>The head of \<open>todo\<close> is the back of the vector.\<close>

partial_function (option) advance_loop ::
    "gr_rules \<Rightarrow> gr_stack list \<Rightarrow> gr_stack set \<Rightarrow> gr_stack list \<Rightarrow> gr_stack list option" where
  "advance_loop rules todo seen new =
    (case todo of [] \<Rightarrow> Some new
     | st # rest \<Rightarrow>
       if st \<in> seen then advance_loop rules rest seen new
       else (case st of [] \<Rightarrow> advance_loop rules rest (insert st seen) (add_new new st)
        | p # below \<Rightarrow> (case elem_at rules p of None \<Rightarrow> None
          | Some e \<Rightarrow>
            if el_type e = GRE_RULE_REF then
              (case expand_ref rules p e below of None \<Rightarrow> None
               | Some nexts \<Rightarrow> advance_loop rules (rev nexts @ rest) (insert st seen) new)
            else if is_positive e \<or> el_type e = GRE_CHAR_NOT \<or> is_token e then
              advance_loop rules rest (insert st seen) (add_new new st)
            else None)))"

definition advance_stack :: "gr_rules \<Rightarrow> gr_stack \<Rightarrow> gr_stack list \<Rightarrow> gr_stack list option" where
  "advance_stack rules st new = advance_loop rules [st] {} new"

section \<open>Accepting text\<close>

record grammar =
  g_rules :: gr_rules
  g_stacks :: "gr_stack list"
  g_partial :: partial_utf8

definition accept_chr :: "gr_rules \<Rightarrow> gr_stack \<Rightarrow> u32 \<Rightarrow> gr_stack list \<Rightarrow> gr_stack list option" where
  "accept_chr rules st chr new =
    (case st of [] \<Rightarrow> Some new
     | p # below \<Rightarrow> do {
       e \<leftarrow> elem_at rules p;
       if is_token e then Some new
       else do {
         (ok, p') \<leftarrow> match_char rules p chr;
         if ok then do { st' \<leftarrow> push_unless_end rules p' below; advance_stack rules st' new }
         else Some new } })"

definition accept_stacks :: "gr_rules \<Rightarrow> u32 \<Rightarrow> gr_stack list \<Rightarrow> gr_stack list option" where
  "accept_stacks rules chr stacks = foldM (\<lambda>st new. accept_chr rules st chr new) stacks []"

definition grammar_accept :: "grammar \<Rightarrow> u32 \<Rightarrow> grammar option" where
  "grammar_accept g chr = do {
     stacks \<leftarrow> accept_stacks (g_rules g) chr (g_stacks g);
     Some (g\<lparr> g_stacks := stacks \<rparr>) }"

text \<open>\<open>Inl\<close> is the exception \<open>runtime_error\<close> and the state it leaves behind.\<close>

definition check_stacks :: "grammar \<Rightarrow> grammar + grammar" where
  "check_stacks g = (if g_stacks g = [] then Inl g else Inr g)"

definition accept_str :: "grammar \<Rightarrow> u8 list \<Rightarrow> (grammar + grammar) option" where
  "accept_str g piece = do {
     let (cps, pu) = decode_utf8 piece (g_partial g);
     g1 \<leftarrow> foldM (\<lambda>chr g. grammar_accept g chr) (butlast cps) g;
     Some (check_stacks (g1\<lparr> g_partial := pu \<rparr>)) }"

text \<open>The characters of a token from one stack on: the loop leaves as soon as no stack is left.\<close>

fun accept_points :: "gr_rules \<Rightarrow> u32 list \<Rightarrow> gr_stack list \<Rightarrow> gr_stack list option" where
  "accept_points rules [] stacks = Some stacks"
| "accept_points rules (c # cs) stacks = do {
     nxt \<leftarrow> accept_stacks rules c stacks;
     if nxt = [] then Some [] else accept_points rules cs nxt }"

definition accept_token_stack :: "gr_rules \<Rightarrow> int \<Rightarrow> u32 list \<Rightarrow> gr_stack \<Rightarrow> gr_stack list \<Rightarrow> gr_stack list option" where
  "accept_token_stack rules token cps st new =
    (case st of [] \<Rightarrow> Some new
     | p # below \<Rightarrow> do {
       e \<leftarrow> elem_at rules p;
       if is_token e then
         (if match_token e token then do {
            st' \<leftarrow> push_unless_end rules (next_pos p) below;
            advance_stack rules st' new }
          else Some new)
       else do {
         survivors \<leftarrow> accept_points rules cps [st];
         Some (foldl add_new new survivors) } })"

definition accept_token :: "grammar \<Rightarrow> int \<Rightarrow> u8 list \<Rightarrow> (grammar + grammar) option" where
  "accept_token g token piece = do {
     let (cps, pu) = decode_utf8 piece (g_partial g);
     stacks \<leftarrow> foldM (\<lambda>st new. accept_token_stack (g_rules g) token (butlast cps) st new) (g_stacks g) [];
     Some (check_stacks (g\<lparr> g_stacks := stacks, g_partial := pu \<rparr>)) }"

end
