(* ===== verification/Grammar_Mask.thy ===== *)
theory Grammar_Mask
  imports Grammar_Model
begin

text \<open>
  The rest of the grammar automaton: the tokens the grammar forbids next (\<open>llama_grammar_apply_impl\<close>), tokens accepted
  one after the other with the trigger of a lazy grammar (\<open>llama_grammar_accept_impl\<close>), and the construction of a grammar
  from its rules with the check for left recursion (\<open>llama_grammar_init_impl\<close>).
\<close>

section \<open>Rejecting candidates\<close>

text \<open>A candidate: its index, the code points of its token with their terminating zero and how many of them were matched.\<close>

record candidate =
  cd_index :: nat
  cd_points :: "u32 list"
  cd_off :: nat
  cd_partial :: partial_utf8
  cd_id :: int

definition cd_point :: "candidate \<Rightarrow> u32 option" where
  "cd_point tok = (if cd_off tok < length (cd_points tok) then Some (cd_points tok ! cd_off tok) else None)"

fun filter_opt :: "('a \<Rightarrow> bool option) \<Rightarrow> 'a list \<Rightarrow> 'a list option" where
  "filter_opt f [] = Some []"
| "filter_opt f (x # xs) = do { b \<leftarrow> f x; ys \<leftarrow> filter_opt f xs; Some (if b then x # ys else ys) }"

definition reject_at_end :: "candidate \<Rightarrow> bool option" where
  "reject_at_end tok = do { c \<leftarrow> cd_point tok; Some (c \<noteq> 0 \<or> pu_n_remain (cd_partial tok) \<noteq> 0) }"

definition reject_at_token :: "gr_element \<Rightarrow> candidate \<Rightarrow> bool option" where
  "reject_at_token e tok = do {
     c \<leftarrow> cd_point tok;
     Some (if c = 0 then pu_n_remain (cd_partial tok) \<noteq> 0 else \<not> match_token e (cd_id tok)) }"

text \<open>One candidate at a character class: rejected, kept for the next position, or neither.\<close>

definition sort_candidate ::
    "gr_rules \<Rightarrow> gr_pos \<Rightarrow> candidate \<Rightarrow> candidate list \<times> candidate list \<Rightarrow> (candidate list \<times> candidate list) option" where
  "sort_candidate rules p tok acc = do {
     let (rejects, nexts) = acc;
     c \<leftarrow> cd_point tok;
     if c = 0 then
       (if pu_n_remain (cd_partial tok) \<noteq> 0 then do {
          m \<leftarrow> match_partial_char rules p (cd_partial tok);
          Some (if m then rejects else rejects @ [tok], nexts) }
        else Some (rejects, nexts))
     else do {
       (ok, _) \<leftarrow> match_char rules p c;
       Some (if ok then (rejects, nexts @ [tok\<lparr> cd_off := cd_off tok + 1 \<rparr>]) else (rejects @ [tok], nexts)) } }"

definition reject_for_stack ::
    "(gr_stack list \<Rightarrow> candidate list \<Rightarrow> candidate list option) \<Rightarrow> gr_rules \<Rightarrow> gr_stack \<Rightarrow> candidate list \<Rightarrow> candidate list option" where
  "reject_for_stack rec rules st cands =
    (case st of [] \<Rightarrow> filter_opt reject_at_end cands
     | p # below \<Rightarrow> do {
       e \<leftarrow> elem_at rules p;
       if is_token e then filter_opt (reject_at_token e) cands
       else do {
         (rejects, nexts) \<leftarrow> foldM (sort_candidate rules p) cands ([], []);
         (_, p') \<leftarrow> match_char rules p 0;
         st' \<leftarrow> push_unless_end rules p' below;
         next_stacks \<leftarrow> advance_stack rules st' [];
         next_rejects \<leftarrow> rec next_stacks nexts;
         Some (rejects @ map (\<lambda>tok. tok\<lparr> cd_off := cd_off tok - 1 \<rparr>) next_rejects) } })"

text \<open>The recursion is as deep as the longest candidate; the first argument bounds it.\<close>

fun reject_candidates :: "nat \<Rightarrow> gr_rules \<Rightarrow> gr_stack list \<Rightarrow> candidate list \<Rightarrow> candidate list option" where
  "reject_candidates 0 rules stacks cands = None"
| "reject_candidates (Suc n) rules stacks cands = do {
     assertion (stacks \<noteq> []);
     if cands = [] then Some []
     else foldM (reject_for_stack (reject_candidates n rules) rules) stacks cands }"

section \<open>Masking the scores of tokens\<close>

text \<open>The vocabulary is a parameter: the bytes of a token and whether it ends the generation.\<close>

record vocab =
  token_to_piece :: "int \<Rightarrow> u8 list"
  is_eog :: "int \<Rightarrow> bool"

text \<open>One token of the array, at index \<open>i\<close>: masked at once, or a candidate.\<close>

definition classify_token :: "vocab \<Rightarrow> grammar \<Rightarrow> nat \<Rightarrow> int \<Rightarrow> nat list \<times> candidate list \<Rightarrow> nat list \<times> candidate list" where
  "classify_token v g i token acc =
    (let (masked, cands) = acc; piece = token_to_piece v token in
     if is_eog v token then (if [] \<in> set (g_stacks g) then masked else masked @ [i], cands)
     else if piece = [] \<or> hd piece = 0 then (masked @ [i], cands)
     else let (cps, pu) = decode_utf8 piece (g_partial g) in
       (masked, cands @ [\<lparr> cd_index = i, cd_points = cps, cd_off = 0, cd_partial = pu, cd_id = token \<rparr>]))"

definition longest_candidate :: "candidate list \<Rightarrow> nat" where
  "longest_candidate cands = foldr (\<lambda>tok n. max (length (cd_points tok)) n) cands 0"

text \<open>The indices whose score becomes minus infinity.\<close>

definition masked_tokens :: "vocab \<Rightarrow> grammar \<Rightarrow> int list \<Rightarrow> nat list option" where
  "masked_tokens v g tokens = do {
     let (masked, cands) = fold (\<lambda>(i, token). classify_token v g i token) (enumerate 0 tokens) ([], []);
     rejects \<leftarrow> reject_candidates (longest_candidate cands + 1) (g_rules g) (g_stacks g) cands;
     Some (masked @ map cd_index rejects) }"

section \<open>Lazy grammars\<close>

text \<open>
  The whole grammar object; the regular expressions of the triggers are a parameter that says where in the buffer
  the constrained text begins.
\<close>

record lazy_grammar =
  lg_grammar :: grammar
  lg_awaiting :: bool
  lg_buffer :: "u8 list"
  lg_positions :: "(int \<times> nat \<times> nat) list"
  lg_tokens :: "int list"
  lg_patterns :: "(u8 list \<Rightarrow> nat option) list"

text \<open>The first pattern that is found in the buffer.\<close>

fun first_trigger :: "(u8 list \<Rightarrow> nat option) list \<Rightarrow> u8 list \<Rightarrow> nat option" where
  "first_trigger [] buffer = None"
| "first_trigger (f # fs) buffer = (case f buffer of Some s \<Rightarrow> Some s | None \<Rightarrow> first_trigger fs buffer)"

text \<open>The buffered tokens again, as far as they reach past the start; an exception stops the loop.\<close>

fun replay :: "u8 list \<Rightarrow> nat \<Rightarrow> (int \<times> nat \<times> nat) list \<Rightarrow> grammar \<Rightarrow> (grammar + grammar) option" where
  "replay buffer start [] g = Some (Inr g)"
| "replay buffer start ((token, b, e) # ps) g =
    (if e \<le> start then replay buffer start ps g
     else do {
       let b' = (if b < start then start else b);
       res \<leftarrow> accept_token g token (take (e - b') (drop b' buffer));
       case res of Inl g' \<Rightarrow> Some (Inl g') | Inr g' \<Rightarrow> replay buffer start ps g' })"

definition lift_result :: "lazy_grammar \<Rightarrow> grammar + grammar \<Rightarrow> lazy_grammar + lazy_grammar" where
  "lift_result lg res = (case res of Inl g \<Rightarrow> Inl (lg\<lparr> lg_grammar := g \<rparr>) | Inr g \<Rightarrow> Inr (lg\<lparr> lg_grammar := g \<rparr>))"

definition accept_awaiting :: "lazy_grammar \<Rightarrow> int \<Rightarrow> u8 list \<Rightarrow> (lazy_grammar + lazy_grammar) option" where
  "accept_awaiting lg token piece =
    (if token \<in> set (lg_tokens lg) then do {
       let lg1 = lg\<lparr> lg_awaiting := False, lg_buffer := [] \<rparr>;
       res \<leftarrow> accept_token (lg_grammar lg1) token piece;
       Some (lift_result lg1 res) }
     else do {
       let position = (length (lg_buffer lg), length (lg_buffer lg) + length piece);
       let lg1 = lg\<lparr> lg_positions := lg_positions lg @ [(token, position)], lg_buffer := lg_buffer lg @ piece \<rparr>;
       case first_trigger (lg_patterns lg) (lg_buffer lg1) of None \<Rightarrow> Some (Inr lg1)
       | Some start \<Rightarrow> do {
           let lg2 = lg1\<lparr> lg_awaiting := False \<rparr>;
           res \<leftarrow> replay (lg_buffer lg2) start (lg_positions lg2) (lg_grammar lg2);
           case res of Inl g \<Rightarrow> Some (Inl (lg2\<lparr> lg_grammar := g \<rparr>))
           | Inr g \<Rightarrow> Some (Inr (lg2\<lparr> lg_grammar := g, lg_buffer := [], lg_positions := [] \<rparr>)) } })"

definition accept_impl :: "vocab \<Rightarrow> lazy_grammar \<Rightarrow> int \<Rightarrow> (lazy_grammar + lazy_grammar) option" where
  "accept_impl v lg token = do {
     let piece = token_to_piece v token;
     if lg_awaiting lg then accept_awaiting lg token piece
     else if is_eog v token then (if [] \<in> set (g_stacks (lg_grammar lg)) then Some (Inr lg) else None)
     else do {
       res \<leftarrow> accept_token (lg_grammar lg) token piece;
       Some (lift_result lg res) } }"

text \<open>A lazy grammar masks nothing until it is triggered.\<close>

definition apply_impl :: "vocab \<Rightarrow> lazy_grammar \<Rightarrow> int list \<Rightarrow> nat list option" where
  "apply_impl v lg tokens = (if lg_awaiting lg then Some [] else masked_tokens v (lg_grammar lg) tokens)"

section \<open>Left recursion\<close>

record detection =
  dt_visited :: "bool list"
  dt_in_progress :: "bool list"
  dt_may_be_empty :: "bool list"

text \<open>Whether an alternate of the rule is empty; the flag says that nothing of the current one was seen.\<close>

fun has_empty_alternate :: "bool \<Rightarrow> gr_element list \<Rightarrow> bool" where
  "has_empty_alternate at_start [] = False"
| "has_empty_alternate at_start (e # es) =
    (if is_end e then at_start \<or> has_empty_alternate True es else has_empty_alternate False es)"

text \<open>The loop over the elements of a rule; the flag says whether a reference here can be leftmost.\<close>

fun detect_elems ::
    "(nat \<Rightarrow> detection \<Rightarrow> (bool \<times> detection) option) \<Rightarrow> bool \<Rightarrow> gr_element list \<Rightarrow> detection \<Rightarrow> (bool \<times> detection) option" where
  "detect_elems rec recurse [] d = Some (False, d)"
| "detect_elems rec recurse (e # es) d =
    (if el_type e = GRE_RULE_REF \<and> recurse then do {
       (found, d1) \<leftarrow> rec (unat (el_value e)) d;
       if found then Some (True, d1)
       else do {
         assertion (unat (el_value e) < length (dt_may_be_empty d1));
         detect_elems rec (dt_may_be_empty d1 ! unat (el_value e)) es d1 } }
     else detect_elems rec (is_end e) es d)"

text \<open>The first argument bounds the depth of the recursion.\<close>

fun detect_left_recursion :: "nat \<Rightarrow> gr_rules \<Rightarrow> nat \<Rightarrow> detection \<Rightarrow> (bool \<times> detection) option" where
  "detect_left_recursion 0 rules r d = None"
| "detect_left_recursion (Suc n) rules r d = do {
     assertion (r < length rules);
     if dt_in_progress d ! r then Some (True, d)
     else do {
       let d1 = d\<lparr> dt_in_progress := (dt_in_progress d)[r := True] \<rparr>;
       let d2 = (if has_empty_alternate True (rules ! r)
                 then d1\<lparr> dt_may_be_empty := (dt_may_be_empty d1)[r := True] \<rparr> else d1);
       (found, d3) \<leftarrow> detect_elems (detect_left_recursion n rules) True (rules ! r) d2;
       if found then Some (True, d3)
       else Some (False, d3\<lparr> dt_in_progress := (dt_in_progress d3)[r := False], dt_visited := (dt_visited d3)[r := True] \<rparr>) } }"

fun detect_all :: "gr_rules \<Rightarrow> nat list \<Rightarrow> detection \<Rightarrow> bool option" where
  "detect_all rules [] d = Some False"
| "detect_all rules (i # js) d =
    (if dt_visited d ! i then detect_all rules js d
     else do {
       (found, d1) \<leftarrow> detect_left_recursion (length rules + 1) rules i d;
       if found then Some True else detect_all rules js d1 })"

definition new_detection :: "nat \<Rightarrow> detection" where
  "new_detection n = \<lparr> dt_visited = replicate n False, dt_in_progress = replicate n False, dt_may_be_empty = replicate n False \<rparr>"

section \<open>Constructing a grammar\<close>

text \<open>A rule is copied up to its first end.\<close>

definition copy_rule :: "gr_element list \<Rightarrow> gr_rule option" where
  "copy_rule els = do {
     assertion (\<exists>e\<in>set els. el_type e = GRE_END);
     Some (takeWhile (\<lambda>e. el_type e \<noteq> GRE_END) els @ [Elem GRE_END 0]) }"

fun copy_rules :: "gr_element list list \<Rightarrow> gr_rules option" where
  "copy_rules [] = Some []"
| "copy_rules (els # rest) = do { rule \<leftarrow> copy_rule els; rules \<leftarrow> copy_rules rest; Some (rule # rules) }"

definition refs_defined :: "gr_rules \<Rightarrow> bool" where
  "refs_defined rules \<longleftrightarrow>
    list_all (list_all (\<lambda>e. el_type e = GRE_RULE_REF \<longrightarrow>
      unat (el_value e) < length rules \<and> rules ! unat (el_value e) \<noteq> [])) rules"

text \<open>One stack for each alternate of the start rule.\<close>

definition start_stacks :: "gr_rules \<Rightarrow> nat \<Rightarrow> gr_stack list option" where
  "start_stacks rules r = do {
     starts \<leftarrow> alternates rules r;
     foldM (\<lambda>a new. do { st \<leftarrow> push_unless_end rules a []; advance_stack rules st new }) starts [] }"

text \<open>\<open>Some None\<close> is the null pointer of an invalid grammar.\<close>

definition grammar_init :: "gr_element list list \<Rightarrow> nat \<Rightarrow> grammar option option" where
  "grammar_init els start = do {
     rules \<leftarrow> copy_rules els;
     if \<not> refs_defined rules then Some None
     else do {
       found \<leftarrow> detect_all rules [0..<length rules] (new_detection (length rules));
       if found then Some None
       else do {
         stacks \<leftarrow> start_stacks rules start;
         Some (Some \<lparr> g_rules = rules, g_stacks = stacks, g_partial = start_utf8 \<rparr>) } } }"

end
