(* ===== verification/Grammar_Language.thy ===== *)
theory Grammar_Language
  imports Grammar_Mask
begin

text \<open>
  What a grammar means, apart from the automaton: context-free rules over characters and tokens, the words they
  derive, and how a rule is laid out in elements.
\<close>

section \<open>Context-free rules\<close>

text \<open>An item of an alternate: a reference, a character class (inverted or not) of single characters and ranges, any character,
  a token (inverted or not).\<close>

type_synonym char_range = "u32 \<times> u32 option"

datatype gr_item =
    Ref u32
  | Class bool char_range "char_range list"
  | AnyChar
  | Token bool u32

type_synonym cfg = "gr_item list list list"

fun in_range :: "u32 \<Rightarrow> char_range \<Rightarrow> bool" where
  "in_range c (lo, None) \<longleftrightarrow> c = lo"
| "in_range c (lo, Some hi) \<longleftrightarrow> lo \<le> c \<and> c \<le> hi"

fun item_char :: "gr_item \<Rightarrow> u32 \<Rightarrow> bool" where
  "item_char (Class neg r rs) c \<longleftrightarrow> (\<exists>x\<in>set (r # rs). in_range c x) \<noteq> neg"
| "item_char AnyChar c \<longleftrightarrow> True"
| "item_char _ c \<longleftrightarrow> False"

fun item_token :: "gr_item \<Rightarrow> int \<Rightarrow> bool" where
  "item_token (Token neg t) token \<longleftrightarrow> (t = word_of_int token) \<noteq> neg"
| "item_token _ token \<longleftrightarrow> False"

text \<open>The text is a word over characters and whole tokens.\<close>

datatype gr_symbol = Chr u32 | Tok int

fun item_symbol :: "gr_item \<Rightarrow> gr_symbol \<Rightarrow> bool" where
  "item_symbol it (Chr c) \<longleftrightarrow> item_char it c"
| "item_symbol it (Tok t) \<longleftrightarrow> item_token it t"

lemma item_symbol_Ref [simp]: "\<not> item_symbol (Ref r) x"
  by (cases x) auto

inductive derives :: "cfg \<Rightarrow> gr_item list \<Rightarrow> gr_symbol list \<Rightarrow> bool" for g where
  derives_Nil: "derives g [] []"
| derives_sym: "item_symbol it x \<Longrightarrow> derives g its w \<Longrightarrow> derives g (it # its) (x # w)"
| derives_Ref: "unat r < length g \<Longrightarrow> alt \<in> set (g ! unat r) \<Longrightarrow> derives g alt u \<Longrightarrow> derives g its v \<Longrightarrow> derives g (Ref r # its) (u @ v)"

inductive_cases derives_NilE: "derives g [] w"
inductive_cases derives_ConsE: "derives g (it # its) w"

text \<open>The language of a rule.\<close>

definition rule_derives :: "cfg \<Rightarrow> nat \<Rightarrow> gr_symbol list \<Rightarrow> bool" where
  "rule_derives g r w \<longleftrightarrow> r < length g \<and> (\<exists>alt\<in>set (g ! r). derives g alt w)"

section \<open>Elements of a rule\<close>

fun enc_range :: "gretype \<Rightarrow> char_range \<Rightarrow> gr_element list" where
  "enc_range t (lo, None) = [Elem t lo]"
| "enc_range t (lo, Some hi) = [Elem t lo, Elem GRE_CHAR_RNG_UPPER hi]"

fun enc_item :: "gr_item \<Rightarrow> gr_element list" where
  "enc_item (Ref r) = [Elem GRE_RULE_REF r]"
| "enc_item (Class neg r rs) =
    enc_range (if neg then GRE_CHAR_NOT else GRE_CHAR) r @ concat (map (enc_range GRE_CHAR_ALT) rs)"
| "enc_item AnyChar = [Elem GRE_CHAR_ANY 0]"
| "enc_item (Token neg t) = [Elem (if neg then GRE_TOKEN_NOT else GRE_TOKEN) t]"

abbreviation enc_items :: "gr_item list \<Rightarrow> gr_element list" where
  "enc_items its \<equiv> concat (map enc_item its)"

fun enc_rule :: "gr_item list list \<Rightarrow> gr_rule" where
  "enc_rule [] = [Elem GRE_END 0]"
| "enc_rule [alt] = enc_items alt @ [Elem GRE_END 0]"
| "enc_rule (alt # alts) = enc_items alt @ Elem GRE_ALT 0 # enc_rule alts"

text \<open>Items of the grammar, whose references are to its rules.\<close>

definition item_ok :: "cfg \<Rightarrow> gr_item \<Rightarrow> bool" where
  "item_ok g it \<longleftrightarrow> (\<exists>alts\<in>set g. \<exists>alt\<in>set alts. it \<in> set alt) \<and> (\<forall>r. it = Ref r \<longrightarrow> unat r < length g)"

definition refs_ok :: "cfg \<Rightarrow> gr_item list \<Rightarrow> bool" where
  "refs_ok g its \<longleftrightarrow> (\<forall>it\<in>set its. item_ok g it)"

definition encodes :: "gr_rules \<Rightarrow> cfg \<Rightarrow> bool" where
  "encodes rules g \<longleftrightarrow> rules = map enc_rule g \<and> (\<forall>alts\<in>set g. alts \<noteq> []) \<and>
    (\<forall>alts\<in>set g. \<forall>alt\<in>set alts. refs_ok g alt)"

section \<open>Derivations\<close>

lemma derives_append:
  "derives g (xs @ ys) w \<longleftrightarrow> (\<exists>u v. w = u @ v \<and> derives g xs u \<and> derives g ys v)"
proof
  show "derives g (xs @ ys) w \<Longrightarrow> \<exists>u v. w = u @ v \<and> derives g xs u \<and> derives g ys v"
  proof (induction xs arbitrary: w)
    case Nil
    then show ?case using derives_Nil by (intro exI [of _ "[]"] exI [of _ w]) auto
  next
    case (Cons it xs)
    from Cons(2) consider (sym) x w' where "item_symbol it x" "w = x # w'" "derives g (xs @ ys) w'"
      | (ref) r alt u v where "it = Ref r" "unat r < length g" "alt \<in> set (g ! unat r)" "derives g alt u" "w = u @ v" "derives g (xs @ ys) v"
      by (auto elim: derives_ConsE)
    then show ?case
    proof cases
      case sym
      then obtain u v where "w' = u @ v" "derives g xs u" "derives g ys v" using Cons(1) by blast
      then show ?thesis using sym derives_sym by (intro exI [of _ "x # u"] exI [of _ v]) auto
    next
      case ref
      then obtain u' v' where "v = u' @ v'" "derives g xs u'" "derives g ys v'" using Cons(1) by blast
      then show ?thesis using ref derives_Ref by (intro exI [of _ "u @ u'"] exI [of _ v']) auto
    qed
  qed
  show "\<exists>u v. w = u @ v \<and> derives g xs u \<and> derives g ys v \<Longrightarrow> derives g (xs @ ys) w"
  proof (elim exE conjE)
    fix u v assume "derives g xs u" "derives g ys v" "w = u @ v"
    then show "derives g (xs @ ys) w"
      by (induction arbitrary: w rule: derives.induct) (auto intro: derives.intros simp: derives_Ref)
  qed
qed

lemma derives_Ref_iff:
  "derives g (Ref r # its) w \<longleftrightarrow> unat r < length g \<and> (\<exists>alt\<in>set (g ! unat r). derives g (alt @ its) w)"
proof
  assume "derives g (Ref r # its) w"
  then show "unat r < length g \<and> (\<exists>alt\<in>set (g ! unat r). derives g (alt @ its) w)"
    by (elim derives_ConsE) (auto simp: derives_append)
qed (auto simp: derives_append intro: derives_Ref)

lemma derives_sym_iff:
  assumes "\<nexists>r. it = Ref r"
  shows "derives g (it # its) w \<longleftrightarrow> (\<exists>x w'. w = x # w' \<and> item_symbol it x \<and> derives g its w')"
  using assms by (auto elim: derives_ConsE intro: derives_sym)

lemma derives_Nil_iff [simp]: "derives g [] w \<longleftrightarrow> w = []"
  by (auto elim: derives_NilE intro: derives_Nil)

text \<open>A derivation that always expands the leftmost reference.\<close>

inductive leftmost :: "cfg \<Rightarrow> gr_item list \<Rightarrow> gr_symbol list \<Rightarrow> bool" for g where
  leftmost_Nil: "leftmost g [] []"
| leftmost_sym: "item_symbol it x \<Longrightarrow> leftmost g its w \<Longrightarrow> leftmost g (it # its) (x # w)"
| leftmost_Ref: "unat r < length g \<Longrightarrow> alt \<in> set (g ! unat r) \<Longrightarrow> leftmost g (alt @ its) w \<Longrightarrow> leftmost g (Ref r # its) w"

lemma leftmost_append: "leftmost g xs u \<Longrightarrow> leftmost g ys v \<Longrightarrow> leftmost g (xs @ ys) (u @ v)"
  by (induction rule: leftmost.induct) (auto intro: leftmost.intros)

lemma derives_leftmost: "derives g its w \<longleftrightarrow> leftmost g its w"
proof
  show "derives g its w \<Longrightarrow> leftmost g its w"
    by (induction rule: derives.induct) (auto intro: leftmost.intros leftmost_append)
  show "leftmost g its w \<Longrightarrow> derives g its w"
    by (induction rule: leftmost.induct) (auto intro: derives.intros simp: derives_Ref_iff)
qed

end
