(* ===== verification/Grammar_Positions.thy ===== *)
theory Grammar_Positions
  imports Grammar_Language
begin

text \<open>What the elements from a position on stand for: the items that are left of an alternate.\<close>

section \<open>The items at a position\<close>

definition at_items :: "gr_rules \<Rightarrow> gr_pos \<Rightarrow> gr_item list \<Rightarrow> bool" where
  "at_items rules p its \<longleftrightarrow> (\<exists>t es. rest_at rules p = enc_items its @ t # es \<and> is_end t)"

text \<open>No position on a stack is at an end.\<close>

definition stack_items :: "cfg \<Rightarrow> gr_rules \<Rightarrow> gr_stack \<Rightarrow> gr_item list list \<Rightarrow> bool" where
  "stack_items g rules st iss \<longleftrightarrow> list_all2 (\<lambda>p its. at_items rules p its \<and> refs_ok g its \<and> its \<noteq> []) st iss"

definition stack_derives :: "cfg \<Rightarrow> gr_rules \<Rightarrow> gr_stack \<Rightarrow> gr_symbol list \<Rightarrow> bool" where
  "stack_derives g rules st w \<longleftrightarrow> (\<exists>iss. stack_items g rules st iss \<and> derives g (concat iss) w)"

text \<open>An element that does not continue a character class.\<close>

definition fresh :: "gr_element \<Rightarrow> bool" where
  "fresh e \<longleftrightarrow> el_type e \<noteq> GRE_CHAR_RNG_UPPER \<and> el_type e \<noteq> GRE_CHAR_ALT"

lemma fresh_end: "is_end t \<Longrightarrow> fresh t"
  by (auto simp: is_end_def fresh_def)

lemma enc_range_Cons: "\<exists>es. enc_range t r = Elem t (fst r) # es"
  by (cases r; cases "snd r") auto

fun item_head :: "gr_item \<Rightarrow> gr_element" where
  "item_head (Ref r) = Elem GRE_RULE_REF r"
| "item_head (Class neg r rs) = Elem (if neg then GRE_CHAR_NOT else GRE_CHAR) (fst r)"
| "item_head AnyChar = Elem GRE_CHAR_ANY 0"
| "item_head (Token neg t) = Elem (if neg then GRE_TOKEN_NOT else GRE_TOKEN) t"

lemma enc_item_head: "\<exists>es. enc_item it = item_head it # es"
proof (cases it)
  case (Class neg r rs)
  then show ?thesis using enc_range_Cons [of "if neg then GRE_CHAR_NOT else GRE_CHAR" r] by auto
qed auto

lemma hd_enc_item [simp]: "hd (enc_item it) = item_head it"
  using enc_item_head [of it] by auto

lemma enc_item_not_Nil [simp]: "enc_item it \<noteq> []"
  using enc_item_head [of it] by auto

lemma enc_item_Cons: "\<exists>e es. enc_item it = e # es \<and> fresh e \<and> \<not> is_end e"
proof -
  have "fresh (item_head it)" "\<not> is_end (item_head it)" by (cases it; simp add: fresh_def is_end_def)+
  then show ?thesis using enc_item_head [of it] by blast
qed

lemma enc_items_fresh: "is_end t \<Longrightarrow> \<exists>e es'. enc_items its @ t # es = e # es' \<and> fresh e"
  using enc_item_Cons [of "hd its"] by (cases its) (auto simp: fresh_end)

lemma enc_ranges_unique:
  assumes "fresh x" "fresh x'"
    and "enc_range t r @ concat (map (enc_range GRE_CHAR_ALT) rs) @ x # xs =
      enc_range t r' @ concat (map (enc_range GRE_CHAR_ALT) rs') @ x' # xs'"
  shows "r = r' \<and> rs = rs' \<and> x # xs = x' # xs'"
  using assms(3)
proof (induction rs arbitrary: r r' rs' t)
  case Nil
  have "rs' = []" "r = r'" if "enc_range t r @ x # xs = enc_range t r' @ concat (map (enc_range GRE_CHAR_ALT) rs') @ x' # xs'"
    using that assms(1,2) enc_range_Cons [of GRE_CHAR_ALT "hd rs'"]
    by (cases r; cases r'; cases "snd r"; cases "snd r'"; cases rs'; auto simp: fresh_def)+
  then show ?case using Nil by auto
next
  case (Cons q rs)
  obtain es where q: "enc_range GRE_CHAR_ALT q = Elem GRE_CHAR_ALT (fst q) # es" using enc_range_Cons by blast
  show ?case
  proof (cases rs')
    case Nil
    then show ?thesis using Cons(2) assms(1,2) q
      by (cases r; cases r'; cases "snd r"; cases "snd r'") (auto simp: fresh_def)
  next
    case (Cons q' qs')
    obtain es' where q': "enc_range GRE_CHAR_ALT q' = Elem GRE_CHAR_ALT (fst q') # es'" using enc_range_Cons by blast
    have "r = r'" "enc_range GRE_CHAR_ALT q @ concat (map (enc_range GRE_CHAR_ALT) rs) @ x # xs =
        enc_range GRE_CHAR_ALT q' @ concat (map (enc_range GRE_CHAR_ALT) qs') @ x' # xs'"
      using Cons.prems q q' unfolding Cons
      by (cases r; cases r'; cases "snd r"; cases "snd r'"; auto)+
    then show ?thesis using Cons.IH Cons by simp
  qed
qed

lemma enc_items_unique:
  assumes "is_end t" "is_end t'"
  shows "enc_items its @ t # es = enc_items its' @ t' # es' \<Longrightarrow> its = its'"
proof (induction its arbitrary: its')
  case Nil
  then show ?case using assms enc_item_Cons [of "hd its'"] by (cases its') auto
next
  case (Cons it its)
  obtain it' js where its': "its' = it' # js"
    using Cons(2) assms enc_item_Cons [of it] by (cases its') auto
  obtain x xs x' xs' where x: "enc_items its @ t # es = x # xs" "fresh x" "enc_items js @ t' # es' = x' # xs'" "fresh x'"
    using enc_items_fresh assms by metis
  have eq: "enc_item it @ x # xs = enc_item it' @ x' # xs'" using Cons(2) its' x(1,3) by simp
  have hd: "item_head it = item_head it'"
    using arg_cong [OF eq, of hd] by (simp add: hd_append)
  have "it = it' \<and> x # xs = x' # xs'"
  proof (cases "\<exists>neg r rs. it = Class neg r rs")
    case True
    then obtain neg r rs where it: "it = Class neg r rs" by blast
    then obtain r' rs' where it': "it' = Class neg r' rs'" using hd by (cases it') (auto split: if_splits)
    let ?t = "if neg then GRE_CHAR_NOT else GRE_CHAR"
    have "enc_range ?t r @ concat (map (enc_range GRE_CHAR_ALT) rs) @ x # xs =
        enc_range ?t r' @ concat (map (enc_range GRE_CHAR_ALT) rs') @ x' # xs'"
      using eq unfolding it it' by simp
    from enc_ranges_unique [OF x(2,4) this] it it' show ?thesis by blast
  next
    case False
    then have "it = it'" using hd by (cases it; cases it') (auto split: if_splits)
    then show ?thesis using eq by simp
  qed
  then show ?case using Cons(1) its' x by auto
qed

lemma at_items_unique: "at_items rules p its \<Longrightarrow> at_items rules p its' \<Longrightarrow> its = its'"
  unfolding at_items_def using enc_items_unique by metis

lemma stack_items_unique: "stack_items g rules st iss \<Longrightarrow> stack_items g rules st iss' \<Longrightarrow> iss = iss'"
  unfolding stack_items_def
proof (induction st iss arbitrary: iss' rule: list_all2_induct)
  case (Cons p st its iss)
  then obtain its' js where "iss' = its' # js" "at_items rules p its'" "list_all2 (\<lambda>p its. at_items rules p its \<and> refs_ok g its \<and> its \<noteq> []) st js"
    by (auto simp: list_all2_Cons1)
  then show ?case using Cons at_items_unique by blast
qed simp

lemma stack_derives_iff: "stack_items g rules st iss \<Longrightarrow> stack_derives g rules st w \<longleftrightarrow> derives g (concat iss) w"
  unfolding stack_derives_def using stack_items_unique by blast

section \<open>Reading a position\<close>

lemma at_items_Nil: "at_items rules p [] \<Longrightarrow> is_end_of_sequence rules p = Some True"
  by (auto simp: at_items_def is_end_of_sequence_def elem_at_def)

lemma rest_at_add: "rest_at rules (fst p, snd p + n) = drop n (rest_at rules p)"
  by (simp add: rest_at_def add.commute)

lemma at_items_Cons:
  assumes "at_items rules p (it # its)"
  shows "elem_at rules p = Some (item_head it)" "is_end_of_sequence rules p = Some False"
    "at_items rules (fst p, snd p + length (enc_item it)) its" "fst p < length rules"
proof -
  obtain t es where r: "rest_at rules p = enc_item it @ enc_items its @ t # es" "is_end t"
    using assms by (auto simp: at_items_def)
  obtain e es' where e: "enc_item it = e # es'" "\<not> is_end e" using enc_item_Cons by blast
  have "item_head it = e" using e(1) hd_enc_item [of it] by simp
  then show el: "elem_at rules p = Some (item_head it)" using r(1) e by (simp add: elem_at_def)
  then show "is_end_of_sequence rules p = Some False" using \<open>item_head it = e\<close> e by (simp add: is_end_of_sequence_def)
  show "at_items rules (fst p, snd p + length (enc_item it)) its"
    using r by (auto simp: at_items_def rest_at_add)
  show "fst p < length rules" using r(1) e by (auto simp: rest_at_def split: if_splits)
qed

lemma push_unless_end_items:
  assumes "at_items rules p its" "refs_ok g its" "stack_items g rules st iss"
  shows "push_unless_end rules p st = Some (if its = [] then st else p # st)"
    "stack_items g rules (if its = [] then st else p # st) (if its = [] then iss else its # iss)"
  using assms at_items_Nil [of rules p] at_items_Cons(2) [of rules p "hd its" "tl its"]
  by (auto simp: push_unless_end_def stack_items_def)

lemma match_alts_ranges:
  assumes "fresh x" "t \<noteq> GRE_CHAR_ANY"
  shows "match_alts (enc_range t r @ concat (map (enc_range GRE_CHAR_ALT) rs) @ x # xs) c found n =
    Some (found \<or> (\<exists>q\<in>set (r # rs). in_range c q), n + length (enc_range t r @ concat (map (enc_range GRE_CHAR_ALT) rs)))"
  using assms(2)
proof (induction rs arbitrary: t r found n)
  case Nil
  then show ?case using assms(1) by (cases r; cases "snd r") (auto simp: fresh_def)
next
  case (Cons q rs)
  obtain es where q: "enc_range GRE_CHAR_ALT q = Elem GRE_CHAR_ALT (fst q) # es" using enc_range_Cons by blast
  show ?case
    using Cons(1) [of GRE_CHAR_ALT q] Cons(2) q by (cases r; cases "snd r") auto
qed

definition is_class :: "gr_item \<Rightarrow> bool" where
  "is_class it \<longleftrightarrow> it = AnyChar \<or> (\<exists>neg r rs. it = Class neg r rs)"

lemma match_char_item:
  assumes "at_items rules p (it # its)" "is_class it"
  shows "match_char rules p c = Some (item_char it c, (fst p, snd p + length (enc_item it)))"
proof -
  obtain t es where r: "rest_at rules p = enc_item it @ enc_items its @ t # es" "is_end t"
    using assms(1) by (auto simp: at_items_def)
  obtain x xs where x: "enc_items its @ t # es = x # xs" "fresh x" using enc_items_fresh r(2) by blast
  have el: "elem_at rules p = Some (item_head it)" by (rule at_items_Cons(1)) fact
  show ?thesis
  proof (cases it)
    case AnyChar
    then show ?thesis using r(1) x el by (simp add: match_char_def is_positive_def fresh_def)
  next
    case (Class neg q rs)
    obtain es' where q: "enc_range (if neg then GRE_CHAR_NOT else GRE_CHAR) q = Elem (if neg then GRE_CHAR_NOT else GRE_CHAR) (fst q) # es'"
      using enc_range_Cons by blast
    have "match_alts (rest_at rules p) c False 0 = Some (\<exists>y\<in>set (q # rs). in_range c y, length (enc_item it))"
      using match_alts_ranges [OF x(2), of "if neg then GRE_CHAR_NOT else GRE_CHAR" q rs xs c False 0] r(1) x(1) Class
      by (simp split: if_splits)
    then show ?thesis using el q Class by (auto simp: match_char_def is_positive_def)
  qed (use assms(2) in \<open>auto simp: is_class_def\<close>)
qed

lemma refs_ok_simps [simp]:
  "refs_ok g []" "refs_ok g (it # its) \<longleftrightarrow> item_ok g it \<and> refs_ok g its"
  "refs_ok g (its @ js) \<longleftrightarrow> refs_ok g its \<and> refs_ok g js"
  by (auto simp: refs_ok_def)

lemma refs_ok_Cons: "refs_ok g (it # its) \<Longrightarrow> refs_ok g its"
  by (auto simp: refs_ok_def)

lemma item_ok_Ref [simp, dest]: "item_ok g (Ref r) \<Longrightarrow> unat r < length g"
  by (simp add: item_ok_def)

section \<open>The alternates of a rule\<close>

lemma not_is_end_item:
  assumes "x \<in> set (enc_item it)"
  shows "\<not> is_end x"
proof -
  have range: "\<not> is_end x" if "x \<in> set (enc_range t q)" "t \<noteq> GRE_END" "t \<noteq> GRE_ALT" for t q x
    using that by (cases q; cases "snd q") (auto simp: is_end_def)
  show ?thesis
  proof (cases it)
    case (Class neg q rs)
    then show ?thesis using assms by (cases neg) (auto dest: range)
  qed (use assms in \<open>auto simp: is_end_def\<close>)
qed

lemma alts_from_items:
  "alts_from (enc_items its @ e # es) s i = alts_from (e # es) s (i + length (enc_items its))"
proof (induction its arbitrary: i)
  case (Cons it its)
  have inner: "\<forall>x\<in>set xs. \<not> is_end x \<Longrightarrow> alts_from (xs @ ys) s i = alts_from ys s (i + length xs)" for xs ys i
    by (induction xs arbitrary: i) (auto simp: is_end_def)
  have "\<forall>x\<in>set (enc_item it). \<not> is_end x" using not_is_end_item by blast
  then show ?case using Cons inner by (simp add: add.assoc)
qed simp

lemma alts_from_rule:
  assumes "alts \<noteq> []" "drop i full = enc_rule alts"
  shows "\<exists>starts. alts_from (enc_rule alts) i i = Some starts \<and>
    list_all2 (\<lambda>a alt. \<exists>t es. drop a full = enc_items alt @ t # es \<and> is_end t) starts alts"
  using assms
proof (induction alts arbitrary: i rule: enc_rule.induct)
  case (2 alt)
  then show ?case by (auto simp: alts_from_items is_end_def)
next
  case (3 alt alt' alts)
  let ?j = "i + length (enc_items alt) + 1"
  have d: "drop ?j full = enc_rule (alt' # alts)"
    using arg_cong [OF 3(3), of "drop (length (enc_items alt) + 1)"] by (simp add: ac_simps)
  obtain starts where s: "alts_from (enc_rule (alt' # alts)) ?j ?j = Some starts"
      "list_all2 (\<lambda>a alt. \<exists>t es. drop a full = enc_items alt @ t # es \<and> is_end t) starts (alt' # alts)"
    using 3(1) [OF _ d] by auto
  show ?case using s 3(3) by (auto simp: alts_from_items is_end_def)
qed simp

lemma alternates_items:
  assumes "encodes rules g" "r < length g"
  shows "\<exists>starts. alternates rules r = Some starts \<and> list_all2 (\<lambda>a alt. fst a = r \<and> at_items rules a alt) starts (g ! r)"
proof -
  have "g ! r \<noteq> []" using assms by (auto simp: encodes_def)
  then obtain starts where s: "alts_from (enc_rule (g ! r)) 0 0 = Some starts"
      "list_all2 (\<lambda>a alt. \<exists>t es. drop a (enc_rule (g ! r)) = enc_items alt @ t # es \<and> is_end t) starts (g ! r)"
    using alts_from_rule [of "g ! r" 0 "enc_rule (g ! r)"] by auto
  have "list_all2 (\<lambda>a alt. fst a = r \<and> at_items rules a alt) (map (Pair r) starts) (g ! r)"
    using s(2) assms by (auto simp: list_all2_map1 at_items_def rest_at_def encodes_def)
  then show ?thesis using s(1) assms by (auto simp: alternates_def encodes_def)
qed

end
