(* ===== verification/Grammar_Advance.thy ===== *)
theory Grammar_Advance
  imports Grammar_Positions
begin

text \<open>
  Advancing a stack: the references on top are expanded until every stack has a character class or a token on top, or
  is empty. Without left recursion this ends, and no word is gained or lost.
\<close>

section \<open>Expanding a reference\<close>

definition pushed :: "gr_pos \<Rightarrow> gr_item list \<Rightarrow> gr_stack \<Rightarrow> gr_stack" where
  "pushed p its st = (if its = [] then st else p # st)"

definition push_items :: "gr_item list \<Rightarrow> gr_item list list \<Rightarrow> gr_item list list" where
  "push_items its iss = (if its = [] then iss else its # iss)"

lemma concat_push_items [simp]: "concat (push_items its iss) = its @ concat iss"
  by (simp add: push_items_def)

lemma pushed_append: "pushed p its (st @ rest) = pushed p its st @ rest"
  by (simp add: pushed_def)

lemma push_at_items: "at_items rules p its \<Longrightarrow> push_unless_end rules p st = Some (pushed p its st)"
  using at_items_Nil [of rules p] at_items_Cons(2) [of rules p "hd its" "tl its"]
  by (cases its) (auto simp: push_unless_end_def pushed_def)

lemma stack_items_pushed:
  "at_items rules p its \<Longrightarrow> refs_ok g its \<Longrightarrow> stack_items g rules st iss \<Longrightarrow> stack_items g rules (pushed p its st) (push_items its iss)"
  by (simp add: stack_items_def pushed_def push_items_def)

lemma stack_items_Nil [simp]: "stack_items g rules [] iss \<longleftrightarrow> iss = []"
  by (auto simp: stack_items_def)

lemma stack_items_Cons:
  "stack_items g rules (p # st) iss \<longleftrightarrow>
    (\<exists>it its jss. iss = (it # its) # jss \<and> at_items rules p (it # its) \<and> refs_ok g (it # its) \<and> stack_items g rules st jss)"
  by (auto simp: stack_items_def list_all2_Cons1 neq_Nil_conv)

inductive expands :: "gr_rules \<Rightarrow> gr_stack \<Rightarrow> gr_stack \<Rightarrow> bool" for rules where
  expandsI: "elem_at rules p = Some e \<Longrightarrow> el_type e = GRE_RULE_REF \<Longrightarrow> expand_ref rules p e st = Some nexts \<Longrightarrow> st' \<in> set nexts \<Longrightarrow>
    expands rules (p # st) st'"

inductive_simps expands_Nil [simp]: "expands rules [] st"
inductive_simps expands_Cons: "expands rules (p # st) st'"

definition terminal :: "gr_rules \<Rightarrow> gr_stack \<Rightarrow> bool" where
  "terminal rules st \<longleftrightarrow>
    st = [] \<or> (\<exists>e. elem_at rules (hd st) = Some e \<and> (is_positive e \<or> el_type e = GRE_CHAR_NOT \<or> is_token e))"

definition reach :: "gr_rules \<Rightarrow> gr_stack \<Rightarrow> gr_stack set" where
  "reach rules st = {t. (expands rules)\<^sup>*\<^sup>* st t}"

lemma expand_ref_pushed:
  assumes "encodes rules g" "at_items rules p (Ref r # its)" "unat r < length g"
  shows "\<exists>starts. list_all2 (at_items rules) starts (g ! unat r) \<and>
    (\<forall>st. expand_ref rules p (Elem GRE_RULE_REF r) st =
      Some (map (\<lambda>(a, alt). pushed a alt (pushed (next_pos p) its st)) (zip starts (g ! unat r))))"
proof -
  obtain starts where s: "alternates rules (unat r) = Some starts"
      "list_all2 (\<lambda>a alt. fst a = unat r \<and> at_items rules a alt) starts (g ! unat r)"
    using alternates_items [OF assms(1,3)] by blast
  have n: "at_items rules (next_pos p) its" using at_items_Cons(3) [OF assms(2)] by simp
  have loop: "foldM (\<lambda>a acc. do {
       st1 \<leftarrow> push_unless_end rules (next_pos p) st;
       st2 \<leftarrow> push_unless_end rules a st1;
       Some (acc @ [st2]) }) as acc = Some (acc @ map (\<lambda>(a, alt). pushed a alt (pushed (next_pos p) its st)) (zip as alts))"
    if "list_all2 (\<lambda>a alt. fst a = unat r \<and> at_items rules a alt) as alts" for st as alts acc
    using that
  proof (induction as alts arbitrary: acc rule: list_all2_induct)
    case (Cons a as alt alts)
    then show ?case using push_at_items [OF n] push_at_items [of rules a alt] by simp
  qed simp
  have "list_all2 (at_items rules) starts (g ! unat r)" using s(2) by (rule list_all2_mono) auto
  then show ?thesis using s(1) loop [OF s(2), of _ "[]"] by (auto simp: expand_ref_def)
qed

lemma expands_Ref:
  assumes "encodes rules g" "at_items rules p (Ref r # its)" "unat r < length g"
  shows "\<exists>P. finite P \<and> snd ` P = set (g ! unat r) \<and> (\<forall>(a, alt)\<in>P. at_items rules a alt) \<and>
    (\<forall>st t. expands rules (p # st) t \<longleftrightarrow> (\<exists>(a, alt)\<in>P. t = pushed a alt (pushed (next_pos p) its st)))"
proof -
  obtain starts where s: "list_all2 (at_items rules) starts (g ! unat r)"
    "\<And>st. expand_ref rules p (Elem GRE_RULE_REF r) st =
      Some (map (\<lambda>(a, alt). pushed a alt (pushed (next_pos p) its st)) (zip starts (g ! unat r)))"
    using expand_ref_pushed [OF assms] by blast
  let ?P = "set (zip starts (g ! unat r))"
  have el: "elem_at rules p = Some (Elem GRE_RULE_REF r)" using at_items_Cons(1) [OF assms(2)] by simp
  have "snd ` ?P = set (g ! unat r)"
    using list_all2_lengthD [OF s(1)] by (simp flip: set_map)
  moreover have "\<forall>(a, alt)\<in>?P. at_items rules a alt"
    using s(1) by (auto simp: list_all2_iff)
  moreover have "expands rules (p # st) t \<longleftrightarrow> (\<exists>(a, alt)\<in>?P. t = pushed a alt (pushed (next_pos p) its st))" for st t
    by (auto simp: expands_Cons el s(2) image_iff split: prod.splits)
  ultimately show ?thesis by (intro exI [of _ ?P]) auto
qed

lemma not_Ref_terminal:
  assumes "at_items rules p (it # its)" "\<nexists>r. it = Ref r"
  shows "terminal rules (p # st)" "\<not> expands rules (p # st) t"
  using at_items_Cons(1) [OF assms(1)] assms(2)
  by (cases it; auto simp: terminal_def is_positive_def is_token_def expands_Cons)+

lemma Ref_not_terminal: "at_items rules p (Ref r # its) \<Longrightarrow> \<not> terminal rules (p # st)"
  using at_items_Cons(1) [of rules p "Ref r" its] by (auto simp: terminal_def is_positive_def is_token_def)

text \<open>What expanding does to the items, and that every alternate is tried.\<close>

lemma expands_items:
  assumes "encodes rules g" "stack_items g rules st iss" "expands rules st t"
  shows "\<exists>r its jss alt tss. iss = (Ref r # its) # jss \<and> alt \<in> set (g ! unat r) \<and> unat r < length g \<and>
    stack_items g rules t tss \<and> concat tss = alt @ its @ concat jss"
proof -
  obtain p st' it its jss where st: "st = p # st'" "iss = (it # its) # jss" "at_items rules p (it # its)" "refs_ok g (it # its)"
      "stack_items g rules st' jss"
    using assms(2,3) by (cases st) (auto simp: stack_items_Cons)
  obtain r where it: "it = Ref r" using not_Ref_terminal(2) [OF st(3)] assms(3) st(1) by blast
  have r: "unat r < length g" "refs_ok g its" using st(4) it by auto
  obtain P where P: "snd ` P = set (g ! unat r)" "\<forall>(a, alt)\<in>P. at_items rules a alt"
      "\<And>st t. expands rules (p # st) t \<longleftrightarrow> (\<exists>(a, alt)\<in>P. t = pushed a alt (pushed (next_pos p) its st))"
    using expands_Ref [OF assms(1) st(3) [unfolded it] r(1)] by blast
  obtain a alt where a: "(a, alt) \<in> P" "t = pushed a alt (pushed (next_pos p) its st')" using P(3) assms(3) st(1) by blast
  have alt: "alt \<in> set (g ! unat r)" "at_items rules a alt" using a(1) P(1,2) by force+
  have ok: "refs_ok g alt" using assms(1) alt(1) r(1) by (auto simp: encodes_def)
  have "at_items rules (next_pos p) its" using at_items_Cons(3) [OF st(3)] it by simp
  then have "stack_items g rules t (push_items alt (push_items its jss))"
    unfolding a(2) using alt(2) ok r(2) st(5) by (intro stack_items_pushed)
  moreover have "concat (push_items alt (push_items its jss)) = alt @ its @ concat jss" by simp
  ultimately show ?thesis using st(2) it alt(1) r(1) by blast
qed

lemma expands_alternate:
  assumes "encodes rules g" "stack_items g rules st ((Ref r # its) # jss)" "alt \<in> set (g ! unat r)"
  shows "\<exists>t tss. expands rules st t \<and> stack_items g rules t tss \<and> concat tss = alt @ its @ concat jss"
proof -
  obtain p st' where st: "st = p # st'" "at_items rules p (Ref r # its)" "unat r < length g" "refs_ok g its" "stack_items g rules st' jss"
    using assms(2) by (cases st) (auto simp: stack_items_Cons)
  obtain P where P: "snd ` P = set (g ! unat r)" "\<forall>(a, alt)\<in>P. at_items rules a alt"
      "\<And>st t. expands rules (p # st) t \<longleftrightarrow> (\<exists>(a, alt)\<in>P. t = pushed a alt (pushed (next_pos p) its st))"
    using expands_Ref [OF assms(1) st(2,3)] by blast
  obtain a where a: "(a, alt) \<in> P" using assms(3) P(1) by force
  have n: "at_items rules (next_pos p) its" using at_items_Cons(3) [OF st(2)] by simp
  have ok: "refs_ok g alt" using assms(1,3) st(3) by (auto simp: encodes_def)
  have "stack_items g rules (pushed a alt (pushed (next_pos p) its st')) (push_items alt (push_items its jss))"
    using a P(2) ok st n by (intro stack_items_pushed) auto
  moreover have "expands rules st (pushed a alt (pushed (next_pos p) its st'))" using P(3) a st(1) by blast
  ultimately show ?thesis by (intro exI [of _ "pushed a alt (pushed (next_pos p) its st')"] exI [of _ "push_items alt (push_items its jss)"]) simp
qed

lemma reach_items:
  assumes "encodes rules g" "stack_items g rules st iss" "t \<in> reach rules st"
  shows "\<exists>tss. stack_items g rules t tss \<and> (\<forall>w. derives g (concat tss) w \<longrightarrow> derives g (concat iss) w)"
proof -
  have "(expands rules)\<^sup>*\<^sup>* st t" using assms(3) by (simp add: reach_def)
  then show ?thesis
  proof (induction rule: rtranclp_induct)
    case base
    then show ?case using assms(2) by blast
  next
    case (step t u)
    then obtain tss where t: "stack_items g rules t tss" "\<forall>w. derives g (concat tss) w \<longrightarrow> derives g (concat iss) w" by blast
    obtain r its jss alt uss where u: "tss = (Ref r # its) # jss" "alt \<in> set (g ! unat r)" "unat r < length g"
        "stack_items g rules u uss" "concat uss = alt @ its @ concat jss"
      using expands_items [OF assms(1) t(1) step(2)] by blast
    have "derives g (concat tss) w" if "derives g (concat uss) w" for w
      using that u by (auto simp: derives_Ref_iff)
    then show ?case using t(2) u(4) by blast
  qed
qed

text \<open>A word of a stack is a word of one of the terminal stacks that can be reached.\<close>

lemma reach_terminal_derives:
  assumes "encodes rules g" "leftmost g its w"
  shows "stack_items g rules st iss \<Longrightarrow> concat iss = its \<Longrightarrow>
    \<exists>t\<in>reach rules st. terminal rules t \<and> stack_derives g rules t w"
  using assms(2)
proof (induction arbitrary: st iss rule: leftmost.induct)
  case leftmost_Nil
  then have "iss = []" "st = []" by (cases st; auto simp: stack_items_Cons)+
  then show ?case by (auto simp: reach_def terminal_def stack_derives_def derives_Nil)
next
  case (leftmost_sym it x its w)
  obtain p st' its' jss where st: "st = p # st'" "iss = (it # its') # jss" "at_items rules p (it # its')"
    using leftmost_sym(4,5) by (cases st) (auto simp: stack_items_Cons)
  have "\<nexists>r. it = Ref r" using leftmost_sym(1) by auto
  then have "terminal rules st" using not_Ref_terminal(1) [OF st(3)] st(1) by blast
  moreover have "stack_derives g rules st (x # w)"
    using leftmost_sym(1,2,4,5) by (auto simp: stack_derives_iff derives_leftmost intro: leftmost.intros)
  ultimately show ?case by (auto simp: reach_def)
next
  case (leftmost_Ref r alt its w)
  obtain its' jss where iss: "iss = (Ref r # its') # jss" "its = its' @ concat jss"
    using leftmost_Ref(5,6) by (cases st) (auto simp: stack_items_Cons)
  obtain t tss where t: "expands rules st t" "stack_items g rules t tss" "concat tss = alt @ its"
    using expands_alternate [OF assms(1) leftmost_Ref(5) [unfolded iss(1)] leftmost_Ref(2)] iss(2) by auto
  obtain u where "u \<in> reach rules t" "terminal rules u" "stack_derives g rules u w"
    using leftmost_Ref(4) [OF t(2,3)] by blast
  moreover from this(1) t(1) have "u \<in> reach rules st"
    by (auto simp: reach_def intro: converse_rtranclp_into_rtranclp)
  ultimately show ?case by blast
qed

lemma terminal_stacks_derive:
  assumes "encodes rules g" "stack_items g rules st iss"
  shows "(\<exists>t\<in>reach rules st. terminal rules t \<and> stack_derives g rules t w) \<longleftrightarrow> stack_derives g rules st w"
proof
  assume "\<exists>t\<in>reach rules st. terminal rules t \<and> stack_derives g rules t w"
  then obtain t where "t \<in> reach rules st" "stack_derives g rules t w" by blast
  then show "stack_derives g rules st w"
    using reach_items [OF assms] stack_derives_iff assms(2) by blast
next
  assume "stack_derives g rules st w"
  then have "leftmost g (concat iss) w" using stack_derives_iff [OF assms(2)] derives_leftmost by blast
  then show "\<exists>t\<in>reach rules st. terminal rules t \<and> stack_derives g rules t w"
    using reach_terminal_derives [OF assms(1) _ assms(2) refl] by blast
qed

section \<open>Left recursion\<close>

text \<open>The rules a rule can have leftmost: behind items that derive the empty word.\<close>

definition left_corner :: "cfg \<Rightarrow> (nat \<times> nat) set" where
  "left_corner g = {(q, r). r < length g \<and>
    (\<exists>u pre post. pre @ Ref u # post \<in> set (g ! r) \<and> q = unat u \<and> derives g pre [])}"

definition no_left_recursion :: "cfg \<Rightarrow> bool" where
  "no_left_recursion g \<longleftrightarrow> acyclic (left_corner g)"

lemma wf_left_corner:
  assumes "encodes rules g" "no_left_recursion g"
  shows "wf (left_corner g)"
proof (rule finite_acyclic_wf)
  have "left_corner g \<subseteq> {..<length g} \<times> {..<length g}"
    using assms(1) by (fastforce simp: left_corner_def encodes_def refs_ok_def)
  then show "finite (left_corner g)" by (rule finite_subset) simp
  show "acyclic (left_corner g)" using assms(2) by (simp add: no_left_recursion_def)
qed

text \<open>A stack whose expansion ends, with at least one result.\<close>

definition ends :: "gr_rules \<Rightarrow> gr_stack \<Rightarrow> bool" where
  "ends rules st \<longleftrightarrow> finite (reach rules st) \<and> (\<exists>t\<in>reach rules st. terminal rules t)"

lemma reach_step: "reach rules st = insert st (\<Union>t\<in>{t. expands rules st t}. reach rules t)"
  by (auto simp: reach_def intro: converse_rtranclp_into_rtranclp elim: converse_rtranclpE)

lemma reach_no_step: "(\<And>t. \<not> expands rules st t) \<Longrightarrow> reach rules st = {st}"
  by (auto simp: reach_def elim: converse_rtranclpE)

lemma reach_Nil [simp]: "reach rules [] = {[]}"
  by (rule reach_no_step) simp

lemma expands_append:
  assumes "encodes rules g" "stack_items g rules st iss" "st \<noteq> []"
  shows "expands rules (st @ rest) u \<longleftrightarrow> (\<exists>t. expands rules st t \<and> u = t @ rest)"
proof -
  obtain p st' it its where st: "st = p # st'" "at_items rules p (it # its)" "refs_ok g (it # its)"
    using assms(2,3) by (cases st) (auto simp: stack_items_Cons)
  show ?thesis
  proof (cases "\<exists>r. it = Ref r")
    case True
    then obtain r where it: "it = Ref r" by blast
    obtain P where P: "\<And>st t. expands rules (p # st) t \<longleftrightarrow> (\<exists>(a, alt)\<in>P. t = pushed a alt (pushed (next_pos p) its st))"
      using expands_Ref [OF assms(1) st(2) [unfolded it]] st(3) it by auto
    show ?thesis unfolding st(1) append_Cons P by (auto simp: pushed_append)
  next
    case False
    then show ?thesis using not_Ref_terminal(2) [OF st(2)] st(1) by auto
  qed
qed

lemma reach_append:
  assumes "encodes rules g" "stack_items g rules st iss" "t \<in> reach rules st"
  shows "t @ rest \<in> reach rules (st @ rest)"
proof -
  have "(expands rules)\<^sup>*\<^sup>* st t" using assms(3) by (simp add: reach_def)
  then have "(expands rules)\<^sup>*\<^sup>* (st @ rest) (t @ rest)"
  proof (induction rule: rtranclp_induct)
    case (step t u)
    obtain tss where "stack_items g rules t tss"
      using reach_items [OF assms(1,2), of t] step(1) by (auto simp: reach_def)
    moreover have "t \<noteq> []" using step(2) by auto
    ultimately have "expands rules (t @ rest) (u @ rest)" using expands_append [OF assms(1)] step(2) by blast
    then show ?case using step(3) by simp
  qed simp
  then show ?thesis by (simp add: reach_def)
qed

text \<open>Expanding a stack expands what is on top first, and what is below only when the top is gone.\<close>

lemma reach_append_cases:
  assumes "encodes rules g" "stack_items g rules st iss" "u \<in> reach rules (st @ rest)"
  shows "(\<exists>t\<in>reach rules st. u = t @ rest) \<or> ([] \<in> reach rules st \<and> u \<in> reach rules rest)"
proof -
  have "(expands rules)\<^sup>*\<^sup>* (st @ rest) u" using assms(3) by (simp add: reach_def)
  then show ?thesis
  proof (induction rule: rtranclp_induct)
    case base
    then show ?case by (auto simp: reach_def)
  next
    case (step u v)
    from step(3) show ?case
    proof
      assume "\<exists>t\<in>reach rules st. u = t @ rest"
      then obtain t where t: "t \<in> reach rules st" "u = t @ rest" by blast
      show ?thesis
      proof (cases "t = []")
        case True
        then have "v \<in> reach rules rest" using t(2) step(2) by (auto simp: reach_def)
        then show ?thesis using t(1) True by simp
      next
        case False
        obtain tss where "stack_items g rules t tss" using reach_items [OF assms(1,2) t(1)] by blast
        then obtain t' where "expands rules t t'" "v = t' @ rest" using expands_append [OF assms(1) _ False] t(2) step(2) by blast
        then show ?thesis using t(1) by (auto simp: reach_def intro: rtranclp.rtrancl_into_rtrancl)
      qed
    next
      assume "[] \<in> reach rules st \<and> u \<in> reach rules rest"
      then show ?thesis using step(2) by (auto simp: reach_def intro: rtranclp.rtrancl_into_rtrancl)
    qed
  qed
qed

lemma ends_append:
  assumes "encodes rules g" "stack_items g rules st iss" "ends rules st" "[] \<in> reach rules st \<Longrightarrow> ends rules rest"
  shows "ends rules (st @ rest)"
proof -
  let ?R = "if [] \<in> reach rules st then reach rules rest else {}"
  have "reach rules (st @ rest) \<subseteq> (\<lambda>t. t @ rest) ` reach rules st \<union> ?R"
    using reach_append_cases [OF assms(1,2)] by auto
  moreover have "finite ((\<lambda>t. t @ rest) ` reach rules st \<union> ?R)"
    using assms(3,4) by (auto simp: ends_def)
  ultimately have fin: "finite (reach rules (st @ rest))" by (rule finite_subset)
  obtain t where t: "t \<in> reach rules st" "terminal rules t" using assms(3) by (auto simp: ends_def)
  have "\<exists>u\<in>reach rules (st @ rest). terminal rules u"
  proof (cases "t = []")
    case True
    then obtain u where u: "u \<in> reach rules rest" "terminal rules u" using assms(4) t(1) by (auto simp: ends_def)
    have "rest \<in> reach rules (st @ rest)" using reach_append [OF assms(1,2), of "[]" rest] t(1) True by simp
    then show ?thesis using u by (auto simp: reach_def intro: rtranclp_trans)
  next
    case False
    then have "terminal rules (t @ rest)" using t(2) by (simp add: terminal_def)
    then show ?thesis using reach_append [OF assms(1,2) t(1)] by blast
  qed
  with fin show ?thesis by (simp add: ends_def)
qed

lemma ends_terminal: "terminal rules st \<Longrightarrow> (\<And>t. \<not> expands rules st t) \<Longrightarrow> ends rules st"
  by (simp add: ends_def reach_no_step)

lemma ends_Nil [simp]: "ends rules []"
  by (rule ends_terminal) (auto simp: terminal_def)

lemma ends_expand:
  assumes "finite {t. expands rules st t}" "expands rules st u" "\<And>t. expands rules st t \<Longrightarrow> ends rules t"
  shows "ends rules st"
proof -
  have "finite (reach rules st)" by (subst reach_step) (use assms in \<open>auto simp: ends_def\<close>)
  moreover obtain t where "t \<in> reach rules u" "terminal rules t" using assms(2,3) by (auto simp: ends_def)
  then have "t \<in> reach rules st" using assms(2) by (auto simp: reach_def intro: converse_rtranclp_into_rtranclp)
  ultimately show ?thesis using \<open>terminal rules t\<close> by (auto simp: ends_def)
qed

text \<open>One reference: its alternates end, and so does what follows when the reference can be empty.\<close>

lemma ends_Ref:
  assumes enc: "encodes rules g" and p: "at_items rules p (Ref r # its)" "refs_ok g (Ref r # its)"
    and alts: "\<And>a alt. alt \<in> set (g ! unat r) \<Longrightarrow> at_items rules a alt \<Longrightarrow> ends rules (pushed a alt [])"
    and after: "derives g [Ref r] [] \<Longrightarrow> ends rules (pushed (next_pos p) its [])"
  shows "ends rules [p]"
proof -
  have r: "unat r < length g" "refs_ok g its" using p(2) by auto
  obtain P where P: "finite P" "snd ` P = set (g ! unat r)" "\<forall>(a, alt)\<in>P. at_items rules a alt"
      "\<And>st t. expands rules (p # st) t \<longleftrightarrow> (\<exists>(a, alt)\<in>P. t = pushed a alt (pushed (next_pos p) its st))"
    using expands_Ref [OF enc p(1) r(1)] by blast
  have "ends rules (pushed a alt (pushed (next_pos p) its []))" if a: "(a, alt) \<in> P" for a alt
  proof -
    have alt: "alt \<in> set (g ! unat r)" "at_items rules a alt" using a P(2,3) by force+
    then have ok: "refs_ok g alt" using enc r(1) by (auto simp: encodes_def)
    have s: "stack_items g rules (pushed a alt []) (push_items alt [])" using alt ok by (intro stack_items_pushed) auto
    have "ends rules (pushed (next_pos p) its [])" if nul: "[] \<in> reach rules (pushed a alt [])"
    proof (rule after)
      have "derives g alt []" using reach_items [OF enc s nul] by (auto intro: derives_Nil)
      then show "derives g [Ref r] []" using alt(1) r(1) by (auto simp: derives_Ref_iff)
    qed
    then have "ends rules (pushed a alt [] @ pushed (next_pos p) its [])"
      using ends_append [OF enc s] alts [OF alt] by blast
    then show ?thesis by (simp flip: pushed_append)
  qed
  then have "ends rules t" if "expands rules [p] t" for t using that P(4) by auto
  moreover have "finite {t. expands rules [p] t}"
  proof -
    have "{t. expands rules [p] t} = (\<lambda>(a, alt). pushed a alt (pushed (next_pos p) its [])) ` P"
      using P(4) by (auto simp: case_prod_unfold)
    then show ?thesis using P(1) by simp
  qed
  moreover have "\<exists>u. expands rules [p] u"
  proof -
    have "g ! unat r \<noteq> []" using enc r(1) by (auto simp: encodes_def)
    then have "P \<noteq> {}" using P(2) by auto
    then show ?thesis using P(4) unfolding case_prod_unfold by blast
  qed
  ultimately show ?thesis using ends_expand by blast
qed

text \<open>The alternates of a rule, by induction on the rules it can have leftmost; then every stack.\<close>

lemma ends_alternate:
  assumes enc: "encodes rules g" and nlr: "no_left_recursion g"
  shows "r < length g \<Longrightarrow> alt \<in> set (g ! r) \<Longrightarrow> at_items rules a alt \<Longrightarrow> ends rules (pushed a alt [])"
proof (induction r arbitrary: alt a rule: wf_induct_rule [OF wf_left_corner [OF enc nlr]])
  case (1 r)
  have "ends rules (pushed a its [])" if "alt = pre @ its" "derives g pre []" "at_items rules a its" for pre its a
    using that
  proof (induction its arbitrary: pre a)
    case Nil
    then show ?case by (simp add: pushed_def)
  next
    case (Cons it its)
    show ?case
    proof (cases "\<exists>u. it = Ref u")
      case True
      then obtain u where it: "it = Ref u" by blast
      have ok: "refs_ok g alt" using enc 1(2,3) by (auto simp: encodes_def)
      then have ok': "refs_ok g (Ref u # its)" using Cons(2) it by auto
      have "(unat u, r) \<in> left_corner g"
        using 1(2,3) Cons(2,3) it unfolding left_corner_def by blast
      then have alts: "ends rules (pushed b alt' [])" if "alt' \<in> set (g ! unat u)" "at_items rules b alt'" for b alt'
        using 1(1) that ok' by auto
      have after: "ends rules (pushed (next_pos a) its [])" if "derives g [Ref u] []"
      proof (rule Cons(1))
        show "alt = (pre @ [it]) @ its" using Cons(2) by simp
        show "derives g (pre @ [it]) []" using Cons(3) that it by (auto simp: derives_append)
        show "at_items rules (next_pos a) its" using at_items_Cons(3) [OF Cons(4)] it by simp
      qed
      show ?thesis using ends_Ref [OF enc Cons(4) [unfolded it] ok' alts after] by (simp add: pushed_def)
    next
      case False
      then show ?thesis using not_Ref_terminal [OF Cons(4) False] ends_terminal by (simp add: pushed_def)
    qed
  qed
  from this [of "[]" alt a] 1(4) show ?case by (simp add: derives_Nil)
qed

lemma ends_items:
  assumes enc: "encodes rules g" and nlr: "no_left_recursion g"
  shows "at_items rules p its \<Longrightarrow> refs_ok g its \<Longrightarrow> ends rules (pushed p its [])"
proof (induction its arbitrary: p)
  case (Cons it its)
  show ?case
  proof (cases "\<exists>u. it = Ref u")
    case True
    then obtain u where it: "it = Ref u" by blast
    have "at_items rules (next_pos p) its" using at_items_Cons(3) [OF Cons(2)] it by simp
    then have "ends rules (pushed (next_pos p) its [])" using Cons(1,3) refs_ok_Cons by blast
    moreover have "ends rules (pushed a alt [])" if "alt \<in> set (g ! unat u)" "at_items rules a alt" for a alt
      using ends_alternate [OF enc nlr _ that] Cons(3) it by simp
    ultimately show ?thesis using ends_Ref [OF enc Cons(2,3) [unfolded it]] by (simp add: pushed_def)
  next
    case False
    then show ?thesis using not_Ref_terminal [OF Cons(2) False] ends_terminal by (simp add: pushed_def)
  qed
qed (simp add: pushed_def)

lemma stack_ends:
  assumes enc: "encodes rules g" and nlr: "no_left_recursion g"
  shows "stack_items g rules st iss \<Longrightarrow> ends rules st"
proof (induction st arbitrary: iss)
  case (Cons p st)
  then obtain it its jss where s: "at_items rules p (it # its)" "refs_ok g (it # its)" "stack_items g rules st jss"
    by (auto simp: stack_items_Cons)
  have "ends rules [p]" using ends_items [OF enc nlr s(1,2)] by (simp add: pushed_def)
  moreover have "stack_items g rules [p] [it # its]" using s by (simp add: stack_items_Cons)
  ultimately show ?case using ends_append [OF enc, of "[p]" _ st] Cons(1) [OF s(3)] by simp
qed simp

section \<open>The loop\<close>

text \<open>What was taken from \<open>todo\<close> is in the result or was expanded.\<close>

definition closed_seen :: "gr_rules \<Rightarrow> gr_stack list \<Rightarrow> gr_stack set \<Rightarrow> gr_stack list \<Rightarrow> bool" where
  "closed_seen rules todo seen new \<longleftrightarrow>
    (\<forall>s\<in>seen. (terminal rules s \<longrightarrow> s \<in> set new) \<and> (\<forall>t. expands rules s t \<longrightarrow> t \<in> seen \<union> set todo))"

definition terminals :: "gr_rules \<Rightarrow> gr_stack \<Rightarrow> gr_stack set" where
  "terminals rules st = {t \<in> reach rules st. terminal rules t}"

lemma set_add_new [simp]: "set (add_new new st) = insert st (set new)"
  by (auto simp: add_new_def)

lemma distinct_add_new: "distinct new \<Longrightarrow> distinct (add_new new st)"
  by (simp add: add_new_def)

lemma terminals_seen:
  assumes "closed_seen rules todo seen new" "s \<in> seen" "t \<in> terminals rules s"
  shows "t \<in> set new \<or> (\<exists>u\<in>set todo. t \<in> terminals rules u)"
proof -
  have "(expands rules)\<^sup>*\<^sup>* s t" "terminal rules t" using assms(3) by (auto simp: terminals_def reach_def)
  then show ?thesis using assms(2)
  proof (induction rule: converse_rtranclp_induct)
    case base
    then show ?case using assms(1) by (auto simp: closed_seen_def)
  next
    case (step s s')
    then have "s' \<in> seen \<or> s' \<in> set todo" using assms(1) by (auto simp: closed_seen_def)
    then show ?case using step by (auto simp: terminals_def reach_def)
  qed
qed

lemma terminals_expand: "\<not> terminal rules st \<Longrightarrow> terminals rules st = (\<Union>t\<in>{t. expands rules st t}. terminals rules t)"
  using reach_step [of rules st] by (auto simp: terminals_def)

lemma reach_expands: "expands rules st t \<Longrightarrow> reach rules t \<subseteq> reach rules st"
  by (auto simp: reach_def intro: converse_rtranclp_into_rtranclp)

lemma terminal_no_expand: "terminal rules st \<Longrightarrow> \<not> expands rules st t"
  by (auto simp: terminal_def is_positive_def is_token_def elim!: expands.cases)

lemma not_terminal_Ref:
  assumes "encodes rules g" "stack_items g rules st iss" "\<not> terminal rules st"
  obtains p below e nexts where "st = p # below" "elem_at rules p = Some e" "el_type e = GRE_RULE_REF"
    "expand_ref rules p e below = Some nexts"
proof -
  obtain p below it its where st: "st = p # below" "at_items rules p (it # its)" "refs_ok g (it # its)"
    using assms(2,3) by (cases st) (auto simp: stack_items_Cons terminal_def)
  then obtain r where it: "it = Ref r" using assms(3) not_Ref_terminal(1) by blast
  have "elem_at rules p = Some (Elem GRE_RULE_REF r)" using at_items_Cons(1) [OF st(2)] it by simp
  then show ?thesis using expand_ref_pushed [OF assms(1) st(2) [unfolded it]] st(3) it that [of p below] st(1) by auto
qed

lemma advance_loop_exact:
  assumes enc: "encodes rules g"
  shows "(\<forall>st\<in>set todo. finite (reach rules st) \<and> (\<exists>iss. stack_items g rules st iss)) \<Longrightarrow> closed_seen rules todo seen new \<Longrightarrow>
    distinct new \<Longrightarrow>
    \<exists>new'. advance_loop rules todo seen new = Some new' \<and> distinct new' \<and>
      set new' = set new \<union> (\<Union>st\<in>set todo. terminals rules st)"
proof (induction "(todo, seen)" arbitrary: todo seen new
    rule: wf_induct_rule [OF wf_measures [of "[\<lambda>(todo, seen). card ((\<Union>st\<in>set todo. reach rules st) - seen), \<lambda>(todo, seen). length todo]"]])
  case (1 todo seen new)
  show ?case
  proof (cases todo)
    case Nil
    then show ?thesis using 1(4) by (simp add: advance_loop.simps)
  next
    case (Cons st rest)
    have fin: "finite (\<Union>s\<in>set todo. reach rules s)" using 1(2) by auto
    have self: "st \<in> reach rules st" by (simp add: reach_def)
    show ?thesis
    proof (cases "st \<in> seen")
      case True
      have "card ((\<Union>s\<in>set rest. reach rules s) - seen) \<le> card ((\<Union>s\<in>set todo. reach rules s) - seen)"
        using fin Cons by (intro card_mono) auto
      then have less: "((rest, seen), todo, seen) \<in> measures [\<lambda>(todo, seen). card ((\<Union>st\<in>set todo. reach rules st) - seen), \<lambda>(todo, seen). length todo]"
        using Cons by auto
      have closed: "closed_seen rules rest seen new" using 1(3) True Cons by (auto simp: closed_seen_def)
      obtain new' where new': "advance_loop rules rest seen new = Some new'" "distinct new'"
          "set new' = set new \<union> (\<Union>s\<in>set rest. terminals rules s)"
        using 1(1) [OF less _ closed 1(4)] 1(2) Cons by auto
      have "terminals rules st \<subseteq> set new'" using terminals_seen [OF closed True] new'(3) by auto
      moreover have "advance_loop rules todo seen new = advance_loop rules rest seen new"
        using True Cons by (simp add: advance_loop.simps [of rules "st # rest"])
      ultimately show ?thesis using new' Cons by auto
    next
      case False
      let ?seen = "insert st seen"
      have less: "((todo', ?seen), todo, seen) \<in> measures [\<lambda>(todo, seen). card ((\<Union>st\<in>set todo. reach rules st) - seen), \<lambda>(todo, seen). length todo]"
        if "(\<Union>s\<in>set todo'. reach rules s) \<subseteq> (\<Union>s\<in>set todo. reach rules s)" for todo'
      proof -
        have "card ((\<Union>s\<in>set todo'. reach rules s) - ?seen) < card ((\<Union>s\<in>set todo. reach rules s) - seen)"
          using fin that False self Cons by (intro psubset_card_mono) auto
        then show ?thesis by simp
      qed
      obtain iss where iss: "stack_items g rules st iss" using 1(2) Cons by auto
      show ?thesis
      proof (cases "terminal rules st")
        case True
        have none: "\<not> expands rules st t" for t by (rule terminal_no_expand) fact
        have closed: "closed_seen rules rest ?seen (add_new new st)"
          using 1(3) none Cons by (auto simp: closed_seen_def)
        obtain new' where new': "advance_loop rules rest ?seen (add_new new st) = Some new'" "distinct new'"
            "set new' = insert st (set new) \<union> (\<Union>s\<in>set rest. terminals rules s)"
          using 1(1) [OF less _ closed distinct_add_new [OF 1(4)]] 1(2) Cons by auto
        have "terminals rules st = {st}" using none True by (auto simp: terminals_def reach_no_step)
        moreover have "advance_loop rules todo seen new = advance_loop rules rest ?seen (add_new new st)"
          unfolding Cons using True False
          by (subst advance_loop.simps) (auto simp: terminal_def is_positive_def is_token_def split: list.split)
        ultimately show ?thesis using new' Cons by auto
      next
        case nt: False
        obtain p below e nexts where st: "st = p # below" "elem_at rules p = Some e" "el_type e = GRE_RULE_REF"
            and nexts: "expand_ref rules p e below = Some nexts"
          by (rule not_terminal_Ref [OF enc iss nt])
        have ex: "expands rules st t \<longleftrightarrow> t \<in> set nexts" for t using st nexts by (auto simp: expands_Cons)
        have closed: "closed_seen rules (rev nexts @ rest) ?seen new"
          using 1(3) nt ex Cons by (auto simp: closed_seen_def)
        have sub: "(\<Union>s\<in>set (rev nexts @ rest). reach rules s) \<subseteq> (\<Union>s\<in>set todo. reach rules s)"
          using ex reach_expands Cons by fastforce
        have good: "\<forall>s\<in>set (rev nexts @ rest). finite (reach rules s) \<and> (\<exists>iss. stack_items g rules s iss)"
        proof
          fix s assume "s \<in> set (rev nexts @ rest)"
          then consider "expands rules st s" | "s \<in> set rest" using ex by auto
          then show "finite (reach rules s) \<and> (\<exists>iss. stack_items g rules s iss)"
          proof cases
            case 1
            have "finite (reach rules st)" using "1.prems"(1) Cons by auto
            then show ?thesis using expands_items [OF enc iss 1] finite_subset [OF reach_expands [OF 1]] by blast
          qed (use 1(2) Cons in auto)
        qed
        obtain new' where new': "advance_loop rules (rev nexts @ rest) ?seen new = Some new'" "distinct new'"
            "set new' = set new \<union> (\<Union>s\<in>set (rev nexts @ rest). terminals rules s)"
          using 1(1) [OF less [OF sub] good closed 1(4)] by auto
        moreover have "advance_loop rules todo seen new = advance_loop rules (rev nexts @ rest) ?seen new"
          unfolding Cons using False st nexts by (subst advance_loop.simps) simp
        ultimately show ?thesis using terminals_expand [OF nt] ex Cons by auto
      qed
    qed
  qed
qed

text \<open>What advancing a stack returns: the terminal stacks that can be reached, at least one, which derive exactly
  the words of the stack.\<close>

lemma advance_stack_exact:
  assumes enc: "encodes rules g" and nlr: "no_left_recursion g" and st: "stack_items g rules st iss" and new: "distinct new"
  shows "\<exists>new'. advance_stack rules st new = Some new' \<and> distinct new' \<and> set new' = set new \<union> terminals rules st"
proof -
  have "finite (reach rules st)" using stack_ends [OF enc nlr st] by (simp add: ends_def)
  then show ?thesis
    using advance_loop_exact [OF enc, of "[st]" "{}" new] st new by (auto simp: advance_stack_def closed_seen_def)
qed

lemma terminals_not_empty:
  "encodes rules g \<Longrightarrow> no_left_recursion g \<Longrightarrow> stack_items g rules st iss \<Longrightarrow> terminals rules st \<noteq> {}"
  using stack_ends [of rules g st iss] by (auto simp: ends_def terminals_def)

text \<open>The stacks of a grammar: positions of the rules with a class or a token on top.\<close>

definition ready_stack :: "cfg \<Rightarrow> gr_rules \<Rightarrow> gr_stack \<Rightarrow> bool" where
  "ready_stack g rules st \<longleftrightarrow> terminal rules st \<and> (\<exists>iss. stack_items g rules st iss)"

lemma terminals_ready: "encodes rules g \<Longrightarrow> stack_items g rules st iss \<Longrightarrow> t \<in> terminals rules st \<Longrightarrow> ready_stack g rules t"
  using reach_items by (fastforce simp: terminals_def ready_stack_def)

lemma terminals_derive:
  "encodes rules g \<Longrightarrow> stack_items g rules st iss \<Longrightarrow>
    (\<exists>t\<in>terminals rules st. stack_derives g rules t w) \<longleftrightarrow> stack_derives g rules st w"
  using terminal_stacks_derive [of rules g st iss w] by (auto simp: terminals_def)

end
