(* ===== verification/Grammar_Accept.thy ===== *)
theory Grammar_Accept
  imports Grammar_Advance
begin

text \<open>
  Accepting text. The stacks of a grammar are the states of an automaton that reads one symbol at a time: what
  is left to read after a symbol is what the words that begin with it go on with.
\<close>

section \<open>An automaton whose states have languages\<close>

locale language_automaton =
  fixes ok :: "'s \<Rightarrow> bool"
    and lang :: "'s \<Rightarrow> 'a list \<Rightarrow> bool"
    and step :: "'s \<Rightarrow> 'a \<Rightarrow> 's set"
    and final :: "'s \<Rightarrow> bool"
  assumes step_ok: "ok s \<Longrightarrow> t \<in> step s x \<Longrightarrow> ok t"
    and step_lang: "ok s \<Longrightarrow> (\<exists>t\<in>step s x. lang t w) \<longleftrightarrow> lang s (x # w)"
    and lang_Nil: "ok s \<Longrightarrow> lang s [] \<longleftrightarrow> final s"
begin

fun steps :: "'s set \<Rightarrow> 'a list \<Rightarrow> 's set" where
  "steps S [] = S"
| "steps S (x # xs) = steps (\<Union>s\<in>S. step s x) xs"

lemma steps_ok: "\<forall>s\<in>S. ok s \<Longrightarrow> t \<in> steps S xs \<Longrightarrow> ok t"
proof (induction xs arbitrary: S)
  case (Cons x xs)
  have "\<forall>s\<in>\<Union>s\<in>S. step s x. ok s" using Cons(2) step_ok by blast
  moreover have "t \<in> steps (\<Union>s\<in>S. step s x) xs" using Cons(3) by simp
  ultimately show ?case by (rule Cons(1))
qed simp

lemma steps_lang: "\<forall>s\<in>S. ok s \<Longrightarrow> (\<exists>t\<in>steps S xs. lang t w) \<longleftrightarrow> (\<exists>s\<in>S. lang s (xs @ w))"
proof (induction xs arbitrary: S)
  case (Cons x xs)
  have "\<forall>s\<in>\<Union>s\<in>S. step s x. ok s" using Cons(2) step_ok by blast
  then have "(\<exists>t\<in>steps (\<Union>s\<in>S. step s x) xs. lang t w) \<longleftrightarrow> (\<exists>s\<in>\<Union>s\<in>S. step s x. lang s (xs @ w))"
    by (rule Cons(1))
  also have "\<dots> \<longleftrightarrow> (\<exists>s\<in>S. \<exists>t\<in>step s x. lang t (xs @ w))" by blast
  also have "\<dots> \<longleftrightarrow> (\<exists>s\<in>S. lang s (x # xs @ w))" by (intro bex_cong refl step_lang) (use Cons(2) in blast)
  finally show ?case by simp
qed simp

lemma steps_final:
  assumes "\<forall>s\<in>S. ok s"
  shows "(\<exists>t\<in>steps S xs. final t) \<longleftrightarrow> (\<exists>s\<in>S. lang s xs)"
proof -
  have "(\<exists>t\<in>steps S xs. final t) \<longleftrightarrow> (\<exists>t\<in>steps S xs. lang t [])"
    using steps_ok [OF assms] lang_Nil by blast
  then show ?thesis using steps_lang [OF assms, of xs "[]"] by simp
qed

lemma steps_empty: "steps {} xs = {}"
  by (induction xs) auto

lemma steps_each: "steps S xs = (\<Union>t\<in>S. steps {t} xs)"
proof (induction xs arbitrary: S)
  case (Cons x xs)
  have "steps (\<Union>s\<in>S. step s x) xs = (\<Union>t\<in>\<Union>s\<in>S. step s x. steps {t} xs)" by (rule Cons)
  also have "\<dots> = (\<Union>s\<in>S. \<Union>t\<in>step s x. steps {t} xs)" by blast
  also have "\<dots> = (\<Union>s\<in>S. steps (step s x) xs)" by (intro SUP_cong refl Cons [symmetric])
  finally show ?case by simp
qed simp

end

section \<open>One symbol\<close>

abbreviation after_item :: "gr_pos \<Rightarrow> gr_item \<Rightarrow> gr_pos" where
  "after_item p it \<equiv> (fst p, snd p + length (enc_item it))"

definition symbol_stacks :: "gr_rules \<Rightarrow> gr_stack \<Rightarrow> gr_symbol \<Rightarrow> gr_stack set" where
  "symbol_stacks rules st x = {t. \<exists>p below it its. st = p # below \<and> at_items rules p (it # its) \<and> item_symbol it x \<and>
    t \<in> terminals rules (pushed (after_item p it) its below)}"

lemma symbol_stacks_Nil [simp]: "symbol_stacks rules [] x = {}"
  by (auto simp: symbol_stacks_def)

lemma symbol_stacks_Cons:
  assumes "at_items rules p (it # its)"
  shows "symbol_stacks rules (p # below) x = (if item_symbol it x then terminals rules (pushed (after_item p it) its below) else {})"
proof -
  have "at_items rules p (it' # its') \<longleftrightarrow> it' = it \<and> its' = its" for it' its'
    using at_items_unique [OF assms, of "it' # its'"] assms by auto
  then show ?thesis by (auto simp: symbol_stacks_def)
qed

definition state_ok :: "cfg \<Rightarrow> gr_rules \<Rightarrow> gr_stack \<Rightarrow> bool" where
  "state_ok g rules st \<longleftrightarrow> encodes rules g \<and> ready_stack g rules st"

text \<open>A state that is not finished: the item on top is not a reference.\<close>

lemma state_cases:
  assumes "state_ok g rules st"
  obtains "st = []"
    | p below it its jss where "st = p # below" "at_items rules p (it # its)" "refs_ok g (it # its)" "stack_items g rules below jss"
      "\<nexists>r. it = Ref r" "stack_items g rules st ((it # its) # jss)"
      "stack_items g rules (pushed (after_item p it) its below) (push_items its jss)"
proof (cases st)
  case (Cons p below)
  obtain it its jss where s: "at_items rules p (it # its)" "refs_ok g (it # its)" "stack_items g rules below jss"
    using assms Cons by (auto simp: state_ok_def ready_stack_def stack_items_Cons)
  have n: "\<nexists>r. it = Ref r"
  proof
    assume "\<exists>r. it = Ref r"
    then have "\<not> terminal rules st" using Ref_not_terminal s(1) Cons by blast
    then show False using assms by (simp add: state_ok_def ready_stack_def)
  qed
  have "stack_items g rules (pushed (after_item p it) its below) (push_items its jss)"
    by (rule stack_items_pushed [OF at_items_Cons(3) [OF s(1)] refs_ok_Cons [OF s(2)] s(3)])
  then show ?thesis using that(2) Cons s n by (auto simp: stack_items_Cons)
qed (rule that(1))

lemma symbol_stacks_ok:
  assumes "state_ok g rules st" "t \<in> symbol_stacks rules st x"
  shows "state_ok g rules t"
  using assms(1)
proof (cases rule: state_cases)
  case 1
  then show ?thesis using assms(2) by simp
next
  case (2 p below it its jss)
  then have "t \<in> terminals rules (pushed (after_item p it) its below)"
    using assms(2) symbol_stacks_Cons [OF 2(2)] by (auto split: if_splits)
  then show ?thesis using terminals_ready [OF _ 2(7)] assms(1) by (auto simp: state_ok_def)
qed

lemma symbol_stacks_derive:
  assumes "state_ok g rules st"
  shows "(\<exists>t\<in>symbol_stacks rules st x. stack_derives g rules t w) \<longleftrightarrow> stack_derives g rules st (x # w)"
  using assms
proof (cases rule: state_cases)
  case 1
  then show ?thesis by (auto simp: stack_derives_def)
next
  case (2 p below it its jss)
  have enc: "encodes rules g" using assms by (simp add: state_ok_def)
  have "stack_derives g rules st (x # w) \<longleftrightarrow> item_symbol it x \<and> derives g (its @ concat jss) w"
    using stack_derives_iff [OF 2(6)] derives_sym_iff [OF 2(5)] by auto
  moreover have "stack_derives g rules (pushed (after_item p it) its below) w \<longleftrightarrow> derives g (its @ concat jss) w"
    using stack_derives_iff [OF 2(7)] by simp
  ultimately show ?thesis
    using terminals_derive [OF enc 2(7)] symbol_stacks_Cons [OF 2(2)] 2(1) by auto
qed

lemma state_derives_Nil:
  assumes "state_ok g rules st"
  shows "stack_derives g rules st [] \<longleftrightarrow> st = []"
  using assms
proof (cases rule: state_cases)
  case 1
  then show ?thesis by (auto simp: stack_derives_def)
next
  case (2 p below it its jss)
  then show ?thesis using stack_derives_iff [OF 2(6)] derives_sym_iff [OF 2(5)] by auto
qed

interpretation stacks: language_automaton "state_ok g rules" "stack_derives g rules" "symbol_stacks rules" "\<lambda>st. st = []" for g rules
  by unfold_locales (auto intro: symbol_stacks_ok simp: symbol_stacks_derive state_derives_Nil)

section \<open>What the code does with a symbol\<close>

text \<open>The item on top of a state, as the code reads it.\<close>

lemma state_item:
  assumes "at_items rules p (it # its)" "\<nexists>r. it = Ref r"
  shows "is_token (item_head it) \<longleftrightarrow> (\<exists>neg t. it = Token neg t)"
    "\<not> is_token (item_head it) \<Longrightarrow> is_class it \<and> match_char rules p c = Some (item_char it c, after_item p it)"
    "is_token (item_head it) \<Longrightarrow> match_token (item_head it) token = item_token it token \<and> after_item p it = next_pos p"
proof -
  show tok: "is_token (item_head it) \<longleftrightarrow> (\<exists>neg t. it = Token neg t)"
    by (cases it) (auto simp: is_token_def)
  show "is_token (item_head it) \<Longrightarrow> match_token (item_head it) token = item_token it token \<and> after_item p it = next_pos p"
    using tok by (cases it) (auto simp: match_token_def)
  assume "\<not> is_token (item_head it)"
  then have "is_class it" using tok assms(2) by (cases it) (auto simp: is_class_def)
  then show "is_class it \<and> match_char rules p c = Some (item_char it c, after_item p it)"
    using match_char_item [OF assms(1)] by simp
qed

lemma advance_pushed:
  assumes "encodes rules g" "no_left_recursion g" "at_items rules p its" "stack_items g rules (pushed p its below) iss" "distinct new"
  shows "\<exists>new'. (do { st' \<leftarrow> push_unless_end rules p below; advance_stack rules st' new }) = Some new' \<and> distinct new' \<and>
    set new' = set new \<union> terminals rules (pushed p its below)"
  using advance_stack_exact [OF assms(1,2,4,5)] push_at_items [OF assms(3)] by simp

lemma accept_chr_exact:
  assumes ok: "state_ok g rules st" and nlr: "no_left_recursion g" and new: "distinct new"
  shows "\<exists>new'. accept_chr rules st c new = Some new' \<and> distinct new' \<and> set new' = set new \<union> symbol_stacks rules st (Chr c)"
  using ok
proof (cases rule: state_cases)
  case 1
  then show ?thesis using new by (simp add: accept_chr_def)
next
  case (2 p below it its jss)
  have enc: "encodes rules g" using ok by (simp add: state_ok_def)
  have el: "elem_at rules p = Some (item_head it)" by (rule at_items_Cons(1) [OF 2(2)])
  note item = state_item [OF 2(2,5)]
  show ?thesis
  proof (cases "is_token (item_head it)")
    case True
    then have "\<not> item_char it c" using item(1) by auto
    then show ?thesis using True el 2(1) new symbol_stacks_Cons [OF 2(2)] by (simp add: accept_chr_def)
  next
    case False
    then have m: "match_char rules p c = Some (item_char it c, after_item p it)" using item(2) by blast
    show ?thesis
      using advance_pushed [OF enc nlr at_items_Cons(3) [OF 2(2)] 2(7) new] el m False new 2(1) symbol_stacks_Cons [OF 2(2)]
      by (cases "item_char it c") (simp_all add: accept_chr_def)
  qed
qed

text \<open>A loop over the stacks that adds the next ones of each.\<close>

lemma foldM_stacks:
  assumes "\<And>st new. st \<in> set sts \<Longrightarrow> distinct new \<Longrightarrow> \<exists>new'. f st new = Some new' \<and> distinct new' \<and> set new' = set new \<union> F st"
  shows "distinct new \<Longrightarrow> \<exists>new'. foldM f sts new = Some new' \<and> distinct new' \<and> set new' = set new \<union> (\<Union>st\<in>set sts. F st)"
  using assms
proof (induction sts arbitrary: new)
  case (Cons st sts)
  obtain new1 where n1: "f st new = Some new1" "distinct new1" "set new1 = set new \<union> F st" using Cons(3) [of st new] Cons(2) by auto
  obtain new2 where "foldM f sts new1 = Some new2" "distinct new2" "set new2 = set new1 \<union> (\<Union>st\<in>set sts. F st)"
    using Cons(1) [OF n1(2)] Cons(3) by auto
  then show ?case using n1 by auto
qed simp

lemma accept_stacks_exact:
  assumes "\<forall>st\<in>set sts. state_ok g rules st" "no_left_recursion g"
  shows "\<exists>new. accept_stacks rules c sts = Some new \<and> distinct new \<and> set new = (\<Union>st\<in>set sts. symbol_stacks rules st (Chr c))"
proof -
  have "\<exists>new'. accept_chr rules st c new = Some new' \<and> distinct new' \<and> set new' = set new \<union> symbol_stacks rules st (Chr c)"
    if "st \<in> set sts" "distinct new" for st new
    using accept_chr_exact assms that by blast
  from foldM_stacks [of sts _ _ "[]", OF this] show ?thesis by (simp add: accept_stacks_def)
qed

lemma accept_points_exact:
  assumes "no_left_recursion g"
  shows "\<forall>st\<in>set sts. state_ok g rules st \<Longrightarrow>
    \<exists>new. accept_points rules cs sts = Some new \<and> set new = stacks.steps rules (set sts) (map Chr cs)"
proof (induction cs arbitrary: sts)
  case (Cons c cs)
  obtain new where new: "accept_stacks rules c sts = Some new" "set new = (\<Union>st\<in>set sts. symbol_stacks rules st (Chr c))"
    using accept_stacks_exact [OF Cons(2) assms] by blast
  then have ok: "\<forall>st\<in>set new. state_ok g rules st" using Cons(2) symbol_stacks_ok by fastforce
  show ?case
  proof (cases "new = []")
    case True
    then show ?thesis using new stacks.steps_empty by simp
  next
    case False
    then show ?thesis using Cons(1) [OF ok] new by simp
  qed
qed simp

lemma foldl_add_new: "distinct new \<Longrightarrow> distinct (foldl add_new new sts) \<and> set (foldl add_new new sts) = set new \<union> set sts"
  by (induction sts arbitrary: new) (auto simp: distinct_add_new)

text \<open>A token at one stack: a token element takes the token itself, a character class its characters.\<close>

definition token_top :: "gr_rules \<Rightarrow> gr_stack \<Rightarrow> bool" where
  "token_top rules st \<longleftrightarrow> (\<exists>p below e. st = p # below \<and> elem_at rules p = Some e \<and> is_token e)"

definition token_stacks :: "gr_rules \<Rightarrow> int \<Rightarrow> u32 list \<Rightarrow> gr_stack \<Rightarrow> gr_stack set" where
  "token_stacks rules token cps st =
    (if st = [] then {} else if token_top rules st then symbol_stacks rules st (Tok token)
     else stacks.steps rules {st} (map Chr cps))"

lemma accept_token_stack_exact:
  assumes ok: "state_ok g rules st" and nlr: "no_left_recursion g" and new: "distinct new"
  shows "\<exists>new'. accept_token_stack rules token cps st new = Some new' \<and> distinct new' \<and>
    set new' = set new \<union> token_stacks rules token cps st"
  using ok
proof (cases rule: state_cases)
  case 1
  then show ?thesis using new by (simp add: accept_token_stack_def token_stacks_def)
next
  case (2 p below it its jss)
  have enc: "encodes rules g" using ok by (simp add: state_ok_def)
  have el: "elem_at rules p = Some (item_head it)" by (rule at_items_Cons(1) [OF 2(2)])
  have top: "token_top rules st \<longleftrightarrow> is_token (item_head it)" using el 2(1) by (simp add: token_top_def)
  note item = state_item [OF 2(2,5)]
  show ?thesis
  proof (cases "is_token (item_head it)")
    case True
    then have m: "match_token (item_head it) token = item_token it token" "after_item p it = next_pos p" using item(3) by blast+
    have "at_items rules (next_pos p) its" "stack_items g rules (pushed (next_pos p) its below) (push_items its jss)"
      using at_items_Cons(3) [OF 2(2)] 2(7) m(2) by simp_all
    from advance_pushed [OF enc nlr this new]
    show ?thesis using el m True new 2(1) symbol_stacks_Cons [OF 2(2)] top
      by (cases "item_token it token") (simp_all add: accept_token_stack_def token_stacks_def)
  next
    case False
    obtain sts where "accept_points rules cps [st] = Some sts" "set sts = stacks.steps rules {st} (map Chr cps)"
      using accept_points_exact [OF nlr, of "[st]" rules cps] ok by auto
    then show ?thesis
      using el False 2(1) top foldl_add_new [OF new, of sts] by (simp add: accept_token_stack_def token_stacks_def)
  qed
qed

text \<open>A grammar object in step with a context-free grammar.\<close>

definition grammar_ok :: "cfg \<Rightarrow> grammar \<Rightarrow> bool" where
  "grammar_ok g G \<longleftrightarrow> encodes (g_rules G) g \<and> (\<forall>st\<in>set (g_stacks G). ready_stack g (g_rules G) st)"

lemma grammar_ok_state: "grammar_ok g G \<Longrightarrow> st \<in> set (g_stacks G) \<Longrightarrow> state_ok g (g_rules G) st"
  by (simp add: grammar_ok_def state_ok_def)

text \<open>The words that may still follow.\<close>

definition expects :: "cfg \<Rightarrow> grammar \<Rightarrow> gr_symbol list \<Rightarrow> bool" where
  "expects g G w \<longleftrightarrow> (\<exists>st\<in>set (g_stacks G). stack_derives g (g_rules G) st w)"

lemma expects_Nil: "grammar_ok g G \<Longrightarrow> expects g G [] \<longleftrightarrow> [] \<in> set (g_stacks G)"
  using state_derives_Nil [OF grammar_ok_state] by (auto simp: expects_def)

lemma token_stacks_ok: "state_ok g rules st \<Longrightarrow> t \<in> token_stacks rules token cps st \<Longrightarrow> state_ok g rules t"
  using symbol_stacks_ok stacks.steps_ok [of "{st}" g rules t] by (auto simp: token_stacks_def split: if_splits)

lemma accept_token_exact:
  assumes ok: "grammar_ok g G" and nlr: "no_left_recursion g"
  shows "\<exists>sts. accept_token G token piece =
      Some (check_stacks (G\<lparr> g_stacks := sts, g_partial := snd (decode_utf8 piece (g_partial G)) \<rparr>)) \<and>
    set sts = (\<Union>st\<in>set (g_stacks G). token_stacks (g_rules G) token (butlast (fst (decode_utf8 piece (g_partial G)))) st)"
proof -
  let ?cps = "butlast (fst (decode_utf8 piece (g_partial G)))"
  have "\<exists>new'. accept_token_stack (g_rules G) token ?cps st new = Some new' \<and> distinct new' \<and>
      set new' = set new \<union> token_stacks (g_rules G) token ?cps st"
    if "st \<in> set (g_stacks G)" "distinct new" for st new
    using accept_token_stack_exact [OF grammar_ok_state [OF ok] nlr] that by blast
  from foldM_stacks [of "g_stacks G" "\<lambda>st new. accept_token_stack (g_rules G) token ?cps st new"
      "token_stacks (g_rules G) token ?cps" "[]", OF this]
  obtain sts where "foldM (\<lambda>st new. accept_token_stack (g_rules G) token ?cps st new) (g_stacks G) [] = Some sts"
      "set sts = (\<Union>st\<in>set (g_stacks G). token_stacks (g_rules G) token ?cps st)"
    by auto
  then show ?thesis by (auto simp: accept_token_def case_prod_unfold)
qed

end
