(* ===== verification/Grammar_Text.thy ===== *)
theory Grammar_Text
  imports Grammar_Accept
begin

text \<open>
  A grammar from its construction to the text of many tokens, whose pieces may cut characters anywhere: for grammars
  without token elements what was accepted and what may follow is a matter of the characters alone.
\<close>

section \<open>The first stacks\<close>

lemma start_stacks_exact:
  assumes enc: "encodes rules g" and nlr: "no_left_recursion g" and r: "r < length g"
  shows "\<exists>sts. start_stacks rules r = Some sts \<and> distinct sts \<and> (\<forall>st\<in>set sts. ready_stack g rules st) \<and>
    (\<forall>w. (\<exists>st\<in>set sts. stack_derives g rules st w) \<longleftrightarrow> rule_derives g r w)"
proof -
  obtain starts where s: "alternates rules r = Some starts" "list_all2 (\<lambda>a alt. fst a = r \<and> at_items rules a alt) starts (g ! r)"
    using alternates_items [OF enc r] by blast
  have ok: "\<forall>alt\<in>set (g ! r). refs_ok g alt" using enc r by (auto simp: encodes_def)
  have loop: "\<exists>sts. foldM (\<lambda>a new. do { st \<leftarrow> push_unless_end rules a []; advance_stack rules st new }) as new = Some sts \<and>
      distinct sts \<and> (\<forall>st\<in>set sts. ready_stack g rules st) \<and>
      (\<forall>w. (\<exists>st\<in>set sts. stack_derives g rules st w) \<longleftrightarrow>
        (\<exists>st\<in>set new. stack_derives g rules st w) \<or> (\<exists>alt\<in>set alts. derives g alt w))"
    if "list_all2 (\<lambda>a alt. fst a = r \<and> at_items rules a alt) as alts" "\<forall>alt\<in>set alts. refs_ok g alt"
      "distinct new" "\<forall>st\<in>set new. ready_stack g rules st" for as alts new
    using that
  proof (induction as alts arbitrary: new rule: list_all2_induct)
    case (Cons a as alt alts)
    have a: "at_items rules a alt" using Cons(1) by simp
    have items: "stack_items g rules (pushed a alt []) (push_items alt [])"
      using Cons(4) by (intro stack_items_pushed [OF a]) auto
    obtain new1 where n: "advance_stack rules (pushed a alt []) new = Some new1" "distinct new1"
        "set new1 = set new \<union> terminals rules (pushed a alt [])"
      using advance_stack_exact [OF enc nlr items Cons(5)] by blast
    have ready: "\<forall>st\<in>set new1. ready_stack g rules st" using n(3) Cons(6) terminals_ready [OF enc items] by auto
    have derive: "(\<exists>st\<in>set new1. stack_derives g rules st w) \<longleftrightarrow> (\<exists>st\<in>set new. stack_derives g rules st w) \<or> derives g alt w" for w
      using n(3) terminals_derive [OF enc items, of w] stack_derives_iff [OF items] by auto
    have "\<forall>alt\<in>set alts. refs_ok g alt" using Cons(4) by simp
    from Cons(3) [OF this n(2) ready] show ?case using n(1) push_at_items [OF a] derive by auto
  qed simp
  show ?thesis using loop [OF s(2) ok, of "[]"] s(1) r by (auto simp: start_stacks_def rule_derives_def)
qed

lemma copy_rule_enc: "alts \<noteq> [] \<Longrightarrow> copy_rule (enc_rule alts) = Some (enc_rule alts)"
proof -
  have not_end: "el_type x \<noteq> GRE_END" if "x \<in> set (enc_items its)" for x its
  proof -
    have "\<not> is_end x" if "x \<in> set (enc_item it)" for it using not_is_end_item that .
    then show ?thesis using that by (auto simp: is_end_def)
  qed
  have "(\<exists>e\<in>set (enc_rule alts). el_type e = GRE_END) \<and>
      takeWhile (\<lambda>e. el_type e \<noteq> GRE_END) (enc_rule alts) @ [Elem GRE_END 0] = enc_rule alts" if "alts \<noteq> []" for alts
    using that
  proof (induction alts rule: enc_rule.induct)
    case (2 alt)
    then show ?case using not_end [of _ alt] by (auto simp: takeWhile_append)
  next
    case (3 alt alt' alts)
    then show ?case using not_end [of _ alt] by (auto simp: takeWhile_append)
  qed simp
  then show "alts \<noteq> [] \<Longrightarrow> copy_rule (enc_rule alts) = Some (enc_rule alts)" by (simp add: copy_rule_def)
qed

lemma copy_rules_enc: "\<forall>alts\<in>set g. alts \<noteq> [] \<Longrightarrow> copy_rules (map enc_rule g) = Some (map enc_rule g)"
  by (induction g) (auto simp: copy_rule_enc)

section \<open>Text without token elements\<close>

definition token_free :: "gr_rules \<Rightarrow> bool" where
  "token_free rules \<longleftrightarrow> (\<forall>rule\<in>set rules. \<forall>e\<in>set rule. \<not> is_token e)"

lemma elem_at_mem: "elem_at rules p = Some e \<Longrightarrow> \<exists>rule\<in>set rules. e \<in> set rule"
proof -
  assume "elem_at rules p = Some e"
  then have "fst p < length rules" "e \<in> set (drop (snd p) (rules ! fst p))"
    by (auto simp: elem_at_def rest_at_def split: list.splits if_splits)
  then show ?thesis using in_set_dropD nth_mem by fastforce
qed

lemma token_free_top: "token_free rules \<Longrightarrow> \<not> token_top rules st"
  using elem_at_mem by (fastforce simp: token_top_def token_free_def)

text \<open>Accepting a token whose piece completes characters, and one whose piece does not.\<close>

lemma accept_token_text:
  assumes ok: "grammar_ok g G" and nlr: "no_left_recursion g" and free: "token_free (g_rules G)"
    and dec: "decode_utf8 piece (g_partial G) = (cps @ [0], pu)"
  shows "\<exists>G'. accept_token G token piece = Some (check_stacks G') \<and> grammar_ok g G' \<and> g_rules G' = g_rules G \<and> g_partial G' = pu \<and>
    (\<forall>w. cps \<noteq> [] \<or> w \<noteq> [] \<longrightarrow> expects g G' w = expects g G (map Chr cps @ w))"
proof -
  let ?R = "g_rules G"
  obtain sts where sts: "accept_token G token piece = Some (check_stacks (G\<lparr> g_stacks := sts, g_partial := pu \<rparr>))"
      "set sts = (\<Union>st\<in>set (g_stacks G). token_stacks ?R token cps st)"
    using accept_token_exact [OF ok nlr, of token piece] dec by auto
  let ?G = "G\<lparr> g_stacks := sts, g_partial := pu \<rparr>"
  have ready: "ready_stack g ?R t" if "st \<in> set (g_stacks G)" "t \<in> token_stacks ?R token cps st" for st t
    using token_stacks_ok [OF grammar_ok_state [OF ok that(1)] that(2)] by (simp add: state_ok_def)
  have "grammar_ok g ?G" using ready ok sts(2) by (auto simp: grammar_ok_def)
  moreover have "expects g ?G w = expects g G (map Chr cps @ w)" if w: "cps \<noteq> [] \<or> w \<noteq> []" for w
  proof -
    have "(\<exists>t\<in>token_stacks ?R token cps st. stack_derives g ?R t w) \<longleftrightarrow> stack_derives g ?R st (map Chr cps @ w)"
      if st: "st \<in> set (g_stacks G)" for st
    proof (cases "st = []")
      case True
      then show ?thesis using w by (auto simp: token_stacks_def stack_derives_def)
    next
      case False
      then have "token_stacks ?R token cps st = stacks.steps ?R {st} (map Chr cps)"
        using token_free_top [OF free] by (simp add: token_stacks_def)
      then show ?thesis using stacks.steps_lang [of "{st}" g ?R "map Chr cps" w] grammar_ok_state [OF ok st] by simp
    qed
    then show ?thesis using sts(2) by (auto simp: expects_def)
  qed
  ultimately show ?thesis using sts(1) by (intro exI [of _ ?G]) simp
qed

text \<open>Tokens one after the other, until one of them throws.\<close>

fun accept_tokens :: "(int \<times> u8 list) list \<Rightarrow> grammar \<Rightarrow> (grammar + grammar) option" where
  "accept_tokens [] G = Some (Inr G)"
| "accept_tokens ((token, piece) # tps) G = do {
     res \<leftarrow> accept_token G token piece;
     case res of Inl G' \<Rightarrow> Some (Inl G') | Inr G' \<Rightarrow> accept_tokens tps G' }"

lemma feed_pending: "feed_all (v, n) bs = Some ([], v', n') \<Longrightarrow> bs \<noteq> [] \<Longrightarrow> 0 < n'"
proof (induction bs arbitrary: v n)
  case (Cons b bs)
  obtain v1 n1 where f: "feed (v, n) b = Some ([], v1, n1)" "feed_all (v1, n1) bs = Some ([], v', n')"
    using Cons(2) by (auto split: option.splits)
  have "0 < n1" using f(1) by (auto simp: feed_def Let_def split: if_splits)
  then show ?case using f(2) Cons(1) [OF f(2)] by (cases bs) auto
qed simp

lemma feed_finish: "feed_all (v, n) bs = Some (out, v', 0) \<Longrightarrow> 0 < n \<Longrightarrow> out \<noteq> []"
proof (induction bs arbitrary: v n out)
  case (Cons b bs)
  obtain o1 v1 n1 o2 where f: "feed (v, n) b = Some (o1, v1, n1)" "feed_all (v1, n1) bs = Some (o2, v', 0)" "out = o1 @ o2"
    using Cons(2) by (auto split: option.splits)
  show ?case
  proof (cases "n = 1")
    case True
    then show ?thesis using f by (auto simp: feed_def split: if_splits)
  next
    case False
    then have "0 < n1" using f(1) Cons(3) by (auto simp: feed_def split: if_splits)
    then show ?thesis using Cons(1) [OF f(2)] f(3) by simp
  qed
qed simp

lemma accept_tokens_text:
  assumes nlr: "no_left_recursion g"
  shows "grammar_ok g G \<Longrightarrow> token_free (g_rules G) \<Longrightarrow> g_partial G = \<lparr> pu_value = v, pu_n_remain = n \<rparr> \<Longrightarrow> 0 \<le> n \<Longrightarrow>
    feed_all (v, n) (concat (map snd tps)) = Some (cs, v', 0) \<Longrightarrow> \<forall>piece\<in>set (map snd tps). piece \<noteq> [] \<and> 0 \<notin> set piece \<Longrightarrow>
    \<exists>res. accept_tokens tps G = Some res \<and>
      (case res of Inl _ \<Rightarrow> \<forall>w. \<not> expects g G (map Chr cs @ w)
       | Inr G' \<Rightarrow> grammar_ok g G' \<and> (\<forall>w. expects g G' w = expects g G (map Chr cs @ w)))"
proof (induction tps arbitrary: G v n cs)
  case (Cons tp tps)
  obtain token piece where tp: "tp = (token, piece)" by (cases tp)
  obtain o1 v1 n1 o2 where f: "feed_all (v, n) piece = Some (o1, v1, n1)"
      "feed_all (v1, n1) (concat (map snd tps)) = Some (o2, v', 0)" "cs = o1 @ o2"
    using Cons(6) tp by (auto simp: feed_all_append split: option.splits)
  have piece: "piece \<noteq> []" "0 \<notin> set piece" using Cons(7) tp by auto
  have dec: "decode_utf8 piece (g_partial G) = (o1 @ [0], \<lparr> pu_value = v1, pu_n_remain = n1 \<rparr>)"
    using decode_utf8_feed [OF f(1) Cons(5) piece(2)] Cons(4) by simp
  obtain G1 where G1: "accept_token G token piece = Some (check_stacks G1)" "grammar_ok g G1" "g_rules G1 = g_rules G"
      "g_partial G1 = \<lparr> pu_value = v1, pu_n_remain = n1 \<rparr>" "\<forall>w. o1 \<noteq> [] \<or> w \<noteq> [] \<longrightarrow> expects g G1 w = expects g G (map Chr o1 @ w)"
    using accept_token_text [OF Cons(2) nlr Cons(3) dec] by blast
  have "o1 \<noteq> [] \<or> o2 \<noteq> []" using feed_pending [of v n piece v1 n1] f(1) piece(1) feed_finish [OF f(2)] by auto
  then have expect: "expects g G1 (map Chr o2 @ w) = expects g G (map Chr cs @ w)" for w using G1(5) f(3) by auto
  show ?case
  proof (cases "g_stacks G1 = []")
    case True
    then have "\<not> expects g G (map Chr cs @ w)" for w using expect by (simp add: expects_def flip: expect)
    then show ?thesis using G1(1) True tp by (simp add: check_stacks_def)
  next
    case False
    obtain res where res: "accept_tokens tps G1 = Some res"
      "(case res of Inl _ \<Rightarrow> \<forall>w. \<not> expects g G1 (map Chr o2 @ w)
       | Inr G' \<Rightarrow> grammar_ok g G' \<and> (\<forall>w. expects g G' w = expects g G1 (map Chr o2 @ w)))"
      using Cons(1) [OF G1(2) _ G1(4) feed_all_nonneg [OF f(1) Cons(5)] f(2)] Cons(3,7) G1(3) by auto
    have "accept_tokens (tp # tps) G = Some res" using G1(1) False tp res(1) by (simp add: check_stacks_def)
    then show ?thesis using res(2) expect by (cases res) auto
  qed
qed (simp split: sum.split)

end
