(* ===== verification/Grammar_Recursion.thy ===== *)
theory Grammar_Recursion
  imports Grammar_Text
begin

text \<open>
  The check for left recursion is a depth-first search over the rules a rule can have leftmost. It is exact for the
  relation it looks at, which takes a rule for possibly empty only when one of its alternates is literally empty.
\<close>

section \<open>What the search looks at\<close>

text \<open>The references the loop over a rule descends into; \<open>E\<close> tells the rules with an empty alternate.\<close>

fun lefts :: "(nat \<Rightarrow> bool) \<Rightarrow> bool \<Rightarrow> gr_element list \<Rightarrow> nat list" where
  "lefts E recurse [] = []"
| "lefts E recurse (e # es) =
    (if el_type e = GRE_RULE_REF \<and> recurse then unat (el_value e) # lefts E (E (unat (el_value e))) es
     else lefts E (is_end e) es)"

definition empty_rule :: "gr_rules \<Rightarrow> nat \<Rightarrow> bool" where
  "empty_rule rules r \<longleftrightarrow> has_empty_alternate True (rules ! r)"

definition edge :: "gr_rules \<Rightarrow> nat \<Rightarrow> nat \<Rightarrow> bool" where
  "edge rules r q \<longleftrightarrow> r < length rules \<and> q \<in> set (lefts (empty_rule rules) True (rules ! r))"

definition cyclic :: "gr_rules \<Rightarrow> nat \<Rightarrow> bool" where
  "cyclic rules r \<longleftrightarrow> (\<exists>q. (edge rules)\<^sup>*\<^sup>* r q \<and> (edge rules)\<^sup>+\<^sup>+ q q)"

text \<open>A search from \<open>r\<close> with the rules \<open>P\<close> in progress finds something.\<close>

definition bad :: "gr_rules \<Rightarrow> nat set \<Rightarrow> nat \<Rightarrow> bool" where
  "bad rules P r \<longleftrightarrow> (\<exists>q. (edge rules)\<^sup>*\<^sup>* r q \<and> (q \<in> P \<or> (edge rules)\<^sup>+\<^sup>+ q q))"

definition in_progress :: "detection \<Rightarrow> nat set" where
  "in_progress d = {i. i < length (dt_in_progress d) \<and> dt_in_progress d ! i}"

definition detection_ok :: "gr_rules \<Rightarrow> detection \<Rightarrow> bool" where
  "detection_ok rules d \<longleftrightarrow> length (dt_visited d) = length rules \<and> length (dt_in_progress d) = length rules \<and>
    length (dt_may_be_empty d) = length rules \<and>
    (\<forall>i<length rules. dt_may_be_empty d ! i \<longrightarrow> empty_rule rules i) \<and>
    (\<forall>i<length rules. dt_visited d ! i \<longrightarrow> \<not> cyclic rules i)"

definition refs_below :: "gr_rules \<Rightarrow> bool" where
  "refs_below rules \<longleftrightarrow> (\<forall>rule\<in>set rules. \<forall>e\<in>set rule. el_type e = GRE_RULE_REF \<longrightarrow> unat (el_value e) < length rules)"

lemma bad_in: "r \<in> P \<Longrightarrow> bad rules P r"
  by (auto simp: bad_def)

lemma bad_step:
  assumes "r \<notin> P"
  shows "bad rules P r \<longleftrightarrow> (\<exists>s. edge rules r s \<and> bad rules (insert r P) s)"
proof
  assume "bad rules P r"
  then obtain q where q: "(edge rules)\<^sup>*\<^sup>* r q" "q \<in> P \<or> (edge rules)\<^sup>+\<^sup>+ q q" by (auto simp: bad_def)
  show "\<exists>s. edge rules r s \<and> bad rules (insert r P) s"
  proof (cases "q = r")
    case True
    then have "(edge rules)\<^sup>+\<^sup>+ r r" using q(2) assms by auto
    then obtain s where "edge rules r s" "(edge rules)\<^sup>*\<^sup>* s r" by (auto dest: tranclpD)
    then show ?thesis by (auto simp: bad_def)
  next
    case False
    then obtain s where "edge rules r s" "(edge rules)\<^sup>*\<^sup>* s q" using q(1) by (auto elim: converse_rtranclpE)
    then show ?thesis using q(2) by (auto simp: bad_def)
  qed
next
  assume "\<exists>s. edge rules r s \<and> bad rules (insert r P) s"
  then obtain s q where s: "edge rules r s" "(edge rules)\<^sup>*\<^sup>* s q" "q \<in> insert r P \<or> (edge rules)\<^sup>+\<^sup>+ q q" by (auto simp: bad_def)
  show "bad rules P r"
  proof (cases "q = r")
    case True
    then have "(edge rules)\<^sup>+\<^sup>+ r r" using s(1,2) by auto
    then show ?thesis by (auto simp: bad_def)
  next
    case False
    then show ?thesis using s by (auto simp: bad_def intro: converse_rtranclp_into_rtranclp)
  qed
qed

lemma not_bad_acyclic: "\<not> bad rules P r \<Longrightarrow> \<not> cyclic rules r"
  by (auto simp: bad_def cyclic_def)

lemma bad_empty: "bad rules {} r \<longleftrightarrow> cyclic rules r"
  by (simp add: bad_def cyclic_def)

section \<open>The search\<close>

text \<open>What one call establishes.\<close>

definition search_result :: "gr_rules \<Rightarrow> detection \<Rightarrow> bool \<Rightarrow> (bool \<times> detection) option \<Rightarrow> bool" where
  "search_result rules d found res \<longleftrightarrow> (\<exists>d'. res = Some (found, d') \<and>
    (\<not> found \<longrightarrow> detection_ok rules d' \<and> dt_in_progress d' = dt_in_progress d \<and>
      (\<forall>i<length rules. dt_may_be_empty d ! i \<longrightarrow> dt_may_be_empty d' ! i)))"

lemma detect_elems_exact:
  assumes rec: "\<And>q d. q < length rules \<Longrightarrow> detection_ok rules d \<Longrightarrow> in_progress d = P \<Longrightarrow>
      search_result rules d (bad rules P q) (rec q d) \<and> (\<forall>d'. rec q d = Some (False, d') \<longrightarrow> dt_may_be_empty d' ! q = empty_rule rules q)"
  shows "detection_ok rules d \<Longrightarrow> in_progress d = P \<Longrightarrow> \<forall>e\<in>set els. el_type e = GRE_RULE_REF \<longrightarrow> unat (el_value e) < length rules \<Longrightarrow>
    search_result rules d (\<exists>q\<in>set (lefts (empty_rule rules) recurse els). bad rules P q) (detect_elems rec recurse els d)"
proof (induction els arbitrary: recurse d)
  case Nil
  then show ?case by (simp add: search_result_def)
next
  case (Cons e es)
  show ?case
  proof (cases "el_type e = GRE_RULE_REF \<and> recurse")
    case True
    let ?q = "unat (el_value e)"
    have q: "?q < length rules" using Cons(4) True by simp
    obtain d1 where d1: "rec ?q d = Some (bad rules P ?q, d1)"
        "\<not> bad rules P ?q \<Longrightarrow> detection_ok rules d1 \<and> dt_in_progress d1 = dt_in_progress d \<and>
          (\<forall>i<length rules. dt_may_be_empty d ! i \<longrightarrow> dt_may_be_empty d1 ! i)"
      using rec [OF q Cons(2,3)] by (auto simp: search_result_def)
    show ?thesis
    proof (cases "bad rules P ?q")
      case bad: True
      then show ?thesis using True d1 by (simp add: search_result_def)
    next
      case good: False
      have ok: "detection_ok rules d1" "in_progress d1 = P" using d1(2) [OF good] Cons(3) by (auto simp: in_progress_def)
      have m: "dt_may_be_empty d1 ! ?q = empty_rule rules ?q" using rec [OF q Cons(2,3)] d1(1) good by simp
      have "?q < length (dt_may_be_empty d1)" using ok(1) q by (simp add: detection_ok_def)
      then have same: "detect_elems rec recurse (e # es) d = detect_elems rec (empty_rule rules ?q) es d1"
        using True good d1(1) m by simp
      obtain d2 where "detect_elems rec (empty_rule rules ?q) es d1 =
            Some (\<exists>q\<in>set (lefts (empty_rule rules) (empty_rule rules ?q) es). bad rules P q, d2)"
          "\<not> (\<exists>q\<in>set (lefts (empty_rule rules) (empty_rule rules ?q) es). bad rules P q) \<Longrightarrow>
            detection_ok rules d2 \<and> dt_in_progress d2 = dt_in_progress d1 \<and>
            (\<forall>i<length rules. dt_may_be_empty d1 ! i \<longrightarrow> dt_may_be_empty d2 ! i)"
        using Cons(1) [OF ok, of "empty_rule rules ?q"] Cons(4) by (auto simp: search_result_def)
      then show ?thesis unfolding search_result_def same using d1(2) [OF good] True good by auto
    qed
  next
    case False
    then have "lefts (empty_rule rules) recurse (e # es) = lefts (empty_rule rules) (is_end e) es"
        "detect_elems rec recurse (e # es) d = detect_elems rec (is_end e) es d" by auto
    then show ?thesis using Cons(1) [OF Cons(2,3), of "is_end e"] Cons(4) by simp
  qed
qed

lemma detect_exact:
  assumes below: "refs_below rules"
  shows "r < length rules \<Longrightarrow> detection_ok rules d \<Longrightarrow> card ({..<length rules} - in_progress d) < n \<Longrightarrow>
    search_result rules d (bad rules (in_progress d) r) (detect_left_recursion n rules r d) \<and>
    (\<forall>d'. detect_left_recursion n rules r d = Some (False, d') \<longrightarrow> dt_may_be_empty d' ! r = empty_rule rules r)"
proof (induction n arbitrary: r d)
  case (Suc n)
  have len: "length (dt_in_progress d) = length rules" "length (dt_may_be_empty d) = length rules" "length (dt_visited d) = length rules"
    using Suc(3) by (simp_all add: detection_ok_def)
  show ?case
  proof (cases "r \<in> in_progress d")
    case True
    then have "dt_in_progress d ! r" by (simp add: in_progress_def)
    then show ?thesis using Suc(2) bad_in [OF True] by (simp add: search_result_def)
  next
    case False
    then have np: "\<not> dt_in_progress d ! r" using Suc(2) len by (simp add: in_progress_def)
    define d1 where "d1 = d\<lparr> dt_in_progress := (dt_in_progress d)[r := True] \<rparr>"
    define d2 where "d2 = (if has_empty_alternate True (rules ! r) then d1\<lparr> dt_may_be_empty := (dt_may_be_empty d1)[r := True] \<rparr> else d1)"
    let ?P = "insert r (in_progress d)"
    have ok2: "detection_ok rules d2"
      using Suc(2,3) by (auto simp: d2_def d1_def detection_ok_def empty_rule_def nth_list_update split: if_splits)
    have P2: "in_progress d2 = ?P"
      using Suc(2) len by (auto simp: in_progress_def d2_def d1_def nth_list_update split: if_splits)
    have prog2: "dt_in_progress d2 = (dt_in_progress d)[r := True]" by (simp add: d2_def d1_def)
    have "{..<length rules} - ?P \<subset> {..<length rules} - in_progress d" using Suc(2) False by auto
    then have "card ({..<length rules} - ?P) < n" using Suc(4) psubset_card_mono [of "{..<length rules} - in_progress d"] by fastforce
    then have rec: "search_result rules d' (bad rules ?P q) (detect_left_recursion n rules q d') \<and>
        (\<forall>d''. detect_left_recursion n rules q d' = Some (False, d'') \<longrightarrow> dt_may_be_empty d'' ! q = empty_rule rules q)"
      if "q < length rules" "detection_ok rules d'" "in_progress d' = ?P" for q d'
      using Suc(1) [OF that(1,2)] that(3) by simp
    have "\<forall>e\<in>set (rules ! r). el_type e = GRE_RULE_REF \<longrightarrow> unat (el_value e) < length rules"
      using below nth_mem [OF Suc(2)] unfolding refs_below_def by blast
    from detect_elems_exact [of rules ?P "detect_left_recursion n rules", OF rec ok2 P2 this, of True]
    have "search_result rules d2 (\<exists>q\<in>set (lefts (empty_rule rules) True (rules ! r)). bad rules ?P q)
        (detect_elems (detect_left_recursion n rules) True (rules ! r) d2)" .
    then obtain d3 where d3: "detect_elems (detect_left_recursion n rules) True (rules ! r) d2 =
          Some (\<exists>q\<in>set (lefts (empty_rule rules) True (rules ! r)). bad rules ?P q, d3)"
        "\<not> (\<exists>q\<in>set (lefts (empty_rule rules) True (rules ! r)). bad rules ?P q) \<Longrightarrow>
          detection_ok rules d3 \<and> dt_in_progress d3 = dt_in_progress d2 \<and>
          (\<forall>i<length rules. dt_may_be_empty d2 ! i \<longrightarrow> dt_may_be_empty d3 ! i)"
      unfolding search_result_def by blast
    have found: "(\<exists>q\<in>set (lefts (empty_rule rules) True (rules ! r)). bad rules ?P q) \<longleftrightarrow> bad rules (in_progress d) r"
      using bad_step [OF False] Suc(2) by (auto simp: edge_def)
    have unf: "detect_left_recursion (Suc n) rules r d =
        Option.bind (detect_elems (detect_left_recursion n rules) True (rules ! r) d2) (\<lambda>(found, d3).
          if found then Some (True, d3)
          else Some (False, d3\<lparr> dt_in_progress := (dt_in_progress d3)[r := False], dt_visited := (dt_visited d3)[r := True] \<rparr>))"
      using Suc(2) np unfolding d2_def d1_def detect_left_recursion.simps Let_def by simp
    have step: "detect_left_recursion (Suc n) rules r d =
        (if bad rules (in_progress d) r then Some (True, d3)
         else Some (False, d3\<lparr> dt_in_progress := (dt_in_progress d3)[r := False], dt_visited := (dt_visited d3)[r := True] \<rparr>))"
      unfolding unf d3(1) found by simp
    show ?thesis
    proof (cases "bad rules (in_progress d) r")
      case True
      then show ?thesis using step by (simp add: search_result_def)
    next
      case good: False
      then have ok3: "detection_ok rules d3" "dt_in_progress d3 = dt_in_progress d2"
          "\<And>i. i < length rules \<Longrightarrow> dt_may_be_empty d2 ! i \<Longrightarrow> dt_may_be_empty d3 ! i"
        using d3(2) found by auto
      have "(dt_in_progress d)[r := False] = dt_in_progress d" using np Suc(2) len by (simp add: list_update_same_conv)
      moreover have "dt_may_be_empty d3 ! r = empty_rule rules r"
      proof (cases "empty_rule rules r")
        case True
        then have "dt_may_be_empty d2 ! r" using Suc(2) len by (simp add: d2_def d1_def empty_rule_def)
        then show ?thesis using ok3(3) [OF Suc(2)] True by simp
      next
        case False
        then show ?thesis using ok3(1) Suc(2) by (auto simp: detection_ok_def)
      qed
      moreover have "dt_may_be_empty d3 ! i" if "i < length rules" "dt_may_be_empty d ! i" for i
        using ok3(3) [OF that(1)] that len by (cases "i = r") (auto simp: d2_def d1_def)
      ultimately show ?thesis
        using step good ok3 prog2 not_bad_acyclic [OF good]
        by (auto simp: search_result_def detection_ok_def nth_list_update)
    qed
  qed
qed simp

lemma detect_all_exact:
  assumes below: "refs_below rules"
  shows "detection_ok rules d \<Longrightarrow> in_progress d = {} \<Longrightarrow> \<forall>i\<in>set js. i < length rules \<Longrightarrow>
    detect_all rules js d = Some (\<exists>i\<in>set js. cyclic rules i)"
proof (induction js arbitrary: d)
  case (Cons i js)
  have i: "i < length rules" using Cons(4) by simp
  show ?case
  proof (cases "dt_visited d ! i")
    case True
    then have "\<not> cyclic rules i" using Cons(2) i by (simp add: detection_ok_def)
    then show ?thesis using True Cons by simp
  next
    case False
    have "card ({..<length rules} - in_progress d) < length rules + 1" using Cons(3) by simp
    then have "search_result rules d (bad rules {} i) (detect_left_recursion (length rules + 1) rules i d)"
      using detect_exact [OF below i Cons(2)] unfolding Cons(3) by blast
    then obtain d1 where d1: "detect_left_recursion (length rules + 1) rules i d = Some (cyclic rules i, d1)"
        "\<not> cyclic rules i \<longrightarrow> detection_ok rules d1 \<and> dt_in_progress d1 = dt_in_progress d"
      unfolding search_result_def bad_empty by blast
    have rest: "detect_all rules js d1 = Some (\<exists>i\<in>set js. cyclic rules i)" if "\<not> cyclic rules i"
    proof (rule Cons(1))
      show "detection_ok rules d1" "in_progress d1 = {}" using d1(2) that Cons(3) by (auto simp: in_progress_def)
    qed (use Cons(4) in simp)
    show ?thesis
    proof (cases "cyclic rules i")
      case True
      then show ?thesis using d1(1) False by simp
    next
      case good: False
      then show ?thesis using d1(1) False rest by simp
    qed
  qed
qed simp

lemma new_detection_ok: "detection_ok rules (new_detection (length rules))" "in_progress (new_detection (length rules)) = {}"
  by (auto simp: detection_ok_def new_detection_def in_progress_def)

lemma edge_below: "refs_below rules \<Longrightarrow> edge rules r q \<Longrightarrow> q < length rules"
proof -
  have mem: "q \<in> set (lefts E b els) \<Longrightarrow> \<exists>e\<in>set els. el_type e = GRE_RULE_REF \<and> q = unat (el_value e)" for E b els
    by (induction els arbitrary: b) (auto split: if_splits)
  assume "refs_below rules" "edge rules r q"
  then show "q < length rules" using mem [of "empty_rule rules" True "rules ! r"] by (fastforce simp: refs_below_def edge_def)
qed

lemma detect_all_acyclic:
  assumes "refs_below rules"
  shows "detect_all rules [0..<length rules] (new_detection (length rules)) = Some (\<exists>q. (edge rules)\<^sup>+\<^sup>+ q q)"
proof -
  have "(\<exists>i\<in>set [0..<length rules]. cyclic rules i) \<longleftrightarrow> (\<exists>q. (edge rules)\<^sup>+\<^sup>+ q q)"
  proof
    assume "\<exists>q. (edge rules)\<^sup>+\<^sup>+ q q"
    then obtain q where q: "(edge rules)\<^sup>+\<^sup>+ q q" by blast
    then obtain s where "edge rules q s" by (auto dest: tranclpD)
    then have "q < length rules" by (simp add: edge_def)
    then show "\<exists>i\<in>set [0..<length rules]. cyclic rules i" using q by (auto simp: cyclic_def)
  qed (auto simp: cyclic_def)
  then show ?thesis using detect_all_exact [OF assms new_detection_ok, of "[0..<length rules]"] by simp
qed

section \<open>In terms of the context-free grammar\<close>

lemma has_empty_items: "has_empty_alternate b (enc_items its @ e # es) = has_empty_alternate (b \<and> its = []) (e # es)"
proof (induction its arbitrary: b)
  case (Cons it its)
  have "has_empty_alternate b (xs @ ys) = has_empty_alternate False ys" if "xs \<noteq> []" "\<forall>x\<in>set xs. \<not> is_end x" for xs ys b
    using that
  proof (induction xs arbitrary: b)
    case (Cons x xs)
    then show ?case by (cases xs) auto
  qed simp
  from this [of "enc_item it"] show ?case using Cons not_is_end_item by simp
qed simp

lemma has_empty_enc: "alts \<noteq> [] \<Longrightarrow> has_empty_alternate True (enc_rule alts) \<longleftrightarrow> [] \<in> set alts"
  by (induction alts rule: enc_rule.induct) (auto simp: has_empty_items is_end_def)

text \<open>The references of an alternate that can be leftmost when exactly the rules of \<open>E\<close> can be empty.\<close>

fun item_lefts :: "(nat \<Rightarrow> bool) \<Rightarrow> bool \<Rightarrow> gr_item list \<Rightarrow> nat list" where
  "item_lefts E b [] = []"
| "item_lefts E b (Ref u # its) = (if b then unat u # item_lefts E (E (unat u)) its else item_lefts E False its)"
| "item_lefts E b (_ # its) = item_lefts E False its"

lemma lefts_items: "is_end e \<Longrightarrow> lefts E b (enc_items its @ e # es) = item_lefts E b its @ lefts E True es"
proof (induction its arbitrary: b)
  case Nil
  then show ?case by (auto simp: is_end_def)
next
  case (Cons it its)
  have skip: "lefts E b (xs @ ys) = lefts E False ys"
    if "xs \<noteq> []" "\<forall>x\<in>set xs. \<not> is_end x \<and> el_type x \<noteq> GRE_RULE_REF" for xs ys b
    using that
  proof (induction xs arbitrary: b)
    case (Cons x xs)
    then show ?case by (cases xs) auto
  qed simp
  have range: "el_type x \<noteq> GRE_RULE_REF" if "x \<in> set (enc_range t q)" "t \<noteq> GRE_RULE_REF" for t q x
    using that by (cases q; cases "snd q") auto
  show ?case
  proof (cases "\<exists>u. it = Ref u")
    case True
    then show ?thesis using Cons by (auto simp: is_end_def)
  next
    case False
    then have "\<forall>x\<in>set (enc_item it). el_type x \<noteq> GRE_RULE_REF"
      by (cases it) (auto dest: range split: if_splits)
    then have "lefts E b (enc_item it @ enc_items its @ e # es) = lefts E False (enc_items its @ e # es)"
      using not_is_end_item by (intro skip) auto
    moreover have "item_lefts E b (it # its) = item_lefts E False its" using False by (cases it) auto
    ultimately show ?thesis using Cons by simp
  qed
qed

lemma lefts_enc: "alts \<noteq> [] \<Longrightarrow> set (lefts E True (enc_rule alts)) = (\<Union>alt\<in>set alts. set (item_lefts E True alt))"
  by (induction alts rule: enc_rule.induct) (auto simp: lefts_items is_end_def)

lemma item_lefts_iff:
  "q \<in> set (item_lefts E b its) \<longleftrightarrow> b \<and> (\<exists>u pre post. its = pre @ Ref u # post \<and> q = unat u \<and> (\<forall>it\<in>set pre. \<exists>v. it = Ref v \<and> E (unat v)))"
proof (induction its arbitrary: b)
  case (Cons it its)
  let ?split = "\<lambda>its. \<exists>u pre post. its = pre @ Ref u # post \<and> q = unat u \<and> (\<forall>it\<in>set pre. \<exists>v. it = Ref v \<and> E (unat v))"
  show ?case
  proof (cases "\<exists>u. it = Ref u")
    case True
    then obtain u where it: "it = Ref u" by blast
    have split: "?split (Ref u # its) \<longleftrightarrow> q = unat u \<or> (E (unat u) \<and> ?split its)"
    proof
      assume "?split (Ref u # its)"
      then obtain u' pre post where p: "Ref u # its = pre @ Ref u' # post" "q = unat u'" "\<forall>it\<in>set pre. \<exists>v. it = Ref v \<and> E (unat v)"
        by blast
      then show "q = unat u \<or> (E (unat u) \<and> ?split its)" by (cases pre) auto
    next
      assume "q = unat u \<or> (E (unat u) \<and> ?split its)"
      then show "?split (Ref u # its)"
      proof
        assume "q = unat u"
        then show ?thesis by (intro exI [of _ u] exI [of _ "[]"] exI [of _ its]) simp
      next
        assume "E (unat u) \<and> ?split its"
        then obtain u' pre post where "E (unat u)" "its = pre @ Ref u' # post" "q = unat u'" "\<forall>it\<in>set pre. \<exists>v. it = Ref v \<and> E (unat v)"
          by blast
        then show ?thesis by (intro exI [of _ u'] exI [of _ "Ref u # pre"] exI [of _ post]) simp
      qed
    qed
    have "q \<in> set (item_lefts E b (it # its)) \<longleftrightarrow> b \<and> (q = unat u \<or> q \<in> set (item_lefts E (E (unat u)) its))"
      using it Cons [of False] by auto
    then show ?thesis unfolding Cons it split by blast
  next
    case False
    then have "q \<in> set (item_lefts E b (it # its)) \<longleftrightarrow> q \<in> set (item_lefts E False its)" by (cases it) auto
    then show ?thesis using Cons [of False] False by (auto simp: Cons_eq_append_conv)
  qed
qed simp

text \<open>The relation the check looks at, and the rules it can decide exactly: a rule that derives the empty word has an
  empty alternate.\<close>

definition direct_corner :: "cfg \<Rightarrow> (nat \<times> nat) set" where
  "direct_corner g = {(q, r). r < length g \<and>
    (\<exists>u pre post. pre @ Ref u # post \<in> set (g ! r) \<and> q = unat u \<and> (\<forall>it\<in>set pre. \<exists>v. it = Ref v \<and> [] \<in> set (g ! unat v)))}"

definition directly_empty :: "cfg \<Rightarrow> bool" where
  "directly_empty g \<longleftrightarrow> (\<forall>r<length g. rule_derives g r [] \<longrightarrow> [] \<in> set (g ! r))"

lemma encodes_refs: "encodes rules g \<Longrightarrow> r < length g \<Longrightarrow> alt \<in> set (g ! r) \<Longrightarrow> refs_ok g alt"
  unfolding encodes_def by (meson nth_mem)

lemma edge_enc:
  assumes "encodes rules g"
  shows "edge rules r q \<longleftrightarrow> (q, r) \<in> direct_corner g"
proof (cases "r < length g")
  case True
  have rules: "rules = map enc_rule g" "\<And>r. r < length g \<Longrightarrow> g ! r \<noteq> []" "\<And>r alt. r < length g \<Longrightarrow> alt \<in> set (g ! r) \<Longrightarrow> refs_ok g alt"
    using assms encodes_refs [OF assms] by (simp_all add: encodes_def)
  have E: "empty_rule rules v \<longleftrightarrow> [] \<in> set (g ! v)" if "v < length g" for v
    using that rules(1,2) has_empty_enc by (simp add: empty_rule_def)
  have "edge rules r q \<longleftrightarrow> (\<exists>alt\<in>set (g ! r). q \<in> set (item_lefts (empty_rule rules) True alt))"
    using True rules lefts_enc by (simp add: edge_def)
  also have "\<dots> \<longleftrightarrow> (\<exists>alt\<in>set (g ! r). \<exists>u pre post. alt = pre @ Ref u # post \<and> q = unat u \<and>
      (\<forall>it\<in>set pre. \<exists>v. it = Ref v \<and> empty_rule rules (unat v)))"
    by (simp add: item_lefts_iff)
  also have "\<dots> \<longleftrightarrow> (\<exists>alt\<in>set (g ! r). \<exists>u pre post. alt = pre @ Ref u # post \<and> q = unat u \<and>
      (\<forall>it\<in>set pre. \<exists>v. it = Ref v \<and> [] \<in> set (g ! unat v)))"
  proof (intro bex_cong refl ex_cong1 conj_cong ball_cong)
    fix alt u pre post it v
    assume "alt \<in> set (g ! r)" "alt = pre @ Ref u # post" "it \<in> set pre" "it = Ref v"
    then have "unat v < length g" using rules(3) [OF True] by (fastforce simp: refs_ok_def)
    then show "empty_rule rules (unat v) \<longleftrightarrow> [] \<in> set (g ! unat v)" by (rule E)
  qed
  also have "\<dots> \<longleftrightarrow> (q, r) \<in> direct_corner g" using True unfolding direct_corner_def by blast
  finally show ?thesis .
next
  case False
  then show ?thesis using assms by (simp add: edge_def direct_corner_def encodes_def)
qed

lemma direct_corner_sub: "encodes rules g \<Longrightarrow> direct_corner g \<subseteq> left_corner g"
proof -
  assume enc: "encodes rules g"
  have "derives g pre []" if "\<forall>it\<in>set pre. \<exists>v. it = Ref v \<and> [] \<in> set (g ! unat v)" "refs_ok g pre" for pre
    using that
  proof (induction pre)
    case (Cons it pre)
    then obtain v where v: "it = Ref v" "[] \<in> set (g ! unat v)" "unat v < length g" by auto
    have "derives g pre []" using Cons refs_ok_Cons by auto
    then show ?case using v by (auto simp: derives_Ref_iff intro!: bexI [of _ "[]"])
  qed (simp add: derives_Nil)
  note nul = this
  show ?thesis
  proof (rule subrelI)
    fix q r assume "(q, r) \<in> direct_corner g"
    then obtain u pre post where c: "r < length g" "pre @ Ref u # post \<in> set (g ! r)" "q = unat u"
        "\<forall>it\<in>set pre. \<exists>v. it = Ref v \<and> [] \<in> set (g ! unat v)"
      unfolding direct_corner_def by blast
    have "refs_ok g (pre @ Ref u # post)" using encodes_refs [OF enc c(1,2)] .
    then have "derives g pre []" using nul [OF c(4)] by simp
    then show "(q, r) \<in> left_corner g" unfolding left_corner_def using c(1-3) by blast
  qed
qed

lemma direct_corner_eq:
  assumes "encodes rules g" "directly_empty g"
  shows "direct_corner g = left_corner g"
proof
  show "left_corner g \<subseteq> direct_corner g"
  proof -
    have "\<forall>it\<in>set pre. \<exists>v. it = Ref v \<and> [] \<in> set (g ! unat v)" if "derives g pre []" for pre
      using that
    proof (induction pre)
      case (Cons it pre)
      obtain v where v: "it = Ref v" using Cons(2) derives_sym_iff [of it g pre "[]"] by blast
      then have "derives g ([Ref v] @ pre) []" using Cons(2) by simp
      then have "derives g [Ref v] []" "derives g pre []" unfolding derives_append by auto
      then have "[] \<in> set (g ! unat v)" using assms(2) by (auto simp: derives_Ref_iff directly_empty_def rule_derives_def)
      then show ?case using v Cons(1) \<open>derives g pre []\<close> by auto
    qed simp
    then show ?thesis unfolding direct_corner_def left_corner_def by blast
  qed
qed (rule direct_corner_sub [OF assms(1)])

lemma refs_below_enc:
  assumes "encodes rules g"
  shows "refs_below rules"
proof -
  have item: "\<exists>r. it = Ref r \<and> x = Elem GRE_RULE_REF r" if "x \<in> set (enc_item it)" "el_type x = GRE_RULE_REF" for x it
  proof -
    have range: "el_type x \<noteq> GRE_RULE_REF" if "x \<in> set (enc_range t q)" "t \<noteq> GRE_RULE_REF" for t q x
      using that by (cases q; cases "snd q") auto
    show ?thesis using that by (cases it) (auto dest: range split: if_splits)
  qed
  have rule: "unat (el_value x) < length g"
    if "x \<in> set (enc_rule alts)" "el_type x = GRE_RULE_REF" "\<forall>alt\<in>set alts. refs_ok g alt" for x alts
    using that by (induction alts rule: enc_rule.induct) (auto dest!: item simp: refs_ok_def)
  show ?thesis using assms rule by (auto simp: refs_below_def encodes_def)
qed

text \<open>The check on the rules of a grammar.\<close>

lemma detect_all_grammar:
  assumes "encodes rules g"
  shows "detect_all rules [0..<length rules] (new_detection (length rules)) = Some (\<not> acyclic (direct_corner g))"
proof -
  have "(edge rules)\<^sup>+\<^sup>+ q q \<longleftrightarrow> (q, q) \<in> (direct_corner g)\<^sup>+" for q
  proof -
    have "edge rules = (\<lambda>r q. (r, q) \<in> (direct_corner g)\<inverse>)" using edge_enc [OF assms] by (auto intro!: ext)
    then have "(edge rules)\<^sup>+\<^sup>+ q q \<longleftrightarrow> (q, q) \<in> ((direct_corner g)\<inverse>)\<^sup>+" by (simp only: tranclp_trancl_eq)
    then show ?thesis by (simp add: trancl_converse)
  qed
  then show ?thesis using detect_all_acyclic [OF refs_below_enc [OF assms]] by (simp add: acyclic_def)
qed

end
