(* ===== verification/Grammar_Candidates.thy ===== *)
theory Grammar_Candidates
  imports Grammar_Recursion
begin

text \<open>Which candidates are rejected, and what that says about accepting them.\<close>

section \<open>Partial characters\<close>

text \<open>Whether a range meets the code points from \<open>low\<close> to \<open>high\<close>.\<close>

fun meets :: "u32 \<Rightarrow> u32 \<Rightarrow> char_range \<Rightarrow> bool" where
  "meets low high (lo, None) \<longleftrightarrow> low \<le> lo \<and> lo \<le> high"
| "meets low high (lo, Some hi) \<longleftrightarrow> lo \<le> high \<and> low \<le> hi"

definition item_meets :: "gr_item \<Rightarrow> u32 \<Rightarrow> u32 \<Rightarrow> bool" where
  "item_meets it low high = (case it of Class neg r rs \<Rightarrow> (\<exists>x\<in>set (r # rs). meets low high x) \<noteq> neg | _ \<Rightarrow> it = AnyChar)"

lemma partial_alts_ranges:
  assumes "fresh x" "t \<noteq> GRE_CHAR_ANY"
  shows "partial_alts (enc_range t r @ concat (map (enc_range GRE_CHAR_ALT) rs) @ x # xs) low high pos =
    Some ((\<exists>q\<in>set (r # rs). meets low high q) = pos)"
  using assms(2)
proof (induction rs arbitrary: t r)
  case Nil
  then show ?case using assms(1) by (cases r; cases "snd r") (auto simp: fresh_def)
next
  case (Cons q rs)
  obtain es where q: "enc_range GRE_CHAR_ALT q = Elem GRE_CHAR_ALT (fst q) # es" using enc_range_Cons by blast
  show ?case
    using Cons(1) [of GRE_CHAR_ALT q] Cons(2) q by (cases r; cases "snd r") auto
qed

definition hopeless :: "partial_utf8 \<Rightarrow> bool" where
  "hopeless pu \<longleftrightarrow> pu_n_remain pu < 0 \<or> (pu_n_remain pu = 1 \<and> pu_value pu < 2)"

lemma match_partial_item:
  assumes "at_items rules p (it # its)" "is_class it"
  shows "match_partial_char rules p pu = Some (\<not> hopeless pu \<and> item_meets it (partial_low pu) (partial_high pu))"
proof -
  obtain t es where r: "rest_at rules p = enc_item it @ enc_items its @ t # es" "is_end t"
    using assms(1) by (auto simp: at_items_def)
  obtain x xs where x: "enc_items its @ t # es = x # xs" "fresh x" using enc_items_fresh r(2) by blast
  have el: "elem_at rules p = Some (item_head it)" by (rule at_items_Cons(1)) fact
  show ?thesis
  proof (cases it)
    case AnyChar
    then show ?thesis using r(1) x el
      by (simp add: match_partial_char_def hopeless_def item_meets_def is_positive_def fresh_def)
  next
    case (Class neg q rs)
    have "partial_alts (rest_at rules p) low high (\<not> neg) = Some ((\<exists>y\<in>set (q # rs). meets low high y) = (\<not> neg))" for low high
      using partial_alts_ranges [OF x(2), of "if neg then GRE_CHAR_NOT else GRE_CHAR" q rs xs low high "\<not> neg"] r(1) x(1) Class
      by (simp split: if_splits)
    then show ?thesis using el Class by (auto simp: match_partial_char_def hopeless_def item_meets_def is_positive_def)
  qed (use assms(2) in \<open>auto simp: is_class_def\<close>)
qed

text \<open>Ranges in order: an item meets an interval when it has a character of it, an inverted one when it has all of them.\<close>

definition ordered_range :: "char_range \<Rightarrow> bool" where
  "ordered_range r = (case snd r of None \<Rightarrow> True | Some h \<Rightarrow> fst r \<le> h)"

definition ordered_item :: "gr_item \<Rightarrow> bool" where
  "ordered_item it = (case it of Class neg r rs \<Rightarrow> \<forall>x\<in>set (r # rs). ordered_range x | _ \<Rightarrow> True)"

lemma meets_iff:
  "low \<le> high \<Longrightarrow> ordered_range r \<Longrightarrow>
    meets low high r \<longleftrightarrow> (\<exists>c. low \<le> c \<and> c \<le> high \<and> in_range c r)"
proof (cases r)
  case (Pair lo hi)
  assume r: "low \<le> high" "ordered_range r"
  show ?thesis
  proof (cases hi)
    case None
    then show ?thesis unfolding Pair by simp
  next
    case (Some h)
    have "low \<le> max low lo \<and> max low lo \<le> high \<and> lo \<le> max low lo \<and> max low lo \<le> h" if "lo \<le> high" "low \<le> h"
      using that r Pair Some by (simp add: ordered_range_def)
    then have "lo \<le> high \<and> low \<le> h \<longleftrightarrow> (\<exists>c. low \<le> c \<and> c \<le> high \<and> lo \<le> c \<and> c \<le> h)"
      by (meson order_trans)
    then show ?thesis unfolding Pair Some by simp
  qed
qed

lemma item_meets_positive:
  assumes "low \<le> high" "ordered_item (Class False r rs)"
  shows "item_meets (Class False r rs) low high \<longleftrightarrow> (\<exists>c. low \<le> c \<and> c \<le> high \<and> item_char (Class False r rs) c)"
proof -
  have "meets low high x \<longleftrightarrow> (\<exists>c. low \<le> c \<and> c \<le> high \<and> in_range c x)" if "x \<in> set (r # rs)" for x
    using assms that by (intro meets_iff) (auto simp: ordered_item_def)
  then have "(\<exists>x\<in>set (r # rs). meets low high x) \<longleftrightarrow> (\<exists>x\<in>set (r # rs). \<exists>c. low \<le> c \<and> c \<le> high \<and> in_range c x)" by blast
  then show ?thesis unfolding item_meets_def by auto
qed

lemma item_meets_inverse:
  assumes "low \<le> high" "ordered_item (Class True r rs)"
  shows "item_meets (Class True r rs) low high \<longleftrightarrow> (\<forall>c. low \<le> c \<and> c \<le> high \<longrightarrow> item_char (Class True r rs) c)"
proof -
  have "meets low high x \<longleftrightarrow> (\<exists>c. low \<le> c \<and> c \<le> high \<and> in_range c x)" if "x \<in> set (r # rs)" for x
    using assms that by (intro meets_iff) (auto simp: ordered_item_def)
  then have "(\<exists>x\<in>set (r # rs). meets low high x) \<longleftrightarrow> (\<exists>x\<in>set (r # rs). \<exists>c. low \<le> c \<and> c \<le> high \<and> in_range c x)" by blast
  then show ?thesis unfolding item_meets_def by auto
qed

section \<open>Viable candidates\<close>

text \<open>What a candidate needs at a stack: the rest of its code points, its partial end and its token.\<close>

fun viable :: "gr_rules \<Rightarrow> gr_stack \<Rightarrow> u32 list \<Rightarrow> partial_utf8 \<Rightarrow> int \<Rightarrow> bool" where
  "viable rules st [] pu token \<longleftrightarrow>
    pu_n_remain pu = 0 \<or> (st \<noteq> [] \<and> \<not> token_top rules st \<and> match_partial_char rules (hd st) pu = Some True)"
| "viable rules st (c # cs) pu token \<longleftrightarrow>
    st \<noteq> [] \<and> (if token_top rules st then (\<exists>e. elem_at rules (hd st) = Some e \<and> match_token e token)
       else (\<exists>t\<in>symbol_stacks rules st (Chr c). viable rules t cs pu token))"

definition cd_rest :: "candidate \<Rightarrow> u32 list" where
  "cd_rest tok = drop (cd_off tok) (butlast (cd_points tok))"

definition cd_viable :: "gr_rules \<Rightarrow> gr_stack \<Rightarrow> candidate \<Rightarrow> bool" where
  "cd_viable rules st tok = viable rules st (cd_rest tok) (cd_partial tok) (cd_id tok)"

definition candidate_ok :: "candidate \<Rightarrow> bool" where
  "candidate_ok tok \<longleftrightarrow> cd_points tok \<noteq> [] \<and> last (cd_points tok) = 0 \<and> 0 \<notin> set (butlast (cd_points tok)) \<and>
    cd_off tok < length (cd_points tok)"

lemma cd_point_rest:
  assumes "candidate_ok tok"
  shows "cd_point tok = Some (case cd_rest tok of [] \<Rightarrow> 0 | c # _ \<Rightarrow> c)" "cd_rest tok \<noteq> [] \<longleftrightarrow> cd_point tok \<noteq> Some 0"
proof -
  obtain cps where p: "cd_points tok = cps @ [0]" "0 \<notin> set cps" "cd_off tok \<le> length cps"
    using assms by (cases "cd_points tok" rule: rev_cases) (auto simp: candidate_ok_def)
  show pt: "cd_point tok = Some (case cd_rest tok of [] \<Rightarrow> 0 | c # _ \<Rightarrow> c)"
  proof (cases "cd_off tok = length cps")
    case False
    then have lt: "cd_off tok < length cps" using p(3) by simp
    then have "cd_rest tok = cps ! cd_off tok # drop (Suc (cd_off tok)) cps" using p(1) by (simp add: cd_rest_def Cons_nth_drop_Suc)
    then show ?thesis using p(1) lt by (simp add: cd_point_def nth_append)
  qed (use p in \<open>simp add: cd_point_def cd_rest_def\<close>)
  have "c \<noteq> 0" if "cd_rest tok = c # cs" for c cs
  proof -
    have "c \<in> set (cd_rest tok)" using that by simp
    then have "c \<in> set cps" using p(1) by (auto simp: cd_rest_def dest: in_set_dropD)
    then show ?thesis using p(2) by auto
  qed
  then show "cd_rest tok \<noteq> [] \<longleftrightarrow> cd_point tok \<noteq> Some 0" using pt by (cases "cd_rest tok") auto
qed

lemma candidate_next:
  assumes "candidate_ok tok" "cd_rest tok = c # cs"
  shows "candidate_ok (tok\<lparr> cd_off := cd_off tok + 1 \<rparr>)" "cd_rest (tok\<lparr> cd_off := cd_off tok + 1 \<rparr>) = cs"
proof -
  have "drop 1 (cd_rest tok) = cs" using assms(2) by simp
  then show "cd_rest (tok\<lparr> cd_off := cd_off tok + 1 \<rparr>) = cs" by (simp add: cd_rest_def)
  have "cd_off tok < length (cd_points tok) - 1" using assms(2) by (cases "cd_off tok < length (cd_points tok) - 1") (auto simp: cd_rest_def)
  then show "candidate_ok (tok\<lparr> cd_off := cd_off tok + 1 \<rparr>)" using assms(1) by (auto simp: candidate_ok_def)
qed

lemma filter_opt_total: "(\<And>x. x \<in> set xs \<Longrightarrow> f x = Some (P x)) \<Longrightarrow> filter_opt f xs = Some (filter P xs)"
  by (induction xs) auto

section \<open>The candidates that are rejected\<close>

text \<open>What the recursion has to establish: the candidates that are viable on none of the stacks are returned.\<close>

definition rejects_exactly :: "gr_rules \<Rightarrow> gr_stack set \<Rightarrow> candidate list \<Rightarrow> candidate list option \<Rightarrow> bool" where
  "rejects_exactly rules S cands res \<longleftrightarrow>
    (\<exists>rej. res = Some rej \<and> set rej = {tok \<in> set cands. \<not> (\<exists>st\<in>S. cd_viable rules st tok)})"

lemma sort_candidates:
  assumes item: "at_items rules p (it # its)" "is_class it" and ok: "\<forall>tok\<in>set cands. candidate_ok tok"
  shows "\<exists>rejects nexts. foldM (sort_candidate rules p) cands (rej0, next0) = Some (rej0 @ rejects, next0 @ nexts) \<and>
    set rejects = {tok \<in> set cands. case cd_rest tok of
      [] \<Rightarrow> pu_n_remain (cd_partial tok) \<noteq> 0 \<and> match_partial_char rules p (cd_partial tok) \<noteq> Some True
      | c # _ \<Rightarrow> \<not> item_char it c} \<and>
    nexts = map (\<lambda>tok. tok\<lparr> cd_off := cd_off tok + 1 \<rparr>) (filter (\<lambda>tok. cd_rest tok \<noteq> [] \<and> item_char it (hd (cd_rest tok))) cands)"
  using ok
proof (induction cands arbitrary: rej0 next0)
  case Nil
  then show ?case by simp
next
  case (Cons tok cands)
  have ok: "candidate_ok tok" using Cons(2) by simp
  note pt = cd_point_rest [OF ok]
  obtain m where m: "match_partial_char rules p (cd_partial tok) = Some m" using match_partial_item [OF item] by blast
  have step: "sort_candidate rules p tok (rej0, next0) = Some (case cd_rest tok of
      [] \<Rightarrow> if pu_n_remain (cd_partial tok) \<noteq> 0 \<and> \<not> m then (rej0 @ [tok], next0) else (rej0, next0)
      | c # _ \<Rightarrow> if item_char it c then (rej0, next0 @ [tok\<lparr> cd_off := cd_off tok + 1 \<rparr>]) else (rej0 @ [tok], next0))" for rej0 next0
    using pt m match_char_item [OF item] by (cases "cd_rest tok") (auto simp: sort_candidate_def)
  have IH: "\<exists>rejects nexts. foldM (sort_candidate rules p) cands (r0, n0) = Some (r0 @ rejects, n0 @ nexts) \<and>
    set rejects = {tok \<in> set cands. case cd_rest tok of
      [] \<Rightarrow> pu_n_remain (cd_partial tok) \<noteq> 0 \<and> match_partial_char rules p (cd_partial tok) \<noteq> Some True
      | c # _ \<Rightarrow> \<not> item_char it c} \<and>
    nexts = map (\<lambda>tok. tok\<lparr> cd_off := cd_off tok + 1 \<rparr>) (filter (\<lambda>tok. cd_rest tok \<noteq> [] \<and> item_char it (hd (cd_rest tok))) cands)" for r0 n0
    using Cons by simp
  obtain r0 n0 where first: "sort_candidate rules p tok (rej0, next0) = Some (rej0 @ r0, next0 @ n0)"
      "set r0 = {t. t = tok \<and> (case cd_rest tok of
        [] \<Rightarrow> pu_n_remain (cd_partial tok) \<noteq> 0 \<and> match_partial_char rules p (cd_partial tok) \<noteq> Some True
        | c # _ \<Rightarrow> \<not> item_char it c)}"
      "n0 = (if cd_rest tok \<noteq> [] \<and> item_char it (hd (cd_rest tok)) then [tok\<lparr> cd_off := cd_off tok + 1 \<rparr>] else [])"
    using step [of rej0 next0] m that [of "[]" "[]"] that [of "[tok]" "[]"] that [of "[]" "[tok\<lparr> cd_off := cd_off tok + 1 \<rparr>]"]
    by (cases "cd_rest tok") (auto split: if_splits)
  obtain rejects nexts where rest: "foldM (sort_candidate rules p) cands (rej0 @ r0, next0 @ n0) = Some ((rej0 @ r0) @ rejects, (next0 @ n0) @ nexts)"
    "set rejects = {tok \<in> set cands. case cd_rest tok of
      [] \<Rightarrow> pu_n_remain (cd_partial tok) \<noteq> 0 \<and> match_partial_char rules p (cd_partial tok) \<noteq> Some True
      | c # _ \<Rightarrow> \<not> item_char it c}"
    "nexts = map (\<lambda>tok. tok\<lparr> cd_off := cd_off tok + 1 \<rparr>) (filter (\<lambda>tok. cd_rest tok \<noteq> [] \<and> item_char it (hd (cd_rest tok))) cands)"
    using IH [of "rej0 @ r0" "next0 @ n0"] by blast
  show ?case
    using first rest by (intro exI [of _ "r0 @ rejects"] exI [of _ "n0 @ nexts"]) auto
qed

lemma symbol_rest:
  assumes "at_items rules p (it # its)" "\<not> is_token (item_head it)"
  shows "viable rules (p # below) (c # cs) pu token \<longleftrightarrow> item_char it c \<and>
    (\<exists>t\<in>terminals rules (pushed (after_item p it) its below). viable rules t cs pu token)"
proof -
  have "\<not> token_top rules (p # below)" using assms at_items_Cons(1) by (auto simp: token_top_def)
  then show ?thesis using symbol_stacks_Cons [OF assms(1)] by auto
qed

lemma image_undo: "(\<And>x. undo (f x) = x) \<Longrightarrow> undo ` {y \<in> f ` A. P y} = {x \<in> A. P (f x)}"
proof -
  assume "\<And>x. undo (f x) = x"
  then have "undo (f x) = x" for x .
  then show ?thesis by (auto simp: image_iff) metis
qed

lemma reject_for_stack_exact:
  assumes ok: "state_ok g rules st" and nlr: "no_left_recursion g"
    and cands: "\<forall>tok\<in>set cands. candidate_ok tok \<and> length (cd_rest tok) < n"
    and rec: "\<And>S nexts. S \<noteq> [] \<Longrightarrow> \<forall>st\<in>set S. state_ok g rules st \<Longrightarrow> \<forall>tok\<in>set nexts. candidate_ok tok \<and> length (cd_rest tok) + 1 < n \<Longrightarrow>
      rejects_exactly rules (set S) nexts (rec S nexts)"
  shows "rejects_exactly rules {st} cands (reject_for_stack rec rules st cands)"
  using ok
proof (cases rule: state_cases)
  case 1
  have "reject_at_end tok = Some (\<not> cd_viable rules [] tok)" if "tok \<in> set cands" for tok
    using cd_point_rest [of tok] cands that by (cases "cd_rest tok") (auto simp: reject_at_end_def cd_viable_def)
  then have "reject_for_stack rec rules st cands = Some (filter (\<lambda>tok. \<not> cd_viable rules [] tok) cands)"
    using filter_opt_total [of cands reject_at_end] 1 by (simp add: reject_for_stack_def)
  then show ?thesis using 1 by (auto simp: rejects_exactly_def)
next
  case (2 p below it its jss)
  have enc: "encodes rules g" using ok by (simp add: state_ok_def)
  have el: "elem_at rules p = Some (item_head it)" by (rule at_items_Cons(1) [OF 2(2)])
  have top: "token_top rules st \<longleftrightarrow> is_token (item_head it)" using el 2(1) by (simp add: token_top_def)
  show ?thesis
  proof (cases "is_token (item_head it)")
    case True
    have "reject_at_token (item_head it) tok = Some (\<not> cd_viable rules st tok)" if "tok \<in> set cands" for tok
      using cd_point_rest [of tok] cands that True top el 2(1)
      by (cases "cd_rest tok") (auto simp: reject_at_token_def cd_viable_def)
    then have "reject_for_stack rec rules st cands = Some (filter (\<lambda>tok. \<not> cd_viable rules st tok) cands)"
      using filter_opt_total [of cands "reject_at_token (item_head it)"] el True 2(1) by (simp add: reject_for_stack_def)
    then show ?thesis by (auto simp: rejects_exactly_def)
  next
    case False
    then have cls: "is_class it" "\<And>c. match_char rules p c = Some (item_char it c, after_item p it)"
      using state_item(2) [OF 2(2,5)] by blast+
    let ?T = "terminals rules (pushed (after_item p it) its below)"
    obtain rejects nexts where s: "foldM (sort_candidate rules p) cands ([], []) = Some (rejects, nexts)"
      "set rejects = {tok \<in> set cands. case cd_rest tok of
        [] \<Rightarrow> pu_n_remain (cd_partial tok) \<noteq> 0 \<and> match_partial_char rules p (cd_partial tok) \<noteq> Some True
        | c # _ \<Rightarrow> \<not> item_char it c}"
      "nexts = map (\<lambda>tok. tok\<lparr> cd_off := cd_off tok + 1 \<rparr>) (filter (\<lambda>tok. cd_rest tok \<noteq> [] \<and> item_char it (hd (cd_rest tok))) cands)"
      using sort_candidates [OF 2(2) cls(1), of cands "[]" "[]"] cands by auto
    obtain sts where sts: "(do { st' \<leftarrow> push_unless_end rules (after_item p it) below; advance_stack rules st' [] }) = Some sts" "set sts = ?T"
      using advance_pushed [OF enc nlr at_items_Cons(3) [OF 2(2)] 2(7) distinct.simps(1) [THEN iffD2]] by auto
    have ready: "\<forall>t\<in>set sts. state_ok g rules t" using terminals_ready [OF enc 2(7)] sts(2) enc by (simp add: state_ok_def)
    have ne: "sts \<noteq> []" using terminals_not_empty [OF enc nlr 2(7)] sts(2) by auto
    have nexts_ok: "\<forall>tok\<in>set nexts. candidate_ok tok \<and> length (cd_rest tok) + 1 < n"
    proof
      fix tok assume "tok \<in> set nexts"
      then obtain tok0 where t: "tok0 \<in> set cands" "cd_rest tok0 \<noteq> []" "tok = tok0\<lparr> cd_off := cd_off tok0 + 1 \<rparr>" using s(3) by auto
      then obtain c cs where c: "cd_rest tok0 = c # cs" by (cases "cd_rest tok0") auto
      show "candidate_ok tok \<and> length (cd_rest tok) + 1 < n" using candidate_next [OF _ c] cands t c by auto
    qed
    obtain rej where rej: "rec sts nexts = Some rej" "set rej = {tok \<in> set nexts. \<not> (\<exists>t\<in>?T. cd_viable rules t tok)}"
      using rec [OF ne ready nexts_ok] sts(2) by (auto simp: rejects_exactly_def)
    have result: "reject_for_stack rec rules st cands = Some (rejects @ map (\<lambda>tok. tok\<lparr> cd_off := cd_off tok - 1 \<rparr>) rej)"
      using s(1) sts(1) rej(1) el False cls(2) 2(1) by (auto simp: reject_for_stack_def bind_Some_iff)
    have returned: "set (map (\<lambda>tok. tok\<lparr> cd_off := cd_off tok - 1 \<rparr>) rej) =
        {tok \<in> set cands. cd_rest tok \<noteq> [] \<and> item_char it (hd (cd_rest tok)) \<and>
          \<not> (\<exists>t\<in>?T. cd_viable rules t (tok\<lparr> cd_off := cd_off tok + 1 \<rparr>))}"
      unfolding set_map rej(2) s(3) by (subst image_undo) auto
    have "(tok \<in> set rejects \<or> (cd_rest tok \<noteq> [] \<and> item_char it (hd (cd_rest tok)) \<and>
        \<not> (\<exists>t\<in>?T. cd_viable rules t (tok\<lparr> cd_off := cd_off tok + 1 \<rparr>)))) \<longleftrightarrow> \<not> cd_viable rules st tok"
      if tok: "tok \<in> set cands" for tok
    proof (cases "cd_rest tok")
      case Nil
      then show ?thesis using tok s(2) top False 2(1) by (auto simp: cd_viable_def)
    next
      case (Cons c cs)
      have "cd_viable rules t (tok\<lparr> cd_off := cd_off tok + 1 \<rparr>) = viable rules t cs (cd_partial tok) (cd_id tok)" for t
        using candidate_next [OF _ Cons] cands tok by (simp add: cd_viable_def)
      moreover have "cd_viable rules st tok \<longleftrightarrow> item_char it c \<and> (\<exists>t\<in>?T. viable rules t cs (cd_partial tok) (cd_id tok))"
        using symbol_rest [OF 2(2) False] Cons 2(1) by (simp add: cd_viable_def del: viable.simps)
      ultimately show ?thesis using Cons tok s(2) by auto
    qed
    then show ?thesis using result returned s(2) by (auto simp: rejects_exactly_def)
  qed
qed

lemma reject_candidates_exact:
  assumes nlr: "no_left_recursion g"
  shows "0 < n \<Longrightarrow> sts \<noteq> [] \<Longrightarrow> \<forall>st\<in>set sts. state_ok g rules st \<Longrightarrow>
    \<forall>tok\<in>set cands. candidate_ok tok \<and> length (cd_rest tok) + 1 < n \<Longrightarrow>
    rejects_exactly rules (set sts) cands (reject_candidates n rules sts cands)"
proof (induction n arbitrary: sts cands)
  case (Suc n)
  show ?case
  proof (cases "cands = []")
    case True
    then show ?thesis using Suc(3) by (simp add: rejects_exactly_def)
  next
    case False
    then have n: "0 < n" using Suc(5) by (cases cands) auto
    have loop: "rejects_exactly rules (set ss) cs (foldM (reject_for_stack (reject_candidates n rules) rules) ss cs)"
      if "\<forall>st\<in>set ss. state_ok g rules st" "\<forall>tok\<in>set cs. candidate_ok tok \<and> length (cd_rest tok) < n" for ss cs
      using that
    proof (induction ss arbitrary: cs)
      case Nil
      then show ?case by (simp add: rejects_exactly_def)
    next
      case (Cons st ss)
      have "rejects_exactly rules {st} cs (reject_for_stack (reject_candidates n rules) rules st cs)"
        using Cons(2) by (intro reject_for_stack_exact [OF _ nlr Cons(3)] Suc(1) n) auto
      then obtain rej where rej: "reject_for_stack (reject_candidates n rules) rules st cs = Some rej"
          "set rej = {tok \<in> set cs. \<not> cd_viable rules st tok}"
        by (auto simp: rejects_exactly_def)
      have "rejects_exactly rules (set ss) rej (foldM (reject_for_stack (reject_candidates n rules) rules) ss rej)"
        using Cons(2,3) rej(2) by (intro Cons(1)) auto
      then show ?case using rej by (auto simp: rejects_exactly_def)
    qed
    have "reject_candidates (Suc n) rules sts cands = foldM (reject_for_stack (reject_candidates n rules) rules) sts cands"
      using Suc(3) False by simp
    then show ?thesis using loop [OF Suc(4)] Suc(5) by simp
  qed
qed simp

section \<open>The mask\<close>

lemma decode_loop_last: "fst (decode_loop cps v n bs) \<noteq> [] \<and> last (fst (decode_loop cps v n bs)) = 0"
proof (induction bs arbitrary: cps v n rule: length_induct)
  case (1 bs)
  show ?case
  proof (cases bs)
    case (Cons b bs')
    obtain v' n' rest where t: "take_bytes (ucast (b AND push_bit (nat (7 - (first_lookup ! unat (drop_bit 4 b) - 1))) 1 - 1))
        (first_lookup ! unat (drop_bit 4 b) - 1) bs' = (v', n', rest)" by (metis prod_cases3)
    then have "length rest < length bs"
      using take_bytes_shrinks [of "ucast (b AND push_bit (nat (7 - (first_lookup ! unat (drop_bit 4 b) - 1))) 1 - 1)"
          "first_lookup ! unat (drop_bit 4 b) - 1" bs'] Cons by simp
    then show ?thesis using 1 t Cons by (auto simp: Let_def)
  qed simp
qed

lemma decode_utf8_last: "fst (decode_utf8 bs pu) \<noteq> [] \<and> last (fst (decode_utf8 bs pu)) = 0"
  using decode_loop_last by (auto simp: decode_utf8_def split: option.splits)

definition cand_of :: "vocab \<Rightarrow> grammar \<Rightarrow> nat \<Rightarrow> int \<Rightarrow> candidate" where
  "cand_of v G i token = (let (cps, pu) = decode_utf8 (token_to_piece v token) (g_partial G) in
     \<lparr> cd_index = i, cd_points = cps, cd_off = 0, cd_partial = pu, cd_id = token \<rparr>)"

lemma cand_of_sel [simp]:
  "cd_index (cand_of v G i t) = i" "cd_points (cand_of v G i t) = fst (decode_utf8 (token_to_piece v t) (g_partial G))"
  "cd_off (cand_of v G i t) = 0" "cd_partial (cand_of v G i t) = snd (decode_utf8 (token_to_piece v t) (g_partial G))"
  "cd_id (cand_of v G i t) = t"
  by (simp_all add: cand_of_def Let_def case_prod_unfold)

definition masked_at_once :: "vocab \<Rightarrow> grammar \<Rightarrow> int \<Rightarrow> bool" where
  "masked_at_once v G token \<longleftrightarrow>
    (if is_eog v token then [] \<notin> set (g_stacks G) else token_to_piece v token = [] \<or> hd (token_to_piece v token) = 0)"

definition is_candidate :: "vocab \<Rightarrow> int \<Rightarrow> bool" where
  "is_candidate v token \<longleftrightarrow> \<not> is_eog v token \<and> token_to_piece v token \<noteq> [] \<and> hd (token_to_piece v token) \<noteq> 0"

lemma classify_tokens:
  "fold (\<lambda>(i, token). classify_token v G i token) its (masked0, cands0) = (masked, cands) \<Longrightarrow>
    set masked = set masked0 \<union> {i. \<exists>t. (i, t) \<in> set its \<and> masked_at_once v G t} \<and>
    set cands = set cands0 \<union> {cand_of v G i t | i t. (i, t) \<in> set its \<and> is_candidate v t}"
proof (induction its arbitrary: masked0 cands0)
  case (Cons it its)
  obtain i t where it: "it = (i, t)" by (cases it)
  obtain m1 c1 where first: "classify_token v G i t (masked0, cands0) = (m1, c1)" by fastforce
  have "set m1 = set masked0 \<union> (if masked_at_once v G t then {i} else {})"
      "set c1 = set cands0 \<union> (if is_candidate v t then {cand_of v G i t} else {})"
    using first by (auto simp: classify_token_def Let_def masked_at_once_def is_candidate_def cand_of_def split: if_splits prod.splits)
  then show ?case using Cons(1) [of m1 c1] Cons(2) first it by auto
qed simp

lemma longest_candidate_ge: "tok \<in> set cands \<Longrightarrow> length (cd_points tok) \<le> longest_candidate cands"
  unfolding longest_candidate_def by (induction cands) auto

text \<open>Whether a token is masked.\<close>

definition token_masked :: "vocab \<Rightarrow> grammar \<Rightarrow> int \<Rightarrow> bool" where
  "token_masked v G token \<longleftrightarrow> masked_at_once v G token \<or> (is_candidate v token \<and>
    \<not> (\<exists>st\<in>set (g_stacks G). cd_viable (g_rules G) st (cand_of v G 0 token)))"

lemma masked_tokens_exact:
  assumes ok: "grammar_ok g G" "g_stacks G \<noteq> []" and nlr: "no_left_recursion g"
    and plain: "\<forall>t\<in>set tokens. 0 \<notin> set (butlast (fst (decode_utf8 (token_to_piece v t) (g_partial G))))"
  shows "\<exists>masked. masked_tokens v G tokens = Some masked \<and> (\<forall>i<length tokens. i \<in> set masked \<longleftrightarrow> token_masked v G (tokens ! i))"
proof -
  obtain m c where f: "fold (\<lambda>(i, token). classify_token v G i token) (enumerate 0 tokens) ([], []) = (m, c)" by fastforce
  have mem: "(i, t) \<in> set (enumerate 0 tokens) \<longleftrightarrow> i < length tokens \<and> t = tokens ! i" for i t
    by (auto simp: in_set_enumerate_eq)
  have m: "set m = {i. i < length tokens \<and> masked_at_once v G (tokens ! i)}"
      and c: "set c = {cand_of v G i (tokens ! i) | i. i < length tokens \<and> is_candidate v (tokens ! i)}"
    using classify_tokens [OF f] by (auto simp: mem)
  have cok: "\<forall>tok\<in>set c. candidate_ok tok \<and> length (cd_rest tok) + 1 < longest_candidate c + 1"
  proof
    fix tok assume t: "tok \<in> set c"
    then obtain i where i: "i < length tokens" "tok = cand_of v G i (tokens ! i)" using c by auto
    have "candidate_ok tok" using i plain decode_utf8_last
      by (auto simp: candidate_ok_def)
    moreover have "length (cd_rest tok) < length (cd_points tok)" using calculation by (auto simp: candidate_ok_def cd_rest_def)
    ultimately show "candidate_ok tok \<and> length (cd_rest tok) + 1 < longest_candidate c + 1"
      using longest_candidate_ge [OF t] by simp
  qed
  have "\<forall>st\<in>set (g_stacks G). state_ok g (g_rules G) st" using grammar_ok_state [OF ok(1)] by blast
  from reject_candidates_exact [OF nlr _ ok(2) this cok]
  obtain rej where rej: "reject_candidates (longest_candidate c + 1) (g_rules G) (g_stacks G) c = Some rej"
      "set rej = {tok \<in> set c. \<not> (\<exists>st\<in>set (g_stacks G). cd_viable (g_rules G) st tok)}"
    by (auto simp: rejects_exactly_def)
  have idx: "cd_index (cand_of v G i t) = i" "cd_viable R st (cand_of v G i t) = cd_viable R st (cand_of v G 0 t)" for i t R st
    by (simp_all add: cd_viable_def cd_rest_def)
  have "i \<in> set (m @ map cd_index rej) \<longleftrightarrow> token_masked v G (tokens ! i)" if i: "i < length tokens" for i
  proof -
    have "i \<in> cd_index ` set rej \<longleftrightarrow> is_candidate v (tokens ! i) \<and>
        \<not> (\<exists>st\<in>set (g_stacks G). cd_viable (g_rules G) st (cand_of v G 0 (tokens ! i)))"
    proof
      assume "i \<in> cd_index ` set rej"
      then obtain j where "i = j" "j < length tokens" "is_candidate v (tokens ! j)"
          "\<not> (\<exists>st\<in>set (g_stacks G). cd_viable (g_rules G) st (cand_of v G j (tokens ! j)))"
        using rej(2) c idx(1) by auto
      then show "is_candidate v (tokens ! i) \<and> \<not> (\<exists>st\<in>set (g_stacks G). cd_viable (g_rules G) st (cand_of v G 0 (tokens ! i)))"
        using idx(2) [of _ _ i "tokens ! i"] by simp
    next
      assume a: "is_candidate v (tokens ! i) \<and> \<not> (\<exists>st\<in>set (g_stacks G). cd_viable (g_rules G) st (cand_of v G 0 (tokens ! i)))"
      then have "cand_of v G i (tokens ! i) \<in> set rej" using rej(2) c i idx(2) [of _ _ i "tokens ! i"] by auto
      then show "i \<in> cd_index ` set rej" using idx(1) by (metis imageI)
    qed
    then show ?thesis using m i by (auto simp: token_masked_def)
  qed
  then show ?thesis using f rej(1) by (auto simp: masked_tokens_def)
qed

text \<open>Without token elements: what a viable candidate says about accepting the token.\<close>

lemma viable_steps:
  assumes "token_free rules"
  shows "state_ok g rules st \<Longrightarrow> viable rules st cps pu token \<Longrightarrow> pu_n_remain pu \<noteq> 0 \<or> cps \<noteq> [] \<Longrightarrow>
    st \<noteq> [] \<and> stacks.steps rules {st} (map Chr cps) \<noteq> {}"
proof (induction cps arbitrary: st)
  case Nil
  then show ?case by simp
next
  case (Cons c cs)
  then obtain t where t: "st \<noteq> []" "t \<in> symbol_stacks rules st (Chr c)" "viable rules t cs pu token"
    using token_free_top [OF assms] by auto
  have "stacks.steps rules {t} (map Chr cs) \<noteq> {}"
    using Cons(1) [OF symbol_stacks_ok [OF Cons(2) t(2)] t(3)] by (cases "cs = []") auto
  moreover have "stacks.steps rules {st} (map Chr (c # cs)) = (\<Union>t\<in>symbol_stacks rules st (Chr c). stacks.steps rules {t} (map Chr cs))"
    using stacks.steps_each [of rules "symbol_stacks rules st (Chr c)" "map Chr cs"] by simp
  ultimately show ?case using t(1,2) by blast
qed

lemma steps_viable:
  assumes "token_free rules" "pu_n_remain pu = 0"
  shows "stacks.steps rules {st} (map Chr cps) \<noteq> {} \<Longrightarrow> viable rules st cps pu token"
proof (induction cps arbitrary: st)
  case Nil
  then show ?case using assms(2) by simp
next
  case (Cons c cs)
  have "stacks.steps rules {st} (map Chr (c # cs)) = (\<Union>t\<in>symbol_stacks rules st (Chr c). stacks.steps rules {t} (map Chr cs))"
    using stacks.steps_each [of rules "symbol_stacks rules st (Chr c)" "map Chr cs"] by simp
  then obtain t where t: "t \<in> symbol_stacks rules st (Chr c)" "stacks.steps rules {t} (map Chr cs) \<noteq> {}"
    using Cons(2) by blast
  have "viable rules t cs pu token" by (rule Cons(1)) fact
  moreover have "st \<noteq> []" using t(1) by auto
  ultimately show ?case using t(1) token_free_top [OF assms(1)] by auto
qed

text \<open>A token that is not masked is accepted; a token of whole characters that is masked would not be.\<close>

lemma mask_accept:
  assumes ok: "grammar_ok g G" and nlr: "no_left_recursion g" and free: "token_free (g_rules G)"
    and cand: "is_candidate v token" and dec: "decode_utf8 (token_to_piece v token) (g_partial G) = (cps @ [0], pu)"
    and some: "cps \<noteq> [] \<or> pu_n_remain pu \<noteq> 0"
  shows "\<exists>G'. accept_token G token (token_to_piece v token) = Some (check_stacks G') \<and>
    (\<not> token_masked v G token \<longrightarrow> g_stacks G' \<noteq> []) \<and>
    (token_masked v G token \<longrightarrow> pu_n_remain pu = 0 \<longrightarrow> g_stacks G' = [])"
proof -
  let ?R = "g_rules G"
  obtain sts where sts: "accept_token G token (token_to_piece v token) = Some (check_stacks (G\<lparr> g_stacks := sts, g_partial := pu \<rparr>))"
      "set sts = (\<Union>st\<in>set (g_stacks G). token_stacks ?R token cps st)"
    using accept_token_exact [OF ok nlr, of token "token_to_piece v token"] dec by auto
  have rest: "cd_viable ?R st (cand_of v G 0 token) = viable ?R st cps pu token" for st
    using dec by (simp add: cd_viable_def cd_rest_def)
  have masked: "token_masked v G token \<longleftrightarrow> \<not> (\<exists>st\<in>set (g_stacks G). viable ?R st cps pu token)"
    using cand by (auto simp: token_masked_def rest masked_at_once_def is_candidate_def)
  have stacks: "token_stacks ?R token cps st = (if st = [] then {} else stacks.steps ?R {st} (map Chr cps))" for st
    using token_free_top [OF free] by (simp add: token_stacks_def)
  have "sts \<noteq> []" if unmasked: "\<not> token_masked v G token"
  proof -
    obtain st where st: "st \<in> set (g_stacks G)" "viable ?R st cps pu token" using unmasked masked by blast
    have "st \<noteq> [] \<and> stacks.steps ?R {st} (map Chr cps) \<noteq> {}"
      using viable_steps [OF free grammar_ok_state [OF ok st(1)] st(2)] some by blast
    then have "set sts \<noteq> {}" using sts(2) st(1) stacks by auto
    then show ?thesis by auto
  qed
  moreover have "sts = []" if "token_masked v G token" "pu_n_remain pu = 0"
  proof -
    have "token_stacks ?R token cps st = {}" if "st \<in> set (g_stacks G)" for st
      using steps_viable [OF free \<open>pu_n_remain pu = 0\<close>] masked \<open>token_masked v G token\<close> that stacks by auto
    then show ?thesis using sts(2) by auto
  qed
  ultimately show ?thesis using sts(1) by (intro exI [of _ "G\<lparr> g_stacks := sts, g_partial := pu \<rparr>"]) auto
qed

end
