(* ===== verification/Grammar_Complete.thy ===== *)
theory Grammar_Complete
  imports Grammar_Candidates
begin

text \<open>Constructing a grammar, completing a text, and the left recursion that the check does not see.\<close>

section \<open>Construction\<close>

definition well_formed_cfg :: "cfg \<Rightarrow> bool" where
  "well_formed_cfg g \<longleftrightarrow> (\<forall>alts\<in>set g. alts \<noteq> [] \<and> (\<forall>alt\<in>set alts. \<forall>r. Ref r \<in> set alt \<longrightarrow> unat r < length g))"

lemma encodes_iff: "encodes (map enc_rule g) g \<longleftrightarrow> well_formed_cfg g"
proof -
  have "refs_ok g alt \<longleftrightarrow> (\<forall>r. Ref r \<in> set alt \<longrightarrow> unat r < length g)" if "alts \<in> set g" "alt \<in> set alts" for alts alt
    unfolding refs_ok_def item_ok_def using that by blast
  then show ?thesis unfolding encodes_def well_formed_cfg_def by blast
qed

lemma refs_defined_enc:
  assumes "encodes rules g"
  shows "refs_defined rules"
proof -
  have "rules ! r \<noteq> []" if "r < length rules" for r
  proof -
    have "enc_rule alts \<noteq> []" for alts by (induction alts rule: enc_rule.induct) auto
    then show ?thesis using assms that by (simp add: encodes_def)
  qed
  then show ?thesis using refs_below_enc [OF assms] by (auto simp: refs_defined_def refs_below_def list_all_iff)
qed

lemma grammar_init_unfold:
  assumes "well_formed_cfg g"
  shows "grammar_init (map enc_rule g) start =
    (if \<not> acyclic (direct_corner g) then Some None
     else map_option (\<lambda>sts. Some \<lparr> g_rules = map enc_rule g, g_stacks = sts, g_partial = start_utf8 \<rparr>) (start_stacks (map enc_rule g) start))"
proof -
  have enc: "encodes (map enc_rule g) g" using assms encodes_iff by blast
  have "copy_rules (map enc_rule g) = Some (map enc_rule g)" using assms by (intro copy_rules_enc) (auto simp: well_formed_cfg_def)
  then show ?thesis using detect_all_grammar [OF enc] refs_defined_enc [OF enc]
    by (cases "start_stacks (map enc_rule g) start") (simp_all add: grammar_init_def)
qed

lemma init_accepted:
  assumes wf: "well_formed_cfg g" and nlr: "no_left_recursion g" and start: "start < length g"
  shows "\<exists>G. grammar_init (map enc_rule g) start = Some (Some G) \<and> grammar_ok g G \<and> g_rules G = map enc_rule g \<and>
    g_partial G = start_utf8 \<and> (\<forall>w. expects g G w \<longleftrightarrow> rule_derives g start w)"
proof -
  have enc: "encodes (map enc_rule g) g" using wf encodes_iff by blast
  have "acyclic (direct_corner g)" using nlr direct_corner_sub [OF enc] acyclic_subset unfolding no_left_recursion_def by blast
  moreover obtain sts where "start_stacks (map enc_rule g) start = Some sts" "\<forall>st\<in>set sts. ready_stack g (map enc_rule g) st"
      "\<forall>w. (\<exists>st\<in>set sts. stack_derives g (map enc_rule g) st w) \<longleftrightarrow> rule_derives g start w"
    using start_stacks_exact [OF enc nlr start] by blast
  ultimately show ?thesis
    using grammar_init_unfold [OF wf, of start] enc by (auto simp: grammar_ok_def expects_def)
qed

section \<open>Characters one by one\<close>

lemma grammar_accept_exact:
  assumes ok: "grammar_ok g G" and nlr: "no_left_recursion g"
  shows "\<exists>G'. grammar_accept G c = Some G' \<and> grammar_ok g G' \<and> (\<forall>w. expects g G' w = expects g G (Chr c # w))"
proof -
  let ?R = "g_rules G"
  have states: "\<forall>st\<in>set (g_stacks G). state_ok g ?R st" using grammar_ok_state [OF ok] by blast
  obtain new where new: "accept_stacks ?R c (g_stacks G) = Some new" "set new = (\<Union>st\<in>set (g_stacks G). symbol_stacks ?R st (Chr c))"
    using accept_stacks_exact [OF states nlr] by blast
  let ?G = "G\<lparr> g_stacks := new \<rparr>"
  have "\<forall>t\<in>set new. state_ok g ?R t" using new(2) states symbol_stacks_ok by fastforce
  then have "grammar_ok g ?G" using ok by (auto simp: grammar_ok_def state_ok_def)
  moreover have "expects g ?G w = expects g G (Chr c # w)" for w
    using new(2) states symbol_stacks_derive by (simp add: expects_def)
  ultimately show ?thesis using new(1) by (intro exI [of _ ?G]) (simp add: grammar_accept_def)
qed

lemma grammar_accept_all:
  assumes nlr: "no_left_recursion g"
  shows "grammar_ok g G \<Longrightarrow> \<exists>G'. foldM (\<lambda>c G. grammar_accept G c) cs G = Some G' \<and> grammar_ok g G' \<and>
    (\<forall>w. expects g G' w = expects g G (map Chr cs @ w))"
proof (induction cs arbitrary: G)
  case (Cons c cs)
  obtain G1 where G1: "grammar_accept G c = Some G1" "grammar_ok g G1" "\<forall>w. expects g G1 w = expects g G (Chr c # w)"
    using grammar_accept_exact [OF Cons(2) nlr] by blast
  then show ?case using Cons(1) [OF G1(2)] by auto
qed simp

section \<open>Completing a text\<close>

text \<open>Grammars of characters in which nothing is a dead end: every rule derives some text, and every class has a character.\<close>

definition productive :: "cfg \<Rightarrow> bool" where
  "productive g \<longleftrightarrow> (\<forall>r<length g. \<exists>cs. rule_derives g r (map Chr cs)) \<and>
    (\<forall>alts\<in>set g. \<forall>alt\<in>set alts. \<forall>it\<in>set alt. (\<exists>r. it = Ref r) \<or> (\<exists>c. item_char it c))"

lemma productive_items:
  assumes "productive g"
  shows "refs_ok g its \<Longrightarrow> \<exists>cs. derives g its (map Chr cs)"
proof (induction its)
  case Nil
  then show ?case by (intro exI [of _ "[]"]) (simp add: derives_Nil)
next
  case (Cons it its)
  then obtain cs where cs: "derives g its (map Chr cs)" by auto
  have ok: "item_ok g it" using Cons(2) by simp
  show ?case
  proof (cases "\<exists>r. it = Ref r")
    case True
    then obtain r where it: "it = Ref r" by blast
    then have r: "unat r < length g" using ok by auto
    then obtain ds where "rule_derives g (unat r) (map Chr ds)" using assms by (auto simp: productive_def)
    then obtain alt where "alt \<in> set (g ! unat r)" "derives g alt (map Chr ds)" by (auto simp: rule_derives_def)
    then have "derives g (it # its) (map Chr (ds @ cs))" using cs it r by (simp add: derives_Ref)
    then show ?thesis by blast
  next
    case False
    then obtain c where "item_char it c" using assms ok unfolding productive_def item_ok_def by blast
    then have "derives g (it # its) (map Chr (c # cs))" using cs by (simp add: derives_sym)
    then show ?thesis by blast
  qed
qed

lemma productive_expects:
  assumes "productive g" "grammar_ok g G" "g_stacks G \<noteq> []"
  shows "\<exists>cs. expects g G (map Chr cs)"
proof -
  obtain st iss where st: "st \<in> set (g_stacks G)" "stack_items g (g_rules G) st iss"
    using assms(2,3) by (cases "g_stacks G") (auto simp: grammar_ok_def ready_stack_def)
  have "refs_ok g (concat iss)" using st(2) unfolding stack_items_def
    by (induction rule: list_all2_induct) auto
  then obtain cs where "derives g (concat iss) (map Chr cs)" using productive_items [OF assms(1)] by blast
  then have "stack_derives g (g_rules G) st (map Chr cs)" using stack_derives_iff [OF st(2)] by blast
  then show ?thesis using st(1) unfolding expects_def by blast
qed

section \<open>Loops that do not end\<close>

text \<open>When the loop that advances stacks ends, only finitely many stacks can be reached.\<close>

definition reach_bounded :: "gr_rules \<Rightarrow> gr_stack list \<Rightarrow> gr_stack set \<Rightarrow> bool" where
  "reach_bounded rules todo seen \<longleftrightarrow>
    (finite seen \<longrightarrow> (\<forall>s\<in>seen. \<forall>t. expands rules s t \<longrightarrow> t \<in> seen \<union> set todo) \<longrightarrow>
      (\<exists>F. finite F \<and> seen \<union> set todo \<subseteq> F \<and> (\<forall>s\<in>F. \<forall>t. expands rules s t \<longrightarrow> t \<in> F)))"

lemma reach_boundedI:
  "(finite seen \<Longrightarrow> \<forall>s\<in>seen. \<forall>t. expands rules s t \<longrightarrow> t \<in> seen \<union> set todo \<Longrightarrow>
    \<exists>F. finite F \<and> seen \<union> set todo \<subseteq> F \<and> (\<forall>s\<in>F. \<forall>t. expands rules s t \<longrightarrow> t \<in> F)) \<Longrightarrow> reach_bounded rules todo seen"
  by (simp add: reach_bounded_def)

lemma reach_boundedD:
  "reach_bounded rules todo seen \<Longrightarrow> finite seen \<Longrightarrow> \<forall>s\<in>seen. \<forall>t. expands rules s t \<longrightarrow> t \<in> seen \<union> set todo \<Longrightarrow>
    \<exists>F. finite F \<and> seen \<union> set todo \<subseteq> F \<and> (\<forall>s\<in>F. \<forall>t. expands rules s t \<longrightarrow> t \<in> F)"
  by (simp add: reach_bounded_def)

lemma advance_loop_bounded:
  assumes "advance_loop rules todo seen new = Some r"
  shows "reach_bounded rules todo seen"
  using assms
proof (rule advance_loop.raw_induct [where P = "\<lambda>rules todo seen new r. reach_bounded rules todo seen", rotated])
  fix advance_loop :: "gr_rules \<Rightarrow> gr_stack list \<Rightarrow> gr_stack set \<Rightarrow> gr_stack list \<Rightarrow> gr_stack list option"
  fix rules todo seen new r
  assume rec: "\<And>rules todo seen new r. advance_loop rules todo seen new = Some r \<Longrightarrow> reach_bounded rules todo seen"
    and ret: "(case todo of [] \<Rightarrow> Some new
     | st # rest \<Rightarrow>
       if st \<in> seen then advance_loop rules rest seen new
       else (case st of [] \<Rightarrow> advance_loop rules rest (insert st seen) (add_new new st)
        | p # below \<Rightarrow> (case elem_at rules p of None \<Rightarrow> None
          | Some e \<Rightarrow>
            if el_type e = GRE_RULE_REF then
              (case expand_ref rules p e below of None \<Rightarrow> None
               | Some nexts \<Rightarrow> advance_loop rules (rev nexts @ rest) (insert st seen) new)
            else if is_positive e \<or> el_type e = GRE_CHAR_NOT \<or> is_token e then
              advance_loop rules rest (insert st seen) (add_new new st)
            else None))) = Some r"
  note IH = reach_boundedD [OF rec]
  show "reach_bounded rules todo seen"
  proof (rule reach_boundedI)
    assume fin: "finite seen" and closed: "\<forall>s\<in>seen. \<forall>t. expands rules s t \<longrightarrow> t \<in> seen \<union> set todo"
    let ?goal = "\<exists>F. finite F \<and> seen \<union> set todo \<subseteq> F \<and> (\<forall>s\<in>F. \<forall>t. expands rules s t \<longrightarrow> t \<in> F)"
  show ?goal
  proof (cases todo)
    case Nil
    then show ?goal using fin closed by (intro exI [of _ seen]) auto
  next
    case (Cons st rest)
    show ?goal
    proof (cases "st \<in> seen")
      case True
      have "advance_loop rules rest seen new = Some r" using ret True Cons by simp
      moreover have "\<forall>s\<in>seen. \<forall>t. expands rules s t \<longrightarrow> t \<in> seen \<union> set rest" using closed True Cons by auto
      ultimately show ?goal using IH [of rules rest seen new r] fin True Cons by auto
    next
      case False
      show ?goal
      proof (cases "\<exists>p below e. st = p # below \<and> elem_at rules p = Some e \<and> el_type e = GRE_RULE_REF")
        case ref: True
        then obtain p below e where st: "st = p # below" "elem_at rules p = Some e" "el_type e = GRE_RULE_REF" by blast
        obtain nexts where n: "expand_ref rules p e below = Some nexts" "advance_loop rules (rev nexts @ rest) (insert st seen) new = Some r"
          using ret False Cons st by (auto split: option.splits)
        have "expands rules st t \<longrightarrow> t \<in> set nexts" for t using st n(1) by (auto simp: expands_Cons)
        then have "\<forall>s\<in>insert st seen. \<forall>t. expands rules s t \<longrightarrow> t \<in> insert st seen \<union> set (rev nexts @ rest)"
          using closed Cons by auto
        from IH [OF n(2) _ this] fin show ?goal using Cons by auto
      next
        case no_ref: False
        have none: "\<not> expands rules st t" for t using no_ref by (auto elim!: expands.cases)
        obtain new' where "advance_loop rules rest (insert st seen) new' = Some r"
          using ret False Cons no_ref by (auto split: list.splits option.splits if_splits)
        moreover have "\<forall>s\<in>insert st seen. \<forall>t. expands rules s t \<longrightarrow> t \<in> insert st seen \<union> set rest"
          using closed Cons none by auto
        ultimately show ?goal using IH [of rules rest "insert st seen" new' r] fin Cons by auto
      qed
    qed
  qed
  qed
qed

lemma advance_stack_finite:
  assumes "advance_stack rules st new = Some r"
  shows "finite (reach rules st)"
proof -
  obtain F where F: "finite F" "st \<in> F" "\<forall>s\<in>F. \<forall>t. expands rules s t \<longrightarrow> t \<in> F"
    using reach_boundedD [OF advance_loop_bounded, of rules "[st]" "{}" new r] assms by (auto simp: advance_stack_def)
  have "t \<in> F" if "(expands rules)\<^sup>*\<^sup>* st t" for t using that by (induction rule: rtranclp_induct) (use F in auto)
  then have "reach rules st \<subseteq> F" by (auto simp: reach_def)
  then show ?thesis using F(1) finite_subset by blast
qed

end
