(* ===== verification/Grammar_Properties.thy ===== *)
theory Grammar_Properties
  imports Grammar_Complete
begin

text \<open>What users of the grammar and of the UTF-8 functions rely on, with witnesses.\<close>

section \<open>Lemmas for the properties\<close>

lemma encodable: "c \<le> 0x10FFFF \<Longrightarrow> \<exists>bs. unicode_cpt_to_utf8 c = Some bs"
  by (auto simp: unicode_cpt_to_utf8_def Let_def)

lemma those_list_all2: "those (map f xs) = Some ys \<Longrightarrow> list_all2 (\<lambda>x y. f x = Some y) xs ys"
  by (induction xs arbitrary: ys) (auto split: option.splits)

lemma those_total: "\<forall>x\<in>set xs. \<exists>y. f x = Some y \<Longrightarrow> \<exists>ys. those (map f xs) = Some ys"
  by (induction xs) auto

lemma decode_loop_points:
  "cps \<noteq> [] \<Longrightarrow> butlast (fst (decode_loop cps v n bs)) \<noteq> [] \<or> pu_n_remain (snd (decode_loop cps v n bs)) < 0"
proof (induction bs arbitrary: cps v n rule: length_induct)
  case (1 bs)
  show ?case
  proof (cases bs)
    case Nil
    then show ?thesis using 1(2) by simp
  next
    case (Cons b bs')
    define n0 where "n0 = first_lookup ! unat (drop_bit 4 b) - 1"
    define w :: u32 where "w = ucast (b AND push_bit (nat (7 - n0)) 1 - 1)"
    obtain v' n' rest where t: "take_bytes w n0 bs' = (v', n', rest)" by (metis prod_cases3)
    have "length rest < length bs" using take_bytes_shrinks [of w n0 bs'] t Cons by simp
    then have "butlast (fst (decode_loop c v' n' rest)) \<noteq> [] \<or> pu_n_remain (snd (decode_loop c v' n' rest)) < 0" if "c \<noteq> []" for c
      using 1(1) that by blast
    then show ?thesis using 1(2) t Cons by (auto simp: Let_def simp flip: n0_def w_def)
  qed
qed

lemma take_bytes_ends: "take_bytes v n bs = (v', n', rest) \<Longrightarrow> 0 \<le> n \<Longrightarrow> 0 \<le> n' \<and> (n' = 0 \<or> rest = [])"
  by (induction v n bs rule: take_bytes.induct) (auto split: if_splits)

lemma decode_loop_progress:
  "bs \<noteq> [] \<Longrightarrow> butlast (fst (decode_loop [] v n bs)) \<noteq> [] \<or> pu_n_remain (snd (decode_loop [] v n bs)) \<noteq> 0"
proof (cases bs)
  case (Cons b bs')
  define n0 where "n0 = first_lookup ! unat (drop_bit 4 b) - 1"
  define w :: u32 where "w = ucast (b AND push_bit (nat (7 - n0)) 1 - 1)"
  obtain v' n' rest where t: "take_bytes w n0 bs' = (v', n', rest)" by (metis prod_cases3)
  show ?thesis
  proof (cases "n0 < 0")
    case False
    then have e: "n' = 0 \<or> rest = []" using take_bytes_ends [OF t] by simp
    have "decode_loop [] v n bs = decode_loop (if n' = 0 then [v'] else []) v' n' rest"
      using t Cons False by (simp add: Let_def flip: n0_def w_def)
    then show ?thesis using e decode_loop_points [of "[v']" v' n' rest] by (cases "n' = 0") auto
  qed (use Cons in \<open>simp add: Let_def flip: n0_def\<close>)
qed simp

lemma continue_decode_ends: "continue_decode v n bs = Some (v', n', rest) \<Longrightarrow> n' \<le> 0 \<or> rest = []"
  by (induction v n bs rule: continue_decode.induct) (auto split: if_splits)

text \<open>A piece that is not empty completes a character or leaves one unfinished, or is invalid.\<close>

lemma decode_progress:
  assumes "bs \<noteq> []" "hd bs \<noteq> 0"
  shows "butlast (fst (decode_utf8 bs pu)) \<noteq> [] \<or> pu_n_remain (snd (decode_utf8 bs pu)) \<noteq> 0"
proof -
  obtain b bs' where b: "c_str bs = b # bs'" using assms by (cases bs) (auto simp: c_str_def)
  show ?thesis
  proof (cases "continue_decode (pu_value pu) (pu_n_remain pu) (c_str bs)")
    case None
    then show ?thesis by (simp add: decode_utf8_def)
  next
    case (Some r)
    obtain v n rest where r: "r = (v, n, rest)" by (cases r)
    have d: "decode_utf8 bs pu = decode_loop (if pu_n_remain pu > 0 \<and> n = 0 then [v] else []) v n rest"
      using Some r by (simp add: decode_utf8_def)
    show ?thesis
    proof (cases "pu_n_remain pu > 0 \<and> n = 0")
      case True
      then show ?thesis using d decode_loop_points [of "[v]" v n rest] by auto
    next
      case no: False
      show ?thesis
      proof (cases "rest = []")
        case True
        then have "pu_n_remain pu > 0" using Some r b by (cases "pu_n_remain pu > 0") auto
        then show ?thesis using d no True by simp
      qed (use d no decode_loop_progress in auto)
    qed
  qed
qed

section \<open>UTF-8\<close>

text \<open>C28: every list of Unicode code points is encoded without an exception, and the encoding is read back to the
  same code points.\<close>

theorem utf8_roundtrip:
  assumes "\<forall>c\<in>set cs. c \<le> 0x10FFFF"
  shows "\<exists>bss. those (map unicode_cpt_to_utf8 cs) = Some bss \<and> unicode_cpts_from_utf8 (concat bss) = cs"
proof -
  obtain bss where b: "those (map unicode_cpt_to_utf8 cs) = Some bss" using those_total [of cs unicode_cpt_to_utf8] assms encodable by blast
  then show ?thesis using cpts_loop_encoded [OF those_list_all2 [OF b], of "[]"] by (auto simp: unicode_cpts_from_utf8_def)
qed

theorem utf8_roundtrip_witness:
  "\<exists>bss. those (map unicode_cpt_to_utf8 [0x41, 0xE9, 0x20AC, 0x1F600]) = Some bss \<and>
    unicode_cpts_from_utf8 (concat bss) = [0x41, 0xE9, 0x20AC, 0x1F600]"
  by (rule utf8_roundtrip) simp

text \<open>Bytes past the last code point are decoded all the same, and then cannot be encoded.\<close>

lemma utf8_past_the_end:
  "unicode_cpts_from_utf8 [0xF4, 0x90, 0x80, 0x80] = [0x110000]" "unicode_cpt_to_utf8 0x110000 = None"
  by code_simp+

section \<open>Grammars\<close>

text \<open>C21: advancing a stack of a grammar without left recursion ends, without an abort; it adds the stacks with a
  class or a token on top that can be reached, and these derive exactly the words the stack derives.\<close>

theorem advance_stack_terminates:
  assumes "encodes rules g" "no_left_recursion g" "stack_items g rules st iss" "distinct new"
  shows "\<exists>new' T. advance_stack rules st new = Some new' \<and> distinct new' \<and> set new' = set new \<union> T \<and> T \<noteq> {} \<and>
    (\<forall>t\<in>T. terminal rules t) \<and> (\<forall>w. (\<exists>t\<in>T. stack_derives g rules t w) \<longleftrightarrow> stack_derives g rules st w)"
proof -
  obtain new' where "advance_stack rules st new = Some new'" "distinct new'" "set new' = set new \<union> terminals rules st"
    using advance_stack_exact [OF assms] by blast
  then show ?thesis
    using terminals_not_empty [OF assms(1-3)] terminals_derive [OF assms(1,3)]
    by (intro exI [of _ new'] exI [of _ "terminals rules st"]) (auto simp: terminals_def)
qed

text \<open>A grammar for the witnesses: \<open>root ::= "a" root | "b"\<close>.\<close>

definition small_cfg :: cfg where
  "small_cfg = [[[Class False (97, None) [], Ref 0], [Class False (98, None) []]]]"

lemma small_cfg_ok: "well_formed_cfg small_cfg" "encodes (map enc_rule small_cfg) small_cfg" "token_free (map enc_rule small_cfg)"
proof -
  show wf: "well_formed_cfg small_cfg" by (auto simp: well_formed_cfg_def small_cfg_def)
  then show "encodes (map enc_rule small_cfg) small_cfg" by (simp add: encodes_iff)
  show "token_free (map enc_rule small_cfg)" by (simp add: token_free_def small_cfg_def is_token_def)
qed

lemma small_corner: "left_corner small_cfg = {}"
proof -
  have "\<not> derives small_cfg (Class neg r rs # its) []" for neg r rs its by (simp add: derives_sym_iff)
  then show ?thesis by (auto simp: left_corner_def small_cfg_def append_eq_Cons_conv Cons_eq_append_conv)
qed

lemma small_no_left_recursion: "no_left_recursion small_cfg"
  by (simp add: no_left_recursion_def small_corner acyclic_def)

lemma small_start: "at_items (map enc_rule small_cfg) (0, 0) [Class False (97, None) [], Ref 0]"
  by (simp add: at_items_def rest_at_def small_cfg_def is_end_def)

theorem advance_stack_terminates_witness:
  "\<exists>new' T. advance_stack (map enc_rule small_cfg) [(0, 0)] [] = Some new' \<and> distinct new' \<and> set new' = set [] \<union> T \<and> T \<noteq> {} \<and>
    (\<forall>t\<in>T. terminal (map enc_rule small_cfg) t) \<and>
    (\<forall>w. (\<exists>t\<in>T. stack_derives small_cfg (map enc_rule small_cfg) t w) \<longleftrightarrow> stack_derives small_cfg (map enc_rule small_cfg) [(0, 0)] w)"
proof (rule advance_stack_terminates [OF small_cfg_ok(2) small_no_left_recursion])
  have "refs_ok small_cfg [Class False (97, None) [], Ref 0]" by (auto simp: item_ok_def small_cfg_def)
  then show "stack_items small_cfg (map enc_rule small_cfg) [(0, 0)] [[Class False (97, None) [], Ref 0]]"
    using small_start by (simp add: stack_items_def)
qed simp

text \<open>C24: for grammars whose rules derive the empty text only by an empty alternate of their own, construction always
  returns, and it refuses the grammar exactly when it is left-recursive.\<close>

theorem grammar_init_refuses:
  assumes "well_formed_cfg g" "directly_empty g" "start < length g"
  shows "if no_left_recursion g then \<exists>G. grammar_init (map enc_rule g) start = Some (Some G)
    else grammar_init (map enc_rule g) start = Some None"
proof -
  have "direct_corner g = left_corner g" using direct_corner_eq assms(1,2) encodes_iff by blast
  then show ?thesis
    using init_accepted [OF assms(1) _ assms(3)] grammar_init_unfold [OF assms(1), of start] by (auto simp: no_left_recursion_def)
qed

theorem grammar_init_refuses_witness:
  "if no_left_recursion small_cfg then \<exists>G. grammar_init (map enc_rule small_cfg) 0 = Some (Some G)
    else grammar_init (map enc_rule small_cfg) 0 = Some None"
proof (rule grammar_init_refuses [OF small_cfg_ok(1)])
  show "directly_empty small_cfg"
    by (simp add: directly_empty_def rule_derives_def small_cfg_def derives_sym_iff)
qed (simp add: small_cfg_def)

lemma accept_tokens_stacks: "accept_tokens tps G = Some (Inr G') \<Longrightarrow> tps \<noteq> [] \<Longrightarrow> g_stacks G' \<noteq> []"
proof (induction tps arbitrary: G)
  case (Cons tp tps)
  obtain token piece where tp: "tp = (token, piece)" by (cases tp)
  obtain G1 where G1: "accept_token G token piece = Some (Inr G1)" "accept_tokens tps G1 = Some (Inr G')"
  proof (cases "accept_token G token piece")
    case (Some r)
    then show ?thesis using Cons(2) tp that by (cases r) auto
  qed (use Cons(2) tp in simp)
  have "g_stacks G1 \<noteq> []" using G1(1) by (auto simp: accept_token_def check_stacks_def bind_Some_iff split: if_splits prod.splits)
  then show ?case using Cons(1) [OF G1(2)] G1(2) by (cases "tps = []") auto
qed simp

text \<open>C9: a grammar that is not left-recursive and has no token elements is constructed; tokens whose pieces together
  are the encoding of a text are accepted as the text is. When one of them throws, the text begins no text of the
  start rule. When none throws, some stack is left (if there was a token), the stacks derive exactly the continuations
  of the text to a text of the start rule, and the end of the generation is allowed exactly when the text is one of them.
  In a grammar whose rules all derive some text and whose classes all have a character, not throwing and beginning
  a text of the start rule are therefore the same; without that they need not be (\<open>root ::= "a" x\<close>,
  \<open>x ::= "b" x\<close> accepts \<open>"a"\<close>). Where the pieces cut the text, inside a character or not, makes no difference.\<close>

theorem grammar_text_exact:
  assumes "well_formed_cfg g" "no_left_recursion g" "token_free (map enc_rule g)" "start < length g"
    and "those (map unicode_cpt_to_utf8 cs) = Some bss" "0 \<notin> set cs" "concat (map snd tps) = concat bss" "[] \<notin> set (map snd tps)"
  shows "\<exists>G res. grammar_init (map enc_rule g) start = Some (Some G) \<and> accept_tokens tps G = Some res \<and>
    (case res of Inl _ \<Rightarrow> \<forall>ds. \<not> rule_derives g start (map Chr (cs @ ds))
     | Inr G' \<Rightarrow> (tps \<noteq> [] \<longrightarrow> g_stacks G' \<noteq> []) \<and> (\<forall>w. expects g G' w \<longleftrightarrow> rule_derives g start (map Chr cs @ w)) \<and>
         ([] \<in> set (g_stacks G') \<longleftrightarrow> rule_derives g start (map Chr cs))) \<and>
    (productive g \<longrightarrow> ((\<exists>G'. res = Inr G') \<longleftrightarrow> (\<exists>ds. rule_derives g start (map Chr (cs @ ds)))))"
proof -
  obtain G where G: "grammar_init (map enc_rule g) start = Some (Some G)" "grammar_ok g G" "g_rules G = map enc_rule g"
      "g_partial G = start_utf8" "\<forall>w. expects g G w \<longleftrightarrow> rule_derives g start w"
    using init_accepted [OF assms(1,2,4)] by blast
  have enc: "list_all2 (\<lambda>c bs. unicode_cpt_to_utf8 c = Some bs) cs bss" by (rule those_list_all2) fact
  obtain w where w: "feed_all (0, 0) (concat (map snd tps)) = Some (cs, w, 0)" using feed_encoded_all [OF enc, of 0] assms(7) by auto
  have "0 \<notin> set (concat bss)" using enc assms(6)
    by (induction rule: list_all2_induct) (auto dest: encoded_nonzero)
  then have "0 \<notin> set (concat (map snd tps))" using assms(7) by simp
  then have "\<forall>piece\<in>set (map snd tps). piece \<noteq> [] \<and> 0 \<notin> set piece" using assms(8) by fastforce
  then obtain res where res: "accept_tokens tps G = Some res"
      "case res of Inl _ \<Rightarrow> \<forall>w. \<not> expects g G (map Chr cs @ w)
       | Inr G' \<Rightarrow> grammar_ok g G' \<and> (\<forall>w. expects g G' w = expects g G (map Chr cs @ w))"
    using accept_tokens_text [OF assms(2) G(2), of 0 0 tps cs w] w assms(3) G(3,4) by (auto simp: start_utf8_def)
  show ?thesis
  proof (cases res)
    case (Inl G')
    then show ?thesis using G(1,5) res by (intro exI [of _ G] exI [of _ res]) simp
  next
    case (Inr G')
    have left: "expects g G' w \<longleftrightarrow> rule_derives g start (map Chr cs @ w)" for w using res(2) G(5) Inr by simp
    have "tps \<noteq> [] \<Longrightarrow> g_stacks G' \<noteq> []" using accept_tokens_stacks res(1) Inr by simp
    moreover have "\<exists>ds. rule_derives g start (map Chr (cs @ ds))" if p: "productive g"
    proof (cases "tps = []")
      case True
      then show ?thesis using w p assms(4) by (auto simp: productive_def)
    next
      case False
      then show ?thesis
        using productive_expects [OF p, of G'] res(2) Inr left accept_tokens_stacks [of tps G G'] res(1) by auto
    qed
    ultimately show ?thesis
      using G(1) res Inr left left [of "[]"] expects_Nil [of g G'] by (intro exI [of _ G] exI [of _ res]) auto
  qed
qed

theorem grammar_text_exact_witness:
  "\<exists>G res. grammar_init (map enc_rule small_cfg) 0 = Some (Some G) \<and> accept_tokens [(1, [97]), (2, [97, 98])] G = Some res \<and>
    (case res of Inl _ \<Rightarrow> \<forall>ds. \<not> rule_derives small_cfg 0 (map Chr ([97, 97, 98] @ ds))
     | Inr G' \<Rightarrow> ([(1 :: int, [97]), (2, [97, 98 :: u8])] \<noteq> [] \<longrightarrow> g_stacks G' \<noteq> []) \<and>
         (\<forall>w. expects small_cfg G' w \<longleftrightarrow> rule_derives small_cfg 0 (map Chr [97, 97, 98] @ w)) \<and>
         ([] \<in> set (g_stacks G') \<longleftrightarrow> rule_derives small_cfg 0 (map Chr [97, 97, 98]))) \<and>
    (productive small_cfg \<longrightarrow>
      ((\<exists>G'. res = Inr G') \<longleftrightarrow> (\<exists>ds. rule_derives small_cfg 0 (map Chr ([97, 97, 98] @ ds)))))"
proof (rule grammar_text_exact [OF small_cfg_ok(1) small_no_left_recursion small_cfg_ok(3)])
  show "those (map unicode_cpt_to_utf8 [97, 97, 98]) = Some [[97], [97], [98]]" by code_simp
qed (simp_all add: small_cfg_def)

text \<open>C15: the mask agrees with accepting. For a grammar without token elements, a token that is not masked is accepted
  without an exception; and a token that is masked would throw, when its piece ends with a whole character.\<close>

theorem grammar_mask_exact:
  assumes "grammar_ok g G" "g_stacks G \<noteq> []" "no_left_recursion g" "token_free (g_rules G)"
    and "\<forall>t\<in>set tokens. 0 \<notin> set (butlast (fst (decode_utf8 (token_to_piece v t) (g_partial G))))"
    and "\<forall>t\<in>set tokens. \<not> is_eog v t \<and> token_to_piece v t \<noteq> [] \<and> hd (token_to_piece v t) \<noteq> 0"
  shows "\<exists>masked. masked_tokens v G tokens = Some masked \<and> (\<forall>i<length tokens. \<exists>G'.
    accept_token G (tokens ! i) (token_to_piece v (tokens ! i)) = Some (if g_stacks G' = [] then Inl G' else Inr G') \<and>
    (if i \<notin> set masked then g_stacks G' \<noteq> []
     else pu_n_remain (snd (decode_utf8 (token_to_piece v (tokens ! i)) (g_partial G))) = 0 \<longrightarrow> g_stacks G' = []))"
proof -
  obtain masked where m: "masked_tokens v G tokens = Some masked" "\<forall>i<length tokens. i \<in> set masked \<longleftrightarrow> token_masked v G (tokens ! i)"
    using masked_tokens_exact [OF assms(1-3,5)] by blast
  have "\<exists>G'. accept_token G t (token_to_piece v t) = Some (if g_stacks G' = [] then Inl G' else Inr G') \<and>
    (if \<not> token_masked v G t then g_stacks G' \<noteq> []
     else pu_n_remain (snd (decode_utf8 (token_to_piece v t) (g_partial G))) = 0 \<longrightarrow> g_stacks G' = [])" if t: "t \<in> set tokens" for t
  proof -
    have cand: "is_candidate v t" using assms(6) t by (simp add: is_candidate_def)
    obtain cps pu where d: "decode_utf8 (token_to_piece v t) (g_partial G) = (cps @ [0], pu)"
      using decode_utf8_last [of "token_to_piece v t" "g_partial G"]
      by (cases "decode_utf8 (token_to_piece v t) (g_partial G)") (metis append_butlast_last_id fst_conv)
    have "cps \<noteq> [] \<or> pu_n_remain pu \<noteq> 0"
      using decode_progress [of "token_to_piece v t" "g_partial G"] d assms(6) t by simp
    from mask_accept [OF assms(1,3,4) cand d this] show ?thesis using d by (auto simp: check_stacks_def)
  qed
  then have "\<forall>i<length tokens. \<exists>G'.
    accept_token G (tokens ! i) (token_to_piece v (tokens ! i)) = Some (if g_stacks G' = [] then Inl G' else Inr G') \<and>
    (if i \<notin> set masked then g_stacks G' \<noteq> []
     else pu_n_remain (snd (decode_utf8 (token_to_piece v (tokens ! i)) (g_partial G))) = 0 \<longrightarrow> g_stacks G' = [])"
    using m(2) nth_mem by (metis (no_types, lifting))
  then show ?thesis using m(1) by blast
qed

definition small_grammar :: grammar where
  "small_grammar = \<lparr> g_rules = map enc_rule small_cfg, g_stacks = [[(0, 0)]], g_partial = start_utf8 \<rparr>"

definition small_vocab :: vocab where
  "small_vocab = \<lparr> token_to_piece = (\<lambda>t. if t = 0 then [97] else [99]), is_eog = (\<lambda>t. False) \<rparr>"

lemma small_grammar_ok: "grammar_ok small_cfg small_grammar"
proof -
  have "refs_ok small_cfg [Class False (97, None) [], Ref 0]" by (auto simp: item_ok_def small_cfg_def)
  then have "stack_items small_cfg (map enc_rule small_cfg) [(0, 0)] [[Class False (97, None) [], Ref 0]]"
    using small_start by (simp add: stack_items_def)
  moreover have "terminal (map enc_rule small_cfg) [(0, 0)]"
    by (rule not_Ref_terminal(1) [OF small_start]) simp
  ultimately show ?thesis using small_cfg_ok(2) by (auto simp: grammar_ok_def ready_stack_def small_grammar_def)
qed

theorem grammar_mask_exact_witness:
  "\<exists>masked. masked_tokens small_vocab small_grammar [0, 1] = Some masked \<and> (\<forall>i<length [0, 1 :: int]. \<exists>G'.
    accept_token small_grammar ([0, 1] ! i) (token_to_piece small_vocab ([0, 1] ! i)) = Some (if g_stacks G' = [] then Inl G' else Inr G') \<and>
    (if i \<notin> set masked then g_stacks G' \<noteq> []
     else pu_n_remain (snd (decode_utf8 (token_to_piece small_vocab ([0, 1] ! i)) (g_partial small_grammar))) = 0 \<longrightarrow> g_stacks G' = []))"
proof (rule grammar_mask_exact [OF small_grammar_ok _ small_no_left_recursion])
  show "\<forall>t\<in>set [0, 1]. 0 \<notin> set (butlast (fst (decode_utf8 (token_to_piece small_vocab t) (g_partial small_grammar))))"
    by code_simp
  show "token_free (g_rules small_grammar)" using small_cfg_ok(3) by (simp add: small_grammar_def)
qed (simp_all add: small_grammar_def small_vocab_def)

text \<open>C29: nothing is a dead end. In a state of a grammar whose rules all derive some text and whose classes all have
  a character, there are characters that are accepted one after the other and after which the end is allowed.\<close>

theorem grammar_completes:
  assumes "grammar_ok g G" "no_left_recursion g" "productive g" "g_stacks G \<noteq> []"
  shows "\<exists>cs G'. foldM (\<lambda>c G. grammar_accept G c) cs G = Some G' \<and> [] \<in> set (g_stacks G')"
proof -
  obtain cs where cs: "expects g G (map Chr cs)" using productive_expects [OF assms(3,1,4)] by blast
  obtain G' where "foldM (\<lambda>c G. grammar_accept G c) cs G = Some G'" "grammar_ok g G'" "expects g G' []"
    using grammar_accept_all [OF assms(2,1), of cs] cs by fastforce
  then show ?thesis using expects_Nil by blast
qed

theorem grammar_completes_witness:
  "\<exists>cs G'. foldM (\<lambda>c G. grammar_accept G c) cs small_grammar = Some G' \<and> [] \<in> set (g_stacks G')"
proof (rule grammar_completes [OF small_grammar_ok small_no_left_recursion])
  have "rule_derives small_cfg 0 (map Chr [98])" by (simp add: rule_derives_def small_cfg_def derives_sym_iff)
  then have "\<exists>cs. rule_derives small_cfg r (map Chr cs)" if "r < length small_cfg" for r
  proof -
    have "r = 0" using that by (simp add: small_cfg_def)
    then show ?thesis using \<open>rule_derives small_cfg 0 (map Chr [98])\<close> by blast
  qed
  moreover have has: "Ex (item_char (Class False (x, None) []))" for x by (rule exI [of _ x]) simp
  ultimately show "productive small_cfg" unfolding productive_def by (auto simp: small_cfg_def has)
qed (simp add: small_grammar_def)






section \<open>Where mask and acceptance differ\<close>

text \<open>With token elements they do not agree: for \<open>root ::= "a" <[5]>\<close> token 5 with the piece \<open>ax\<close> is not masked, because
  its identity is compared in the middle of its characters, but accepting it throws.\<close>

definition token_rules :: gr_rules where
  "token_rules = [[Elem GRE_CHAR 97, Elem GRE_TOKEN 5, Elem GRE_END 0]]"

definition token_grammar :: grammar where
  "token_grammar = \<lparr> g_rules = token_rules, g_stacks = [[(0, 0)]], g_partial = start_utf8 \<rparr>"

lemma mask_misses_token:
  "masked_tokens \<lparr> token_to_piece = (\<lambda>t. [97, 120]), is_eog = (\<lambda>t. False) \<rparr> token_grammar [5] = Some []"
  "accept_token token_grammar 5 [97, 120] = Some (Inl (token_grammar\<lparr> g_stacks := [], g_partial := \<lparr> pu_value = 120, pu_n_remain = 0 \<rparr> \<rparr>))"
proof -
  have dec: "decode_utf8 [97, 120] start_utf8 = ([97, 120, 0], \<lparr> pu_value = 120, pu_n_remain = 0 \<rparr>)" by code_simp
  have adv: "advance_stack token_rules [(0, Suc 0)] [] = Some [[(0, Suc 0)]]"
    by (simp add: advance_stack_def advance_loop.simps [of _ "_ # _"] advance_loop.simps [of _ "[]"] token_rules_def elem_at_def
        rest_at_def is_positive_def is_token_def add_new_def)
  have top: "elem_at token_rules (0, 0) = Some (Elem GRE_CHAR 97)" "elem_at token_rules (0, Suc 0) = Some (Elem GRE_TOKEN 5)"
      "match_char token_rules (0, 0) c = Some (c = 97, (0, Suc 0))" "push_unless_end token_rules (0, Suc 0) [] = Some [(0, Suc 0)]" for c
    by (auto simp: token_rules_def elem_at_def rest_at_def match_char_def is_positive_def push_unless_end_def
        is_end_of_sequence_def is_end_def)
  let ?cand = "\<lparr> cd_index = 0, cd_points = [97, 120, 0], cd_off = 0, cd_partial = \<lparr> pu_value = 120, pu_n_remain = 0 \<rparr>, cd_id = 5 \<rparr>"
  have rej: "reject_for_stack (reject_candidates (Suc n) token_rules) token_rules [(0, 0)] [?cand] = Some []" for n
    by (simp add: reject_for_stack_def top is_token_def sort_candidate_def cd_point_def adv reject_at_token_def match_token_def)
  show "masked_tokens \<lparr> token_to_piece = (\<lambda>t. [97, 120]), is_eog = (\<lambda>t. False) \<rparr> token_grammar [5] = Some []"
    by (simp add: masked_tokens_def classify_token_def token_grammar_def dec longest_candidate_def rej)
  show "accept_token token_grammar 5 [97, 120] =
      Some (Inl (token_grammar\<lparr> g_stacks := [], g_partial := \<lparr> pu_value = 120, pu_n_remain = 0 \<rparr> \<rparr>))"
    by (simp add: accept_token_def token_grammar_def dec accept_token_stack_def top is_token_def accept_stacks_def accept_chr_def
        adv check_stacks_def)
qed

end
