(* ===== verification/Spec2Isabelle.thy ===== *)
theory Spec2Isabelle
  imports Kv_Properties Ownership_Properties Extent_Properties Vbr_Recovery_Properties Ladder_Properties
    Ladder_Precision Budget_Properties Cache_Properties Batch_Properties Grammar_Properties
begin

text \<open>
  A verification development of the repository's inference library: of its KV cache, the code under
  \<^verbatim>\<open>src/src/llama-kv-*\<close>, \<^verbatim>\<open>src/src/llama-vbr-*\<close> and \<^verbatim>\<open>src/src/llama-cache-*\<close>, of the batches that are placed in it,
  and of the grammars that constrain what is generated. The library decodes
  micro-batches of tokens against a cache of cells. A cell holds the position of a token, the
  sequences it belongs to and its extended metadata; the tensors behind it are addressed by the index
  of the cell. Around the cells the library keeps an index of what every sequence owns, a registry of
  the operations in flight, a ring of failed ones, references to committed extents, and a budget that
  decides how far the representation of the cells is degraded when memory is short.

  \<^bold>\<open>Conventions.\<close> \<^theory_text>\<open>Prelude\<close> defines the machine types and the option monad. \<open>None\<close> is an
  operation that fails an \<open>assert\<close>, indexes outside a vector or throws, so a theorem that says
  \<open>\<exists>y. f x = Some y\<close> says that none of this happens. Errors the code reports are values. Positions are
  unbounded integers, since their overflow is undefined in the code; counters the code wraps are words,
  or naturals with the modulus or the guard written out. Containers whose layout is unobservable are
  sets and maps; heaps are lists. Functions that hold a mutex for their whole body are one step.

  \<^bold>\<open>Cells.\<close> \<^theory_text>\<open>Bit_Words\<close>, \<^theory_text>\<open>Index_Set\<close> (\<open>llama_kv_idx_set\<close>, whose contract is the locale
  \<open>index_set\<close>) and \<^theory_text>\<open>Kv_Cells\<close> (\<open>llama_kv_cells\<close>, with its ring of changes) model
  \<^verbatim>\<open>llama-kv-cells.h\<close>. \<^theory_text>\<open>Kv_Invariant\<close> shows that each operation is one update of one cell and keeps the
  bitmap and the per-sequence index consistent, \<^theory_text>\<open>Kv_Steps\<close> makes the operations a step relation,
  \<^theory_text>\<open>Kv_History\<close> proves that \<open>changes_since\<close> misses no cell (for fewer than \<open>2 ^ 57\<close> changes, beyond which
  the 64-bit head of the ring would wrap), \<^theory_text>\<open>Kv_Queries\<close> and \<^theory_text>\<open>Kv_Properties\<close> say what the queries and
  the operations of reachable cell sets return.

  \<^bold>\<open>Ownership.\<close> \<^theory_text>\<open>Fenwick\<close> and \<^theory_text>\<open>Ownership_Index\<close> model \<open>vbr_ownership_index\<close> of
  \<^verbatim>\<open>llama-vbr-extent.cpp\<close>; the index refines, for every stream and sequence, a map from cells to
  positions (\<open>index_rep\<close>, locale for its counter), for up to \<open>2 ^ 31\<close> positions.

  \<^bold>\<open>The cache.\<close> \<^theory_text>\<open>Kv_Cache\<close> and \<^theory_text>\<open>Kv_Batch\<close> model \<^verbatim>\<open>llama-kv-cache.cpp\<close> over the two components
  above: the state \<open>kv_cache\<close> holds the cell sets \<open>v_cells\<close>, the heads \<open>v_heads\<close>, \<open>seq_to_stream\<close>, the
  ownership index, the content epochs (\<open>vbr_representation_epoch_\<close>, \<open>vbr_checkpoint_epoch_\<close> and its
  per-sequence array), the stash flag, the import receipt, the queued stream copies and the calls made
  to the generation tracker; the constants of the cache are the record \<open>cache_config\<close>. The edits are
  \<open>clear\<close>, \<open>seq_rm\<close>, \<open>seq_cp\<close>, \<open>seq_keep\<close>, \<open>seq_add\<close>, \<open>seq_div\<close>, one definition for the body of each loop
  and one for the operation; batches are placed by \<open>find_slot\<close>, \<open>apply_ubatch\<close> and \<open>plan_slots\<close>.
  \<^theory_text>\<open>Cache_Invariant\<close> states the invariant (\<open>cache_inv\<close>) and reads the cell operations through it,
  \<^theory_text>\<open>Cache_Index\<close> keeps the ownership index in step (\<open>in_sync\<close>), \<^theory_text>\<open>Cache_Edits\<close>,
  \<^theory_text>\<open>Cache_Sequence_Ops\<close>, \<^theory_text>\<open>Cache_Operations\<close> and \<^theory_text>\<open>Cache_Stream_Copy\<close> show that each loop is the
  pointwise map of a function of one cell (\<open>cell_rm\<close>, \<open>cell_cp\<close>, \<open>cell_keep\<close>, \<open>cell_add\<close>, \<open>cell_div\<close>),
  \<^theory_text>\<open>Cache_Placement\<close> and \<^theory_text>\<open>Cache_Batches\<close> do the same for a placed batch and its purge.
  \<^theory_text>\<open>Slot_Search\<close> and \<^theory_text>\<open>Slot_Properties\<close> prove that the search for a slot ends and is complete; its 32-bit
  counters do not wrap for fewer than \<open>2 ^ 30\<close> cells. \<^theory_text>\<open>Cache_Runs\<close> makes edits and batches a state
  machine (\<open>cache_step\<close>, \<open>cache_run\<close>) and states the contract of the content epochs as the locale
  \<open>content_epochs\<close>, interpreted on that machine. \<^theory_text>\<open>Cache_Sharing\<close> treats prefix sharing,
  \<^theory_text>\<open>Cache_Planning\<close> the journal of \<open>plan_slots\<close>, and \<^theory_text>\<open>Cache_Properties\<close> states what callers rely on.

  \<^bold>\<open>Batches.\<close> \<^theory_text>\<open>Batch_Alloc\<close> models \<open>llama_batch_allocr\<close> of \<^verbatim>\<open>llama-batch.cpp\<close>: a batch is
  checked, its missing fields are generated (\<open>batch_init\<close>), and it is split into micro-batches by
  \<open>split_simple\<close>, \<open>split_equal\<close> or \<open>split_seq\<close>; \<open>init_batch\<close> of the cache splits a batch and plans slots
  for it. \<^theory_text>\<open>Batch_Accept\<close> says what is accepted (\<open>well_formed\<close>), \<^theory_text>\<open>Batch_Split\<close> and
  \<^theory_text>\<open>Batch_Equal\<close> what one split takes (\<open>took\<close>, \<open>splits\<close>), \<^theory_text>\<open>Batch_Chains\<close> that splitting to the end
  uses every token once and keeps the order within a sequence set (\<open>covers\<close>), \<^theory_text>\<open>Batch_Placement\<close> that
  the micro-batches are what the slot search expects, and \<^theory_text>\<open>Batch_Properties\<close> what callers rely on.

  \<^bold>\<open>Grammars.\<close> \<^theory_text>\<open>Utf8\<close> models the encoding and decoding of \<^verbatim>\<open>unicode.cpp\<close> and the decoder of token
  pieces of \<^verbatim>\<open>llama-grammar.cpp\<close>, and shows that pieces can cut characters anywhere (\<open>feed_all\<close>, a decoder that sees
  one byte at a time). \<^theory_text>\<open>Grammar_Model\<close> and \<^theory_text>\<open>Grammar_Mask\<close> model the automaton: rules are arrays of
  elements, a pointer into them is a pair of indices, a stack is a list of them; \<open>advance_stack\<close>, which can run
  forever, is a partial function; \<open>reject_candidates\<close> and \<open>detect_left_recursion\<close> take a bound of their depth that
  their callers set and that the proofs show to be enough. \<^theory_text>\<open>Grammar_Language\<close> is the specification:
  context-free rules over characters and tokens (\<open>derives\<close>) and their layout in elements (\<open>encodes\<close>).
  \<^theory_text>\<open>Grammar_Positions\<close> reads positions as items, \<^theory_text>\<open>Grammar_Advance\<close> proves that advancing ends without left
  recursion and keeps the language, \<^theory_text>\<open>Grammar_Accept\<close> that accepting a symbol takes the derivative of the language
  (locale \<open>language_automaton\<close>, interpreted on the stacks), \<^theory_text>\<open>Grammar_Text\<close> does so for tokens,
  \<^theory_text>\<open>Grammar_Recursion\<close> treats the check for left recursion, \<^theory_text>\<open>Grammar_Candidates\<close> the mask,
  \<^theory_text>\<open>Grammar_Complete\<close> construction and completion, and \<^theory_text>\<open>Grammar_Properties\<close> what users rely on.

  \<^bold>\<open>Operations and recovery.\<close> \<^theory_text>\<open>Vbr_Operation\<close>, \<^theory_text>\<open>Vbr_Registry\<close> and \<^theory_text>\<open>Vbr_Recovery\<close> model
  \<^verbatim>\<open>llama-vbr-operation.h\<close> and \<^verbatim>\<open>.cpp\<close>: the closed vocabulary of mutations, the registry of live operations
  (locale \<open>keyed_store\<close>) and the ring of failed ones; \<^theory_text>\<open>Vbr_Registry_Properties\<close> and
  \<^theory_text>\<open>Vbr_Recovery_Properties\<close> hold the invariants of their runs. \<^theory_text>\<open>Extent_Store\<close> and
  \<^theory_text>\<open>Extent_Properties\<close> model \<open>vbr_extent_store\<close>, whose 32-bit generations protect references as long as
  fewer than \<open>2 ^ 31 - 2\<close> operations ran, and show what happens past that.

  \<^bold>\<open>Budget and tiers.\<close> \<^theory_text>\<open>Ladder_Policy\<close> and \<^theory_text>\<open>Ladder_Properties\<close> (\<^verbatim>\<open>llama-vbr-policy.h\<close>: the order in
  which children are degraded), \<^theory_text>\<open>Ladder_Precision\<close> (\<^verbatim>\<open>llama-vbr-precision.h\<close>,
  \<^verbatim>\<open>llama-vbr-transaction.h\<close>), \<^theory_text>\<open>Cache_Budget\<close> and \<^theory_text>\<open>Budget_Properties\<close>
  (\<^verbatim>\<open>llama-cache-budget.cpp\<close>: a plan that is said to fit does fit).

  \<^bold>\<open>How the theorems compose.\<close> The cache theorems rest on the exact behaviour of the cells and of the
  ownership index: a run of the cache from its constructor keeps both consistent; the search finds
  slots in which placing the batch is defined; planning places batches and undoes them exactly; equal
  content epochs mean that the rows of a sequence are still there, which is what a checkpoint relies on;
  and the tracker is told of every cell that changed.

  \<^bold>\<open>Not modelled.\<close> Tensor contents, masks, graphs and the state file of the cache; the physical pages,
  device streams and clocks of the tiering controller; the mutation scopes that wrap the edits (their
  registry and ring are modelled by themselves) and the generation tracker behind the recorded calls;
  the exception handlers of failed allocations, except where a failed allocation leaves state behind
  (the mask of an ownership view). An edit of the cache that shifts or divides positions is specified
  for ranges whose cells belong to the edited sequence alone: for shared cells the code moves the cell
  of every owner but updates the index and the epoch of one. A copy between streams is specified for
  full copies without generation tracking, which is what the code asserts. Of the batches, the extended interface that collects rows and the
  placeholder of graph reservation are left out. Of the grammars, the parser of grammar texts and the printer are not
  modelled, nor are the regular expressions of triggers, which are a parameter. Backends, model files,
  tokenizers, other samplers and the server are not modelled.
\<close>

end
